(* ===== verification/Prelude.thy ===== *)
theory Prelude
  imports Main "HOL-Library.Word" "HOL-Library.Monad_Syntax"
begin

unbundle bit_operations_syntax

text \<open>
  Shared by every component of the development: the machine types of the library
  (\<open>yat::byte\<close>, \<open>yat::uint16\<close>, \<open>yat::uint32\<close>, \<open>yat::uint64\<close>), byte-addressed memory
  as the code sees it through \<open>char*\<close> pointers, the little-endian layout of a word in that
  memory, and the lemmas on bits, bytes and memory that the component proofs run on.
  The collections \<open>byte_simps\<close> (bytes of words) and \<open>mem_simps\<close> (reads after writes) are
  filled here and extended by the components.
\<close>

named_theorems byte_simps "words as lists of bytes"
named_theorems mem_simps "reads and writes of byte ranges of a memory"

type_synonym byte = "8 word"
type_synonym u16 = "16 word"
type_synonym u32 = "32 word"
type_synonym u64 = "64 word"

section \<open>Words as lists of bytes, least significant byte first\<close>

fun le_join :: "byte list \<Rightarrow> 'a::len word" where
  "le_join [] = 0"
| "le_join (b # bs) = ucast b OR push_bit 8 (le_join bs)"

definition le_split :: "nat \<Rightarrow> 'a::len word \<Rightarrow> byte list" where
  "le_split n w = map (\<lambda>i. ucast (drop_bit (8 * i) w)) [0..<n]"

lemma length_le_split [simp]: "length (le_split n w) = n"
  by (simp add: le_split_def)

lemma nth_le_split [byte_simps]: "i < n \<Longrightarrow> le_split n w ! i = ucast (drop_bit (8 * i) w)"
  by (simp add: le_split_def)

lemma bit_nth_le_split [byte_simps]:
  "i < n \<Longrightarrow> bit (le_split n w ! i) j \<longleftrightarrow> j < 8 \<and> bit w (8 * i + j)"
  by (simp add: nth_le_split bit_simps)

lemma bit_le_join [byte_simps]:
  "bit (le_join bs :: 'a::len word) n \<longleftrightarrow>
     n < LENGTH('a) \<and> n div 8 < length bs \<and> bit (bs ! (n div 8)) (n mod 8)"
proof (induction bs arbitrary: n)
  case Nil
  then show ?case by simp
next
  case (Cons b bs)
  show ?case
  proof (cases "n < 8")
    case True
    then show ?thesis by (auto simp: bit_simps)
  next
    case False
    define k where "k = n - 8"
    with False have n: "n = k + 8" by simp
    have "\<not> bit b n" using False bit_imp_le_length [of b n] by auto
    moreover have "(k + 8) div 8 = Suc (k div 8)" by simp
    ultimately show ?thesis using Cons.IH [of k] False
      by (auto simp: n bit_simps)
  qed
qed

lemma le_split_join [byte_simps]:
  assumes "length bs = n" and "8 * n \<le> LENGTH('a::len)"
  shows "le_split n (le_join bs :: 'a word) = bs"
proof (rule nth_equalityI)
  show "length (le_split n (le_join bs :: 'a word)) = length bs" using assms by simp
  fix i assume i: "i < length (le_split n (le_join bs :: 'a word))"
  show "le_split n (le_join bs :: 'a word) ! i = bs ! i"
  proof (rule bit_word_eqI)
    fix j assume "j < LENGTH(8)"
    then have j: "j < 8" by simp
    have d: "(8 * i + j) div 8 = i" and m: "(8 * i + j) mod 8 = j"
      using j by auto
    have "8 * i + j < LENGTH('a)" using i j assms by simp
    then show "bit (le_split n (le_join bs :: 'a word) ! i) j = bit (bs ! i) j"
      using i j assms(1) by (simp add: bit_nth_le_split bit_le_join d m)
  qed
qed

lemma le_join_split [byte_simps]:
  assumes "8 * n = LENGTH('a::len)"
  shows "le_join (le_split n w) = (w :: 'a word)"
proof (rule bit_word_eqI)
  fix k assume k: "k < LENGTH('a)"
  then have "k div 8 < n" using assms by (simp add: less_mult_imp_div_less mult.commute)
  then show "bit (le_join (le_split n w) :: 'a word) k = bit w k"
    using k by (simp add: bit_le_join bit_nth_le_split)
qed

lemma le_split_eqI:
  assumes "\<And>i j. i < n \<Longrightarrow> j < 8 \<Longrightarrow> bit w (8 * i + j) = bit (bs ! i) j"
    and "length bs = n"
  shows "le_split n w = bs"
proof (rule nth_equalityI)
  show "length (le_split n w) = length bs" using assms(2) by simp
  fix i assume "i < length (le_split n w)"
  then have "i < n" by simp
  then show "le_split n w ! i = bs ! i"
    using assms(1) by (intro bit_word_eqI) (simp add: bit_nth_le_split)
qed

section \<open>Byte-addressed memory\<close>

type_synonym mem = "nat \<Rightarrow> byte"

definition rd :: "mem \<Rightarrow> nat \<Rightarrow> nat \<Rightarrow> byte list" where
  "rd m a n = map (\<lambda>i. m (a + i)) [0..<n]"

definition wr :: "mem \<Rightarrow> nat \<Rightarrow> byte list \<Rightarrow> mem" where
  "wr m a bs = (\<lambda>x. if a \<le> x \<and> x < a + length bs then bs ! (x - a) else m x)"

lemma length_rd [simp]: "length (rd m a n) = n"
  by (simp add: rd_def)

lemma nth_rd [mem_simps]: "i < n \<Longrightarrow> rd m a n ! i = m (a + i)"
  by (simp add: rd_def)

lemma rd_wr_same [mem_simps]: "length bs = n \<Longrightarrow> rd (wr m a bs) a n = bs"
  by (rule nth_equalityI) (auto simp: rd_def wr_def)

lemma wr_apply [mem_simps]:
  "wr m a bs x = (if a \<le> x \<and> x < a + length bs then bs ! (x - a) else m x)"
  by (simp add: wr_def)

lemma wr_wr_append [mem_simps]: "wr (wr m a bs) (a + length bs) cs = wr m a (bs @ cs)"
  by (rule ext) (auto simp: wr_def nth_append)

lemma wr_commute:
  "a + length bs \<le> c \<or> c + length cs \<le> a \<Longrightarrow> wr (wr m a bs) c cs = wr (wr m c cs) a bs"
  by (rule ext) (auto simp: wr_def)

lemma rd_Suc: "rd m a (Suc n) = m a # rd m (Suc a) n"
  by (rule nth_equalityI) (auto simp: nth_Cons rd_def simp del: upt_Suc split: nat.splits)

lemma rd_add: "rd m a (n + k) = rd m a n @ rd m (a + n) k"
  by (rule nth_equalityI) (auto simp: rd_def nth_append)

section \<open>Lists\<close>

lemma take_drop_nth_Suc: "n < length xs \<Longrightarrow> drop n xs = xs ! n # drop (Suc n) xs"
  by (rule Cons_nth_drop_Suc [symmetric])

section \<open>Numbers\<close>

lemma nat_or_add: "y < 2 ^ n \<Longrightarrow> acc * 2 ^ n OR y = acc * 2 ^ n + (y :: nat)"
proof -
  assume y: "y < 2 ^ n"
  have "\<not> bit (acc * 2 ^ n) k \<or> \<not> bit y k" for k
  proof (cases "k < n")
    case True
    then show ?thesis by (simp add: bit_push_bit_iff flip: push_bit_eq_mult)
  next
    case False
    then have "y div 2 ^ k = 0" using y by (meson div_less less_le_trans not_less one_le_numeral power_increasing)
    then show ?thesis by (simp add: bit_iff_odd)
  qed
  then have "acc * 2 ^ n AND y = 0" by (intro bit_eqI) (simp add: bit_and_iff)
  then show ?thesis by (simp add: disjunctive_add_eq_or)
qed

end
