(* ===== verification/Transitions.thy ===== *)
theory Transitions
  imports Main
begin

text \<open>
  Runs of a system whose steps are partial functions: what the models of the synchronisation classes and of the shared
  pointers have in common. \<open>guarded_invariant\<close> is the interface for an invariant, \<open>balance\<close> the one
  for a quantity that every event changes by a known amount.
\<close>

fun runs :: "('e \<Rightarrow> 's \<Rightarrow> 's option) \<Rightarrow> 'e list \<Rightarrow> 's \<Rightarrow> 's option" where
  "runs step [] s = Some s"
| "runs step (e # es) s = Option.bind (step e s) (runs step es)"

text \<open>The condition \<open>ok\<close> holds at each event of the run.\<close>

fun along :: "('e \<Rightarrow> 's \<Rightarrow> 's option) \<Rightarrow> ('e \<Rightarrow> 's \<Rightarrow> bool) \<Rightarrow> 'e list \<Rightarrow> 's \<Rightarrow> bool" where
  "along step ok [] s = True"
| "along step ok (e # es) s = (ok e s \<and> (case step e s of None \<Rightarrow> True | Some s' \<Rightarrow> along step ok es s'))"

text \<open>The sum of what the events of the run change.\<close>

fun total :: "('e \<Rightarrow> 's \<Rightarrow> 's option) \<Rightarrow> ('e \<Rightarrow> 's \<Rightarrow> int) \<Rightarrow> 'e list \<Rightarrow> 's \<Rightarrow> int" where
  "total step g [] s = 0"
| "total step g (e # es) s = g e s + (case step e s of None \<Rightarrow> 0 | Some s' \<Rightarrow> total step g es s')"

lemma runs_Cons_Some: "runs step (e # es) s = Some t \<longleftrightarrow> (\<exists>u. step e s = Some u \<and> runs step es u = Some t)"
  by (auto split: bind_splits)

lemma runs_append: "runs step (es @ fs) s = Option.bind (runs step es s) (runs step fs)"
  by (induction es arbitrary: s) (auto split: bind_splits)

lemma along_True [simp]: "along step (\<lambda>_ _. True) es s"
  by (induction es arbitrary: s) (auto split: option.splits)

text \<open>Sums over the threads of a system.\<close>

lemma sum_map_update:
  "t < length ps \<Longrightarrow>
     sum_list (map f (ps[t := p])) + f (ps ! t) = sum_list (map f ps) + (f p :: nat)"
  by (induction ps arbitrary: t) (auto split: nat.splits)

lemma sum_map_ge: "t < length ps \<Longrightarrow> (f (ps ! t) :: nat) \<le> sum_list (map f ps)"
  by (induction ps arbitrary: t) (auto simp: nth_Cons split: nat.splits intro: trans_le_add2)

lemma count_remove1: "count_list (remove1 i xs) j = (if i = j then count_list xs j - 1 else count_list xs j)"
  by (induction xs) (auto simp: count_list_0_iff)

locale guarded_invariant =
  fixes step :: "'e \<Rightarrow> 's \<Rightarrow> 's option" and ok :: "'e \<Rightarrow> 's \<Rightarrow> bool" and inv :: "'s \<Rightarrow> bool"
  assumes preserved: "inv s \<Longrightarrow> ok e s \<Longrightarrow> step e s = Some t \<Longrightarrow> inv t"
begin

lemma holds_after: "inv s \<Longrightarrow> along step ok es s \<Longrightarrow> runs step es s = Some t \<Longrightarrow> inv t"
proof (induction es arbitrary: s)
  case Nil
  then show ?case by simp
next
  case (Cons e es)
  then obtain u where u: "step e s = Some u" "runs step es u = Some t" by (auto split: bind_splits)
  then have "inv u" "along step ok es u" using Cons.prems preserved by auto
  then show ?case using Cons.IH u(2) by blast
qed

end

locale invariant_of = guarded_invariant step "\<lambda>_ _. True" inv
  for step :: "'e \<Rightarrow> 's \<Rightarrow> 's option" and inv :: "'s \<Rightarrow> bool"
begin

lemma always_after: "inv s \<Longrightarrow> runs step es s = Some t \<Longrightarrow> inv t"
  by (rule holds_after) auto

end

locale balance =
  fixes step :: "'e \<Rightarrow> 's \<Rightarrow> 's option" and spent :: "'e \<Rightarrow> 's \<Rightarrow> int" and level :: "'s \<Rightarrow> int"
  assumes level_step: "step e s = Some t \<Longrightarrow> level t = level s - spent e s"
begin

lemma level_after: "runs step es s = Some t \<Longrightarrow> level t = level s - total step spent es s"
proof (induction es arbitrary: s)
  case Nil
  then show ?case by simp
next
  case (Cons e es)
  then obtain u where u: "step e s = Some u" "runs step es u = Some t" by (auto split: bind_splits)
  then show ?case using Cons.IH [OF u(2)] level_step [OF u(1)] by simp
qed

end

end
