(* ===== verification/SharedPtr.thy ===== *)
theory SharedPtr
  imports Prelude Transitions
begin

text \<open>
  \<open>SharedPtr\<close> and \<open>WeakPtr\<close> (\<open>include/yat/memory/SharedPtr.h\<close>) and their counters
  (\<open>include/yat/utils/ReferenceCounter.h\<close>), with the default lock, so that every operation on a counter is one
  step, and several threads. The pointer variables of the program are slots, \<open>None\<close> before the constructor and after
  the destructor; a slot is used by one thread at a time. A pointer is its \<open>m_data\<close> (0 for null) and its \<open>m_count\<close>. The
  rest of a \<open>release\<close>, behind the decrement, is in \<open>releasing\<close> until the thread gets there. The use of a null or
  deleted counter and of a deleted object, and a second deletion, set \<open>sp_fault\<close>.
\<close>

section \<open>The counters\<close>

record counter =
  m_use_count :: u32
  m_weak_count :: u32
  counted_data :: nat

definition CountBase_ctor :: "nat \<Rightarrow> counter" where
  "CountBase_ctor p = \<lparr>m_use_count = 1, m_weak_count = 0, counted_data = p\<rparr>"

definition add_ref :: "counter \<Rightarrow> counter" where
  "add_ref c = c\<lparr>m_use_count := m_use_count c + 1\<rparr>"

definition add_weak_ref :: "counter \<Rightarrow> counter" where
  "add_weak_ref c = c\<lparr>m_weak_count := m_weak_count c + 1\<rparr>"

definition dec_ref :: "counter \<Rightarrow> counter \<times> (u32 \<times> u32)" where
  "dec_ref c = (let c' = c\<lparr>m_use_count := m_use_count c - 1\<rparr> in (c', (m_use_count c', m_weak_count c')))"

definition dec_weak_ref :: "counter \<Rightarrow> counter \<times> (u32 \<times> u32)" where
  "dec_weak_ref c = (let c' = c\<lparr>m_weak_count := m_weak_count c - 1\<rparr> in (c', (m_use_count c', m_weak_count c')))"

section \<open>The state\<close>

datatype releasing = Dispose nat bool | Delete nat

type_synonym slot = "(nat \<times> nat option) option"

record ptrs =
  counters :: "nat \<rightharpoonup> counter"
  next_counter :: nat
  live_data :: "nat set"
  next_data :: nat
  shareds :: "slot list"
  weaks :: "slot list"
  releasing :: "releasing list"
  converting :: "(nat \<times> nat) list"
  sp_fault :: bool

definition ptrs_init :: "nat \<Rightarrow> nat \<Rightarrow> ptrs" where
  "ptrs_init n k =
     \<lparr>counters = Map.empty, next_counter = 0, live_data = {}, next_data = 1, shareds = replicate n None, weaks = replicate k None,
      releasing = [], converting = [], sp_fault = False\<rparr>"

definition set_shared :: "nat \<Rightarrow> slot \<Rightarrow> ptrs \<Rightarrow> ptrs" where
  "set_shared v p s = s\<lparr>shareds := (shareds s)[v := p]\<rparr>"

definition set_weak :: "nat \<Rightarrow> slot \<Rightarrow> ptrs \<Rightarrow> ptrs" where
  "set_weak v p s = s\<lparr>weaks := (weaks s)[v := p]\<rparr>"

definition set_counter :: "nat \<Rightarrow> counter \<Rightarrow> ptrs \<Rightarrow> ptrs" where
  "set_counter i c s = s\<lparr>counters := (counters s)(i \<mapsto> c)\<rparr>"

definition crash :: "ptrs \<Rightarrow> ptrs" where
  "crash s = s\<lparr>sp_fault := True\<rparr>"

section \<open>The operations\<close>

text \<open>\<open>SharedPtr (T* p)\<close>, with \<open>p\<close> null or a new object.\<close>

definition SharedPtr_new :: "nat \<Rightarrow> bool \<Rightarrow> ptrs \<Rightarrow> ptrs" where
  "SharedPtr_new v null s =
     (let i = next_counter s; p = (if null then 0 else next_data s) in
      set_shared v (Some (p, Some i))
        (set_counter i (CountBase_ctor p)
          (s\<lparr>next_counter := Suc i, next_data := (if null then next_data s else Suc p),
             live_data := (if null then live_data s else insert p (live_data s))\<rparr>)))"

text \<open>The copy constructor: \<open>m_count->add_ref ()\<close> without a test.\<close>

definition SharedPtr_copy :: "nat \<Rightarrow> nat \<times> nat option \<Rightarrow> ptrs \<Rightarrow> ptrs" where
  "SharedPtr_copy v src s =
     (case snd src of
        None \<Rightarrow> crash s
      | Some i \<Rightarrow>
          (case counters s i of
             None \<Rightarrow> crash s
           | Some c \<Rightarrow> set_shared v (Some src) (set_counter i (add_ref c) s)))"

text \<open>The assignment behind the release of the old counter (the slot is empty then): here \<open>m_count\<close> is tested.\<close>

definition SharedPtr_assign :: "nat \<Rightarrow> nat \<times> nat option \<Rightarrow> ptrs \<Rightarrow> ptrs" where
  "SharedPtr_assign v src s =
     (case snd src of
        None \<Rightarrow> set_shared v (Some src) s
      | Some i \<Rightarrow>
          (case counters s i of
             None \<Rightarrow> crash s
           | Some c \<Rightarrow> set_shared v (Some src) (set_counter i (add_ref c) s)))"

text \<open>\<open>SharedCounter::release\<close> up to the decrement; then \<open>dispose\<close> and \<open>delete m_count\<close>.\<close>

definition SharedCounter_release :: "nat \<Rightarrow> nat option \<Rightarrow> ptrs \<Rightarrow> ptrs" where
  "SharedCounter_release v cnt s =
     (case cnt of
        None \<Rightarrow> set_shared v None s
      | Some i \<Rightarrow>
          (case counters s i of
             None \<Rightarrow> crash s
           | Some c \<Rightarrow>
               let (c', (use, weak)) = dec_ref c; s' = set_shared v None (set_counter i c' s)
               in if use = 0 then s'\<lparr>releasing := releasing s @ [Dispose i (weak = 0)]\<rparr> else s'))"

definition counter_dispose :: "nat \<Rightarrow> bool \<Rightarrow> ptrs \<Rightarrow> ptrs" where
  "counter_dispose i final s =
     (let s' = s\<lparr>releasing := remove1 (Dispose i final) (releasing s) @ (if final then [Delete i] else [])\<rparr> in
      case counters s i of
        None \<Rightarrow> crash s
      | Some c \<Rightarrow>
          if counted_data c = 0 then s'
          else if counted_data c \<in> live_data s then s'\<lparr>live_data := live_data s - {counted_data c}\<rparr>
          else crash s)"

definition counter_delete :: "nat \<Rightarrow> ptrs \<Rightarrow> ptrs" where
  "counter_delete i s =
     (if counters s i = None then crash s
      else s\<lparr>counters := (counters s)(i := None), releasing := remove1 (Delete i) (releasing s)\<rparr>)"

text \<open>\<open>SharedPtr (const WeakPtr<T>&)\<close>, which \<open>WeakPtr::lock\<close> calls: no test of the pointer to the counter.\<close>

definition SharedPtr_from_weak :: "nat \<Rightarrow> nat \<times> nat option \<Rightarrow> ptrs \<Rightarrow> ptrs" where
  "SharedPtr_from_weak v src s =
     (case snd src of
        None \<Rightarrow> crash s
      | Some i \<Rightarrow>
          (case counters s i of
             None \<Rightarrow> crash s
           | Some c \<Rightarrow>
               if 0 < m_use_count c then set_shared v (Some src) (set_counter i (add_ref c) s)
               else set_shared v (Some (0, None)) s))"

text \<open>
  \<open>SharedPtr (const WeakPtr<Y>&)\<close>: a counter of its own, a look at the use count, and the copy of the data; the
  counter of the weak pointer only comes with the assignment behind it.
\<close>

definition convert_begin :: "nat \<Rightarrow> nat \<Rightarrow> nat \<times> nat option \<Rightarrow> ptrs \<Rightarrow> ptrs" where
  "convert_begin v w src s =
     (let s' = SharedPtr_new v True s in
      case snd src of
        None \<Rightarrow> s'
      | Some i \<Rightarrow>
          (case counters s i of
             None \<Rightarrow> crash s
           | Some c \<Rightarrow>
               if m_use_count c = 0 then s'
               else set_shared v (Some (fst src, Some (next_counter s))) (s'\<lparr>converting := (v, w) # converting s\<rparr>)))"

definition convert_end :: "nat \<Rightarrow> nat \<Rightarrow> nat \<times> nat option \<Rightarrow> nat \<Rightarrow> nat \<times> nat option \<Rightarrow> ptrs \<Rightarrow> ptrs" where
  "convert_end v w src own dst s =
     (let s' = s\<lparr>counters := (counters s)(own := None), converting := remove1 (v, w) (converting s)\<rparr> in
      case snd src of
        None \<Rightarrow> crash s
      | Some i \<Rightarrow>
          (case counters s i of
             None \<Rightarrow> crash s
           | Some c \<Rightarrow>
               if 0 < m_use_count c then set_shared v (Some (fst dst, Some i)) (set_counter i (add_ref c) s')
               else set_shared v (Some (fst dst, None)) s'))"

text \<open>Weak pointers.\<close>

definition WeakPtr_copy :: "nat \<Rightarrow> nat \<times> nat option \<Rightarrow> ptrs \<Rightarrow> ptrs" where
  "WeakPtr_copy v src s =
     (case snd src of
        None \<Rightarrow> set_weak v (Some src) s
      | Some i \<Rightarrow>
          (case counters s i of
             None \<Rightarrow> crash s
           | Some c \<Rightarrow> set_weak v (Some src) (set_counter i (add_weak_ref c) s)))"

definition WeakCounter_release :: "nat \<Rightarrow> nat option \<Rightarrow> ptrs \<Rightarrow> ptrs" where
  "WeakCounter_release v cnt s =
     (case cnt of
        None \<Rightarrow> set_weak v None s
      | Some i \<Rightarrow>
          (case counters s i of
             None \<Rightarrow> crash s
           | Some c \<Rightarrow>
               let (c', (use, weak)) = dec_weak_ref c; s' = set_weak v None (set_counter i c' s)
               in if use = 0 \<and> weak = 0 then s'\<lparr>releasing := releasing s @ [Delete i]\<rparr> else s'))"

text \<open>The use of the object through \<open>get\<close>, \<open>operator*\<close> or \<open>operator->\<close>.\<close>

definition deref :: "nat \<times> nat option \<Rightarrow> ptrs \<Rightarrow> ptrs" where
  "deref p s = (if fst p \<in> live_data s then s else crash s)"

definition sp_use_count :: "nat option \<Rightarrow> ptrs \<Rightarrow> u32 option" where
  "sp_use_count cnt s = (case cnt of None \<Rightarrow> Some 0 | Some i \<Rightarrow> map_option m_use_count (counters s i))"

definition sp_unique :: "nat option \<Rightarrow> ptrs \<Rightarrow> bool option" where
  "sp_unique cnt s = (case cnt of None \<Rightarrow> Some True | Some i \<Rightarrow> map_option (\<lambda>c. m_use_count c = 1) (counters s i))"

definition expired :: "nat option \<Rightarrow> ptrs \<Rightarrow> bool option" where
  "expired cnt s = map_option (\<lambda>u. u = 0) (sp_use_count cnt s)"

section \<open>Programs\<close>

datatype ptr_event =
    New nat bool | Copy nat nat | Assign nat nat | Release nat | DisposeCall nat bool | DeleteCounter nat | Swap nat nat
  | Lock nat nat | ConvertBegin nat nat | ConvertEnd nat nat | Deref nat
  | NewWeak nat | WeakOf nat nat | CopyWeak nat nat | ReleaseWeak nat

definition free_slot :: "nat \<Rightarrow> slot list \<Rightarrow> bool" where
  "free_slot v xs \<longleftrightarrow> v < length xs \<and> xs ! v = None"

definition slot_at :: "nat \<Rightarrow> slot list \<Rightarrow> slot" where
  "slot_at v xs = (if v < length xs then xs ! v else None)"

text \<open>An event that cannot happen in a state is \<open>None\<close>: a variable must be there to be used, and must not to be constructed.\<close>

fun ptr_step :: "ptr_event \<Rightarrow> ptrs \<Rightarrow> ptrs option" where
  "ptr_step (New v null) s = (if free_slot v (shareds s) then Some (SharedPtr_new v null s) else None)"
| "ptr_step (Copy v w) s =
     (if free_slot v (shareds s) then map_option (\<lambda>p. SharedPtr_copy v p s) (slot_at w (shareds s)) else None)"
| "ptr_step (Assign v w) s =
     (if free_slot v (shareds s) then map_option (\<lambda>p. SharedPtr_assign v p s) (slot_at w (shareds s)) else None)"
| "ptr_step (Release v) s = map_option (\<lambda>p. SharedCounter_release v (snd p) s) (slot_at v (shareds s))"
| "ptr_step (DisposeCall i final) s = (if Dispose i final \<in> set (releasing s) then Some (counter_dispose i final s) else None)"
| "ptr_step (DeleteCounter i) s = (if Delete i \<in> set (releasing s) then Some (counter_delete i s) else None)"
| "ptr_step (Swap v w) s =
     (case (slot_at v (shareds s), slot_at w (shareds s)) of
        (Some p, Some q) \<Rightarrow> Some (set_shared v (Some q) (set_shared w (Some p) s))
      | _ \<Rightarrow> None)"
| "ptr_step (Lock v w) s =
     (if free_slot v (shareds s) then map_option (\<lambda>p. SharedPtr_from_weak v p s) (slot_at w (weaks s)) else None)"
| "ptr_step (ConvertBegin v w) s =
     (if free_slot v (shareds s) then map_option (\<lambda>p. convert_begin v w p s) (slot_at w (weaks s)) else None)"
| "ptr_step (ConvertEnd v w) s =
     (if (v, w) \<in> set (converting s) then
        (case (slot_at w (weaks s), slot_at v (shareds s)) of
           (Some p, Some (d, Some own)) \<Rightarrow> Some (convert_end v w p own (d, Some own) s)
         | _ \<Rightarrow> None)
      else None)"
| "ptr_step (Deref v) s =
     (case slot_at v (shareds s) of Some p \<Rightarrow> if fst p = 0 then None else Some (deref p s) | None \<Rightarrow> None)"
| "ptr_step (NewWeak v) s = (if free_slot v (weaks s) then Some (set_weak v (Some (0, None)) s) else None)"
| "ptr_step (WeakOf v w) s =
     (if free_slot v (weaks s) then map_option (\<lambda>p. WeakPtr_copy v p s) (slot_at w (shareds s)) else None)"
| "ptr_step (CopyWeak v w) s =
     (if free_slot v (weaks s) then map_option (\<lambda>p. WeakPtr_copy v p s) (slot_at w (weaks s)) else None)"
| "ptr_step (ReleaseWeak v) s = map_option (\<lambda>p. WeakCounter_release v (snd p) s) (slot_at v (weaks s))"

section \<open>The invariant\<close>

fun slot_refs :: "nat \<Rightarrow> slot \<Rightarrow> nat" where
  "slot_refs i (Some (d, Some j)) = (if j = i then 1 else 0)"
| "slot_refs i _ = 0"

definition refs_to :: "nat \<Rightarrow> slot list \<Rightarrow> nat" where
  "refs_to i xs = sum_list (map (slot_refs i) xs)"

fun slot_ok :: "(nat \<rightharpoonup> counter) \<Rightarrow> slot \<Rightarrow> bool" where
  "slot_ok m None = True"
| "slot_ok m (Some (d, None)) = (d = 0)"
| "slot_ok m (Some (d, Some i)) = (\<exists>c. m i = Some c \<and> counted_data c = d)"

text \<open>
  The life of a counter: in use, then its object is about to be deleted, then either only weak pointers are left or the
  counter is about to be deleted, too.
\<close>

definition count_ok :: "counter option \<Rightarrow> nat set \<Rightarrow> nat \<Rightarrow> nat \<Rightarrow> nat \<Rightarrow> nat \<Rightarrow> nat \<Rightarrow> bool" where
  "count_ok oc live shared weak d0 d1 x \<longleftrightarrow>
     (case oc of
        None \<Rightarrow> shared = 0 \<and> weak = 0 \<and> d0 = 0 \<and> d1 = 0 \<and> x = 0
      | Some c \<Rightarrow>
          unat (m_use_count c) = shared \<and> unat (m_weak_count c) = weak
          \<and> (if 0 < shared then d0 = 0 \<and> d1 = 0 \<and> x = 0
             else d0 + d1 + x \<le> 1 \<and> (weak = 0 \<longleftrightarrow> d1 + x = 1))
          \<and> (counted_data c \<noteq> 0 \<longrightarrow> (counted_data c \<in> live \<longleftrightarrow> 0 < shared + d0 + d1)))"

definition counter_ok :: "nat \<Rightarrow> ptrs \<Rightarrow> bool" where
  "counter_ok i s \<longleftrightarrow>
     count_ok (counters s i) (live_data s) (refs_to i (shareds s)) (refs_to i (weaks s))
       (count_list (releasing s) (Dispose i False)) (count_list (releasing s) (Dispose i True)) (count_list (releasing s) (Delete i))"

definition ptrs_inv :: "ptrs \<Rightarrow> bool" where
  "ptrs_inv s \<longleftrightarrow>
     \<not> sp_fault s \<and> converting s = [] \<and> length (shareds s) < 2 ^ 32 \<and> length (weaks s) < 2 ^ 32 \<and> 0 < next_data s \<and> 0 \<notin> live_data s
     \<and> (\<forall>i. counter_ok i s)
     \<and> (\<forall>i c. counters s i = Some c \<longrightarrow> i < next_counter s \<and> counted_data c < next_data s)
     \<and> (\<forall>i j c d. counters s i = Some c \<longrightarrow> counters s j = Some d \<longrightarrow> counted_data c = counted_data d \<longrightarrow> counted_data c \<noteq> 0 \<longrightarrow> i = j)
     \<and> (\<forall>p \<in> live_data s. \<exists>i c. counters s i = Some c \<and> counted_data c = p)
     \<and> (\<forall>p \<in> set (shareds s) \<union> set (weaks s). slot_ok (counters s) p)"

lemma refs_to_update:
  "v < length xs \<Longrightarrow> refs_to i (xs[v := p]) + slot_refs i (xs ! v) = refs_to i xs + slot_refs i p"
  unfolding refs_to_def by (rule sum_map_update)

lemma refs_to_ge: "p \<in> set xs \<Longrightarrow> slot_refs i p \<le> refs_to i xs"
  unfolding refs_to_def by (metis in_set_conv_nth sum_map_ge)

lemma slot_refs_le: "slot_refs i p \<le> 1"
  by (cases "(i, p)" rule: slot_refs.cases) auto

lemma refs_to_le: "refs_to i xs \<le> length xs"
proof (induction xs)
  case (Cons p xs)
  then show ?case using slot_refs_le [of i p] by (simp add: refs_to_def)
qed (simp add: refs_to_def)

lemma count_ok_live:
  "(\<And>c. oc = Some c \<Longrightarrow> counted_data c \<noteq> 0 \<Longrightarrow> counted_data c \<in> l \<longleftrightarrow> counted_data c \<in> l') \<Longrightarrow>
     count_ok oc l n w d0 d1 x = count_ok oc l' n w d0 d1 x"
  by (cases oc) (auto simp: count_ok_def)

lemma slot_refs_pos: "slot_ok m p \<Longrightarrow> slot_refs i p = 0 \<Longrightarrow> slot_ok (m(i := oc)) p"
  by (cases "(m, p)" rule: slot_ok.cases) (auto split: if_splits)

lemma slot_ok_same_data:
  "slot_ok m p \<Longrightarrow> m i = Some c \<Longrightarrow> counted_data c' = counted_data c \<Longrightarrow> slot_ok (m(i \<mapsto> c')) p"
  by (cases "(m, p)" rule: slot_ok.cases) auto

lemma ptrs_inv_change:
  assumes I: "ptrs_inv s"
    and same: "sp_fault s' = sp_fault s" "converting s' = converting s" "length (shareds s') = length (shareds s)"
      "length (weaks s') = length (weaks s)" "next_counter s \<le> next_counter s'" "next_data s \<le> next_data s'"
    and cs: "counters s' = (counters s)(i := oc)"
    and frame: "\<And>j. j \<noteq> i \<Longrightarrow> refs_to j (shareds s') = refs_to j (shareds s) \<and> refs_to j (weaks s') = refs_to j (weaks s)
        \<and> count_list (releasing s') (Dispose j False) = count_list (releasing s) (Dispose j False)
        \<and> count_list (releasing s') (Dispose j True) = count_list (releasing s) (Dispose j True)
        \<and> count_list (releasing s') (Delete j) = count_list (releasing s) (Delete j)"
    and good: "counter_ok i s'"
    and new: "\<And>c. oc = Some c \<Longrightarrow> i < next_counter s' \<and> counted_data c < next_data s' \<and>
        (case counters s i of None \<Rightarrow> counted_data c = 0 \<or> next_data s \<le> counted_data c | Some c0 \<Rightarrow> counted_data c = counted_data c0)"
    and live: "0 \<notin> live_data s'"
      "\<And>p. (\<And>c. oc = Some c \<or> counters s i = Some c \<Longrightarrow> counted_data c \<noteq> p) \<Longrightarrow> p \<in> live_data s' \<longleftrightarrow> p \<in> live_data s"
      "\<And>c. oc = None \<Longrightarrow> counters s i = Some c \<Longrightarrow> counted_data c \<notin> live_data s'"
    and slots: "\<And>p. p \<in> set (shareds s') \<union> set (weaks s') \<Longrightarrow> p \<in> set (shareds s) \<union> set (weaks s) \<or> slot_ok (counters s') p"
  shows "ptrs_inv s'"
proof -
  have small: "counted_data c < next_data s" if "counters s j = Some c" for j c using I that by (auto simp: ptrs_inv_def)
  have other: "counted_data d \<noteq> counted_data c" if "j \<noteq> i" "counters s j = Some d" "counted_data d \<noteq> 0"
      and c: "oc = Some c \<or> counters s i = Some c" for j c d
  proof (cases "counters s i")
    case None
    then have "oc = Some c" using c by simp
    then show ?thesis using new [of c] None small [OF that(2)] that(3) by auto
  next
    case (Some c0)
    then have "counted_data c = counted_data c0" using c new by fastforce
    then show ?thesis using I that(1-3) Some unfolding ptrs_inv_def by metis
  qed
  have ok: "counter_ok j s'" for j
  proof (cases "j = i")
    case False
    have "counter_ok j s" using I by (simp add: ptrs_inv_def)
    moreover have "counted_data d \<in> live_data s' \<longleftrightarrow> counted_data d \<in> live_data s"
      if d: "counters s j = Some d" "counted_data d \<noteq> 0" for d
    proof (rule live(2))
      fix c assume "oc = Some c \<or> counters s i = Some c"
      from other [OF False d this] show "counted_data c \<noteq> counted_data d" by simp
    qed
    then have "count_ok (counters s j) (live_data s') n w d0 d1 x = count_ok (counters s j) (live_data s) n w d0 d1 x" for n w d0 d1 x
      by (rule count_ok_live)
    ultimately show ?thesis using frame [OF False] False by (simp add: counter_ok_def cs)
  qed (use good in simp)
  have slot: "slot_ok (counters s') p" if p: "p \<in> set (shareds s') \<union> set (weaks s')" for p
  proof (cases "slot_ok (counters s') p")
    case False
    then have p0: "slot_ok (counters s) p" using slots [OF p] I by (auto simp: ptrs_inv_def)
    show ?thesis
    proof (cases oc)
      case None
      then have "refs_to i (shareds s') = 0" "refs_to i (weaks s') = 0"
        using good cs by (auto simp: counter_ok_def count_ok_def)
      then have "slot_refs i p = 0" using p refs_to_ge [of p _ i] by (metis Un_iff le_zero_eq)
      then show ?thesis using slot_refs_pos [OF p0] cs by simp
    next
      case (Some c)
      show ?thesis
      proof (cases "counters s i")
        case None
        then have "slot_refs i p = 0" using p0 by (cases "(counters s, p)" rule: slot_ok.cases) auto
        then show ?thesis using slot_refs_pos [OF p0] cs by simp
      next
        case (Some c0)
        then show ?thesis using slot_ok_same_data [OF p0 Some] new [OF \<open>oc = Some c\<close>] \<open>oc = Some c\<close> cs by simp
      qed
    qed
  qed simp
  have owned: "\<exists>j c. counters s' j = Some c \<and> counted_data c = p" if p: "p \<in> live_data s'" for p
  proof (cases "\<exists>c. oc = Some c \<and> counted_data c = p")
    case True
    then show ?thesis using cs by (metis fun_upd_same)
  next
    case False
    then have ni: "counted_data c \<noteq> p" if "oc = Some c \<or> counters s i = Some c" for c
      using that p live(3) [of c] new by (cases oc) (auto split: option.splits)
    then have "p \<in> live_data s" using live(2) [of p] p by blast
    then obtain j c where j: "counters s j = Some c" "counted_data c = p" using I unfolding ptrs_inv_def by blast
    then have "j \<noteq> i" using ni by blast
    then show ?thesis using j cs by auto
  qed
  have "i' = j" if "counters s' i' = Some c" "counters s' j = Some d" "counted_data c = counted_data d" "counted_data c \<noteq> 0" for i' j c d
    using that other [of i' c d] other [of j d c] I unfolding cs ptrs_inv_def by (auto split: if_splits)
  moreover have "j < next_counter s' \<and> counted_data c < next_data s'" if c: "counters s' j = Some c" for j c
  proof (cases "j = i")
    case True
    then show ?thesis using c new [of c] cs by simp
  next
    case False
    then have "j < next_counter s \<and> counted_data c < next_data s" using c cs I by (auto simp: ptrs_inv_def)
    then show ?thesis using same(5,6) by simp
  qed
  ultimately show ?thesis
    using I same ok slot owned live(1) unfolding ptrs_inv_def by auto
qed

section \<open>The operations keep it\<close>

lemma slot_refs_Some [simp]: "slot_refs j (Some (d, Some i)) = (if i = j then 1 else 0)" "slot_refs j (Some (d, None)) = 0"
  by simp_all

lemma refs_to_fill: "free_slot v xs \<Longrightarrow> refs_to j (xs[v := p]) = refs_to j xs + slot_refs j p"
  using refs_to_update [of v xs j p] by (simp add: free_slot_def)

lemma refs_to_drop: "slot_at v xs = Some p \<Longrightarrow> refs_to j (xs[v := None]) + slot_refs j (Some p) = refs_to j xs"
  using refs_to_update [of v xs j None] by (simp add: slot_at_def split: if_splits)

lemma refs_to_free: "free_slot v xs \<Longrightarrow> refs_to i xs < length xs"
  using refs_to_fill [of v xs i "Some (0, Some i)"] refs_to_le [of i "xs[v := Some (0, Some i)]"] by simp

lemma slot_at_set: "slot_at v xs = Some p \<Longrightarrow> Some p \<in> set xs"
  by (auto simp: slot_at_def split: if_splits) (metis nth_mem)

lemma in_set_update: "q \<in> set (xs[v := p]) \<Longrightarrow> q = p \<or> q \<in> set xs"
  using set_update_subset_insert by fastforce

lemma u32_Suc: "Suc (unat (c :: u32)) < 2 ^ 32 \<Longrightarrow> unat (c + 1) = Suc (unat c)"
  by (simp add: unat_word_ariths)

lemma u32_pred: "0 < unat (c :: u32) \<Longrightarrow> unat (c - 1) = unat c - 1"
  by (rule unat_minus_one) auto

lemma ptrs_inv_counter:
  assumes "ptrs_inv s" and "counters s i = Some c"
  shows "count_ok (Some c) (live_data s) (refs_to i (shareds s)) (refs_to i (weaks s))
       (count_list (releasing s) (Dispose i False)) (count_list (releasing s) (Dispose i True)) (count_list (releasing s) (Delete i))"
    and "i < next_counter s" and "counted_data c < next_data s" and "0 \<notin> live_data s"
    and "length (shareds s) < 2 ^ 32" and "length (weaks s) < 2 ^ 32"
  using assms by (auto simp: ptrs_inv_def counter_ok_def) (metis)

lemma ptrs_inv_slot:
  assumes "ptrs_inv s" and "slot_at v (shareds s) = Some p \<or> slot_at v (weaks s) = Some p"
  shows "slot_ok (counters s) (Some p)"
proof -
  have "Some p \<in> set (shareds s) \<union> set (weaks s)" using assms(2) slot_at_set by blast
  then show ?thesis using assms(1) unfolding ptrs_inv_def by blast
qed

lemma slot_counted: "slot_at v xs = Some (d, Some i) \<Longrightarrow> 0 < refs_to i xs"
  using slot_at_set [of v xs "(d, Some i)"] refs_to_ge [of "Some (d, Some i)" xs i] by simp

lemma ptrs_inv_shared:
  assumes "ptrs_inv s" and "slot_at v (shareds s) = Some (d, Some i)"
  obtains c where "counters s i = Some c" and "counted_data c = d" and "0 < refs_to i (shareds s)"
  using ptrs_inv_slot [of s v "(d, Some i)"] assms slot_counted [OF assms(2)] that by auto

lemma ptrs_inv_weak:
  assumes "ptrs_inv s" and "slot_at v (weaks s) = Some (d, Some i)"
  obtains c where "counters s i = Some c" and "counted_data c = d" and "0 < refs_to i (weaks s)"
  using ptrs_inv_slot [of s v "(d, Some i)"] assms slot_counted [OF assms(2)] that by auto

lemma ptrs_inv_null:
  assumes "ptrs_inv s"
  shows "slot_at v (shareds s) = Some (d, None) \<Longrightarrow> d = 0" and "slot_at v (weaks s) = Some (d, None) \<Longrightarrow> d = 0"
  using ptrs_inv_slot [OF assms, of v "(d, None)"] by auto

lemma inv_fill_null:
  assumes I: "ptrs_inv s"
  shows "free_slot v (shareds s) \<Longrightarrow> ptrs_inv (set_shared v (Some (0, None)) s)"
    and "free_slot v (weaks s) \<Longrightarrow> ptrs_inv (set_weak v (Some (0, None)) s)"
    and "slot_at v (shareds s) = Some (d, None) \<Longrightarrow> ptrs_inv (set_shared v None s)"
    and "slot_at v (weaks s) = Some (d, None) \<Longrightarrow> ptrs_inv (set_weak v None s)"
  using I refs_to_fill [of v "shareds s" _ "Some (0, None)"] refs_to_fill [of v "weaks s" _ "Some (0, None)"]
    refs_to_drop [of v "shareds s" "(d, None)"] refs_to_drop [of v "weaks s" "(d, None)"]
  by (auto simp: ptrs_inv_def set_shared_def set_weak_def counter_ok_def dest!: in_set_update)

lemma inv_share:
  assumes I: "ptrs_inv s" and v: "free_slot v (shareds s)" and c: "counters s i = Some c" and u: "0 < m_use_count c"
  shows "ptrs_inv (set_shared v (Some (counted_data c, Some i)) (set_counter i (add_ref c) s))"
proof -
  note P = ptrs_inv_counter [OF I c]
  have n: "unat (m_use_count c) = refs_to i (shareds s)" using P(1) by (simp add: count_ok_def)
  then have "unat (m_use_count c + 1) = Suc (refs_to i (shareds s))"
    using u32_Suc [of "m_use_count c"] refs_to_free [OF v, of i] P(5) by simp
  moreover have "0 < refs_to i (shareds s)" using n u by (simp add: word_gt_0 unat_gt_0 flip: n)
  ultimately show ?thesis
    using refs_to_fill [OF v] P c
    by (intro ptrs_inv_change [OF I, where i = i and oc = "Some (add_ref c)"])
      (auto simp: set_shared_def set_counter_def add_ref_def counter_ok_def count_ok_def dest!: in_set_update)
qed

lemma inv_share_weak:
  assumes I: "ptrs_inv s" and v: "free_slot v (weaks s)" and c: "counters s i = Some c"
    and u: "0 < refs_to i (shareds s) \<or> 0 < refs_to i (weaks s)"
  shows "ptrs_inv (set_weak v (Some (counted_data c, Some i)) (set_counter i (add_weak_ref c) s))"
proof -
  note P = ptrs_inv_counter [OF I c]
  have n: "unat (m_weak_count c) = refs_to i (weaks s)" using P(1) by (simp add: count_ok_def)
  then have "unat (m_weak_count c + 1) = Suc (refs_to i (weaks s))"
    using u32_Suc [of "m_weak_count c"] refs_to_free [OF v, of i] P(6) by simp
  then show ?thesis
    using refs_to_fill [OF v] P c u
    by (intro ptrs_inv_change [OF I, where i = i and oc = "Some (add_weak_ref c)"])
      (auto simp: set_weak_def set_counter_def add_weak_ref_def counter_ok_def count_ok_def split: if_splits dest!: in_set_update)
qed

lemma inv_new:
  assumes I: "ptrs_inv s" and v: "free_slot v (shareds s)"
  shows "ptrs_inv (SharedPtr_new v null s)"
proof -
  define i where "i = next_counter s"
  have n: "counters s i = None" using I by (auto simp: ptrs_inv_def i_def) (metis less_irrefl not_None_eq)
  have "counter_ok i s" using I by (simp add: ptrs_inv_def)
  then have z: "refs_to i (shareds s) = 0" "refs_to i (weaks s) = 0" "count_list (releasing s) (Dispose i False) = 0"
      "count_list (releasing s) (Dispose i True) = 0" "count_list (releasing s) (Delete i) = 0"
    using n by (auto simp: counter_ok_def count_ok_def)
  define p where "p = (if null then 0 else next_data s)"
  have "0 < next_data s" "0 \<notin> live_data s" using I by (auto simp: ptrs_inv_def)
  then show ?thesis
    using refs_to_fill [OF v] n z
    by (intro ptrs_inv_change [OF I, where i = i and oc = "Some (CountBase_ctor p)"])
      (auto simp: SharedPtr_new_def i_def p_def set_shared_def set_counter_def CountBase_ctor_def counter_ok_def count_ok_def
        Let_def dest!: in_set_update)
qed

lemma inv_release:
  assumes I: "ptrs_inv s" and v: "slot_at v (shareds s) = Some (d, Some i)"
  shows "ptrs_inv (SharedCounter_release v (Some i) s)"
proof -
  obtain c where c: "counters s i = Some c" "counted_data c = d" "0 < refs_to i (shareds s)" by (rule ptrs_inv_shared [OF I v])
  note P = ptrs_inv_counter [OF I c(1)]
  define c' where "c' = c\<lparr>m_use_count := m_use_count c - 1\<rparr>"
  have n: "unat (m_use_count c) = refs_to i (shareds s)" using P(1) by (simp add: count_ok_def)
  then have u: "unat (m_use_count c') = refs_to i (shareds s) - 1" using u32_pred [of "m_use_count c"] c(3) by (simp add: c'_def)
  have w: "unat (m_weak_count c') = refs_to i (weaks s)" using P(1) by (simp add: count_ok_def c'_def)
  have u0: "m_use_count c' = 0 \<longleftrightarrow> refs_to i (shareds s) = 1" using u c(3) by (metis One_nat_def Suc_pred diff_Suc_1 unat_eq_zero)
  have w0: "m_weak_count c' = 0 \<longleftrightarrow> refs_to i (weaks s) = 0" using w by (metis unat_eq_zero)
  define s' where "s' = set_shared v None (set_counter i c' s)"
  define r where "r = (if m_use_count c' = 0 then releasing s @ [Dispose i (m_weak_count c' = 0)] else releasing s)"
  have eq: "SharedCounter_release v (Some i) s = s'\<lparr>releasing := r\<rparr>"
    using c(1) by (simp add: SharedCounter_release_def dec_ref_def c'_def s'_def r_def set_shared_def set_counter_def Let_def)
  have refs: "refs_to j ((shareds s)[v := None]) = refs_to j (shareds s) - (if i = j then 1 else 0)" for j
    using refs_to_drop [OF v, of j] by simp
  show ?thesis unfolding eq
    by (rule ptrs_inv_change [OF I, where i = i and oc = "Some c'"])
      (use P c(1,3) n u w u0 w0 in \<open>auto simp: s'_def r_def set_shared_def set_counter_def counter_ok_def count_ok_def refs c'_def
         dest!: in_set_update split: if_splits\<close>)
qed

lemma inv_release_weak:
  assumes I: "ptrs_inv s" and v: "slot_at v (weaks s) = Some (d, Some i)"
    and calm: "\<And>b. Dispose i b \<notin> set (releasing s)"
  shows "ptrs_inv (WeakCounter_release v (Some i) s)"
proof -
  obtain c where c: "counters s i = Some c" "counted_data c = d" "0 < refs_to i (weaks s)" by (rule ptrs_inv_weak [OF I v])
  note P = ptrs_inv_counter [OF I c(1)]
  have calm: "count_list (releasing s) (Dispose i b) = 0" for b using calm by (simp add: count_list_0_iff)
  define c' where "c' = c\<lparr>m_weak_count := m_weak_count c - 1\<rparr>"
  have n: "unat (m_weak_count c) = refs_to i (weaks s)" using P(1) by (simp add: count_ok_def)
  then have w: "unat (m_weak_count c') = refs_to i (weaks s) - 1" using u32_pred [of "m_weak_count c"] c(3) by (simp add: c'_def)
  have u: "unat (m_use_count c') = refs_to i (shareds s)" using P(1) by (simp add: count_ok_def c'_def)
  have w0: "m_weak_count c' = 0 \<longleftrightarrow> refs_to i (weaks s) = 1" using w c(3) by (metis One_nat_def Suc_pred diff_Suc_1 unat_eq_zero)
  have u0: "m_use_count c' = 0 \<longleftrightarrow> refs_to i (shareds s) = 0" using u by (metis unat_eq_zero)
  define s' where "s' = set_weak v None (set_counter i c' s)"
  define r where "r = (if m_use_count c' = 0 \<and> m_weak_count c' = 0 then releasing s @ [Delete i] else releasing s)"
  have eq: "WeakCounter_release v (Some i) s = s'\<lparr>releasing := r\<rparr>"
    using c(1) by (simp add: WeakCounter_release_def dec_weak_ref_def c'_def s'_def r_def set_weak_def set_counter_def Let_def)
  have refs: "refs_to j ((weaks s)[v := None]) = refs_to j (weaks s) - (if i = j then 1 else 0)" for j
    using refs_to_drop [OF v, of j] by simp
  show ?thesis unfolding eq
    by (rule ptrs_inv_change [OF I, where i = i and oc = "Some c'"])
      (use P c(1,3) n u w u0 w0 calm in \<open>auto simp: s'_def r_def set_weak_def set_counter_def counter_ok_def count_ok_def refs c'_def
         dest!: in_set_update split: if_splits\<close>)
qed

lemma inv_dispose:
  assumes I: "ptrs_inv s" and r: "Dispose i b \<in> set (releasing s)"
  shows "ptrs_inv (counter_dispose i b s)"
proof -
  have k: "0 < count_list (releasing s) (Dispose i b)" using r by (metis count_list_0_iff gr0I)
  have "counter_ok i s" using I by (simp add: ptrs_inv_def)
  then obtain c where c: "counters s i = Some c" using k by (cases b) (auto simp: counter_ok_def count_ok_def split: option.splits)
  note P = ptrs_inv_counter [OF I c]
  have l: "counted_data c \<noteq> 0 \<Longrightarrow> counted_data c \<in> live_data s" using P(1) k by (cases b) (auto simp: count_ok_def split: if_splits)
  define s' where "s' = s\<lparr>releasing := remove1 (Dispose i b) (releasing s) @ (if b then [Delete i] else []),
      live_data := live_data s - {counted_data c}\<rparr>"
  have eq: "counter_dispose i b s = s'"
    using c l P(4) by (auto simp: counter_dispose_def s'_def Let_def intro!: ptrs.equality)
  have same: "counters s' = (counters s)(i := Some c)" using c by (auto simp: s'_def)
  show ?thesis unfolding eq
    by (rule ptrs_inv_change [OF I _ _ _ _ _ _ same])
      (use P c k l in \<open>cases b; auto simp: s'_def counter_ok_def count_ok_def count_remove1 split: if_splits\<close>)+
qed

lemma inv_delete:
  assumes I: "ptrs_inv s" and r: "Delete i \<in> set (releasing s)"
  shows "ptrs_inv (counter_delete i s)"
proof -
  have k: "0 < count_list (releasing s) (Delete i)" using r by (metis count_list_0_iff gr0I)
  have "counter_ok i s" using I by (simp add: ptrs_inv_def)
  then obtain c where c: "counters s i = Some c" using k by (auto simp: counter_ok_def count_ok_def split: option.splits)
  note P = ptrs_inv_counter [OF I c]
  show ?thesis
    by (rule ptrs_inv_change [OF I, where i = i and oc = None])
      (use P c k in \<open>auto simp: counter_delete_def counter_ok_def count_ok_def count_remove1 split: if_splits\<close>)
qed

lemma inv_swap:
  assumes I: "ptrs_inv s" and v: "slot_at v (shareds s) = Some p" and w: "slot_at w (shareds s) = Some q"
  shows "ptrs_inv (set_shared v (Some q) (set_shared w (Some p) s))"
proof -
  have b: "v < length (shareds s)" "w < length (shareds s)" "shareds s ! v = Some p" "shareds s ! w = Some q"
    using v w by (auto simp: slot_at_def split: if_splits)
  have refs: "refs_to j ((shareds s)[w := Some p, v := Some q]) = refs_to j (shareds s)" for j
    using refs_to_update [of w "shareds s" j "Some p"] refs_to_update [of v "(shareds s)[w := Some p]" j "Some q"] b
    by (cases "v = w") (auto simp: nth_list_update)
  have "slot_ok (counters s) (Some p)" "slot_ok (counters s) (Some q)" using ptrs_inv_slot [OF I] v w by blast+
  then show ?thesis
    using I refs by (auto simp: ptrs_inv_def set_shared_def counter_ok_def dest!: in_set_update)
qed

lemma inv_copy:
  assumes I: "ptrs_inv s" and v: "free_slot v (shareds s)" and w: "slot_at w (shareds s) = Some (d, Some i)"
  shows "ptrs_inv (SharedPtr_copy v (d, Some i) s)" and "ptrs_inv (SharedPtr_assign v (d, Some i) s)"
proof -
  obtain c where c: "counters s i = Some c" "counted_data c = d" "0 < refs_to i (shareds s)" by (rule ptrs_inv_shared [OF I w])
  have "unat (m_use_count c) = refs_to i (shareds s)" using ptrs_inv_counter(1) [OF I c(1)] by (simp add: count_ok_def)
  then have "0 < m_use_count c" using c(3) by (metis unat_0 word_neq_0_conv less_irrefl)
  then show "ptrs_inv (SharedPtr_copy v (d, Some i) s)" "ptrs_inv (SharedPtr_assign v (d, Some i) s)"
    using inv_share [OF I v c(1)] c by (auto simp: SharedPtr_copy_def SharedPtr_assign_def)
qed

lemma inv_lock:
  assumes I: "ptrs_inv s" and v: "free_slot v (shareds s)" and w: "slot_at w (weaks s) = Some (d, Some i)"
  shows "ptrs_inv (SharedPtr_from_weak v (d, Some i) s)"
proof -
  obtain c where c: "counters s i = Some c" "counted_data c = d" by (rule ptrs_inv_weak [OF I w])
  then show ?thesis
    using inv_share [OF I v c(1)] inv_fill_null(1) [OF I v] by (auto simp: SharedPtr_from_weak_def)
qed

lemma inv_weak_copy:
  assumes I: "ptrs_inv s" and v: "free_slot v (weaks s)"
    and w: "slot_at w (shareds s) = Some (d, cnt) \<or> slot_at w (weaks s) = Some (d, cnt)"
  shows "ptrs_inv (WeakPtr_copy v (d, cnt) s)"
proof (cases cnt)
  case None
  then have "d = 0" using ptrs_inv_null [OF I, of w d] w by auto
  then show ?thesis using inv_fill_null(2) [OF I v] None by (simp add: WeakPtr_copy_def)
next
  case (Some i)
  have "slot_ok (counters s) (Some (d, Some i))" using ptrs_inv_slot [OF I] w Some by blast
  then obtain c where c: "counters s i = Some c" "counted_data c = d" by auto
  have "0 < refs_to i (shareds s) \<or> 0 < refs_to i (weaks s)" using w Some by (auto dest: slot_counted)
  from inv_share_weak [OF I v c(1) this] show ?thesis using c Some by (simp add: WeakPtr_copy_def)
qed

lemma inv_deref:
  assumes I: "ptrs_inv s" and v: "slot_at v (shareds s) = Some (d, cnt)" and d: "d \<noteq> 0"
  shows "d \<in> live_data s"
proof (cases cnt)
  case None
  then show ?thesis using ptrs_inv_null(1) [OF I, of v d] v d by simp
next
  case (Some i)
  obtain c where c: "counters s i = Some c" "counted_data c = d" "0 < refs_to i (shareds s)"
    using ptrs_inv_shared [OF I v [unfolded Some]] by blast
  then show ?thesis using ptrs_inv_counter(1) [OF I c(1)] d by (auto simp: count_ok_def)
qed

section \<open>Careful programs\<close>

text \<open>
  What the code does not check: that a pointer that is copied has a counter (the result of \<open>lock\<close> on an expired weak
  pointer has none), nor that a weak pointer that is locked has one (a default one has none); a weak pointer must not go
  between the last \<open>dec_ref\<close> and the \<open>dispose\<close> of another thread; and the conversion from a weak pointer of another
  type is not used.
\<close>

fun sp_careful :: "ptr_event \<Rightarrow> ptrs \<Rightarrow> bool" where
  "sp_careful (Copy v w) s = (case slot_at w (shareds s) of Some (d, None) \<Rightarrow> False | _ \<Rightarrow> True)"
| "sp_careful (Lock v w) s = (case slot_at w (weaks s) of Some (d, None) \<Rightarrow> False | _ \<Rightarrow> True)"
| "sp_careful (ReleaseWeak v) s =
     (case slot_at v (weaks s) of
        Some (d, Some i) \<Rightarrow> Dispose i True \<notin> set (releasing s) \<and> Dispose i False \<notin> set (releasing s)
      | _ \<Rightarrow> True)"
| "sp_careful (ConvertBegin v w) s = False"
| "sp_careful _ s = True"

lemma inv_assign_null:
  assumes "ptrs_inv s" and "free_slot v (shareds s)" and "slot_at w (shareds s) = Some (d, None)"
  shows "ptrs_inv (SharedPtr_assign v (d, None) s)"
  using inv_fill_null(1) [OF assms(1,2)] ptrs_inv_null(1) [OF assms(1,3)] by (simp add: SharedPtr_assign_def)

lemma ptr_step_inv:
  assumes I: "ptrs_inv s" and ok: "sp_careful e s" and st: "ptr_step e s = Some s'"
  shows "ptrs_inv s'"
proof (cases e)
  case (New v null)
  then show ?thesis using st inv_new [OF I] by (auto split: if_splits)
next
  case (Copy v w)
  then obtain d cnt where p: "free_slot v (shareds s)" "slot_at w (shareds s) = Some (d, cnt)" "s' = SharedPtr_copy v (d, cnt) s"
    using st by (auto split: if_splits)
  then show ?thesis using ok Copy inv_copy(1) [OF I] by (cases cnt) auto
next
  case (Assign v w)
  then obtain d cnt where p: "free_slot v (shareds s)" "slot_at w (shareds s) = Some (d, cnt)" "s' = SharedPtr_assign v (d, cnt) s"
    using st by (auto split: if_splits)
  then show ?thesis using inv_copy(2) [OF I] inv_assign_null [OF I] by (cases cnt) auto
next
  case (Release v)
  then obtain d cnt where p: "slot_at v (shareds s) = Some (d, cnt)" "s' = SharedCounter_release v cnt s" using st by auto
  then show ?thesis using inv_release [OF I] inv_fill_null(3) [OF I, of v d] by (cases cnt) (auto simp: SharedCounter_release_def)
next
  case (DisposeCall i b)
  then show ?thesis using st inv_dispose [OF I] by (auto split: if_splits)
next
  case (DeleteCounter i)
  then show ?thesis using st inv_delete [OF I] by (auto split: if_splits)
next
  case (Swap v w)
  then show ?thesis using st inv_swap [OF I] by (auto split: option.splits)
next
  case (Lock v w)
  then obtain d cnt where p: "free_slot v (shareds s)" "slot_at w (weaks s) = Some (d, cnt)" "s' = SharedPtr_from_weak v (d, cnt) s"
    using st by (auto split: if_splits)
  then show ?thesis using ok Lock inv_lock [OF I] by (cases cnt) auto
next
  case (ConvertBegin v w)
  then show ?thesis using ok by simp
next
  case (ConvertEnd v w)
  then show ?thesis using st I by (simp add: ptrs_inv_def)
next
  case (Deref v)
  then obtain d cnt where p: "slot_at v (shareds s) = Some (d, cnt)" "d \<noteq> 0" "s' = deref (d, cnt) s"
    using st by (auto split: option.splits if_splits)
  then show ?thesis using inv_deref [OF I p(1,2)] I by (simp add: deref_def)
next
  case (NewWeak v)
  then show ?thesis using st inv_fill_null(2) [OF I] by (auto split: if_splits)
next
  case (WeakOf v w)
  then show ?thesis using st inv_weak_copy [OF I] by (auto split: if_splits)
next
  case (CopyWeak v w)
  then show ?thesis using st inv_weak_copy [OF I] by (auto split: if_splits)
next
  case (ReleaseWeak v)
  then obtain d cnt where p: "slot_at v (weaks s) = Some (d, cnt)" "s' = WeakCounter_release v cnt s" using st by auto
  show ?thesis
  proof (cases cnt)
    case None
    then show ?thesis using p inv_fill_null(4) [OF I, of v d] by (simp add: WeakCounter_release_def)
  next
    case (Some i)
    have "Dispose i b \<notin> set (releasing s)" for b using ok ReleaseWeak p(1) Some by (cases b) auto
    then show ?thesis using inv_release_weak [OF I, of v d i] p Some by simp
  qed
qed

interpretation ptrs_inv: guarded_invariant ptr_step sp_careful ptrs_inv
  by unfold_locales (rule ptr_step_inv)

lemma ptrs_init_inv: "n < 2 ^ 32 \<Longrightarrow> k < 2 ^ 32 \<Longrightarrow> ptrs_inv (ptrs_init n k)"
proof -
  have "refs_to i (replicate m None) = 0" for i m by (induction m) (auto simp: refs_to_def)
  then show "n < 2 ^ 32 \<Longrightarrow> k < 2 ^ 32 \<Longrightarrow> ptrs_inv (ptrs_init n k)"
    by (auto simp: ptrs_inv_def ptrs_init_def counter_ok_def count_ok_def)
qed

text \<open>
  C15: Memory safety of the shared pointers of a careful program, for every number of threads and every interleaving:
  \<^item> no deleted counter or object is used, and none is deleted twice;
  \<^item> an object lives as long as a shared pointer to it, and is deleted once the last one has gone and its release is through;
  \<^item> \<open>use_count\<close> is the number of shared pointers, and a weak pointer has expired exactly when it is zero;
  \<^item> when no pointer is left and every release is through, all counters and objects have been deleted.
\<close>

theorem shared_ptr_safe:
  assumes "runs ptr_step es (ptrs_init n k) = Some s" and "along ptr_step sp_careful es (ptrs_init n k)"
    and "n < 2 ^ 32" and "k < 2 ^ 32"
  shows "\<not> sp_fault s
    \<and> (\<forall>v d cnt. slot_at v (shareds s) = Some (d, cnt) \<longrightarrow> d \<noteq> 0 \<longrightarrow> d \<in> live_data s)
    \<and> (\<forall>v d i. slot_at v (shareds s) = Some (d, Some i) \<or> slot_at v (weaks s) = Some (d, Some i) \<longrightarrow>
          map_option unat (sp_use_count (Some i) s) = Some (refs_to i (shareds s)))
    \<and> (\<forall>v d i. slot_at v (weaks s) = Some (d, Some i) \<longrightarrow> d \<noteq> 0 \<longrightarrow> releasing s = [] \<longrightarrow>
          (expired (Some i) s = Some True \<longleftrightarrow> d \<notin> live_data s))
    \<and> ((\<forall>p \<in> set (shareds s) \<union> set (weaks s). p = None) \<longrightarrow> releasing s = [] \<longrightarrow>
          counters s = Map.empty \<and> live_data s = {})"
proof -
  have I: "ptrs_inv s" by (rule ptrs_inv.holds_after [OF ptrs_init_inv [OF assms(3,4)] assms(2,1)])
  have use: "unat (m_use_count c) = refs_to i (shareds s)" if "counters s i = Some c" for i c
    using ptrs_inv_counter(1) [OF I that] by (simp add: count_ok_def)
  have "map_option unat (sp_use_count (Some i) s) = Some (refs_to i (shareds s))"
    if "slot_at v (shareds s) = Some (d, Some i) \<or> slot_at v (weaks s) = Some (d, Some i)" for v d i
    using ptrs_inv_slot [OF I that] use by (auto simp: sp_use_count_def)
  moreover have "expired (Some i) s = Some True \<longleftrightarrow> d \<notin> live_data s"
    if w: "slot_at v (weaks s) = Some (d, Some i)" and d: "d \<noteq> 0" and r: "releasing s = []" for v d i
  proof -
    obtain c where c: "counters s i = Some c" "counted_data c = d" by (rule ptrs_inv_weak [OF I w])
    have "expired (Some i) s = Some (unat (m_use_count c) = 0)" using c by (simp add: expired_def sp_use_count_def unat_eq_zero)
    then show ?thesis using ptrs_inv_counter(1) [OF I c(1)] c d r by (auto simp: count_ok_def)
  qed
  moreover have "counters s = Map.empty \<and> live_data s = {}"
    if e: "\<forall>p \<in> set (shareds s) \<union> set (weaks s). p = None" and r: "releasing s = []"
  proof -
    have "slot_refs i p = 0" if "p \<in> set (shareds s) \<union> set (weaks s)" for i p using e that by (cases p) auto
    then have z: "refs_to i (shareds s) = 0" "refs_to i (weaks s) = 0" for i by (auto simp: refs_to_def)
    have "counters s i = None" for i
      using ptrs_inv_counter(1) [OF I, of i] z r by (cases "counters s i") (auto simp: count_ok_def)
    then have "counters s = Map.empty" by auto
    moreover from this have "live_data s = {}" using I by (auto simp: ptrs_inv_def)
    ultimately show ?thesis by blast
  qed
  moreover have "\<not> sp_fault s" using I by (simp add: ptrs_inv_def)
  moreover have "d \<in> live_data s" if "slot_at v (shareds s) = Some (d, cnt)" "d \<noteq> 0" for v d cnt
    using inv_deref [OF I that] .
  ultimately show ?thesis by blast
qed

theorem shared_ptr_safe_witness:
  "\<exists>s. runs ptr_step [New 0 False, Copy 1 0, WeakOf 0 1, Release 0, Release 1, DisposeCall 0 False, Lock 2 0,
        ReleaseWeak 0, DeleteCounter 0, Release 2] (ptrs_init 3 1) = Some s
     \<and> \<not> sp_fault s \<and> counters s = Map.empty \<and> live_data s = {}"
proof -
  define es where "es = [New 0 False, Copy 1 0, WeakOf 0 1, Release 0, Release 1, DisposeCall 0 False, Lock 2 0,
        ReleaseWeak 0, DeleteCounter 0, Release 2]"
  have c: "case runs ptr_step es (ptrs_init 3 1) of None \<Rightarrow> False
      | Some s \<Rightarrow> shareds s = [None, None, None] \<and> weaks s = [None] \<and> releasing s = []"
    unfolding es_def by code_simp
  then obtain s where s: "runs ptr_step es (ptrs_init 3 1) = Some s"
      "shareds s = [None, None, None] \<and> weaks s = [None] \<and> releasing s = []"
    by (cases "runs ptr_step es (ptrs_init 3 1)") auto
  have a: "along ptr_step sp_careful es (ptrs_init 3 1)" unfolding es_def by code_simp
  show ?thesis unfolding es_def [symmetric]
    by (rule exI [of _ s]) (use s shared_ptr_safe [OF s(1) a] in auto)
qed

text \<open>
  What happens to a program that is not careful. With one thread: to copy the pointer that \<open>lock\<close> returns for an expired
  weak pointer, or to lock a default weak pointer, goes through a null pointer. With two: if the last weak pointer goes
  while another thread is between its last \<open>dec_ref\<close> and \<open>dispose\<close>, the counter is deleted under the latter; and a
  conversion from a weak pointer of another type that overlaps the release of the last shared pointer returns a
  pointer that is not null to an object that has been deleted.
\<close>

theorem shared_ptr_faults:
  "(let run = \<lambda>es. runs ptr_step es (ptrs_init 3 1) in
     map_option sp_fault (run [New 0 False, WeakOf 0 0, Release 0, DisposeCall 0 False, Lock 1 0, Copy 2 1]) = Some True
   \<and> map_option sp_fault (run [NewWeak 0, Lock 0 0]) = Some True
   \<and> map_option sp_fault (run [New 0 False, WeakOf 0 0, Release 0, ReleaseWeak 0, DeleteCounter 0, DisposeCall 0 False]) = Some True
   \<and> map_option (\<lambda>s. (slot_at 1 (shareds s), sp_fault s)) (run [New 0 False, WeakOf 0 0, ConvertBegin 1 0, Release 0,
        DisposeCall 0 False, ConvertEnd 1 0]) = Some (Some (1, None), False)
   \<and> map_option sp_fault (run [New 0 False, WeakOf 0 0, ConvertBegin 1 0, Release 0, DisposeCall 0 False,
        ConvertEnd 1 0, Deref 1]) = Some True)"
  by code_simp

end
