(* ===== verification/Semaphore.thy ===== *)
theory Semaphore
  imports Prelude Transitions
begin

text \<open>
  The POSIX semaphore (\<open>include/yat/threading/impl/PosixSemaphoreImpl.i\<close>, \<open>src/threading/PosixThreadingImpl.cpp\<close>) and
  the readers and writer lock built on it (\<open>include/yat/threading/ReadersWriterMutex.h\<close>). The condition variable
  behind a semaphore is two lists of threads: those that are blocked in it, and those that a \<open>signal\<close> has chosen and
  that have not got the mutex back yet. Every critical section is one step, so a \<open>timed_wait\<close> that blocks is two
  steps. A step whose behaviour is undefined (a signed overflow) or that cannot happen is \<open>None\<close>.
\<close>

section \<open>The semaphore\<close>

definition SEMAPHORE_MAX_COUNT :: u32 where "SEMAPHORE_MAX_COUNT = drop_bit 1 (- 1)"

definition INT_MAX :: int where "INT_MAX = 2 ^ 31 - 1"
definition INT_MIN :: int where "INT_MIN = - (2 ^ 31)"

record sem =
  m_value :: int
  sem_blocked :: "nat list"
  sem_woken :: "nat list"

datatype sem_error = BAD_VALUE

definition Semaphore_ctor :: "u32 \<Rightarrow> sem_error + sem" where
  "Semaphore_ctor initial =
     (if SEMAPHORE_MAX_COUNT < initial then Inl BAD_VALUE
      else Inr \<lparr>m_value = uint initial, sem_blocked = [], sem_woken = []\<rparr>)"

definition take_unit :: "sem \<Rightarrow> sem option" where
  "take_unit s = (if m_value s = INT_MIN then None else Some (s\<lparr>m_value := m_value s - 1\<rparr>))"

text \<open>\<open>timed_wait\<close> up to its return (\<open>True\<close>) or to the wait on the condition variable (\<open>False\<close>).\<close>

definition sem_wait_enter :: "nat \<Rightarrow> sem \<Rightarrow> (sem \<times> bool) option" where
  "sem_wait_enter t s =
     (if m_value s = 0 then Some (s\<lparr>sem_blocked := sem_blocked s @ [t]\<rparr>, False)
      else map_option (\<lambda>s'. (s', True)) (take_unit s))"

text \<open>\<open>timed_wait\<close> behind the wait on the condition variable, which has answered \<open>r\<close>.\<close>

definition sem_wait_return :: "bool \<Rightarrow> sem \<Rightarrow> sem option" where
  "sem_wait_return r s = (if r then take_unit s else Some s)"

datatype sem_state = SEMAPHORE_DEC | SEMAPHORE_NO_RSC

definition sem_try_wait :: "sem \<Rightarrow> (sem \<times> sem_state) option" where
  "sem_try_wait s =
     (if 0 < m_value s then map_option (\<lambda>s'. (s', SEMAPHORE_DEC)) (take_unit s)
      else Some (s, SEMAPHORE_NO_RSC))"

text \<open>\<open>signal\<close> wakes one of the blocked threads, any one, if there is one.\<close>

definition cond_signal :: "nat option \<Rightarrow> sem \<Rightarrow> sem option" where
  "cond_signal w s =
     (case w of
        None \<Rightarrow> if sem_blocked s = [] then Some s else None
      | Some t \<Rightarrow> if t \<in> set (sem_blocked s)
                 then Some (s\<lparr>sem_blocked := remove1 t (sem_blocked s), sem_woken := sem_woken s @ [t]\<rparr>) else None)"

definition sem_post :: "nat option \<Rightarrow> sem \<Rightarrow> sem option" where
  "sem_post w s = (if m_value s = INT_MAX then None else cond_signal w (s\<lparr>m_value := m_value s + 1\<rparr>))"

section \<open>The threads around a semaphore\<close>

text \<open>
  \<open>CondReturn\<close>: a thread that was signalled goes on. \<open>Spurious\<close>: the condition variable lets a thread go on
  that was not signalled. \<open>Expired\<close>: the time-out of a thread elapses.
\<close>

datatype sem_event = WaitEnter nat | CondReturn nat | Spurious nat | Expired nat | TryWait nat | Post "nat option"

fun sem_step :: "sem_event \<Rightarrow> sem \<Rightarrow> sem option" where
  "sem_step (WaitEnter t) s =
     (if t \<in> set (sem_blocked s) \<union> set (sem_woken s) then None else map_option fst (sem_wait_enter t s))"
| "sem_step (CondReturn t) s =
     (if t \<in> set (sem_woken s) then sem_wait_return True (s\<lparr>sem_woken := remove1 t (sem_woken s)\<rparr>) else None)"
| "sem_step (Spurious t) s =
     (if t \<in> set (sem_blocked s) then sem_wait_return True (s\<lparr>sem_blocked := remove1 t (sem_blocked s)\<rparr>) else None)"
| "sem_step (Expired t) s =
     (if t \<in> set (sem_blocked s) then sem_wait_return False (s\<lparr>sem_blocked := remove1 t (sem_blocked s)\<rparr>) else None)"
| "sem_step (TryWait t) s =
     (if t \<in> set (sem_blocked s) \<union> set (sem_woken s) then None else map_option fst (sem_try_wait s))"
| "sem_step (Post w) s = sem_post w s"

text \<open>The units that an event gives to its thread.\<close>

fun units_taken :: "sem_event \<Rightarrow> sem \<Rightarrow> int" where
  "units_taken (WaitEnter t) s = (if m_value s = 0 then 0 else 1)"
| "units_taken (CondReturn t) s = 1"
| "units_taken (Spurious t) s = 1"
| "units_taken (Expired t) s = 0"
| "units_taken (TryWait t) s = (if 0 < m_value s then 1 else 0)"
| "units_taken (Post w) s = - 1"

text \<open>
  An event that takes a unit when there are no more units than woken threads, for which they are meant. A thread that goes on without
  a signal always does (\<open>spurious_steals\<close>).
\<close>

fun steals :: "sem_event \<Rightarrow> sem \<Rightarrow> bool" where
  "steals (WaitEnter t) s = (m_value s \<noteq> 0 \<and> m_value s \<le> int (length (sem_woken s)))"
| "steals (TryWait t) s = (0 < m_value s \<and> m_value s \<le> int (length (sem_woken s)))"
| "steals (Spurious t) s = (m_value s \<le> int (length (sem_woken s)))"
| "steals _ s = False"

text \<open>Runs without such an event, and what the events of a run take together.\<close>

definition orderly :: "sem_event list \<Rightarrow> sem \<Rightarrow> bool" where
  "orderly = along sem_step (\<lambda>e s. \<not> steals e s)"

definition units_out :: "sem_event list \<Rightarrow> sem \<Rightarrow> int" where
  "units_out = total sem_step units_taken"

section \<open>The number of units\<close>

lemmas sem_defs = sem_wait_enter_def sem_wait_return_def take_unit_def sem_try_wait_def sem_post_def cond_signal_def

lemma sem_step_value: "sem_step e s = Some t \<Longrightarrow> m_value t = m_value s - units_taken e s"
  by (cases e) (auto simp: sem_defs split: if_splits option.splits)

interpretation sem_units: balance sem_step units_taken m_value
  by unfold_locales (rule sem_step_value)

text \<open>While a thread is blocked, every unit is meant for a thread that has been woken.\<close>

definition sem_ok :: "sem \<Rightarrow> bool" where
  "sem_ok s \<longleftrightarrow> (sem_blocked s \<noteq> [] \<longrightarrow> m_value s \<le> int (length (sem_woken s)))
     \<and> distinct (sem_blocked s @ sem_woken s)"

text \<open>There is a unit for every thread that has been woken.\<close>

definition sem_covered :: "sem \<Rightarrow> bool" where
  "sem_covered s \<longleftrightarrow> int (length (sem_woken s)) \<le> m_value s"

lemma length_remove1_int: "x \<in> set xs \<Longrightarrow> int (length (remove1 x xs)) = int (length xs) - 1"
  using length_pos_if_in_set [of x xs] by (simp add: length_remove1 of_nat_diff Suc_leI)

lemma sem_ok_step: "sem_ok s \<Longrightarrow> sem_step e s = Some t \<Longrightarrow> sem_ok t"
  by (cases e) (auto simp: sem_ok_def sem_defs length_remove1_int split: if_splits option.splits)

lemma sem_covered_step: "sem_covered s \<Longrightarrow> \<not> steals e s \<Longrightarrow> sem_step e s = Some t \<Longrightarrow> sem_covered t"
  by (cases e) (auto simp: sem_covered_def sem_defs length_remove1_int split: if_splits option.splits)

lemma spurious_steals: "sem_ok s \<Longrightarrow> t \<in> set (sem_blocked s) \<Longrightarrow> steals (Spurious t) s"
  by (auto simp: sem_ok_def)

interpretation sem_ok: invariant_of sem_step sem_ok
  by unfold_locales (rule sem_ok_step)

interpretation sem_covered: guarded_invariant sem_step "\<lambda>e s. \<not> steals e s" sem_covered
  by unfold_locales (rule sem_covered_step)

lemma SEMAPHORE_MAX_COUNT_value: "uint SEMAPHORE_MAX_COUNT = INT_MAX"
  by (simp add: SEMAPHORE_MAX_COUNT_def INT_MAX_def mask_eq_exp_minus_1)

lemma Semaphore_ctor_ok:
  "Semaphore_ctor n = Inr s \<Longrightarrow> sem_ok s \<and> sem_covered s \<and> m_value s = uint n \<and> uint n \<le> INT_MAX"
  by (auto simp: Semaphore_ctor_def sem_ok_def sem_covered_def word_less_def not_less SEMAPHORE_MAX_COUNT_value
    split: if_splits)

section \<open>The readers and writer lock\<close>

text \<open>
  Where each thread is: \<open>Acquiring i\<close> is a writer inside its mutex with \<open>i\<close> units, \<open>WBlocked i\<close> the same writer
  blocked in the semaphore, \<open>Releasing i\<close> a writer that has given \<open>i\<close> units back. A time-out of 0 is an infinite
  wait, so that no wait expires.
\<close>

datatype rw_pc = Outside | RBlocked | Reading | Acquiring nat | WBlocked nat | Writing | Releasing nat

record rw =
  m_semaphore :: sem
  m_max_readers :: nat
  m_mutex :: "nat option"
  pcs :: "rw_pc list"

definition rw_new :: "u64 \<Rightarrow> nat \<Rightarrow> sem_error + rw" where
  "rw_new max_readers n =
     (case Semaphore_ctor (ucast max_readers) of
        Inl e \<Rightarrow> Inl e
      | Inr s \<Rightarrow> Inr \<lparr>m_semaphore = s, m_max_readers = unat max_readers, m_mutex = None, pcs = replicate n Outside\<rparr>)"

definition go_to :: "nat \<Rightarrow> rw_pc \<Rightarrow> rw \<Rightarrow> rw" where
  "go_to t p r = r\<lparr>pcs := (pcs r)[t := p]\<rparr>"

definition lock_for_reading :: "nat \<Rightarrow> rw \<Rightarrow> rw option" where
  "lock_for_reading t r =
     map_option (\<lambda>(s, ret). go_to t (if ret then Reading else RBlocked) (r\<lparr>m_semaphore := s\<rparr>))
       (sem_wait_enter t (m_semaphore r))"

definition unlock_for_reading :: "nat \<Rightarrow> nat option \<Rightarrow> rw \<Rightarrow> rw option" where
  "unlock_for_reading t w r =
     map_option (\<lambda>s. go_to t Outside (r\<lparr>m_semaphore := s\<rparr>)) (sem_post w (m_semaphore r))"

definition writer_enters :: "nat \<Rightarrow> rw \<Rightarrow> rw option" where
  "writer_enters t r = (if m_mutex r = None then Some (go_to t (Acquiring 0) (r\<lparr>m_mutex := Some t\<rparr>)) else None)"

text \<open>One turn of the loop of \<open>lock_for_writing\<close>, or its end and the release of the mutex.\<close>

definition writer_turn :: "nat \<Rightarrow> nat \<Rightarrow> rw \<Rightarrow> rw option" where
  "writer_turn t i r =
     (if i < m_max_readers r then
        map_option (\<lambda>(s, ret). go_to t (if ret then Acquiring (Suc i) else WBlocked i) (r\<lparr>m_semaphore := s\<rparr>))
          (sem_wait_enter t (m_semaphore r))
      else Some (go_to t Writing (r\<lparr>m_mutex := None\<rparr>)))"

text \<open>One turn of the loop of \<open>unlock_for_writing\<close>, or its end.\<close>

definition release_turn :: "nat \<Rightarrow> nat \<Rightarrow> nat option \<Rightarrow> rw \<Rightarrow> rw option" where
  "release_turn t i w r =
     (if i < m_max_readers r then
        map_option (\<lambda>s. go_to t (Releasing (Suc i)) (r\<lparr>m_semaphore := s\<rparr>)) (sem_post w (m_semaphore r))
      else if w = None then Some (go_to t Outside r) else None)"

text \<open>A blocked thread goes on, signalled or not.\<close>

definition wait_ends :: "nat \<Rightarrow> sem_event \<Rightarrow> rw \<Rightarrow> rw option" where
  "wait_ends t e r =
     (case sem_step e (m_semaphore r) of
        None \<Rightarrow> None
      | Some s \<Rightarrow>
          (case pcs r ! t of
             RBlocked \<Rightarrow> Some (go_to t Reading (r\<lparr>m_semaphore := s\<rparr>))
           | WBlocked i \<Rightarrow> Some (go_to t (Acquiring (Suc i)) (r\<lparr>m_semaphore := s\<rparr>))
           | _ \<Rightarrow> None))"

datatype rw_event =
    LockR nat | UnlockR nat "nat option" | LockW nat | WTurn nat | UnlockW nat "nat option" | GoOn nat | GoOnSpurious nat

fun rw_step :: "rw_event \<Rightarrow> rw \<Rightarrow> rw option" where
  "rw_step (LockR t) r = (if t < length (pcs r) \<and> pcs r ! t = Outside then lock_for_reading t r else None)"
| "rw_step (UnlockR t w) r = (if t < length (pcs r) \<and> pcs r ! t = Reading then unlock_for_reading t w r else None)"
| "rw_step (LockW t) r = (if t < length (pcs r) \<and> pcs r ! t = Outside then writer_enters t r else None)"
| "rw_step (WTurn t) r =
     (if t < length (pcs r) then (case pcs r ! t of Acquiring i \<Rightarrow> writer_turn t i r | _ \<Rightarrow> None) else None)"
| "rw_step (UnlockW t w) r =
     (if t < length (pcs r) then
        (case pcs r ! t of
           Writing \<Rightarrow> release_turn t 0 w r
         | Releasing i \<Rightarrow> release_turn t i w r
         | _ \<Rightarrow> None)
      else None)"
| "rw_step (GoOn t) r = (if t < length (pcs r) then wait_ends t (CondReturn t) r else None)"
| "rw_step (GoOnSpurious t) r = (if t < length (pcs r) then wait_ends t (Spurious t) r else None)"

text \<open>The event of the semaphore inside an event of the lock, to say which of them steal.\<close>

fun sem_part :: "rw_event \<Rightarrow> rw \<Rightarrow> sem_event option" where
  "sem_part (LockR t) r = Some (WaitEnter t)"
| "sem_part (UnlockR t w) r = Some (Post w)"
| "sem_part (LockW t) r = None"
| "sem_part (WTurn t) r =
     (case pcs r ! t of Acquiring i \<Rightarrow> if i < m_max_readers r then Some (WaitEnter t) else None | _ \<Rightarrow> None)"
| "sem_part (UnlockW t w) r =
     (case pcs r ! t of
        Writing \<Rightarrow> if 0 < m_max_readers r then Some (Post w) else None
      | Releasing i \<Rightarrow> if i < m_max_readers r then Some (Post w) else None
      | _ \<Rightarrow> None)"
| "sem_part (GoOn t) r = Some (CondReturn t)"
| "sem_part (GoOnSpurious t) r = Some (Spurious t)"

definition rw_steals :: "rw_event \<Rightarrow> rw \<Rightarrow> bool" where
  "rw_steals e r = (case sem_part e r of None \<Rightarrow> False | Some se \<Rightarrow> steals se (m_semaphore r))"

definition rw_orderly :: "rw_event list \<Rightarrow> rw \<Rightarrow> bool" where
  "rw_orderly = along rw_step (\<lambda>e r. \<not> rw_steals e r)"

section \<open>What the threads of the lock hold\<close>

fun tokens :: "nat \<Rightarrow> rw_pc \<Rightarrow> nat" where
  "tokens n Reading = 1"
| "tokens n (Acquiring i) = i"
| "tokens n (WBlocked i) = i"
| "tokens n Writing = n"
| "tokens n (Releasing i) = n - i"
| "tokens n _ = 0"

fun in_loop :: "rw_pc \<Rightarrow> bool" where
  "in_loop (Acquiring i) = True"
| "in_loop (WBlocked i) = True"
| "in_loop _ = False"

fun is_blocked :: "rw_pc \<Rightarrow> bool" where
  "is_blocked RBlocked = True"
| "is_blocked (WBlocked i) = True"
| "is_blocked _ = False"

fun pc_ok :: "nat \<Rightarrow> rw_pc \<Rightarrow> bool" where
  "pc_ok n (Acquiring i) = (i \<le> n)"
| "pc_ok n (WBlocked i) = (i < n)"
| "pc_ok n (Releasing i) = (i \<le> n)"
| "pc_ok n _ = True"

definition rw_held :: "rw \<Rightarrow> nat" where
  "rw_held r = sum_list (map (tokens (m_max_readers r)) (pcs r))"

definition rw_inv :: "rw \<Rightarrow> bool" where
  "rw_inv r \<longleftrightarrow>
     m_value (m_semaphore r) + int (rw_held r) = int (m_max_readers r)
     \<and> list_all (pc_ok (m_max_readers r)) (pcs r)
     \<and> (\<forall>t < length (pcs r). in_loop (pcs r ! t) \<longleftrightarrow> m_mutex r = Some t)
     \<and> (\<forall>t < length (pcs r). is_blocked (pcs r ! t) \<longleftrightarrow> t \<in> set (sem_blocked (m_semaphore r)) \<union> set (sem_woken (m_semaphore r)))
     \<and> sem_ok (m_semaphore r)"

lemma rw_inv_go_to:
  assumes "rw_inv r" and "t < length (pcs r)"
    and "m_value s + int (tokens (m_max_readers r) p) = m_value (m_semaphore r) + int (tokens (m_max_readers r) (pcs r ! t))"
    and "pc_ok (m_max_readers r) p" and "sem_ok s"
    and "in_loop p \<longleftrightarrow> m = Some t" and "\<And>u. u \<noteq> t \<Longrightarrow> m = Some u \<longleftrightarrow> m_mutex r = Some u"
    and "is_blocked p \<longleftrightarrow> t \<in> set (sem_blocked s) \<union> set (sem_woken s)"
    and "\<And>u. u \<noteq> t \<Longrightarrow> u \<in> set (sem_blocked s) \<union> set (sem_woken s) \<longleftrightarrow>
            u \<in> set (sem_blocked (m_semaphore r)) \<union> set (sem_woken (m_semaphore r))"
  shows "rw_inv (go_to t p (r\<lparr>m_semaphore := s, m_mutex := m\<rparr>))"
proof -
  have "int (sum_list (map (tokens (m_max_readers r)) ((pcs r)[t := p]))) + int (tokens (m_max_readers r) (pcs r ! t))
      = int (rw_held r) + int (tokens (m_max_readers r) p)"
    using sum_map_update [OF assms(2), of "tokens (m_max_readers r)" p] unfolding rw_held_def by linarith
  moreover have "list_all (pc_ok (m_max_readers r)) ((pcs r)[t := p])"
    using assms(1,2,4) by (auto simp: rw_inv_def list_all_length nth_list_update)
  ultimately show ?thesis
    using assms by (auto simp: rw_inv_def go_to_def nth_list_update rw_held_def)
qed

lemma go_to_sem: "go_to t p (r\<lparr>m_semaphore := s\<rparr>) = go_to t p (r\<lparr>m_semaphore := s, m_mutex := m_mutex r\<rparr>)"
  by simp

lemma sem_wait_enter_effect:
  assumes "sem_wait_enter t s = Some (s', ret)" and "t \<notin> set (sem_blocked s) \<union> set (sem_woken s)" and "sem_ok s"
  shows "m_value s' = m_value s - (if ret then 1 else 0)" and "sem_ok s'"
    and "set (sem_blocked s') \<union> set (sem_woken s') = set (sem_blocked s) \<union> set (sem_woken s) \<union> (if ret then {} else {t})"
proof -
  have "sem_step (WaitEnter t) s = Some s'" using assms(1,2) by simp
  then show "sem_ok s'" using assms(3) sem_ok_step by blast
qed (use assms(1) in \<open>auto simp: sem_wait_enter_def take_unit_def split: if_splits\<close>)

lemma sem_post_effect:
  assumes "sem_post w s = Some s'" and "sem_ok s"
  shows "m_value s' = m_value s + 1" and "sem_ok s'"
    and "set (sem_blocked s') \<union> set (sem_woken s') = set (sem_blocked s) \<union> set (sem_woken s)"
proof -
  have "sem_step (Post w) s = Some s'" using assms(1) by simp
  then show "sem_ok s'" using assms(2) sem_ok_step by blast
qed (use assms in \<open>auto simp: sem_post_def cond_signal_def sem_ok_def split: if_splits option.splits\<close>)

lemma sem_go_on_effect:
  assumes "sem_step e s = Some s'" and "e = CondReturn t \<or> e = Spurious t" and "sem_ok s"
  shows "m_value s' = m_value s - 1" and "sem_ok s'"
    and "set (sem_blocked s') \<union> set (sem_woken s') = set (sem_blocked s) \<union> set (sem_woken s) - {t}"
    and "t \<in> set (sem_blocked s) \<union> set (sem_woken s)"
proof -
  show "sem_ok s'" using assms sem_ok_step by blast
qed (use assms in \<open>auto simp: sem_wait_return_def take_unit_def sem_ok_def disjoint_iff split: if_splits\<close>)

lemma rw_inv_D:
  assumes "rw_inv r" and "t < length (pcs r)"
  shows "pc_ok (m_max_readers r) (pcs r ! t)" and "in_loop (pcs r ! t) \<longleftrightarrow> m_mutex r = Some t"
    and "is_blocked (pcs r ! t) \<longleftrightarrow> t \<in> set (sem_blocked (m_semaphore r)) \<union> set (sem_woken (m_semaphore r))"
    and "sem_ok (m_semaphore r)"
  using assms by (auto simp: rw_inv_def list_all_length)

lemma rw_inv_wait_enter:
  assumes "rw_inv r" and "t < length (pcs r)" and "\<not> is_blocked (pcs r ! t)"
    and "sem_wait_enter t (m_semaphore r) = Some (s, ret)"
    and "tokens n p = tokens n (pcs r ! t) + (if ret then 1 else 0)" and "n = m_max_readers r"
    and "pc_ok n p" and "in_loop p = in_loop (pcs r ! t)" and "is_blocked p = (\<not> ret)"
  shows "rw_inv (go_to t p (r\<lparr>m_semaphore := s\<rparr>))"
proof -
  note D = rw_inv_D [OF assms(1,2)]
  have "t \<notin> set (sem_blocked (m_semaphore r)) \<union> set (sem_woken (m_semaphore r))" using D(3) assms(3) by blast
  note E = sem_wait_enter_effect [OF assms(4) this D(4)]
  show ?thesis unfolding go_to_sem
    by (rule rw_inv_go_to [OF assms(1,2)]) (use assms(3,5-9) D E in auto)
qed

lemma rw_inv_post:
  assumes "rw_inv r" and "t < length (pcs r)" and "\<not> is_blocked (pcs r ! t)" and "\<not> in_loop (pcs r ! t)"
    and "sem_post w (m_semaphore r) = Some s"
    and "tokens n (pcs r ! t) = Suc (tokens n p)" and "n = m_max_readers r"
    and "pc_ok n p" and "\<not> in_loop p" and "\<not> is_blocked p"
  shows "rw_inv (go_to t p (r\<lparr>m_semaphore := s\<rparr>))"
proof -
  note D = rw_inv_D [OF assms(1,2)]
  note E = sem_post_effect [OF assms(5) D(4)]
  show ?thesis unfolding go_to_sem
    by (rule rw_inv_go_to [OF assms(1,2)]) (use assms D E in auto)
qed

lemma rw_inv_wait_ends:
  assumes "rw_inv r" and "t < length (pcs r)" and "e = CondReturn t \<or> e = Spurious t" and "wait_ends t e r = Some r'"
  shows "rw_inv r'"
proof -
  note D = rw_inv_D [OF assms(1,2)]
  obtain s where s: "sem_step e (m_semaphore r) = Some s" using assms(4) by (auto simp: wait_ends_def split: option.splits)
  note E = sem_go_on_effect [OF s assms(3) D(4)]
  show ?thesis
  proof (cases "pcs r ! t")
    case RBlocked
    then have r': "r' = go_to t Reading (r\<lparr>m_semaphore := s\<rparr>)" using assms(4) s by (simp add: wait_ends_def)
    show ?thesis unfolding r' go_to_sem
      by (rule rw_inv_go_to [OF assms(1,2)]) (use RBlocked D E in auto)
  next
    case (WBlocked i)
    then have r': "r' = go_to t (Acquiring (Suc i)) (r\<lparr>m_semaphore := s\<rparr>)" using assms(4) s by (simp add: wait_ends_def)
    show ?thesis unfolding r' go_to_sem
      by (rule rw_inv_go_to [OF assms(1,2)]) (use WBlocked D E in auto)
  qed (use assms(4) s in \<open>simp_all add: wait_ends_def\<close>)
qed

lemma rw_inv_move:
  assumes "rw_inv r" and "t < length (pcs r)" and "\<not> is_blocked (pcs r ! t)" and "\<not> is_blocked p"
    and "tokens (m_max_readers r) p = tokens (m_max_readers r) (pcs r ! t)" and "pc_ok (m_max_readers r) p"
    and "in_loop p \<longleftrightarrow> m = Some t" and "\<And>u. u \<noteq> t \<Longrightarrow> m = Some u \<longleftrightarrow> m_mutex r = Some u"
  shows "rw_inv (go_to t p (r\<lparr>m_mutex := m\<rparr>))"
proof -
  note D = rw_inv_D [OF assms(1,2)]
  have "rw_inv (go_to t p (r\<lparr>m_semaphore := m_semaphore r, m_mutex := m\<rparr>))"
    by (rule rw_inv_go_to [OF assms(1,2)]) (use assms D in auto)
  then show ?thesis by simp
qed

lemma rw_step_inv: "rw_inv r \<Longrightarrow> rw_step e r = Some r' \<Longrightarrow> rw_inv r'"
proof (cases e)
  case (LockR t)
  assume r: "rw_inv r" "rw_step e r = Some r'"
  then obtain s ret where s: "t < length (pcs r)" "pcs r ! t = Outside" "sem_wait_enter t (m_semaphore r) = Some (s, ret)"
      "r' = go_to t (if ret then Reading else RBlocked) (r\<lparr>m_semaphore := s\<rparr>)"
    using LockR by (auto simp: lock_for_reading_def split: if_splits)
  show ?thesis unfolding s(4) by (rule rw_inv_wait_enter [OF r(1) s(1) _ s(3) _ refl]) (use s(2) in auto)
next
  case (UnlockR t w)
  assume "rw_inv r" "rw_step e r = Some r'"
  with UnlockR show ?thesis
    by (auto simp: unlock_for_reading_def split: if_splits intro!: rw_inv_post [where n = "m_max_readers r"])
next
  case (LockW t)
  assume "rw_inv r" "rw_step e r = Some r'"
  with LockW show ?thesis
    by (auto simp: writer_enters_def split: if_splits intro!: rw_inv_move)
next
  case (WTurn t)
  assume r: "rw_inv r" "rw_step e r = Some r'"
  then obtain i where i: "t < length (pcs r)" "pcs r ! t = Acquiring i" "writer_turn t i r = Some r'"
    using WTurn by (auto split: if_splits rw_pc.splits)
  note D = rw_inv_D [OF r(1) i(1)]
  show ?thesis
  proof (cases "i < m_max_readers r")
    case True
    with i obtain s ret where s: "sem_wait_enter t (m_semaphore r) = Some (s, ret)"
        "r' = go_to t (if ret then Acquiring (Suc i) else WBlocked i) (r\<lparr>m_semaphore := s\<rparr>)"
      by (auto simp: writer_turn_def)
    show ?thesis unfolding s(2)
      by (rule rw_inv_wait_enter [OF r(1) i(1) _ s(1) _ refl]) (use i(2) True in auto)
  next
    case False
    with i r(1) D show ?thesis
      by (auto simp: writer_turn_def intro!: rw_inv_move)
  qed
next
  case (UnlockW t w)
  assume r: "rw_inv r" "rw_step e r = Some r'"
  then have t: "t < length (pcs r)" using UnlockW by (auto split: if_splits)
  obtain i where i: "pcs r ! t = Writing \<and> i = 0 \<or> pcs r ! t = Releasing i" "release_turn t i w r = Some r'"
    using UnlockW r(2) by (auto split: if_splits rw_pc.splits)
  note D = rw_inv_D [OF r(1) t]
  show ?thesis
  proof (cases "i < m_max_readers r")
    case True
    with i r(1) t show ?thesis
      by (auto simp: release_turn_def intro!: rw_inv_post [where n = "m_max_readers r"])
  next
    case False
    then have r': "r' = go_to t Outside (r\<lparr>m_mutex := m_mutex r\<rparr>)" using i by (auto simp: release_turn_def split: if_splits)
    show ?thesis unfolding r' by (rule rw_inv_move [OF r(1) t]) (use i False D in auto)
  qed
next
  case (GoOn t)
  assume "rw_inv r" "rw_step e r = Some r'"
  with GoOn show ?thesis by (auto split: if_splits intro: rw_inv_wait_ends)
next
  case (GoOnSpurious t)
  assume "rw_inv r" "rw_step e r = Some r'"
  with GoOnSpurious show ?thesis by (auto split: if_splits intro: rw_inv_wait_ends)
qed

interpretation rw_inv: invariant_of rw_step rw_inv
  by unfold_locales (rule rw_step_inv)

text \<open>The lock drives its semaphore: an event of the lock is at most one event of the semaphore.\<close>

lemma rw_step_sem:
  assumes "rw_inv r" and "rw_step e r = Some r'"
  shows "case sem_part e r of None \<Rightarrow> m_semaphore r' = m_semaphore r
     | Some se \<Rightarrow> sem_step se (m_semaphore r) = Some (m_semaphore r')"
proof -
  have free: "t \<notin> set (sem_blocked (m_semaphore r)) \<union> set (sem_woken (m_semaphore r))"
    if "t < length (pcs r)" "\<not> is_blocked (pcs r ! t)" for t
    using rw_inv_D(3) [OF assms(1) that(1)] that(2) by blast
  show ?thesis
  proof (cases e)
    case (LockR t)
    then show ?thesis using assms(2) free [of t] by (auto simp: lock_for_reading_def go_to_def split: if_splits)
  next
    case (WTurn t)
    then show ?thesis using assms(2) free [of t]
      by (auto simp: writer_turn_def go_to_def split: if_splits rw_pc.splits)
  next
    case (GoOn t)
    then show ?thesis using assms(2)
      by (auto simp: wait_ends_def go_to_def simp del: sem_step.simps split: if_splits option.splits rw_pc.splits)
  next
    case (GoOnSpurious t)
    then show ?thesis using assms(2)
      by (auto simp: wait_ends_def go_to_def simp del: sem_step.simps split: if_splits option.splits rw_pc.splits)
  qed (use assms(2) in \<open>auto simp: unlock_for_reading_def writer_enters_def release_turn_def go_to_def
         split: if_splits rw_pc.splits\<close>)
qed

lemma rw_covered_step:
  assumes "rw_inv r \<and> sem_covered (m_semaphore r)" and "\<not> rw_steals e r" and "rw_step e r = Some r'"
  shows "rw_inv r' \<and> sem_covered (m_semaphore r')"
  using rw_step_sem [of r e r'] rw_step_inv [of r e r'] sem_covered_step assms
  by (cases "sem_part e r") (auto simp: rw_steals_def)

interpretation rw_covered: guarded_invariant rw_step "\<lambda>e r. \<not> rw_steals e r" "\<lambda>r. rw_inv r \<and> sem_covered (m_semaphore r)"
  by unfold_locales (rule rw_covered_step)

lemma rw_step_const: "rw_step e r = Some r' \<Longrightarrow> m_max_readers r' = m_max_readers r \<and> length (pcs r') = length (pcs r)"
  by (cases e)
    (auto simp: lock_for_reading_def unlock_for_reading_def writer_enters_def writer_turn_def release_turn_def wait_ends_def
      go_to_def simp del: sem_step.simps split: if_splits option.splits rw_pc.splits)

lemma rw_runs_const: "runs rw_step es r = Some r' \<Longrightarrow> m_max_readers r' = m_max_readers r \<and> length (pcs r') = length (pcs r)"
proof (induction es arbitrary: r)
  case Nil
  then show ?case by simp
next
  case (Cons e es)
  then obtain u where u: "rw_step e r = Some u" "runs rw_step es u = Some r'" by (auto simp del: rw_step.simps split: bind_splits)
  show ?case using rw_step_const [OF u(1)] Cons.IH [OF u(2)] by simp
qed

lemma rw_new_ok:
  assumes "rw_new mr n = Inr r" and "mr < 2 ^ 32"
  shows "rw_inv r \<and> sem_covered (m_semaphore r) \<and> m_max_readers r = unat mr \<and> length (pcs r) = n"
proof -
  from assms(1) obtain s where s: "Semaphore_ctor (ucast mr) = Inr s" "r = \<lparr>m_semaphore = s, m_max_readers = unat mr, m_mutex = None, pcs = replicate n Outside\<rparr>"
    by (auto simp: rw_new_def split: sum.splits)
  have "uint mr < 2 ^ 32" using assms(2) by (simp add: word_less_def)
  then have "uint (ucast mr :: u32) = int (unat mr)"
    by (simp add: unsigned_ucast_eq take_bit_eq_mod)
  then have "m_value s = int (unat mr)" using Semaphore_ctor_ok [OF s(1)] by simp
  moreover have "s = \<lparr>m_value = m_value s, sem_blocked = [], sem_woken = []\<rparr>"
    using s(1) by (auto simp: Semaphore_ctor_def split: if_splits)
  moreover have "sum_list (map (tokens k) (replicate n Outside)) = 0" for k by (induction n) auto
  ultimately show ?thesis using s(2) Semaphore_ctor_ok [OF s(1)]
    by (auto simp: rw_inv_def rw_held_def list_all_length)
qed

section \<open>Properties\<close>

text \<open>
  Conservation of the units of a semaphore, in every run, with spurious wake-ups and time-outs: the value is the
  initial one less what the threads have taken and not given back, no wake-up is lost (if a thread is blocked and
  none is on its way, there is no unit left), and the threads that are blocked or woken are all different.
\<close>

theorem sem_conservation:
  assumes "Semaphore_ctor n = Inr s0" and "runs sem_step es s0 = Some s"
  shows "m_value s = uint n - units_out es s0
    \<and> (sem_blocked s \<noteq> [] \<longrightarrow> sem_woken s = [] \<longrightarrow> m_value s \<le> 0)
    \<and> distinct (sem_blocked s @ sem_woken s)"
  using sem_units.level_after [OF assms(2)] sem_ok.always_after [OF _ assms(2)] Semaphore_ctor_ok [OF assms(1)]
  by (auto simp: units_out_def sem_ok_def)

theorem sem_conservation_witness:
  "let s0 = \<lparr>m_value = 1, sem_blocked = [], sem_woken = []\<rparr>; es = [WaitEnter 0, WaitEnter 1, WaitEnter 2, Expired 2];
       s = \<lparr>m_value = 0, sem_blocked = [1], sem_woken = []\<rparr>
   in runs sem_step es s0 = Some s \<and> m_value s = uint (1 :: u32) - units_out es s0
    \<and> (sem_blocked s \<noteq> [] \<longrightarrow> sem_woken s = [] \<longrightarrow> m_value s \<le> 0)
    \<and> distinct (sem_blocked s @ sem_woken s)"
proof -
  have c: "Semaphore_ctor 1 = Inr \<lparr>m_value = 1, sem_blocked = [], sem_woken = []\<rparr>" by code_simp
  have r: "runs sem_step [WaitEnter 0, WaitEnter 1, WaitEnter 2, Expired 2] \<lparr>m_value = 1, sem_blocked = [], sem_woken = []\<rparr>
      = Some \<lparr>m_value = 0, sem_blocked = [1], sem_woken = []\<rparr>" by code_simp
  show ?thesis unfolding Let_def by (rule conjI [OF r sem_conservation [OF c r]])
qed

text \<open>
  A semaphore never lets more threads in than it has units: as long as no thread takes a unit that a \<open>post\<close> has
  meant for a woken thread, and no wake-up is spurious. The code does not rule the two out (see the next property).
\<close>

theorem sem_bound:
  assumes "Semaphore_ctor n = Inr s0" and "runs sem_step es s0 = Some s" and "orderly es s0"
  shows "0 \<le> m_value s \<and> units_out es s0 \<le> uint n"
proof -
  have "sem_covered s"
    by (rule sem_covered.holds_after [OF _ _ assms(2)])
      (use Semaphore_ctor_ok [OF assms(1)] assms(3) in \<open>auto simp: orderly_def\<close>)
  then show ?thesis
    using sem_units.level_after [OF assms(2)] Semaphore_ctor_ok [OF assms(1)] by (auto simp: sem_covered_def units_out_def)
qed

theorem sem_bound_witness:
  "let s0 = \<lparr>m_value = 1, sem_blocked = [], sem_woken = []\<rparr>; es = [WaitEnter 0, WaitEnter 1, Post (Some 1), CondReturn 1];
       s = \<lparr>m_value = 0, sem_blocked = [], sem_woken = []\<rparr>
   in runs sem_step es s0 = Some s \<and> 0 \<le> m_value s \<and> units_out es s0 \<le> uint (1 :: u32)"
proof -
  have c: "Semaphore_ctor 1 = Inr \<lparr>m_value = 1, sem_blocked = [], sem_woken = []\<rparr>" by code_simp
  have r: "runs sem_step [WaitEnter 0, WaitEnter 1, Post (Some 1), CondReturn 1] \<lparr>m_value = 1, sem_blocked = [], sem_woken = []\<rparr>
      = Some \<lparr>m_value = 0, sem_blocked = [], sem_woken = []\<rparr>" by code_simp
  have d: "orderly [WaitEnter 0, WaitEnter 1, Post (Some 1), CondReturn 1] \<lparr>m_value = 1, sem_blocked = [], sem_woken = []\<rparr>" by code_simp
  show ?thesis unfolding Let_def by (rule conjI [OF r sem_bound [OF c r d]])
qed

text \<open>
  The code does not put the wait of a semaphore in a loop, so that a thread that calls \<open>wait\<close> between a \<open>post\<close> and
  the return of the woken thread takes the unit of the latter, which takes one more: the value becomes negative. From
  then on \<open>wait\<close> lets every thread in without blocking, however many there are, while \<open>try_wait\<close> lets none
  in. The last conjunct is such a run of a semaphore with one unit.
\<close>

theorem sem_stolen_unit:
  "(INT_MIN < m_value s \<and> m_value s < 0 \<longrightarrow>
       sem_wait_enter t s = Some (s\<lparr>m_value := m_value s - 1\<rparr>, True) \<and> sem_try_wait s = Some (s, SEMAPHORE_NO_RSC))
   \<and> (let s0 = \<lparr>m_value = 1, sem_blocked = [], sem_woken = []\<rparr>;
          es = [WaitEnter 0, WaitEnter 1, Post (Some 1), WaitEnter 2, CondReturn 1, WaitEnter 3, WaitEnter 4]
      in runs sem_step es s0 = Some \<lparr>m_value = - 3, sem_blocked = [], sem_woken = []\<rparr> \<and> units_out es s0 = 4)"
proof -
  have "let s0 = \<lparr>m_value = 1, sem_blocked = [], sem_woken = []\<rparr>;
          es = [WaitEnter 0, WaitEnter 1, Post (Some 1), WaitEnter 2, CondReturn 1, WaitEnter 3, WaitEnter 4]
      in runs sem_step es s0 = Some \<lparr>m_value = - 3, sem_blocked = [], sem_woken = []\<rparr> \<and> units_out es s0 = 4"
    by code_simp
  moreover have "INT_MIN < m_value s \<and> m_value s < 0 \<longrightarrow>
       sem_wait_enter t s = Some (s\<lparr>m_value := m_value s - 1\<rparr>, True) \<and> sem_try_wait s = Some (s, SEMAPHORE_NO_RSC)"
    by (auto simp: sem_wait_enter_def take_unit_def sem_try_wait_def)
  ultimately show ?thesis by blast
qed

theorem sem_stolen_unit_witness:
  "let s = \<lparr>m_value = - 1, sem_blocked = [], sem_woken = []\<rparr> in
     sem_wait_enter 7 s = Some (s\<lparr>m_value := - 2\<rparr>, True) \<and> sem_try_wait s = Some (s, SEMAPHORE_NO_RSC)"
  using sem_stolen_unit [of "\<lparr>m_value = - 1, sem_blocked = [], sem_woken = []\<rparr>" 7] by (simp add: INT_MIN_def)

lemma rw_held_others:
  assumes "\<And>u. u < length ps \<Longrightarrow> u \<noteq> t \<Longrightarrow> tokens n (ps ! u) = 0" and "t < length ps"
  shows "sum_list (map (tokens n) ps) = tokens n (ps ! t)"
proof -
  have "sum_list (map (tokens n) (ps[t := Outside])) = 0"
    using assms by (auto simp: in_set_conv_nth nth_list_update)
  moreover have "sum_list (map (tokens n) (ps[t := Outside])) + tokens n (ps ! t) = sum_list (map (tokens n) ps) + tokens n Outside"
    by (rule sum_map_update [OF assms(2)])
  moreover have "tokens n Outside = 0" by simp
  ultimately show ?thesis by linarith
qed

lemma rw_held_two:
  assumes "t < length ps" and "u < length ps" and "t \<noteq> u"
  shows "tokens n (ps ! t) + tokens n (ps ! u) \<le> sum_list (map (tokens n) ps)"
  using sum_map_update [OF assms(1), of "tokens n" Outside] sum_map_ge [of u "ps[t := Outside]" "tokens n"] assms by simp

lemma rw_running_exists:
  assumes "rw_inv r" and "0 < m_max_readers r" and "t < length (pcs r)" and "is_blocked (pcs r ! t)"
    and "sem_woken (m_semaphore r) = []"
  shows "\<exists>u < length (pcs r). 0 < tokens (m_max_readers r) (pcs r ! u) \<and> \<not> is_blocked (pcs r ! u)"
proof (rule ccontr)
  define n where "n = m_max_readers r"
  assume "\<not> ?thesis"
  then have idle: "tokens n (pcs r ! u) = 0" if "u < length (pcs r)" "\<not> is_blocked (pcs r ! u)" for u
    using that by (auto simp: n_def)
  have "t \<in> set (sem_blocked (m_semaphore r))" using rw_inv_D(3) [OF assms(1,3)] assms(4,5) by auto
  then have "m_value (m_semaphore r) \<le> 0" using assms(1,5) by (auto simp: rw_inv_def sem_ok_def)
  then have n: "n \<le> sum_list (map (tokens n) (pcs r))" using assms(1) by (simp add: rw_inv_def rw_held_def n_def)
  then have "\<exists>w < length (pcs r). 0 < tokens n (pcs r ! w)"
    using assms(2) by (metis (no_types, lifting) n_def gr0I in_set_conv_nth leD length_map nth_map sum_list_eq_0_iff)
  then obtain w where w: "w < length (pcs r)" "0 < tokens n (pcs r ! w)" by blast
  then obtain i where i: "pcs r ! w = WBlocked i" using idle [of w] by (cases "pcs r ! w") auto
  have "sum_list (map (tokens n) (pcs r)) = tokens n (pcs r ! w)"
  proof (rule rw_held_others [OF _ w(1)])
    fix u assume u: "u < length (pcs r)" "u \<noteq> w"
    show "tokens n (pcs r ! u) = 0"
    proof (cases "is_blocked (pcs r ! u)")
      case True
      have "m_mutex r = Some w" using rw_inv_D(2) [OF assms(1) w(1)] i by simp
      then have "\<not> in_loop (pcs r ! u)" using rw_inv_D(2) [OF assms(1) u(1)] u(2) by simp
      then show ?thesis using True by (cases "pcs r ! u") auto
    qed (use idle u in auto)
  qed
  then show False using n i rw_inv_D(1) [OF assms(1) w(1)] by (simp add: n_def)
qed

text \<open>
  C17: The lock excludes: while a thread writes, no other thread reads or writes, and at most \<open>max_readers\<close> threads read; for
  every number of readers below \<open>2 ^ 32\<close> other than zero, every number of threads and every interleaving in
  which no thread takes a unit of the semaphore when there are no more units than woken threads, for which they are meant. This leaves
  out two things that the code does not rule out: a thread that enters the semaphore between an \<open>unlock\<close> and the return of the thread that it
  has woken, and every spurious wake-up, since a thread that goes on without a signal takes a unit that is not there. With either of them the
  exclusion fails (\<open>rw_exclusion_fails\<close>).
\<close>

theorem rw_exclusion:
  assumes "rw_new mr n = Inr r0" and "0 < mr" and "mr < 2 ^ 32"
    and "runs rw_step es r0 = Some r" and "rw_orderly es r0"
  shows "(\<forall>t < n. \<forall>u < n. pcs r ! t = Writing \<longrightarrow> u \<noteq> t \<longrightarrow> pcs r ! u \<noteq> Writing \<and> pcs r ! u \<noteq> Reading)
     \<and> length (filter (\<lambda>p. p = Reading) (pcs r)) \<le> unat mr"
proof -
  note N = rw_new_ok [OF assms(1,3)]
  have I: "rw_inv r \<and> sem_covered (m_semaphore r)"
    by (rule rw_covered.holds_after [OF _ _ assms(4)]) (use N assms(5) in \<open>auto simp: rw_orderly_def\<close>)
  have C: "m_max_readers r = unat mr" "length (pcs r) = n" using rw_runs_const [OF assms(4)] N by auto
  have "m_value (m_semaphore r) + int (rw_held r) = int (m_max_readers r)" using I by (simp only: rw_inv_def)
  moreover have "0 \<le> m_value (m_semaphore r)" using I by (auto simp: sem_covered_def)
  ultimately have held: "rw_held r \<le> unat mr" using C(1) by linarith
  have pos: "0 < unat mr" using assms(2) by (simp add: word_gt_0 unat_gt_0)
  have "pcs r ! u \<noteq> Writing \<and> pcs r ! u \<noteq> Reading" if "t < n" "u < n" "pcs r ! t = Writing" "u \<noteq> t" for t u
    using rw_held_two [of t "pcs r" u "unat mr"] that held pos C by (auto simp: rw_held_def)
  moreover have "length (filter (\<lambda>p. p = Reading) ps) \<le> sum_list (map (tokens k) ps)" for ps k
    by (induction ps) auto
  then have "length (filter (\<lambda>p. p = Reading) (pcs r)) \<le> unat mr"
    using held C(1) by (metis le_trans rw_held_def)
  ultimately show ?thesis by blast
qed

theorem rw_exclusion_witness:
  "let r = \<lparr>m_semaphore = \<lparr>m_value = 0, sem_blocked = [], sem_woken = []\<rparr>, m_max_readers = 2, m_mutex = None, pcs = [Outside, Writing, Outside]\<rparr> in
     (\<forall>t < 3. \<forall>u < 3. pcs r ! t = Writing \<longrightarrow> u \<noteq> t \<longrightarrow> pcs r ! u \<noteq> Writing \<and> pcs r ! u \<noteq> Reading)
     \<and> length (filter (\<lambda>p. p = Reading) (pcs r)) \<le> unat (2 :: u64)"
proof -
  have c: "rw_new 2 3 = Inr \<lparr>m_semaphore = \<lparr>m_value = 2, sem_blocked = [], sem_woken = []\<rparr>, m_max_readers = 2, m_mutex = None, pcs = [Outside, Outside, Outside]\<rparr>" by code_simp
  have r: "runs rw_step [LockR 0, LockW 1, WTurn 1, WTurn 1, UnlockR 0 (Some 1), GoOn 1, WTurn 1] \<lparr>m_semaphore = \<lparr>m_value = 2, sem_blocked = [], sem_woken = []\<rparr>, m_max_readers = 2, m_mutex = None, pcs = [Outside, Outside, Outside]\<rparr> = Some \<lparr>m_semaphore = \<lparr>m_value = 0, sem_blocked = [], sem_woken = []\<rparr>, m_max_readers = 2, m_mutex = None, pcs = [Outside, Writing, Outside]\<rparr>" by code_simp
  have o: "rw_orderly [LockR 0, LockW 1, WTurn 1, WTurn 1, UnlockR 0 (Some 1), GoOn 1, WTurn 1] \<lparr>m_semaphore = \<lparr>m_value = 2, sem_blocked = [], sem_woken = []\<rparr>, m_max_readers = 2, m_mutex = None, pcs = [Outside, Outside, Outside]\<rparr>" by code_simp
  show ?thesis unfolding Let_def by (rule rw_exclusion [OF c _ _ r o]) code_simp+
qed

text \<open>
  C18: The lock does not deadlock, whatever the interleaving: a thread that is blocked in the semaphore while no woken thread is on
  its way is waiting for a thread that is not blocked and holds a unit (it reads, writes, or runs through one of
  the two loops), and that thread can make a step.
\<close>

theorem rw_no_deadlock:
  assumes "rw_new mr n = Inr r0" and "0 < mr" and "mr < 2 ^ 32" and "runs rw_step es r0 = Some r"
    and "t < n" and "is_blocked (pcs r ! t)" and "sem_woken (m_semaphore r) = []"
  shows "\<exists>u < n. 0 < tokens (unat mr) (pcs r ! u) \<and> \<not> is_blocked (pcs r ! u)"
proof -
  note N = rw_new_ok [OF assms(1,3)]
  have "rw_inv r" by (rule rw_inv.always_after [OF _ assms(4)]) (use N in blast)
  moreover have "m_max_readers r = unat mr" "length (pcs r) = n" using rw_runs_const [OF assms(4)] N by auto
  moreover have "0 < unat mr" using assms(2) by (simp add: word_gt_0 unat_gt_0)
  ultimately show ?thesis using rw_running_exists [of r t] assms(5-7) by auto
qed

theorem rw_no_deadlock_witness:
  "let r = \<lparr>m_semaphore = \<lparr>m_value = 0, sem_blocked = [1], sem_woken = []\<rparr>, m_max_readers = 2, m_mutex = Some 1, pcs = [Reading, WBlocked 1, Outside]\<rparr> in
     is_blocked (pcs r ! 1) \<and> (\<exists>u < 3. 0 < tokens (unat (2 :: u64)) (pcs r ! u) \<and> \<not> is_blocked (pcs r ! u))"
proof -
  have c: "rw_new 2 3 = Inr \<lparr>m_semaphore = \<lparr>m_value = 2, sem_blocked = [], sem_woken = []\<rparr>, m_max_readers = 2, m_mutex = None, pcs = [Outside, Outside, Outside]\<rparr>" by code_simp
  have r: "runs rw_step [LockR 0, LockW 1, WTurn 1, WTurn 1] \<lparr>m_semaphore = \<lparr>m_value = 2, sem_blocked = [], sem_woken = []\<rparr>, m_max_readers = 2, m_mutex = None, pcs = [Outside, Outside, Outside]\<rparr> = Some \<lparr>m_semaphore = \<lparr>m_value = 0, sem_blocked = [1], sem_woken = []\<rparr>, m_max_readers = 2, m_mutex = Some 1, pcs = [Reading, WBlocked 1, Outside]\<rparr>" by code_simp
  have b: "is_blocked (pcs \<lparr>m_semaphore = \<lparr>m_value = 0, sem_blocked = [1], sem_woken = []\<rparr>, m_max_readers = 2, m_mutex = Some 1, pcs = [Reading, WBlocked 1, Outside]\<rparr> ! 1)" by code_simp
  show ?thesis unfolding Let_def by (rule conjI [OF b rw_no_deadlock [OF c _ _ r _ b]]) code_simp+
qed

text \<open>
  Without the restriction of \<open>rw_exclusion\<close> the exclusion fails, with three threads: a reader that arrives between the \<open>unlock\<close> of
  another one and the return of the writer that was waiting reads while the writer writes, and after them
  every thread that comes reads, too. After one spurious wake-up a thread writes while another one reads. With \<open>max_readers = 0\<close> two threads
  write at once.
\<close>

theorem rw_exclusion_fails:
  "(case rw_new 1 4 of Inl e \<Rightarrow> None | Inr r0 \<Rightarrow>
      map_option pcs (runs rw_step [LockR 0, LockW 1, WTurn 1, UnlockR 0 (Some 1), LockR 2, GoOn 1, WTurn 1, LockR 3] r0))
     = Some [Outside, Writing, Reading, Reading]
   \<and> (case rw_new 1 2 of Inl e \<Rightarrow> None | Inr r0 \<Rightarrow>
      map_option pcs (runs rw_step [LockR 0, LockW 1, WTurn 1, GoOnSpurious 1, WTurn 1] r0)) = Some [Reading, Writing]
   \<and> (case rw_new 0 2 of Inl e \<Rightarrow> None | Inr r0 \<Rightarrow>
      map_option pcs (runs rw_step [LockW 0, WTurn 0, LockW 1, WTurn 1] r0)) = Some [Writing, Writing]"
  by code_simp

end
