(* ===== verification/Barrier.thy ===== *)
theory Barrier
  imports Prelude Transitions
begin

text \<open>
  The barrier of \<open>src/threading/Barrier.cpp\<close> and \<open>include/yat/threading/Barrier.i\<close>. The condition variable is the
  list of the threads blocked in it, each with its time-out (0 is an infinite wait), and the list of those that the
  broadcast has woken. The last three fields record how the calls of \<open>wait\<close> have ended: they
  returned, for whatever reason, threw \<open>TIMEOUT_EXPIRED\<close>, or were refused.
\<close>

section \<open>The code\<close>

record barrier =
  m_thread_count :: u64
  m_waiters_count :: u64
  bar_blocked :: "(nat \<times> u64) list"
  bar_woken :: "nat list"
  bar_passed :: "nat list"
  bar_timed_out :: "nat list"
  bar_refused :: "nat list"

definition YAT_BARRIER_MAX_COUNT :: u64 where "YAT_BARRIER_MAX_COUNT = drop_bit 1 (- 1)"

datatype barrier_error = BAD_VALUE

definition Barrier_ctor :: "u64 \<Rightarrow> barrier_error + barrier" where
  "Barrier_ctor count =
     (if YAT_BARRIER_MAX_COUNT < count then Inl BAD_VALUE
      else Inr \<lparr>m_thread_count = count, m_waiters_count = 0, bar_blocked = [], bar_woken = [],
                bar_passed = [], bar_timed_out = [], bar_refused = []\<rparr>)"

definition has_expired :: "barrier \<Rightarrow> bool" where
  "has_expired b \<longleftrightarrow> m_waiters_count b = m_thread_count b"

text \<open>\<open>wait\<close> until it returns, throws \<open>PROGRAMMING_ERROR\<close>, or waits on the condition variable.\<close>

definition barrier_wait :: "nat \<Rightarrow> u64 \<Rightarrow> barrier \<Rightarrow> barrier" where
  "barrier_wait t tmo b =
     (if m_waiters_count b = m_thread_count b then b\<lparr>bar_refused := bar_refused b @ [t]\<rparr>
      else
        let b = b\<lparr>m_waiters_count := m_waiters_count b + 1\<rparr> in
        if m_waiters_count b = m_thread_count b then
          b\<lparr>bar_woken := bar_woken b @ map fst (bar_blocked b), bar_blocked := [], bar_passed := bar_passed b @ [t]\<rparr>
        else b\<lparr>bar_blocked := bar_blocked b @ [(t, tmo)]\<rparr>)"

text \<open>
  The wait on the condition variable ends: \<open>BReturn\<close> for a thread that was woken, \<open>BSpurious\<close> for one that was not,
  \<open>BTimeout\<close> when its time-out expires, and \<open>wait\<close> throws. The code does not look at the count again behind the wait, so that a thread
  that wakes up without a reason returns.
\<close>

datatype barrier_event = BWait nat u64 | BReturn nat | BSpurious nat u64 | BTimeout nat u64

fun barrier_step :: "barrier_event \<Rightarrow> barrier \<Rightarrow> barrier option" where
  "barrier_step (BWait t tmo) b = Some (barrier_wait t tmo b)"
| "barrier_step (BReturn t) b =
     (if t \<in> set (bar_woken b) then Some (b\<lparr>bar_woken := remove1 t (bar_woken b), bar_passed := bar_passed b @ [t]\<rparr>) else None)"
| "barrier_step (BSpurious t tmo) b =
     (if (t, tmo) \<in> set (bar_blocked b)
      then Some (b\<lparr>bar_blocked := remove1 (t, tmo) (bar_blocked b), bar_passed := bar_passed b @ [t]\<rparr>) else None)"
| "barrier_step (BTimeout t tmo) b =
     (if (t, tmo) \<in> set (bar_blocked b) \<and> tmo \<noteq> 0
      then Some (b\<lparr>bar_blocked := remove1 (t, tmo) (bar_blocked b), bar_timed_out := bar_timed_out b @ [t]\<rparr>) else None)"

section \<open>The contract\<close>

text \<open>The calls that the barrier has counted.\<close>

definition bar_arrived :: "barrier \<Rightarrow> nat list" where
  "bar_arrived b = map fst (bar_blocked b) @ bar_woken b @ bar_passed b @ bar_timed_out b"

definition barrier_inv :: "barrier \<Rightarrow> bool" where
  "barrier_inv b \<longleftrightarrow>
     unat (m_waiters_count b) = length (bar_arrived b)
     \<and> m_waiters_count b \<le> m_thread_count b
     \<and> (m_waiters_count b < m_thread_count b \<longrightarrow> bar_woken b = [] \<and> bar_refused b = [])
     \<and> (m_waiters_count b = m_thread_count b \<longrightarrow> bar_blocked b = [])"

lemma length_remove1_Suc: "x \<in> set xs \<Longrightarrow> Suc (length (remove1 x xs)) = length xs"
  by (metis One_nat_def Suc_pred length_pos_if_in_set length_remove1)

lemma count_up:
  assumes "(w :: u64) \<le> c" and "w \<noteq> c"
  shows "unat (w + 1) = Suc (unat w)" and "w + 1 \<le> c" and "w < c"
proof -
  show l: "w < c" using assms by simp
  then have "unat w < unat c" by (simp add: word_less_nat_alt)
  moreover have "unat c < 2 ^ LENGTH(64)" by (rule unsigned_less)
  then have "unat c < 2 ^ 64" by simp
  ultimately have "Suc (unat w) < 2 ^ 64" by linarith
  then show u: "unat (w + 1) = Suc (unat w)" by (simp add: unat_word_ariths)
  show "w + 1 \<le> c" using \<open>unat w < unat c\<close> u by (simp add: word_le_nat_alt)
qed

lemma barrier_wait_refused: "m_waiters_count b = m_thread_count b \<Longrightarrow> barrier_wait t tmo b = b\<lparr>bar_refused := bar_refused b @ [t]\<rparr>"
  by (simp add: barrier_wait_def)

lemma barrier_wait_last:
  "m_waiters_count b \<noteq> m_thread_count b \<Longrightarrow> m_waiters_count b + 1 = m_thread_count b \<Longrightarrow>
     barrier_wait t tmo b = b\<lparr>m_waiters_count := m_thread_count b, bar_woken := bar_woken b @ map fst (bar_blocked b),
                              bar_blocked := [], bar_passed := bar_passed b @ [t]\<rparr>"
  by (simp add: barrier_wait_def)

lemma barrier_wait_blocks:
  "m_waiters_count b \<noteq> m_thread_count b \<Longrightarrow> m_waiters_count b + 1 \<noteq> m_thread_count b \<Longrightarrow>
     barrier_wait t tmo b = b\<lparr>m_waiters_count := m_waiters_count b + 1, bar_blocked := bar_blocked b @ [(t, tmo)]\<rparr>"
  by (simp add: barrier_wait_def)

lemma barrier_wait_inv:
  assumes "barrier_inv b"
  shows "barrier_inv (barrier_wait t tmo b)"
proof -
  consider (refused) "m_waiters_count b = m_thread_count b"
    | (last) "m_waiters_count b \<noteq> m_thread_count b" "m_waiters_count b + 1 = m_thread_count b"
    | (blocks) "m_waiters_count b \<noteq> m_thread_count b" "m_waiters_count b + 1 \<noteq> m_thread_count b" by blast
  then show ?thesis
  proof cases
    case refused
    then show ?thesis using assms by (simp add: barrier_wait_refused barrier_inv_def bar_arrived_def)
  next
    case last
    note C = count_up [of "m_waiters_count b" "m_thread_count b"]
    have "unat (m_thread_count b) = Suc (unat (m_waiters_count b))" using C(1) last assms by (simp add: barrier_inv_def)
    then show ?thesis using last assms by (simp add: barrier_wait_last barrier_inv_def bar_arrived_def)
  next
    case blocks
    note C = count_up [of "m_waiters_count b" "m_thread_count b"]
    have "m_waiters_count b \<le> m_thread_count b" using assms by (simp add: barrier_inv_def)
    note C = C [OF this blocks(1)]
    then show ?thesis using blocks assms by (simp add: barrier_wait_blocks barrier_inv_def bar_arrived_def)
  qed
qed

lemma barrier_step_inv:
  assumes "barrier_inv b" and "barrier_step e b = Some b'"
  shows "barrier_inv b'"
proof (cases e)
  case (BWait t tmo)
  then show ?thesis using assms barrier_wait_inv by auto
next
  case (BReturn t)
  then show ?thesis using assms length_remove1_Suc [of t "bar_woken b"]
    by (auto simp: barrier_inv_def bar_arrived_def split: if_splits)
next
  case (BSpurious t tmo)
  then show ?thesis using assms length_remove1_Suc [of "(t, tmo)" "bar_blocked b"]
    by (auto simp: barrier_inv_def bar_arrived_def split: if_splits)
next
  case (BTimeout t tmo)
  then show ?thesis using assms length_remove1_Suc [of "(t, tmo)" "bar_blocked b"]
    by (auto simp: barrier_inv_def bar_arrived_def split: if_splits)
qed

interpretation barrier_inv: invariant_of barrier_step barrier_inv
  by unfold_locales (rule barrier_step_inv)

lemma barrier_wait_count: "m_thread_count (barrier_wait t tmo b) = m_thread_count b"
  by (simp add: barrier_wait_def Let_def)

lemma barrier_step_count: "barrier_step e b = Some b' \<Longrightarrow> m_thread_count b' = m_thread_count b"
  by (cases e) (auto simp: barrier_wait_count split: if_splits)

lemma barrier_runs_count: "runs barrier_step es b = Some b' \<Longrightarrow> m_thread_count b' = m_thread_count b"
proof (induction es arbitrary: b)
  case Nil
  then show ?case by simp
next
  case (Cons e es)
  then obtain u where u: "barrier_step e b = Some u" "runs barrier_step es u = Some b'"
    by (auto simp del: barrier_step.simps split: bind_splits)
  show ?case using barrier_step_count [OF u(1)] Cons.IH [OF u(2)] by simp
qed

fun is_spurious :: "barrier_event \<Rightarrow> bool" where
  "is_spurious (BSpurious t tmo) = True"
| "is_spurious _ = False"

lemma expired_stays: "barrier_inv b \<Longrightarrow> has_expired b \<Longrightarrow> barrier_step e b = Some b' \<Longrightarrow> has_expired b'"
  by (cases e) (auto simp: has_expired_def barrier_wait_refused split: if_splits)

lemma expired_runs: "runs barrier_step es b = Some b' \<Longrightarrow> barrier_inv b \<Longrightarrow> has_expired b \<Longrightarrow> has_expired b'"
proof (induction es arbitrary: b)
  case (Cons e es)
  then obtain u where "barrier_step e b = Some u" "runs barrier_step es u = Some b'"
    by (auto simp del: barrier_step.simps split: bind_splits)
  then show ?case using Cons expired_stays barrier_step_inv by blast
qed simp

text \<open>Before the barrier expires, a call returns by a spurious wake-up only.\<close>

lemma early_step:
  assumes "barrier_inv b" and "barrier_step e b = Some b'" and "\<not> has_expired b'"
  shows "length (bar_passed b') = length (bar_passed b) + (if is_spurious e then 1 else 0)"
proof -
  have "\<not> has_expired b" using assms expired_stays by blast
  then have "bar_woken b = []" using assms(1) by (auto simp: barrier_inv_def has_expired_def)
  then show ?thesis using assms(2,3) by (cases e) (auto simp: barrier_wait_def has_expired_def Let_def split: if_splits)
qed

lemma early_runs:
  "runs barrier_step es b = Some b' \<Longrightarrow> barrier_inv b \<Longrightarrow> \<not> has_expired b' \<Longrightarrow>
     length (bar_passed b') = length (bar_passed b) + length (filter is_spurious es)"
proof (induction es arbitrary: b)
  case (Cons e es)
  then obtain u where u: "barrier_step e b = Some u" "runs barrier_step es u = Some b'"
    by (auto simp del: barrier_step.simps split: bind_splits)
  then have "barrier_inv u" "\<not> has_expired u" using Cons.prems barrier_step_inv expired_runs by blast+
  then show ?case using Cons.IH [OF u(2)] Cons.prems(3) early_step [OF Cons.prems(2) u(1)] by simp
qed simp

text \<open>
  C19: The barrier for \<open>count = n\<close>, for every sequence of calls, time-outs and spurious wake-ups:
  \<^item> before \<open>n\<close> calls have arrived no thread is woken and no call is refused, and the calls that have returned are as many as there were
    spurious wake-ups: a thread that the condition variable lets go on without a reason passes early, which the documentation does not allow,
    and without spurious wake-ups nobody passes before \<open>n\<close> calls have arrived;
  \<^item> when the \<open>n\<close>th has, no thread is left blocked, and the barrier is and stays expired;
  \<^item> every later call throws and changes nothing for the others.
\<close>

theorem barrier_contract:
  assumes "Barrier_ctor n = Inr b0" and "runs barrier_step es b0 = Some b"
  shows "(bar_woken b \<noteq> [] \<or> bar_refused b \<noteq> [] \<longrightarrow> has_expired b)
    \<and> (\<not> has_expired b \<longrightarrow> length (bar_passed b) = length (filter is_spurious es))
    \<and> (bar_passed b \<noteq> [] \<and> filter is_spurious es = [] \<longrightarrow> has_expired b)
    \<and> (has_expired b \<longleftrightarrow> length (bar_arrived b) = unat n)
    \<and> (has_expired b \<longrightarrow> bar_blocked b = [] \<and> (\<forall>t tmo. barrier_wait t tmo b = b\<lparr>bar_refused := bar_refused b @ [t]\<rparr>))
    \<and> (\<not> has_expired b \<longrightarrow> length (bar_arrived b) < unat n
          \<and> set (bar_arrived b) = fst ` set (bar_blocked b) \<union> set (bar_passed b) \<union> set (bar_timed_out b))"
proof -
  have b0: "barrier_inv b0" "m_thread_count b0 = n" "bar_passed b0 = []"
    using assms(1) by (auto simp: Barrier_ctor_def barrier_inv_def bar_arrived_def split: if_splits)
  then have I: "barrier_inv b" and n: "m_thread_count b = n"
    using barrier_inv.always_after [OF _ assms(2)] barrier_runs_count [OF assms(2)] by auto
  have x: "has_expired b \<longleftrightarrow> m_waiters_count b = n" using n by (simp add: has_expired_def)
  have e: "length (bar_passed b) = length (filter is_spurious es)" if "\<not> has_expired b"
    using early_runs [OF assms(2) b0(1) that] b0(3) by simp
  have l: "has_expired b \<longleftrightarrow> length (bar_arrived b) = unat n"
    using I unfolding x by (metis barrier_inv_def word_unat_eq_iff)
  have m: "length (bar_arrived b) < unat n" "bar_woken b = [] \<and> bar_refused b = []" if "\<not> has_expired b"
    using I n that unfolding x by (metis barrier_inv_def le_neq_trans word_less_nat_alt)+
  have "bar_blocked b = [] \<and> (\<forall>t tmo. barrier_wait t tmo b = b\<lparr>bar_refused := bar_refused b @ [t]\<rparr>)" if "has_expired b"
    using I n that unfolding x by (simp add: barrier_inv_def barrier_wait_refused)
  moreover have "set (bar_arrived b) = fst ` set (bar_blocked b) \<union> set (bar_passed b) \<union> set (bar_timed_out b)" if "\<not> has_expired b"
    using m(2) [OF that] by (auto simp: bar_arrived_def)
  moreover have "has_expired b" if "bar_passed b \<noteq> []" "filter is_spurious es = []"
    using e that by fastforce
  ultimately show ?thesis using e l m by blast
qed

text \<open>Thread 0 passes by a spurious wake-up, then the barrier expires.\<close>

theorem barrier_contract_witness:
  "let b = \<lparr>m_thread_count = 3, m_waiters_count = 3, bar_blocked = [], bar_woken = [1], bar_passed = [0, 2], bar_timed_out = [], bar_refused = []\<rparr> in
    has_expired b \<and> length (bar_arrived b) = unat (3 :: u64) \<and> barrier_wait 7 0 b = b\<lparr>bar_refused := bar_refused b @ [7]\<rparr>"
proof -
  have c: "Barrier_ctor 3 = Inr \<lparr>m_thread_count = 3, m_waiters_count = 0, bar_blocked = [], bar_woken = [], bar_passed = [], bar_timed_out = [], bar_refused = []\<rparr>" by code_simp
  have r: "runs barrier_step [BWait 0 0, BSpurious 0 0, BWait 1 0, BWait 2 0] \<lparr>m_thread_count = 3, m_waiters_count = 0, bar_blocked = [], bar_woken = [], bar_passed = [], bar_timed_out = [], bar_refused = []\<rparr> = Some \<lparr>m_thread_count = 3, m_waiters_count = 3, bar_blocked = [], bar_woken = [1], bar_passed = [0, 2], bar_timed_out = [], bar_refused = []\<rparr>" by code_simp
  have e: "has_expired \<lparr>m_thread_count = 3, m_waiters_count = 3, bar_blocked = [], bar_woken = [1], bar_passed = [0, 2], bar_timed_out = [], bar_refused = []\<rparr>" by code_simp
  show ?thesis unfolding Let_def using barrier_contract [OF c r] e by blast
qed

text \<open>One thread alone passes a barrier for two threads after a spurious wake-up.\<close>

theorem barrier_spurious_passes:
  "(case Barrier_ctor 2 of Inl e \<Rightarrow> None | Inr b \<Rightarrow> map_option bar_passed (runs barrier_step [BWait 0 0, BSpurious 0 0] b)) = Some [0]"
  by code_simp

text \<open>
  A call that times out stays counted: one thread alone gets through a barrier for two threads when it calls \<open>wait\<close>
  again after a time-out.
\<close>

theorem barrier_timeout_counts:
  "(case Barrier_ctor 2 of Inl e \<Rightarrow> None | Inr b \<Rightarrow> runs barrier_step [BWait 0 100, BTimeout 0 100, BWait 0 100] b)
     = Some \<lparr>m_thread_count = 2, m_waiters_count = 2, bar_blocked = [], bar_woken = [], bar_passed = [0],
             bar_timed_out = [0], bar_refused = []\<rparr>"
  by code_simp

end
