(* ===== verification/SyncAccess.thy ===== *)
theory SyncAccess
  imports Prelude Transitions
begin

text \<open>
  \<open>SyncAccess\<close> of \<open>src/threading/SyncAccess.cpp\<close>: a scoped lock on any object, by its address, through a
  global map from addresses to \<open>SyncObject\<close>s that are made and deleted on demand. \<open>lock_obj\<close> is three steps, one per
  mutex that it takes or leaves: the part under the lock of the map, the lock of the object's mutex, and the
  two assignments behind it. \<open>unlock_obj\<close> is one step. A use of a deleted object, and the unlock of a mutex by a
  thread that does not own it, set \<open>sync_fault\<close>. Objects have a number in place of their address, so that a
  deleted object is not mistaken for a new one.
\<close>

section \<open>The code\<close>

record sync_object =
  m_pObj :: nat
  m_uiThreadCount :: u32
  m_uiLockCount :: u32
  m_CurrentThreadId :: "nat option"
  mutex_owner :: "nat option"
  mutex_depth :: nat

definition SyncObject_ctor :: "nat \<Rightarrow> sync_object" where
  "SyncObject_ctor ptr =
     \<lparr>m_pObj = ptr, m_uiThreadCount = 0, m_uiLockCount = 0, m_CurrentThreadId = None, mutex_owner = None, mutex_depth = 0\<rparr>"

text \<open>
  A thread: what it is doing in \<open>lock_obj\<close> (it waits for the mutex of an object, or it has it and has not said so yet), and
  the objects of its live \<open>SyncAccess\<close>es.
\<close>

datatype pending = NoLock | WantsLock nat | HasMutex nat

record sync_thread =
  thread_pending :: pending
  accesses :: "nat list"

record sync =
  m_sSynObjMap :: "nat \<rightharpoonup> nat"
  sync_objects :: "nat \<rightharpoonup> sync_object"
  next_object :: nat
  sync_threads :: "sync_thread list"
  sync_fault :: bool

definition sync_init :: "nat \<Rightarrow> sync" where
  "sync_init n =
     \<lparr>m_sSynObjMap = Map.empty, sync_objects = Map.empty, next_object = 0,
      sync_threads = replicate n \<lparr>thread_pending = NoLock, accesses = []\<rparr>, sync_fault = False\<rparr>"

definition set_thread :: "nat \<Rightarrow> pending \<Rightarrow> nat list \<Rightarrow> sync \<Rightarrow> sync" where
  "set_thread t p xs s = s\<lparr>sync_threads := (sync_threads s)[t := \<lparr>thread_pending = p, accesses = xs\<rparr>]\<rparr>"

definition set_object :: "nat \<Rightarrow> sync_object \<Rightarrow> sync \<Rightarrow> sync" where
  "set_object i ob s = s\<lparr>sync_objects := (sync_objects s)(i \<mapsto> ob)\<rparr>"

text \<open>\<open>lock_obj\<close> under the lock of the map.\<close>

definition lock_obj :: "nat \<Rightarrow> nat \<Rightarrow> sync \<Rightarrow> sync" where
  "lock_obj t ptr s =
     (let xs = accesses (sync_threads s ! t) in
      case m_sSynObjMap s ptr of
        None \<Rightarrow>
          let i = next_object s in
          set_thread t (WantsLock i) xs
            (set_object i ((SyncObject_ctor ptr)\<lparr>m_uiLockCount := 0 + 1\<rparr>)
              (s\<lparr>m_sSynObjMap := (m_sSynObjMap s)(ptr \<mapsto> i), next_object := Suc i\<rparr>))
      | Some i \<Rightarrow>
          (case sync_objects s i of
             None \<Rightarrow> s\<lparr>sync_fault := True\<rparr>
           | Some ob \<Rightarrow>
               if m_CurrentThreadId ob = Some t then
                 set_thread t NoLock (i # xs)
                   (set_object i (ob\<lparr>m_uiThreadCount := m_uiThreadCount ob + 1, m_uiLockCount := m_uiLockCount ob + 1\<rparr>) s)
               else set_thread t (WantsLock i) xs (set_object i (ob\<lparr>m_uiLockCount := m_uiLockCount ob + 1\<rparr>) s)))"

text \<open>\<open>pSyncObj->m_Mutex.lock ()\<close>: possible when the mutex is free or, since it is recursive, when the thread owns it.\<close>

definition lock_mutex :: "nat \<Rightarrow> nat \<Rightarrow> sync \<Rightarrow> sync option" where
  "lock_mutex t i s =
     (let xs = accesses (sync_threads s ! t) in
      case sync_objects s i of
        None \<Rightarrow> Some (s\<lparr>sync_fault := True\<rparr>)
      | Some ob \<Rightarrow>
          if mutex_owner ob = None \<or> mutex_owner ob = Some t
          then Some (set_thread t (HasMutex i) xs (set_object i (ob\<lparr>mutex_owner := Some t, mutex_depth := Suc (mutex_depth ob)\<rparr>) s))
          else None)"

text \<open>The end of \<open>lock_obj\<close>.\<close>

definition set_owner :: "nat \<Rightarrow> nat \<Rightarrow> sync \<Rightarrow> sync" where
  "set_owner t i s =
     (case sync_objects s i of
        None \<Rightarrow> s\<lparr>sync_fault := True\<rparr>
      | Some ob \<Rightarrow>
          set_thread t NoLock (i # accesses (sync_threads s ! t))
            (set_object i (ob\<lparr>m_CurrentThreadId := Some t, m_uiThreadCount := m_uiThreadCount ob + 1\<rparr>) s))"

definition unlock_mutex :: "nat \<Rightarrow> sync_object \<Rightarrow> sync_object option" where
  "unlock_mutex t ob =
     (if mutex_owner ob = Some t then
        Some (ob\<lparr>mutex_depth := mutex_depth ob - 1, mutex_owner := (if mutex_depth ob = 1 then None else Some t)\<rparr>)
      else None)"

text \<open>The destructor: \<open>unlock_obj (m_pSyncObj->m_pObj)\<close>.\<close>

definition unlock_obj :: "nat \<Rightarrow> nat \<Rightarrow> sync \<Rightarrow> sync" where
  "unlock_obj t i s =
     (let s' = set_thread t (thread_pending (sync_threads s ! t)) (remove1 i (accesses (sync_threads s ! t))) s in
      case sync_objects s i of
        None \<Rightarrow> s\<lparr>sync_fault := True\<rparr>
      | Some ob \<Rightarrow>
          (case m_sSynObjMap s (m_pObj ob) of
             None \<Rightarrow> s'
           | Some j \<Rightarrow>
               (case sync_objects s j of
                  None \<Rightarrow> s\<lparr>sync_fault := True\<rparr>
                | Some ob \<Rightarrow>
                    let ob = ob\<lparr>m_uiThreadCount := m_uiThreadCount ob - 1, m_uiLockCount := m_uiLockCount ob - 1\<rparr>;
                        ob' = (if m_uiThreadCount ob = 0 then unlock_mutex t (ob\<lparr>m_CurrentThreadId := None\<rparr>) else Some ob)
                    in case ob' of
                         None \<Rightarrow> s\<lparr>sync_fault := True\<rparr>
                       | Some ob \<Rightarrow>
                           if m_uiLockCount ob = 0
                           then s'\<lparr>sync_objects := (sync_objects s)(j := None), m_sSynObjMap := (m_sSynObjMap s)(m_pObj ob := None)\<rparr>
                           else set_object j ob s')))"

text \<open>
  The threads. A thread makes one \<open>SyncAccess\<close> at a time and destroys its own ones; fewer than \<open>2 ^ 32 - 1\<close> of them
  exist at once, so that the 32-bit counters do not wrap.
\<close>

definition thread_size :: "sync_thread \<Rightarrow> nat" where
  "thread_size th = length (accesses th) + (if thread_pending th = NoLock then 0 else 1)"

definition sync_size :: "sync \<Rightarrow> nat" where
  "sync_size s = sum_list (map thread_size (sync_threads s))"

datatype sync_event = LockObj nat nat | TakeMutex nat | SetOwner nat | UnlockObj nat nat

fun sync_step :: "sync_event \<Rightarrow> sync \<Rightarrow> sync option" where
  "sync_step (LockObj t ptr) s =
     (if t < length (sync_threads s) \<and> thread_pending (sync_threads s ! t) = NoLock \<and> int (Suc (sync_size s)) < 2 ^ 32
      then Some (lock_obj t ptr s) else None)"
| "sync_step (TakeMutex t) s =
     (if t < length (sync_threads s)
      then (case thread_pending (sync_threads s ! t) of WantsLock i \<Rightarrow> lock_mutex t i s | _ \<Rightarrow> None) else None)"
| "sync_step (SetOwner t) s =
     (if t < length (sync_threads s)
      then (case thread_pending (sync_threads s ! t) of HasMutex i \<Rightarrow> Some (set_owner t i s) | _ \<Rightarrow> None) else None)"
| "sync_step (UnlockObj t i) s =
     (if t < length (sync_threads s) \<and> thread_pending (sync_threads s ! t) = NoLock \<and> i \<in> set (accesses (sync_threads s ! t))
      then Some (unlock_obj t i s) else None)"

section \<open>One object and the threads, as it sees them\<close>

datatype phase = Quiet | Wanting | Owning

definition phase_of :: "nat \<Rightarrow> pending \<Rightarrow> phase" where
  "phase_of i p = (if p = WantsLock i then Wanting else if p = HasMutex i then Owning else Quiet)"

definition view :: "nat \<Rightarrow> sync_thread \<Rightarrow> nat \<times> phase" where
  "view i th = (count_list (accesses th) i, phase_of i (thread_pending th))"

definition view_refs :: "nat \<times> phase \<Rightarrow> nat" where
  "view_refs v = fst v + (if snd v = Quiet then 0 else 1)"

definition nobody :: "(nat \<times> phase) list \<Rightarrow> bool" where
  "nobody vs \<longleftrightarrow> (\<forall>u < length vs. fst (vs ! u) = 0 \<and> snd (vs ! u) \<noteq> Owning)"

definition only :: "nat \<Rightarrow> (nat \<times> phase) list \<Rightarrow> bool" where
  "only t vs \<longleftrightarrow> t < length vs \<and> (\<forall>u < length vs. u \<noteq> t \<longrightarrow> fst (vs ! u) = 0 \<and> snd (vs ! u) \<noteq> Owning)"

definition ob_good :: "sync_object \<Rightarrow> (nat \<times> phase) list \<Rightarrow> bool" where
  "ob_good ob vs \<longleftrightarrow>
     unat (m_uiLockCount ob) = sum_list (map view_refs vs) \<and> 0 < sum_list (map view_refs vs) \<and>
     (case mutex_owner ob of
        None \<Rightarrow> mutex_depth ob = 0 \<and> m_CurrentThreadId ob = None \<and> m_uiThreadCount ob = 0 \<and> nobody vs
      | Some t \<Rightarrow> mutex_depth ob = 1 \<and> only t vs \<and>
          (vs ! t = (0, Owning) \<and> m_CurrentThreadId ob = None \<and> m_uiThreadCount ob = 0
           \<or> 0 < fst (vs ! t) \<and> snd (vs ! t) = Quiet \<and> m_CurrentThreadId ob = Some t
             \<and> unat (m_uiThreadCount ob) = fst (vs ! t)))"

lemma unat_Suc: "Suc (unat (c :: u32)) < 2 ^ 32 \<Longrightarrow> unat (c + 1) = Suc (unat c)"
  by (simp add: unat_word_ariths)

lemma unat_pred: "0 < unat (c :: u32) \<Longrightarrow> unat (c - 1) = unat c - 1"
  by (rule unat_minus_one) auto

lemma view_refs_update:
  "t < length vs \<Longrightarrow> sum_list (map view_refs (vs[t := v])) + view_refs (vs ! t) = sum_list (map view_refs vs) + view_refs v"
  by (rule sum_map_update)

lemma ob_good_new:
  assumes "t < length vs" and "\<And>u. u < length vs \<Longrightarrow> vs ! u = (0, Quiet)"
  shows "ob_good ((SyncObject_ctor ptr)\<lparr>m_uiLockCount := 0 + 1\<rparr>) (vs[t := (0, Wanting)])"
proof -
  have "sum_list (map view_refs vs) = 0" using assms(2) by (auto simp: in_set_conv_nth view_refs_def)
  then have "sum_list (map view_refs (vs[t := (0, Wanting)])) = 1"
    using view_refs_update [OF assms(1), of "(0, Wanting)"] assms by (simp add: view_refs_def)
  then show ?thesis using assms by (auto simp: ob_good_def SyncObject_ctor_def nobody_def nth_list_update)
qed

lemma ob_good_holder:
  assumes "ob_good ob vs" and "t < length vs"
  shows "0 < fst (vs ! t) \<longleftrightarrow> m_CurrentThreadId ob = Some t" and "0 < fst (vs ! t) \<Longrightarrow> snd (vs ! t) = Quiet"
    and "snd (vs ! t) = Owning \<Longrightarrow> mutex_owner ob = Some t" and "snd (vs ! t) = Wanting \<Longrightarrow> mutex_owner ob \<noteq> Some t"
    and "0 < fst (vs ! t) \<Longrightarrow> mutex_owner ob = Some t"
  using assms by (auto simp: ob_good_def nobody_def only_def split: option.splits)

lemma ob_good_reenter:
  assumes g: "ob_good ob vs" and t: "t < length vs" and c: "m_CurrentThreadId ob = Some t"
    and b: "Suc (sum_list (map view_refs vs)) < 2 ^ 32"
  shows "ob_good (ob\<lparr>m_uiThreadCount := m_uiThreadCount ob + 1, m_uiLockCount := m_uiLockCount ob + 1\<rparr>)
     (vs[t := (Suc (fst (vs ! t)), Quiet)])"
proof -
  have q: "0 < fst (vs ! t)" "snd (vs ! t) = Quiet" using ob_good_holder [OF g t] c by auto
  then obtain k where k: "vs ! t = (k, Quiet)" by (cases "vs ! t") auto
  have "view_refs (vs ! t) \<le> sum_list (map view_refs vs)" by (rule sum_map_ge [OF t])
  then have "Suc (unat (m_uiThreadCount ob)) < 2 ^ 32" "Suc (unat (m_uiLockCount ob)) < 2 ^ 32"
    using g b q c k by (auto simp: ob_good_def view_refs_def split: option.splits)
  note U = this [THEN unat_Suc]
  have "sum_list (map view_refs (vs[t := (Suc k, Quiet)])) = Suc (sum_list (map view_refs vs))"
    using view_refs_update [OF t, of "(Suc k, Quiet)"] k by (simp add: view_refs_def)
  then show ?thesis using g q c t k U by (auto simp: ob_good_def only_def nobody_def nth_list_update split: option.splits)
qed

lemma ob_good_want:
  assumes g: "ob_good ob vs" and t: "t < length vs" and c: "m_CurrentThreadId ob \<noteq> Some t" and "snd (vs ! t) = Quiet"
    and b: "Suc (sum_list (map view_refs vs)) < 2 ^ 32"
  shows "ob_good (ob\<lparr>m_uiLockCount := m_uiLockCount ob + 1\<rparr>) (vs[t := (fst (vs ! t), Wanting)])"
proof -
  have q: "vs ! t = (0, Quiet)" using ob_good_holder [OF g t] c assms(4) by (cases "vs ! t") auto
  have "Suc (unat (m_uiLockCount ob)) < 2 ^ 32" using g b by (auto simp: ob_good_def)
  note U = this [THEN unat_Suc]
  have "sum_list (map view_refs (vs[t := (0, Wanting)])) = Suc (sum_list (map view_refs vs))"
    using view_refs_update [OF t, of "(0, Wanting)"] q by (simp add: view_refs_def)
  then show ?thesis using g q c t U by (auto simp: ob_good_def only_def nobody_def nth_list_update split: option.splits)
qed

lemma ob_good_take:
  assumes g: "ob_good ob vs" and t: "t < length vs" and w: "snd (vs ! t) = Wanting"
    and m: "mutex_owner ob = None \<or> mutex_owner ob = Some t"
  shows "ob_good (ob\<lparr>mutex_owner := Some t, mutex_depth := Suc (mutex_depth ob)\<rparr>) (vs[t := (fst (vs ! t), Owning)])"
proof -
  have n: "mutex_owner ob = None" using ob_good_holder(4) [OF g t w] m by blast
  have q: "vs ! t = (0, Wanting)" using ob_good_holder [OF g t] w by (cases "vs ! t") auto
  have "sum_list (map view_refs (vs[t := (0, Owning)])) = sum_list (map view_refs vs)"
    using view_refs_update [OF t, of "(0, Owning)"] q by (simp add: view_refs_def)
  then show ?thesis using g q n t by (auto simp: ob_good_def only_def nobody_def nth_list_update)
qed

lemma ob_good_set_owner:
  assumes g: "ob_good ob vs" and t: "t < length vs" and w: "snd (vs ! t) = Owning"
  shows "ob_good (ob\<lparr>m_CurrentThreadId := Some t, m_uiThreadCount := m_uiThreadCount ob + 1\<rparr>)
     (vs[t := (Suc (fst (vs ! t)), Quiet)])"
proof -
  have n: "mutex_owner ob = Some t" using ob_good_holder(3) [OF g t w] .
  have q: "vs ! t = (0, Owning)" using ob_good_holder [OF g t] w by (cases "vs ! t") auto
  have "sum_list (map view_refs (vs[t := (1, Quiet)])) = sum_list (map view_refs vs)"
    using view_refs_update [OF t, of "(1, Quiet)"] q by (simp add: view_refs_def)
  then show ?thesis using g q n t by (auto simp: ob_good_def only_def nobody_def nth_list_update)
qed

lemma ob_good_unlock:
  assumes g: "ob_good ob vs" and t: "t < length vs" and h: "0 < fst (vs ! t)"
    and ob1: "ob1 = ob\<lparr>m_uiThreadCount := m_uiThreadCount ob - 1, m_uiLockCount := m_uiLockCount ob - 1\<rparr>"
    and ob2: "(if m_uiThreadCount ob1 = 0 then unlock_mutex t (ob1\<lparr>m_CurrentThreadId := None\<rparr>) else Some ob1) = ob2"
    and vs: "vs' = vs[t := (fst (vs ! t) - 1, Quiet)]"
  obtains ob' where "ob2 = Some ob'" and "m_pObj ob' = m_pObj ob"
    and "m_uiLockCount ob' = 0 \<longleftrightarrow> sum_list (map view_refs vs') = 0"
    and "m_uiLockCount ob' \<noteq> 0 \<Longrightarrow> ob_good ob' vs'"
proof -
  note H = ob_good_holder [OF g t]
  obtain k where k: "vs ! t = (Suc k, Quiet)" using h H(2) by (cases "vs ! t") (auto simp: gr0_conv_Suc)
  have o: "mutex_owner ob = Some t" "mutex_depth ob = 1" "unat (m_uiThreadCount ob) = Suc k" "only t vs"
      "unat (m_uiLockCount ob) = sum_list (map view_refs vs)" "0 < sum_list (map view_refs vs)" "m_CurrentThreadId ob = Some t"
    using g H(5) [OF h] k by (auto simp: ob_good_def)
  have s: "sum_list (map view_refs vs') + 1 = sum_list (map view_refs vs)"
    using view_refs_update [OF t, of "(k, Quiet)"] k vs by (simp add: view_refs_def)
  have u: "unat (m_uiThreadCount ob1) = k" "unat (m_uiLockCount ob1) = sum_list (map view_refs vs')"
    using o s unat_pred [of "m_uiThreadCount ob"] unat_pred [of "m_uiLockCount ob"] ob1 by auto
  have z: "m_uiThreadCount ob1 = 0 \<longleftrightarrow> k = 0" using u(1) by (metis unat_eq_zero)
  have l: "m_uiLockCount ob1 = 0 \<longleftrightarrow> sum_list (map view_refs vs') = 0" using u(2) by (metis unat_eq_zero)
  show ?thesis
  proof (cases "k = 0")
    case True
    let ?ob' = "ob1\<lparr>m_CurrentThreadId := None, mutex_depth := 0, mutex_owner := None\<rparr>"
    have "ob2 = Some ?ob'" using ob2 z True o(1,2) ob1 by (simp add: unlock_mutex_def)
    moreover have "ob_good ?ob' vs'" if "m_uiLockCount ?ob' \<noteq> 0"
      using that l u z True o(4) vs t k ob1 by (auto simp: ob_good_def nobody_def only_def nth_list_update)
    ultimately show ?thesis using that l ob1 by simp
  next
    case False
    have "ob2 = Some ob1" using ob2 z False by simp
    moreover have "ob_good ob1 vs'" if "m_uiLockCount ob1 \<noteq> 0"
      using that l u False o vs t k ob1 by (auto simp: ob_good_def only_def nth_list_update)
    ultimately show ?thesis using that l ob1 by simp
  qed
qed

section \<open>The system\<close>

definition views :: "nat \<Rightarrow> sync \<Rightarrow> (nat \<times> phase) list" where
  "views i s = map (view i) (sync_threads s)"

definition sync_inv :: "sync \<Rightarrow> bool" where
  "sync_inv s \<longleftrightarrow>
     \<not> sync_fault s \<and> sync_size s < 2 ^ 32
     \<and> (\<forall>i ob. sync_objects s i = Some ob \<longrightarrow> i < next_object s \<and> m_sSynObjMap s (m_pObj ob) = Some i \<and> ob_good ob (views i s))
     \<and> (\<forall>i. sync_objects s i = None \<longrightarrow> (\<forall>v \<in> set (views i s). v = (0, Quiet)))
     \<and> (\<forall>ptr i. m_sSynObjMap s ptr = Some i \<longrightarrow> (\<exists>ob. sync_objects s i = Some ob \<and> m_pObj ob = ptr))"

lemma views_set_thread:
  "views i (set_thread t p xs s) = (views i s)[t := view i \<lparr>thread_pending = p, accesses = xs\<rparr>]"
  by (simp add: views_def set_thread_def map_update)

lemma views_set_object [simp]: "views i (set_object j ob s) = views i s"
  by (simp add: views_def set_object_def)

lemma size_set_object [simp]: "sync_size (set_object j ob s) = sync_size s"
  by (simp add: sync_size_def set_object_def)

lemma threads_set_object [simp]: "sync_threads (set_object j ob s) = sync_threads s"
  by (simp add: set_object_def)

lemma set_thread_other:
  "t < length (sync_threads s) \<Longrightarrow> view i \<lparr>thread_pending = p, accesses = xs\<rparr> = view i (sync_threads s ! t) \<Longrightarrow>
     views i (set_thread t p xs s) = views i s"
  unfolding views_set_thread by (metis list_update_id nth_map views_def)

lemma view_refs_le_size: "view_refs (view i th) \<le> thread_size th"
  using count_le_length [of "accesses th" i] by (auto simp: view_refs_def view_def phase_of_def thread_size_def)

lemma refs_le_size: "sum_list (map view_refs (views i s)) \<le> sync_size s"
proof -
  have "sum_list (map (\<lambda>th. view_refs (view i th)) ths) \<le> sum_list (map thread_size ths)" for ths
    by (induction ths) (auto intro: add_mono view_refs_le_size)
  then show ?thesis by (simp add: views_def sync_size_def comp_def)
qed

lemma size_set_thread:
  "t < length (sync_threads s) \<Longrightarrow>
     sync_size (set_thread t p xs s) + thread_size (sync_threads s ! t) = sync_size s + thread_size \<lparr>thread_pending = p, accesses = xs\<rparr>"
  using sum_map_update [of t "sync_threads s" thread_size "\<lparr>thread_pending = p, accesses = xs\<rparr>"]
  by (simp add: sync_size_def set_thread_def)

lemma sync_inv_change:
  assumes I: "sync_inv s" and t: "t < length (sync_threads s)"
    and th: "sync_threads s' = (sync_threads s)[t := th]"
    and other: "\<And>j. j \<noteq> i \<Longrightarrow> view j th = view j (sync_threads s ! t)"
    and size: "sync_size s' < 2 ^ 32" and fault: "\<not> sync_fault s'"
    and obs: "sync_objects s' = (sync_objects s)(i := oi)"
    and mp: "m_sSynObjMap s' = (m_sSynObjMap s)(ptr := (if oi = None then None else Some i))"
    and nxt: "next_object s \<le> next_object s'" "i < next_object s'"
    and old: "sync_objects s i = None \<and> m_sSynObjMap s ptr = None \<or> (\<exists>ob. sync_objects s i = Some ob \<and> m_pObj ob = ptr)"
    and new: "case oi of None \<Rightarrow> \<forall>v \<in> set (views i s'). v = (0, Quiet) | Some ob \<Rightarrow> m_pObj ob = ptr \<and> ob_good ob (views i s')"
  shows "sync_inv s'"
proof -
  have v: "views j s' = views j s" if "j \<noteq> i" for j
    using other [OF that] t th by (metis list_update_id map_update nth_map views_def)
  have ptrs: "m_pObj ob \<noteq> ptr" if "sync_objects s j = Some ob" "j \<noteq> i" for j ob
    using I old that unfolding sync_inv_def by (metis option.distinct(1) option.inject)
  have keys: "j \<noteq> i" if "m_sSynObjMap s q = Some j" "q \<noteq> ptr" for q j
    using I old that unfolding sync_inv_def by (metis option.distinct(1) option.inject)
  show ?thesis
    unfolding sync_inv_def
  proof (intro conjI allI impI)
    show "\<not> sync_fault s'" "sync_size s' < 2 ^ 32" by fact+
  next
    fix j ob assume j: "sync_objects s' j = Some ob"
    show "j < next_object s'"
      using j I nxt unfolding sync_inv_def obs by (cases "j = i") (auto intro: less_le_trans)
    show "m_sSynObjMap s' (m_pObj ob) = Some j" "ob_good ob (views j s')"
      using j I new nxt ptrs [of j ob] v [of j] unfolding sync_inv_def obs mp by (auto split: if_splits)
  next
    fix j assume j: "sync_objects s' j = None"
    show "\<forall>v \<in> set (views j s'). v = (0, Quiet)"
      using j I new v [of j] unfolding sync_inv_def obs by (auto split: if_splits)
  next
    fix q j assume q: "m_sSynObjMap s' q = Some j"
    show "\<exists>ob. sync_objects s' j = Some ob \<and> m_pObj ob = q"
      using q I new keys [of q j] unfolding sync_inv_def obs mp by (auto split: if_splits)
  qed
qed

lemma sync_inv_object:
  assumes "sync_inv s" and "sync_objects s i = Some ob"
  shows "i < next_object s" and "m_sSynObjMap s (m_pObj ob) = Some i" and "ob_good ob (views i s)"
  using assms by (auto simp: sync_inv_def)

lemma sync_inv_busy:
  assumes "sync_inv s" and "t < length (sync_threads s)" and "view i (sync_threads s ! t) \<noteq> (0, Quiet)"
  obtains ob where "sync_objects s i = Some ob"
proof (cases "sync_objects s i")
  case None
  have "views i s ! t = view i (sync_threads s ! t)" "t < length (views i s)" using assms(2) by (auto simp: views_def)
  moreover have "\<forall>v \<in> set (views i s). v = (0, Quiet)" using assms(1) None by (simp add: sync_inv_def)
  ultimately show ?thesis using assms(3) nth_mem by metis
qed

lemma views_nth: "t < length (sync_threads s) \<Longrightarrow> views i s ! t = view i (sync_threads s ! t) \<and> t < length (views i s)"
  by (simp add: views_def)

lemma lock_obj_inv:
  assumes I: "sync_inv s" and t: "t < length (sync_threads s)" and q: "thread_pending (sync_threads s ! t) = NoLock"
    and b: "Suc (sync_size s) < 2 ^ 32"
  shows "sync_inv (lock_obj t ptr s)"
proof -
  define xs where "xs = accesses (sync_threads s ! t)"
  have old: "thread_size (sync_threads s ! t) = length xs" using q by (simp add: thread_size_def xs_def)
  have size: "sync_size s + thread_size \<lparr>thread_pending = p, accesses = ys\<rparr> = Suc (sync_size s + thread_size (sync_threads s ! t))"
    if "(p \<noteq> NoLock \<and> ys = xs) \<or> (p = NoLock \<and> length ys = Suc (length xs))" for p ys
    using that old by (auto simp: thread_size_def)
  have refs: "Suc (sum_list (map view_refs (views i s))) < 2 ^ 32" for i using refs_le_size [of i s] b by simp
  show ?thesis
  proof (cases "m_sSynObjMap s ptr")
    case None
    define i where "i = next_object s"
    have free: "sync_objects s i = None" using I unfolding sync_inv_def i_def by (meson less_irrefl not_None_eq)
    define ob where "ob = (SyncObject_ctor ptr)\<lparr>m_uiLockCount := 0 + 1\<rparr>"
    define s1 where "s1 = set_object i ob (s\<lparr>m_sSynObjMap := (m_sSynObjMap s)(ptr \<mapsto> i), next_object := Suc i\<rparr>)"
    have eq: "lock_obj t ptr s = set_thread t (WantsLock i) xs s1"
      using None by (simp add: lock_obj_def s1_def ob_def i_def xs_def Let_def)
    have s1: "sync_threads s1 = sync_threads s" "sync_size s1 = sync_size s" "views j s1 = views j s" for j
      by (simp_all add: s1_def set_object_def sync_size_def views_def)
    have quiet: "views i s ! u = (0, Quiet)" if "u < length (views i s)" for u
      using I free that by (simp add: sync_inv_def)
    have w: "view i \<lparr>thread_pending = WantsLock i, accesses = xs\<rparr> = (0, Wanting)"
      using quiet [of t] views_nth [OF t, of i] by (simp add: view_def phase_of_def xs_def)
    show ?thesis unfolding eq
    proof (rule sync_inv_change [OF I t, where i = i and oi = "Some ob" and ptr = ptr])
      show "sync_size (set_thread t (WantsLock i) xs s1) < 2 ^ 32"
        using size_set_thread [of t s1 "WantsLock i" xs] size [of "WantsLock i" xs] t s1 b by simp
      show "case Some ob of None \<Rightarrow> \<forall>v \<in> set (views i (set_thread t (WantsLock i) xs s1)). v = (0, Quiet)
          | Some ob \<Rightarrow> m_pObj ob = ptr \<and> ob_good ob (views i (set_thread t (WantsLock i) xs s1))"
        using ob_good_new [OF _ quiet, of t ptr] views_nth [OF t, of i] w
        by (simp add: views_set_thread s1 ob_def SyncObject_ctor_def)
    qed (use I None free q in \<open>auto simp: set_thread_def s1_def set_object_def i_def view_def phase_of_def xs_def sync_inv_def\<close>)
  next
    case (Some i)
    then obtain ob where ob: "sync_objects s i = Some ob" "m_pObj ob = ptr" using I unfolding sync_inv_def by blast
    note O = sync_inv_object [OF I ob(1)]
    define p ys ob' where "p = (if m_CurrentThreadId ob = Some t then NoLock else WantsLock i)"
      and "ys = (if m_CurrentThreadId ob = Some t then i # xs else xs)"
      and "ob' = (if m_CurrentThreadId ob = Some t
         then ob\<lparr>m_uiThreadCount := m_uiThreadCount ob + 1, m_uiLockCount := m_uiLockCount ob + 1\<rparr>
         else ob\<lparr>m_uiLockCount := m_uiLockCount ob + 1\<rparr>)"
    have eq: "lock_obj t ptr s = set_thread t p ys (set_object i ob' s)"
      using Some ob by (simp add: lock_obj_def p_def ys_def ob'_def xs_def)
    have v: "views i s ! t = (count_list xs i, Quiet)" "t < length (views i s)"
      using views_nth [OF t, of i] q by (auto simp: view_def phase_of_def xs_def)
    have good: "ob_good ob' (views i (set_thread t p ys (set_object i ob' s)))"
      using ob_good_reenter [OF O(3) v(2) _ refs] ob_good_want [OF O(3) v(2) _ _ refs] v(1)
      by (auto simp: views_set_thread views_set_object p_def ys_def ob'_def view_def phase_of_def)
    show ?thesis unfolding eq
    proof (rule sync_inv_change [OF I t, where i = i and oi = "Some ob'" and ptr = ptr])
      show "sync_size (set_thread t p ys (set_object i ob' s)) < 2 ^ 32"
        using size_set_thread [of t "set_object i ob' s" p ys] size [of p ys] t b
        by (simp add: set_object_def sync_size_def p_def ys_def)
    qed (use I ob O Some good q in \<open>auto simp: set_thread_def set_object_def view_def phase_of_def xs_def sync_inv_def p_def ys_def ob'_def split: if_splits\<close>)
  qed
qed

lemma lock_mutex_inv:
  assumes I: "sync_inv s" and t: "t < length (sync_threads s)" and q: "thread_pending (sync_threads s ! t) = WantsLock i"
    and s': "lock_mutex t i s = Some s'"
  shows "sync_inv s'"
proof -
  define xs where "xs = accesses (sync_threads s ! t)"
  have v: "views i s ! t = (count_list xs i, Wanting)" "t < length (views i s)"
    using views_nth [OF t, of i] q by (auto simp: view_def phase_of_def xs_def)
  obtain ob where ob: "sync_objects s i = Some ob"
    by (rule sync_inv_busy [OF I t, of i]) (use q in \<open>auto simp: view_def phase_of_def\<close>)
  note O = sync_inv_object [OF I ob]
  define ob' where "ob' = ob\<lparr>mutex_owner := Some t, mutex_depth := Suc (mutex_depth ob)\<rparr>"
  have m: "mutex_owner ob = None \<or> mutex_owner ob = Some t" and eq: "s' = set_thread t (HasMutex i) xs (set_object i ob' s)"
    using s' ob by (auto simp: lock_mutex_def ob'_def xs_def split: if_splits)
  have good: "ob_good ob' (views i (set_thread t (HasMutex i) xs (set_object i ob' s)))"
    using ob_good_take [OF O(3) v(2) _ m] v(1) by (auto simp: views_set_thread ob'_def view_def phase_of_def)
  show ?thesis unfolding eq
  proof (rule sync_inv_change [OF I t, where i = i and oi = "Some ob'" and ptr = "m_pObj ob"])
    show "sync_size (set_thread t (HasMutex i) xs (set_object i ob' s)) < 2 ^ 32"
      using size_set_thread [of t "set_object i ob' s" "HasMutex i" xs] t q I by (simp add: thread_size_def xs_def sync_inv_def)
  qed (use I ob O good q in \<open>auto simp: set_thread_def set_object_def view_def phase_of_def xs_def sync_inv_def ob'_def\<close>)
qed

lemma set_owner_inv:
  assumes I: "sync_inv s" and t: "t < length (sync_threads s)" and q: "thread_pending (sync_threads s ! t) = HasMutex i"
  shows "sync_inv (set_owner t i s)"
proof -
  define xs where "xs = accesses (sync_threads s ! t)"
  have v: "views i s ! t = (count_list xs i, Owning)" "t < length (views i s)"
    using views_nth [OF t, of i] q by (auto simp: view_def phase_of_def xs_def)
  obtain ob where ob: "sync_objects s i = Some ob"
    by (rule sync_inv_busy [OF I t, of i]) (use q in \<open>auto simp: view_def phase_of_def\<close>)
  note O = sync_inv_object [OF I ob]
  define ob' where "ob' = ob\<lparr>m_CurrentThreadId := Some t, m_uiThreadCount := m_uiThreadCount ob + 1\<rparr>"
  have eq: "set_owner t i s = set_thread t NoLock (i # xs) (set_object i ob' s)"
    using ob by (simp add: set_owner_def ob'_def xs_def)
  have good: "ob_good ob' (views i (set_thread t NoLock (i # xs) (set_object i ob' s)))"
    using ob_good_set_owner [OF O(3) v(2)] v(1) by (auto simp: views_set_thread ob'_def view_def phase_of_def)
  show ?thesis unfolding eq
  proof (rule sync_inv_change [OF I t, where i = i and oi = "Some ob'" and ptr = "m_pObj ob"])
    show "sync_size (set_thread t NoLock (i # xs) (set_object i ob' s)) < 2 ^ 32"
      using size_set_thread [of t "set_object i ob' s" NoLock "i # xs"] t q I by (simp add: thread_size_def xs_def sync_inv_def)
  qed (use I ob O good q in \<open>auto simp: set_thread_def set_object_def view_def phase_of_def xs_def sync_inv_def ob'_def\<close>)
qed

lemma all_quiet:
  assumes "sum_list (map view_refs vs) = 0"
  shows "\<forall>v \<in> set vs. v = (0, Quiet)"
  using assms by (auto simp: view_refs_def split: if_splits)

lemma unlock_obj_eq:
  assumes "sync_objects s i = Some ob" and "m_sSynObjMap s (m_pObj ob) = Some i" and "thread_pending (sync_threads s ! t) = NoLock"
    and "ob1 = ob\<lparr>m_uiThreadCount := m_uiThreadCount ob - 1, m_uiLockCount := m_uiLockCount ob - 1\<rparr>"
    and "(if m_uiThreadCount ob1 = 0 then unlock_mutex t (ob1\<lparr>m_CurrentThreadId := None\<rparr>) else Some ob1) = Some ob'"
    and "s1 = set_thread t NoLock (remove1 i (accesses (sync_threads s ! t))) s"
  shows "unlock_obj t i s =
     (if m_uiLockCount ob' = 0
      then s1\<lparr>sync_objects := (sync_objects s)(i := None), m_sSynObjMap := (m_sSynObjMap s)(m_pObj ob' := None)\<rparr>
      else set_object i ob' s1)"
  using assms(5) unfolding unlock_obj_def Let_def assms(1-3,6) option.case assms(4) by (simp only: option.case)

lemma unlock_obj_inv:
  assumes I: "sync_inv s" and t: "t < length (sync_threads s)" and q: "thread_pending (sync_threads s ! t) = NoLock"
    and i: "i \<in> set (accesses (sync_threads s ! t))"
  shows "sync_inv (unlock_obj t i s)"
proof -
  define xs where "xs = remove1 i (accesses (sync_threads s ! t))"
  have c: "0 < count_list (accesses (sync_threads s ! t)) i" using i by (metis count_list_0_iff gr0I)
  have v: "views i s ! t = (count_list (accesses (sync_threads s ! t)) i, Quiet)" "t < length (views i s)"
    using views_nth [OF t, of i] q by (auto simp: view_def phase_of_def)
  obtain ob where ob: "sync_objects s i = Some ob"
    by (rule sync_inv_busy [OF I t, of i]) (use c in \<open>auto simp: view_def phase_of_def\<close>)
  note O = sync_inv_object [OF I ob]
  define ob1 where "ob1 = ob\<lparr>m_uiThreadCount := m_uiThreadCount ob - 1, m_uiLockCount := m_uiLockCount ob - 1\<rparr>"
  define s1 where "s1 = set_thread t NoLock xs s"
  have vs: "views i s1 = (views i s)[t := (fst (views i s ! t) - 1, Quiet)]"
    using v by (simp add: s1_def views_set_thread view_def phase_of_def xs_def count_remove1)
  obtain ob' where ob': "(if m_uiThreadCount ob1 = 0 then unlock_mutex t (ob1\<lparr>m_CurrentThreadId := None\<rparr>) else Some ob1) = Some ob'"
      "m_pObj ob' = m_pObj ob" "m_uiLockCount ob' = 0 \<longleftrightarrow> sum_list (map view_refs (views i s1)) = 0"
      "m_uiLockCount ob' \<noteq> 0 \<Longrightarrow> ob_good ob' (views i s1)"
    by (rule ob_good_unlock [OF O(3) v(2) _ ob1_def refl vs]) (use v c in auto)
  have size: "sync_size s1 < 2 ^ 32"
  proof -
    have "sync_size s < 2 ^ 32" using I by (simp add: sync_inv_def)
    moreover have "sync_size s1 \<le> sync_size s"
      using size_set_thread [OF t, of NoLock xs] q by (simp add: s1_def thread_size_def xs_def length_remove1 split: if_splits)
    ultimately show ?thesis by simp
  qed
  have other: "view j \<lparr>thread_pending = NoLock, accesses = xs\<rparr> = view j (sync_threads s ! t)" if "j \<noteq> i" for j
    using q that by (simp add: view_def phase_of_def xs_def count_remove1)
  show ?thesis
  proof (cases "m_uiLockCount ob' = 0")
    case True
    have eq: "unlock_obj t i s = s1\<lparr>sync_objects := (sync_objects s)(i := None), m_sSynObjMap := (m_sSynObjMap s)(m_pObj ob := None)\<rparr>"
      using unlock_obj_eq [OF ob O(2) q ob1_def ob'(1) s1_def [unfolded xs_def]] True ob'(2) by simp
    show ?thesis unfolding eq
    proof (rule sync_inv_change [OF I t, where i = i and th = "\<lparr>thread_pending = NoLock, accesses = xs\<rparr>" and oi = None and ptr = "m_pObj ob"])
      show "case None of None \<Rightarrow> \<forall>v \<in> set (views i (s1\<lparr>sync_objects := (sync_objects s)(i := None), m_sSynObjMap := (m_sSynObjMap s)(m_pObj ob := None)\<rparr>)). v = (0, Quiet)
          | Some ob' \<Rightarrow> m_pObj ob' = m_pObj ob \<and> ob_good ob' (views i (s1\<lparr>sync_objects := (sync_objects s)(i := None), m_sSynObjMap := (m_sSynObjMap s)(m_pObj ob := None)\<rparr>))"
        using all_quiet [of "views i s1"] ob'(3) True by (simp add: views_def)
    qed (use I ob O other size in \<open>auto simp: s1_def set_thread_def sync_inv_def sync_size_def\<close>)
  next
    case False
    have eq: "unlock_obj t i s = set_object i ob' s1"
      using unlock_obj_eq [OF ob O(2) q ob1_def ob'(1) s1_def [unfolded xs_def]] False by simp
    show ?thesis unfolding eq
    proof (rule sync_inv_change [OF I t, where i = i and th = "\<lparr>thread_pending = NoLock, accesses = xs\<rparr>" and oi = "Some ob'" and ptr = "m_pObj ob"])
    qed (use I ob O ob' False other size in \<open>auto simp: s1_def set_thread_def set_object_def sync_inv_def sync_size_def views_def\<close>)
  qed
qed

lemma sync_step_inv: "sync_inv s \<Longrightarrow> sync_step e s = Some s' \<Longrightarrow> sync_inv s'"
  by (cases e) (auto split: if_splits pending.splits intro: lock_obj_inv lock_mutex_inv set_owner_inv unlock_obj_inv)

interpretation sync_inv: invariant_of sync_step sync_inv
  by unfold_locales (rule sync_step_inv)

lemma sync_init_inv: "sync_inv (sync_init n)"
proof -
  have "sum_list (map thread_size (replicate n \<lparr>thread_pending = NoLock, accesses = []\<rparr>)) = 0"
    by (induction n) (auto simp: thread_size_def)
  then show ?thesis by (auto simp: sync_inv_def sync_init_def sync_size_def views_def view_def phase_of_def sum_list_replicate)
qed

lemma length_threads_step: "sync_step e s = Some s' \<Longrightarrow> length (sync_threads s') = length (sync_threads s)"
  by (cases e)
    (auto simp: lock_obj_def lock_mutex_def set_owner_def unlock_obj_def set_thread_def set_object_def Let_def
      split: if_splits pending.splits option.splits)

lemma length_threads_runs: "runs sync_step es s = Some s' \<Longrightarrow> length (sync_threads s') = length (sync_threads s)"
proof (induction es arbitrary: s)
  case Nil
  then show ?case by simp
next
  case (Cons e es)
  then obtain u where u: "sync_step e s = Some u" "runs sync_step es u = Some s'"
    by (auto simp del: sync_step.simps split: bind_splits)
  show ?case using length_threads_step [OF u(1)] Cons.IH [OF u(2)] by simp
qed

text \<open>The address that a \<open>SyncAccess\<close> of a thread locks.\<close>

definition locks :: "sync \<Rightarrow> nat \<Rightarrow> nat \<Rightarrow> bool" where
  "locks s t ptr \<longleftrightarrow> (\<exists>i \<in> set (accesses (sync_threads s ! t)). map_option m_pObj (sync_objects s i) = Some ptr)"

lemma access_alive:
  assumes "sync_inv s" and "t < length (sync_threads s)" and "i \<in> set (accesses (sync_threads s ! t))"
  obtains ob where "sync_objects s i = Some ob" and "mutex_owner ob = Some t" and "m_CurrentThreadId ob = Some t"
proof -
  have c: "0 < count_list (accesses (sync_threads s ! t)) i" using assms(3) by (metis count_list_0_iff gr0I)
  obtain ob where ob: "sync_objects s i = Some ob"
    by (rule sync_inv_busy [OF assms(1,2), of i]) (use c in \<open>auto simp: view_def\<close>)
  have v: "views i s ! t = view i (sync_threads s ! t)" "t < length (views i s)" using views_nth [OF assms(2)] by auto
  then have "0 < fst (views i s ! t)" using c by (simp add: view_def)
  then show ?thesis
    using ob ob_good_holder [OF sync_inv_object(3) [OF assms(1) ob] v(2)] that by blast
qed

text \<open>
  C14: \<open>SyncAccess\<close> is correct for every number of threads and of addresses and every interleaving:
  \<^item> no deleted \<open>SyncObject\<close> is used, and no thread unlocks a mutex that it does not own;
  \<^item> two threads never lock the same address at once;
  \<^item> a thread that locks an address may lock it again, and does not block;
  \<^item> a thread that waits for the mutex of an address gets it as soon as no other thread locks the address or is about to;
  \<^item> when no \<open>SyncAccess\<close> is left, the map is empty and every \<open>SyncObject\<close> has been deleted.
\<close>

theorem sync_access_correct:
  assumes "runs sync_step es (sync_init n) = Some s"
  shows "\<not> sync_fault s
    \<and> (\<forall>t < n. \<forall>u < n. \<forall>ptr. locks s t ptr \<longrightarrow> locks s u ptr \<longrightarrow> t = u)
    \<and> (\<forall>t < n. \<forall>ptr. locks s t ptr \<longrightarrow> thread_pending (sync_threads s ! t) = NoLock \<longrightarrow>
          thread_pending (sync_threads (lock_obj t ptr s) ! t) = NoLock)
    \<and> (\<forall>t < n. \<forall>i. thread_pending (sync_threads s ! t) = WantsLock i \<longrightarrow> sync_step (TakeMutex t) s = None \<longrightarrow>
          (\<exists>u < n. i \<in> set (accesses (sync_threads s ! u)) \<or> thread_pending (sync_threads s ! u) = HasMutex i))
    \<and> (sync_size s = 0 \<longrightarrow> m_sSynObjMap s = Map.empty \<and> sync_objects s = Map.empty)"
proof -
  have I: "sync_inv s" by (rule sync_inv.always_after [OF sync_init_inv assms])
  have n: "length (sync_threads s) = n" using length_threads_runs [OF assms] by (simp add: sync_init_def)
  have "t = u" if tu: "t < n" "u < n" and l: "locks s t ptr" "locks s u ptr" for t u ptr
  proof -
    obtain i j where i: "i \<in> set (accesses (sync_threads s ! t))" "map_option m_pObj (sync_objects s i) = Some ptr"
      and j: "j \<in> set (accesses (sync_threads s ! u))" "map_option m_pObj (sync_objects s j) = Some ptr"
      using l by (auto simp: locks_def)
    have "i = j" using i(2) j(2) by (auto dest!: sync_inv_object(2) [OF I])
    with access_alive [OF I _ i(1)] access_alive [OF I _ j(1)] tu n show ?thesis by (metis option.inject)
  qed
  moreover have "thread_pending (sync_threads (lock_obj t ptr s) ! t) = NoLock"
    if t: "t < n" and l: "locks s t ptr" for t ptr
  proof -
    obtain i where i: "i \<in> set (accesses (sync_threads s ! t))" "map_option m_pObj (sync_objects s i) = Some ptr"
      using l by (auto simp: locks_def)
    obtain ob where ob: "sync_objects s i = Some ob" "m_CurrentThreadId ob = Some t"
      using access_alive [OF I _ i(1)] t n by metis
    have "m_sSynObjMap s ptr = Some i" using sync_inv_object(2) [OF I ob(1)] i(2) ob(1) by simp
    then show ?thesis using ob t n by (simp add: lock_obj_def set_thread_def set_object_def)
  qed
  moreover have "\<exists>u < n. i \<in> set (accesses (sync_threads s ! u)) \<or> thread_pending (sync_threads s ! u) = HasMutex i"
    if t: "t < n" and w: "thread_pending (sync_threads s ! t) = WantsLock i" and b: "sync_step (TakeMutex t) s = None" for t i
  proof -
    obtain ob where ob: "sync_objects s i = Some ob"
      by (rule sync_inv_busy [OF I, of t i]) (use t n w in \<open>auto simp: view_def phase_of_def\<close>)
    obtain u where u: "mutex_owner ob = Some u" using b t n w ob by (auto simp: lock_mutex_def split: if_splits)
    note G = sync_inv_object(3) [OF I ob]
    have "u < length (views i s) \<and> (0 < fst (views i s ! u) \<or> snd (views i s ! u) = Owning)"
      using G u by (auto simp: ob_good_def only_def)
    then have "u < n \<and> (0 < count_list (accesses (sync_threads s ! u)) i \<or> phase_of i (thread_pending (sync_threads s ! u)) = Owning)"
      using n views_nth [of u s i] by (auto simp: views_def view_def)
    then show ?thesis by (metis count_list_0_iff less_irrefl phase.distinct(3,5) phase_of_def)
  qed
  moreover have "m_sSynObjMap s = Map.empty \<and> sync_objects s = Map.empty" if z: "sync_size s = 0"
  proof -
    have none: "sync_objects s i = None" for i
    proof (cases "sync_objects s i")
      case (Some ob)
      then show ?thesis using sync_inv_object(3) [OF I Some] refs_le_size [of i s] z by (auto simp: ob_good_def)
    qed
    have "m_sSynObjMap s ptr = None" for ptr
      using I none unfolding sync_inv_def by (metis not_Some_eq)
    then show ?thesis using none by auto
  qed
  moreover have "\<not> sync_fault s" using I by (simp add: sync_inv_def)
  ultimately show ?thesis by blast
qed

theorem sync_access_correct_witness:
  "\<exists>s. runs sync_step [LockObj 0 7, TakeMutex 0, SetOwner 0, LockObj 0 7, LockObj 1 7, UnlockObj 0 0, UnlockObj 0 0,
        TakeMutex 1, SetOwner 1] (sync_init 2) = Some s
     \<and> locks s 1 7 \<and> \<not> locks s 0 7 \<and> \<not> sync_fault s
     \<and> (\<forall>t < 2. \<forall>u < 2. \<forall>ptr. locks s t ptr \<longrightarrow> locks s u ptr \<longrightarrow> t = u)"
proof -
  define es where "es = [LockObj 0 7, TakeMutex 0, SetOwner 0, LockObj 0 7, LockObj 1 7, UnlockObj 0 0, UnlockObj 0 0,
        TakeMutex 1, SetOwner 1]"
  have c: "case runs sync_step es (sync_init 2) of None \<Rightarrow> False | Some s \<Rightarrow> locks s 1 7 \<and> \<not> locks s 0 7"
    unfolding es_def by code_simp
  then obtain s where s: "runs sync_step es (sync_init 2) = Some s" "locks s 1 7 \<and> \<not> locks s 0 7"
    by (cases "runs sync_step es (sync_init 2)") auto
  show ?thesis unfolding es_def [symmetric]
    by (rule exI [of _ s]) (use s sync_access_correct [OF s(1)] in blast)
qed

end
