(* ===== verification/Endianness.thy ===== *)
theory Endianness
  imports Prelude
begin

text \<open>
  The byte swapping routines of \<open>src/bitsstream/Endianness.cpp\<close>. The file selects one body per
  platform with the preprocessor; the two builds \<open>config-linux.h\<close> allows are modelled:
  the x86-64 build (inline assembly, \<open>YAT_SIZEOF_LONG\<close> is 8) and the 32-bit ARM build (the
  portable C branches, \<open>YAT_SIZEOF_LONG\<close> is 4). Both are little-endian hosts, so a load or a
  store of an integer goes through \<open>le_join\<close> and \<open>le_split\<close>. Pointers are addresses and the
  memory is \<open>mem\<close>, so that a source and a target that overlap are the same bytes.
  The locale \<open>region_swapper\<close> is the contract of a routine that swaps the elements of a region;
  \<open>element_swapper\<close> and \<open>array_swapper\<close> extend it for the element swaps and the loops built on them,
  and every routine of the file is an interpretation.
\<close>

datatype byte_order = BO_LITTLE_ENDIAN | BO_BIG_ENDIAN

definition host_endianness :: byte_order where
  "host_endianness = BO_LITTLE_ENDIAN"

definition data_needs_bytes_reordering :: "byte_order \<Rightarrow> bool" where
  "data_needs_bytes_reordering data_bo \<longleftrightarrow> data_bo \<noteq> host_endianness"

section \<open>Loads, stores and alignment\<close>

definition load16 :: "mem \<Rightarrow> nat \<Rightarrow> u16" where "load16 m a = le_join (rd m a 2)"
definition load32 :: "mem \<Rightarrow> nat \<Rightarrow> u32" where "load32 m a = le_join (rd m a 4)"
definition load64 :: "mem \<Rightarrow> nat \<Rightarrow> u64" where "load64 m a = le_join (rd m a 8)"
definition store16 :: "mem \<Rightarrow> nat \<Rightarrow> u16 \<Rightarrow> mem" where "store16 m a w = wr m a (le_split 2 w)"
definition store32 :: "mem \<Rightarrow> nat \<Rightarrow> u32 \<Rightarrow> mem" where "store32 m a w = wr m a (le_split 4 w)"
definition store64 :: "mem \<Rightarrow> nat \<Rightarrow> u64 \<Rightarrow> mem" where "store64 m a w = wr m a (le_split 8 w)"

text \<open>\<open>uintptr_t\<close> is 64 bits wide on x86-64 and 32 bits wide on ARM: the width is an argument.\<close>

definition ALIGN_BINARY :: "'p::len word \<Rightarrow> 'p word \<Rightarrow> 'p word" where
  "ALIGN_BINARY ptr alignment = (let tmp = alignment - 1 in (ptr + tmp) AND (NOT tmp))"

definition PTR_ALIGN_BINARY :: "'p::len itself \<Rightarrow> nat \<Rightarrow> nat \<Rightarrow> nat" where
  "PTR_ALIGN_BINARY _ ptr alignment =
     unat (ALIGN_BINARY (word_of_nat ptr :: 'p word) (word_of_nat alignment))"

section \<open>The element swaps\<close>

text \<open>The instructions the x86-64 branches use: \<open>rol\<close> by a constant and \<open>bswap\<close>.\<close>

definition rol :: "nat \<Rightarrow> 'a::len word \<Rightarrow> 'a word" where
  "rol k w = push_bit k w OR drop_bit (LENGTH('a) - k) w"

definition bswap32 :: "u32 \<Rightarrow> u32" where "bswap32 w = le_join (rev (le_split 4 w))"
definition bswap64 :: "u64 \<Rightarrow> u64" where "bswap64 w = le_join (rev (le_split 8 w))"

text \<open>\<open>swap_2\<close>, \<open>swap_4\<close>, \<open>swap_8\<close>: the portable branch (\<open>_p\<close>) and the x86-64 branch (\<open>_x\<close>).\<close>

definition swap_2_p :: "nat \<Rightarrow> nat \<Rightarrow> mem \<Rightarrow> mem" where
  "swap_2_p orig target m =
     (let usrc = load16 m orig
      in store16 m target (push_bit 8 usrc OR drop_bit 8 usrc))"

definition swap_2_x :: "nat \<Rightarrow> nat \<Rightarrow> mem \<Rightarrow> mem" where
  "swap_2_x orig target m = (let a = load16 m orig in store16 m target (rol 8 a))"

definition shuffle32 :: "u32 \<Rightarrow> u32" where
  "shuffle32 x = push_bit 24 x OR push_bit 8 (x AND 0xff00) OR
     drop_bit 8 (x AND 0xff0000) OR drop_bit 24 x"

definition swap_4_p :: "nat \<Rightarrow> nat \<Rightarrow> mem \<Rightarrow> mem" where
  "swap_4_p orig target m = (let x = load32 m orig in store32 m target (shuffle32 x))"

definition swap_4_x :: "nat \<Rightarrow> nat \<Rightarrow> mem \<Rightarrow> mem" where
  "swap_4_x orig target m = (let j = load32 m orig in store32 m target (bswap32 j))"

definition swap_8_p :: "nat \<Rightarrow> nat \<Rightarrow> mem \<Rightarrow> mem" where
  "swap_8_p orig target m =
     (let x = load32 m orig; y = load32 m (orig + 4);
          x = shuffle32 x; y = shuffle32 y;
          m = store32 m target y
      in store32 m (target + 4) x)"

definition swap_8_x :: "nat \<Rightarrow> nat \<Rightarrow> mem \<Rightarrow> mem" where
  "swap_8_x orig target m = (let x = load64 m orig in store64 m target (bswap64 x))"

text \<open>The 64-bit portable branch of \<open>swap_8\<close>, which no platform of \<open>config-linux.h\<close> selects.\<close>

definition shuffle64 :: "u64 \<Rightarrow> u64" where
  "shuffle64 x =
     (let x84 = push_bit 24 (x AND 0x000000ff000000ff);
          x73 = push_bit 8 (x AND 0x0000ff000000ff00);
          x62 = drop_bit 8 (x AND 0x00ff000000ff0000);
          x51 = drop_bit 24 (x AND 0xff000000ff000000);
          x = x84 OR x73 OR x62 OR x51
      in push_bit 32 x OR drop_bit 32 x)"

definition swap_8_l :: "nat \<Rightarrow> nat \<Rightarrow> mem \<Rightarrow> mem" where
  "swap_8_l orig target m =
     (let x = load64 m orig in store64 m target (shuffle64 x))"

text \<open>\<open>swap_16\<close> calls \<open>swap_8\<close> twice, the high half first.\<close>

definition swap_16 :: "(nat \<Rightarrow> nat \<Rightarrow> mem \<Rightarrow> mem) \<Rightarrow> nat \<Rightarrow> nat \<Rightarrow> mem \<Rightarrow> mem" where
  "swap_16 swap_8 orig target m =
     (let m = swap_8 (orig + 8) target m in swap_8 orig (target + 8) m)"

section \<open>The array routines\<close>

text \<open>
  The \<open>while (orig < end)\<close> loops, which move both pointers by one chunk per turn; \<open>chunk\<close> is
  the loop body without the pointer moves. The result is the pointers and the memory at the exit.
\<close>

function chunk_loop :: "nat \<Rightarrow> (nat \<Rightarrow> nat \<Rightarrow> mem \<Rightarrow> mem) \<Rightarrow> nat \<Rightarrow> nat \<Rightarrow> nat \<Rightarrow> mem \<Rightarrow> nat \<times> nat \<times> mem"
where
  "chunk_loop step chunk orig target endp m =
     (if orig < endp \<and> 0 < step
      then chunk_loop step chunk (orig + step) (target + step) endp (chunk orig target m)
      else (orig, target, m))"
  by pat_completeness auto
termination
  by (relation "measure (\<lambda>(step, chunk, orig, target, endp, m). endp - orig)") auto

declare chunk_loop.simps [simp del]

text \<open>The \<open>switch (n & 3)\<close> at the end, whose cases fall through.\<close>

definition switch3 :: "nat \<Rightarrow> (nat \<Rightarrow> nat \<Rightarrow> mem \<Rightarrow> mem) \<Rightarrow> nat \<Rightarrow> nat \<Rightarrow> nat \<Rightarrow> mem \<Rightarrow> mem" where
  "switch3 w swap k orig target m =
     (let (orig, target, m) =
            (if k = 3 then (orig + w, target + w, swap orig target m) else (orig, target, m));
          (orig, target, m) =
            (if k \<in> {2, 3} then (orig + w, target + w, swap orig target m) else (orig, target, m))
      in if k \<in> {1, 2, 3} then swap orig target m else m)"

text \<open>\<open>end = orig + w * (n & (~3))\<close>, with \<open>n\<close> a \<open>size_t\<close>.\<close>

definition chunk_end :: "nat \<Rightarrow> nat \<Rightarrow> 'n::len word \<Rightarrow> nat" where
  "chunk_end w orig n = orig + w * unat (n AND NOT 3)"

subsection \<open>\<open>swap_2_array\<close>, x86-64\<close>

definition chunk_2_aligned_x :: "nat \<Rightarrow> nat \<Rightarrow> mem \<Rightarrow> mem" where
  "chunk_2_aligned_x orig target m =
     (let a = load32 m orig; b = load32 m (orig + 4);
          a = bswap32 a; b = bswap32 b;
          a = rol 16 a; b = rol 16 b;
          m = store32 m target a
      in store32 m (target + 4) b)"

definition chunk_2_unaligned_x :: "nat \<Rightarrow> nat \<Rightarrow> mem \<Rightarrow> mem" where
  "chunk_2_unaligned_x orig target m =
     (let a = load32 m orig; b = load32 m (orig + 4);
          a = bswap32 a; b = bswap32 b;
          m = store16 m (target + 2) (ucast (a AND 0xffff));
          m = store16 m (target + 6) (ucast (b AND 0xffff));
          a = drop_bit 16 a; b = drop_bit 16 b;
          m = store16 m (target + 0) (ucast (a AND 0xffff))
      in store16 m (target + 4) (ucast (b AND 0xffff)))"

definition swap_2_array_x :: "nat \<Rightarrow> nat \<Rightarrow> u64 \<Rightarrow> mem \<Rightarrow> mem" where
  "swap_2_array_x orig target n m =
     (if n = 0 then m
      else
        let o4 = PTR_ALIGN_BINARY TYPE(64) orig 4;
            (orig, target, n, m) =
              (if orig \<noteq> o4 then (orig + 2, target + 2, n - 1, swap_2_x orig target m)
               else (orig, target, n, m))
        in if n = 0 then m
           else
             let endp = chunk_end 2 orig n;
                 (orig, target, m) =
                   (if target = PTR_ALIGN_BINARY TYPE(64) target 4
                    then chunk_loop 8 chunk_2_aligned_x orig target endp m
                    else chunk_loop 8 chunk_2_unaligned_x orig target endp m)
             in switch3 2 swap_2_x (unat (n AND 3)) orig target m)"

subsection \<open>\<open>swap_2_array\<close>, 32-bit ARM\<close>

definition swap_pairs32 :: "u32 \<Rightarrow> u32" where
  "swap_pairs32 a =
     (let a1 = push_bit 8 (a AND 0x00ff00ff);
          a2 = drop_bit 8 (a AND 0xff00ff00)
      in a1 OR a2)"

definition chunk_2_aligned_p :: "nat \<Rightarrow> nat \<Rightarrow> mem \<Rightarrow> mem" where
  "chunk_2_aligned_p orig target m =
     (let a = load32 m orig; b = load32 m (orig + 4);
          a = swap_pairs32 a; b = swap_pairs32 b;
          m = store32 m target a
      in store32 m (target + 4) b)"

text \<open>
  \<open>le_macro\<close> tells whether \<open>YAT_LITTLE_ENDIAN\<close> is defined when the file is compiled. No header
  of the library defines it (they define \<open>YAT_LITTLE_ENDIAN_PLATFORM\<close>), so the value in every
  build of the repository is \<open>False\<close>.
\<close>

definition YAT_LITTLE_ENDIAN :: bool where
  "YAT_LITTLE_ENDIAN = False"

definition chunk_2_unaligned_p :: "bool \<Rightarrow> nat \<Rightarrow> nat \<Rightarrow> mem \<Rightarrow> mem" where
  "chunk_2_unaligned_p le_macro orig target m =
     (let a = load32 m orig; b = load32 m (orig + 4);
          a = swap_pairs32 a; b = swap_pairs32 b;
          c1 = ucast (drop_bit 16 a) :: u16; c2 = ucast (a AND 0xffff) :: u16;
          c3 = ucast (drop_bit 16 b) :: u16; c4 = ucast (b AND 0xffff) :: u16
      in if le_macro
         then store16 (store16 (store16 (store16 m target c2) (target + 2) c1)
                (target + 4) c4) (target + 6) c3
         else store16 (store16 (store16 (store16 m target c1) (target + 2) c2)
                (target + 4) c3) (target + 6) c4)"

definition swap_2_array_p :: "bool \<Rightarrow> nat \<Rightarrow> nat \<Rightarrow> u32 \<Rightarrow> mem \<Rightarrow> mem" where
  "swap_2_array_p le_macro orig target n m =
     (if n = 0 then m
      else
        let o4 = PTR_ALIGN_BINARY TYPE(32) orig 4;
            (orig, target, n, m) =
              (if orig \<noteq> o4 then (orig + 2, target + 2, n - 1, swap_2_p orig target m)
               else (orig, target, n, m))
        in if n = 0 then m
           else
             let endp = chunk_end 2 orig n;
                 (orig, target, m) =
                   (if target = PTR_ALIGN_BINARY TYPE(32) target 4
                    then chunk_loop 8 chunk_2_aligned_p orig target endp m
                    else chunk_loop 8 (chunk_2_unaligned_p le_macro) orig target endp m)
             in switch3 2 swap_2_p (unat (n AND 3)) orig target m)"

subsection \<open>\<open>swap_4_array\<close>, x86-64\<close>

definition chunk_4_aligned_x :: "nat \<Rightarrow> nat \<Rightarrow> mem \<Rightarrow> mem" where
  "chunk_4_aligned_x orig target m =
     (let a = load64 m orig; b = load64 m (orig + 8);
          a = bswap64 a; b = bswap64 b;
          a = rol 32 a; b = rol 32 b;
          m = store64 m target a
      in store64 m (target + 8) b)"

definition chunk_4_unaligned_x :: "bool \<Rightarrow> nat \<Rightarrow> nat \<Rightarrow> mem \<Rightarrow> mem" where
  "chunk_4_unaligned_x le_macro orig target m =
     (let a = load64 m orig; b = load64 m (orig + 8);
          a = bswap64 a; b = bswap64 b;
          a = rol 32 a; b = rol 32 b;
          c1 = ucast (drop_bit 32 a) :: u32; c2 = ucast (a AND 0xffffffff) :: u32;
          c3 = ucast (drop_bit 32 b) :: u32; c4 = ucast (b AND 0xffffffff) :: u32
      in if le_macro
         then store32 (store32 (store32 (store32 m (target + 0) c2) (target + 4) c1)
                (target + 8) c4) (target + 12) c3
         else store32 (store32 (store32 (store32 m (target + 0) c1) (target + 4) c2)
                (target + 8) c3) (target + 12) c4)"

definition swap_4_array_x :: "bool \<Rightarrow> nat \<Rightarrow> nat \<Rightarrow> u64 \<Rightarrow> mem \<Rightarrow> mem" where
  "swap_4_array_x le_macro orig target n m =
     (if n = 0 then m
      else
        let o8 = PTR_ALIGN_BINARY TYPE(64) orig 8;
            (orig, target, n, m) =
              (if orig \<noteq> o8 then (orig + 4, target + 4, n - 1, swap_4_x orig target m)
               else (orig, target, n, m))
        in if n = 0 then m
           else
             let endp = chunk_end 4 orig n;
                 (orig, target, m) =
                   (if target = PTR_ALIGN_BINARY TYPE(64) target 8
                    then chunk_loop 16 chunk_4_aligned_x orig target endp m
                    else chunk_loop 16 (chunk_4_unaligned_x le_macro) orig target endp m)
             in switch3 4 swap_4_x (unat (n AND 3)) orig target m)"

subsection \<open>\<open>swap_4_array\<close>, 32-bit ARM\<close>

definition chunk_4_p :: "nat \<Rightarrow> nat \<Rightarrow> mem \<Rightarrow> mem" where
  "chunk_4_p orig target m =
     (let a = load32 m orig; b = load32 m (orig + 4);
          c = load32 m (orig + 8); d = load32 m (orig + 12);
          a = shuffle32 a; b = shuffle32 b; c = shuffle32 c; d = shuffle32 d;
          m = store32 m target a;
          m = store32 m (target + 4) b;
          m = store32 m (target + 8) c
      in store32 m (target + 12) d)"

definition swap_4_array_p :: "nat \<Rightarrow> nat \<Rightarrow> u32 \<Rightarrow> mem \<Rightarrow> mem" where
  "swap_4_array_p orig target n m =
     (if n = 0 then m
      else
        let endp = chunk_end 4 orig n;
            (orig, target, m) = chunk_loop 16 chunk_4_p orig target endp m
        in switch3 4 swap_4_p (unat (n AND 3)) orig target m)"

subsection \<open>\<open>swap_8_array\<close> and \<open>swap_16_array\<close>\<close>

definition swap_8_array :: "(nat \<Rightarrow> nat \<Rightarrow> mem \<Rightarrow> mem) \<Rightarrow> nat \<Rightarrow> nat \<Rightarrow> 'n::len word \<Rightarrow> mem \<Rightarrow> mem" where
  "swap_8_array swap_8 orig target n m =
     (if n = 0 then m
      else snd (snd (chunk_loop 8 swap_8 orig target (orig + 8 * unat n) m)))"

definition swap_16_array :: "(nat \<Rightarrow> nat \<Rightarrow> mem \<Rightarrow> mem) \<Rightarrow> nat \<Rightarrow> nat \<Rightarrow> 'n::len word \<Rightarrow> mem \<Rightarrow> mem" where
  "swap_16_array swap_8 orig target n m =
     (if n = 0 then m
      else snd (snd (chunk_loop 16 (swap_16 swap_8) orig target (orig + 16 * unat n) m)))"

section \<open>Bytes of the words the routines build\<close>

lemma rd_list:
  "rd m a 2 = [m a, m (a + 1)]"
  "rd m a 4 = [m a, m (a + 1), m (a + 2), m (a + 3)]"
  "rd m a 8 = [m a, m (a + 1), m (a + 2), m (a + 3), m (a + 4), m (a + 5), m (a + 6), m (a + 7)]"
  by (simp_all add: rd_def upt_rec eval_nat_numeral)

lemma le_split_list:
  "le_split 2 w = [ucast w, ucast (drop_bit 8 w)]"
  "le_split 4 w = [ucast w, ucast (drop_bit 8 w), ucast (drop_bit 16 w), ucast (drop_bit 24 w)]"
  "le_split 8 w = le_split 4 w @ le_split 4 (drop_bit 32 w)"
  by (simp_all add: le_split_def upt_rec)

lemma masks32:
  "(0xff00 :: u32) = push_bit 8 (mask 8)"
  "(0xff0000 :: u32) = push_bit 16 (mask 8)"
  "(0x00ff00ff :: u32) = mask 8 OR push_bit 16 (mask 8)"
  "(0xff00ff00 :: u32) = push_bit 8 (mask 8) OR push_bit 24 (mask 8)"
  "(0xffff :: u32) = mask 16"
  by (simp_all add: mask_eq_exp_minus_1 push_bit_eq_mult)

lemma masks64:
  "(0x000000ff000000ff :: u64) = mask 8 OR push_bit 32 (mask 8)"
  "(0x0000ff000000ff00 :: u64) = push_bit 8 (mask 8) OR push_bit 40 (mask 8)"
  "(0x00ff000000ff0000 :: u64) = push_bit 16 (mask 8) OR push_bit 48 (mask 8)"
  "(0xff000000ff000000 :: u64) = push_bit 24 (mask 8) OR push_bit 56 (mask 8)"
  "(0xffffffff :: u64) = mask 32"
  by (simp_all add: mask_eq_exp_minus_1 push_bit_eq_mult)

lemma bswap32_bytes [byte_simps]: "le_split 4 (bswap32 w) = rev (le_split 4 w)"
  by (simp add: bswap32_def le_split_join)

lemma bswap64_bytes [byte_simps]: "le_split 8 (bswap64 w) = rev (le_split 8 w)"
  by (simp add: bswap64_def le_split_join)

lemma rol16_bytes [byte_simps]:
  "le_split 4 (rol 16 w :: u32) = drop 2 (le_split 4 w) @ take 2 (le_split 4 w)"
  by (simp add: le_split_list rol_def) (auto intro!: bit_word_eqI simp: bit_simps)

lemma rol32_bytes [byte_simps]:
  "le_split 8 (rol 32 w :: u64) = drop 4 (le_split 8 w) @ take 4 (le_split 8 w)"
  by (simp add: le_split_list rol_def) (auto intro!: bit_word_eqI simp: bit_simps)

lemma rol8_bytes [byte_simps]: "le_split 2 (rol 8 w :: u16) = rev (le_split 2 w)"
  by (simp add: le_split_list rol_def) (auto intro!: bit_word_eqI simp: bit_simps)


section \<open>The contract: every element of a range, byte-reversed\<close>

text \<open>
  \<open>swapped w n orig target m\<close> is the memory after \<open>n\<close> elements of \<open>w\<close> bytes at \<open>orig\<close> have been
  written to \<open>target\<close> with the bytes of each reversed; \<open>apart\<close> says that source and target are
  the same range or do not meet.
\<close>

definition rev_index :: "nat \<Rightarrow> nat \<Rightarrow> nat" where
  "rev_index w k = (k div w) * w + (w - 1 - k mod w)"

definition swapped :: "nat \<Rightarrow> nat \<Rightarrow> nat \<Rightarrow> nat \<Rightarrow> mem \<Rightarrow> mem" where
  "swapped w n orig target m = wr m target (map (\<lambda>k. m (orig + rev_index w k)) [0..<w * n])"

definition apart :: "nat \<Rightarrow> nat \<Rightarrow> nat \<Rightarrow> nat \<Rightarrow> bool" where
  "apart w n orig target \<longleftrightarrow>
     orig = target \<or> orig + w * n \<le> target \<or> target + w * n \<le> orig"

lemma rev_index_less: "k < w * n \<Longrightarrow> rev_index w k < w * n"
proof -
  assume k: "k < w * n"
  then have w: "0 < w" by (cases w) auto
  have d: "k div w < n" using k by (simp add: less_mult_imp_div_less mult.commute)
  have "rev_index w k < (k div w) * w + w" using w by (simp add: rev_index_def)
  also have "\<dots> = (Suc (k div w)) * w" by simp
  also have "\<dots> \<le> n * w" using d by (intro mult_le_mono1) simp
  finally show ?thesis by (simp add: mult.commute)
qed

lemma rev_index_add: "0 < w \<Longrightarrow> rev_index w (w * n + k) = w * n + rev_index w k"
  by (simp add: rev_index_def algebra_simps)

lemma swapped_apply [mem_simps]:
  "swapped w n orig target m x =
     (if target \<le> x \<and> x < target + w * n then m (orig + rev_index w (x - target)) else m x)"
  by (auto simp: swapped_def wr_def)

lemma swapped_0 [simp]: "swapped w 0 orig target m = m"
  by (rule ext) (auto simp: swapped_apply)

lemma swapped_add:
  assumes "apart w (n + k) orig target" and "0 < w"
  shows "swapped w k (orig + w * n) (target + w * n) (swapped w n orig target m) =
    swapped w (n + k) orig target m"
proof (rule ext)
  fix x
  show "swapped w k (orig + w * n) (target + w * n) (swapped w n orig target m) x =
    swapped w (n + k) orig target m x"
  proof (cases "target + w * n \<le> x \<and> x < target + w * n + w * k")
    case True
    define j where "j = x - (target + w * n)"
    with True have x: "x = target + (w * n + j)" and j: "j < w * k" by auto
    define y where "y = orig + w * n + rev_index w j"
    have "rev_index w j < w * k" using j by (rule rev_index_less)
    then have y: "y < target \<or> target + w * n \<le> y"
      using assms(1) by (auto simp: y_def apart_def algebra_simps)
    have "swapped w k (orig + w * n) (target + w * n) (swapped w n orig target m) x =
        swapped w n orig target m y"
      using j by (simp add: swapped_apply [of _ k] x y_def)
    also have "\<dots> = m y" using y by (auto simp: swapped_apply)
    also have "y = orig + rev_index w (w * n + j)" using assms(2) by (simp add: rev_index_add y_def)
    also have "m \<dots> = swapped w (n + k) orig target m x"
      using j by (simp add: swapped_apply x algebra_simps)
    finally show ?thesis .
  next
    case False
    then show ?thesis by (auto simp: swapped_apply algebra_simps)
  qed
qed

lemma apart_sub:
  "apart w n orig target \<Longrightarrow> k + j \<le> n \<Longrightarrow> apart w j (orig + w * k) (target + w * k)"
proof -
  assume a: "apart w n orig target" and "k + j \<le> n"
  then have "w * (k + j) \<le> w * n" by (intro mult_le_mono2)
  with a show ?thesis by (auto simp: apart_def algebra_simps)
qed

text \<open>
  The interface: a routine that swaps \<open>c\<close> elements of \<open>w\<close> bytes at once. \<open>ok\<close> says for which
  pointers it keeps the contract.
\<close>

locale region_swapper =
  fixes w :: nat and c :: nat
    and chunk :: "nat \<Rightarrow> nat \<Rightarrow> mem \<Rightarrow> mem"
    and ok :: "nat \<Rightarrow> nat \<Rightarrow> bool"
  assumes w_pos: "0 < w" and c_pos: "0 < c"
    and chunk: "ok orig target \<Longrightarrow> chunk orig target m = swapped w c orig target m"
begin

lemma loop_swaps:
  assumes "apart w (c * n) orig target"
    and "\<And>i. i < n \<Longrightarrow> ok (orig + w * c * i) (target + w * c * i)"
  shows "chunk_loop (w * c) chunk orig target (orig + w * c * n) m =
    (orig + w * c * n, target + w * c * n, swapped w (c * n) orig target m)"
  using assms
proof (induction n arbitrary: orig target m)
  case 0
  then show ?case by (simp add: chunk_loop.simps)
next
  case (Suc n)
  have step: "chunk orig target m = swapped w c orig target m"
    using Suc.prems(2) [of 0] by (simp add: chunk)
  have ap: "apart w (c * n) (orig + w * c) (target + w * c)"
    using apart_sub [OF Suc.prems(1), of c "c * n"] by simp
  have oks: "\<And>i. i < n \<Longrightarrow> ok (orig + w * c + w * c * i) (target + w * c + w * c * i)"
    using Suc.prems(2) [of "Suc i" for i] by (simp add: algebra_simps)
  have "chunk_loop (w * c) chunk orig target (orig + w * c * Suc n) m =
      chunk_loop (w * c) chunk (orig + w * c) (target + w * c)
        (orig + w * c + w * c * n) (swapped w c orig target m)"
    using w_pos c_pos by (subst chunk_loop.simps) (simp add: step algebra_simps)
  also have "\<dots> = (orig + w * c + w * c * n, target + w * c + w * c * n,
      swapped w (c * n) (orig + w * c) (target + w * c) (swapped w c orig target m))"
    using Suc.IH [OF ap oks] by simp
  also have "swapped w (c * n) (orig + w * c) (target + w * c) (swapped w c orig target m) =
      swapped w (c * Suc n) orig target m"
    using swapped_add [of w c "c * n" orig target m] Suc.prems(1) w_pos by simp
  finally show ?case by (simp add: algebra_simps)
qed

end

locale element_swapper = region_swapper w 1 swap ok
  for w :: nat and swap :: "nat \<Rightarrow> nat \<Rightarrow> mem \<Rightarrow> mem" and ok :: "nat \<Rightarrow> nat \<Rightarrow> bool"
begin

lemma switch3_swaps:
  assumes "apart w k orig target" and "k < 4"
    and "\<And>i. i < k \<Longrightarrow> ok (orig + w * i) (target + w * i)"
  shows "switch3 w swap k orig target m = swapped w k orig target m"
proof -
  have 1: "swap (orig + w * i) (target + w * i) (swapped w i orig target m) =
      swapped w (Suc i) orig target m" if "i < k" for i
  proof -
    have "apart w (i + 1) orig target" using apart_sub [OF assms(1), of 0 "i + 1"] that by simp
    from swapped_add [OF this w_pos] show ?thesis using assms(3) that by (simp add: chunk)
  qed
  have 0: "swap orig target m = swapped w (Suc 0) orig target m" if "0 < k"
    using 1 [of 0] that by simp
  from \<open>k < 4\<close> consider "k = 0" | "k = 1" | "k = 2" | "k = 3" by linarith
  then show ?thesis
  proof cases
    case 3
    then show ?thesis using 0 1 [of 1] by (simp add: switch3_def numeral_2_eq_2)
  next
    case 4
    then show ?thesis using 0 1 [of 1] 1 [of 2]
      by (simp add: switch3_def numeral_2_eq_2 numeral_3_eq_3 algebra_simps)
  qed (use 0 in \<open>simp_all add: switch3_def\<close>)
qed

end

locale array_swapper = element_swapper w swap "\<lambda>_ _. True"
  for w :: nat and swap :: "nat \<Rightarrow> nat \<Rightarrow> mem \<Rightarrow> mem" +
  fixes chunk4 :: "nat \<Rightarrow> nat \<Rightarrow> mem \<Rightarrow> mem"
  assumes chunk4: "chunk4 orig target m = swapped w 4 orig target m"


sublocale array_swapper \<subseteq> four: region_swapper w 4 chunk4 "\<lambda>_ _. True"
  by unfold_locales (simp_all add: chunk4 w_pos)

context array_swapper begin

lemma body_swaps:
  assumes "apart w n orig target"
  shows "(let (orig', target', m') =
              chunk_loop (w * 4) chunk4 orig target (orig + w * (4 * (n div 4))) m
          in switch3 w swap (n mod 4) orig' target' m') = swapped w n orig target m"
proof -
  define q where "q = n div 4"
  have n: "n = 4 * q + n mod 4" by (simp add: q_def)
  have a1: "apart w (4 * q) orig target"
    using apart_sub [OF assms, of 0 "4 * q"] n by simp
  have a2: "apart w (n mod 4) (orig + w * (4 * q)) (target + w * (4 * q))"
    using apart_sub [OF assms, of "4 * q" "n mod 4"] n by simp
  have l: "chunk_loop (w * 4) chunk4 orig target (orig + w * (4 * q)) m =
      (orig + w * (4 * q), target + w * (4 * q), swapped w (4 * q) orig target m)"
    using four.loop_swaps [OF a1] by (simp add: algebra_simps)
  have s: "switch3 w swap (n mod 4) (orig + w * (4 * q)) (target + w * (4 * q))
      (swapped w (4 * q) orig target m) =
      swapped w (n mod 4) (orig + w * (4 * q)) (target + w * (4 * q))
        (swapped w (4 * q) orig target m)"
    by (rule switch3_swaps [OF a2]) simp_all
  have "swapped w (n mod 4) (orig + w * (4 * q)) (target + w * (4 * q))
        (swapped w (4 * q) orig target m) = swapped w n orig target m"
    using swapped_add [of w "4 * q" "n mod 4" orig target m] assms n w_pos by simp
  then show ?thesis by (simp add: l s q_def [symmetric])
qed

end

section \<open>The routines of the file keep the contract\<close>

lemma swapped_one: "swapped w (Suc 0) orig target m = wr m target (rev (rd m orig w))"
proof -
  have "map (\<lambda>k. m (orig + rev_index w k)) [0..<w] = rev (rd m orig w)"
    by (rule nth_equalityI) (auto simp: rd_def rev_nth rev_index_def)
  then show ?thesis by (simp add: swapped_def)
qed

lemma upt_8_16:
  "[0..<8] = [0, 1, 2, 3, 4, 5, 6, 7]"
  "[0..<16] = [0, 1, 2, 3, 4, 5, 6, 7, 8, 9, 10, 11, 12, 13, 14, 15]"
  by (simp_all add: upt_rec)

lemma rev_index_values:
  "rev_index 2 0 = 1" "rev_index 2 (Suc 0) = 0" "rev_index 2 2 = 3" "rev_index 2 3 = 2"
  "rev_index 2 4 = 5" "rev_index 2 5 = 4" "rev_index 2 6 = 7" "rev_index 2 7 = 6"
  "rev_index 4 0 = 3" "rev_index 4 (Suc 0) = 2" "rev_index 4 2 = 1" "rev_index 4 3 = 0"
  "rev_index 4 4 = 7" "rev_index 4 5 = 6" "rev_index 4 6 = 5" "rev_index 4 7 = 4"
  "rev_index 4 8 = 11" "rev_index 4 9 = 10" "rev_index 4 10 = 9" "rev_index 4 11 = 8"
  "rev_index 4 12 = 15" "rev_index 4 13 = 14" "rev_index 4 14 = 13" "rev_index 4 15 = 12"
  by (simp_all add: rev_index_def)

lemma swapped_four:
  "swapped 2 4 orig target m = wr m target
     [m (orig + 1), m orig, m (orig + 3), m (orig + 2), m (orig + 5), m (orig + 4), m (orig + 7), m (orig + 6)]"
  "swapped 4 4 orig target m = wr m target
     [m (orig + 3), m (orig + 2), m (orig + 1), m orig, m (orig + 7), m (orig + 6), m (orig + 5), m (orig + 4),
      m (orig + 11), m (orig + 10), m (orig + 9), m (orig + 8), m (orig + 15), m (orig + 14), m (orig + 13), m (orig + 12)]"
  by (simp_all add: swapped_def upt_8_16 rev_index_values)

lemma shuffle16_bytes [byte_simps]:
  "le_split 2 (push_bit 8 u OR drop_bit 8 u :: u16) = rev (le_split 2 u)"
  by (simp add: le_split_list) (auto intro!: bit_word_eqI simp: bit_simps)

lemma shuffle32_bytes [byte_simps]: "le_split 4 (shuffle32 x) = rev (le_split 4 x)"
  by (simp add: le_split_list shuffle32_def masks32) (auto intro!: bit_word_eqI simp: bit_simps)

lemma load_bytes [byte_simps]:
  "le_split 2 (load16 m a) = rd m a 2"
  "le_split 4 (load32 m a) = rd m a 4"
  "le_split 8 (load64 m a) = rd m a 8"
  by (simp_all add: load16_def load32_def load64_def le_split_join)

lemmas store_defs = store16_def store32_def store64_def

lemma wr_wr_at [mem_simps]:
  "c = a + length bs \<Longrightarrow> wr (wr m a bs) c cs = wr m a (bs @ cs)"
  by (simp add: wr_wr_append)

interpretation s2p: element_swapper 2 swap_2_p "\<lambda>_ _. True"
  by unfold_locales (simp_all add: swap_2_p_def store_defs byte_simps swapped_one)

interpretation s2x: element_swapper 2 swap_2_x "\<lambda>_ _. True"
  by unfold_locales (simp_all add: swap_2_x_def store_defs byte_simps swapped_one rol8_bytes)

interpretation s4p: element_swapper 4 swap_4_p "\<lambda>_ _. True"
  by unfold_locales (simp_all add: swap_4_p_def store_defs byte_simps swapped_one)

interpretation s4x: element_swapper 4 swap_4_x "\<lambda>_ _. True"
  by unfold_locales (simp_all add: swap_4_x_def store_defs byte_simps swapped_one)

lemma rd_8_4: "rd m a 8 = rd m a 4 @ rd m (a + 4) 4"
  using rd_add [of m a 4 4] by simp

interpretation s8p: element_swapper 8 swap_8_p "\<lambda>_ _. True"
  by unfold_locales
    (simp_all add: swap_8_p_def Let_def store_defs byte_simps swapped_one mem_simps rd_8_4)

interpretation s8x: element_swapper 8 swap_8_x "\<lambda>_ _. True"
  by unfold_locales (simp_all add: swap_8_x_def store_defs byte_simps swapped_one)

lemma shuffle64_bytes [byte_simps]: "le_split 8 (shuffle64 x) = rev (le_split 8 x)"
  unfolding shuffle64_def Let_def masks64
  by (simp add: le_split_list) (auto intro!: bit_word_eqI simp: bit_simps)

interpretation s8l: element_swapper 8 swap_8_l "\<lambda>_ _. True"
  by unfold_locales (simp_all add: swap_8_l_def store_defs byte_simps swapped_one)

lemma swap_16_swaps:
  assumes "\<And>a b m. swap8 a b m = swapped 8 1 a b m"
    and "target + 8 \<le> orig \<or> orig + 8 \<le> target"
  shows "swap_16 swap8 orig target m = swapped 16 1 orig target m"
proof -
  have r: "rd (wr m target bs) orig 8 = rd m orig 8" if "length bs = 8" for bs
    using assms(2) that by (auto simp: rd_def wr_apply)
  have "rev (rd m orig 16) = rev (rd m (orig + 8) 8) @ rev (rd m orig 8)"
    using rd_add [of m orig 8 8] by simp
  then show ?thesis
    by (simp add: swap_16_def assms(1) swapped_one r mem_simps)
qed

text \<open>The chunks of four elements.\<close>

lemma numeral_add: "numeral k + a = a + (numeral k :: nat)"
  by (rule add.commute)

lemma chunk_2_aligned_x: "chunk_2_aligned_x orig target m = swapped 2 4 orig target m"
  by (simp add: chunk_2_aligned_x_def Let_def store_defs byte_simps rol16_bytes mem_simps
      rd_list swapped_four numeral_add [of _ orig] numeral_add [of _ target])

lemma low_half_bytes:
  "le_split 2 (ucast (a AND 0xffff :: u32) :: u16) = take 2 (le_split 4 a)"
  "take 2 (le_split 4 (drop_bit 16 a :: u32)) = drop 2 (le_split 4 a)"
  "le_split 2 (ucast (drop_bit 16 a :: u32) :: u16) = drop 2 (le_split 4 a)"
  by (simp_all add: le_split_list masks32) (auto intro!: bit_word_eqI simp: bit_simps)

lemma low_half_bytes64:
  "le_split 4 (ucast (a AND 0xffffffff :: u64) :: u32) = take 4 (le_split 8 a)"
  "le_split 4 (ucast (drop_bit 32 a :: u64) :: u32) = drop 4 (le_split 8 a)"
  by (simp_all add: le_split_list masks64) (auto intro!: bit_word_eqI simp: bit_simps)

lemma wr_four:
  "wr (wr (wr (wr m (Suc (Suc t)) [a, b]) (t + 6) [c, d]) t [e, f]) (t + 4) [g, h] =
     wr m t [e, f, a, b, g, h, c, d]"
proof -
  have "wr (wr (wr (wr m (Suc (Suc t)) [a, b]) (t + 6) [c, d]) t [e, f]) (t + 4) [g, h] =
      wr (wr (wr (wr m t [e, f]) (Suc (Suc t)) [a, b]) (t + 4) [g, h]) (t + 6) [c, d]"
    by (simp add: wr_commute [of "t + 6" "[c, d]"] wr_commute [of "Suc (Suc t)" "[a, b]" t])
  then show ?thesis by (simp add: mem_simps)
qed

lemma chunk_2_unaligned_x: "chunk_2_unaligned_x orig target m = swapped 2 4 orig target m"
  by (simp add: chunk_2_unaligned_x_def Let_def store_defs byte_simps low_half_bytes
      rd_list swapped_four numeral_add wr_four)

lemma pair_swap_bytes:
  "le_split 4 (swap_pairs32 a) =
     [le_split 4 a ! 1, le_split 4 a ! 0, le_split 4 a ! 3, le_split 4 a ! 2]"
  by (simp add: le_split_list swap_pairs32_def masks32) (auto intro!: bit_word_eqI simp: bit_simps)

lemma chunk_2_aligned_p: "chunk_2_aligned_p orig target m = swapped 2 4 orig target m"
  by (simp add: chunk_2_aligned_p_def Let_def store_defs pair_swap_bytes load_bytes mem_simps
      rd_list swapped_four numeral_add [of _ orig] numeral_add [of _ target])

lemma chunk_2_unaligned_p: "chunk_2_unaligned_p True orig target m = swapped 2 4 orig target m"
  by (simp add: chunk_2_unaligned_p_def Let_def store_defs pair_swap_bytes low_half_bytes load_bytes
      mem_simps rd_list swapped_four numeral_add [of _ orig] numeral_add [of _ target])

lemma chunk_4_aligned_x: "chunk_4_aligned_x orig target m = swapped 4 4 orig target m"
  by (simp add: chunk_4_aligned_x_def Let_def store_defs byte_simps rol32_bytes mem_simps
      rd_list swapped_four numeral_add [of _ orig] numeral_add [of _ target])

lemma chunk_4_unaligned_x: "chunk_4_unaligned_x True orig target m = swapped 4 4 orig target m"
  by (simp add: chunk_4_unaligned_x_def Let_def store_defs byte_simps rol32_bytes low_half_bytes64
      mem_simps rd_list swapped_four numeral_add [of _ orig] numeral_add [of _ target])

lemma chunk_4_p: "chunk_4_p orig target m = swapped 4 4 orig target m"
  by (simp add: chunk_4_p_def Let_def store_defs shuffle32_bytes load_bytes mem_simps
      rd_list swapped_four numeral_add [of _ orig] numeral_add [of _ target])

interpretation a2x: array_swapper 2 swap_2_x chunk_2_aligned_x
  by unfold_locales (rule chunk_2_aligned_x)
interpretation u2x: array_swapper 2 swap_2_x chunk_2_unaligned_x
  by unfold_locales (rule chunk_2_unaligned_x)
interpretation a2p: array_swapper 2 swap_2_p chunk_2_aligned_p
  by unfold_locales (rule chunk_2_aligned_p)
interpretation u2p: array_swapper 2 swap_2_p "chunk_2_unaligned_p True"
  by unfold_locales (rule chunk_2_unaligned_p)
interpretation a4x: array_swapper 4 swap_4_x chunk_4_aligned_x
  by unfold_locales (rule chunk_4_aligned_x)
interpretation u4x: array_swapper 4 swap_4_x "chunk_4_unaligned_x True"
  by unfold_locales (rule chunk_4_unaligned_x)
interpretation c4p: array_swapper 4 swap_4_p chunk_4_p
  by unfold_locales (rule chunk_4_p)

section \<open>The array routines keep the contract\<close>

lemma mask_2: "(3 :: 'a::len word) = mask 2"
  by (simp add: mask_eq_exp_minus_1)

lemma unat_AND_3: "unat (n AND 3 :: 'a::len word) = unat n mod 4"
proof -
  have "unat (n AND 3) = unat (take_bit 2 n)" by (simp only: mask_2 take_bit_eq_mask)
  also have "\<dots> = take_bit 2 (unat n)" by (simp only: unsigned_take_bit_eq)
  finally show ?thesis by (simp add: take_bit_eq_mod)
qed

lemma unat_AND_NOT_mask:
  "unat (n AND NOT (mask k) :: 'a::len word) = 2 ^ k * (unat n div 2 ^ k)"
proof -
  have "n AND NOT (mask k) = push_bit k (drop_bit k n)"
    by (rule bit_word_eqI) (auto simp: bit_simps not_less)
  moreover have "take_bit LENGTH('a) (unat n) = unat n" by (rule take_bit_nat_eq_self) simp
  ultimately have "unat (n AND NOT (mask k)) = take_bit LENGTH('a) (2 ^ k * (unat n div 2 ^ k))"
    by (simp only: unsigned_push_bit_eq unsigned_drop_bit_eq)
      (simp add: push_bit_eq_mult drop_bit_eq_div mult.commute)
  moreover have "2 ^ k * (unat n div 2 ^ k) < 2 ^ LENGTH('a)"
    using unsigned_less [of n, where ?'a = nat] by (rule le_less_trans [rotated]) simp
  ultimately show ?thesis by (simp add: take_bit_nat_eq_self)
qed

lemma unat_AND_NOT_3: "unat (n AND NOT 3 :: 'a::len word) = 4 * (unat n div 4)"
  using unat_AND_NOT_mask [of n 2] by (simp only: mask_2) simp

lemma PTR_ALIGN_eq_iff:
  assumes "p + 2 ^ k \<le> 2 ^ LENGTH('p::len)"
  shows "p = PTR_ALIGN_BINARY TYPE('p) p (2 ^ k) \<longleftrightarrow> p mod 2 ^ k = 0"
proof -
  have m: "(word_of_nat (2 ^ k) - 1 :: 'p word) = mask k"
    by (simp add: mask_eq_exp_minus_1)
  have "unat (word_of_nat p + mask k :: 'p word) = p + 2 ^ k - 1"
  proof -
    have "word_of_nat p + mask k = (word_of_nat (p + 2 ^ k - 1) :: 'p word)"
      using of_nat_diff [of 1 "p + 2 ^ k", where 'a = "'p word"]
      by (simp add: mask_eq_exp_minus_1 trans_le_add2)
    moreover have "p + 2 ^ k - Suc 0 < 2 ^ LENGTH('p)"
    proof -
      have "1 \<le> p + 2 ^ k" by (simp add: trans_le_add2)
      with assms show ?thesis by arith
    qed
    ultimately show ?thesis by (simp add: unsigned_of_nat take_bit_nat_eq_self)
  qed
  then have "PTR_ALIGN_BINARY TYPE('p) p (2 ^ k) = 2 ^ k * ((p + 2 ^ k - 1) div 2 ^ k)"
    by (simp only: PTR_ALIGN_BINARY_def ALIGN_BINARY_def Let_def m unat_AND_NOT_mask)
  moreover have "p = 2 ^ k * ((p + 2 ^ k - 1) div 2 ^ k) \<longleftrightarrow> p mod 2 ^ k = 0"
  proof
    assume "p = 2 ^ k * ((p + 2 ^ k - 1) div 2 ^ k)"
    then show "p mod 2 ^ k = 0" by (metis mod_mult_self1_is_0)
  next
    assume "p mod 2 ^ k = 0"
    then have "2 ^ k dvd p" by (simp add: dvd_eq_mod_eq_0)
    then obtain q where q: "p = 2 ^ k * q" by (rule dvdE)
    have "2 ^ k * q + 2 ^ k - 1 = (2 ^ k - 1) + 2 ^ k * (q :: nat)"
      using one_le_power [of "2 :: nat" k] by arith
    moreover have "((2 ^ k - 1) + 2 ^ k * q) div 2 ^ k = q + (2 ^ k - 1) div 2 ^ k"
      by (rule div_mult_self2) simp
    moreover have "(2 ^ k - 1) div 2 ^ k = (0 :: nat)" by simp
    ultimately have "(2 ^ k * q + 2 ^ k - 1) div 2 ^ k = (q :: nat)" by simp
    then show "p = 2 ^ k * ((p + 2 ^ k - 1) div 2 ^ k)" by (simp add: q)
  qed
  ultimately show ?thesis by metis
qed

lemma chunk_end_eq: "chunk_end w orig n = orig + w * (4 * (unat n div 4))"
  by (simp only: chunk_end_def unat_AND_NOT_3)

lemma unat_minus_1: "n \<noteq> 0 \<Longrightarrow> unat (n - 1) = unat n - (1::nat)"
  by (simp add: unat_minus_one)

lemma head_swaps:
  assumes "apart w (Suc k) orig target" and "0 < w"
  shows "apart w k (orig + w) (target + w)"
    and "swapped w k (orig + w) (target + w) (swapped w 1 orig target m) =
      swapped w (Suc k) orig target m"
  using apart_sub [OF assms(1), of 1 k] swapped_add [of w 1 k orig target m] assms by simp_all

lemma swap_2_array_x_swaps_gen:
  assumes "apart 2 (unat n) orig target"
  shows "swap_2_array_x orig target n m = swapped 2 (unat n) orig target m"
proof (cases "n = 0")
  case True
  then show ?thesis by (simp add: swap_2_array_x_def)
next
  case False
  then obtain k where k: "unat n = Suc k" by (metis not0_implies_Suc unat_eq_zero)
  then have n1: "unat (n - 1) = k" "n = 1 \<Longrightarrow> k = 0" using False by (auto simp: unat_minus_1)
  show ?thesis
  proof (cases "orig = PTR_ALIGN_BINARY TYPE(64) orig 4")
    case True
    then show ?thesis
      using False a2x.body_swaps [OF assms, of m] u2x.body_swaps [OF assms, of m]
      by (simp add: swap_2_array_x_def Let_def chunk_end_eq unat_AND_3)
  next
    case unaligned: False
    note h = head_swaps [OF assms [unfolded k]]
    show ?thesis
      using False unaligned a2x.body_swaps [OF h(1)] u2x.body_swaps [OF h(1)] h(2)
      by (simp add: swap_2_array_x_def Let_def chunk_end_eq unat_AND_3 n1 k s2x.chunk split: if_splits)
  qed
qed


text \<open>
  \<open>swap_2_array\<close> of the x86-64 build, with its head for a misaligned source, its unrolled
  loop for an aligned or a misaligned target and its fall-through tail, is the reference that
  reverses the bytes of every element and touches nothing else, for every alignment of the two
  pointers, in place or between ranges that do not meet.
\<close>

theorem swap_2_array_x_swaps:
  assumes "apart 2 (unat n) orig target"
  shows "swap_2_array_x orig target n m = swapped 2 (unat n) orig target m"
  using assms by (rule swap_2_array_x_swaps_gen)

theorem swap_2_array_x_swaps_witness:
  "apart 2 (unat (5 :: u64)) 3 3 \<and>
     swap_2_array_x 3 3 5 (\<lambda>a. word_of_nat a) = swapped 2 5 3 3 (\<lambda>a. word_of_nat a)"
proof -
  have "apart 2 (unat (5 :: u64)) 3 3" by (simp add: apart_def)
  then show ?thesis using swap_2_array_x_swaps [of 5 3 3 "\<lambda>a. word_of_nat a"] by simp
qed

lemma swap_2_array_p_swaps_gen:
  assumes "apart 2 (unat n) orig target"
    and "le_macro \<or> (orig + 4 \<le> 2 ^ 32 \<and> target + 4 * unat n + 4 \<le> 2 ^ 32
           \<and> even orig \<and> orig mod 4 = target mod 4)"
  shows "swap_2_array_p le_macro orig target n m = swapped 2 (unat n) orig target m"
proof (cases "n = 0")
  case True
  then show ?thesis by (simp add: swap_2_array_p_def)
next
  case False
  then obtain k where k: "unat n = Suc k" by (metis not0_implies_Suc unat_eq_zero)
  then have n1: "unat (n - 1) = k" "n = 1 \<Longrightarrow> k = 0" using False by (auto simp: unat_minus_1)
  show ?thesis
  proof (cases "orig = PTR_ALIGN_BINARY TYPE(32) orig 4")
    case True
    then have "le_macro \<or> target = PTR_ALIGN_BINARY TYPE(32) target 4"
      using assms(2) PTR_ALIGN_eq_iff [of orig 2, where 'p = 32]
        PTR_ALIGN_eq_iff [of target 2, where 'p = 32] by auto
    then show ?thesis
      using True False a2p.body_swaps [OF assms(1), of m] u2p.body_swaps [OF assms(1), of m]
      by (auto simp add: swap_2_array_p_def Let_def chunk_end_eq unat_AND_3)
  next
    case unaligned: False
    have "le_macro \<or> target + 2 = PTR_ALIGN_BINARY TYPE(32) (target + 2) 4"
    proof (cases le_macro)
      case False
      with assms(2) unaligned have "even orig" "orig mod 4 \<noteq> 0" "orig mod 4 = target mod 4"
        using PTR_ALIGN_eq_iff [of orig 2, where 'p = 32] by auto
      then have "(target + 2) mod 4 = 0" by presburger
      moreover have "target + 2 + 4 \<le> 2 ^ 32" using assms(2) False k by simp
      ultimately show ?thesis
        using PTR_ALIGN_eq_iff [of "target + 2" 2, where 'p = 32] by simp
    qed simp
    note u = this
    note h = head_swaps [OF assms(1) [unfolded k]]
    show ?thesis
      using u False unaligned a2p.body_swaps [OF h(1)] u2p.body_swaps [OF h(1)] h(2)
      by (auto simp add: swap_2_array_p_def Let_def chunk_end_eq unat_AND_3 n1 k s2p.chunk
          split: if_splits)
  qed
qed

text \<open>
  \<open>swap_2_array\<close> as the 32-bit ARM build compiles it (\<open>YAT_LITTLE_ENDIAN\<close> undefined) is the
  same reference when source and target are even and equally aligned.
\<close>

theorem swap_2_array_p_swaps:
  assumes "apart 2 (unat n) orig target"
    and "orig + 4 \<le> 2 ^ 32" and "target + 4 * unat n + 4 \<le> 2 ^ 32"
    and "even orig" and "orig mod 4 = target mod 4"
  shows "swap_2_array_p YAT_LITTLE_ENDIAN orig target n m = swapped 2 (unat n) orig target m"
  using assms by (intro swap_2_array_p_swaps_gen) auto

theorem swap_2_array_p_swaps_witness:
  "swap_2_array_p YAT_LITTLE_ENDIAN 2 18 6 (\<lambda>a. word_of_nat a) = swapped 2 6 2 18 (\<lambda>a. word_of_nat a)"
  using swap_2_array_p_swaps [of 6 2 18 "\<lambda>a. word_of_nat a"] by (simp add: apart_def)

lemma mod_8_4: "n mod 4 = 0 \<Longrightarrow> n mod 8 \<noteq> 0 \<Longrightarrow> n mod 8 = (4 :: nat)"
  by presburger

lemma mod_8_add_4: "n mod 8 = 4 \<Longrightarrow> (n + 4) mod 8 = (0 :: nat)"
  by presburger

lemma swap_4_array_x_swaps_gen:
  assumes "apart 4 (unat n) orig target"
    and "le_macro \<or> (orig + 8 \<le> 2 ^ 64 \<and> target + 4 * unat n + 8 \<le> 2 ^ 64
           \<and> orig mod 4 = 0 \<and> orig mod 8 = target mod 8)"
  shows "swap_4_array_x le_macro orig target n m = swapped 4 (unat n) orig target m"
proof (cases "n = 0")
  case True
  then show ?thesis by (simp add: swap_4_array_x_def)
next
  case False
  then obtain k where k: "unat n = Suc k" by (metis not0_implies_Suc unat_eq_zero)
  then have n1: "unat (n - 1) = k" "n = 1 \<Longrightarrow> k = 0" using False by (auto simp: unat_minus_1)
  show ?thesis
  proof (cases "orig = PTR_ALIGN_BINARY TYPE(64) orig 8")
    case True
    then have "le_macro \<or> target = PTR_ALIGN_BINARY TYPE(64) target 8"
      using assms(2) PTR_ALIGN_eq_iff [of orig 3, where 'p = 64]
        PTR_ALIGN_eq_iff [of target 3, where 'p = 64] by auto
    then show ?thesis
      using True False a4x.body_swaps [OF assms(1), of m] u4x.body_swaps [OF assms(1), of m]
      by (auto simp add: swap_4_array_x_def Let_def chunk_end_eq unat_AND_3)
  next
    case unaligned: False
    have "le_macro \<or> target + 4 = PTR_ALIGN_BINARY TYPE(64) (target + 4) 8"
    proof (cases le_macro)
      case False
      with assms(2) unaligned have "orig mod 4 = 0" "orig mod 8 \<noteq> 0" "orig mod 8 = target mod 8"
        using PTR_ALIGN_eq_iff [of orig 3, where 'p = 64] by auto
      then have "target mod 8 = 4" by (metis mod_8_4)
      then have "(target + 4) mod 8 = 0" by (rule mod_8_add_4)
      moreover have "target + 4 + 8 \<le> 2 ^ 64" using assms(2) False k by simp
      ultimately show ?thesis
        using PTR_ALIGN_eq_iff [of "target + 4" 3, where 'p = 64] by simp
    qed simp
    note u = this
    note h = head_swaps [OF assms(1) [unfolded k]]
    show ?thesis
      using u False unaligned a4x.body_swaps [OF h(1)] u4x.body_swaps [OF h(1)] h(2)
      by (auto simp add: swap_4_array_x_def Let_def chunk_end_eq unat_AND_3 n1 k s4x.chunk
          split: if_splits)
  qed
qed

text \<open>
  \<open>swap_4_array\<close> as the x86-64 build compiles it reverses the bytes of every 4-byte element
  when source and target are 4-aligned and equally aligned modulo 8.
\<close>

theorem swap_4_array_x_swaps:
  assumes "apart 4 (unat n) orig target"
    and "orig + 8 \<le> 2 ^ 64" and "target + 4 * unat n + 8 \<le> 2 ^ 64"
    and "orig mod 4 = 0" and "orig mod 8 = target mod 8"
  shows "swap_4_array_x YAT_LITTLE_ENDIAN orig target n m = swapped 4 (unat n) orig target m"
  using assms by (intro swap_4_array_x_swaps_gen) auto

theorem swap_4_array_x_swaps_witness:
  "swap_4_array_x YAT_LITTLE_ENDIAN 4 4 7 (\<lambda>a. word_of_nat a) = swapped 4 7 4 4 (\<lambda>a. word_of_nat a)"
  using swap_4_array_x_swaps [of 7 4 4 "\<lambda>a. word_of_nat a"] by (simp add: apart_def)

text \<open>
  For a target that is 4-aligned but not 8-aligned the same routine writes the elements of
  every pair in the wrong order: the code tests \<open>YAT_LITTLE_ENDIAN\<close>, which no header of the
  library defines, and takes the big-endian branch on this little-endian host. Stated for one
  chunk of four elements.
\<close>

theorem swap_4_array_x_misorders:
  assumes "orig mod 8 = 0" and "target mod 8 = 4"
    and "orig + 8 \<le> 2 ^ 64" and "target + 8 \<le> 2 ^ 64"
  shows "swap_4_array_x YAT_LITTLE_ENDIAN orig target 4 m = wr m target
     (rev (rd m (orig + 4) 4) @ rev (rd m orig 4) @ rev (rd m (orig + 12) 4) @ rev (rd m (orig + 8) 4))"
proof -
  have o8: "orig = PTR_ALIGN_BINARY TYPE(64) orig 8"
    using PTR_ALIGN_eq_iff [of orig 3, where 'p = 64] assms by simp
  have t8: "target \<noteq> PTR_ALIGN_BINARY TYPE(64) target 8"
    using PTR_ALIGN_eq_iff [of target 3, where 'p = 64] assms by simp
  have c: "chunk_4_unaligned_x False orig target m = wr m target
     (rev (rd m (orig + 4) 4) @ rev (rd m orig 4) @ rev (rd m (orig + 12) 4) @ rev (rd m (orig + 8) 4))"
    by (simp add: chunk_4_unaligned_x_def Let_def store_defs byte_simps rol32_bytes low_half_bytes64
      mem_simps rd_list numeral_add [of _ orig] numeral_add [of _ target])
  have "(4 :: u64) AND NOT 3 = 4" "(4 :: u64) AND 3 = 0" by simp_all
  then show ?thesis using o8 [symmetric] t8 c
    by (simp add: swap_4_array_x_def Let_def chunk_end_def chunk_loop.simps switch3_def
        YAT_LITTLE_ENDIAN_def)
qed

theorem swap_4_array_x_misorders_witness:
  "rd (swap_4_array_x YAT_LITTLE_ENDIAN 0 20 4 (\<lambda>a. word_of_nat a)) 20 8 = [7, 6, 5, 4, 3, 2, 1, 0]"
  using swap_4_array_x_misorders [of 0 20 "\<lambda>a. word_of_nat a"]
  by (simp add: rd_list wr_apply)

text \<open>\<open>swap_4_array\<close> of the 32-bit ARM build is the reference for every alignment.\<close>

theorem swap_4_array_p_swaps:
  assumes "apart 4 (unat n) orig target"
  shows "swap_4_array_p orig target n m = swapped 4 (unat n) orig target m"
  using c4p.body_swaps [OF assms, of m]
  by (auto simp add: swap_4_array_p_def Let_def chunk_end_eq unat_AND_3 unat_eq_zero)

theorem swap_4_array_p_swaps_witness:
  "swap_4_array_p 1 1 6 (\<lambda>a. word_of_nat a) = swapped 4 6 1 1 (\<lambda>a. word_of_nat a)"
  using swap_4_array_p_swaps [of 6 1 1 "\<lambda>a. word_of_nat a"] by (simp add: apart_def)

lemma s8_loop:
  assumes "\<And>a b m. swap8 a b m = swapped 8 1 a b m" and "apart 8 n orig target"
  shows "chunk_loop 8 swap8 orig target (orig + 8 * n) m =
    (orig + 8 * n, target + 8 * n, swapped 8 n orig target m)"
proof -
  have "region_swapper 8 1 swap8 (\<lambda>_ _. True)"
    by unfold_locales (simp_all add: assms(1))
  from region_swapper.loop_swaps [OF this, of n orig target m] show ?thesis
    using assms(2) by simp
qed

text \<open>
  \<open>swap_8_array\<close> of both builds reverses the bytes of each 8-byte element, in place or
  between ranges that do not meet.
\<close>

theorem swap_8_array_swaps:
  assumes "apart 8 (unat n) orig target"
  shows "swap_8_array swap_8_x orig target n m = swapped 8 (unat n) orig target m \<and>
    swap_8_array swap_8_p orig target n m = swapped 8 (unat n) orig target m"
  using s8_loop [OF _ assms, of swap_8_x m] s8_loop [OF _ assms, of swap_8_p m]
  by (auto simp: swap_8_array_def s8x.chunk s8p.chunk)

theorem swap_8_array_swaps_witness:
  "swap_8_array swap_8_x 8 8 (2 :: u64) (\<lambda>a. word_of_nat a) = swapped 8 2 8 8 (\<lambda>a. word_of_nat a)
   \<and> swap_8_array swap_8_p 0 32 (2 :: u32) (\<lambda>a. word_of_nat a) = swapped 8 2 0 32 (\<lambda>a. word_of_nat a)"
  using swap_8_array_swaps [of "2 :: u64" 8 8 "\<lambda>a. word_of_nat a"]
    swap_8_array_swaps [of "2 :: u32" 0 32 "\<lambda>a. word_of_nat a"]
  by (simp add: apart_def)

text \<open>\<open>swap_16_array\<close> keeps the contract between ranges that do not meet.\<close>

lemma swap_16_array_swaps_gen:
  assumes s: "\<And>a b m. swap8 a b m = swapped 8 1 a b m"
    and "orig + 16 * unat n \<le> target \<or> target + 16 * unat n \<le> orig"
  shows "swap_16_array swap8 orig target n m = swapped 16 (unat n) orig target m"
proof -
  have rs: "region_swapper 16 1 (swap_16 swap8) (\<lambda>o' t. t + 8 \<le> o' \<or> o' + 8 \<le> t)"
    by unfold_locales (use swap_16_swaps [OF s] in simp_all)
  have ap: "apart 16 (1 * unat n) orig target" using assms(2) by (auto simp: apart_def)
  have ok: "target + 16 * 1 * i + 8 \<le> orig + 16 * 1 * i \<or> orig + 16 * 1 * i + 8 \<le> target + 16 * 1 * i"
    if "i < unat n" for i
    using assms(2) that by auto
  show ?thesis
    using region_swapper.loop_swaps [OF rs ap, of m] ok by (simp add: swap_16_array_def unat_eq_zero)
qed

text \<open>
  \<open>swap_16\<close> called in place, as \<open>operator>>\<close> of the bit stream calls it for 16-byte values, does
  not reverse them: it overwrites the low half before reading it, so both halves of the result
  come from the high half of the input.
\<close>

theorem swap_16_in_place:
  "swap_16 swap_8_x a a m = wr m a (rev (rd m (a + 8) 8) @ rd m (a + 8) 8)"
proof -
  have "rd (wr m a (rev (rd m (a + 8) 8))) a 8 = rev (rd m (a + 8) 8)"
    by (simp add: rd_wr_same)
  then show ?thesis
    by (simp add: swap_16_def s8x.chunk swapped_one mem_simps)
qed

lemma rev_index_invol: "k < w * n \<Longrightarrow> rev_index w (rev_index w k) = k"
proof -
  assume k: "k < w * n"
  then have w: "0 < w" by (cases w) auto
  define r where "r = w - 1 - k mod w"
  have m: "k mod w < w" using w by simp
  then have r: "r < w" using w unfolding r_def by arith
  have "rev_index w k = (k div w) * w + r" by (simp add: rev_index_def r_def)
  then have "rev_index w (rev_index w k) = (k div w) * w + (w - 1 - r)"
    using r by (simp add: rev_index_def)
  also have "w - 1 - r = k mod w" using m unfolding r_def by arith
  finally show ?thesis by simp
qed

lemma swapped_invol: "swapped w n a a (swapped w n a a m) = m"
proof (rule ext)
  fix x
  show "swapped w n a a (swapped w n a a m) x = m x"
  proof (cases "a \<le> x \<and> x < a + w * n")
    case True
    then have "x - a < w * n" by arith
    with True show ?thesis
      using rev_index_invol [of "x - a" w n] rev_index_less [of "x - a" w n]
      by (simp add: swapped_apply)
  next
    case False
    then show ?thesis by (auto simp: swapped_apply)
  qed
qed

text \<open>Swapping an array in place twice gives back the memory, on x86-64.\<close>

theorem swap_array_twice:
  assumes "a + 8 \<le> 2 ^ 64" and "a + 4 * unat n + 8 \<le> 2 ^ 64" and "a mod 4 = 0"
  shows "swap_2_array_x a a n (swap_2_array_x a a n m) = m \<and>
    swap_4_array_x YAT_LITTLE_ENDIAN a a n (swap_4_array_x YAT_LITTLE_ENDIAN a a n m) = m \<and>
    swap_8_array swap_8_x a a n (swap_8_array swap_8_x a a n m) = m"
proof -
  have ap: "apart w k a a" for w k by (simp add: apart_def)
  have s4: "swap_4_array_x YAT_LITTLE_ENDIAN a a n m = swapped 4 (unat n) a a m" for m
    by (rule swap_4_array_x_swaps_gen [OF ap]) (use assms in \<open>auto simp: YAT_LITTLE_ENDIAN_def\<close>)
  have s8: "swap_8_array swap_8_x a a n m = swapped 8 (unat n) a a m" for m
    using s8_loop [OF _ ap, of swap_8_x] by (auto simp: swap_8_array_def s8x.chunk)
  show ?thesis by (simp add: swap_2_array_x_swaps_gen [OF ap] s4 s8 swapped_invol)
qed

theorem swap_array_twice_witness:
  "swap_4_array_x YAT_LITTLE_ENDIAN 4 4 3 (swap_4_array_x YAT_LITTLE_ENDIAN 4 4 3 (\<lambda>a. word_of_nat a)) = (\<lambda>a. word_of_nat a)"
  using swap_array_twice [of 4 3 "\<lambda>a. word_of_nat a"] by simp

end
