(* ===== verification/BitsStream.thy ===== *)
theory BitsStream
  imports Endianness
begin

text \<open>
  The bit stream reader of \<open>include/yat/bitsstream/BitsStream.h\<close>, for the 64-bit build
  (\<open>BitsStorage\<close> is \<open>uint64\<close>). The data buffer is a list of bytes, or \<open>None\<close> for a null pointer.
  A function returns \<open>None\<close> where the C++ has undefined behaviour: a shift by 64 bits or more, or
  a read past the buffer. \<open>spec_read\<close> is the abstract reader on natural numbers that the word
  level loop refines.
\<close>

section \<open>\<open>BitsSet\<close>\<close>

text \<open>
  \<open>BitsSet<n, T>\<close> is a value of the integral type \<open>T\<close>, here \<open>'t word\<close>; the number of bits is the
  argument of the operations that use it.
\<close>

record 't bits_set =
  m_value :: 't

definition bs_assign :: "'t bits_set \<Rightarrow> 't bits_set \<Rightarrow> 't bits_set" where
  "bs_assign self src = (if self = src then self else self\<lparr>m_value := m_value src\<rparr>)"

definition bs_assign_value :: "'t bits_set \<Rightarrow> 't \<Rightarrow> 't bits_set" where
  "bs_assign_value self src = self\<lparr>m_value := src\<rparr>"

definition bs_or :: "'t::len word bits_set \<Rightarrow> 't word bits_set \<Rightarrow> 't word bits_set" where
  "bs_or self src = self\<lparr>m_value := m_value self OR m_value src\<rparr>"

definition bs_or_value :: "'t::len word bits_set \<Rightarrow> 't word \<Rightarrow> 't word bits_set" where
  "bs_or_value self src = self\<lparr>m_value := m_value self OR src\<rparr>"

definition bs_and :: "'t::len word bits_set \<Rightarrow> 't word bits_set \<Rightarrow> 't word bits_set" where
  "bs_and self src = self\<lparr>m_value := m_value self AND m_value src\<rparr>"

definition bs_and_value :: "'t::len word bits_set \<Rightarrow> 't word \<Rightarrow> 't word bits_set" where
  "bs_and_value self src = self\<lparr>m_value := m_value self AND src\<rparr>"

text \<open>\<open>to_string\<close> prints the low \<open>n\<close> bits of \<open>static_cast<BitsStorage>(m_value)\<close>, highest first.\<close>

definition bs_to_string :: "nat \<Rightarrow> 't::len word bits_set \<Rightarrow> string" where
  "bs_to_string n self =
     (let v = ucast (m_value self) :: u64
      in map (\<lambda>i. if bit v i then CHR ''1'' else CHR ''0'') (rev [0..<n]))"

section \<open>The stream\<close>

record bits_stream =
  m_current_byte :: u64
  m_bits_in_current_byte :: int
  m_ibuffer :: "byte list option"
  m_ibuffer_size :: nat
  m_ibuffer_ptr :: nat
  m_endianness :: byte_order

definition BitsStream_ctor :: "byte list option \<Rightarrow> nat \<Rightarrow> byte_order \<Rightarrow> bits_stream" where
  "BitsStream_ctor data sz endianness =
     \<lparr>m_current_byte = 0, m_bits_in_current_byte = 0, m_ibuffer = data, m_ibuffer_size = sz,
      m_ibuffer_ptr = 0, m_endianness = endianness\<rparr>"

definition input_data :: "byte list option \<Rightarrow> nat \<Rightarrow> bits_stream \<Rightarrow> bits_stream" where
  "input_data data sz s =
     (if data \<noteq> None
      then s\<lparr>m_ibuffer := data, m_ibuffer_size := sz, m_ibuffer_ptr := 0,
             m_current_byte := 0, m_bits_in_current_byte := 0\<rparr>
      else s)"

definition is_big_endian :: "bits_stream \<Rightarrow> bool" where
  "is_big_endian s \<longleftrightarrow> m_endianness s = BO_BIG_ENDIAN"

definition is_little_endian :: "bits_stream \<Rightarrow> bool" where
  "is_little_endian s \<longleftrightarrow> m_endianness s = BO_LITTLE_ENDIAN"

text \<open>Shifts of a \<open>BitsStorage\<close>: defined for amounts from 0 to 63 only.\<close>

definition shl :: "u64 \<Rightarrow> int \<Rightarrow> u64 option" where
  "shl w k = (if 0 \<le> k \<and> k < 64 then Some (push_bit (nat k) w) else None)"

definition shr :: "u64 \<Rightarrow> int \<Rightarrow> u64 option" where
  "shr w k = (if 0 \<le> k \<and> k < 64 then Some (drop_bit (nat k) w) else None)"

text \<open>\<open>*_bits |= v\<close> under the test \<open>if (_bits)\<close>: \<open>bits\<close> is \<open>None\<close> for a null pointer.\<close>

definition or_bits :: "u64 option \<Rightarrow> u64 option \<Rightarrow> u64 option option" where
  "or_bits bits v =
     (case bits of None \<Rightarrow> Some None
      | Some b \<Rightarrow> (case v of None \<Rightarrow> None | Some w \<Rightarrow> Some (Some (b OR w))))"

text \<open>The \<open>while\<close> loop of \<open>read_bits_i\<close>; the first component of the result is \<open>retval\<close>.\<close>

function read_loop :: "byte list \<Rightarrow> int \<Rightarrow> u64 option \<Rightarrow> bits_stream
    \<Rightarrow> (bool \<times> int \<times> u64 option \<times> bits_stream) option" where
  "read_loop buf num bits s =
     (if num > m_bits_in_current_byte s then
        (case or_bits bits (shl (m_current_byte s) (num - m_bits_in_current_byte s)) of
           None \<Rightarrow> None
         | Some bits' \<Rightarrow>
             (let num' = num - m_bits_in_current_byte s
              in if m_ibuffer_ptr s \<noteq> m_ibuffer_size s then
                   (if m_ibuffer_ptr s < length buf then
                      read_loop buf num' bits'
                        (s\<lparr>m_current_byte := ucast (buf ! m_ibuffer_ptr s),
                           m_ibuffer_ptr := m_ibuffer_ptr s + 1,
                           m_bits_in_current_byte := 8\<rparr>)
                    else None)
                 else Some (False, num', bits',
                        s\<lparr>m_bits_in_current_byte := 0, m_current_byte := 0\<rparr>)))
      else Some (True, num, bits, s))"
  by pat_completeness auto
termination
  by (relation "measure (\<lambda>(buf, num, bits, s). length buf - m_ibuffer_ptr s)") auto

declare read_loop.simps [simp del]

text \<open>The loop that builds \<open>bit_mask\<close>: \<open>i\<close> runs from 1 to \<open>num_bits - 1\<close>.\<close>

fun mask_loop :: "nat \<Rightarrow> u64 \<Rightarrow> u64" where
  "mask_loop 0 bit_mask = bit_mask"
| "mask_loop (Suc i) bit_mask = mask_loop i (push_bit 1 bit_mask OR 1)"

definition read_bits_i :: "int \<Rightarrow> u64 option \<Rightarrow> bits_stream \<Rightarrow> (bool \<times> u64 option \<times> bits_stream) option" where
  "read_bits_i num bits s =
     (case m_ibuffer s of
        None \<Rightarrow> Some (True, bits, s)
      | Some buf \<Rightarrow>
          (case read_loop buf num bits s of
             None \<Rightarrow> None
           | Some (retval, num, bits, s) \<Rightarrow>
               if num > 0 \<and> retval then
                 (case or_bits bits (Some (m_current_byte s AND mask_loop (nat (num - 1)) 1)) of
                    None \<Rightarrow> None
                  | Some bits \<Rightarrow>
                      (case shr (m_current_byte s) num of
                         None \<Rightarrow> None
                       | Some cur \<Rightarrow>
                           Some (retval, bits,
                             s\<lparr>m_current_byte := cur,
                               m_bits_in_current_byte := m_bits_in_current_byte s - num\<rparr>)))
               else Some (retval, bits, s)))"

text \<open>The public operations take an \<open>unsigned int\<close>, converted to the \<open>int\<close> of \<open>read_bits_i\<close>.\<close>

definition read_bits :: "u32 \<Rightarrow> bits_stream \<Rightarrow> (bool \<times> u64 \<times> bits_stream) option" where
  "read_bits num_bits s =
     map_option (\<lambda>(r, b, s). (r, case b of Some w \<Rightarrow> w | None \<Rightarrow> 0, s))
       (read_bits_i (sint num_bits) (Some 0) s)"

definition skip_bits :: "u32 \<Rightarrow> bits_stream \<Rightarrow> (bool \<times> bits_stream) option" where
  "skip_bits num_bits s = map_option (\<lambda>(r, b, s). (r, s)) (read_bits_i (sint num_bits) None s)"

text \<open>
  \<open>operator>>\<close> into a \<open>BitsSet<n, T>\<close>. The value is swapped in place through \<open>char*\<close>, so it goes
  through a memory; \<open>swap_2\<close>, \<open>swap_4\<close>, \<open>swap_8\<close>, \<open>swap_16\<close> are those of the x86-64 build. The
  Boolean that \<open>read_bits\<close> returns is dropped, as in the code.
\<close>

definition swap_value :: "'t::len word \<Rightarrow> 't word" where
  "swap_value t =
     (let m = wr (\<lambda>_. 0) 0 (le_split (LENGTH('t) div 8) t);
          m = (if LENGTH('t) = 16 then swap_2_x 0 0 m
               else if LENGTH('t) = 32 then swap_4_x 0 0 m
               else if LENGTH('t) = 64 then swap_8_x 0 0 m
               else if LENGTH('t) = 128 then swap_16 swap_8_x 0 0 m
               else m)
      in le_join (rd m 0 (LENGTH('t) div 8)))"

definition extract_bits :: "u32 \<Rightarrow> bits_stream \<Rightarrow> 't::len word bits_set \<Rightarrow> ('t word bits_set \<times> bits_stream) option" where
  "extract_bits n source dest =
     (case read_bits n source of
        None \<Rightarrow> None
      | Some (_, tmp, source) \<Rightarrow>
          (let t = ucast tmp :: 't word;
               t = (if m_endianness source \<noteq> host_endianness then swap_value t else t)
           in Some (dest\<lparr>m_value := t\<rparr>, source)))"


section \<open>The abstract reader\<close>

text \<open>
  On natural numbers: \<open>cur\<close> holds the \<open>avail\<close> bits left of the current byte and \<open>bytes\<close> are the
  bytes behind it. A read that fits takes the low bits of the current byte; one that does not
  takes all that is left of it, above the bits of the next bytes. \<open>acc\<close> is what has been read.
\<close>

fun spec_read :: "nat \<Rightarrow> nat \<Rightarrow> nat \<Rightarrow> nat list \<Rightarrow> nat \<Rightarrow> (nat \<times> nat \<times> nat \<times> nat list) option" where
  "spec_read acc cur avail [] n =
     (if n \<le> avail then Some (acc * 2 ^ n + cur mod 2 ^ n, cur div 2 ^ n, avail - n, []) else None)"
| "spec_read acc cur avail (b # bs) n =
     (if n \<le> avail then Some (acc * 2 ^ n + cur mod 2 ^ n, cur div 2 ^ n, avail - n, b # bs)
      else spec_read (acc * 2 ^ avail + cur) b 8 bs (n - avail))"

definition stream_ok :: "bits_stream \<Rightarrow> bool" where
  "stream_ok s \<longleftrightarrow>
     (\<exists>buf. m_ibuffer s = Some buf \<and> m_ibuffer_size s = length buf \<and> m_ibuffer_ptr s \<le> length buf) \<and>
     0 \<le> m_bits_in_current_byte s \<and> m_bits_in_current_byte s \<le> 8 \<and>
     unat (m_current_byte s) < 2 ^ nat (m_bits_in_current_byte s)"

definition rest :: "bits_stream \<Rightarrow> nat list" where
  "rest s = map unat (drop (m_ibuffer_ptr s) (the (m_ibuffer s)))"

definition avail_bits :: "bits_stream \<Rightarrow> nat" where
  "avail_bits s = nat (m_bits_in_current_byte s)"

definition remaining_bits :: "bits_stream \<Rightarrow> nat" where
  "remaining_bits s = avail_bits s + 8 * length (rest s)"

definition spec_of :: "nat \<Rightarrow> bits_stream \<Rightarrow> nat \<Rightarrow> (nat \<times> nat \<times> nat \<times> nat list) option" where
  "spec_of acc s n = spec_read acc (unat (m_current_byte s)) (avail_bits s) (rest s) n"

lemma spec_of_fits:
  "n \<le> avail_bits s \<Longrightarrow> spec_of acc s n =
     Some (acc * 2 ^ n + unat (m_current_byte s) mod 2 ^ n, unat (m_current_byte s) div 2 ^ n,
       avail_bits s - n, rest s)"
  by (cases "rest s") (simp_all add: spec_of_def)

lemma spec_read_None: "spec_read acc cur avail bytes n = None \<longleftrightarrow> avail + 8 * length bytes < n"
  by (induction acc cur avail bytes n rule: spec_read.induct) auto

lemma spec_read_bits:
  "spec_read acc cur avail bytes n = Some (v, c, a, bs) \<Longrightarrow>
     a + 8 * length bs + n = avail + 8 * length bytes"
  by (induction acc cur avail bytes n rule: spec_read.induct) (auto split: if_splits)

lemma spec_read_value:
  "spec_read acc cur avail bytes n = Some (v, c, a, bs) \<Longrightarrow> cur < 2 ^ avail \<Longrightarrow>
     \<forall>b \<in> set bytes. b < 256 \<Longrightarrow> acc * 2 ^ n \<le> v \<and> v < Suc acc * 2 ^ n"
proof (induction acc cur avail bytes n rule: spec_read.induct)
  case (1 acc cur avail n)
  then show ?case by (auto split: if_splits)
next
  case (2 acc cur avail b bs' n)
  show ?case
  proof (cases "n \<le> avail")
    case True
    with "2.prems" show ?thesis by auto
  next
    case False
    then have p: "(2 :: nat) ^ n = 2 ^ avail * 2 ^ (n - avail)"
      by (simp flip: power_add)
    have "(acc * 2 ^ avail + cur) * 2 ^ (n - avail) \<le> v \<and>
        v < Suc (acc * 2 ^ avail + cur) * 2 ^ (n - avail)"
      using "2.IH" [OF False] "2.prems" False by simp
    moreover have "Suc (acc * 2 ^ avail + cur) \<le> Suc acc * 2 ^ avail" using "2.prems"(2) by simp
    then have "Suc (acc * 2 ^ avail + cur) * 2 ^ (n - avail) \<le> Suc acc * 2 ^ avail * 2 ^ (n - avail)"
      by (rule mult_le_mono1)
    moreover have "acc * 2 ^ avail * 2 ^ (n - avail) \<le> (acc * 2 ^ avail + cur) * 2 ^ (n - avail)"
      by simp
    ultimately show ?thesis unfolding p by (simp only: mult.assoc) linarith
  qed
qed

section \<open>The word-level reader refines it\<close>

lemma unat_or_shift:
  fixes b c :: u64
  assumes "unat b = acc * 2 ^ n" and "Suc acc * 2 ^ n \<le> 2 ^ 64" and "unat c < 2 ^ a" and "a \<le> n"
  shows "unat (b OR push_bit (n - a) c) = (acc * 2 ^ a + unat c) * 2 ^ (n - a)"
    and "Suc (acc * 2 ^ a + unat c) * 2 ^ (n - a) \<le> 2 ^ 64"
proof -
  have p: "(2 :: nat) ^ n = 2 ^ a * 2 ^ (n - a)" using assms(4) by (simp flip: power_add)
  have c: "Suc (unat c) * 2 ^ (n - a) \<le> 2 ^ n"
    unfolding p using assms(3) by (intro mult_le_mono1) simp
  then have lt: "unat c * 2 ^ (n - a) < 2 ^ n"
    by (simp add: less_le_trans [OF _ c])
  have "Suc acc * 2 ^ n \<le> (2 :: nat) ^ 64" by fact
  then have "(2 :: nat) ^ n \<le> 2 ^ 64" by simp
  with lt have u: "unat (push_bit (n - a) c) = unat c * 2 ^ (n - a)"
    by (simp only: unsigned_push_bit_eq) (simp add: push_bit_eq_mult take_bit_nat_eq_self)
  show "unat (b OR push_bit (n - a) c) = (acc * 2 ^ a + unat c) * 2 ^ (n - a)"
    by (simp add: unsigned_or_eq u assms(1) nat_or_add [OF lt]) (simp add: p algebra_simps)
  have "Suc (acc * 2 ^ a + unat c) \<le> Suc acc * 2 ^ a" using assms(3) by simp
  then have "Suc (acc * 2 ^ a + unat c) * 2 ^ (n - a) \<le> Suc acc * 2 ^ a * 2 ^ (n - a)"
    by (rule mult_le_mono1)
  also have "\<dots> = Suc acc * 2 ^ n" by (simp only: p mult.assoc)
  finally show "Suc (acc * 2 ^ a + unat c) * 2 ^ (n - a) \<le> 2 ^ 64" using assms(2) by simp
qed

definition bits_rel :: "u64 option \<Rightarrow> nat \<Rightarrow> nat \<Rightarrow> bool" where
  "bits_rel bits acc n \<longleftrightarrow>
     (case bits of None \<Rightarrow> True | Some b \<Rightarrow> unat b = acc * 2 ^ n \<and> Suc acc * 2 ^ n \<le> 2 ^ 64)"

lemma or_bits_shl:
  assumes "bits_rel bits acc (nat num)" and "stream_ok s" and "m_bits_in_current_byte s < num"
    and "bits \<noteq> None \<longrightarrow> num - m_bits_in_current_byte s < 64"
  obtains bits' where "or_bits bits (shl (m_current_byte s) (num - m_bits_in_current_byte s)) = Some bits'"
    and "bits_rel bits' (acc * 2 ^ avail_bits s + unat (m_current_byte s)) (nat num - avail_bits s)"
    and "bits' = None \<longleftrightarrow> bits = None"
proof (cases bits)
  case None
  then show ?thesis using that [of None] by (simp add: or_bits_def bits_rel_def)
next
  case (Some b)
  have a: "0 \<le> m_bits_in_current_byte s" "unat (m_current_byte s) < 2 ^ avail_bits s"
    using assms(2) by (auto simp: stream_ok_def avail_bits_def)
  have n: "nat (num - m_bits_in_current_byte s) = nat num - avail_bits s" "avail_bits s \<le> nat num"
    using a(1) assms(3) by (auto simp: avail_bits_def)
  have "shl (m_current_byte s) (num - m_bits_in_current_byte s) =
      Some (push_bit (nat num - avail_bits s) (m_current_byte s))"
    using assms(3,4) Some by (simp add: shl_def n)
  moreover have "unat b = acc * 2 ^ nat num" "Suc acc * 2 ^ nat num \<le> 2 ^ 64"
    using assms(1) Some by (auto simp: bits_rel_def)
  ultimately show ?thesis
    using that [of "Some (b OR push_bit (nat num - avail_bits s) (m_current_byte s))"]
      unat_or_shift [OF _ _ a(2) n(2)] Some
    by (auto simp: or_bits_def bits_rel_def)
qed

lemma read_loop_refines:
  assumes "stream_ok s" and "m_ibuffer s = Some buf" and "0 \<le> num"
    and "bits_rel bits acc (nat num)"
    and "bits \<noteq> None \<longrightarrow> num \<le> 64 \<and> num - m_bits_in_current_byte s < 64"
  shows "\<exists>ret num' bits' s' acc'. read_loop buf num bits s = Some (ret, num', bits', s') \<and>
     stream_ok s' \<and> m_ibuffer s' = Some buf \<and> m_endianness s' = m_endianness s \<and>
     (bits' = None \<longleftrightarrow> bits = None) \<and> (0 < num \<longrightarrow> 0 < num') \<and>
     (if ret then 0 \<le> num' \<and> num' \<le> m_bits_in_current_byte s' \<and> bits_rel bits' acc' (nat num') \<and>
        spec_of acc s (nat num) = spec_of acc' s' (nat num')
      else spec_of acc s (nat num) = None \<and> remaining_bits s' = 0)"
  using assms
proof (induction buf num bits s arbitrary: acc rule: read_loop.induct)
  case (1 buf num bits s)
  have sz: "m_ibuffer_size s = length buf" "m_ibuffer_ptr s \<le> length buf"
    using "1.prems"(1,2) by (auto simp: stream_ok_def)
  have a: "0 \<le> m_bits_in_current_byte s" "int (avail_bits s) = m_bits_in_current_byte s"
    using "1.prems"(1) by (auto simp: stream_ok_def avail_bits_def)
  show ?case
  proof (cases "num > m_bits_in_current_byte s")
    case False
    then show ?thesis using "1.prems" by (subst read_loop.simps) auto
  next
    case True
    define acc' where "acc' = acc * 2 ^ avail_bits s + unat (m_current_byte s)"
    obtain bits' where b: "or_bits bits (shl (m_current_byte s) (num - m_bits_in_current_byte s)) = Some bits'"
      and r: "bits_rel bits' acc' (nat num - avail_bits s)" and n: "bits' = None \<longleftrightarrow> bits = None"
      using or_bits_shl [OF "1.prems"(4,1) True] "1.prems"(5) unfolding acc'_def by metis
    define num' where "num' = num - m_bits_in_current_byte s"
    have n': "nat num' = nat num - avail_bits s" "0 < num'" "num' \<le> num" "\<not> nat num \<le> avail_bits s"
      using a True by (auto simp: num'_def)
    show ?thesis
    proof (cases "m_ibuffer_ptr s = m_ibuffer_size s")
      case end_of_buffer: True
      then have "rest s = []" using "1.prems"(2) sz by (simp add: rest_def)
      then have "spec_of acc s (nat num) = None" using n'(4) by (simp add: spec_of_def)
      then show ?thesis using True b end_of_buffer "1.prems"(1,2) n n'
        by (subst read_loop.simps)
          (auto simp: num'_def [symmetric] stream_ok_def remaining_bits_def avail_bits_def rest_def)
    next
      case False
      then have lt: "m_ibuffer_ptr s < length buf" using sz by simp
      define s' where "s' = s\<lparr>m_current_byte := ucast (buf ! m_ibuffer_ptr s),
        m_ibuffer_ptr := m_ibuffer_ptr s + 1, m_bits_in_current_byte := 8\<rparr>"
      have cur: "unat (m_current_byte s') = unat (buf ! m_ibuffer_ptr s)"
        by (simp add: s'_def unsigned_ucast_eq take_bit_nat_eq_self unsigned_less [THEN less_le_trans])
      have ok: "stream_ok s'"
        using "1.prems"(1,2) sz lt unsigned_less [of "buf ! m_ibuffer_ptr s", where ?'a = nat] cur
        by (auto simp: stream_ok_def s'_def)
      have st: "m_ibuffer s' = Some buf" "m_endianness s' = m_endianness s"
        "m_bits_in_current_byte s' = 8" "avail_bits s' = 8"
        using "1.prems"(2) by (simp_all add: s'_def avail_bits_def)
      have "rest s = unat (buf ! m_ibuffer_ptr s) # rest s'"
        using "1.prems"(2) lt by (simp add: rest_def s'_def take_drop_nth_Suc)
      then have sp: "spec_of acc s (nat num) = spec_of acc' s' (nat num')"
        using n' by (simp add: spec_of_def acc'_def cur st)
      have step: "read_loop buf num bits s = read_loop buf num' bits' s'"
        using True b False lt by (subst read_loop.simps) (simp add: num'_def s'_def)
      have fits: "bits' \<noteq> None \<longrightarrow> num' \<le> 64 \<and> num' - m_bits_in_current_byte s' < 64"
        using n "1.prems"(5) n'(3) by (auto simp: st)
      have "bits_rel bits' acc' (nat num')" "0 \<le> num'" using r n' by simp_all
      from "1.IH" [OF True b num'_def False lt, folded s'_def, OF ok st(1) this(2,1) fits]
      show ?thesis unfolding step sp st(2) [symmetric] using n n'(2) by metis
    qed
  qed
qed

lemma mask_loop_eq: "mask_loop n (mask k) = mask (n + k)"
proof (induction n arbitrary: k)
  case (Suc n)
  have "push_bit 1 (mask k) OR 1 = (mask (Suc k) :: u64)"
    by (simp add: mask_Suc_double or.commute mult.commute)
  then show ?case using Suc.IH [of "Suc k"] by simp
qed simp

lemma mask_loop_1: "0 < n \<Longrightarrow> mask_loop (nat (n - 1)) 1 = mask (nat n)"
  using mask_loop_eq [of "nat (n - 1)" 1] by (simp add: nat_diff_distrib' flip: nat_add_distrib)

text \<open>
  The result of \<open>read_bits_i\<close>, with a bits pointer and without: what it returns, the bits it
  stores and the stream it leaves are those of the abstract reader.
\<close>

lemma read_bits_i_refines:
  assumes "stream_ok s" and "0 < num"
    and "bits \<noteq> None \<longrightarrow> bits = Some 0 \<and> num \<le> 64 \<and> num - m_bits_in_current_byte s < 64"
  shows "\<exists>ret bits' s'. read_bits_i num bits s = Some (ret, bits', s') \<and> stream_ok s' \<and>
     m_endianness s' = m_endianness s \<and> m_ibuffer s' = m_ibuffer s \<and> (bits' = None \<longleftrightarrow> bits = None) \<and>
     (case spec_of 0 s (nat num) of
        None \<Rightarrow> \<not> ret \<and> remaining_bits s' = 0
      | Some (v, cur, avail, bytes) \<Rightarrow> ret \<and> (\<forall>b. bits' = Some b \<longrightarrow> unat b = v) \<and>
          unat (m_current_byte s') = cur \<and> avail_bits s' = avail \<and> rest s' = bytes)"
proof -
  obtain buf where buf: "m_ibuffer s = Some buf" using assms(1) by (auto simp: stream_ok_def)
  have pw: "(2 :: nat) ^ nat num \<le> 2 ^ 64" if "num \<le> 64"
    using that by (intro power_increasing) auto
  have rel: "bits_rel bits 0 (nat num)" using assms(3) pw by (auto simp: bits_rel_def split: option.split)
  have fits: "bits \<noteq> None \<longrightarrow> num \<le> 64 \<and> num - m_bits_in_current_byte s < 64" using assms(3) by auto
  obtain ret num' bits' s' acc' where
    l: "read_loop buf num bits s = Some (ret, num', bits', s')" and ok: "stream_ok s'"
    and buf': "m_ibuffer s' = Some buf" and e: "m_endianness s' = m_endianness s"
    and b: "bits' = None \<longleftrightarrow> bits = None" and pos: "0 < num'"
    and r: "if ret then 0 \<le> num' \<and> num' \<le> m_bits_in_current_byte s' \<and> bits_rel bits' acc' (nat num') \<and>
        spec_of 0 s (nat num) = spec_of acc' s' (nat num')
      else spec_of 0 s (nat num) = None \<and> remaining_bits s' = 0"
    using read_loop_refines [OF assms(1) buf less_imp_le [OF assms(2)] rel fits] assms(2) by blast
  show ?thesis
  proof (cases ret)
    case False
    then show ?thesis using l ok e b r buf buf'
      by (intro exI [of _ False] exI [of _ bits'] exI [of _ s']) (simp add: read_bits_i_def)
  next
    case True
    define k where "k = nat num'"
    have n8: "num' \<le> 8" "num' < 64" "num' \<le> m_bits_in_current_byte s'" using r True ok by (auto simp: stream_ok_def)
    have k: "k \<le> avail_bits s'" "0 < k" using r True pos by (auto simp: k_def avail_bits_def)
    have cur: "unat (m_current_byte s') < 2 ^ avail_bits s'" using ok by (auto simp: stream_ok_def avail_bits_def)
    let ?m = "m_current_byte s' AND mask_loop (nat (num' - 1)) 1"
    have m: "unat ?m = unat (m_current_byte s') mod 2 ^ k"
      using pos by (simp only: mask_loop_1 k_def [symmetric] take_bit_eq_mask [symmetric] unsigned_take_bit_eq)
        (simp add: take_bit_eq_mod)
    obtain bits2 where o: "or_bits bits' (Some ?m) = Some bits2" "bits2 = None \<longleftrightarrow> bits = None"
      and v: "\<forall>b. bits2 = Some b \<longrightarrow> unat b = acc' * 2 ^ k + unat (m_current_byte s') mod 2 ^ k"
    proof (cases bits')
      case None
      then show ?thesis using that [of None] b by (simp add: or_bits_def)
    next
      case (Some b')
      then have "unat b' = acc' * 2 ^ k" using r True by (simp add: bits_rel_def k_def)
      moreover have "unat ?m < 2 ^ k" by (simp add: m)
      ultimately have "unat (b' OR ?m) = acc' * 2 ^ k + unat (m_current_byte s') mod 2 ^ k"
        by (simp only: unsigned_or_eq nat_or_add m)
      then show ?thesis using that [of "Some (b' OR ?m)"] Some b by (simp add: or_bits_def)
    qed
    define d where "d = drop_bit k (m_current_byte s')"
    have d: "unat d = unat (m_current_byte s') div 2 ^ k"
      unfolding d_def unat_drop_bit_eq by (rule drop_bit_eq_div)
    define s2 where "s2 = s'\<lparr>m_current_byte := d,
      m_bits_in_current_byte := m_bits_in_current_byte s' - num'\<rparr>"
    have c2: "unat (m_current_byte s2) = unat (m_current_byte s') div 2 ^ k"
      by (simp add: s2_def d)
    have a2: "avail_bits s2 = avail_bits s' - k" using n8 pos by (simp add: s2_def avail_bits_def k_def)
    have "unat (m_current_byte s') div 2 ^ k < 2 ^ (avail_bits s' - k)"
      using cur k by (simp add: less_mult_imp_div_less flip: power_add)
    then have ok2: "stream_ok s2"
      using ok n8 pos c2 a2 by (auto simp: stream_ok_def s2_def avail_bits_def k_def nat_diff_distrib)
    have "read_bits_i num bits s = Some (True, bits2, s2)"
      using l buf True pos o n8 by (simp add: read_bits_i_def shr_def s2_def k_def d_def)
    moreover have "spec_of 0 s (nat num) = Some (acc' * 2 ^ k + unat (m_current_byte s') mod 2 ^ k,
        unat (m_current_byte s') div 2 ^ k, avail_bits s' - k, rest s')"
      using r True k spec_of_fits [of k s' acc'] by (simp add: k_def)
    moreover have "rest s2 = rest s'" "m_endianness s2 = m_endianness s" "m_ibuffer s2 = m_ibuffer s"
      using e buf buf' by (simp_all add: s2_def rest_def)
    ultimately show ?thesis using ok2 o(2) v c2 a2
      by (intro exI [of _ True] exI [of _ bits2] exI [of _ s2]) simp
  qed
qed

lemma sint_small: "unat (n :: u32) \<le> 64 \<Longrightarrow> sint n = int (unat n)"
proof -
  assume "unat n \<le> 64"
  then have "int (unat n) \<le> int 64" by (simp only: of_nat_le_iff)
  also have "\<dots> < 2 ^ 31" by simp
  finally have "int (unat n) < 2 ^ 31" .
  moreover have "sint n = signed_take_bit 31 (int (unat n))"
    by (simp add: sint_uint)
  moreover have "- (2 ^ 31) \<le> int (unat n)" by (rule order_trans [of _ 0]) simp_all
  ultimately show ?thesis by (simp only: signed_take_bit_int_eq_self)
qed

lemma read_bits_refines_gen:
  assumes "stream_ok s" and "0 < unat n" and "unat n \<le> 64" and "unat n < 64 + avail_bits s"
  shows "case spec_of 0 s (unat n) of
      None \<Rightarrow> (\<exists>b s'. read_bits n s = Some (False, b, s') \<and> stream_ok s' \<and> remaining_bits s' = 0)
    | Some (v, cur, avail, bytes) \<Rightarrow>
        (\<exists>s'. read_bits n s = Some (True, word_of_nat v, s') \<and> stream_ok s' \<and>
           m_endianness s' = m_endianness s \<and> unat (m_current_byte s') = cur \<and> avail_bits s' = avail \<and> rest s' = bytes \<and>
           v < 2 ^ unat n)"
proof -
  define N where "N = int (unat n)"
  have N: "0 < N" "N \<le> 64" "nat N = unat n" using assms(2,3) unfolding N_def by linarith+
  have sn: "sint n = N" unfolding N_def using assms(3) by (rule sint_small)
  have fits: "N - m_bits_in_current_byte s < 64"
  proof -
    have "0 \<le> m_bits_in_current_byte s" using assms(1) by (simp add: stream_ok_def)
    moreover have "int (unat n) < int (64 + avail_bits s)" using assms(4) by (simp only: of_nat_less_iff)
    ultimately show ?thesis unfolding avail_bits_def N_def by linarith
  qed
  have bytes: "\<forall>b \<in> set (rest s). b < 256"
    using unsigned_less [where 'b = 8 and ?'a = nat] by (auto simp: rest_def)
  have cur: "unat (m_current_byte s) < 2 ^ avail_bits s"
    using assms(1) by (auto simp: stream_ok_def avail_bits_def)
  obtain ret bits' s' where r: "read_bits_i (sint n) (Some 0) s = Some (ret, bits', s')" "stream_ok s'"
      "bits' \<noteq> None" "m_endianness s' = m_endianness s"
    and c: "case spec_of 0 s (unat n) of
        None \<Rightarrow> \<not> ret \<and> remaining_bits s' = 0
      | Some (v, cur, avail, bytes) \<Rightarrow> ret \<and> (\<forall>b. bits' = Some b \<longrightarrow> unat b = v) \<and>
          unat (m_current_byte s') = cur \<and> avail_bits s' = avail \<and> rest s' = bytes"
    using read_bits_i_refines [OF assms(1) N(1), of "Some 0"] N fits
    by (auto simp: sn)
  then obtain b where b: "bits' = Some b" by blast
  have rb: "read_bits n s = Some (ret, b, s')" using r b by (simp add: read_bits_def)
  show ?thesis
  proof (cases "spec_of 0 s (unat n)")
    case None
    then show ?thesis using rb r c by auto
  next
    case (Some x)
    obtain v cu a bs where x: "x = (v, cu, a, bs)" by (cases x)
    have "v < 2 ^ unat n"
      using spec_read_value [OF Some [unfolded x spec_of_def] cur bytes] by simp
    moreover have "unat b = v" using c Some x b by auto
    then have "word_of_nat v = b" by auto
    ultimately show ?thesis using rb r c Some x b by auto
  qed
qed

lemma read_bits_accounting_gen:
  assumes "stream_ok s" and "0 < unat n" and "unat n \<le> 64" and "unat n < 64 + avail_bits s"
  shows "\<exists>ret b s'. read_bits n s = Some (ret, b, s') \<and> stream_ok s' \<and>
     (ret \<longleftrightarrow> unat n \<le> remaining_bits s) \<and>
     remaining_bits s' = (if ret then remaining_bits s - unat n else 0)"
proof (cases "spec_of 0 s (unat n)")
  case None
  then have "remaining_bits s < unat n" by (simp add: spec_of_def spec_read_None remaining_bits_def)
  then show ?thesis using read_bits_refines_gen [OF assms] None by auto
next
  case (Some x)
  obtain v c a bs where x: "x = (v, c, a, bs)" by (cases x)
  then have r: "a + 8 * length bs + unat n = remaining_bits s"
    using Some spec_read_bits by (simp add: spec_of_def remaining_bits_def)
  obtain s' where s': "read_bits n s = Some (True, word_of_nat v, s')" "stream_ok s'"
      "avail_bits s' = a" "rest s' = bs"
    using read_bits_refines_gen [OF assms] Some x by auto
  then have "remaining_bits s' = remaining_bits s - unat n" "unat n \<le> remaining_bits s"
    using r by (simp_all add: remaining_bits_def [of s'])
  then show ?thesis using s'
    by (intro exI [of _ True] exI [of _ "word_of_nat v"] exI [of _ s']) simp
qed

lemma skip_bits_like_read_gen:
  assumes "stream_ok s" and "0 < unat n" and "unat n \<le> 64" and "unat n < 64 + avail_bits s"
  shows "\<exists>ret b s1 s2. read_bits n s = Some (ret, b, s1) \<and> skip_bits n s = Some (ret, s2) \<and>
     remaining_bits s1 = remaining_bits s2 \<and>
     (ret \<longrightarrow> m_current_byte s1 = m_current_byte s2 \<and> avail_bits s1 = avail_bits s2 \<and> rest s1 = rest s2)"
proof -
  define N where "N = int (unat n)"
  have N: "0 < N" "nat N = unat n" using assms(2,3) unfolding N_def by linarith+
  have sn: "sint n = N" unfolding N_def using assms(3) by (rule sint_small)
  obtain ret2 s2 where sk: "skip_bits n s = Some (ret2, s2)"
    and c: "case spec_of 0 s (unat n) of
        None \<Rightarrow> \<not> ret2 \<and> remaining_bits s2 = 0
      | Some (v, cur, avail, bytes) \<Rightarrow> ret2 \<and>
          unat (m_current_byte s2) = cur \<and> avail_bits s2 = avail \<and> rest s2 = bytes"
    using read_bits_i_refines [OF assms(1) N(1), of None]
    by (auto simp: skip_bits_def sn N(2) split: option.splits)
  show ?thesis
  proof (cases "spec_of 0 s (unat n)")
    case None
    then show ?thesis using read_bits_refines_gen [OF assms] sk c by auto
  next
    case (Some x)
    obtain v c a bs where x: "x = (v, c, a, bs)" by (cases x)
    then obtain s' where "read_bits n s = Some (True, word_of_nat v, s')"
        "unat (m_current_byte s') = c" "avail_bits s' = a" "rest s' = bs"
      using read_bits_refines_gen [OF assms] Some by auto
    moreover have "ret2" "unat (m_current_byte s2) = c" "avail_bits s2 = a" "rest s2 = bs"
      using c Some x by auto
    ultimately show ?thesis using sk
      by (intro exI [of _ True] exI [of _ "word_of_nat v"] exI [of _ s'] exI [of _ s2])
        (auto simp: remaining_bits_def intro: unsigned_word_eqI [where ?'a = nat])
  qed
qed

text \<open>The big-endian number of a list of bytes, and what a byte-aligned read returns.\<close>

definition be_nat :: "nat list \<Rightarrow> nat" where
  "be_nat bs = foldl (\<lambda>acc b. acc * 256 + b) 0 bs"

lemma spec_read_aligned:
  "k \<le> length bytes \<Longrightarrow> cur < 256 \<Longrightarrow> \<forall>b \<in> set bytes. b < 256 \<Longrightarrow> 
     spec_read acc cur 8 bytes (8 * Suc k) =
       Some (foldl (\<lambda>acc b. acc * 256 + b) acc (cur # take k bytes), 0, 0, drop k bytes)"
proof (induction k arbitrary: acc cur bytes)
  case 0
  then show ?case by (cases bytes) simp_all
next
  case (Suc k)
  then obtain b bs where b: "bytes = b # bs" by (cases bytes) auto
  then show ?case using Suc.IH [of bs b "acc * 256 + cur"] Suc.prems by simp
qed

lemma read_bits_bytes_gen:
  assumes "stream_ok s" and "avail_bits s = 0" and "0 < k" and "k \<le> 7" and "k \<le> length (rest s)"
    and "unat n = 8 * k"
  shows "\<exists>s'. read_bits n s = Some (True, word_of_nat (be_nat (take k (rest s))), s') \<and>
     avail_bits s' = 0 \<and> rest s' = drop k (rest s) \<and> m_endianness s' = m_endianness s"
proof -
  obtain b bs where r: "rest s = b # bs" using assms(3,5) by (cases "rest s") auto
  obtain j where k: "k = Suc j" using assms(3) by (cases k) auto
  have bytes: "\<forall>b \<in> set (rest s). b < 256"
    using unsigned_less [where 'b = 8 and ?'a = nat] by (auto simp: rest_def)
  have cur: "unat (m_current_byte s) = 0" using assms(1,2) by (auto simp: stream_ok_def avail_bits_def)
  have "spec_of 0 s (8 * Suc j) = spec_read 0 b 8 bs (8 * Suc j)"
    by (simp add: spec_of_def r assms(2) cur)
  also have "\<dots> = Some (be_nat (take k (rest s)), 0, 0, drop k (rest s))"
    using spec_read_aligned [of j bs b 0] assms(5) bytes by (simp add: r k be_nat_def)
  finally have "spec_of 0 s (unat n) = Some (be_nat (take k (rest s)), 0, 0, drop k (rest s))"
    using assms(6) k by simp
  then show ?thesis using read_bits_refines_gen [OF assms(1), of n] assms(2-4,6) by auto
qed

lemma fresh_ok: "length buf = n \<Longrightarrow> stream_ok (BitsStream_ctor (Some buf) n e)"
  by (simp add: stream_ok_def BitsStream_ctor_def)

lemma fresh_stream [simp]:
  "avail_bits (BitsStream_ctor (Some buf) n e) = 0"
  "rest (BitsStream_ctor (Some buf) n e) = map unat buf"
  "unat (m_current_byte (BitsStream_ctor (Some buf) n e)) = 0"
  "is_little_endian (BitsStream_ctor (Some buf) n e) \<longleftrightarrow> e = BO_LITTLE_ENDIAN"
  by (simp_all add: BitsStream_ctor_def avail_bits_def rest_def is_little_endian_def)

lemma swap_value_16: "swap_value (t :: u16) = le_join (rev (le_split 2 t))"
proof -
  have "LENGTH(16) div 8 = 2" "(LENGTH(16) :: nat) = 16" by simp_all
  then show ?thesis
    by (simp only: swap_value_def Let_def if_True s2x.chunk swapped_one One_nat_def)
      (simp add: rd_wr_same s2x.chunk swapped_one)
qed

lemma le_join_2:
  assumes "b0 < 256" and "b1 < 256"
  shows "le_join [word_of_nat b0, word_of_nat b1] = (word_of_nat (b1 * 256 + b0) :: u16)"
proof (rule unsigned_word_eqI [where ?'a = nat])
  have x: "unat (ucast (word_of_nat b :: byte) :: u16) = b" if "b < 256" for b
    using that by (simp add: unsigned_ucast_eq unsigned_of_nat take_bit_nat_eq_self)
  have p: "unat (push_bit 8 (ucast (word_of_nat b1 :: byte)) :: u16) = b1 * 2 ^ 8"
    using assms(2) by (simp only: unsigned_push_bit_eq x) (simp add: push_bit_eq_mult take_bit_nat_eq_self)
  have "unat (le_join [word_of_nat b0, word_of_nat b1] :: u16) = b0 OR b1 * 2 ^ 8"
    by (simp only: le_join.simps unsigned_or_eq x [OF assms(1)] x [OF assms(2)] p or.right_neutral push_bit_of_0)
  also have "\<dots> = b1 * 256 + b0" using nat_or_add [of b0 8 b1] assms(1) by (simp add: or.commute)
  also have "\<dots> = unat (word_of_nat (b1 * 256 + b0) :: u16)"
    using assms by (simp only: unsigned_of_nat) (simp add: take_bit_nat_eq_self)
  finally show "unat (le_join [word_of_nat b0, word_of_nat b1] :: u16) = unat (word_of_nat (b1 * 256 + b0) :: u16)" .
qed

lemma extract_16_gen:
  assumes "stream_ok s" and "avail_bits s = 0" and "rest s = b0 # b1 # bs"
  shows "\<exists>s'. extract_bits 16 s (d :: u16 bits_set) = Some (d\<lparr>m_value :=
      (if is_little_endian s then word_of_nat (b0 * 256 + b1) else word_of_nat (b1 * 256 + b0))\<rparr>, s') \<and>
      rest s' = bs"
proof -
  have b: "b0 < 256" "b1 < 256"
    using assms(3) unsigned_less [where 'b = 8 and ?'a = nat] by (auto simp: rest_def map_eq_Cons_conv)
  obtain s' where r: "read_bits 16 s = Some (True, word_of_nat (b0 * 256 + b1), s')" "rest s' = bs"
      and e: "m_endianness s' = m_endianness s"
    using read_bits_bytes_gen [OF assms(1,2), of 2 16] assms(3) by (auto simp: be_nat_def)
  let ?t = "ucast (word_of_nat (b0 * 256 + b1) :: u64) :: u16"
  have t: "?t = word_of_nat (b0 * 256 + b1)"
  proof (rule unsigned_word_eqI [where ?'a = nat])
    have "unat (word_of_nat (b0 * 256 + b1) :: u64) = b0 * 256 + b1"
      using b by (simp only: unsigned_of_nat) (simp add: take_bit_nat_eq_self)
    then show "unat ?t = unat (word_of_nat (b0 * 256 + b1) :: u16)"
      by (simp only: unsigned_ucast_eq unsigned_of_nat) simp
  qed
  have "le_split 2 (le_join [word_of_nat b1, word_of_nat b0] :: u16) = [word_of_nat b1, word_of_nat b0]"
    by (rule le_split_join) simp_all
  then have sw: "swap_value (word_of_nat (b0 * 256 + b1) :: u16) = word_of_nat (b1 * 256 + b0)"
    by (simp only: swap_value_16 le_join_2 [OF b(2,1), symmetric] le_join_2 [OF b, symmetric]) simp
  define hi lo where "hi = b0 * 256 + b1" and "lo = b1 * 256 + b0"
  show ?thesis
    using r e t sw unfolding hi_def [symmetric] lo_def [symmetric]
    by (cases "m_endianness s")
      (auto simp: extract_bits_def is_little_endian_def host_endianness_def)
qed

section \<open>Properties\<close>

text \<open>
  C1: \<open>read_bits\<close> on words computes what the abstract reader computes on numbers: the same value,
  the same bits left in the current byte, the same unread bytes; and it fails, leaving the stream
  at its end, exactly when the abstract reader has no result.
\<close>

theorem read_bits_refines:
  assumes "stream_ok s" and "0 < unat n" and "unat n \<le> 64" and "unat n < 64 + avail_bits s"
  shows "case spec_of 0 s (unat n) of
      None \<Rightarrow> (\<exists>b s'. read_bits n s = Some (False, b, s') \<and> stream_ok s' \<and> remaining_bits s' = 0)
    | Some (v, cur, avail, bytes) \<Rightarrow>
        (\<exists>s'. read_bits n s = Some (True, word_of_nat v, s') \<and> stream_ok s' \<and>
           m_endianness s' = m_endianness s \<and> unat (m_current_byte s') = cur \<and>
           avail_bits s' = avail \<and> rest s' = bytes \<and> v < 2 ^ unat n)"
  using assms by (rule read_bits_refines_gen)

theorem read_bits_refines_witness:
  "\<exists>s'. read_bits 12 (BitsStream_ctor (Some [0x12, 0x34]) 2 BO_LITTLE_ENDIAN) = Some (True, 0x124, s')"
  using read_bits_refines [OF fresh_ok [of "[0x12, 0x34]" 2 BO_LITTLE_ENDIAN], of 12]
  by (auto simp: spec_of_def)

text \<open>
  A read of \<open>n\<close> bits returns \<open>true\<close> exactly when the stream has \<open>n\<close> bits left, and then
  it consumes exactly \<open>n\<close>.
\<close>

theorem read_bits_accounting:
  assumes "stream_ok s" and "0 < unat n" and "unat n \<le> 64" and "unat n < 64 + avail_bits s"
  shows "\<exists>ret b s'. read_bits n s = Some (ret, b, s') \<and> stream_ok s' \<and>
     (ret \<longleftrightarrow> unat n \<le> remaining_bits s) \<and>
     remaining_bits s' = (if ret then remaining_bits s - unat n else 0)"
  using assms by (rule read_bits_accounting_gen)

theorem read_bits_accounting_witness:
  "\<exists>b s'. read_bits 20 (BitsStream_ctor (Some [0x12, 0x34]) 2 BO_LITTLE_ENDIAN) = Some (False, b, s')"
  using read_bits_accounting [OF fresh_ok [of "[0x12, 0x34]" 2 BO_LITTLE_ENDIAN], of 20]
  by (auto simp: remaining_bits_def)

text \<open>Skipping \<open>n\<close> bits leaves the stream where reading them does, with the same verdict.\<close>

theorem skip_bits_like_read:
  assumes "stream_ok s" and "0 < unat n" and "unat n \<le> 64" and "unat n < 64 + avail_bits s"
  shows "\<exists>ret b s1 s2. read_bits n s = Some (ret, b, s1) \<and> skip_bits n s = Some (ret, s2) \<and>
     remaining_bits s1 = remaining_bits s2 \<and>
     (ret \<longrightarrow> m_current_byte s1 = m_current_byte s2 \<and> avail_bits s1 = avail_bits s2 \<and> rest s1 = rest s2)"
  using assms by (rule skip_bits_like_read_gen)

theorem skip_bits_like_read_witness:
  "\<exists>ret s2. skip_bits 4 (BitsStream_ctor (Some [0x12, 0x34]) 2 BO_LITTLE_ENDIAN) = Some (ret, s2)"
  using skip_bits_like_read [OF fresh_ok [of "[0x12, 0x34]" 2 BO_LITTLE_ENDIAN], of 4] by auto

text \<open>
  Reading up to seven whole bytes from a byte boundary gives the big-endian number of those
  bytes, whatever byte order the stream was built with.
\<close>

theorem read_bits_bytes_big_endian:
  assumes "stream_ok s" and "avail_bits s = 0" and "0 < k" and "k \<le> 7" and "k \<le> length (rest s)"
    and "unat n = 8 * k"
  shows "\<exists>s'. read_bits n s = Some (True, word_of_nat (be_nat (take k (rest s))), s') \<and>
     avail_bits s' = 0 \<and> rest s' = drop k (rest s)"
  using read_bits_bytes_gen [OF assms] by blast

theorem read_bits_bytes_big_endian_witness:
  "\<exists>s'. read_bits 16 (BitsStream_ctor (Some [0x12, 0x34, 0x56]) 3 BO_LITTLE_ENDIAN) = Some (True, 0x1234, s')"
  using read_bits_bytes_big_endian [OF fresh_ok [of "[0x12, 0x34, 0x56]" 3 BO_LITTLE_ENDIAN], of 2 16]
  by (auto simp: be_nat_def)

text \<open>
  A 16-bit value extracted at a byte boundary from a little-endian stream on this
  little-endian host is the big-endian number of its two bytes, and one extracted from a
  big-endian stream is the little-endian number: the swap is applied to the value \<open>read_bits\<close> has
  already assembled high byte first, so each declared byte order decodes the other one.
\<close>

theorem extract_16_byte_order:
  assumes "stream_ok s" and "avail_bits s = 0" and "rest s = b0 # b1 # bs"
  shows "\<exists>s'. extract_bits 16 s (d :: u16 bits_set) = Some (d\<lparr>m_value :=
      (if is_little_endian s then word_of_nat (b0 * 256 + b1) else word_of_nat (b1 * 256 + b0))\<rparr>, s') \<and>
      rest s' = bs"
  using assms by (rule extract_16_gen)

theorem extract_16_byte_order_witness:
  "\<exists>s'. extract_bits 16 (BitsStream_ctor (Some [0x12, 0x34]) 2 BO_BIG_ENDIAN) \<lparr>m_value = 0\<rparr> =
     Some (\<lparr>m_value = 0x3412 :: u16\<rparr>, s')"
  using extract_16_byte_order [OF fresh_ok [of "[0x12, 0x34]" 2 BO_BIG_ENDIAN],
      of "0x12" "0x34" "[]" "\<lparr>m_value = 0\<rparr>"]
  by auto

text \<open>
  \<open>read_bits (64)\<close> at a byte boundary, the full width of the storage, is undefined as soon as
  the stream has a buffer: the loop shifts the empty current byte by 64.
\<close>

theorem read_bits_64_undefined:
  assumes "m_ibuffer s \<noteq> None" and "m_bits_in_current_byte s = 0"
  shows "read_bits 64 s = None"
  using assms by (auto simp: read_bits_def read_bits_i_def or_bits_def shl_def read_loop.simps)

theorem read_bits_64_undefined_witness:
  "read_bits 64 (BitsStream_ctor (Some [1, 2, 3, 4, 5, 6, 7, 8]) 8 BO_LITTLE_ENDIAN) = None"
  by (rule read_bits_64_undefined) (simp_all add: BitsStream_ctor_def)

end
