(* ===== verification/Md5.thy ===== *)
theory Md5
  imports Prelude
begin

text \<open>
  The MD5 calculator of \<open>src/md5/md5.cpp\<close> and \<open>include/yat/md5/md5_loc.h\<close>, on a little-endian host.
  An \<open>md5_t\<close> object is a record; \<open>unsigned int\<close> is \<open>32 word\<close>. An operation returns \<open>None\<close> where
  the C++ reads or writes outside a buffer, or loops for ever. The reference is the algorithm of
  RFC 1321 on byte lists.
\<close>

section \<open>The compression function\<close>

definition T :: "u32 list" where
  "T = [0xd76aa478, 0xe8c7b756, 0x242070db, 0xc1bdceee, 0xf57c0faf, 0x4787c62a, 0xa8304613, 0xfd469501,
        0x698098d8, 0x8b44f7af, 0xffff5bb1, 0x895cd7be, 0x6b901122, 0xfd987193, 0xa679438e, 0x49b40821,
        0xf61e2562, 0xc040b340, 0x265e5a51, 0xe9b6c7aa, 0xd62f105d, 0x02441453, 0xd8a1e681, 0xe7d3fbc8,
        0x21e1cde6, 0xc33707d6, 0xf4d50d87, 0x455a14ed, 0xa9e3e905, 0xfcefa3f8, 0x676f02d9, 0x8d2a4c8a,
        0xfffa3942, 0x8771f681, 0x6d9d6122, 0xfde5380c, 0xa4beea44, 0x4bdecfa9, 0xf6bb4b60, 0xbebfbc70,
        0x289b7ec6, 0xeaa127fa, 0xd4ef3085, 0x04881d05, 0xd9d4d039, 0xe6db99e5, 0x1fa27cf8, 0xc4ac5665,
        0xf4292244, 0x432aff97, 0xab9423a7, 0xfc93a039, 0x655b59c3, 0x8f0ccc92, 0xffeff47d, 0x85845dd1,
        0x6fa87e4f, 0xfe2ce6e0, 0xa3014314, 0x4e0811a1, 0xf7537e82, 0xbd3af235, 0x2ad7d2bb, 0xeb86d391]"

definition S1 :: "nat list" where "S1 = [7, 12, 17, 22]"
definition S2 :: "nat list" where "S2 = [5, 9, 14, 20]"
definition S3 :: "nat list" where "S3 = [4, 11, 16, 23]"
definition S4 :: "nat list" where "S4 = [6, 10, 15, 21]"

definition cyclic_left_rotate :: "u32 \<Rightarrow> nat \<Rightarrow> u32" where
  "cyclic_left_rotate data shift_bits = push_bit shift_bits data OR drop_bit (32 - shift_bits) data"

definition md5_F :: "u32 \<Rightarrow> u32 \<Rightarrow> u32 \<Rightarrow> u32" where "md5_F x y z = (x AND y) OR (NOT x AND z)"
definition md5_G :: "u32 \<Rightarrow> u32 \<Rightarrow> u32 \<Rightarrow> u32" where "md5_G x y z = (x AND z) OR (y AND NOT z)"
definition md5_H :: "u32 \<Rightarrow> u32 \<Rightarrow> u32 \<Rightarrow> u32" where "md5_H x y z = (x XOR y) XOR z"
definition md5_I :: "u32 \<Rightarrow> u32 \<Rightarrow> u32 \<Rightarrow> u32" where "md5_I x y z = y XOR (x OR NOT z)"

text \<open>
  \<open>FF (a, b, c, d, Xk, s, i)\<close> updates its first argument, passed by reference: here the new value
  is the result, and the registers come last.
\<close>

definition FF :: "u32 \<Rightarrow> nat \<Rightarrow> nat \<Rightarrow> u32 \<Rightarrow> u32 \<Rightarrow> u32 \<Rightarrow> u32 \<Rightarrow> u32" where
  "FF Xk s i a b c d =
     (let a = a + (md5_F b c d + Xk + T ! i); a = cyclic_left_rotate a (S1 ! s) in a + b)"

definition GG :: "u32 \<Rightarrow> nat \<Rightarrow> nat \<Rightarrow> u32 \<Rightarrow> u32 \<Rightarrow> u32 \<Rightarrow> u32 \<Rightarrow> u32" where
  "GG Xk s i a b c d =
     (let a = a + (md5_G b c d + Xk + T ! i); a = cyclic_left_rotate a (S2 ! s) in a + b)"

definition HH :: "u32 \<Rightarrow> nat \<Rightarrow> nat \<Rightarrow> u32 \<Rightarrow> u32 \<Rightarrow> u32 \<Rightarrow> u32 \<Rightarrow> u32" where
  "HH Xk s i a b c d =
     (let a = a + (md5_H b c d + Xk + T ! i); a = cyclic_left_rotate a (S3 ! s) in a + b)"

definition II :: "u32 \<Rightarrow> nat \<Rightarrow> nat \<Rightarrow> u32 \<Rightarrow> u32 \<Rightarrow> u32 \<Rightarrow> u32 \<Rightarrow> u32" where
  "II Xk s i a b c d =
     (let a = a + (md5_I b c d + Xk + T ! i); a = cyclic_left_rotate a (S4 ! s) in a + b)"

text \<open>The four argument orders of the calls in \<open>process_block\<close>: which register a step updates.\<close>

type_synonym regs = "u32 \<times> u32 \<times> u32 \<times> u32"
type_synonym step_fun = "u32 \<Rightarrow> u32 \<Rightarrow> u32 \<Rightarrow> u32 \<Rightarrow> u32"

fun abcd :: "step_fun \<Rightarrow> regs \<Rightarrow> regs" where "abcd f (A, B, C, D) = (f A B C D, B, C, D)"
fun dabc :: "step_fun \<Rightarrow> regs \<Rightarrow> regs" where "dabc f (A, B, C, D) = (A, B, C, f D A B C)"
fun cdab :: "step_fun \<Rightarrow> regs \<Rightarrow> regs" where "cdab f (A, B, C, D) = (A, B, f C D A B, D)"
fun bcda :: "step_fun \<Rightarrow> regs \<Rightarrow> regs" where "bcda f (A, B, C, D) = (A, f B C D A, C, D)"

definition round1 :: "u32 list \<Rightarrow> (regs \<Rightarrow> regs) list" where
  "round1 X =
    [abcd (FF (X ! 0) 0 0), dabc (FF (X ! 1) 1 1), cdab (FF (X ! 2) 2 2), bcda (FF (X ! 3) 3 3),
     abcd (FF (X ! 4) 0 4), dabc (FF (X ! 5) 1 5), cdab (FF (X ! 6) 2 6), bcda (FF (X ! 7) 3 7),
     abcd (FF (X ! 8) 0 8), dabc (FF (X ! 9) 1 9), cdab (FF (X ! 10) 2 10), bcda (FF (X ! 11) 3 11),
     abcd (FF (X ! 12) 0 12), dabc (FF (X ! 13) 1 13), cdab (FF (X ! 14) 2 14), bcda (FF (X ! 15) 3 15)]"

definition round2 :: "u32 list \<Rightarrow> (regs \<Rightarrow> regs) list" where
  "round2 X =
    [abcd (GG (X ! 1) 0 16), dabc (GG (X ! 6) 1 17), cdab (GG (X ! 11) 2 18), bcda (GG (X ! 0) 3 19),
     abcd (GG (X ! 5) 0 20), dabc (GG (X ! 10) 1 21), cdab (GG (X ! 15) 2 22), bcda (GG (X ! 4) 3 23),
     abcd (GG (X ! 9) 0 24), dabc (GG (X ! 14) 1 25), cdab (GG (X ! 3) 2 26), bcda (GG (X ! 8) 3 27),
     abcd (GG (X ! 13) 0 28), dabc (GG (X ! 2) 1 29), cdab (GG (X ! 7) 2 30), bcda (GG (X ! 12) 3 31)]"

definition round3 :: "u32 list \<Rightarrow> (regs \<Rightarrow> regs) list" where
  "round3 X =
    [abcd (HH (X ! 5) 0 32), dabc (HH (X ! 8) 1 33), cdab (HH (X ! 11) 2 34), bcda (HH (X ! 14) 3 35),
     abcd (HH (X ! 1) 0 36), dabc (HH (X ! 4) 1 37), cdab (HH (X ! 7) 2 38), bcda (HH (X ! 10) 3 39),
     abcd (HH (X ! 13) 0 40), dabc (HH (X ! 0) 1 41), cdab (HH (X ! 3) 2 42), bcda (HH (X ! 6) 3 43),
     abcd (HH (X ! 9) 0 44), dabc (HH (X ! 12) 1 45), cdab (HH (X ! 15) 2 46), bcda (HH (X ! 2) 3 47)]"

definition round4 :: "u32 list \<Rightarrow> (regs \<Rightarrow> regs) list" where
  "round4 X =
    [abcd (II (X ! 0) 0 48), dabc (II (X ! 7) 1 49), cdab (II (X ! 14) 2 50), bcda (II (X ! 5) 3 51),
     abcd (II (X ! 12) 0 52), dabc (II (X ! 3) 1 53), cdab (II (X ! 10) 2 54), bcda (II (X ! 1) 3 55),
     abcd (II (X ! 8) 0 56), dabc (II (X ! 15) 1 57), cdab (II (X ! 6) 2 58), bcda (II (X ! 13) 3 59),
     abcd (II (X ! 4) 0 60), dabc (II (X ! 11) 1 61), cdab (II (X ! 2) 2 62), bcda (II (X ! 9) 3 63)]"

definition run_steps :: "(regs \<Rightarrow> regs) list \<Rightarrow> regs \<Rightarrow> regs" where
  "run_steps fs r = fold (\<lambda>f. f) fs r"

section \<open>The object\<close>

definition MD5_SIZE :: nat where "MD5_SIZE = 16"
definition MD5_STRING_SIZE :: nat where "MD5_STRING_SIZE = 2 * MD5_SIZE + 1"
definition BLOCK_SIZE :: u32 where "BLOCK_SIZE = 64"

record md5_t =
  md5_A :: u32
  md5_B :: u32
  md5_C :: u32
  md5_D :: u32
  message_length_0 :: u32
  message_length_1 :: u32
  stored_size :: u32
  stored :: "byte list"
  finished :: bool
  signature :: "byte list"
  str :: string

definition initialise :: "md5_t \<Rightarrow> md5_t" where
  "initialise st = st\<lparr>md5_A := 0x67452301, md5_B := 0xefcdab89, md5_C := 0x98badcfe,
     md5_D := 0x10325476, message_length_0 := 0, message_length_1 := 0, stored_size := 0,
     finished := False\<rparr>"

definition process_block :: "byte list \<Rightarrow> md5_t \<Rightarrow> md5_t" where
  "process_block block st =
     (let st = (if message_length_0 st + BLOCK_SIZE < message_length_0 st
                then st\<lparr>message_length_1 := message_length_1 st + 1\<rparr> else st);
          st = st\<lparr>message_length_0 := message_length_0 st + BLOCK_SIZE\<rparr>;
          X = map (\<lambda>i. le_join (take 4 (drop (4 * i) block))) [0..<16];
          AA = md5_A st; BB = md5_B st; CC = md5_C st; DD = md5_D st;
          (A, B, C, D) = run_steps (round1 X @ round2 X @ round3 X @ round4 X) (AA, BB, CC, DD)
      in st\<lparr>md5_A := A + AA, md5_B := B + BB, md5_C := C + CC, md5_D := D + DD\<rparr>)"

text \<open>\<open>memcpy\<close> into a buffer at an offset: \<open>None\<close> when it leaves the buffer.\<close>

definition memcpy :: "byte list \<Rightarrow> nat \<Rightarrow> byte list \<Rightarrow> byte list option" where
  "memcpy buf off src =
     (if off + length src \<le> length buf
      then Some (take off buf @ src @ drop (off + length src) buf) else None)"

text \<open>Reading \<open>n\<close> bytes at an offset.\<close>

definition bytes_at :: "byte list \<Rightarrow> nat \<Rightarrow> nat \<Rightarrow> byte list option" where
  "bytes_at buf off n = (if off + n \<le> length buf then Some (take n (drop off buf)) else None)"

text \<open>The loop over the complete blocks; \<open>processed\<close> is an \<open>unsigned int\<close> and may wrap.\<close>

partial_function (option) block_loop :: "byte list \<Rightarrow> u32 \<Rightarrow> u32 \<Rightarrow> md5_t \<Rightarrow> (u32 \<times> md5_t) option" where
  "block_loop input input_length processed st =
     (if processed + BLOCK_SIZE \<le> input_length
      then (case bytes_at input (unat processed) 64 of
              None \<Rightarrow> None
            | Some block \<Rightarrow> block_loop input input_length (processed + BLOCK_SIZE) (process_block block st))
      else Some (processed, st))"

declare block_loop.simps [code]

text \<open>
  The test of \<open>process\<close> is \<open>stored_size & input_length + stored_size >= BLOCK_SIZE\<close>: the comparison
  binds tighter than \<open>&\<close>, so it is the lowest bit of \<open>stored_size\<close> and the comparison.
\<close>

definition have_stored_block :: "u32 \<Rightarrow> u32 \<Rightarrow> bool" where
  "have_stored_block ssz input_length \<longleftrightarrow>
     ssz AND (if input_length + ssz \<ge> BLOCK_SIZE then 1 else 0) \<noteq> 0"

text \<open>Completing the stored block from the input.\<close>

definition fill_stored :: "byte list \<Rightarrow> u32 \<Rightarrow> md5_t \<Rightarrow> (u32 \<times> md5_t) option" where
  "fill_stored input input_length st =
     (if have_stored_block (stored_size st) input_length then
        do {
          head \<leftarrow> bytes_at (stored st) 0 (unat (stored_size st));
          block \<leftarrow> memcpy (replicate 64 0) 0 head;
          rest \<leftarrow> bytes_at input 0 (unat (BLOCK_SIZE - stored_size st));
          block \<leftarrow> memcpy block (unat (stored_size st)) rest;
          Some (BLOCK_SIZE - stored_size st, process_block block (st\<lparr>stored_size := 0\<rparr>))
        }
      else Some (0, st))"

text \<open>Keeping the bytes behind the last complete block.\<close>

definition store_rest :: "byte list \<Rightarrow> u32 \<Rightarrow> u32 \<Rightarrow> md5_t \<Rightarrow> md5_t option" where
  "store_rest input input_length processed st =
     (if processed \<noteq> input_length then
        do {
          tail \<leftarrow> bytes_at input (unat processed) (unat (input_length - processed));
          buf \<leftarrow> memcpy (stored st) (unat (stored_size st)) tail;
          Some (st\<lparr>stored := buf, stored_size := stored_size st + (input_length - processed)\<rparr>)
        }
      else Some (st\<lparr>stored_size := 0\<rparr>))"

definition process :: "byte list \<Rightarrow> u32 \<Rightarrow> md5_t \<Rightarrow> md5_t option" where
  "process input input_length st =
     (if \<not> finished st then
        do {
          (processed, st) \<leftarrow> fill_stored input input_length st;
          (processed, st) \<leftarrow> block_loop input input_length processed st;
          store_rest input input_length processed st
        }
      else Some st)"

definition get_result :: "md5_t \<Rightarrow> byte list" where
  "get_result st = le_split 4 (md5_A st) @ le_split 4 (md5_B st) @ le_split 4 (md5_C st) @ le_split 4 (md5_D st)"

section \<open>Signatures as text\<close>

definition HEX_STRING :: string where
  "HEX_STRING = ''0123456789abcdef''"

text \<open>\<open>str_p\<close> and \<open>max_p\<close> are offsets into the output buffer \<open>buf\<close>.\<close>

fun sig_to_string_loop :: "byte list \<Rightarrow> int \<Rightarrow> int \<Rightarrow> string \<Rightarrow> int \<times> string" where
  "sig_to_string_loop [] max_p str_p buf = (str_p, buf)"
| "sig_to_string_loop (b # bs) max_p str_p buf =
     (let high = unat b div 16; low = unat b mod 16
      in if str_p + 1 \<ge> max_p then (str_p, buf)
         else sig_to_string_loop bs max_p (str_p + 2)
                (buf[nat str_p := HEX_STRING ! high, nat (str_p + 1) := HEX_STRING ! low]))"

definition sig_to_string :: "byte list \<Rightarrow> string \<Rightarrow> int \<Rightarrow> string" where
  "sig_to_string sig buf str_len =
     (let (str_p, buf) = sig_to_string_loop (take MD5_SIZE sig) str_len 0 buf
      in if str_p < str_len then buf[nat str_p := CHR 0x00] else buf)"

text \<open>
  \<open>strchr\<close> also finds the terminating zero of \<open>HEX_STRING\<close>. The difference with a null pointer, for
  a character that is not there, is undefined.
\<close>

definition hex_value :: "char \<Rightarrow> nat option" where
  "hex_value c = List.find (\<lambda>i. (HEX_STRING @ [CHR 0x00]) ! i = c) [0..<17]"

fun sig_from_string_loop :: "nat \<Rightarrow> string \<Rightarrow> byte list option" where
  "sig_from_string_loop 0 s = Some []"
| "sig_from_string_loop (Suc n) (c # d # s) =
     do {
       high \<leftarrow> hex_value c;
       low \<leftarrow> hex_value d;
       sig \<leftarrow> sig_from_string_loop n s;
       Some (word_of_nat (high * 16 + low) # sig)
     }"
| "sig_from_string_loop (Suc n) _ = None"

definition sig_from_string :: "string \<Rightarrow> byte list option" where
  "sig_from_string s = sig_from_string_loop MD5_SIZE s"

section \<open>Completion\<close>

text \<open>The parts of \<open>finish\<close>: the counter, \<open>pad\<close> (an \<open>int\<close>), the writes behind the stored bytes.\<close>

definition add_stored_length :: "md5_t \<Rightarrow> md5_t" where
  "add_stored_length st =
     (let st = (if message_length_0 st + stored_size st < message_length_0 st
                then st\<lparr>message_length_1 := message_length_1 st + 1\<rparr> else st)
      in st\<lparr>message_length_0 := message_length_0 st + stored_size st\<rparr>)"

definition pad_length :: "u32 \<Rightarrow> int" where
  "pad_length ssz =
     (let pad = 64 - 4 * 2 - int (unat ssz) in if pad \<le> 0 then pad + 64 else pad)"

definition append_stored :: "byte list \<Rightarrow> md5_t \<Rightarrow> md5_t option" where
  "append_stored src st =
     do {
       buf \<leftarrow> memcpy (stored st) (unat (stored_size st)) src;
       Some (st\<lparr>stored := buf, stored_size := stored_size st + word_of_nat (length src)\<rparr>)
     }"

definition padded :: "md5_t \<Rightarrow> md5_t option" where
  "padded st =
     do {
       let st = add_stored_length st;
       let pad = pad_length (stored_size st);
       st \<leftarrow> (if pad > 0 then append_stored (0x80 # replicate (nat (pad - 1)) 0) st else Some st);
       let size_low = push_bit 3 (message_length_0 st AND 0x1FFFFFFF);
       st \<leftarrow> append_stored (le_split 4 size_low) st;
       let size_high = push_bit 3 (message_length_1 st) OR drop_bit 29 (message_length_0 st AND 0xE0000000);
       append_stored (le_split 4 size_high) st
     }"

definition finish :: "md5_t \<Rightarrow> md5_t option" where
  "finish st =
     (if \<not> finished st then
        do {
          st \<leftarrow> padded st;
          let st = process_block (take 64 (stored st)) st;
          let st = (if stored_size st > BLOCK_SIZE then process_block (drop 64 (stored st)) st else st);
          let st = st\<lparr>signature := get_result st\<rparr>;
          let st = st\<lparr>str := sig_to_string (signature st) (str st) (int MD5_STRING_SIZE)\<rparr>;
          Some (st\<lparr>finished := True\<rparr>)
        }
      else Some st)"

text \<open>The signature buffer the caller passes is filled only by the call that finishes.\<close>

definition finish_out :: "byte list option \<Rightarrow> md5_t \<Rightarrow> (byte list option \<times> md5_t) option" where
  "finish_out out st =
     map_option (\<lambda>st'. (if finished st then out
        else map_option (\<lambda>buf. take MD5_SIZE (signature st') @ drop MD5_SIZE buf) out, st')) (finish st)"

definition get_sig :: "byte list \<Rightarrow> md5_t \<Rightarrow> byte list" where
  "get_sig out st = (if finished st then take MD5_SIZE (signature st) @ drop MD5_SIZE out else out)"

definition get_string :: "string \<Rightarrow> md5_t \<Rightarrow> string" where
  "get_string out st = (if finished st then take MD5_STRING_SIZE (str st) @ drop MD5_STRING_SIZE out else out)"

text \<open>The one-shot constructor; \<open>raw\<close> is the object before its fields are set.\<close>

definition md5_digest :: "md5_t \<Rightarrow> byte list \<Rightarrow> u32 \<Rightarrow> md5_t option" where
  "md5_digest raw input input_length =
     do { st \<leftarrow> process input input_length (initialise raw); finish st }"

section \<open>RFC 1321\<close>

text \<open>
  The algorithm of the RFC, with the step number driving the function, the message word, the
  rotation and the constant, and the registers rotated after each step.
\<close>

definition rfc_fun :: "nat \<Rightarrow> u32 \<Rightarrow> u32 \<Rightarrow> u32 \<Rightarrow> u32" where
  "rfc_fun i b c d =
     (if i < 16 then (b AND c) OR (NOT b AND d)
      else if i < 32 then (b AND d) OR (c AND NOT d)
      else if i < 48 then b XOR c XOR d
      else c XOR (b OR NOT d))"

definition rfc_word :: "nat \<Rightarrow> nat" where
  "rfc_word i =
     (if i < 16 then i
      else if i < 32 then (5 * i + 1) mod 16
      else if i < 48 then (3 * i + 5) mod 16
      else (7 * i) mod 16)"

definition rfc_shift :: "nat \<Rightarrow> nat" where
  "rfc_shift i =
     (if i < 16 then [7, 12, 17, 22]
      else if i < 32 then [5, 9, 14, 20]
      else if i < 48 then [4, 11, 16, 23]
      else [6, 10, 15, 21]) ! (i mod 4)"

fun rfc_step :: "u32 list \<Rightarrow> nat \<Rightarrow> regs \<Rightarrow> regs" where
  "rfc_step X i (a, b, c, d) =
     (d, b + word_rotl (rfc_shift i) (a + rfc_fun i b c d + X ! rfc_word i + T ! i), b, c)"

definition block_words :: "byte list \<Rightarrow> u32 list" where
  "block_words block = map (\<lambda>i. le_join (take 4 (drop (4 * i) block))) [0..<16]"

fun add_regs :: "regs \<Rightarrow> regs \<Rightarrow> regs" where
  "add_regs (a, b, c, d) (a', b', c', d') = (a + a', b + b', c + c', d + d')"

definition rfc_compress :: "regs \<Rightarrow> byte list \<Rightarrow> regs" where
  "rfc_compress r block = add_regs (fold (rfc_step (block_words block)) [0..<64] r) r"

definition rfc_blocks :: "byte list \<Rightarrow> regs \<Rightarrow> regs" where
  "rfc_blocks msg r = foldl (\<lambda>r i. rfc_compress r (take 64 (drop (64 * i) msg))) r [0..<length msg div 64]"

definition rfc_init :: regs where
  "rfc_init = (0x67452301, 0xefcdab89, 0x98badcfe, 0x10325476)"

definition rfc_pad :: "byte list \<Rightarrow> byte list" where
  "rfc_pad msg = msg @ 0x80 # replicate ((119 - length msg mod 64) mod 64) 0 @
     le_split 8 (word_of_nat (8 * length msg) :: u64)"

fun regs_bytes :: "regs \<Rightarrow> byte list" where
  "regs_bytes (a, b, c, d) = le_split 4 a @ le_split 4 b @ le_split 4 c @ le_split 4 d"

definition rfc_md5 :: "byte list \<Rightarrow> byte list" where
  "rfc_md5 msg = regs_bytes (rfc_blocks (rfc_pad msg) rfc_init)"

section \<open>The unrolled steps are those of the RFC\<close>

lemma rotate_rotl: "s < 32 \<Longrightarrow> cyclic_left_rotate w s = word_rotl s w"
proof (rule bit_word_eqI)
  fix n assume s: "s < 32" and "n < LENGTH(32)"
  then have n: "n < 32" by simp
  show "bit (cyclic_left_rotate w s) n = bit (word_rotl s w) n"
  proof (cases "s \<le> n")
    case True
    then have "(n + 32 - s) mod 32 = n - s" using n by (simp add: mod_if)
    moreover have "\<not> bit w (32 + n - s)" using True by (simp add: bit_word_iff_drop_bit_and)
    ultimately show ?thesis using True n by (simp add: cyclic_left_rotate_def bit_simps word_rotl_eq_word_rotr)
  next
    case False
    then have "(n + 32 - s) mod 32 = 32 + n - s" using s by (simp add: add.commute)
    then show ?thesis using False n s by (simp add: cyclic_left_rotate_def bit_simps word_rotl_eq_word_rotr)
  qed
qed

text \<open>How the registers of the RFC stand after one, two and three steps.\<close>

fun view1 :: "regs \<Rightarrow> regs" where "view1 (A, B, C, D) = (D, A, B, C)"
fun view2 :: "regs \<Rightarrow> regs" where "view2 (A, B, C, D) = (C, D, A, B)"
fun view3 :: "regs \<Rightarrow> regs" where "view3 (A, B, C, D) = (B, C, D, A)"

definition step_is :: "step_fun \<Rightarrow> u32 list \<Rightarrow> nat \<Rightarrow> bool" where
  "step_is f X i \<longleftrightarrow> (\<forall>a b c d. rfc_step X i (a, b, c, d) = (d, f a b c d, b, c))"

lemma quad_steps:
  assumes "step_is f0 X i0" "step_is f1 X i1" "step_is f2 X i2" "step_is f3 X i3"
  shows "bcda f3 (cdab f2 (dabc f1 (abcd f0 r))) =
    rfc_step X i3 (rfc_step X i2 (rfc_step X i1 (rfc_step X i0 r)))"
  using assms by (cases r) (simp add: step_is_def)

lemma step_isI:
  "rfc_fun i = md5_F \<Longrightarrow> rfc_shift i = S1 ! s \<Longrightarrow> S1 ! s < 32 \<Longrightarrow> rfc_word i = k \<Longrightarrow> step_is (FF (X ! k) s i) X i"
  "rfc_fun i = md5_G \<Longrightarrow> rfc_shift i = S2 ! s \<Longrightarrow> S2 ! s < 32 \<Longrightarrow> rfc_word i = k \<Longrightarrow> step_is (GG (X ! k) s i) X i"
  "rfc_fun i = md5_H \<Longrightarrow> rfc_shift i = S3 ! s \<Longrightarrow> S3 ! s < 32 \<Longrightarrow> rfc_word i = k \<Longrightarrow> step_is (HH (X ! k) s i) X i"
  "rfc_fun i = md5_I \<Longrightarrow> rfc_shift i = S4 ! s \<Longrightarrow> S4 ! s < 32 \<Longrightarrow> rfc_word i = k \<Longrightarrow> step_is (II (X ! k) s i) X i"
  by (simp_all add: step_is_def FF_def GG_def HH_def II_def Let_def rotate_rotl add.commute add.left_commute)

lemma rfc_fun_simps:
  "i < 16 \<Longrightarrow> rfc_fun i = md5_F"
  "16 \<le> i \<Longrightarrow> i < 32 \<Longrightarrow> rfc_fun i = md5_G"
  "32 \<le> i \<Longrightarrow> i < 48 \<Longrightarrow> rfc_fun i = md5_H"
  "48 \<le> i \<Longrightarrow> rfc_fun i = md5_I"
  by (intro ext, simp add: rfc_fun_def md5_F_def md5_G_def md5_H_def md5_I_def xor.assoc)+

lemma S_simps:
  "S1 ! 0 = 7" "S1 ! 1 = 12" "S1 ! 2 = 17" "S1 ! 3 = 22"
  "S2 ! 0 = 5" "S2 ! 1 = 9" "S2 ! 2 = 14" "S2 ! 3 = 20"
  "S3 ! 0 = 4" "S3 ! 1 = 11" "S3 ! 2 = 16" "S3 ! 3 = 23"
  "S4 ! 0 = 6" "S4 ! 1 = 10" "S4 ! 2 = 15" "S4 ! 3 = 21"
  by (simp_all add: S1_def S2_def S3_def S4_def eval_nat_numeral)


lemmas quad_rules = step_isI rfc_fun_simps S_simps rfc_shift_def rfc_word_def

lemma quad_simps:
  "step_is (FF (X ! k0) 0 i0) X i0 \<Longrightarrow> step_is (FF (X ! k1) 1 i1) X i1 \<Longrightarrow>
   step_is (FF (X ! k2) 2 i2) X i2 \<Longrightarrow> step_is (FF (X ! k3) 3 i3) X i3 \<Longrightarrow>
   bcda (FF (X ! k3) 3 i3) (cdab (FF (X ! k2) 2 i2) (dabc (FF (X ! k1) 1 i1) (abcd (FF (X ! k0) 0 i0) r))) =
     rfc_step X i3 (rfc_step X i2 (rfc_step X i1 (rfc_step X i0 r)))"
  "step_is (GG (X ! k0) 0 i0) X i0 \<Longrightarrow> step_is (GG (X ! k1) 1 i1) X i1 \<Longrightarrow>
   step_is (GG (X ! k2) 2 i2) X i2 \<Longrightarrow> step_is (GG (X ! k3) 3 i3) X i3 \<Longrightarrow>
   bcda (GG (X ! k3) 3 i3) (cdab (GG (X ! k2) 2 i2) (dabc (GG (X ! k1) 1 i1) (abcd (GG (X ! k0) 0 i0) r))) =
     rfc_step X i3 (rfc_step X i2 (rfc_step X i1 (rfc_step X i0 r)))"
  "step_is (HH (X ! k0) 0 i0) X i0 \<Longrightarrow> step_is (HH (X ! k1) 1 i1) X i1 \<Longrightarrow>
   step_is (HH (X ! k2) 2 i2) X i2 \<Longrightarrow> step_is (HH (X ! k3) 3 i3) X i3 \<Longrightarrow>
   bcda (HH (X ! k3) 3 i3) (cdab (HH (X ! k2) 2 i2) (dabc (HH (X ! k1) 1 i1) (abcd (HH (X ! k0) 0 i0) r))) =
     rfc_step X i3 (rfc_step X i2 (rfc_step X i1 (rfc_step X i0 r)))"
  "step_is (II (X ! k0) 0 i0) X i0 \<Longrightarrow> step_is (II (X ! k1) 1 i1) X i1 \<Longrightarrow>
   step_is (II (X ! k2) 2 i2) X i2 \<Longrightarrow> step_is (II (X ! k3) 3 i3) X i3 \<Longrightarrow>
   bcda (II (X ! k3) 3 i3) (cdab (II (X ! k2) 2 i2) (dabc (II (X ! k1) 1 i1) (abcd (II (X ! k0) 0 i0) r))) =
     rfc_step X i3 (rfc_step X i2 (rfc_step X i1 (rfc_step X i0 r)))"
  by (rule quad_steps; assumption)+

lemma step_lists:
  "[0..<64] = [0..<16] @ [16..<32] @ [32..<48] @ [48..<64]"
  "[0..<16] = [0, 1, 2, 3, 4, 5, 6, 7, 8, 9, 10, 11, 12, 13, 14, 15]"
  "[16..<32] = [16, 17, 18, 19, 20, 21, 22, 23, 24, 25, 26, 27, 28, 29, 30, 31]"
  "[32..<48] = [32, 33, 34, 35, 36, 37, 38, 39, 40, 41, 42, 43, 44, 45, 46, 47]"
  "[48..<64] = [48, 49, 50, 51, 52, 53, 54, 55, 56, 57, 58, 59, 60, 61, 62, 63]"
  by (simp_all add: upt_rec)

lemma rounds_rfc:
  "run_steps (round1 X) r = fold (rfc_step X) [0..<16] r"
  "run_steps (round2 X) r = fold (rfc_step X) [16..<32] r"
  "run_steps (round3 X) r = fold (rfc_step X) [32..<48] r"
  "run_steps (round4 X) r = fold (rfc_step X) [48..<64] r"
  by (simp_all add: run_steps_def round1_def round2_def round3_def round4_def step_lists(2-) quad_simps quad_rules
      del: One_nat_def rfc_step.simps abcd.simps bcda.simps cdab.simps dabc.simps upt_rec_numeral)

lemma steps_rfc:
  "run_steps (round1 X @ round2 X @ round3 X @ round4 X) r = fold (rfc_step X) [0..<64] r"
  unfolding step_lists(1) fold_append comp_def rounds_rfc [symmetric] by (simp add: run_steps_def)

section \<open>The length counter\<close>

definition msg_count :: "u32 \<Rightarrow> u32 \<Rightarrow> u64" where
  "msg_count hi lo = push_bit 32 (ucast hi) OR ucast lo"

lemma unat_ucast_32_64: "unat (ucast (w :: u32) :: u64) = unat w"
  by (simp add: unsigned_ucast_eq take_bit_nat_eq_self unsigned_less [THEN less_le_trans])

lemma unat_msg_count: "unat (msg_count hi lo) = unat hi * 2 ^ 32 + unat lo"
proof -
  have b: "unat hi < 2 ^ 32" "unat lo < 2 ^ 32" using unsigned_less [where 'b = 32 and ?'a = nat] by auto
  have "unat (push_bit 32 (ucast hi :: u64)) = unat hi * 2 ^ 32"
    using b(1) by (simp only: unsigned_push_bit_eq unat_ucast_32_64)
      (simp add: push_bit_eq_mult take_bit_nat_eq_self)
  then show ?thesis
    by (simp only: msg_count_def unsigned_or_eq unat_ucast_32_64 nat_or_add [OF b(2)])
qed

text \<open>Adding to the low word, with the carry the code computes by comparing with the old value.\<close>

lemma msg_count_carry:
  "msg_count (if lo + x < lo then hi + 1 else hi) (lo + x) = msg_count hi lo + ucast x"
proof (rule unsigned_word_eqI [where ?'a = nat])
  define h l k where "h = unat hi" and "l = unat lo" and "k = unat x"
  have b: "h < 2 ^ 32" "l < 2 ^ 32" "k < 2 ^ 32"
    unfolding h_def l_def k_def using unsigned_less [where 'b = 32 and ?'a = nat] by auto
  have lo: "unat (lo + x) = (l + k) mod 2 ^ 32" by (simp add: unat_word_ariths l_def k_def)
  have hi: "unat (hi + 1) = (h + 1) mod 2 ^ 32" by (simp add: unat_word_ariths h_def)
  have carry: "lo + x < lo \<longleftrightarrow> 2 ^ 32 \<le> l + k"
    using b by (simp only: word_less_nat_alt lo l_def [symmetric]) (auto simp: mod_if)
  have r: "unat (msg_count hi lo + ucast x) = (h * 2 ^ 32 + l + k) mod 2 ^ 64"
    by (simp only: unat_word_ariths unat_msg_count unat_ucast_32_64 h_def l_def k_def) simp
  show "unat (msg_count (if lo + x < lo then hi + 1 else hi) (lo + x)) = unat (msg_count hi lo + ucast x)"
  proof (cases "2 ^ 32 \<le> l + k")
    case False
    then show ?thesis using b carry by (simp add: unat_msg_count lo r h_def [symmetric])
  next
    case True
    then have "(l + k) mod 2 ^ 32 = l + k - 2 ^ 32" using b by (simp add: mod_if)
    then show ?thesis using True carry b
      by (cases "h + 1 = 2 ^ 32") (auto simp: unat_msg_count lo hi r mod_if)
  qed
qed

lemma length_bytes:
  "le_split 4 (push_bit 3 (lo AND 0x1FFFFFFF)) @
   le_split 4 (push_bit 3 hi OR drop_bit 29 (lo AND 0xE0000000)) = le_split 8 (push_bit 3 (msg_count hi lo))"
proof -
  have m: "(0x1FFFFFFF :: u32) = mask 29" "(0xE0000000 :: u32) = push_bit 29 (mask 3)"
    by (simp_all add: mask_eq_exp_minus_1 push_bit_eq_mult)
  have s: "le_split 8 (w :: u64) = le_split 4 (ucast w :: u32) @ le_split 4 (ucast (drop_bit 32 w) :: u32)" for w
  proof (rule le_split_eqI)
    fix i j :: nat
    assume "i < 8" "j < 8"
    then show "bit w (8 * i + j) =
        bit ((le_split 4 (ucast w :: u32) @ le_split 4 (ucast (drop_bit 32 w) :: u32)) ! i) j"
      by (cases "i < 4") (auto simp: nth_append nth_le_split bit_simps algebra_simps diff_mult_distrib2)
  qed simp
  have "ucast (push_bit 3 (msg_count hi lo)) = push_bit 3 (lo AND 0x1FFFFFFF)"
    unfolding msg_count_def m by (auto intro!: bit_word_eqI simp: bit_simps)
  moreover have "ucast (drop_bit 32 (push_bit 3 (msg_count hi lo))) =
      push_bit 3 hi OR drop_bit 29 (lo AND 0xE0000000)"
  proof (rule bit_word_eqI)
    fix n
    have "3 \<le> n \<Longrightarrow> \<not> bit lo (29 + n)" using bit_imp_le_length [of lo "29 + n"] by auto
    then show "bit (ucast (drop_bit 32 (push_bit 3 (msg_count hi lo))) :: u32) n =
        bit (push_bit 3 hi OR drop_bit 29 (lo AND 0xE0000000)) n" if "n < LENGTH(32)"
      using that unfolding msg_count_def m by (auto simp: bit_simps)
  qed
  ultimately show ?thesis by (simp only: s)
qed

section \<open>Blocks of a message\<close>

lemma rfc_blocks_short [simp]: "length msg < 64 \<Longrightarrow> rfc_blocks msg r = r"
  by (simp add: rfc_blocks_def)

lemma rfc_blocks_append:
  assumes "64 dvd length p"
  shows "rfc_blocks (p @ q) r = rfc_blocks q (rfc_blocks p r)"
proof -
  obtain k where k: "length p = 64 * k" using assms by (elim dvdE)
  have "[0..<length (p @ q) div 64] = [0..<k] @ map (\<lambda>i. i + k) [0..<length q div 64]"
    using upt_add_eq_append [of 0 k "length q div 64"] by (simp add: k map_add_upt add.commute)
  moreover have "rfc_blocks p r = foldl (\<lambda>r i. rfc_compress r (take 64 (drop (64 * i) (p @ q)))) r [0..<k]"
    unfolding rfc_blocks_def k using k by (intro foldl_cong) auto
  ultimately show ?thesis
    by (simp add: rfc_blocks_def foldl_map k distrib_left)
qed

lemma rfc_blocks_block: "length b = 64 \<Longrightarrow> rfc_blocks b r = rfc_compress r b"
  by (simp add: rfc_blocks_def)

section \<open>What the object has seen\<close>

text \<open>
  \<open>md5_inv p r st\<close>: the blocks of \<open>p\<close> are compressed and counted, and the bytes \<open>r\<close> wait in
  \<open>stored\<close>.
\<close>

definition regs_of :: "md5_t \<Rightarrow> regs" where
  "regs_of st = (md5_A st, md5_B st, md5_C st, md5_D st)"

definition count_of :: "md5_t \<Rightarrow> u64" where
  "count_of st = msg_count (message_length_1 st) (message_length_0 st)"

definition md5_inv :: "byte list \<Rightarrow> byte list \<Rightarrow> md5_t \<Rightarrow> bool" where
  "md5_inv p r st \<longleftrightarrow> \<not> finished st \<and> 64 dvd length p \<and> regs_of st = rfc_blocks p rfc_init \<and>
     count_of st = word_of_nat (length p) \<and> unat (stored_size st) = length r \<and>
     length (stored st) = 128 \<and> length r \<le> 128 \<and> take (length r) (stored st) = r \<and> length (str st) = 33"

lemma initialise_inv: "length (stored raw) = 128 \<Longrightarrow> length (str raw) = 33 \<Longrightarrow> md5_inv [] [] (initialise raw)"
  by (simp add: md5_inv_def initialise_def regs_of_def rfc_init_def count_of_def msg_count_def)

lemma process_block_effect:
  "regs_of (process_block b st) = rfc_compress (regs_of st) b"
  "count_of (process_block b st) = count_of st + 64"
  "stored_size (process_block b st) = stored_size st"
  "stored (process_block b st) = stored st"
  "finished (process_block b st) = finished st"
  "signature (process_block b st) = signature st"
  "str (process_block b st) = str st"
  using msg_count_carry [of "message_length_0 st" BLOCK_SIZE "message_length_1 st"]
  by (auto simp: process_block_def Let_def regs_of_def rfc_compress_def block_words_def steps_rfc
      count_of_def BLOCK_SIZE_def split: prod.splits if_splits)

lemma process_block_inv:
  assumes "md5_inv p r st" and "length b = 64"
  shows "md5_inv (p @ b) r (process_block b st)"
  using assms by (simp add: md5_inv_def process_block_effect rfc_blocks_append rfc_blocks_block)

section \<open>The block loop\<close>

lemma unat_small: "n < 2 ^ 32 \<Longrightarrow> unat (word_of_nat n :: u32) = n"
  by (simp only: unsigned_of_nat) (simp add: take_bit_nat_eq_self)

lemma unat_BLOCK_SIZE: "unat BLOCK_SIZE = 64"
  by (simp add: BLOCK_SIZE_def)

lemma unat_plus_block: "k + 64 < 2 ^ 32 \<Longrightarrow> unat (word_of_nat k + BLOCK_SIZE) = k + 64"
  by (simp only: unat_word_ariths unat_BLOCK_SIZE unat_small) simp

lemma plus_block_le:
  assumes "k + 64 < 2 ^ 32" and "L < 2 ^ 32"
  shows "word_of_nat k + BLOCK_SIZE \<le> word_of_nat L \<longleftrightarrow> k + 64 \<le> L"
  using assms by (simp only: word_le_nat_alt unat_plus_block unat_small)

lemma plus_block: "word_of_nat k + BLOCK_SIZE = word_of_nat (k + 64)"
  by (simp add: BLOCK_SIZE_def)

lemma block_loop_inv:
  assumes "md5_inv p r st" and "k \<le> length input" and "length input + 64 < 2 ^ 32"
  shows "\<exists>st'. block_loop input (word_of_nat (length input)) (word_of_nat k) st =
      Some (word_of_nat (k + 64 * ((length input - k) div 64)), st') \<and>
    md5_inv (p @ take (64 * ((length input - k) div 64)) (drop k input)) r st'"
  using assms
proof (induction "(length input - k) div 64" arbitrary: p st k)
  case 0
  have "\<not> k + 64 \<le> length input" using "0.hyps" "0.prems" by (simp add: div_eq_0_iff)
  moreover have "k + 64 < 2 ^ 32" "length input < 2 ^ 32" using "0.prems" by simp_all
  ultimately show ?case using "0.prems"(1) "0.hyps" by (subst block_loop.simps) (simp add: plus_block_le)
next
  case (Suc n)
  define L where "L = length input"
  have w: "k + 64 < 2 ^ 32" "L < 2 ^ 32" "k < 2 ^ 32" using Suc.prems by (simp_all add: L_def)
  have le: "k + 64 \<le> L"
  proof (rule ccontr)
    assume "\<not> k + 64 \<le> L"
    then have "(L - k) div 64 = 0" by simp
    then show False using Suc.hyps(2) by (simp add: L_def)
  qed
  have n: "n = (L - (k + 64)) div 64"
  proof -
    obtain d where d: "L = k + 64 + d" using le by (auto simp: le_iff_add)
    have "Suc n = (64 + d) div 64" using Suc.hyps(2) by (simp add: L_def [symmetric] d)
    then show ?thesis by (simp add: d)
  qed
  define b where "b = take 64 (drop k input)"
  have b: "length b = 64" using le by (simp add: b_def L_def)
  have "block_loop input (word_of_nat L) (word_of_nat k) st =
      block_loop input (word_of_nat L) (word_of_nat (k + 64)) (process_block b st)"
    using le by (subst block_loop.simps)
      (simp only: plus_block word_le_nat_alt unat_small [OF w(1)] unat_small [OF w(2)] unat_small [OF w(3)] if_True bytes_at_def
        L_def [symmetric] b_def option.case)
  moreover obtain st' where "block_loop input (word_of_nat L) (word_of_nat (k + 64)) (process_block b st) =
      Some (word_of_nat (k + 64 + 64 * n), st')"
    "md5_inv ((p @ b) @ take (64 * n) (drop (k + 64) input)) r st'"
    using Suc.hyps(1) [of "k + 64", OF n [unfolded L_def] process_block_inv [OF Suc.prems(1) b]] le Suc.prems(3) n
    unfolding L_def by auto
  moreover have "take (64 * Suc n) (drop k input) = b @ take (64 * n) (drop (k + 64) input)"
    by (simp add: b_def take_add add.commute)
  moreover have "(length input - k) div 64 = Suc n" using Suc.hyps(2) by simp
  ultimately show ?case by (simp add: L_def algebra_simps)
qed

lemma memcpy_some: "off + length src \<le> length buf \<Longrightarrow>
    memcpy buf off src = Some (take off buf @ src @ drop (off + length src) buf)"
  by (simp add: memcpy_def)

lemma have_stored_block_iff:
  assumes "unat ssz = s" and "s + L < 2 ^ 32"
  shows "have_stored_block ssz (word_of_nat L) \<longleftrightarrow> odd s \<and> 64 \<le> s + L"
proof -
  have "unat (word_of_nat L + ssz) = L + s"
    using assms by (simp only: unat_word_ariths unsigned_of_nat assms(1)) (simp add: take_bit_nat_eq_self)
  moreover have "ssz AND 1 \<noteq> 0 \<longleftrightarrow> odd s"
  proof -
    have "bit ssz 0 \<longleftrightarrow> bit (unat ssz) 0" by (simp only: bit_unsigned_iff) simp
    then show ?thesis using assms(1) by (simp add: and_one_eq mod_2_eq_odd bit_0)
  qed
  ultimately show ?thesis
    by (simp only: have_stored_block_def word_le_nat_alt unat_BLOCK_SIZE add.commute [of s]) auto
qed

text \<open>
  The general behaviour of \<open>process\<close>. When a block is completed from \<open>stored\<close>, the object has seen
  the pending bytes and then the input. Otherwise the complete blocks of the input come first, and
  the pending bytes stay in front of what is left of it, or are lost when nothing is left.
\<close>

lemma store_rest_inv:
  assumes "md5_inv p r st" and "k \<le> length input" and "length input < 2 ^ 32"
    and "length r + (length input - k) \<le> 128"
  shows "\<exists>st'. store_rest input (word_of_nat (length input)) (word_of_nat k) st = Some st' \<and>
    md5_inv p (if k = length input then [] else r @ drop k input) st'"
proof -
  define L where "L = length input"
  have w: "unat (word_of_nat k :: u32) = k" "unat (word_of_nat L :: u32) = L"
    using assms unfolding L_def by (simp_all only: unat_small)
  have d: "(word_of_nat L - word_of_nat k :: u32) = word_of_nat (L - k)"
    using assms(2) by (simp add: L_def of_nat_diff)
  have u: "unat (word_of_nat (L - k) :: u32) = L - k" using assms(3) by (simp add: L_def unat_small)
  have inv: "unat (stored_size st) = length r" "length (stored st) = 128" "take (length r) (stored st) = r"
    using assms(1) by (auto simp: md5_inv_def)
  have e: "word_of_nat k = (word_of_nat L :: u32) \<longleftrightarrow> k = L" using w by metis
  show ?thesis
  proof (cases "k = L")
    case True
    then show ?thesis using assms(1)
      by (simp add: store_rest_def L_def md5_inv_def regs_of_def count_of_def)
  next
    case False
    let ?t = "drop k input"
    have b: "bytes_at input k (L - k) = Some ?t" using assms(2) by (simp add: bytes_at_def L_def)
    have m: "memcpy (stored st) (length r) ?t = Some (r @ ?t @ drop (length r + (L - k)) (stored st))"
      using assms(4) inv by (simp add: memcpy_def L_def)
    have s: "unat (stored_size st + word_of_nat (L - k)) = length r + (L - k)"
      using assms(4) by (simp only: unat_word_ariths inv u) (simp add: L_def)
    have "md5_inv p (r @ ?t) (st\<lparr>stored := r @ ?t @ drop (length r + (L - k)) (stored st),
        stored_size := stored_size st + word_of_nat (L - k)\<rparr>)"
      using assms inv(2) s by (simp add: md5_inv_def regs_of_def count_of_def L_def)
    moreover have "store_rest input (word_of_nat L) (word_of_nat k) st =
        Some (st\<lparr>stored := r @ ?t @ drop (length r + (L - k)) (stored st),
          stored_size := stored_size st + word_of_nat (L - k)\<rparr>)"
      using False by (simp only: store_rest_def e d u w b inv(1)) (simp add: m)
    ultimately show ?thesis using False by (simp add: L_def)
  qed
qed

lemma fill_stored_inv:
  assumes "md5_inv p r st" and "odd (length r)" and "length r < 64" and "64 \<le> length r + length input"
    and "length input + 128 < 2 ^ 32"
  shows "\<exists>st'. fill_stored input (word_of_nat (length input)) st = Some (word_of_nat (64 - length r), st') \<and>
    md5_inv (p @ r @ take (64 - length r) input) [] st'"
proof -
  define s where "s = length r"
  have inv: "unat (stored_size st) = s" "length (stored st) = 128" "take s (stored st) = r"
    using assms(1) by (auto simp: md5_inv_def s_def)
  have hs: "have_stored_block (stored_size st) (word_of_nat (length input))"
    using have_stored_block_iff [OF inv(1), of "length input"] assms by (simp add: s_def)
  have u: "unat (BLOCK_SIZE - stored_size st) = 64 - s"
    using assms(3) by (simp add: unat_sub_if' unat_BLOCK_SIZE inv(1) s_def)
  have w: "BLOCK_SIZE - stored_size st = word_of_nat (64 - s)" unfolding u [symmetric] by simp
  have u': "unat (word_of_nat (64 - s) :: u32) = 64 - s" using u by (simp only: w)
  have h: "bytes_at (stored st) 0 s = Some r" using inv assms(3) by (simp add: bytes_at_def s_def)
  have m1: "memcpy (replicate 64 0) 0 r = Some (r @ replicate (64 - s) 0)"
    using assms(3) by (simp add: memcpy_def s_def)
  have t: "bytes_at input 0 (64 - s) = Some (take (64 - s) input)"
    using assms(4) by (simp add: bytes_at_def s_def)
  have m2: "memcpy (r @ replicate (64 - s) 0) s (take (64 - s) input) = Some (r @ take (64 - s) input)"
    using assms(3,4) by (simp add: memcpy_def s_def)
  let ?b = "r @ take (64 - s) input"
  have "fill_stored input (word_of_nat (length input)) st =
      Some (word_of_nat (64 - s), process_block ?b (st\<lparr>stored_size := 0\<rparr>))"
    by (simp only: fill_stored_def hs if_True inv(1) w u' h t) (simp add: m1 m2 t)
  moreover have "md5_inv p [] (st\<lparr>stored_size := 0\<rparr>)"
    using assms(1) by (simp add: md5_inv_def regs_of_def count_of_def)
  then have "md5_inv (p @ ?b) [] (process_block ?b (st\<lparr>stored_size := 0\<rparr>))"
    by (rule process_block_inv) (use assms(3,4) in \<open>simp add: s_def\<close>)
  ultimately show ?thesis by (simp add: s_def)
qed

text \<open>
  The general behaviour of \<open>process\<close>. When a block is completed from \<open>stored\<close>, the object has seen
  the pending bytes and then the input. Otherwise the complete blocks of the input come first, and
  the pending bytes stay in front of what is left of it, or are lost when nothing is left.
\<close>

lemma process_fill:
  assumes "md5_inv p r st" and "odd (length r)" and "length r < 64" and "64 \<le> length r + length input"
    and "length input + 128 < 2 ^ 32"
  shows "\<exists>q t st'. process input (word_of_nat (length input)) st = Some st' \<and> r @ input = q @ t \<and>
    length t < 64 \<and> md5_inv (p @ q) t st'"
proof -
  define k n where "k = 64 - length r" and "n = (length input - k) div 64"
  obtain st1 where f: "fill_stored input (word_of_nat (length input)) st = Some (word_of_nat k, st1)"
    and i1: "md5_inv (p @ r @ take k input) [] st1"
    using fill_stored_inv [OF assms] unfolding k_def by auto
  have k: "k \<le> length input" using assms(4) by (simp add: k_def)
  obtain st2 where l: "block_loop input (word_of_nat (length input)) (word_of_nat k) st1 =
      Some (word_of_nat (k + 64 * n), st2)"
    and i2: "md5_inv ((p @ r @ take k input) @ take (64 * n) (drop k input)) [] st2"
    using block_loop_inv [OF i1 k] assms(5) unfolding n_def by auto
  have n: "k + 64 * n \<le> length input" "length input - (k + 64 * n) < 64"
    using k unfolding n_def by linarith+
  obtain st3 where s: "store_rest input (word_of_nat (length input)) (word_of_nat (k + 64 * n)) st2 = Some st3"
    and i3: "md5_inv ((p @ r @ take k input) @ take (64 * n) (drop k input)) (drop (k + 64 * n) input) st3"
    using store_rest_inv [OF i2 n(1)] n assms(5) by (auto split: if_splits)
  have "process input (word_of_nat (length input)) st = Some st3"
    using assms(1) f l s by (simp add: process_def md5_inv_def)
  moreover have "take k input @ take (64 * n) (drop k input) @ drop (k + 64 * n) input = input"
    by (metis append_take_drop_id drop_drop add.commute)
  ultimately show ?thesis using i3 n(2)
    by (intro exI [of _ "r @ take k input @ take (64 * n) (drop k input)"]
        exI [of _ "drop (k + 64 * n) input"] exI [of _ st3]) simp
qed

lemma process_no_fill:
  assumes "md5_inv p r st" and "even (length r) \<or> length r + length input < 64" and "length r < 64"
    and "length input + 128 < 2 ^ 32" and "k = 64 * (length input div 64)"
  shows "\<exists>st'. process input (word_of_nat (length input)) st = Some st' \<and>
    md5_inv (p @ take k input) (if k = length input then [] else r @ drop k input) st'"
proof -
  have "unat (stored_size st) = length r" using assms(1) by (simp add: md5_inv_def)
  from have_stored_block_iff [OF this, of "length input"]
  have f: "fill_stored input (word_of_nat (length input)) st = Some (word_of_nat 0, st)"
    using assms(2-4) by (auto simp: fill_stored_def)
  have w: "length input + 64 < 2 ^ 32" "length input < 2 ^ 32" using assms(4) by simp_all
  obtain st2 where l: "block_loop input (word_of_nat (length input)) (word_of_nat 0) st = Some (word_of_nat k, st2)"
    and i2: "md5_inv (p @ take k input) r st2"
    using block_loop_inv [OF assms(1), of 0 input] w unfolding assms(5) by auto
  have k: "k \<le> length input" "length r + (length input - k) \<le> 128"
    using assms(3) unfolding assms(5) by linarith+
  from store_rest_inv [OF i2 k(1) w(2) k(2)] show ?thesis
    using assms(1) f l by (auto simp: process_def md5_inv_def)
qed

section \<open>Completion\<close>

lemma count_add: "msg_count (if lo + x < lo then hi + 1 else hi) (lo + x) = c + ucast x"
  if "msg_count hi lo = c"
  using msg_count_carry [of lo x hi] that by simp

lemma rfc_pad_tail:
  assumes "64 dvd length p" and "length r < 64"
  shows "rfc_pad (p @ r) = p @ r @ 0x80 # replicate ((119 - length r) mod 64) 0 @
    le_split 8 (push_bit 3 (word_of_nat (length p + length r) :: u64))"
proof -
  have "(word_of_nat (8 * (length p + length r)) :: u64) = push_bit 3 (word_of_nat (length p + length r))"
    by (simp add: push_bit_eq_mult)
  moreover have "length (p @ r) mod 64 = length r"
    using assms by (simp add: mod_add_left_eq [of "length p", symmetric] dvd_imp_mod_0)
  ultimately show ?thesis by (simp only: rfc_pad_def) simp
qed

lemma append_stored_inv:
  assumes "take (length a) (stored st) = a" and "unat (stored_size st) = length a"
    and "length (stored st) = 128" and "length a + length src \<le> 128"
  shows "\<exists>st'. append_stored src st = Some st' \<and> take (length (a @ src)) (stored st') = a @ src \<and>
    unat (stored_size st') = length (a @ src) \<and> length (stored st') = 128 \<and>
    regs_of st' = regs_of st \<and> finished st' = finished st \<and> str st' = str st \<and>
    message_length_0 st' = message_length_0 st \<and> message_length_1 st' = message_length_1 st"
proof -
  have "unat (word_of_nat (length src) :: u32) = length src" using assms(4) by (simp add: unat_small)
  then have "unat (stored_size st + word_of_nat (length src)) = length a + length src"
    using assms(4) by (simp only: unat_word_ariths assms(2)) simp
  then show ?thesis using assms by (simp add: append_stored_def memcpy_def regs_of_def)
qed

lemma padded_inv:
  assumes "md5_inv p r st" and "length r < 64"
  defines "m \<equiv> drop (length p) (rfc_pad (p @ r))"
  shows "\<exists>st'. padded st = Some st' \<and> regs_of st' = regs_of st \<and> \<not> finished st' \<and> str st' = str st \<and>
    take (length m) (stored st') = m \<and> length (stored st') = 128 \<and>
    unat (stored_size st') = length m \<and> (length m = 64 \<or> length m = 128)"
proof -
  define z where "z = (119 - length r) mod 64"
  define st0 where "st0 = add_stored_length st"
  define hi lo where "hi = message_length_1 st0" and "lo = message_length_0 st0"
  have inv: "\<not> finished st" "unat (stored_size st) = length r" "length (stored st) = 128" "take (length r) (stored st) = r"
      "msg_count (message_length_1 st) (message_length_0 st) = word_of_nat (length p)" "64 dvd length p"
    using assms(1) by (auto simp: md5_inv_def count_of_def)
  have st0: "stored st0 = stored st" "stored_size st0 = stored_size st" "regs_of st0 = regs_of st"
      "finished st0 = finished st" "str st0 = str st"
    by (simp_all add: st0_def add_stored_length_def regs_of_def)
  have us: "(ucast (stored_size st) :: u64) = word_of_nat (length r)"
    unfolding inv(2) [symmetric] by simp
  have c: "msg_count hi lo = word_of_nat (length p + length r)"
    using count_add [OF inv(5), of "stored_size st"] unfolding us
    by (simp add: hi_def lo_def st0_def add_stored_length_def split: if_splits)
  have m: "m = ((r @ 0x80 # replicate z 0) @ le_split 4 (push_bit 3 (lo AND 0x1FFFFFFF))) @
      le_split 4 (push_bit 3 hi OR drop_bit 29 (lo AND 0xE0000000))"
    unfolding m_def rfc_pad_tail [OF inv(6) assms(2)] z_def
    by (simp only: c [symmetric] length_bytes [symmetric] append_eq_conv_conj append_assoc append_Cons) simp
  have z: "length r + z = 55 \<or> length r + z = 119"
    using assms(2) unfolding z_def by (cases "length r < 56") (auto simp: mod_if)
  have pad: "pad_length (stored_size st) = int z + 1"
    using assms(2) unfolding pad_length_def z_def inv(2) Let_def by (cases "length r < 56") (auto simp: mod_if)
  obtain s1 where s1: "append_stored (0x80 # replicate z 0) st0 = Some s1"
      "take (length (r @ 0x80 # replicate z 0)) (stored s1) = r @ 0x80 # replicate z 0"
      "unat (stored_size s1) = length (r @ 0x80 # replicate z 0)" "length (stored s1) = 128"
      "regs_of s1 = regs_of st0" "finished s1 = finished st0" "str s1 = str st0"
      "message_length_0 s1 = lo" "message_length_1 s1 = hi"
    using append_stored_inv [of r st0 "0x80 # replicate z 0"] inv st0 z unfolding hi_def lo_def by auto
  obtain s2 where s2: "append_stored (le_split 4 (push_bit 3 (lo AND 0x1FFFFFFF))) s1 = Some s2"
      "regs_of s2 = regs_of st0" "finished s2 = finished st0" "str s2 = str st0" "message_length_0 s2 = lo" "message_length_1 s2 = hi"
      "length (stored s2) = 128"
      "take (length ((r @ 0x80 # replicate z 0) @ le_split 4 (push_bit 3 (lo AND 0x1FFFFFFF)))) (stored s2) =
        (r @ 0x80 # replicate z 0) @ le_split 4 (push_bit 3 (lo AND 0x1FFFFFFF))"
      "unat (stored_size s2) = length ((r @ 0x80 # replicate z 0) @ le_split 4 (push_bit 3 (lo AND 0x1FFFFFFF)))"
    using append_stored_inv [OF s1(2,3,4), of "le_split 4 (push_bit 3 (lo AND 0x1FFFFFFF))"] s1 z
    by auto
  obtain s3 where s3: "append_stored (le_split 4 (push_bit 3 hi OR drop_bit 29 (lo AND 0xE0000000))) s2 = Some s3"
      "regs_of s3 = regs_of st0" "finished s3 = finished st0" "str s3 = str st0"
      "length (stored s3) = 128" "take (length m) (stored s3) = m" "unat (stored_size s3) = length m"
    using append_stored_inv [OF s2(8,9,7), of "le_split 4 (push_bit 3 hi OR drop_bit 29 (lo AND 0xE0000000))"] s2 z
    unfolding m by auto
  have "padded st = Some s3"
    using s1(1,8,9) s2(1,5,6) s3(1)
    by (simp only: padded_def Let_def st0_def [symmetric] st0(2) pad) simp
  moreover have "length m = 64 \<or> length m = 128" using z unfolding m by auto
  ultimately show ?thesis using s3 st0 inv(1) by auto
qed

lemma rfc_pad_length: "64 dvd length (rfc_pad msg)"
proof -
  define n where "n = length msg mod 64"
  have n: "n < 64" by (simp add: n_def)
  have "n + 9 + (119 - n) mod 64 = 64 \<or> n + 9 + (119 - n) mod 64 = 128"
    using n by (cases "n < 56") (auto simp: mod_if)
  then have "64 dvd (n + 9 + (119 - n) mod 64)" by (elim disjE) (simp_all only:, simp_all)
  moreover have "length (rfc_pad msg) = 64 * (length msg div 64) + (n + 9 + (119 - n) mod 64)"
    using div_mult_mod_eq [of "length msg" 64] unfolding n_def by (simp add: rfc_pad_def)
  ultimately show ?thesis by (simp only: dvd_add_right_iff [OF dvd_triv_left])
qed

lemma get_result_regs: "get_result st = regs_bytes (regs_of st)"
  by (simp add: get_result_def regs_of_def)

section \<open>The text is the hexadecimal form\<close>

lemma hex_string_simps: "length HEX_STRING = 16" "distinct (HEX_STRING @ [CHR 0x00])"
  by (simp_all add: HEX_STRING_def)

lemma find_index:
  "distinct xs \<Longrightarrow> i < length xs \<Longrightarrow> List.find (\<lambda>j. xs ! j = xs ! i) [0..<length xs] = Some i"
  by (auto simp: find_Some_iff nth_eq_iff_index_eq intro!: exI [of _ i])

lemma hex_value_nth: "i < 16 \<Longrightarrow> hex_value (HEX_STRING ! i) = Some i"
  using find_index [OF hex_string_simps(2), of i] by (simp add: hex_value_def hex_string_simps(1) nth_append)

fun hex_of :: "byte list \<Rightarrow> string" where
  "hex_of [] = []"
| "hex_of (b # bs) = HEX_STRING ! (unat b div 16) # HEX_STRING ! (unat b mod 16) # hex_of bs"

lemma length_hex_of [simp]: "length (hex_of bs) = 2 * length bs"
  by (induction bs) simp_all

lemma sig_to_string_loop_eq:
  assumes "k + 2 * length bs < length buf"
  shows "sig_to_string_loop bs (int (length buf)) (int k) buf =
    (int (k + 2 * length bs), take k buf @ hex_of bs @ drop (k + 2 * length bs) buf)"
  using assms
proof (induction bs arbitrary: k buf)
  case (Cons b bs)
  let ?h = "HEX_STRING ! (unat b div 16)" and ?l = "HEX_STRING ! (unat b mod 16)"
  let ?buf = "buf[k := ?h, k + 1 := ?l]"
  have "int k + 2 = int (k + 2)" "nat (int k + 1) = k + 1" by simp_all
  moreover have "take (k + 2) ?buf = take k buf @ [?h, ?l]"
    using Cons.prems by (simp add: take_Suc_conv_app_nth)
  moreover have "drop (k + 2 + 2 * length bs) ?buf = drop (k + 2 * length (b # bs)) buf"
    by (simp add: drop_update_cancel add.commute)
  ultimately show ?case using Cons.IH [of "k + 2" ?buf] Cons.prems
    by (simp add: Let_def add.commute [of 2 "int k"])
qed simp

lemma sig_to_string_eq:
  assumes "length sig = 16" and "length buf = 33"
  shows "sig_to_string sig buf 33 = hex_of sig @ [CHR 0x00]"
proof -
  have "drop 32 buf = [buf ! 32]"
    using assms(2) by (metis Cons_nth_drop_Suc drop_all eval_nat_numeral(3) lessI numeral_eq_Suc order_refl pred_numeral_simps(3))
  then have "sig_to_string_loop sig 33 0 buf = (32, hex_of sig @ [buf ! 32])"
    using sig_to_string_loop_eq [of 0 sig buf] assms by simp
  then show ?thesis using assms by (simp add: sig_to_string_def MD5_SIZE_def list_update_append)
qed

lemma sig_from_string_hex: "sig_from_string_loop (length bs) (hex_of bs @ rest) = Some bs"
proof (induction bs)
  case (Cons b bs)
  have "unat b < 256" using unsigned_less [of b, where ?'a = nat] by simp
  then have h: "hex_value (HEX_STRING ! (unat b div 16)) = Some (unat b div 16)"
      "hex_value (HEX_STRING ! (unat b mod 16)) = Some (unat b mod 16)"
    by (simp_all add: hex_value_nth)
  have "word_of_nat (unat b div 16 * 16 + unat b mod 16) = b"
    by (simp only: div_mult_mod_eq) simp
  then show ?case
    by (simp only: hex_of.simps append_Cons list.size(4) add_Suc_right add_0_right One_nat_def
        sig_from_string_loop.simps h Cons.IH Option.bind.bind_lunit)
qed simp

section \<open>The digest\<close>

lemma finish_digest:
  assumes "md5_inv p r st" and "length r < 64"
  shows "\<exists>st'. finish st = Some st' \<and> finished st' \<and> signature st' = rfc_md5 (p @ r) \<and>
    str st' = hex_of (rfc_md5 (p @ r)) @ [CHR 0x00]"
proof -
  define m where "m = drop (length p) (rfc_pad (p @ r))"
  have p: "64 dvd length p" "regs_of st = rfc_blocks p rfc_init" "\<not> finished st"
    using assms(1) by (auto simp: md5_inv_def)
  have pm: "rfc_pad (p @ r) = p @ m"
    using rfc_pad_tail [OF p(1) assms(2)] by (simp add: m_def)
  obtain s1 where s1: "padded st = Some s1" "regs_of s1 = regs_of st" "str s1 = str st"
      "take (length m) (stored s1) = m" "length (stored s1) = 128"
      "unat (stored_size s1) = length m" "length m = 64 \<or> length m = 128"
    using padded_inv [OF assms] unfolding m_def by auto
  define s2 where "s2 = process_block (take 64 (stored s1)) s1"
  define s3 where "s3 = (if stored_size s2 > BLOCK_SIZE then process_block (drop 64 (stored s2)) s2 else s2)"
  have two: "stored_size s2 > BLOCK_SIZE \<longleftrightarrow> length m = 128"
    using s1(6,7) by (auto simp: s2_def process_block_effect word_less_nat_alt unat_BLOCK_SIZE)
  have "regs_of s3 = rfc_blocks m (regs_of st)"
  proof (cases "length m = 128")
    case False
    then have "take 64 (stored s1) = m" "length m = 64" using s1(4,7) by auto
    then show ?thesis using two False by (simp add: s3_def s2_def process_block_effect rfc_blocks_block s1(2))
  next
    case True
    then have st: "stored s1 = m" using s1(4,5) by simp
    have "rfc_blocks m (regs_of st) = rfc_blocks (take 64 m @ drop 64 m) (regs_of st)" by simp
    also have "\<dots> = rfc_blocks (drop 64 m) (rfc_blocks (take 64 m) (regs_of st))"
      by (rule rfc_blocks_append) (simp add: True)
    finally show ?thesis using two True
      by (simp add: s3_def s2_def process_block_effect rfc_blocks_block s1(2) st)
  qed
  then have "regs_bytes (regs_of s3) = rfc_md5 (p @ r)"
    by (simp add: rfc_md5_def pm rfc_blocks_append [OF p(1)] p(2))
  moreover have "str s3 = str st" by (simp add: s3_def s2_def process_block_effect s1(3))
  moreover have "finish st = Some (s3\<lparr>signature := get_result s3,
      str := sig_to_string (get_result s3) (str s3) (int MD5_STRING_SIZE), finished := True\<rparr>)"
    using p(3) s1(1) by (simp add: finish_def s3_def s2_def Let_def)
  moreover have "length (rfc_md5 msg) = 16" for msg
    by (cases "rfc_blocks (rfc_pad msg) rfc_init") (simp add: rfc_md5_def)
  then have "sig_to_string (rfc_md5 (p @ r)) (str st) (int MD5_STRING_SIZE) = hex_of (rfc_md5 (p @ r)) @ [CHR 0x00]"
    using sig_to_string_eq [of "rfc_md5 (p @ r)" "str st"] assms(1)
    by (simp add: md5_inv_def MD5_STRING_SIZE_def MD5_SIZE_def)
  ultimately show ?thesis by (simp add: get_result_regs)
qed


text \<open>
  Several calls of \<open>process\<close>. \<open>call_ok s n\<close>: a call with \<open>n\<close> bytes while \<open>s\<close> are pending keeps the
  order of the bytes.
\<close>

fun process_all :: "byte list list \<Rightarrow> md5_t \<Rightarrow> md5_t option" where
  "process_all [] st = Some st"
| "process_all (c # cs) st = do { st \<leftarrow> process c (word_of_nat (length c)) st; process_all cs st }"

definition call_ok :: "nat \<Rightarrow> nat \<Rightarrow> bool" where
  "call_ok s n \<longleftrightarrow> n + 128 < 2 ^ 32 \<and> (s = 0 \<or> n \<noteq> 0 \<and> (odd s \<or> s + n < 64))"

fun calls_ok :: "nat \<Rightarrow> nat list \<Rightarrow> bool" where
  "calls_ok s [] \<longleftrightarrow> True"
| "calls_ok s (n # ns) \<longleftrightarrow> call_ok s n \<and> calls_ok ((s + n) mod 64) ns"

lemma pending_mod:
  assumes "md5_inv p r st" and "md5_inv p' r' st'" and "p @ r @ input = p' @ r'" and "length r' < 64"
  shows "length r' = (length r + length input) mod 64"
proof -
  obtain i j where "length p = 64 * i" "length p' = 64 * j"
    using assms(1,2) by (auto simp: md5_inv_def elim!: dvdE)
  moreover have "length p + length r + length input = length p' + length r'"
    using arg_cong [OF assms(3), of length] by simp
  ultimately have "64 * i + (length r + length input) = 64 * j + length r'" by simp
  then have "(length r + length input) mod 64 = length r' mod 64" by (metis mod_mult_self4)
  then show ?thesis using assms(4) by simp
qed

lemma process_in_order:
  assumes "md5_inv p r st" and "length r < 64" and "call_ok (length r) (length input)"
  shows "\<exists>st' p' r'. process input (word_of_nat (length input)) st = Some st' \<and> md5_inv p' r' st' \<and>
    p @ r @ input = p' @ r' \<and> length r' = (length r + length input) mod 64"
proof -
  have "\<exists>st' p' r'. process input (word_of_nat (length input)) st = Some st' \<and> md5_inv p' r' st' \<and>
    p @ r @ input = p' @ r' \<and> length r' < 64"
  proof (cases "odd (length r) \<and> 64 \<le> length r + length input")
    case True
    then obtain q t st' where "process input (word_of_nat (length input)) st = Some st'"
        "r @ input = q @ t" "length t < 64" "md5_inv (p @ q) t st'"
      using process_fill [OF assms(1) _ assms(2)] assms(3) unfolding call_ok_def by blast
    then show ?thesis by (intro exI [of _ st'] exI [of _ "p @ q"] exI [of _ t]) simp
  next
    case False
    define k where "k = 64 * (length input div 64)"
    have d: "even (length r) \<or> length r + length input < 64" "length input + 128 < 2 ^ 32"
      using False assms(3) by (auto simp: call_ok_def)
    obtain st' where st': "process input (word_of_nat (length input)) st = Some st'"
        "md5_inv (p @ take k input) (if k = length input then [] else r @ drop k input) st'"
      using process_no_fill [OF assms(1) d(1) assms(2) d(2) k_def] by blast
    show ?thesis
    proof (cases "length r = 0")
      case True
      have "length (drop k input) < 64" unfolding k_def by simp
      then show ?thesis using st' True
        by (intro exI [of _ st'] exI [of _ "p @ take k input"] exI [of _ "drop k input"]) (simp split: if_splits)
    next
      case r: False
      then have "length r + length input < 64" "input \<noteq> []" using assms(3) False by (auto simp: call_ok_def)
      moreover from this have "k = 0" by (simp add: k_def)
      ultimately show ?thesis using st'
        by (intro exI [of _ st'] exI [of _ p] exI [of _ "r @ input"]) simp
    qed
  qed
  then show ?thesis using pending_mod [OF assms(1)] by blast
qed

lemma process_all_in_order:
  assumes "md5_inv p r st" and "length r < 64" and "calls_ok (length r) (map length cs)"
  shows "\<exists>st' p' r'. process_all cs st = Some st' \<and> md5_inv p' r' st' \<and> length r' < 64 \<and>
    p @ r @ concat cs = p' @ r'"
  using assms
proof (induction cs arbitrary: p r st)
  case Nil
  then show ?case by auto
next
  case (Cons c cs)
  have ok: "call_ok (length r) (length c)" using Cons.prems(3) by simp
  obtain st1 p1 r1 where 1: "process c (word_of_nat (length c)) st = Some st1" "md5_inv p1 r1 st1"
      "p @ r @ c = p1 @ r1" "length r1 = (length r + length c) mod 64"
    using process_in_order [OF Cons.prems(1,2) ok] by blast
  have "length r1 < 64" "calls_ok (length r1) (map length cs)" using 1(4) Cons.prems(3) by simp_all
  from Cons.IH [OF 1(2) this] obtain st2 p2 r2 where "process_all cs st1 = Some st2" "md5_inv p2 r2 st2"
      "length r2 < 64" "p1 @ r1 @ concat cs = p2 @ r2" by blast
  moreover have "p @ r @ concat (c # cs) = (p @ r @ c) @ concat cs" by simp
  then have "p @ r @ concat (c # cs) = p1 @ r1 @ concat cs" by (simp add: 1(3))
  ultimately show ?case using 1(1) by auto
qed

text \<open>A first call that only stores its bytes.\<close>

lemma process_stores:
  assumes "length (stored raw) = 128" and "length (str raw) = 33" and "length a < 64"
  shows "\<exists>st. process a (word_of_nat (length a)) (initialise raw) = Some st \<and> md5_inv [] a st"
  using process_no_fill [OF initialise_inv [OF assms(1,2)], of a 0] assms(3)
  by (cases "a = []") auto

section \<open>Properties\<close>

text \<open>
  C3: the unrolled rounds of \<open>process_block\<close>, with their four orders of the registers, compute the
  compression function of RFC 1321, and the 64-bit length counter held in two words advances by
  one block, carry included.
\<close>

theorem process_block_rfc:
  "regs_of (process_block block st) = rfc_compress (regs_of st) block \<and>
   count_of (process_block block st) = count_of st + 64 \<and>
   stored (process_block block st) = stored st \<and> stored_size (process_block block st) = stored_size st"
  by (simp add: process_block_effect)

text \<open>
  C2: the one-shot constructor succeeds on every input shorter than \<open>2 ^ 32 - 128\<close> bytes, whatever the
  object held before, and leaves the RFC 1321 digest of the input and its hexadecimal text.
\<close>

theorem md5_digest_correct:
  assumes "length (stored raw) = 128" and "length (str raw) = 33" and "length input + 128 < 2 ^ 32"
  shows "\<exists>st. md5_digest raw input (word_of_nat (length input)) = Some st \<and> finished st \<and>
    signature st = rfc_md5 input \<and> str st = hex_of (rfc_md5 input) @ [CHR 0x00]"
proof -
  define k where "k = 64 * (length input div 64)"
  define r where "r = (if k = length input then [] else [] @ drop k input)"
  obtain st1 where p: "process input (word_of_nat (length input)) (initialise raw) = Some st1"
      "md5_inv (take k input) r st1"
    using process_no_fill [OF initialise_inv [OF assms(1,2)] _ _ assms(3) k_def] by (auto simp: r_def)
  have s: "length r < 64" "take k input @ r = input" unfolding r_def k_def by auto
  show ?thesis using finish_digest [OF p(2) s(1)] p(1) s(2) by (auto simp: md5_digest_def)
qed

text \<open>
  C16: a message given in several calls of \<open>process\<close> has the digest of the whole message when every
  call finds no pending byte, or an odd number of them, or too few bytes to complete a block; the
  total length is not bounded.
\<close>

theorem streaming_correct:
  assumes "length (stored raw) = 128" and "length (str raw) = 33" and "calls_ok 0 (map length cs)"
  shows "\<exists>st st'. process_all cs (initialise raw) = Some st \<and> finish st = Some st' \<and>
    signature st' = rfc_md5 (concat cs)"
  using process_all_in_order [OF initialise_inv [OF assms(1,2)]] assms(3) finish_digest by fastforce

text \<open>
  With an even, positive number of pending bytes the test for a stored block is never true, so
  the complete blocks of the next call overtake the pending bytes: the digest is that of another
  message.
\<close>

theorem even_pending_reordered:
  assumes "length (stored raw) = 128" and "length (str raw) = 33"
    and "a \<noteq> []" and "even (length a)" and "length a + length b mod 64 < 64" and "length b mod 64 \<noteq> 0"
    and "length b + 128 < 2 ^ 32"
  defines "k \<equiv> 64 * (length b div 64)"
  shows "\<exists>st st'. process_all [a, b] (initialise raw) = Some st \<and> finish st = Some st' \<and>
    signature st' = rfc_md5 (take k b @ a @ drop k b)"
proof -
  have a: "length a < 64" using assms(5) by simp
  obtain st1 where 1: "process a (word_of_nat (length a)) (initialise raw) = Some st1" "md5_inv [] a st1"
    using process_stores [OF assms(1,2) a] by blast
  have k: "length b = k + length b mod 64" by (simp add: k_def)
  then have "k \<noteq> length b" using assms(6) by simp
  then obtain st2 where 2: "process b (word_of_nat (length b)) st1 = Some st2" "md5_inv (take k b) (a @ drop k b) st2"
    using process_no_fill [OF 1(2) _ a assms(7), of k] assms(4) k_def by auto
  have "length (a @ drop k b) < 64" using k assms(5) by simp
  from finish_digest [OF 2(2) this] show ?thesis using 1(1) 2(1) by auto
qed

text \<open>
  Pending bytes are lost altogether when the next call ends on a block boundary: after an even
  number of pending bytes, and after any number when the call has no bytes.
\<close>

theorem pending_lost:
  assumes "length (stored raw) = 128" and "length (str raw) = 33"
    and "length a < 64" and "even (length a) \<or> b = []" and "64 dvd length b" and "length b + 128 < 2 ^ 32"
  shows "\<exists>st st'. process_all [a, b] (initialise raw) = Some st \<and> finish st = Some st' \<and>
    signature st' = rfc_md5 b"
proof -
  obtain st1 where 1: "process a (word_of_nat (length a)) (initialise raw) = Some st1" "md5_inv [] a st1"
    using process_stores [OF assms(1-3)] by blast
  have "length b = 64 * (length b div 64)" using assms(5) by simp
  then obtain st2 where 2: "process b (word_of_nat (length b)) st1 = Some st2" "md5_inv b [] st2"
    using process_no_fill [OF 1(2) _ assms(3,6), of "length b"] assms(3,4) by auto
  from finish_digest [OF 2(2)] show ?thesis using 1(1) 2(1) by auto
qed

text \<open>\<open>sig_from_string\<close> reads back the 33 characters \<open>sig_to_string\<close> writes.\<close>

theorem signature_text_roundtrip:
  assumes "length sig = 16" and "length buf = 33"
  shows "sig_from_string (sig_to_string sig buf 33) = Some sig"
  using sig_from_string_hex [of sig "[CHR 0x00]"] assms
  by (simp add: sig_from_string_def MD5_SIZE_def sig_to_string_eq)

section \<open>Witnesses\<close>

definition some_md5 :: md5_t where
  "some_md5 = \<lparr>md5_A = 1, md5_B = 2, md5_C = 3, md5_D = 4, message_length_0 = 5, message_length_1 = 6,
     stored_size = 7, stored = replicate 128 8, finished = True, signature = replicate 16 9,
     str = replicate 33 CHR ''x''\<rparr>"

lemma some_md5_sizes: "length (stored some_md5) = 128" "length (str some_md5) = 33"
  by (simp_all add: some_md5_def)

theorem md5_digest_correct_witness:
  "\<exists>st. md5_digest some_md5 [0x61, 0x62, 0x63] 3 = Some st \<and> signature st = rfc_md5 [0x61, 0x62, 0x63]"
  using md5_digest_correct [OF some_md5_sizes, of "[0x61, 0x62, 0x63]"] by auto

theorem streaming_correct_witness:
  "\<exists>st st'. process_all [[1, 2, 3], replicate 70 4] (initialise some_md5) = Some st \<and>
    finish st = Some st' \<and> signature st' = rfc_md5 ([1, 2, 3] @ replicate 70 4)"
  using streaming_correct [OF some_md5_sizes, of "[[1, 2, 3], replicate 70 4]"]
  by (simp add: call_ok_def)

theorem even_pending_reordered_witness:
  "\<exists>st st'. process_all [[1, 2], replicate 70 4] (initialise some_md5) = Some st \<and>
    finish st = Some st' \<and> signature st' = rfc_md5 (replicate 64 4 @ [1, 2] @ replicate 6 4)"
  using even_pending_reordered [OF some_md5_sizes, of "[1, 2]" "replicate 70 4"] by simp

theorem pending_lost_witness:
  "\<exists>st st'. process_all [[1, 2], []] (initialise some_md5) = Some st \<and>
    finish st = Some st' \<and> signature st' = rfc_md5 []"
  using pending_lost [OF some_md5_sizes, of "[1, 2]" "[]"] by simp

theorem signature_text_roundtrip_witness:
  "sig_from_string (sig_to_string (replicate 16 0xab) (replicate 33 CHR ''x'') 33) = Some (replicate 16 0xab)"
  by (rule signature_text_roundtrip) simp_all


end
