(* ===== verification/StdString.thy ===== *)
theory StdString
  imports Prelude "HOL-Library.Sublist"
begin

text \<open>
  The operations of \<open>std::string\<close> and of C strings that the string code of the library calls.
  A string is a list of characters; positions that the code keeps in an \<open>int\<close> are integers, with
  \<open>-1\<close> for \<open>npos\<close> (strings are shorter than \<open>2 ^ 31\<close>). A call that throws \<open>std::out_of_range\<close> is
  \<open>Inl OutOfRange\<close>.
\<close>

datatype std_error = OutOfRange

abbreviation NUL :: char where "NUL \<equiv> CHR 0x00"
abbreviation BACKSLASH :: char where "BACKSLASH \<equiv> CHR 0x5C"

section \<open>Searching\<close>

definition find_from :: "string \<Rightarrow> char \<Rightarrow> nat \<Rightarrow> int" where
  "find_from s c pos =
     (case List.find (\<lambda>i. s ! i = c) [pos..<length s] of Some i \<Rightarrow> int i | None \<Rightarrow> - 1)"

definition rfind_from :: "string \<Rightarrow> char \<Rightarrow> nat \<Rightarrow> int" where
  "rfind_from s c pos =
     (case List.find (\<lambda>i. s ! i = c) (rev [0..<min (Suc pos) (length s)]) of Some i \<Rightarrow> int i | None \<Rightarrow> - 1)"

definition find_str :: "string \<Rightarrow> string \<Rightarrow> nat option" where
  "find_str s t = List.find (\<lambda>i. take (length t) (drop i s) = t) [0..<Suc (length s)]"

definition find_first_of :: "string \<Rightarrow> string \<Rightarrow> nat option" where
  "find_first_of s cs = List.find (\<lambda>i. s ! i \<in> set cs) [0..<length s]"

lemma find_from_cases:
  obtains (none) "find_from s c pos = - 1" and "\<And>i. pos \<le> i \<Longrightarrow> i < length s \<Longrightarrow> s ! i \<noteq> c"
  | (found) i where "find_from s c pos = int i" and "pos \<le> i" and "i < length s" and "s ! i = c"
      and "\<And>j. pos \<le> j \<Longrightarrow> j < i \<Longrightarrow> s ! j \<noteq> c"
proof (cases "List.find (\<lambda>i. s ! i = c) [pos..<length s]")
  case None
  then have "find_from s c pos = - 1" by (simp add: find_from_def)
  moreover have "\<And>i. pos \<le> i \<Longrightarrow> i < length s \<Longrightarrow> s ! i \<noteq> c" using None by (auto simp: find_None_iff)
  ultimately show ?thesis by (rule none)
next
  case (Some i)
  then obtain k where k: "k < length s - pos" "i = pos + k" "s ! i = c" "\<And>j. j < k \<Longrightarrow> s ! (pos + j) \<noteq> c"
    by (auto simp: find_Some_iff)
  show ?thesis
  proof (rule found)
    show "find_from s c pos = int i" using Some by (simp add: find_from_def)
    show "s ! j \<noteq> c" if "pos \<le> j" "j < i" for j
      using k(4) [of "j - pos"] k(2) that by simp
  qed (use k in auto)
qed

lemma find_from_0:
  "find_from s c 0 = (if c \<in> set s then int (length (takeWhile (\<lambda>x. x \<noteq> c) s)) else - 1)"
proof (cases rule: find_from_cases [of s c 0])
  case none
  then show ?thesis by (auto simp: in_set_conv_nth)
next
  case (found i)
  have "take i s = takeWhile (\<lambda>x. x \<noteq> c) s"
    using found by (intro takeWhile_eq_take_P_nth [symmetric]) auto
  then have "length (takeWhile (\<lambda>x. x \<noteq> c) s) = i" using found(3) by (metis length_take min.absorb4)
  then show ?thesis using found by (auto simp: in_set_conv_nth)
qed

lemma find_from_less: "find_from s c pos < int (length s)"
  by (cases rule: find_from_cases [of s c pos]) auto

lemma rfind_from_cases:
  obtains (none) "rfind_from s c pos = - 1" and "\<And>i. i \<le> pos \<Longrightarrow> i < length s \<Longrightarrow> s ! i \<noteq> c"
  | (found) i where "rfind_from s c pos = int i" and "i \<le> pos" and "i < length s" and "s ! i = c"
      and "\<And>j. i < j \<Longrightarrow> j \<le> pos \<Longrightarrow> j < length s \<Longrightarrow> s ! j \<noteq> c"
proof -
  define n where "n = min (Suc pos) (length s)"
  show ?thesis
  proof (cases "List.find (\<lambda>i. s ! i = c) (rev [0..<n])")
    case None
    then have "rfind_from s c pos = - 1" by (simp add: rfind_from_def n_def)
    moreover have "\<And>i. i \<le> pos \<Longrightarrow> i < length s \<Longrightarrow> s ! i \<noteq> c"
      using None by (auto simp: find_None_iff n_def)
    ultimately show ?thesis by (rule none)
  next
    case (Some i)
    then obtain k where k: "k < n" "i = n - Suc k" "s ! i = c" "\<And>j. j < k \<Longrightarrow> s ! (n - Suc j) \<noteq> c"
      by (auto simp: find_Some_iff rev_nth)
    show ?thesis
    proof (rule found)
      show "rfind_from s c pos = int i" using Some by (simp add: rfind_from_def n_def)
      show "i \<le> pos" "i < length s" using k(1,2) by (auto simp: n_def)
      show "s ! i = c" by fact
      fix j assume j: "i < j" "j \<le> pos" "j < length s"
      then have "n - Suc j < k" "n - Suc (n - Suc j) = j" using k(1,2) by (auto simp: n_def)
      then show "s ! j \<noteq> c" using k(4) by metis
    qed
  qed
qed

lemma rfind_from_less: "rfind_from s c pos < int (length s) \<and> rfind_from s c pos \<le> int pos"
  by (cases rule: rfind_from_cases [of s c pos]) auto

section \<open>The C locale\<close>

definition isspace :: "char \<Rightarrow> bool" where
  "isspace c \<longleftrightarrow> c \<in> {CHR '' '', CHR 0x09, CHR 0x0A, CHR 0x0B, CHR 0x0C, CHR 0x0D}"

definition toupper :: "char \<Rightarrow> char" where
  "toupper c = (if 97 \<le> (of_char c :: nat) \<and> (of_char c :: nat) \<le> 122 then char_of ((of_char c :: nat) - 32) else c)"

definition tolower :: "char \<Rightarrow> char" where
  "tolower c = (if 65 \<le> (of_char c :: nat) \<and> (of_char c :: nat) \<le> 90 then char_of ((of_char c :: nat) + 32) else c)"

text \<open>The value of a \<open>char\<close>, which is signed on the platforms of the library.\<close>

definition schar :: "char \<Rightarrow> int" where
  "schar c = (if (of_char c :: int) < 128 then of_char c else of_char c - 256)"

text \<open>Reading a C string at an index: the terminating zero behind the last character, nothing beyond.\<close>

definition c_at :: "string \<Rightarrow> int \<Rightarrow> char option" where
  "c_at s i =
     (if i < 0 \<or> int (length s) < i then None
      else if i = int (length s) then Some NUL else Some (s ! nat i))"

end
