(* ===== verification/StringEdit.thy ===== *)
theory StringEdit
  imports StdString "HOL-Library.Signed_Division"
begin

text \<open>
  The operations of \<open>StringUtil\<close> (\<open>src/utils/String.cpp\<close>) that rewrite a string in place: trimming,
  case, replacement, removal; and the two hash functions. Each loop of the code is a recursion on
  the positions it moves; the lemmas relate it to a list function.
\<close>

section \<open>Trimming\<close>

text \<open>The forward and backward searches for a non-white character, with their bounds.\<close>

function first_no_white :: "string \<Rightarrow> int \<Rightarrow> int \<Rightarrow> int" where
  "first_no_white s i last_pos =
     (if i \<le> last_pos then
        (if \<not> isspace (s ! nat i) then i else first_no_white s (i + 1) last_pos)
      else i)"
  by pat_completeness auto
termination by (relation "measure (\<lambda>(s, i, l). nat (l + 1 - i))") auto

function last_no_white :: "string \<Rightarrow> int \<Rightarrow> int \<Rightarrow> int" where
  "last_no_white s first_pos i =
     (if i > first_pos then
        (if \<not> isspace (s ! nat i) then i else last_no_white s first_pos (i - 1))
      else i)"
  by pat_completeness auto
termination by (relation "measure (\<lambda>(s, f, i). nat (i - f))") auto

declare first_no_white.simps [simp del] last_no_white.simps [simp del]

definition trim :: "string \<Rightarrow> string" where
  "trim s =
     (if length s > 0 then
        let iLastNoWhite = int (length s) - 1;
            iFirstNoWhite = first_no_white s 0 iLastNoWhite;
            iLastNoWhite = last_no_white s iFirstNoWhite iLastNoWhite
        in take (nat (iLastNoWhite - iFirstNoWhite + 1)) (drop (nat iFirstNoWhite) s)
      else s)"

definition trim_right :: "string \<Rightarrow> string" where
  "trim_right s =
     (if length s > 0 then
        let iLastNoWhite = last_no_white s 0 (int (length s) - 1)
        in take (nat (iLastNoWhite + 1)) s
      else s)"

text \<open>The loop of \<open>trim_left\<close> may read the terminating zero, which is not a space.\<close>

definition trim_left :: "string \<Rightarrow> string" where
  "trim_left s =
     (if length s > 0 then
        let iFirstNoWhite = first_no_white (s @ [NUL]) 0 (int (length s))
        in drop (nat iFirstNoWhite) s
      else s)"

definition trim_all :: "string list \<Rightarrow> string list" where "trim_all vec = map trim vec"
definition trim_left_all :: "string list \<Rightarrow> string list" where "trim_left_all vec = map trim_left vec"
definition trim_right_all :: "string list \<Rightarrow> string list" where "trim_right_all vec = map trim_right vec"

section \<open>Case\<close>

definition to_lower :: "string \<Rightarrow> string" where "to_lower s = map tolower s"
definition to_upper :: "string \<Rightarrow> string" where "to_upper s = map toupper s"

section \<open>Replacement\<close>

text \<open>\<open>strstr\<close> stops at the first zero.\<close>

definition strstr :: "string \<Rightarrow> string \<Rightarrow> nat option" where
  "strstr s t = find_str (takeWhile (\<lambda>c. c \<noteq> NUL) s) t"

lemma find_str_Some: "find_str s t = Some k \<Longrightarrow> k + length t \<le> length s \<and> take (length t) (drop k s) = t"
proof -
  assume "find_str s t = Some k"
  then have k: "k \<le> length s" "take (length t) (drop k s) = t" by (auto simp: find_str_def find_Some_iff simp del: upt_Suc)
  moreover from this have "length t \<le> length s - k" by (metis length_drop length_take min.cobounded1)
  ultimately show ?thesis by simp
qed

lemma strstr_length: "strstr s t = Some k \<Longrightarrow> k + length t \<le> length s"
  using length_takeWhile_le [of "\<lambda>c. c \<noteq> NUL" s] by (auto simp: strstr_def dest!: find_str_Some)

function replace_loop :: "string \<Rightarrow> string \<Rightarrow> string \<Rightarrow> nat \<Rightarrow> string" where
  "replace_loop src dst s iOffset =
     (case strstr (drop iOffset s) src of
        None \<Rightarrow> s
      | Some k \<Rightarrow>
          if src = [] then s
          else replace_loop src dst (take (k + iOffset) s @ dst @ drop (k + iOffset + length src) s)
                 (iOffset + (k + length dst)))"
  by pat_completeness auto
termination
proof (relation "measure (\<lambda>(src, dst, s, off). length s - off)")
  fix src dst s :: string and off k
  assume "strstr (drop off s) src = Some k" and "src \<noteq> []"
  then show "((src, dst, take (k + off) s @ dst @ drop (k + off + length src) s, off + (k + length dst)), src, dst, s, off)
      \<in> measure (\<lambda>(src, dst, s, off). length s - off)"
    by (cases src) (auto dest!: strstr_length)
qed simp

declare replace_loop.simps [simp del]

definition replace_str :: "string \<Rightarrow> string \<Rightarrow> string \<Rightarrow> string" where
  "replace_str s src dst = (if length src = 0 then s else replace_loop src dst s 0)"

definition replace_char :: "string \<Rightarrow> char \<Rightarrow> char \<Rightarrow> string" where
  "replace_char s cSrc cDst =
     (if cSrc \<noteq> NUL \<and> cSrc \<notin> set (takeWhile (\<lambda>c. c \<noteq> NUL) s) then s
      else foldl (\<lambda>s uiPos. if cSrc = s ! uiPos then s[uiPos := cDst] else s) s [0..<length s])"

text \<open>\<open>substitute\<close> searches from the start again after each replacement, so it may not return.\<close>

partial_function (option) substitute :: "string \<Rightarrow> string \<Rightarrow> char \<Rightarrow> string option" where
  "substitute s charset cReplacement =
     (case find_first_of s charset of
        None \<Rightarrow> Some s
      | Some pos \<Rightarrow> substitute (s[pos := cReplacement]) charset cReplacement)"

declare substitute.simps [code]

function remove_chars :: "string \<Rightarrow> string \<Rightarrow> string" where
  "remove_chars s charset =
     (case find_first_of s charset of
        None \<Rightarrow> s
      | Some pos \<Rightarrow> remove_chars (take pos s @ drop (Suc pos) s) charset)"
  by pat_completeness auto
termination
proof (relation "measure (\<lambda>(s, cs). length s)")
  fix s charset :: string and pos
  assume "find_first_of s charset = Some pos"
  then show "((take pos s @ drop (Suc pos) s, charset), s, charset) \<in> measure (\<lambda>(s, cs). length s)"
    by (auto simp: find_first_of_def find_Some_iff)
qed simp

declare remove_chars.simps [simp del]

section \<open>Hash codes\<close>

text \<open>The 32-bit hash works on \<open>int64\<close>; the remainder of C++ takes the sign of the dividend.\<close>

definition hash_modulo :: int where "hash_modulo = 2 * 2 ^ 31 - 1"

definition hash_step :: "int \<Rightarrow> char \<Rightarrow> int" where
  "hash_step h c = (31 * h + schar c) smod hash_modulo"

definition hash :: "string \<Rightarrow> u32" where
  "hash s = word_of_int (foldl hash_step 0 s)"

definition hash64 :: "string \<Rightarrow> u64" where
  "hash64 s = foldl (\<lambda>h c. (h XOR word_of_int (schar c)) * 1099511628211) 14695981039346656037 s"

section \<open>What trimming does\<close>

definition rstrip :: "string \<Rightarrow> string" where
  "rstrip s = rev (dropWhile isspace (rev s))"

lemma takeWhile_all: "\<forall>x \<in> set s. P x \<Longrightarrow> takeWhile P s = s"
  by (induction s) simp_all

lemma first_no_white_eq:
  "i \<le> length s \<Longrightarrow> first_no_white s (int i) (int (length s) - 1) = int (i + length (takeWhile isspace (drop i s)))"
proof (induction "length s - i" arbitrary: i)
  case 0
  then show ?case by (subst first_no_white.simps) simp
next
  case (Suc n)
  then have i: "i < length s" and d: "drop i s = s ! i # drop (Suc i) s" by (simp_all add: Cons_nth_drop_Suc)
  have "first_no_white s (int (Suc i)) (int (length s) - 1) = int (Suc i + length (takeWhile isspace (drop (Suc i) s)))"
    using Suc i by (intro Suc.hyps(1)) simp_all
  then show ?case using i by (subst first_no_white.simps) (simp add: d add.commute)
qed

lemma last_no_white_eq:
  "i < length s \<Longrightarrow> f \<le> i \<Longrightarrow>
   last_no_white s (int f) (int i) = int (f + length (rstrip (drop (Suc f) (take (Suc i) s))))"
proof (induction i)
  case 0
  then show ?case by (subst last_no_white.simps) (simp add: rstrip_def)
next
  case (Suc i)
  have t: "take (Suc (Suc i)) s = take (Suc i) s @ [s ! Suc i]" using Suc.prems by (simp add: take_Suc_conv_app_nth)
  show ?case
  proof (cases "f = Suc i")
    case True
    then show ?thesis using Suc.prems by (subst last_no_white.simps) (simp add: rstrip_def)
  next
    case False
    then have f: "f \<le> i" using Suc.prems by simp
    have d: "drop (Suc f) (take (Suc (Suc i)) s) = drop (Suc f) (take (Suc i) s) @ [s ! Suc i]"
      using f Suc.prems by (simp add: t)
    have "nat (1 + int i) = Suc i" by simp
    then show ?thesis using Suc f by (subst last_no_white.simps) (auto simp: d rstrip_def)
  qed
qed

lemma rstrip_take: "rstrip s = take (length (rstrip s)) s"
proof -
  have "s = rstrip s @ rev (takeWhile isspace (rev s))"
    unfolding rstrip_def by (metis rev_append rev_rev_ident takeWhile_dropWhile_id)
  then show ?thesis by (metis append_eq_conv_conj)
qed

lemma rstrip_snoc [simp]: "rstrip (s @ [c]) = (if isspace c then rstrip s else s @ [c])"
  by (simp add: rstrip_def)

lemma rstrip_Cons: "\<not> isspace c \<Longrightarrow> rstrip (c # s) = c # rstrip s"
  by (simp add: rstrip_def dropWhile_append3)

lemma trim_right_eq: "trim_right s = (case s of [] \<Rightarrow> [] | c # cs \<Rightarrow> c # rstrip cs)"
proof (cases s)
  case (Cons c cs)
  have "last_no_white s 0 (int (length s) - 1) = int (length (rstrip cs))"
    using last_no_white_eq [of "length s - 1" s 0] Cons by simp
  then show ?thesis using Cons rstrip_take [of cs] by (simp add: trim_right_def nat_add_distrib)
qed (simp add: trim_right_def)

lemma trim_left_eq: "trim_left s = dropWhile isspace s"
proof -
  have "takeWhile isspace (s @ [NUL]) = takeWhile isspace s"
    by (induction s) (simp_all add: isspace_def)
  then have "first_no_white (s @ [NUL]) 0 (int (length s)) = int (length (takeWhile isspace s))"
    using first_no_white_eq [of 0 "s @ [NUL]"] by simp
  then show ?thesis by (simp add: trim_left_def dropWhile_eq_drop)
qed

lemma trim_eq: "trim s = rstrip (dropWhile isspace s)"
proof (cases "dropWhile isspace s")
  case Nil
  then have "takeWhile isspace s = s" by (intro takeWhile_all) (simp add: dropWhile_eq_Nil_conv)
  then have l: "length (takeWhile isspace s) = length s" by (simp only:)
  have "first_no_white s 0 (int (length s) - 1) = int (length (takeWhile isspace s))"
    using first_no_white_eq [of 0 s] by simp
  also have "\<dots> = int (length s)" by (simp only: l)
  finally have "first_no_white s 0 (int (length s) - 1) = int (length s)" .
  moreover have "last_no_white s (int (length s)) (int (length s) - 1) = int (length s) - 1"
    by (subst last_no_white.simps) simp
  ultimately show ?thesis by (simp add: trim_def Nil rstrip_def)
next
  case (Cons c cs)
  define k where "k = length (takeWhile isspace s)"
  have d: "drop k s = c # cs" using Cons by (simp add: k_def dropWhile_eq_drop)
  have c: "\<not> isspace c" using Cons by (metis hd_dropWhile list.discI list.sel(1))
  have k: "k < length s" using d by (metis drop_all leI list.discI)
  have 1: "first_no_white s 0 (int (length s) - 1) = int k"
    using first_no_white_eq [of 0 s] by (simp add: k_def)
  have "drop (Suc k) s = cs" using d by (metis Cons_nth_drop_Suc k list.sel(3))
  then have 2: "last_no_white s (int k) (int (length s) - 1) = int (k + length (rstrip cs))"
    using last_no_white_eq [of "length s - 1" s k] k by simp
  have "s \<noteq> []" using k by auto
  then show ?thesis
    by (simp add: trim_def 1 2 d Cons rstrip_Cons [OF c] nat_add_distrib) (rule rstrip_take [symmetric])
qed

section \<open>What the replacements do\<close>

lemma foldl_replace:
  "k \<le> length s \<Longrightarrow> foldl (\<lambda>s uiPos. if a = s ! uiPos then s[uiPos := b] else s) s [0..<k] =
     map (\<lambda>c. if c = a then b else c) (take k s) @ drop k s"
proof (induction k)
  case (Suc k)
  then have "drop k s = s ! k # drop (Suc k) s" by (simp add: Cons_nth_drop_Suc)
  moreover have "(map f (take k s) @ s ! k # drop (Suc k) s) ! k = s ! k"
    "(map f (take k s) @ s ! k # drop (Suc k) s)[k := b] = map f (take k s) @ b # drop (Suc k) s" for f
    using Suc.prems by (simp_all add: nth_append list_update_append)
  ultimately show ?case using Suc by (simp add: take_Suc_conv_app_nth)
qed simp

lemma replace_char_eq: "NUL \<notin> set s \<Longrightarrow> replace_char s a b = map (\<lambda>c. if c = a then b else c) s"
proof -
  assume "NUL \<notin> set s"
  then have t: "takeWhile (\<lambda>c. c \<noteq> NUL) s = s" by (intro takeWhile_all) auto
  have "map (\<lambda>c. if c = a then b else c) s = s" if "a \<notin> set s"
    using that by (intro map_idI) auto
  then show ?thesis unfolding replace_char_def t by (simp add: foldl_replace)
qed

text \<open>Left-to-right replacement of the occurrences that do not overlap.\<close>

function replace_spec :: "string \<Rightarrow> string \<Rightarrow> string \<Rightarrow> string" where
  "replace_spec src dst [] = []"
| "replace_spec src dst (c # cs) =
     (if src \<noteq> [] \<and> prefix src (c # cs) then dst @ replace_spec src dst (drop (length src) (c # cs))
      else c # replace_spec src dst cs)"
  by pat_completeness auto
termination
  by (relation "measure (\<lambda>(src, dst, s). length s)") (auto simp: neq_Nil_conv)

lemma prefix_take: "prefix t s \<longleftrightarrow> take (length t) s = t"
  by (metis append_eq_conv_conj prefix_def take_is_prefix)

lemma find_str_None: "find_str s t = None \<longleftrightarrow> (\<forall>k \<le> length s. \<not> prefix t (drop k s))"
  by (auto simp: find_str_def find_None_iff prefix_take less_Suc_eq_le simp del: upt_Suc)

lemma replace_spec_none: "\<forall>k \<le> length s. \<not> prefix src (drop k s) \<Longrightarrow> replace_spec src dst s = s"
proof (induction s)
  case (Cons c cs)
  then have "\<not> prefix src (c # cs)" by (metis drop0 le0)
  moreover have "\<forall>k \<le> length cs. \<not> prefix src (drop k cs)"
    using Cons.prems by (metis Suc_le_mono drop_Suc_Cons length_Cons)
  ultimately show ?case using Cons.IH by simp
qed simp

lemma replace_spec_skip:
  assumes "\<forall>j < k. \<not> prefix src (drop j s)" and "k \<le> length s"
  shows "replace_spec src dst s = take k s @ replace_spec src dst (drop k s)"
  using assms
proof (induction k arbitrary: s)
  case (Suc k)
  then obtain c cs where s: "s = c # cs" by (cases s) auto
  have "\<not> prefix src (c # cs)" using Suc.prems(1) s by (metis drop0 zero_less_Suc)
  moreover have "\<forall>j < k. \<not> prefix src (drop j cs)" using Suc.prems(1) s by (metis Suc_mono drop_Suc_Cons)
  ultimately show ?case using Suc s by simp
qed simp

lemma find_str_first: "find_str s t = Some k \<Longrightarrow> j < k \<Longrightarrow> \<not> prefix t (drop j s)"
  by (auto simp: find_str_def find_Some_iff prefix_take simp del: upt_Suc)

lemma replace_loop_eq:
  assumes "src \<noteq> []" and "NUL \<notin> set (drop iOffset s)" 
  shows "replace_loop src dst s iOffset = take iOffset s @ replace_spec src dst (drop iOffset s)"
  using assms
proof (induction src dst s iOffset rule: replace_loop.induct)
  case (1 src dst s iOffset)
  let ?t = "drop iOffset s"
  have "takeWhile (\<lambda>c. c \<noteq> NUL) ?t = ?t" using "1.prems" by (intro takeWhile_all) auto
  then have f: "strstr ?t src = find_str ?t src" by (simp only: strstr_def)
  show ?case
  proof (cases "find_str ?t src")
    case None
    then have "replace_spec src dst ?t = ?t" by (intro replace_spec_none) (simp add: find_str_None)
    then show ?thesis by (subst replace_loop.simps) (simp add: f None)
  next
    case (Some k)
    define s' where "s' = take (k + iOffset) s @ dst @ drop (k + iOffset + length src) s"
    have k: "k + length src \<le> length ?t" "take (length src) (drop k ?t) = src"
      using find_str_Some [OF Some] by auto
    then have l: "k + iOffset \<le> length s" using \<open>src \<noteq> []\<close> by (cases src) auto
    have d: "drop (iOffset + (k + length dst)) s' = drop (k + length src) ?t"
      using l by (simp add: s'_def add.commute add.left_commute)
    have t: "take (iOffset + (k + length dst)) s' = take (k + iOffset) s @ dst"
      using l by (simp add: s'_def)
    have "NUL \<notin> set (drop (iOffset + (k + length dst)) s')"
      using "1.prems"(2) unfolding d by (meson in_set_dropD)
    from "1.IH" [OF trans [OF f Some] "1.prems"(1), folded s'_def, OF "1.prems"(1) this]
    have "replace_loop src dst s iOffset = take (k + iOffset) s @ dst @ replace_spec src dst (drop (k + length src) ?t)"
      using f Some "1.prems"(1) by (subst replace_loop.simps) (simp add: s'_def [symmetric] d t)
    moreover obtain c cs where c: "drop k ?t = c # cs" using k \<open>src \<noteq> []\<close> by (cases "drop k ?t") auto
    have "replace_spec src dst ?t = take k ?t @ replace_spec src dst (drop k ?t)"
      using find_str_first [OF Some] k(1) by (intro replace_spec_skip) auto
    moreover have "prefix src (drop k ?t)" using k(2) by (metis take_is_prefix)
    then have "replace_spec src dst (drop k ?t) = dst @ replace_spec src dst (drop (length src) (drop k ?t))"
      using c \<open>src \<noteq> []\<close> by simp
    moreover have "take (k + iOffset) s = take iOffset s @ take k ?t" by (simp add: take_add add.commute)
    ultimately show ?thesis by (simp add: add.commute add.left_commute)
  qed
qed

lemma find_first_of_Some: "find_first_of s cs = Some k \<Longrightarrow> k < length s \<and> s ! k \<in> set cs"
  by (auto simp: find_first_of_def find_Some_iff)

lemma find_first_of_None: "find_first_of s cs = None \<longleftrightarrow> set s \<inter> set cs = {}"
  by (simp add: find_first_of_def find_None_iff disjoint_iff) (metis in_set_conv_nth)

lemma remove_chars_eq: "remove_chars s cs = filter (\<lambda>c. c \<notin> set cs) s"
proof (induction s cs rule: remove_chars.induct)
  case (1 s cs)
  show ?case
  proof (cases "find_first_of s cs")
    case None
    then have "filter (\<lambda>c. c \<notin> set cs) s = s" by (intro filter_True) (auto simp: find_first_of_None)
    then show ?thesis by (subst remove_chars.simps) (simp add: None)
  next
    case (Some k)
    have k: "k < length s" "s ! k \<in> set cs" using find_first_of_Some [OF Some] by auto
    have "filter (\<lambda>c. c \<notin> set cs) s = filter (\<lambda>c. c \<notin> set cs) (take k s @ s ! k # drop (Suc k) s)"
      using k by (simp add: id_take_nth_drop [symmetric])
    then show ?thesis using "1.IH" [OF Some] k by (subst remove_chars.simps) (simp add: Some)
  qed
qed

lemma substitute_returns:
  assumes "r \<notin> set cs"
  shows "substitute s cs r = Some (map (\<lambda>c. if c \<in> set cs then r else c) s)"
proof (induction "length (filter (\<lambda>c. c \<in> set cs) s)" arbitrary: s)
  case 0
  then have n: "set s \<inter> set cs = {}" by (auto simp: filter_empty_conv)
  then have "map (\<lambda>c. if c \<in> set cs then r else c) s = s" by (intro map_idI) auto
  then show ?case using n by (subst substitute.simps) (simp add: find_first_of_None [symmetric])
next
  case (Suc n)
  then have "filter (\<lambda>c. c \<in> set cs) s \<noteq> []" by auto
  then have "find_first_of s cs \<noteq> None" by (auto simp: find_first_of_None filter_empty_conv)
  then obtain k where f: "find_first_of s cs = Some k" by blast
  have k: "k < length s" "s ! k \<in> set cs" using find_first_of_Some [OF f] by auto
  have s: "s = take k s @ s ! k # drop (Suc k) s" using k by (simp add: id_take_nth_drop [symmetric])
  have u: "s[k := r] = take k s @ r # drop (Suc k) s" using k by (simp add: upd_conv_take_nth_drop)
  let ?m = "\<lambda>c. if c \<in> set cs then r else c"
  have "length (filter (\<lambda>c. c \<in> set cs) s) = Suc (length (filter (\<lambda>c. c \<in> set cs) (s[k := r])))"
    unfolding u by (subst s) (use k assms in simp)
  then have "substitute (s[k := r]) cs r = Some (map ?m (s[k := r]))" using Suc by simp
  moreover have "map ?m (s[k := r]) = map ?m s"
    unfolding u by (subst (3) s) (use k assms in simp)
  ultimately show ?case by (subst substitute.simps) (simp add: f)
qed

text \<open>With the replacement among the characters to replace, no number of steps is enough.\<close>

lemma substitute_result: "substitute s cs r = Some y \<Longrightarrow> r \<in> set cs \<longrightarrow> set s \<inter> set cs = {}"
proof (rule substitute.raw_induct [where P = "\<lambda>s cs r y. r \<in> set cs \<longrightarrow> set s \<inter> set cs = {}"])
  fix sub s cs r y
  assume IH: "\<And>s cs r y. sub s cs r = Some y \<Longrightarrow> r \<in> set cs \<longrightarrow> set s \<inter> set cs = {}"
    and step: "(case find_first_of s cs of None \<Rightarrow> Some s | Some pos \<Rightarrow> sub (s[pos := r]) cs r) = Some y"
  show "r \<in> set cs \<longrightarrow> set s \<inter> set cs = {}"
  proof (cases "find_first_of s cs")
    case None
    then show ?thesis by (simp add: find_first_of_None)
  next
    case (Some k)
    have k: "k < length s" using find_first_of_Some [OF Some] by simp
    have "sub (s[k := r]) cs r = Some y" using step Some by simp
    then have "r \<in> set cs \<longrightarrow> set (s[k := r]) \<inter> set cs = {}" by (rule IH)
    moreover have "r \<in> set (s[k := r])" using k by (rule set_update_memI)
    ultimately show ?thesis by auto
  qed
qed

lemma substitute_loops:
  assumes "r \<in> set cs" and "set s \<inter> set cs \<noteq> {}"
  shows "substitute s cs r = None"
  using substitute_result [of s cs r] assms by (cases "substitute s cs r") auto

section \<open>What the hash functions compute\<close>

definition ascii :: "string \<Rightarrow> bool" where
  "ascii s \<longleftrightarrow> (\<forall>c \<in> set s. (of_char c :: nat) < 128)"

text \<open>FNV-1a on the bytes of the string.\<close>

definition fnv1a :: "string \<Rightarrow> u64" where
  "fnv1a s = foldl (\<lambda>h c. (h XOR of_char c) * 1099511628211) 14695981039346656037 s"

lemma of_char_less: "(of_char c :: int) < numeral n \<longleftrightarrow> (of_char c :: nat) < numeral n"
proof -
  have "(of_char c :: int) = int (of_char c)" by (simp only: of_nat_of_char)
  then show ?thesis by (simp only: of_nat_less_numeral_iff)
qed

lemma schar_ascii: "(of_char c :: nat) < 128 \<Longrightarrow> schar c = of_char c"
  by (simp add: schar_def of_char_less)

lemma hash64_ascii: "ascii s \<Longrightarrow> hash64 s = fnv1a s"
  unfolding hash64_def fnv1a_def ascii_def by (intro foldl_cong) (auto simp: schar_ascii of_int_of_char)

lemma hash_step_bound: "\<bar>hash_step h c\<bar> < hash_modulo"
  using smod_int_range [of hash_modulo "31 * h + schar c"] by (auto simp: hash_step_def hash_modulo_def)

lemma hash_step_int64:
  assumes "\<bar>h\<bar> < hash_modulo"
  shows "\<bar>31 * h + schar c\<bar> < 2 ^ 63"
proof -
  have "(of_char c :: int) < 256" "0 \<le> (of_char c :: int)"
    using nat_of_char_less_256 [of c] of_nat_of_char [of c, where 'a = int] by (simp_all add: of_char_less)
  then have "\<bar>schar c\<bar> \<le> 128" by (simp add: schar_def)
  then show ?thesis using assms by (simp add: hash_modulo_def)
qed

text \<open>The remainder is the one of unsigned arithmetic while the values are not negative.\<close>

lemma hash_fold:
  assumes "ascii s" and "0 \<le> h" and "h < hash_modulo"
  shows "foldl hash_step h s = foldl (\<lambda>h c. (31 * h + of_char c) mod (2 ^ 32 - 1)) h s"
  using assms
proof (induction s arbitrary: h)
  case (Cons c s)
  have c: "schar c = of_char c" "0 \<le> (of_char c :: int)"
    using Cons.prems(1) of_nat_0_le_iff [of "of_char c :: nat", where 'a = int] of_nat_of_char [of c, where 'a = int]
    by (auto simp: ascii_def schar_ascii simp del: of_nat_0_le_iff)
  have s: "hash_step h c = (31 * h + of_char c) mod (2 ^ 32 - 1)"
    using Cons.prems(2) c by (simp add: hash_step_def hash_modulo_def smod_int_alt_def sgn_if)
  have "0 \<le> hash_step h c" "hash_step h c < hash_modulo" unfolding s hash_modulo_def by simp_all
  then show ?case using Cons.IH [of "hash_step h c"] Cons.prems(1) by (simp add: ascii_def s)
qed simp

section \<open>Properties\<close>

text \<open>
  \<open>trim\<close> removes exactly the white characters at both ends and \<open>trim_left\<close> those at the
  beginning; \<open>trim_right\<close> removes those at the end but never looks at the first character, so a
  blank string keeps one blank.
\<close>

theorem trim_functions:
  "trim s = rstrip (dropWhile isspace s) \<and> trim_left s = dropWhile isspace s \<and>
   trim_right s = (case s of [] \<Rightarrow> [] | c # cs \<Rightarrow> c # rstrip cs)"
  by (simp add: trim_eq trim_left_eq trim_right_eq)

text \<open>
  \<open>replace\<close> on strings without zeros, which works on pointers into the buffer it reallocates,
  is the left-to-right replacement of the occurrences that do not overlap, the replacement text
  not being searched again; \<open>replace\<close> on characters maps them.
\<close>

theorem replace_correct:
  assumes "NUL \<notin> set s"
  shows "replace_str s src dst = replace_spec src dst s \<and>
    replace_char s a b = map (\<lambda>c. if c = a then b else c) s"
proof -
  have "replace_spec [] dst s = s" for s by (induction s) simp_all
  then show ?thesis
    using replace_loop_eq [of src 0 s dst] assms by (auto simp: replace_str_def replace_char_eq)
qed

theorem replace_correct_witness:
  "replace_str ''a::b'' '':'' ''::'' = ''a::::b'' \<and> replace_char ''a:b'' (CHR '':'') (CHR ''-'') = ''a-b''"
  using replace_correct [of "''a::b''" "'':''" "''::''" "CHR '':''" "CHR ''-''"]
    replace_correct [of "''a:b''" "'':''" "''::''" "CHR '':''" "CHR ''-''"] by simp

text \<open>
  \<open>remove\<close> deletes the characters of the set. \<open>substitute\<close> replaces them, and never returns
  when the replacement is itself in the set and the string has a character of the set.
\<close>

theorem substitute_remove_behaviour:
  "remove_chars s cs = filter (\<lambda>c. c \<notin> set cs) s \<and>
   substitute s cs r =
     (if r \<in> set cs \<and> set s \<inter> set cs \<noteq> {} then None
      else Some (map (\<lambda>c. if c \<in> set cs then r else c) s))"
proof -
  have "substitute s cs r = Some (map (\<lambda>c. if c \<in> set cs then r else c) s)" if d: "set s \<inter> set cs = {}"
  proof -
    have "map (\<lambda>c. if c \<in> set cs then r else c) s = s" using d by (intro map_idI) auto
    then show ?thesis using d by (subst substitute.simps) (simp add: find_first_of_None [symmetric])
  qed
  then show ?thesis by (auto simp: remove_chars_eq substitute_loops substitute_returns)
qed

text \<open>
  On a string of 7-bit characters \<open>hash64\<close> is FNV-1a and \<open>hash\<close> the polynomial hash modulo
  \<open>2 ^ 32 - 1\<close>, all of whose intermediate values fit an \<open>int64\<close>.
\<close>

theorem hash_functions:
  assumes "ascii s"
  shows "hash64 s = fnv1a s \<and>
    hash s = word_of_int (foldl (\<lambda>h c. (31 * h + of_char c) mod (2 ^ 32 - 1)) 0 s) \<and>
    (\<forall>h c. \<bar>h\<bar> < hash_modulo \<longrightarrow> \<bar>31 * h + schar c\<bar> < 2 ^ 63 \<and> \<bar>hash_step h c\<bar> < hash_modulo)"
  using hash64_ascii [OF assms] hash_fold [OF assms, of 0] hash_step_int64 hash_step_bound
  by (simp add: hash_def hash_modulo_def)

theorem hash_functions_witness: "hash64 ''abc'' = fnv1a ''abc'' \<and> hash ''abc'' = 96354"
  using hash_functions [of "''abc''"] by (simp add: ascii_def)

text \<open>
  With a character above 127 the sign extension of \<open>char\<close> makes \<open>hash64\<close> differ from FNV-1a:
  already for the one-byte string \<open>0xE9\<close>.
\<close>

theorem hash64_not_fnv1a:
  "hash64 [CHR 0xE9] \<noteq> fnv1a [CHR 0xE9]"
  by (simp add: hash64_def fnv1a_def schar_def)

end
