(* ===== verification/StringToken.thy ===== *)
theory StringToken
  imports StringEdit
begin

text \<open>
  Token extraction, splitting and joining of \<open>StringUtil\<close> (\<open>src/utils/String.cpp\<close>). An operation
  that updates \<open>*str_p\<close> and \<open>*pstrToken\<close> returns both; the two pointers are distinct (the code
  returns \<open>EMPTY_STRING\<close> at once when they are equal).
\<close>

datatype extract_res = EMPTY_STRING | SEP_FOUND | SEP_NOT_FOUND

section \<open>One separator\<close>

text \<open>\<open>while (iPos > 0 && escape_char == (*str_p)[iPos-1]) iPos = str_p->find (c, iPos + 1)\<close>\<close>

function find_unescaped :: "string \<Rightarrow> char \<Rightarrow> char \<Rightarrow> int \<Rightarrow> int" where
  "find_unescaped s c e iPos =
     (if iPos > 0 \<and> e = s ! nat (iPos - 1)
      then find_unescaped s c e (find_from s c (nat (iPos + 1))) else iPos)"
  by pat_completeness auto
termination
proof (relation "measure (\<lambda>(s, c, e, iPos). if iPos < 0 then 0 else Suc (length s - nat iPos))")
  fix s :: string and c e and iPos :: int
  assume "iPos > 0 \<and> e = s ! nat (iPos - 1)"
  then show "((s, c, e, find_from s c (nat (iPos + 1))), s, c, e, iPos)
      \<in> measure (\<lambda>(s, c, e, iPos). if iPos < 0 then 0 else Suc (length s - nat iPos))"
    by (cases rule: find_from_cases [of s c "nat (iPos + 1)"]) auto
qed simp

declare find_unescaped.simps [simp del]

function rfind_unescaped :: "string \<Rightarrow> char \<Rightarrow> char \<Rightarrow> int \<Rightarrow> int" where
  "rfind_unescaped s c e iPos =
     (if iPos > 0 \<and> e = s ! nat (iPos - 1)
      then rfind_unescaped s c e (rfind_from s c (nat (iPos - 1))) else iPos)"
  by pat_completeness auto
termination
proof (relation "measure (\<lambda>(s, c, e, iPos). nat (iPos + 1))")
  fix s :: string and c e and iPos :: int
  assume "iPos > 0 \<and> e = s ! nat (iPos - 1)"
  then show "((s, c, e, rfind_from s c (nat (iPos - 1))), s, c, e, iPos) \<in> measure (\<lambda>(s, c, e, iPos). nat (iPos + 1))"
    using rfind_from_less [of s c "nat (iPos - 1)"] by auto
qed simp

declare rfind_unescaped.simps [simp del]

text \<open>The loop that removes the escape characters before \<open>c\<close>.\<close>

function unescape :: "char \<Rightarrow> char \<Rightarrow> string \<Rightarrow> string" where
  "unescape c e token =
     (let esc = find_from token e 0
      in if esc \<noteq> - 1 \<and> esc < int (length token) - 1 \<and> token ! nat (esc + 1) = c
         then unescape c e (take (nat esc) token @ drop (nat (esc + 1)) token) else token)"
  by pat_completeness auto
termination
proof (relation "measure (\<lambda>(c, e, token). length token)")
  fix c e token and esc :: int
  assume "esc = find_from token e 0" "esc \<noteq> - 1 \<and> esc < int (length token) - 1 \<and> token ! nat (esc + 1) = c"
  then show "((c, e, take (nat esc) token @ drop (nat (esc + 1)) token), c, e, token)
      \<in> measure (\<lambda>(c, e, token). length token)"
    by (cases rule: find_from_cases [of token e 0]) auto
qed simp

declare unescape.simps [simp del]

definition apply_escape :: "char \<Rightarrow> char \<Rightarrow> string \<Rightarrow> string" where
  "apply_escape c e token = (if e \<noteq> NUL then unescape c e token else token)"

definition extract_token :: "string \<Rightarrow> char \<Rightarrow> char \<Rightarrow> extract_res \<times> string \<times> string" where
  "extract_token s c e =
     (if s = [] then (EMPTY_STRING, s, [])
      else
        let iPos = find_from s c 0;
            iPos = (if e \<noteq> NUL then find_unescaped s c e iPos else iPos)
        in if iPos < 0 then (SEP_NOT_FOUND, [], apply_escape c e s)
           else (SEP_FOUND, drop (nat (iPos + 1)) s, apply_escape c e (take (nat iPos) s)))"

definition extract_token_right :: "string \<Rightarrow> char \<Rightarrow> char \<Rightarrow> extract_res \<times> string \<times> string" where
  "extract_token_right s c e =
     (if s = [] then (EMPTY_STRING, s, [])
      else
        let iPos = rfind_from s c (length s - 1);
            iPos = (if e \<noteq> NUL then rfind_unescaped s c e iPos else iPos)
        in if iPos < 0 then (SEP_NOT_FOUND, [], apply_escape c e s)
           else (SEP_FOUND, take (nat iPos) s, apply_escape c e (drop (nat (iPos + 1)) s)))"

text \<open>The overloads without an escape character, and with a flag for the backslash.\<close>

definition extract_token_plain :: "string \<Rightarrow> char \<Rightarrow> extract_res \<times> string \<times> string" where
  "extract_token_plain s c = extract_token s c NUL"

definition extract_token_flag :: "string \<Rightarrow> char \<Rightarrow> bool \<Rightarrow> extract_res \<times> string \<times> string" where
  "extract_token_flag s c apply = extract_token s c (if apply then BACKSLASH else NUL)"

definition extract_token_right_plain :: "string \<Rightarrow> char \<Rightarrow> extract_res \<times> string \<times> string" where
  "extract_token_right_plain s c = extract_token_right s c NUL"

definition extract_token_right_flag :: "string \<Rightarrow> char \<Rightarrow> bool \<Rightarrow> extract_res \<times> string \<times> string" where
  "extract_token_right_flag s c apply = extract_token_right s c (if apply then BACKSLASH else NUL)"

section \<open>Enclosing characters\<close>

text \<open>
  The loop that removes the escape characters of an enclosed token. \<open>find (cLeft) == esc + 1\<close> is
  computed on \<open>size_t\<close>: when there is no escape character \<open>esc + 1\<close> is 0, and \<open>erase (npos, 1)\<close>
  throws. With \<open>npos\<close> as \<open>-1\<close> the arithmetic is the same, but two \<open>npos\<close> must not compare equal.
\<close>

definition erase_escape :: "char \<Rightarrow> char \<Rightarrow> string \<Rightarrow> std_error + bool \<times> string" where
  "erase_escape c e token =
     (let esc = find_from token e 0
      in if find_from token c 0 = esc + 1 then
           (if esc = - 1 then Inl OutOfRange
            else Inr (True, take (nat esc) token @ drop (nat (esc + 1)) token))
         else Inr (False, token))"

lemma erase_escape_length:
  "erase_escape c e token = Inr (b, token') \<Longrightarrow> length token' \<le> length token \<and> (b \<longrightarrow> length token' < length token)"
  by (cases rule: find_from_cases [of token e 0]) (auto simp: erase_escape_def Let_def split: if_splits)

function unescape_enclosed :: "char \<Rightarrow> char \<Rightarrow> char \<Rightarrow> string \<Rightarrow> std_error + string" where
  "unescape_enclosed cLeft cRight e token =
     (case erase_escape cLeft e token of
        Inl err \<Rightarrow> Inl err
      | Inr (b1, token1) \<Rightarrow>
          (case erase_escape cRight e token1 of
             Inl err \<Rightarrow> Inl err
           | Inr (b2, token2) \<Rightarrow>
               if b1 \<or> b2 then unescape_enclosed cLeft cRight e token2 else Inr token2))"
  by pat_completeness auto
termination
  by (relation "measure (\<lambda>(l, r, e, token). length token)") (auto dest!: erase_escape_length)

declare unescape_enclosed.simps [simp del]

text \<open>The result of an enclosed extraction; \<open>Inl\<close> is an exception that leaves \<open>*str_p\<close> as it was.\<close>

type_synonym enclosed_result = "std_error + extract_res \<times> string \<times> string"

definition extract_enclosed :: "string \<Rightarrow> char \<Rightarrow> char \<Rightarrow> char \<Rightarrow> enclosed_result" where
  "extract_enclosed s cLeft cRight e =
     (if s = [] then Inr (EMPTY_STRING, s, [])
      else
        let iLeftPos = find_unescaped s cLeft e (find_from s cLeft 0);
            iRightPos = find_unescaped s cRight e (find_from s cRight (nat (iLeftPos + 1)))
        in if iLeftPos < 0 \<or> iRightPos < 0 \<or> iRightPos < iLeftPos then Inr (SEP_NOT_FOUND, s, [])
           else
             let token = take (nat (iRightPos - iLeftPos - 1)) (drop (nat (iLeftPos + 1)) s)
             in case (if e \<noteq> NUL then unescape_enclosed cLeft cRight e token else Inr token) of
                  Inl err \<Rightarrow> Inl err
                | Inr token \<Rightarrow> Inr (SEP_FOUND, drop (nat (iRightPos - iLeftPos + 1)) s, token))"

definition extract_enclosed_right :: "string \<Rightarrow> char \<Rightarrow> char \<Rightarrow> char \<Rightarrow> enclosed_result" where
  "extract_enclosed_right s cLeft cRight e =
     (if s = [] then Inr (EMPTY_STRING, s, [])
      else
        let iRightPos = rfind_from s cRight (length s);
            iRightPos = (if e \<noteq> NUL then rfind_unescaped s cRight e iRightPos else iRightPos);
            iLeftPos = (if iRightPos > 0 then rfind_from s cLeft (nat (iRightPos - 1)) else - 1);
            iLeftPos = (if e \<noteq> NUL then rfind_unescaped s cLeft e iLeftPos else iLeftPos)
        in if iLeftPos < 0 \<or> iRightPos < 0 \<or> iRightPos < iLeftPos then Inr (SEP_NOT_FOUND, s, [])
           else
             let token = take (nat (iRightPos - iLeftPos - 1)) (drop (nat (iLeftPos + 1)) s)
             in case (if e \<noteq> NUL then unescape_enclosed cLeft cRight e token else Inr token) of
                  Inl err \<Rightarrow> Inl err
                | Inr token \<Rightarrow> Inr (SEP_FOUND, take (nat iLeftPos) s, token))"

section \<open>Splitting and joining\<close>

text \<open>
  \<open>split\<close> at the last separator, on the string itself and on a copy. The left part is assigned only
  when the separator is found; \<open>left\<close> and \<open>right\<close> are what the two output strings hold before.
\<close>

definition split_last :: "string \<Rightarrow> char \<Rightarrow> string \<Rightarrow> string \<Rightarrow> bool \<Rightarrow> string \<times> string \<times> string" where
  "split_last s c left right do_trim =
     (let (res, s, right) = extract_token_right_flag s c True;
          (s, left, right) = (if res = SEP_NOT_FOUND then (right, left, []) else (s, s, right))
      in if do_trim then (s, trim left, trim right) else (s, left, right))"

definition split_last_const :: "string \<Rightarrow> char \<Rightarrow> string \<Rightarrow> string \<Rightarrow> bool \<Rightarrow> string \<times> string" where
  "split_last_const s c left right do_trim =
     (let (res, tmp, right) = extract_token_right_flag s c True;
          (left, right) = (if res = SEP_NOT_FOUND then (left, []) else (tmp, right))
      in if do_trim then (trim left, trim right) else (left, right))"

lemma extract_token_shorter:
  "extract_token s c e = (res, s', tok) \<Longrightarrow> s \<noteq> [] \<Longrightarrow> length s' < length s"
  by (auto simp: extract_token_def Let_def split: if_splits)

text \<open>
  The macro behind the eight overloads of \<open>split\<close> into a collection, for the pointer versions,
  which consume the string; the others work on a copy. The loop carries the string, the
  collection and \<open>sep_found\<close>.
\<close>

function split_loop :: "string \<Rightarrow> char \<Rightarrow> string list \<Rightarrow> bool \<Rightarrow> string list \<times> bool" where
  "split_loop s c coll sep_found =
     (if s = [] then (coll, sep_found)
      else let (res, s', token) = extract_token_flag s c True
           in split_loop s' c (coll @ [token]) (res = SEP_FOUND))"
  by pat_completeness auto
termination
  by (relation "measure (\<lambda>(s, c, coll, f). length s)")
     (auto simp: extract_token_flag_def dest: extract_token_shorter [OF sym])

declare split_loop.simps [simp del]

definition split_collection :: "string \<Rightarrow> char \<Rightarrow> string list \<Rightarrow> bool \<Rightarrow> string list" where
  "split_collection s c coll clear_coll =
     (let coll = (if clear_coll then [] else coll);
          (coll, sep_found) = split_loop s c coll False
      in if sep_found then coll @ [[]] else coll)"

fun join_loop :: "string \<Rightarrow> nat \<Rightarrow> string list \<Rightarrow> char \<Rightarrow> string" where
  "join_loop s ui [] cSep = s"
| "join_loop s ui (x # xs) cSep =
     (let s = (if 0 < ui then s @ [cSep] else s) in join_loop (s @ x) (Suc ui) xs cSep)"

definition join :: "string list \<Rightarrow> char \<Rightarrow> string" where
  "join vec cSep = join_loop [] 0 vec cSep"

text \<open>The search for the item to erase, and \<open>remove_item\<close>.\<close>

fun erase_first :: "string \<Rightarrow> string list \<Rightarrow> string list option" where
  "erase_first item [] = None"
| "erase_first item (x # xs) =
     (if x = item then Some xs else map_option (\<lambda>ys. x # ys) (erase_first item xs))"

definition remove_item :: "string \<Rightarrow> string \<Rightarrow> char \<Rightarrow> bool \<times> string" where
  "remove_item s item cSep =
     (if find_str s item = None then (False, s)
      else if s = item then (True, [])
      else
        let vec = split_collection s cSep [] True
        in case erase_first item vec of
             Some vec' \<Rightarrow> (True, join vec' cSep)
           | None \<Rightarrow> (False, join vec cSep))"

section \<open>Where extraction splits\<close>

text \<open>Every occurrence of \<open>c\<close> in \<open>t\<close> stands behind an escape character.\<close>

definition all_escaped :: "char \<Rightarrow> char \<Rightarrow> string \<Rightarrow> bool" where
  "all_escaped c e t \<longleftrightarrow> (\<forall>j < length t. t ! j = c \<longrightarrow> 0 < j \<and> t ! (j - 1) = e)"

lemma all_escaped_append: "all_escaped c e t \<Longrightarrow> all_escaped c e u \<Longrightarrow> all_escaped c e (t @ u)"
  unfolding all_escaped_def
proof (intro allI impI)
  fix j
  assume t: "\<forall>j < length t. t ! j = c \<longrightarrow> 0 < j \<and> t ! (j - 1) = e"
    and u: "\<forall>j < length u. u ! j = c \<longrightarrow> 0 < j \<and> u ! (j - 1) = e"
    and j: "j < length (t @ u)" "(t @ u) ! j = c"
  show "0 < j \<and> (t @ u) ! (j - 1) = e"
  proof (cases "j < length t")
    case True
    then show ?thesis using t j by (auto simp: nth_append)
  next
    case False
    then obtain k where k: "j = length t + k" by (metis le_iff_add not_less)
    then have "0 < k" "u ! (k - 1) = e" using u j by auto
    then show ?thesis using k by (auto simp: nth_append)
  qed
qed

lemma find_unescaped_found:
  assumes "\<forall>j < k. j < length s \<longrightarrow> s ! j = c \<longrightarrow> 0 < j \<and> s ! (j - 1) = e"
  shows "(find_unescaped s c e (find_from s c k) = - 1 \<and> all_escaped c e s) \<or>
    (\<exists>i. find_unescaped s c e (find_from s c k) = int i \<and> i < length s \<and> s ! i = c \<and>
       all_escaped c e (take i s) \<and> \<not> (0 < i \<and> s ! (i - 1) = e))"
  using assms
proof (induction "length s - k" arbitrary: k rule: less_induct)
  case less
  show ?case
  proof (cases rule: find_from_cases [of s c k])
    case none
    then have "all_escaped c e s" using less.prems by (auto simp: all_escaped_def) (metis leI)+
    then show ?thesis using none by (simp add: find_unescaped.simps)
  next
    case (found i)
    have e: "\<forall>j < i. s ! j = c \<longrightarrow> 0 < j \<and> s ! (j - 1) = e"
      using less.prems found by (metis leI less_trans)
    show ?thesis
    proof (cases "0 < i \<and> s ! (i - 1) = e")
      case False
      have "nat (int i - 1) = i - 1" by simp
      then have "find_unescaped s c e (int i) = int i"
        using False by (subst find_unescaped.simps) auto
      then show ?thesis using found e False by (auto simp: all_escaped_def)
    next
      case True
      have "nat (int i - 1) = i - 1" "nat (int i + 1) = Suc i" by simp_all
      then have "find_unescaped s c e (int i) = find_unescaped s c e (find_from s c (Suc i))"
        using True by (subst find_unescaped.simps) auto
      moreover have "\<forall>j < Suc i. j < length s \<longrightarrow> s ! j = c \<longrightarrow> 0 < j \<and> s ! (j - 1) = e"
        using e True by (auto simp: less_Suc_eq)
      ultimately show ?thesis using less.hyps [of "Suc i"] found by simp
    qed
  qed
qed

text \<open>Without an escape character: the first occurrence.\<close>

lemma extract_token_noescape:
  "extract_token s c NUL =
     (if s = [] then (EMPTY_STRING, [], [])
      else if c \<in> set s then (SEP_FOUND, tl (dropWhile (\<lambda>x. x \<noteq> c) s), takeWhile (\<lambda>x. x \<noteq> c) s)
      else (SEP_NOT_FOUND, [], s))"
proof -
  have t: "take (length (takeWhile P s)) s = takeWhile P s" for P
    by (metis append_eq_conv_conj takeWhile_dropWhile_id)
  have "drop (Suc (length (takeWhile P s))) s = tl (dropWhile P s)" for P
    by (simp add: dropWhile_eq_drop drop_Suc tl_drop)
  moreover have "nat (int n + 1) = Suc n" for n by simp
  ultimately show ?thesis by (auto simp: extract_token_def find_from_0 apply_escape_def t)
qed

lemma extract_token_escape:
  assumes "e \<noteq> NUL" and "s \<noteq> []"
  shows "(extract_token s c e = (SEP_NOT_FOUND, [], unescape c e s) \<and> all_escaped c e s) \<or>
    (\<exists>raw rest. s = raw @ c # rest \<and> extract_token s c e = (SEP_FOUND, rest, unescape c e raw) \<and>
       all_escaped c e raw \<and> \<not> (raw \<noteq> [] \<and> last raw = e))"
proof -
  consider "find_unescaped s c e (find_from s c 0) = - 1" "all_escaped c e s"
    | i where "find_unescaped s c e (find_from s c 0) = int i" "i < length s" "s ! i = c"
       "all_escaped c e (take i s)" "\<not> (0 < i \<and> s ! (i - 1) = e)"
    using find_unescaped_found [of 0 s c e] by auto
  then show ?thesis
  proof cases
    case 1
    then show ?thesis using assms by (simp add: extract_token_def apply_escape_def)
  next
    case (2 i)
    have "nat (int i + 1) = Suc i" by simp
    then have "extract_token s c e = (SEP_FOUND, drop (Suc i) s, unescape c e (take i s))"
      using assms 2(1) by (simp add: extract_token_def apply_escape_def)
    moreover have "s = take i s @ c # drop (Suc i) s"
      using id_take_nth_drop [OF 2(2)] 2(3) by simp
    moreover have "\<not> (take i s \<noteq> [] \<and> last (take i s) = e)"
      using 2(2,5) by (auto simp: last_conv_nth min_def)
    ultimately show ?thesis using 2(4) by blast
  qed
qed

section \<open>Escaping\<close>

fun escape :: "char \<Rightarrow> char \<Rightarrow> string \<Rightarrow> string" where
  "escape c e [] = []"
| "escape c e (x # xs) = (if x = c then e # x # escape c e xs else x # escape c e xs)"

lemma all_escaped_escape:
  assumes "e \<noteq> c"
  shows "all_escaped c e (escape c e t)"
proof (induction t)
  case Nil
  then show ?case by (simp add: all_escaped_def)
next
  case (Cons x t)
  have "all_escaped c e (if x = c then [e, x] else [x])"
    using assms by (auto simp: all_escaped_def less_Suc_eq)
  from all_escaped_append [OF this Cons] show ?case by (simp split: if_splits)
qed

lemma last_escape: "t \<noteq> [] \<Longrightarrow> escape c e t \<noteq> [] \<and> last (escape c e t) = last t"
proof (induction t)
  case (Cons x t)
  then show ?case by (cases "t = []") simp_all
qed simp

lemma unescape_escape:
  assumes "e \<noteq> c" and "e \<notin> set p" and "e \<notin> set t"
  shows "unescape c e (p @ escape c e t) = p @ t"
  using assms
proof (induction t arbitrary: p)
  case Nil
  then show ?case by (subst unescape.simps) (simp add: find_from_0)
next
  case (Cons x t)
  show ?case
  proof (cases "x = c")
    case True
    have "takeWhile (\<lambda>y. y \<noteq> e) (p @ e # c # escape c e t) = p"
      using Cons.prems(2) by (induction p) auto
    then have "find_from (p @ e # c # escape c e t) e 0 = int (length p)" by (simp add: find_from_0)
    moreover have "nat (int (length p) + 1) = Suc (length p)" by simp
    ultimately have "unescape c e (p @ e # c # escape c e t) = unescape c e ((p @ [c]) @ escape c e t)"
      by (subst unescape.simps) (simp add: nth_append)
    then show ?thesis using Cons.IH [of "p @ [c]"] Cons.prems True by simp
  next
    case False
    then show ?thesis using Cons.IH [of "p @ [x]"] Cons.prems by simp
  qed
qed

lemma raw_unique:
  assumes "r1 @ c # x1 = r2 @ c # x2"
    and "all_escaped c e r1" and "\<not> (r1 \<noteq> [] \<and> last r1 = e)"
    and "all_escaped c e r2" and "\<not> (r2 \<noteq> [] \<and> last r2 = e)"
  shows "r1 = r2 \<and> x1 = x2"
proof -
  have no: "\<not> length r < length r'"
    if eq: "r @ c # x = r' @ c # x'" and r: "\<not> (r \<noteq> [] \<and> last r = e)" and r': "all_escaped c e r'"
    for r r' x x' :: string
  proof
    assume l: "length r < length r'"
    have "r' ! length r = (r' @ c # x') ! length r" using l by (simp add: nth_append)
    also have "\<dots> = c" by (simp flip: eq)
    finally have "0 < length r" and p: "r' ! (length r - 1) = e" using r' l by (auto simp: all_escaped_def)
    have "length r - 1 < length r'" using l by simp
    then have "r' ! (length r - 1) = (r' @ c # x') ! (length r - 1)" by (simp add: nth_append)
    also have "\<dots> = last r" using \<open>0 < length r\<close> by (simp add: nth_append last_conv_nth flip: eq)
    finally show False using p r \<open>0 < length r\<close> by auto
  qed
  have "length r1 = length r2"
    using no [OF assms(1,3,4)] no [OF assms(1) [symmetric] assms(5,2)] by simp
  then show ?thesis using assms(1) by simp
qed

text \<open>Extracting an escaped item.\<close>

lemma extract_escaped:
  assumes "c \<noteq> BACKSLASH" and "BACKSLASH \<notin> set x"
  shows "extract_token_flag (escape c BACKSLASH x @ c # rest) c True = (SEP_FOUND, rest, x)"
    and "x \<noteq> [] \<Longrightarrow> extract_token_flag (escape c BACKSLASH x) c True = (SEP_NOT_FOUND, [], x)"
proof -
  let ?e = BACKSLASH
  let ?x = "escape c ?e x"
  have u: "unescape c ?e ?x = x" using unescape_escape [of ?e c "[]" x] assms by simp
  have a: "all_escaped c ?e ?x" using assms by (simp add: all_escaped_escape)
  have l: "\<not> (?x \<noteq> [] \<and> last ?x = ?e)" using last_escape [of x c ?e] assms(2) last_in_set [of x] by (cases "x = []") (simp, metis)
  have nz: "?e \<noteq> NUL" and ne: "?x @ c # rest \<noteq> []" by simp_all
  show "extract_token_flag (?x @ c # rest) c True = (SEP_FOUND, rest, x)"
  proof -
    have "\<not> all_escaped c ?e (?x @ c # rest)"
    proof
      assume "all_escaped c ?e (?x @ c # rest)"
      then have "0 < length ?x \<and> (?x @ c # rest) ! (length ?x - 1) = ?e"
        unfolding all_escaped_def by (elim allE [of _ "length ?x"]) simp
      then show False using l by (auto simp: nth_append last_conv_nth)
    qed
    then obtain raw rest' where r: "?x @ c # rest = raw @ c # rest'" "all_escaped c ?e raw"
        "\<not> (raw \<noteq> [] \<and> last raw = ?e)"
        "extract_token (?x @ c # rest) c ?e = (SEP_FOUND, rest', unescape c ?e raw)"
      using extract_token_escape [of ?e "?x @ c # rest" c, OF nz ne] by blast
    then have "?x = raw" "rest = rest'" using raw_unique [OF r(1) a l r(2,3)] by auto
    then show ?thesis using r(4) u by (simp add: extract_token_flag_def)
  qed
  assume x: "x \<noteq> []"
  have "\<not> (\<exists>raw rest. ?x = raw @ c # rest \<and> \<not> (raw \<noteq> [] \<and> last raw = ?e))"
  proof (intro notI, elim exE conjE)
    fix raw rest
    assume r: "?x = raw @ c # rest" and "\<not> (raw \<noteq> [] \<and> last raw = ?e)"
    moreover have "0 < length raw \<and> ?x ! (length raw - 1) = ?e"
      using a unfolding all_escaped_def r by (auto dest: spec [of _ "length raw"])
    ultimately show False by (auto simp: r nth_append last_conv_nth)
  qed
  then show "extract_token_flag ?x c True = (SEP_NOT_FOUND, [], x)"
    using extract_token_escape [of ?e ?x c] x last_escape [OF x] u by (auto simp: extract_token_flag_def)
qed

lemma join_loop_eq: "0 < ui \<Longrightarrow> join_loop s ui xs c = s @ concat (map (\<lambda>x. c # x) xs)"
  by (induction xs arbitrary: s ui) simp_all

lemma join_Cons: "join (x # xs) c = x @ concat (map (\<lambda>x. c # x) xs)"
  by (simp add: join_def join_loop_eq)

lemma split_loop_escaped:
  assumes "c \<noteq> BACKSLASH" and "\<forall>y \<in> set (x # xs). BACKSLASH \<notin> set y" and "xs \<noteq> [] \<or> x \<noteq> []"
  shows "split_loop (join (map (escape c BACKSLASH) (x # xs)) c) c coll f =
    (if last (x # xs) = [] then (coll @ butlast (x # xs), True) else (coll @ x # xs, False))"
  using assms
proof (induction xs arbitrary: x coll f)
  case Nil
  have n: "escape c BACKSLASH x \<noteq> []" using Nil.prems(3) last_escape by blast
  have "join (map (escape c BACKSLASH) [x]) c = escape c BACKSLASH x" by (simp add: join_Cons)
  then show ?case using Nil.prems n extract_escaped(2) [of c x]
    by (simp add: split_loop.simps)
next
  case (Cons y ys)
  let ?r = "join (map (escape c BACKSLASH) (y # ys)) c"
  have j: "join (map (escape c BACKSLASH) (x # y # ys)) c = escape c BACKSLASH x @ c # ?r"
    by (simp add: join_Cons)
  have e: "extract_token_flag (escape c BACKSLASH x @ c # ?r) c True = (SEP_FOUND, ?r, x)"
    using Cons.prems by (intro extract_escaped(1)) auto
  have "split_loop (escape c BACKSLASH x @ c # ?r) c coll f = split_loop ?r c (coll @ [x]) True"
    by (subst split_loop.simps) (simp only: e, simp)
  also have "\<dots> = (if last (y # ys) = [] then (coll @ butlast (x # y # ys), True) else (coll @ x # y # ys, False))"
  proof (cases "ys = [] \<and> y = []")
    case True
    then show ?thesis by (simp add: join_Cons split_loop.simps)
  next
    case False
    then show ?thesis using Cons.IH [of y "coll @ [x]" True] Cons.prems by auto
  qed
  finally show ?case unfolding j by simp
qed

lemma split_join_gen:
  assumes "c \<noteq> BACKSLASH" and "\<forall>x \<in> set xs. BACKSLASH \<notin> set x" and "xs \<noteq> [[]]"
  shows "split_collection (join (map (escape c BACKSLASH) xs) c) c coll True = xs"
proof (cases xs)
  case Nil
  then show ?thesis by (simp add: split_collection_def join_def split_loop.simps)
next
  case (Cons x ys)
  then have "ys \<noteq> [] \<or> x \<noteq> []" using assms(3) by auto
  from split_loop_escaped [OF assms(1) _ this, of "[]" False] assms(2) Cons
  show ?thesis using append_butlast_last_id [of xs] by (auto simp: split_collection_def)
qed

text \<open>A string without a backslash, cut at its separators.\<close>

fun cut :: "char \<Rightarrow> string \<Rightarrow> string \<Rightarrow> string list" where
  "cut c acc [] = [acc]"
| "cut c acc (x # xs) = (if x = c then acc # cut c [] xs else cut c (acc @ [x]) xs)"

lemma cut_not_Nil: "cut c acc s \<noteq> []"
  by (induction c acc s rule: cut.induct) auto

lemma cut_join: "acc @ s = join (cut c acc s) c"
proof (induction s arbitrary: acc)
  case (Cons x s)
  obtain y ys where y: "cut c [] s = y # ys" using cut_not_Nil [of c "[]" s] by (cases "cut c [] s") auto
  show ?case
  proof (cases "x = c")
    case True
    then show ?thesis using Cons.IH [of "[]"] y by (simp add: join_Cons)
  next
    case False
    then show ?thesis using Cons.IH [of "acc @ [x]"] by simp
  qed
qed (simp add: join_Cons)

lemma cut_items: "c \<notin> set acc \<Longrightarrow> x \<in> set (cut c acc s) \<Longrightarrow> c \<notin> set x \<and> set x \<subseteq> set acc \<union> set s"
  by (induction c acc s rule: cut.induct) (auto split: if_splits)

lemma escape_id: "c \<notin> set x \<Longrightarrow> escape c e x = x"
  by (induction x) auto

lemma join_split_gen:
  assumes "c \<noteq> BACKSLASH" and "BACKSLASH \<notin> set s"
  shows "join (split_collection s c coll True) c = s"
proof (cases "s = []")
  case True
  then show ?thesis by (simp add: split_collection_def split_loop.simps join_def)
next
  case False
  define xs where "xs = cut c [] s"
  have j: "join xs c = s" using cut_join [of "[]" s c] by (simp add: xs_def)
  have x: "c \<notin> set x \<and> set x \<subseteq> set s" if "x \<in> set xs" for x
    using cut_items [of c "[]" x s] that by (simp add: xs_def)
  have "map (escape c BACKSLASH) xs = xs" using x by (intro map_idI) (simp add: escape_id)
  moreover have "xs \<noteq> [[]]" using j False by (auto simp: join_Cons)
  moreover have "\<forall>x \<in> set xs. BACKSLASH \<notin> set x" using x assms(2) by blast
  ultimately have "split_collection (join xs c) c coll True = xs"
    using split_join_gen [OF assms(1), of xs coll] by simp
  then show ?thesis using j by simp
qed

lemma erase_first_eq: "erase_first item xs = (if item \<in> set xs then Some (remove1 item xs) else None)"
  by (induction xs) auto

lemma item_in_join: "x \<in> set xs \<Longrightarrow> \<exists>p q. join xs c = p @ x @ q"
proof (induction xs)
  case (Cons y ys)
  show ?case
  proof (cases "x = y")
    case True
    then show ?thesis by (intro exI [of _ "[]"] exI [of _ "concat (map (\<lambda>x. c # x) ys)"]) (simp add: join_Cons)
  next
    case False
    then have x: "x \<in> set ys" using Cons.prems by simp
    then obtain z zs where z: "ys = z # zs" by (cases ys) auto
    obtain p q where "join ys c = p @ x @ q" using Cons.IH [OF x] by blast
    then have "join (y # ys) c = (y @ c # p) @ x @ q" by (simp add: z join_Cons)
    then show ?thesis by blast
  qed
qed simp

lemma find_str_infix: "find_str (p @ t @ q) t \<noteq> None"
  unfolding find_str_None by (auto intro: exI [of _ "length p"])

lemma join_length: "length (join (x # xs) c) = length x + sum_list (map (\<lambda>y. Suc (length y)) xs)"
  by (simp add: join_Cons length_concat comp_def)

lemma join_eq_item: "join xs c = x \<Longrightarrow> x \<in> set xs \<Longrightarrow> xs = [x]"
proof -
  assume j: "join xs c = x" and x: "x \<in> set xs"
  obtain y ys where xs: "xs = y # ys" using x by (cases xs) auto
  have l: "length x = length y + sum_list (map (\<lambda>y. Suc (length y)) ys)"
    using j join_length [of y ys c] by (simp add: xs)
  have "Suc (length x) \<le> sum_list (map (\<lambda>y. Suc (length y)) ys)" if "x \<in> set ys"
    using member_le_sum_list [of "Suc (length x)" "map (\<lambda>y. Suc (length y)) ys"] that by auto
  then have "x \<notin> set ys" using l by auto
  then have e: "x = y" using x xs by simp
  have "sum_list (map (\<lambda>y. Suc (length y)) ys) = 0" using l unfolding e by arith
  then have "ys = []" by (cases ys) simp_all
  then show ?thesis using xs e by simp
qed

section \<open>Enclosed tokens\<close>

lemma find_from_eqI:
  assumes "k \<le> i" "i < length s" "s ! i = c" "\<And>j. k \<le> j \<Longrightarrow> j < i \<Longrightarrow> s ! j \<noteq> c"
  shows "find_from s c k = int i"
proof (cases rule: find_from_cases [of s c k])
  case none
  then show ?thesis using assms by blast
next
  case (found i')
  then have "i' = i" using assms by (metis nat_neq_iff)
  then show ?thesis using found by simp
qed

lemma find_from_skip:
  assumes "c \<notin> set tok"
  shows "find_from (pre @ tok @ c # rest) c (length pre) = int (length pre + length tok)"
proof (rule find_from_eqI)
  fix j
  assume "length pre \<le> j" "j < length pre + length tok"
  then have "(pre @ tok @ c # rest) ! j = tok ! (j - length pre)" "j - length pre < length tok"
    by (auto simp: nth_append)
  then show "(pre @ tok @ c # rest) ! j \<noteq> c" using assms by (metis nth_mem)
qed (simp_all add: nth_append)

lemma extract_enclosed_gen:
  assumes "s = pre @ cl # tok @ cr # rest" and "cl \<notin> set pre" and "cr \<notin> set tok"
    and "e \<notin> set s"
  shows "extract_enclosed s cl cr e =
    (case (if e \<noteq> NUL then unescape_enclosed cl cr e tok else Inr tok) of
       Inl err \<Rightarrow> Inl err
     | Inr tok' \<Rightarrow> Inr (SEP_FOUND, drop (length tok + 2) s, tok'))"
proof -
  have noesc: "find_unescaped s c e (find_from s c k) = find_from s c k" for c k
  proof (cases rule: find_from_cases [of s c k])
    case (found i)
    have "nat (int i - 1) = i - 1" by simp
    moreover have "0 < i \<Longrightarrow> s ! (i - 1) \<noteq> e" using assms(4) found(3) by (metis less_imp_diff_less nth_mem)
    ultimately show ?thesis unfolding found(1) by (subst find_unescaped.simps) auto
  qed (subst find_unescaped.simps, simp)
  define i j where "i = length pre" and "j = Suc (length pre + length tok)"
  have l: "find_from s cl 0 = int i"
    using find_from_skip [OF assms(2), of "[]"] by (simp add: assms(1) i_def)
  have r: "find_from s cr (Suc i) = int j"
    using find_from_skip [OF assms(3), of "pre @ [cl]"] by (simp add: assms(1) i_def j_def)
  have u: "find_unescaped s cl e (int i) = int i" "find_unescaped s cr e (int j) = int j"
    using noesc [of cl 0] noesc [of cr "Suc i"] unfolding l r .
  have n: "nat (int i + 1) = Suc i" "i < j" "nat (int j - int i - 1) = length tok"
    "nat (int j - int i + 1) = length tok + 2"
    by (simp_all add: i_def j_def)
  have t: "take (length tok) (drop (Suc i) s) = tok" by (simp add: assms(1) i_def)
  have "s \<noteq> []" by (simp add: assms(1))
  then show ?thesis
    using n(2) by (simp only: extract_enclosed_def Let_def l u n(1,3,4) r t if_False) simp
qed

lemma rfind_eqI:
  assumes "i \<le> k" "i < length s" "s ! i = c" "\<And>j. i < j \<Longrightarrow> j \<le> k \<Longrightarrow> j < length s \<Longrightarrow> s ! j \<noteq> c"
  shows "rfind_from s c k = int i"
proof (cases rule: rfind_from_cases [of s c k])
  case none
  then show ?thesis using assms by blast
next
  case (found i')
  then have "i' = i" using assms by (metis nat_neq_iff)
  then show ?thesis using found by simp
qed

lemma extract_right_gen:
  assumes "c \<notin> set tok" and "e \<notin> set (left @ c # tok)"
  shows "extract_token_right (left @ c # tok) c e = (SEP_FOUND, left, tok)"
proof -
  let ?s = "left @ c # tok"
  have r: "rfind_from ?s c (length ?s - 1) = int (length left)"
  proof (rule rfind_eqI)
    fix j assume "length left < j" "j < length ?s"
    then have "?s ! j = tok ! (j - Suc (length left))" "j - Suc (length left) < length tok"
      by (auto simp: nth_append nth_Cons')
    then show "?s ! j \<noteq> c" using assms(1) by (metis nth_mem)
  qed simp_all
  have "nat (int (length left) - 1) = length left - 1" by simp
  moreover have "0 < length left \<Longrightarrow> ?s ! (length left - 1) \<noteq> e"
    using assms(2) by (auto simp: nth_append)
  ultimately have u: "rfind_unescaped ?s c e (int (length left)) = int (length left)"
    by (subst rfind_unescaped.simps) auto
  have n: "nat (int (length left) + 1) = Suc (length left)" by simp
  have "find_from tok e 0 = - 1" using assms(2) by (simp add: find_from_0)
  then have "apply_escape c e tok = tok" by (simp add: apply_escape_def unescape.simps)
  then show ?thesis using r by (cases "e = NUL") (simp_all add: extract_token_right_def Let_def u n)
qed

lemma extract_right_none:
  assumes "c \<notin> set s" and "s \<noteq> []" and "e \<notin> set s"
  shows "extract_token_right s c e = (SEP_NOT_FOUND, [], s)"
proof -
  have "rfind_from s c (length s - 1) = - 1"
    using assms(1) by (cases rule: rfind_from_cases [of s c "length s - 1"]) auto
  moreover have "find_from s e 0 = - 1" using assms(3) by (simp add: find_from_0)
  then have "apply_escape c e s = s" by (simp add: apply_escape_def unescape.simps)
  ultimately show ?thesis using assms(2)
    by (cases "e = NUL") (simp_all add: extract_token_right_def Let_def rfind_unescaped.simps)
qed

section \<open>Properties\<close>

text \<open>
  \<open>extract_token\<close> with an escape character cuts at the first separator that no escape character
  precedes, and only there; without one it takes the whole string. The token has its escape
  characters removed, the separator is consumed.
\<close>

theorem extract_token_first_unescaped:
  assumes "e \<noteq> NUL" and "s \<noteq> []"
  shows "(extract_token s c e = (SEP_NOT_FOUND, [], unescape c e s) \<and> all_escaped c e s) \<or>
    (\<exists>raw rest. s = raw @ c # rest \<and> extract_token s c e = (SEP_FOUND, rest, unescape c e raw) \<and>
       all_escaped c e raw \<and> \<not> (raw \<noteq> [] \<and> last raw = e))"
  using assms by (rule extract_token_escape)

theorem extract_token_first_unescaped_witness:
  "\<exists>raw rest. ''a,b'' = raw @ CHR '','' # rest \<and>
     extract_token ''a,b'' (CHR '','') BACKSLASH = (SEP_FOUND, rest, unescape (CHR '','') BACKSLASH raw)"
proof -
  have "\<not> all_escaped (CHR '','') BACKSLASH ''a,b''"
    unfolding all_escaped_def by (intro notI, drule spec [of _ 1]) simp
  then show ?thesis using extract_token_first_unescaped [of BACKSLASH "''a,b''" "CHR '',''"] by auto
qed

text \<open>
  C38: splitting what \<open>join\<close> made of escaped items gives back the items, whatever separators they
  contain, as long as they have no backslash of their own; the one exception is the list of a
  single empty item, which \<open>join\<close> cannot tell from the empty list.
\<close>

theorem split_join_roundtrip:
  assumes "c \<noteq> BACKSLASH" and "\<forall>x \<in> set xs. BACKSLASH \<notin> set x" and "xs \<noteq> [[]]"
  shows "split_collection (join (map (escape c BACKSLASH) xs) c) c coll True = xs"
  using assms by (rule split_join_gen)

theorem split_join_roundtrip_witness:
  "split_collection (join (map (escape (CHR '','') BACKSLASH) [''a,b'', '''', ''c'', '''']) (CHR '','')) (CHR '','') [] True =
     [''a,b'', '''', ''c'', '''']"
  by (rule split_join_roundtrip) simp_all

text \<open>Joining what \<open>split\<close> made of a string without backslashes gives back the string.\<close>

theorem join_split_roundtrip:
  assumes "c \<noteq> BACKSLASH" and "BACKSLASH \<notin> set s"
  shows "join (split_collection s c coll True) c = s"
  using assms by (rule join_split_gen)

theorem join_split_roundtrip_witness:
  "join (split_collection ''a,,b,'' (CHR '','') [''x''] True) (CHR '','') = ''a,,b,''"
  by (rule join_split_roundtrip) simp_all

text \<open>
  On a list of items without separators and backslashes, \<open>remove_item\<close> removes the first
  occurrence of the item and says so, or leaves the list as it is.
\<close>

theorem remove_item_correct:
  assumes "c \<noteq> BACKSLASH" and "\<forall>x \<in> set xs. c \<notin> set x \<and> BACKSLASH \<notin> set x"
    and "xs \<noteq> []" and "xs \<noteq> [[]]" and "c \<notin> set item"
  shows "remove_item (join xs c) item c = (item \<in> set xs, join (remove1 item xs) c)"
proof -
  have "map (escape c BACKSLASH) xs = xs" using assms(2) by (intro map_idI) (simp add: escape_id)
  then have s: "split_collection (join xs c) c [] True = xs"
    using split_join_gen [OF assms(1), of xs "[]"] assms(2,4) by simp
  consider "find_str (join xs c) item = None" | "join xs c = item" "item \<in> set xs"
    | "join xs c = item" "item \<notin> set xs" | "find_str (join xs c) item \<noteq> None" "join xs c \<noteq> item"
    by blast
  then show ?thesis
  proof cases
    case 1
    then have "item \<notin> set xs" using item_in_join find_str_infix by metis
    then show ?thesis using 1 by (simp add: remove_item_def remove1_idem)
  next
    case 2
    then have "xs = [item]" using join_eq_item by blast
    moreover have "find_str item item \<noteq> None" using find_str_infix [of "[]" item "[]"] by simp
    ultimately show ?thesis using 2 by (simp add: remove_item_def) (simp add: join_def)
  next
    case 3
    obtain y ys where "xs = y # ys" using assms(3) by (cases xs) auto
    with 3 assms(5) have "item \<in> set xs" by (cases ys) (auto simp: join_Cons)
    then show ?thesis using 3 by simp
  next
    case 4
    then show ?thesis by (simp add: remove_item_def s erase_first_eq remove1_idem)
  qed
qed

theorem remove_item_correct_witness:
  "remove_item (join [''a'', ''b'', ''a''] (CHR '','')) ''a'' (CHR '','') = (True, join [''b'', ''a''] (CHR '',''))"
  using remove_item_correct [of "CHR '',''" "[''a'', ''b'', ''a'']" "''a''"] by simp

text \<open>
  \<open>split\<close> in two parts cuts at the last separator; when there is none the right part is
  cleared and the left part is not assigned, so it keeps what it held before.
\<close>

theorem split_last_correct:
  assumes "c \<notin> set tok" and "BACKSLASH \<notin> set (l @ c # tok)" and "tok \<noteq> []"
  shows "split_last_const (l @ c # tok) c left0 right0 False = (l, tok) \<and>
    split_last_const tok c left0 right0 False = (left0, [])"
  using extract_right_gen [OF assms(1), of BACKSLASH l] extract_right_none [OF assms(1,3), of BACKSLASH] assms(2)
  by (simp add: split_last_const_def extract_token_right_flag_def)

theorem split_last_correct_witness:
  "split_last_const ''k=a=v'' (CHR ''='') ''old'' ''x'' False = (''k=a'', ''v'') \<and>
   split_last_const ''v'' (CHR ''='') ''old'' ''x'' False = (''old'', [])"
  using split_last_correct [of "CHR ''=''" "''v''" "''k=a''" "''old''" "''x''"] by simp

text \<open>
  Extracting an enclosed token without escapes removes as many characters from the front of
  the string as the token and its two delimiters have. That is the token itself only when the
  left delimiter is the first character: otherwise the end of the token stays in the string.
\<close>

theorem extract_enclosed_removes:
  assumes "s = pre @ cl # tok @ cr # rest" and "cl \<notin> set pre" and "cr \<notin> set tok" and "NUL \<notin> set s"
  shows "extract_enclosed s cl cr NUL = Inr (SEP_FOUND, drop (length tok + 2) s, tok)"
  using extract_enclosed_gen [OF assms] by simp

theorem extract_enclosed_removes_witness:
  "extract_enclosed ''x=(ab)c'' (CHR ''('') (CHR '')'') NUL = Inr (SEP_FOUND, ''b)c'', ''ab'')"
  using extract_enclosed_removes [of "''x=(ab)c''" "''x=''" "CHR ''(''" "''ab''" "CHR '')''" "''c''"] by simp

text \<open>
  With an escape character, a token that begins with the left delimiter makes the extraction
  throw: \<open>find\<close> returns \<open>npos\<close> for the escape character, \<open>npos + 1\<close> is the position of the
  delimiter, and \<open>erase (npos, 1)\<close> is out of range.
\<close>

theorem extract_enclosed_throws:
  assumes "cr \<notin> set tok" and "cr \<noteq> cl" and "e \<noteq> NUL" and "e \<notin> set (cl # cl # tok @ cr # rest)"
  shows "extract_enclosed (cl # cl # tok @ cr # rest) cl cr e = Inl OutOfRange"
proof -
  have "find_from (cl # tok) e 0 = - 1" "find_from (cl # tok) cl 0 = 0"
    using assms(4) by (auto simp: find_from_0)
  then have "unescape_enclosed cl cr e (cl # tok) = Inl OutOfRange"
    by (simp add: unescape_enclosed.simps erase_escape_def)
  then show ?thesis
    using extract_enclosed_gen [of "cl # cl # tok @ cr # rest" "[]" cl "cl # tok" cr rest e] assms by simp
qed

theorem extract_enclosed_throws_witness:
  "extract_enclosed ''((a)'' (CHR ''('') (CHR '')'') BACKSLASH = Inl OutOfRange"
  using extract_enclosed_throws [of "CHR '')''" "''a''" "CHR ''(''" BACKSLASH "[]"] by simp

end
