(* ===== verification/StringMatch.thy ===== *)
theory StringMatch
  imports StringEdit
begin

text \<open>
  Comparison and matching of \<open>src/utils/String.cpp\<close>: \<open>stricmp\<close>, \<open>strnicmp\<close>, \<open>starts_with\<close>, \<open>ends_with\<close>, the
  wildcard matcher \<open>match\<close> and \<open>remove_enclosure\<close>. The text of a match is a list of characters with an index,
  because the code moves its pointer back; a read outside the text and its terminating zero is undefined and
  gives \<open>None\<close>. A C string ends at its first zero character: \<open>cstr\<close>.
\<close>

definition cstr :: "string \<Rightarrow> string" where
  "cstr s = takeWhile (\<lambda>c. c \<noteq> NUL) s"

abbreviation ASTERISK :: char where "ASTERISK \<equiv> CHR ''*''"
abbreviation QUESTION :: char where "QUESTION \<equiv> CHR ''?''"

section \<open>Comparison without case\<close>

fun stricmp_loop :: "string \<Rightarrow> string \<Rightarrow> int" where
  "stricmp_loop [] [] = 0"
| "stricmp_loop [] (b # bs) = - 1"
| "stricmp_loop (a # as) [] = 1"
| "stricmp_loop (a # as) (b # bs) =
     (if schar (toupper a) < schar (toupper b) then - 1
      else if schar (toupper a) > schar (toupper b) then 1
      else stricmp_loop as bs)"

definition stricmp :: "string \<Rightarrow> string \<Rightarrow> int" where
  "stricmp s1 s2 = stricmp_loop (cstr s1) (cstr s2)"

fun strnicmp_loop :: "string \<Rightarrow> string \<Rightarrow> nat \<Rightarrow> int" where
  "strnicmp_loop s1 s2 0 = 0"
| "strnicmp_loop [] s2 (Suc n) = 1"
| "strnicmp_loop (a # as) [] (Suc n) = 1"
| "strnicmp_loop (a # as) (b # bs) (Suc n) =
     (if schar (toupper a) < schar (toupper b) then - 1
      else if schar (toupper a) > schar (toupper b) then 1
      else strnicmp_loop as bs n)"

definition strnicmp :: "string \<Rightarrow> string \<Rightarrow> nat \<Rightarrow> int" where
  "strnicmp s1 s2 maxlen = strnicmp_loop (cstr s1) (cstr s2) maxlen"

definition is_equal :: "string \<Rightarrow> string \<Rightarrow> bool" where
  "is_equal str other \<longleftrightarrow> str = other"

definition is_equal_no_case :: "string \<Rightarrow> string \<Rightarrow> bool" where
  "is_equal_no_case str other \<longleftrightarrow> stricmp other str = 0"

definition starts_with_char :: "string \<Rightarrow> char \<Rightarrow> bool" where
  "starts_with_char str c = (if length str = 0 then False else c = str ! 0)"

text \<open>\<open>strncmp\<close> with the length of the second string, which has no zero.\<close>

definition starts_with :: "string \<Rightarrow> string \<Rightarrow> bool \<Rightarrow> bool" where
  "starts_with str pcszStart bNoCase =
     (let n = length (cstr pcszStart)
      in if length str < n then False
         else if bNoCase then strnicmp str pcszStart n = 0
         else take n (cstr str) = cstr pcszStart)"

text \<open>The comparison starts \<open>strlen (pcszEnd)\<close> before the first zero of the string, which may be before its begin.\<close>

definition ends_with :: "string \<Rightarrow> string \<Rightarrow> bool \<Rightarrow> bool option" where
  "ends_with str pcszEnd bNoCase =
     (let n = length (cstr pcszEnd); m = length (cstr str)
      in if length str < n then Some False
         else if m < n then None
         else if bNoCase then Some (strnicmp (drop (m - n) str) pcszEnd n = 0)
         else Some (take n (drop (m - n) (cstr str)) = cstr pcszEnd))"

definition ends_with_char :: "string \<Rightarrow> char \<Rightarrow> bool" where
  "ends_with_char str c = (if length str = 0 then False else c = str ! (length str - 1))"

section \<open>Wildcards\<close>

text \<open>\<open>tokens_p\<close> is a vector or a null pointer.\<close>

definition push_token :: "string list option \<Rightarrow> string \<Rightarrow> string list option" where
  "push_token tokens_p s = map_option (\<lambda>v. v @ [s]) tokens_p"

text \<open>One attempt at a position: the comparison of the mask block with the text.\<close>

fun joker_compare :: "string \<Rightarrow> nat \<Rightarrow> string \<Rightarrow> string list option \<Rightarrow> bool \<times> string list option" where
  "joker_compare txt i [] tokens_p = (True, tokens_p)"
| "joker_compare txt i (cMask # ms) tokens_p =
     (if cMask \<noteq> QUESTION then
        if txt ! i \<noteq> cMask then (False, tokens_p) else joker_compare txt (Suc i) ms tokens_p
      else joker_compare txt (Suc i) ms (push_token tokens_p [txt ! i]))"

text \<open>The loop runs while the text has a character at the end of the block; the result is the position after the block.\<close>

function find_sub_loop :: "string \<Rightarrow> nat \<Rightarrow> string \<Rightarrow> string list option \<Rightarrow> nat option \<times> string list option" where
  "find_sub_loop txt i pMask tokens_p =
     (if i + length pMask \<le> length txt \<and> i < length txt then
        case joker_compare txt i pMask tokens_p of
          (True, tokens_p) \<Rightarrow> (Some (i + length pMask), tokens_p)
        | (False, tokens_p) \<Rightarrow> find_sub_loop txt (Suc i) pMask tokens_p
      else (None, tokens_p))"
  by auto
termination by (relation "measure (\<lambda>(txt, i, pMask, tokens_p). length txt - i)") auto

declare find_sub_loop.simps [simp del]

definition find_sub_str_with_joker ::
  "string \<Rightarrow> int \<Rightarrow> string \<Rightarrow> string list option \<Rightarrow> (nat option \<times> string list option) option" where
  "find_sub_str_with_joker txt i pMask tokens_p =
     (if i < 0 then None
      else if int (length txt) - i < int (length pMask) then Some (None, tokens_p)
      else Some (find_sub_loop txt (nat i) pMask tokens_p))"

text \<open>The token of a \<open>*\<close> before the mask \<open>ms\<close>: the text up to the next character that begins \<open>ms\<close>, at least one.\<close>

definition star_token :: "string \<Rightarrow> nat \<Rightarrow> string \<Rightarrow> string list option \<Rightarrow> string list option option" where
  "star_token txt i ms tokens_p =
     (if tokens_p = None then Some None
      else if ms = [] then Some (push_token tokens_p (drop i txt))
      else if length txt \<le> i then None
      else let offset = 1 + length (takeWhile (\<lambda>c. c \<noteq> hd ms) (drop (i + 1) txt))
           in Some (push_token tokens_p (take offset (drop i txt))))"

lemma length_dropWhile2: "length (dropWhile P (dropWhile Q xs)) \<le> length xs"
  by (meson le_trans length_dropWhile_le)

definition is_joker :: "char \<Rightarrow> bool" where
  "is_joker c \<longleftrightarrow> c = ASTERISK \<or> c = QUESTION"

function match_loop :: "string \<Rightarrow> nat \<Rightarrow> string \<Rightarrow> string list option \<Rightarrow> (bool \<times> string list option) option" where
  "match_loop txt i [] tokens_p = Some (length txt \<le> i, tokens_p)"
| "match_loop txt i (c # ms) tokens_p =
     (if c = BACKSLASH then
        case ms of [] \<Rightarrow> match_loop txt i [] tokens_p
        | m # ms' \<Rightarrow> if length txt \<le> i \<or> m \<noteq> txt ! i then Some (False, tokens_p)
                    else match_loop txt (Suc i) ms' tokens_p
      else if c = QUESTION then
        if length txt \<le> i then Some (True, tokens_p)
        else match_loop txt (Suc i) ms (push_token tokens_p [txt ! i])
      else if c = ASTERISK then
        let ms = dropWhile is_joker ms
        in case star_token txt i ms tokens_p of None \<Rightarrow> None | Some tokens_p \<Rightarrow>
             if ms = [] then Some (True, tokens_p)
             else if ASTERISK \<in> set ms then
               let pMask = takeWhile (\<lambda>c. c \<noteq> ASTERISK) ms
               in case find_sub_str_with_joker txt (int i) pMask tokens_p of
                    None \<Rightarrow> None
                  | Some (None, tokens_p) \<Rightarrow> Some (False, tokens_p)
                  | Some (Some pEnd, tokens_p) \<Rightarrow> match_loop txt pEnd (dropWhile (\<lambda>c. c \<noteq> ASTERISK) ms) tokens_p
             else case find_sub_str_with_joker txt (int (length txt) - int (length ms)) ms tokens_p of
                    None \<Rightarrow> None
                  | Some (pEnd, tokens_p) \<Rightarrow> Some (pEnd \<noteq> None, tokens_p)
      else if length txt \<le> i \<or> c \<noteq> txt ! i then Some (False, tokens_p)
      else match_loop txt (Suc i) ms tokens_p)"
  by pat_completeness auto
termination
  by (relation "measure (\<lambda>(txt, i, mask, tokens_p). length mask)") (auto simp: less_Suc_eq_le length_dropWhile2)

declare match_loop.simps(2) [simp del]

definition match_tokens :: "string \<Rightarrow> string \<Rightarrow> string list option \<Rightarrow> (bool \<times> string list option) option" where
  "match_tokens str pszMask tokens_p = match_loop (cstr str) 0 (cstr pszMask) tokens_p"

definition match :: "string \<Rightarrow> string \<Rightarrow> bool option" where
  "match str pszMask = map_option fst (match_tokens str pszMask None)"

section \<open>Enclosing characters\<close>

text \<open>\<open>substr (pos, n)\<close>; the length is an unsigned difference, which wraps.\<close>

definition substr :: "string \<Rightarrow> nat \<Rightarrow> int \<Rightarrow> std_error + string" where
  "substr s pos n =
     (if length s < pos then Inl OutOfRange
      else let k = n mod 2 ^ 64
           in Inr (if int (length s) \<le> k then drop pos s else take (nat k) (drop pos s)))"

definition remove_enclosure_char :: "string \<Rightarrow> char \<Rightarrow> char \<Rightarrow> (std_error + bool \<times> string) option" where
  "remove_enclosure_char str cLeft cRight =
     (case match str [cLeft, ASTERISK, cRight] of None \<Rightarrow> None
      | Some True \<Rightarrow> Some (map_sum id (\<lambda>r. (True, r)) (substr str 1 (int (length str) - 2)))
      | Some False \<Rightarrow> Some (Inr (False, str)))"

fun remove_enclosure_loop :: "string \<Rightarrow> string \<Rightarrow> string \<Rightarrow> nat \<Rightarrow> (std_error + bool \<times> string) option" where
  "remove_enclosure_loop str (l # ls) (r # rs) n =
     (case match str [l, ASTERISK, r] of None \<Rightarrow> None
      | Some True \<Rightarrow> Some (map_sum id (\<lambda>r. (True, r)) (substr str n (int (length str) - 2 * int n)))
      | Some False \<Rightarrow> remove_enclosure_loop str ls rs n)"
| "remove_enclosure_loop str _ _ n = Some (Inr (False, str))"

definition remove_enclosure :: "string \<Rightarrow> string \<Rightarrow> string \<Rightarrow> (std_error + bool \<times> string) option" where
  "remove_enclosure str pszLeft pszRight =
     (if length (cstr pszLeft) \<noteq> length (cstr pszRight) then Some (Inr (False, str))
      else remove_enclosure_loop str (cstr pszLeft) (cstr pszRight) (length (cstr pszLeft)))"

section \<open>What the header promises\<close>

text \<open>A mask by its documentation: \<open>*\<close> is any text, \<open>?\<close> is one character.\<close>

fun glob :: "string \<Rightarrow> string \<Rightarrow> bool" where
  "glob [] t \<longleftrightarrow> t = []"
| "glob (c # m) t \<longleftrightarrow>
     (if c = ASTERISK then \<exists>k \<in> set [0..<Suc (length t)]. glob m (drop k t)
      else case t of [] \<Rightarrow> False | x # t' \<Rightarrow> (c = QUESTION \<or> c = x) \<and> glob m t')"

declare glob.simps(2) [simp del]

lemma glob_star: "glob (ASTERISK # m) t \<longleftrightarrow> (\<exists>k \<le> length t. glob m (drop k t))"
  unfolding glob.simps(2) if_P [OF refl] set_upt by (auto simp: less_Suc_eq_le)

lemma glob_char: "c \<noteq> ASTERISK \<Longrightarrow>
    glob (c # m) t \<longleftrightarrow> t \<noteq> [] \<and> (c = QUESTION \<or> c = hd t) \<and> glob m (tl t)"
  by (cases t) (auto simp: glob.simps(2))

lemma glob_jokers: "glob m t \<Longrightarrow> \<exists>k \<le> length t. glob (dropWhile is_joker m) (drop k t)"
proof (induction m arbitrary: t)
  case (Cons c m)
  show ?case
  proof (cases "is_joker c")
    case True
    then have "\<exists>k \<le> length t. glob m (drop k t)"
    proof (cases "c = ASTERISK")
      case False
      then have "t \<noteq> []" "glob m (tl t)" using Cons.prems by (simp_all add: glob_char)
      then show ?thesis by (intro exI [of _ 1]) (auto simp: drop_Suc Suc_le_eq)
    qed (use Cons.prems in \<open>simp add: glob_star\<close>)
    then obtain k where k: "k \<le> length t" "glob m (drop k t)" by blast
    from Cons.IH [OF k(2)] obtain j where "j \<le> length t - k" "glob (dropWhile is_joker m) (drop (j + k) t)"
      by (auto simp: add.commute)
    then show ?thesis using k True by (intro exI [of _ "j + k"]) auto
  qed (use Cons.prems in \<open>auto intro!: exI [of _ 0]\<close>)
qed auto

lemma glob_star_mono: "glob (ASTERISK # m) (drop j t) \<Longrightarrow> i \<le> j \<Longrightarrow> j \<le> length t \<Longrightarrow> glob (ASTERISK # m) (drop i t)"
proof -
  assume a: "glob (ASTERISK # m) (drop j t)" "i \<le> j" "j \<le> length t"
  then obtain k where k: "k \<le> length t - j" "glob m (drop (k + j) t)" by (auto simp: glob_star add.commute)
  then have "glob m (drop (k + j - i) (drop i t))" using a by simp
  then show ?thesis unfolding glob_star using k a by (intro exI [of _ "k + j - i"]) auto
qed

text \<open>A block of the mask, without \<open>*\<close>, compared with the text at a position.\<close>

fun block_at :: "string \<Rightarrow> nat \<Rightarrow> string \<Rightarrow> bool" where
  "block_at tx i [] \<longleftrightarrow> i \<le> length tx"
| "block_at tx i (c # b) \<longleftrightarrow> i < length tx \<and> (c = QUESTION \<or> c = tx ! i) \<and> block_at tx (Suc i) b"

lemma block_at_length: "block_at tx i b \<Longrightarrow> i + length b \<le> length tx"
  by (induction b arbitrary: i) fastforce+

lemma glob_block: "ASTERISK \<notin> set b \<Longrightarrow> i \<le> length tx \<Longrightarrow>
    glob (b @ m) (drop i tx) \<longleftrightarrow> block_at tx i b \<and> glob m (drop (i + length b) tx)"
proof (induction b arbitrary: i)
  case Nil
  then show ?case by simp
next
  case (Cons c b)
  then have c: "c \<noteq> ASTERISK" "ASTERISK \<notin> set b" by auto
  show ?case
  proof (cases "i < length tx")
    case True
    then have "drop i tx \<noteq> []" "hd (drop i tx) = tx ! i" "tl (drop i tx) = drop (Suc i) tx"
      by (simp_all add: hd_drop_conv_nth drop_Suc tl_drop)
    moreover have "glob (b @ m) (drop (Suc i) tx) \<longleftrightarrow> block_at tx (Suc i) b \<and> glob m (drop (Suc i + length b) tx)"
      by (rule Cons.IH) (use c True in auto)
    ultimately show ?thesis using c True by (auto simp: glob_char)
  qed (use c in \<open>simp add: glob_char\<close>)
qed

lemma joker_compare_eq: "i + length b \<le> length tx \<Longrightarrow> joker_compare tx i b None = (block_at tx i b, None)"
  by (induction b arbitrary: i) (auto simp: push_token_def)

lemma find_sub_loop_eq:
  assumes "b \<noteq> []"
  shows "find_sub_loop tx i b None =
    (case List.find (\<lambda>j. block_at tx j b) [i..<length tx] of Some j \<Rightarrow> Some (j + length b) | None \<Rightarrow> None, None)"
proof (induction "length tx - i" arbitrary: i)
  case 0
  then show ?case by (subst find_sub_loop.simps) simp
next
  case (Suc n)
  then have i: "i < length tx" by simp
  have r: "[i..<length tx] = i # [Suc i..<length tx]" by (rule upt_rec [of i, THEN trans]) (use i in simp)
  have IH: "find_sub_loop tx (Suc i) b None =
    (case List.find (\<lambda>j. block_at tx j b) [Suc i..<length tx] of Some j \<Rightarrow> Some (j + length b) | None \<Rightarrow> None, None)"
    by (rule Suc.hyps) (use Suc.hyps(2) in simp)
  show ?case
  proof (cases "i + length b \<le> length tx")
    case True
    then show ?thesis using i by (subst find_sub_loop.simps) (simp add: joker_compare_eq r IH)
  next
    case False
    have "\<not> block_at tx j b" if "i \<le> j" for j using block_at_length [of tx j b] False that by auto
    then have "List.find (\<lambda>j. block_at tx j b) [i..<length tx] = None" by (auto simp: find_None_iff)
    then show ?thesis using False by (subst find_sub_loop.simps) simp
  qed
qed

lemma find_sub_loop_le:
  assumes "b \<noteq> []" "block_at tx j b" "i \<le> j"
  obtains e where "find_sub_loop tx i b None = (Some e, None)" "e \<le> j + length b" "i \<le> e"
proof -
  have "j < length tx" using assms(1,2) by (cases b) auto
  then have "List.find (\<lambda>j. block_at tx j b) [i..<length tx] \<noteq> None" using assms by (auto simp: find_None_iff)
  then obtain k where k: "List.find (\<lambda>j. block_at tx j b) [i..<length tx] = Some k" by auto
  then have "k \<le> j"
  proof -
    from k obtain n where n: "n < length tx - i" "k = i + n" "\<And>l. l < n \<Longrightarrow> \<not> block_at tx (i + l) b"
      by (auto simp: find_Some_iff)
    show ?thesis
    proof (rule ccontr)
      assume "\<not> k \<le> j"
      then have "j - i < n" using n(2) assms(3) by linarith
      from n(3) [OF this] show False using assms(2,3) by simp
    qed
  qed
  moreover have "i \<le> k" using k by (auto simp: find_Some_iff)
  ultimately show ?thesis using k by (intro that [of "k + length b"]) (auto simp: find_sub_loop_eq [OF assms(1)])
qed

lemma glob_no_star: "ASTERISK \<notin> set b \<Longrightarrow> k \<le> length tx \<Longrightarrow> glob b (drop k tx) \<Longrightarrow>
    block_at tx k b \<and> k + length b = length tx"
  using glob_block [of b k tx "[]"] by (auto dest: block_at_length)

lemma match_loop_complete:
  assumes "glob msk (drop i tx)" "i \<le> length tx" "BACKSLASH \<notin> set msk"
  shows "match_loop tx i msk None = Some (True, None)"
  using assms
proof (induction "length msk" arbitrary: i msk rule: less_induct)
  case less
  show ?case
  proof (cases msk)
    case Nil
    then show ?thesis using less.prems by simp
  next
    case (Cons c m)
    note IH = less.hyps and C = Cons
    have nb: "c \<noteq> BACKSLASH" "BACKSLASH \<notin> set m" using less.prems(3) Cons by auto
    show ?thesis
    proof (cases "c = ASTERISK")
      case False
      then have g: "drop i tx \<noteq> []" "c = QUESTION \<or> c = hd (drop i tx)" "glob m (tl (drop i tx))"
        using less.prems(1) False by (simp_all add: Cons glob_char)
      then have i: "i < length tx" by simp
      have "match_loop tx (Suc i) m None = Some (True, None)"
        by (rule IH) (use g(3) i nb Cons in \<open>simp_all add: drop_Suc tl_drop\<close>)
      then show ?thesis
        using g(2) i nb False by (auto simp: Cons match_loop.simps(2) hd_drop_conv_nth push_token_def)
    next
      case True
      define ms where "ms = dropWhile is_joker m"
      have "glob (c # m) (drop i tx)" using less.prems(1) Cons by simp
      then have "\<exists>k \<le> length (drop i tx). glob ms (drop k (drop i tx))"
        using glob_jokers [of "c # m" "drop i tx"] by (simp add: ms_def True is_joker_def)
      then obtain k where k: "i \<le> k" "k \<le> length tx" "glob ms (drop k tx)"
        using less.prems(2) by (auto simp: add.commute) (metis le_add2 le_diff_conv2 add.commute)
      have step: "match_loop tx i msk None =
          (if ms = [] then Some (True, None)
           else if ASTERISK \<in> set ms then
             case find_sub_str_with_joker tx (int i) (takeWhile (\<lambda>c. c \<noteq> ASTERISK) ms) None of
               None \<Rightarrow> None
             | Some (None, tokens_p) \<Rightarrow> Some (False, tokens_p)
             | Some (Some pEnd, tokens_p) \<Rightarrow> match_loop tx pEnd (dropWhile (\<lambda>c. c \<noteq> ASTERISK) ms) tokens_p
           else case find_sub_str_with_joker tx (int (length tx) - int (length ms)) ms None of
               None \<Rightarrow> None
             | Some (pEnd, tokens_p) \<Rightarrow> Some (pEnd \<noteq> None, tokens_p))"
        by (simp add: Cons match_loop.simps(2) True Let_def star_token_def flip: ms_def)
      have nbm: "BACKSLASH \<notin> set ms" using nb by (auto simp: ms_def dest: set_dropWhileD)
      show ?thesis
      proof (cases "ASTERISK \<in> set ms")
        case False
        have b: "block_at tx k ms" "k + length ms = length tx" using glob_no_star [OF False k(2,3)] by auto
        have "ms \<noteq> [] \<Longrightarrow> k < length tx" using b(2) by (cases ms) auto
        then have "ms \<noteq> [] \<Longrightarrow> find_sub_loop tx k ms None = (Some (length tx), None)"
          using b by (subst find_sub_loop.simps) (auto simp: joker_compare_eq)
        moreover have "nat (int (length tx) - int (length ms)) = k" using b(2) by simp
        ultimately show ?thesis
          using b(2) False by (auto simp: step find_sub_str_with_joker_def)
      next
        case star: True
        define blk where "blk = takeWhile (\<lambda>c. c \<noteq> ASTERISK) ms"
        define rest where "rest = dropWhile (\<lambda>c. c \<noteq> ASTERISK) ms"
        have ms: "ms = blk @ rest" by (simp add: blk_def rest_def)
        obtain r where r: "rest = ASTERISK # r"
          using star by (cases rest) (auto simp: rest_def dropWhile_eq_Nil_conv dropWhile_eq_Cons_conv)
        have "ms \<noteq> []" using star by auto
        then have "\<not> is_joker (hd ms)" unfolding ms_def by (rule hd_dropWhile)
        then have "hd ms \<noteq> ASTERISK" by (simp add: is_joker_def)
        then have ne: "blk \<noteq> []" using star by (cases ms) (auto simp: blk_def)
        have "ASTERISK \<notin> set blk" by (auto simp: blk_def dest: set_takeWhileD)
        then have g: "block_at tx k blk" "glob rest (drop (k + length blk) tx)"
          using k(3) glob_block [of blk k tx rest] k(2) by (auto simp: ms)
        obtain e where e: "find_sub_loop tx i blk None = (Some e, None)" "e \<le> k + length blk" "i \<le> e"
          by (rule find_sub_loop_le [OF ne g(1) k(1)])
        have l: "k + length blk \<le> length tx" using g(1) by (rule block_at_length)
        have "match_loop tx e rest None = Some (True, None)"
        proof (rule IH)
          show "length rest < length msk"
            using length_dropWhile2 [of "\<lambda>c. c \<noteq> ASTERISK" is_joker m] by (simp add: C rest_def ms_def)
          show "glob rest (drop e tx)" using glob_star_mono g(2) e(2) l by (simp add: r)
          show "BACKSLASH \<notin> set rest" using nbm ms by auto
        qed (use e(2) l in simp)
        moreover have "ms \<noteq> []" using star by auto
        ultimately show ?thesis
          using star e k l by (auto simp: step find_sub_str_with_joker_def simp flip: blk_def rest_def)
      qed
    qed
  qed
qed

section \<open>Masks with one star\<close>

definition plain :: "string \<Rightarrow> bool" where
  "plain s \<longleftrightarrow> (\<forall>c \<in> set s. c \<noteq> BACKSLASH \<and> c \<noteq> QUESTION \<and> c \<noteq> ASTERISK \<and> c \<noteq> NUL)"

lemma plain_Cons [simp]: "plain (c # s) \<longleftrightarrow> c \<noteq> BACKSLASH \<and> c \<noteq> QUESTION \<and> c \<noteq> ASTERISK \<and> c \<noteq> NUL \<and> plain s"
  by (auto simp: plain_def)

lemma plain_Nil [simp]: "plain []"
  by (simp add: plain_def)

lemma prefix_drop_Cons:
  "i \<le> length t \<Longrightarrow> prefix (c # p) (drop i t) \<longleftrightarrow> i < length t \<and> c = t ! i \<and> prefix p (drop (Suc i) t)"
  by (cases "i < length t") (auto simp flip: Cons_nth_drop_Suc)

lemma match_loop_plain:
  assumes "plain p" "i \<le> length t"
  shows "match_loop t i (p @ m) tok =
    (if prefix p (drop i t) then match_loop t (i + length p) m tok else Some (False, tok))"
  using assms
proof (induction p arbitrary: i)
  case (Cons c p)
  show ?case
  proof (cases "i < length t")
    case True
    have "match_loop t (Suc i) (p @ m) tok =
      (if prefix p (drop (Suc i) t) then match_loop t (Suc i + length p) m tok else Some (False, tok))"
      by (rule Cons.IH) (use Cons.prems True in auto)
    then show ?thesis using Cons.prems True by (auto simp: match_loop.simps(2) prefix_drop_Cons)
  qed (use Cons.prems in \<open>auto simp: match_loop.simps(2)\<close>)
qed auto

lemma block_at_plain: "plain b \<Longrightarrow> i \<le> length t \<Longrightarrow> block_at t i b \<longleftrightarrow> prefix b (drop i t)"
  by (induction b arbitrary: i) (auto simp: prefix_drop_Cons dest: block_at_length)

lemma prefix_drop_suffix: "length s \<le> length t \<Longrightarrow> prefix s (drop (length t - length s) t) \<longleftrightarrow> suffix s t"
proof -
  assume l: "length s \<le> length t"
  have "prefix s u \<longleftrightarrow> s = u" if "length u = length s" for u using that by (auto simp: prefix_def)
  from this [of "drop (length t - length s) t"]
  have "prefix s (drop (length t - length s) t) \<longleftrightarrow> s = drop (length t - length s) t" using l by simp
  also have "\<dots> \<longleftrightarrow> suffix s t"
    using l by (auto simp: suffix_def) (metis append_take_drop_id)
  finally show ?thesis .
qed

lemma cstr_id: "NUL \<notin> set s \<Longrightarrow> cstr s = s"
  unfolding cstr_def by (rule takeWhile_all) auto

lemma plain_NUL: "plain p \<Longrightarrow> NUL \<notin> set p"
  unfolding plain_def by blast

lemma cstr_plain: "plain p \<Longrightarrow> cstr p = p" "plain p \<Longrightarrow> plain s \<Longrightarrow> cstr (p @ ASTERISK # s) = p @ ASTERISK # s"
  by (simp_all add: cstr_id plain_NUL)

lemma match_one_star:
  assumes "plain p" "plain s" "NUL \<notin> set t"
  shows "match t (p @ ASTERISK # s) =
    (if \<not> prefix p t then Some False else if length t < length s then None else Some (suffix s t))"
proof -
  have t: "cstr t = t" by (rule cstr_id) fact
  have d: "dropWhile is_joker s = s"
    using assms(2) by (cases s) (auto simp: is_joker_def)
  have a: "ASTERISK \<notin> set s" using assms(2) by (auto simp: plain_def)
  have l: "match_loop t i (ASTERISK # s) None =
    (if length t < length s then None else Some (suffix s t, None))" if "i \<le> length t" for i
  proof (cases "s = []")
    case True
    then show ?thesis by (simp add: match_loop.simps(2) star_token_def)
  next
    case False
    define k where "k = length t - length s"
    have "match_loop t i (ASTERISK # s) None =
      (case find_sub_str_with_joker t (int (length t) - int (length s)) s None of
         None \<Rightarrow> None | Some (pEnd, tokens_p) \<Rightarrow> Some (pEnd \<noteq> None, tokens_p))"
      using False a by (simp add: match_loop.simps(2) star_token_def d)
    also have "\<dots> = (if length t < length s then None else Some (suffix s t, None))"
    proof (cases "length t < length s")
      case f: False
      then have k: "k + length s = length t" "nat (int (length t) - int (length s)) = k" by (simp_all add: k_def)
      have "find_sub_loop t k s None = (if suffix s t then (Some (length t), None) else (None, None))"
      proof -
        have "k < length t" using k False by (cases s) auto
        moreover have "find_sub_loop t (Suc k) s None = (None, None)"
          using k by (subst find_sub_loop.simps) simp
        moreover have "block_at t k s \<longleftrightarrow> suffix s t"
          using block_at_plain [OF assms(2), of k t] prefix_drop_suffix [of s t] f by (simp add: k_def)
        ultimately show ?thesis using k by (subst find_sub_loop.simps) (simp add: joker_compare_eq)
      qed
      then show ?thesis using f k by (simp add: find_sub_str_with_joker_def)
    qed (simp add: find_sub_str_with_joker_def)
    finally show ?thesis .
  qed
  have "match_loop t 0 (p @ ASTERISK # s) None =
      (if prefix p t then match_loop t (length p) (ASTERISK # s) None else Some (False, None))"
    using match_loop_plain [OF assms(1), of 0 t "ASTERISK # s" None] by simp
  moreover have "prefix p t \<Longrightarrow> length p \<le> length t" by (rule prefix_length_le)
  ultimately show ?thesis
    using l by (simp add: match_def match_tokens_def t cstr_plain assms)
qed

section \<open>Properties\<close>

text \<open>
  \<open>match\<close> misses nothing. A text that matches the mask as the header describes it - \<open>*\<close> any text, \<open>?\<close> one
  character - is accepted, for every mask without a backslash: the search for the first place of each block, without
  backtracking, and the skipping of \<open>?\<close> next to \<open>*\<close> lose no match.
\<close>

theorem match_complete:
  assumes "glob m t" "BACKSLASH \<notin> set m" "NUL \<notin> set m" "NUL \<notin> set t"
  shows "match t m = Some True"
  using match_loop_complete [of m 0 t] assms by (simp add: match_def match_tokens_def cstr_id)

theorem match_complete_witness:
  "match ''hello world'' ''h*o?w*d'' = Some True"
  by (rule match_complete) code_simp+

text \<open>
  Masks with one \<open>*\<close>. The verdict is that the parts before and behind the star are a prefix and a suffix of the text;
  the header also asks that they do not overlap: \<open>ab*b\<close> accepts \<open>ab\<close>. When the part behind the star is longer than the
  text the code reads memory in front of it.
\<close>

theorem match_one_star_exact:
  assumes "plain p" "plain s" "NUL \<notin> set t"
  shows "match t (p @ ASTERISK # s) =
      (if \<not> prefix p t then Some False else if length t < length s then None else Some (suffix s t))
    \<and> (glob (p @ ASTERISK # s) t \<longleftrightarrow> prefix p t \<and> suffix s t \<and> length p + length s \<le> length t)"
proof
  show "match t (p @ ASTERISK # s) =
      (if \<not> prefix p t then Some False else if length t < length s then None else Some (suffix s t))"
    by (rule match_one_star [OF assms])
  have a: "ASTERISK \<notin> set p" "ASTERISK \<notin> set s" using assms by (auto simp: plain_def)
  have "glob (p @ ASTERISK # s) t \<longleftrightarrow> block_at t 0 p \<and> glob (ASTERISK # s) (drop (length p) t)"
    using glob_block [OF a(1), of 0 t "ASTERISK # s"] by simp
  also have "\<dots> \<longleftrightarrow> prefix p t \<and> (\<exists>k. length p \<le> k \<and> k \<le> length t \<and> glob s (drop k t))"
  proof -
    have "block_at t 0 p \<longleftrightarrow> prefix p t" using block_at_plain [OF assms(1), of 0 t] by simp
    moreover have "glob (ASTERISK # s) (drop (length p) t) \<longleftrightarrow> (\<exists>k. length p \<le> k \<and> k \<le> length t \<and> glob s (drop k t))"
      if "length p \<le> length t"
    proof
      assume "glob (ASTERISK # s) (drop (length p) t)"
      then obtain j where "j \<le> length t - length p" "glob s (drop (j + length p) t)" by (auto simp: glob_star)
      then show "\<exists>k. length p \<le> k \<and> k \<le> length t \<and> glob s (drop k t)"
        using that by (intro exI [of _ "j + length p"]) auto
    next
      assume "\<exists>k. length p \<le> k \<and> k \<le> length t \<and> glob s (drop k t)"
      then obtain k where "length p \<le> k" "k \<le> length t" "glob s (drop (k - length p + length p) t)" by auto
      then show "glob (ASTERISK # s) (drop (length p) t)"
        unfolding glob_star by (intro exI [of _ "k - length p"]) auto
    qed
    ultimately show ?thesis using prefix_length_le by blast
  qed
  also have "\<dots> \<longleftrightarrow> prefix p t \<and> suffix s t \<and> length p + length s \<le> length t"
  proof -
    have "glob s (drop k t) \<longleftrightarrow> k + length s = length t \<and> suffix s t" if "k \<le> length t" for k
    proof -
      have "glob s (drop k t) \<longleftrightarrow> block_at t k s \<and> k + length s = length t"
        using glob_block [OF a(2) that, of "[]"] glob_no_star [OF a(2) that] by auto
      also have "\<dots> \<longleftrightarrow> k + length s = length t \<and> suffix s t"
      proof -
        have "k + length s = length t \<Longrightarrow> length t - length s = k \<and> length s \<le> length t" by simp
        then show ?thesis using block_at_plain [OF assms(2) that] prefix_drop_suffix [of s t] by metis
      qed
      finally show ?thesis .
    qed
    then show ?thesis using suffix_length_le [of s t] by (auto intro!: exI [of _ "length t - length s"])
  qed
  finally show "glob (p @ ASTERISK # s) t \<longleftrightarrow> prefix p t \<and> suffix s t \<and> length p + length s \<le> length t" .
qed

theorem match_one_star_exact_witness:
  "match ''ab'' ''ab*b'' = Some True \<and> \<not> glob ''ab*b'' ''ab'' \<and> match ''10m'' ''*kbytes'' = None
   \<and> match ''10kbytes'' ''*kbytes'' = Some True"
proof -
  have p: "plain ''ab''" "plain ''b''" "plain []" "plain ''kbytes''" by code_simp+
  show ?thesis
    using match_one_star_exact [OF p(1,2), of "''ab''"] match_one_star_exact [OF p(3,4), of "''10m''"]
      match_one_star_exact [OF p(3,4), of "''10kbytes''"] by (simp add: suffix_def prefix_def)
qed

text \<open>
  A \<open>?\<close> at the end of the text. The mask matches, whatever follows the question mark, although no character is left
  for it: \<open>ab?xyz\<close> accepts \<open>ab\<close>. The comment in the code says that this is no match.
\<close>

theorem match_question_at_end:
  assumes "plain t" "NUL \<notin> set m"
  shows "match t (t @ QUESTION # m) = Some True \<and> \<not> glob (t @ QUESTION # m) t"
proof
  have c: "cstr (t @ QUESTION # m) = t @ QUESTION # m" "cstr t = t"
    using plain_NUL [OF assms(1)] assms(2) by (auto intro!: cstr_id)
  show "match t (t @ QUESTION # m) = Some True"
    using match_loop_plain [OF assms(1), of 0 t "QUESTION # m" None]
    by (simp add: match_def match_tokens_def c match_loop.simps(2))
  have "ASTERISK \<notin> set t" using assms(1) by (auto simp: plain_def)
  then show "\<not> glob (t @ QUESTION # m) t"
    using glob_block [of t 0 t "QUESTION # m"] by (simp add: glob_char)
qed

theorem match_question_at_end_witness: "match ''ab'' ''ab?xyz'' = Some True"
  using match_question_at_end [of "''ab''" "''xyz''"] by simp

section \<open>Comparison without case\<close>

lemma schar_inj: "schar a = schar b \<longleftrightarrow> a = b"
proof
  assume e: "schar a = schar b"
  have "0 \<le> (of_char c :: int) \<and> (of_char c :: int) < 256" for c
    using nat_of_char_less_256 [of c] of_nat_of_char [of c, where 'a = int] by (simp add: of_char_less)
  note l = this [of a] this [of b]
  have "(of_char a :: int) = of_char b"
    using e l by (auto simp: schar_def split: if_splits)
  then have "(of_char a :: nat) = of_char b" by (metis of_nat_of_char of_nat_eq_iff)
  then show "a = b" by simp
qed simp

lemma stricmp_loop_eq_0: "stricmp_loop s t = 0 \<longleftrightarrow> map toupper s = map toupper t"
  by (induction s t rule: stricmp_loop.induct) (auto simp: schar_inj linorder_neq_iff dest: schar_inj [THEN iffD1])

lemma stricmp_loop_swap: "stricmp_loop t s = - stricmp_loop s t"
  by (induction s t rule: stricmp_loop.induct) auto

lemma strnicmp_loop_eq_0:
  "strnicmp_loop s t n = 0 \<longleftrightarrow> n \<le> length s \<and> n \<le> length t \<and> map toupper (take n s) = map toupper (take n t)"
  by (induction s t n rule: strnicmp_loop.induct) (auto simp: schar_inj linorder_neq_iff dest: schar_inj [THEN iffD1])

text \<open>
  Comparison. \<open>is_equal_no_case\<close> is equality of the upper case strings, \<open>stricmp\<close> changes its sign when its arguments are
  swapped, and \<open>starts_with\<close> and \<open>ends_with\<close> decide prefix and suffix of the strings or of their upper case,
  for strings without a zero character.
\<close>

theorem comparisons:
  assumes "NUL \<notin> set s" "NUL \<notin> set t"
  shows "(is_equal_no_case s t \<longleftrightarrow> to_upper s = to_upper t) \<and> stricmp t s = - stricmp s t
    \<and> (starts_with s t False \<longleftrightarrow> prefix t s) \<and> (starts_with s t True \<longleftrightarrow> prefix (to_upper t) (to_upper s))
    \<and> (ends_with s t False = Some (suffix t s)) \<and> (ends_with s t True = Some (suffix (to_upper t) (to_upper s)))"
proof -
  note c = cstr_id [OF assms(1)] cstr_id [OF assms(2)]
  have n: "NUL \<notin> set (drop k s)" for k using assms(1) by (auto dest: in_set_dropD)
  have p: "take (length u) v = u \<longleftrightarrow> prefix u v" for u v :: string
    by (metis prefix_take)
  have pu: "length t \<le> length v \<Longrightarrow> map toupper (take (length t) v) = map toupper t \<longleftrightarrow> prefix (map toupper t) (map toupper v)"
    for v by (metis p length_map take_map)
  have "starts_with s t True \<longleftrightarrow> prefix (to_upper t) (to_upper s)"
    using pu [of s] prefix_length_le [of "map toupper t" "map toupper s"]
    by (auto simp: starts_with_def c strnicmp_def strnicmp_loop_eq_0 to_upper_def Let_def)
  moreover have "starts_with s t False \<longleftrightarrow> prefix t s"
    using p [of t s] prefix_length_le [of t s] by (auto simp: starts_with_def c Let_def)
  moreover have "ends_with s t False = Some (suffix t s)"
  proof (cases "length s < length t")
    case False
    then have "suffix t s \<longleftrightarrow> take (length t) (drop (length s - length t) s) = t"
      using p [of t "drop (length s - length t) s"] prefix_drop_suffix [of t s] by (simp only: not_less)
    then show ?thesis using False by (simp add: ends_with_def c Let_def)
  qed (use suffix_length_le [of t s] in \<open>auto simp: ends_with_def c Let_def\<close>)
  moreover have "ends_with s t True = Some (suffix (to_upper t) (to_upper s))"
  proof (cases "length s < length t")
    case True
    then show ?thesis
      using suffix_length_le [of "to_upper t" "to_upper s"] by (auto simp: ends_with_def to_upper_def c Let_def)
  next
    case False
    have "suffix (to_upper t) (to_upper s) \<longleftrightarrow> prefix (to_upper t) (drop (length s - length t) (to_upper s))"
      using prefix_drop_suffix [of "to_upper t" "to_upper s"] False by (simp add: to_upper_def)
    also have "\<dots> \<longleftrightarrow> map toupper (take (length t) (drop (length s - length t) s)) = map toupper t"
      using pu [of "drop (length s - length t) s"] False by (simp add: to_upper_def drop_map)
    finally show ?thesis
      using False by (simp add: ends_with_def c cstr_id [OF n] strnicmp_def strnicmp_loop_eq_0 Let_def)
  qed
  moreover have "is_equal_no_case s t \<longleftrightarrow> to_upper s = to_upper t"
    by (auto simp: is_equal_no_case_def stricmp_def c stricmp_loop_eq_0 to_upper_def)
  moreover have "stricmp t s = - stricmp s t" by (simp add: stricmp_def stricmp_loop_swap [of "cstr t"])
  ultimately show ?thesis by blast
qed

theorem comparisons_witness:
  "is_equal_no_case ''Jan'' ''JAN'' \<and> starts_with ''Filename'' ''file'' True \<and> ends_with ''a.TXT'' ''.txt'' True = Some True"
proof -
  have n: "NUL \<notin> set ''Jan''" "NUL \<notin> set ''JAN''" "NUL \<notin> set ''Filename''" "NUL \<notin> set ''file''"
    "NUL \<notin> set ''a.TXT''" "NUL \<notin> set ''.txt''" by code_simp+
  have u: "to_upper ''Jan'' = to_upper ''JAN''" "prefix (to_upper ''file'') (to_upper ''Filename'')"
    "suffix (to_upper ''.txt'') (to_upper ''a.TXT'')" by code_simp+
  show ?thesis
    using comparisons [OF n(1,2)] comparisons [OF n(3,4)] comparisons [OF n(5,6)]
    by (simp only: u simp_thms)
qed

section \<open>Enclosing characters\<close>

text \<open>
  \<open>remove_enclosure\<close>. For one pair of characters the string between them is left; a string that is only one character
  counts as enclosed by it. For lists of pairs the number of pairs is cut off on both sides instead of one character:
  the example of the header, \<open>(abc)\<close> with the pairs of round and square brackets, leaves \<open>b\<close>, and shorter strings throw.
\<close>

theorem remove_enclosure_result:
  assumes "plain [l, r]" "NUL \<notin> set s" "length s < 2 ^ 64"
  shows "remove_enclosure_char s l r =
      Some (Inr (if s \<noteq> [] \<and> hd s = l \<and> last s = r then (True, butlast (tl s)) else (False, s)))
    \<and> remove_enclosure s [l] [r] = remove_enclosure_char s l r
    \<and> remove_enclosure ''(abc)'' ''(['' '')]'' = Some (Inr (True, ''b''))
    \<and> remove_enclosure ''()'' ''([{'' '')]}'' = Some (Inl OutOfRange)"
proof (intro conjI)
  have p: "plain [l]" "plain [r]" using assms(1) by simp_all
  have m: "match s [l, ASTERISK, r] = Some (s \<noteq> [] \<and> hd s = l \<and> last s = r)"
  proof (cases s)
    case (Cons x xs)
    have "suffix [r] (x # xs) \<longleftrightarrow> last (x # xs) = r"
      by (metis append_butlast_last_id last_snoc list.distinct(1) suffix_def)
    then show ?thesis using match_one_star [OF p assms(2)] Cons by auto
  qed (use match_one_star [OF p assms(2)] in simp)
  have sub: "substr s 1 (int (length s) - 2) = Inr (butlast (tl s))" if "s \<noteq> []"
  proof (cases "length s = 1")
    case True
    then obtain x where "s = [x]" by (auto simp: length_Suc_conv)
    then show ?thesis by (simp add: substr_def Let_def)
  next
    case False
    with that have l: "2 \<le> length s" by (cases s) (auto simp: Suc_le_eq)
    then have "(int (length s) - 2) mod 2 ^ 64 = int (length s) - 2"
      using assms(3) by (intro mod_pos_pos_trivial) auto
    moreover have "nat (int (length s) - 2) = length s - 2" using l by simp
    ultimately show ?thesis
      using l that by (simp add: substr_def Let_def butlast_conv_take drop_Suc numeral_2_eq_2 Suc_le_eq)
  qed
  show "remove_enclosure_char s l r =
      Some (Inr (if s \<noteq> [] \<and> hd s = l \<and> last s = r then (True, butlast (tl s)) else (False, s)))"
    using sub by (auto simp: remove_enclosure_char_def m)
  have "cstr [l] = [l]" "cstr [r] = [r]" using p by (simp_all add: cstr_def)
  then show "remove_enclosure s [l] [r] = remove_enclosure_char s l r"
    by (auto simp: remove_enclosure_def remove_enclosure_char_def m split: option.splits bool.splits)
  show "remove_enclosure ''(abc)'' ''(['' '')]'' = Some (Inr (True, ''b''))" by code_simp
  show "remove_enclosure ''()'' ''([{'' '')]}'' = Some (Inl OutOfRange)" by code_simp
qed

theorem remove_enclosure_result_witness:
  "remove_enclosure_char ''(a)'' CHR ''('' CHR '')'' = Some (Inr (True, ''a''))
   \<and> remove_enclosure_char ''q'' CHR ''q'' CHR ''q'' = Some (Inr (True, []))"
  using remove_enclosure_result [of "CHR ''(''" "CHR '')''" "''(a)''"] remove_enclosure_result [of "CHR ''q''" "CHR ''q''" "''q''"]
  by simp

end
