(* ===== verification/StringTokenizer.thy ===== *)
theory StringTokenizer
  imports StringEdit
begin

text \<open>
  The class \<open>StringTokenizer\<close> of \<open>src/utils/StringTokenizer.cpp\<close>. The delimiter is a string. The loops that do not end for an
  empty delimiter or filter are \<open>partial_function\<close>s, whose value is \<open>None\<close> then. The specification is \<open>split_on\<close>, the
  pieces between the delimiters that a scan from the left finds. Strings are below 2 GB, so that the \<open>int\<close> positions and
  counts of the code are exact; here they are unbounded.
\<close>

section \<open>The code\<close>

record tokenizer =
  m_delim_str :: string
  m_token_str :: string

text \<open>\<open>s.find (t, pos)\<close>, \<open>s.rfind (t)\<close> and \<open>s.erase (pos, n)\<close>; \<open>None\<close> is \<open>npos\<close>.\<close>

definition str_find :: "string \<Rightarrow> string \<Rightarrow> nat \<Rightarrow> nat option" where
  "str_find s t pos = (if pos \<le> length s then map_option (\<lambda>k. pos + k) (find_str (drop pos s) t) else None)"

definition str_rfind :: "string \<Rightarrow> string \<Rightarrow> nat option" where
  "str_rfind s t = List.find (\<lambda>i. take (length t) (drop i s) = t) (rev [0..<Suc (length s)])"

definition str_erase :: "string \<Rightarrow> nat \<Rightarrow> nat \<Rightarrow> string" where
  "str_erase s pos n = take pos s @ drop (pos + n) s"

lemma str_find_Some: "str_find s t pos = Some k \<Longrightarrow> pos \<le> k \<and> k + length t \<le> length s \<and> take (length t) (drop k s) = t"
  by (auto simp: str_find_def add.commute dest!: find_str_Some split: if_splits)

text \<open>\<open>while (m_token_str.find (m_delim_str, current_pos) == current_pos) m_token_str.erase (current_pos, ..)\<close>\<close>

function erase_run :: "string \<Rightarrow> string \<Rightarrow> nat \<Rightarrow> string" where
  "erase_run d s pos =
     (if d \<noteq> [] \<and> str_find s d pos = Some pos then erase_run d (str_erase s pos (length d)) pos else s)"
  by pat_completeness auto
termination
  by (relation "measure (\<lambda>(d, s, pos). length s)") (auto simp: str_erase_def neq_Nil_conv dest!: str_find_Some)

declare erase_run.simps [simp del]

lemma erase_run_length: "length (erase_run d s pos) \<le> length s"
proof (induction d s pos rule: erase_run.induct)
  case (1 d s pos)
  show ?case
  proof (cases "d \<noteq> [] \<and> str_find s d pos = Some pos")
    case True
    then have "length (erase_run d (str_erase s pos (length d)) pos) \<le> length s"
      using 1 by (fastforce simp: str_erase_def)
    then show ?thesis using True by (subst erase_run.simps) simp
  next
    case False
    then show ?thesis by (subst erase_run.simps) auto
  qed
qed

text \<open>The first loop of the constructor, which has returned if the delimiter is empty.\<close>

function merge_loop :: "string \<Rightarrow> string \<Rightarrow> nat \<Rightarrow> string" where
  "merge_loop d s pos =
     (case str_find s d pos of
        None \<Rightarrow> s
      | Some k \<Rightarrow>
          if d = [] then s
          else let pos = k + length d in merge_loop d (erase_run d s pos) pos)"
  by pat_completeness auto
termination
proof (relation "measure (\<lambda>(d, s, pos). length s - pos)")
  fix d s :: string and pos k x
  assume k: "str_find s d pos = Some k" and d: "d \<noteq> []" and x: "x = k + length d"
  have "pos < x" "k + length d \<le> length s" using str_find_Some [OF k] d x by (auto simp: neq_Nil_conv)
  then show "((d, erase_run d s x, x), d, s, pos) \<in> measure (\<lambda>(d, s, pos). length s - pos)"
    using erase_run_length [of d s x] d x by (auto simp: neq_Nil_conv)
qed simp

declare merge_loop.simps [simp del]

definition StringTokenizer_ctor :: "string \<Rightarrow> string \<Rightarrow> tokenizer" where
  "StringTokenizer_ctor s d =
     (let t = \<lparr>m_delim_str = d, m_token_str = s\<rparr> in
      if s = [] \<or> d = [] then t
      else
        let s1 = merge_loop d s 0;
            s2 = (if str_find s1 d 0 = Some 0 then str_erase s1 0 (length d) else s1)
        in case str_rfind s2 d of
             None \<Rightarrow> t\<lparr>m_token_str := s2\<rparr>
           | Some pos \<Rightarrow>
               if pos \<noteq> length s2 - length d then t\<lparr>m_token_str := s2\<rparr>
               else t\<lparr>m_token_str := str_erase s2 (length s2 - length d) (length d)\<rparr>)"

partial_function (option) count_loop :: "string \<Rightarrow> string \<Rightarrow> nat \<Rightarrow> nat \<Rightarrow> nat option" where
  "count_loop d s pos n =
     (case str_find s d pos of
        Some k \<Rightarrow> count_loop d s (k + length d) (Suc n)
      | None \<Rightarrow> Some n)"

declare count_loop.simps [code]

definition count_tokens :: "tokenizer \<Rightarrow> nat option" where
  "count_tokens t =
     (if 0 < length (m_token_str t) then map_option Suc (count_loop (m_delim_str t) (m_token_str t) 0 0) else Some 0)"

definition has_more_tokens :: "tokenizer \<Rightarrow> bool" where
  "has_more_tokens t \<longleftrightarrow> 0 < length (m_token_str t)"

definition next_token_delim :: "string \<Rightarrow> tokenizer \<Rightarrow> string \<times> tokenizer" where
  "next_token_delim d t =
     (let s = m_token_str t in
      if length s = 0 then ([], t)
      else case str_find s d 0 of
             Some pos \<Rightarrow> (take pos s, t\<lparr>m_token_str := take (length s - pos) (drop (pos + length d) s)\<rparr>)
           | None \<Rightarrow> (s, t\<lparr>m_token_str := []\<rparr>))"

definition next_token :: "tokenizer \<Rightarrow> string \<times> tokenizer" where
  "next_token t = next_token_delim (m_delim_str t) t"

definition remaining_string :: "tokenizer \<Rightarrow> string" where
  "remaining_string t = m_token_str t"

partial_function (option) filter_loop :: "string \<Rightarrow> string \<Rightarrow> nat \<Rightarrow> string option" where
  "filter_loop f s pos =
     (case str_find s f pos of
        Some k \<Rightarrow> filter_loop f (str_erase s k (length f)) k
      | None \<Rightarrow> Some s)"

declare filter_loop.simps [code]

definition filter_next_token :: "string \<Rightarrow> tokenizer \<Rightarrow> string option \<times> tokenizer" where
  "filter_next_token f t = (let (tok, t') = next_token t in (filter_loop f tok 0, t'))"

text \<open>\<open>atoi\<close> and \<open>atol\<close>, up to the width of the result: outside of it the behaviour is undefined.\<close>

definition is_digit :: "char \<Rightarrow> bool" where
  "is_digit c \<longleftrightarrow> 48 \<le> (of_char c :: nat) \<and> (of_char c :: nat) \<le> 57"

definition c_digits :: "string \<Rightarrow> int" where
  "c_digits s = foldl (\<lambda>n c. 10 * n + (of_char c - 48)) 0 (takeWhile is_digit s)"

definition c_atol :: "nat \<Rightarrow> string \<Rightarrow> int option" where
  "c_atol w s =
     (let s = dropWhile isspace s;
          n = (case s of c # cs \<Rightarrow> if c = CHR ''-'' then - c_digits cs else if c = CHR ''+'' then c_digits cs else c_digits s | [] \<Rightarrow> 0)
      in if - (2 ^ (w - 1)) \<le> n \<and> n < 2 ^ (w - 1) then Some n else None)"

definition next_int_token :: "tokenizer \<Rightarrow> int option \<times> tokenizer" where
  "next_int_token t = (let (tok, t') = next_token t in (c_atol 32 tok, t'))"

definition next_long_token :: "tokenizer \<Rightarrow> int option \<times> tokenizer" where
  "next_long_token t = (let (tok, t') = next_token t in (c_atol 64 tok, t'))"

text \<open>The loop of a client: \<open>while (t.has_more_tokens ()) t.next_token ()\<close>.\<close>

partial_function (option) all_tokens :: "tokenizer \<Rightarrow> string list option" where
  "all_tokens t =
     (if has_more_tokens t then Option.bind (all_tokens (snd (next_token t))) (\<lambda>xs. Some (fst (next_token t) # xs)) else Some [])"

declare all_tokens.simps [code]

section \<open>Splitting from the left\<close>

function split_on :: "string \<Rightarrow> string \<Rightarrow> string list" where
  "split_on d s =
     (case find_str s d of
        None \<Rightarrow> [s]
      | Some k \<Rightarrow> if d = [] then [s] else take k s # split_on d (drop (k + length d) s))"
  by pat_completeness auto
termination
  by (relation "measure (\<lambda>(d, s). length s)") (auto simp: neq_Nil_conv dest!: find_str_Some)

declare split_on.simps [simp del]

fun joind :: "string \<Rightarrow> string list \<Rightarrow> string" where
  "joind d [] = []"
| "joind d [p] = p"
| "joind d (p # q # ps) = p @ d @ joind d (q # ps)"

text \<open>The delimiter behind \<open>p\<close> is the first one.\<close>

definition clean :: "string \<Rightarrow> string \<Rightarrow> bool" where
  "clean d p \<longleftrightarrow> find_str (p @ d) d = Some (length p)"

fun pieces :: "string \<Rightarrow> string list \<Rightarrow> bool" where
  "pieces d [] = False"
| "pieces d [p] = (find_str p d = None)"
| "pieces d (p # q # ps) = (clean d p \<and> pieces d (q # ps))"

lemma find_str_least: "find_str s t = Some k \<longleftrightarrow> prefix t (drop k s) \<and> k \<le> length s \<and> (\<forall>j < k. \<not> prefix t (drop j s))"
proof
  assume f: "find_str s t = Some k"
  then show "prefix t (drop k s) \<and> k \<le> length s \<and> (\<forall>j < k. \<not> prefix t (drop j s))"
    using find_str_Some [OF f] find_str_first [OF f] by (auto simp: prefix_take)
next
  assume k: "prefix t (drop k s) \<and> k \<le> length s \<and> (\<forall>j < k. \<not> prefix t (drop j s))"
  then have "find_str s t \<noteq> None" by (auto simp: find_str_None)
  then obtain j where j: "find_str s t = Some j" by auto
  have "prefix t (drop j s)" using find_str_Some [OF j] by (auto simp: prefix_take)
  then have "k \<le> j" using k by (meson not_le)
  moreover have "j \<le> k" using find_str_first [OF j, of k] k by (meson not_le)
  ultimately show "find_str s t = Some k" using j by simp
qed

lemma clean_iff: "clean d p \<longleftrightarrow> (\<forall>j < length p. \<not> prefix d (drop j (p @ d)))"
  by (auto simp: clean_def find_str_least)

lemma prefix_append_long: "length d \<le> length u \<Longrightarrow> prefix d (u @ r) \<longleftrightarrow> prefix d u"
  by (simp add: prefix_take)

lemma clean_find: "clean d p \<Longrightarrow> find_str (p @ d @ r) d = Some (length p)"
  unfolding find_str_least clean_iff
proof (intro conjI allI impI)
  fix j assume c: "\<forall>j < length p. \<not> prefix d (drop j (p @ d))" and j: "j < length p"
  have "drop j (p @ d @ r) = drop j (p @ d) @ r" using j by simp
  moreover have "length d \<le> length (drop j (p @ d))" using j by simp
  ultimately show "\<not> prefix d (drop j (p @ d @ r))" using c j prefix_append_long by metis
qed auto

lemma clean_Nil: "clean d []"
  by (simp add: clean_iff)

lemma clean_take:
  assumes "find_str s d = Some k"
  shows "clean d (take k s)" and "s = take k s @ d @ drop (k + length d) s"
proof -
  note f = find_str_Some [OF assms]
  have "drop k s = d @ drop (length d) (drop k s)" using f by (metis append_take_drop_id)
  then show s: "s = take k s @ d @ drop (k + length d) s" by (metis append_take_drop_id drop_drop add.commute)
  show "clean d (take k s)" unfolding clean_iff
  proof (intro allI impI)
    fix j assume j: "j < length (take k s)"
    have "\<not> prefix d (drop j s)" using find_str_first [OF assms, of j] j by simp
    moreover have "drop j s = drop j (take k s @ d) @ drop (k + length d) s"
      using j by (subst s) simp
    ultimately show "\<not> prefix d (drop j (take k s @ d))" by (metis prefix_def append.assoc)
  qed
qed

lemma split_on_pieces: "d \<noteq> [] \<Longrightarrow> pieces d (split_on d s) \<and> joind d (split_on d s) = s"
proof (induction d s rule: split_on.induct)
  case (1 d s)
  show ?case
  proof (cases "find_str s d")
    case None
    then show ?thesis by (simp add: split_on.simps [of d s])
  next
    case (Some k)
    note IH = 1(1) [OF Some 1(2) 1(2)]
    obtain q ps where q: "split_on d (drop (k + length d) s) = q # ps" using IH by (cases "split_on d (drop (k + length d) s)") auto
    have "split_on d s = take k s # q # ps" using Some 1(2) q by (simp add: split_on.simps [of d s])
    moreover have "take k s @ d @ drop (k + length d) s = s" using clean_take(2) [OF Some] by simp
    ultimately show ?thesis using IH q clean_take(1) [OF Some] by simp
  qed
qed

lemma split_on_joind: "d \<noteq> [] \<Longrightarrow> pieces d ps \<Longrightarrow> split_on d (joind d ps) = ps"
proof (induction d ps rule: pieces.induct)
  case (2 d p)
  then show ?case by (simp add: split_on.simps [of d p])
next
  case (3 d p q ps)
  have f: "find_str (p @ d @ joind d (q # ps)) d = Some (length p)" using 3 by (simp add: clean_find)
  have "split_on d (joind d (p # q # ps)) = p # split_on d (joind d (q # ps))"
    using f 3(2) by (subst split_on.simps) simp
  then show ?case using 3 by simp
qed simp

section \<open>What the client gets\<close>

lemma str_find_0: "str_find s d 0 = find_str s d"
  by (cases "find_str s d") (auto simp: str_find_def)

lemma next_token_pieces:
  assumes "d \<noteq> []" and "pieces d ps" and "joind d ps \<noteq> []" and t: "m_delim_str t = d" "m_token_str t = joind d ps"
  shows "next_token t = (hd ps, t\<lparr>m_token_str := joind d (tl ps)\<rparr>)"
proof (cases "(d, ps)" rule: pieces.cases)
  case (2 d' p)
  then show ?thesis using assms by (simp add: next_token_def next_token_delim_def str_find_0)
next
  case (3 d' p q qs)
  then have "clean d p" "joind d ps = p @ d @ joind d (q # qs)" using assms(2) by auto
  then show ?thesis using assms 3 clean_find [of d p "joind d (q # qs)"]
    by (simp add: next_token_def next_token_delim_def str_find_0)
qed (use assms in simp)

text \<open>The last piece does not count if it is empty.\<close>

definition no_empty_end :: "string list \<Rightarrow> string list" where
  "no_empty_end ps = (if last ps = [] then butlast ps else ps)"

lemma joind_eq_Nil: "d \<noteq> [] \<Longrightarrow> pieces d ps \<Longrightarrow> joind d ps = [] \<longleftrightarrow> ps = [[]]"
  by (cases "(d, ps)" rule: pieces.cases) auto

lemma all_tokens_pieces:
  "d \<noteq> [] \<Longrightarrow> pieces d ps \<Longrightarrow> m_delim_str t = d \<Longrightarrow> m_token_str t = joind d ps \<Longrightarrow>
     all_tokens t = Some (no_empty_end ps)"
proof (induction d ps arbitrary: t rule: pieces.induct)
  case (2 d p)
  show ?case
  proof (cases "p = []")
    case True
    then show ?thesis using 2 by (subst all_tokens.simps) (simp add: has_more_tokens_def no_empty_end_def)
  next
    case False
    then have n: "next_token t = (p, t\<lparr>m_token_str := []\<rparr>)" using next_token_pieces [of d "[p]" t] 2 by simp
    have "all_tokens (t\<lparr>m_token_str := []\<rparr>) = Some []" by (subst all_tokens.simps) (simp add: has_more_tokens_def)
    then show ?thesis using 2 False n by (subst all_tokens.simps) (simp add: has_more_tokens_def no_empty_end_def)
  qed
next
  case (3 d p q ps)
  have j: "joind d (p # q # ps) \<noteq> []" using 3(2) by simp
  have n: "next_token t = (p, t\<lparr>m_token_str := joind d (q # ps)\<rparr>)" using next_token_pieces [OF 3(2,3) j 3(4,5)] by simp
  have "all_tokens (t\<lparr>m_token_str := joind d (q # ps)\<rparr>) = Some (no_empty_end (q # ps))"
    using 3 by simp
  moreover have "has_more_tokens t" using 3(5) j by (auto simp: has_more_tokens_def)
  ultimately show ?case by (subst all_tokens.simps) (simp add: n no_empty_end_def)
qed simp

lemma count_loop_pieces:
  "d \<noteq> [] \<Longrightarrow> pieces d ps \<Longrightarrow> count_loop d (pre @ joind d ps) (length pre) n = Some (n + length ps - 1)"
proof (induction d ps arbitrary: pre n rule: pieces.induct)
  case (2 d p)
  then show ?case by (subst count_loop.simps) (simp add: str_find_def)
next
  case (3 d p q ps)
  have f: "str_find (pre @ joind d (p # q # ps)) d (length pre) = Some (length pre + length p)"
    using clean_find [of d p "joind d (q # ps)"] 3(3) by (simp add: str_find_def)
  have "count_loop d (pre @ joind d (p # q # ps)) (length pre) n
      = count_loop d ((pre @ p @ d) @ joind d (q # ps)) (length (pre @ p @ d)) (Suc n)"
    using f by (subst count_loop.simps) (simp add: add.assoc)
  also have "\<dots> = Some (Suc n + length (q # ps) - 1)" using 3 by (intro 3(1)) auto
  finally show ?case by simp
qed simp

lemma count_tokens_pieces:
  assumes "d \<noteq> []" and "pieces d ps" and "m_delim_str t = d" and "m_token_str t = joind d ps"
  shows "count_tokens t = Some (if ps = [[]] then 0 else length ps)"
  using assms joind_eq_Nil [OF assms(1,2)] count_loop_pieces [OF assms(1,2), of "[]" 0]
  by (cases ps) (auto simp: count_tokens_def)

section \<open>The constructor\<close>

lemma pieces_iff: "pieces d ps \<longleftrightarrow> ps \<noteq> [] \<and> (\<forall>p \<in> set (butlast ps). clean d p) \<and> find_str (last ps) d = None"
  by (induction d ps rule: pieces.induct) auto

fun strip_empty :: "string list \<Rightarrow> string list" where
  "strip_empty ([] # q # qs) = strip_empty (q # qs)"
| "strip_empty ps = ps"

definition merged :: "string list \<Rightarrow> string list" where
  "merged ps = filter (\<lambda>p. p \<noteq> []) (butlast ps) @ [last ps]"

lemma merged_Cons: "r \<noteq> [] \<Longrightarrow> merged (p # r) = (if p = [] then merged r else p # merged r)"
  by (auto simp: merged_def)

lemma merged_strip: "ps \<noteq> [] \<Longrightarrow> merged (strip_empty ps) = merged ps"
  by (induction ps rule: strip_empty.induct) (auto simp: merged_Cons)

lemma strip_pieces: "pieces d ps \<Longrightarrow> pieces d (strip_empty ps) \<and> length (strip_empty ps) \<le> length ps"
  by (induction ps rule: strip_empty.induct) auto

lemma strip_head: "strip_empty ps = p # q # qs \<Longrightarrow> p \<noteq> []"
  by (induction ps rule: strip_empty.induct) auto

lemma joind_Cons: "ps \<noteq> [] \<Longrightarrow> joind d (p # ps) = p @ d @ joind d ps"
  by (cases ps) auto

lemma str_find_pieces:
  assumes "pieces d ps"
  shows "str_find (pre @ joind d ps) d (length pre) = (if tl ps = [] then None else Some (length pre + length (hd ps)))"
  using assms clean_find [of d "hd ps"] by (cases "(d, ps)" rule: pieces.cases) (auto simp: str_find_def)

lemma erase_run_none:
  assumes "d \<noteq> []" and "pieces d ps" and "tl ps = [] \<or> hd ps \<noteq> []"
  shows "erase_run d (pre @ joind d ps) (length pre) = pre @ joind d ps"
  using str_find_pieces [OF assms(2), of pre] assms(3) by (subst erase_run.simps) auto

lemma erase_run_pieces:
  "d \<noteq> [] \<Longrightarrow> pieces d ps \<Longrightarrow> erase_run d (pre @ joind d ps) (length pre) = pre @ joind d (strip_empty ps)"
proof (induction ps rule: strip_empty.induct)
  case (1 q qs)
  have "str_find (pre @ joind d ([] # q # qs)) d (length pre) = Some (length pre)"
    using str_find_pieces [OF 1(3), of pre] by simp
  moreover have "str_erase (pre @ joind d ([] # q # qs)) (length pre) (length d) = pre @ joind d (q # qs)"
    by (simp add: str_erase_def)
  ultimately show ?case using 1 by (subst erase_run.simps) simp
qed (auto simp: erase_run_none erase_run_none [where ps = "[v]" for v, simplified])

lemma merge_loop_pieces:
  "d \<noteq> [] \<Longrightarrow> pieces d ps \<Longrightarrow>
     merge_loop d (pre @ joind d ps) (length pre) = pre @ joind d (if tl ps = [] then ps else hd ps # merged (tl ps))"
proof (induction "length ps" arbitrary: ps pre rule: less_induct)
  case less
  show ?case
  proof (cases "(d, ps)" rule: pieces.cases)
    case (3 d' p q qs)
    then have ps: "ps = p # q # qs" by simp
    have f: "str_find (pre @ joind d ps) d (length pre) = Some (length pre + length p)"
      using str_find_pieces [OF less(3), of pre] ps by simp
    have "merge_loop d (pre @ joind d ps) (length pre)
        = merge_loop d (erase_run d ((pre @ p @ d) @ joind d (q # qs)) (length (pre @ p @ d))) (length (pre @ p @ d))"
      using f less(2) ps by (subst merge_loop.simps) (simp add: add.assoc Let_def)
    also have "\<dots> = merge_loop d ((pre @ p @ d) @ joind d (strip_empty (q # qs))) (length (pre @ p @ d))"
      using erase_run_pieces [OF less(2), of "q # qs" "pre @ p @ d"] less(3) ps by simp
    also have "\<dots> = (pre @ p @ d) @ joind d (if tl (strip_empty (q # qs)) = [] then strip_empty (q # qs)
          else hd (strip_empty (q # qs)) # merged (tl (strip_empty (q # qs))))"
      using strip_pieces [of d "q # qs"] less(3) ps by (intro less(1) [OF _ less(2)]) auto
    also have "(if tl (strip_empty (q # qs)) = [] then strip_empty (q # qs)
          else hd (strip_empty (q # qs)) # merged (tl (strip_empty (q # qs)))) = merged (q # qs)"
    proof (cases "strip_empty (q # qs)")
      case Nil
      then show ?thesis using strip_pieces [of d "q # qs"] less(3) ps by simp
    next
      case (Cons x xs)
      have "merged (x # xs) = merged (q # qs)" using merged_strip [of "q # qs"] Cons by simp
      then show ?thesis using Cons strip_head [of "q # qs" x] by (cases xs) (auto simp: merged_Cons merged_def)
    qed
    finally show ?thesis using ps by (simp add: joind_Cons merged_def)
  next
    case (2 d' p)
    then show ?thesis using str_find_pieces [OF less(3), of pre] by (subst merge_loop.simps) simp
  qed (use less(3) in simp)
qed

lemma str_rfind_Some: "str_rfind s t = Some k \<Longrightarrow> k + length t \<le> length s \<and> prefix t (drop k s)"
proof -
  assume "str_rfind s t = Some k"
  then have k: "k \<le> length s" "take (length t) (drop k s) = t"
    by (auto simp: str_rfind_def find_Some_iff rev_nth simp del: upt_Suc)
  moreover from this have "length t \<le> length s - k" by (metis length_drop length_take min.cobounded1)
  ultimately show ?thesis by (simp add: prefix_take)
qed

lemma str_rfind_end:
  assumes "d \<noteq> []"
  shows "str_rfind s d = Some (length s - length d) \<longleftrightarrow> suffix d s"
proof
  assume "str_rfind s d = Some (length s - length d)"
  note k = str_rfind_Some [OF this]
  then obtain r where r: "drop (length s - length d) s = d @ r" by (auto simp: prefix_def)
  then have "length (d @ r) = length s - (length s - length d)" by (metis length_drop)
  then have "drop (length s - length d) s = d" using k r by simp
  then show "suffix d s" by (metis suffix_drop)
next
  assume x: "suffix d s"
  then obtain u where s: "s = u @ d" by (auto simp: suffix_def)
  show "str_rfind s d = Some (length s - length d)"
  proof (cases "str_rfind s d")
    case None
    then have "\<forall>i \<in> set (rev [0..<Suc (length s)]). take (length d) (drop i s) \<noteq> d"
      by (simp add: str_rfind_def find_None_iff del: upt_Suc)
    moreover have "length u \<in> set (rev [0..<Suc (length s)])" using s by simp
    ultimately have "take (length d) (drop (length u) s) \<noteq> d" by blast
    then show ?thesis using s by simp
  next
    case (Some k)
    have "\<not> length u > k"
    proof
      assume l: "k < length u"
      obtain i where i: "i < Suc (length s)" "k = rev [0..<Suc (length s)] ! i"
          "\<forall>j < i. take (length d) (drop (rev [0..<Suc (length s)] ! j) s) \<noteq> d"
        using Some by (auto simp: str_rfind_def find_Some_iff simp del: upt_Suc)
      then have k: "k = length s - i" by (simp add: rev_nth del: upt_Suc)
      define j where "j = length s - length u"
      have "j < i" using k l i(1) s by (simp add: j_def)
      moreover have "rev [0..<Suc (length s)] ! j = length u" using s by (simp add: rev_nth j_def del: upt_Suc)
      ultimately show False using i(3) s by auto
    qed
    then show ?thesis using str_rfind_Some [OF Some] Some s by simp
  qed
qed

lemma find_none_clean: "d \<noteq> [] \<Longrightarrow> clean d p \<Longrightarrow> find_str p d = None"
  unfolding find_str_None clean_iff
proof (intro allI impI notI)
  fix k assume c: "\<forall>j < length p. \<not> prefix d (drop j (p @ d))" and d: "d \<noteq> []" and k: "k \<le> length p" "prefix d (drop k p)"
  then have "k < length p" by (metis drop_all le_neq_implies_less order_refl prefix_Nil)
  moreover have "prefix d (drop k (p @ d))" using k by simp
  ultimately show False using c by blast
qed

lemma pieces_merged: "pieces d ps \<Longrightarrow> pieces d (merged ps)"
  by (auto simp: pieces_iff merged_def)

lemma pieces_butlast: "d \<noteq> [] \<Longrightarrow> pieces d ps \<Longrightarrow> tl ps \<noteq> [] \<Longrightarrow> pieces d (butlast ps)"
  using find_none_clean [of d]
  by (cases ps rule: rev_cases; cases "butlast ps" rule: rev_cases) (auto simp: pieces_iff butlast_append)

lemma joind_snoc: "ps \<noteq> [] \<Longrightarrow> joind d (ps @ [q]) = joind d ps @ d @ q"
  by (induction d ps rule: joind.induct) (auto simp: joind_Cons)

text \<open>No proper end of the delimiter is a beginning of it, so that two occurrences cannot overlap.\<close>

definition no_border :: "string \<Rightarrow> bool" where
  "no_border d \<longleftrightarrow> (\<forall>k \<in> {1..<length d}. drop k d \<noteq> take (length d - k) d)"

lemma not_suffix:
  assumes "d \<noteq> []" and "no_border d" and "find_str q d = None" and "q \<noteq> []"
  shows "\<not> suffix d (u @ d @ q)"
proof
  assume s: "suffix d (u @ d @ q)"
  show False
  proof (cases "length d \<le> length q")
    case True
    have "suffix q (u @ d @ q)" by (rule suffixI [of _ "u @ d"]) simp
    then have "suffix d q" using s True suffix_length_suffix by blast
    then obtain v where "q = v @ d" by (auto simp: suffix_def)
    then have "prefix d (drop (length v) q) \<and> length v \<le> length q" by simp
    then show False using assms(3) find_str_None by blast
  next
    case False
    have "suffix (drop (length q) d @ q) (u @ d @ q)" by (metis append.assoc append_take_drop_id suffixI)
    moreover have "length (drop (length q) d @ q) = length d" using False by simp
    ultimately have "d = drop (length q) d @ q" using s by (metis suffix_length_suffix suffix_order.antisym order_refl)
    then have "take (length d - length q) d = drop (length q) d" by (metis append_eq_conv_conj length_drop)
    moreover have "length q \<in> {1..<length d}" using False assms(4) by (auto simp: Suc_le_eq)
    ultimately show False using assms(2) unfolding no_border_def by metis
  qed
qed

definition kept :: "string list \<Rightarrow> string list" where
  "kept ps = (if tl (merged ps) = [] then merged ps else no_empty_end (merged ps))"

lemma trailing_pieces:
  assumes d: "d \<noteq> []" and b: "no_border d" and p: "pieces d ps"
  shows "(case str_rfind (joind d ps) d of
      None \<Rightarrow> joind d ps
    | Some pos \<Rightarrow> if pos \<noteq> length (joind d ps) - length d then joind d ps
        else str_erase (joind d ps) (length (joind d ps) - length d) (length d))
    = joind d (if tl ps = [] then ps else no_empty_end ps)" (is "?l = _")
proof -
  let ?s = "joind d ps"
  have eq: "?l = (if suffix d ?s then take (length ?s - length d) ?s else ?s)"
    using str_rfind_end [OF d, of ?s] str_rfind_Some [of ?s d]
    by (auto simp: str_erase_def split: option.split)
  show ?thesis
  proof (cases "tl ps = []")
    case True
    then obtain q where q: "ps = [q]" using p by (cases ps) auto
    have "\<not> suffix d q"
    proof
      assume "suffix d q"
      then obtain v where "q = v @ d" by (auto simp: suffix_def)
      then have "prefix d (drop (length v) q) \<and> length v \<le> length q" by simp
      then show False using p q find_str_None by auto
    qed
    then show ?thesis using eq q by simp
  next
    case False
    obtain us q where ps: "ps = us @ [q]" using p by (cases ps rule: rev_cases) auto
    have us: "us \<noteq> []" using False ps by auto
    have j: "?s = joind d us @ d @ q" using joind_snoc [OF us] ps by simp
    show ?thesis
    proof (cases "q = []")
      case True
      then have x: "?s = joind d us @ d" using j by simp
      then have "suffix d ?s" by (simp add: suffix_def)
      then show ?thesis using eq x ps True False by (simp add: no_empty_end_def)
    next
      case q: False
      have "find_str q d = None" using p ps by (simp add: pieces_iff)
      then have "\<not> suffix d ?s" using not_suffix [OF d b _ q] j by metis
      then show ?thesis using eq ps False q by (simp add: no_empty_end_def)
    qed
  qed
qed

lemma ctor_pieces:
  assumes d: "d \<noteq> []" and b: "no_border d" and s: "s \<noteq> []" and p: "pieces d ps" "joind d ps = s"
  shows "StringTokenizer_ctor s d = \<lparr>m_delim_str = d, m_token_str = joind d (kept ps)\<rparr>"
proof -
  define qs where "qs = (if tl ps = [] then ps else hd ps # merged (tl ps))"
  have m: "merge_loop d s 0 = joind d qs"
    using merge_loop_pieces [OF d p(1), of "[]"] p(2) by (simp add: qs_def)
  have mps: "pieces d (merged ps)" using pieces_merged [OF p(1)] .
  have qs: "pieces d qs" using p(1) pieces_merged [of d "tl ps"]
    by (cases "(d, ps)" rule: pieces.cases) (auto simp: qs_def pieces_iff merged_def)
  have lead: "(if str_find (joind d qs) d 0 = Some 0 then str_erase (joind d qs) 0 (length d) else joind d qs) = joind d (merged ps)"
  proof (cases "tl ps = []")
    case True
    then obtain q where "ps = [q]" using p by (cases ps) auto
    then show ?thesis using p(1) by (simp add: qs_def str_find_0 merged_def)
  next
    case False
    then obtain x xs where x: "ps = x # xs" "xs \<noteq> []" using p by (cases ps) auto
    then have q: "qs = x # merged xs" by (simp add: qs_def)
    have f: "str_find (joind d qs) d 0 = Some (length x)"
      using str_find_pieces [OF qs, of "[]"] q by (simp add: merged_def)
    have j: "joind d qs = x @ d @ joind d (merged xs)" using q by (simp add: joind_Cons merged_def)
    show ?thesis
    proof (cases "x = []")
      case True
      then show ?thesis using f j x by (simp add: merged_Cons str_erase_def)
    next
      case False
      then show ?thesis using f j x q by (simp add: merged_Cons)
    qed
  qed
  have tail: "(case str_rfind (joind d (merged ps)) d of
      None \<Rightarrow> t\<lparr>m_token_str := joind d (merged ps)\<rparr>
    | Some pos \<Rightarrow> if pos \<noteq> length (joind d (merged ps)) - length d then t\<lparr>m_token_str := joind d (merged ps)\<rparr>
        else t\<lparr>m_token_str := str_erase (joind d (merged ps)) (length (joind d (merged ps)) - length d) (length d)\<rparr>)
    = t\<lparr>m_token_str := joind d (kept ps)\<rparr>" for t
  proof -
    have k: "joind d (kept ps) = joind d (if tl (merged ps) = [] then merged ps else no_empty_end (merged ps))"
      by (simp only: kept_def)
    show ?thesis unfolding k trailing_pieces [OF d b mps, symmetric] by (simp split: option.split)
  qed
  show ?thesis
    unfolding StringTokenizer_ctor_def Let_def m lead tail using d s by (simp only: simp_thms if_False) simp
qed

lemma kept_result: "ps \<noteq> [] \<Longrightarrow> kept ps = (if filter (\<lambda>p. p \<noteq> []) ps = [] then [[]] else filter (\<lambda>p. p \<noteq> []) ps)"
proof (cases ps rule: rev_cases)
  case (snoc us q)
  then show ?thesis by (cases "filter (\<lambda>p. p \<noteq> []) us") (auto simp: kept_def merged_def no_empty_end_def)
qed simp

lemma pieces_kept:
  assumes "d \<noteq> []" and "pieces d ps"
  shows "pieces d (kept ps)"
  using pieces_merged [OF assms(2)] pieces_butlast [OF assms(1), of "merged ps"]
  by (auto simp: kept_def no_empty_end_def)

section \<open>Empty delimiters and filters\<close>

lemma str_find_empty: "pos \<le> length s \<Longrightarrow> str_find s [] pos = Some pos"
  by (simp add: str_find_def find_str_least)

lemma count_loop_empty: "pos \<le> length s \<Longrightarrow> count_loop [] s pos n = None"
proof -
  have "d = [] \<longrightarrow> pos \<le> length s \<longrightarrow> False" if "count_loop d s pos n = Some y" for d y
  proof (rule count_loop.raw_induct [OF _ that, where P = "\<lambda>d s pos n y. d = [] \<longrightarrow> pos \<le> length s \<longrightarrow> False"])
    fix cl :: "string \<Rightarrow> string \<Rightarrow> nat \<Rightarrow> nat \<Rightarrow> nat option" and d s pos n y
    assume IH: "\<And>d s pos n y. cl d s pos n = Some y \<Longrightarrow> d = [] \<longrightarrow> pos \<le> length s \<longrightarrow> False"
      and step: "(case str_find s d pos of Some k \<Rightarrow> cl d s (k + length d) (Suc n) | None \<Rightarrow> Some n) = Some y"
    show "d = [] \<longrightarrow> pos \<le> length s \<longrightarrow> False"
      using IH [of "[]" s pos "Suc n" y] step by (auto simp: str_find_empty)
  qed
  then show "pos \<le> length s \<Longrightarrow> count_loop [] s pos n = None" by (cases "count_loop [] s pos n") auto
qed

lemma filter_loop_empty: "pos \<le> length s \<Longrightarrow> filter_loop [] s pos = None"
proof -
  have "f = [] \<longrightarrow> pos \<le> length s \<longrightarrow> False" if "filter_loop f s pos = Some y" for f y
  proof (rule filter_loop.raw_induct [OF _ that, where P = "\<lambda>f s pos y. f = [] \<longrightarrow> pos \<le> length s \<longrightarrow> False"])
    fix fl :: "string \<Rightarrow> string \<Rightarrow> nat \<Rightarrow> string option" and f s pos y
    assume IH: "\<And>f s pos y. fl f s pos = Some y \<Longrightarrow> f = [] \<longrightarrow> pos \<le> length s \<longrightarrow> False"
      and step: "(case str_find s f pos of Some k \<Rightarrow> fl f (str_erase s k (length f)) k | None \<Rightarrow> Some s) = Some y"
    show "f = [] \<longrightarrow> pos \<le> length s \<longrightarrow> False"
      using IH [of "[]" s pos y] step by (auto simp: str_find_empty str_erase_def)
  qed
  then show "pos \<le> length s \<Longrightarrow> filter_loop [] s pos = None" by (cases "filter_loop [] s pos") auto
qed

lemma filter_loop_returns: "f \<noteq> [] \<Longrightarrow> filter_loop f s pos \<noteq> None"
proof (induction "length s" arbitrary: s pos rule: less_induct)
  case less
  show ?case
  proof (cases "str_find s f pos")
    case None
    then show ?thesis by (subst filter_loop.simps) simp
  next
    case (Some k)
    have "length (str_erase s k (length f)) < length s"
      using str_find_Some [OF Some] less(2) by (auto simp: str_erase_def neq_Nil_conv)
    then show ?thesis using less Some by (subst filter_loop.simps) simp
  qed
qed

lemma all_tokens_empty: "m_delim_str t = [] \<Longrightarrow> m_token_str t \<noteq> [] \<Longrightarrow> all_tokens t = None"
proof -
  have "m_delim_str t = [] \<longrightarrow> m_token_str t \<noteq> [] \<longrightarrow> False" if "all_tokens t = Some y" for y
  proof (rule all_tokens.raw_induct [OF _ that, where P = "\<lambda>t y. m_delim_str t = [] \<longrightarrow> m_token_str t \<noteq> [] \<longrightarrow> False"])
    fix at :: "tokenizer \<Rightarrow> string list option" and t y
    assume IH: "\<And>t y. at t = Some y \<Longrightarrow> m_delim_str t = [] \<longrightarrow> m_token_str t \<noteq> [] \<longrightarrow> False"
      and step: "(if has_more_tokens t then Option.bind (at (snd (next_token t))) (\<lambda>xs. Some (fst (next_token t) # xs)) else Some []) = Some y"
    show "m_delim_str t = [] \<longrightarrow> m_token_str t \<noteq> [] \<longrightarrow> False"
    proof (intro impI)
      assume t: "m_delim_str t = []" "m_token_str t \<noteq> []"
      then have "snd (next_token t) = t" by (simp add: next_token_def next_token_delim_def str_find_empty)
      moreover have "has_more_tokens t" using t by (simp add: has_more_tokens_def)
      ultimately obtain xs where "at t = Some xs" using step by (auto split: bind_splits)
      then show False using IH t by blast
    qed
  qed
  then show "m_delim_str t = [] \<Longrightarrow> m_token_str t \<noteq> [] \<Longrightarrow> all_tokens t = None" by (cases "all_tokens t") auto
qed

section \<open>Properties\<close>

text \<open>
  C39: The tokens that a client gets are the non-empty pieces of the text between the delimiters, in order, and
  \<open>count_tokens\<close> is their number, for every text and every delimiter that cannot overlap itself (in
  particular one of a single character).
\<close>

theorem tokenizer_tokens:
  assumes "d \<noteq> []" and "no_border d"
  shows "all_tokens (StringTokenizer_ctor s d) = Some (filter (\<lambda>p. p \<noteq> []) (split_on d s))
    \<and> count_tokens (StringTokenizer_ctor s d) = Some (length (filter (\<lambda>p. p \<noteq> []) (split_on d s)))
    \<and> joind d (split_on d s) = s"
proof -
  define ps where "ps = split_on d s"
  have p: "pieces d ps" "joind d ps = s" using split_on_pieces [OF assms(1)] by (auto simp: ps_def)
  have ctor: "StringTokenizer_ctor s d = \<lparr>m_delim_str = d, m_token_str = joind d (kept ps)\<rparr>"
  proof (cases "s = []")
    case True
    then have "ps = [[]]" using joind_eq_Nil [OF assms(1) p(1)] p(2) by simp
    then show ?thesis using True by (simp add: StringTokenizer_ctor_def kept_def merged_def)
  next
    case False
    show ?thesis by (rule ctor_pieces [OF assms False p])
  qed
  note k = pieces_kept [OF assms(1) p(1)]
  have n: "ps \<noteq> []" using p(1) by auto
  define fs where "fs = filter (\<lambda>p. p \<noteq> []) ps"
  have fs: "[] \<notin> set fs" by (simp add: fs_def)
  have kf: "kept ps = (if fs = [] then [[]] else fs)" using kept_result [OF n] by (simp add: fs_def)
  have "no_empty_end (kept ps) = fs"
    using fs kf by (cases fs rule: rev_cases) (auto simp: no_empty_end_def)
  moreover have "(if kept ps = [[]] then 0 else length (kept ps)) = length fs" using fs kf by auto
  ultimately show ?thesis
    using all_tokens_pieces [OF assms(1) k] count_tokens_pieces [OF assms(1) k] ctor p(2)
    by (simp add: fs_def ps_def)
qed

theorem tokenizer_tokens_witness:
  "all_tokens (StringTokenizer_ctor '', ,a, , b,, '' '', '') = Some ['',a'', ''b,'']
   \<and> count_tokens (StringTokenizer_ctor '', ,a, , b,, '' '', '') = Some 2"
proof -
  have "no_border '', ''" by code_simp
  moreover have "filter (\<lambda>p. p \<noteq> []) (split_on '', '' '', ,a, , b,, '') = ['',a'', ''b,'']" by code_simp
  ultimately show ?thesis using tokenizer_tokens [of "'', ''" "'', ,a, , b,, ''"] by simp
qed

text \<open>
  When the operations return: counting the tokens and reading them all does unless the delimiter is empty and the text is
  not, which the constructor accepts, and then it never does; a filter loops exactly when it is empty.
\<close>

theorem tokenizer_termination:
  "(count_tokens t \<noteq> None \<longleftrightarrow> \<not> (m_delim_str t = [] \<and> m_token_str t \<noteq> []))
   \<and> (all_tokens t \<noteq> None \<longleftrightarrow> \<not> (m_delim_str t = [] \<and> m_token_str t \<noteq> []))
   \<and> (fst (filter_next_token f t) \<noteq> None \<longleftrightarrow> f \<noteq> [])
   \<and> m_delim_str (StringTokenizer_ctor s []) = [] \<and> m_token_str (StringTokenizer_ctor s []) = s"
proof -
  have "count_tokens t \<noteq> None \<and> all_tokens t \<noteq> None" if "m_delim_str t \<noteq> []"
    using count_tokens_pieces [OF that, of "split_on (m_delim_str t) (m_token_str t)" t]
      all_tokens_pieces [OF that, of "split_on (m_delim_str t) (m_token_str t)" t] split_on_pieces [OF that] by simp
  moreover have "count_tokens t \<noteq> None \<and> all_tokens t \<noteq> None" if "m_token_str t = []"
    using that by (subst all_tokens.simps) (simp add: count_tokens_def has_more_tokens_def)
  moreover have "count_tokens t = None \<and> all_tokens t = None" if "m_delim_str t = []" "m_token_str t \<noteq> []"
    using that all_tokens_empty by (auto simp: count_tokens_def count_loop_empty)
  moreover have "fst (filter_next_token f t) \<noteq> None \<longleftrightarrow> f \<noteq> []"
    using filter_loop_returns [of f] filter_loop_empty [of 0]
    by (auto simp: filter_next_token_def split: prod.split)
  moreover have "m_delim_str (StringTokenizer_ctor s []) = [] \<and> m_token_str (StringTokenizer_ctor s []) = s"
    by (simp add: StringTokenizer_ctor_def)
  ultimately show ?thesis by (cases "m_delim_str t = []"; cases "m_token_str t = []") simp_all
qed

text \<open>
  With a delimiter that overlaps itself the constructor cuts a delimiter off the end of the text that is not one from the
  left: a token is lost and another one is changed. The filter goes on behind the place where it has erased, and
  leaves what comes together there.
\<close>

theorem tokenizer_overlap:
  "all_tokens (StringTokenizer_ctor ''baaa'' ''aa'') = Some [''ba''] \<and> split_on ''aa'' ''baaa'' = [''b'', ''a'']
   \<and> fst (filter_next_token ''ab'' (StringTokenizer_ctor ''aabb'' '','')) = Some ''ab''"
  by code_simp

end
