(* ===== verification/StringTemplate.thy ===== *)
theory StringTemplate
  imports StringMatch StringTokenizer
begin

text \<open>
  The template processor of \<open>src/utils/StringTemplate.cpp\<close>. A symbol interpreter is code of the client: a function from the
  symbol to whether it knows it and what it leaves in the string. The list of interpreters holds pointers, here numbers,
  with their functions.
\<close>

section \<open>The code\<close>

type_synonym interpreter = "string \<Rightarrow> bool \<times> string"

datatype not_found_replacement = EMPTY_STRING | SYMBOL_NAME | UNCHANGE_STRING

record string_template =
  m_interpreters :: "(nat \<times> interpreter) list"
  m_not_found_replacement :: not_found_replacement

definition StringTemplate_ctor :: "not_found_replacement \<Rightarrow> string_template" where
  "StringTemplate_ctor nf = \<lparr>m_interpreters = [], m_not_found_replacement = nf\<rparr>"

definition add_symbol_interpreter :: "nat \<times> interpreter \<Rightarrow> string_template \<Rightarrow> string_template" where
  "add_symbol_interpreter i t = t\<lparr>m_interpreters := m_interpreters t @ [i]\<rparr>"

fun erase_interpreter :: "nat \<Rightarrow> (nat \<times> interpreter) list \<Rightarrow> (nat \<times> interpreter) list" where
  "erase_interpreter p [] = []"
| "erase_interpreter p (i # is) = (if fst i = p then is else i # erase_interpreter p is)"

definition remove_symbol_interpreter :: "nat \<Rightarrow> string_template \<Rightarrow> string_template" where
  "remove_symbol_interpreter p t = t\<lparr>m_interpreters := erase_interpreter p (m_interpreters t)\<rparr>"

fun ask :: "(nat \<times> interpreter) list \<Rightarrow> string \<Rightarrow> bool \<times> string" where
  "ask [] v = (False, v)"
| "ask (i # is) v = (case snd i v of (True, v') \<Rightarrow> (True, v') | (False, v') \<Rightarrow> ask is v')"

abbreviation BAR :: char where "BAR \<equiv> CHR ''|''"
abbreviation QUOTE :: char where "QUOTE \<equiv> CHR 0x27"
abbreviation DOLLAR :: char where "DOLLAR \<equiv> CHR ''$''"

text \<open>\<open>s.find (c, pos)\<close>\<close>

definition char_find :: "string \<Rightarrow> char \<Rightarrow> nat \<Rightarrow> nat option" where
  "char_find s c pos = str_find s [c] pos"

lemma char_find_Some: "char_find s c pos = Some k \<Longrightarrow> pos \<le> k \<and> k < length s"
  by (auto simp: char_find_def dest!: str_find_Some)

function value_impl :: "string_template \<Rightarrow> string \<Rightarrow> string \<Rightarrow> bool \<times> string" where
  "value_impl t var pattern =
     (if starts_with var [QUOTE] False \<and> ends_with var [QUOTE] False = Some True then
        (True, if 2 < length var then take (length var - 2) (drop 1 var) else [])
      else
        let (var1, alt) = (case char_find var BAR 0 of None \<Rightarrow> (var, []) | Some k \<Rightarrow> (take k var, drop (Suc k) var));
            (rc, var2) = ask (m_interpreters t) var1
        in if rc then (True, var2)
           else if alt \<noteq> [] then value_impl t alt pattern
           else (False, case m_not_found_replacement t of
                          EMPTY_STRING \<Rightarrow> [] | SYMBOL_NAME \<Rightarrow> var2 | UNCHANGE_STRING \<Rightarrow> pattern))"
  by pat_completeness auto
termination
  by (relation "measure (\<lambda>(t, var, pattern). length var)") (auto split: option.splits dest!: char_find_Some)

declare value_impl.simps [simp del]

definition template_value :: "string_template \<Rightarrow> string \<Rightarrow> bool \<times> string" where
  "template_value t var = value_impl t var var"

definition name_chars :: string where
  "name_chars = ''azertyuiopqsdfghjklmwxcvbnAZERTYUIOPQSDFGHJKLMWXCVBN0123456789_''"

text \<open>\<open>find_first_not_of\<close>, with the length of the string for \<open>npos\<close>, as the code sets it.\<close>

definition end_of_name :: "string \<Rightarrow> nat \<Rightarrow> nat" where
  "end_of_name s pos = pos + length (takeWhile (\<lambda>c. c \<in> set name_chars) (drop pos s))"

datatype template_error = MissingParenthesis

text \<open>The modifiers: upper case, lower case, and what is left of the variable.\<close>

definition modifiers :: "string \<Rightarrow> bool \<times> bool \<times> string" where
  "modifiers var =
     (let (to_upper, var) = (if starts_with var ''uc:'' False then (True, drop 3 var) else (False, var));
          (to_lower, var) = (if starts_with var ''lc:'' False then (True, drop 3 var) else (False, var))
      in (to_upper, to_lower, var))"

text \<open>What one variable puts into the result, and whether it was found.\<close>

definition eval_var :: "string_template \<Rightarrow> string \<Rightarrow> string \<Rightarrow> bool \<times> string" where
  "eval_var t var pattern =
     (let (upper, lower, var) = modifiers var;
          (rc, var) = value_impl t var pattern
      in (rc, if rc then (if upper then to_upper var else if lower then to_lower var else var) else var))"

definition new_return_value :: "bool \<Rightarrow> bool \<Rightarrow> bool \<Rightarrow> bool" where
  "new_return_value old_impl return_value rc =
     (if old_impl then (if return_value then rc else False) else if rc then True else return_value)"

definition add_not_found :: "bool \<Rightarrow> string \<Rightarrow> string list option \<Rightarrow> string list option" where
  "add_not_found rc var nf = (case nf of None \<Rightarrow> None | Some l \<Rightarrow> Some (if rc then l else l @ [var]))"

text \<open>The loop: the input that is left, the result, the return value, and the list of the variables not found, if any.\<close>

function substitute_loop ::
    "string_template \<Rightarrow> bool \<Rightarrow> string \<Rightarrow> string \<Rightarrow> bool \<Rightarrow> string list option \<Rightarrow>
       (template_error + (bool \<times> string)) \<times> string list option" where
  "substitute_loop t old_impl tin result return_value nf =
     (if length tin = 0 then (Inr (return_value, result), nf)
      else
        case char_find tin DOLLAR 0 of
          None \<Rightarrow> (Inr (return_value, result @ tin), nf)
        | Some k \<Rightarrow>
            if k < length tin - 1 \<and> tin ! Suc k = CHR ''('' then
              (case char_find tin (CHR '')'') (k + 2) of
                 None \<Rightarrow> (if \<not> old_impl then Inl MissingParenthesis else Inr (return_value, result @ tin), nf)
               | Some e \<Rightarrow>
                   let var = take (e - (k + 2)) (drop (k + 2) tin);
                       (rc, val) = eval_var t var (take (e + 1 - k) (drop k tin))
                   in substitute_loop t old_impl (drop (e - k - 1) (drop (k + 2) tin)) (result @ take k tin @ val)
                        (new_return_value old_impl return_value rc) (add_not_found rc (snd (snd (modifiers var))) nf))
            else if k < length tin - 1 \<and> tin ! Suc k = DOLLAR then
              substitute_loop t old_impl (drop (k + 2) tin) (result @ take (k + 1) tin) return_value nf
            else
              let e = end_of_name tin (k + 1);
                  var = take (e - (k + 1)) (drop (k + 1) tin);
                  (rc, val) = eval_var t var (take (e - k) (drop k tin))
              in substitute_loop t old_impl (drop (e - k - 1) (drop (k + 1) tin)) (result @ take k tin @ val)
                   (new_return_value old_impl return_value rc) (add_not_found rc (snd (snd (modifiers var))) nf))"
  by pat_completeness auto
termination
  by (relation "measure (\<lambda>(t, old, tin, result, rv, nf). length tin)") (auto dest!: char_find_Some)

declare substitute_loop.simps [simp del]

text \<open>\<open>substitute\<close> and \<open>substitute_ex\<close>; the template is not written when the code throws.\<close>

definition template_substitute :: "string_template \<Rightarrow> string \<Rightarrow> template_error + (bool \<times> string)" where
  "template_substitute t s = fst (substitute_loop t True s [] True None)"

definition template_substitute_ex ::
    "string_template \<Rightarrow> string \<Rightarrow> string list option \<Rightarrow> (template_error + (bool \<times> string)) \<times> string list option" where
  "template_substitute_ex t s nf = substitute_loop t False s [] False nf"

text \<open>
  \<open>SysUtils::get_env\<close>, with \<open>getenv\<close> of the system as a parameter: the return value, and what is left at \<open>pstrValue\<close>, which
  may be the string that \<open>strVar\<close> is.
\<close>

definition get_env :: "(string \<Rightarrow> string option) \<Rightarrow> string \<Rightarrow> string \<Rightarrow> string option \<Rightarrow> bool \<times> string" where
  "get_env getenv strVar value pszDef =
     (case getenv (cstr strVar) of
        None \<Rightarrow> (False, case pszDef of None \<Rightarrow> value | Some d \<Rightarrow> d)
      | Some v \<Rightarrow> (True, v))"

definition env_interpreter :: "(string \<Rightarrow> string option) \<Rightarrow> interpreter" where
  "env_interpreter getenv v = get_env getenv v v None"

section \<open>The grammar of a template\<close>

text \<open>
  A template is text, escaped dollars, simple variables and variables between parentheses; behind them may be a parenthesis
  that is never closed.
\<close>

datatype segment = Text string | Escaped | Simple string | Paren string

fun render_segment :: "segment \<Rightarrow> string" where
  "render_segment (Text s) = s"
| "render_segment Escaped = [DOLLAR, DOLLAR]"
| "render_segment (Simple n) = DOLLAR # n"
| "render_segment (Paren c) = DOLLAR # CHR ''('' # c @ [CHR '')'']"

fun template_text :: "segment list \<Rightarrow> string \<Rightarrow> string" where
  "template_text [] rest = rest"
| "template_text (g # gs) rest = render_segment g @ template_text gs rest"

text \<open>What may stand before the text \<open>ts\<close>.\<close>

fun segment_ok :: "segment \<Rightarrow> string \<Rightarrow> bool" where
  "segment_ok (Text s) ts = (DOLLAR \<notin> set s)"
| "segment_ok Escaped ts = True"
| "segment_ok (Simple n) ts =
     (set n \<subseteq> set name_chars \<and>
      (ts = [] \<or> hd ts \<notin> set name_chars \<and> (n = [] \<longrightarrow> hd ts \<noteq> CHR ''('' \<and> hd ts \<noteq> DOLLAR)))"
| "segment_ok (Paren c) ts = (CHR '')'' \<notin> set c)"

fun segments_ok :: "segment list \<Rightarrow> string \<Rightarrow> bool" where
  "segments_ok [] rest \<longleftrightarrow>
     rest = [] \<or> (\<exists>c. rest = DOLLAR # CHR ''('' # c \<and> CHR '')'' \<notin> set c)"
| "segments_ok (g # gs) rest \<longleftrightarrow> segment_ok g (template_text gs rest) \<and> segments_ok gs rest"

text \<open>What the segments put into the result, and the variables they ask for: the name, whether it was found.\<close>

fun content :: "segment \<Rightarrow> string" where
  "content (Paren c) = c"
| "content (Simple n) = n"
| "content _ = []"

fun is_variable :: "segment \<Rightarrow> bool" where
  "is_variable (Paren c) = True"
| "is_variable (Simple n) = True"
| "is_variable _ = False"

definition evaluated :: "string_template \<Rightarrow> segment \<Rightarrow> bool \<times> string" where
  "evaluated t g = eval_var t (content g) (render_segment g)"

fun expand :: "string_template \<Rightarrow> segment \<Rightarrow> string" where
  "expand t (Text s) = s"
| "expand t Escaped = [DOLLAR]"
| "expand t g = snd (evaluated t g)"

definition expansion :: "string_template \<Rightarrow> segment list \<Rightarrow> string" where
  "expansion t gs = concat (map (expand t) gs)"

definition variables :: "segment list \<Rightarrow> segment list" where
  "variables gs = filter is_variable gs"

definition found :: "string_template \<Rightarrow> segment \<Rightarrow> bool" where
  "found t g = fst (evaluated t g)"

definition name_of :: "segment \<Rightarrow> string" where
  "name_of g = snd (snd (modifiers (content g)))"

lemma takeWhile_neq: "c \<notin> set s \<Longrightarrow> takeWhile (\<lambda>x. x \<noteq> c) (s @ ts) = s @ takeWhile (\<lambda>x. x \<noteq> c) ts"
  by (rule takeWhile_append2) auto

lemma prefix_char: "prefix [c] (drop j s) \<longleftrightarrow> j < length s \<and> s ! j = c"
  by (cases "j < length s") (auto simp: Cons_nth_drop_Suc [symmetric])

lemma find_char: "find_str s [c] = (if c \<in> set s then Some (length (takeWhile (\<lambda>x. x \<noteq> c) s)) else None)"
proof (cases "c \<in> set s")
  case True
  then obtain p q where s: "s = p @ c # q" "c \<notin> set p" using split_list_first by metis
  then have "find_str s [c] = Some (length p)"
    by (auto simp: find_str_least prefix_char nth_append simp del: drop_append)
  then show ?thesis using s by (simp add: takeWhile_neq)
qed (auto simp: find_str_None prefix_char)

lemma char_find_0: "char_find s c 0 = (if c \<in> set s then Some (length (takeWhile (\<lambda>x. x \<noteq> c) s)) else None)"
  by (simp add: char_find_def str_find_0 find_char)

lemma char_find_append: "char_find (s @ ts) c (length s + p) = map_option (\<lambda>k. length s + k) (char_find ts c p)"
  by (simp add: char_find_def str_find_def option.map_comp o_def add.assoc)

lemma end_of_name_append: "end_of_name (s @ ts) (length s + p) = length s + end_of_name ts p"
  by (simp add: end_of_name_def)

lemma loop_text:
  assumes s: "DOLLAR \<notin> set s"
  shows "substitute_loop t old (s @ ts) res rv nf = substitute_loop t old ts (res @ s) rv nf"
proof (cases "DOLLAR \<in> set ts")
  case False
  then show ?thesis using s by (subst (1 2) substitute_loop.simps) (auto simp: char_find_0)
next
  case True
  define k where "k = length (takeWhile (\<lambda>x. x \<noteq> DOLLAR) ts)"
  have f: "char_find ts DOLLAR 0 = Some k" using True by (simp add: char_find_0 k_def)
  then have f': "char_find (s @ ts) DOLLAR 0 = Some (length s + k)"
    using s True by (simp add: char_find_0 k_def takeWhile_neq)
  have p: "char_find (s @ ts) c (Suc (Suc (length s + k))) = map_option (\<lambda>k. length s + k) (char_find ts c (Suc (Suc k)))" for c
    using char_find_append [of s ts c "k + 2"] by simp
  have e: "end_of_name (s @ ts) (Suc (length s + k)) = length s + end_of_name ts (Suc k)"
    using end_of_name_append [of s ts "Suc k"] by simp
  have n: "ts \<noteq> []" "(length s + k < length (s @ ts) - 1) = (k < length ts - 1)" 
    using True by (auto simp: Suc_le_eq length_greater_0_conv [symmetric] simp del: length_greater_0_conv)
  show ?thesis
    apply (subst (1 2) substitute_loop.simps)
    using n by (simp add: f f' p e nth_append Let_def split: option.split prod.split)
qed

lemma loop_escaped:
  "substitute_loop t old (DOLLAR # DOLLAR # ts) res rv nf = substitute_loop t old ts (res @ [DOLLAR]) rv nf"
  by (subst substitute_loop.simps) (simp add: char_find_0)

lemma close_paren:
  assumes "CHR '')'' \<notin> set c"
  shows "char_find (DOLLAR # CHR ''('' # c @ CHR '')'' # ts) (CHR '')'') 2 = Some (length c + 2)"
  using char_find_append [of "[DOLLAR, CHR ''('']" "c @ CHR '')'' # ts" "CHR '')''" 0] assms
  by (simp add: char_find_0 takeWhile_neq eval_nat_numeral)

lemma no_close_paren:
  assumes "CHR '')'' \<notin> set c"
  shows "char_find (DOLLAR # CHR ''('' # c) (CHR '')'') 2 = None"
  using char_find_append [of "[DOLLAR, CHR ''('']" c "CHR '')''" 0] assms by (simp add: char_find_0 eval_nat_numeral)

definition after :: "bool \<Rightarrow> string_template \<Rightarrow> segment \<Rightarrow> bool \<Rightarrow> bool" where
  "after old t g rv = new_return_value old rv (found t g)"

definition missing :: "string_template \<Rightarrow> segment \<Rightarrow> string list option \<Rightarrow> string list option" where
  "missing t g nf = add_not_found (found t g) (name_of g) nf"

lemmas segment_defs = found_def evaluated_def name_of_def after_def missing_def

lemma loop_paren:
  assumes c: "CHR '')'' \<notin> set c"
  shows "substitute_loop t old (render_segment (Paren c) @ ts) res rv nf =
           substitute_loop t old ts (res @ expand t (Paren c)) (after old t (Paren c) rv) (missing t (Paren c) nf)"
  using close_paren [OF c, of ts]
  by (subst substitute_loop.simps) (simp add: char_find_0 segment_defs eval_nat_numeral split: prod.split)

lemma end_of_simple:
  assumes "segment_ok (Simple n) ts"
  shows "end_of_name (DOLLAR # n @ ts) (Suc 0) = Suc (length n)"
proof -
  have "takeWhile (\<lambda>c. c \<in> set name_chars) (n @ ts) = n"
    using assms by (cases ts) (auto simp: takeWhile_append2 subset_iff)
  then show ?thesis by (simp add: end_of_name_def)
qed

lemma loop_simple:
  assumes n: "segment_ok (Simple n) ts"
  shows "substitute_loop t old (render_segment (Simple n) @ ts) res rv nf =
           substitute_loop t old ts (res @ expand t (Simple n)) (after old t (Simple n) rv) (missing t (Simple n) nf)"
proof -
  have "(n @ ts) ! 0 \<noteq> CHR ''('' \<and> (n @ ts) ! 0 \<noteq> DOLLAR" if "n @ ts \<noteq> []"
  proof (cases n)
    case Nil
    then show ?thesis using n that by (auto simp: hd_conv_nth)
  next
    case (Cons a m)
    then have "a \<in> set name_chars" using n by simp
    then show ?thesis using Cons by (auto simp: name_chars_def)
  qed
  then show ?thesis using end_of_simple [OF n]
    by (subst substitute_loop.simps) (auto simp: char_find_0 segment_defs split: prod.split)
qed

lemma loop_open:
  assumes "CHR '')'' \<notin> set c"
  shows "substitute_loop t old (DOLLAR # CHR ''('' # c) res rv nf =
           (if old then Inr (rv, res @ DOLLAR # CHR ''('' # c) else Inl MissingParenthesis, nf)"
  using no_close_paren [OF assms] by (subst substitute_loop.simps) (simp add: char_find_0 eval_nat_numeral)

text \<open>The segments one after the other, and the code on them.\<close>

lemma loop_render:
  assumes "segments_ok gs rest"
  shows "substitute_loop t old (template_text gs rest) res rv nf =
           substitute_loop t old rest (res @ expansion t gs)
             (fold (after old t) (variables gs) rv) (fold (missing t) (variables gs) nf)"
  using assms
proof (induction gs arbitrary: res rv nf)
  case (Cons g gs)
  then have ok: "segment_ok g (template_text gs rest)" by simp
  show ?case
  proof (cases g)
    case (Text s)
    then show ?thesis using Cons loop_text [of s] by (simp add: expansion_def variables_def)
  next
    case Escaped
    then show ?thesis using Cons loop_escaped by (simp add: expansion_def variables_def)
  next
    case (Simple n)
    then show ?thesis using Cons ok loop_simple [of n] by (simp add: expansion_def variables_def)
  next
    case (Paren c)
    then show ?thesis using Cons ok loop_paren [of c] by (simp add: expansion_def variables_def)
  qed
qed (simp add: expansion_def variables_def)

section \<open>Every template\<close>

lemma fold_after:
  "fold (after old t) vs rv = (if old then rv \<and> list_all (found t) vs else rv \<or> list_ex (found t) vs)"
  by (induction vs arbitrary: rv) (auto simp: after_def new_return_value_def)

lemma fold_missing: "fold (missing t) vs (Some l) = Some (l @ map name_of (filter (\<lambda>g. \<not> found t g) vs))"
  by (induction vs arbitrary: l) (auto simp: missing_def add_not_found_def)

lemma loop_rest:
  assumes "segments_ok [] rest"
  shows "substitute_loop t old rest res rv nf =
           (if old \<or> rest = [] then Inr (rv, res @ rest) else Inl MissingParenthesis, nf)"
proof (cases "rest = []")
  case True
  then show ?thesis by (subst substitute_loop.simps) simp
next
  case False
  then obtain c where "rest = DOLLAR # CHR ''('' # c" "CHR '')'' \<notin> set c" using assms by auto
  then show ?thesis by (auto simp: loop_open)
qed

text \<open>The first segment of a text.\<close>

definition head_segment :: "segment \<Rightarrow> string \<Rightarrow> string \<Rightarrow> bool" where
  "head_segment g s ts \<longleftrightarrow> s = render_segment g @ ts \<and> segment_ok g ts \<and> length ts < length s"

lemma head_paren:
  assumes "CHR '')'' \<in> set c"
  shows "\<exists>g ts. head_segment g (DOLLAR # CHR ''('' # c) ts"
proof -
  obtain a b where c: "c = a @ CHR '')'' # b" "CHR '')'' \<notin> set a" using split_list_first [OF assms] by metis
  then have "head_segment (Paren a) (DOLLAR # CHR ''('' # c) b" by (simp add: head_segment_def)
  then show ?thesis by blast
qed

lemma head_simple:
  assumes "r = [] \<or> hd r \<noteq> CHR ''('' \<and> hd r \<noteq> DOLLAR"
  shows "\<exists>g ts. head_segment g (DOLLAR # r) ts"
proof -
  let ?n = "takeWhile (\<lambda>c. c \<in> set name_chars) r" and ?ts = "dropWhile (\<lambda>c. c \<in> set name_chars) r"
  have "?ts = [] \<or> hd ?ts \<notin> set name_chars" using hd_dropWhile [of "\<lambda>c. c \<in> set name_chars" r] by blast
  moreover have "?ts = r" if "?n = []" using that by (cases r) (auto split: if_splits)
  moreover have "set ?n \<subseteq> set name_chars" by (auto dest: set_takeWhileD)
  ultimately have "segment_ok (Simple ?n) ?ts" using assms unfolding segment_ok.simps by metis
  then have "head_segment (Simple ?n) (DOLLAR # r) ?ts"
    by (simp add: head_segment_def length_dropWhile_le less_Suc_eq_le)
  then show ?thesis by blast
qed

lemma head_segment_exists:
  assumes s: "\<not> segments_ok [] s"
  shows "\<exists>g ts. head_segment g s ts"
proof -
  obtain a r where ar: "s = a # r" using s by (cases s) auto
  consider "a \<noteq> DOLLAR" | c where "a = DOLLAR" "r = CHR ''('' # c" "CHR '')'' \<in> set c"
    | c where "a = DOLLAR" "r = DOLLAR # c" | "a = DOLLAR" "r = [] \<or> hd r \<noteq> CHR ''('' \<and> hd r \<noteq> DOLLAR"
    using s ar by (cases r) auto
  then show ?thesis
  proof cases
    case 1
    then have "head_segment (Text [a]) s r" using ar by (simp add: head_segment_def)
    then show ?thesis by blast
  next
    case (2 c)
    then show ?thesis using ar head_paren by simp
  next
    case (3 c)
    then have "head_segment Escaped s c" using ar by (simp add: head_segment_def)
    then show ?thesis by blast
  next
    case 4
    then show ?thesis using ar head_simple by simp
  qed
qed

lemma template_grammar: "\<exists>gs rest. segments_ok gs rest \<and> s = template_text gs rest"
proof (induction "length s" arbitrary: s rule: less_induct)
  case less
  show ?case
  proof (cases "segments_ok [] s")
    case True
    then have "segments_ok [] s \<and> s = template_text [] s" by simp
    then show ?thesis by blast
  next
    case False
    then obtain g ts where g: "head_segment g s ts" using head_segment_exists by blast
    then have "length ts < length s" unfolding head_segment_def by blast
    then obtain gs rest where "segments_ok gs rest \<and> ts = template_text gs rest" using less by blast
    then have "segments_ok (g # gs) rest \<and> s = template_text (g # gs) rest" using g by (simp add: head_segment_def)
    then show ?thesis by blast
  qed
qed

lemma substitute_render:
  assumes "segments_ok gs rest"
  shows "template_substitute t (template_text gs rest) = Inr (list_all (found t) (variables gs), expansion t gs @ rest)"
    and "template_substitute_ex t (template_text gs rest) (Some l) =
           (if rest = [] then Inr (list_ex (found t) (variables gs), expansion t gs) else Inl MissingParenthesis,
            Some (l @ map name_of (filter (\<lambda>g. \<not> found t g) (variables gs))))"
proof -
  have r: "segments_ok [] rest" using assms by (induction gs) auto
  show "template_substitute t (template_text gs rest) = Inr (list_all (found t) (variables gs), expansion t gs @ rest)"
    by (simp add: template_substitute_def loop_render [OF assms] loop_rest [OF r] fold_after)
  show "template_substitute_ex t (template_text gs rest) (Some l) =
           (if rest = [] then Inr (list_ex (found t) (variables gs), expansion t gs) else Inl MissingParenthesis,
            Some (l @ map name_of (filter (\<lambda>g. \<not> found t g) (variables gs))))"
    by (simp add: template_substitute_ex_def loop_render [OF assms] loop_rest [OF r] fold_after fold_missing)
qed

section \<open>Interpreters that keep to their contract\<close>

text \<open>An interpreter that leaves a symbol it does not know as it is, and replaces one it knows.\<close>

locale symbol_environment =
  fixes interpret_symbol :: interpreter and env :: "string \<Rightarrow> string option"
  assumes symbol: "interpret_symbol v = (case env v of None \<Rightarrow> (False, v) | Some x \<Rightarrow> (True, x))"
begin

lemma ask_environment: "ask [(p, interpret_symbol)] v = (case env v of None \<Rightarrow> (False, v) | Some x \<Rightarrow> (True, x))"
  by (simp add: symbol split: option.split)

lemma ask_before:
  "ask ((p, interpret_symbol) # is) v = (case env v of None \<Rightarrow> ask is v | Some x \<Rightarrow> (True, x))"
  by (simp add: symbol split: option.split)

end

interpretation process_env: symbol_environment "env_interpreter getenv" "\<lambda>v. getenv (cstr v)"
  by unfold_locales (simp add: env_interpreter_def get_env_def split: option.split)

section \<open>The alternatives of a variable\<close>

fun first_known :: "(string \<Rightarrow> string option) \<Rightarrow> string list \<Rightarrow> string option" where
  "first_known env [] = None"
| "first_known env (n # ns) = (case env n of None \<Rightarrow> first_known env ns | Some x \<Rightarrow> Some x)"

fun alternatives :: "string list \<Rightarrow> string option \<Rightarrow> string" where
  "alternatives [] None = []"
| "alternatives [] (Some d) = QUOTE # d @ [QUOTE]"
| "alternatives (n # ns) d = (if ns = [] \<and> d = None then n else n @ BAR # alternatives ns d)"

definition alternative_name :: "string \<Rightarrow> bool" where
  "alternative_name n \<longleftrightarrow> n \<noteq> [] \<and> BAR \<notin> set n \<and> hd n \<noteq> QUOTE"

definition default_text :: "string option \<Rightarrow> bool" where
  "default_text d \<longleftrightarrow> (case d of None \<Rightarrow> True | Some x \<Rightarrow> NUL \<notin> set x)"

lemma starts_with_quote: "starts_with var [QUOTE] False \<longleftrightarrow> var \<noteq> [] \<and> hd var = QUOTE"
  by (cases var) (auto simp: starts_with_def cstr_def)

lemma value_default:
  assumes "NUL \<notin> set d"
  shows "value_impl t (QUOTE # d @ [QUOTE]) pattern = (True, d)"
proof -
  have "cstr (QUOTE # d @ [QUOTE]) = QUOTE # d @ [QUOTE]" using assms by (simp add: cstr_id)
  then have "ends_with (QUOTE # d @ [QUOTE]) [QUOTE] False = Some True" by (simp add: ends_with_def cstr_id)
  then show ?thesis by (subst value_impl.simps) (auto simp: starts_with_quote)
qed

lemma value_name:
  assumes "alternative_name n"
  shows "value_impl t n pattern =
           (case ask (m_interpreters t) n of (True, x) \<Rightarrow> (True, x)
            | (False, x) \<Rightarrow> (False, case m_not_found_replacement t of
                EMPTY_STRING \<Rightarrow> [] | SYMBOL_NAME \<Rightarrow> x | UNCHANGE_STRING \<Rightarrow> pattern))"
  using assms
  by (subst value_impl.simps) (auto simp: starts_with_quote alternative_name_def char_find_0 split: prod.split bool.split)

lemma value_bar:
  assumes n: "alternative_name n" and alt: "alt \<noteq> []"
  shows "value_impl t (n @ BAR # alt) pattern =
           (case ask (m_interpreters t) n of (True, x) \<Rightarrow> (True, x) | (False, x) \<Rightarrow> value_impl t alt pattern)"
proof -
  have "\<not> starts_with (n @ BAR # alt) [QUOTE] False" using n by (simp add: starts_with_quote alternative_name_def)
  moreover have "char_find (n @ BAR # alt) BAR 0 = Some (length n)"
    using n by (simp add: char_find_0 alternative_name_def takeWhile_neq)
  ultimately show ?thesis using alt by (subst value_impl.simps) (auto split: prod.split bool.split)
qed

context symbol_environment
begin

lemma alternatives_value:
  assumes t: "m_interpreters t = [(p, interpret_symbol)]" and "ns \<noteq> []" "list_all alternative_name ns" "default_text d"
  shows "value_impl t (alternatives ns d) pattern =
           (case first_known env ns of
              Some x \<Rightarrow> (True, x)
            | None \<Rightarrow> (case d of
                Some x \<Rightarrow> (True, x)
              | None \<Rightarrow> (False, case m_not_found_replacement t of
                  EMPTY_STRING \<Rightarrow> [] | SYMBOL_NAME \<Rightarrow> last ns | UNCHANGE_STRING \<Rightarrow> pattern)))"
  using assms(2-4)
proof (induction ns)
  case (Cons n ns)
  then have n: "alternative_name n" by simp
  show ?case
  proof (cases "ns = []")
    case True
    then show ?thesis using n Cons.prems
      by (cases d) (auto simp: value_name value_bar value_default t ask_environment default_text_def
                         simp del: ask.simps split: option.split not_found_replacement.split)
  next
    case False
    then have "alternatives ns d \<noteq> []" using Cons.prems by (cases ns) (auto simp: alternative_name_def)
    then show ?thesis using Cons False n
      by (auto simp: value_bar t ask_environment simp del: ask.simps split: option.split not_found_replacement.split)
  qed
qed simp

end

section \<open>Properties\<close>

text \<open>C40: Substitution in templates. Every string is a sequence of text, escaped dollars, simple variables and variables between
parentheses, with at most one parenthesis at the end that is not closed. \<open>substitute\<close> replaces every segment by its expansion,
copies what begins with the open parenthesis, and returns true if every variable was found; \<open>substitute_ex\<close> does the same, returns
true if at least one variable was found, appends to its list the names of those that were not, in their order, and throws
if a parenthesis is not closed.\<close>

theorem template_substitution:
  "(\<exists>gs rest. segments_ok gs rest \<and> s = template_text gs rest) \<and>
   (segments_ok gs rest \<longrightarrow>
      template_substitute t (template_text gs rest) = Inr (list_all (found t) (variables gs), expansion t gs @ rest) \<and>
      template_substitute_ex t (template_text gs rest) (Some l) =
        (if rest = [] then Inr (list_ex (found t) (variables gs), expansion t gs) else Inl MissingParenthesis,
         Some (l @ map name_of (filter (\<lambda>g. \<not> found t g) (variables gs)))))"
  by (intro conjI impI template_grammar substitute_render)

definition sample_getenv :: "string \<Rightarrow> string option" where
  "sample_getenv = [''HOME'' \<mapsto> ''/home/me'', ''user'' \<mapsto> ''Ada'']"

definition sample_template :: string_template where
  "sample_template = add_symbol_interpreter (0, env_interpreter sample_getenv) (StringTemplate_ctor SYMBOL_NAME)"

lemma template_substitution_witness:
  "template_substitute_ex sample_template ''$$: $HOME/$(uc:user) $(x|'?') $(lc:y'' (Some []) = (Inl MissingParenthesis, Some [])
   \<and> template_substitute sample_template ''$$: $HOME/$(uc:user) $(x|'?') $(lc:y'' = Inr (True, ''$: /home/me/ADA ? $(lc:y'')"
proof -
  let ?gs = "[Escaped, Text '': '', Simple ''HOME'', Text ''/'', Paren ''uc:user'', Text '' '', Paren (''x|'?'' @ [QUOTE]), Text '' '']"
  let ?rest = "''$(lc:y''"
  have ok: "segments_ok ?gs ?rest" by (simp add: name_chars_def)
  have r: "template_text ?gs ?rest = ''$$: $HOME/$(uc:user) $(x|'?') $(lc:y''" by simp
  have f: "list_all (found sample_template) (variables ?gs) \<and> filter (\<lambda>g. \<not> found sample_template g) (variables ?gs) = []
      \<and> expansion sample_template ?gs = ''$: /home/me/ADA ? ''"
    by code_simp
  show ?thesis
    using template_substitution [of "[]" ?gs ?rest sample_template "[]"] ok f unfolding r by simp
qed

text \<open>The alternatives of a variable. With the interpreter of the environment, \<open>$(a|b|'default')\<close> is the value of the first
name that is defined, else the default, else what the template was told to put in: nothing, the last name, or the pattern.\<close>

theorem template_alternatives:
  assumes "ns \<noteq> []" and "list_all alternative_name ns" and "default_text d"
  shows "value_impl (add_symbol_interpreter (p, env_interpreter getenv) (StringTemplate_ctor nf)) (alternatives ns d) pattern =
           (case first_known (\<lambda>v. getenv (cstr v)) ns of
              Some x \<Rightarrow> (True, x)
            | None \<Rightarrow> (case d of
                Some x \<Rightarrow> (True, x)
              | None \<Rightarrow> (False, case nf of EMPTY_STRING \<Rightarrow> [] | SYMBOL_NAME \<Rightarrow> last ns | UNCHANGE_STRING \<Rightarrow> pattern)))"
proof -
  let ?t = "add_symbol_interpreter (p, env_interpreter getenv) (StringTemplate_ctor nf)"
  have "m_interpreters ?t = [(p, env_interpreter getenv)]" by (simp add: add_symbol_interpreter_def StringTemplate_ctor_def)
  moreover have nf: "m_not_found_replacement ?t = nf" by (simp add: add_symbol_interpreter_def StringTemplate_ctor_def)
  ultimately show ?thesis using process_env.alternatives_value [of ?t p getenv ns d pattern] assms unfolding nf by blast
qed

lemma template_alternatives_witness:
  "value_impl (add_symbol_interpreter (0, env_interpreter sample_getenv) (StringTemplate_ctor EMPTY_STRING)) (''x|user|'none'' @ [QUOTE]) [] = (True, ''Ada'')"
  using template_alternatives [of "[''x'', ''user'']" "Some ''none''" 0 sample_getenv EMPTY_STRING "[]"]
  by (simp add: alternative_name_def default_text_def sample_getenv_def cstr_def)

text \<open>Where the alternatives end. An alternative that is empty is none; a variable that begins and ends with a quote is one
default, whatever stands between, so that two defaults are one with their quotes inside; and \<open>substitute\<close> says that the
evaluation is done for a variable whose parenthesis is not closed, which it copies.\<close>

theorem template_limits:
  assumes n: "alternative_name n" and x: "NUL \<notin> set x" and y: "NUL \<notin> set y" and c: "CHR '')'' \<notin> set c"
  shows "value_impl t (n @ [BAR]) pattern = value_impl t n pattern
   \<and> value_impl t (QUOTE # x @ [QUOTE, BAR, QUOTE] @ y @ [QUOTE]) pattern = (True, x @ [QUOTE, BAR, QUOTE] @ y)
   \<and> template_substitute t (DOLLAR # CHR ''('' # c) = Inr (True, DOLLAR # CHR ''('' # c)"
proof (intro conjI)
  have "\<not> starts_with (n @ [BAR]) [QUOTE] False" "char_find (n @ [BAR]) BAR 0 = Some (length n)"
    using n by (auto simp: starts_with_quote alternative_name_def char_find_0 takeWhile_neq)
  then show "value_impl t (n @ [BAR]) pattern = value_impl t n pattern"
    unfolding value_name [OF n] by (subst value_impl.simps) (auto split: prod.split bool.split)
  show "value_impl t (QUOTE # x @ [QUOTE, BAR, QUOTE] @ y @ [QUOTE]) pattern = (True, x @ [QUOTE, BAR, QUOTE] @ y)"
    using value_default [of "x @ [QUOTE, BAR, QUOTE] @ y" t pattern] x y by simp
  show "template_substitute t (DOLLAR # CHR ''('' # c) = Inr (True, DOLLAR # CHR ''('' # c)"
    by (simp add: template_substitute_def loop_open [OF c])
qed

lemma template_limits_witness:
  "template_substitute sample_template ''$(user'' = Inr (True, ''$(user'')"
  using template_limits [of "''a''" "''b''" "''c''" "''user''" sample_template "[]"] by (simp add: alternative_name_def)

end
