(* ===== verification/CommandLine.thy ===== *)
theory CommandLine
  imports StringMatch
begin

text \<open>
  The command line parser of \<open>src/utils/CommandLine.cpp\<close>. The arguments of the process are a list of strings without
  zeros, the first one the name of the program. What the parser prints is a list of texts with their stream.
  \<open>show_usage\<close> counts with a \<open>uint8\<close>, so that it is partial: \<open>None\<close> when it does not return.
\<close>

section \<open>The state\<close>

record command_line_opt =
  cShortName :: char
  strLongName :: string
  opt_strDesc :: string
  strValue :: string

record command_line_arg =
  arg_strDesc :: string
  bMandatory :: bool
  bSingle :: bool

record command_line =
  m_dictOptValues :: "string \<rightharpoonup> string"
  m_vecArgs :: "string list"
  m_vecOptDefs :: "command_line_opt list"
  m_vecArgDefs :: "command_line_arg list"
  m_strCmdName :: string
  m_strCmdVersion :: string

definition CommandLine_ctor :: command_line where
  "CommandLine_ctor =
     \<lparr>m_dictOptValues = Map.empty, m_vecArgs = [], m_vecOptDefs = [], m_vecArgDefs = [], m_strCmdName = [], m_strCmdVersion = []\<rparr>"

definition set_cmd_name_version :: "string \<Rightarrow> string \<Rightarrow> command_line \<Rightarrow> command_line" where
  "set_cmd_name_version strName strVersion c = c\<lparr>m_strCmdName := strName, m_strCmdVersion := strVersion\<rparr>"

text \<open>A null pointer for the value is \<open>None\<close>.\<close>

definition add_opt :: "char \<Rightarrow> string \<Rightarrow> string option \<Rightarrow> string \<Rightarrow> command_line \<Rightarrow> command_line" where
  "add_opt cShort pszLongName pszValue pszDesc c =
     c\<lparr>m_vecOptDefs := m_vecOptDefs c @
         [\<lparr>cShortName = cShort, strLongName = pszLongName, opt_strDesc = pszDesc,
           strValue = (case pszValue of None \<Rightarrow> [] | Some v \<Rightarrow> v)\<rparr>]\<rparr>"

definition add_arg :: "string \<Rightarrow> bool \<Rightarrow> bool \<Rightarrow> command_line \<Rightarrow> command_line" where
  "add_arg pszDesc single mandatory c =
     c\<lparr>m_vecArgDefs := m_vecArgDefs c @ [\<lparr>arg_strDesc = pszDesc, bMandatory = mandatory, bSingle = single\<rparr>]\<rparr>"

definition find_short_opt :: "char \<Rightarrow> command_line \<Rightarrow> command_line_opt option" where
  "find_short_opt cOpt c = List.find (\<lambda>opt. cShortName opt = cOpt) (m_vecOptDefs c)"

definition find_long_opt :: "string \<Rightarrow> command_line \<Rightarrow> command_line_opt option" where
  "find_long_opt strOpt c = List.find (\<lambda>opt. is_equal (strLongName opt) strOpt) (m_vecOptDefs c)"

section \<open>The usage text\<close>

abbreviation NEWLINE :: char where "NEWLINE \<equiv> CHR 0x0A"

partial_function (option) usage_args :: "command_line_arg list \<Rightarrow> 8 word \<Rightarrow> string \<Rightarrow> string option" where
  "usage_args defs ui os =
     (if unat ui < length defs then
        usage_args defs (ui + 1)
          (os @ '' '' @ arg_strDesc (defs ! unat ui) @ (if bSingle (defs ! unat ui) then [] else ''...''))
      else Some os)"

declare usage_args.simps [code]

text \<open>\<open>os.width (40); os << std::left << oss.str ()\<close>\<close>

definition pad_right :: "nat \<Rightarrow> string \<Rightarrow> string" where
  "pad_right n s = s @ replicate (n - length s) (CHR '' '')"

definition usage_opt :: "command_line_opt \<Rightarrow> string" where
  "usage_opt opt =
     pad_right 40 (NEWLINE # ''-'' @ [cShortName opt] @ '', --'' @ strLongName opt
       @ (if strValue opt = [] then [] else '' <'' @ strValue opt @ ''>''))
     @ opt_strDesc opt"

partial_function (option) usage_opts :: "command_line_opt list \<Rightarrow> 8 word \<Rightarrow> string \<Rightarrow> string option" where
  "usage_opts defs ui os =
     (if unat ui < length defs then usage_opts defs (ui + 1) (os @ usage_opt (defs ! unat ui)) else Some os)"

declare usage_opts.simps [code]

definition show_usage :: "command_line \<Rightarrow> string option" where
  "show_usage c =
     (let os = ''Usage:'' @ [NEWLINE] @ m_strCmdName c @ (if 0 < length (m_vecOptDefs c) then '' [options]'' else [])
      in case (if 0 < length (m_vecArgDefs c) then usage_args (m_vecArgDefs c) 0 os else Some os) of
           None \<Rightarrow> None
         | Some os \<Rightarrow>
             let os = os @ [NEWLINE] in
             (case (if 0 < length (m_vecOptDefs c) then usage_opts (m_vecOptDefs c) 0 (os @ ''Options:'') else Some os) of
                None \<Rightarrow> None
              | Some os \<Rightarrow> Some (os @ [NEWLINE])))"

section \<open>Reading\<close>

datatype stream = Cout | Cerr

datatype read_result = Returns bool | BadArgs string

type_synonym printed = "(stream \<times> string) list"

definition bad_option :: "string \<Rightarrow> command_line \<Rightarrow> (read_result \<times> printed) option" where
  "bad_option strOpt c =
     (let oss = ''Unrecognized option '' @ [CHR 0x27] @ strOpt @ [CHR 0x27]
      in map_option (\<lambda>u. (BadArgs oss, [(Cerr, oss @ [NEWLINE]), (Cerr, u)])) (show_usage c))"

definition store_opt :: "command_line_opt \<Rightarrow> string \<Rightarrow> command_line \<Rightarrow> command_line" where
  "store_opt opt v c = c\<lparr>m_dictOptValues := (m_dictOptValues c)(strLongName opt \<mapsto> v)\<rparr>"

text \<open>The loop over the arguments, up to its end or to an early end with its result.\<close>

function args_loop :: "string list \<Rightarrow> command_line \<Rightarrow> (command_line \<times> (read_result \<times> printed) option) option" where
  "args_loop [] c = Some (c, None)"
| "args_loop (strArg # rest) c =
     (if starts_with strArg ''--'' False then
        (case find_long_opt (drop 2 strArg) c of
           None \<Rightarrow> map_option (\<lambda>r. (c, Some r)) (bad_option (''--'' @ drop 2 strArg) c)
         | Some opt \<Rightarrow>
             if strValue opt \<noteq> [] \<and> rest \<noteq> [] then args_loop (tl rest) (store_opt opt (hd rest) c)
             else args_loop rest (store_opt opt ''dummy'' c))
      else if starts_with_char strArg (CHR ''-'') then
        (case find_short_opt (if 1 < length strArg then strArg ! 1 else NUL) c of
           None \<Rightarrow> map_option (\<lambda>r. (c, Some r)) (bad_option strArg c)
         | Some opt \<Rightarrow>
             if strValue opt \<noteq> [] \<and> rest \<noteq> [] then args_loop (tl rest) (store_opt opt (hd rest) c)
             else args_loop rest (store_opt opt ''dummy'' c))
      else if m_vecArgDefs c = [] then
        map_option (\<lambda>u. (c, Some (Returns False, [(Cerr, ''Unexpected argument '' @ [CHR 0x22] @ strArg @ [CHR 0x22, NEWLINE]), (Cerr, u)])))
          (show_usage c)
      else args_loop rest (c\<lparr>m_vecArgs := m_vecArgs c @ [strArg]\<rparr>))"
  by pat_completeness auto
termination by (relation "measure (\<lambda>(xs, c). length xs)") auto

definition is_option :: "string \<Rightarrow> command_line \<Rightarrow> bool" where
  "is_option strOpt c \<longleftrightarrow> m_dictOptValues c strOpt \<noteq> None"

definition option_value :: "string \<Rightarrow> command_line \<Rightarrow> string" where
  "option_value strOpt c = (case m_dictOptValues c strOpt of None \<Rightarrow> [] | Some v \<Rightarrow> v)"

definition arg_count :: "command_line \<Rightarrow> int" where
  "arg_count c = int (length (m_vecArgs c))"

text \<open>An access outside of the vector is undefined: \<open>None\<close>.\<close>

definition arg :: "int \<Rightarrow> command_line \<Rightarrow> string option" where
  "arg i c =
     (if 0 \<le> i \<or> i < arg_count c then
        (if 0 \<le> i \<and> i < arg_count c then Some (m_vecArgs c ! nat i) else None)
      else Some [])"

definition read_args :: "string list \<Rightarrow> command_line \<Rightarrow> (command_line \<times> read_result \<times> printed) option" where
  "read_args argv c =
     (let c = add_opt (CHR ''v'') ''version'' (Some []) ''Program version''
                (add_opt (CHR ''h'') ''help'' (Some []) ''Show this usage'' c)
      in case args_loop (drop 1 argv) c of
           None \<Rightarrow> None
         | Some (c, Some r) \<Rightarrow> Some (c, r)
         | Some (c, None) \<Rightarrow>
             if is_option ''version'' c then
               Some (c, Returns False, [(Cout, m_strCmdName c @ '' V'' @ m_strCmdVersion c @ [NEWLINE])])
             else if is_option ''help'' c then map_option (\<lambda>u. (c, Returns False, [(Cout, u)])) (show_usage c)
             else if length (m_vecArgs c) < length (m_vecArgDefs c) \<and> bMandatory (m_vecArgDefs c ! 0) then
               map_option (\<lambda>u. (c, BadArgs ''Argument missing.'', [(Cerr, ''Argument missing.'' @ [NEWLINE]), (Cerr, u)])) (show_usage c)
             else Some (c, Returns True, []))"

definition show_usage_info :: "string \<Rightarrow> command_line \<Rightarrow> printed option" where
  "show_usage_info strAppInfo c =
     map_option (\<lambda>u. (if strAppInfo = [] then [] else [(Cout, strAppInfo @ [NEWLINE])]) @ [(Cout, u)]) (show_usage c)"

section \<open>The usage text returns for up to 255 definitions\<close>

lemma next_index: "unat (ui :: 8 word) < n \<Longrightarrow> n \<le> 255 \<Longrightarrow> unat (ui + 1) = Suc (unat ui)"
  by (simp add: unat_word_ariths)

lemma index_below: "unat (ui :: 8 word) < 256"
  using unsigned_less [of ui, where ?'a = nat] by simp

definition usage_arg :: "command_line_arg \<Rightarrow> string" where
  "usage_arg a = '' '' @ arg_strDesc a @ (if bSingle a then [] else ''...'')"

lemma usage_args_text:
  "length defs \<le> 255 \<Longrightarrow> usage_args defs ui os = Some (os @ concat (map usage_arg (drop (unat ui) defs)))"
proof (induction "length defs - unat ui" arbitrary: ui os)
  case 0
  then show ?case by (subst usage_args.simps) simp
next
  case (Suc n)
  then have l: "unat ui < length defs" by simp
  have n: "unat (ui + 1) = Suc (unat ui)" by (rule next_index [OF l Suc(3)])
  have "usage_args defs (ui + 1) os' = Some (os' @ concat (map usage_arg (drop (Suc (unat ui)) defs)))" for os'
    using Suc(1) [of "ui + 1"] Suc(2,3) n by simp
  then show ?case using l by (subst usage_args.simps) (simp add: Cons_nth_drop_Suc [symmetric] usage_arg_def)
qed

lemma usage_opts_text:
  "length defs \<le> 255 \<Longrightarrow> usage_opts defs ui os = Some (os @ concat (map usage_opt (drop (unat ui) defs)))"
proof (induction "length defs - unat ui" arbitrary: ui os)
  case 0
  then show ?case by (subst usage_opts.simps) simp
next
  case (Suc n)
  then have l: "unat ui < length defs" by simp
  have n: "unat (ui + 1) = Suc (unat ui)" by (rule next_index [OF l Suc(3)])
  have "usage_opts defs (ui + 1) os' = Some (os' @ concat (map usage_opt (drop (Suc (unat ui)) defs)))" for os'
    using Suc(1) [of "ui + 1"] Suc(2,3) n by simp
  then show ?case using l by (subst usage_opts.simps) (simp add: Cons_nth_drop_Suc [symmetric])
qed

lemma usage_args_loops: "256 \<le> length defs \<Longrightarrow> usage_args defs ui os = None"
proof -
  have "256 \<le> length defs \<longrightarrow> False" if "usage_args defs ui os = Some y" for y
  proof (rule usage_args.raw_induct [OF _ that, where P = "\<lambda>defs ui os y. 256 \<le> length defs \<longrightarrow> False"])
    fix ua :: "command_line_arg list \<Rightarrow> 8 word \<Rightarrow> string \<Rightarrow> string option" and defs ui os y
    assume IH: "\<And>defs ui os y. ua defs ui os = Some y \<Longrightarrow> 256 \<le> length defs \<longrightarrow> False"
      and step: "(if unat ui < length defs then
        ua defs (ui + 1) (os @ '' '' @ arg_strDesc (defs ! unat ui) @ (if bSingle (defs ! unat ui) then [] else ''...''))
      else Some os) = Some y"
    show "256 \<le> length defs \<longrightarrow> False"
    proof
      assume l: "256 \<le> length defs"
      then have "unat ui < length defs" using index_below [of ui] by simp
      then show False using IH [OF step [unfolded if_P [OF \<open>unat ui < length defs\<close>]]] l by blast
    qed
  qed
  then show "256 \<le> length defs \<Longrightarrow> usage_args defs ui os = None" by (cases "usage_args defs ui os") auto
qed

lemma usage_opts_loops: "256 \<le> length defs \<Longrightarrow> usage_opts defs ui os = None"
proof -
  have "256 \<le> length defs \<longrightarrow> False" if "usage_opts defs ui os = Some y" for y
  proof (rule usage_opts.raw_induct [OF _ that, where P = "\<lambda>defs ui os y. 256 \<le> length defs \<longrightarrow> False"])
    fix uo :: "command_line_opt list \<Rightarrow> 8 word \<Rightarrow> string \<Rightarrow> string option" and defs ui os y
    assume IH: "\<And>defs ui os y. uo defs ui os = Some y \<Longrightarrow> 256 \<le> length defs \<longrightarrow> False"
      and step: "(if unat ui < length defs then uo defs (ui + 1) (os @ usage_opt (defs ! unat ui)) else Some os) = Some y"
    show "256 \<le> length defs \<longrightarrow> False"
    proof
      assume l: "256 \<le> length defs"
      then have "unat ui < length defs" using index_below [of ui] by simp
      then show False using IH [OF step [unfolded if_P [OF \<open>unat ui < length defs\<close>]]] l by blast
    qed
  qed
  then show "256 \<le> length defs \<Longrightarrow> usage_opts defs ui os = None" by (cases "usage_opts defs ui os") auto
qed

definition usage_text :: "command_line \<Rightarrow> string" where
  "usage_text c =
     ''Usage:'' @ [NEWLINE] @ m_strCmdName c @ (if m_vecOptDefs c = [] then [] else '' [options]'')
     @ concat (map usage_arg (m_vecArgDefs c)) @ [NEWLINE]
     @ (if m_vecOptDefs c = [] then [] else ''Options:'' @ concat (map usage_opt (m_vecOptDefs c))) @ [NEWLINE]"

definition few_defs :: "command_line \<Rightarrow> bool" where
  "few_defs c \<longleftrightarrow> length (m_vecOptDefs c) \<le> 255 \<and> length (m_vecArgDefs c) \<le> 255"

lemma show_usage_text: "show_usage c = (if few_defs c then Some (usage_text c) else None)"
proof -
  have a: "usage_args (m_vecArgDefs c) 0 os =
      (if length (m_vecArgDefs c) \<le> 255 then Some (os @ concat (map usage_arg (m_vecArgDefs c))) else None)" for os
    using usage_args_text [of "m_vecArgDefs c" 0] usage_args_loops [of "m_vecArgDefs c" 0] by simp
  have o: "usage_opts (m_vecOptDefs c) 0 os =
      (if length (m_vecOptDefs c) \<le> 255 then Some (os @ concat (map usage_opt (m_vecOptDefs c))) else None)" for os
    using usage_opts_text [of "m_vecOptDefs c" 0] usage_opts_loops [of "m_vecOptDefs c" 0] by simp
  show ?thesis
    by (cases "m_vecOptDefs c = []"; cases "m_vecArgDefs c = []")
      (auto simp: show_usage_def usage_text_def few_defs_def a o Let_def)
qed

section \<open>Command lines and what is read from them\<close>

text \<open>An item of a command line; the flag is \<open>True\<close> for the long form of an option.\<close>

datatype item = Flag bool command_line_opt | Valued bool command_line_opt string | Plain string

fun opt_text :: "bool \<Rightarrow> command_line_opt \<Rightarrow> string" where
  "opt_text True opt = ''--'' @ strLongName opt"
| "opt_text False opt = [CHR ''-'', cShortName opt]"

fun render :: "item \<Rightarrow> string list" where
  "render (Flag long opt) = [opt_text long opt]"
| "render (Valued long opt v) = [opt_text long opt, v]"
| "render (Plain s) = [s]"

fun declared :: "bool \<Rightarrow> command_line_opt \<Rightarrow> command_line \<Rightarrow> bool" where
  "declared True opt c = (find_long_opt (strLongName opt) c = Some opt)"
| "declared False opt c = (find_short_opt (cShortName opt) c = Some opt \<and> cShortName opt \<noteq> CHR ''-'')"

fun item_ok :: "command_line \<Rightarrow> item \<Rightarrow> bool" where
  "item_ok c (Flag long opt) = (declared long opt c \<and> strValue opt = [])"
| "item_ok c (Valued long opt v) = (declared long opt c \<and> strValue opt \<noteq> [])"
| "item_ok c (Plain s) = (\<not> starts_with_char s (CHR ''-'') \<and> m_vecArgDefs c \<noteq> [])"

fun take_item :: "item \<Rightarrow> command_line \<Rightarrow> command_line" where
  "take_item (Flag long opt) c = store_opt opt ''dummy'' c"
| "take_item (Valued long opt v) c = store_opt opt v c"
| "take_item (Plain s) c = c\<lparr>m_vecArgs := m_vecArgs c @ [s]\<rparr>"

lemma starts_with_dashes: "starts_with s ''--'' False \<longleftrightarrow> (\<exists>t. s = ''--'' @ t)"
  by (cases s rule: list.exhaust; cases "tl s") (auto simp: starts_with_def cstr_def Let_def)

lemma item_ok_defs:
  "m_vecOptDefs c' = m_vecOptDefs c \<Longrightarrow> m_vecArgDefs c' = m_vecArgDefs c \<Longrightarrow> item_ok c' i = item_ok c i"
  by (cases i; cases "case i of Flag l opt \<Rightarrow> l | Valued l opt v \<Rightarrow> l | _ \<Rightarrow> True")
    (auto simp: find_long_opt_def find_short_opt_def)

lemma take_item_defs [simp]:
  "m_vecOptDefs (take_item i c) = m_vecOptDefs c" "m_vecArgDefs (take_item i c) = m_vecArgDefs c"
  "m_strCmdName (take_item i c) = m_strCmdName c" "m_strCmdVersion (take_item i c) = m_strCmdVersion c"
  by (cases i; simp add: store_opt_def)+

lemma args_loop_item: "item_ok c i \<Longrightarrow> args_loop (render i @ rest) c = args_loop rest (take_item i c)"
proof (cases i)
  case (Flag long opt)
  then show "item_ok c i \<Longrightarrow> ?thesis" by (cases long) (auto simp: starts_with_dashes starts_with_char_def)
next
  case (Valued long opt v)
  then show "item_ok c i \<Longrightarrow> ?thesis" by (cases long) (auto simp: starts_with_dashes starts_with_char_def)
next
  case (Plain s)
  then show "item_ok c i \<Longrightarrow> ?thesis" by (auto simp: starts_with_dashes starts_with_char_def)
qed

lemma args_loop_items:
  "\<forall>i \<in> set items. item_ok c i \<Longrightarrow> args_loop (concat (map render items) @ rest) c = args_loop rest (fold take_item items c)"
proof (induction items arbitrary: c)
  case (Cons i items)
  have "args_loop (concat (map render (i # items)) @ rest) c = args_loop (concat (map render items) @ rest) (take_item i c)"
    using args_loop_item [of c i] Cons(2) by simp
  also have "\<dots> = args_loop rest (fold take_item items (take_item i c))"
    using Cons(2) item_ok_defs [of "take_item i c" c] by (intro Cons(1)) simp
  finally show ?case by simp
qed simp

lemma fold_take_item [simp]:
  "m_vecOptDefs (fold take_item items c) = m_vecOptDefs c" "m_vecArgDefs (fold take_item items c) = m_vecArgDefs c"
  by (induction items arbitrary: c) auto

section \<open>Properties\<close>

definition with_help :: "command_line \<Rightarrow> command_line" where
  "with_help c = add_opt (CHR ''v'') ''version'' (Some []) ''Program version'' (add_opt (CHR ''h'') ''help'' (Some []) ''Show this usage'' c)"

fun item_option :: "item \<Rightarrow> (string \<times> string) list" where
  "item_option (Flag long opt) = [(strLongName opt, ''dummy'')]"
| "item_option (Valued long opt v) = [(strLongName opt, v)]"
| "item_option (Plain s) = []"

fun item_plain :: "item \<Rightarrow> string list" where
  "item_plain (Plain s) = [s]"
| "item_plain _ = []"

lemma map_of_rev_Cons: "m ++ map_of (rev ((k, v) # xs)) = m(k \<mapsto> v) ++ map_of (rev xs)"
  by (simp add: map_add_def fun_eq_iff split: option.split)

lemma fold_take_item_result:
  "m_vecArgs (fold take_item items c) = m_vecArgs c @ concat (map item_plain items)"
  "m_dictOptValues (fold take_item items c) = m_dictOptValues c ++ map_of (rev (concat (map item_option items)))"
proof (induction items arbitrary: c)
  case (Cons i items)
  case 1
  then show ?case using Cons by (cases i) (auto simp: store_opt_def)
  case 2
  then show ?case using Cons(2) [of "take_item i c"]
    by (cases i) (auto simp: store_opt_def map_of_rev_Cons simp del: map_of_append rev.simps fun_upd_apply)
qed auto

lemma with_help_simps [simp]:
  "m_vecArgs (with_help c) = m_vecArgs c" "m_dictOptValues (with_help c) = m_dictOptValues c"
  "m_vecArgDefs (with_help c) = m_vecArgDefs c"
  by (auto simp: with_help_def add_opt_def)

lemma read_args_items:
  assumes "\<forall>i \<in> set items. item_ok (with_help c) i" and "few_defs (with_help c)"
  shows "read_args (prog # concat (map render items)) c =
     (let c2 = fold take_item items (with_help c) in
      if is_option ''version'' c2 then Some (c2, Returns False, [(Cout, m_strCmdName c2 @ '' V'' @ m_strCmdVersion c2 @ [NEWLINE])])
      else if is_option ''help'' c2 then Some (c2, Returns False, [(Cout, usage_text c2)])
      else if length (m_vecArgs c2) < length (m_vecArgDefs c2) \<and> bMandatory (m_vecArgDefs c2 ! 0) then
        Some (c2, BadArgs ''Argument missing.'', [(Cerr, ''Argument missing.'' @ [NEWLINE]), (Cerr, usage_text c2)])
      else Some (c2, Returns True, []))"
proof -
  have f: "few_defs (fold take_item items (with_help c))" using assms(2) by (simp add: few_defs_def)
  have "args_loop (concat (map render items)) (with_help c) = Some (fold take_item items (with_help c), None)"
    using args_loop_items [OF assms(1), of "[]"] by simp
  then show ?thesis by (simp add: read_args_def with_help_def [symmetric] Let_def show_usage_text f)
qed

text \<open>
  Reading a command line that was written from declared options, in their long or short form, with a value where they
  take one, and from plain arguments: the options have the values given, the last one winning, flags have the value
  \<open>dummy\<close>, and the plain arguments are kept in order. \<open>read\<close> returns \<open>false\<close> for \<open>version\<close> and \<open>help\<close>, throws when
  there are fewer plain arguments than declared and the first declared one is mandatory, and returns \<open>true\<close> otherwise.
\<close>

theorem command_line_read:
  assumes "\<forall>i \<in> set items. item_ok (with_help c) i" and "few_defs (with_help c)"
  shows "\<exists>c2 out. m_dictOptValues c2 = m_dictOptValues c ++ map_of (rev (concat (map item_option items)))
     \<and> m_vecArgs c2 = m_vecArgs c @ concat (map item_plain items)
     \<and> read_args (prog # concat (map render items)) c =
        Some (c2, if is_option ''version'' c2 \<or> is_option ''help'' c2 then Returns False
          else if length (m_vecArgs c2) < length (m_vecArgDefs c) \<and> bMandatory (m_vecArgDefs c ! 0) then BadArgs ''Argument missing.''
          else Returns True, out)"
proof -
  define c2 where "c2 = fold take_item items (with_help c)"
  have r: "m_vecArgs c2 = m_vecArgs c @ concat (map item_plain items)"
      "m_dictOptValues c2 = m_dictOptValues c ++ map_of (rev (concat (map item_option items)))" "m_vecArgDefs c2 = m_vecArgDefs c"
    using fold_take_item_result [of items "with_help c"] by (simp_all add: c2_def)
  show ?thesis
    by (rule exI [of _ c2])
      (use r read_args_items [OF assms, of prog] in \<open>auto simp: c2_def [symmetric] Let_def simp del: map_of_append\<close>)
qed

definition sample_line :: command_line where
  "sample_line = (add_arg ''input'' True True (add_opt (CHR ''q'') ''quiet'' None ''say nothing'' (add_opt (CHR ''o'') ''out'' (Some ''file'') ''output'' CommandLine_ctor)))"

theorem command_line_read_witness:
  "\<exists>c2 out. m_vecArgs c2 = [''x''] \<and> option_value ''out'' c2 = ''f'' \<and> is_option ''quiet'' c2 \<and>
     read_args [''prog'', ''-o'', ''f'', ''x'', ''--quiet''] sample_line = Some (c2, Returns True, out)"
proof -
  define items where "items = [Valued False \<lparr>cShortName = CHR ''o'', strLongName = ''out'', opt_strDesc = ''output'', strValue = ''file''\<rparr> ''f'', Plain ''x'', Flag True \<lparr>cShortName = CHR ''q'', strLongName = ''quiet'', opt_strDesc = ''say nothing'', strValue = []\<rparr>]"
  have i: "\<forall>i \<in> set items. item_ok (with_help sample_line) i" unfolding items_def by code_simp
  have f: "few_defs (with_help sample_line)" by code_simp
  have e: "concat (map render items) = [''-o'', ''f'', ''x'', ''--quiet'']"
      "concat (map item_option items) = [(''out'', ''f''), (''quiet'', ''dummy'')]" "concat (map item_plain items) = [''x'']"
    unfolding items_def by code_simp+
  have d: "m_dictOptValues sample_line = Map.empty" "m_vecArgs sample_line = []" "length (m_vecArgDefs sample_line) = 1"
    by (simp_all add: sample_line_def add_opt_def add_arg_def CommandLine_ctor_def)
  show ?thesis using command_line_read [OF i f, of "''prog''"]
    unfolding e d by (auto simp: is_option_def option_value_def)
qed

text \<open>
  The error paths: behind such a beginning, an option that is not declared makes \<open>read\<close> throw with its name, whatever
  follows, and keeps what has been read; and an argument that is not an option, where none is declared, makes it
  return \<open>false\<close>. With more than 255 definitions neither returns.
\<close>

theorem command_line_errors:
  assumes "\<forall>i \<in> set items. item_ok (with_help c) i"
  shows "(find_long_opt name (with_help c) = None \<longrightarrow>
       map_option (\<lambda>(c', r, out). (c', r)) (read_args (prog # concat (map render items) @ (''--'' @ name) # rest) c) =
       (if few_defs (with_help c) then Some (fold take_item items (with_help c), BadArgs (''Unrecognized option '' @ [CHR 0x27] @ ''--'' @ name @ [CHR 0x27])) else None))
   \<and> (m_vecArgDefs c = [] \<and> \<not> starts_with_char s (CHR ''-'') \<longrightarrow>
       map_option (\<lambda>(c', r, out). (c', r)) (read_args (prog # concat (map render items) @ s # rest) c) =
       (if few_defs (with_help c) then Some (fold take_item items (with_help c), Returns False) else None))"
proof -
  define c2 where "c2 = fold take_item items (with_help c)"
  have f: "few_defs c2 = few_defs (with_help c)" by (simp add: c2_def few_defs_def)
  have o: "find_long_opt name c2 = find_long_opt name (with_help c)" by (simp add: c2_def find_long_opt_def)
  have loop: "args_loop (drop 1 (prog # concat (map render items) @ x # rest)) (with_help c) = args_loop (x # rest) c2" for x
    using args_loop_items [OF assms, of "x # rest"] by (simp add: c2_def)
  have s: "\<not> (\<exists>t. s = CHR ''-'' # CHR ''-'' # t)" if "\<not> starts_with_char s (CHR ''-'')"
    using that by (auto simp: starts_with_char_def)
  have d: "m_vecArgDefs c2 = m_vecArgDefs c" by (simp add: c2_def)
  show ?thesis
    unfolding read_args_def with_help_def [symmetric] Let_def loop c2_def [symmetric]
    using o s f by (auto simp: starts_with_dashes bad_option_def show_usage_text Let_def d)
qed

theorem command_line_errors_witness:
  "map_option (\<lambda>(c', r, out). r) (read_args [''prog'', ''x'', ''--nope'', ''y''] sample_line)
     = Some (BadArgs (''Unrecognized option '' @ [CHR 0x27] @ ''--nope'' @ [CHR 0x27]))"
proof -
  have i: "\<forall>i \<in> set [Plain ''x'']. item_ok (with_help sample_line) i" by code_simp
  have f: "few_defs (with_help sample_line)" by code_simp
  have n: "find_long_opt ''nope'' (with_help sample_line) = None" by code_simp
  show ?thesis using command_line_errors [OF i, of "''nope''" "''prog''" "[''y'']"] n f
    by (cases "read_args [''prog'', ''x'', ''--nope'', ''y''] sample_line") auto
qed

text \<open>
  \<open>show_usage\<close> prints the usage, and returns, if there are at most 255 options and 255 arguments; with more of either
  its \<open>uint8\<close> counter wraps around and it never returns.
\<close>

theorem show_usage_returns:
  "show_usage c =
     (if length (m_vecOptDefs c) \<le> 255 \<and> length (m_vecArgDefs c) \<le> 255 then Some (usage_text c) else None)"
  using show_usage_text [of c] by (simp add: few_defs_def)

text \<open>
  The test of the index in \<open>arg\<close> is always true: an index outside of the arguments, negative or not, is undefined
  behaviour and never gives the empty string.
\<close>

theorem arg_index:
  "arg i c = (if 0 \<le> i \<and> i < arg_count c then Some (m_vecArgs c ! nat i) else None)"
  by (auto simp: arg_def arg_count_def)

end
