(* ===== verification/URI.thy ===== *)
theory URI
  imports StringToken
begin

text \<open>
  The URI class of \<open>src/utils/URI.cpp\<close>: percent encoding, the map of the parts, parsing and composing. The regular
  expressions are compiled and matched by the regex library: a parameter, one function for each expression of the file,
  that says whether it matches a text, and for two of them what the groups are (\<open>Match::str\<close>).
\<close>

section \<open>Percent encoding\<close>

abbreviation PERCENT :: char where "PERCENT \<equiv> CHR ''%''"

definition URI_RESERVED :: string where
  "URI_RESERVED = '' !$&'' @ [CHR 0x27] @ ''()*+,;=:?#[]@%''"

definition hex_char :: "nat \<Rightarrow> char" where
  "hex_char n = ''0123456789ABCDEF'' ! n"

text \<open>\<open>std::hex\<close> and \<open>std::uppercase\<close>: the digits of an unsigned number, without zeros in front.\<close>

fun stream_hex :: "nat \<Rightarrow> string" where
  "stream_hex n = (if n < 16 then [hex_char n] else stream_hex (n div 16) @ [hex_char (n mod 16)])"

declare stream_hex.simps [simp del]

text \<open>\<open>static_cast<int>\<close> of a \<open>char\<close> keeps its sign, and a negative \<open>int\<close> is printed as the unsigned number of 32 bits.\<close>

definition pct_char :: "char \<Rightarrow> string" where
  "pct_char c = PERCENT # stream_hex (nat (schar c mod 2 ^ 32))"

fun pct_encode :: "string \<Rightarrow> string \<Rightarrow> string" where
  "pct_encode [] reserved = []"
| "pct_encode (c # cs) reserved = (if c \<notin> set reserved then [c] else pct_char c) @ pct_encode cs reserved"

text \<open>
  \<open>std::istringstream (s) >> std::hex >> n\<close>: white space is skipped; at the end of the text \<open>n\<close>, which is not initialised, is
  left as it is (\<open>None\<close>); a sign may follow; without a digit \<open>n\<close> becomes 0. (The prefix \<open>0x\<close> gives 0 in two characters.)
\<close>

definition is_space :: "char \<Rightarrow> bool" where
  "is_space c \<longleftrightarrow> c \<in> set [CHR '' '', CHR 0x09, CHR 0x0A, CHR 0x0B, CHR 0x0C, CHR 0x0D]"

definition hex_digits :: string where
  "hex_digits = ''0123456789abcdef''"

definition digit_value :: "char \<Rightarrow> nat option" where
  "digit_value c =
     (let n = of_char c :: nat in
      if 48 \<le> n \<and> n \<le> 57 then Some (n - 48)
      else if 65 \<le> n \<and> n \<le> 70 then Some (n - 55)
      else if 97 \<le> n \<and> n \<le> 102 then Some (n - 87)
      else None)"

fun read_digits :: "string \<Rightarrow> int \<Rightarrow> int" where
  "read_digits [] n = n"
| "read_digits (c # cs) n = (case digit_value c of None \<Rightarrow> n | Some d \<Rightarrow> read_digits cs (16 * n + int d))"

definition read_hex :: "string \<Rightarrow> int option" where
  "read_hex s =
     (case dropWhile is_space s of
        [] \<Rightarrow> None
      | c # cs \<Rightarrow> Some (if c = CHR ''-'' then - read_digits cs 0
                      else if c = CHR ''+'' then read_digits cs 0 else read_digits (c # cs) 0))"

datatype uri_error = BAD_URI_SYNTAX | DECODE_ERROR | UNINITIALISED

text \<open>The loop of \<open>pct_decode\<close>. \<open>size - 3\<close> wraps around for shorter texts, so that the test never holds for them.\<close>

function pct_decode_loop :: "string \<Rightarrow> nat \<Rightarrow> string \<Rightarrow> uri_error + string" where
  "pct_decode_loop s i decoded =
     (if i < length s then
        if s ! i \<noteq> PERCENT then pct_decode_loop s (i + 1) (decoded @ [s ! i])
        else if 3 \<le> length s \<and> length s - 3 < i then Inl DECODE_ERROR
        else case read_hex (take 2 (drop (i + 1) s)) of
               None \<Rightarrow> Inl UNINITIALISED
             | Some n \<Rightarrow> pct_decode_loop s (i + 3) (decoded @ [char_of (nat (n mod 256))])
      else Inr decoded)"
  by pat_completeness auto
termination by (relation "measure (\<lambda>(s, i, d). length s - i)") auto

declare pct_decode_loop.simps [simp del]

definition pct_decode :: "string \<Rightarrow> uri_error + string" where
  "pct_decode s = pct_decode_loop s 0 []"

section \<open>The parts\<close>

datatype part = SCHEME | AUTHORITY | USERINFO | HOST | PORT | PATH | QUERY | FRAGMENT

type_synonym uri = "part \<rightharpoonup> string"

record fields =
  f_scheme :: string
  f_userinfo :: string
  f_host :: string
  f_port :: string
  f_path :: string
  f_query :: string
  f_fragment :: string

definition no_fields :: fields where
  "no_fields = \<lparr>f_scheme = [], f_userinfo = [], f_host = [], f_port = [], f_path = [], f_query = [], f_fragment = []\<rparr>"

text \<open>The regular expressions.\<close>

record uri_regex =
  re_full :: "string \<Rightarrow> (nat \<Rightarrow> string) option"
  re_authority :: "string \<Rightarrow> (nat \<Rightarrow> string) option"
  re_scheme :: "string \<Rightarrow> bool"
  re_userinfo :: "string \<Rightarrow> bool"
  re_host :: "string \<Rightarrow> bool"
  re_port :: "string \<Rightarrow> bool"
  re_path :: "string \<Rightarrow> bool"
  re_query :: "string \<Rightarrow> bool"
  re_fragment :: "string \<Rightarrow> bool"
  re_ipv4form :: "string \<Rightarrow> bool"
  re_ipv4 :: "string \<Rightarrow> bool"

definition check_value :: "string \<Rightarrow> (string \<Rightarrow> bool) \<Rightarrow> bool \<Rightarrow> uri_error + bool" where
  "check_value value re throw_exception =
     (if \<not> re value then (if throw_exception then Inl BAD_URI_SYNTAX else Inr False) else Inr True)"

definition bad_ipv4 :: "uri_regex \<Rightarrow> string \<Rightarrow> bool" where
  "bad_ipv4 re host \<longleftrightarrow> re_ipv4form re host \<and> \<not> re_ipv4 re host"

definition check_host :: "uri_regex \<Rightarrow> string \<Rightarrow> bool \<Rightarrow> uri_error + bool" where
  "check_host re host throw_exception =
     (if \<not> re_host re host then (if throw_exception then Inl BAD_URI_SYNTAX else Inr False)
      else if bad_ipv4 re host then Inl BAD_URI_SYNTAX
      else Inr True)"

fun check :: "uri_regex \<Rightarrow> part \<Rightarrow> string \<Rightarrow> bool \<Rightarrow> uri_error + bool" where
  "check re SCHEME v throw = check_value v (re_scheme re) throw"
| "check re AUTHORITY v throw = check_value v (\<lambda>s. re_authority re s \<noteq> None) throw"
| "check re USERINFO v throw = check_value v (re_userinfo re) throw"
| "check re HOST v throw = check_host re v throw"
| "check re PORT v throw = check_value v (re_port re) throw"
| "check re PATH v throw = check_value v (re_path re) throw"
| "check re QUERY v throw = check_value v (re_query re) throw"
| "check re FRAGMENT v throw = check_value v (re_fragment re) throw"

text \<open>The outputs that the code leaves alone stay as they are.\<close>

definition split_authority :: "string \<Rightarrow> string \<times> string \<times> string \<Rightarrow> string \<times> string \<times> string" where
  "split_authority authority out =
     (if authority = [] then out
      else
        let (userinfo, host, port) = out;
            (value, userinfo) =
              (if find_from authority (CHR ''@'') 0 \<noteq> - 1 then snd (extract_token_plain authority (CHR ''@''))
               else (authority, userinfo));
            (value, port) =
              (if find_from value (CHR '':'') 0 \<noteq> - 1 then snd (extract_token_right_plain value (CHR '':''))
               else (value, port))
        in (userinfo, value, port))"

definition check_authority :: "uri_regex \<Rightarrow> string \<Rightarrow> fields \<Rightarrow> bool \<Rightarrow> uri_error + (bool \<times> fields)" where
  "check_authority re authority f throw_exception =
     (if authority = [] then Inr (True, f)
      else case re_authority re authority of
        None \<Rightarrow> if throw_exception then Inl BAD_URI_SYNTAX else Inr (False, f)
      | Some m \<Rightarrow> Inr (True, f\<lparr>f_userinfo := m 3, f_host := m 5, f_port := m 71\<rparr>))"

section \<open>Parsing and composing\<close>

text \<open>The constructor from fields; it does not ask \<open>check\<close> to throw.\<close>

fun check_all :: "uri_regex \<Rightarrow> (part \<times> string) list \<Rightarrow> uri_error + bool" where
  "check_all re [] = Inr True"
| "check_all re ((p, v) # pvs) =
     (case check re p v False of Inl e \<Rightarrow> Inl e | Inr False \<Rightarrow> Inr False | Inr True \<Rightarrow> check_all re pvs)"

definition fields_parts :: "fields \<Rightarrow> (part \<times> string) list" where
  "fields_parts f =
     [(SCHEME, f_scheme f), (USERINFO, f_userinfo f), (HOST, f_host f), (PORT, f_port f), (PATH, f_path f),
      (QUERY, f_query f), (FRAGMENT, f_fragment f)]"

definition URI_of_fields :: "uri_regex \<Rightarrow> fields \<Rightarrow> uri_error + uri" where
  "URI_of_fields re f =
     (case check_all re (fields_parts f) of
        Inl e \<Rightarrow> Inl e
      | Inr False \<Rightarrow> Inr Map.empty
      | Inr True \<Rightarrow> Inr (map_of (fields_parts f)))"

text \<open>The path is one of three groups; when all are empty \<open>m_part\<close> keeps the path it has.\<close>

definition parse_path :: "(nat \<Rightarrow> string) \<Rightarrow> uri \<Rightarrow> uri" where
  "parse_path m u =
     (if m 75 \<noteq> [] then u(PATH \<mapsto> m 75)
      else if m 78 \<noteq> [] then u(PATH \<mapsto> m 78)
      else if m 83 \<noteq> [] then u(PATH \<mapsto> m 83)
      else u)"

definition parse :: "uri_regex \<Rightarrow> string \<Rightarrow> uri \<Rightarrow> uri_error + uri" where
  "parse re s u =
     (case re_full re s of
        None \<Rightarrow> Inl BAD_URI_SYNTAX
      | Some m \<Rightarrow>
          if bad_ipv4 re (m 8) then Inl BAD_URI_SYNTAX
          else Inr ((parse_path m u)(SCHEME \<mapsto> m 1, AUTHORITY \<mapsto> m 4, USERINFO \<mapsto> m 6, HOST \<mapsto> m 8, PORT \<mapsto> m 74,
                                      QUERY \<mapsto> m 89, FRAGMENT \<mapsto> m 93)))"

definition URI_of_string :: "uri_regex \<Rightarrow> string \<Rightarrow> uri_error + uri" where
  "URI_of_string re s = parse re s Map.empty"

definition part_value :: "uri \<Rightarrow> part \<Rightarrow> string" where
  "part_value u p = (case u p of Some v \<Rightarrow> v | None \<Rightarrow> [])"

definition get_part :: "uri \<Rightarrow> part \<Rightarrow> uri_error + string" where
  "get_part u p =
     pct_decode
       (if p = AUTHORITY then
          (if part_value u USERINFO \<noteq> [] then part_value u USERINFO @ ''@'' else [])
          @ part_value u HOST
          @ (if part_value u PORT \<noteq> [] then CHR '':'' # part_value u PORT else [])
        else part_value u p)"

definition with_part :: "(string \<Rightarrow> string) \<Rightarrow> uri_error + string \<Rightarrow> uri_error + string \<Rightarrow> uri_error + string" where
  "with_part f p s =
     (case s of Inl e \<Rightarrow> Inl e
      | Inr s \<Rightarrow> (case p of Inl e \<Rightarrow> Inl e | Inr v \<Rightarrow> Inr (s @ (if v \<noteq> [] then f v else []))))"

definition get_uri :: "uri \<Rightarrow> uri_error + string" where
  "get_uri u =
     with_part (\<lambda>v. ''#'' @ v) (get_part u FRAGMENT)
       (with_part (\<lambda>v. ''?'' @ v) (get_part u QUERY)
         (with_part (\<lambda>v. v) (get_part u PATH)
           (with_part (\<lambda>v. ''//'' @ v) (get_part u AUTHORITY)
             (Inr (if part_value u SCHEME \<noteq> [] then part_value u SCHEME @ '':'' else [])))))"

definition is_empty :: "uri \<Rightarrow> uri_error + bool" where
  "is_empty u = (case get_uri u of Inl e \<Rightarrow> Inl e | Inr s \<Rightarrow> Inr (s = []))"

definition set_part :: "uri_regex \<Rightarrow> part \<Rightarrow> string \<Rightarrow> uri \<Rightarrow> uri_error + uri" where
  "set_part re p val u =
     (if p = AUTHORITY then
        (case check_authority re val no_fields True of
           Inl e \<Rightarrow> Inl e
         | Inr (ok, f) \<Rightarrow> Inr (u(USERINFO \<mapsto> f_userinfo f, HOST \<mapsto> f_host f, PORT \<mapsto> f_port f)))
      else if p = HOST then
        (case check_host re val True of Inl e \<Rightarrow> Inl e | Inr ok \<Rightarrow> Inr (u(HOST \<mapsto> val)))
      else
        (case check re p val True of Inl e \<Rightarrow> Inl e | Inr ok \<Rightarrow> Inr (u(p \<mapsto> val))))"

definition set_uri :: "uri_regex \<Rightarrow> string \<Rightarrow> uri \<Rightarrow> uri_error + uri" where
  "set_uri re s u = parse re s u"

section \<open>Percent encoding and back\<close>

lemma length_stream_hex: "0 < n \<Longrightarrow> n < 256 \<Longrightarrow> stream_hex n = (if n < 16 then [hex_char n] else [hex_char (n div 16), hex_char (n mod 16)])"
  by (subst stream_hex.simps, simp, subst stream_hex.simps) auto

lemma less_16_cases: "n < 16 \<longleftrightarrow> n \<in> {0, 1, 2, 3, 4, 5, 6, 7, 8, 9, 10, 11, 12, 13, 14, 15 :: nat}"
  unfolding insert_iff empty_iff by presburger

lemma digit_hex_char: "n < 16 \<Longrightarrow> digit_value (hex_char n) = Some n"
  unfolding less_16_cases by (elim insertE) (simp_all add: hex_char_def digit_value_def)

lemma hex_char_not_special: "n < 16 \<Longrightarrow> \<not> is_space (hex_char n) \<and> hex_char n \<noteq> CHR ''-'' \<and> hex_char n \<noteq> CHR ''+'' \<and> hex_char n \<noteq> PERCENT"
  unfolding less_16_cases by (elim insertE) (simp_all add: hex_char_def is_space_def)

lemma read_hex_digits:
  assumes "h < 16" and "l < 16"
  shows "read_hex [hex_char h, hex_char l] = Some (16 * int h + int l)"
  using hex_char_not_special [OF assms(1)] by (simp add: read_hex_def digit_hex_char assms)

text \<open>What the loop does at the front of the rest of the text.\<close>

lemma decode_end: "pct_decode_loop s (length s) d = Inr d"
  by (subst pct_decode_loop.simps) simp

lemma decode_plain:
  assumes "c \<noteq> PERCENT"
  shows "pct_decode_loop (pre @ c # post) (length pre) d = pct_decode_loop ((pre @ [c]) @ post) (length (pre @ [c])) (d @ [c])"
  using assms by (subst pct_decode_loop.simps) simp

lemma decode_escape:
  "pct_decode_loop (pre @ PERCENT # a # b # post) (length pre) d =
     (case read_hex [a, b] of
        None \<Rightarrow> Inl UNINITIALISED
      | Some n \<Rightarrow> pct_decode_loop ((pre @ [PERCENT, a, b]) @ post) (length (pre @ [PERCENT, a, b])) (d @ [char_of (nat (n mod 256))]))"
  by (subst pct_decode_loop.simps) (simp add: numeral_3_eq_3 split: option.split)

text \<open>The characters that \<open>pct_encode\<close> writes with two digits.\<close>

definition two_digits_char :: "char \<Rightarrow> bool" where
  "two_digits_char c \<longleftrightarrow> 16 \<le> (of_char c :: nat) \<and> (of_char c :: nat) < 128"

lemma pct_char_two:
  assumes "two_digits_char c"
  shows "\<exists>h l. h < 16 \<and> l < 16 \<and> pct_char c = [PERCENT, hex_char h, hex_char l] \<and> 16 * int h + int l = of_char c"
proof -
  let ?n = "of_char c :: nat"
  have n: "16 \<le> ?n" "?n < 128" using assms by (auto simp: two_digits_char_def)
  have i: "(of_char c :: int) = int ?n" by (simp only: of_nat_of_char)
  have "schar c = int ?n" unfolding schar_def i using n by (simp del: of_nat_of_char)
  then have "pct_char c = [PERCENT, hex_char (?n div 16), hex_char (?n mod 16)]"
    using n by (simp add: pct_char_def length_stream_hex)
  moreover have "?n div 16 < 16" using n by simp
  moreover have "16 * int (?n div 16) + int (?n mod 16) = of_char c"
    unfolding i by (metis mult_div_mod_eq of_nat_add of_nat_mult of_nat_numeral)
  ultimately show ?thesis by (intro exI [of _ "?n div 16"] exI [of _ "?n mod 16"]) simp
qed

lemma decode_encoded_char:
  assumes "two_digits_char c"
  shows "pct_decode_loop (pre @ pct_char c @ post) (length pre) d =
           pct_decode_loop ((pre @ pct_char c) @ post) (length (pre @ pct_char c)) (d @ [c])"
proof -
  obtain h l where p: "h < 16" "l < 16" "pct_char c = [PERCENT, hex_char h, hex_char l]" "16 * int h + int l = of_char c"
    using pct_char_two [OF assms] by blast
  have "char_of (nat ((of_char c :: int) mod 256)) = c"
  proof -
    let ?n = "of_char c :: nat"
    have "(of_char c :: int) = int ?n" by (simp only: of_nat_of_char)
    moreover have "nat (int ?n mod 256) = ?n" using assms by (simp add: two_digits_char_def nat_mod_distrib del: of_nat_of_char)
    ultimately show ?thesis by simp
  qed
  then show ?thesis using p decode_escape [of pre "hex_char h" "hex_char l" post d] by (simp add: read_hex_digits)
qed

lemma decode_encoded:
  assumes "PERCENT \<in> set reserved" and "list_all two_digits_char (filter (\<lambda>c. c \<in> set reserved) s)"
  shows "pct_decode_loop (pre @ pct_encode s reserved @ post) (length pre) d =
           pct_decode_loop ((pre @ pct_encode s reserved) @ post) (length (pre @ pct_encode s reserved)) (d @ s)"
  using assms(2)
proof (induction s arbitrary: pre d)
  case (Cons c s)
  show ?case
  proof (cases "c \<in> set reserved")
    case True
    then have "two_digits_char c" using Cons.prems by simp
    then show ?thesis
      using Cons.IH [of "pre @ pct_char c" "d @ [c]"] Cons.prems True
        decode_encoded_char [of c pre "pct_encode s reserved @ post" d] by simp
  next
    case False
    then have "c \<noteq> PERCENT" using assms(1) by auto
    then show ?thesis
      using Cons.IH [of "pre @ [c]" "d @ [c]"] Cons.prems False
        decode_plain [of c pre "pct_encode s reserved @ post" d] by simp
  qed
qed simp

lemma reserved_two_digits: "list_all two_digits_char (filter (\<lambda>c. c \<in> set URI_RESERVED) s)"
  by (induction s) (auto simp: URI_RESERVED_def two_digits_char_def)

lemma decode_no_percent: "PERCENT \<notin> set s \<Longrightarrow> pct_decode_loop (pre @ s) (length pre) d = Inr (d @ s)"
proof (induction s arbitrary: pre d)
  case Nil
  then show ?case using decode_end by simp
next
  case (Cons c s)
  then show ?case using decode_plain [of c pre s d] Cons.IH [of "pre @ [c]" "d @ [c]"] by auto
qed

lemma pct_decode_plain: "PERCENT \<notin> set s \<Longrightarrow> pct_decode s = Inr s"
  using decode_no_percent [of s "[]" "[]"] by (simp add: pct_decode_def)

lemma pct_char_chars:
  assumes "two_digits_char c" and "x \<in> set (pct_char c)"
  shows "x = PERCENT \<or> digit_value x \<noteq> None"
proof -
  obtain h l where "h < 16" "l < 16" "pct_char c = [PERCENT, hex_char h, hex_char l]"
    using pct_char_two [OF assms(1)] by blast
  then show ?thesis using assms(2) digit_hex_char by auto
qed

section \<open>Composing\<close>

text \<open>The recomposition of RFC 3986 (5.3), for parts that hold no escapes.\<close>

definition opt_text :: "string \<Rightarrow> string \<Rightarrow> string \<Rightarrow> string" where
  "opt_text before v behind = (if v = [] then [] else before @ v @ behind)"

definition authority_text :: "uri \<Rightarrow> string" where
  "authority_text u =
     opt_text [] (part_value u USERINFO) ''@'' @ part_value u HOST @ opt_text '':'' (part_value u PORT) []"

definition uri_text :: "uri \<Rightarrow> string" where
  "uri_text u =
     opt_text [] (part_value u SCHEME) '':'' @ opt_text ''//'' (authority_text u) [] @ part_value u PATH
     @ opt_text ''?'' (part_value u QUERY) [] @ opt_text ''#'' (part_value u FRAGMENT) []"

definition no_escapes :: "uri \<Rightarrow> bool" where
  "no_escapes u \<longleftrightarrow> list_all (\<lambda>p. PERCENT \<notin> set (part_value u p)) [USERINFO, HOST, PORT, PATH, QUERY, FRAGMENT]"

lemma get_authority: "get_part u AUTHORITY = pct_decode (authority_text u)"
  by (simp add: get_part_def authority_text_def opt_text_def)

lemma get_plain_part: "p \<noteq> AUTHORITY \<Longrightarrow> PERCENT \<notin> set (part_value u p) \<Longrightarrow> get_part u p = Inr (part_value u p)"
  by (simp add: get_part_def pct_decode_plain)

lemma get_uri_text:
  assumes "no_escapes u"
  shows "get_uri u = Inr (uri_text u)"
proof -
  have "PERCENT \<notin> set (authority_text u)" using assms by (auto simp: no_escapes_def authority_text_def opt_text_def)
  then have "get_part u AUTHORITY = Inr (authority_text u)" by (simp add: get_authority pct_decode_plain)
  moreover have "list_all (\<lambda>p. get_part u p = Inr (part_value u p)) [PATH, QUERY, FRAGMENT]"
    using assms by (simp add: no_escapes_def get_plain_part)
  ultimately show ?thesis by (simp add: get_uri_def with_part_def uri_text_def opt_text_def)
qed

text \<open>What the groups of the expression of a whole URI hold, when the text has no empty authority, query, fragment, user or port.\<close>

definition path_group :: "(nat \<Rightarrow> string) \<Rightarrow> string" where
  "path_group m = (if m 75 \<noteq> [] then m 75 else if m 78 \<noteq> [] then m 78 else m 83)"

definition groups_of :: "(nat \<Rightarrow> string) \<Rightarrow> string \<Rightarrow> bool" where
  "groups_of m s \<longleftrightarrow>
     s = m 1 @ '':'' @ opt_text ''//'' (m 4) [] @ path_group m @ opt_text ''?'' (m 89) [] @ opt_text ''#'' (m 93) [] \<and>
     m 1 \<noteq> [] \<and> m 4 = opt_text [] (m 6) ''@'' @ m 8 @ opt_text '':'' (m 74) []"

lemma part_value_parse:
  assumes "parse re s u = Inr u'" and "re_full re s = Some m"
  shows "part_value u' SCHEME = m 1 \<and> part_value u' USERINFO = m 6 \<and> part_value u' HOST = m 8 \<and> part_value u' PORT = m 74
       \<and> part_value u' QUERY = m 89 \<and> part_value u' FRAGMENT = m 93
       \<and> part_value u' PATH = (if path_group m = [] then part_value u PATH else path_group m)"
  using assms by (auto simp: parse_def part_value_def parse_path_def path_group_def split: if_splits)

lemma check_throws: "check re p v True = Inr ok \<Longrightarrow> ok"
  by (cases p) (auto simp: check_value_def check_host_def split: if_splits)

lemma decode_encode: "pct_decode (pct_encode s URI_RESERVED) = Inr s"
proof -
  have "PERCENT \<in> set URI_RESERVED" by (simp add: URI_RESERVED_def)
  then show ?thesis
    using decode_encoded [of URI_RESERVED s "[]" "[]" "[]"] reserved_two_digits decode_end [of "pct_encode s URI_RESERVED" s]
    by (simp add: pct_decode_def)
qed

lemma stream_hex_negative: "stream_hex 4294967273 = ''FFFFFFE9''"
  by (simp add: stream_hex.simps hex_char_def)

lemma pct_encode_negative: "pct_encode [CHR 0xE9] [CHR 0xE9] = ''%FFFFFFE9''"
  by (simp add: pct_char_def schar_def stream_hex_negative)

lemma digit_not_reserved: "digit_value c \<noteq> None \<Longrightarrow> c \<notin> set URI_RESERVED"
  by (auto simp: URI_RESERVED_def digit_value_def)

lemma encode_not_reserved: "list_all (\<lambda>c. c = PERCENT \<or> c \<notin> set URI_RESERVED) (pct_encode s URI_RESERVED)"
proof (induction s)
  case (Cons c s)
  have "x = PERCENT \<or> x \<notin> set URI_RESERVED" if "c \<in> set URI_RESERVED" "x \<in> set (pct_char c)" for x
    using pct_char_chars [of c x] reserved_two_digits [of "[c]"] digit_not_reserved [of x] that by auto
  then show ?case using Cons by (auto simp: list_all_iff)
qed simp

section \<open>Properties\<close>

text \<open>Percent encoding. Every text that is encoded with the reserved characters of the library decodes to itself, and holds
no reserved character but the percent sign of its escapes.\<close>

theorem pct_roundtrip:
  "pct_decode (pct_encode s URI_RESERVED) = Inr s
   \<and> set (pct_encode s URI_RESERVED) \<inter> set URI_RESERVED \<subseteq> {PERCENT}"
  using encode_not_reserved [of s] by (auto simp: decode_encode list_all_iff)

text \<open>What the encoding cannot carry. The escape of a character below 16 has one digit, and decoding takes the character
behind it for the other; that of a character from 128 on has eight digits, of which two are read. A bad escape is a zero, not
an error; an escape that is cut off at the end is an error, but in a text of less than three characters it is a character,
or a number that was never set.\<close>

theorem pct_limits:
  "pct_decode (pct_encode [CHR 0x0A, CHR ''x''] [CHR 0x0A]) = Inr [CHR 0x0A]
   \<and> pct_encode [CHR 0xE9] [CHR 0xE9] = ''%FFFFFFE9'' \<and> pct_decode ''%FFFFFFE9'' = Inr (CHR 0xFF # ''FFFFE9'')
   \<and> pct_decode ''%zz'' = Inr [NUL] \<and> pct_decode ''ab%'' = Inl DECODE_ERROR \<and> pct_decode ''a%4'' = Inl DECODE_ERROR
   \<and> pct_decode ''%4'' = Inr [CHR 0x04] \<and> pct_decode ''%'' = Inl UNINITIALISED"
proof -
  have "pct_decode (pct_encode [CHR 0x0A, CHR ''x''] [CHR 0x0A]) = Inr [CHR 0x0A]" by code_simp
  moreover have "pct_decode ''%FFFFFFE9'' = Inr (CHR 0xFF # ''FFFFE9'')" by code_simp
  moreover have "pct_decode ''%zz'' = Inr [NUL] \<and> pct_decode ''ab%'' = Inl DECODE_ERROR \<and> pct_decode ''a%4'' = Inl DECODE_ERROR
      \<and> pct_decode ''%4'' = Inr [CHR 0x04] \<and> pct_decode ''%'' = Inl UNINITIALISED"
    by code_simp
  ultimately show ?thesis using pct_encode_negative by blast
qed

text \<open>Setting a part of a URI to an encoded text that the expression of the part admits, and reading it, gives the text, and
leaves the other parts as they are.\<close>

theorem uri_part_roundtrip:
  assumes "set_part re p (pct_encode v URI_RESERVED) u = Inr u'" and "p \<noteq> AUTHORITY"
  shows "get_part u' p = Inr v \<and> (q = p \<or> u' q = u q)"
proof -
  have "u' = u(p \<mapsto> pct_encode v URI_RESERVED)" using assms by (auto simp: set_part_def split: if_splits sum.splits)
  then show ?thesis using assms(2) by (simp add: get_part_def part_value_def decode_encode)
qed

definition sample_regex :: uri_regex where
  "sample_regex = \<lparr>re_full = (\<lambda>s. if s = ''http://me@h/p?q'' then Some ((\<lambda>_. []) (1 := ''http'', 4 := ''me@h'', 6 := ''me'', 8 := ''h'', 75 := ''/p'', 89 := ''q''))
       else if s = ''http://h2'' then Some ((\<lambda>_. []) (1 := ''http'', 4 := ''h2'', 8 := ''h2'')) else None),
     re_authority = (\<lambda>s. None), re_scheme = (\<lambda>s. s = ''http''), re_userinfo = (\<lambda>s. True), re_host = (\<lambda>s. True), re_port = (\<lambda>s. True),
     re_path = (\<lambda>s. True), re_query = (\<lambda>s. True), re_fragment = (\<lambda>s. True), re_ipv4form = (\<lambda>s. s = ''1.2.3.999''), re_ipv4 = (\<lambda>s. False)\<rparr>"

lemma uri_part_roundtrip_witness:
  "get_part (Map.empty (PATH \<mapsto> ''/a%20b'')) PATH = Inr ''/a b''"
proof -
  have e: "pct_encode ''/a b'' URI_RESERVED = ''/a%20b''" by code_simp
  have "set_part sample_regex PATH (pct_encode ''/a b'' URI_RESERVED) Map.empty = Inr (Map.empty (PATH \<mapsto> ''/a%20b''))"
    unfolding e by (simp add: set_part_def check_value_def sample_regex_def)
  then show ?thesis using uri_part_roundtrip [of sample_regex PATH "''/a b''" Map.empty] by blast
qed

text \<open>Parsing and composing. A text that is taken apart by the expression of a whole URI, into groups that hold no escape
and none of which is there but empty, is composed again by \<open>get\<close>, if the object had no path before.\<close>

theorem uri_parse_get:
  assumes "re_full re s = Some m" and "groups_of m s" and "PERCENT \<notin> set s" and "\<not> bad_ipv4 re (m 8)" and "part_value u PATH = []"
  shows "\<exists>u'. parse re s u = Inr u' \<and> get_uri u' = Inr s"
proof -
  obtain u' where p: "parse re s u = Inr u'" using assms by (simp add: parse_def)
  have s: "s = m 1 @ '':'' @ opt_text ''//'' (m 4) [] @ path_group m @ opt_text ''?'' (m 89) [] @ opt_text ''#'' (m 93) []"
      "m 1 \<noteq> []" "m 4 = opt_text [] (m 6) ''@'' @ m 8 @ opt_text '':'' (m 74) []"
    using assms(2) unfolding groups_of_def by blast+
  note v = part_value_parse [OF p assms(1)]
  have a: "authority_text u' = m 4" using v s(3) by (simp add: authority_text_def)
  have "set (m 4) \<union> set (path_group m) \<union> set (m 89) \<union> set (m 93) \<subseteq> set s"
    unfolding s(1) opt_text_def by auto
  then have "PERCENT \<notin> set (m 4) \<union> set (path_group m) \<union> set (m 89) \<union> set (m 93)" using assms(3) by blast
  moreover have "set (m 6) \<union> set (m 8) \<union> set (m 74) \<subseteq> set (m 4)" unfolding s(3) opt_text_def by auto
  ultimately have "no_escapes u'" using v assms(5) by (auto simp: no_escapes_def)
  then have "get_uri u' = Inr (uri_text u')" by (rule get_uri_text)
  also have "uri_text u' = s" using v assms(5) s(2) a by (subst s(1)) (simp add: uri_text_def opt_text_def)
  finally show ?thesis using p by blast
qed

lemma uri_parse_get_witness:
  "\<exists>u'. parse sample_regex ''http://me@h/p?q'' Map.empty = Inr u' \<and> get_uri u' = Inr ''http://me@h/p?q''"
  by (rule uri_parse_get [where m = "(\<lambda>_. []) (1 := ''http'', 4 := ''me@h'', 6 := ''me'', 8 := ''h'', 75 := ''/p'', 89 := ''q'')"])
    (simp_all add: sample_regex_def groups_of_def opt_text_def path_group_def bad_ipv4_def part_value_def)

text \<open>What parsing leaves. A text that does not match leaves the object as it is; one without a path leaves the path of
the URI before; and \<open>get\<close> gives the same text for URIs that differ, as it takes the escapes out of the parts.\<close>

theorem uri_parse_leaves:
  assumes "re_full re s = Some m" and "\<not> bad_ipv4 re (m 8)" and "path_group m = []"
  shows "(\<exists>u'. parse re s u = Inr u' \<and> get_part u' PATH = get_part u PATH \<and> get_part u' HOST = pct_decode (m 8))
   \<and> get_uri [SCHEME \<mapsto> ''s'', PATH \<mapsto> ''/a%3Fb''] = Inr ''s:/a?b''
   \<and> get_uri [SCHEME \<mapsto> ''s'', PATH \<mapsto> ''/a'', QUERY \<mapsto> ''b''] = Inr ''s:/a?b''"
proof (intro conjI)
  obtain u' where p: "parse re s u = Inr u'" using assms by (simp add: parse_def)
  have "part_value u' PATH = part_value u PATH" "part_value u' HOST = m 8"
    using part_value_parse [OF p assms(1)] assms(3) by auto
  then show "\<exists>u'. parse re s u = Inr u' \<and> get_part u' PATH = get_part u PATH \<and> get_part u' HOST = pct_decode (m 8)"
    using p by (auto simp: get_part_def)
qed code_simp+

lemma uri_parse_leaves_witness:
  "\<exists>u'. parse sample_regex ''http://h2'' [PATH \<mapsto> ''/old''] = Inr u' \<and> get_part u' PATH = get_part [PATH \<mapsto> ''/old''] PATH"
  using uri_parse_leaves [of sample_regex "''http://h2''" "(\<lambda>_. []) (1 := ''http'', 4 := ''h2'', 8 := ''h2'')" "[PATH \<mapsto> ''/old'']"]
  by (auto simp: sample_regex_def bad_ipv4_def path_group_def)

text \<open>Building a URI from fields. The fields are checked in order without exceptions: a field that its expression refuses
gives the empty object; only a host with the form of an address that is none throws, and only if the fields before it are right.\<close>

theorem uri_from_fields:
  "URI_of_fields re f =
     (if re_scheme re (f_scheme f) \<and> re_userinfo re (f_userinfo f) \<and> re_host re (f_host f) then
        (if bad_ipv4 re (f_host f) then Inl BAD_URI_SYNTAX
         else if re_port re (f_port f) \<and> re_path re (f_path f) \<and> re_query re (f_query f) \<and> re_fragment re (f_fragment f)
         then Inr (map_of (fields_parts f)) else Inr Map.empty)
      else Inr Map.empty)"
  by (simp add: URI_of_fields_def fields_parts_def check_value_def check_host_def)

end
