(* ===== verification/MessageQueue.thy ===== *)
theory MessageQueue
  imports Prelude "HOL-Library.Multiset" "HOL-Library.Sublist"
begin

text \<open>
  The message queue of \<open>src/threading/MessageQ.cpp\<close> and \<open>include/yat/threading/MessageQ.i\<close>. Every
  operation runs under the queue's lock, except while it waits on a condition variable, so an
  operation that may wait is two functions: what runs until it returns or waits, and what runs
  when \<open>timed_wait\<close> returns. \<open>size_t\<close> and \<open>unsigned long\<close> are \<open>64 word\<close>. Messages are records whose
  \<open>msg_id\<close> stands for the pointer. The two condition variables are seen through the fields
  \<open>producer_broadcast\<close> and \<open>consumer_broadcast\<close>, set when the code broadcasts; \<open>released\<close> collects
  the messages whose \<open>release\<close> has been called and \<open>admitted\<close>, in order, those that \<open>insert_i\<close>
  has inserted. The timer behind \<open>periodic_tmo_expired_i\<close> is an
  argument. The second half is the system of producers and consumers around one queue, as a
  step relation.
\<close>

section \<open>Messages\<close>

record message =
  msg_id :: nat
  msg_type :: u64
  priority :: u64
  size_in_bytes :: u64

definition TASK_INIT :: u64 where "TASK_INIT = 0"
definition TASK_TIMEOUT :: u64 where "TASK_TIMEOUT = 1"
definition TASK_PERIODIC :: u64 where "TASK_PERIODIC = 2"
definition TASK_EXIT :: u64 where "TASK_EXIT = 4"

definition is_task_ctrl_message :: "message \<Rightarrow> bool" where
  "is_task_ctrl_message m \<longleftrightarrow> msg_type m = TASK_INIT \<or> msg_type m = TASK_EXIT"

section \<open>The queue\<close>

datatype mq_state = OPEN | CLOSED

datatype wm_unit = NUM_OF_MSGS | NUM_OF_BYTES

record statistics =
  has_been_saturated :: u64
  has_been_unsaturated :: u64
  max_pending_charge_reached :: u64
  max_pending_msgs_reached :: u64
  posted_with_waiting_msg_counter :: u64
  posted_without_waiting_msg_counter :: u64
  trashed_msg_counter :: u64
  trashed_on_post_tmo_counter :: u64
  stat_pending_charge :: u64
  stat_pending_mgs :: u64
  stat_wm_unit :: wm_unit

definition Statistics_ctor :: statistics where
  "Statistics_ctor =
     \<lparr>has_been_saturated = 0, has_been_unsaturated = 0, max_pending_charge_reached = 0,
      max_pending_msgs_reached = 0, posted_with_waiting_msg_counter = 0,
      posted_without_waiting_msg_counter = 0, trashed_msg_counter = 0,
      trashed_on_post_tmo_counter = 0, stat_pending_charge = 0, stat_pending_mgs = 0,
      stat_wm_unit = NUM_OF_MSGS\<rparr>"

record message_q =
  msg_q :: "message list"
  state :: mq_state
  enable_timeout_msg :: bool
  enable_periodic_msg :: bool
  lo_wm :: u64
  hi_wm :: u64
  saturated :: bool
  throw_on_post_msg_timeout :: bool
  last_returned_msg_periodic :: bool
  wm_unit :: wm_unit
  pending_charge :: u64
  stats :: statistics
  admitted :: "message list"
  released :: "message list"
  producer_broadcast :: bool
  consumer_broadcast :: bool

definition MessageQ_ctor :: "u64 \<Rightarrow> u64 \<Rightarrow> bool \<Rightarrow> message_q" where
  "MessageQ_ctor lo hi throw_on_post_tmo =
     \<lparr>msg_q = [], state = OPEN, enable_timeout_msg = False, enable_periodic_msg = False,
      lo_wm = lo, hi_wm = hi, saturated = False, throw_on_post_msg_timeout = throw_on_post_tmo,
      last_returned_msg_periodic = False, wm_unit = NUM_OF_MSGS, pending_charge = 0,
      stats = Statistics_ctor, admitted = [], released = [], producer_broadcast = False, consumer_broadcast = False\<rparr>"

definition close :: "message_q \<Rightarrow> message_q" where
  "close q = q\<lparr>state := CLOSED\<rparr>"

definition release :: "message \<Rightarrow> message_q \<Rightarrow> message_q" where
  "release m q = q\<lparr>released := m # released q\<rparr>"

text \<open>The charge of a message in the current unit.\<close>

definition charge :: "wm_unit \<Rightarrow> message \<Rightarrow> u64" where
  "charge u m = (if u = NUM_OF_MSGS then 1 else size_in_bytes m)"

definition inc_pending_charge_i :: "message \<Rightarrow> message_q \<Rightarrow> message_q" where
  "inc_pending_charge_i m q = q\<lparr>pending_charge := pending_charge q + charge (wm_unit q) m\<rparr>"

definition dec_pending_charge_i :: "message \<Rightarrow> message_q \<Rightarrow> message_q" where
  "dec_pending_charge_i m q = q\<lparr>pending_charge := pending_charge q - charge (wm_unit q) m\<rparr>"

definition unsaturate :: "message_q \<Rightarrow> message_q" where
  "unsaturate q = q\<lparr>stats := (stats q)\<lparr>has_been_unsaturated := has_been_unsaturated (stats q) + 1\<rparr>,
     saturated := False\<rparr>"

fun release_all :: "message list \<Rightarrow> message_q \<Rightarrow> message_q" where
  "release_all [] q = q"
| "release_all (m # ms) q = release_all ms (release m q)"

definition clear_i :: "bool \<Rightarrow> message_q \<Rightarrow> nat \<times> message_q" where
  "clear_i notify_waiters q =
     (let num_msg_in_q = length (msg_q q);
          q = (release_all (msg_q q) q)\<lparr>msg_q := [], pending_charge := 0\<rparr>;
          q = (if saturated q
               then (unsaturate q)\<lparr>producer_broadcast := producer_broadcast q \<or> notify_waiters\<rparr>
               else q)
      in (num_msg_in_q, q))"

definition clear :: "message_q \<Rightarrow> nat \<times> message_q" where
  "clear q = clear_i True q"

text \<open>
  \<open>upper_bound\<close> with \<open>insert_msg_criterion\<close>: the first position whose message has a lower priority.
\<close>

definition insert_msg_criterion :: "message \<Rightarrow> message \<Rightarrow> bool" where
  "insert_msg_criterion m1 m2 \<longleftrightarrow> priority m2 < priority m1"

definition insert_by_priority :: "message \<Rightarrow> message list \<Rightarrow> message list" where
  "insert_by_priority m ms =
     takeWhile (\<lambda>x. \<not> insert_msg_criterion m x) ms @ m # dropWhile (\<lambda>x. \<not> insert_msg_criterion m x) ms"

definition insert_i :: "message \<Rightarrow> message_q \<Rightarrow> message_q" where
  "insert_i m q =
     inc_pending_charge_i m
       (q\<lparr>msg_q := (if msg_q q = [] then [m] else insert_by_priority m (msg_q q)),
          admitted := admitted q @ [m]\<rparr>)"

section \<open>Water marks\<close>

definition kMIN_LO_WATER_MARK :: u64 where "kMIN_LO_WATER_MARK = 8"
definition kMIN_WATER_MARKS_DIFF :: u64 where "kMIN_WATER_MARKS_DIFF = 8"

definition set_lo_wm :: "u64 \<Rightarrow> message_q \<Rightarrow> message_q" where
  "set_lo_wm lo q =
     (let q = q\<lparr>lo_wm := lo\<rparr>;
          q = (if lo_wm q < kMIN_LO_WATER_MARK then q\<lparr>lo_wm := kMIN_LO_WATER_MARK\<rparr> else q)
      in if hi_wm q - lo_wm q < kMIN_WATER_MARKS_DIFF
         then q\<lparr>hi_wm := lo_wm q + kMIN_WATER_MARKS_DIFF\<rparr> else q)"

definition set_hi_wm :: "u64 \<Rightarrow> message_q \<Rightarrow> message_q" where
  "set_hi_wm hi q =
     (let q = q\<lparr>hi_wm := hi\<rparr>
      in if hi_wm q - lo_wm q < kMIN_WATER_MARKS_DIFF
         then q\<lparr>hi_wm := lo_wm q + kMIN_WATER_MARKS_DIFF\<rparr> else q)"

definition set_wm_unit :: "wm_unit \<Rightarrow> message_q \<Rightarrow> message_q" where
  "set_wm_unit u q = q\<lparr>wm_unit := u, stats := (stats q)\<lparr>stat_wm_unit := u\<rparr>\<rparr>"

definition get_statistics :: "message_q \<Rightarrow> statistics \<times> message_q" where
  "get_statistics q =
     (let q = q\<lparr>stats := (stats q)\<lparr>stat_pending_charge := pending_charge q,
            stat_pending_mgs := word_of_nat (length (msg_q q))\<rparr>\<rparr>
      in (stats q, q))"

text \<open>\<open>memset\<close> to zero: the first value of the enumeration is \<open>NUM_OF_MSGS\<close>.\<close>

definition reset_statistics :: "message_q \<Rightarrow> message_q" where
  "reset_statistics q = q\<lparr>stats := Statistics_ctor\<rparr>"

section \<open>Posting\<close>

datatype post_result = PostReturned int | PostThrew | PostBlocked

text \<open>The part of \<open>post\<close> behind \<open>wait_not_full_i\<close>, once there is room.\<close>

definition post_insert :: "message \<Rightarrow> message_q \<Rightarrow> post_result \<times> message_q" where
  "post_insert m q =
     (let q = insert_i m q;
          q = (if pending_charge q > max_pending_charge_reached (stats q)
               then q\<lparr>stats := (stats q)\<lparr>max_pending_charge_reached := pending_charge q\<rparr>\<rparr> else q);
          q = (if word_of_nat (length (msg_q q)) > max_pending_msgs_reached (stats q)
               then q\<lparr>stats := (stats q)\<lparr>max_pending_msgs_reached := word_of_nat (length (msg_q q))\<rparr>\<rparr> else q)
      in (PostReturned 0, q\<lparr>consumer_broadcast := True\<rparr>))"

text \<open>\<open>DEBUG_ASSERT (this->pending_charge_ <= this->hi_wm_)\<close> before the insertion.\<close>

definition post_assertion :: "message_q \<Rightarrow> bool" where
  "post_assertion q \<longleftrightarrow> pending_charge q \<le> hi_wm q"

definition trash :: "message \<Rightarrow> message_q \<Rightarrow> message_q" where
  "trash m q = release m (q\<lparr>stats := (stats q)\<lparr>trashed_msg_counter := trashed_msg_counter (stats q) + 1\<rparr>\<rparr>)"

definition count_without_waiting :: "message_q \<Rightarrow> message_q" where
  "count_without_waiting q = q\<lparr>stats := (stats q)\<lparr>posted_without_waiting_msg_counter :=
     posted_without_waiting_msg_counter (stats q) + 1\<rparr>\<rparr>"

definition mark_saturated :: "message_q \<Rightarrow> message_q" where
  "mark_saturated q =
     (if \<not> saturated q \<and> pending_charge q \<ge> hi_wm q
      then q\<lparr>stats := (stats q)\<lparr>has_been_saturated := has_been_saturated (stats q) + 1\<rparr>, saturated := True\<rparr>
      else q)"

definition post_enter :: "message option \<Rightarrow> message_q \<Rightarrow> post_result \<times> message_q" where
  "post_enter msg q =
     (case msg of
        None \<Rightarrow> (PostReturned 0, q)
      | Some m \<Rightarrow>
          if msg_type m = TASK_TIMEOUT \<or> msg_type m = TASK_PERIODIC then (PostReturned 0, trash m q)
          else if state q \<noteq> OPEN then (PostReturned 0, trash m q)
          else if is_task_ctrl_message m then
            (PostReturned 0, count_without_waiting ((insert_i m q)\<lparr>consumer_broadcast := True\<rparr>))
          else
            let q = mark_saturated q
            in if \<not> saturated q then post_insert m (count_without_waiting q)
               else (PostBlocked, q))"

text \<open>What follows a return of \<open>timed_wait\<close> in \<open>wait_not_full_i\<close>.\<close>

definition post_resume :: "bool \<Rightarrow> message \<Rightarrow> message_q \<Rightarrow> post_result \<times> message_q" where
  "post_resume signaled m q =
     (if \<not> signaled then
        let q = release m q;
            q = q\<lparr>stats := (stats q)\<lparr>trashed_on_post_tmo_counter := trashed_on_post_tmo_counter (stats q) + 1\<rparr>\<rparr>
        in (if throw_on_post_msg_timeout q then PostThrew else PostReturned (- 1), q)
      else
        let q = q\<lparr>stats := (stats q)\<lparr>posted_with_waiting_msg_counter :=
                  posted_with_waiting_msg_counter (stats q) + 1\<rparr>\<rparr>
        in if saturated q then (PostBlocked, q) else post_insert m q)"

section \<open>Extracting\<close>

datatype next_result = NextMsg message | NextGenerated u64 | NextNone | NextBlocked

definition pop_front :: "message \<Rightarrow> message_q \<Rightarrow> message_q" where
  "pop_front m q =
     (let q = q\<lparr>msg_q := tl (msg_q q)\<rparr>;
          q = dec_pending_charge_i m q
      in if saturated q \<and> pending_charge q \<le> lo_wm q
         then (unsaturate q)\<lparr>producer_broadcast := True\<rparr> else q)"

text \<open>
  \<open>next_message\<close> with a message at the front; \<open>expired\<close> is \<open>periodic_tmo_expired_i\<close>. The code
  clears \<open>last_returned_msg_periodic\<close> before the extraction in one branch and behind it in the other.
\<close>

definition next_front :: "bool \<Rightarrow> message_q \<Rightarrow> next_result \<times> message_q" where
  "next_front expired q =
     (let m = hd (msg_q q)
      in if is_task_ctrl_message m then
           (NextMsg m, (pop_front m q)\<lparr>last_returned_msg_periodic := False\<rparr>)
         else if enable_periodic_msg q \<and> expired \<and> \<not> last_returned_msg_periodic q then
           (NextGenerated TASK_PERIODIC, q\<lparr>last_returned_msg_periodic := True\<rparr>)
         else (NextMsg m, pop_front m (q\<lparr>last_returned_msg_periodic := False\<rparr>)))"

definition next_expired :: "bool \<Rightarrow> message_q \<Rightarrow> next_result \<times> message_q" where
  "next_expired expired q =
     (if enable_periodic_msg q \<and> expired then
        (NextGenerated TASK_PERIODIC, q\<lparr>last_returned_msg_periodic := True\<rparr>)
      else if enable_timeout_msg q then
        (NextGenerated TASK_TIMEOUT, q\<lparr>last_returned_msg_periodic := False\<rparr>)
      else (NextNone, q\<lparr>last_returned_msg_periodic := False\<rparr>))"

definition next_enter :: "bool \<Rightarrow> message_q \<Rightarrow> next_result \<times> message_q" where
  "next_enter expired q = (if msg_q q = [] then (NextBlocked, q) else next_front expired q)"

definition next_resume :: "bool \<Rightarrow> bool \<Rightarrow> message_q \<Rightarrow> next_result \<times> message_q" where
  "next_resume signaled expired q =
     (if \<not> signaled then next_expired expired q else next_enter expired q)"

text \<open>
  \<open>next_message_ex\<close>, the variant with precise periods. Its arithmetic on the timers only decides how long the wait
  lasts; \<open>expired\<close> is again \<open>periodic_tmo_expired_i\<close>. A period that has expired goes before the messages, and a wait
  that ends without one gives a periodic message whenever they are enabled.
\<close>

definition next_ex_front :: "message_q \<Rightarrow> next_result \<times> message_q" where
  "next_ex_front q =
     (let m = hd (msg_q q)
      in if is_task_ctrl_message m then (NextMsg m, (pop_front m q)\<lparr>last_returned_msg_periodic := False\<rparr>)
         else (NextMsg m, pop_front m (q\<lparr>last_returned_msg_periodic := False\<rparr>)))"

definition next_ex_enter :: "bool \<Rightarrow> message_q \<Rightarrow> next_result \<times> message_q" where
  "next_ex_enter expired q =
     (if enable_periodic_msg q \<and> expired \<and> \<not> last_returned_msg_periodic q then
        (NextGenerated TASK_PERIODIC, q\<lparr>last_returned_msg_periodic := True\<rparr>)
      else if msg_q q = [] then (NextBlocked, q) else next_ex_front q)"

definition next_ex_resume :: "bool \<Rightarrow> message_q \<Rightarrow> next_result \<times> message_q" where
  "next_ex_resume signaled q =
     (if \<not> signaled then next_expired True q
      else if msg_q q = [] then (NextBlocked, q) else next_ex_front q)"

text \<open>The loop of \<open>clear_pending_messages\<close>, which erases from the copy while it walks the queue.\<close>

fun clear_loop :: "u64 \<Rightarrow> message list \<Rightarrow> nat \<Rightarrow> message list \<Rightarrow> message_q \<Rightarrow> nat \<times> message list \<times> message_q" where
  "clear_loop t [] cnt kept q = (cnt, kept, q)"
| "clear_loop t (m # ms) cnt kept q =
     (if msg_type m = t then
        clear_loop t ms (cnt + 1) kept (release m (q\<lparr>pending_charge := pending_charge q - charge (wm_unit q) m\<rparr>))
      else clear_loop t ms cnt (kept @ [m]) q)"

definition clear_pending_messages :: "u64 \<Rightarrow> message_q \<Rightarrow> nat \<times> message_q" where
  "clear_pending_messages t q =
     (if msg_q q = [] then (0, q)
      else
        let (cnt, kept, q) = clear_loop t (msg_q q) 0 [] q;
            q = q\<lparr>msg_q := kept\<rparr>;
            q = (if saturated q \<and> pending_charge q \<le> lo_wm q
                 then (unsaturate q)\<lparr>producer_broadcast := True\<rparr> else q)
        in (cnt, q))"

section \<open>Stable priority queues\<close>

text \<open>
  What the rest of the queue relies on: the pending messages form one first-in first-out lane per
  priority, and the front belongs to the highest lane that is not empty.
\<close>

locale stable_pq =
  fixes put :: "'m \<Rightarrow> 'q \<Rightarrow> 'q"
    and front :: "'q \<Rightarrow> 'm option"
    and pop :: "'q \<Rightarrow> 'q"
    and lane :: "'q \<Rightarrow> 'p::linorder \<Rightarrow> 'm list"
    and prio :: "'m \<Rightarrow> 'p"
    and inv :: "'q \<Rightarrow> bool"
  assumes inv_put: "inv q \<Longrightarrow> inv (put m q)"
    and inv_pop: "inv q \<Longrightarrow> inv (pop q)"
    and lane_put: "inv q \<Longrightarrow> lane (put m q) p = (if p = prio m then lane q p @ [m] else lane q p)"
    and lane_pop: "inv q \<Longrightarrow> front q = Some m \<Longrightarrow>
           lane q p = (if p = prio m then m # lane (pop q) p else lane (pop q) p)"
    and front_max: "inv q \<Longrightarrow> front q = Some m \<Longrightarrow> prio m < p \<Longrightarrow> lane q p = []"
    and front_None: "inv q \<Longrightarrow> front q = None \<Longrightarrow> lane q p = []"
    and lane_prio: "m \<in> set (lane q p) \<Longrightarrow> prio m = p"
begin

text \<open>Runs of insertions and extractions, with the messages that come out.\<close>

fun run :: "'m option list \<Rightarrow> 'q \<Rightarrow> 'm list \<times> 'q" where
  "run [] q = ([], q)"
| "run (Some m # ops) q = run ops (put m q)"
| "run (None # ops) q =
     (case front q of
        None \<Rightarrow> run ops q
      | Some m \<Rightarrow> (let (out, q') = run ops (pop q) in (m # out, q')))"

fun puts :: "'m option list \<Rightarrow> 'm list" where
  "puts [] = []"
| "puts (Some m # ops) = m # puts ops"
| "puts (None # ops) = puts ops"

lemma run_inv: "inv q \<Longrightarrow> inv (snd (run ops q))"
  by (induction ops q rule: run.induct) (auto simp: inv_put inv_pop split: option.splits prod.splits)

lemma run_fifo:
  assumes "inv q"
  shows "filter (\<lambda>m. prio m = p) (fst (run ops q)) @ lane (snd (run ops q)) p
           = lane q p @ filter (\<lambda>m. prio m = p) (puts ops)"
  using assms
proof (induction ops q rule: run.induct)
  case (1 q)
  then show ?case by simp
next
  case (2 m ops q)
  then show ?case by (auto simp: inv_put lane_put)
next
  case (3 ops q)
  show ?case
  proof (cases "front q")
    case None
    then show ?thesis using 3 by simp
  next
    case (Some m)
    then show ?thesis using 3 lane_pop [of q m p] inv_pop [of q]
      by (auto split: prod.splits)
  qed
qed

lemma front_in_lane: "inv q \<Longrightarrow> front q = Some m \<Longrightarrow> hd (lane q (prio m)) = m \<and> lane q (prio m) \<noteq> []"
  using lane_pop [of q m "prio m"] by auto

end

text \<open>The list of pending messages, kept by decreasing priority.\<close>

definition by_priority :: "message list \<Rightarrow> bool" where
  "by_priority ms \<longleftrightarrow> sorted_wrt (\<lambda>a b. priority b \<le> priority a) ms"

definition lane :: "message list \<Rightarrow> u64 \<Rightarrow> message list" where
  "lane ms p = filter (\<lambda>m. priority m = p) ms"

definition front_of :: "'a list \<Rightarrow> 'a option" where
  "front_of ms = (case ms of [] \<Rightarrow> None | m # _ \<Rightarrow> Some m)"

lemma by_priority_simps [simp]:
  "by_priority []" "by_priority (m # ms) \<longleftrightarrow> (\<forall>x\<in>set ms. priority x \<le> priority m) \<and> by_priority ms"
  by (auto simp: by_priority_def)

lemma by_priority_tl: "by_priority ms \<Longrightarrow> by_priority (tl ms)"
  by (cases ms) auto

lemma by_priority_filter: "by_priority ms \<Longrightarrow> by_priority (filter P ms)"
  by (auto simp: by_priority_def sorted_wrt_filter)

lemma insert_by_priority_simps:
  "insert_by_priority m [] = [m]"
  "insert_by_priority m (x # xs) =
     (if priority x < priority m then m # x # xs else x # insert_by_priority m xs)"
  by (simp_all add: insert_by_priority_def insert_msg_criterion_def)

lemma mset_insert_by_priority [simp]:
  "mset (insert_by_priority m ms) = add_mset m (mset ms)"
  by (induction ms) (auto simp: insert_by_priority_simps)

lemma set_insert_by_priority [simp]: "set (insert_by_priority m ms) = insert m (set ms)"
  by (metis mset_insert_by_priority set_mset_add_mset_insert set_mset_mset)

lemma length_insert_by_priority [simp]: "length (insert_by_priority m ms) = Suc (length ms)"
  by (metis mset_insert_by_priority size_add_mset size_mset)

lemma insert_by_priority_not_Nil [simp]: "insert_by_priority m ms \<noteq> []"
  by (metis length_0_conv length_insert_by_priority nat.distinct(1))

lemma by_priority_insert: "by_priority ms \<Longrightarrow> by_priority (insert_by_priority m ms)"
  by (induction ms) (auto simp: insert_by_priority_simps)

lemma lane_insert:
  "by_priority ms \<Longrightarrow>
     lane (insert_by_priority m ms) p = (if p = priority m then lane ms p @ [m] else lane ms p)"
proof (induction ms)
  case Nil
  then show ?case by (simp add: insert_by_priority_simps lane_def)
next
  case (Cons x xs)
  show ?case
  proof (cases "priority x < priority m")
    case True
    then have "filter (\<lambda>y. priority y = priority m) (x # xs) = []"
      using Cons.prems by (auto simp: filter_empty_conv)
    then show ?thesis using True by (auto simp: insert_by_priority_simps lane_def)
  next
    case False
    then show ?thesis using Cons by (auto simp: insert_by_priority_simps lane_def)
  qed
qed

interpretation pq: stable_pq insert_by_priority front_of tl lane priority by_priority
proof
  fix q :: "message list" and m p
  show "by_priority q \<Longrightarrow> by_priority (insert_by_priority m q)" by (rule by_priority_insert)
  show "by_priority q \<Longrightarrow> by_priority (tl q)" by (rule by_priority_tl)
  show "by_priority q \<Longrightarrow>
      lane (insert_by_priority m q) p = (if p = priority m then lane q p @ [m] else lane q p)"
    by (rule lane_insert)
  show "front_of q = Some m \<Longrightarrow>
      lane q p = (if p = priority m then m # lane (tl q) p else lane (tl q) p)"
    by (cases q) (auto simp: front_of_def lane_def)
  show "by_priority q \<Longrightarrow> front_of q = Some m \<Longrightarrow> priority m < p \<Longrightarrow> lane q p = []"
    by (cases q) (auto simp: front_of_def lane_def filter_empty_conv)
  show "front_of q = None \<Longrightarrow> lane q p = []"
    by (cases q) (auto simp: front_of_def lane_def)
  show "m \<in> set (lane q p) \<Longrightarrow> priority m = p"
    by (auto simp: lane_def)
qed

section \<open>The invariant of the queue\<close>

definition total_charge :: "wm_unit \<Rightarrow> message list \<Rightarrow> u64" where
  "total_charge u ms = sum_list (map (charge u) ms)"

definition mq_inv :: "message_q \<Rightarrow> bool" where
  "mq_inv q \<longleftrightarrow> by_priority (msg_q q) \<and> pending_charge q = total_charge (wm_unit q) (msg_q q)
     \<and> (saturated q \<longrightarrow> msg_q q \<noteq> []) \<and> 0 < hi_wm q"

text \<open>The messages the queue answers for: pending, and released.\<close>

definition accounted :: "message_q \<Rightarrow> message multiset" where
  "accounted q = mset (msg_q q) + mset (released q)"

text \<open>What an operation owes to the threads that wait.\<close>

definition wakes :: "message_q \<Rightarrow> message_q \<Rightarrow> bool" where
  "wakes q q' \<longleftrightarrow> (saturated q \<longrightarrow> saturated q' \<or> producer_broadcast q')
     \<and> (msg_q q' \<noteq> [] \<longrightarrow> msg_q q \<noteq> [] \<or> consumer_broadcast q')"

text \<open>The settings no operation of a running queue changes.\<close>

definition same_setup :: "message_q \<Rightarrow> message_q \<Rightarrow> bool" where
  "same_setup q q' \<longleftrightarrow> lo_wm q' = lo_wm q \<and> hi_wm q' = hi_wm q \<and> wm_unit q' = wm_unit q
     \<and> enable_timeout_msg q' = enable_timeout_msg q \<and> enable_periodic_msg q' = enable_periodic_msg q
     \<and> throw_on_post_msg_timeout q' = throw_on_post_msg_timeout q"

lemma total_charge_simps [simp]:
  "total_charge u [] = 0" "total_charge u (m # ms) = charge u m + total_charge u ms"
  "total_charge u (ms @ ns) = total_charge u ms + total_charge u ns"
  by (simp_all add: total_charge_def)

lemma total_charge_mset: "mset ms = mset ns \<Longrightarrow> total_charge u ms = total_charge u ns"
  unfolding total_charge_def by (metis mset_map sum_mset_sum_list)

lemma total_charge_insert [simp]:
  "total_charge u (insert_by_priority m ms) = charge u m + total_charge u ms"
  using total_charge_mset [of "insert_by_priority m ms" "m # ms" u] by simp

lemma release_all_eq: "release_all ms q = q\<lparr>released := rev ms @ released q\<rparr>"
  by (induction ms arbitrary: q) (auto simp: release_def)

named_theorems mq_fields "the fields behind each helper of the queue"

lemma insert_i_fields [mq_fields]:
  "msg_q (insert_i m q) = insert_by_priority m (msg_q q)"
  "pending_charge (insert_i m q) = pending_charge q + charge (wm_unit q) m"
  "saturated (insert_i m q) = saturated q"
  "wm_unit (insert_i m q) = wm_unit q"
  "hi_wm (insert_i m q) = hi_wm q"
  "lo_wm (insert_i m q) = lo_wm q"
  "enable_timeout_msg (insert_i m q) = enable_timeout_msg q"
  "enable_periodic_msg (insert_i m q) = enable_periodic_msg q"
  "throw_on_post_msg_timeout (insert_i m q) = throw_on_post_msg_timeout q"
  "admitted (insert_i m q) = admitted q @ [m]"
  "released (insert_i m q) = released q"
  "producer_broadcast (insert_i m q) = producer_broadcast q"
  "consumer_broadcast (insert_i m q) = consumer_broadcast q"
  "state (insert_i m q) = state q"
  by (simp_all add: insert_i_def inc_pending_charge_i_def insert_by_priority_simps)

lemma post_insert_fields [mq_fields]:
  "msg_q (snd (post_insert m q)) = insert_by_priority m (msg_q q)"
  "pending_charge (snd (post_insert m q)) = pending_charge q + charge (wm_unit q) m"
  "saturated (snd (post_insert m q)) = saturated q"
  "wm_unit (snd (post_insert m q)) = wm_unit q"
  "hi_wm (snd (post_insert m q)) = hi_wm q"
  "lo_wm (snd (post_insert m q)) = lo_wm q"
  "enable_timeout_msg (snd (post_insert m q)) = enable_timeout_msg q"
  "enable_periodic_msg (snd (post_insert m q)) = enable_periodic_msg q"
  "throw_on_post_msg_timeout (snd (post_insert m q)) = throw_on_post_msg_timeout q"
  "admitted (snd (post_insert m q)) = admitted q @ [m]"
  "released (snd (post_insert m q)) = released q"
  "producer_broadcast (snd (post_insert m q)) = producer_broadcast q"
  "consumer_broadcast (snd (post_insert m q)) = True"
  "state (snd (post_insert m q)) = state q"
  by (simp_all add: post_insert_def Let_def insert_i_fields)

lemma release_fields [mq_fields]:
  "msg_q (release m q) = msg_q q"
  "pending_charge (release m q) = pending_charge q"
  "saturated (release m q) = saturated q"
  "wm_unit (release m q) = wm_unit q"
  "hi_wm (release m q) = hi_wm q"
  "lo_wm (release m q) = lo_wm q"
  "enable_timeout_msg (release m q) = enable_timeout_msg q"
  "enable_periodic_msg (release m q) = enable_periodic_msg q"
  "throw_on_post_msg_timeout (release m q) = throw_on_post_msg_timeout q"
  "admitted (release m q) = admitted q"
  "released (release m q) = m # released q"
  "producer_broadcast (release m q) = producer_broadcast q"
  "consumer_broadcast (release m q) = consumer_broadcast q"
  "state (release m q) = state q"
  by (simp_all add: release_def)

lemma trash_fields [mq_fields]:
  "msg_q (trash m q) = msg_q q"
  "pending_charge (trash m q) = pending_charge q"
  "saturated (trash m q) = saturated q"
  "wm_unit (trash m q) = wm_unit q"
  "hi_wm (trash m q) = hi_wm q"
  "lo_wm (trash m q) = lo_wm q"
  "enable_timeout_msg (trash m q) = enable_timeout_msg q"
  "enable_periodic_msg (trash m q) = enable_periodic_msg q"
  "throw_on_post_msg_timeout (trash m q) = throw_on_post_msg_timeout q"
  "admitted (trash m q) = admitted q"
  "released (trash m q) = m # released q"
  "producer_broadcast (trash m q) = producer_broadcast q"
  "consumer_broadcast (trash m q) = consumer_broadcast q"
  "state (trash m q) = state q"
  by (simp_all add: trash_def release_fields)

lemma count_fields [mq_fields]:
  "msg_q (count_without_waiting q) = msg_q q"
  "pending_charge (count_without_waiting q) = pending_charge q"
  "saturated (count_without_waiting q) = saturated q"
  "wm_unit (count_without_waiting q) = wm_unit q"
  "hi_wm (count_without_waiting q) = hi_wm q"
  "lo_wm (count_without_waiting q) = lo_wm q"
  "enable_timeout_msg (count_without_waiting q) = enable_timeout_msg q"
  "enable_periodic_msg (count_without_waiting q) = enable_periodic_msg q"
  "throw_on_post_msg_timeout (count_without_waiting q) = throw_on_post_msg_timeout q"
  "admitted (count_without_waiting q) = admitted q"
  "released (count_without_waiting q) = released q"
  "producer_broadcast (count_without_waiting q) = producer_broadcast q"
  "consumer_broadcast (count_without_waiting q) = consumer_broadcast q"
  "state (count_without_waiting q) = state q"
  by (simp_all add: count_without_waiting_def)

lemma mark_saturated_fields [mq_fields]:
  "msg_q (mark_saturated q) = msg_q q"
  "pending_charge (mark_saturated q) = pending_charge q"
  "saturated (mark_saturated q) = (saturated q \<or> hi_wm q \<le> pending_charge q)"
  "wm_unit (mark_saturated q) = wm_unit q"
  "hi_wm (mark_saturated q) = hi_wm q"
  "lo_wm (mark_saturated q) = lo_wm q"
  "enable_timeout_msg (mark_saturated q) = enable_timeout_msg q"
  "enable_periodic_msg (mark_saturated q) = enable_periodic_msg q"
  "throw_on_post_msg_timeout (mark_saturated q) = throw_on_post_msg_timeout q"
  "admitted (mark_saturated q) = admitted q"
  "released (mark_saturated q) = released q"
  "producer_broadcast (mark_saturated q) = producer_broadcast q"
  "consumer_broadcast (mark_saturated q) = consumer_broadcast q"
  "state (mark_saturated q) = state q"
  by (simp_all add: mark_saturated_def)

lemma unsaturate_fields [mq_fields]:
  "msg_q (unsaturate q) = msg_q q"
  "pending_charge (unsaturate q) = pending_charge q"
  "saturated (unsaturate q) = False"
  "wm_unit (unsaturate q) = wm_unit q"
  "hi_wm (unsaturate q) = hi_wm q"
  "lo_wm (unsaturate q) = lo_wm q"
  "enable_timeout_msg (unsaturate q) = enable_timeout_msg q"
  "enable_periodic_msg (unsaturate q) = enable_periodic_msg q"
  "throw_on_post_msg_timeout (unsaturate q) = throw_on_post_msg_timeout q"
  "admitted (unsaturate q) = admitted q"
  "released (unsaturate q) = released q"
  "producer_broadcast (unsaturate q) = producer_broadcast q"
  "consumer_broadcast (unsaturate q) = consumer_broadcast q"
  "state (unsaturate q) = state q"
  by (simp_all add: unsaturate_def)

lemma pop_front_fields [mq_fields]:
  "msg_q (pop_front m q) = tl (msg_q q)"
  "pending_charge (pop_front m q) = pending_charge q - charge (wm_unit q) m"
  "saturated (pop_front m q) = (saturated q \<and> lo_wm q < pending_charge q - charge (wm_unit q) m)"
  "wm_unit (pop_front m q) = wm_unit q"
  "hi_wm (pop_front m q) = hi_wm q"
  "lo_wm (pop_front m q) = lo_wm q"
  "enable_timeout_msg (pop_front m q) = enable_timeout_msg q"
  "enable_periodic_msg (pop_front m q) = enable_periodic_msg q"
  "throw_on_post_msg_timeout (pop_front m q) = throw_on_post_msg_timeout q"
  "admitted (pop_front m q) = admitted q"
  "released (pop_front m q) = released q"
  "producer_broadcast (pop_front m q) = (producer_broadcast q \<or> saturated q \<and> pending_charge q - charge (wm_unit q) m \<le> lo_wm q)"
  "consumer_broadcast (pop_front m q) = consumer_broadcast q"
  "state (pop_front m q) = state q"
  by (auto simp: pop_front_def dec_pending_charge_i_def unsaturate_def Let_def)

lemma fst_post_insert [simp]: "fst (post_insert m q) = PostReturned 0"
  by (simp add: post_insert_def Let_def)

lemma clear_fields [mq_fields]:
  "msg_q (snd (clear_i nw q)) = []"
  "pending_charge (snd (clear_i nw q)) = 0"
  "saturated (snd (clear_i nw q)) = False"
  "wm_unit (snd (clear_i nw q)) = wm_unit q"
  "hi_wm (snd (clear_i nw q)) = hi_wm q"
  "lo_wm (snd (clear_i nw q)) = lo_wm q"
  "enable_timeout_msg (snd (clear_i nw q)) = enable_timeout_msg q"
  "enable_periodic_msg (snd (clear_i nw q)) = enable_periodic_msg q"
  "throw_on_post_msg_timeout (snd (clear_i nw q)) = throw_on_post_msg_timeout q"
  "admitted (snd (clear_i nw q)) = admitted q"
  "released (snd (clear_i nw q)) = rev (msg_q q) @ released q"
  "producer_broadcast (snd (clear_i nw q)) = (producer_broadcast q \<or> saturated q \<and> nw)"
  "consumer_broadcast (snd (clear_i nw q)) = consumer_broadcast q"
  "state (snd (clear_i nw q)) = state q"
  by (auto simp: clear_i_def release_all_eq Let_def unsaturate_def)

lemma clear_loop_result:
  "clear_loop t ms cnt kept q =
     (cnt + length (filter (\<lambda>m. msg_type m = t) ms), kept @ filter (\<lambda>m. msg_type m \<noteq> t) ms,
      q\<lparr>pending_charge := pending_charge q - total_charge (wm_unit q) (filter (\<lambda>m. msg_type m = t) ms),
        released := rev (filter (\<lambda>m. msg_type m = t) ms) @ released q\<rparr>)"
  by (induction t ms cnt kept q rule: clear_loop.induct) (auto simp: release_def algebra_simps)

lemma clear_pending_fields [mq_fields]:
  "msg_q (snd (clear_pending_messages t q)) = filter (\<lambda>m. msg_type m \<noteq> t) (msg_q q)"
  "pending_charge (snd (clear_pending_messages t q)) = pending_charge q - total_charge (wm_unit q) (filter (\<lambda>m. msg_type m = t) (msg_q q))"
  "saturated (snd (clear_pending_messages t q)) = (saturated q \<and> (msg_q q = [] \<or> lo_wm q < pending_charge q - total_charge (wm_unit q) (filter (\<lambda>m. msg_type m = t) (msg_q q))))"
  "wm_unit (snd (clear_pending_messages t q)) = wm_unit q"
  "hi_wm (snd (clear_pending_messages t q)) = hi_wm q"
  "lo_wm (snd (clear_pending_messages t q)) = lo_wm q"
  "enable_timeout_msg (snd (clear_pending_messages t q)) = enable_timeout_msg q"
  "enable_periodic_msg (snd (clear_pending_messages t q)) = enable_periodic_msg q"
  "throw_on_post_msg_timeout (snd (clear_pending_messages t q)) = throw_on_post_msg_timeout q"
  "admitted (snd (clear_pending_messages t q)) = admitted q"
  "released (snd (clear_pending_messages t q)) = rev (filter (\<lambda>m. msg_type m = t) (msg_q q)) @ released q"
  "producer_broadcast (snd (clear_pending_messages t q)) = (producer_broadcast q \<or> saturated q \<and> msg_q q \<noteq> [] \<and> pending_charge q - total_charge (wm_unit q) (filter (\<lambda>m. msg_type m = t) (msg_q q)) \<le> lo_wm q)"
  "consumer_broadcast (snd (clear_pending_messages t q)) = consumer_broadcast q"
  "state (snd (clear_pending_messages t q)) = state q"
  by (auto simp: clear_pending_messages_def clear_loop_result Let_def unsaturate_def)

lemma close_fields [mq_fields]:
  "msg_q (close q) = msg_q q"
  "pending_charge (close q) = pending_charge q"
  "saturated (close q) = saturated q"
  "wm_unit (close q) = wm_unit q"
  "hi_wm (close q) = hi_wm q"
  "lo_wm (close q) = lo_wm q"
  "enable_timeout_msg (close q) = enable_timeout_msg q"
  "enable_periodic_msg (close q) = enable_periodic_msg q"
  "throw_on_post_msg_timeout (close q) = throw_on_post_msg_timeout q"
  "admitted (close q) = admitted q"
  "released (close q) = released q"
  "producer_broadcast (close q) = producer_broadcast q"
  "consumer_broadcast (close q) = consumer_broadcast q"
  "state (close q) = CLOSED"
  by (simp_all add: close_def)

lemma total_charge_filter:
  "total_charge u ms = total_charge u (filter P ms) + total_charge u (filter (\<lambda>x. \<not> P x) ms)"
  by (induction ms) (auto simp: algebra_simps)

lemmas post_ops = post_enter_def post_resume_def Let_def

lemmas next_ops = next_enter_def next_resume_def next_front_def next_expired_def Let_def

lemmas next_ex_ops = next_ex_enter_def next_ex_resume_def next_ex_front_def next_expired_def Let_def

text \<open>The operations, seen from outside: a message is refused, admitted, or its producer waits.\<close>

lemma post_enter_cases:
  obtains (none) "msg = None" "post_enter msg q = (PostReturned 0, q)"
    | (trashed) m where "msg = Some m" "post_enter msg q = (PostReturned 0, trash m q)"
    | (ctrl) m where "msg = Some m" "state q = OPEN"
        "post_enter msg q = (PostReturned 0, count_without_waiting ((insert_i m q)\<lparr>consumer_broadcast := True\<rparr>))"
    | (room) m where "msg = Some m" "state q = OPEN" "\<not> saturated (mark_saturated q)"
        "post_enter msg q = post_insert m (count_without_waiting (mark_saturated q))"
    | (full) m where "msg = Some m" "state q = OPEN" "saturated (mark_saturated q)"
        "post_enter msg q = (PostBlocked, mark_saturated q)"
proof (cases msg)
  case None
  then show ?thesis using none by (simp add: post_enter_def)
next
  case (Some m)
  consider "msg_type m = TASK_TIMEOUT \<or> msg_type m = TASK_PERIODIC \<or> state q \<noteq> OPEN"
    | "\<not> (msg_type m = TASK_TIMEOUT \<or> msg_type m = TASK_PERIODIC)" "state q = OPEN" "is_task_ctrl_message m"
    | "\<not> (msg_type m = TASK_TIMEOUT \<or> msg_type m = TASK_PERIODIC)" "state q = OPEN" "\<not> is_task_ctrl_message m"
    by blast
  then show ?thesis
  proof cases
    case 1
    then show ?thesis using trashed [OF Some] Some by (auto simp: post_enter_def)
  next
    case 2
    then show ?thesis using ctrl [OF Some] Some by (simp add: post_enter_def)
  next
    case 3
    then show ?thesis using room [OF Some] full [OF Some] Some
      by (cases "saturated (mark_saturated q)") (simp_all add: post_enter_def Let_def)
  qed
qed

lemma post_resume_cases:
  obtains (expired) st where "snd (post_resume s m q) = release m q\<lparr>stats := st\<rparr>"
      "fst (post_resume s m q) = (if throw_on_post_msg_timeout q then PostThrew else PostReturned (- 1))"
    | (again) st where "saturated q" "post_resume s m q = (PostBlocked, q\<lparr>stats := st\<rparr>)"
    | (room) st where "\<not> saturated q" "post_resume s m q = post_insert m (q\<lparr>stats := st\<rparr>)"
proof (cases s)
  case False
  show ?thesis
    by (rule expired, use False in \<open>simp add: post_resume_def Let_def release_def\<close>)
      (use False in \<open>simp add: post_resume_def Let_def release_def\<close>)
next
  case True
  then have r: "post_resume s m q = (let q = q\<lparr>stats := (stats q)\<lparr>posted_with_waiting_msg_counter :=
      posted_with_waiting_msg_counter (stats q) + 1\<rparr>\<rparr> in if saturated q then (PostBlocked, q) else post_insert m q)"
    by (simp add: post_resume_def)
  show ?thesis
  proof (cases "saturated q")
    case True
    show ?thesis by (rule again [OF True]) (simp add: r Let_def True)
  next
    case False
    show ?thesis by (rule room [OF False]) (simp add: r Let_def False)
  qed
qed

text \<open>Every operation keeps the invariant.\<close>

lemma post_enter_inv: "mq_inv q \<Longrightarrow> mq_inv (snd (post_enter msg q))"
  by (cases rule: post_enter_cases [of msg q])
    (auto simp: mq_inv_def mq_fields by_priority_insert)

lemma post_resume_inv: "mq_inv q \<Longrightarrow> mq_inv (snd (post_resume s m q))"
  by (cases rule: post_resume_cases [of s m q])
    (auto simp: mq_inv_def mq_fields by_priority_insert)

lemma pop_front_inv:
  assumes "mq_inv q" "msg_q q = m # ms" shows "mq_inv (pop_front m q)"
  using assms by (auto simp: mq_inv_def mq_fields)

lemma mq_inv_cong [simp]:
  "mq_inv (q\<lparr>last_returned_msg_periodic := b\<rparr>) = mq_inv q"
  by (simp add: mq_inv_def)

lemma next_enter_inv: "mq_inv q \<Longrightarrow> mq_inv (snd (next_enter e q))"
  by (cases "msg_q q") (simp_all add: next_enter_def next_front_def Let_def pop_front_inv)

lemma next_resume_inv: "mq_inv q \<Longrightarrow> mq_inv (snd (next_resume s e q))"
  by (simp add: next_resume_def next_expired_def next_enter_inv)

lemma next_ex_inv: "mq_inv q \<Longrightarrow> mq_inv (snd (next_ex_enter e q))" "mq_inv q \<Longrightarrow> mq_inv (snd (next_ex_resume s q))"
  by (cases "msg_q q"; simp add: next_ex_ops pop_front_inv)+

lemma clear_inv: "mq_inv q \<Longrightarrow> mq_inv (snd (clear q))"
  by (simp add: mq_inv_def clear_def mq_fields)

lemma clear_pending_inv: "mq_inv q \<Longrightarrow> mq_inv (snd (clear_pending_messages t q))"
  using total_charge_filter [of "wm_unit q" "msg_q q" "\<lambda>m. msg_type m = t"]
  by (auto simp: mq_inv_def mq_fields by_priority_filter)

text \<open>Every operation wakes whom it has to, and none changes the settings.\<close>

lemma wakes_post:
  "wakes q (snd (post_enter msg q))" "wakes q (snd (post_resume s m q))"
  by (cases rule: post_enter_cases [of msg q]; simp add: wakes_def mq_fields)
    (cases rule: post_resume_cases [of s m q]; simp add: wakes_def mq_fields)

lemma wakes_next_enter: "wakes q (snd (next_enter e q))"
  by (cases "msg_q q") (auto simp: wakes_def next_enter_def next_front_def Let_def mq_fields)

lemma wakes_next: "wakes q (snd (next_resume s e q))"
  using wakes_next_enter by (simp add: wakes_def next_resume_def next_expired_def)

lemma wakes_next_ex: "wakes q (snd (next_ex_enter e q))" "wakes q (snd (next_ex_resume s q))"
  by (cases "msg_q q"; auto simp: wakes_def next_ex_ops mq_fields)+

lemma wakes_clear:
  "wakes q (snd (clear q))" "wakes q (snd (clear_pending_messages t q))" "wakes q (close q)"
  by (auto simp: wakes_def clear_def mq_fields)

lemmas wakes_ops = wakes_post wakes_next_enter wakes_next wakes_next_ex wakes_clear

lemma setup_post:
  "same_setup q (snd (post_enter msg q))" "same_setup q (snd (post_resume s m q))"
  by (cases rule: post_enter_cases [of msg q]; simp add: same_setup_def mq_fields)
    (cases rule: post_resume_cases [of s m q]; simp add: same_setup_def mq_fields)

lemma setup_next:
  "same_setup q (snd (next_enter e q))" "same_setup q (snd (next_resume s e q))"
  "same_setup q (snd (next_ex_enter e q))" "same_setup q (snd (next_ex_resume s q))"
  by (simp_all add: same_setup_def next_ops next_ex_ops mq_fields)

lemma setup_clear:
  "same_setup q (snd (clear q))" "same_setup q (snd (clear_pending_messages t q))" "same_setup q (close q)"
  by (simp_all add: same_setup_def clear_def mq_fields)

lemmas setup_ops = setup_post setup_next setup_clear

text \<open>What an operation does to the pending messages, lane by lane.\<close>

definition messages_of :: "next_result \<Rightarrow> message list" where
  "messages_of r = (case r of NextMsg m \<Rightarrow> [m] | _ \<Rightarrow> [])"

definition extends :: "message_q \<Rightarrow> message_q \<Rightarrow> bool" where
  "extends q q' \<longleftrightarrow> (\<exists>x. admitted q' = admitted q @ x
     \<and> (\<forall>p. lane (msg_q q') p = lane (msg_q q) p @ lane x p))"

lemma lane_simps [simp]:
  "lane [] p = []" "lane (m # ms) p = (if priority m = p then m # lane ms p else lane ms p)"
  "lane (ms @ ns) p = lane ms p @ lane ns p"
  by (simp_all add: lane_def)

lemma lane_insert_by_priority:
  "mq_inv q \<Longrightarrow> lane (insert_by_priority m (msg_q q)) p = lane (msg_q q) p @ lane [m] p"
  using lane_insert [of "msg_q q" m p] by (auto simp: mq_inv_def)

lemma extends_refl: "admitted q' = admitted q \<Longrightarrow> msg_q q' = msg_q q \<Longrightarrow> extends q q'"
  unfolding extends_def by (rule exI [of _ "[]"]) simp

lemma extends_insert:
  assumes "mq_inv q" "admitted q' = admitted q @ [m]" and "msg_q q' = insert_by_priority m (msg_q q)"
  shows "extends q q'"
  using assms lane_insert_by_priority [OF assms(1)]
  unfolding extends_def by (intro exI [of _ "[m]"]) auto

lemma extendsI:
  assumes "mq_inv q"
    and "admitted q' = admitted q \<and> msg_q q' = msg_q q
       \<or> (\<exists>m. admitted q' = admitted q @ [m] \<and> msg_q q' = insert_by_priority m (msg_q q))"
  shows "extends q q'"
  using assms extends_refl [of q' q] extends_insert [of q q'] by blast

lemma post_enter_extends: "mq_inv q \<Longrightarrow> extends q (snd (post_enter msg q))"
  by (rule extendsI, assumption)
    (cases rule: post_enter_cases [of msg q]; simp add: mq_fields)

lemma post_resume_extends: "mq_inv q \<Longrightarrow> extends q (snd (post_resume s m q))"
  by (rule extendsI, assumption)
    (cases rule: post_resume_cases [of s m q]; simp add: mq_fields)

lemma post_enter_accounted:
  "accounted (snd (post_enter (Some m) q))
     = (if fst (post_enter (Some m) q) = PostBlocked then accounted q else add_mset m (accounted q))"
  by (cases rule: post_enter_cases [of "Some m" q]) (auto simp: accounted_def mq_fields)

lemma post_resume_accounted:
  "accounted (snd (post_resume s m q))
     = (if fst (post_resume s m q) = PostBlocked then accounted q else add_mset m (accounted q))"
  by (cases rule: post_resume_cases [of s m q]) (auto simp: accounted_def mq_fields)

lemma next_enter_effect:
  "admitted (snd (next_enter e q)) = admitted q
     \<and> released (snd (next_enter e q)) = released q
     \<and> msg_q q = messages_of (fst (next_enter e q)) @ msg_q (snd (next_enter e q))"
  by (cases "msg_q q") (auto simp: next_enter_def next_front_def Let_def mq_fields messages_of_def)

lemma next_resume_effect:
  "admitted (snd (next_resume s e q)) = admitted q
     \<and> released (snd (next_resume s e q)) = released q
     \<and> msg_q q = messages_of (fst (next_resume s e q)) @ msg_q (snd (next_resume s e q))"
  using next_enter_effect [of e q]
  by (cases s) (auto simp: next_resume_def next_expired_def messages_of_def)

lemma next_ex_effect:
  "admitted (snd (next_ex_enter e q)) = admitted q \<and> released (snd (next_ex_enter e q)) = released q
     \<and> msg_q q = messages_of (fst (next_ex_enter e q)) @ msg_q (snd (next_ex_enter e q))"
  "admitted (snd (next_ex_resume s q)) = admitted q \<and> released (snd (next_ex_resume s q)) = released q
     \<and> msg_q q = messages_of (fst (next_ex_resume s q)) @ msg_q (snd (next_ex_resume s q))"
  by (cases "msg_q q"; auto simp: next_ex_ops mq_fields messages_of_def)+

lemma clear_effect:
  "admitted (snd (clear q)) = admitted q \<and> accounted (snd (clear q)) = accounted q
     \<and> msg_q (snd (clear q)) = []"
  by (simp add: clear_def mq_fields accounted_def)

lemma clear_pending_effect:
  "admitted (snd (clear_pending_messages t q)) = admitted q
     \<and> accounted (snd (clear_pending_messages t q)) = accounted q"
  by (simp add: accounted_def mq_fields ac_simps)

section \<open>Producers and consumers\<close>

text \<open>
  The threads around one queue. A producer waits in \<open>post\<close> with its message and a consumer in
  \<open>next_message\<close>, each with a flag that says whether a broadcast has reached it. A wait may end at
  any time, by its time-out, by a broadcast or spuriously; \<open>offered\<close> collects the messages passed to
  \<open>post\<close> and \<open>delivered\<close>, in order, those that \<open>next_message\<close> has returned from the queue.
\<close>

record sys =
  queue :: message_q
  producers :: "(message \<times> bool) list"
  consumers :: "bool list"
  offered :: "message list"
  delivered :: "message list"

datatype event =
    Post message
  | PostReturns message bool
  | Next bool
  | NextReturns bool bool
  | NextEx bool
  | NextExReturns bool
  | Clear
  | ClearPending u64
  | Close

text \<open>The end of a critical section: broadcasts reach the threads that wait.\<close>

definition wake_up :: "sys \<Rightarrow> sys" where
  "wake_up s = s\<lparr>queue := (queue s)\<lparr>producer_broadcast := False, consumer_broadcast := False\<rparr>,
     producers := map (\<lambda>(m, n). (m, n \<or> producer_broadcast (queue s))) (producers s),
     consumers := map (\<lambda>n. n \<or> consumer_broadcast (queue s)) (consumers s)\<rparr>"

definition after_post :: "message \<Rightarrow> post_result \<times> message_q \<Rightarrow> sys \<Rightarrow> sys" where
  "after_post m r s =
     (let s = wake_up (s\<lparr>queue := snd r\<rparr>)
      in if fst r = PostBlocked then s\<lparr>producers := producers s @ [(m, False)]\<rparr> else s)"

definition after_next :: "next_result \<times> message_q \<Rightarrow> sys \<Rightarrow> sys" where
  "after_next r s =
     (let s = wake_up (s\<lparr>queue := snd r\<rparr>)
      in if fst r = NextBlocked then s\<lparr>consumers := consumers s @ [False]\<rparr>
         else s\<lparr>delivered := delivered s @ messages_of (fst r)\<rparr>)"

inductive step :: "sys \<Rightarrow> event \<Rightarrow> sys \<Rightarrow> bool" where
  step_post:
    "step s (Post m) (after_post m (post_enter (Some m) (queue s)) (s\<lparr>offered := m # offered s\<rparr>))"
| step_post_returns:
    "producers s = ps @ (m, n) # ps' \<Longrightarrow>
       step s (PostReturns m sg) (after_post m (post_resume sg m (queue s)) (s\<lparr>producers := ps @ ps'\<rparr>))"
| step_next: "step s (Next e) (after_next (next_enter e (queue s)) s)"
| step_next_returns:
    "consumers s = cs @ n # cs' \<Longrightarrow>
       step s (NextReturns sg e) (after_next (next_resume sg e (queue s)) (s\<lparr>consumers := cs @ cs'\<rparr>))"
| step_next_ex: "step s (NextEx e) (after_next (next_ex_enter e (queue s)) s)"
| step_next_ex_returns:
    "consumers s = cs @ n # cs' \<Longrightarrow>
       step s (NextExReturns sg) (after_next (next_ex_resume sg (queue s)) (s\<lparr>consumers := cs @ cs'\<rparr>))"
| step_clear: "step s Clear (wake_up (s\<lparr>queue := snd (clear (queue s))\<rparr>))"
| step_clear_pending:
    "step s (ClearPending t) (wake_up (s\<lparr>queue := snd (clear_pending_messages t (queue s))\<rparr>))"
| step_close: "step s Close (wake_up (s\<lparr>queue := close (queue s)\<rparr>))"

inductive_cases step_closeE: "step s Close s'"
inductive_simps step_post_iff: "step s (Post m) s'"
inductive_simps step_next_iff: "step s (Next e) s'"

definition start :: "message_q \<Rightarrow> sys" where
  "start q = \<lparr>queue = q, producers = [], consumers = [], offered = [], delivered = []\<rparr>"

inductive runs :: "sys \<Rightarrow> event list \<Rightarrow> sys \<Rightarrow> bool" where
  runs_Nil: "runs s [] s"
| runs_snoc: "runs s es s' \<Longrightarrow> step s' e s'' \<Longrightarrow> runs s (es @ [e]) s''"

text \<open>A queue as the constructor and the setters leave it, before the first message.\<close>

definition fresh :: "message_q \<Rightarrow> bool" where
  "fresh q \<longleftrightarrow> msg_q q = [] \<and> pending_charge q = 0 \<and> \<not> saturated q \<and> 0 < hi_wm q
     \<and> admitted q = [] \<and> released q = [] \<and> \<not> producer_broadcast q \<and> \<not> consumer_broadcast q"

definition sys_inv :: "sys \<Rightarrow> bool" where
  "sys_inv s \<longleftrightarrow> mq_inv (queue s)
     \<and> \<not> producer_broadcast (queue s) \<and> \<not> consumer_broadcast (queue s)
     \<and> (\<forall>m. (m, False) \<in> set (producers s) \<longrightarrow> saturated (queue s))
     \<and> (False \<in> set (consumers s) \<longrightarrow> msg_q (queue s) = [])"

definition fifo_inv :: "sys \<Rightarrow> bool" where
  "fifo_inv s \<longleftrightarrow> (\<forall>p. subseq (lane (delivered s) p @ lane (msg_q (queue s)) p) (lane (admitted (queue s)) p))"

definition kept_inv :: "sys \<Rightarrow> bool" where
  "kept_inv s \<longleftrightarrow> mset (offered s) = accounted (queue s) + mset (delivered s) + mset (map fst (producers s))"

lemma queue_wake_up [simp]:
  "queue (wake_up s) = (queue s)\<lparr>producer_broadcast := False, consumer_broadcast := False\<rparr>"
  "offered (wake_up s) = offered s" "delivered (wake_up s) = delivered s"
  "map fst (producers (wake_up s)) = map fst (producers s)"
  by (auto simp: wake_up_def)

lemma clear_flags [simp]:
  "mq_inv (q\<lparr>producer_broadcast := a, consumer_broadcast := b\<rparr>) = mq_inv q"
  "accounted (q\<lparr>producer_broadcast := a, consumer_broadcast := b\<rparr>) = accounted q"
  by (simp_all add: mq_inv_def accounted_def)

lemma wake_up_waiting [simp]:
  "(m, False) \<in> set (producers (wake_up s)) \<longleftrightarrow> (m, False) \<in> set (producers s) \<and> \<not> producer_broadcast (queue s)"
  "False \<in> set (consumers (wake_up s)) \<longleftrightarrow> False \<in> set (consumers s) \<and> \<not> consumer_broadcast (queue s)"
  by (force simp: wake_up_def image_iff)+

lemma wake_up_inv:
  assumes inv: "mq_inv q'" and w: "wakes (queue s) q'"
    and p: "\<And>m. (m, False) \<in> set (producers s) \<Longrightarrow> saturated (queue s)"
    and c: "False \<in> set (consumers s) \<Longrightarrow> msg_q (queue s) = []"
  shows "sys_inv (wake_up (s\<lparr>queue := q'\<rparr>))"
  using inv w p c by (auto simp: sys_inv_def wakes_def)

lemma post_enter_blocked: "fst (post_enter msg q) = PostBlocked \<Longrightarrow> saturated (snd (post_enter msg q))"
  by (cases rule: post_enter_cases [of msg q]) auto

lemma post_resume_blocked: "fst (post_resume s m q) = PostBlocked \<Longrightarrow> saturated (snd (post_resume s m q))"
  by (cases rule: post_resume_cases [of s m q]) (auto split: if_splits)

lemma next_enter_blocked: "fst (next_enter e q) = NextBlocked \<Longrightarrow> msg_q (snd (next_enter e q)) = []"
  by (auto simp: next_enter_def next_front_def Let_def split: if_splits)

lemma next_resume_blocked: "fst (next_resume s e q) = NextBlocked \<Longrightarrow> msg_q (snd (next_resume s e q)) = []"
  by (auto simp: next_resume_def next_expired_def next_enter_blocked split: if_splits)

lemma next_ex_blocked:
  "fst (next_ex_enter e q) = NextBlocked \<Longrightarrow> msg_q (snd (next_ex_enter e q)) = []"
  "fst (next_ex_resume s q) = NextBlocked \<Longrightarrow> msg_q (snd (next_ex_resume s q)) = []"
  by (auto simp: next_ex_ops split: if_splits)

lemma after_post_inv:
  assumes "mq_inv (snd r)" "wakes (queue s) (snd r)"
    and "\<And>m. (m, False) \<in> set (producers s) \<Longrightarrow> saturated (queue s)"
    and "False \<in> set (consumers s) \<Longrightarrow> msg_q (queue s) = []"
    and "fst r = PostBlocked \<Longrightarrow> saturated (snd r)"
  shows "sys_inv (after_post m r s)"
  using wake_up_inv [of "snd r" s] assms
  by (auto simp: after_post_def Let_def sys_inv_def)

lemma after_next_inv:
  assumes "mq_inv (snd r)" "wakes (queue s) (snd r)"
    and "\<And>m. (m, False) \<in> set (producers s) \<Longrightarrow> saturated (queue s)"
    and "False \<in> set (consumers s) \<Longrightarrow> msg_q (queue s) = []"
    and "fst r = NextBlocked \<Longrightarrow> msg_q (snd r) = []"
  shows "sys_inv (after_next r s)"
  using wake_up_inv [of "snd r" s] assms
  by (auto simp: after_next_def Let_def sys_inv_def)

lemma step_sys_inv: "step s e s' \<Longrightarrow> sys_inv s \<Longrightarrow> sys_inv s'"
proof (induction rule: step.induct)
  case (step_post s m)
  then show ?case
    using post_enter_blocked by (intro after_post_inv) (auto simp: sys_inv_def post_enter_inv wakes_ops)
next
  case (step_post_returns s ps m n ps' sg)
  then show ?case
    using post_resume_blocked by (intro after_post_inv) (auto simp: sys_inv_def post_resume_inv wakes_ops)
next
  case (step_next s e)
  then show ?case
    using next_enter_blocked by (intro after_next_inv) (auto simp: sys_inv_def next_enter_inv wakes_ops)
next
  case (step_next_returns s cs n cs' sg e)
  then show ?case
    using next_resume_blocked by (intro after_next_inv) (auto simp: sys_inv_def next_resume_inv wakes_ops)
next
  case (step_next_ex s e)
  then show ?case
    using next_ex_blocked(1) by (intro after_next_inv) (auto simp: sys_inv_def next_ex_inv wakes_ops)
next
  case (step_next_ex_returns s cs n cs' sg)
  then show ?case
    using next_ex_blocked(2) by (intro after_next_inv) (auto simp: sys_inv_def next_ex_inv wakes_ops)
next
  case (step_clear s)
  then show ?case by (intro wake_up_inv) (auto simp: sys_inv_def clear_inv wakes_ops)
next
  case (step_clear_pending s t)
  then show ?case by (intro wake_up_inv) (auto simp: sys_inv_def clear_pending_inv wakes_ops)
next
  case (step_close s)
  have "mq_inv (close (queue s)) = mq_inv (queue s)" by (simp add: close_def mq_inv_def)
  with step_close show ?case by (intro wake_up_inv) (auto simp: sys_inv_def wakes_ops)
qed

lemma after_post_kept:
  assumes "accounted (snd r) = (if fst r = PostBlocked then accounted (queue s) else add_mset m (accounted (queue s)))"
    and "mset (offered s) = add_mset m (accounted (queue s)) + mset (delivered s) + mset (map fst (producers s))"
  shows "kept_inv (after_post m r s)"
  using assms by (cases "fst r = PostBlocked") (simp_all add: after_post_def kept_inv_def Let_def)

lemma after_next_kept:
  assumes "accounted (queue s) = mset (messages_of (fst r)) + accounted (snd r)" "kept_inv s"
  shows "kept_inv (after_next r s)"
  using assms by (cases "fst r = NextBlocked") (simp_all add: after_next_def kept_inv_def Let_def messages_of_def)

lemma accounted_next:
  "released q' = released q \<Longrightarrow> msg_q q = ms @ msg_q q' \<Longrightarrow> accounted q = mset ms + accounted q'"
  by (simp add: accounted_def)

lemma step_kept: "step s e s' \<Longrightarrow> kept_inv s \<Longrightarrow> kept_inv s'"
proof (induction rule: step.induct)
  case (step_post s m)
  then show ?case by (intro after_post_kept) (simp_all add: post_enter_accounted kept_inv_def)
next
  case (step_post_returns s ps m n ps' sg)
  then show ?case by (intro after_post_kept) (simp_all add: post_resume_accounted kept_inv_def)
next
  case (step_next s e)
  have "accounted (queue s) = mset (messages_of (fst (next_enter e (queue s)))) + accounted (snd (next_enter e (queue s)))"
    using next_enter_effect [of e "queue s"] by (intro accounted_next) simp_all
  with step_next show ?case by (intro after_next_kept) simp_all
next
  case (step_next_returns s cs n cs' sg e)
  have "accounted (queue s) = mset (messages_of (fst (next_resume sg e (queue s)))) + accounted (snd (next_resume sg e (queue s)))"
    using next_resume_effect [of sg e "queue s"] by (intro accounted_next) simp_all
  with step_next_returns show ?case by (intro after_next_kept) (simp_all add: kept_inv_def)
next
  case (step_next_ex s e)
  have "accounted (queue s) = mset (messages_of (fst (next_ex_enter e (queue s)))) + accounted (snd (next_ex_enter e (queue s)))"
    using next_ex_effect(1) [where e = e and q = "queue s"] by (intro accounted_next) simp_all
  with step_next_ex show ?case by (intro after_next_kept) simp_all
next
  case (step_next_ex_returns s cs n cs' sg)
  have "accounted (queue s) = mset (messages_of (fst (next_ex_resume sg (queue s)))) + accounted (snd (next_ex_resume sg (queue s)))"
    using next_ex_effect(2) [where s = sg and q = "queue s"] by (intro accounted_next) simp_all
  with step_next_ex_returns show ?case by (intro after_next_kept) (simp_all add: kept_inv_def)
next
  case (step_clear s)
  then show ?case by (simp add: kept_inv_def clear_effect)
next
  case (step_clear_pending s t)
  then show ?case by (simp add: kept_inv_def clear_pending_effect)
next
  case (step_close s)
  then show ?case by (simp add: kept_inv_def accounted_def mq_fields)
qed

text \<open>Lanes: posting extends both sides of \<open>fifo_inv\<close> by the same messages.\<close>

lemma fifo_post:
  assumes "fifo_inv s" "extends (queue s) (snd r)"
  shows "fifo_inv (after_post m r (s\<lparr>offered := os, producers := ps\<rparr>))"
proof -
  obtain x where x: "admitted (snd r) = admitted (queue s) @ x"
      "\<And>p. lane (msg_q (snd r)) p = lane (msg_q (queue s)) p @ lane x p"
    using assms(2) by (auto simp: extends_def)
  have "subseq ((lane (delivered s) p @ lane (msg_q (queue s)) p) @ lane x p)
          (lane (admitted (queue s)) p @ lane x p)" for p
    using assms(1) by (intro list_emb_append_mono) (auto simp: fifo_inv_def)
  then show ?thesis by (simp add: fifo_inv_def after_post_def Let_def x)
qed

lemma fifo_next:
  assumes "fifo_inv s" "admitted (snd r) = admitted (queue s)"
    and "msg_q (queue s) = messages_of (fst r) @ msg_q (snd r)"
  shows "fifo_inv (after_next r (s\<lparr>consumers := cs\<rparr>))"
  using assms by (auto simp: fifo_inv_def after_next_def Let_def messages_of_def)

lemma fifo_drop:
  assumes "fifo_inv s" "admitted q' = admitted (queue s)"
    and "\<And>p. subseq (lane (msg_q q') p) (lane (msg_q (queue s)) p)"
  shows "fifo_inv (wake_up (s\<lparr>queue := q'\<rparr>))"
proof -
  have "subseq (lane (delivered s) p @ lane (msg_q q') p) (lane (delivered s) p @ lane (msg_q (queue s)) p)" for p
    using assms(3) by (intro list_emb_append_mono) auto
  then show ?thesis
    using assms(1,2) subseq_order.order_trans unfolding fifo_inv_def by simp blast
qed

lemma step_fifo: "step s e s' \<Longrightarrow> mq_inv (queue s) \<Longrightarrow> fifo_inv s \<Longrightarrow> fifo_inv s'"
proof (induction rule: step.induct)
  case (step_post s m)
  then show ?case
    using fifo_post [of s "post_enter (Some m) (queue s)" m "producers s" "m # offered s"]
    by (simp add: post_enter_extends)
next
  case (step_post_returns s ps m n ps' sg)
  then show ?case
    using fifo_post [of s "post_resume sg m (queue s)" m "ps @ ps'" "offered s"]
    by (simp add: post_resume_extends)
next
  case (step_next s e)
  then show ?case
    using fifo_next [of s "next_enter e (queue s)" "consumers s"] next_enter_effect [of e "queue s"] by simp
next
  case (step_next_returns s cs n cs' sg e)
  then show ?case
    using fifo_next [of s "next_resume sg e (queue s)" "cs @ cs'"] next_resume_effect [of sg e "queue s"]
    by simp
next
  case (step_next_ex s e)
  then show ?case
    using fifo_next [of s "next_ex_enter e (queue s)" "consumers s"] next_ex_effect(1) [where e = e and q = "queue s"] by simp
next
  case (step_next_ex_returns s cs n cs' sg)
  then show ?case
    using fifo_next [of s "next_ex_resume sg (queue s)" "cs @ cs'"] next_ex_effect(2) [where s = sg and q = "queue s"]
    by simp
next
  case (step_clear s)
  then show ?case by (intro fifo_drop) (simp_all add: clear_effect)
next
  case (step_clear_pending s t)
  then show ?case
    by (intro fifo_drop) (auto simp: mq_fields lane_def filter_filter conj_commute intro!: subseq_filter
        simp flip: filter_filter)
next
  case (step_close s)
  then show ?case by (intro fifo_drop) (simp_all add: mq_fields)
qed

lemma same_setup_refl [simp]: "same_setup q q"
  by (simp add: same_setup_def)

lemma same_setup_trans: "same_setup a b \<Longrightarrow> same_setup b c \<Longrightarrow> same_setup a c"
  by (simp add: same_setup_def)

lemma same_setup_flags [simp]:
  "same_setup a (b\<lparr>producer_broadcast := x, consumer_broadcast := y\<rparr>) = same_setup a b"
  by (simp add: same_setup_def)

lemma step_setup: "step s e s' \<Longrightarrow> same_setup (queue s) (queue s')"
  by (induction rule: step.induct) (simp_all add: after_post_def after_next_def Let_def setup_ops)

lemma runs_invariants:
  assumes "runs (start q) es s" "fresh q"
  shows "sys_inv s \<and> kept_inv s \<and> fifo_inv s \<and> same_setup q (queue s)"
  using assms
proof (induction "start q" es s rule: runs.induct)
  case runs_Nil
  then show ?case
    by (simp add: fresh_def start_def sys_inv_def mq_inv_def kept_inv_def accounted_def fifo_inv_def)
next
  case (runs_snoc es s' e s'')
  then show ?case
    by (meson step_sys_inv step_kept step_fifo step_setup sys_inv_def same_setup_trans)
qed

section \<open>Draining a saturated queue\<close>

lemma next_drain_step:
  assumes "msg_q q = m # ms"
  shows "next_enter False q = (NextMsg m, snd (next_enter False q))"
    and "msg_q (snd (next_enter False q)) = ms"
    and "saturated (snd (next_enter False q)) \<longrightarrow> saturated q"
    and "saturated q \<and> \<not> saturated (snd (next_enter False q)) \<longrightarrow> producer_broadcast (snd (next_enter False q))"
  using assms by (simp_all add: next_enter_def next_front_def Let_def mq_fields not_less)

lemma runs_Cons: "runs s' es s'' \<Longrightarrow> step s e s' \<Longrightarrow> runs s (e # es) s''"
proof (induction rule: runs.induct)
  case (runs_Nil s')
  then show ?case using runs.runs_snoc [OF runs.runs_Nil [of s], of e s'] by simp
next
  case (runs_snoc s' es t e' t')
  then show ?case using runs.runs_snoc [of s "e # es" t e' t'] by simp
qed

lemma drain:
  assumes "sys_inv s" "saturated (queue s)"
  shows "\<exists>k s'. 0 < k \<and> k \<le> length (msg_q (queue s)) \<and> runs s (replicate k (Next False)) s'
           \<and> \<not> saturated (queue s') \<and> (\<forall>(m, n) \<in> set (producers s'). n)
           \<and> map fst (producers s') = map fst (producers s)
           \<and> delivered s' = delivered s @ take k (msg_q (queue s))"
  using assms
proof (induction "msg_q (queue s)" arbitrary: s)
  case Nil
  then show ?case by (simp add: sys_inv_def mq_inv_def)
next
  case (Cons m ms)
  let ?r = "next_enter False (queue s)"
  note d = next_drain_step [OF Cons.hyps(2) [symmetric]]
  define s1 where "s1 = after_next ?r s"
  have st: "step s (Next False) s1" unfolding s1_def by (rule step_next)
  have inv: "sys_inv s1" using step_sys_inv [OF st] Cons.prems by simp
  have f: "fst ?r = NextMsg m" using d(1) by (metis fst_conv)
  have q1: "queue s1 = (snd ?r)\<lparr>producer_broadcast := False, consumer_broadcast := False\<rparr>"
    "delivered s1 = delivered s @ [m]" "map fst (producers s1) = map fst (producers s)"
    by (simp_all add: s1_def after_next_def Let_def f messages_of_def)
  show ?case
  proof (cases "saturated (snd ?r)")
    case False
    have "producer_broadcast (snd ?r)" using d(4) Cons.prems(2) False by simp
    then have n: "\<forall>(m, n) \<in> set (producers s1). n"
      by (auto simp: s1_def after_next_def Let_def f wake_up_def)
    have "runs s (replicate 1 (Next False)) s1"
      using runs_Cons [OF runs_Nil st] by simp
    then show ?thesis
      using n q1 False Cons.hyps(2) by (intro exI [of _ 1] exI [of _ s1]) (simp flip: Cons.hyps(2))
  next
    case True
    then have "saturated (queue s1)" "ms = msg_q (queue s1)" by (simp_all add: q1 d(2))
    with Cons.hyps(1) inv obtain k s' where k: "0 < k" "k \<le> length ms"
      "runs s1 (replicate k (Next False)) s'" "\<not> saturated (queue s')" "\<forall>(m, n) \<in> set (producers s'). n"
      "map fst (producers s') = map fst (producers s1)" "delivered s' = delivered s1 @ take k ms"
      by blast
    have "runs s (replicate (Suc k) (Next False)) s'"
      using runs_Cons [OF k(3) st] by simp
    then show ?thesis
      using k q1 by (intro exI [of _ "Suc k"] exI [of _ s']) (simp flip: Cons.hyps(2))
  qed
qed

section \<open>What the queue promises\<close>

text \<open>A concrete queue for the examples: water marks 1 and 2.\<close>

definition msg :: "nat \<Rightarrow> u64 \<Rightarrow> u64 \<Rightarrow> message" where
  "msg i t p = \<lparr>msg_id = i, msg_type = t, priority = p, size_in_bytes = 10\<rparr>"

lemma fresh_ctor: "0 < hi \<Longrightarrow> fresh (MessageQ_ctor lo hi b)"
  by (simp add: fresh_def MessageQ_ctor_def)

text \<open>The runs of the model, computed.\<close>

fun follow :: "event list \<Rightarrow> sys \<Rightarrow> sys" where
  "follow [] s = s"
| "follow (Post m # es) s =
     follow es (after_post m (post_enter (Some m) (queue s)) (s\<lparr>offered := m # offered s\<rparr>))"
| "follow (PostReturns m sg # es) s =
     follow es (after_post m (post_resume sg m (queue s)) (s\<lparr>producers := tl (producers s)\<rparr>))"
| "follow (Next e # es) s = follow es (after_next (next_enter e (queue s)) s)"
| "follow (NextReturns sg e # es) s =
     follow es (after_next (next_resume sg e (queue s)) (s\<lparr>consumers := tl (consumers s)\<rparr>))"
| "follow (NextEx e # es) s = follow es (after_next (next_ex_enter e (queue s)) s)"
| "follow (NextExReturns sg # es) s =
     follow es (after_next (next_ex_resume sg (queue s)) (s\<lparr>consumers := tl (consumers s)\<rparr>))"
| "follow (Clear # es) s = follow es (wake_up (s\<lparr>queue := snd (clear (queue s))\<rparr>))"
| "follow (ClearPending t # es) s = follow es (wake_up (s\<lparr>queue := snd (clear_pending_messages t (queue s))\<rparr>))"
| "follow (Close # es) s = follow es (wake_up (s\<lparr>queue := close (queue s)\<rparr>))"

fun followable :: "event list \<Rightarrow> sys \<Rightarrow> bool" where
  "followable [] s \<longleftrightarrow> True"
| "followable (e # es) s \<longleftrightarrow>
     (case e of PostReturns m sg \<Rightarrow> producers s \<noteq> [] \<and> fst (hd (producers s)) = m
      | NextReturns sg b \<Rightarrow> consumers s \<noteq> [] | NextExReturns sg \<Rightarrow> consumers s \<noteq> [] | _ \<Rightarrow> True)
     \<and> followable es (follow [e] s)"

lemma step_follow: "followable [e] s \<Longrightarrow> step s e (follow [e] s)"
proof (cases e)
  case (PostReturns m sg)
  assume "followable [e] s"
  then obtain n ps where "producers s = [] @ (m, n) # ps"
    using PostReturns by (cases "producers s") auto
  from step_post_returns [OF this] PostReturns show ?thesis by (simp add: \<open>producers s = [] @ (m, n) # ps\<close>)
next
  case (NextReturns sg b)
  assume "followable [e] s"
  then obtain n cs where "consumers s = [] @ n # cs"
    using NextReturns by (cases "consumers s") auto
  from step_next_returns [OF this] NextReturns show ?thesis by (simp add: \<open>consumers s = [] @ n # cs\<close>)
next
  case (NextExReturns sg)
  assume "followable [e] s"
  then obtain n cs where "consumers s = [] @ n # cs"
    using NextExReturns by (cases "consumers s") auto
  from step_next_ex_returns [OF this] NextExReturns show ?thesis by (simp add: \<open>consumers s = [] @ n # cs\<close>)
qed (auto intro: step.intros)

lemma follow_Cons: "follow (e # es) s = follow es (follow [e] s)"
  by (cases e) auto

lemma runs_follow: "followable es s \<Longrightarrow> runs s es (follow es s)"
proof (induction es arbitrary: s)
  case Nil
  then show ?case by (simp add: runs_Nil)
next
  case (Cons e es)
  have "followable [e] s" using Cons.prems by simp
  then show ?case using Cons runs_Cons step_follow by (subst follow_Cons) fastforce
qed

definition demo :: "event list" where
  "demo = [Post (msg 1 10 5), Post (msg 2 10 7), Post (msg 3 10 7), Next False, PostReturns (msg 3 10 7) True]"

text \<open>
  C4: no message is lost or duplicated. In every run of producers and consumers around a fresh
  queue, whatever the order of the critical sections, the messages passed to \<open>post\<close> are exactly
  those pending, those delivered by \<open>next_message\<close>, those released by the queue (refused, timed out
  or cleared) and those whose producer still waits, with their multiplicities.
\<close>

theorem mq_conservation:
  assumes "runs (start q) es s" "fresh q"
  shows "mset (offered s) = mset (msg_q (queue s)) + mset (delivered s) + mset (released (queue s))
           + mset (map fst (producers s))"
  using runs_invariants [OF assms] by (simp add: kept_inv_def accounted_def ac_simps)

theorem mq_conservation_witness:
  "let s = follow demo (start (MessageQ_ctor 1 2 False))
   in mset (offered s) = mset (msg_q (queue s)) + mset (delivered s) + mset (released (queue s))
        + mset (map fst (producers s)) \<and> length (offered s) = 3"
proof -
  have r: "followable demo (start (MessageQ_ctor 1 2 False))" by code_simp
  have "length (offered (follow demo (start (MessageQ_ctor 1 2 False)))) = 3" by code_simp
  then show ?thesis
    using mq_conservation [OF runs_follow [OF r] fresh_ctor] by (simp add: Let_def)
qed

text \<open>What a step hands out is the front of the queue, whichever call it belongs to.\<close>

lemma after_next_delivers:
  assumes "msg_q (queue s) = messages_of (fst r) @ msg_q (snd r)"
  shows "\<exists>out. delivered (after_next r (s\<lparr>consumers := cs\<rparr>)) = delivered s @ out
           \<and> (out = [] \<or> msg_q (queue s) = out @ msg_q (queue (after_next r (s\<lparr>consumers := cs\<rparr>))))"
  using assms by (cases "fst r = NextBlocked") (auto simp: after_next_def Let_def)

lemma step_delivers:
  assumes "step s e s'"
  shows "\<exists>out. delivered s' = delivered s @ out \<and> (out = [] \<or> msg_q (queue s) = out @ msg_q (queue s'))"
  using assms
proof cases
  case (step_next e)
  then show ?thesis
    using after_next_delivers [of s "next_enter e (queue s)" "consumers s"] next_enter_effect [of e "queue s"] by simp
next
  case (step_next_returns cs n cs' sg e)
  then show ?thesis
    using after_next_delivers [of s "next_resume sg e (queue s)" "cs @ cs'"] next_resume_effect [of sg e "queue s"] by simp
next
  case (step_next_ex e)
  then show ?thesis
    using after_next_delivers [of s "next_ex_enter e (queue s)" "consumers s"] next_ex_effect(1) [where e = e and q = "queue s"] by simp
next
  case (step_next_ex_returns cs n cs' sg)
  then show ?thesis
    using after_next_delivers [of s "next_ex_resume sg (queue s)" "cs @ cs'"] next_ex_effect(2) [where s = sg and q = "queue s"] by simp
qed (auto simp: after_post_def Let_def)

lemma by_priority_front: "by_priority (out @ ms) \<Longrightarrow> m \<in> set out \<Longrightarrow> x \<in> set ms \<Longrightarrow> priority x \<le> priority m"
  by (auto simp: by_priority_def sorted_wrt_append)

text \<open>
  C5: order. In every run the pending messages are sorted by decreasing priority, their total
  charge is the counter the water marks are compared with (modulo \<open>2^64\<close>), no step, of \<open>next_message\<close> or
  \<open>next_message_ex\<close>, at once or after a wait, delivers a message while one of higher priority is pending, and
  within each priority the messages come out first-in first-out: the delivered ones followed by the pending ones
  are a subsequence of the inserted ones.
\<close>

theorem mq_priority_fifo:
  assumes "runs (start q) es s" "fresh q"
  shows "by_priority (msg_q (queue s))
       \<and> pending_charge (queue s) = total_charge (wm_unit q) (msg_q (queue s))
       \<and> (\<forall>p. subseq (lane (delivered s) p @ lane (msg_q (queue s)) p) (lane (admitted (queue s)) p))
       \<and> (\<forall>e s'. step s e s' \<longrightarrow>
            (\<exists>out. delivered s' = delivered s @ out
               \<and> (\<forall>m\<in>set out. \<forall>x\<in>set (msg_q (queue s')). priority x \<le> priority m)))"
proof -
  note i = runs_invariants [OF assms]
  have b: "by_priority (msg_q (queue s))" using i by (simp add: sys_inv_def mq_inv_def)
  have "\<exists>out. delivered s' = delivered s @ out
      \<and> (\<forall>m\<in>set out. \<forall>x\<in>set (msg_q (queue s')). priority x \<le> priority m)" if "step s e s'" for e s'
    using step_delivers [OF that] b by_priority_front by fastforce
  then show ?thesis using i by (simp add: sys_inv_def mq_inv_def fifo_inv_def same_setup_def)
qed

theorem mq_priority_fifo_witness:
  "let s = follow demo (start (MessageQ_ctor 1 2 False))
   in by_priority (msg_q (queue s)) \<and> map msg_id (msg_q (queue s)) = [3, 1] \<and> map msg_id (delivered s) = [2]"
proof -
  have r: "followable demo (start (MessageQ_ctor 1 2 False))" by code_simp
  have "map msg_id (msg_q (queue (follow demo (start (MessageQ_ctor 1 2 False))))) = [3, 1]"
    "map msg_id (delivered (follow demo (start (MessageQ_ctor 1 2 False)))) = [2]" by code_simp+
  then show ?thesis
    using mq_priority_fifo [OF runs_follow [OF r] fresh_ctor] by (simp add: Let_def)
qed

text \<open>
  C6: no wake-up is lost and no deadlock. In every run with a high water mark above zero, a producer
  that waits and has not been notified sees a saturated queue with a message in it, and a consumer
  that waits and has not been notified sees an empty queue, so the two never wait for each other.
\<close>

theorem mq_no_deadlock:
  assumes "runs (start q) es s" "fresh q"
  shows "((m, False) \<in> set (producers s) \<longrightarrow> saturated (queue s) \<and> msg_q (queue s) \<noteq> [])
       \<and> (False \<in> set (consumers s) \<longrightarrow> msg_q (queue s) = [])
       \<and> \<not> ((m, False) \<in> set (producers s) \<and> False \<in> set (consumers s))"
  using runs_invariants [OF assms] by (auto simp: sys_inv_def mq_inv_def)

theorem mq_no_deadlock_witness:
  "let s = follow (take 3 demo) (start (MessageQ_ctor 1 2 False))
   in (msg 3 10 7, False) \<in> set (producers s) \<and> saturated (queue s) \<and> False \<notin> set (consumers s)"
proof -
  have r: "followable (take 3 demo) (start (MessageQ_ctor 1 2 False))" by code_simp
  have "(msg 3 10 7, False) \<in> set (producers (follow (take 3 demo) (start (MessageQ_ctor 1 2 False))))"
    by code_simp
  then show ?thesis
    using mq_no_deadlock [OF runs_follow [OF r] fresh_ctor, where m = "msg 3 10 7"] by (simp add: Let_def)
qed

text \<open>
  C7: progress. From every reachable state with a saturated queue, calls of \<open>next_message\<close> without
  an expired periodic timer, at most as many as there are pending messages, deliver messages in
  order, unsaturate the queue, and notify every producer that waits.
\<close>

theorem mq_drain_wakes_producers:
  assumes "runs (start q) es s" "fresh q" "saturated (queue s)"
  shows "\<exists>k s'. 0 < k \<and> k \<le> length (msg_q (queue s)) \<and> runs s (replicate k (Next False)) s'
           \<and> \<not> saturated (queue s') \<and> (\<forall>(m, n) \<in> set (producers s'). n)
           \<and> map fst (producers s') = map fst (producers s)
           \<and> delivered s' = delivered s @ take k (msg_q (queue s))"
  using drain [of s] runs_invariants [OF assms(1,2)] assms(3) by blast

theorem mq_drain_wakes_producers_witness:
  "let s = follow (take 3 demo) (start (MessageQ_ctor 1 2 False))
   in \<exists>k s'. 0 < k \<and> k \<le> 2 \<and> runs s (replicate k (Next False)) s' \<and> \<not> saturated (queue s')"
proof -
  have r: "followable (take 3 demo) (start (MessageQ_ctor 1 2 False))" by code_simp
  have "saturated (queue (follow (take 3 demo) (start (MessageQ_ctor 1 2 False))))"
    "length (msg_q (queue (follow (take 3 demo) (start (MessageQ_ctor 1 2 False))))) = 2" by code_simp+
  then show ?thesis
    using mq_drain_wakes_producers [OF runs_follow [OF r] fresh_ctor] by (auto simp: Let_def)
qed

section \<open>Water marks and waiting producers\<close>

lemma u64_diff_wraps:
  fixes hi lo :: u64
  assumes "unat lo + 8 < 2 ^ 64"
  shows "hi - lo < 8 \<longleftrightarrow> lo \<le> hi \<and> unat hi < unat lo + 8"
  using assms by (auto simp: word_less_nat_alt word_le_nat_alt unat_sub_if')

lemma set_hi_wm_gen:
  assumes "unat (lo_wm q) + 8 < 2 ^ 64"
  shows "hi_wm (set_hi_wm hi q) = (if lo_wm q \<le> hi then max hi (lo_wm q + 8) else hi)"
proof -
  have "unat (lo_wm q + 8) = unat (lo_wm q) + 8" using assms by (simp add: unat_add_lem [THEN iffD1])
  moreover then have "hi = lo_wm q + 8 \<longleftrightarrow> unat hi = unat (lo_wm q) + 8" by (metis word_unat_eq_iff)
  ultimately show ?thesis using u64_diff_wraps [OF assms, of hi]
    by (auto simp: set_hi_wm_def kMIN_WATER_MARKS_DIFF_def Let_def max_def word_le_nat_alt)
qed

lemma set_lo_wm_gen:
  assumes "unat lo + 8 < 2 ^ 64"
  shows "lo_wm (set_lo_wm lo q) = max lo 8"
    and "hi_wm (set_lo_wm lo q) = (if max lo 8 \<le> hi_wm q then max (hi_wm q) (max lo 8 + 8) else hi_wm q)"
proof -
  have a: "unat (max lo 8) + 8 < 2 ^ 64" using assms by (simp add: max_def)
  have b: "unat (max lo 8 + 8) = unat (max lo 8) + 8" using a by (simp add: unat_add_lem [THEN iffD1])
  have d: "hi_wm q = max lo 8 + 8 \<longleftrightarrow> unat (hi_wm q) = unat (max lo 8) + 8" using b by (metis word_unat_eq_iff)
  have c: "set_lo_wm lo q = (let q = q\<lparr>lo_wm := max lo 8\<rparr>
      in if hi_wm q - lo_wm q < 8 then q\<lparr>hi_wm := lo_wm q + 8\<rparr> else q)"
    by (simp add: set_lo_wm_def kMIN_LO_WATER_MARK_def kMIN_WATER_MARKS_DIFF_def Let_def max_def not_le)
  show "lo_wm (set_lo_wm lo q) = max lo 8" by (simp add: c Let_def)
  show "hi_wm (set_lo_wm lo q) = (if max lo 8 \<le> hi_wm q then max (hi_wm q) (max lo 8 + 8) else hi_wm q)"
    using u64_diff_wraps [OF a, of "hi_wm q"] b d
    by (auto simp: c Let_def word_le_nat_alt max_def [of "hi_wm q"])
qed

text \<open>
  The water mark setters. As long as the low mark is not close to \<open>2^64\<close>, \<open>set_hi_wm\<close> and
  \<open>set_lo_wm\<close> leave a distance of at least eight when the high mark is not below the low one. When
  it is below, the unsigned difference wraps and the high mark is left where it is. A high mark
  of zero is then possible: on the empty queue an ordinary \<open>post\<close> waits, and so does \<open>next_message\<close>.
\<close>

theorem water_mark_setters:
  assumes "unat (lo_wm q) + 8 < 2 ^ 64" "unat lo + 8 < 2 ^ 64"
    and "\<not> is_task_ctrl_message m" "msg_type m \<noteq> TASK_TIMEOUT" "msg_type m \<noteq> TASK_PERIODIC"
    and "0 < lo_wm q" "msg_q q = []" "pending_charge q = 0" "state q = OPEN"
  shows "hi_wm (set_hi_wm hi q) = (if lo_wm q \<le> hi then max hi (lo_wm q + 8) else hi)
     \<and> lo_wm (set_lo_wm lo q) = max lo 8
     \<and> hi_wm (set_lo_wm lo q) = (if max lo 8 \<le> hi_wm q then max (hi_wm q) (max lo 8 + 8) else hi_wm q)
     \<and> fst (post_enter (Some m) (set_hi_wm 0 q)) = PostBlocked
     \<and> msg_q (snd (post_enter (Some m) (set_hi_wm 0 q))) = []
     \<and> fst (next_enter e (snd (post_enter (Some m) (set_hi_wm 0 q)))) = NextBlocked"
proof -
  have "hi_wm (set_hi_wm 0 q) = 0" using set_hi_wm_gen [OF assms(1), of 0] assms(6) by (auto split: if_splits)
  moreover have "msg_q (set_hi_wm 0 q) = []" "pending_charge (set_hi_wm 0 q) = 0" "state (set_hi_wm 0 q) = OPEN"
    using assms by (simp_all add: set_hi_wm_def Let_def)
  ultimately show ?thesis
    using set_hi_wm_gen [OF assms(1)] set_lo_wm_gen [OF assms(2)] assms(3-5)
    by (simp add: post_enter_def Let_def mq_fields next_enter_def)
qed

theorem water_mark_setters_witness:
  "hi_wm (set_hi_wm 100 (MessageQ_ctor 50 60 False)) = 100
   \<and> hi_wm (set_hi_wm 52 (MessageQ_ctor 50 60 False)) = 58
   \<and> hi_wm (set_hi_wm 0 (MessageQ_ctor 50 60 False)) = 0
   \<and> fst (post_enter (Some (msg 1 10 5)) (set_hi_wm 0 (MessageQ_ctor 50 60 False))) = PostBlocked"
proof -
  have f: "\<not> is_task_ctrl_message (msg 1 10 5)" "msg_type (msg 1 10 5) \<noteq> TASK_TIMEOUT"
    "msg_type (msg 1 10 5) \<noteq> TASK_PERIODIC" by code_simp+
  let ?q = "MessageQ_ctor 50 60 False"
  have l: "unat (lo_wm ?q) + 8 < 2 ^ 64" "0 < lo_wm ?q" "msg_q ?q = []" "pending_charge ?q = 0" "state ?q = OPEN"
    by (simp_all add: MessageQ_ctor_def)
  have g: "lo_wm ?q = 50" by (simp add: MessageQ_ctor_def)
  note t = water_mark_setters [OF l(1) _ f l(2-5), of 50]
  show ?thesis
    using t [where hi = 100] t [where hi = 52] t [where hi = 0] by (simp add: g max_def)
qed

definition late_run :: "event list" where
  "late_run = [Post (msg 1 10 5), Post (msg 2 10 5), Post (msg 3 10 5), Close, Next False]"

definition crowd_run :: "event list" where
  "crowd_run = [Post (msg 1 10 5), Post (msg 2 10 5), Post (msg 3 10 5), Post (msg 4 10 5), Post (msg 5 10 5),
     Next False, PostReturns (msg 3 10 5) True, PostReturns (msg 4 10 5) True]"

text \<open>
  What a wait does not recheck. A closed queue releases every message that is posted from then
  on. A producer that was already waiting is not refused: notified behind \<open>close\<close> it inserts its
  message. And when several waiting producers are notified at once, all of them insert: the
  pending charge goes past the high water mark, against the assertion in \<open>post\<close>.
\<close>

theorem post_rechecks:
  "(state q = CLOSED \<longrightarrow>
      msg_q (snd (post_enter (Some m) q)) = msg_q q \<and> released (snd (post_enter (Some m) q)) = m # released q)
   \<and> (\<exists>s s'. runs (start (MessageQ_ctor 1 2 False)) late_run s \<and> state (queue s) = CLOSED
        \<and> step s (PostReturns (msg 3 10 5) True) s' \<and> map msg_id (msg_q (queue s')) = [2, 3])
   \<and> (\<exists>s s'. runs (start (MessageQ_ctor 1 2 False)) crowd_run s \<and> pending_charge (queue s) = 3
        \<and> \<not> post_assertion (queue s)
        \<and> step s (PostReturns (msg 5 10 5) True) s' \<and> pending_charge (queue s') = 4)"
proof (intro conjI)
  let ?s0 = "start (MessageQ_ctor 1 2 False)"
  show "state q = CLOSED \<longrightarrow>
      msg_q (snd (post_enter (Some m) q)) = msg_q q \<and> released (snd (post_enter (Some m) q)) = m # released q"
    by (auto simp: post_enter_def mq_fields)
  have "followable late_run ?s0" "followable [PostReturns (msg 3 10 5) True] (follow late_run ?s0)"
    "state (queue (follow late_run ?s0)) = CLOSED"
    "map msg_id (msg_q (queue (follow [PostReturns (msg 3 10 5) True] (follow late_run ?s0)))) = [2, 3]"
    by code_simp+
  then show "\<exists>s s'. runs ?s0 late_run s \<and> state (queue s) = CLOSED
        \<and> step s (PostReturns (msg 3 10 5) True) s' \<and> map msg_id (msg_q (queue s')) = [2, 3]"
    by (metis runs_follow step_follow)
  have "followable crowd_run ?s0" "followable [PostReturns (msg 5 10 5) True] (follow crowd_run ?s0)"
    "pending_charge (queue (follow crowd_run ?s0)) = 3" "\<not> post_assertion (queue (follow crowd_run ?s0))"
    "pending_charge (queue (follow [PostReturns (msg 5 10 5) True] (follow crowd_run ?s0))) = 4"
    by code_simp+
  then show "\<exists>s s'. runs ?s0 crowd_run s \<and> pending_charge (queue s) = 3 \<and> \<not> post_assertion (queue s)
        \<and> step s (PostReturns (msg 5 10 5) True) s' \<and> pending_charge (queue s') = 4"
    by (metis runs_follow step_follow)
qed

theorem post_rechecks_witness:
  "map msg_id (released (snd (post_enter (Some (msg 7 10 5)) (close (MessageQ_ctor 1 2 False))))) = [7]"
  using post_rechecks [of "close (MessageQ_ctor 1 2 False)" "msg 7 10 5"]
  by (simp add: mq_fields) (simp add: MessageQ_ctor_def msg_def)

end
