(* ===== verification/Crc32.thy ===== *)
theory Crc32
  imports Prelude
begin

text \<open>
  The CRC-32 of \<open>src/memory/MemBuf.cpp\<close>: the table, the function \<open>crc\<close> with its two uses (one buffer, or
  a set of buffers with the running value passed in), and the bitwise definition they are compared with.
\<close>

section \<open>The code\<close>

definition crc_32_tab :: "u32 list" where
  "crc_32_tab = [
    0x00000000, 0x77073096, 0xee0e612c, 0x990951ba, 0x076dc419, 0x706af48f, 0xe963a535, 0x9e6495a3,
    0x0edb8832, 0x79dcb8a4, 0xe0d5e91e, 0x97d2d988, 0x09b64c2b, 0x7eb17cbd, 0xe7b82d07, 0x90bf1d91,
    0x1db71064, 0x6ab020f2, 0xf3b97148, 0x84be41de, 0x1adad47d, 0x6ddde4eb, 0xf4d4b551, 0x83d385c7,
    0x136c9856, 0x646ba8c0, 0xfd62f97a, 0x8a65c9ec, 0x14015c4f, 0x63066cd9, 0xfa0f3d63, 0x8d080df5,
    0x3b6e20c8, 0x4c69105e, 0xd56041e4, 0xa2677172, 0x3c03e4d1, 0x4b04d447, 0xd20d85fd, 0xa50ab56b,
    0x35b5a8fa, 0x42b2986c, 0xdbbbc9d6, 0xacbcf940, 0x32d86ce3, 0x45df5c75, 0xdcd60dcf, 0xabd13d59,
    0x26d930ac, 0x51de003a, 0xc8d75180, 0xbfd06116, 0x21b4f4b5, 0x56b3c423, 0xcfba9599, 0xb8bda50f,
    0x2802b89e, 0x5f058808, 0xc60cd9b2, 0xb10be924, 0x2f6f7c87, 0x58684c11, 0xc1611dab, 0xb6662d3d,
    0x76dc4190, 0x01db7106, 0x98d220bc, 0xefd5102a, 0x71b18589, 0x06b6b51f, 0x9fbfe4a5, 0xe8b8d433,
    0x7807c9a2, 0x0f00f934, 0x9609a88e, 0xe10e9818, 0x7f6a0dbb, 0x086d3d2d, 0x91646c97, 0xe6635c01,
    0x6b6b51f4, 0x1c6c6162, 0x856530d8, 0xf262004e, 0x6c0695ed, 0x1b01a57b, 0x8208f4c1, 0xf50fc457,
    0x65b0d9c6, 0x12b7e950, 0x8bbeb8ea, 0xfcb9887c, 0x62dd1ddf, 0x15da2d49, 0x8cd37cf3, 0xfbd44c65,
    0x4db26158, 0x3ab551ce, 0xa3bc0074, 0xd4bb30e2, 0x4adfa541, 0x3dd895d7, 0xa4d1c46d, 0xd3d6f4fb,
    0x4369e96a, 0x346ed9fc, 0xad678846, 0xda60b8d0, 0x44042d73, 0x33031de5, 0xaa0a4c5f, 0xdd0d7cc9,
    0x5005713c, 0x270241aa, 0xbe0b1010, 0xc90c2086, 0x5768b525, 0x206f85b3, 0xb966d409, 0xce61e49f,
    0x5edef90e, 0x29d9c998, 0xb0d09822, 0xc7d7a8b4, 0x59b33d17, 0x2eb40d81, 0xb7bd5c3b, 0xc0ba6cad,
    0xedb88320, 0x9abfb3b6, 0x03b6e20c, 0x74b1d29a, 0xead54739, 0x9dd277af, 0x04db2615, 0x73dc1683,
    0xe3630b12, 0x94643b84, 0x0d6d6a3e, 0x7a6a5aa8, 0xe40ecf0b, 0x9309ff9d, 0x0a00ae27, 0x7d079eb1,
    0xf00f9344, 0x8708a3d2, 0x1e01f268, 0x6906c2fe, 0xf762575d, 0x806567cb, 0x196c3671, 0x6e6b06e7,
    0xfed41b76, 0x89d32be0, 0x10da7a5a, 0x67dd4acc, 0xf9b9df6f, 0x8ebeeff9, 0x17b7be43, 0x60b08ed5,
    0xd6d6a3e8, 0xa1d1937e, 0x38d8c2c4, 0x4fdff252, 0xd1bb67f1, 0xa6bc5767, 0x3fb506dd, 0x48b2364b,
    0xd80d2bda, 0xaf0a1b4c, 0x36034af6, 0x41047a60, 0xdf60efc3, 0xa867df55, 0x316e8eef, 0x4669be79,
    0xcb61b38c, 0xbc66831a, 0x256fd2a0, 0x5268e236, 0xcc0c7795, 0xbb0b4703, 0x220216b9, 0x5505262f,
    0xc5ba3bbe, 0xb2bd0b28, 0x2bb45a92, 0x5cb36a04, 0xc2d7ffa7, 0xb5d0cf31, 0x2cd99e8b, 0x5bdeae1d,
    0x9b64c2b0, 0xec63f226, 0x756aa39c, 0x026d930a, 0x9c0906a9, 0xeb0e363f, 0x72076785, 0x05005713,
    0x95bf4a82, 0xe2b87a14, 0x7bb12bae, 0x0cb61b38, 0x92d28e9b, 0xe5d5be0d, 0x7cdcefb7, 0x0bdbdf21,
    0x86d3d2d4, 0xf1d4e242, 0x68ddb3f8, 0x1fda836e, 0x81be16cd, 0xf6b9265b, 0x6fb077e1, 0x18b74777,
    0x88085ae6, 0xff0f6a70, 0x66063bca, 0x11010b5c, 0x8f659eff, 0xf862ae69, 0x616bffd3, 0x166ccf45,
    0xa00ae278, 0xd70dd2ee, 0x4e048354, 0x3903b3c2, 0xa7672661, 0xd06016f7, 0x4969474d, 0x3e6e77db,
    0xaed16a4a, 0xd9d65adc, 0x40df0b66, 0x37d83bf0, 0xa9bcae53, 0xdebb9ec5, 0x47b2cf7f, 0x30b5ffe9,
    0xbdbdf21c, 0xcabac28a, 0x53b39330, 0x24b4a3a6, 0xbad03605, 0xcdd70693, 0x54de5729, 0x23d967bf,
    0xb3667a2e, 0xc4614ab8, 0x5d681b02, 0x2a6f2b94, 0xb40bbe37, 0xc30c8ea1, 0x5a05df1b, 0x2d02ef8d]"

fun crc_loop :: "byte list \<Rightarrow> u32 \<Rightarrow> u32" where
  "crc_loop [] ulVal = ulVal"
| "crc_loop (b # bs) ulVal =
     crc_loop bs (crc_32_tab ! unat ((ulVal XOR ucast b) AND 0xff) XOR drop_bit 8 ulVal)"

text \<open>\<open>None\<close> is a null \<open>pulInitValue\<close>.\<close>

definition crc :: "byte list \<Rightarrow> u32 option \<Rightarrow> u32" where
  "crc pBuf pulInitValue =
     (let ulVal = (case pulInitValue of Some v \<Rightarrow> v | None \<Rightarrow> 0)
      in if length pBuf = 0 then ulVal
         else
           let ulVal = (if pulInitValue = None then 0xffffffff else ulVal);
               ulVal = crc_loop pBuf ulVal
           in if pulInitValue = None then ulVal XOR 0xffffffff else ulVal)"

section \<open>Bitwise CRC-32\<close>

text \<open>
  Division by the reflected polynomial \<open>0xEDB88320\<close>, one bit at a time, least significant first, with
  the register preset to ones and complemented at the end.
\<close>

definition crc_bit :: "u32 \<Rightarrow> u32" where
  "crc_bit r = (if bit r 0 then drop_bit 1 r XOR 0xEDB88320 else drop_bit 1 r)"

definition crc_byte :: "byte \<Rightarrow> u32 \<Rightarrow> u32" where
  "crc_byte b r = (crc_bit ^^ 8) (r XOR ucast b)"

definition crc32 :: "byte list \<Rightarrow> u32" where
  "crc32 bs = NOT (fold crc_byte bs (NOT 0))"

lemma crc_bit_xor: "crc_bit (x XOR y) = crc_bit x XOR crc_bit y"
  by (rule bit_word_eqI) (auto simp: crc_bit_def bit_simps)

lemma crc_bits_xor: "(crc_bit ^^ n) (x XOR y) = (crc_bit ^^ n) x XOR (crc_bit ^^ n) y"
  by (induction n arbitrary: x y) (simp_all add: crc_bit_xor funpow_swap1)

lemma crc_bits_high:
  "(\<And>k. k < n \<Longrightarrow> \<not> bit x k) \<Longrightarrow> (crc_bit ^^ n) x = drop_bit n x"
proof (induction n)
  case (Suc n)
  have "\<not> bit (drop_bit n x) 0" using Suc.prems [of n] by (simp add: bit_simps)
  then show ?case using Suc by (simp add: crc_bit_def)
qed simp

definition entry :: "nat \<Rightarrow> bool" where
  "entry i \<longleftrightarrow> crc_32_tab ! i = (crc_bit ^^ 8) (word_of_nat i)"

text \<open>The second half of each power-of-two prefix of the table is the first half plus one entry.\<close>

lemma crc_table_doubles:
  "take 1 (drop 1 crc_32_tab) = map (\<lambda>x. x XOR crc_32_tab ! 1) (take 1 crc_32_tab)"
  "take 2 (drop 2 crc_32_tab) = map (\<lambda>x. x XOR crc_32_tab ! 2) (take 2 crc_32_tab)"
  "take 4 (drop 4 crc_32_tab) = map (\<lambda>x. x XOR crc_32_tab ! 4) (take 4 crc_32_tab)"
  "take 8 (drop 8 crc_32_tab) = map (\<lambda>x. x XOR crc_32_tab ! 8) (take 8 crc_32_tab)"
  "take 16 (drop 16 crc_32_tab) = map (\<lambda>x. x XOR crc_32_tab ! 16) (take 16 crc_32_tab)"
  "take 32 (drop 32 crc_32_tab) = map (\<lambda>x. x XOR crc_32_tab ! 32) (take 32 crc_32_tab)"
  "take 64 (drop 64 crc_32_tab) = map (\<lambda>x. x XOR crc_32_tab ! 64) (take 64 crc_32_tab)"
  "take 128 (drop 128 crc_32_tab) = map (\<lambda>x. x XOR crc_32_tab ! 128) (take 128 crc_32_tab)"
  by (simp_all add: crc_32_tab_def)

lemma crc_table_powers:
  "crc_32_tab ! 128 = crc_bit 1" "crc_32_tab ! 64 = crc_bit (crc_32_tab ! 128)"
  "crc_32_tab ! 32 = crc_bit (crc_32_tab ! 64)" "crc_32_tab ! 16 = crc_bit (crc_32_tab ! 32)"
  "crc_32_tab ! 8 = crc_bit (crc_32_tab ! 16)" "crc_32_tab ! 4 = crc_bit (crc_32_tab ! 8)"
  "crc_32_tab ! 2 = crc_bit (crc_32_tab ! 4)" "crc_32_tab ! 1 = crc_bit (crc_32_tab ! 2)"
  by (simp_all add: crc_32_tab_def crc_bit_def)

lemma crc_bits_halve:
  assumes "k < 31"
  shows "(crc_bit ^^ n) (2 ^ k) = crc_bit ((crc_bit ^^ n) (2 ^ Suc k))"
proof -
  have "crc_bit (2 ^ Suc k) = 2 ^ k"
    using assms by (intro bit_word_eqI) (auto simp: crc_bit_def bit_simps)
  then show ?thesis by (metis funpow_swap1)
qed

lemma entry_powers: "entry 1" "entry 2" "entry 4" "entry 8" "entry 16" "entry 32" "entry 64" "entry 128"
proof -
  have "(crc_bit ^^ 7) (2 ^ 7) = drop_bit 7 (2 ^ 7 :: u32)"
    by (rule crc_bits_high) (simp only: bit_exp_iff, simp)
  also have "\<dots> = 1" by simp
  finally have "(crc_bit ^^ Suc 7) (2 ^ 7) = crc_bit 1" by (simp only: funpow.simps o_apply)
  then have 7: "(crc_bit ^^ 8) (2 ^ 7) = crc_bit 1" by (simp only: Suc_numeral semiring_norm)
  note h = crc_bits_halve [where n = 8]
  have 6: "(crc_bit ^^ 8) (2 ^ 6) = crc_32_tab ! 64" using h [of 6] 7 by (simp only: crc_table_powers Suc_numeral semiring_norm)
  have 5: "(crc_bit ^^ 8) (2 ^ 5) = crc_32_tab ! 32" using h [of 5] 6 by (simp only: crc_table_powers Suc_numeral semiring_norm)
  have 4: "(crc_bit ^^ 8) (2 ^ 4) = crc_32_tab ! 16" using h [of 4] 5 by (simp only: crc_table_powers Suc_numeral semiring_norm)
  have 3: "(crc_bit ^^ 8) (2 ^ 3) = crc_32_tab ! 8" using h [of 3] 4 by (simp only: crc_table_powers Suc_numeral semiring_norm)
  have 2: "(crc_bit ^^ 8) (2 ^ 2) = crc_32_tab ! 4" using h [of 2] 3 by (simp only: crc_table_powers Suc_numeral semiring_norm)
  have 1: "(crc_bit ^^ 8) (2 ^ 1) = crc_32_tab ! 2" using h [of 1] 2 by (simp only: crc_table_powers Suc_numeral semiring_norm)
  have 0: "(crc_bit ^^ 8) (2 ^ 0) = crc_32_tab ! 1" using h [of 0] 1 by (simp only: crc_table_powers) simp
  show "entry 1" "entry 2" "entry 4" "entry 8" "entry 16" "entry 32" "entry 64" "entry 128"
    using 0 1 2 3 4 5 6 7 crc_table_powers(1) by (simp_all add: entry_def)
qed

lemma word_of_nat_split:
  assumes "j < 2 ^ k" "k < 31"
  shows "(word_of_nat (2 ^ k + j) :: u32) = word_of_nat j XOR 2 ^ k"
proof -
  have "word_of_nat j AND (2 ^ k :: u32) = 0"
  proof (rule bit_word_eqI)
    fix n assume "n < LENGTH(32)"
    have "\<not> bit j k" using assms(1) by (simp add: bit_iff_odd)
    then show "bit (word_of_nat j AND (2 ^ k :: u32)) n = bit (0 :: u32) n" by (auto simp: bit_simps)
  qed
  then show ?thesis by (simp add: disjunctive_add_eq_xor add.commute)
qed

lemma entry_step:
  assumes "take (2 ^ k) (drop (2 ^ k) crc_32_tab) = map (\<lambda>x. x XOR crc_32_tab ! (2 ^ k)) (take (2 ^ k) crc_32_tab)"
    and "k < 8" "entry (2 ^ k)" "\<And>i. i < 2 ^ k \<Longrightarrow> entry i" "i < 2 ^ Suc k"
  shows "entry i"
proof (cases "i < 2 ^ k")
  case False
  define j where "j = i - 2 ^ k"
  have j: "i = 2 ^ k + j" "j < 2 ^ k" using False assms(5) by (auto simp: j_def)
  have "(2 :: nat) ^ k \<le> 2 ^ 7" using assms(2) by (intro power_increasing) auto
  moreover have "length crc_32_tab = 256" by (simp add: crc_32_tab_def)
  ultimately have l: "2 ^ k + 2 ^ k \<le> length crc_32_tab" by simp
  have "crc_32_tab ! i = take (2 ^ k) (drop (2 ^ k) crc_32_tab) ! j" using j l by simp
  also have "\<dots> = crc_32_tab ! j XOR crc_32_tab ! (2 ^ k)" using j l by (simp add: assms(1))
  also have "\<dots> = (crc_bit ^^ 8) (word_of_nat j XOR 2 ^ k)"
    using assms(3) assms(4) [OF j(2)] by (simp add: entry_def crc_bits_xor)
  finally show ?thesis using j assms(2) by (simp add: entry_def word_of_nat_split del: of_nat_add)
qed (use assms in simp)

lemma crc_table_entry:
  assumes "i < 256" shows "entry i"
proof -
  have "i < 2 ^ 0 \<Longrightarrow> entry i" for i
    using crc_bits_high [of 8 0] by (simp add: entry_def crc_32_tab_def)
  note e = this
  have e1: "i < 2 ^ 1 \<Longrightarrow> entry i" for i using entry_step [of 0 i] e crc_table_doubles(1) entry_powers by simp
  have e2: "i < 2 ^ 2 \<Longrightarrow> entry i" for i using entry_step [of 1 i] e1 crc_table_doubles(2) entry_powers by simp
  have e3: "i < 2 ^ 3 \<Longrightarrow> entry i" for i using entry_step [of 2 i] e2 crc_table_doubles(3) entry_powers by simp
  have e4: "i < 2 ^ 4 \<Longrightarrow> entry i" for i using entry_step [of 3 i] e3 crc_table_doubles(4) entry_powers by simp
  have e5: "i < 2 ^ 5 \<Longrightarrow> entry i" for i using entry_step [of 4 i] e4 crc_table_doubles(5) entry_powers by simp
  have e6: "i < 2 ^ 6 \<Longrightarrow> entry i" for i using entry_step [of 5 i] e5 crc_table_doubles(6) entry_powers by simp
  have e7: "i < 2 ^ 7 \<Longrightarrow> entry i" for i using entry_step [of 6 i] e6 crc_table_doubles(7) entry_powers by simp
  have e8: "i < 2 ^ 8 \<Longrightarrow> entry i" for i using entry_step [of 7 i] e7 crc_table_doubles(8) entry_powers by simp
  from e8 [of i] show ?thesis using assms by simp
qed

lemma crc_byte_table:
  "crc_byte b r = crc_32_tab ! unat ((r XOR ucast b) AND 0xff) XOR drop_bit 8 r"
proof -
  define x :: u32 where "x = r XOR ucast b"
  have ff: "(0xff :: u32) = mask 8" by (simp add: mask_eq_exp_minus_1)
  have hi: "drop_bit 8 (x AND NOT (mask 8)) = drop_bit 8 r"
    by (rule bit_word_eqI) (auto simp: x_def bit_simps dest: bit_imp_le_length)
  have split: "x = (x AND mask 8) XOR (x AND NOT (mask 8))"
    by (rule bit_word_eqI) (auto simp: bit_simps)
  have i: "unat (x AND mask 8) < 256"
    using take_bit_nat_less_exp [of 8 "unat x"] by (simp add: unsigned_take_bit_eq flip: take_bit_eq_mask)
  have "crc_32_tab ! unat (x AND mask 8) = (crc_bit ^^ 8) (word_of_nat (unat (x AND mask 8)))"
    using crc_table_entry [OF i] by (simp add: entry_def)
  then have lo: "(crc_bit ^^ 8) (x AND mask 8) = crc_32_tab ! unat (x AND mask 8)" by simp
  have "(crc_bit ^^ 8) x = (crc_bit ^^ 8) (x AND mask 8) XOR (crc_bit ^^ 8) (x AND NOT (mask 8))"
    by (subst split) (rule crc_bits_xor)
  also have "(crc_bit ^^ 8) (x AND NOT (mask 8)) = drop_bit 8 (x AND NOT (mask 8))"
    by (rule crc_bits_high) (simp add: bit_simps)
  finally show ?thesis unfolding crc_byte_def x_def [symmetric] by (simp only: lo hi ff)
qed

lemma crc_loop_fold: "crc_loop bs r = fold crc_byte bs r"
  by (induction bs arbitrary: r) (simp_all add: crc_byte_table)

lemma ones: "(0xffffffff :: u32) = - 1"
  by simp

lemma crc_eq: "crc bs init = (case init of None \<Rightarrow> crc32 bs | Some v \<Rightarrow> fold crc_byte bs v)"
  by (cases bs) (auto simp: crc_def Let_def crc_loop_fold crc32_def ones split: option.splits)

text \<open>
  C21: \<open>crc\<close> computes CRC-32. The table has one entry per byte, the bitwise remainder of that byte, and
  for every list of bytes the table-driven function without an initial value equals the bitwise
  definition. Used on a set of buffers as its header describes (start from ones, pass the running value
  along, complement at the end) it gives the CRC-32 of the concatenation, however the bytes are cut.
\<close>

theorem crc_computes_crc32:
  "crc bs None = crc32 bs
   \<and> length crc_32_tab = 256 \<and> list_all (\<lambda>i. crc_32_tab ! i = (crc_bit ^^ 8) (word_of_nat i)) [0..<256]
   \<and> fold (\<lambda>b v. crc b (Some v)) bufs 0xffffffff XOR 0xffffffff = crc32 (concat bufs)"
proof (intro conjI)
  show "crc bs None = crc32 bs" by (simp add: crc_eq)
  show "length crc_32_tab = 256" by (simp add: crc_32_tab_def)
  show "list_all (\<lambda>i. crc_32_tab ! i = (crc_bit ^^ 8) (word_of_nat i)) [0..<256]"
    using crc_table_entry by (simp add: list_all_iff entry_def)
  have "fold (\<lambda>b v. crc b (Some v)) bufs v = fold crc_byte (concat bufs) v" for v
    by (induction bufs arbitrary: v) (simp_all add: crc_eq)
  then show "fold (\<lambda>b v. crc b (Some v)) bufs 0xffffffff XOR 0xffffffff = crc32 (concat bufs)"
    by (simp add: crc32_def ones)
qed

end
