(* ===== verification/MemBuf.thy ===== *)
theory MemBuf
  imports Prelude Crc32
begin

text \<open>
  The auto-sized buffer of \<open>src/memory/MemBuf.cpp\<close> and \<open>include/yat/memory/MemBuf.h\<close>, on a little-endian
  host (\<open>__MOTOROLA_ENDIAN__\<close> is not defined), with its CRC-32. The buffer lives in a heap of blocks, so
  that ownership, reallocation and dangling pointers are part of the model: an operation whose
  behaviour is undefined (an access outside of a live block, a wrong \<open>delete\<close>, an overlapping \<open>memcpy\<close>)
  is \<open>None\<close>. A copy of zero bytes touches nothing, whatever its pointers.
\<close>

section \<open>The heap\<close>

text \<open>\<open>junk\<close> is what freshly allocated memory holds.\<close>

record heap =
  blocks :: "nat \<Rightarrow> byte list option"
  next_id :: nat
  junk :: "nat \<Rightarrow> byte"

text \<open>\<open>None\<close> is \<open>NULL\<close>; otherwise a block and an offset in it.\<close>

type_synonym ptr = "(nat \<times> nat) option"

definition ptr_add :: "ptr \<Rightarrow> nat \<Rightarrow> ptr" where
  "ptr_add p k = map_option (\<lambda>(b, off). (b, off + k)) p"

definition new_char :: "nat \<Rightarrow> heap \<Rightarrow> ptr \<times> heap" where
  "new_char n h = (Some (next_id h, 0),
     h\<lparr>blocks := (blocks h)(next_id h \<mapsto> map (junk h) [0..<n]), next_id := Suc (next_id h)\<rparr>)"

definition delete_array :: "ptr \<Rightarrow> heap \<Rightarrow> heap option" where
  "delete_array p h =
     (case p of
        None \<Rightarrow> Some h
      | Some (b, off) \<Rightarrow>
          if off = 0 \<and> blocks h b \<noteq> None then Some (h\<lparr>blocks := (blocks h)(b := None)\<rparr>) else None)"

definition load :: "ptr \<Rightarrow> nat \<Rightarrow> heap \<Rightarrow> byte list option" where
  "load p n h =
     (if n = 0 then Some []
      else case p of
        None \<Rightarrow> None
      | Some (b, off) \<Rightarrow>
          (case blocks h b of
             None \<Rightarrow> None
           | Some c \<Rightarrow> if off + n \<le> length c then Some (take n (drop off c)) else None))"

definition overwrite :: "nat \<Rightarrow> byte list \<Rightarrow> byte list \<Rightarrow> byte list" where
  "overwrite off bs c = take off c @ bs @ drop (off + length bs) c"

definition store :: "ptr \<Rightarrow> byte list \<Rightarrow> heap \<Rightarrow> heap option" where
  "store p bs h =
     (if bs = [] then Some h
      else case p of
        None \<Rightarrow> None
      | Some (b, off) \<Rightarrow>
          (case blocks h b of
             None \<Rightarrow> None
           | Some c \<Rightarrow>
               if off + length bs \<le> length c
               then Some (h\<lparr>blocks := (blocks h)(b \<mapsto> overwrite off bs c)\<rparr>) else None))"

definition memmove :: "ptr \<Rightarrow> ptr \<Rightarrow> nat \<Rightarrow> heap \<Rightarrow> heap option" where
  "memmove dst src n h = do {bs \<leftarrow> load src n h; store dst bs h}"

text \<open>
  What \<open>put_bloc\<close> and \<open>insert_bloc\<close> copy from: an object outside of the heap (a local variable, the
  characters of a string), or heap memory.
\<close>

datatype source = Bytes "byte list" | At ptr

definition overlap :: "ptr \<Rightarrow> ptr \<Rightarrow> nat \<Rightarrow> bool" where
  "overlap p q n =
     (case (p, q) of
        (Some (b, i), Some (c, j)) \<Rightarrow> b = c \<and> i < j + n \<and> j < i + n
      | _ \<Rightarrow> False)"

definition memcpy :: "ptr \<Rightarrow> source \<Rightarrow> nat \<Rightarrow> heap \<Rightarrow> heap option" where
  "memcpy dst src n h =
     (case src of
        Bytes bs \<Rightarrow> if n \<le> length bs then store dst (take n bs) h else None
      | At p \<Rightarrow> if n \<noteq> 0 \<and> overlap dst p n then None else memmove dst p n h)"

section \<open>The buffer\<close>

definition MemBuf_MAXDELTA :: u32 where "MemBuf_MAXDELTA = 1048576"
definition MEMBUF_MINSIZE :: u32 where "MEMBUF_MINSIZE = 16"

record membuf =
  m_uiLenBuf :: u32
  m_uiLen :: u32
  m_uiPos :: u32
  m_pBuf :: ptr
  m_bOwner :: bool

definition MemBuf_ctor :: "u32 \<Rightarrow> heap \<Rightarrow> membuf \<times> heap" where
  "MemBuf_ctor uiLenBuf h =
     (let (p, h) = (if uiLenBuf \<noteq> 0 then new_char (unat uiLenBuf) h else (None, h))
      in (\<lparr>m_uiLenBuf = uiLenBuf, m_uiLen = 0, m_uiPos = 0, m_pBuf = p, m_bOwner = True\<rparr>, h))"

definition MemBuf_copy :: "membuf \<Rightarrow> heap \<Rightarrow> (membuf \<times> heap) option" where
  "MemBuf_copy buf h =
     (if m_uiLen buf \<noteq> 0 then
        let (p, h) = new_char (unat (m_uiLen buf)) h
        in do {h \<leftarrow> memcpy p (At (m_pBuf buf)) (unat (m_uiLen buf)) h;
               Some (\<lparr>m_uiLenBuf = m_uiLen buf, m_uiLen = m_uiLen buf, m_uiPos = 0, m_pBuf = p, m_bOwner = True\<rparr>, h)}
      else Some (\<lparr>m_uiLenBuf = 0, m_uiLen = 0, m_uiPos = 0, m_pBuf = None, m_bOwner = True\<rparr>, h))"

definition MemBuf_dtor :: "membuf \<Rightarrow> heap \<Rightarrow> heap option" where
  "MemBuf_dtor mb h = (if m_uiLenBuf mb \<noteq> 0 \<and> m_bOwner mb then delete_array (m_pBuf mb) h else Some h)"

definition reset :: "membuf \<Rightarrow> heap \<Rightarrow> (membuf \<times> heap) option" where
  "reset mb h =
     (if m_uiLenBuf mb \<noteq> 0 then
        do {h \<leftarrow> (if m_bOwner mb then delete_array (m_pBuf mb) h else Some h);
            Some (\<lparr>m_uiLenBuf = 0, m_uiLen = 0, m_uiPos = 0, m_pBuf = None, m_bOwner = True\<rparr>, h)}
      else Some (mb, h))"

definition realloc :: "u32 \<Rightarrow> membuf \<Rightarrow> heap \<Rightarrow> (membuf \<times> heap) option" where
  "realloc uiNewLenBuf mb h =
     (if uiNewLenBuf < m_uiLen mb then Some (mb, h)
      else
        let (pNewBuf, h) = new_char (unat uiNewLenBuf) h
        in do {h \<leftarrow> (if m_pBuf mb \<noteq> None then memcpy pNewBuf (At (m_pBuf mb)) (unat (m_uiLen mb)) h else Some h);
               h \<leftarrow> (if m_uiLenBuf mb \<noteq> 0 \<and> m_pBuf mb \<noteq> None \<and> m_bOwner mb then delete_array (m_pBuf mb) h else Some h);
               Some (mb\<lparr>m_pBuf := pNewBuf, m_uiLenBuf := uiNewLenBuf\<rparr>, h)})"

definition realloc_with_margin :: "u32 \<Rightarrow> membuf \<Rightarrow> heap \<Rightarrow> (membuf \<times> heap) option" where
  "realloc_with_margin uiNewSize mb h =
     (let uiNewSize = (if uiNewSize < MEMBUF_MINSIZE then MEMBUF_MINSIZE else uiNewSize);
          uiDelta = uiNewSize div 2;
          uiDelta = (if uiDelta > MemBuf_MAXDELTA then MemBuf_MAXDELTA else uiDelta)
      in realloc (uiNewSize + uiDelta) mb h)"

text \<open>The assignment operator, between two different objects.\<close>

definition assign :: "membuf \<Rightarrow> membuf \<Rightarrow> heap \<Rightarrow> (membuf \<times> heap) option" where
  "assign mb buf h =
     do {(mb, h) \<leftarrow> (if \<not> m_bOwner mb then reset mb h else Some (mb, h));
         (mb, h) \<leftarrow> (if m_uiLen buf > m_uiLenBuf mb then
              do {h \<leftarrow> (if m_uiLenBuf mb \<noteq> 0 then delete_array (m_pBuf mb) h else Some h);
                  let (p, h) = new_char (unat (m_uiLen buf)) h in
                  Some (mb\<lparr>m_uiLenBuf := m_uiLen buf, m_pBuf := p\<rparr>, h)}
            else Some (mb, h));
         h \<leftarrow> memcpy (m_pBuf mb) (At (m_pBuf buf)) (unat (m_uiLen buf)) h;
         Some (mb\<lparr>m_uiLen := m_uiLen buf, m_uiPos := m_uiPos buf\<rparr>, h)}"

definition equals :: "membuf \<Rightarrow> membuf \<Rightarrow> heap \<Rightarrow> bool option" where
  "equals mb other h =
     (if m_uiLen mb = m_uiLen other then
        do {bs \<leftarrow> load (m_pBuf mb) (unat (m_uiLen mb)) h;
            cs \<leftarrow> load (m_pBuf other) (unat (m_uiLen mb)) h;
            Some (bs = cs)}
      else Some False)"

definition set_len :: "u32 \<Rightarrow> membuf \<Rightarrow> heap \<Rightarrow> (membuf \<times> heap) option" where
  "set_len uiNb mb h =
     do {(mb, h) \<leftarrow> (if uiNb > m_uiLenBuf mb then realloc uiNb mb h else Some (mb, h));
         Some (mb\<lparr>m_uiLen := uiNb, m_uiPos := 0\<rparr>, h)}"

definition put_bloc :: "source \<Rightarrow> u32 \<Rightarrow> membuf \<Rightarrow> heap \<Rightarrow> (membuf \<times> heap) option" where
  "put_bloc p uiNb mb h =
     (let uiTotalLen = m_uiLen mb + uiNb
      in do {(mb, h) \<leftarrow> (if uiTotalLen > m_uiLenBuf mb then realloc_with_margin uiTotalLen mb h else Some (mb, h));
             h \<leftarrow> memcpy (ptr_add (m_pBuf mb) (unat (m_uiLen mb))) p (unat uiNb) h;
             Some (mb\<lparr>m_uiLen := uiTotalLen\<rparr>, h)})"

definition insert_bloc :: "source \<Rightarrow> u32 \<Rightarrow> u32 \<Rightarrow> membuf \<Rightarrow> heap \<Rightarrow> (membuf \<times> heap) option" where
  "insert_bloc p uiNb uiInsPos mb h =
     (let uiTotalLen = m_uiLen mb + uiNb
      in do {(mb, h) \<leftarrow> (if uiTotalLen > m_uiLenBuf mb then realloc_with_margin uiTotalLen mb h else Some (mb, h));
             h \<leftarrow> memmove (ptr_add (m_pBuf mb) (unat uiInsPos + unat uiNb)) (ptr_add (m_pBuf mb) (unat uiInsPos))
                    (unat (m_uiLen mb - uiInsPos)) h;
             h \<leftarrow> memcpy (ptr_add (m_pBuf mb) (unat uiInsPos)) p (unat uiNb) h;
             Some (mb\<lparr>m_uiLen := uiTotalLen\<rparr>, h)})"

text \<open>The return code, the bytes copied to \<open>p\<close> (none when it fails), and the buffer.\<close>

definition get_bloc :: "u32 \<Rightarrow> membuf \<Rightarrow> heap \<Rightarrow> (int \<times> byte list \<times> membuf) option" where
  "get_bloc uiNb mb h =
     (if m_uiLen mb - m_uiPos mb < uiNb then Some (1, [], mb)
      else do {bs \<leftarrow> load (ptr_add (m_pBuf mb) (unat (m_uiPos mb))) (unat uiNb) h;
               Some (0, bs, mb\<lparr>m_uiPos := m_uiPos mb + uiNb\<rparr>)})"

definition move_bloc :: "u32 \<Rightarrow> u32 \<Rightarrow> u32 \<Rightarrow> membuf \<Rightarrow> heap \<Rightarrow> heap option" where
  "move_bloc uiDst uiSrc uiSize mb h =
     memmove (ptr_add (m_pBuf mb) (unat uiDst)) (ptr_add (m_pBuf mb) (unat uiSrc)) (unat uiSize) h"

definition rewind :: "membuf \<Rightarrow> membuf" where
  "rewind mb = mb\<lparr>m_uiPos := 0\<rparr>"

definition set_pos :: "u32 \<Rightarrow> membuf \<Rightarrow> membuf" where
  "set_pos ui mb = mb\<lparr>m_uiPos := ui\<rparr>"

definition empty :: "membuf \<Rightarrow> membuf" where
  "empty mb = mb\<lparr>m_uiPos := 0, m_uiLen := 0\<rparr>"

definition set_owner :: "bool \<Rightarrow> membuf \<Rightarrow> membuf" where
  "set_owner b mb = mb\<lparr>m_bOwner := b\<rparr>"

definition attach :: "ptr \<Rightarrow> u32 \<Rightarrow> bool \<Rightarrow> membuf \<Rightarrow> heap \<Rightarrow> (membuf \<times> heap) option" where
  "attach pBuf uiLen bOwner mb h =
     do {(mb, h) \<leftarrow> reset mb h;
         Some (mb\<lparr>m_uiLen := uiLen, m_uiLenBuf := uiLen, m_pBuf := pBuf, m_bOwner := bOwner\<rparr>, h)}"

text \<open>\<open>give_ownership\<close> to another object: the code, the giver, the receiver.\<close>

definition give_ownership :: "membuf \<Rightarrow> membuf \<Rightarrow> heap \<Rightarrow> (int \<times> membuf \<times> membuf \<times> heap) option" where
  "give_ownership mb receiver h =
     (if \<not> m_bOwner mb then Some (- 1, mb, receiver, h)
      else do {(receiver, h) \<leftarrow> attach (m_pBuf mb) (m_uiLen mb) True receiver h;
               Some (0, set_owner False mb, receiver, h)})"

section \<open>Streaming\<close>

text \<open>
  The operators on scalars copy the object representation, low byte first: \<open>n\<close> is the \<open>sizeof\<close> of the
  type, one to eight. A failed extraction leaves the variable as it is.
\<close>

definition put_scalar :: "nat \<Rightarrow> u64 \<Rightarrow> membuf \<Rightarrow> heap \<Rightarrow> (membuf \<times> heap) option" where
  "put_scalar n v mb h = put_bloc (Bytes (le_split n v)) (word_of_nat n) mb h"

definition get_scalar :: "nat \<Rightarrow> u64 \<Rightarrow> membuf \<Rightarrow> heap \<Rightarrow> (u64 \<times> membuf) option" where
  "get_scalar n v mb h =
     do {(rc, bs, mb) \<leftarrow> get_bloc (word_of_nat n) mb h;
         Some (if rc = 0 then le_join bs else v, mb)}"

text \<open>A string goes in with its terminating zero.\<close>

definition put_string :: "byte list \<Rightarrow> membuf \<Rightarrow> heap \<Rightarrow> (membuf \<times> heap) option" where
  "put_string s mb h = put_bloc (Bytes (s @ [0])) (word_of_nat (length s + 1)) mb h"

definition strlen_at :: "ptr \<Rightarrow> heap \<Rightarrow> nat option" where
  "strlen_at p h =
     do {(b, off) \<leftarrow> p;
         c \<leftarrow> blocks h b;
         if 0 \<in> set (drop off c) then Some (length (takeWhile (\<lambda>x. x \<noteq> 0) (drop off c))) else None}"

definition get_string :: "byte list \<Rightarrow> membuf \<Rightarrow> heap \<Rightarrow> (byte list \<times> membuf) option" where
  "get_string str mb h =
     (if m_pBuf mb \<noteq> None then
        do {uiNb \<leftarrow> strlen_at (ptr_add (m_pBuf mb) (unat (m_uiPos mb))) h;
            bs \<leftarrow> load (ptr_add (m_pBuf mb) (unat (m_uiPos mb))) uiNb h;
            Some (str @ bs, mb)}
      else Some (str, mb))"

definition put_membuf :: "membuf \<Rightarrow> membuf \<Rightarrow> heap \<Rightarrow> (membuf \<times> heap) option" where
  "put_membuf src mb h = put_bloc (At (m_pBuf src)) (m_uiLen src) mb h"

definition get_crc :: "membuf \<Rightarrow> heap \<Rightarrow> u32 option" where
  "get_crc mb h = do {bs \<leftarrow> load (m_pBuf mb) (unat (m_uiLen mb)) h; Some (crc bs None)}"

section \<open>The invariant of a buffer\<close>

definition fresh_ids :: "heap \<Rightarrow> bool" where
  "fresh_ids h \<longleftrightarrow> (\<forall>b. next_id h \<le> b \<longrightarrow> blocks h b = None)"

definition mb_ok :: "membuf \<Rightarrow> heap \<Rightarrow> bool" where
  "mb_ok mb h \<longleftrightarrow> m_uiLen mb \<le> m_uiLenBuf mb \<and> fresh_ids h
     \<and> (m_uiLenBuf mb \<noteq> 0 \<longrightarrow>
          (\<exists>b off c. m_pBuf mb = Some (b, off) \<and> blocks h b = Some c
             \<and> off + unat (m_uiLenBuf mb) \<le> length c \<and> (m_bOwner mb \<longrightarrow> off = 0)))"

text \<open>The bytes in use.\<close>

definition contents :: "membuf \<Rightarrow> heap \<Rightarrow> byte list" where
  "contents mb h = (case load (m_pBuf mb) (unat (m_uiLen mb)) h of Some bs \<Rightarrow> bs | None \<Rightarrow> [])"

text \<open>An operation leaves the blocks of other objects alone.\<close>

definition frame :: "membuf \<Rightarrow> heap \<Rightarrow> heap \<Rightarrow> bool" where
  "frame mb h h' \<longleftrightarrow> next_id h \<le> next_id h'
     \<and> (\<forall>b < next_id h. map_option fst (m_pBuf mb) \<noteq> Some b \<longrightarrow> blocks h' b = blocks h b)"

lemma length_overwrite [simp]: "off + length bs \<le> length c \<Longrightarrow> length (overwrite off bs c) = length c"
  by (simp add: overwrite_def)

lemma overwrite_read:
  "off + length bs \<le> length c \<Longrightarrow> take (length bs) (drop off (overwrite off bs c)) = bs"
  by (simp add: overwrite_def)

lemma overwrite_extend:
  assumes "off + n + length bs \<le> length c"
  shows "take (n + length bs) (drop off (overwrite (off + n) bs c)) = take n (drop off c) @ bs"
  using assms by (cases bs) (auto simp: overwrite_def drop_take min_def)

lemma mb_ok_cases:
  assumes "mb_ok mb h"
  obtains (unused) "m_uiLenBuf mb = 0" "m_uiLen mb = 0" "contents mb h = []" "fresh_ids h"
  | (block) b off c where "m_pBuf mb = Some (b, off)" "blocks h b = Some c" "m_uiLenBuf mb \<noteq> 0"
      "off + unat (m_uiLenBuf mb) \<le> length c" "m_bOwner mb \<Longrightarrow> off = 0" "b < next_id h"
      "unat (m_uiLen mb) \<le> unat (m_uiLenBuf mb)" "fresh_ids h"
      "contents mb h = take (unat (m_uiLen mb)) (drop off c)"
proof (cases "m_uiLenBuf mb = 0")
  case True
  then have "m_uiLen mb = 0" using assms by (simp add: mb_ok_def)
  then show ?thesis using True assms by (auto simp: contents_def load_def mb_ok_def intro: unused)
next
  case False
  with assms obtain b off c where 1: "m_pBuf mb = Some (b, off)" "blocks h b = Some c"
    "off + unat (m_uiLenBuf mb) \<le> length c" "m_bOwner mb \<Longrightarrow> off = 0" "m_uiLen mb \<le> m_uiLenBuf mb"
    "fresh_ids h"
    by (auto simp: mb_ok_def)
  have "b < next_id h" using 1(2,6) by (metis fresh_ids_def not_le option.distinct(1))
  then show ?thesis using 1 False block
    by (auto simp: contents_def load_def word_le_nat_alt)
qed

lemma contents_length: "mb_ok mb h \<Longrightarrow> length (contents mb h) = unat (m_uiLen mb)"
  by (erule mb_ok_cases) auto

lemma mb_ok_blockI:
  assumes "m_pBuf mb = Some (b, off)" "blocks h b = Some c" "off + unat (m_uiLenBuf mb) \<le> length c"
    "m_bOwner mb \<longrightarrow> off = 0" "m_uiLen mb \<le> m_uiLenBuf mb" "fresh_ids h"
  shows "mb_ok mb h"
  using assms by (simp add: mb_ok_def)

lemma contents_block:
  assumes "m_pBuf mb = Some (b, off)" "blocks h b = Some c" "off + unat (m_uiLen mb) \<le> length c"
  shows "contents mb h = take (unat (m_uiLen mb)) (drop off c)"
  using assms by (simp add: contents_def load_def)

lemma fresh_ids_new: "fresh_ids h \<Longrightarrow> fresh_ids (h\<lparr>blocks := (blocks h)(next_id h \<mapsto> c), next_id := Suc (next_id h)\<rparr>)"
  by (simp add: fresh_ids_def)

lemma fresh_ids_upd: "fresh_ids h \<Longrightarrow> b < next_id h \<Longrightarrow> fresh_ids (h\<lparr>blocks := (blocks h)(b := x)\<rparr>)"
  by (auto simp: fresh_ids_def)

lemma realloc_spec:
  assumes ok: "mb_ok mb h" and n: "m_uiLen mb \<le> n"
  shows "\<exists>h' c. realloc n mb h = Some (mb\<lparr>m_pBuf := Some (next_id h, 0), m_uiLenBuf := n\<rparr>, h')
      \<and> fresh_ids h' \<and> next_id h' = Suc (next_id h) \<and> blocks h' (next_id h) = Some c
      \<and> length c = unat n \<and> take (unat (m_uiLen mb)) c = contents mb h
      \<and> frame mb h h'
      \<and> (\<forall>b off. m_pBuf mb = Some (b, off) \<and> m_uiLenBuf mb \<noteq> 0 \<longrightarrow>
           blocks h' b = (if m_bOwner mb then None else blocks h b))"
  using ok
proof (cases rule: mb_ok_cases)
  case unused
  define c where "c = map (junk h) [0..<unat n]"
  define h' where "h' = h\<lparr>blocks := (blocks h)(next_id h \<mapsto> c), next_id := Suc (next_id h)\<rparr>"
  have "realloc n mb h = Some (mb\<lparr>m_pBuf := Some (next_id h, 0), m_uiLenBuf := n\<rparr>, h')"
    using unused(1,2) leD [OF n]
    by (simp add: realloc_def new_char_def memcpy_def memmove_def load_def store_def c_def h'_def)
  moreover have "length c = unat n" by (simp add: c_def)
  moreover have "fresh_ids h'" using unused(4) fresh_ids_new by (simp add: h'_def)
  ultimately show ?thesis using unused
    by (intro exI [of _ h'] exI [of _ c]) (simp add: h'_def frame_def)
next
  case (block b off c0)
  define c where "c = overwrite 0 (contents mb h) (map (junk h) [0..<unat n])"
  define h1 where "h1 = h\<lparr>blocks := (blocks h)(next_id h \<mapsto> c), next_id := Suc (next_id h)\<rparr>"
  define h' where "h' = (if m_bOwner mb then h1\<lparr>blocks := (blocks h1)(b := None)\<rparr> else h1)"
  have len: "length (contents mb h) = unat (m_uiLen mb)" by (rule contents_length [OF ok])
  have le: "unat (m_uiLen mb) \<le> unat n" using n by (simp add: word_le_nat_alt)
  have lc: "length c = unat n" using le len by (simp add: c_def)
  have tc: "take (unat (m_uiLen mb)) c = contents mb h"
    using le len overwrite_read [of 0 "contents mb h" "map (junk h) [0..<unat n]"] by (simp add: c_def)
  have cp: "memcpy (Some (next_id h, 0)) (At (Some (b, off))) (unat (m_uiLen mb))
      (h\<lparr>blocks := (blocks h)(next_id h \<mapsto> map (junk h) [0..<unat n]), next_id := Suc (next_id h)\<rparr>) = Some h1"
    (is "memcpy _ _ _ ?h0 = _")
  proof (cases "unat (m_uiLen mb) = 0")
    case True
    then show ?thesis using len by (simp add: memcpy_def memmove_def load_def store_def h1_def c_def overwrite_def)
  next
    case False
    have ov: "\<not> overlap (Some (next_id h, 0)) (Some (b, off)) (unat (m_uiLen mb))"
      using block(6) by (simp add: overlap_def)
    have "load (Some (b, off)) (unat (m_uiLen mb)) ?h0 = Some (contents mb h)"
      using False block by (simp add: load_def)
    moreover have "store (Some (next_id h, 0)) (contents mb h) ?h0 = Some h1"
      using False len le by (auto simp: store_def h1_def c_def)
    ultimately show ?thesis using ov by (simp add: memcpy_def memmove_def)
  qed
  have "realloc n mb h = Some (mb\<lparr>m_pBuf := Some (next_id h, 0), m_uiLenBuf := n\<rparr>, h')"
    using cp leD [OF n] block(1-6)
    by (cases "m_bOwner mb") (simp_all add: realloc_def new_char_def delete_array_def h'_def h1_def)
  moreover have "fresh_ids h'" using block fresh_ids_new [OF block(8), of c] fresh_ids_upd [of h1 b None]
    by (simp add: h'_def h1_def)
  ultimately show ?thesis using lc tc block(1,6)
    by (intro exI [of _ h'] exI [of _ c]) (auto simp: h'_def h1_def frame_def)
qed

text \<open>The size that \<open>realloc_with_margin\<close> asks for: it wraps only within a megabyte of \<open>2 ^ 32\<close>.\<close>

definition margin_size :: "u32 \<Rightarrow> u32" where
  "margin_size n =
     (let n = (if n < MEMBUF_MINSIZE then MEMBUF_MINSIZE else n);
          d = (if n div 2 > MemBuf_MAXDELTA then MemBuf_MAXDELTA else n div 2) in n + d)"

lemma realloc_with_margin_eq: "realloc_with_margin n = realloc (margin_size n)"
  by (rule ext)+ (simp add: realloc_with_margin_def margin_size_def Let_def)

lemma margin_size_ge:
  assumes "unat n + 1048576 < 2 ^ 32"
  shows "n \<le> margin_size n" "16 \<le> margin_size n"
proof -
  define k where "k = (if n < MEMBUF_MINSIZE then MEMBUF_MINSIZE else n)"
  define d where "d = (if k div 2 > MemBuf_MAXDELTA then MemBuf_MAXDELTA else k div 2)"
  have k: "n \<le> k" "16 \<le> k" "unat k + 1048576 < 2 ^ 32"
    using assms by (auto simp: k_def MEMBUF_MINSIZE_def not_less)
  have "unat d \<le> 1048576"
    by (auto simp: d_def MemBuf_MAXDELTA_def word_less_nat_alt unat_div not_less)
  then have "unat (k + d) = unat k + unat d" using k(3) by (simp add: unat_add_lem [THEN iffD1])
  then have "k \<le> k + d" by (simp add: word_le_nat_alt)
  moreover have "margin_size n = k + d" by (simp add: margin_size_def Let_def k_def d_def)
  ultimately show "n \<le> margin_size n" "16 \<le> margin_size n" using k by auto
qed

text \<open>The step that \<open>put_bloc\<close> and \<open>insert_bloc\<close> begin with.\<close>

definition make_room :: "u32 \<Rightarrow> membuf \<Rightarrow> heap \<Rightarrow> (membuf \<times> heap) option" where
  "make_room need mb h = (if need > m_uiLenBuf mb then realloc_with_margin need mb h else Some (mb, h))"

lemma make_room_spec:
  assumes ok: "mb_ok mb h" and t: "m_uiLen mb \<le> need" "unat need + 1048576 < 2 ^ 32" "need \<noteq> 0"
  shows "\<exists>mb' h' b off c. make_room need mb h = Some (mb', h') \<and> mb_ok mb' h'
      \<and> m_pBuf mb' = Some (b, off) \<and> blocks h' b = Some c \<and> off + unat (m_uiLenBuf mb') \<le> length c
      \<and> b < next_id h' \<and> fresh_ids h' \<and> (m_bOwner mb' \<longrightarrow> off = 0)
      \<and> need \<le> m_uiLenBuf mb' \<and> m_uiLen mb' = m_uiLen mb \<and> m_uiPos mb' = m_uiPos mb
      \<and> m_bOwner mb' = m_bOwner mb
      \<and> take (unat (m_uiLen mb)) (drop off c) = contents mb h
      \<and> frame mb h h' \<and> (\<forall>x < next_id h. map_option fst (m_pBuf mb) \<noteq> Some x \<longrightarrow> b \<noteq> x)"
proof (cases "need > m_uiLenBuf mb")
  case True
  have n: "m_uiLen mb \<le> margin_size need" using t margin_size_ge [OF t(2)] by simp
  obtain h' c where r: "realloc (margin_size need) mb h
      = Some (mb\<lparr>m_pBuf := Some (next_id h, 0), m_uiLenBuf := margin_size need\<rparr>, h')"
    "fresh_ids h'" "next_id h' = Suc (next_id h)" "blocks h' (next_id h) = Some c"
    "length c = unat (margin_size need)" "take (unat (m_uiLen mb)) c = contents mb h" "frame mb h h'"
    using realloc_spec [OF ok n] by blast
  let ?mb = "mb\<lparr>m_pBuf := Some (next_id h, 0), m_uiLenBuf := margin_size need\<rparr>"
  have "mb_ok ?mb h'" using r n by (intro mb_ok_blockI [of _ "next_id h" 0 _ c]) simp_all
  then show ?thesis
    using True r margin_size_ge [OF t(2)]
    by (intro exI [of _ ?mb] exI [of _ h'] exI [of _ "next_id h"] exI [of _ "0::nat"] exI [of _ c])
      (simp add: make_room_def realloc_with_margin_eq)
next
  case False
  have "m_uiLenBuf mb \<noteq> 0" using False t(3) by (auto simp: not_less)
  then obtain b off c where b: "m_pBuf mb = Some (b, off)" "blocks h b = Some c" "m_uiLenBuf mb \<noteq> 0"
      "off + unat (m_uiLenBuf mb) \<le> length c" "m_bOwner mb \<Longrightarrow> off = 0" "b < next_id h"
      "fresh_ids h" "contents mb h = take (unat (m_uiLen mb)) (drop off c)"
    using mb_ok_cases [OF ok] by metis
  show ?thesis
    using False b ok
    by (intro exI [of _ mb] exI [of _ h] exI [of _ b] exI [of _ off] exI [of _ c])
      (auto simp: make_room_def frame_def not_less)
qed

text \<open>A source that the operation may read: outside of the heap, or a live range of another block.\<close>

definition source_ok :: "source \<Rightarrow> nat \<Rightarrow> byte list \<Rightarrow> membuf \<Rightarrow> heap \<Rightarrow> bool" where
  "source_ok src n bs mb h \<longleftrightarrow> length bs = n \<and>
     (case src of
        Bytes xs \<Rightarrow> n \<le> length xs \<and> bs = take n xs
      | At p \<Rightarrow> load p n h = Some bs \<and>
          (n \<noteq> 0 \<longrightarrow> map_option fst (m_pBuf mb) \<noteq> map_option fst p))"

lemma load_frame:
  assumes "load p n h = Some bs" "n \<noteq> 0 \<longrightarrow> map_option fst (m_pBuf mb) \<noteq> map_option fst p"
    "frame mb h h'" "fresh_ids h"
  shows "load p n h' = Some bs"
proof (cases "n = 0")
  case False
  then obtain b off c where p: "p = Some (b, off)" "blocks h b = Some c"
    using assms(1) by (auto simp: load_def split: option.splits)
  then have "b < next_id h" using assms(4) by (metis fresh_ids_def not_le option.distinct(1))
  then have "blocks h' b = blocks h b" using assms(2,3) False p by (auto simp: frame_def)
  then show ?thesis using assms(1) False by (simp add: load_def p)
qed (use assms(1) in \<open>simp add: load_def\<close>)

lemma memcpy_source:
  assumes src: "source_ok src n bs mb h" and fr: "frame mb h h'" "fresh_ids h"
    and new: "\<forall>x < next_id h. map_option fst (m_pBuf mb) \<noteq> Some x \<longrightarrow> b \<noteq> x"
    and c: "blocks h' b = Some c" "off + n \<le> length c"
  shows "memcpy (Some (b, off)) src n h'
     = Some (if n = 0 then h' else h'\<lparr>blocks := (blocks h')(b \<mapsto> overwrite off bs c)\<rparr>)"
proof (cases src)
  case (Bytes xs)
  then have "n \<le> length xs" "take n xs = bs" "length bs = n" using src by (auto simp: source_ok_def)
  moreover from this have "store (Some (b, off)) bs h'
      = Some (if n = 0 then h' else h'\<lparr>blocks := (blocks h')(b \<mapsto> overwrite off bs c)\<rparr>)"
    using c by (cases bs) (auto simp: store_def)
  ultimately show ?thesis by (simp only: memcpy_def Bytes source.case if_True)
next
  case (At p)
  have s: "load p n h = Some bs" "n \<noteq> 0 \<longrightarrow> map_option fst (m_pBuf mb) \<noteq> map_option fst p" "length bs = n"
    using src by (simp_all add: source_ok_def At)
  have l: "load p n h' = Some bs" by (rule load_frame [OF s(1,2) fr])
  have "n \<noteq> 0 \<Longrightarrow> \<not> overlap (Some (b, off)) p n"
  proof
    assume n: "n \<noteq> 0" and o: "overlap (Some (b, off)) p n"
    then obtain j where p: "p = Some (b, j)" by (auto simp: overlap_def split: option.splits)
    have "load p n h = Some bs" "map_option fst (m_pBuf mb) \<noteq> Some b" using s n p by auto
    moreover from this have "blocks h b \<noteq> None" using n p by (auto simp: load_def split: option.splits)
    ultimately show False using new fr(2) by (metis fresh_ids_def not_le)
  qed
  moreover have "store (Some (b, off)) bs h'
      = Some (if n = 0 then h' else h'\<lparr>blocks := (blocks h')(b \<mapsto> overwrite off bs c)\<rparr>)"
    using c s(3) by (cases bs) (auto simp: store_def)
  ultimately show ?thesis using l by (auto simp: memcpy_def At memmove_def)
qed

lemma next_add_less: "b < n \<Longrightarrow> fresh_ids (h\<lparr>next_id := n\<rparr>) \<Longrightarrow> fresh_ids (h\<lparr>next_id := n, blocks := (blocks h)(b \<mapsto> c)\<rparr>)"
  by (auto simp: fresh_ids_def)

text \<open>What the writing operations promise: new contents, and everything else as before.\<close>

definition writes :: "membuf \<Rightarrow> heap \<Rightarrow> byte list \<Rightarrow> (membuf \<times> heap) option \<Rightarrow> bool" where
  "writes mb h bs r \<longleftrightarrow> (\<exists>mb' h'. r = Some (mb', h') \<and> mb_ok mb' h' \<and> contents mb' h' = bs
     \<and> m_uiPos mb' = m_uiPos mb \<and> m_bOwner mb' = m_bOwner mb \<and> frame mb h h')"

lemma frame_write:
  assumes "frame mb h h'" "\<forall>x < next_id h. map_option fst (m_pBuf mb) \<noteq> Some x \<longrightarrow> b \<noteq> x"
  shows "frame mb h (h'\<lparr>blocks := (blocks h')(b := x)\<rparr>)"
  using assms by (auto simp: frame_def)

lemma writesI:
  assumes "frame mb h h'" "\<forall>x < next_id h. map_option fst (m_pBuf mb) \<noteq> Some x \<longrightarrow> b \<noteq> x"
    and "m_pBuf mb' = Some (b, off)" "b < next_id h'" "fresh_ids h'" "m_bOwner mb' \<longrightarrow> off = 0"
    and "off + unat (m_uiLenBuf mb') \<le> length c" "n \<le> m_uiLenBuf mb'"
    and "m_uiPos mb' = m_uiPos mb" "m_bOwner mb' = m_bOwner mb"
    and "take (unat n) (drop off c) = bs"
  shows "writes mb h bs (Some (mb'\<lparr>m_uiLen := n\<rparr>, h'\<lparr>blocks := (blocks h')(b \<mapsto> c)\<rparr>))"
proof -
  let ?m = "mb'\<lparr>m_uiLen := n\<rparr>" and ?h = "h'\<lparr>blocks := (blocks h')(b \<mapsto> c)\<rparr>"
  have "mb_ok ?m ?h"
    using assms fresh_ids_upd [OF assms(5,4), of "Some c"] by (intro mb_ok_blockI [of _ b off _ c]) simp_all
  moreover have "unat n \<le> unat (m_uiLenBuf mb')" using assms(8) by (simp add: word_le_nat_alt)
  then have "contents ?m ?h = bs" using assms by (subst contents_block [of _ b off _ c]) simp_all
  ultimately show ?thesis using assms(9,10) frame_write [OF assms(1,2)]
    unfolding writes_def by (intro exI [of _ ?m] exI [of _ ?h]) simp
qed

lemma put_bloc_zero: "source_ok src 0 bs mb h \<Longrightarrow> mb_ok mb h \<Longrightarrow> put_bloc src 0 mb h = Some (mb, h)"
  by (cases src) (auto simp: put_bloc_def memcpy_def memmove_def load_def store_def mb_ok_def not_less Let_def
      split: prod.splits)

lemma put_bloc_spec:
  assumes ok: "mb_ok mb h" and src: "source_ok src (unat n) bs mb h"
    and small: "unat (m_uiLen mb) + unat n + 1048576 < 2 ^ 32"
  shows "writes mb h (contents mb h @ bs) (put_bloc src n mb h)"
proof (cases "n = 0")
  case True
  moreover have "put_bloc src 0 mb h = Some (mb, h)" using ok src True by (intro put_bloc_zero) simp_all
  ultimately show ?thesis using ok src by (auto simp: writes_def frame_def source_ok_def)
next
  case False
  define need where "need = m_uiLen mb + n"
  have un: "unat need = unat (m_uiLen mb) + unat n"
    unfolding need_def by (rule unat_add_lem [THEN iffD1]) (use small in simp)
  have need: "m_uiLen mb \<le> need" "unat need + 1048576 < 2 ^ 32" "need \<noteq> 0"
  proof -
    show "m_uiLen mb \<le> need" using un by (simp add: word_le_nat_alt)
    show "unat need + 1048576 < 2 ^ 32" using un small by simp
    have "unat n \<noteq> 0" using False by (simp add: unat_eq_zero)
    then show "need \<noteq> 0" using un by (metis add_is_0 unat_0)
  qed
  obtain mb' h' b off c where r: "make_room need mb h = Some (mb', h')" "mb_ok mb' h'"
      "m_pBuf mb' = Some (b, off)" "blocks h' b = Some c" "off + unat (m_uiLenBuf mb') \<le> length c"
      "b < next_id h'" "fresh_ids h'" "m_bOwner mb' \<longrightarrow> off = 0"
      "need \<le> m_uiLenBuf mb'" "m_uiLen mb' = m_uiLen mb" "m_uiPos mb' = m_uiPos mb"
      "m_bOwner mb' = m_bOwner mb" "take (unat (m_uiLen mb)) (drop off c) = contents mb h"
      "frame mb h h'" "\<forall>x < next_id h. map_option fst (m_pBuf mb) \<noteq> Some x \<longrightarrow> b \<noteq> x"
    using make_room_spec [OF ok need] by blast
  have fit: "off + unat (m_uiLen mb) + unat n \<le> length c" using r(5,9) un by (simp add: word_le_nat_alt)
  have fh: "fresh_ids h" using ok by (simp add: mb_ok_def)
  have lb: "length bs = unat n" using src by (simp add: source_ok_def)
  have cp: "memcpy (Some (b, off + unat (m_uiLen mb))) src (unat n) h'
      = Some (h'\<lparr>blocks := (blocks h')(b \<mapsto> overwrite (off + unat (m_uiLen mb)) bs c)\<rparr>)"
    using memcpy_source [OF src r(14) fh r(15) r(4), of "off + unat (m_uiLen mb)"] fit False
    by (simp add: unat_eq_zero)
  have "put_bloc src n mb h = Some (mb'\<lparr>m_uiLen := need\<rparr>,
      h'\<lparr>blocks := (blocks h')(b \<mapsto> overwrite (off + unat (m_uiLen mb)) bs c)\<rparr>)"
    using r(1) cp by (simp add: put_bloc_def make_room_def need_def Let_def r(3,10) ptr_add_def)
  moreover have "take (unat need) (drop off (overwrite (off + unat (m_uiLen mb)) bs c)) = contents mb h @ bs"
    using overwrite_extend [of off "unat (m_uiLen mb)" bs c] fit lb un r(13) by simp
  ultimately show ?thesis
    using r fit lb writesI [OF r(14,15) r(3) r(6,7,8), of "overwrite (off + unat (m_uiLen mb)) bs c" need "contents mb h @ bs"]
    by simp
qed

lemma nth_overwrite:
  "off + length bs \<le> length c \<Longrightarrow> i < length c \<Longrightarrow>
     overwrite off bs c ! i = (if off \<le> i \<and> i < off + length bs then bs ! (i - off) else c ! i)"
  by (auto simp: overwrite_def nth_append)

lemma memmove_block:
  assumes "blocks h b = Some c" "i + k \<le> length c" "j + k \<le> length c"
  shows "memmove (Some (b, i)) (Some (b, j)) k h
     = Some (h\<lparr>blocks := (blocks h)(b \<mapsto> overwrite i (take k (drop j c)) c)\<rparr>)"
proof (cases k)
  case 0
  then show ?thesis using assms(1)
    by (simp add: memmove_def load_def store_def overwrite_def fun_upd_idem)
next
  case (Suc n)
  then show ?thesis using assms by (simp add: memmove_def load_def store_def)
qed

lemma insert_bytes:
  assumes "off + len + n \<le> length c" "length bs = n" "p \<le> len"
  shows "take (len + n) (drop off (overwrite (off + p) bs
             (overwrite (off + p + n) (take (len - p) (drop (off + p) c)) c)))
       = take p (take len (drop off c)) @ bs @ drop p (take len (drop off c))" (is "?l = ?r")
proof (rule nth_equalityI)
  let ?c1 = "overwrite (off + p + n) (take (len - p) (drop (off + p) c)) c"
  have l1: "length ?c1 = length c" using assms by simp
  have l2: "length (overwrite (off + p) bs ?c1) = length c" using assms l1 by simp
  then have ll: "length ?l = len + n" using assms by simp
  have "length (take len (drop off c)) = len" using assms by simp
  then show "length ?l = length ?r" using ll assms by simp
  fix i assume "i < length ?l"
  then have i: "i < len + n" using ll by simp
  have "?l ! i = (if p \<le> i \<and> i < p + n then bs ! (i - p) else ?c1 ! (off + i))"
    using assms i l1 by (subst nth_take [OF i]) (simp add: nth_overwrite)
  moreover have "?c1 ! (off + i) = (if p + n \<le> i then c ! (off + i - n) else c ! (off + i))"
    using assms i by (subst nth_overwrite) (auto simp: add.commute add.left_commute)
  moreover have "?r ! i = (if i < p then c ! (off + i) else if i < p + n then bs ! (i - p) else c ! (off + i - n))"
    using assms i by (auto simp: nth_append)
  ultimately show "?l ! i = ?r ! i" by auto
qed

lemma insert_bloc_spec:
  assumes ok: "mb_ok mb h" and src: "source_ok src (unat n) bs mb h" and n: "n \<noteq> 0"
    and small: "unat (m_uiLen mb) + unat n + 1048576 < 2 ^ 32" and p: "p \<le> m_uiLen mb"
  shows "writes mb h (take (unat p) (contents mb h) @ bs @ drop (unat p) (contents mb h)) (insert_bloc src n p mb h)"
proof -
  define need where "need = m_uiLen mb + n"
  have un: "unat need = unat (m_uiLen mb) + unat n"
    unfolding need_def by (rule unat_add_lem [THEN iffD1]) (use small in simp)
  have need: "m_uiLen mb \<le> need" "unat need + 1048576 < 2 ^ 32" "need \<noteq> 0"
  proof -
    show "m_uiLen mb \<le> need" using un by (simp add: word_le_nat_alt)
    show "unat need + 1048576 < 2 ^ 32" using un small by simp
    have "unat n \<noteq> 0" using n by (simp add: unat_eq_zero)
    then show "need \<noteq> 0" using un by (metis add_is_0 unat_0)
  qed
  obtain mb' h' b off c where r: "make_room need mb h = Some (mb', h')" "mb_ok mb' h'"
      "m_pBuf mb' = Some (b, off)" "blocks h' b = Some c" "off + unat (m_uiLenBuf mb') \<le> length c"
      "b < next_id h'" "fresh_ids h'" "m_bOwner mb' \<longrightarrow> off = 0"
      "need \<le> m_uiLenBuf mb'" "m_uiLen mb' = m_uiLen mb" "m_uiPos mb' = m_uiPos mb"
      "m_bOwner mb' = m_bOwner mb" "take (unat (m_uiLen mb)) (drop off c) = contents mb h"
      "frame mb h h'" "\<forall>x < next_id h. map_option fst (m_pBuf mb) \<noteq> Some x \<longrightarrow> b \<noteq> x"
    using make_room_spec [OF ok need] by blast
  have fit: "off + unat (m_uiLen mb) + unat n \<le> length c" using r(5,9) un by (simp add: word_le_nat_alt)
  have fh: "fresh_ids h" using ok by (simp add: mb_ok_def)
  have lb: "length bs = unat n" using src by (simp add: source_ok_def)
  have up: "unat p \<le> unat (m_uiLen mb)" "unat (m_uiLen mb - p) = unat (m_uiLen mb) - unat p"
    using p by (simp_all add: word_le_nat_alt unat_sub)
  define c1 where "c1 = overwrite (off + unat p + unat n) (take (unat (m_uiLen mb) - unat p) (drop (off + unat p) c)) c"
  define h1 where "h1 = h'\<lparr>blocks := (blocks h')(b \<mapsto> c1)\<rparr>"
  have c1: "length c1 = length c" using fit up by (simp add: c1_def)
  have mv: "memmove (Some (b, off + (unat p + unat n))) (Some (b, off + unat p)) (unat (m_uiLen mb) - unat p) h' = Some h1"
    using memmove_block [OF r(4), of "off + unat p + unat n" "unat (m_uiLen mb) - unat p" "off + unat p"] fit up
    by (simp add: h1_def c1_def add.assoc)
  have f1: "frame mb h h1" unfolding h1_def by (rule frame_write [OF r(14,15)])
  have b1: "blocks h1 b = Some c1" by (simp add: h1_def)
  have cp: "memcpy (Some (b, off + unat p)) src (unat n) h1
      = Some (h'\<lparr>blocks := (blocks h')(b \<mapsto> overwrite (off + unat p) bs c1)\<rparr>)"
    using memcpy_source [OF src f1 fh r(15) b1, of "off + unat p"] fit up n c1
    by (simp add: unat_eq_zero h1_def)
  have "insert_bloc src n p mb h = Some (mb'\<lparr>m_uiLen := need\<rparr>,
      h'\<lparr>blocks := (blocks h')(b \<mapsto> overwrite (off + unat p) bs c1)\<rparr>)"
    using r(1) mv cp by (simp add: insert_bloc_def make_room_def need_def Let_def r(3,10) ptr_add_def up)
  moreover have "take (unat need) (drop off (overwrite (off + unat p) bs c1))
      = take (unat p) (contents mb h) @ bs @ drop (unat p) (contents mb h)"
    using insert_bytes [OF fit lb up(1)] by (simp add: c1_def un r(13))
  moreover have "length (overwrite (off + unat p) bs c1) = length c" using c1 fit lb up by simp
  ultimately show ?thesis
    using r writesI [OF r(14,15) r(3) r(6,7,8), of "overwrite (off + unat p) bs c1" need
        "take (unat p) (contents mb h) @ bs @ drop (unat p) (contents mb h)"]
    by simp
qed

text \<open>What is left to read.\<close>

definition pending :: "membuf \<Rightarrow> heap \<Rightarrow> byte list" where
  "pending mb h = drop (unat (m_uiPos mb)) (contents mb h)"

lemma get_bloc_spec:
  assumes ok: "mb_ok mb h" and pos: "m_uiPos mb \<le> m_uiLen mb"
  shows "get_bloc n mb h =
     (if length (pending mb h) < unat n then Some (1, [], mb)
      else Some (0, take (unat n) (pending mb h), mb\<lparr>m_uiPos := m_uiPos mb + n\<rparr>))"
proof -
  have lp: "length (pending mb h) = unat (m_uiLen mb) - unat (m_uiPos mb)"
    using contents_length [OF ok] by (simp add: pending_def)
  have d: "m_uiLen mb - m_uiPos mb < n \<longleftrightarrow> length (pending mb h) < unat n"
    using pos lp by (simp add: word_less_nat_alt unat_sub)
  show ?thesis
  proof (cases "length (pending mb h) < unat n \<or> unat n = 0")
    case True
    then show ?thesis using d by (auto simp: get_bloc_def load_def)
  next
    case False
    then have n: "unat n \<noteq> 0" "unat n \<le> unat (m_uiLen mb) - unat (m_uiPos mb)" using lp by auto
    show ?thesis using ok
    proof (cases rule: mb_ok_cases)
      case (block b off c)
      have t: "take (unat n) (drop (unat (m_uiPos mb)) (take (unat (m_uiLen mb)) (drop off c)))
          = take (unat n) (drop (off + unat (m_uiPos mb)) c)"
        using n by (simp add: drop_take min_def add.commute)
      show ?thesis using d False n block t
        by (simp add: get_bloc_def load_def ptr_add_def pending_def)
    qed (use n in simp)
  qed
qed

section \<open>A buffer as a queue of bytes\<close>

text \<open>
  What streaming relies on: bytes go in at the end and come out at the front, as long as there is
  room. The clients write and read sequences of blocks.
\<close>

locale byte_fifo =
  fixes put :: "byte list \<Rightarrow> 's \<Rightarrow> 's option"
    and get :: "nat \<Rightarrow> 's \<Rightarrow> (byte list \<times> 's) option"
    and waiting :: "'s \<Rightarrow> byte list"
    and room :: "nat \<Rightarrow> 's \<Rightarrow> bool"
    and inv :: "'s \<Rightarrow> bool"
  assumes put_ok: "inv s \<Longrightarrow> room (length bs) s \<Longrightarrow>
      \<exists>s'. put bs s = Some s' \<and> inv s' \<and> waiting s' = waiting s @ bs
         \<and> (\<forall>k. room (length bs + k) s \<longrightarrow> room k s')"
    and get_ok: "inv s \<Longrightarrow> n \<le> length (waiting s) \<Longrightarrow>
      \<exists>s'. get n s = Some (take n (waiting s), s') \<and> inv s' \<and> waiting s' = drop n (waiting s)"
    and room_less: "room k s \<Longrightarrow> j \<le> k \<Longrightarrow> room j s"
begin

fun put_all :: "byte list list \<Rightarrow> 's \<Rightarrow> 's option" where
  "put_all [] s = Some s"
| "put_all (bs # bss) s = do {s \<leftarrow> put bs s; put_all bss s}"

fun get_all :: "nat list \<Rightarrow> 's \<Rightarrow> (byte list list \<times> 's) option" where
  "get_all [] s = Some ([], s)"
| "get_all (n # ns) s = do {(bs, s) \<leftarrow> get n s; (bss, s) \<leftarrow> get_all ns s; Some (bs # bss, s)}"

lemma put_all_ok:
  assumes "inv s" "room (length (concat bss)) s"
  shows "\<exists>s'. put_all bss s = Some s' \<and> inv s' \<and> waiting s' = waiting s @ concat bss"
  using assms
proof (induction bss arbitrary: s)
  case Nil
  then show ?case by simp
next
  case (Cons bs bss)
  have "room (length bs) s" using Cons.prems(2) by (rule room_less) simp
  from put_ok [OF Cons.prems(1) this] obtain s1 where 1: "put bs s = Some s1" "inv s1"
    "waiting s1 = waiting s @ bs" "room (length (concat bss)) s1"
    using Cons.prems(2) by auto
  from Cons.IH [OF 1(2,4)] show ?case using 1 by auto
qed

lemma get_all_ok:
  assumes "inv s" "waiting s = concat bss @ rest"
  shows "\<exists>s'. get_all (map length bss) s = Some (bss, s') \<and> inv s' \<and> waiting s' = rest"
  using assms
proof (induction bss arbitrary: s)
  case Nil
  then show ?case by simp
next
  case (Cons bs bss)
  have "length bs \<le> length (waiting s)" using Cons.prems(2) by simp
  from get_ok [OF Cons.prems(1) this] obtain s1 where 1: "get (length bs) s = Some (bs, s1)" "inv s1"
    "waiting s1 = concat bss @ rest"
    using Cons.prems(2) by auto
  from Cons.IH [OF 1(2,3)] show ?case using 1 by auto
qed

lemma put_get_all:
  assumes "inv s" "room (length (concat bss)) s" "waiting s = []"
  shows "\<exists>s' s''. put_all bss s = Some s' \<and> get_all (map length bss) s' = Some (bss, s'') \<and> waiting s'' = []"
proof -
  from put_all_ok [OF assms(1,2)] assms(3) obtain s' where s':
    "put_all bss s = Some s'" "inv s'" "waiting s' = concat bss @ []" by auto
  from get_all_ok [OF s'(2,3)] s'(1) show ?thesis by blast
qed

end

definition mb_put :: "byte list \<Rightarrow> membuf \<times> heap \<Rightarrow> (membuf \<times> heap) option" where
  "mb_put bs s = put_bloc (Bytes bs) (word_of_nat (length bs)) (fst s) (snd s)"

definition mb_get :: "nat \<Rightarrow> membuf \<times> heap \<Rightarrow> (byte list \<times> membuf \<times> heap) option" where
  "mb_get n s =
     (case get_bloc (word_of_nat n) (fst s) (snd s) of
        Some (rc, bs, mb) \<Rightarrow> if rc = 0 then Some (bs, mb, snd s) else None
      | None \<Rightarrow> None)"

definition mb_room :: "nat \<Rightarrow> membuf \<times> heap \<Rightarrow> bool" where
  "mb_room k s \<longleftrightarrow> unat (m_uiLen (fst s)) + k + 1048576 < 2 ^ 32"

definition mb_inv :: "membuf \<times> heap \<Rightarrow> bool" where
  "mb_inv s \<longleftrightarrow> mb_ok (fst s) (snd s) \<and> m_uiPos (fst s) \<le> m_uiLen (fst s)"

lemma unat_of_nat32: "n < 2 ^ 32 \<Longrightarrow> unat (word_of_nat n :: u32) = n"
  by (simp add: unat_of_nat take_bit_nat_eq_self)

lemma put_bytes_spec:
  assumes "mb_ok mb h" "unat (m_uiLen mb) + length bs + 1048576 < 2 ^ 32"
  shows "writes mb h (contents mb h @ bs) (put_bloc (Bytes bs) (word_of_nat (length bs)) mb h)"
proof -
  have u: "unat (word_of_nat (length bs) :: u32) = length bs" using assms(2) by (intro unat_of_nat32) simp
  show ?thesis using assms by (intro put_bloc_spec) (simp_all add: u source_ok_def)
qed

interpretation mbq: byte_fifo mb_put mb_get "\<lambda>s. pending (fst s) (snd s)" mb_room mb_inv
proof
  fix s :: "membuf \<times> heap" and bs :: "byte list" and n k j :: nat
  show "mb_room k s \<Longrightarrow> j \<le> k \<Longrightarrow> mb_room j s" by (simp add: mb_room_def)
  show "\<exists>s'. mb_put bs s = Some s' \<and> mb_inv s' \<and> pending (fst s') (snd s') = pending (fst s) (snd s) @ bs
         \<and> (\<forall>k. mb_room (length bs + k) s \<longrightarrow> mb_room k s')"
    if i: "mb_inv s" and r: "mb_room (length bs) s"
  proof -
    obtain mb h where s: "s = (mb, h)" by (cases s)
    have ok: "mb_ok mb h" "m_uiPos mb \<le> m_uiLen mb" using i by (simp_all add: s mb_inv_def)
    have "unat (m_uiLen mb) + length bs + 1048576 < 2 ^ 32" using r by (simp add: s mb_room_def)
    from put_bytes_spec [OF ok(1) this] obtain mb' h' where w:
      "put_bloc (Bytes bs) (word_of_nat (length bs)) mb h = Some (mb', h')" "mb_ok mb' h'"
      "contents mb' h' = contents mb h @ bs" "m_uiPos mb' = m_uiPos mb"
      by (auto simp: writes_def)
    have l: "unat (m_uiLen mb') = unat (m_uiLen mb) + length bs"
      using contents_length [OF w(2)] contents_length [OF ok(1)] w(3) by simp
    have p: "unat (m_uiPos mb) \<le> length (contents mb h)"
      using ok contents_length [OF ok(1)] by (simp add: word_le_nat_alt)
    show ?thesis
      by (rule exI [of _ "(mb', h')"])
        (use w l p ok in \<open>simp add: s mb_put_def mb_inv_def pending_def mb_room_def word_le_nat_alt\<close>)
  qed
  show "\<exists>s'. mb_get n s = Some (take n (pending (fst s) (snd s)), s') \<and> mb_inv s'
         \<and> pending (fst s') (snd s') = drop n (pending (fst s) (snd s))"
    if i: "mb_inv s" and n: "n \<le> length (pending (fst s) (snd s))"
  proof -
    obtain mb h where s: "s = (mb, h)" by (cases s)
    have ok: "mb_ok mb h" "m_uiPos mb \<le> m_uiLen mb" using i by (simp_all add: s mb_inv_def)
    have lp: "length (pending mb h) = unat (m_uiLen mb) - unat (m_uiPos mb)"
      using contents_length [OF ok(1)] by (simp add: pending_def)
    have n32: "unat (word_of_nat n :: u32) = n"
      using n lp unsigned_less [of "m_uiLen mb", where 'a = nat] by (intro unat_of_nat32) (simp add: s)
    let ?mb = "mb\<lparr>m_uiPos := m_uiPos mb + word_of_nat n\<rparr>"
    have g: "get_bloc (word_of_nat n) mb h = Some (0, take n (pending mb h), ?mb)"
      using get_bloc_spec [OF ok, of "word_of_nat n"] n by (simp add: n32 s)
    have "unat (m_uiPos mb) + n \<le> unat (m_uiLen mb)" using n lp ok(2) by (simp add: s word_le_nat_alt)
    moreover from this have "unat (m_uiPos mb + word_of_nat n) = unat (m_uiPos mb) + n"
      using unsigned_less [of "m_uiLen mb", where 'a = nat] by (subst unat_add_lem [THEN iffD1]) (simp_all add: n32)
    moreover have "mb_ok ?mb h" "contents ?mb h = contents mb h" using ok(1) by (simp_all add: mb_ok_def contents_def)
    ultimately show ?thesis
      by (intro exI [of _ "(?mb, h)"]) (simp add: s mb_get_def g mb_inv_def pending_def word_le_nat_alt add.commute)
  qed
qed

text \<open>A sequence of scalars, each with the size of its type.\<close>

fun put_scalars :: "(nat \<times> u64) list \<Rightarrow> membuf \<Rightarrow> heap \<Rightarrow> (membuf \<times> heap) option" where
  "put_scalars [] mb h = Some (mb, h)"
| "put_scalars ((n, v) # xs) mb h = do {(mb, h) \<leftarrow> put_scalar n v mb h; put_scalars xs mb h}"

fun get_scalars :: "nat list \<Rightarrow> membuf \<Rightarrow> heap \<Rightarrow> (u64 list \<times> membuf) option" where
  "get_scalars [] mb h = Some ([], mb)"
| "get_scalars (n # ns) mb h =
     do {(v, mb) \<leftarrow> get_scalar n 0 mb h; (vs, mb) \<leftarrow> get_scalars ns mb h; Some (v # vs, mb)}"

lemma le_join_split_take:
  assumes "8 * n \<le> LENGTH('a::len)"
  shows "le_join (le_split n w) = (take_bit (8 * n) w :: 'a word)"
proof (rule bit_word_eqI)
  fix k assume k: "k < LENGTH('a)"
  have "k div 8 < n \<longleftrightarrow> k < 8 * n" by (simp add: less_mult_imp_div_less mult.commute div_less_iff_less_mult)
  then show "bit (le_join (le_split n w) :: 'a word) k = bit (take_bit (8 * n) w) k"
    using k by (auto simp: bit_le_join bit_nth_le_split bit_simps)
qed

lemma put_scalars_all:
  "put_scalars xs mb h = mbq.put_all (map (\<lambda>(n, v). le_split n v) xs) (mb, h)"
proof (induction xs mb h rule: put_scalars.induct)
  case (2 n v xs mb h)
  have "mb_put (le_split n v) (mb, h) = put_scalar n v mb h" by (simp add: mb_put_def put_scalar_def)
  then show ?case using 2 by (cases "put_scalar n v mb h") auto
qed simp

lemma get_scalars_all:
  "mbq.get_all ns (mb, h) = Some (bss, s) \<Longrightarrow> get_scalars ns mb h = Some (map le_join bss, fst s) \<and> snd s = h"
proof (induction ns arbitrary: mb bss s)
  case Nil
  then show ?case by auto
next
  case (Cons n ns)
  from Cons.prems obtain bs s1 bss' where 1: "mb_get n (mb, h) = Some (bs, s1)"
    "mbq.get_all ns s1 = Some (bss', s)" "bss = bs # bss'"
    by (auto split: Option.bind_splits)
  then obtain mb1 where g: "get_bloc (word_of_nat n) mb h = Some (0, bs, mb1)" "s1 = (mb1, h)"
    by (auto simp: mb_get_def split: option.splits if_splits)
  then have "get_scalar n 0 mb h = Some (le_join bs, mb1)" by (simp add: get_scalar_def)
  moreover have "get_scalars ns mb1 h = Some (map le_join bss', fst s) \<and> snd s = h"
    using Cons.IH [of mb1 bss' s] 1(2) g(2) by simp
  ultimately show ?case using 1(3) by simp
qed

text \<open>
  C34: streaming round trip. Scalars of one to eight bytes written to a buffer with \<open>operator<<\<close>, in
  any number and mix of sizes, are read back by \<open>operator>>\<close> in the same order, as long as nothing was
  left unread before and the total stays a megabyte away from \<open>2^32\<close>; nothing is left to read afterwards.
\<close>

theorem membuf_scalar_roundtrip:
  assumes "mb_ok mb h" "m_uiPos mb = m_uiLen mb"
    and "\<forall>(n, v) \<in> set xs. n \<le> 8 \<and> take_bit (8 * n) v = v"
    and "unat (m_uiLen mb) + sum_list (map fst xs) + 1048576 < 2 ^ 32"
  shows "\<exists>mb' h' mb''. put_scalars xs mb h = Some (mb', h')
           \<and> get_scalars (map fst xs) mb' h' = Some (map snd xs, mb'') \<and> pending mb'' h' = []"
proof -
  let ?bss = "map (\<lambda>(n, v). le_split n v) xs"
  have i: "mb_inv (mb, h)" using assms(1,2) by (simp add: mb_inv_def)
  have lens: "map length ?bss = map fst xs" by auto
  have "length (concat ?bss) = sum_list (map fst xs)" by (simp only: length_concat lens)
  then have r: "mb_room (length (concat ?bss)) (mb, h)" using assms(4) by (simp add: mb_room_def)
  have "pending mb h = []" using assms(2) contents_length [OF assms(1)] by (simp add: pending_def)
  then obtain s' s'' where s: "mbq.put_all ?bss (mb, h) = Some s'"
    "mbq.get_all (map length ?bss) s' = Some (?bss, s'')" "pending (fst s'') (snd s'') = []"
    using mbq.put_get_all [OF i r] by auto
  obtain mb' h' where s': "s' = (mb', h')" by (cases s')
  have g: "get_scalars (map fst xs) mb' h' = Some (map le_join ?bss, fst s'') \<and> snd s'' = h'"
    using s(2) unfolding s' lens by (rule get_scalars_all)
  have "map le_join ?bss = map snd xs" using assms(3) by (auto simp: le_join_split_take)
  then show ?thesis using s s' g put_scalars_all [of xs mb h] by auto
qed

definition heap0 :: heap where
  "heap0 = \<lparr>blocks = (\<lambda>_. None), next_id = 0, junk = (\<lambda>_. 0xCD)\<rparr>"

definition mb0 :: membuf where
  "mb0 = \<lparr>m_uiLenBuf = 0, m_uiLen = 0, m_uiPos = 0, m_pBuf = None, m_bOwner = True\<rparr>"

lemma mb0_ok: "mb_ok mb0 heap0"
  by (simp add: mb_ok_def mb0_def heap0_def fresh_ids_def)

theorem membuf_scalar_roundtrip_witness:
  "\<exists>mb' h' mb''. put_scalars [(2, 0x1234), (1, 0xFF), (8, 0x0102030405060708), (4, 7)] mb0 heap0 = Some (mb', h')
     \<and> get_scalars [2, 1, 8, 4] mb' h' = Some ([0x1234, 0xFF, 0x0102030405060708, 7], mb'') \<and> pending mb'' h' = []"
proof -
  have f: "\<forall>(n, v) \<in> set [(2, 0x1234), (1, 0xFF), (8, 0x0102030405060708), (4, 7 :: u64)]. n \<le> 8 \<and> take_bit (8 * n) v = v"
    by code_simp
  show ?thesis
    using membuf_scalar_roundtrip [OF mb0_ok _ f] by (simp add: mb0_def)
qed

section \<open>What the buffer promises\<close>

text \<open>
  C33: writing. On a well-formed buffer, with the new length a megabyte away from \<open>2^32\<close> and a source that
  is outside of the heap or in a live block other than the buffer's, \<open>put_bloc\<close> appends the bytes and
  \<open>insert_bloc\<close> puts them at the position, whatever the capacity was: the access is defined, the buffer
  stays well-formed, the read position and ownership are kept, and no block of another object changes.
\<close>

theorem membuf_writes:
  assumes "mb_ok mb h" "source_ok src (unat n) bs mb h"
    and "unat (m_uiLen mb) + unat n + 1048576 < 2 ^ 32" "p \<le> m_uiLen mb" "n \<noteq> 0"
  shows "writes mb h (contents mb h @ bs) (put_bloc src n mb h)
     \<and> writes mb h (take (unat p) (contents mb h) @ bs @ drop (unat p) (contents mb h)) (insert_bloc src n p mb h)"
  using put_bloc_spec insert_bloc_spec assms by blast

theorem membuf_writes_witness:
  "\<exists>mb h. writes mb0 heap0 [1, 2, 3] (Some (mb, h)) \<and> writes mb h [1, 9, 9, 2, 3] (insert_bloc (Bytes [9, 9]) 2 1 mb h)"
proof -
  have "writes mb0 heap0 [1, 2, 3] (put_bloc (Bytes [1, 2, 3]) 3 mb0 heap0)"
    using membuf_writes [OF mb0_ok, of "Bytes [1, 2, 3]" 3 "[1, 2, 3]" 0]
    by (simp add: source_ok_def mb0_def contents_def load_def)
  moreover from this obtain mb h where w: "put_bloc (Bytes [1, 2, 3]) 3 mb0 heap0 = Some (mb, h)" "mb_ok mb h"
    "contents mb h = [1, 2, 3]" by (auto simp: writes_def)
  have l: "unat (m_uiLen mb) = 3" using contents_length [OF w(2)] w(3) by simp
  have "writes mb h [1, 9, 9, 2, 3] (insert_bloc (Bytes [9, 9]) 2 1 mb h)"
    using membuf_writes [OF w(2), of "Bytes [9, 9]" 2 "[9, 9]" 1] l w(3)
    by (simp add: source_ok_def word_le_nat_alt)
  ultimately show ?thesis using w by metis
qed

text \<open>Strings.\<close>

lemma get_string_spec:
  assumes ok: "mb_ok mb h" and p: "pending mb h = s @ 0 # rest" and s: "0 \<notin> set s"
  shows "get_string str mb h = Some (str @ s, mb)"
  using ok
proof (cases rule: mb_ok_cases)
  case unused
  then show ?thesis using p by (simp add: pending_def)
next
  case (block b off c)
  let ?i = "off + unat (m_uiPos mb)"
  have "drop (unat (m_uiPos mb)) (take (unat (m_uiLen mb)) (drop off c)) = s @ 0 # rest"
    using p block by (simp add: pending_def)
  then have "take (unat (m_uiLen mb) - unat (m_uiPos mb)) (drop ?i c) = s @ 0 # rest"
    by (simp add: drop_take add.commute)
  then obtain tail where t: "drop ?i c = s @ 0 # tail"
    by (metis append_Cons append_assoc append_take_drop_id)
  have "takeWhile (\<lambda>x. x \<noteq> 0) (s @ 0 # tail) = s"
    using s by (subst takeWhile_append2) auto
  then have "strlen_at (Some (b, ?i)) h = Some (length s)" by (simp add: strlen_at_def block t)
  moreover have "load (Some (b, ?i)) (length s) h = Some s"
  proof (cases "s = []")
    case False
    have "?i + length s \<le> length c" using arg_cong [OF t, of length] by simp
    then show ?thesis using False by (simp add: load_def block t)
  qed (simp add: load_def)
  ultimately show ?thesis by (simp add: get_string_def block ptr_add_def)
qed

text \<open>
  Strings are not consumed. \<open>operator>>\<close> for \<open>std::string\<close> appends the string at the read position to its
  argument and leaves the position where it is, so a second extraction yields the first string again
  and what follows the string is never reached: two strings written do not come back.
\<close>

theorem membuf_strings_not_consumed:
  assumes "mb_ok mb h" "contents mb h = []" "m_uiPos mb = 0" "0 \<notin> set s" "0 \<notin> set t"
    and "length s + length t + 1048578 < 2 ^ 32"
  shows "\<exists>mb1 h1 mb2 h2. put_string s mb h = Some (mb1, h1) \<and> put_string t mb1 h1 = Some (mb2, h2)
     \<and> pending mb2 h2 = s @ [0] @ t @ [0]
     \<and> get_string [] mb2 h2 = Some (s, mb2) \<and> get_string s mb2 h2 = Some (s @ s, mb2)"
proof -
  have l0: "unat (m_uiLen mb) = 0" using contents_length [OF assms(1)] assms(2) by simp
  have "unat (m_uiLen mb) + length (s @ [0]) + 1048576 < 2 ^ 32" using l0 assms(6) by simp
  from put_bytes_spec [OF assms(1) this] obtain mb1 h1 where 1: "put_string s mb h = Some (mb1, h1)" "mb_ok mb1 h1"
    "contents mb1 h1 = s @ [0]" "m_uiPos mb1 = 0"
    using assms(2,3) by (auto simp: writes_def put_string_def)
  have "unat (m_uiLen mb1) + length (t @ [0]) + 1048576 < 2 ^ 32"
    using contents_length [OF 1(2)] 1(3) assms(6) by simp
  from put_bytes_spec [OF 1(2) this] obtain mb2 h2 where 2: "put_string t mb1 h1 = Some (mb2, h2)" "mb_ok mb2 h2"
    "contents mb2 h2 = s @ [0] @ t @ [0]" "m_uiPos mb2 = 0"
    using 1 by (auto simp: writes_def put_string_def)
  have p: "pending mb2 h2 = s @ 0 # (t @ [0])" using 2 by (simp add: pending_def)
  show ?thesis
    using 1 2 p get_string_spec [OF 2(2) p assms(4)] by auto
qed

theorem membuf_strings_not_consumed_witness:
  "\<exists>mb1 h1 mb2 h2. put_string [65, 66] mb0 heap0 = Some (mb1, h1) \<and> put_string [67] mb1 h1 = Some (mb2, h2)
     \<and> pending mb2 h2 = [65, 66, 0, 67, 0]
     \<and> get_string [] mb2 h2 = Some ([65, 66], mb2) \<and> get_string [65, 66] mb2 h2 = Some ([65, 66, 65, 66], mb2)"
  using membuf_strings_not_consumed [OF mb0_ok, of "[65, 66]" "[67]"]
  by (simp add: contents_def load_def mb0_def)

section \<open>Copies, ownership and undefined uses\<close>

lemma contents_load: "mb_ok mb h \<Longrightarrow> load (m_pBuf mb) (unat (m_uiLen mb)) h = Some (contents mb h)"
  by (erule mb_ok_cases) (auto simp: load_def)

lemma get_crc_spec: "mb_ok mb h \<Longrightarrow> get_crc mb h = Some (crc32 (contents mb h))"
  by (simp add: get_crc_def contents_load crc_eq)

lemma copy_spec:
  assumes ok: "mb_ok buf h"
  shows "\<exists>c h'. MemBuf_copy buf h = Some (c, h') \<and> mb_ok c h' \<and> contents c h' = contents buf h
     \<and> m_uiPos c = 0 \<and> m_bOwner c \<and> (\<forall>b < next_id h. blocks h' b = blocks h b)
     \<and> (m_uiLen buf \<noteq> 0 \<longrightarrow> m_pBuf c = Some (next_id h, 0))"
proof (cases "m_uiLen buf = 0")
  case True
  moreover have "fresh_ids h" using ok by (simp add: mb_ok_def)
  ultimately show ?thesis using contents_length [OF ok]
    by (auto simp: MemBuf_copy_def mb_ok_def contents_def load_def)
next
  case False
  define n where "n = unat (m_uiLen buf)"
  define c0 where "c0 = map (junk h) [0..<n]"
  define h1 where "h1 = h\<lparr>blocks := (blocks h)(next_id h \<mapsto> c0), next_id := Suc (next_id h)\<rparr>"
  define c where "c = overwrite 0 (contents buf h) c0"
  define h' where "h' = h1\<lparr>blocks := (blocks h1)(next_id h \<mapsto> c)\<rparr>"
  define m where "m = \<lparr>m_uiLenBuf = m_uiLen buf, m_uiLen = m_uiLen buf, m_uiPos = 0, m_pBuf = Some (next_id h, 0), m_bOwner = True\<rparr>"
  have n: "n \<noteq> 0" "length (contents buf h) = n" "length c0 = n"
    using False contents_length [OF ok] by (simp_all add: n_def c0_def unat_eq_zero)
  have f: "fresh_ids h" using ok by (simp add: mb_ok_def)
  have "source_ok (At (m_pBuf buf)) n (contents buf h) mb0 h"
    using contents_load [OF ok] n by (auto simp: source_ok_def n_def mb0_def load_def split: option.splits)
  moreover have "frame mb0 h h1" by (simp add: frame_def h1_def)
  ultimately have cp: "memcpy (Some (next_id h, 0)) (At (m_pBuf buf)) n h1 = Some h'"
    using memcpy_source [of "At (m_pBuf buf)" n "contents buf h" mb0 h h1 "next_id h" c0 0] f n
    by (simp add: h1_def h'_def c_def)
  have "MemBuf_copy buf h = Some (m, h')"
    using False cp by (simp add: MemBuf_copy_def new_char_def n_def [symmetric] c0_def [symmetric] h1_def m_def)
  moreover have "fresh_ids h'" using f by (auto simp: fresh_ids_def h'_def h1_def)
  moreover from this have "mb_ok m h'"
    using n
    by (intro mb_ok_blockI [of _ "next_id h" 0 _ c]) (simp_all add: m_def h'_def h1_def c_def n_def)
  moreover have "contents m h' = contents buf h"
    using overwrite_read [of 0 "contents buf h" c0] n
    by (subst contents_block [of _ "next_id h" 0 _ c]) (simp_all add: m_def h'_def c_def n_def)
  ultimately show ?thesis
    by (intro exI [of _ m] exI [of _ h']) (simp add: m_def h'_def h1_def)
qed

lemma mb0_fields: "contents mb0 h = []" "m_uiLen mb0 = 0"
  by (simp_all add: mb0_def contents_def load_def)

text \<open>
  Copies. The copy constructor gives a well-formed buffer that owns a new block with the same bytes,
  is rewound, leaves every existing block as it was and compares equal to its source; writing to
  the copy afterwards leaves the source's bytes alone.
\<close>

theorem membuf_copy_independent:
  assumes "mb_ok buf h" "bs \<noteq> []" "unat (m_uiLen buf) + length bs + 1048576 < 2 ^ 32"
  shows "\<exists>c h' c' h''. MemBuf_copy buf h = Some (c, h') \<and> mb_ok c h' \<and> contents c h' = contents buf h
     \<and> m_uiPos c = 0 \<and> m_bOwner c \<and> equals c buf h' = Some True
     \<and> put_bloc (Bytes bs) (word_of_nat (length bs)) c h' = Some (c', h'')
     \<and> contents c' h'' = contents buf h @ bs \<and> contents buf h'' = contents buf h"
proof -
  from copy_spec [OF assms(1)] obtain c h' where c: "MemBuf_copy buf h = Some (c, h')" "mb_ok c h'"
    "contents c h' = contents buf h" "m_uiPos c = 0" "m_bOwner c"
    "\<forall>b < next_id h. blocks h' b = blocks h b" "m_uiLen buf \<noteq> 0 \<longrightarrow> m_pBuf c = Some (next_id h, 0)" by blast
  have lc: "m_uiLen c = m_uiLen buf"
    using contents_length [OF c(2)] contents_length [OF assms(1)] c(3) by (simp add: word_unat_eq_iff)
  have stay: "load (m_pBuf buf) (unat (m_uiLen buf)) g = load (m_pBuf buf) (unat (m_uiLen buf)) h"
    if "\<forall>b < next_id h. blocks g b = blocks h b" for g
    using assms(1) that
    by (cases rule: mb_ok_cases) (simp_all add: load_def)
  have e: "equals c buf h' = Some True"
    using contents_load [OF c(2)] contents_load [OF assms(1)] stay [OF c(6)] c(3) lc by (simp add: equals_def)
  have "unat (m_uiLen c) + length bs + 1048576 < 2 ^ 32" using assms(3) lc by simp
  from put_bytes_spec [OF c(2) this] obtain c' h'' where w:
    "put_bloc (Bytes bs) (word_of_nat (length bs)) c h' = Some (c', h'')" "contents c' h'' = contents buf h @ bs"
    "frame c h' h''" using c(3) by (auto simp: writes_def)
  have "contents buf h'' = contents buf h"
  proof (cases "m_uiLen buf = 0")
    case True
    then show ?thesis by (simp add: contents_def load_def)
  next
    case False
    have "next_id h < next_id h'"
      using c(2,7) False lc by (cases rule: mb_ok_cases) auto
    then have "blocks h'' b = blocks h b" if "b < next_id h" for b
    proof -
      have "map_option fst (m_pBuf c) \<noteq> Some b" "b < next_id h'" using c(7) False that \<open>next_id h < next_id h'\<close> by simp_all
      then have "blocks h'' b = blocks h' b" using w(3) unfolding frame_def by blast
      then show ?thesis using c(6) that by simp
    qed
    then have "load (m_pBuf buf) (unat (m_uiLen buf)) h'' = load (m_pBuf buf) (unat (m_uiLen buf)) h" by (intro stay) simp
    then show ?thesis by (simp only: contents_def)
  qed
  then show ?thesis using c w e by blast
qed

theorem membuf_copy_independent_witness:
  "\<exists>c h' c' h''. MemBuf_copy mb0 heap0 = Some (c, h') \<and> put_bloc (Bytes [7]) 1 c h' = Some (c', h'') \<and> contents c' h'' = [7]"
  using membuf_copy_independent [OF mb0_ok, of "[7]"] by (auto simp: mb0_fields)

text \<open>
  Ownership. After \<open>give_ownership\<close> to an empty buffer the giver's destructor frees nothing and the
  receiver's frees the block, unless nothing was in use: then the receiver takes a length of zero for
  the capacity and the block is never freed. A buffer that does not own its memory and has to grow
  gets a block of its own, but does not become its owner: its destructor leaves the block allocated.
\<close>

theorem membuf_ownership:
  assumes "mb_ok mb h" "m_pBuf mb = Some (b, 0)" "m_uiLenBuf mb \<noteq> 0"
    and "n \<noteq> 0" "length bs = unat n" "m_uiLenBuf mb < m_uiLen mb + n" "unat (m_uiLen mb) + unat n + 1048576 < 2 ^ 32"
  shows "(m_bOwner mb \<longrightarrow> (\<exists>giver receiver.
            give_ownership mb mb0 h = Some (0, giver, receiver, h) \<and> contents receiver h = contents mb h
            \<and> MemBuf_dtor giver h = Some h
            \<and> MemBuf_dtor receiver h = Some (if m_uiLen mb = 0 then h else h\<lparr>blocks := (blocks h)(b := None)\<rparr>)))
     \<and> (\<not> m_bOwner mb \<longrightarrow> (\<exists>mb' h'.
            put_bloc (Bytes bs) n mb h = Some (mb', h') \<and> m_pBuf mb' = Some (next_id h, 0)
            \<and> MemBuf_dtor mb' h' = Some h' \<and> blocks h' (next_id h) \<noteq> None))"
proof (intro conjI impI)
  assume o: "m_bOwner mb"
  have live: "blocks h b \<noteq> None" using assms(1-3) by (auto simp: mb_ok_def)
  let ?r = "\<lparr>m_uiLenBuf = m_uiLen mb, m_uiLen = m_uiLen mb, m_uiPos = 0, m_pBuf = m_pBuf mb, m_bOwner = True\<rparr>"
  have "give_ownership mb mb0 h = Some (0, set_owner False mb, ?r, h)"
    using o by (simp add: give_ownership_def attach_def reset_def mb0_def)
  moreover have "contents ?r h = contents mb h" by (simp add: contents_def)
  moreover have "MemBuf_dtor (set_owner False mb) h = Some h" by (simp add: MemBuf_dtor_def set_owner_def)
  moreover have "MemBuf_dtor ?r h = Some (if m_uiLen mb = 0 then h else h\<lparr>blocks := (blocks h)(b := None)\<rparr>)"
    using live assms(2) by (simp add: MemBuf_dtor_def delete_array_def)
  ultimately show "\<exists>giver receiver. give_ownership mb mb0 h = Some (0, giver, receiver, h)
      \<and> contents receiver h = contents mb h \<and> MemBuf_dtor giver h = Some h
      \<and> MemBuf_dtor receiver h = Some (if m_uiLen mb = 0 then h else h\<lparr>blocks := (blocks h)(b := None)\<rparr>)" by blast
next
  assume o: "\<not> m_bOwner mb"
  have src: "source_ok (Bytes bs) (unat n) bs mb h" using assms(5) by (simp add: source_ok_def)
  from put_bloc_spec [OF assms(1) src assms(7)] obtain mb' h' where w: "put_bloc (Bytes bs) n mb h = Some (mb', h')"
    "mb_ok mb' h'" "m_bOwner mb' = m_bOwner mb" "contents mb' h' = contents mb h @ bs" by (auto simp: writes_def)
  have un: "unat (m_uiLen mb + n) + 1048576 < 2 ^ 32"
    by (subst unat_add_lem [THEN iffD1]) (use assms(7) in simp_all)
  have "m_uiLen mb \<le> m_uiLenBuf mb" using assms(1) by (simp add: mb_ok_def)
  then have "m_uiLen mb \<le> margin_size (m_uiLen mb + n)" using margin_size_ge(1) [OF un] assms(6) by simp
  from realloc_spec [OF assms(1) this] have "m_pBuf mb' = Some (next_id h, 0)"
    using w(1) assms(6) by (auto simp: put_bloc_def Let_def realloc_with_margin_eq split: Option.bind_splits)
  moreover have "m_uiLenBuf mb' \<noteq> 0"
    using w(2,4) contents_length [OF w(2)] assms(4,5)
    by (cases rule: mb_ok_cases [OF w(2)]) (auto simp: unat_eq_zero)
  moreover from calculation have "blocks h' (next_id h) \<noteq> None" using w(2) by (auto simp: mb_ok_def)
  ultimately show "\<exists>mb' h'. put_bloc (Bytes bs) n mb h = Some (mb', h') \<and> m_pBuf mb' = Some (next_id h, 0)
      \<and> MemBuf_dtor mb' h' = Some h' \<and> blocks h' (next_id h) \<noteq> None"
    using w o by (intro exI [of _ mb'] exI [of _ h']) (simp add: MemBuf_dtor_def)
qed

definition demo_mb :: "bool \<Rightarrow> u32 \<Rightarrow> membuf" where
  "demo_mb own len = \<lparr>m_uiLenBuf = 4, m_uiLen = len, m_uiPos = 0, m_pBuf = Some (0, 0), m_bOwner = own\<rparr>"

definition demo_heap :: heap where
  "demo_heap = \<lparr>blocks = (\<lambda>b. if b = 0 then Some [1, 2, 3, 4] else None), next_id = 1, junk = (\<lambda>_. 0xCD)\<rparr>"

lemma demo_ok: "len \<le> 4 \<Longrightarrow> mb_ok (demo_mb own len) demo_heap"
  by (simp add: mb_ok_def demo_mb_def demo_heap_def fresh_ids_def)

theorem membuf_ownership_witness:
  "(\<exists>giver receiver. give_ownership (demo_mb True 0) mb0 demo_heap = Some (0, giver, receiver, demo_heap)
      \<and> MemBuf_dtor giver demo_heap = Some demo_heap \<and> MemBuf_dtor receiver demo_heap = Some demo_heap)
   \<and> (\<exists>mb' h'. put_bloc (Bytes [5, 6, 7, 8, 9]) 5 (demo_mb False 0) demo_heap = Some (mb', h')
      \<and> MemBuf_dtor mb' h' = Some h' \<and> blocks h' 1 \<noteq> None)"
proof
  show "\<exists>giver receiver. give_ownership (demo_mb True 0) mb0 demo_heap = Some (0, giver, receiver, demo_heap)
      \<and> MemBuf_dtor giver demo_heap = Some demo_heap \<and> MemBuf_dtor receiver demo_heap = Some demo_heap"
    using membuf_ownership [OF demo_ok, of 0 True 0 5 "[5, 6, 7, 8, 9]"] by (auto simp: demo_mb_def)
  show "\<exists>mb' h'. put_bloc (Bytes [5, 6, 7, 8, 9]) 5 (demo_mb False 0) demo_heap = Some (mb', h')
      \<and> MemBuf_dtor mb' h' = Some h' \<and> blocks h' 1 \<noteq> None"
    using membuf_ownership [OF demo_ok, of 0 False 0 5 "[5, 6, 7, 8, 9]"]
    by (simp add: demo_mb_def demo_heap_def) blast
qed

text \<open>
  Undefined uses. Appending a buffer to itself (\<open>mb << mb\<close>) when it has to grow reads the block that the
  reallocation has just deleted. And \<open>get_bloc\<close> compares with an unsigned difference: with the read position
  past the end (\<open>set_pos\<close> does not check) it does not fail but reads behind the bytes in use, whatever is there.
\<close>

theorem membuf_undefined_uses:
  assumes "mb_ok mb h" "m_uiLen mb < pos" "unat n + (unat pos - unat (m_uiLen mb)) \<le> 2 ^ 32"
  shows "(m_bOwner mb \<and> m_uiLen mb \<noteq> 0 \<and> unat (m_uiLenBuf mb) < 2 * unat (m_uiLen mb)
            \<and> 2 * unat (m_uiLen mb) + 1048576 < 2 ^ 32 \<longrightarrow> put_membuf mb mb h = None)
     \<and> get_bloc n (set_pos pos mb) h
         = map_option (\<lambda>bs. (0, bs, mb\<lparr>m_uiPos := pos + n\<rparr>)) (load (ptr_add (m_pBuf mb) (unat pos)) (unat n) h)"
proof (intro conjI impI)
  assume a: "m_bOwner mb \<and> m_uiLen mb \<noteq> 0 \<and> unat (m_uiLenBuf mb) < 2 * unat (m_uiLen mb)
            \<and> 2 * unat (m_uiLen mb) + 1048576 < 2 ^ 32"
  define need where "need = m_uiLen mb + m_uiLen mb"
  have un: "unat need = 2 * unat (m_uiLen mb)"
    unfolding need_def by (subst unat_add_lem [THEN iffD1]) (use a in simp_all)
  have big: "m_uiLenBuf mb < need" using a un by (simp add: word_less_nat_alt)
  have "m_uiLen mb \<le> need" using un by (simp add: word_le_nat_alt)
  moreover have "need \<le> margin_size need" using un a by (intro margin_size_ge) simp
  ultimately have "m_uiLen mb \<le> margin_size need" by simp
  from realloc_spec [OF assms(1) this] obtain h' where
    r: "realloc (margin_size need) mb h = Some (mb\<lparr>m_pBuf := Some (next_id h, 0), m_uiLenBuf := margin_size need\<rparr>, h')"
    "\<And>b off. m_pBuf mb = Some (b, off) \<Longrightarrow> m_uiLenBuf mb \<noteq> 0 \<Longrightarrow> blocks h' b = None"
    using a by auto
  have "m_uiLenBuf mb \<noteq> 0" using a assms(1) by (auto simp: mb_ok_def)
  then obtain b off where "m_pBuf mb = Some (b, off)" "blocks h' b = None"
    using assms(1) r(2) by (auto simp: mb_ok_def)
  moreover have "unat (m_uiLen mb) \<noteq> 0" using a by (simp add: unat_eq_zero)
  ultimately have "load (m_pBuf mb) (unat (m_uiLen mb)) h' = None" by (simp add: load_def)
  then have "memcpy p (At (m_pBuf mb)) (unat (m_uiLen mb)) h' = None" for p
    by (simp add: memcpy_def memmove_def)
  then show "put_membuf mb mb h = None"
    using r(1) big by (simp add: put_membuf_def put_bloc_def Let_def realloc_with_margin_eq flip: need_def)
next
  have "\<not> m_uiLen mb - pos < n"
    using assms(2,3) by (simp add: word_less_nat_alt unat_sub_if')
  then show "get_bloc n (set_pos pos mb) h
      = map_option (\<lambda>bs. (0, bs, mb\<lparr>m_uiPos := pos + n\<rparr>)) (load (ptr_add (m_pBuf mb) (unat pos)) (unat n) h)"
    by (cases "load (ptr_add (m_pBuf mb) (unat pos)) (unat n) h") (simp_all add: get_bloc_def set_pos_def)
qed

theorem membuf_undefined_uses_witness:
  "put_membuf (demo_mb True 3) (demo_mb True 3) demo_heap = None
   \<and> get_bloc 1 (set_pos 3 (demo_mb True 2)) demo_heap = Some (0, [4], (demo_mb True 2)\<lparr>m_uiPos := 4\<rparr>)"
proof
  show "put_membuf (demo_mb True 3) (demo_mb True 3) demo_heap = None"
    using membuf_undefined_uses [OF demo_ok, of 3 True 4 1] by (simp add: demo_mb_def)
  have "load (Some (0, 3)) 1 demo_heap = Some [4]" by (simp add: load_def demo_heap_def)
  then show "get_bloc 1 (set_pos 3 (demo_mb True 2)) demo_heap = Some (0, [4], (demo_mb True 2)\<lparr>m_uiPos := 4\<rparr>)"
    using membuf_undefined_uses [OF demo_ok, of 2 True 3 1] by (simp add: demo_mb_def ptr_add_def)
qed

end
