(* ===== verification/Binary64.thy ===== *)
theory Binary64
  imports Complex_Main
begin

text \<open>
  The \<open>double\<close> arithmetic that the time code uses: a value is a rational number, and the result of an
  operation is the exact result rounded to 53 significant bits, ties to even. Exponents stay far
  from the limits of the format in the code that is modelled, so neither overflow nor subnormal
  numbers are represented.
\<close>

fun floor_log2 :: "nat \<Rightarrow> nat" where
  "floor_log2 n = (if n < 2 then 0 else Suc (floor_log2 (n div 2)))"

declare floor_log2.simps [simp del]

definition exponent :: "rat \<Rightarrow> int" where
  "exponent x =
     (let (a, b) = quotient_of x;
          k = int (floor_log2 (nat a)) - int (floor_log2 (nat b))
      in if 2 powi k \<le> x then k else k - 1)"

definition round_half_even :: "rat \<Rightarrow> int" where
  "round_half_even y =
     (let f = \<lfloor>y\<rfloor>; r = y - of_int f
      in if r < 1/2 then f else if 1/2 < r then f + 1 else if even f then f else f + 1)"

definition rnd_pos :: "rat \<Rightarrow> rat" where
  "rnd_pos x = (let u = 2 powi (exponent x - 52) in of_int (round_half_even (x / u)) * u)"

definition rnd :: "rat \<Rightarrow> rat" where
  "rnd x = (if x = 0 then 0 else if x < 0 then - rnd_pos (- x) else rnd_pos x)"

text \<open>Conversion to an integer type drops the fraction.\<close>

definition trunc :: "rat \<Rightarrow> int" where
  "trunc x = (if x < 0 then - \<lfloor>- x\<rfloor> else \<lfloor>x\<rfloor>)"

lemma floor_log2_bounds: "0 < n \<Longrightarrow> 2 ^ floor_log2 n \<le> n \<and> n < 2 * 2 ^ floor_log2 n"
proof (induction n rule: floor_log2.induct)
  case (1 n)
  show ?case
  proof (cases "n < 2")
    case True
    then show ?thesis using 1 by (subst (1 2) floor_log2.simps) auto
  next
    case False
    then have "2 ^ floor_log2 (n div 2) \<le> n div 2 \<and> n div 2 < 2 * 2 ^ floor_log2 (n div 2)"
      using 1 by simp
    moreover have "floor_log2 n = Suc (floor_log2 (n div 2))" using False by (subst floor_log2.simps) simp
    moreover have "2 * (n div 2) \<le> n" "n < 2 * (n div 2) + 2" by simp_all
    ultimately show ?thesis by (simp only: power_Suc) linarith
  qed
qed

lemma rat_power_bounds:
  assumes "int (2 ^ i) \<le> a" "a < int (2 * 2 ^ i)"
  shows "(2 :: rat) ^ i \<le> of_int a" "of_int a < 2 * (2 :: rat) ^ i"
proof -
  have "of_int (int (2 ^ i)) \<le> (of_int a :: rat)" using assms(1) by (simp only: of_int_le_iff)
  then show "(2 :: rat) ^ i \<le> of_int a" by simp
  have "(of_int a :: rat) < of_int (int (2 * 2 ^ i))" using assms(2) by (simp only: of_int_less_iff)
  then show "of_int a < 2 * (2 :: rat) ^ i" by simp
qed

lemma exponent_bounds:
  assumes "0 < x" shows "2 powi exponent x \<le> x \<and> x < 2 * 2 powi exponent x"
proof -
  obtain a b where q: "quotient_of x = (a, b)" by (cases "quotient_of x")
  have b: "0 < b" using quotient_of_denom_pos [OF q] .
  have x: "x = of_int a / of_int b" using quotient_of_div [OF q] .
  have a: "0 < a" using assms b by (simp add: x zero_less_divide_iff)
  define i where "i = floor_log2 (nat a)"
  define j where "j = floor_log2 (nat b)"
  have "2 ^ i \<le> nat a" "nat a < 2 * 2 ^ i" using floor_log2_bounds [of "nat a"] a by (simp_all add: i_def)
  then have "int (2 ^ i) \<le> a" "a < int (2 * 2 ^ i)" using a by linarith+
  then have ia: "(2 :: rat) ^ i \<le> of_int a" "of_int a < 2 * (2 :: rat) ^ i"
    by (rule rat_power_bounds)+
  have "2 ^ j \<le> nat b" "nat b < 2 * 2 ^ j" using floor_log2_bounds [of "nat b"] b by (simp_all add: j_def)
  then have "int (2 ^ j) \<le> b" "b < int (2 * 2 ^ j)" using b by linarith+
  then have jb: "(2 :: rat) ^ j \<le> of_int b" "of_int b < 2 * (2 :: rat) ^ j"
    by (rule rat_power_bounds)+
  define k where "k = int i - int j"
  have pk: "(2 :: rat) powi k = 2 ^ i / 2 ^ j" by (simp add: k_def power_int_diff)
  have e: "exponent x = (if 2 powi k \<le> x then k else k - 1)"
    by (simp add: exponent_def q i_def j_def k_def)
  have upper: "x < 2 * 2 powi k"
  proof -
    have "x < (2 * 2 ^ i) / 2 ^ j"
      unfolding x using ia jb a b by (intro frac_less) auto
    then show ?thesis by (simp add: pk)
  qed
  have lower: "2 powi k < 2 * x"
  proof -
    have "2 ^ i / (2 * 2 ^ j) < x"
      unfolding x using ia jb a b by (intro frac_less2) auto
    then show ?thesis by (simp add: pk field_simps)
  qed
  show ?thesis
  proof (cases "2 powi k \<le> x")
    case True
    then show ?thesis using upper by (simp add: e)
  next
    case False
    have "(2 :: rat) * 2 powi (k - 1) = 2 powi k" by (simp add: power_int_diff)
    then show ?thesis using False lower by (simp add: e power_int_diff)
  qed
qed

lemma round_half_even_error: "\<bar>of_int (round_half_even y) - y\<bar> \<le> 1/2"
proof -
  have "of_int \<lfloor>y\<rfloor> \<le> y" "y < of_int \<lfloor>y\<rfloor> + 1" by (simp, linarith)
  then show ?thesis by (auto simp: round_half_even_def Let_def abs_le_iff)
qed

lemma round_half_even_int [simp]: "round_half_even (of_int n) = n"
  by (simp add: round_half_even_def)

lemma rnd_pos_error:
  assumes "0 < x" shows "\<bar>rnd_pos x - x\<bar> \<le> x / 2 ^ 53"
proof -
  define u where "u = (2 :: rat) powi (exponent x - 52)"
  have u: "0 < u" by (simp add: u_def)
  have "\<bar>of_int (round_half_even (x / u)) - x / u\<bar> * u \<le> 1/2 * u"
    using round_half_even_error u by (intro mult_right_mono) auto
  moreover have "\<bar>of_int (round_half_even (x / u)) - x / u\<bar> * u = \<bar>of_int (round_half_even (x / u)) * u - x\<bar>"
  proof -
    have "(of_int (round_half_even (x / u)) - x / u) * u = of_int (round_half_even (x / u)) * u - x"
      using u by (simp add: left_diff_distrib)
    moreover have "\<bar>z\<bar> * u = \<bar>z * u\<bar>" for z using u by (simp add: abs_mult)
    ultimately show ?thesis by simp
  qed
  moreover have "rnd_pos x = of_int (round_half_even (x / u)) * u" by (simp add: rnd_pos_def u_def Let_def)
  ultimately have "\<bar>rnd_pos x - x\<bar> \<le> u / 2" by linarith
  also have "u / 2 = 2 powi exponent x / 2 ^ 53"
    by (simp add: u_def power_int_diff)
  also have "\<dots> \<le> x / 2 ^ 53" using exponent_bounds [OF assms] by (intro divide_right_mono) auto
  finally show ?thesis .
qed

lemma rnd_error: "0 \<le> x \<Longrightarrow> \<bar>rnd x - x\<bar> \<le> x / 2 ^ 53"
  using rnd_pos_error [of x] by (auto simp: rnd_def)

text \<open>Below \<open>2 ^ 53\<close> the last place is at most one, so rounding does not cross an integer.\<close>

lemma last_place:
  assumes "0 < x" "x < 2 ^ 53" obtains m :: nat where "(2 :: rat) powi (exponent x - 52) = 1 / 2 ^ m"
proof -
  have "(2 :: rat) powi exponent x < 2 powi 53" using exponent_bounds [OF assms(1)] assms(2) by simp
  then have e: "exponent x \<le> 52"
    using power_int_increasing [of 53 "exponent x" "2 :: rat"] by (cases "53 \<le> exponent x") auto
  have "exponent x - 52 = - int (nat (52 - exponent x))" using e by simp
  then have "(2 :: rat) powi (exponent x - 52) = 1 / 2 ^ nat (52 - exponent x)"
    by (simp only: power_int_minus power_int_of_nat inverse_eq_divide)
  then show ?thesis by (rule that)
qed

lemma round_half_even_ge: "of_int n \<le> y \<Longrightarrow> n \<le> round_half_even y"
  by (simp add: round_half_even_def Let_def le_floor_iff) linarith

lemma round_half_even_le: "y \<le> of_int n \<Longrightarrow> round_half_even y \<le> n"
proof (cases "y = of_int n")
  case False
  assume "y \<le> of_int n"
  with False have "\<lfloor>y\<rfloor> < n" by (simp add: floor_less_iff)
  then show ?thesis by (auto simp: round_half_even_def Let_def)
qed simp

lemma rnd_between:
  assumes "0 < x" "x < 2 ^ 53"
  shows "of_int n \<le> x \<Longrightarrow> of_int n \<le> rnd x" and "x \<le> of_int n \<Longrightarrow> rnd x \<le> of_int n"
proof -
  obtain m where m: "(2 :: rat) powi (exponent x - 52) = 1 / 2 ^ m" by (rule last_place [OF assms])
  have r: "rnd x = of_int (round_half_even (x * 2 ^ m)) / 2 ^ m"
    using assms(1) by (simp add: rnd_def rnd_pos_def m)
  have s: "of_int (n * 2 ^ m) = (of_int n :: rat) * 2 ^ m" by simp
  show "of_int n \<le> rnd x" if "of_int n \<le> x"
  proof -
    have "of_int (n * 2 ^ m) \<le> x * 2 ^ m" unfolding s using that by (intro mult_right_mono) auto
    then have "n * 2 ^ m \<le> round_half_even (x * 2 ^ m)" by (rule round_half_even_ge)
    then have "(of_int (n * 2 ^ m) :: rat) \<le> of_int (round_half_even (x * 2 ^ m))" by (simp only: of_int_le_iff)
    then show ?thesis unfolding r by (simp add: field_simps)
  qed
  show "rnd x \<le> of_int n" if "x \<le> of_int n"
  proof -
    have "x * 2 ^ m \<le> of_int (n * 2 ^ m)" unfolding s using that by (intro mult_right_mono) auto
    then have "round_half_even (x * 2 ^ m) \<le> n * 2 ^ m" by (rule round_half_even_le)
    then have "(of_int (round_half_even (x * 2 ^ m)) :: rat) \<le> of_int (n * 2 ^ m)" by (simp only: of_int_le_iff)
    then show ?thesis unfolding r by (simp add: field_simps)
  qed
qed

lemma of_int_less_power: "n < 2 ^ 53 \<Longrightarrow> (of_int n :: rat) < 2 ^ 53"
proof -
  assume "n < 2 ^ 53"
  then have "(of_int n :: rat) < of_int (2 ^ 53)" by (simp only: of_int_less_iff)
  then show ?thesis by simp
qed

lemma rnd_int:
  assumes "0 \<le> n" "n < 2 ^ 53" shows "rnd (of_int n) = of_int n"
proof (cases "n = 0")
  case False
  then have "0 < (of_int n :: rat)" "(of_int n :: rat) < 2 ^ 53"
    using assms of_int_less_power [OF assms(2)] by simp_all
  from rnd_between [OF this, of n] show ?thesis by (simp add: order_antisym)
qed (simp add: rnd_def)

lemma trunc_int [simp]: "trunc (of_int n) = n"
  by (simp add: trunc_def flip: of_int_minus)

lemma trunc_nonneg: "0 \<le> x \<Longrightarrow> trunc x = \<lfloor>x\<rfloor>"
  by (simp add: trunc_def)

text \<open>A rounded quotient of integers keeps its integer part, as long as it is small against \<open>2 ^ 53\<close>.\<close>

lemma trunc_rnd_quotient:
  assumes "0 \<le> a" "0 < b" "a < 2 ^ 53"
  shows "trunc (rnd (of_int a / of_int b)) = a div b"
proof (cases "a = 0")
  case False
  let ?x = "of_int a / of_int b :: rat"
  define k where "k = a div b"
  have x0: "0 < ?x" using assms False by simp
  have a53: "(of_int a :: rat) < 2 ^ 53" by (rule of_int_less_power [OF assms(3)])
  have "?x \<le> of_int a" using assms by (simp add: field_simps mult_le_cancel_left1)
  then have x53: "?x < 2 ^ 53" using a53 by simp
  have q: "\<lfloor>?x\<rfloor> = k" by (simp add: k_def floor_divide_of_int_eq)
  then have lo: "of_int k \<le> ?x" by linarith
  have "a = b * k + a mod b" "a mod b \<le> b - 1" using assms(2) pos_mod_bound [of b a] by (simp_all add: k_def)
  then have "a \<le> b * k + (b - 1)" by linarith
  then have "(of_int a :: rat) \<le> of_int (b * k + (b - 1))" by (simp only: of_int_le_iff)
  then have hi: "?x \<le> of_int k + 1 - 1 / of_int b" using assms(2) by (simp add: field_simps)
  have small: "?x / 2 ^ 53 < 1 / of_int b" using a53 assms(2) by (simp add: field_simps)
  have "\<bar>rnd ?x - ?x\<bar> \<le> ?x / 2 ^ 53" using x0 by (intro rnd_error) simp
  then have "rnd ?x < of_int k + 1" using hi small by linarith
  moreover have l: "of_int k \<le> rnd ?x" by (rule rnd_between(1) [OF x0 x53 lo])
  ultimately have "\<lfloor>rnd ?x\<rfloor> = k" by linarith
  moreover have "0 \<le> rnd ?x"
  proof -
    have "0 \<le> k" using assms by (simp add: k_def pos_imp_zdiv_nonneg_iff)
    then have "0 \<le> (of_int k :: rat)" by simp
    with l show ?thesis by linarith
  qed
  ultimately show ?thesis by (simp add: trunc_nonneg k_def)
qed (simp add: rnd_def trunc_def)

lemma rnd_nonneg: "0 \<le> x \<Longrightarrow> 0 \<le> rnd x"
proof -
  assume x: "0 \<le> x"
  then have "x / 2 ^ 53 \<le> x" by simp
  then show ?thesis using rnd_error [OF x] by linarith
qed

lemma rnd_error_le: "0 \<le> x \<Longrightarrow> x \<le> b \<Longrightarrow> \<bar>rnd x - x\<bar> \<le> b / 2 ^ 53"
  using rnd_error [of x] divide_right_mono [of x b "2 ^ 53"] by simp

lemma exponent_unique:
  assumes "2 powi k \<le> x" "x < 2 powi (k + 1)" shows "exponent x = k"
proof -
  have "(0 :: rat) < 2 powi k" by simp
  then have "0 < x" using assms(1) by linarith
  note b = exponent_bounds [OF this]
  have a: "2 * 2 powi exponent x = (2 :: rat) powi (exponent x + 1)" by (simp add: power_int_add)
  have "\<not> exponent x + 1 \<le> k" using power_int_increasing [of "exponent x + 1" k "2 :: rat"] b assms(1) a by auto
  moreover have "\<not> k + 1 \<le> exponent x" using power_int_increasing [of "k + 1" "exponent x" "2 :: rat"] b assms(2) by auto
  ultimately show ?thesis by linarith
qed

text \<open>To evaluate a rounding: \<open>n\<close> is the significand and \<open>u\<close> the last place.\<close>

lemma rnd_eval:
  assumes "2 powi k \<le> x" "x < 2 powi (k + 1)" "u = 2 powi (k - 52)"
    "\<bar>x / u - of_int n\<bar> < 1 / 2"
  shows "rnd x = of_int n * u"
proof -
  have "(0 :: rat) < 2 powi k" by simp
  then have "0 < x" using assms(1) by linarith
  have f: "\<lfloor>x / u\<rfloor> = n \<or> \<lfloor>x / u\<rfloor> = n - 1" using assms(4) by linarith
  have "round_half_even (x / u) = n"
    using f
  proof
    assume e: "\<lfloor>x / u\<rfloor> = n"
    have "x / u - of_int n < 1 / 2" using assms(4) by linarith
    then show ?thesis by (simp only: round_half_even_def Let_def e if_True)
  next
    assume e: "\<lfloor>x / u\<rfloor> = n - 1"
    have "x / u - of_int (n - 1) > 1 / 2" using assms(4) unfolding of_int_diff by linarith
    moreover then have "\<not> x / u - of_int (n - 1) < 1 / 2" by (simp only: not_less order_less_imp_le)
    ultimately show ?thesis by (simp only: round_half_even_def Let_def e if_True if_False)
  qed
  then show ?thesis using \<open>0 < x\<close> by (simp add: rnd_def rnd_pos_def exponent_unique [OF assms(1,2)] flip: assms(3))
qed

end
