(* ===== verification/Calendar.thy ===== *)
theory Calendar
  imports Prelude Binary64 "HOL-Library.Signed_Division"
begin

text \<open>
  The calendar of \<open>src/time/Time.cpp\<close>: \<open>calc_julian_date\<close>, \<open>JJToDate\<close>, \<open>nb_days_in_month\<close> and \<open>nb_days_in_year\<close>.
  Years are \<open>int16\<close>, days numbers are \<open>long\<close>: nothing overflows for such years, so they are integers,
  with \<open>sdiv\<close> and \<open>smod\<close> for the division of the language, which truncates. Results that are stored in a
  narrower type are cut to it. The calendar is the French one: Julian up to 9 December 1582, Gregorian from
  20 December 1582.
\<close>

section \<open>The code\<close>

definition REF_YEAR :: int where "REF_YEAR = - 4712"

text \<open>Stores into an \<open>int16\<close> and a \<open>uint8\<close>.\<close>

definition int16 :: "int \<Rightarrow> int" where "int16 x = sint (word_of_int x :: 16 word)"

definition uint8 :: "int \<Rightarrow> int" where "uint8 x = x mod 256"

text \<open>The Julian day at noon and the difference of the calendars, \<open>*piDeltaDays\<close>.\<close>

definition calc_julian_date_delta :: "int \<Rightarrow> int \<Rightarrow> int \<Rightarrow> int \<times> int" where
  "calc_julian_date_delta iY iM iD =
     (let iYMod = iY smod 4;
          iYFromRef = iY - REF_YEAR;
          lNbDays = iYFromRef * 365 + (iYFromRef + 3) sdiv 4;
          flJulianLeap = (if iYMod = 0 then 1 else 0);
          flGregLeap = (iYMod = 0);
          iDeltaDays = (if iY > 1582 \<or> (iY = 1582 \<and> iM > 12) \<or> (iY = 1582 \<and> iM = 12 \<and> iD > 19) then 10 else 0);
          iDM = (if iY \<ge> 1700 then - ((iY - 1) sdiv 100) + (iY - 1) sdiv 400 + 12 else 0);
          flGregLeap = (if iY smod 400 \<noteq> 0 \<and> iY smod 100 = 0 then False else flGregLeap);
          iDeltaDays = iDeltaDays - iDM;
          lNbDays = (if iM \<le> 8 then lNbDays + (iM - 1) * 30 + iM sdiv 2
                     else lNbDays + (iM - 1) * 30 + (iM - 1) sdiv 2 + 1);
          (lNbDays, iDeltaDays) =
            (if iM \<ge> 3 \<and> flGregLeap then (lNbDays - 1, iDeltaDays)
             else if iM \<ge> 3 \<and> \<not> flGregLeap then (lNbDays + flJulianLeap - 2, iDeltaDays + flJulianLeap)
             else (lNbDays, iDeltaDays))
      in (lNbDays + iD - 1 - iDeltaDays, iDeltaDays))"

definition calc_julian_date :: "int \<Rightarrow> int \<Rightarrow> int \<Rightarrow> int" where
  "calc_julian_date iY iM iD = fst (calc_julian_date_delta iY iM iD)"

text \<open>
  The chain that finds the month, on \<open>iDJ\<close> and the values \<open>iMonth\<close> and \<open>iDM\<close> have before it; the result is
  \<open>iMonth\<close> and \<open>iDM\<close>.
\<close>

definition find_month :: "int \<Rightarrow> int \<Rightarrow> int \<Rightarrow> int \<times> int" where
  "find_month iDJ iMonth iDM =
     (if iDJ \<ge> 333 then (12, 333)
      else if iDJ \<ge> 303 then (11, 303)
      else if iDJ \<ge> 272 then (10, 272)
      else if iDJ \<ge> 242 then (9, 242)
      else if iDJ \<ge> 211 then (8, 211)
      else if iDJ \<ge> 180 then (7, 180)
      else if iDJ \<ge> 150 then (6, 150)
      else if iDJ \<ge> 119 then (5, 119)
      else if iDJ \<ge> 89 then (4, 89)
      else if iDJ \<ge> 58 \<and> iDM = 0 then (3, 58)
      else if iDJ \<ge> 30 \<and> iDM = 0 then (2, 30)
      else if iDM = 0 then (1, - 1)
      else (iMonth, iDM))"

text \<open>\<open>lJJ < 2299226.5\<close>, a comparison of an integer with a \<open>double\<close>.\<close>

definition before_reform :: "int \<Rightarrow> bool" where
  "before_reform lJJ \<longleftrightarrow> rat_of_int lJJ < 4598453 / 2"

definition JJToDate :: "int \<Rightarrow> int \<times> int \<times> int" where
  "JJToDate lJJ =
     (let iJulianYear = trunc (rnd (of_int lJJ / (1461 / 4)));
          iYear = iJulianYear + REF_YEAR;
          (lJJBegYear, iDeltaDays) = calc_julian_date_delta iYear 1 1;
          iDJ = lJJ - lJJBegYear;
          (iDJ, flLeap) =
            (if before_reform lJJ then (iDJ - iDeltaDays, iYear smod 4 = 0)
             else if iYear = 1582 then (iDJ + 10, False)
             else (iDJ, False));
          flLeap = (if \<not> flLeap then iYear smod 4 = 0 else flLeap);
          flLeap = (if \<not> before_reform lJJ \<and> iYear smod 100 = 0 \<and> iYear smod 400 \<noteq> 0 then False else flLeap);
          (iMonth, iDM) = (if flLeap \<and> iDJ = 59 then (2, 30) else (0, 0));
          iDJ = (if flLeap \<and> iDJ > 59 then iDJ - 1 else iDJ);
          iDJ = iDJ - 1;
          (iMonth, iDM) = find_month iDJ iMonth iDM;
          iDay = iDJ - iDM + 1;
          (iYear, iMonth, iDay) = (if iDJ > 333 \<and> iDay > 31 then (iYear + 1, 1, iDay - 31) else (iYear, iMonth, iDay))
      in (int16 iYear, uint8 iMonth, uint8 iDay))"

definition nb_days_in_month :: "int \<Rightarrow> int \<Rightarrow> int" where
  "nb_days_in_month iMonth iYear =
     (if iMonth \<in> {1, 3, 5, 7, 8, 10, 12} then 31
      else if iMonth = 2 then
        (if (iYear smod 4 = 0 \<and> iYear < 1582)
            \<or> (iYear smod 4 = 0 \<and> (iYear smod 100 \<noteq> 0 \<or> iYear smod 400 = 0)) then 29 else 28)
      else 30)"

definition nb_days_in_year :: "int \<Rightarrow> int" where
  "nb_days_in_year iYear =
     (if iYear smod 4 = 0 \<and> (iYear smod 100 \<noteq> 0 \<or> iYear smod 400 = 0) then 366 else 365)"

section \<open>The calendar by its definition\<close>

text \<open>
  Days are counted from the first of January of the year zero of each calendar. A reference date is a year,
  a month and a day; the Julian day number of its noon is defined by the leap year rule and month lengths.
\<close>

definition greg_leap :: "int \<Rightarrow> bool" where
  "greg_leap y \<longleftrightarrow> 4 dvd y \<and> (\<not> 100 dvd y \<or> 400 dvd y)"

definition julian_leap :: "int \<Rightarrow> bool" where
  "julian_leap y \<longleftrightarrow> 4 dvd y"

text \<open>The months before \<open>m\<close>, in a year that may be a leap year.\<close>

definition days_before_month :: "bool \<Rightarrow> int \<Rightarrow> int" where
  "days_before_month leap m =
     [0, 31, 59, 90, 120, 151, 181, 212, 243, 273, 304, 334] ! nat (m - 1) + (if leap \<and> m > 2 then 1 else 0)"

definition month_length :: "bool \<Rightarrow> int \<Rightarrow> int" where
  "month_length leap m = (if leap \<and> m = 2 then 29 else [31, 28, 31, 30, 31, 30, 31, 31, 30, 31, 30, 31] ! nat (m - 1))"

definition greg_days_before_year :: "int \<Rightarrow> int" where
  "greg_days_before_year y = 365 * y + (y + 3) div 4 - (y + 99) div 100 + (y + 399) div 400"

definition julian_days_before_year :: "int \<Rightarrow> int" where
  "julian_days_before_year y = 365 * y + (y + 3) div 4"

text \<open>The Julian day numbers of 1 January 0 in the two calendars are 1721060 and 1721058.\<close>

definition greg_jdn :: "int \<Rightarrow> int \<Rightarrow> int \<Rightarrow> int" where
  "greg_jdn y m d = 1721060 + greg_days_before_year y + days_before_month (greg_leap y) m + d - 1"

definition julian_jdn :: "int \<Rightarrow> int \<Rightarrow> int \<Rightarrow> int" where
  "julian_jdn y m d = 1721058 + julian_days_before_year y + days_before_month (julian_leap y) m + d - 1"

section \<open>Julian day numbers\<close>

lemma sdiv_nonneg: "0 \<le> a \<Longrightarrow> 0 < b \<Longrightarrow> a sdiv b = a div (b :: int)"
  by (cases "a = 0") (auto simp: signed_divide_int_def)

lemma smod_eq_0: "0 < b \<Longrightarrow> a smod b = 0 \<longleftrightarrow> b dvd (a :: int)"
proof -
  assume b: "0 < b"
  have "a smod b = sgn a * (\<bar>a\<bar> mod b)" using b by (simp add: signed_modulo_int_def)
  moreover have "sgn a * (\<bar>a\<bar> mod b) = 0 \<longleftrightarrow> \<bar>a\<bar> mod b = 0" by (auto simp: sgn_if)
  ultimately show ?thesis by (metis dvd_abs_iff dvd_eq_mod_eq_0)
qed

lemma month_cases:
  assumes "1 \<le> m" "m \<le> (12 :: int)"
  obtains (m1) "m = 1" | (m2) "m = 2" | "m = 3" | "m = 4" | "m = 5" | "m = 6"
    | "m = 7" | "m = 8" | "m = 9" | "m = 10" | "m = 11" | "m = 12"
proof -
  have "m = 1 \<or> m = 2 \<or> m = 3 \<or> m = 4 \<or> m = 5 \<or> m = 6 \<or> m = 7 \<or> m = 8 \<or> m = 9 \<or> m = 10 \<or> m = 11 \<or> m = 12"
    using assms by presburger
  then show ?thesis using that by blast
qed

lemma shift_div: "(y + 4715) div 4 = (y + 3) div 4 + (1178 :: int)"
  by linarith

lemma leap_dvd: "(400 :: int) dvd y \<Longrightarrow> 100 dvd y" "(100 :: int) dvd y \<Longrightarrow> 4 dvd y"
  by (auto elim!: dvdE)

definition is_greg :: "int \<Rightarrow> int \<Rightarrow> int \<Rightarrow> bool" where
  "is_greg y m d \<longleftrightarrow> 1582 < y \<or> (y = 1582 \<and> m = 12 \<and> 19 < d)"

text \<open>The part of the computation that depends on the month, in both calendars.\<close>

definition month_part :: "bool \<Rightarrow> int \<Rightarrow> int \<Rightarrow> int" where
  "month_part g j m = (if m \<le> 8 then (m - 1) * 30 + m div 2 else (m - 1) * 30 + (m - 1) div 2 + 1)
     + (if m \<ge> 3 then if g then - 1 else j - 2 else 0)"

lemma month_part_eq:
  assumes "1 \<le> m" "m \<le> 12"
  shows "month_part g j m = days_before_month False m + (if m \<ge> 3 then if g then 1 else j else 0)"
  using assms by (cases rule: month_cases) (auto simp: month_part_def days_before_month_def)

lemma calc_delta:
  assumes "- 4712 \<le> y" "1 \<le> m" "m \<le> 12"
  shows "calc_julian_date_delta y m d =
    (let g = (4 dvd y \<and> \<not> (100 dvd y \<and> \<not> 400 dvd y)); j = (if 4 dvd y then 1 else 0);
         e = (if is_greg y m d then 10 else 0) - (if y \<ge> 1700 then - ((y - 1) div 100) + (y - 1) div 400 + 12 else 0)
             + (if m \<ge> 3 \<and> \<not> g then j else 0)
     in (1721058 + julian_days_before_year y + month_part g j m + d - 1 - e, e))"
proof -
  have a: "(y + 4712) sdiv 4 = (y + 4712) div 4" "(4715 + y) sdiv 4 = 1178 + (y + 3) div 4"
    using assms(1) by (simp_all add: sdiv_nonneg)
  have b: "m sdiv 2 = m div 2" "(m - 1) sdiv 2 = (m - 1) div 2" using assms by (simp_all add: sdiv_nonneg)
  have c: "y \<ge> 1700 \<Longrightarrow> (y - 1) sdiv 100 = (y - 1) div 100" "y \<ge> 1700 \<Longrightarrow> (y - 1) sdiv 400 = (y - 1) div 400"
    by (simp_all add: sdiv_nonneg)
  have g: "(y > 1582 \<or> (y = 1582 \<and> m > 12) \<or> (y = 1582 \<and> m = 12 \<and> d > 19)) = is_greg y m d"
    using assms(3) by (auto simp: is_greg_def)
  show ?thesis
    unfolding calc_julian_date_delta_def REF_YEAR_def g
    by (cases "y \<ge> 1700")
      (auto simp: Let_def smod_eq_0 a b c month_part_def julian_days_before_year_def shift_div)
qed

lemma div_eqI: "q * b \<le> a \<Longrightarrow> a < (q + 1) * b \<Longrightarrow> a div b = (q :: int)"
  by (intro int_div_pos_eq [of a b q "a - b * q"]) (auto simp: algebra_simps)

lemma greg_years:
  "1582 \<le> y \<Longrightarrow>
     1721058 + julian_days_before_year y
       - (10 - (if y \<ge> 1700 then - ((y - 1) div 100) + (y - 1) div 400 + 12 else 0))
     = 1721060 + greg_days_before_year y"
proof -
  assume y: "1582 \<le> y"
  have s: "(y + 99) div 100 = (y - 1) div 100 + 1" "(y + 399) div 400 = (y - 1) div 400 + 1" by linarith+
  show ?thesis
  proof (cases "y \<ge> 1700")
    case True
    then show ?thesis by (simp add: julian_days_before_year_def greg_days_before_year_def s)
  next
    case False
    then have "(y - 1) div 100 - (y - 1) div 400 = 12"
    proof (cases "y \<le> 1600")
      case True
      then have "(y - 1) div 100 = 15" "(y - 1) div 400 = 3" using y by (auto intro!: div_eqI)
      then show ?thesis by simp
    next
      case f: False
      then have "(y - 1) div 100 = 16" "(y - 1) div 400 = 4" using False by (auto intro!: div_eqI)
      then show ?thesis by simp
    qed
    then show ?thesis using False by (simp add: julian_days_before_year_def greg_days_before_year_def s)
  qed
qed

lemma calc_greg:
  assumes "is_greg y m d" "1 \<le> m" "m \<le> 12"
  shows "calc_julian_date y m d = greg_jdn y m d"
proof -
  have y: "1582 \<le> y" using assms(1) by (auto simp: is_greg_def)
  have l: "greg_leap y = (4 dvd y \<and> \<not> (100 dvd y \<and> \<not> 400 dvd y))" by (auto simp: greg_leap_def)
  have "days_before_month (greg_leap y) m = days_before_month False m + (if m \<ge> 3 \<and> greg_leap y then 1 else 0)"
    by (simp add: days_before_month_def)
  then show ?thesis
    using greg_years [OF y] assms(1) y
    by (auto simp: calc_julian_date_def calc_delta assms(2,3) Let_def month_part_eq greg_jdn_def l)
qed

lemma calc_julian:
  assumes "\<not> is_greg y m d" "1 \<le> m" "m \<le> 12" "- 4712 \<le> y"
  shows "calc_julian_date y m d
    = julian_jdn y m d - (if 3 \<le> m \<and> 100 dvd y \<and> \<not> 400 dvd y then 1 else 0)"
proof -
  have y: "y \<le> 1582" using assms(1) by (auto simp: is_greg_def)
  have d: "days_before_month (julian_leap y) m = days_before_month False m + (if m \<ge> 3 \<and> 4 dvd y then 1 else 0)"
    by (simp add: days_before_month_def julian_leap_def)
  have "100 dvd y \<Longrightarrow> 4 dvd y" by (rule leap_dvd)
  then show ?thesis
    using assms(1) y
    by (auto simp: calc_julian_date_def calc_delta assms(2,3,4) Let_def month_part_eq julian_jdn_def d)
qed

section \<open>From a day number back to a date\<close>

text \<open>The end of \<open>JJToDate\<close>, on the year, the day in the year (from zero) and the leap year flag.\<close>

definition finish_date :: "int \<Rightarrow> int \<Rightarrow> bool \<Rightarrow> int \<times> int \<times> int" where
  "finish_date iYear iDJ flLeap =
     (let (iMonth, iDM) = (if flLeap \<and> iDJ = 59 then (2, 30) else (0, 0));
          iDJ = (if flLeap \<and> iDJ > 59 then iDJ - 1 else iDJ);
          iDJ = iDJ - 1;
          (iMonth, iDM) = find_month iDJ iMonth iDM;
          iDay = iDJ - iDM + 1;
          (iYear, iMonth, iDay) = (if iDJ > 333 \<and> iDay > 31 then (iYear + 1, 1, iDay - 31) else (iYear, iMonth, iDay))
      in (int16 iYear, uint8 iMonth, uint8 iDay))"

lemma int16_id: "- 32768 \<le> y \<Longrightarrow> y \<le> 32767 \<Longrightarrow> int16 y = y"
  by (simp add: int16_def signed_of_int signed_take_bit_int_eq_self)

lemma before_reform_iff: "before_reform j \<longleftrightarrow> j \<le> 2299226"
proof -
  have "before_reform j \<longleftrightarrow> rat_of_int (2 * j) < of_int 4598453" by (simp add: before_reform_def mult.commute)
  then show ?thesis by (simp only: of_int_less_iff) linarith
qed

lemma JJToDate_finish:
  assumes "0 \<le> j" "j < 2 ^ 50" and y: "y = 4 * j div 1461 - 4712"
    and c: "calc_julian_date_delta y 1 1 = (b, e)"
  shows "JJToDate j = finish_date y
     (if j \<le> 2299226 then j - b - e else if y = 1582 then j - b + 10 else j - b)
     (4 dvd y \<and> (j \<le> 2299226 \<or> \<not> 100 dvd y \<or> 400 dvd y))"
proof -
  have q: "rat_of_int j / (1461 / 4) = of_int (4 * j) / of_int 1461" by simp
  have t: "trunc (rnd (of_int j / (1461 / 4))) = 4 * j div 1461"
    unfolding q by (rule trunc_rnd_quotient) (use assms(1,2) in simp_all)
  have yy: "4 * j div 1461 + REF_YEAR = y" by (simp add: y REF_YEAR_def)
  have "JJToDate j =
     (let (iDJ, flLeap) =
            (if before_reform j then (j - b - e, y smod 4 = 0)
             else if y = 1582 then (j - b + 10, False) else (j - b, False));
          flLeap = (if \<not> flLeap then y smod 4 = 0 else flLeap);
          flLeap = (if \<not> before_reform j \<and> y smod 100 = 0 \<and> y smod 400 \<noteq> 0 then False else flLeap)
      in finish_date y iDJ flLeap)"
    by (simp only: JJToDate_def Let_def t yy c prod.case finish_date_def)
  then show ?thesis
    by (cases "j \<le> 2299226"; cases "y = 1582") (auto simp: Let_def before_reform_iff smod_eq_0)
qed

text \<open>The days of a year, month by month.\<close>

lemma finish_date_in_year:
  assumes m: "1 \<le> m" "m \<le> 12" and d: "1 \<le> d" "d \<le> month_length leap m" and y: "- 32768 \<le> y" "y \<le> 32767"
    and k: "k = days_before_month leap m + d - 1"
  shows "finish_date y k leap = (y, m, d)"
proof -
  have i: "int16 y = y" using y by (rule int16_id)
  have "d \<le> 31" using m d by (cases rule: month_cases) (auto simp: month_length_def split: if_splits)
  then have u: "uint8 d = d" "uint8 m = m" using m d by (simp_all add: uint8_def)
  show ?thesis
    using m d unfolding k
    by (cases rule: month_cases; cases leap)
      (auto simp: finish_date_def find_month_def days_before_month_def month_length_def i u [unfolded uint8_def] uint8_def Let_def)
qed

text \<open>January, reached from the year before.\<close>

lemma finish_date_january:
  assumes "0 \<le> k" "k \<le> 30" "- 32768 \<le> y" "y \<le> 32767"
  shows "finish_date (y - 1) (365 + (if leap then 1 else 0) + k) leap = (y, 1, k + 1)"
proof -
  have "int16 y = y" using assms by (intro int16_id)
  then show ?thesis using assms
    by (cases leap) (auto simp: finish_date_def find_month_def Let_def uint8_def)
qed

section \<open>The two conversions are inverse\<close>

definition shift :: "int \<Rightarrow> int" where
  "shift y = 10 - (if y \<ge> 1700 then - ((y - 1) div 100) + (y - 1) div 400 + 12 else 0)"

lemma shift_bounds: "1582 \<le> y \<Longrightarrow> y \<le> 4500 \<Longrightarrow> 10 \<le> shift y \<and> shift y \<le> 31"
proof (cases "y \<ge> 1700")
  case True
  assume "y \<le> 4500"
  define c where "c = (y - 1) div 100"
  have "(y - 1) div 400 = c div 4"
    unfolding c_def using zdiv_zmult2_eq [of 4 "y - 1" 100] by simp
  moreover have "16 \<le> c" "c \<le> 44"
    using True \<open>y \<le> 4500\<close> zdiv_mono1 [of 1699 "y - 1" 100] zdiv_mono1 [of "y - 1" 4499 100] by (simp_all add: c_def)
  moreover have "c - c div 4 \<le> 33" "12 \<le> c - c div 4" using calculation(2,3) by linarith+
  ultimately show ?thesis using True by (simp add: shift_def c_def)
qed (simp add: shift_def)

definition greg_base :: "int \<Rightarrow> int" where
  "greg_base y = 1721060 + greg_days_before_year y"

lemma greg_base_shift:
  "1582 \<le> y \<Longrightarrow> greg_base y = 1721058 + julian_days_before_year y - shift y"
  using greg_years [of y] by (simp add: greg_base_def shift_def)

lemma div_step: "0 < n \<Longrightarrow> (z + n) div n - (z + n - 1) div n = (if n dvd z then 1 else (0 :: int))"
proof -
  assume n: "0 < n"
  define q r where "q = z div n" and "r = z mod n"
  have z: "z = n * q + r" "0 \<le> r" "r < n" using n by (simp_all add: q_def r_def)
  have "(z + n) div n = q + 1" using n by (simp add: q_def)
  moreover have "(z + n - 1) div n = (if r = 0 then q else q + 1)"
  proof (cases "r = 0")
    case True
    have "(z + n - 1) div n = q" using z n True by (intro int_div_pos_eq [of _ _ _ "n - 1"]) auto
    then show ?thesis using True by simp
  next
    case False
    then have "1 \<le> r" using z by simp
    then have "(z + n - 1) div n = q + 1"
      using z n by (intro int_div_pos_eq [of _ _ _ "r - 1"]) (auto simp: algebra_simps)
    then show ?thesis using False by simp
  qed
  ultimately show ?thesis by (simp add: dvd_eq_mod_eq_0 r_def)
qed

lemma greg_base_step: "greg_base (z + 1) = greg_base z + 365 + (if greg_leap z then 1 else 0)"
proof -
  have e: "z + 1 + 3 = z + 4" "z + 1 + 99 = z + 100" "z + 1 + 399 = z + 400" by simp_all
  have s: "(z + 4) div 4 = (z + 3) div 4 + (if 4 dvd z then 1 else 0)"
    "(z + 100) div 100 = (z + 99) div 100 + (if 100 dvd z then 1 else 0)"
    "(z + 400) div 400 = (z + 399) div 400 + (if 400 dvd z then 1 else 0)"
  proof -
    have m: "z + 4 - 1 = z + 3" "z + 100 - 1 = z + 99" "z + 400 - 1 = z + 399" by simp_all
    have "0 < (4 :: int)" "0 < (100 :: int)" "0 < (400 :: int)" by simp_all
    note d = this [THEN div_step, of z, unfolded m]
    show "(z + 4) div 4 = (z + 3) div 4 + (if 4 dvd z then 1 else 0)"
      "(z + 100) div 100 = (z + 99) div 100 + (if 100 dvd z then 1 else 0)"
      "(z + 400) div 400 = (z + 399) div 400 + (if 400 dvd z then 1 else 0)"
      using d by (simp_all only: diff_eq_eq add.commute)
  qed
  show ?thesis
    unfolding greg_base_def greg_days_before_year_def e s greg_leap_def using leap_dvd [of z]
    by (cases "4 dvd z"; cases "100 dvd z"; cases "400 dvd z") (simp_all only: if_True if_False simp_thms, simp_all)
qed

text \<open>Which year \<open>JJToDate\<close> starts from.\<close>

lemma year_of_day:
  fixes Y :: int
  assumes j: "j = 365 * Y + (Y + 3) div 4 + k" and k: "- 31 \<le> k" "4 * k + 4 * ((Y + 3) div 4) - Y < 1461"
  shows "4 * j div 1461 = (if 0 \<le> k then Y else Y - 1)"
proof -
  define r where "r = 4 * ((Y + 3) div 4) - Y"
  have r: "0 \<le> r" "r \<le> 3" unfolding r_def by linarith+
  have "4 * j = 1461 * Y + (r + 4 * k)" unfolding j r_def by simp
  moreover have "r + 4 * k < 1461" using k(2) by (simp add: r_def)
  ultimately show ?thesis using r k(1)
    by (cases "0 \<le> k") (auto intro!: div_eqI)
qed

lemma days_before_month_bounds:
  assumes "1 \<le> m" "m \<le> 12" "1 \<le> d" "d \<le> month_length leap m"
  shows "0 \<le> days_before_month leap m + d - 1" "days_before_month leap m + d - 1 \<le> 364 + (if leap then 1 else 0)"
    "days_before_month leap m + d - 1 \<le> 30 \<Longrightarrow> m = 1" "days_before_month leap 1 = 0"
  using assms by (cases rule: month_cases; cases leap; simp add: days_before_month_def month_length_def)+

lemma JJToDate_greg:
  assumes g: "is_greg y m d" and y: "y \<le> 4500" and m: "1 \<le> m" "m \<le> 12"
    and d: "1 \<le> d" "d \<le> month_length (greg_leap y) m"
  shows "JJToDate (greg_jdn y m d) = (y, m, d)"
proof -
  define k where "k = days_before_month (greg_leap y) m + d - 1"
  define j where "j = greg_jdn y m d"
  have y1: "1582 \<le> y" using g by (auto simp: is_greg_def)
  note sb = shift_bounds [OF y1 y]
  have kb: "0 \<le> k" "k \<le> 364 + (if greg_leap y then 1 else 0)" "k \<le> 30 \<Longrightarrow> m = 1 \<and> k = d - 1"
    using days_before_month_bounds [OF m d] unfolding k_def by auto
  have jk: "j = greg_base y + k" by (simp add: j_def greg_jdn_def greg_base_def k_def)
  have j0: "j = 365 * (y + 4712) + (y + 4712 + 3) div 4 + (k - shift y)"
    unfolding jk greg_base_shift [OF y1] julian_days_before_year_def using shift_div [of y] by simp
  have q: "4 * j div 1461 = (if shift y \<le> k then y + 4712 else y + 4711)"
    using year_of_day [OF j0] kb sb by (simp split: if_splits)
  have big: "2299226 < j"
  proof (cases "y = 1582")
    case True
    then have "m = 12" "19 < d" using g by (auto simp: is_greg_def)
    then show ?thesis using True
      by (simp add: j_def greg_jdn_def greg_days_before_year_def days_before_month_def greg_leap_def)
  next
    case False
    then have y2: "1583 \<le> y" using y1 by simp
    show ?thesis
    proof (cases "y \<ge> 1700")
      case True
      define D S where "D = (y + 4712 + 3) div 4" and "S = shift y"
      have "0 \<le> D" using True by (simp add: D_def)
      moreover have "S \<le> 31" using sb by (simp add: S_def)
      moreover have "j = 365 * (y + 4712) + D + (k - S)" using j0 by (simp add: D_def S_def)
      ultimately show ?thesis using kb(1) True by simp
    next
      case False
      then have "shift y = 10" by (simp add: shift_def)
      moreover have "(y + 4712 + 3) div 4 \<ge> 1574" using y2 by linarith
      ultimately show ?thesis using j0 kb(1) y2 by simp
    qed
  qed
  have small: "0 \<le> j" "j < 2 ^ 50"
  proof -
    have "(y + 4712 + 3) div 4 \<le> y + 4715" using y1 by simp
    then have "j < 10000000" using j0 kb(2) sb y by (auto split: if_splits)
    then show "0 \<le> j" "j < 2 ^ 50" using big by simp_all
  qed
  show ?thesis
  proof (cases "shift y \<le> k")
    case True
    obtain e where c: "calc_julian_date_delta y 1 1 = (calc_julian_date y 1 1, e)"
      by (cases "calc_julian_date_delta y 1 1") (simp add: calc_julian_date_def)
    have "(if y = 1582 then j - calc_julian_date y 1 1 + 10 else j - calc_julian_date y 1 1) = k"
    proof (cases "y = 1582")
      case y: True
      have "calc_julian_date 1582 1 1 = greg_base 1582 + 10" by code_simp
      then show ?thesis by (simp add: y jk)
    next
      case False
      then have "is_greg y 1 1" using y1 by (simp add: is_greg_def)
      then have "calc_julian_date y 1 1 = greg_base y"
        by (simp add: calc_greg greg_jdn_def greg_base_def days_before_month_def)
      then show ?thesis using False by (simp add: jk)
    qed
    then have "JJToDate j = finish_date y k (greg_leap y)"
      using JJToDate_finish [OF small, of y, OF _ c] q True big by (simp add: greg_leap_def)
    also have "\<dots> = (y, m, d)"
      by (rule finish_date_in_year [OF m d _ _ k_def]) (use y1 y in simp_all)
    finally show ?thesis by (simp add: j_def)
  next
    case False
    then have k30: "k \<le> 30" "m = 1" "d = k + 1" using sb kb(3) by simp_all
    have y2: "1583 \<le> y" using y1 g k30(2) by (auto simp: is_greg_def)
    obtain e where c: "calc_julian_date_delta (y - 1) 1 1 = (calc_julian_date (y - 1) 1 1, e)"
      by (cases "calc_julian_date_delta (y - 1) 1 1") (simp add: calc_julian_date_def)
    have step: "greg_base y = greg_base (y - 1) + 365 + (if greg_leap (y - 1) then 1 else 0)"
      using greg_base_step [of "y - 1"] by simp
    have "(if y - 1 = 1582 then j - calc_julian_date (y - 1) 1 1 + 10 else j - calc_julian_date (y - 1) 1 1)
        = 365 + (if greg_leap (y - 1) then 1 else 0) + k"
    proof (cases "y - 1 = 1582")
      case y: True
      have "calc_julian_date 1582 1 1 = greg_base 1582 + 10" by code_simp
      then show ?thesis using step by (simp add: y jk)
    next
      case False
      then have "is_greg (y - 1) 1 1" using y2 by (simp add: is_greg_def)
      then have "calc_julian_date (y - 1) 1 1 = greg_base (y - 1)"
        by (simp add: calc_greg greg_jdn_def greg_base_def days_before_month_def)
      then show ?thesis using False step by (simp add: jk)
    qed
    then have "JJToDate j = finish_date (y - 1) (365 + (if greg_leap (y - 1) then 1 else 0) + k) (greg_leap (y - 1))"
      using JJToDate_finish [OF small, of "y - 1", OF _ c] q False big by (simp add: greg_leap_def)
    also have "\<dots> = (y, m, d)"
      using finish_date_january [of k y "greg_leap (y - 1)"] k30 kb(1) y1 y by simp
    finally show ?thesis by (simp add: j_def)
  qed
qed

lemma JJToDate_julian:
  assumes g: "\<not> is_greg y m d" and y: "- 4712 \<le> y" and m: "1 \<le> m" "m \<le> 12"
    and d: "1 \<le> d" "d \<le> month_length (julian_leap y) m" and r: "y = 1582 \<and> m = 12 \<longrightarrow> d \<le> 9"
  shows "JJToDate (julian_jdn y m d) = (y, m, d)"
proof -
  define k where "k = days_before_month (julian_leap y) m + d - 1"
  define j where "j = julian_jdn y m d"
  have y1: "y \<le> 1582" using g by (auto simp: is_greg_def)
  have kb: "0 \<le> k" "k \<le> 364 + (if julian_leap y then 1 else 0)"
    using days_before_month_bounds [OF m d] unfolding k_def by auto
  have jk: "j = 1721058 + julian_days_before_year y + k" by (simp add: j_def julian_jdn_def k_def)
  have j0: "j = 365 * (y + 4712) + (y + 4712 + 3) div 4 + k"
    unfolding jk julian_days_before_year_def using shift_div [of y] by simp
  have "4 * k + 4 * ((y + 4712 + 3) div 4) - (y + 4712) < 1461"
  proof (cases "julian_leap y")
    case True
    then obtain z where "y = 4 * z" by (auto simp: julian_leap_def)
    then have "4 * ((y + 4712 + 3) div 4) = y + 4712" by simp
    then show ?thesis using kb True by simp
  next
    case False
    have "4 * ((y + 4712 + 3) div 4) \<le> y + 4712 + 3" by linarith
    then show ?thesis using kb False by simp
  qed
  then have q: "4 * j div 1461 = y + 4712" using year_of_day [OF j0] kb by simp
  have lo: "0 \<le> j"
  proof -
    have "0 \<le> (y + 4712 + 3) div 4" using y by simp
    then show ?thesis using j0 kb(1) y by simp
  qed
  have hi: "j \<le> 2299226"
  proof (cases "y = 1582")
    case True
    have "days_before_month False m + d - 1 \<le> 342"
      using m d r True by (cases rule: month_cases) (auto simp: days_before_month_def month_length_def julian_leap_def)
    then show ?thesis using True by (simp add: jk k_def julian_days_before_year_def julian_leap_def)
  next
    case False
    then have "y \<le> 1581" using y1 by simp
    moreover from this have "(y + 4712 + 3) div 4 \<le> 1574" by linarith
    ultimately show ?thesis using j0 kb(2) by (simp split: if_splits)
  qed
  obtain e where c: "calc_julian_date_delta y 1 1 = (calc_julian_date y 1 1, e)"
    by (cases "calc_julian_date_delta y 1 1") (simp add: calc_julian_date_def)
  have ng: "\<not> is_greg y 1 1" using y1 by (auto simp: is_greg_def)
  have "e = 0" using c calc_delta [OF y, of 1 1] ng y1 by (simp add: Let_def)
  moreover have "calc_julian_date y 1 1 = 1721058 + julian_days_before_year y"
    using calc_julian [OF ng] y by (simp add: julian_jdn_def days_before_month_def)
  moreover have "JJToDate j = finish_date y k (julian_leap y)"
  proof -
    have "j < 2 ^ 50" "y = 4 * j div 1461 - 4712" using hi q by simp_all
    note f = JJToDate_finish [OF lo this c]
    have "j - calc_julian_date y 1 1 - e = k" using calculation by (simp add: jk)
    then show ?thesis unfolding f using hi by (simp only: if_True julian_leap_def simp_thms)
  qed
  moreover have "finish_date y k (julian_leap y) = (y, m, d)"
    by (rule finish_date_in_year [OF m d _ _ k_def]) (use y1 y in simp_all)
  ultimately show ?thesis by (simp add: j_def)
qed

section \<open>What the calendar promises\<close>

text \<open>Dates that exist in the calendar of the code.\<close>

definition leap_in :: "int \<Rightarrow> int \<Rightarrow> int \<Rightarrow> bool" where
  "leap_in y m d = (if is_greg y m d then greg_leap y else julian_leap y)"

definition valid_date :: "int \<Rightarrow> int \<Rightarrow> int \<Rightarrow> bool" where
  "valid_date y m d \<longleftrightarrow> - 4712 \<le> y \<and> 1 \<le> m \<and> m \<le> 12 \<and> 1 \<le> d \<and> d \<le> month_length (leap_in y m d) m
     \<and> \<not> (y = 1582 \<and> m = 12 \<and> 9 < d \<and> d < 20)"

text \<open>The Julian years whose February has a day that the code leaves out.\<close>

definition missing_leap_day :: "int \<Rightarrow> int \<Rightarrow> int \<Rightarrow> bool" where
  "missing_leap_day y m d \<longleftrightarrow> \<not> is_greg y m d \<and> 3 \<le> m \<and> 100 dvd y \<and> \<not> 400 dvd y"

text \<open>
  C35: \<open>calc_julian_date\<close> is the Julian day number. For every date of the calendar from -4712 on it is the number
  that the leap year rules and month lengths define, in the Julian calendar up to 9 December 1582
  and in the Gregorian one from 20 December 1582 - except from March on in the Julian century years that are
  not divisible by 400, where it is one day too small.
\<close>

theorem calc_julian_date_correct:
  assumes "valid_date y m d"
  shows "calc_julian_date y m d =
    (if is_greg y m d then greg_jdn y m d else julian_jdn y m d) - (if missing_leap_day y m d then 1 else 0)"
  using assms calc_greg [of y m d] calc_julian [of y m d] by (auto simp: valid_date_def missing_leap_day_def)

theorem calc_julian_date_correct_witness:
  "calc_julian_date 2024 2 29 = greg_jdn 2024 2 29 \<and> calc_julian_date 1500 3 1 = julian_jdn 1500 3 1 - 1
   \<and> greg_jdn 2024 2 29 = 2460370"
proof -
  have v: "valid_date 2024 2 29" "valid_date 1500 3 1" by code_simp+
  have c: "is_greg 2024 2 29" "\<not> missing_leap_day 2024 2 29" "\<not> is_greg 1500 3 1" "missing_leap_day 1500 3 1"
    "greg_jdn 2024 2 29 = 2460370" by code_simp+
  show ?thesis
    using calc_julian_date_correct [OF v(1)] calc_julian_date_correct [OF v(2)] c by simp
qed

lemma JJToDate_inverse:
  assumes "valid_date y m d" "y \<le> 4500" "\<not> missing_leap_day y m d"
  shows "JJToDate (calc_julian_date y m d) = (y, m, d)"
proof (cases "is_greg y m d")
  case True
  then show ?thesis
    using assms JJToDate_greg [OF True assms(2)] calc_greg [OF True] by (simp add: valid_date_def leap_in_def)
next
  case False
  show ?thesis
  proof -
    have "y = 1582 \<and> m = 12 \<longrightarrow> d \<le> 9" using assms(1) False by (auto simp: valid_date_def is_greg_def)
    moreover have "\<not> (3 \<le> m \<and> 100 dvd y \<and> \<not> 400 dvd y)" using assms(3) False by (simp add: missing_leap_day_def)
    then have "calc_julian_date y m d = julian_jdn y m d"
      using calc_julian [OF False] assms(1) by (simp only: valid_date_def if_False simp_thms diff_zero)
    ultimately show ?thesis
      using assms JJToDate_julian [OF False] False by (simp add: valid_date_def leap_in_def)
  qed
qed

text \<open>
  C36: \<open>JJToDate\<close> inverts \<open>calc_julian_date\<close>. For every date of the calendar from 1 January -4712 to 31 December 4500,
  apart from the days that \<open>calc_julian_date_correct\<close> shows to be one too small, the year, month and day come back, through the
  division by 365.25 in floating point and across the reform.
\<close>

theorem JJToDate_inverts:
  assumes "valid_date y m d" "y \<le> 4500" "\<not> missing_leap_day y m d"
  shows "JJToDate (calc_julian_date y m d) = (y, m, d)"
  using assms by (rule JJToDate_inverse)

theorem JJToDate_inverts_witness:
  "JJToDate (calc_julian_date 1582 12 9) = (1582, 12, 9) \<and> JJToDate (calc_julian_date 1582 12 20) = (1582, 12, 20)
   \<and> JJToDate (calc_julian_date 4500 1 31) = (4500, 1, 31)"
proof -
  have "valid_date 1582 12 9" "\<not> missing_leap_day 1582 12 9" "valid_date 1582 12 20" "\<not> missing_leap_day 1582 12 20"
    "valid_date 4500 1 31" "\<not> missing_leap_day 4500 1 31" by code_simp+
  then show ?thesis
    using JJToDate_inverts [of 1582 12 9] JJToDate_inverts [of 1582 12 20] JJToDate_inverts [of 4500 1 31] by simp
qed

text \<open>
  Where the calendar breaks. In the Julian century years before 1582 that are not divisible by 400,
  29 February, which \<open>nb_days_in_month\<close> admits, and 1 March have the same day number, while \<open>nb_days_in_year\<close>
  counts 365 days for the 366 of the months. And from the year 4501 on the first days of the year do not come
  back: 1 February 4501 is returned as 32 January.
\<close>

theorem calendar_limits:
  "(100 dvd y \<and> \<not> 400 dvd y \<and> - 4712 \<le> y \<and> y < 1582 \<longrightarrow>
      calc_julian_date y 2 29 = calc_julian_date y 3 1 \<and> nb_days_in_month 2 y = 29 \<and> nb_days_in_year y = 365)
   \<and> JJToDate (calc_julian_date 4501 2 1) = (4501, 1, 32)"
proof (intro conjI impI)
  have j: "calc_julian_date 4501 2 1 = 3365048" by code_simp
  have "calc_julian_date_delta 4500 1 1 = (3364652, 31)" by code_simp
  from JJToDate_finish [OF _ _ _ this, of 3365048] have "JJToDate 3365048 = finish_date 4500 396 False" by simp
  also have "\<dots> = (4501, 1, 32)" by code_simp
  finally show "JJToDate (calc_julian_date 4501 2 1) = (4501, 1, 32)" by (simp only: j)
next
  assume y: "100 dvd y \<and> \<not> 400 dvd y \<and> - 4712 \<le> y \<and> y < 1582"
  then have l: "4 dvd y" using leap_dvd by blast
  have g: "\<not> is_greg y 2 29" "\<not> is_greg y 3 1" using y by (auto simp: is_greg_def)
  have c: "calc_julian_date y 2 29 = julian_jdn y 2 29" "calc_julian_date y 3 1 = julian_jdn y 3 1 - 1"
    using calc_julian [OF g(1)] calc_julian [OF g(2)] y by simp_all
  show "calc_julian_date y 2 29 = calc_julian_date y 3 1"
  proof -
    have "days_before_month (julian_leap y) 2 = 31" "days_before_month (julian_leap y) 3 = 60"
      using l by (simp_all add: days_before_month_def julian_leap_def)
    then have "julian_jdn y 2 29 = julian_jdn y 3 1 - 1" unfolding julian_jdn_def by simp
    with c show ?thesis by simp
  qed
  show "nb_days_in_month 2 y = 29" using y l by (simp add: nb_days_in_month_def smod_eq_0)
  show "nb_days_in_year y = 365" using y l by (simp add: nb_days_in_year_def smod_eq_0)
qed

theorem calendar_limits_witness:
  "calc_julian_date 1500 2 29 = calc_julian_date 1500 3 1 \<and> nb_days_in_year 1500 = 365"
  using calendar_limits [of 1500] by simp

end
