(* ===== verification/TimeStamp.thy ===== *)
theory TimeStamp
  imports Calendar
begin

text \<open>
  The class \<open>Time\<close> of \<open>src/time/Time.cpp\<close> and \<open>include/yat/time/Time.h\<close>: a number of microseconds from the Julian
  reference, a flag for local time and a time zone bias in minutes. \<open>int64\<close> values are integers: for the
  years of the calendar they stay below \<open>2 ^ 62\<close>. A \<open>double\<close> is a rational number, rounded by \<open>rnd\<close>
  after each operation. What the system answers (the current time zone) is an argument.
\<close>

section \<open>The state\<close>

record date_fields =
  df_year :: int
  df_month :: int
  df_day :: int
  df_hour :: int
  df_min :: int
  df_sec :: rat
  df_day_of_year :: int
  df_day_of_week :: int
  df_week_of_year :: int
  df_local_time :: bool
  df_tz_bias :: int

definition clear_fields :: date_fields where
  "clear_fields = \<lparr>df_year = 0, df_month = 0, df_day = 0, df_hour = 0, df_min = 0, df_sec = 0, df_day_of_year = 0,
     df_day_of_week = 0, df_week_of_year = 0, df_local_time = False, df_tz_bias = 0\<rparr>"

definition fields_empty :: "date_fields \<Rightarrow> bool" where
  "fields_empty df \<longleftrightarrow> df_year df = 0 \<and> df_month df = 0 \<and> df_day df = 0 \<and> df_hour df = 0 \<and> df_min df = 0 \<and> df_sec df = 0"

record time =
  m_llTime :: int
  m_local_time :: bool
  m_tz_bias :: int

datatype time_error = DATE_BAD_ARGS | BAD_FORMAT | BAD_MONTH_NAME

definition SEC_PER_MIN :: int where "SEC_PER_MIN = 60"
definition SEC_PER_HOUR :: int where "SEC_PER_HOUR = 3600"
definition SEC_PER_DAY :: int where "SEC_PER_DAY = 86400"
definition MICROSEC_PER_SEC :: int where "MICROSEC_PER_SEC = 1000000"
definition JULIAN_REF_UNIX :: int where "JULIAN_REF_UNIX = 2440588"

definition int64FromHLPair :: "int \<Rightarrow> int \<Rightarrow> int" where
  "int64FromHLPair lHigh ulLow = 2 ^ 32 * lHigh + ulLow"

definition MICROSEC_PER_DAY :: int where "MICROSEC_PER_DAY = int64FromHLPair 20 500654080"
definition REF_UNIX :: int where "REF_UNIX = int64FromHLPair 0x2ed263d 0x83a88000"

definition Time_ctor :: time where
  "Time_ctor = \<lparr>m_llTime = 0, m_local_time = False, m_tz_bias = - 1\<rparr>"

section \<open>Time zones\<close>

text \<open>\<open>sys\<close> is \<open>sys_time_zone_bias ()\<close>; the bias is cached in the object.\<close>

definition time_zone_bias :: "int \<Rightarrow> time \<Rightarrow> int \<times> time" where
  "time_zone_bias sys t =
     (let t = (if m_tz_bias t = - 1 then t\<lparr>m_tz_bias := sys\<rparr> else t) in (m_tz_bias t, t))"

definition set_time_zone_bias :: "int \<Rightarrow> time \<Rightarrow> time" where
  "set_time_zone_bias minutes t = t\<lparr>m_tz_bias := minutes\<rparr>"

definition add_sec :: "rat \<Rightarrow> time \<Rightarrow> time" where
  "add_sec dSec t = t\<lparr>m_llTime := m_llTime t + trunc (rnd (dSec * 1000000))\<rparr>"

definition to_utc :: "int \<Rightarrow> time \<Rightarrow> time" where
  "to_utc sys t =
     (let t = (if m_local_time t
               then let (b, t) = time_zone_bias sys t in add_sec (- of_int (60 * b)) t else t)
      in t\<lparr>m_local_time := False\<rparr>)"

definition to_local :: "int \<Rightarrow> time \<Rightarrow> time" where
  "to_local sys t =
     (let t = (if \<not> m_local_time t
               then let (b, t) = time_zone_bias sys t in add_sec (of_int (60 * b)) t else t)
      in t\<lparr>m_local_time := True\<rparr>)"

section \<open>Fields\<close>

definition julian_date :: "time \<Rightarrow> int" where
  "julian_date t = m_llTime t sdiv MICROSEC_PER_DAY"

text \<open>The day of the week, from the Julian day.\<close>

definition dow_of :: "int \<Rightarrow> int" where
  "dow_of lJJ =
     (let dow = uint8 (lJJ smod 7 + 2);
          dow = (if dow > 7 then uint8 (dow - 7) else dow);
          dow = uint8 (dow - 1)
      in if dow = 0 then 7 else dow)"

text \<open>The week of the year, from the day of the year and of the week.\<close>

definition week_of :: "int \<Rightarrow> int \<Rightarrow> int" where
  "week_of doy dow =
     (let iDay = int16 (doy - dow);
          week = uint8 (iDay sdiv 7)
      in if iDay \<ge> 0 then uint8 (week + 1) else week)"

definition get_fields :: "int \<Rightarrow> time \<Rightarrow> date_fields" where
  "get_fields sys t =
     (let lJJ = julian_date t;
          dow = dow_of lJJ;
          (y, m, d) = JJToDate lJJ;
          ulSec = (m_llTime t sdiv MICROSEC_PER_SEC) smod SEC_PER_DAY mod 2 ^ 32;
          hour = uint8 (ulSec div SEC_PER_HOUR);
          ulSec = (ulSec - hour * SEC_PER_HOUR) mod 2 ^ 32;
          min = uint8 (ulSec div SEC_PER_MIN);
          iSec = uint8 (ulSec - min * SEC_PER_MIN);
          dMicro = of_int (m_llTime t smod MICROSEC_PER_SEC);
          sec = rnd (of_int iSec + rnd (dMicro / of_int MICROSEC_PER_SEC));
          doy = (int16 (julian_date t - calc_julian_date y 1 1) + 1) mod 2 ^ 16;
          week = week_of doy dow
      in \<lparr>df_year = y, df_month = m, df_day = d, df_hour = hour, df_min = min, df_sec = sec, df_day_of_year = doy,
          df_day_of_week = dow, df_week_of_year = week, df_local_time = m_local_time t,
          df_tz_bias = fst (time_zone_bias sys t)\<rparr>)"

text \<open>
  \<open>get\<close> asks for the bias, which caches it in the object. The single field accessors do so too; only their value
  is modelled.
\<close>

definition get :: "int \<Rightarrow> time \<Rightarrow> date_fields \<times> time" where
  "get sys t = (get_fields sys t, snd (time_zone_bias sys t))"


definition year :: "int \<Rightarrow> time \<Rightarrow> int" where "year sys t = df_year (get_fields sys t)"
definition month :: "int \<Rightarrow> time \<Rightarrow> int" where "month sys t = df_month (get_fields sys t)"
definition day :: "int \<Rightarrow> time \<Rightarrow> int" where "day sys t = df_day (get_fields sys t)"
definition hour :: "int \<Rightarrow> time \<Rightarrow> int" where "hour sys t = df_hour (get_fields sys t)"
definition minute :: "int \<Rightarrow> time \<Rightarrow> int" where "minute sys t = df_min (get_fields sys t)"
definition second :: "int \<Rightarrow> time \<Rightarrow> rat" where "second sys t = df_sec (get_fields sys t)"
definition day_of_week :: "int \<Rightarrow> time \<Rightarrow> int" where "day_of_week sys t = df_day_of_week (get_fields sys t)"
definition week_of_year :: "int \<Rightarrow> time \<Rightarrow> int" where "week_of_year sys t = df_week_of_year (get_fields sys t)"

definition set_fields :: "date_fields \<Rightarrow> time \<Rightarrow> time_error + time" where
  "set_fields df t =
     (if fields_empty df then Inr (t\<lparr>m_llTime := 0\<rparr>)
      else if df_month df > 12 \<or> df_month df < 1 \<or> df_day df < 1
           \<or> df_day df > nb_days_in_month (df_month df) (df_year df)
           \<or> df_hour df > 24 \<or> df_min df > 59 \<or> df_sec df < 0 \<or> df_sec df \<ge> 60
      then Inl DATE_BAD_ARGS
      else
        let dJJ = rnd (of_int (calc_julian_date (df_year df) (df_month df) (df_day df)))
        in Inr (t\<lparr>m_llTime := trunc (rnd (dJJ * of_int SEC_PER_DAY)) * MICROSEC_PER_SEC
                   + df_hour df * SEC_PER_HOUR * MICROSEC_PER_SEC
                   + df_min df * SEC_PER_MIN * MICROSEC_PER_SEC
                   + trunc (rnd (df_sec df * of_int MICROSEC_PER_SEC)),
                 m_local_time := df_local_time df\<rparr>))"

definition set_date_time :: "int \<Rightarrow> int \<Rightarrow> int \<Rightarrow> int \<Rightarrow> int \<Rightarrow> rat \<Rightarrow> time \<Rightarrow> time_error + time" where
  "set_date_time y m d h mi s t =
     set_fields (clear_fields\<lparr>df_year := y, df_month := m, df_day := d, df_hour := h, df_min := mi, df_sec := s,
       df_local_time := False\<rparr>) t"

definition set_utc :: "int \<Rightarrow> int \<Rightarrow> int \<Rightarrow> int \<Rightarrow> int \<Rightarrow> rat \<Rightarrow> time \<Rightarrow> time_error + time" where
  "set_utc y m d h mi s t = map_sum id (\<lambda>t. t\<lparr>m_local_time := False\<rparr>) (set_date_time y m d h mi s t)"

definition set_local :: "int \<Rightarrow> int \<Rightarrow> int \<Rightarrow> int \<Rightarrow> int \<Rightarrow> rat \<Rightarrow> time \<Rightarrow> time_error + time" where
  "set_local y m d h mi s t = map_sum id (\<lambda>t. t\<lparr>m_local_time := True\<rparr>) (set_date_time y m d h mi s t)"

definition set_day_of_year :: "int \<Rightarrow> int \<Rightarrow> int \<Rightarrow> time \<Rightarrow> time_error + time" where
  "set_day_of_year sys iDayOfYear iYear t =
     (let (df, t) = get sys t
      in map_sum id (add_sec (of_int ((iDayOfYear - 1) * SEC_PER_DAY)))
           (set_date_time iYear 1 1 (df_hour df) (df_min df) (df_sec df) t))"

definition set_hour :: "int \<Rightarrow> int \<Rightarrow> time \<Rightarrow> time_error + time" where
  "set_hour sys ui t = (let (df, t) = get sys t in set_fields (df\<lparr>df_hour := ui\<rparr>) t)"

definition set_day :: "int \<Rightarrow> int \<Rightarrow> time \<Rightarrow> time_error + time" where
  "set_day sys ui t = (let (df, t) = get sys t in set_fields (df\<lparr>df_day := ui\<rparr>) t)"

definition set_month :: "int \<Rightarrow> int \<Rightarrow> time \<Rightarrow> time_error + time" where
  "set_month sys ui t = (let (df, t) = get sys t in set_fields (df\<lparr>df_month := ui\<rparr>) t)"

definition set_minute :: "int \<Rightarrow> int \<Rightarrow> time \<Rightarrow> time_error + time" where
  "set_minute sys iMinute t = (let (df, t) = get sys t in set_fields (df\<lparr>df_min := iMinute\<rparr>) t)"

definition set_year :: "int \<Rightarrow> int \<Rightarrow> time \<Rightarrow> time_error + time" where
  "set_year sys iYear t = (let (df, t) = get sys t in set_fields (df\<lparr>df_year := iYear\<rparr>) t)"

definition set_second :: "int \<Rightarrow> rat \<Rightarrow> time \<Rightarrow> time_error + time" where
  "set_second sys dSec t = (let (df, t) = get sys t in set_fields (df\<lparr>df_sec := dSec\<rparr>) t)"

definition micro :: "time \<Rightarrow> int" where
  "micro t = m_llTime t smod MICROSEC_PER_SEC"

definition ms :: "time \<Rightarrow> int" where
  "ms t = (m_llTime t smod MICROSEC_PER_SEC) sdiv 1000"

definition set_julian_date :: "int \<Rightarrow> time \<Rightarrow> time" where
  "set_julian_date lJulianDate t = t\<lparr>m_llTime := lJulianDate * MICROSEC_PER_DAY\<rparr>"

definition day_of_year :: "int \<Rightarrow> time \<Rightarrow> int" where
  "day_of_year sys t = (julian_date t - calc_julian_date (year sys t) 1 1 + 1) mod 2 ^ 16"

section \<open>Unix time\<close>

definition long_unix :: "int \<Rightarrow> time \<Rightarrow> int" where
  "long_unix sys t =
     (let t = (if m_local_time t then to_utc sys t else t)
      in m_llTime t sdiv MICROSEC_PER_SEC - JULIAN_REF_UNIX * SEC_PER_DAY)"

definition set_long_unix :: "int \<Rightarrow> time \<Rightarrow> time" where
  "set_long_unix lRefSec t =
     t\<lparr>m_llTime := (JULIAN_REF_UNIX * SEC_PER_DAY + lRefSec) * MICROSEC_PER_SEC, m_local_time := False\<rparr>"

definition double_unix :: "int \<Rightarrow> time \<Rightarrow> rat" where
  "double_unix sys t =
     rnd (rnd (of_int (long_unix sys t)) + rnd (of_int (ms t) / 1000))"

definition set_double_unix :: "rat \<Rightarrow> time \<Rightarrow> time" where
  "set_double_unix dRefSec t =
     t\<lparr>m_llTime := (JULIAN_REF_UNIX * SEC_PER_DAY * 1000 + trunc (rnd (dRefSec * 1000))) * 1000, m_local_time := False\<rparr>"

section \<open>The current time\<close>

text \<open>What \<open>gmtime_r\<close> and \<open>localtime_r\<close> fill in; \<open>usec\<close> is the microsecond part of \<open>gettimeofday\<close>.\<close>

record tm =
  tm_sec :: int
  tm_min :: int
  tm_hour :: int
  tm_mday :: int
  tm_mon :: int
  tm_year :: int
  tm_wday :: int
  tm_yday :: int
  tm_gmtoff :: int

definition get_current_local :: "int \<Rightarrow> tm \<Rightarrow> int \<Rightarrow> date_fields" where
  "get_current_local sys tmCurrent lMs =
     \<lparr>df_year = int16 (tm_year tmCurrent + 1900), df_month = uint8 (uint8 (tm_mon tmCurrent) + 1),
       df_day = uint8 (tm_mday tmCurrent), df_hour = uint8 (tm_hour tmCurrent), df_min = uint8 (tm_min tmCurrent),
       df_sec = rnd (of_int (tm_sec tmCurrent) + rnd (of_int lMs / 1000000)),
       df_day_of_year = tm_yday tmCurrent mod 2 ^ 16, df_day_of_week = uint8 (tm_wday tmCurrent), df_week_of_year = 0,
       df_local_time = True, df_tz_bias = sys\<rparr>"

text \<open>The argument is what \<open>gmtime_r\<close> returned; the code ends like that of \<open>get_current_local\<close>.\<close>

definition get_current_utc :: "int \<Rightarrow> tm \<Rightarrow> int \<Rightarrow> date_fields" where
  "get_current_utc sys tmCurrent lMs =
     \<lparr>df_year = int16 (tm_year tmCurrent + 1900), df_month = uint8 (uint8 (tm_mon tmCurrent) + 1),
       df_day = uint8 (tm_mday tmCurrent), df_hour = uint8 (tm_hour tmCurrent), df_min = uint8 (tm_min tmCurrent),
       df_sec = rnd (of_int (tm_sec tmCurrent) + rnd (of_int lMs / 1000000)),
       df_day_of_year = tm_yday tmCurrent mod 2 ^ 16, df_day_of_week = uint8 (tm_wday tmCurrent), df_week_of_year = 0,
       df_local_time = True, df_tz_bias = sys\<rparr>"

definition set_current :: "int \<Rightarrow> bool \<Rightarrow> tm \<Rightarrow> int \<Rightarrow> time \<Rightarrow> time_error + time" where
  "set_current sys utc tmCurrent lMs t =
     map_sum id (\<lambda>t. let t = t\<lparr>m_tz_bias := tm_gmtoff tmCurrent sdiv 60\<rparr> in if utc then to_utc sys t else t)
       (set_local (int16 (tm_year tmCurrent + 1900)) (uint8 (tm_mon tmCurrent + 1)) (uint8 (tm_mday tmCurrent))
          (uint8 (tm_hour tmCurrent)) (uint8 (tm_min tmCurrent))
          (rnd (of_int (tm_sec tmCurrent) + rnd (of_int lMs / 1000000))) t)"

definition now :: "int \<Rightarrow> tm \<Rightarrow> int \<Rightarrow> time \<Rightarrow> time_error + time" where
  "now sys tmCurrent lMs t =
     (if m_local_time t then set_current sys False tmCurrent lMs t else set_current sys True tmCurrent lMs t)"

definition Time_fields :: "int \<Rightarrow> int \<Rightarrow> int \<Rightarrow> int \<Rightarrow> int \<Rightarrow> rat \<Rightarrow> time_error + time" where
  "Time_fields y m d h mi s = set_date_time y m d h mi s Time_ctor"

definition LocalTime_fields :: "int \<Rightarrow> int \<Rightarrow> int \<Rightarrow> int \<Rightarrow> int \<Rightarrow> rat \<Rightarrow> time_error + time" where
  "LocalTime_fields y m d h mi s = set_local y m d h mi s Time_ctor"

section \<open>Raw values\<close>

lemma MICROSEC_PER_DAY_eq: "MICROSEC_PER_DAY = 86400000000"
  by (simp add: MICROSEC_PER_DAY_def int64FromHLPair_def)

lemmas time_consts = SEC_PER_MIN_def SEC_PER_HOUR_def SEC_PER_DAY_def MICROSEC_PER_SEC_def MICROSEC_PER_DAY_eq

text \<open>Day \<open>j\<close>, hour, minute and microseconds in the minute.\<close>

definition raw_of :: "int \<Rightarrow> int \<Rightarrow> int \<Rightarrow> int \<Rightarrow> int" where
  "raw_of j h mi us = (j * 86400 + h * 3600 + mi * 60) * 1000000 + us"

lemma smod_nonneg: "0 \<le> a \<Longrightarrow> 0 < b \<Longrightarrow> a smod b = a mod (b :: int)"
  by (cases "a = 0") (auto simp: signed_modulo_int_def)

lemma raw_of_split:
  assumes "0 \<le> j" "0 \<le> h" "h < 24" "0 \<le> mi" "mi < 60" "0 \<le> us" "us < 60000000"
  shows "raw_of j h mi us sdiv 86400000000 = j"
    and "raw_of j h mi us sdiv 1000000 smod 86400 = h * 3600 + mi * 60 + us div 1000000"
    and "raw_of j h mi us smod 1000000 = us mod 1000000"
    and "0 \<le> raw_of j h mi us"
proof -
  define s where "s = us div 1000000"
  have s: "0 \<le> s" "s \<le> 59" using assms by (auto simp: s_def)
  have us: "us = s * 1000000 + us mod 1000000" by (simp add: s_def)
  have p: "0 \<le> raw_of j h mi us" using assms by (simp add: raw_of_def)
  then show "0 \<le> raw_of j h mi us" .
  have "raw_of j h mi us div 86400000000 = j"
    by (rule div_eqI) (use assms in \<open>simp_all add: raw_of_def\<close>)
  then show "raw_of j h mi us sdiv 86400000000 = j" using p by (simp add: sdiv_nonneg)
  have d: "raw_of j h mi us div 1000000 = j * 86400 + (h * 3600 + mi * 60 + s)"
    by (rule div_eqI) (use us assms in \<open>simp_all add: raw_of_def\<close>)
  have "(j * 86400 + (h * 3600 + mi * 60 + s)) mod 86400 = h * 3600 + mi * 60 + s"
    using assms s by (simp add: mod_pos_pos_trivial)
  then show "raw_of j h mi us sdiv 1000000 smod 86400 = h * 3600 + mi * 60 + us div 1000000"
    using p d assms s by (simp add: sdiv_nonneg smod_nonneg s_def)
  have "raw_of j h mi us mod 1000000 = us mod 1000000" by (simp only: raw_of_def mod_mult_self3)
  then show "raw_of j h mi us smod 1000000 = us mod 1000000" using p by (simp add: smod_nonneg)
qed

text \<open>Seconds as \<open>get\<close> computes them from the microseconds of the minute.\<close>

definition sec_of :: "int \<Rightarrow> rat" where
  "sec_of us = rnd (of_int (us div 1000000) + rnd (of_int (us mod 1000000) / 1000000))"

lemma dow_of_eq: "0 \<le> j \<Longrightarrow> dow_of j = j mod 7 + 1"
proof -
  assume "0 \<le> j"
  then have "j smod 7 = j mod 7" by (simp add: smod_nonneg)
  moreover have "j mod 7 = 0 \<or> j mod 7 = 1 \<or> j mod 7 = 2 \<or> j mod 7 = 3 \<or> j mod 7 = 4 \<or> j mod 7 = 5 \<or> j mod 7 = 6"
    using pos_mod_bound [of 7 j] pos_mod_sign [of 7 j] by linarith
  ultimately show ?thesis by (auto simp: dow_of_def uint8_def Let_def)
qed

lemma get_fields_raw:
  assumes "m_llTime t = raw_of j h mi us" "JJToDate j = (y, m, d)"
    and "0 \<le> j" "0 \<le> h" "h < 24" "0 \<le> mi" "mi < 60" "0 \<le> us" "us < 60000000"
  shows "df_year (get_fields sys t) = y" "df_month (get_fields sys t) = m" "df_day (get_fields sys t) = d"
    "df_hour (get_fields sys t) = h" "df_min (get_fields sys t) = mi" "df_sec (get_fields sys t) = sec_of us"
    "df_day_of_week (get_fields sys t) = j mod 7 + 1"
    "df_local_time (get_fields sys t) = m_local_time t"
    "df_day_of_year (get_fields sys t) = (int16 (j - calc_julian_date y 1 1) + 1) mod 2 ^ 16"
proof -
  note r = raw_of_split [OF assms(3-9)]
  have jd: "julian_date t = j" by (simp add: julian_date_def assms(1) time_consts r)
  define s where "s = us div 1000000"
  have s: "0 \<le> s" "s \<le> 59" using assms by (auto simp: s_def)
  have sec: "(m_llTime t sdiv 1000000) smod 86400 = h * 3600 + mi * 60 + s"
    by (simp add: assms(1) r s_def)
  have m1: "(h * 3600 + mi * 60 + s) mod 2 ^ 32 = h * 3600 + mi * 60 + s"
    using assms s by (intro mod_pos_pos_trivial) auto
  have hh: "(h * 3600 + mi * 60 + s) div 3600 = h" by (rule div_eqI) (use assms s in simp_all)
  have h8: "h mod 256 = h" using assms by (intro mod_pos_pos_trivial) auto
  have m2: "(mi * 60 + s) mod 2 ^ 32 = mi * 60 + s" using assms s by (intro mod_pos_pos_trivial) auto
  have mm: "(mi * 60 + s) div 60 = mi" by (rule div_eqI) (use assms s in simp_all)
  have m8: "mi mod 256 = mi" using assms by (intro mod_pos_pos_trivial) auto
  have s8: "s mod 256 = s" using s by (intro mod_pos_pos_trivial) auto
  have e: "h * 3600 + mi * 60 + s - h * 3600 = mi * 60 + s" "mi * 60 + s - mi * 60 = s" by simp_all
  note simps = e get_fields_def Let_def jd assms(2) time_consts sec m1 hh uint8_def h8 m2 mm m8 s8
  show "df_year (get_fields sys t) = y" "df_month (get_fields sys t) = m" "df_day (get_fields sys t) = d"
    "df_local_time (get_fields sys t) = m_local_time t"
    "df_day_of_year (get_fields sys t) = (int16 (j - calc_julian_date y 1 1) + 1) mod 2 ^ 16"
    by (simp_all only: get_fields_def Let_def jd assms(2) prod.case date_fields.simps)
  show "df_hour (get_fields sys t) = h" "df_min (get_fields sys t) = mi"
    by (simp_all only: simps prod.case date_fields.simps)
  show "df_sec (get_fields sys t) = sec_of us"
    by (simp only: simps prod.case date_fields.simps of_int_numeral) (simp add: sec_of_def assms(1) r s_def)
  have "df_day_of_week (get_fields sys t) = dow_of j"
    by (simp only: get_fields_def Let_def jd assms(2) prod.case date_fields.simps)
  then show "df_day_of_week (get_fields sys t) = j mod 7 + 1" using dow_of_eq [OF assms(3)] by simp
qed

lemma of_int_div_mod: "(of_int us :: rat) = of_int (us div 1000000) * 1000000 + of_int (us mod 1000000)"
proof -
  have "of_int us = (of_int (us div 1000000 * 1000000 + us mod 1000000) :: rat)" by (simp only: div_mult_mod_eq)
  also have "\<dots> = of_int (us div 1000000) * 1000000 + of_int (us mod 1000000)"
    by (simp only: of_int_add of_int_mult of_int_numeral)
  finally show ?thesis .
qed

lemma sec_of_error:
  assumes "0 \<le> us" "us < 60000000"
  shows "\<bar>sec_of us - of_int us / 1000000\<bar> \<le> 63 / 2 ^ 53"
proof -
  define s where "s = (of_int (us div 1000000) :: rat)"
  define f where "f = (of_int (us mod 1000000) / 1000000 :: rat)"
  have "0 \<le> us div 1000000" "us div 1000000 \<le> 59" using assms by auto
  then have "of_int 0 \<le> s" "s \<le> of_int 59" unfolding s_def by (simp_all only: of_int_le_iff)
  then have s: "0 \<le> s" "s \<le> 59" by simp_all
  have "0 \<le> us mod 1000000" "us mod 1000000 \<le> 1000000" using pos_mod_bound [of 1000000 us] by auto
  then have "of_int 0 \<le> (of_int (us mod 1000000) :: rat)" "of_int (us mod 1000000) \<le> (of_int 1000000 :: rat)"
    by (simp_all only: of_int_le_iff)
  then have f: "0 \<le> f" "f \<le> 1" by (simp_all add: f_def)
  have "of_int us / 1000000 = s + f" using of_int_div_mod [of us] by (simp add: s_def f_def field_simps)
  moreover have f1: "\<bar>rnd f - f\<bar> \<le> 1 / 2 ^ 53" by (rule rnd_error_le [OF f])
  have "(1 :: rat) / 2 ^ 53 \<le> 1" by simp
  then have p: "0 \<le> rnd f" "rnd f \<le> 2" using rnd_nonneg [OF f(1)] f f1 by linarith+
  have "\<bar>rnd (s + rnd f) - (s + rnd f)\<bar> \<le> 61 / 2 ^ 53" using s p by (intro rnd_error_le) simp_all
  with f1 have "\<bar>rnd (s + rnd f) - (s + f)\<bar> \<le> 61 / 2 ^ 53 + 1 / 2 ^ 53" by linarith
  then have "\<bar>rnd (s + rnd f) - (s + f)\<bar> \<le> 63 / 2 ^ 53" by simp
  ultimately show ?thesis by (simp only: sec_of_def s_def f_def)
qed

lemma small_error: "(63 :: rat) / 2 ^ 53 < 1 / 100000000"
  by simp

lemma sec_of_bounds: "0 \<le> us \<Longrightarrow> us < 60000000 \<Longrightarrow> 0 \<le> sec_of us \<and> sec_of us < 60"
proof
  assume us: "0 \<le> us" "us < 60000000"
  then have "us \<le> 59999999" by simp
  then have "(of_int us :: rat) \<le> of_int 59999999" by (simp only: of_int_le_iff)
  then have "(of_int us :: rat) / 1000000 \<le> 59999999 / 1000000" by simp
  then show "sec_of us < 60" using sec_of_error [OF us] small_error by linarith
  show "0 \<le> sec_of us"
  proof (cases "us = 0")
    case True
    then show ?thesis by (simp add: sec_of_def rnd_def)
  next
    case False
    then have "1 \<le> us" using us by simp
    then have "of_int 1 \<le> (of_int us :: rat)" by (simp only: of_int_le_iff)
    then have "1 / 1000000 \<le> (of_int us :: rat) / 1000000" by simp
    then show ?thesis using sec_of_error [OF us] small_error by linarith
  qed
qed

text \<open>Storing the seconds that \<open>get\<close> returned gives the microseconds back, or one less.\<close>

lemma sec_of_store:
  assumes "0 \<le> us" "us < 60000000"
  shows "trunc (rnd (sec_of us * 1000000)) = us \<or> trunc (rnd (sec_of us * 1000000)) = us - 1"
    and "0 \<le> trunc (rnd (sec_of us * 1000000))"
proof -
  let ?x = "sec_of us * 1000000"
  note b = sec_of_bounds [OF assms]
  then have x: "0 \<le> ?x" "?x \<le> 60000000" by simp_all
  have "\<bar>rnd ?x - ?x\<bar> \<le> 60000000 / 2 ^ 53" by (rule rnd_error_le [OF x])
  also have "\<dots> < 1 / 10" by simp
  finally have e: "\<bar>rnd ?x - ?x\<bar> < 1 / 10" .
  have "sec_of us - of_int us / 1000000 \<le> 1 / 100000000" "of_int us / 1000000 - sec_of us \<le> 1 / 100000000"
    using sec_of_error [OF assms] small_error by linarith+
  with e have d: "\<bar>rnd ?x - of_int us\<bar> < 1 / 2" by linarith
  show "0 \<le> trunc (rnd ?x)"
  proof (cases "us = 0")
    case True
    then show ?thesis by (simp add: sec_of_def rnd_def trunc_def)
  next
    case False
    then have "of_int 1 \<le> (of_int us :: rat)" using assms(1) by (simp only: of_int_le_iff)
    then have "0 \<le> rnd ?x" using d by linarith
    then show ?thesis by (simp add: trunc_nonneg)
  qed
  show "trunc (rnd ?x) = us \<or> trunc (rnd ?x) = us - 1"
  proof (cases "rnd ?x < 0")
    case True
    then have "of_int us < (1 :: rat)" using d by linarith
    then have us: "us = 0" using assms(1) by simp
    then show ?thesis by (simp add: sec_of_def rnd_def trunc_def)
  next
    case False
    have "of_int (us - 1) \<le> rnd ?x" "rnd ?x < of_int (us + 1)"
      using d by (simp_all only: of_int_diff of_int_add of_int_1)
    then have "us - 1 \<le> \<lfloor>rnd ?x\<rfloor>" "\<lfloor>rnd ?x\<rfloor> < us + 1" by (simp_all only: le_floor_iff floor_less_iff)
    then show ?thesis using False by (auto simp: trunc_nonneg)
  qed
qed
section \<open>Setting the fields\<close>

text \<open>What the checks of \<open>set\<close> admit.\<close>

definition settable :: "date_fields \<Rightarrow> bool" where
  "settable df \<longleftrightarrow> 1 \<le> df_month df \<and> df_month df \<le> 12 \<and> 1 \<le> df_day df
     \<and> df_day df \<le> nb_days_in_month (df_month df) (df_year df)
     \<and> df_hour df \<le> 24 \<and> df_min df \<le> 59 \<and> 0 \<le> df_sec df \<and> df_sec df < 60"

lemma settable_not_empty: "settable df \<Longrightarrow> \<not> fields_empty df"
  by (auto simp: settable_def fields_empty_def)

lemma set_fields_raw:
  assumes "settable df" and j: "j = calc_julian_date (df_year df) (df_month df) (df_day df)" "0 \<le> j" "j < 2 ^ 23"
  shows "set_fields df t = Inr (t\<lparr>m_llTime := raw_of j (df_hour df) (df_min df) (trunc (rnd (df_sec df * 1000000))),
    m_local_time := df_local_time df\<rparr>)"
proof -
  have c: "rnd (of_int j) = of_int j" by (rule rnd_int) (use j in simp_all)
  have "rnd (of_int (j * 86400)) = of_int (j * 86400)" by (rule rnd_int) (use j in simp_all)
  then have "trunc (rnd (of_int (j * 86400))) = j * 86400" by (simp only: trunc_int)
  then have "trunc (rnd (of_int j * 86400)) = j * 86400" by simp
  then show ?thesis
    using assms(1) settable_not_empty [OF assms(1)] c
    by (auto simp: set_fields_def settable_def j(1) [symmetric] Let_def time_consts raw_of_def)
qed

lemma set_fields_error:
  "\<not> fields_empty df \<Longrightarrow> \<not> settable df \<Longrightarrow> set_fields df t = Inl DATE_BAD_ARGS"
  by (auto simp: set_fields_def settable_def)

lemma month_length_le: "valid_date y m d \<Longrightarrow> d \<le> nb_days_in_month m y"
proof -
  assume v: "valid_date y m d"
  then have m: "1 \<le> m" "m \<le> 12" and d: "d \<le> month_length (leap_in y m d) m" by (auto simp: valid_date_def)
  have l: "nb_days_in_month 2 y = 29" if "leap_in y m d"
  proof -
    have four: "4 dvd y" using that by (auto simp: leap_in_def julian_leap_def greg_leap_def split: if_splits)
    then have "y \<noteq> 1582" by auto
    then have "y < 1582 \<or> greg_leap y"
      using that by (auto simp: leap_in_def is_greg_def julian_leap_def greg_leap_def split: if_splits)
    with four show ?thesis by (auto simp: nb_days_in_month_def smod_eq_0 greg_leap_def)
  qed
  have n: "28 \<le> nb_days_in_month 2 y" by (simp add: nb_days_in_month_def)
  show ?thesis
    using m d by (cases rule: month_cases) (use l n in \<open>auto simp: month_length_def nb_days_in_month_def split: if_splits\<close>)
qed

lemma calc_bounds:
  assumes v: "valid_date y m d" and y: "y \<le> 4500"
  shows "0 \<le> calc_julian_date y m d \<and> calc_julian_date y m d < 2 ^ 23"
proof -
  have b: "- 4712 \<le> y" "1 \<le> m" "m \<le> 12" "1 \<le> d" using v by (auto simp: valid_date_def)
  have "d \<le> 31" using month_length_le [OF v] by (auto simp: nb_days_in_month_def split: if_splits)
  moreover have "0 \<le> days_before_month l m \<and> days_before_month l m \<le> 335
      \<and> (3 \<le> m \<longrightarrow> 59 \<le> days_before_month l m)" for l
    using b(2,3) by (cases rule: month_cases) (auto simp: days_before_month_def)
  moreover note b
  ultimately have l: "0 \<le> days_before_month l m \<and> days_before_month l m \<le> 335 \<and> d \<le> 31
      \<and> (3 \<le> m \<longrightarrow> 59 \<le> days_before_month l m)" for l by blast
  show ?thesis
  proof (cases "is_greg y m d")
    case True
    then have "1582 \<le> y" by (auto simp: is_greg_def)
    then show ?thesis
      using y b l [of "greg_leap y"]
      unfolding calc_greg [OF True b(2,3)] greg_jdn_def greg_days_before_year_def by (auto; linarith)
  next
    case False
    then have "y \<le> 1582" by (auto simp: is_greg_def)
    then show ?thesis
      using b l [of "julian_leap y"]
      unfolding calc_julian [OF False b(2,3,1)] julian_jdn_def julian_days_before_year_def by (auto; linarith)
  qed
qed
lemma sec_of_249: "sec_of 249 = 4593239274353678 / 2 ^ 64"
proof -
  have a: "rnd (249 / 1000000) = 4593239274353678 / 2 ^ 64"
    using rnd_eval [of "- 12" "249 / 1000000" "1 / 2 ^ 64" 4593239274353678] by (simp add: power_int_minus)
  have b: "rnd (4593239274353678 / 2 ^ 64) = 4593239274353678 / 2 ^ 64"
    using rnd_eval [of "- 12" "4593239274353678 / 2 ^ 64" "1 / 2 ^ 64" 4593239274353678] by (simp add: power_int_minus)
  have "sec_of 249 = rnd (rnd (249 / 1000000))" by (simp add: sec_of_def)
  then show ?thesis by (simp only: a b)
qed

lemma loss_249: "trunc (rnd (sec_of 249 * 1000000)) = 248"
proof -
  have "rnd (sec_of 249 * 1000000) = 8760908650119167 / 2 ^ 45"
    unfolding sec_of_249
    using rnd_eval [of 7 "4593239274353678 / 2 ^ 64 * 1000000" "1 / 2 ^ 45" 8760908650119167]
    by (simp add: power_int_minus)
  moreover have "\<lfloor>8760908650119167 / 2 ^ 45 :: rat\<rfloor> = 248" by (rule floor_unique) simp_all
  moreover have "0 \<le> (8760908650119167 / 2 ^ 45 :: rat)" by simp
  ultimately show ?thesis by (simp only: trunc_nonneg)
qed

section \<open>Round trips\<close>

lemma day_of_year_eq:
  assumes "valid_date y m d" "\<not> missing_leap_day y m d" "y \<noteq> 1582"
  shows "calc_julian_date y m d - calc_julian_date y 1 1 + 1 = days_before_month (leap_in y m d) m + d"
proof -
  have b: "- 4712 \<le> y" "1 \<le> m" "m \<le> 12" using assms(1) by (auto simp: valid_date_def)
  have g: "is_greg y 1 1 = is_greg y m d" using assms(3) by (auto simp: is_greg_def)
  have j: "days_before_month l 1 = 0" for l by (simp add: days_before_month_def)
  show ?thesis
  proof (cases "is_greg y m d")
    case True
    have "is_greg y 1 1" using True g by simp
    from calc_greg [OF this] calc_greg [OF True b(2,3)] show ?thesis
      by (simp add: greg_jdn_def j leap_in_def True)
  next
    case False
    have "\<not> is_greg y 1 1" using False g by simp
    from calc_julian [OF this _ _ b(1)] calc_julian [OF False b(2,3,1)] show ?thesis
      using assms(2) False by (simp add: julian_jdn_def j leap_in_def missing_leap_day_def)
  qed
qed

text \<open>The date, the time of the day and the microseconds in the minute that a time stands for.\<close>

definition stands_for :: "time \<Rightarrow> int \<Rightarrow> int \<Rightarrow> int \<Rightarrow> int \<Rightarrow> int \<Rightarrow> int \<Rightarrow> bool" where
  "stands_for t y m d h mi us \<longleftrightarrow> valid_date y m d \<and> y \<le> 4500 \<and> \<not> missing_leap_day y m d
     \<and> 0 \<le> h \<and> h < 24 \<and> 0 \<le> mi \<and> mi < 60 \<and> 0 \<le> us \<and> us < 60000000
     \<and> m_llTime t = raw_of (calc_julian_date y m d) h mi us"

lemma get_stands_for:
  assumes "stands_for t y m d h mi us"
  shows "df_year (get_fields sys t) = y" "df_month (get_fields sys t) = m" "df_day (get_fields sys t) = d"
    "df_hour (get_fields sys t) = h" "df_min (get_fields sys t) = mi" "df_sec (get_fields sys t) = sec_of us"
    "df_day_of_week (get_fields sys t) = calc_julian_date y m d mod 7 + 1"
    "df_local_time (get_fields sys t) = m_local_time t"
    "y \<noteq> 1582 \<Longrightarrow> df_day_of_year (get_fields sys t) = days_before_month (leap_in y m d) m + d"
proof -
  note s = assms [unfolded stands_for_def]
  have j: "JJToDate (calc_julian_date y m d) = (y, m, d)" by (rule JJToDate_inverse) (use s in auto)
  have p: "0 \<le> calc_julian_date y m d" using calc_bounds [of y m d] s by blast
  note g = get_fields_raw [of t _ h mi us y m d sys, OF _ j p]
  show "df_year (get_fields sys t) = y" "df_month (get_fields sys t) = m" "df_day (get_fields sys t) = d"
    "df_hour (get_fields sys t) = h" "df_min (get_fields sys t) = mi" "df_sec (get_fields sys t) = sec_of us"
    "df_day_of_week (get_fields sys t) = calc_julian_date y m d mod 7 + 1"
    "df_local_time (get_fields sys t) = m_local_time t"
    by (rule g; use s in blast)+
  show "df_day_of_year (get_fields sys t) = days_before_month (leap_in y m d) m + d" if "y \<noteq> 1582"
  proof -
    have m: "1 \<le> m" "m \<le> 12" "1 \<le> d" using s by (auto simp: valid_date_def)
    have "d \<le> 31" using month_length_le [of y m d] s by (auto simp: nb_days_in_month_def split: if_splits)
    note d = this m(3)
    have b: "1 \<le> days_before_month l m + d \<and> days_before_month l m + d \<le> 366" for l
      using m(1,2) by (cases rule: month_cases) (use d in \<open>auto simp: days_before_month_def\<close>)
    define k where "k = days_before_month (leap_in y m d) m + d - 1"
    have k: "0 \<le> k" "k \<le> 365" using b [of "leap_in y m d"] by (simp_all add: k_def)
    have "calc_julian_date y m d - calc_julian_date y 1 1 = k"
      using day_of_year_eq [of y m d] that s by (simp add: k_def)
    then have "df_day_of_year (get_fields sys t) = (int16 k + 1) mod 2 ^ 16"
      using g(9) s by simp
    also have "\<dots> = k + 1" using k by (simp add: int16_id)
    finally show ?thesis by (simp add: k_def)
  qed
qed
lemma stands_for_set:
  assumes v: "valid_date (df_year df) (df_month df) (df_day df)" "df_year df \<le> 4500"
    "\<not> missing_leap_day (df_year df) (df_month df) (df_day df)"
    and h: "0 \<le> df_hour df" "df_hour df < 24" "0 \<le> df_min df" "df_min df < 60" "0 \<le> df_sec df" "df_sec df < 60"
    and us: "us = trunc (rnd (df_sec df * 1000000))" "us < 60000000"
  shows "\<exists>t'. set_fields df t = Inr t' \<and> m_local_time t' = df_local_time df \<and> m_tz_bias t' = m_tz_bias t
    \<and> stands_for t' (df_year df) (df_month df) (df_day df) (df_hour df) (df_min df) us"
proof -
  have s: "settable df"
    using month_length_le [OF v(1)] v h by (auto simp: settable_def valid_date_def)
  have "0 \<le> rnd (df_sec df * 1000000)" using h by (intro rnd_nonneg) simp
  then have "0 \<le> us" by (simp add: us(1) trunc_nonneg)
  then show ?thesis
    using set_fields_raw [OF s refl] calc_bounds [OF v(1,2)] v h us(2)
    by (simp add: stands_for_def flip: us(1))
qed

text \<open>
  Setting and reading. A date of the calendar (-4712 to 4500) and a time of the day that \<open>set\<close> takes come back
  from \<open>get\<close> with the day of the week (1 is Monday) and the day of the year, and the seconds as the double
  nearest to their microseconds.
\<close>

theorem time_set_get:
  assumes "valid_date y m d" "y \<le> 4500" "\<not> missing_leap_day y m d"
    and "0 \<le> h" "h < 24" "0 \<le> mi" "mi < 60" "0 \<le> s" "s < 60"
    and "trunc (rnd (s * 1000000)) < 60000000"
  shows "\<exists>t'. set_date_time y m d h mi s t = Inr t' \<and>
    (let df = get_fields sys t' in
       df_year df = y \<and> df_month df = m \<and> df_day df = d \<and> df_hour df = h \<and> df_min df = mi
       \<and> df_sec df = sec_of (trunc (rnd (s * 1000000))) \<and> df_local_time df = False
       \<and> df_day_of_week df = calc_julian_date y m d mod 7 + 1
       \<and> (y \<noteq> 1582 \<longrightarrow> df_day_of_year df = days_before_month (leap_in y m d) m + d))"
proof -
  define df where "df = clear_fields\<lparr>df_year := y, df_month := m, df_day := d, df_hour := h, df_min := mi, df_sec := s,
    df_local_time := False\<rparr>"
  obtain t' where t': "set_fields df t = Inr t'" "m_local_time t' = False"
    "stands_for t' y m d h mi (trunc (rnd (s * 1000000)))"
    using stands_for_set [of df "trunc (rnd (s * 1000000))" t] assms by (auto simp: df_def)
  show ?thesis
    using get_stands_for [OF t'(3), of sys] t'(1,2)
    by (simp add: set_date_time_def Let_def flip: df_def)
qed

theorem time_set_get_witness:
  "\<exists>t'. set_date_time 2024 2 29 23 59 0 Time_ctor = Inr t' \<and> df_day_of_week (get_fields 60 t') = 4
     \<and> df_day_of_year (get_fields 60 t') = 60 \<and> df_hour (get_fields 60 t') = 23"
proof -
  have v: "valid_date 2024 2 29" "\<not> missing_leap_day 2024 2 29" by code_simp+
  have c: "calc_julian_date 2024 2 29 mod 7 + 1 = 4" "days_before_month (leap_in 2024 2 29) 2 + 29 = 60" by code_simp+
  show ?thesis
    using time_set_get [OF v(1) _ v(2), of 23 59 0 Time_ctor 60] c by (auto simp: Let_def rnd_def trunc_def)
qed

text \<open>The microseconds that a store of read seconds leaves.\<close>

definition restored :: "int \<Rightarrow> int" where
  "restored us = trunc (rnd (sec_of us * 1000000))"

lemma set_read_fields:
  assumes t: "stands_for t y m d h mi us"
    and df: "df_sec df = sec_of us" "df_local_time df = m_local_time t"
    and v: "valid_date (df_year df) (df_month df) (df_day df)" "df_year df \<le> 4500"
    "\<not> missing_leap_day (df_year df) (df_month df) (df_day df)"
    and h: "0 \<le> df_hour df" "df_hour df < 24" "0 \<le> df_min df" "df_min df < 60"
  shows "\<exists>t'. set_fields df t0 = Inr t' \<and> m_local_time t' = m_local_time t
    \<and> stands_for t' (df_year df) (df_month df) (df_day df) (df_hour df) (df_min df) (restored us)"
proof -
  have us: "0 \<le> us" "us < 60000000" using t by (auto simp: stands_for_def)
  note b = sec_of_bounds [OF us]
  have "restored us \<le> us" using sec_of_store [OF us] by (auto simp: restored_def)
  then have "restored us < 60000000" using us by simp
  then show ?thesis
    using stands_for_set [OF v h _ _ _ _, of "restored us" t0] b df by (auto simp: restored_def)
qed

lemma setters:
  assumes "stands_for t y m d h mi us"
  shows "restored us = us \<or> restored us = us - 1"
    and "0 \<le> h' \<Longrightarrow> h' < 24 \<Longrightarrow> \<exists>t'. set_hour sys h' t = Inr t' \<and> m_local_time t' = m_local_time t
      \<and> stands_for t' y m d h' mi (restored us)"
    and "0 \<le> mi' \<Longrightarrow> mi' < 60 \<Longrightarrow> \<exists>t'. set_minute sys mi' t = Inr t' \<and> m_local_time t' = m_local_time t
      \<and> stands_for t' y m d h mi' (restored us)"
    and "valid_date y m d' \<Longrightarrow> \<not> missing_leap_day y m d' \<Longrightarrow>
      \<exists>t'. set_day sys d' t = Inr t' \<and> m_local_time t' = m_local_time t \<and> stands_for t' y m d' h mi (restored us)"
    and "valid_date y m' d \<Longrightarrow> \<not> missing_leap_day y m' d \<Longrightarrow>
      \<exists>t'. set_month sys m' t = Inr t' \<and> m_local_time t' = m_local_time t \<and> stands_for t' y m' d h mi (restored us)"
    and "valid_date y' m d \<Longrightarrow> y' \<le> 4500 \<Longrightarrow> \<not> missing_leap_day y' m d \<Longrightarrow>
      \<exists>t'. set_year sys y' t = Inr t' \<and> m_local_time t' = m_local_time t \<and> stands_for t' y' m d h mi (restored us)"
    and "nb_days_in_month m' y < d \<Longrightarrow> set_month sys m' t = Inl DATE_BAD_ARGS"
    and "nb_days_in_month m y' < d \<Longrightarrow> set_year sys y' t = Inl DATE_BAD_ARGS"
proof -
  note s = assms [unfolded stands_for_def]
  note g = get_stands_for [OF assms, of sys]
  show "restored us = us \<or> restored us = us - 1" using sec_of_store(1) [of us] s by (simp add: restored_def)
  have d: "1 \<le> m" "1 \<le> d" using s by (auto simp: valid_date_def)
  show "\<exists>t'. set_hour sys h' t = Inr t' \<and> m_local_time t' = m_local_time t \<and> stands_for t' y m d h' mi (restored us)"
    if "0 \<le> h'" "h' < 24"
    using set_read_fields [OF assms, of "(get_fields sys t)\<lparr>df_hour := h'\<rparr>"] s g that by (auto simp: set_hour_def get_def)
  show "\<exists>t'. set_minute sys mi' t = Inr t' \<and> m_local_time t' = m_local_time t \<and> stands_for t' y m d h mi' (restored us)"
    if "0 \<le> mi'" "mi' < 60"
    using set_read_fields [OF assms, of "(get_fields sys t)\<lparr>df_min := mi'\<rparr>"] s g that by (auto simp: set_minute_def get_def)
  show "\<exists>t'. set_day sys d' t = Inr t' \<and> m_local_time t' = m_local_time t \<and> stands_for t' y m d' h mi (restored us)"
    if "valid_date y m d'" "\<not> missing_leap_day y m d'"
    using set_read_fields [OF assms, of "(get_fields sys t)\<lparr>df_day := d'\<rparr>"] s g that by (auto simp: set_day_def get_def)
  show "\<exists>t'. set_month sys m' t = Inr t' \<and> m_local_time t' = m_local_time t \<and> stands_for t' y m' d h mi (restored us)"
    if "valid_date y m' d" "\<not> missing_leap_day y m' d"
    using set_read_fields [OF assms, of "(get_fields sys t)\<lparr>df_month := m'\<rparr>"] s g that by (auto simp: set_month_def get_def)
  show "\<exists>t'. set_year sys y' t = Inr t' \<and> m_local_time t' = m_local_time t \<and> stands_for t' y' m d h mi (restored us)"
    if "valid_date y' m d" "y' \<le> 4500" "\<not> missing_leap_day y' m d"
    using set_read_fields [OF assms, of "(get_fields sys t)\<lparr>df_year := y'\<rparr>"] s g that by (auto simp: set_year_def get_def)
  show "set_month sys m' t = Inl DATE_BAD_ARGS" if "nb_days_in_month m' y < d"
    unfolding set_month_def get_def Let_def prod.case
    by (rule set_fields_error) (use g d that in \<open>auto simp: fields_empty_def settable_def\<close>)
  show "set_year sys y' t = Inl DATE_BAD_ARGS" if "nb_days_in_month m y' < d"
    unfolding set_year_def get_def Let_def prod.case
    by (rule set_fields_error) (use g d that in \<open>auto simp: fields_empty_def settable_def\<close>)
qed

text \<open>
  The setters. On a time of the calendar each setter replaces its field when the new fields exist and keeps
  the others and the local flag - but for the microseconds, which are read and written back through a
  double: they are the same or one less (249 becomes 248). A month or a year that does not have the day is an error.
\<close>

theorem time_setters:
  assumes "stands_for t y m d h mi us"
  shows "(restored us = us \<or> restored us = us - 1)
    \<and> (0 \<le> h' \<longrightarrow> h' < 24 \<longrightarrow>
        (\<exists>t'. set_hour sys h' t = Inr t' \<and> m_local_time t' = m_local_time t
          \<and> stands_for t' y m d h' mi (restored us)))
    \<and> (0 \<le> mi' \<longrightarrow> mi' < 60 \<longrightarrow>
        (\<exists>t'. set_minute sys mi' t = Inr t' \<and> m_local_time t' = m_local_time t
          \<and> stands_for t' y m d h mi' (restored us)))
    \<and> (valid_date y m d' \<longrightarrow> \<not> missing_leap_day y m d' \<longrightarrow>
        (\<exists>t'. set_day sys d' t = Inr t' \<and> m_local_time t' = m_local_time t
          \<and> stands_for t' y m d' h mi (restored us)))
    \<and> (valid_date y m' d \<longrightarrow> \<not> missing_leap_day y m' d \<longrightarrow>
        (\<exists>t'. set_month sys m' t = Inr t' \<and> m_local_time t' = m_local_time t
          \<and> stands_for t' y m' d h mi (restored us)))
    \<and> (valid_date y' m d \<longrightarrow> y' \<le> 4500 \<longrightarrow> \<not> missing_leap_day y' m d \<longrightarrow>
        (\<exists>t'. set_year sys y' t = Inr t' \<and> m_local_time t' = m_local_time t
          \<and> stands_for t' y' m d h mi (restored us)))
    \<and> (nb_days_in_month m' y < d \<longrightarrow> set_month sys m' t = Inl DATE_BAD_ARGS)
    \<and> (nb_days_in_month m y' < d \<longrightarrow> set_year sys y' t = Inl DATE_BAD_ARGS)"
  using setters [OF assms] by simp

theorem time_setters_witness:
  "let t = \<lparr>m_llTime = raw_of (calc_julian_date 2024 1 31) 0 0 249, m_local_time = True, m_tz_bias = 60\<rparr>
   in (\<exists>t'. set_hour 60 5 t = Inr t' \<and> stands_for t' 2024 1 31 5 0 248 \<and> m_local_time t')
      \<and> set_month 60 2 t = Inl DATE_BAD_ARGS"
proof -
  define t where "t = \<lparr>m_llTime = raw_of (calc_julian_date 2024 1 31) 0 0 249, m_local_time = True, m_tz_bias = 60\<rparr>"
  have "valid_date 2024 1 31" "\<not> missing_leap_day 2024 1 31" by code_simp+
  then have s: "stands_for t 2024 1 31 0 0 249" by (simp add: stands_for_def t_def)
  have l0: "m_local_time t" by (simp add: t_def)
  have r: "restored 249 = 248" by (simp add: restored_def loss_249)
  have l: "nb_days_in_month 2 2024 < 31" by code_simp
  have "\<exists>t'. set_hour 60 5 t = Inr t' \<and> stands_for t' 2024 1 31 5 0 248 \<and> m_local_time t'"
    using time_setters [OF s, THEN conjunct2, THEN conjunct1, rule_format, of 5 60] r l0 by auto
  moreover have "set_month 60 2 t = Inl DATE_BAD_ARGS"
    using time_setters [OF s, THEN conjunct2, THEN conjunct2, THEN conjunct2, THEN conjunct2, THEN conjunct2,
      THEN conjunct2, THEN conjunct1, rule_format, OF l] .
  ultimately show ?thesis by (simp add: Let_def t_def)
qed

text \<open>
  What \<open>set\<close> refuses. All fields zero is the null time and leaves the local flag alone; other fields are an error
  exactly when one is out of range. The hour 24 is in range, with any minute and second: it is
  the same moment as hour 0 of the following day.
\<close>

theorem time_set_errors:
  "(fields_empty df \<longrightarrow> set_fields df t = Inr (t\<lparr>m_llTime := 0\<rparr>))
   \<and> (\<not> fields_empty df \<longrightarrow> (set_fields df t = Inl DATE_BAD_ARGS \<longleftrightarrow> \<not> settable df))
   \<and> (settable df \<longrightarrow> valid_date (df_year df) (df_month df) (df_day df) \<longrightarrow> df_year df \<le> 4500 \<longrightarrow> df_hour df = 24 \<longrightarrow>
       (\<exists>t'. set_fields df t = Inr t'
          \<and> m_llTime t' = raw_of (calc_julian_date (df_year df) (df_month df) (df_day df) + 1) 0 (df_min df)
              (trunc (rnd (df_sec df * 1000000)))))"
proof (intro conjI impI)
  show "set_fields df t = Inr (t\<lparr>m_llTime := 0\<rparr>)" if "fields_empty df" using that by (simp add: set_fields_def)
  show "set_fields df t = Inl DATE_BAD_ARGS \<longleftrightarrow> \<not> settable df" if "\<not> fields_empty df"
    using that by (auto simp: set_fields_def settable_def Let_def)
  show "\<exists>t'. set_fields df t = Inr t'
      \<and> m_llTime t' = raw_of (calc_julian_date (df_year df) (df_month df) (df_day df) + 1) 0 (df_min df)
          (trunc (rnd (df_sec df * 1000000)))"
    if "settable df" "valid_date (df_year df) (df_month df) (df_day df)" "df_year df \<le> 4500" "df_hour df = 24"
    using set_fields_raw [OF that(1) refl] calc_bounds [OF that(2,3)] that(4) by (simp add: raw_of_def)
qed

theorem time_set_errors_witness:
  "set_fields clear_fields Time_ctor = Inr Time_ctor
   \<and> set_fields (clear_fields\<lparr>df_year := 2023, df_month := 2, df_day := 29\<rparr>) Time_ctor = Inl DATE_BAD_ARGS
   \<and> (\<exists>t'. set_fields (clear_fields\<lparr>df_year := 2023, df_month := 2, df_day := 28, df_hour := 24\<rparr>) Time_ctor = Inr t'
        \<and> m_llTime t' = raw_of (calc_julian_date 2023 3 1) 0 0 0)"
proof -
  have a: "fields_empty clear_fields" "\<not> settable (clear_fields\<lparr>df_year := 2023, df_month := 2, df_day := 29\<rparr>)"
    "\<not> fields_empty (clear_fields\<lparr>df_year := 2023, df_month := 2, df_day := 29\<rparr>)" by code_simp+
  have b: "settable (clear_fields\<lparr>df_year := 2023, df_month := 2, df_day := 28, df_hour := 24\<rparr>)"
    "valid_date 2023 2 28" "calc_julian_date 2023 2 28 + 1 = calc_julian_date 2023 3 1" by code_simp+
  show ?thesis
    using time_set_errors [of clear_fields Time_ctor]
      time_set_errors [of "clear_fields\<lparr>df_year := 2023, df_month := 2, df_day := 29\<rparr>" Time_ctor]
      time_set_errors [of "clear_fields\<lparr>df_year := 2023, df_month := 2, df_day := 28, df_hour := 24\<rparr>" Time_ctor] a b
    by (auto simp: Time_ctor_def clear_fields_def rnd_def trunc_def)
qed

section \<open>Local time and Unix time\<close>

lemma rnd_int_abs: "\<bar>n\<bar> < 2 ^ 53 \<Longrightarrow> rnd (of_int n) = of_int n"
proof (cases "0 \<le> n")
  case False
  assume "\<bar>n\<bar> < 2 ^ 53"
  then have "rnd (of_int (- n)) = of_int (- n)" using False by (intro rnd_int) auto
  then show ?thesis using False by (simp add: rnd_def)
qed (simp add: rnd_int)

lemma add_sec_int: "\<bar>n\<bar> \<le> 9007199254 \<Longrightarrow> add_sec (of_int n) t = t\<lparr>m_llTime := m_llTime t + n * 1000000\<rparr>"
proof -
  assume n: "\<bar>n\<bar> \<le> 9007199254"
  then have "rnd (of_int (n * 1000000)) = of_int (n * 1000000)" by (intro rnd_int_abs) simp
  then have "trunc (rnd (of_int (n * 1000000))) = n * 1000000" by (simp only: trunc_int)
  then show ?thesis by (simp add: add_sec_def)
qed

text \<open>The bias in use, in minutes.\<close>

definition bias :: "int \<Rightarrow> time \<Rightarrow> int" where
  "bias sys t = (if m_tz_bias t = - 1 then sys else m_tz_bias t)"

lemma to_local_eq:
  assumes "\<bar>bias sys t\<bar> \<le> 1440"
  shows "to_local sys t = (if m_local_time t then t
    else \<lparr>m_llTime = m_llTime t + bias sys t * 60000000, m_local_time = True, m_tz_bias = bias sys t\<rparr>)"
proof (cases "m_local_time t")
  case False
  have "\<bar>60 * bias sys t\<bar> \<le> 9007199254" using assms by linarith
  from add_sec_int [OF this] show ?thesis
    using False by (auto simp: to_local_def time_zone_bias_def Let_def bias_def)
qed (simp add: to_local_def)

lemma to_utc_eq:
  assumes "\<bar>bias sys t\<bar> \<le> 1440"
  shows "to_utc sys t = (if \<not> m_local_time t then t
    else \<lparr>m_llTime = m_llTime t - bias sys t * 60000000, m_local_time = False, m_tz_bias = bias sys t\<rparr>)"
proof (cases "m_local_time t")
  case True
  have "\<bar>- (60 * bias sys t)\<bar> \<le> 9007199254" using assms by linarith
  from add_sec_int [OF this] show ?thesis
    using True by (auto simp: to_utc_def time_zone_bias_def Let_def bias_def)
qed (simp add: to_utc_def)

text \<open>
  Local and universal time. Conversion to local time adds the bias, is idempotent, is undone by \<open>to_utc\<close>, and does
  not change the Unix time; \<open>set_long_unix\<close> is read back by \<open>long_unix\<close>. A bias of -1 minute cannot
  be set: it is the mark for an unknown bias, and the system's is used.
\<close>

theorem time_zones:
  assumes "\<bar>bias sys t\<bar> \<le> 1440"
  shows "(\<not> m_local_time t \<longrightarrow> m_llTime (to_local sys t) = m_llTime t + bias sys t * 60 * MICROSEC_PER_SEC
            \<and> m_llTime (to_utc sys (to_local sys t)) = m_llTime t \<and> \<not> m_local_time (to_utc sys (to_local sys t)))
    \<and> m_local_time (to_local sys t) \<and> to_local sys (to_local sys t) = to_local sys t
    \<and> long_unix sys (to_local sys t) = long_unix sys t \<and> long_unix sys (to_utc sys t) = long_unix sys t
    \<and> long_unix sys (set_long_unix n t) = n
    \<and> bias sys (set_time_zone_bias b t) = (if b = - 1 then sys else b)"
proof -
  let ?l = "\<lparr>m_llTime = m_llTime t + bias sys t * 60000000, m_local_time = True, m_tz_bias = bias sys t\<rparr>"
  let ?u = "\<lparr>m_llTime = m_llTime t - bias sys t * 60000000, m_local_time = False, m_tz_bias = bias sys t\<rparr>"
  have b: "bias sys ?l = bias sys t" by (simp add: bias_def)
  have lu: "to_utc sys ?l = \<lparr>m_llTime = m_llTime t, m_local_time = False, m_tz_bias = bias sys t\<rparr>"
    using to_utc_eq [of sys ?l] assms b by simp
  have l: "to_local sys t = (if m_local_time t then t else ?l)" by (rule to_local_eq [OF assms])
  have u: "to_utc sys t = (if \<not> m_local_time t then t else ?u)" by (rule to_utc_eq [OF assms])
  have n: "n * 1000000 sdiv 1000000 = n" for n :: int
    by (simp add: signed_divide_int_def abs_mult sgn_mult mult_sgn_abs)
  have "to_local sys ?l = ?l" by (simp add: to_local_def)
  then have "to_local sys (to_local sys t) = to_local sys t" using l by (simp add: to_local_def)
  moreover have "long_unix sys (to_local sys t) = long_unix sys t" unfolding l by (simp add: long_unix_def lu Let_def)
  moreover have "long_unix sys (to_utc sys t) = long_unix sys t"
    using u by (cases "m_local_time t") (simp_all add: long_unix_def Let_def)
  moreover have "long_unix sys (set_long_unix n t) = n" 
    using n [of "JULIAN_REF_UNIX * 86400 + n"] by (simp add: long_unix_def set_long_unix_def time_consts distrib_right)
  moreover have "bias sys (set_time_zone_bias b t) = (if b = - 1 then sys else b)" by (simp add: set_time_zone_bias_def bias_def)
  moreover have "m_local_time (to_local sys t)" by (simp add: l)
  moreover have "\<not> m_local_time t \<longrightarrow> m_llTime (to_local sys t) = m_llTime t + bias sys t * 60 * MICROSEC_PER_SEC
      \<and> m_llTime (to_utc sys (to_local sys t)) = m_llTime t \<and> \<not> m_local_time (to_utc sys (to_local sys t))"
    unfolding l by (simp add: lu time_consts)
  ultimately show ?thesis by blast
qed

theorem time_zones_witness:
  "let t = set_long_unix 1700000000 (set_time_zone_bias 120 Time_ctor) in long_unix 60 (to_local 60 t) = 1700000000"
proof -
  have b: "\<bar>bias 60 (set_long_unix 1700000000 (set_time_zone_bias 120 Time_ctor))\<bar> \<le> 1440"
    "\<bar>bias 60 (set_time_zone_bias 120 Time_ctor)\<bar> \<le> 1440" by code_simp+
  show ?thesis using time_zones [OF b(1)] time_zones [OF b(2)] by (simp add: Let_def)
qed
text \<open>
  \<open>set_day_of_year\<close> gives the day with that number in the year, at the time of day the object had (the header
  says it is cleared), and always as universal time: the local flag of the object is lost without a conversion.
\<close>

theorem time_set_day_of_year:
  assumes "stands_for t y m d h mi us" "valid_date y' m' d'" "\<not> missing_leap_day y' m' d'" "y' \<noteq> 1582" "y' \<le> 4500"
  shows "\<exists>t'. set_day_of_year sys (days_before_month (leap_in y' m' d') m' + d') y' t = Inr t'
    \<and> stands_for t' y' m' d' h mi (restored us) \<and> \<not> m_local_time t'"
proof -
  note s = assms(1) [unfolded stands_for_def]
  note g = get_stands_for [OF assms(1), of sys]
  let ?n = "days_before_month (leap_in y' m' d') m' + d'"
  have e: "calc_julian_date y' m' d' = calc_julian_date y' 1 1 + (?n - 1)"
    using day_of_year_eq [OF assms(2,3,4)] by simp
  have "- 4712 \<le> y'" using assms(2) by (simp add: valid_date_def)
  then have v: "valid_date y' 1 1" "\<not> missing_leap_day y' 1 1"
    by (auto simp: valid_date_def missing_leap_day_def month_length_def)
  define df where "df = clear_fields\<lparr>df_year := y', df_month := 1, df_day := 1, df_hour := h, df_min := mi,
    df_sec := sec_of us, df_local_time := False\<rparr>"
  have us: "0 \<le> us" "us < 60000000" using s by auto
  have r: "restored us < 60000000" "0 \<le> restored us" using sec_of_store [OF us] us by (auto simp: restored_def)
  obtain t1 where t1: "set_fields df (snd (get sys t)) = Inr t1" "\<not> m_local_time t1" "stands_for t1 y' 1 1 h mi (restored us)"
    using stands_for_set [of df "restored us" "snd (get sys t)"] v assms(5) s sec_of_bounds [OF us] r
    by (auto simp: df_def restored_def)
  have "0 \<le> ?n - 1 \<and> ?n - 1 \<le> 366"
  proof -
    have "d' \<le> 31" using month_length_le [OF assms(2)] by (auto simp: nb_days_in_month_def split: if_splits)
    note d = this
    have m: "1 \<le> m'" "m' \<le> 12" "1 \<le> d'" using assms(2) by (auto simp: valid_date_def)
    show ?thesis
      using m(1,2) by (cases rule: month_cases) (use d m(3) in \<open>auto simp: days_before_month_def\<close>)
  qed
  then have "\<bar>(?n - 1) * 86400\<bar> \<le> 9007199254" by simp
  note a = add_sec_int [OF this, of t1]
  have "set_day_of_year sys ?n y' t = Inr (add_sec (of_int ((?n - 1) * 86400)) t1)"
    using t1(1) g by (simp add: set_day_of_year_def get_def Let_def set_date_time_def time_consts df_def)
  moreover have "stands_for (add_sec (of_int ((?n - 1) * 86400)) t1) y' m' d' h mi (restored us)"
    unfolding a using t1(3) assms(2,3,5) e by (simp add: stands_for_def raw_of_def)
  moreover have "\<not> m_local_time (add_sec (of_int ((?n - 1) * 86400)) t1)" unfolding a using t1(2) by simp
  ultimately show ?thesis by blast
qed

theorem time_set_day_of_year_witness:
  "let t = \<lparr>m_llTime = raw_of (calc_julian_date 2023 5 17) 13 0 0, m_local_time = True, m_tz_bias = 120\<rparr>
   in \<exists>t'. set_day_of_year 60 60 2024 t = Inr t' \<and> stands_for t' 2024 2 29 13 0 0 \<and> \<not> m_local_time t'"
proof -
  define t where "t = \<lparr>m_llTime = raw_of (calc_julian_date 2023 5 17) 13 0 0, m_local_time = True, m_tz_bias = 120\<rparr>"
  have "valid_date 2023 5 17" "\<not> missing_leap_day 2023 5 17" by code_simp+
  then have s: "stands_for t 2023 5 17 13 0 0" by (simp add: stands_for_def t_def)
  have v: "valid_date 2024 2 29" "\<not> missing_leap_day 2024 2 29" "days_before_month (leap_in 2024 2 29) 2 + 29 = 60" by code_simp+
  have r: "restored 0 = 0" by (simp add: restored_def sec_of_def rnd_def trunc_def)
  show ?thesis using time_set_day_of_year [OF s v(1,2), of 60] by (simp add: v(3) r Let_def t_def)
qed

text \<open>
  The week of the year counts Mondays: it is 0 in the days before the first Monday of the year (the header
  promises 1 to 53), and 1 to 53 from then on.
\<close>

theorem time_week_of_year:
  assumes "stands_for t y m d h mi us" "y \<noteq> 1582"
  shows "let df = get_fields sys t in
    df_week_of_year df = (df_day_of_year df + 7 - df_day_of_week df) div 7
    \<and> (df_week_of_year df = 0 \<longleftrightarrow> df_day_of_year df < df_day_of_week df) \<and> df_week_of_year df \<le> 53"
proof -
  note s = assms(1) [unfolded stands_for_def]
  note g = get_stands_for [OF assms(1), of sys]
  define w where "w = df_day_of_week (get_fields sys t)"
  define n where "n = df_day_of_year (get_fields sys t)"
  define i where "i = int16 (n - w)"
  have "0 \<le> calc_julian_date y m d mod 7" "calc_julian_date y m d mod 7 < 7" by simp_all
  then have w: "1 \<le> w" "w \<le> 7" using g(7) unfolding w_def by linarith+
  have n: "1 \<le> n" "n \<le> 366"
  proof -
    have m: "1 \<le> m" "m \<le> 12" "1 \<le> d" using s by (auto simp: valid_date_def)
    have d: "d \<le> month_length (leap_in y m d) m" using s by (auto simp: valid_date_def)
    have "1 \<le> days_before_month (leap_in y m d) m + d \<and> days_before_month (leap_in y m d) m + d \<le> 366"
      using m(1,2) by (cases rule: month_cases)
        (use d m(3) in \<open>auto simp: days_before_month_def month_length_def split: if_splits\<close>)
    then show "1 \<le> n" "n \<le> 366" using g(9) assms(2) by (simp_all add: n_def)
  qed
  have i: "i = n - w" unfolding i_def by (rule int16_id) (use w n in auto)
  have "df_week_of_year (get_fields sys t) = week_of n w"
    unfolding n_def w_def by (cases "JJToDate (julian_date t)") (simp only: get_fields_def Let_def prod.case date_fields.simps)
  then have f: "df_week_of_year (get_fields sys t) = (if i \<ge> 0 then uint8 (uint8 (i sdiv 7) + 1) else uint8 (i sdiv 7))"
    by (simp add: week_of_def i_def Let_def)
  have "df_week_of_year (get_fields sys t) = (n + 7 - w) div 7"
  proof (cases "0 \<le> i")
    case True
    have "0 \<le> i div 7" "i div 7 \<le> 52" using True i w n by auto
    moreover have "(n + 7 - w) div 7 = i div 7 + 1" using i by auto
    ultimately show ?thesis using f True by (simp add: uint8_def sdiv_nonneg)
  next
    case False
    then have "- 6 \<le> i" using i w n by simp
    then have "i sdiv 7 = 0" using False by (simp add: signed_divide_int_def sgn_if)
    moreover have "(n + 7 - w) div 7 = 0" using False i w n by simp
    ultimately show ?thesis using f False by (simp add: uint8_def)
  qed
  moreover have "(n + 7 - w) div 7 = 0 \<longleftrightarrow> n < w" using w n by auto
  moreover have "(n + 7 - w) div 7 \<le> 53" using w n by linarith
  ultimately show ?thesis by (simp add: Let_def n_def w_def)
qed

theorem time_week_of_year_witness:
  "let t = \<lparr>m_llTime = raw_of (calc_julian_date 2023 1 1) 0 0 0, m_local_time = False, m_tz_bias = 0\<rparr>
   in df_week_of_year (get_fields 0 t) = 0"
proof -
  define t where "t = \<lparr>m_llTime = raw_of (calc_julian_date 2023 1 1) 0 0 0, m_local_time = False, m_tz_bias = 0\<rparr>"
  have v: "valid_date 2023 1 1" "\<not> missing_leap_day 2023 1 1" "days_before_month (leap_in 2023 1 1) 1 + 1 = 1"
    "calc_julian_date 2023 1 1 mod 7 + 1 = 7" by code_simp+
  then have s: "stands_for t 2023 1 1 0 0 0" by (simp add: stands_for_def t_def)
  have "df_day_of_year (get_fields 0 t) = 1" "df_day_of_week (get_fields 0 t) = 7"
    using get_stands_for(7,9) [OF s, of 0] v(3,4) by simp_all
  then have "df_week_of_year (get_fields 0 t) = 0" using time_week_of_year [OF s, of 0] by (simp add: Let_def)
  then show ?thesis by (simp add: Let_def t_def)
qed

lemma map_sum_Inr: "map_sum id f x = Inr y \<longleftrightarrow> (\<exists>z. x = Inr z \<and> y = f z)"
  by (cases x) auto

text \<open>
  The current time. When the system's answer is a time that \<open>set\<close> takes, the local and the universal version are the
  same moment, with the bias of the system.
  \<open>get_current_utc\<close> marks its fields as local time.
\<close>

theorem time_set_current:
  assumes "\<bar>tm_gmtoff c\<bar> \<le> 86400" "tm_gmtoff c sdiv 60 \<noteq> - 1" "set_current sys False c usec t = Inr t1"
  shows "df_local_time (get_current_utc sys c usec)
    \<and> (\<exists>t2. set_current sys True c usec t = Inr t2 \<and> m_local_time t1 \<and> \<not> m_local_time t2
    \<and> long_unix sys t1 = long_unix sys t2 \<and> m_llTime t2 = m_llTime t1 - tm_gmtoff c sdiv 60 * 60000000
    \<and> time_zone_bias sys t2 = (tm_gmtoff c sdiv 60, t2)
    \<and> now sys c usec t1 = set_current sys False c usec t1 \<and> now sys c usec t2 = set_current sys True c usec t2)"
proof -
  have b: "\<bar>tm_gmtoff c sdiv 60\<bar> \<le> 1440"
  proof -
    have "\<bar>tm_gmtoff c\<bar> div 60 \<le> 1440" using assms(1) by linarith
    then show ?thesis
      by (auto simp: signed_divide_int_def sgn_if abs_if pos_imp_zdiv_nonneg_iff not_less split: if_splits)
  qed
  from assms(3) obtain t0 where t0: "set_local (int16 (tm_year c + 1900)) (uint8 (tm_mon c + 1)) (uint8 (tm_mday c))
      (uint8 (tm_hour c)) (uint8 (tm_min c)) (rnd (of_int (tm_sec c) + rnd (of_int usec / 1000000))) t = Inr t0"
    "t1 = t0\<lparr>m_tz_bias := tm_gmtoff c sdiv 60\<rparr>"
    by (auto simp: set_current_def Let_def map_sum_Inr)
  have l: "m_local_time t0" using t0(1) by (auto simp: set_local_def map_sum_Inr)
  have u: "to_utc sys t1 = \<lparr>m_llTime = m_llTime t1 - tm_gmtoff c sdiv 60 * 60000000, m_local_time = False,
      m_tz_bias = tm_gmtoff c sdiv 60\<rparr>"
    using to_utc_eq [of sys t1] b l assms(2) by (simp add: t0(2) bias_def)
  have l1: "m_local_time t1" using l by (simp add: t0(2))
  have "set_current sys True c usec t = Inr (to_utc sys t1)" by (simp add: set_current_def t0 Let_def)
  moreover have "long_unix sys t1 = long_unix sys (to_utc sys t1)" using l1 u by (simp add: long_unix_def Let_def)
  ultimately show ?thesis
    using l1 assms(2) u by (auto simp: now_def time_zone_bias_def get_current_utc_def Let_def)
qed

theorem time_set_current_witness:
  "let c = \<lparr>tm_sec = 5, tm_min = 4, tm_hour = 15, tm_mday = 2, tm_mon = 0, tm_year = 124, tm_wday = 2, tm_yday = 1, tm_gmtoff = 3600\<rparr>
   in \<exists>t1 t2. set_current 0 False c 0 Time_ctor = Inr t1 \<and> set_current 0 True c 0 Time_ctor = Inr t2
        \<and> long_unix 0 t1 = long_unix 0 t2"
proof -
  define c where "c = \<lparr>tm_sec = 5, tm_min = 4, tm_hour = 15, tm_mday = 2, tm_mon = 0, tm_year = 124, tm_wday = 2,
    tm_yday = 1, tm_gmtoff = 3600\<rparr>"
  have r: "rnd 5 = 5" "rnd 0 = 0" using rnd_int [of 5] by (simp_all add: rnd_def)
  define df where "df = clear_fields\<lparr>df_year := 2024, df_month := 1, df_day := 2, df_hour := 15, df_min := 4,
    df_sec := 5, df_local_time := False\<rparr>"
  have s: "settable df" unfolding df_def by code_simp
  obtain t0 where t0: "set_fields df Time_ctor = Inr t0"
    using s settable_not_empty [OF s] by (auto simp: set_fields_def settable_def Let_def)
  have "set_current 0 False c 0 Time_ctor = Inr (t0\<lparr>m_local_time := True, m_tz_bias := 60\<rparr>)"
    using t0 by (simp add: set_current_def set_local_def set_date_time_def c_def df_def r int16_id uint8_def signed_divide_int_def Let_def)
  note this1 = this
  have "\<bar>tm_gmtoff c\<bar> \<le> 86400" "tm_gmtoff c sdiv 60 \<noteq> - 1" by (simp_all add: c_def signed_divide_int_def)
  from time_set_current [OF this this1] this1 show ?thesis by (auto simp: Let_def c_def)
qed

end
