(* ===== verification/TimeText.thy ===== *)
theory TimeText
  imports TimeStamp StringMatch
begin

text \<open>
  Times as text: \<open>Time::to_string\<close>, \<open>Time::from_string\<close> and their formats, month names and time zones, from
  \<open>src/time/Time.cpp\<close>. The part of the \<open>ostringstream\<close> that carries over from one output to the next is its fill
  character. An index into a table of names outside the table is undefined and gives \<open>None\<close>.
\<close>

section \<open>Numbers as text\<close>

definition digit_char :: "nat \<Rightarrow> char" where
  "digit_char d = char_of (48 + d)"

definition isdigit :: "char \<Rightarrow> bool" where
  "isdigit c \<longleftrightarrow> 48 \<le> (of_char c :: nat) \<and> (of_char c :: nat) \<le> 57"

definition digit_val :: "char \<Rightarrow> int" where
  "digit_val c = of_char c - 48"

definition isalpha :: "char \<Rightarrow> bool" where
  "isalpha c \<longleftrightarrow> (65 \<le> (of_char c :: nat) \<and> (of_char c :: nat) \<le> 90) \<or> (97 \<le> (of_char c :: nat) \<and> (of_char c :: nat) \<le> 122)"

fun dec :: "nat \<Rightarrow> string" where
  "dec n = (if n < 10 then [digit_char n] else dec (n div 10) @ [digit_char (n mod 10)])"

declare dec.simps [simp del]

definition int_str :: "int \<Rightarrow> string" where
  "int_str n = (if n < 0 then CHR ''-'' # dec (nat (- n)) else dec (nat n))"

text \<open>\<open>width\<close> and \<open>fill\<close>, with the text at the right.\<close>

definition pad :: "nat \<Rightarrow> char \<Rightarrow> string \<Rightarrow> string" where
  "pad w f s = replicate (w - length s) f @ s"

definition pad0 :: "nat \<Rightarrow> int \<Rightarrow> string" where
  "pad0 w n = pad w CHR ''0'' (int_str n)"

text \<open>\<open>std::fixed\<close> with a precision: the exact value rounded to that many places, ties to even.\<close>

definition fixed_str :: "nat \<Rightarrow> rat \<Rightarrow> string" where
  "fixed_str p x =
     (let k = round_half_even (\<bar>x\<bar> * 10 ^ p)
      in (if x < 0 then ''-'' else []) @ dec (nat (k div 10 ^ p)) @ CHR ''.'' # pad p CHR ''0'' (dec (nat (k mod 10 ^ p))))"

section \<open>Names\<close>

definition month_en_abbr :: "string list" where
  "month_en_abbr = [''Jan'', ''Feb'', ''Mar'', ''Apr'', ''May'', ''Jun'',
     ''Jul'', ''Aug'', ''Sep'', ''Oct'', ''Nov'', ''Dec'']"

definition month_en :: "string list" where
  "month_en = [''January'', ''February'', ''March'', ''April'', ''May'', ''June'', ''July'',
     ''August'', ''September'', ''October'', ''November'', ''December'']"

definition day_en_abbr :: "string list" where
  "day_en_abbr = [''Mon'', ''Tue'', ''Wed'', ''Thu'', ''Fri'', ''Sat'', ''Sun'']"

definition day_en :: "string list" where
  "day_en = [''Monday'', ''Tuesday'', ''Wednesday'', ''Thursday'', ''Friday'', ''Saturday'', ''Sunday'']"

definition name_at :: "string list \<Rightarrow> int \<Rightarrow> string option" where
  "name_at tbl i = (if 1 \<le> i \<and> i \<le> int (length tbl) then Some (tbl ! nat (i - 1)) else None)"

definition month_name :: "int \<Rightarrow> bool \<Rightarrow> string" where
  "month_name iMonth long_name =
     (if iMonth > 0 \<and> iMonth \<le> 12
      then if long_name then month_en ! nat (iMonth - 1) else month_en_abbr ! nat (iMonth - 1)
      else [])"

definition day_name :: "int \<Rightarrow> bool \<Rightarrow> string" where
  "day_name d long_name =
     (if d > 0 \<and> d \<le> 7
      then if long_name then day_en ! nat (d - 1) else day_en_abbr ! nat (d - 1)
      else [])"

fun month_index :: "nat \<Rightarrow> string \<Rightarrow> string list \<Rightarrow> string list \<Rightarrow> time_error + int" where
  "month_index i nm (long # longs) (abbr # abbrs) =
     (if is_equal_no_case nm long then Inr (int i + 1)
      else if is_equal_no_case nm abbr then Inr (int i + 1)
      else month_index (Suc i) nm longs abbrs)"
| "month_index i nm _ _ = Inl BAD_MONTH_NAME"

definition get_month_from_name :: "string \<Rightarrow> time_error + int" where
  "get_month_from_name nm = month_index 0 nm month_en month_en_abbr"

definition set_month_name :: "int \<Rightarrow> string \<Rightarrow> time \<Rightarrow> time_error + time" where
  "set_month_name sys nm t = (case get_month_from_name nm of Inl e \<Rightarrow> Inl e | Inr i \<Rightarrow> set_month sys i t)"

section \<open>Printing\<close>

definition iso8601_bias :: "date_fields \<Rightarrow> string" where
  "iso8601_bias df =
     (if \<not> df_local_time df then ''Z''
      else let bias = df_tz_bias df;
               h = \<bar>bias\<bar> sdiv 60;
               m = \<bar>bias\<bar> - 60 * h
           in (if bias < 0 then ''-'' else ''+'') @ pad0 2 h @ pad0 2 m)"

text \<open>The identifiers: the text, and the fill character they leave.\<close>

definition field_text :: "int \<Rightarrow> date_fields \<Rightarrow> nat \<Rightarrow> char \<Rightarrow> char \<Rightarrow> (time_error + string \<times> char) option" where
  "field_text sys df precision fill c =
     (if c = CHR ''a'' then map_option (\<lambda>s. Inr (s, fill)) (name_at day_en_abbr (df_day_of_week df))
      else if c = CHR ''A'' then map_option (\<lambda>s. Inr (s, fill)) (name_at day_en (df_day_of_week df))
      else if c = CHR ''b'' \<or> c = CHR ''h'' then map_option (\<lambda>s. Inr (s, fill)) (name_at month_en_abbr (df_month df))
      else if c = CHR ''B'' then map_option (\<lambda>s. Inr (s, fill)) (name_at month_en (df_month df))
      else Some (
        if c = CHR ''C'' then Inr (int_str (df_year df sdiv 100), fill)
        else if c = CHR ''d'' then Inr (pad0 2 (df_day df), CHR ''0'')
        else if c = CHR ''e'' then Inr (pad 2 CHR '' '' (int_str (df_day df)), CHR '' '')
        else if c = CHR ''H'' then Inr (pad0 2 (df_hour df), CHR ''0'')
        else if c = CHR ''j'' then Inr (pad0 3 (df_day_of_year df), CHR ''0'')
        else if c = CHR ''m'' then Inr (pad0 2 (df_month df), CHR ''0'')
        else if c = CHR ''M'' then Inr (pad0 2 (df_min df), CHR ''0'')
        else if c = CHR ''R'' then Inr (pad0 2 (df_hour df) @ '':'' @ pad0 2 (df_min df), CHR ''0'')
        else if c = CHR ''s'' then
          (case set_fields df Time_ctor of Inl e \<Rightarrow> Inl e | Inr t \<Rightarrow> Inr (int_str (long_unix sys t), fill))
        else if c = CHR ''S'' then
          (if precision = 0 then Inr (pad0 2 (trunc (df_sec df)), CHR ''0'')
           else Inr (pad (precision + 3) fill (fixed_str precision (df_sec df)), fill))
        else if c = CHR ''t'' then Inr ([CHR 0x09], fill)
        else if c = CHR ''T'' then
          Inr (pad0 2 (df_hour df) @ '':'' @ pad0 2 (df_min df) @ '':'' @ pad0 2 (trunc (df_sec df)), CHR ''0'')
        else if c = CHR ''u'' then Inr (int_str (df_day_of_week df), fill)
        else if c = CHR ''U'' then Inr (pad0 2 (df_week_of_year df), CHR ''0'')
        else if c = CHR ''w'' then Inr (int_str (if df_day_of_week df = 7 then 0 else df_day_of_week df), fill)
        else if c = CHR ''y'' then Inr (pad0 2 (df_year df smod 100), CHR ''0'')
        else if c = CHR ''Y'' then Inr (pad0 4 (df_year df), CHR ''0'')
        else if c = CHR ''Z'' then Inr (if df_local_time df then iso8601_bias df else ''Z'', fill)
        else if c = CHR ''%'' then Inr (''%'', fill)
        else Inl BAD_FORMAT))"

fun to_string_loop ::
  "int \<Rightarrow> date_fields \<Rightarrow> nat \<Rightarrow> char \<Rightarrow> bool \<Rightarrow> string \<Rightarrow> string \<Rightarrow> (time_error + string) option" where
  "to_string_loop sys df precision fill get_identifier oss [] = Some (Inr oss)"
| "to_string_loop sys df precision fill get_identifier oss (c # cs) =
     (if c = CHR ''%'' \<and> \<not> get_identifier then to_string_loop sys df precision fill True oss cs
      else if get_identifier then
        case field_text sys df precision fill c of
          None \<Rightarrow> None
        | Some (Inl e) \<Rightarrow> Some (Inl e)
        | Some (Inr (s, fill)) \<Rightarrow> to_string_loop sys df precision fill False (oss @ s) cs
      else to_string_loop sys df precision fill False (oss @ [c]) cs)"

definition to_string_fields :: "int \<Rightarrow> date_fields \<Rightarrow> string \<Rightarrow> nat \<Rightarrow> (time_error + string) option" where
  "to_string_fields sys df fmt precision = to_string_loop sys df precision CHR '' '' False [] fmt"

definition to_string :: "int \<Rightarrow> string \<Rightarrow> nat \<Rightarrow> time \<Rightarrow> (time_error + string) option" where
  "to_string sys fmt precision t = to_string_fields sys (get_fields sys t) fmt precision"

definition to_string_local :: "int \<Rightarrow> string \<Rightarrow> nat \<Rightarrow> time \<Rightarrow> (time_error + string) option" where
  "to_string_local sys fmt precision t =
     (if \<not> m_local_time t then to_string sys fmt precision (to_local sys t) else to_string sys fmt precision t)"

definition to_string_utc :: "int \<Rightarrow> string \<Rightarrow> nat \<Rightarrow> time \<Rightarrow> (time_error + string) option" where
  "to_string_utc sys fmt precision t =
     (if m_local_time t then to_string sys fmt precision (to_utc sys t) else to_string sys fmt precision t)"

definition iso8601 :: string where "iso8601 = ''%Y-%m-%dT%H:%M:%S''"
definition iso8601_z :: string where "iso8601_z = ''%Y-%m-%dT%H:%M:%S%Z''"
definition iso8601_d :: string where "iso8601_d = ''%Y-%m-%d''"
definition iso8601_t :: string where "iso8601_t = ''%H:%M:%S''"
definition iso8601_tz :: string where "iso8601_tz = ''%H:%M:%S%Z''"
definition date_inter :: string where "date_inter = ''%y/%m/%d''"

definition to_ISO8601 :: "int \<Rightarrow> time \<Rightarrow> (time_error + string) option" where
  "to_ISO8601 sys t = to_string sys iso8601 0 t"
definition to_ISO8601_ms :: "int \<Rightarrow> time \<Rightarrow> (time_error + string) option" where
  "to_ISO8601_ms sys t = to_string sys iso8601 3 t"
definition to_ISO8601_micro :: "int \<Rightarrow> time \<Rightarrow> (time_error + string) option" where
  "to_ISO8601_micro sys t = to_string_utc sys iso8601 6 t"
definition to_ISO8601_ms_TU :: "int \<Rightarrow> time \<Rightarrow> (time_error + string) option" where
  "to_ISO8601_ms_TU sys t = to_string_utc sys iso8601 3 t"
definition to_ISO8601_micro_TU :: "int \<Rightarrow> time \<Rightarrow> (time_error + string) option" where
  "to_ISO8601_micro_TU sys t = to_string_utc sys iso8601 6 t"
definition to_local_ISO8601 :: "int \<Rightarrow> time \<Rightarrow> (time_error + string) option" where
  "to_local_ISO8601 sys t = to_string_local sys iso8601 0 t"
definition to_local_ISO8601_ms :: "int \<Rightarrow> time \<Rightarrow> (time_error + string) option" where
  "to_local_ISO8601_ms sys t = to_string_local sys iso8601 3 t"
definition to_local_ISO8601_micro :: "int \<Rightarrow> time \<Rightarrow> (time_error + string) option" where
  "to_local_ISO8601_micro sys t = to_string_local sys iso8601 6 t"
definition to_inter :: "int \<Rightarrow> bool \<Rightarrow> time \<Rightarrow> (time_error + string) option" where
  "to_inter sys bMillis t =
     (if bMillis then to_string sys ''%Y-%m-%d %H:%M:%S'' 3 t else to_string sys ''%Y-%m-%d %H:%M:%S'' 0 t)"

section \<open>Parsing\<close>

definition set_tz :: "string \<Rightarrow> time \<Rightarrow> time_error + time" where
  "set_tz tz t =
     (if length tz = 1 \<and> tz ! 0 = CHR ''Z'' then Inr (t\<lparr>m_tz_bias := - 1, m_local_time := False\<rparr>)
      else if length tz \<noteq> 5 \<or> (tz ! 0 \<noteq> CHR ''+'' \<and> tz ! 0 \<noteq> CHR ''-'')
           \<or> \<not> isdigit (tz ! 1) \<or> \<not> isdigit (tz ! 2) \<or> \<not> isdigit (tz ! 3) \<or> \<not> isdigit (tz ! 4)
      then Inl BAD_FORMAT
      else let b = (digit_val (tz ! 1) * 10 + digit_val (tz ! 2)) * 60 + (digit_val (tz ! 3) * 10 + digit_val (tz ! 4));
               b = (if tz ! 0 = CHR ''-'' then - b else b)
           in Inr (t\<lparr>m_tz_bias := b, m_local_time := True\<rparr>))"

text \<open>The kind of a field, \<open>string_id\<close>, and its length.\<close>

definition field_kind :: "string \<Rightarrow> nat \<Rightarrow> char \<Rightarrow> (bool \<times> nat) option" where
  "field_kind date_time i_s c =
     (if c \<in> {CHR ''a'', CHR ''A'', CHR ''b'', CHR ''B'', CHR ''h''} then Some (True, 0)
      else if c = CHR ''Y'' then Some (False, 4)
      else if c \<in> {CHR ''y'', CHR ''d'', CHR ''m'', CHR ''H'', CHR ''M'', CHR ''S''} then Some (False, 2)
      else if c = CHR ''Z'' then Some (True, if i_s < length date_time \<and> date_time ! i_s = CHR ''Z'' then 1 else 5)
      else if c = CHR ''j'' then Some (False, 3)
      else if isdigit c \<and> digit_val c > 0 \<and> digit_val c < 7 then Some (False, nat (digit_val c))
      else None)"

definition read_text :: "string \<Rightarrow> nat \<Rightarrow> nat \<Rightarrow> string \<times> nat" where
  "read_text date_time i_s field_len =
     (if field_len = 0 then
        let v = takeWhile isalpha (drop i_s date_time) in (v, i_s + length v)
      else if i_s + field_len \<le> length date_time then (take field_len (drop i_s date_time), i_s + field_len)
      else ([], i_s))"

fun read_digits :: "string \<Rightarrow> nat \<Rightarrow> nat \<Rightarrow> int \<Rightarrow> time_error + int \<times> nat" where
  "read_digits date_time i_s 0 v = Inr (v, i_s)"
| "read_digits date_time i_s (Suc n) v =
     (if length date_time \<le> i_s \<or> \<not> isdigit (date_time ! i_s) then Inl BAD_FORMAT
      else read_digits date_time (Suc i_s) n (v * 10 + digit_val (date_time ! i_s)))"

definition store_text :: "int \<Rightarrow> char \<Rightarrow> string \<Rightarrow> time \<Rightarrow> time_error + time" where
  "store_text sys c v t =
     (if c \<in> {CHR ''a'', CHR ''A''} then Inr t
      else if c \<in> {CHR ''b'', CHR ''B'', CHR ''h''} then set_month_name sys v t
      else if c = CHR ''Z'' then set_tz v t
      else Inl BAD_FORMAT)"

definition store_number :: "int \<Rightarrow> char \<Rightarrow> nat \<Rightarrow> int \<Rightarrow> time \<Rightarrow> time_error + time" where
  "store_number sys c field_len v t =
     (if c = CHR ''y'' then set_year sys (int16 (v + 2000)) t
      else if c = CHR ''Y'' then set_year sys (int16 v) t
      else if c = CHR ''m'' then set_month sys (uint8 v) t
      else if c = CHR ''d'' then set_day sys (uint8 v) t
      else if c = CHR ''j'' then set_day_of_year sys (int16 v mod 2 ^ 16) (year sys t) t
      else if c = CHR ''H'' then set_hour sys (uint8 v) t
      else if c = CHR ''M'' then set_minute sys (uint8 v) t
      else if c = CHR ''S'' then set_second sys (of_int v) t
      else if isdigit c then
        if field_len < 6 then set_second sys (rnd (second sys t + rnd (of_int v / 10 ^ field_len))) t
        else set_second sys (rnd (second sys t + rnd (rnd (of_int v + 1 / 2) / 10 ^ field_len))) t
      else Inl BAD_FORMAT)"

fun from_string_loop :: "int \<Rightarrow> string \<Rightarrow> bool \<Rightarrow> nat \<Rightarrow> time \<Rightarrow> string \<Rightarrow> time_error + time" where
  "from_string_loop sys date_time get_identifier i_s t [] = Inr t"
| "from_string_loop sys date_time get_identifier i_s t (c # cs) =
     (if c = CHR ''%'' then from_string_loop sys date_time True i_s t cs
      else if get_identifier then
        case field_kind date_time i_s c of
          None \<Rightarrow> Inl BAD_FORMAT
        | Some (True, field_len) \<Rightarrow>
            let (v, i_s) = read_text date_time i_s field_len
            in (case store_text sys c v t of Inl e \<Rightarrow> Inl e
                | Inr t \<Rightarrow> from_string_loop sys date_time False i_s t cs)
        | Some (False, field_len) \<Rightarrow>
            (case read_digits date_time i_s field_len 0 of Inl e \<Rightarrow> Inl e
             | Inr (v, i_s) \<Rightarrow>
                 (case store_number sys c field_len v t of Inl e \<Rightarrow> Inl e
                  | Inr t \<Rightarrow> from_string_loop sys date_time False i_s t cs))
      else if length date_time < i_s + 1 \<or> date_time ! i_s \<noteq> c then Inl BAD_FORMAT
      else from_string_loop sys date_time False (i_s + 1) t cs)"

definition from_string :: "int \<Rightarrow> string \<Rightarrow> string \<Rightarrow> time \<Rightarrow> time_error + time" where
  "from_string sys date_time fmt t = from_string_loop sys date_time False 0 t fmt"

definition Time_string :: "int \<Rightarrow> string \<Rightarrow> string \<Rightarrow> time_error + time" where
  "Time_string sys date_time fmt = from_string sys date_time fmt Time_ctor"

section \<open>Decimal digits\<close>

lemma digit_char: "d < 10 \<Longrightarrow> isdigit (digit_char d) \<and> digit_val (digit_char d) = int d"
proof -
  assume d: "d < 10"
  have "(of_char (digit_char d) :: nat) = 48 + d" using d by (simp add: digit_char_def of_char_of)
  then have "(of_char (digit_char d) :: int) = int (48 + d)" by (metis of_nat_of_char)
  then show ?thesis using \<open>of_char (digit_char d) = 48 + d\<close> d by (simp add: isdigit_def digit_val_def)
qed

definition digits_val :: "int \<Rightarrow> string \<Rightarrow> int" where
  "digits_val v s = foldl (\<lambda>v c. v * 10 + digit_val c) v s"

lemma dec_digits: "\<forall>c \<in> set (dec n). isdigit c"
  by (induction n rule: dec.induct) (subst dec.simps, auto simp: digit_char)

lemma dec_val: "digits_val 0 (dec n) = int n"
proof (induction n rule: dec.induct)
  case (1 n)
  show ?case
  proof (cases "n < 10")
    case True
    then show ?thesis by (subst dec.simps) (simp add: digits_val_def digit_char)
  next
    case False
    then have "digits_val 0 (dec (n div 10)) = int (n div 10)" by (rule 1)
    moreover have "dec n = dec (n div 10) @ [digit_char (n mod 10)]" using False by (subst dec.simps) simp
    moreover have "int (n div 10) * 10 + int (n mod 10) = int n" by (simp add: zdiv_int zmod_int)
    ultimately show ?thesis by (simp add: digits_val_def digit_char)
  qed
qed

lemma dec_length: "n < 10 ^ w \<Longrightarrow> 0 < w \<Longrightarrow> length (dec n) \<le> w"
proof (induction w arbitrary: n)
  case (Suc w)
  show ?case
  proof (cases "n < 10")
    case True
    then show ?thesis by (subst dec.simps) simp
  next
    case False
    then have "0 < w" using Suc.prems by (cases w) auto
    moreover have "n div 10 < 10 ^ w" using Suc.prems by (simp add: less_mult_imp_div_less mult.commute)
    ultimately have "length (dec (n div 10)) \<le> w" by (rule Suc.IH [rotated])
    moreover have "dec n = dec (n div 10) @ [digit_char (n mod 10)]" using False by (subst dec.simps) simp
    ultimately show ?thesis by simp
  qed
qed simp

lemma digits_val_zeros: "digits_val 0 (replicate k CHR ''0'' @ s) = digits_val 0 s"
  by (induction k) (simp_all add: digits_val_def digit_val_def)

lemma pad0_props:
  assumes "0 \<le> n" "n < 10 ^ w" "0 < w"
  shows "length (pad0 w n) = w" "\<forall>c \<in> set (pad0 w n). isdigit c" "digits_val 0 (pad0 w n) = n"
proof -
  have "nat n < 10 ^ w" using assms(1,2) by (simp add: nat_less_iff)
  then have l: "length (dec (nat n)) \<le> w" by (rule dec_length) fact
  have i: "int_str n = dec (nat n)" using assms(1) by (simp add: int_str_def)
  show "length (pad0 w n) = w" using l by (simp add: pad0_def pad_def i)
  show "\<forall>c \<in> set (pad0 w n). isdigit c"
    using dec_digits [of "nat n"] by (auto simp: pad0_def pad_def i isdigit_def)
  show "digits_val 0 (pad0 w n) = n"
    using assms(1) by (simp add: pad0_def pad_def i digits_val_zeros dec_val)
qed

lemma read_digits_eq:
  "\<forall>c \<in> set ds. isdigit c \<Longrightarrow> read_digits (pre @ ds @ post) (length pre) (length ds) v =
     Inr (digits_val v ds, length pre + length ds)"
proof (induction ds arbitrary: pre v)
  case (Cons d ds)
  have "read_digits ((pre @ [d]) @ ds @ post) (length (pre @ [d])) (length ds) (v * 10 + digit_val d)
      = Inr (digits_val (v * 10 + digit_val d) ds, length (pre @ [d]) + length ds)"
    by (rule Cons.IH) (use Cons.prems in simp)
  then show ?case using Cons.prems by (simp add: digits_val_def nth_append)
qed (simp add: digits_val_def)

section \<open>Parsing from the front\<close>

lemma read_digits_drop:
  "i + j \<le> length dt \<Longrightarrow> read_digits dt (i + j) n v =
     (case read_digits (drop i dt) j n v of Inl e \<Rightarrow> Inl e | Inr (w, k) \<Rightarrow> Inr (w, i + k))"
proof (induction n arbitrary: j v)
  case (Suc n)
  show ?case
  proof (cases "i + j = length dt")
    case False
    then have "i + Suc j \<le> length dt" using Suc.prems by simp
    from Suc.IH [OF this] show ?thesis using Suc.prems False by (auto simp: nth_drop)
  next
    case True
    then have "length dt \<le> i + j" "length (drop i dt) \<le> j" by simp_all
    then show ?thesis by simp
  qed
qed simp

lemma read_digits_bound: "read_digits dt i n v = Inr (w, k) \<Longrightarrow> i \<le> length dt \<Longrightarrow> k \<le> length dt"
  by (induction dt i n v rule: read_digits.induct) (auto split: if_splits)

lemma read_text_drop:
  "i + j \<le> length dt \<Longrightarrow> read_text dt (i + j) n = (let (v, k) = read_text (drop i dt) j n in (v, i + k))"
  by (auto simp: read_text_def Let_def add.commute add.left_commute)

lemma read_text_bound: "i \<le> length dt \<Longrightarrow> read_text dt i n = (v, k) \<Longrightarrow> k \<le> length dt"
proof -
  assume a: "i \<le> length dt" "read_text dt i n = (v, k)"
  have "length (takeWhile isalpha (drop i dt)) \<le> length dt - i"
    using length_takeWhile_le [of isalpha "drop i dt"] by simp
  then show ?thesis using a by (auto simp: read_text_def Let_def split: if_splits)
qed

lemma field_kind_drop: "i + j \<le> length dt \<Longrightarrow> field_kind dt (i + j) c = field_kind (drop i dt) j c"
  by (simp add: field_kind_def nth_drop less_diff_conv add.commute)

lemma from_string_drop:
  "i + j \<le> length dt \<Longrightarrow> from_string_loop sys dt g (i + j) t fmt = from_string_loop sys (drop i dt) g j t fmt"
proof (induction fmt arbitrary: g j t)
  case (Cons c cs)
  note IH = Cons.IH and l = Cons.prems
  show ?case
  proof (cases "c = CHR ''%''")
    case True
    then show ?thesis using IH [OF l] by simp
  next
    case ne: False
    show ?thesis
    proof (cases g)
      case True
      have k: "field_kind dt (i + j) c = field_kind (drop i dt) j c" by (rule field_kind_drop [OF l])
      show ?thesis
      proof (cases "field_kind (drop i dt) j c")
        case (Some p)
        obtain b n where p: "p = (b, n)" by (cases p)
        show ?thesis
        proof (cases b)
          case b: True
          obtain v k2 where r: "read_text (drop i dt) j n = (v, k2)" by (cases "read_text (drop i dt) j n")
          have "k2 \<le> length (drop i dt)" by (rule read_text_bound [OF _ r]) (use l in simp)
          then have "i + k2 \<le> length dt" using l by simp
          from IH [OF this] show ?thesis
            using ne True k Some p b r read_text_drop [OF l, of n] by (simp split: sum.splits)
        next
          case b: False
          show ?thesis
          proof (cases "read_digits (drop i dt) j n 0")
            case (Inl e)
            then show ?thesis using ne True k Some p b read_digits_drop [OF l, of n 0] by simp
          next
            case (Inr q)
            obtain v k2 where q: "q = (v, k2)" by (cases q)
            have "k2 \<le> length (drop i dt)" by (rule read_digits_bound) (use Inr q l in auto)
            then have "i + k2 \<le> length dt" using l by simp
            from IH [OF this] show ?thesis
              using ne True k Some p b q Inr read_digits_drop [OF l, of n 0] by (simp split: sum.splits)
          qed
        qed
      qed (use ne True k in simp)
    next
      case False
      show ?thesis
      proof (cases "i + j < length dt")
        case True
        then have "i + (j + 1) \<le> length dt" by simp
        moreover have "\<not> length dt - i < Suc j" using True by simp
        ultimately show ?thesis using IH [of "j + 1"] ne False True by (simp add: nth_drop)
      qed (use ne False l in auto)
    qed
  qed
qed simp

lemma parse_char:
  "c \<noteq> CHR ''%'' \<Longrightarrow> from_string_loop sys (c # s) False 0 t (c # fmt) = from_string_loop sys s False 0 t fmt"
  using from_string_drop [of 1 0 "c # s" sys False t fmt] by simp

lemma parse_number:
  assumes "field_kind (pad0 w n @ s) 0 c = Some (False, w)" "c \<noteq> CHR ''%''" "0 \<le> n" "n < 10 ^ w" "0 < w"
  shows "from_string_loop sys (pad0 w n @ s) False 0 t (CHR ''%'' # c # fmt) =
    (case store_number sys c w n t of Inl e \<Rightarrow> Inl e | Inr t' \<Rightarrow> from_string_loop sys s False 0 t' fmt)"
proof -
  note p = pad0_props [OF assms(3-5)]
  have "read_digits (pad0 w n @ s) 0 w 0 = Inr (n, w)"
    using read_digits_eq [of "pad0 w n" "[]" s 0] p by simp
  moreover have "from_string_loop sys (pad0 w n @ s) False w t' fmt = from_string_loop sys s False 0 t' fmt" for t'
    using from_string_drop [of w 0 "pad0 w n @ s" sys False t' fmt] p(1) by simp
  ultimately show ?thesis using assms(1,2) by (simp split: sum.splits)
qed

section \<open>The formats of ISO 8601\<close>

lemma restored_0: "restored 0 = 0"
  by (simp add: restored_def sec_of_def rnd_def trunc_def)

lemma set_second_int:
  assumes t: "stands_for t y m d h mi us" and k: "0 \<le> k" "k \<le> 59"
  shows "\<exists>t'. set_second sys (of_int k) t = Inr t' \<and> m_local_time t' = m_local_time t
    \<and> stands_for t' y m d h mi (k * 1000000)"
proof -
  note s = t [unfolded stands_for_def]
  note g = get_stands_for [OF t, of sys]
  have "rnd (of_int (k * 1000000)) = of_int (k * 1000000)" using k by (intro rnd_int) auto
  then have "trunc (rnd (of_int (k * 1000000))) = k * 1000000" by (simp only: trunc_int)
  then have "trunc (rnd (of_int k * 1000000)) = k * 1000000" by simp
  moreover have "(of_int k :: rat) \<le> of_int 59" using k(2) by (simp only: of_int_le_iff)
  moreover have "(of_int 0 :: rat) \<le> of_int k" using k(1) by (simp only: of_int_le_iff)
  ultimately show ?thesis
    using stands_for_set [of "(get_fields sys t)\<lparr>df_sec := of_int k\<rparr>" "k * 1000000" "snd (get sys t)"] s g k
    by (auto simp: set_second_def get_def)
qed

lemma fresh: "stands_for Time_ctor (- 4712) 1 1 0 0 0"
proof -
  have "valid_date (- 4712) 1 1" "\<not> missing_leap_day (- 4712) 1 1" "calc_julian_date (- 4712) 1 1 = 0" by code_simp+
  then show ?thesis by (simp add: stands_for_def Time_ctor_def raw_of_def)
qed

lemma first_of_month:
  assumes "valid_date y m d" "\<not> missing_leap_day y m d"
  shows "valid_date y 1 1" "valid_date y m 1" "\<not> missing_leap_day y 1 1" "\<not> missing_leap_day y m 1"
proof -
  have m: "- 4712 \<le> y" "1 \<le> m" "m \<le> 12" using assms(1) by (auto simp: valid_date_def)
  have "1 \<le> month_length l m" for l using m(2,3) by (cases rule: month_cases) (auto simp: month_length_def)
  then show "valid_date y 1 1" "valid_date y m 1" using m by (auto simp: valid_date_def month_length_def)
  show "\<not> missing_leap_day y 1 1" by (simp add: missing_leap_day_def)
  show "\<not> missing_leap_day y m 1"
    using assms(2) by (auto simp: missing_leap_day_def is_greg_def)
qed

text \<open>A date, on a time that is the first day of its month.\<close>

lemma parse_date:
  assumes t: "stands_for t y0 m0 1 h mi 0" "m0 = 1" and v: "valid_date y m d" "\<not> missing_leap_day y m d" "0 \<le> y" "y \<le> 4500"
  shows "\<exists>t'. stands_for t' y m d h mi 0 \<and> m_local_time t' = m_local_time t
    \<and> from_string_loop sys (pad0 4 y @ ''-'' @ pad0 2 m @ ''-'' @ pad0 2 d @ s) False 0 t (''%Y-%m-%d'' @ fmt)
      = from_string_loop sys s False 0 t' fmt"
proof -
  have b: "1 \<le> m" "m \<le> 12" "1 \<le> d" using v by (auto simp: valid_date_def)
  have d31: "d \<le> 31" using month_length_le [OF v(1)] by (auto simp: nb_days_in_month_def split: if_splits)
  note f = first_of_month [OF v(1,2)]
  obtain t1 where t1: "set_year sys y t = Inr t1" "m_local_time t1 = m_local_time t" "stands_for t1 y 1 1 h mi 0"
    using setters(6) [OF t(1), of y sys] f v(4) t(2) by (auto simp: restored_0)
  obtain t2 where t2: "set_month sys m t1 = Inr t2" "m_local_time t2 = m_local_time t1" "stands_for t2 y m 1 h mi 0"
    using setters(5) [OF t1(3), of m sys] f by (auto simp: restored_0)
  obtain t3 where t3: "set_day sys d t2 = Inr t3" "m_local_time t3 = m_local_time t2" "stands_for t3 y m d h mi 0"
    using setters(4) [OF t2(3), of d sys] v by (auto simp: restored_0)
  have n: "store_number sys CHR ''Y'' 4 y t = Inr t1" "store_number sys CHR ''m'' 2 m t1 = Inr t2"
    "store_number sys CHR ''d'' 2 d t2 = Inr t3"
    using t1(1) t2(1) t3(1) v b d31 by (simp_all add: store_number_def int16_id uint8_def)
  have "from_string_loop sys (pad0 4 y @ ''-'' @ pad0 2 m @ ''-'' @ pad0 2 d @ s) False 0 t (''%Y-%m-%d'' @ fmt)
      = from_string_loop sys s False 0 t3 fmt"
    using v b d31 by (simp add: parse_number parse_char field_kind_def n del: from_string_loop.simps)
  with t3 t2(2) t1(2) show ?thesis by (intro exI [of _ t3]) simp
qed

lemma parse_time_of_day:
  assumes t: "stands_for t y m d h0 mi0 0" and b: "0 \<le> h" "h < 24" "0 \<le> mi" "mi < 60" "0 \<le> k" "k \<le> 59"
  shows "\<exists>t'. stands_for t' y m d h mi (k * 1000000) \<and> m_local_time t' = m_local_time t
    \<and> from_string_loop sys (pad0 2 h @ '':'' @ pad0 2 mi @ '':'' @ pad0 2 k @ s) False 0 t (''%H:%M:%S'' @ fmt)
      = from_string_loop sys s False 0 t' fmt"
proof -
  obtain t1 where t1: "set_hour sys h t = Inr t1" "m_local_time t1 = m_local_time t" "stands_for t1 y m d h mi0 0"
    using setters(2) [OF t, of h sys] b by (auto simp: restored_0)
  obtain t2 where t2: "set_minute sys mi t1 = Inr t2" "m_local_time t2 = m_local_time t1" "stands_for t2 y m d h mi 0"
    using setters(3) [OF t1(3), of mi sys] b by (auto simp: restored_0)
  obtain t3 where t3: "set_second sys (of_int k) t2 = Inr t3" "m_local_time t3 = m_local_time t2"
    "stands_for t3 y m d h mi (k * 1000000)"
    using set_second_int [OF t2(3) b(5,6), of sys] by auto
  have n: "store_number sys CHR ''H'' 2 h t = Inr t1" "store_number sys CHR ''M'' 2 mi t1 = Inr t2"
    "store_number sys CHR ''S'' 2 k t2 = Inr t3"
    using t1(1) t2(1) t3(1) b by (simp_all add: store_number_def uint8_def)
  have "from_string_loop sys (pad0 2 h @ '':'' @ pad0 2 mi @ '':'' @ pad0 2 k @ s) False 0 t (''%H:%M:%S'' @ fmt)
      = from_string_loop sys s False 0 t3 fmt"
    using b by (simp add: parse_number parse_char field_kind_def n del: from_string_loop.simps)
  with t3 t2(2) t1(2) show ?thesis by (intro exI [of _ t3]) simp
qed

lemma trunc_sec_of:
  assumes "0 \<le> us" "us < 60000000" shows "trunc (sec_of us) = us div 1000000"
proof -
  define s where "s = us div 1000000"
  define x where "x = of_int s + rnd (of_int (us mod 1000000) / 1000000)"
  have s: "0 \<le> s" "s \<le> 59" using assms by (auto simp: s_def)
  have e: "sec_of us = rnd x" by (simp add: sec_of_def x_def s_def)
  have f: "0 \<le> (of_int (us mod 1000000) / 1000000 :: rat)" by simp
  have "us mod 1000000 \<le> 999999" using pos_mod_bound [of 1000000 us] by linarith
  then have "(of_int (us mod 1000000) :: rat) \<le> of_int 999999" by (simp only: of_int_le_iff)
  then have f1: "of_int (us mod 1000000) / 1000000 \<le> (999999 / 1000000 :: rat)" by simp
  have x: "of_int s \<le> x" using rnd_nonneg [OF f] by (simp add: x_def)
  have lo: "of_int s \<le> rnd x"
  proof (cases "x = 0")
    case False
    have s0: "0 \<le> (of_int s :: rat)" "(of_int s :: rat) \<le> 59" using s(1) of_int_le_iff [of s 59, where 'a = rat] s(2) by simp_all
    then have "0 < x" using x False by linarith
    moreover have "x < 2 ^ 53"
    proof -
      have "\<bar>rnd (of_int (us mod 1000000) / 1000000) - of_int (us mod 1000000) / 1000000\<bar> \<le> (1 :: rat) / 2 ^ 53"
        by (rule rnd_error_le [OF f]) (use f1 in simp)
      also have "\<dots> \<le> 1" by simp
      finally have "rnd (of_int (us mod 1000000) / 1000000) \<le> 2" using f1 by linarith
      then have "x \<le> 61" using s0 by (simp add: x_def)
      then show ?thesis by simp
    qed
    ultimately show ?thesis using rnd_between(1) [of x s] x by simp
  qed (use x in \<open>simp add: rnd_def\<close>)
  have "(of_int us :: rat) / 1000000 = of_int s + of_int (us mod 1000000) / 1000000"
    using of_int_div_mod [of us] by (simp add: s_def field_simps)
  then have "sec_of us < of_int s + 1"
    using sec_of_error [OF assms] small_error f1 by linarith
  then have "\<lfloor>sec_of us\<rfloor> = s" using lo e by (intro floor_unique) auto
  moreover have "0 \<le> sec_of us" using sec_of_bounds [OF assms] by simp
  ultimately show ?thesis by (simp add: trunc_nonneg s_def)
qed

lemma two_digits:
  assumes "0 \<le> n" "n < 100"
  obtains a b where "pad0 2 n = [a, b]" "isdigit a" "isdigit b" "digit_val a * 10 + digit_val b = n"
proof -
  have p: "length (pad0 2 n) = 2" "\<forall>c \<in> set (pad0 2 n). isdigit c" "digits_val 0 (pad0 2 n) = n"
    using pad0_props [of n 2] assms by simp_all
  then obtain a b where "pad0 2 n = [a, b]" by (auto simp: numeral_2_eq_2 length_Suc_conv)
  then show ?thesis using p by (intro that [of a b]) (simp_all add: digits_val_def)
qed

lemma set_tz_bias:
  assumes "\<bar>b\<bar> < 6000" "df_tz_bias df = b" "df_local_time df"
  shows "set_tz (iso8601_bias df) t = Inr (t\<lparr>m_tz_bias := b, m_local_time := True\<rparr>)"
    and "length (iso8601_bias df) = 5" "hd (iso8601_bias df) \<noteq> CHR ''Z''"
proof -
  define h where "h = \<bar>b\<bar> div 60"
  define m where "m = \<bar>b\<bar> - 60 * h"
  have h: "0 \<le> h" "h < 100" using assms(1) by (auto simp: h_def)
  have m: "0 \<le> m" "m < 100" by (auto simp: m_def h_def minus_mult_div_eq_mod)
  obtain a1 a2 where a: "pad0 2 h = [a1, a2]" "isdigit a1" "isdigit a2" "digit_val a1 * 10 + digit_val a2 = h"
    by (rule two_digits [OF h])
  obtain b1 b2 where b: "pad0 2 m = [b1, b2]" "isdigit b1" "isdigit b2" "digit_val b1 * 10 + digit_val b2 = m"
    by (rule two_digits [OF m])
  have i: "iso8601_bias df = (if b < 0 then CHR ''-'' else CHR ''+'') # [a1, a2, b1, b2]"
    using a(1) b(1) by (simp add: iso8601_bias_def assms(2,3) sdiv_nonneg Let_def flip: h_def m_def)
  show "length (iso8601_bias df) = 5" "hd (iso8601_bias df) \<noteq> CHR ''Z''" by (simp_all add: i)
  have "60 * h + m = \<bar>b\<bar>" by (simp add: m_def)
  then show "set_tz (iso8601_bias df) t = Inr (t\<lparr>m_tz_bias := b, m_local_time := True\<rparr>)"
    using a b by (auto simp: i set_tz_def Let_def)
qed

lemma set_tz_stands_for [simp]:
  "stands_for (t\<lparr>m_tz_bias := b, m_local_time := l\<rparr>) y m d h mi us = stands_for t y m d h mi us"
  by (simp add: stands_for_def)

text \<open>
  C37: Times survive printing. A time of the calendar, from the year 0 to 4500, printed with the ISO 8601 format with
  time zone and parsed into a new object gives the same date and time of day, cut to the second, with the local flag
  and the bias of the time.
\<close>

theorem time_text_roundtrip:
  assumes "stands_for t y m d h mi us" "0 \<le> y" "\<bar>bias sys t\<bar> < 6000"
  shows "\<exists>s t'. to_string sys iso8601_z 0 t = Some (Inr s) \<and> Time_string sys' s iso8601_z = Inr t'
    \<and> stands_for t' y m d h mi (us div 1000000 * 1000000) \<and> m_local_time t' = m_local_time t
    \<and> (m_local_time t \<longrightarrow> m_tz_bias t' = bias sys t)"
proof -
  note st = assms(1) [unfolded stands_for_def]
  note g = get_stands_for [OF assms(1), of sys]
  define k where "k = us div 1000000"
  have k: "0 \<le> k" "k \<le> 59" using st by (auto simp: k_def)
  have sec: "trunc (sec_of us) = k" using st by (simp add: trunc_sec_of k_def)
  define z where "z = (if m_local_time t then iso8601_bias (get_fields sys t) else ''Z'')"
  have tz: "df_tz_bias (get_fields sys t) = bias sys t"
    by (cases "JJToDate (julian_date t)") (simp add: get_fields_def Let_def time_zone_bias_def bias_def)
  have zb: "set_tz z t' = Inr (t'\<lparr>m_tz_bias := if m_local_time t then bias sys t else - 1, m_local_time := m_local_time t\<rparr>)"
    "z \<noteq> []" "length z = (if hd z = CHR ''Z'' then 1 else 5)" for t'
  proof -
    have "set_tz ''Z'' t' = Inr (t'\<lparr>m_tz_bias := - 1, m_local_time := False\<rparr>)" for t' by (simp add: set_tz_def)
    moreover have "m_local_time t \<Longrightarrow> df_local_time (get_fields sys t)" using g(8) by simp
    note b = set_tz_bias [OF assms(3) tz this]
    ultimately show "set_tz z t' = Inr (t'\<lparr>m_tz_bias := if m_local_time t then bias sys t else - 1, m_local_time := m_local_time t\<rparr>)"
      "z \<noteq> []" "length z = (if hd z = CHR ''Z'' then 1 else 5)" for t'
      unfolding z_def by (cases "m_local_time t"; simp add: b; use b(2) in force)+
  qed
  have "to_string sys iso8601_z 0 t = Some (Inr (pad0 4 y @ ''-'' @ pad0 2 m @ ''-'' @ pad0 2 d @ ''T'' @
      pad0 2 h @ '':'' @ pad0 2 mi @ '':'' @ pad0 2 k @ z))"
    by (simp add: to_string_def to_string_fields_def iso8601_z_def field_text_def g sec z_def)
  moreover have "\<exists>t'. Time_string sys' (pad0 4 y @ ''-'' @ pad0 2 m @ ''-'' @ pad0 2 d @ ''T'' @
      pad0 2 h @ '':'' @ pad0 2 mi @ '':'' @ pad0 2 k @ z) iso8601_z = Inr t'
    \<and> stands_for t' y m d h mi (k * 1000000) \<and> m_local_time t' = m_local_time t
    \<and> (m_local_time t \<longrightarrow> m_tz_bias t' = bias sys t)"
  proof -
    obtain t1 where t1: "stands_for t1 y m d 0 0 0"
      "from_string_loop sys' (pad0 4 y @ ''-'' @ pad0 2 m @ ''-'' @ pad0 2 d @ ''T'' @
         pad0 2 h @ '':'' @ pad0 2 mi @ '':'' @ pad0 2 k @ z) False 0 Time_ctor (''%Y-%m-%d'' @ ''T%H:%M:%S%Z'')
       = from_string_loop sys' (''T'' @ pad0 2 h @ '':'' @ pad0 2 mi @ '':'' @ pad0 2 k @ z) False 0 t1 ''T%H:%M:%S%Z''"
      using parse_date [OF fresh refl, of y m d] st assms(2) by blast
    obtain t2 where t2: "stands_for t2 y m d h mi (k * 1000000)"
      "from_string_loop sys' (pad0 2 h @ '':'' @ pad0 2 mi @ '':'' @ pad0 2 k @ z) False 0 t1 (''%H:%M:%S'' @ ''%Z'')
       = from_string_loop sys' z False 0 t2 ''%Z''"
      using parse_time_of_day [OF t1(1), of h mi k] st k by blast
    have "from_string_loop sys' z False 0 t2 ''%Z''
        = Inr (t2\<lparr>m_tz_bias := if m_local_time t then bias sys t else - 1, m_local_time := m_local_time t\<rparr>)"
      using zb by (auto simp: field_kind_def read_text_def store_text_def hd_conv_nth)
    with t1(2) t2 show ?thesis
      by (simp add: Time_string_def from_string_def iso8601_z_def parse_char del: from_string_loop.simps)
  qed
  ultimately show ?thesis unfolding k_def by blast
qed

theorem time_text_roundtrip_witness:
  "let t = \<lparr>m_llTime = raw_of (calc_julian_date 2024 2 29) 13 4 59500000, m_local_time = True, m_tz_bias = - 450\<rparr>
   in \<exists>s t'. to_string 60 iso8601_z 0 t = Some (Inr s) \<and> Time_string 0 s iso8601_z = Inr t'
        \<and> stands_for t' 2024 2 29 13 4 59000000 \<and> m_tz_bias t' = - 450"
proof -
  define t where "t = \<lparr>m_llTime = raw_of (calc_julian_date 2024 2 29) 13 4 59500000, m_local_time = True, m_tz_bias = - 450\<rparr>"
  have "valid_date 2024 2 29" "\<not> missing_leap_day 2024 2 29" by code_simp+
  then have s: "stands_for t 2024 2 29 13 4 59500000" by (simp add: stands_for_def t_def)
  have b: "bias 60 t = - 450" "m_local_time t" by (simp_all add: bias_def t_def)
  show ?thesis
    using time_text_roundtrip [OF s, of 60 0] b by (simp add: Let_def t_def) blast
qed

text \<open>
  Parsing into a time that exists already. The fields are set one after the other on the old date, so a date is
  refused when the old day does not exist in the new year or month: on the 31st no date of a shorter month can be parsed.
\<close>

theorem from_string_old_day:
  assumes "stands_for t y0 m0 d0 h mi us" "1583 \<le> y" "y \<le> 4500" "valid_date y m d" "nb_days_in_month m y < d0"
  shows "from_string sys (pad0 4 y @ ''-'' @ pad0 2 m @ ''-'' @ pad0 2 d) iso8601_d t = Inl DATE_BAD_ARGS"
proof -
  have b: "1 \<le> m" "m \<le> 12" using assms(4) by (auto simp: valid_date_def)
  note s = assms(1) [unfolded stands_for_def]
  have m0: "1 \<le> m0" "m0 \<le> 12" "1 \<le> d0" using s by (auto simp: valid_date_def)
  have n: "store_number sys CHR ''Y'' 4 y t' = set_year sys y t'" "store_number sys CHR ''m'' 2 m t' = set_month sys m t'" for t'
    using assms(2,3) b by (simp_all add: store_number_def int16_id uint8_def)
  have p: "from_string_loop sys (pad0 4 y @ ''-'' @ r) False 0 t (''%Y-%m-%d'')
      = (case set_year sys y t of Inl e \<Rightarrow> Inl e | Inr t1 \<Rightarrow> from_string_loop sys r False 0 t1 ''%m-%d'')" for r
    using assms(2,3) by (simp add: parse_number parse_char field_kind_def n del: from_string_loop.simps split: sum.splits)
  have q: "from_string_loop sys (pad0 2 m @ ''-'' @ r) False 0 t1 (''%m-%d'')
      = (case set_month sys m t1 of Inl e \<Rightarrow> Inl e | Inr t2 \<Rightarrow> from_string_loop sys r False 0 t2 ''%d'')" for r t1
    using b by (simp add: parse_number parse_char field_kind_def n del: from_string_loop.simps split: sum.splits)
  have "from_string_loop sys (pad0 4 y @ ''-'' @ pad0 2 m @ ''-'' @ pad0 2 d) False 0 t ''%Y-%m-%d'' = Inl DATE_BAD_ARGS"
  proof (cases "nb_days_in_month m0 y < d0")
    case True
    then show ?thesis unfolding p using setters(8) [OF assms(1)] by simp
  next
    case False
    have g: "is_greg y m0 d0" using assms(2) by (simp add: is_greg_def)
    have "nb_days_in_month 2 y = (if greg_leap y then 29 else 28)"
      using assms(2) leap_dvd(2) [of y] by (simp add: nb_days_in_month_def greg_leap_def smod_eq_0)
    then have l: "month_length (greg_leap y) m0 = nb_days_in_month m0 y"
      by (cases rule: month_cases [OF m0(1,2)]) (simp_all add: month_length_def, simp_all add: nb_days_in_month_def)
    have "valid_date y m0 d0" "\<not> missing_leap_day y m0 d0"
      using m0 g l False assms(2) by (auto simp: valid_date_def leap_in_def missing_leap_day_def)
    then obtain t1 where t1: "set_year sys y t = Inr t1" "stands_for t1 y m0 d0 h mi (restored us)"
      using setters(6) [OF assms(1), of y sys] assms(3) by auto
    have "set_month sys m t1 = Inl DATE_BAD_ARGS" by (rule setters(7) [OF t1(2) assms(5)])
    with q [of "pad0 2 d" t1] show ?thesis unfolding p using t1(1) by (simp del: from_string_loop.simps)
  qed
  then show ?thesis by (simp add: from_string_def iso8601_d_def)
qed

theorem from_string_old_day_witness:
  "let t = \<lparr>m_llTime = raw_of (calc_julian_date 2024 1 31) 0 0 0, m_local_time = False, m_tz_bias = 0\<rparr>
   in from_string 0 (pad0 4 2024 @ ''-'' @ pad0 2 2 @ ''-'' @ pad0 2 15) iso8601_d t = Inl DATE_BAD_ARGS"
proof -
  define t where "t = \<lparr>m_llTime = raw_of (calc_julian_date 2024 1 31) 0 0 0, m_local_time = False, m_tz_bias = 0\<rparr>"
  have "valid_date 2024 1 31" "\<not> missing_leap_day 2024 1 31" by code_simp+
  then have s: "stands_for t 2024 1 31 0 0 0" by (simp add: stands_for_def t_def)
  have v: "valid_date 2024 2 15" "nb_days_in_month 2 2024 < 31" by code_simp+
  from from_string_old_day [OF s _ _ v, of 0] show ?thesis by (simp add: Let_def t_def)
qed

text \<open>The identifiers that \<open>to_string\<close> knows.\<close>

definition print_ids :: string where
  "print_ids = ''aAbhBCdeHjmMRsStTuUwyYZ%''"

text \<open>Whether a format has an unknown identifier behind a percent sign.\<close>

fun bad_format :: "bool \<Rightarrow> string \<Rightarrow> bool" where
  "bad_format g [] \<longleftrightarrow> False"
| "bad_format g (c # cs) \<longleftrightarrow>
     (if c = CHR ''%'' \<and> \<not> g then bad_format True cs
      else (g \<and> c \<notin> set print_ids) \<or> bad_format False cs)"

lemma name_at_Some: "1 \<le> i \<Longrightarrow> i \<le> int (length tbl) \<Longrightarrow> name_at tbl i \<noteq> None"
  by (simp add: name_at_def)

lemma restored_second:
  assumes "0 \<le> us" "us < 60000000" shows "restored us div 1000000 = us div 1000000"
proof (cases "us mod 1000000 = 0")
  case True
  define k where "k = us div 1000000"
  have us: "us = k * 1000000" using True by (auto simp: k_def)
  have k: "0 \<le> k" "k \<le> 59" using assms by (auto simp: k_def)
  have "rnd (of_int k) = of_int k" by (rule rnd_int) (use k in auto)
  then have "sec_of us = of_int k" by (simp add: sec_of_def us rnd_def [of 0])
  moreover have "rnd (of_int us) = of_int us" by (rule rnd_int) (use assms in auto)
  ultimately have "restored us = trunc (of_int us)" by (simp add: restored_def us)
  then show ?thesis by (simp only: trunc_int)
next
  case False
  obtain q r where q: "q = us div 1000000" "r = us mod 1000000" by simp
  then have e: "us = q * 1000000 + r" "0 \<le> r" "r < 1000000" by simp_all
  have "r \<noteq> 0" using q False by simp
  then have "q * 1000000 \<le> us - 1" using e by linarith
  moreover have "us - 1 < (q + 1) * 1000000" unfolding distrib_right using e by linarith
  ultimately have "(us - 1) div 1000000 = us div 1000000" unfolding q(1) [symmetric] by (rule div_eqI)
  then show ?thesis using sec_of_store(1) [OF assms] by (auto simp: restored_def)
qed

lemma set_read_ctor:
  assumes "stands_for t y m d h mi us"
  shows "\<exists>t'. set_fields (get_fields sys t) Time_ctor = Inr t' \<and> m_local_time t' = m_local_time t \<and> m_tz_bias t' = - 1
    \<and> stands_for t' y m d h mi (restored us)"
proof -
  note s = assms [unfolded stands_for_def]
  note g = get_stands_for [OF assms, of sys]
  have us: "0 \<le> us" "us < 60000000" using s by auto
  note b = sec_of_bounds [OF us]
  have "restored us < 60000000" using sec_of_store [OF us] us by (auto simp: restored_def)
  then show ?thesis
    using stands_for_set [of "get_fields sys t" "restored us" Time_ctor] s g b by (auto simp: restored_def Time_ctor_def)
qed

lemma field_text_total:
  assumes "stands_for t y m d h mi us"
  shows "c \<in> set print_ids \<Longrightarrow> \<exists>s f. field_text sys (get_fields sys t) p fill c = Some (Inr (s, f))"
    and "c \<notin> set print_ids \<Longrightarrow> field_text sys (get_fields sys t) p fill c = Some (Inl BAD_FORMAT)"
proof -
  note s = assms [unfolded stands_for_def]
  note g = get_stands_for [OF assms, of sys]
  obtain t' where t': "set_fields (get_fields sys t) Time_ctor = Inr t'" using set_read_ctor [OF assms, of sys] by auto
  define w where "w = calc_julian_date y m d mod 7 + 1"
  have "0 \<le> calc_julian_date y m d mod 7" "calc_julian_date y m d mod 7 < 7" by simp_all
  then have "1 \<le> w" "w \<le> 7" by (simp_all add: w_def)
  then obtain a b where d: "name_at day_en_abbr w = Some a" "name_at day_en w = Some b"
    by (simp add: name_at_def day_en_abbr_def day_en_def)
  have "1 \<le> m" "m \<le> 12" using s by (auto simp: valid_date_def)
  then obtain e f where m: "name_at month_en_abbr m = Some e" "name_at month_en m = Some f"
    by (simp add: name_at_def month_en_abbr_def month_en_def)
  show "\<exists>s f. field_text sys (get_fields sys t) p fill c = Some (Inr (s, f))" if "c \<in> set print_ids"
    using that unfolding print_ids_def list.set insert_iff empty_iff
    by (elim disjE) (simp_all add: field_text_def g d m t' flip: w_def)
  show "field_text sys (get_fields sys t) p fill c = Some (Inl BAD_FORMAT)" if "c \<notin> set print_ids"
    using that by (simp add: print_ids_def field_text_def)
qed

lemma to_string_loop_total:
  assumes "stands_for t y m d h mi us"
  shows "if bad_format g fmt then to_string_loop sys (get_fields sys t) p fill g oss fmt = Some (Inl BAD_FORMAT)
    else \<exists>s. to_string_loop sys (get_fields sys t) p fill g oss fmt = Some (Inr s)"
proof (induction fmt arbitrary: g fill oss)
  case (Cons c cs)
  show ?case
  proof (cases "c = CHR ''%'' \<and> \<not> g")
    case True
    then show ?thesis using Cons.IH [of True fill oss] by simp
  next
    case ne: False
    show ?thesis
    proof (cases g)
      case True
      show ?thesis
      proof (cases "c \<in> set print_ids")
        case c: True
        obtain s f where "field_text sys (get_fields sys t) p fill c = Some (Inr (s, f))"
          using field_text_total(1) [OF assms c] by blast
        then show ?thesis using Cons.IH [of False f "oss @ s"] ne True c by auto
      next
        case c: False
        show ?thesis using field_text_total(2) [OF assms c] ne True c by auto
      qed
    next
      case False
      then show ?thesis using Cons.IH [of False fill "oss @ [c]"] ne by auto
    qed
  qed
qed simp

text \<open>
  Printing does not fail on a time of the calendar: the tables of names are read inside their bounds, and the result is
  a text, or \<open>BAD_FORMAT\<close> exactly when the format has an unknown identifier.
\<close>

theorem to_string_total:
  assumes "stands_for t y m d h mi us"
  shows "if bad_format False fmt then to_string sys fmt p t = Some (Inl BAD_FORMAT)
    else \<exists>s. to_string sys fmt p t = Some (Inr s)"
  using to_string_loop_total [OF assms] by (simp add: to_string_def to_string_fields_def)

theorem to_string_total_witness:
  "let t = \<lparr>m_llTime = raw_of (calc_julian_date 2024 2 29) 0 0 0, m_local_time = False, m_tz_bias = 0\<rparr>
   in (\<exists>s. to_string 0 ''%A, %B %e %%'' 0 t = Some (Inr s)) \<and> to_string 0 ''%q'' 0 t = Some (Inl BAD_FORMAT)"
proof -
  define t where "t = \<lparr>m_llTime = raw_of (calc_julian_date 2024 2 29) 0 0 0, m_local_time = False, m_tz_bias = 0\<rparr>"
  have "valid_date 2024 2 29" "\<not> missing_leap_day 2024 2 29" by code_simp+
  then have s: "stands_for t 2024 2 29 0 0 0" by (simp add: stands_for_def t_def)
  have f: "\<not> bad_format False ''%A, %B %e %%''" "bad_format False ''%q''" by code_simp+
  from to_string_total [OF s, of "''%A, %B %e %%''" 0 0] to_string_total [OF s, of "''%q''" 0 0] f
  show ?thesis by (simp only: Let_def if_True if_False simp_thms flip: t_def)
qed

text \<open>
  The seconds since 1970 in a format are computed with the time zone of the system. \<open>%s\<close> goes through a new object,
  which does not have the bias of the time: for a local time with another bias the number is wrong by the difference.
\<close>

theorem unix_identifier:
  assumes "stands_for t y m d h mi us" "86400000000 < m_llTime t" "\<bar>sys\<bar> \<le> 1440" "\<bar>m_tz_bias t\<bar> \<le> 1440"
  shows "to_string sys ''%s'' p t =
      Some (Inr (int_str (long_unix sys t + (if m_local_time t then (bias sys t - sys) * 60 else 0))))"
proof -
  obtain t' where t': "set_fields (get_fields sys t) Time_ctor = Inr t'" "m_local_time t' = m_local_time t" "m_tz_bias t' = - 1"
    "stands_for t' y m d h mi (restored us)" using set_read_ctor [OF assms(1), of sys] by auto
  have us: "0 \<le> us" "us < 60000000" using assms(1) by (auto simp: stands_for_def)
  define A where "A = calc_julian_date y m d * 86400 + h * 3600 + mi * 60"
  have r: "m_llTime t = A * 1000000 + us" "m_llTime t' = A * 1000000 + restored us"
    using assms(1) t'(4) by (auto simp: stands_for_def raw_of_def A_def)
  have sec: "restored us div 1000000 = us div 1000000" by (rule restored_second [OF us])
  have shift: "(A * 1000000 + u - b * 60000000) div 1000000 = A - b * 60 + u div 1000000" for b u
  proof -
    have "A * 1000000 + u - b * 60000000 = u + (A - b * 60) * 1000000" by simp
    then show ?thesis by (simp only: div_mult_self1 [of 1000000])
  qed
  have shift0: "(A * 1000000 + u) div 1000000 = A + u div 1000000" for u using shift [of u 0] by simp
  have lu: "long_unix sys x = (if m_local_time x then (m_llTime x - bias sys x * 60000000) div 1000000 else m_llTime x div 1000000)
      - JULIAN_REF_UNIX * 86400" if "\<bar>bias sys x\<bar> \<le> 1440" "86400000000 \<le> m_llTime x" for x
  proof -
    have "0 \<le> m_llTime x - bias sys x * 60000000" using that by linarith
    then show ?thesis using to_utc_eq [OF that(1)] that by (simp add: long_unix_def Let_def time_consts sdiv_nonneg)
  qed
  have b: "\<bar>bias sys t\<bar> \<le> 1440" "bias sys t' = sys" using assms(3,4) t'(3) by (simp_all add: bias_def)
  have "restored us = us \<or> restored us = us - 1" using sec_of_store(1) [OF us] by (simp add: restored_def)
  then have "86400000000 \<le> m_llTime t'" using assms(2) r by auto
  note l' = lu [OF _ this, unfolded r shift shift0 b(2) sec t'(2)]
  have "86400000000 \<le> m_llTime t" using assms(2) by simp
  note l = lu [OF b(1) this, unfolded r shift shift0]
  have "long_unix sys t' = long_unix sys t + (if m_local_time t then (bias sys t - sys) * 60 else 0)"
    using l l' assms(3) by (cases "m_local_time t") simp_all
  then show ?thesis by (simp add: to_string_def to_string_fields_def field_text_def t'(1))
qed

theorem unix_identifier_witness:
  "let t = \<lparr>m_llTime = raw_of (calc_julian_date 2024 2 29) 0 0 0, m_local_time = True, m_tz_bias = - 450\<rparr>
   in to_string 60 ''%s'' 0 t = Some (Inr (int_str (long_unix 60 t - 30600)))"
proof -
  define t where "t = \<lparr>m_llTime = raw_of (calc_julian_date 2024 2 29) 0 0 0, m_local_time = True, m_tz_bias = - 450\<rparr>"
  have v: "valid_date 2024 2 29" "\<not> missing_leap_day 2024 2 29" "86400000000 < raw_of (calc_julian_date 2024 2 29) 0 0 0"
    by code_simp+
  then have s: "stands_for t 2024 2 29 0 0 0" by (simp add: stands_for_def t_def)
  have "86400000000 < m_llTime t" using v(3) by (simp add: t_def)
  from unix_identifier [OF s this, of 60 0] have "to_string 60 ''%s'' 0 t = Some (Inr (int_str (long_unix 60 t - 30600)))"
    by (simp add: t_def bias_def)
  then show ?thesis by (simp add: Let_def t_def)
qed

end
