(* ===== verification/Duration.thy ===== *)
theory Duration
  imports TimeText
begin

text \<open>
  \<open>Duration\<close> and \<open>MeanDuration\<close> of \<open>src/time/Time.cpp\<close> and \<open>include/yat/time/Time.h\<close>. A duration is its number of
  microseconds, an \<open>int64\<close>: a result outside 64 bits is undefined (\<open>None\<close>).
\<close>

record duration =
  m_microsecs :: int

definition int64_ok :: "int \<Rightarrow> bool" where
  "int64_ok x \<longleftrightarrow> - (2 ^ 63) \<le> x \<and> x < 2 ^ 63"

definition int64 :: "int \<Rightarrow> int option" where
  "int64 x = (if int64_ok x then Some x else None)"

definition dur :: "int \<Rightarrow> duration option" where
  "dur x = map_option (\<lambda>x. \<lparr>m_microsecs = x\<rparr>) (int64 x)"

section \<open>Construction and arithmetic\<close>

definition Duration_ctor :: duration where
  "Duration_ctor = \<lparr>m_microsecs = 0\<rparr>"

definition Duration_micros :: "int \<Rightarrow> duration option" where
  "Duration_micros microsecs = dur \<bar>microsecs\<bar>"

definition Duration_seconds :: "rat \<Rightarrow> duration option" where
  "Duration_seconds seconds = dur (trunc (rnd (\<bar>seconds\<bar> * of_int MICROSEC_PER_SEC)))"

definition Duration_times :: "time \<Rightarrow> time \<Rightarrow> duration option" where
  "Duration_times t1 t2 =
     (if m_llTime t1 > m_llTime t2 then dur (m_llTime t1 - m_llTime t2) else dur (m_llTime t2 - m_llTime t1))"

definition set_total_micros :: "int \<Rightarrow> duration option" where
  "set_total_micros microsecs = dur \<bar>microsecs\<bar>"

definition add_assign_micros :: "duration \<Rightarrow> int \<Rightarrow> duration option" where
  "add_assign_micros d microsecs = dur (m_microsecs d + microsecs)"

definition add_assign :: "duration \<Rightarrow> duration \<Rightarrow> duration option" where
  "add_assign d other = dur (m_microsecs d + m_microsecs other)"

definition sub_assign_micros :: "duration \<Rightarrow> int \<Rightarrow> duration option" where
  "sub_assign_micros d microsecs =
     (if m_microsecs d > microsecs then dur (m_microsecs d - microsecs) else Some \<lparr>m_microsecs = 0\<rparr>)"

definition sub_assign :: "duration \<Rightarrow> duration \<Rightarrow> duration option" where
  "sub_assign d other =
     (if m_microsecs d > m_microsecs other then dur (m_microsecs d - m_microsecs other) else Some \<lparr>m_microsecs = 0\<rparr>)"

definition plus_micros :: "duration \<Rightarrow> int \<Rightarrow> duration option" where
  "plus_micros d microsecs = dur (m_microsecs d + microsecs)"

definition plus_duration :: "duration \<Rightarrow> duration \<Rightarrow> duration option" where
  "plus_duration d other = dur (m_microsecs d + m_microsecs other)"

definition minus_micros :: "duration \<Rightarrow> int \<Rightarrow> duration option" where
  "minus_micros d microsecs =
     (if m_microsecs d > microsecs then dur (m_microsecs d - microsecs) else Some Duration_ctor)"

definition minus_duration :: "duration \<Rightarrow> duration \<Rightarrow> duration option" where
  "minus_duration d other =
     (if m_microsecs d > m_microsecs other then dur (m_microsecs d - m_microsecs other) else Some Duration_ctor)"

definition mult_assign_int :: "duration \<Rightarrow> int \<Rightarrow> duration option" where
  "mult_assign_int d n = (if n \<ge> 0 then dur (m_microsecs d * n) else Some d)"

definition div_assign_int :: "duration \<Rightarrow> int \<Rightarrow> duration option" where
  "div_assign_int d n = (if n > 0 then dur (m_microsecs d sdiv n) else Some d)"

definition mult_assign_double :: "duration \<Rightarrow> rat \<Rightarrow> duration option" where
  "mult_assign_double d factor =
     (if factor \<ge> 0 then dur (trunc (rnd (rnd (of_int (m_microsecs d)) * factor))) else Some d)"

definition div_assign_double :: "duration \<Rightarrow> rat \<Rightarrow> duration option" where
  "div_assign_double d factor =
     (if factor > 0 then dur (trunc (rnd (rnd (of_int (m_microsecs d)) / factor))) else Some d)"

definition mult_int :: "duration \<Rightarrow> int \<Rightarrow> duration option" where
  "mult_int d n = (if n \<ge> 0 then dur (m_microsecs d * n) else Some \<lparr>m_microsecs = m_microsecs d\<rparr>)"

definition div_int :: "duration \<Rightarrow> int \<Rightarrow> duration option" where
  "div_int d n = (if n > 0 then dur (m_microsecs d sdiv n) else Some \<lparr>m_microsecs = m_microsecs d\<rparr>)"

definition mult_double :: "duration \<Rightarrow> rat \<Rightarrow> duration option" where
  "mult_double d factor =
     (if factor \<ge> 0 then dur (trunc (rnd (rnd (of_int (m_microsecs d)) * factor))) else Some \<lparr>m_microsecs = m_microsecs d\<rparr>)"

definition div_double :: "duration \<Rightarrow> rat \<Rightarrow> duration option" where
  "div_double d factor =
     (if factor > 0 then dur (trunc (rnd (rnd (of_int (m_microsecs d)) / factor))) else Some \<lparr>m_microsecs = m_microsecs d\<rparr>)"

definition total_secs :: "duration \<Rightarrow> rat" where
  "total_secs d = rnd (rnd (of_int (m_microsecs d)) / of_int MICROSEC_PER_SEC)"

section \<open>Fields and text\<close>

record duration_fields =
  dd_days :: int
  dd_hours :: int
  dd_minutes :: int
  dd_seconds :: int
  dd_micros :: int

definition dd_clear :: duration_fields where
  "dd_clear = \<lparr>dd_days = 0, dd_hours = 0, dd_minutes = 0, dd_seconds = 0, dd_micros = 0\<rparr>"

definition dd_get :: "duration \<Rightarrow> duration_fields" where
  "dd_get d =
     (let days = uint8 (m_microsecs d sdiv MICROSEC_PER_SEC sdiv SEC_PER_DAY);
          ulSec = (m_microsecs d sdiv MICROSEC_PER_SEC) smod SEC_PER_DAY mod 2 ^ 32;
          hours = uint8 (ulSec div SEC_PER_HOUR);
          ulSec = (ulSec - hours * SEC_PER_HOUR) mod 2 ^ 32;
          minutes = uint8 (ulSec div SEC_PER_MIN);
          seconds = uint8 (ulSec - minutes * SEC_PER_MIN);
          micros = m_microsecs d smod MICROSEC_PER_SEC mod 2 ^ 32
      in \<lparr>dd_days = days, dd_hours = hours, dd_minutes = minutes, dd_seconds = seconds, dd_micros = micros\<rparr>)"

definition days :: "duration \<Rightarrow> int" where "days d = dd_days (dd_get d)"
definition hours :: "duration \<Rightarrow> int" where "hours d = dd_hours (dd_get d)"
definition minutes :: "duration \<Rightarrow> int" where "minutes d = dd_minutes (dd_get d)"
definition seconds :: "duration \<Rightarrow> int" where "seconds d = dd_seconds (dd_get d)"
definition millis :: "duration \<Rightarrow> int" where "millis d = (dd_micros (dd_get d) div 1000) mod 2 ^ 16"
definition micros :: "duration \<Rightarrow> int" where "micros d = dd_micros (dd_get d)"

definition duration_to_string :: "char \<Rightarrow> duration \<Rightarrow> string" where
  "duration_to_string sep d =
     (let df = dd_get d
      in if dd_days df > 0 then
           int_str (dd_days df) @ ''d'' @ [sep] @ pad0 2 (dd_hours df) @ ''h'' @ [sep] @ pad0 2 (dd_minutes df) @ ''m'' @ [sep]
             @ pad0 2 (dd_seconds df) @ ''s''
         else if dd_hours df > 0 then
           pad0 2 (dd_hours df) @ ''h'' @ [sep] @ pad0 2 (dd_minutes df) @ ''m'' @ [sep] @ pad0 2 (dd_seconds df) @ ''s''
         else if dd_minutes df > 0 then pad0 2 (dd_minutes df) @ ''m'' @ [sep] @ pad0 2 (dd_seconds df) @ ''s''
         else pad0 2 (dd_seconds df) @ ''s'')"

definition to_string_millis :: "char \<Rightarrow> duration \<Rightarrow> string" where
  "to_string_millis sep d =
     (let df = dd_get d; ms = ''.'' @ pad0 3 (dd_micros df div 1000)
      in if dd_days df > 0 then
           int_str (dd_days df) @ ''d'' @ [sep] @ pad0 2 (dd_hours df) @ ''h'' @ [sep] @ pad0 2 (dd_minutes df) @ ''m'' @ [sep]
             @ pad0 2 (dd_seconds df) @ ''s'' @ ms
         else if dd_hours df > 0 then
           pad0 2 (dd_hours df) @ ''h'' @ [sep] @ pad0 2 (dd_minutes df) @ ''m'' @ [sep] @ pad0 2 (dd_seconds df) @ ''s'' @ ms
         else if dd_minutes df > 0 then pad0 2 (dd_minutes df) @ ''m'' @ [sep] @ pad0 2 (dd_seconds df) @ ''s'' @ ms
         else pad0 2 (dd_seconds df) @ ''s'' @ ms)"

definition to_iso8601 :: "duration \<Rightarrow> string" where
  "to_iso8601 d =
     (let df = dd_get d
      in if dd_days df > 0 then
           pad0 2 (dd_days df) @ ''DT'' @ pad0 2 (dd_hours df) @ ''H'' @ pad0 2 (dd_minutes df) @ ''M'' @ pad0 2 (dd_seconds df) @ ''S''
         else if dd_hours df > 0 then
           ''T'' @ pad0 2 (dd_hours df) @ ''H'' @ pad0 2 (dd_minutes df) @ ''M'' @ pad0 2 (dd_seconds df) @ ''S''
         else if dd_minutes df > 0 then ''T'' @ pad0 2 (dd_minutes df) @ ''M'' @ pad0 2 (dd_seconds df) @ ''S''
         else ''T'' @ pad0 2 (dd_seconds df) @ ''S'')"

section \<open>Mean\<close>

text \<open>The count is a \<open>size_t\<close>, which makes the whole expression unsigned; the mean is stored by \<open>total_micros\<close>.\<close>

record mean_duration =
  m_count :: int
  m_mean :: duration

definition MeanDuration_ctor :: mean_duration where
  "MeanDuration_ctor = \<lparr>m_count = 0, m_mean = Duration_ctor\<rparr>"

definition signed64 :: "int \<Rightarrow> int" where
  "signed64 x = sint (word_of_int x :: 64 word)"

definition mean_add :: "duration \<Rightarrow> mean_duration \<Rightarrow> mean_duration option" where
  "mean_add d mn =
     (let n = (m_count mn + 1) mod 2 ^ 64
      in if n = 0 then None
         else let v = (m_microsecs (m_mean mn) * (n - 1) + m_microsecs d) mod 2 ^ 64 div n
              in map_option (\<lambda>m. \<lparr>m_count = n, m_mean = m\<rparr>) (set_total_micros (signed64 v)))"

fun mean_add_all :: "duration list \<Rightarrow> mean_duration \<Rightarrow> mean_duration option" where
  "mean_add_all [] mn = Some mn"
| "mean_add_all (d # ds) mn = (case mean_add d mn of None \<Rightarrow> None | Some mn \<Rightarrow> mean_add_all ds mn)"

section \<open>Fields\<close>

lemma mod_cut: "0 < m \<Longrightarrow> 0 \<le> x mod m \<and> x mod m < (m :: int)"
  by simp

lemma dd_get_eq:
  assumes "0 \<le> m_microsecs d"
  shows "dd_get d =
    \<lparr>dd_days = m_microsecs d div 86400000000 mod 256, dd_hours = m_microsecs d div 3600000000 mod 24,
      dd_minutes = m_microsecs d div 60000000 mod 60, dd_seconds = m_microsecs d div 1000000 mod 60,
      dd_micros = m_microsecs d mod 1000000\<rparr>"
proof -
  define x where "x = m_microsecs d"
  define s where "s = x div 1000000"
  define r where "r = s mod 86400"
  have s: "0 \<le> s" using assms by (simp add: s_def x_def pos_imp_zdiv_nonneg_iff)
  have r: "0 \<le> r" "r < 86400" by (simp_all add: r_def)
  have h: "0 \<le> r div 3600" "r div 3600 < 24" using r by (auto simp: pos_imp_zdiv_nonneg_iff)
  have e1: "r - r div 3600 * 3600 = r mod 3600" by (simp add: minus_div_mult_eq_mod)
  have m: "0 \<le> r mod 3600 div 60" "r mod 3600 div 60 < 60"
    using mod_cut [of 3600 r] by (auto simp: pos_imp_zdiv_nonneg_iff)
  have e2: "r mod 3600 - r mod 3600 div 60 * 60 = r mod 3600 mod 60" by (simp add: minus_div_mult_eq_mod)
  have e3: "r mod 3600 mod 60 = r mod 60" by (rule mod_mod_cancel) simp
  have b: "0 \<le> r mod 3600" "r mod 3600 < 3600" "0 \<le> r mod 60" "r mod 60 < 60" "0 \<le> x mod 1000000" "x mod 1000000 < 1000000"
    by simp_all
  have t: "y mod 2 ^ 32 = y" if "0 \<le> y" "y < 100000000" for y :: int using that by simp
  have u: "y mod 256 = y" if "0 \<le> y" "y < 100" for y :: int using that by simp
  have hh: "s mod 86400 div 3600 = s div 3600 mod 24"
  proof -
    have n: "86400 = 3600 * (24 :: int)" by simp
    have z: "s mod 86400 = 3600 * (s div 3600 mod 24) + s mod 3600" unfolding n by (rule zmod_zmult2_eq) simp
    have "0 \<le> s mod 3600" "s mod 3600 < 3600" by simp_all
    then show ?thesis unfolding z by (intro int_div_pos_eq [OF refl])
  qed
  have mm: "s mod 86400 mod 3600 div 60 = s div 60 mod 60"
  proof -
    have a: "s mod 86400 mod 3600 = s mod 3600" by (rule mod_mod_cancel) simp
    have n: "3600 = 60 * (60 :: int)" by simp
    have z: "s mod 3600 = 60 * (s div 60 mod 60) + s mod 60" unfolding n by (rule zmod_zmult2_eq) simp
    have "0 \<le> s mod 60" "s mod 60 < 60" by simp_all
    then have "s mod 3600 div 60 = s div 60 mod 60" unfolding z by (intro int_div_pos_eq [OF refl])
    then show ?thesis by (simp only: a)
  qed
  have ss: "s mod 86400 mod 60 = s mod 60" by (rule mod_mod_cancel) simp
  have dv: "x div 86400000000 = s div 86400" "x div 3600000000 = s div 3600" "x div 60000000 = s div 60"
  proof -
    have z: "x div (1000000 * n) = s div n" if "0 \<le> n" for n using that by (simp only: s_def zdiv_zmult2_eq)
    have n: "86400000000 = 1000000 * (86400 :: int)" "3600000000 = 1000000 * (3600 :: int)" "60000000 = 1000000 * (60 :: int)"
      by simp_all
    show "x div 86400000000 = s div 86400" "x div 3600000000 = s div 3600" "x div 60000000 = s div 60"
      unfolding n by (rule z; simp)+
  qed
  have q: "x sdiv 1000000 = s" "x smod 1000000 = x mod 1000000" "s sdiv 86400 = s div 86400" "s smod 86400 = r"
    using assms s by (simp_all add: sdiv_nonneg smod_nonneg x_def s_def r_def)
  have "dd_get d = \<lparr>dd_days = s div 86400 mod 256, dd_hours = r div 3600, dd_minutes = r mod 3600 div 60,
      dd_seconds = r mod 3600 mod 60, dd_micros = x mod 1000000\<rparr>"
  proof -
    have f1: "r mod 2 ^ 32 = r" by (rule t) (use r in simp_all)
    have f2: "(r - r div 3600 * 3600) mod 2 ^ 32 = r mod 3600" unfolding e1 by (rule t) (use b in simp_all)
    have f3: "uint8 (r div 3600) = r div 3600" unfolding uint8_def by (rule u) (use h in simp_all)
    have f4: "uint8 (r mod 3600 div 60) = r mod 3600 div 60" unfolding uint8_def by (rule u) (use m in simp_all)
    have f5: "uint8 (r mod 3600 - r mod 3600 div 60 * 60) = r mod 3600 mod 60"
      unfolding e2 uint8_def e3 by (rule u) (use b in simp_all)
    have f6: "x mod 1000000 mod 2 ^ 32 = x mod 1000000" by (rule t) (use b in simp_all)
    have f7: "uint8 (s div 86400) = s div 86400 mod 256" by (rule uint8_def)
    show ?thesis
      by (simp only: dd_get_def Let_def time_consts x_def [symmetric] q f1 f2 f3 f4 f5 f6 f7)
  qed
  then show ?thesis by (simp only: x_def [symmetric] dv s_def [symmetric] r_def e3 [unfolded r_def] hh mm ss)
qed

text \<open>A duration below 256 days is the sum of its fields.\<close>

lemma fields_sum:
  assumes "0 \<le> m_microsecs d" "m_microsecs d < 256 * 86400000000"
  shows "m_microsecs d =
    (((dd_days (dd_get d) * 24 + dd_hours (dd_get d)) * 60 + dd_minutes (dd_get d)) * 60 + dd_seconds (dd_get d)) * 1000000
      + dd_micros (dd_get d)"
proof -
  define x where "x = m_microsecs d"
  have z: "x div (a * b) = x div a div b" if "0 \<le> b" for a b using that by (rule zdiv_zmult2_eq)
  have n: "86400000000 = 3600000000 * (24 :: int)" "3600000000 = 60000000 * (60 :: int)" "60000000 = 1000000 * (60 :: int)"
    by simp_all
  have "x div 86400000000 < 256" "0 \<le> x div 86400000000"
    using assms unfolding x_def by linarith+
  then have dd: "x div 86400000000 mod 256 = x div 86400000000" by simp
  have d1: "x div 86400000000 = x div 3600000000 div 24" unfolding n(1) by (rule z) simp
  have d2: "x div 3600000000 = x div 60000000 div 60" unfolding n(2) by (rule z) simp
  have d3: "x div 60000000 = x div 1000000 div 60" unfolding n(3) by (rule z) simp
  have "((x div 86400000000 * 24 + x div 3600000000 mod 24) * 60 + x div 60000000 mod 60) * 60 + x div 1000000 mod 60 = x div 1000000"
    by (simp only: d1 div_mult_mod_eq, simp only: d2 div_mult_mod_eq, simp only: d3 div_mult_mod_eq)
  then show ?thesis
    unfolding dd_get_eq [OF assms(1)] x_def [symmetric] duration_fields.simps dd
    by (simp only: div_mult_mod_eq)
qed

section \<open>Text\<close>

lemma run_eq:
  "list_all isdigit a \<Longrightarrow> list_all isdigit b \<Longrightarrow> \<not> isdigit x \<Longrightarrow> \<not> isdigit y \<Longrightarrow>
     a @ x # r = b @ y # s \<longleftrightarrow> a = b \<and> x = y \<and> r = s"
proof (induction a arbitrary: b)
  case Nil
  then show ?case by (cases b) auto
next
  case (Cons c a)
  then show ?case by (cases b) auto
qed

lemma pad0_digits: "0 \<le> n \<Longrightarrow> list_all isdigit (pad0 w n) \<and> digits_val 0 (pad0 w n) = n"
  using dec_digits [of "nat n"] dec_val [of "nat n"]
  by (auto simp: pad0_def pad_def int_str_def digits_val_zeros isdigit_def list_all_iff)

lemma int_str_digits: "0 \<le> n \<Longrightarrow> list_all isdigit (int_str n) \<and> digits_val 0 (int_str n) = n"
  using dec_digits [of "nat n"] dec_val [of "nat n"] by (simp add: int_str_def list_all_iff)

lemma pad0_eq_iff: "0 \<le> m \<Longrightarrow> 0 \<le> n \<Longrightarrow> pad0 w m = pad0 w n \<longleftrightarrow> m = n"
  by (metis pad0_digits)

lemma int_str_eq_iff: "0 \<le> m \<Longrightarrow> 0 \<le> n \<Longrightarrow> int_str m = int_str n \<longleftrightarrow> m = n"
  by (metis int_str_digits)

lemma letters: "\<not> isdigit CHR ''d''" "\<not> isdigit CHR ''h''" "\<not> isdigit CHR ''m''" "\<not> isdigit CHR ''s''"
  by (simp_all add: isdigit_def)

text \<open>Texts of durations, on their fields.\<close>

definition fields_text :: "char \<Rightarrow> int \<Rightarrow> int \<Rightarrow> int \<Rightarrow> int \<Rightarrow> string \<Rightarrow> string" where
  "fields_text sep d h m s t =
     (if d > 0 then
        int_str d @ CHR ''d'' # sep # pad0 2 h @ CHR ''h'' # sep # pad0 2 m @ CHR ''m'' # sep # pad0 2 s @ CHR ''s'' # t
      else if h > 0 then pad0 2 h @ CHR ''h'' # sep # pad0 2 m @ CHR ''m'' # sep # pad0 2 s @ CHR ''s'' # t
      else if m > 0 then pad0 2 m @ CHR ''m'' # sep # pad0 2 s @ CHR ''s'' # t
      else pad0 2 s @ CHR ''s'' # t)"

lemma fields_text_eq:
  assumes "fields_text sep d1 h1 m1 s1 t1 = fields_text sep d2 h2 m2 s2 t2"
    and "0 \<le> d1" "0 \<le> h1" "0 \<le> m1" "0 \<le> s1" "0 \<le> d2" "0 \<le> h2" "0 \<le> m2" "0 \<le> s2"
  shows "d1 = d2 \<and> h1 = h2 \<and> m1 = m2 \<and> s1 = s2"
  using assms unfolding fields_text_def
  by (auto simp: run_eq letters pad0_digits int_str_digits pad0_eq_iff int_str_eq_iff split: if_splits)

lemma duration_to_string_text:
  "duration_to_string sep d =
    fields_text sep (dd_days (dd_get d)) (dd_hours (dd_get d)) (dd_minutes (dd_get d)) (dd_seconds (dd_get d)) []"
  by (simp add: duration_to_string_def fields_text_def Let_def)

text \<open>
  The text of a duration. Below 256 days the text determines the duration up to the microseconds, for every separator.
  The number of days is kept in 8 bits: 256 days more do not change the fields nor the text.
\<close>

theorem duration_text:
  assumes "0 \<le> m_microsecs a" "0 \<le> m_microsecs b"
  shows "(m_microsecs a < 256 * 86400000000 \<and> m_microsecs b < 256 * 86400000000
      \<and> duration_to_string sep a = duration_to_string sep b \<longrightarrow> m_microsecs a div 1000000 = m_microsecs b div 1000000)
    \<and> (m_microsecs b = m_microsecs a + 256 * 86400000000 \<longrightarrow>
        dd_get b = dd_get a \<and> duration_to_string sep b = duration_to_string sep a \<and> to_iso8601 b = to_iso8601 a)"
proof (intro conjI impI)
  have p: "0 \<le> dd_days (dd_get x) \<and> 0 \<le> dd_hours (dd_get x) \<and> 0 \<le> dd_minutes (dd_get x) \<and> 0 \<le> dd_seconds (dd_get x)
      \<and> 0 \<le> dd_micros (dd_get x) \<and> dd_micros (dd_get x) < 1000000" if "0 \<le> m_microsecs x" for x
    by (simp add: dd_get_eq [OF that])
  assume h: "m_microsecs a < 256 * 86400000000 \<and> m_microsecs b < 256 * 86400000000
    \<and> duration_to_string sep a = duration_to_string sep b"
  then have "dd_days (dd_get a) = dd_days (dd_get b) \<and> dd_hours (dd_get a) = dd_hours (dd_get b)
      \<and> dd_minutes (dd_get a) = dd_minutes (dd_get b) \<and> dd_seconds (dd_get a) = dd_seconds (dd_get b)"
    using p [OF assms(1)] p [OF assms(2)] unfolding duration_to_string_text by (intro fields_text_eq) blast+
  moreover note fields_sum [OF assms(1)] fields_sum [OF assms(2)]
  ultimately have "m_microsecs a - dd_micros (dd_get a) = m_microsecs b - dd_micros (dd_get b)" using h by simp
  moreover have "dd_micros (dd_get x) = m_microsecs x mod 1000000" if "0 \<le> m_microsecs x" for x
    by (simp add: dd_get_eq [OF that])
  ultimately show "m_microsecs a div 1000000 = m_microsecs b div 1000000"
    using assms by (simp add: minus_mod_eq_mult_div)
next
  assume b: "m_microsecs b = m_microsecs a + 256 * 86400000000"
  have s: "(x + 256 * 86400000000) div 86400000000 mod 256 = x div 86400000000 mod 256"
    "(x + 256 * 86400000000) div 3600000000 mod 24 = x div 3600000000 mod 24"
    "(x + 256 * 86400000000) div 60000000 mod 60 = x div 60000000 mod 60"
    "(x + 256 * 86400000000) div 1000000 mod 60 = x div 1000000 mod 60"
    "(x + 256 * 86400000000) mod 1000000 = x mod 1000000" for x :: int
  proof -
    have k: "(x + n * k) div n mod m = x div n mod m" if "0 < n" "k mod m = 0" for n k m :: int
    proof -
      have "(x + n * k) div n = k + x div n" using that(1) by simp
      then show ?thesis using that(2) by (metis add_0 mod_add_left_eq)
    qed
    show "(x + 256 * 86400000000) div 86400000000 mod 256 = x div 86400000000 mod 256"
      using k [of 86400000000 256 256] by simp
    show "(x + 256 * 86400000000) div 3600000000 mod 24 = x div 3600000000 mod 24"
      using k [of 3600000000 6144 24] by simp
    show "(x + 256 * 86400000000) div 60000000 mod 60 = x div 60000000 mod 60"
      using k [of 60000000 368640 60] by simp
    show "(x + 256 * 86400000000) div 1000000 mod 60 = x div 1000000 mod 60"
      using k [of 1000000 22118400 60] by simp
    show "(x + 256 * 86400000000) mod 1000000 = x mod 1000000"
      using mod_mult_self2 [of x 1000000 22118400] by simp
  qed
  show d: "dd_get b = dd_get a"
    by (simp only: dd_get_eq [OF assms(1)] dd_get_eq [OF assms(2)] b s)
  then show "duration_to_string sep b = duration_to_string sep a" "to_iso8601 b = to_iso8601 a"
    by (simp_all only: duration_to_string_def to_iso8601_def)
qed

theorem duration_text_witness:
  "dd_get \<lparr>m_microsecs = 22118401000000\<rparr> = dd_get \<lparr>m_microsecs = 1000000\<rparr>"
  using duration_text [of "\<lparr>m_microsecs = 1000000\<rparr>" "\<lparr>m_microsecs = 22118401000000\<rparr>"] by simp

section \<open>Arithmetic\<close>

lemma dur_Some: "dur x = Some d \<longleftrightarrow> int64_ok x \<and> d = \<lparr>m_microsecs = x\<rparr>"
  by (auto simp: dur_def int64_def)

text \<open>
  Durations are never negative - except through the addition of a negative number of microseconds, which \<open>operator +=\<close>
  and \<open>operator +\<close> do not check while every other operation keeps the sign: the distance of two times is
  symmetric, subtraction stops at zero, negative factors are ignored.
\<close>

theorem duration_nonneg:
  assumes "0 \<le> m_microsecs a" "0 \<le> m_microsecs b"
  shows "Duration_times s t = Duration_times t s
    \<and> (\<forall>r. Duration_times s t = Some r \<longrightarrow> m_microsecs r = \<bar>m_llTime s - m_llTime t\<bar>)
    \<and> (\<forall>r. Duration_micros x = Some r \<longrightarrow> m_microsecs r = \<bar>x\<bar>)
    \<and> (\<forall>r. sub_assign a b = Some r \<longrightarrow> m_microsecs r = max 0 (m_microsecs a - m_microsecs b))
    \<and> minus_duration a b = sub_assign a b \<and> plus_duration a b = add_assign a b
    \<and> (\<forall>r. add_assign a b = Some r \<longrightarrow> sub_assign r b = Some a)
    \<and> (\<forall>r. mult_assign_int a n = Some r \<longrightarrow> m_microsecs r = m_microsecs a * (if n \<ge> 0 then n else 1))
    \<and> (\<forall>r. div_assign_int a n = Some r \<longrightarrow> m_microsecs r = (if n > 0 then m_microsecs a div n else m_microsecs a))
    \<and> (\<forall>r. add_assign_micros a x = Some r \<longrightarrow> (0 \<le> m_microsecs r \<longleftrightarrow> - x \<le> m_microsecs a))"
proof (intro conjI allI impI)
  show "Duration_times s t = Duration_times t s" by (auto simp: Duration_times_def)
  show "m_microsecs r = \<bar>m_llTime s - m_llTime t\<bar>" if "Duration_times s t = Some r" for r
    using that by (auto simp: Duration_times_def dur_Some split: if_splits)
  show "m_microsecs r = \<bar>x\<bar>" if "Duration_micros x = Some r" for r
    using that by (simp add: Duration_micros_def dur_Some)
  show "m_microsecs r = max 0 (m_microsecs a - m_microsecs b)" if "sub_assign a b = Some r" for r
    using that by (auto simp: sub_assign_def dur_Some split: if_splits)
  show "minus_duration a b = sub_assign a b" by (simp add: minus_duration_def sub_assign_def Duration_ctor_def)
  show "plus_duration a b = add_assign a b" by (simp add: plus_duration_def add_assign_def)
  show "sub_assign r b = Some a" if "add_assign a b = Some r" for r
  proof -
    have r: "m_microsecs r = m_microsecs a + m_microsecs b" "int64_ok (m_microsecs a + m_microsecs b)"
      using that by (simp_all add: add_assign_def dur_Some)
    then have "int64_ok (m_microsecs a)" using assms unfolding int64_ok_def by linarith
    then show ?thesis using assms r(1) by (auto simp: sub_assign_def dur_Some)
  qed
  show "m_microsecs r = m_microsecs a * (if n \<ge> 0 then n else 1)" if "mult_assign_int a n = Some r" for r
    using that by (auto simp: mult_assign_int_def dur_Some split: if_splits)
  show "m_microsecs r = (if n > 0 then m_microsecs a div n else m_microsecs a)" if "div_assign_int a n = Some r" for r
    using that assms(1) by (auto simp: div_assign_int_def dur_Some sdiv_nonneg split: if_splits)
  show "0 \<le> m_microsecs r \<longleftrightarrow> - x \<le> m_microsecs a" if "add_assign_micros a x = Some r" for r
    using that by (auto simp: add_assign_micros_def dur_Some)
qed

theorem duration_nonneg_witness:
  "sub_assign \<lparr>m_microsecs = 5\<rparr> \<lparr>m_microsecs = 7\<rparr> = Some \<lparr>m_microsecs = 0\<rparr>
   \<and> add_assign_micros \<lparr>m_microsecs = 5\<rparr> (- 7) = Some \<lparr>m_microsecs = - 2\<rparr>"
  using duration_nonneg [of "\<lparr>m_microsecs = 5\<rparr>" "\<lparr>m_microsecs = 7\<rparr>"]
  by (simp add: sub_assign_def add_assign_micros_def dur_def int64_def int64_ok_def)

section \<open>Mean of durations\<close>

definition total_of :: "duration list \<Rightarrow> int" where
  "total_of ds = sum_list (map m_microsecs ds)"

lemma total_nonneg: "\<forall>d \<in> set ds. 0 \<le> m_microsecs d \<Longrightarrow> 0 \<le> total_of ds"
  unfolding total_of_def by (intro sum_list_nonneg) auto

lemma mean_add_step:
  assumes "0 \<le> m_microsecs d" "0 \<le> m_count mn" "m_count mn < 2 ^ 62" "0 \<le> m_microsecs (m_mean mn)"
    and "m_microsecs (m_mean mn) * m_count mn + m_microsecs d < 2 ^ 63"
  shows "mean_add d mn = Some \<lparr>m_count = m_count mn + 1,
    m_mean = \<lparr>m_microsecs = (m_microsecs (m_mean mn) * m_count mn + m_microsecs d) div (m_count mn + 1)\<rparr>\<rparr>"
proof -
  define n where "n = m_count mn + 1"
  define t where "t = m_microsecs (m_mean mn) * m_count mn + m_microsecs d"
  have n: "(m_count mn + 1) mod 2 ^ 64 = n" "0 < n" using assms by (simp_all add: n_def)
  have t: "0 \<le> t" "t < 2 ^ 63" using assms by (simp_all add: t_def)
  then have tm: "t mod 2 ^ 64 = t" by simp
  have "t div n \<le> t div 1" using t n by (intro zdiv_mono2) auto
  then have v: "0 \<le> t div n" "t div n \<le> t" using t n by (simp_all add: pos_imp_zdiv_nonneg_iff)
  then have s: "signed64 (t div n) = t div n"
    using t by (simp add: signed64_def signed_of_int signed_take_bit_int_eq_self)
  have "int64_ok \<bar>t div n\<bar>" using v t by (simp add: int64_ok_def)
  then have d: "dur (t div n) = Some \<lparr>m_microsecs = t div n\<rparr>" using v by (simp add: dur_Some)
  have e: "m_microsecs (m_mean mn) * (n - 1) + m_microsecs d = t" by (simp add: t_def n_def)
  have z: "n \<noteq> 0" using n by simp
  have "mean_add d mn = Some \<lparr>m_count = n, m_mean = \<lparr>m_microsecs = t div n\<rparr>\<rparr>"
    by (simp only: mean_add_def Let_def n e tm s z set_total_micros_def abs_of_nonneg [OF v(1)] d if_False option.simps)
  then show ?thesis by (simp add: n_def t_def)
qed
text \<open>One step of the mean, on the sum of the durations so far.\<close>

definition mean_inv :: "int \<Rightarrow> mean_duration \<Rightarrow> bool" where
  "mean_inv S mn \<longleftrightarrow> 0 \<le> m_count mn \<and> 0 \<le> m_microsecs (m_mean mn)
     \<and> m_count mn * m_microsecs (m_mean mn) \<le> S \<and> 2 * S \<le> 2 * (m_count mn * m_microsecs (m_mean mn)) + m_count mn * (m_count mn - 1)"

lemma mean_bound:
  assumes "p + r = t" "r \<le> n - 1"
    and "0 \<le> c \<and> 0 \<le> m \<and> e \<le> S \<and> 2 * S \<le> 2 * e + k" "t = e + d"
  shows "2 * (S + d) \<le> 2 * p + (k + 2 * (n - (1 :: int)))"
  using assms by auto

lemma mean_inv_step:
  assumes "mean_inv S mn" "0 \<le> m_microsecs d" "m_count mn < 2 ^ 62" "S + m_microsecs d < 2 ^ 63"
  obtains mn' where "mean_add d mn = Some mn'" "mean_inv (S + m_microsecs d) mn'" "m_count mn' = m_count mn + 1"
proof -
  note i = assms(1) [unfolded mean_inv_def]
  define t where "t = m_microsecs (m_mean mn) * m_count mn + m_microsecs d"
  define n where "n = m_count mn + 1"
  have c: "m_microsecs (m_mean mn) * m_count mn = m_count mn * m_microsecs (m_mean mn)" by (rule mult.commute)
  have "mean_add d mn = Some \<lparr>m_count = n, m_mean = \<lparr>m_microsecs = t div n\<rparr>\<rparr>"
    unfolding t_def n_def by (rule mean_add_step) (use i assms(2-4) in \<open>simp_all only: c\<close>, use i assms(2-4) in linarith)
  moreover have "mean_inv (S + m_microsecs d) \<lparr>m_count = n, m_mean = \<lparr>m_microsecs = t div n\<rparr>\<rparr>"
  proof -
    have n: "0 < n" using i by (simp add: n_def)
    have t0: "0 \<le> t" using i assms(2) by (simp add: t_def)
    have q: "n * (t div n) + t mod n = t" "0 \<le> t mod n" "t mod n < n" using n by simp_all
    have r: "t mod n \<le> n - 1" using q by simp
    have t1: "t = m_count mn * m_microsecs (m_mean mn) + m_microsecs d" by (simp add: t_def)
    have e: "n * (n - 1) = m_count mn * (m_count mn - 1) + 2 * (n - 1)" by (simp add: n_def algebra_simps)
    have "0 \<le> t div n" using t0 n by (simp add: pos_imp_zdiv_nonneg_iff)
    moreover have "n * (t div n) \<le> S + m_microsecs d" using q i c unfolding t_def by linarith
    moreover have "2 * (S + m_microsecs d) \<le> 2 * (n * (t div n)) + n * (n - 1)"
      unfolding e by (rule mean_bound [OF q(1) r i t1])
    ultimately show ?thesis using n by (simp add: mean_inv_def)
  qed
  ultimately show ?thesis by (intro that [of "\<lparr>m_count = n, m_mean = \<lparr>m_microsecs = t div n\<rparr>\<rparr>"]) (simp_all add: n_def)
qed

lemma mean_inv_all:
  assumes "mean_inv S mn" "\<forall>d \<in> set ds. 0 \<le> m_microsecs d" "m_count mn + int (length ds) \<le> 2 ^ 62" "S + total_of ds < 2 ^ 63"
  shows "\<exists>mn'. mean_add_all ds mn = Some mn' \<and> mean_inv (S + total_of ds) mn' \<and> m_count mn' = m_count mn + int (length ds)"
  using assms
proof (induction ds arbitrary: S mn)
  case (Cons d ds)
  have "0 \<le> total_of ds" using Cons.prems(2) by (intro total_nonneg) simp
  then obtain m1 where m1: "mean_add d mn = Some m1" "mean_inv (S + m_microsecs d) m1" "m_count m1 = m_count mn + 1"
    using Cons.prems by (auto simp: total_of_def intro: mean_inv_step)
  from Cons.IH [OF m1(2)] m1 Cons.prems show ?case by (auto simp: total_of_def add.assoc)
qed (auto simp: total_of_def)

text \<open>
  \<open>MeanDuration\<close> computes the mean incrementally with integer division. After \<open>n\<close> durations the mean is not above the
  true mean, and below it by at most \<open>(n - 1) / 2\<close> microseconds.
\<close>

theorem mean_duration_error:
  assumes "\<forall>d \<in> set ds. 0 \<le> m_microsecs d" "int (length ds) \<le> 2 ^ 62" "total_of ds < 2 ^ 63"
  shows "\<exists>mn. mean_add_all ds MeanDuration_ctor = Some mn \<and> m_count mn = int (length ds)
    \<and> int (length ds) * m_microsecs (m_mean mn) \<le> total_of ds
    \<and> 2 * (total_of ds - int (length ds) * m_microsecs (m_mean mn)) \<le> int (length ds) * (int (length ds) - 1)"
proof -
  have "mean_inv 0 MeanDuration_ctor" by (simp add: mean_inv_def MeanDuration_ctor_def Duration_ctor_def)
  from mean_inv_all [OF this assms(1)] assms(2,3) show ?thesis
    by (auto simp: mean_inv_def MeanDuration_ctor_def algebra_simps)
qed

theorem mean_duration_error_witness:
  "\<exists>mn. mean_add_all [\<lparr>m_microsecs = 1\<rparr>, \<lparr>m_microsecs = 2\<rparr>] MeanDuration_ctor = Some mn \<and> m_microsecs (m_mean mn) = 1"
proof -
  have c: "total_of [\<lparr>m_microsecs = 1\<rparr>, \<lparr>m_microsecs = 2\<rparr>] = 3" by (simp add: total_of_def)
  obtain mn where "mean_add_all [\<lparr>m_microsecs = 1\<rparr>, \<lparr>m_microsecs = 2\<rparr>] MeanDuration_ctor = Some mn"
    "2 * m_microsecs (m_mean mn) \<le> 3" "2 * (3 - 2 * m_microsecs (m_mean mn)) \<le> 2"
    using mean_duration_error [of "[\<lparr>m_microsecs = 1\<rparr>, \<lparr>m_microsecs = 2\<rparr>]"] by (auto simp: c)
  then have "m_microsecs (m_mean mn) = 1" by arith
  with \<open>mean_add_all _ _ = Some mn\<close> show ?thesis by blast
qed

end
