(* ===== verification/TaskLoop.thy ===== *)
theory TaskLoop
  imports MessageQueue Binary64
begin

text \<open>
  Tasks: \<open>src/threading/Task.cpp\<close>, \<open>include/yat/threading/Task.i\<close>, the life of a message from
  \<open>src/threading/Message.cpp\<close>, \<open>Message.i\<close> and \<open>SharedObject.cpp\<close>, and the state of the thread from
  \<open>src/threading/PosixThreadingImpl.cpp\<close>. The state holds the queue with its waiting threads (\<open>sys\<close> of
  \<open>MessageQueue\<close>), the message objects with their reference counts, the point that \<open>run_undetached\<close> has reached,
  the references that the code of the clients owns, and the calls that are waiting. Every critical section is one
  event; a pointer to an object that does not exist any more sets \<open>fault\<close>. The message handler is code of the
  client: its outcome is an argument of the event in which it returns.
\<close>

section \<open>Message objects\<close>

definition TASK_WAKEUP :: u64 where "TASK_WAKEUP = 3"
definition DEFAULT_MSG_PRIORITY :: u64 where "DEFAULT_MSG_PRIORITY = 0"
definition HIGHEST_MSG_PRIORITY :: u64 where "HIGHEST_MSG_PRIORITY = 0xFFFF"

datatype exn = PROGRAMMING_ERROR | INVALID_ARGUMENT | INTERNAL_ERROR | TIMEOUT_EXPIRED | BAD_ARG | Handler_error nat

record msg_obj =
  obj_msg :: message
  reference_count :: int
  is_processed :: bool
  is_waitable :: bool
  obj_error :: "exn option"

text \<open>\<open>wait_msg_handled\<close> keeps its reference during the call and has a time-out, a plain \<open>post\<close> has neither.\<close>

datatype call =
    Posting nat "nat option"
  | Waiting nat nat bool

datatype outcome = Posted int | Handled_ok | Threw exn

datatype phase = InitLoop | MainLoop

datatype run_state =
    NotStarted
  | Calling phase
  | Blocked phase
  | Handling message
  | Marking message
  | Releasing message
  | Finished

record task =
  qs :: sys
  heap :: "nat \<Rightarrow> msg_obj option"
  next_id :: nat
  fault :: bool
  run_st :: run_state
  received_init_msg :: bool
  timeout_msg_period_ms :: u64
  periodic_msg_period_ms :: rat
  precise_periodic_timing_enabled :: bool
  run_tmo :: rat
  sizeof_message :: u64
  held :: "nat list"
  calls :: "call list"
  outcomes :: "(nat \<times> outcome) list"
  handled :: "(message \<times> exn option) list"

definition notify :: "nat \<Rightarrow> call list \<Rightarrow> call list" where
  "notify i = map (\<lambda>c. case c of Waiting j tmo n \<Rightarrow> Waiting j tmo (n \<or> j = i) | _ \<Rightarrow> c)"

definition new_message :: "u64 \<Rightarrow> u64 \<Rightarrow> bool \<Rightarrow> task \<Rightarrow> task" where
  "new_message ty p w t =
     t\<lparr>heap := (heap t)(next_id t \<mapsto>
         \<lparr>obj_msg = \<lparr>msg_id = next_id t, msg_type = ty, priority = p, size_in_bytes = sizeof_message t\<rparr>,
          reference_count = 1, is_processed = False, is_waitable = w, obj_error = None\<rparr>),
       next_id := Suc (next_id t)\<rparr>"

definition set_size_in_bytes :: "nat \<Rightarrow> u64 \<Rightarrow> task \<Rightarrow> task" where
  "set_size_in_bytes i s t =
     (case heap t i of
        None \<Rightarrow> t\<lparr>fault := True\<rparr>
      | Some ob \<Rightarrow> t\<lparr>heap := (heap t)(i \<mapsto> ob\<lparr>obj_msg := (obj_msg ob)\<lparr>size_in_bytes := s\<rparr>\<rparr>)\<rparr>)"

definition obj_duplicate :: "nat \<Rightarrow> task \<Rightarrow> task" where
  "obj_duplicate i t =
     (case heap t i of
        None \<Rightarrow> t\<lparr>fault := True\<rparr>
      | Some ob \<Rightarrow> t\<lparr>heap := (heap t)(i \<mapsto> ob\<lparr>reference_count := reference_count ob + 1\<rparr>)\<rparr>)"

text \<open>The destructor wakes the threads that wait for a message that has not been processed.\<close>

definition obj_release :: "nat \<Rightarrow> task \<Rightarrow> task" where
  "obj_release i t =
     (case heap t i of
        None \<Rightarrow> t\<lparr>fault := True\<rparr>
      | Some ob \<Rightarrow>
          if reference_count ob - 1 = 0 then
            t\<lparr>heap := (heap t)(i := None),
              calls := (if is_waitable ob \<and> \<not> is_processed ob then notify i (calls t) else calls t)\<rparr>
          else t\<lparr>heap := (heap t)(i \<mapsto> ob\<lparr>reference_count := reference_count ob - 1\<rparr>)\<rparr>)"

definition obj_set_error :: "nat \<Rightarrow> exn \<Rightarrow> task \<Rightarrow> task" where
  "obj_set_error i e t =
     (case heap t i of
        None \<Rightarrow> t\<lparr>fault := True\<rparr>
      | Some ob \<Rightarrow> t\<lparr>heap := (heap t)(i \<mapsto> ob\<lparr>obj_error := Some e\<rparr>)\<rparr>)"

definition obj_processed :: "nat \<Rightarrow> task \<Rightarrow> task" where
  "obj_processed i t =
     (case heap t i of
        None \<Rightarrow> t\<lparr>fault := True\<rparr>
      | Some ob \<Rightarrow> t\<lparr>heap := (heap t)(i \<mapsto> ob\<lparr>is_processed := True\<rparr>),
                     calls := (if is_waitable ob then notify i (calls t) else calls t)\<rparr>)"

section \<open>Configuration\<close>

definition kDEFAULT_TASK_TMO_MSECS :: rat where "kDEFAULT_TASK_TMO_MSECS = 5000"

definition actual_timeout :: "task \<Rightarrow> rat" where
  "actual_timeout t =
     (if enable_periodic_msg (queue (qs t)) \<and> periodic_msg_period_ms t \<noteq> 0 then periodic_msg_period_ms t
      else if enable_timeout_msg (queue (qs t)) \<and> timeout_msg_period_ms t \<noteq> 0 then rnd (of_int (uint (timeout_msg_period_ms t)))
      else kDEFAULT_TASK_TMO_MSECS)"

record config =
  cfg_enable_timeout_msg :: bool
  cfg_timeout_msg_period_ms :: u64
  cfg_enable_periodic_msg :: bool
  cfg_periodic_msg_period_ms :: rat
  cfg_enable_precise_periodic_timing :: bool
  cfg_lo_wm :: u64
  cfg_hi_wm :: u64
  cfg_throw_on_post_tmo :: bool

definition Task_ctor :: "u64 \<Rightarrow> config \<Rightarrow> task" where
  "Task_ctor sz cfg =
     \<lparr>qs = start ((MessageQ_ctor (cfg_lo_wm cfg) (cfg_hi_wm cfg) (cfg_throw_on_post_tmo cfg))
              \<lparr>enable_timeout_msg := cfg_enable_timeout_msg cfg, enable_periodic_msg := cfg_enable_periodic_msg cfg\<rparr>),
      heap = Map.empty, next_id = 0, fault = False, run_st = NotStarted, received_init_msg = False,
      timeout_msg_period_ms = cfg_timeout_msg_period_ms cfg, periodic_msg_period_ms = cfg_periodic_msg_period_ms cfg,
      precise_periodic_timing_enabled = cfg_enable_precise_periodic_timing cfg, run_tmo = 0,
      sizeof_message = sz, held = [], calls = [], outcomes = [], handled = []\<rparr>"

definition set_timeout_msg_period :: "u64 \<Rightarrow> task \<Rightarrow> exn + task" where
  "set_timeout_msg_period tmo t =
     (if tmo > drop_bit 1 (- 1) then Inl BAD_ARG else Inr (t\<lparr>timeout_msg_period_ms := tmo\<rparr>))"

definition set_periodic_msg_period :: "rat \<Rightarrow> task \<Rightarrow> exn + task" where
  "set_periodic_msg_period tmo t = (if tmo < 0 then Inl BAD_ARG else Inr (t\<lparr>periodic_msg_period_ms := tmo\<rparr>))"

section \<open>Posting and waiting\<close>

text \<open>The queue after a critical section, and the objects that the section released.\<close>

definition adopt :: "sys \<Rightarrow> task \<Rightarrow> task" where
  "adopt s t =
     (let old = released (queue (qs t)); new = released (queue s)
      in fold (\<lambda>m. obj_release (msg_id m)) (take (length new - length old) new) (t\<lparr>qs := s\<rparr>))"

definition add_outcome :: "nat \<Rightarrow> outcome \<Rightarrow> task \<Rightarrow> task" where
  "add_outcome i r t = t\<lparr>outcomes := outcomes t @ [(i, r)]\<rparr>"

text \<open>The end of \<open>wait_msg_handled\<close>: \<open>ok\<close> is the result of \<open>wait_processed\<close>.\<close>

definition finish_wait :: "nat \<Rightarrow> bool \<Rightarrow> task \<Rightarrow> task" where
  "finish_wait i ok t =
     (case heap t i of
        None \<Rightarrow> t\<lparr>fault := True\<rparr>
      | Some ob \<Rightarrow>
          add_outcome i (if ok then (case obj_error ob of None \<Rightarrow> Handled_ok | Some e \<Rightarrow> Threw e) else Threw TIMEOUT_EXPIRED)
            (obj_release i t))"

definition wait_processed :: "nat \<Rightarrow> nat \<Rightarrow> task \<Rightarrow> task" where
  "wait_processed i tmo t =
     (case heap t i of
        None \<Rightarrow> t\<lparr>fault := True\<rparr>
      | Some ob \<Rightarrow> if is_processed ob then finish_wait i True t else t\<lparr>calls := Waiting i tmo False # calls t\<rparr>)"

text \<open>What follows \<open>MessageQ::post\<close>, in a plain post and in \<open>wait_msg_handled\<close>.\<close>

definition after_posting :: "nat \<Rightarrow> nat option \<Rightarrow> post_result \<Rightarrow> task \<Rightarrow> task" where
  "after_posting i k r t =
     (case r of
        PostBlocked \<Rightarrow> t\<lparr>calls := Posting i k # calls t\<rparr>
      | PostThrew \<Rightarrow>
          (case k of None \<Rightarrow> add_outcome i (Threw TIMEOUT_EXPIRED) t
           | Some tmo \<Rightarrow> add_outcome i (Threw INTERNAL_ERROR) (obj_release i t))
      | PostReturned n \<Rightarrow>
          (case k of None \<Rightarrow> add_outcome i (Posted n) t
           | Some tmo \<Rightarrow> wait_processed i tmo t))"

definition post_msg :: "nat \<Rightarrow> nat option \<Rightarrow> task \<Rightarrow> task" where
  "post_msg i k t =
     (case heap t i of
        None \<Rightarrow> t\<lparr>fault := True\<rparr>
      | Some ob \<Rightarrow>
          let m = obj_msg ob; r = post_enter (Some m) (queue (qs t))
          in after_posting i k (fst r) (adopt (after_post m r ((qs t)\<lparr>offered := m # offered (qs t)\<rparr>)) t))"

definition wait_msg_handled :: "nat \<Rightarrow> nat \<Rightarrow> task \<Rightarrow> task" where
  "wait_msg_handled i tmo t =
     (case heap t i of
        None \<Rightarrow> t\<lparr>fault := True\<rparr>
      | Some ob \<Rightarrow>
          if \<not> is_waitable ob then add_outcome i (Threw INVALID_ARGUMENT) (obj_release i t)
          else post_msg i (Some tmo) (obj_duplicate i t))"

section \<open>The thread\<close>

text \<open>\<open>spawn\<close> does nothing for a thread that runs or has ended.\<close>

definition start_undetached :: "task \<Rightarrow> task" where
  "start_undetached t =
     (if run_st t = NotStarted
      then t\<lparr>run_st := Calling InitLoop, received_init_msg := False, run_tmo := actual_timeout t\<rparr> else t)"

definition next_call :: "bool \<Rightarrow> task \<Rightarrow> next_result \<times> message_q" where
  "next_call expired t =
     (if precise_periodic_timing_enabled t then next_ex_enter expired (queue (qs t)) else next_enter expired (queue (qs t)))"

definition next_wakes :: "bool \<Rightarrow> bool \<Rightarrow> task \<Rightarrow> next_result \<times> message_q" where
  "next_wakes signaled expired t =
     (if precise_periodic_timing_enabled t then next_ex_resume signaled (queue (qs t))
      else next_resume signaled expired (queue (qs t)))"

text \<open>
  \<open>wait_not_empty_i\<close> takes the time-out as a whole number of milliseconds, and for \<open>timed_wait\<close> zero is for ever. The
  precise variant waits with nanoseconds.
\<close>

definition may_time_out :: "task \<Rightarrow> bool" where
  "may_time_out t \<longleftrightarrow> precise_periodic_timing_enabled t \<or> trunc (run_tmo t) \<noteq> 0"

text \<open>\<open>run_undetached\<close> behind a call of \<open>next_message\<close>: what it does with the message, up to the handler.\<close>

definition begin_handling :: "message \<Rightarrow> task \<Rightarrow> task" where
  "begin_handling m t =
     (if heap t (msg_id m) = None then t\<lparr>fault := True\<rparr> else t\<lparr>run_st := Handling m\<rparr>)"

definition fresh_message :: "u64 \<Rightarrow> task \<Rightarrow> message" where
  "fresh_message ty t =
     \<lparr>msg_id = next_id t, msg_type = ty, priority = DEFAULT_MSG_PRIORITY, size_in_bytes = sizeof_message t\<rparr>"

definition init_loop :: "next_result \<Rightarrow> task \<Rightarrow> task" where
  "init_loop r t =
     (case r of
        NextBlocked \<Rightarrow> t\<lparr>run_st := Blocked InitLoop\<rparr>
      | NextNone \<Rightarrow> t\<lparr>run_st := Calling InitLoop\<rparr>
      | NextGenerated ty \<Rightarrow>
          (obj_release (next_id t) (new_message ty DEFAULT_MSG_PRIORITY False t))\<lparr>run_st := Calling InitLoop\<rparr>
      | NextMsg m \<Rightarrow>
          if msg_type m = TASK_INIT
          then begin_handling m (t\<lparr>received_init_msg := True, run_tmo := actual_timeout t\<rparr>)
          else (obj_release (msg_id m) t)\<lparr>run_st := Calling InitLoop\<rparr>)"

definition main_loop :: "next_result \<Rightarrow> task \<Rightarrow> task" where
  "main_loop r t =
     (case r of
        NextBlocked \<Rightarrow> t\<lparr>run_st := Blocked MainLoop\<rparr>
      | NextNone \<Rightarrow> t\<lparr>run_st := Calling MainLoop\<rparr>
      | NextGenerated ty \<Rightarrow> begin_handling (fresh_message ty t) (new_message ty DEFAULT_MSG_PRIORITY False t)
      | NextMsg m \<Rightarrow>
          if msg_type m = TASK_INIT \<and> received_init_msg t
          then (obj_release (msg_id m) t)\<lparr>run_st := Calling MainLoop\<rparr>
          else if msg_type m = TASK_WAKEUP
          then (obj_release (msg_id m) t)\<lparr>run_st := Calling MainLoop, run_tmo := actual_timeout t\<rparr>
          else begin_handling m t)"

fun run_loop :: "phase \<Rightarrow> next_result \<Rightarrow> task \<Rightarrow> task" where
  "run_loop InitLoop r t = init_loop r t"
| "run_loop MainLoop r t = main_loop r t"

definition handler_returns :: "message \<Rightarrow> exn option \<Rightarrow> task \<Rightarrow> task" where
  "handler_returns m err t =
     (case err of None \<Rightarrow> t | Some e \<Rightarrow> obj_set_error (msg_id m) e t)
       \<lparr>handled := handled t @ [(m, err)], run_st := Marking m\<rparr>"

definition mark_processed :: "message \<Rightarrow> task \<Rightarrow> task" where
  "mark_processed m t = (obj_processed (msg_id m) t)\<lparr>run_st := Releasing m\<rparr>"

definition release_handled :: "message \<Rightarrow> task \<Rightarrow> task" where
  "release_handled m t =
     (let t = obj_release (msg_id m) t
      in if msg_type m = TASK_EXIT
         then t\<lparr>qs := wake_up ((qs t)\<lparr>queue := close (queue (qs t))\<rparr>), run_st := Finished\<rparr>
         else t\<lparr>run_st := Calling MainLoop, run_tmo := actual_timeout t\<rparr>)"

section \<open>The calls of the clients\<close>

definition go :: "nat \<Rightarrow> task \<Rightarrow> task" where
  "go tmo t =
     (let t = start_undetached t
      in wait_msg_handled (next_id t) tmo (new_message TASK_INIT HIGHEST_MSG_PRIORITY True t))"

text \<open>The thread is started before the message is checked, and a message that is refused stays with the caller.\<close>

definition go_msg :: "nat \<Rightarrow> nat \<Rightarrow> task \<Rightarrow> task" where
  "go_msg i tmo t =
     (let t = start_undetached t
      in case heap t i of
           None \<Rightarrow> t\<lparr>fault := True\<rparr>
         | Some ob \<Rightarrow>
             if msg_type (obj_msg ob) \<noteq> TASK_INIT \<or> \<not> is_waitable ob then add_outcome i (Threw PROGRAMMING_ERROR) t
             else wait_msg_handled i tmo (t\<lparr>held := remove1 i (held t)\<rparr>))"

definition go_asynchronously :: "task \<Rightarrow> task" where
  "go_asynchronously t =
     (let t = start_undetached t
      in post_msg (next_id t) None (new_message TASK_INIT HIGHEST_MSG_PRIORITY True t))"

definition go_asynchronously_msg :: "nat \<Rightarrow> task \<Rightarrow> task" where
  "go_asynchronously_msg i t =
     (let t = start_undetached t
      in case heap t i of
           None \<Rightarrow> t\<lparr>fault := True\<rparr>
         | Some ob \<Rightarrow>
             if msg_type (obj_msg ob) \<noteq> TASK_INIT then add_outcome i (Threw PROGRAMMING_ERROR) t
             else post_msg i None (t\<lparr>held := remove1 i (held t)\<rparr>))"

text \<open>
  \<open>exit\<close>, up to its wait for the message. Behind it comes a \<open>join\<close>. A task that has not been started deletes
  itself and one that has ended is left alone, so nothing follows in the model.
\<close>

definition exit_task :: "task \<Rightarrow> task" where
  "exit_task t =
     (if run_st t = NotStarted \<or> run_st t = Finished then t
      else wait_msg_handled (next_id t) 0 (new_message TASK_EXIT HIGHEST_MSG_PRIORITY True t))"

definition post_type :: "u64 \<Rightarrow> task \<Rightarrow> task" where
  "post_type ty t = post_msg (next_id t) None (new_message ty DEFAULT_MSG_PRIORITY False t)"

definition wait_type :: "u64 \<Rightarrow> nat \<Rightarrow> task \<Rightarrow> task" where
  "wait_type ty tmo t = wait_msg_handled (next_id t) tmo (new_message ty DEFAULT_MSG_PRIORITY True t)"

definition set_enable_timeout_msg :: "bool \<Rightarrow> task \<Rightarrow> task" where
  "set_enable_timeout_msg b t = t\<lparr>qs := (qs t)\<lparr>queue := (queue (qs t))\<lparr>enable_timeout_msg := b\<rparr>\<rparr>\<rparr>"

definition set_enable_periodic_msg :: "bool \<Rightarrow> task \<Rightarrow> task" where
  "set_enable_periodic_msg b t =
     (let was_not_enabled = \<not> enable_periodic_msg (queue (qs t));
          t = t\<lparr>qs := (qs t)\<lparr>queue := (queue (qs t))\<lparr>enable_periodic_msg := b\<rparr>\<rparr>\<rparr>
      in if was_not_enabled \<and> b \<and> received_init_msg t then post_type TASK_WAKEUP t else t)"

definition enable_precise_periodic_timing :: "bool \<Rightarrow> task \<Rightarrow> task" where
  "enable_precise_periodic_timing b t =
     (let enable_state = precise_periodic_timing_enabled t; t = t\<lparr>precise_periodic_timing_enabled := b\<rparr>
      in if enable_state \<noteq> b \<and> received_init_msg t then post_type TASK_WAKEUP t else t)"

definition task_clear :: "task \<Rightarrow> task" where
  "task_clear t = adopt (wake_up ((qs t)\<lparr>queue := snd (clear (queue (qs t)))\<rparr>)) t"

definition task_clear_type :: "u64 \<Rightarrow> task \<Rightarrow> task" where
  "task_clear_type ty t = adopt (wake_up ((qs t)\<lparr>queue := snd (clear_pending_messages ty (queue (qs t)))\<rparr>)) t"

section \<open>Events\<close>

datatype wake = Signalled | Timed_out | Spurious

datatype task_event =
    CNew u64 u64 bool u64
  | CDuplicate nat
  | CRelease nat
  | CPost nat
  | CWait nat nat
  | CPostReturns nat "nat option" bool
  | CWaitReturns nat nat bool wake
  | CStart
  | CGo nat
  | CGoMsg nat nat
  | CGoAsync
  | CGoAsyncMsg nat
  | CExit
  | CEnableTimeout bool
  | CEnablePeriodic bool
  | CEnablePrecise bool
  | CClear
  | CClearType u64
  | RNext bool
  | RNextReturns bool bool
  | RHandler "exn option"
  | RProcessed
  | RRelease

fun split_producer :: "nat \<Rightarrow> (message \<times> bool) list \<Rightarrow> ((message \<times> bool) list \<times> message \<times> (message \<times> bool) list) option" where
  "split_producer i [] = None"
| "split_producer i ((m, n) # ps) =
     (if msg_id m = i then Some ([], m, ps)
      else case split_producer i ps of None \<Rightarrow> None | Some (xs, m', ys) \<Rightarrow> Some ((m, n) # xs, m', ys))"

definition post_returns :: "nat \<Rightarrow> nat option \<Rightarrow> bool \<Rightarrow> task \<Rightarrow> task option" where
  "post_returns i k sg t =
     (case split_producer i (producers (qs t)) of
        None \<Rightarrow> None
      | Some (ps, m, ps') \<Rightarrow>
          if Posting i k \<in> set (calls t) then
            let r = post_resume sg m (queue (qs t));
                s = after_post m r ((qs t)\<lparr>producers := ps @ ps'\<rparr>)
            in Some (after_posting i k (fst r) (adopt s (t\<lparr>calls := remove1 (Posting i k) (calls t)\<rparr>)))
          else None)"

definition wait_returns :: "nat \<Rightarrow> nat \<Rightarrow> bool \<Rightarrow> wake \<Rightarrow> task \<Rightarrow> task option" where
  "wait_returns i tmo n w t =
     (if Waiting i tmo n \<in> set (calls t) \<and> (w = Signalled \<longrightarrow> n) \<and> (w = Timed_out \<longrightarrow> tmo \<noteq> 0)
      then Some (finish_wait i (w \<noteq> Timed_out) (t\<lparr>calls := remove1 (Waiting i tmo n) (calls t)\<rparr>))
      else None)"

definition run_next :: "bool \<Rightarrow> task \<Rightarrow> task option" where
  "run_next expired t =
     (case run_st t of
        Calling ph \<Rightarrow>
          let r = next_call expired t
          in Some (run_loop ph (fst r) (t\<lparr>qs := after_next r (qs t)\<rparr>))
      | _ \<Rightarrow> None)"

definition run_next_returns :: "bool \<Rightarrow> bool \<Rightarrow> task \<Rightarrow> task option" where
  "run_next_returns signaled expired t =
     (case run_st t of
        Blocked ph \<Rightarrow>
          if signaled \<or> may_time_out t then
            let r = next_wakes signaled expired t
            in Some (run_loop ph (fst r) (t\<lparr>qs := after_next r ((qs t)\<lparr>consumers := []\<rparr>)\<rparr>))
          else None
      | _ \<Rightarrow> None)"

text \<open>A client touches only messages of which it owns a reference.\<close>

fun tstep :: "task_event \<Rightarrow> task \<Rightarrow> task option" where
  "tstep (CNew ty p w s) t =
     (let t' = set_size_in_bytes (next_id t) s (new_message ty p w t) in Some (t'\<lparr>held := next_id t # held t'\<rparr>))"
| "tstep (CDuplicate i) t =
     (if i \<in> set (held t) then Some ((obj_duplicate i t)\<lparr>held := i # held t\<rparr>) else None)"
| "tstep (CRelease i) t =
     (if i \<in> set (held t) then Some (obj_release i (t\<lparr>held := remove1 i (held t)\<rparr>)) else None)"
| "tstep (CPost i) t =
     (if i \<in> set (held t) then Some (post_msg i None (t\<lparr>held := remove1 i (held t)\<rparr>)) else None)"
| "tstep (CWait i tmo) t =
     (if i \<in> set (held t) then Some (wait_msg_handled i tmo (t\<lparr>held := remove1 i (held t)\<rparr>)) else None)"
| "tstep (CPostReturns i k sg) t = post_returns i k sg t"
| "tstep (CWaitReturns i tmo n w) t = wait_returns i tmo n w t"
| "tstep CStart t = Some (start_undetached t)"
| "tstep (CGo tmo) t = Some (go tmo t)"
| "tstep (CGoMsg i tmo) t = (if i \<in> set (held t) then Some (go_msg i tmo t) else None)"
| "tstep CGoAsync t = Some (go_asynchronously t)"
| "tstep (CGoAsyncMsg i) t = (if i \<in> set (held t) then Some (go_asynchronously_msg i t) else None)"
| "tstep CExit t = Some (exit_task t)"
| "tstep (CEnableTimeout b) t = Some (set_enable_timeout_msg b t)"
| "tstep (CEnablePeriodic b) t = Some (set_enable_periodic_msg b t)"
| "tstep (CEnablePrecise b) t = Some (enable_precise_periodic_timing b t)"
| "tstep CClear t = Some (task_clear t)"
| "tstep (CClearType ty) t = Some (task_clear_type ty t)"
| "tstep (RNext e) t = run_next e t"
| "tstep (RNextReturns sg e) t = run_next_returns sg e t"
| "tstep (RHandler err) t = (case run_st t of Handling m \<Rightarrow> Some (handler_returns m err t) | _ \<Rightarrow> None)"
| "tstep RProcessed t = (case run_st t of Marking m \<Rightarrow> Some (mark_processed m t) | _ \<Rightarrow> None)"
| "tstep RRelease t = (case run_st t of Releasing m \<Rightarrow> Some (release_handled m t) | _ \<Rightarrow> None)"

fun trun :: "task_event list \<Rightarrow> task \<Rightarrow> task option" where
  "trun [] t = Some t"
| "trun (e # es) t = (case tstep e t of None \<Rightarrow> None | Some t \<Rightarrow> trun es t)"

inductive task_step :: "task \<Rightarrow> task \<Rightarrow> bool" where
  task_stepI: "tstep e t = Some t' \<Longrightarrow> task_step t t'"

inductive_simps task_step_iff: "task_step t t'"

inductive reachable :: "task \<Rightarrow> task \<Rightarrow> bool" for t\<^sub>0 where
  reachable_init: "reachable t\<^sub>0 t\<^sub>0"
| reachable_step: "reachable t\<^sub>0 t \<Longrightarrow> task_step t t' \<Longrightarrow> reachable t\<^sub>0 t'"

section \<open>References\<close>

text \<open>
  Who refers to a message: the queue, the threads that wait in \<open>post\<close>, the thread of the task, the code of the clients, and
  the calls of \<open>wait_msg_handled\<close>.
\<close>

fun call_ids :: "call \<Rightarrow> nat list" where
  "call_ids (Posting i None) = []"
| "call_ids (Posting i (Some tmo)) = [i]"
| "call_ids (Waiting i tmo n) = [i]"

definition call_refs :: "call list \<Rightarrow> nat multiset" where
  "call_refs cs = mset (concat (map call_ids cs))"

fun run_msgs :: "run_state \<Rightarrow> message list" where
  "run_msgs (Handling m) = [m]"
| "run_msgs (Marking m) = [m]"
| "run_msgs (Releasing m) = [m]"
| "run_msgs _ = []"

definition pending :: "sys \<Rightarrow> message list" where
  "pending s = msg_q (queue s) @ map fst (producers s)"

definition msgs :: "task \<Rightarrow> message list" where
  "msgs t = pending (qs t) @ run_msgs (run_st t)"

definition refs :: "task \<Rightarrow> nat multiset" where
  "refs t = image_mset msg_id (mset (msgs t)) + mset (held t) + call_refs (calls t)"

definition known :: "(nat \<Rightarrow> msg_obj option) \<Rightarrow> message \<Rightarrow> bool" where
  "known h m \<longleftrightarrow> (\<exists>ob. h (msg_id m) = Some ob \<and> obj_msg ob = m)"

definition obj_ok :: "nat \<Rightarrow> nat \<Rightarrow> msg_obj option \<Rightarrow> bool" where
  "obj_ok i n x \<longleftrightarrow>
     (case x of None \<Rightarrow> n = 0 | Some ob \<Rightarrow> reference_count ob = int n \<and> 0 < n \<and> msg_id (obj_msg ob) = i)"

text \<open>The counts are right, when the multiset \<open>X\<close> of references is in the hands of the running operation.\<close>

definition refs_ok :: "nat multiset \<Rightarrow> task \<Rightarrow> bool" where
  "refs_ok X t \<longleftrightarrow> \<not> fault t \<and> (\<forall>i. obj_ok i (count (refs t + X) i) (heap t i))
     \<and> (\<forall>m \<in> set (msgs t). known (heap t) m) \<and> (\<forall>i \<ge> next_id t. heap t i = None)"

lemma call_refs_simps [simp]:
  "call_refs [] = {#}" "call_refs (c # cs) = mset (call_ids c) + call_refs cs"
  "call_refs (notify i cs) = call_refs cs"
proof -
  have "call_ids (case c of Waiting j tmo n \<Rightarrow> Waiting j tmo (n \<or> j = i) | _ \<Rightarrow> c) = call_ids c" for c
    by (cases c) auto
  then show "call_refs (notify i cs) = call_refs cs" by (simp add: call_refs_def notify_def comp_def)
qed (simp_all add: call_refs_def)

lemma call_refs_remove: "c \<in> set cs \<Longrightarrow> call_refs cs = mset (call_ids c) + call_refs (remove1 c cs)"
  by (induction cs) auto

lemma refs_ok_obj:
  assumes "refs_ok X t" "i \<in># refs t + X"
  obtains ob where "heap t i = Some ob" "reference_count ob = int (count (refs t + X) i)" "0 < count (refs t + X) i"
    "msg_id (obj_msg ob) = i"
proof -
  have o: "obj_ok i (count (refs t + X) i) (heap t i)" using assms(1) by (simp add: refs_ok_def)
  have p: "0 < count (refs t + X) i" using assms(2) unfolding count_greater_zero_iff .
  show ?thesis
  proof (cases "heap t i")
    case None
    with o p show ?thesis by (simp add: obj_ok_def)
  next
    case (Some ob)
    show ?thesis by (rule that [OF Some]) (use o p Some in \<open>simp_all add: obj_ok_def\<close>)
  qed
qed

text \<open>One object changes, with the number of references.\<close>

lemma refs_ok_update:
  assumes "refs_ok X t" "refs t' + Y = refs t + X + (if b then {#i#} else {#})"
    and "heap t i = Some ob" "heap t' = (heap t)(i \<mapsto> ob')" "msgs t' = msgs t" "next_id t' = next_id t" "fault t' = fault t"
    and "obj_msg ob' = obj_msg ob" "reference_count ob' = reference_count ob + (if b then 1 else 0)"
  shows "refs_ok Y t'"
proof -
  note o = assms(1) [unfolded refs_ok_def]
  have lt: "i < next_id t" using o assms(3) by (metis not_le option.distinct(1))
  have "obj_ok j (count (refs t' + Y) j) (heap t' j)" for j
  proof (cases "j = i")
    case True
    then show ?thesis using o assms(2-4,8,9) by (auto simp: obj_ok_def dest: spec [of _ i])
  next
    case False
    then have "count (refs t' + Y) j = count (refs t + X) j" using assms(2) by simp
    then show ?thesis using o assms(4) False by simp
  qed
  moreover have "known (heap t') m" if "m \<in> set (msgs t')" for m
    using o that assms(3-5,8) by (auto simp: known_def)
  ultimately show ?thesis using o lt assms(4,6,7) by (auto simp: refs_ok_def)
qed

lemma refs_fields [simp]:
  "refs (t\<lparr>heap := h\<rparr>) = refs t" "refs (t\<lparr>heap := h, calls := notify i (calls t)\<rparr>) = refs t"
  "msgs (t\<lparr>heap := h\<rparr>) = msgs t" "msgs (t\<lparr>calls := c\<rparr>) = msgs t" "msgs (t\<lparr>heap := h, calls := c\<rparr>) = msgs t"
  "msgs (t\<lparr>held := hd'\<rparr>) = msgs t"
  by (simp_all add: refs_def msgs_def)

lemma obj_duplicate_ok:
  assumes "refs_ok X t" "i \<in># refs t + X"
  shows "refs_ok (add_mset i X) (obj_duplicate i t)"
proof -
  from refs_ok_obj [OF assms] obtain ob where ob: "heap t i = Some ob" by blast
  show ?thesis
    by (rule refs_ok_update [OF assms(1), where b = True and i = i and ob = ob
        and ob' = "ob\<lparr>reference_count := reference_count ob + 1\<rparr>"]) (use ob in \<open>simp_all add: obj_duplicate_def\<close>)
qed

lemma obj_set_error_ok:
  assumes "refs_ok X t" "i \<in># refs t + X"
  shows "refs_ok X (obj_set_error i e t)"
proof -
  from refs_ok_obj [OF assms] obtain ob where ob: "heap t i = Some ob" by blast
  show ?thesis
    by (rule refs_ok_update [OF assms(1), where b = False and i = i and ob = ob
        and ob' = "ob\<lparr>obj_error := Some e\<rparr>"]) (use ob in \<open>simp_all add: obj_set_error_def\<close>)
qed

lemma obj_processed_ok:
  assumes "refs_ok X t" "i \<in># refs t + X"
  shows "refs_ok X (obj_processed i t)"
proof -
  from refs_ok_obj [OF assms] obtain ob where ob: "heap t i = Some ob" by blast
  show ?thesis
    by (rule refs_ok_update [OF assms(1), where b = False and i = i and ob = ob
        and ob' = "ob\<lparr>is_processed := True\<rparr>"]) (use ob in \<open>simp_all add: obj_processed_def\<close>)
qed

lemma obj_release_ok:
  assumes "refs_ok (add_mset i X) t"
  shows "refs_ok X (obj_release i t)"
proof -
  note o = assms [unfolded refs_ok_def]
  from refs_ok_obj [OF assms, of i] obtain ob where ob: "heap t i = Some ob"
    "reference_count ob = int (count (refs t + X) i) + 1" "msg_id (obj_msg ob) = i" by (auto simp: add.commute)
  have lt: "i < next_id t" using o ob(1) by (metis not_le option.distinct(1))
  have oj: "obj_ok j (count (refs t + X) j) (heap t j)" if "j \<noteq> i" for j
  proof -
    have "obj_ok j (count (refs t + add_mset i X) j) (heap t j)" using o by blast
    then show ?thesis using that by simp
  qed
  show ?thesis
  proof (cases "count (refs t + X) i = 0")
    case True
    then have t': "obj_release i t = t\<lparr>heap := (heap t)(i := None),
        calls := (if is_waitable ob \<and> \<not> is_processed ob then notify i (calls t) else calls t)\<rparr>"
      using ob by (simp add: obj_release_def)
    have r: "refs (obj_release i t) = refs t" by (simp add: t' refs_def msgs_def)
    have "obj_ok j (count (refs t + X) j) (heap (obj_release i t) j)" for j
      using oj [of j] True by (cases "j = i") (simp_all add: t' obj_ok_def)
    moreover have "known (heap (obj_release i t)) m" if "m \<in> set (msgs (obj_release i t))" for m
    proof -
      have m: "m \<in> set (msgs t)" using that by (simp add: t' msgs_def)
      then have "msg_id m \<in># refs t" by (simp add: refs_def)
      then have "msg_id m \<noteq> i" using True by (metis add_is_0 count_union not_in_iff)
      then show ?thesis using o m by (auto simp: t' known_def)
    qed
    moreover have "\<not> fault (obj_release i t)" "\<forall>j \<ge> next_id (obj_release i t). heap (obj_release i t) j = None"
      using o by (simp_all add: t')
    ultimately show ?thesis unfolding refs_ok_def r by blast
  next
    case False
    have "reference_count ob - 1 \<noteq> 0"
      unfolding ob(2) using False by (simp only: add_diff_cancel_right' of_nat_eq_0_iff not_False_eq_True)
    then have t': "obj_release i t = t\<lparr>heap := (heap t)(i \<mapsto> ob\<lparr>reference_count := reference_count ob - 1\<rparr>)\<rparr>"
      using ob(1) by (simp add: obj_release_def)
    have "obj_ok j (count (refs t + X) j) (heap (obj_release i t) j)" for j
      using oj [of j] ob False by (cases "j = i") (simp_all add: t' obj_ok_def)
    moreover have "known (heap (obj_release i t)) m" if "m \<in> set (msgs (obj_release i t))" for m
      using o that ob(1) by (auto simp: t' known_def)
    ultimately show ?thesis using o lt by (auto simp: refs_ok_def t')
  qed
qed

lemma new_message_ok:
  assumes "refs_ok X t" "msg_id m = next_id t"
    and "t' = t\<lparr>heap := (heap t)(next_id t \<mapsto> \<lparr>obj_msg = m, reference_count = 1, is_processed = p, is_waitable = w,
      obj_error = e\<rparr>), next_id := Suc (next_id t)\<rparr>"
  shows "refs_ok (add_mset (next_id t) X) t'"
proof -
  note o = assms(1) [unfolded refs_ok_def]
  have "heap t (next_id t) = None" using o by simp
  moreover have "obj_ok (next_id t) (count (refs t + X) (next_id t)) (heap t (next_id t))" using o by blast
  ultimately have z: "count (refs t + X) (next_id t) = 0" by (simp add: obj_ok_def)
  have r: "refs t' = refs t" "msgs t' = msgs t" by (simp_all add: assms(3) refs_def msgs_def)
  have "obj_ok j (count (refs t + add_mset (next_id t) X) j) (heap t' j)" for j
    using o z assms(2) by (cases "j = next_id t") (auto simp: assms(3) obj_ok_def)
  moreover have "known (heap t') m'" if "m' \<in> set (msgs t)" for m'
  proof -
    have "msg_id m' \<in># refs t" using that by (simp add: refs_def)
    then have "msg_id m' \<noteq> next_id t" using z by (metis add_is_0 count_union not_in_iff)
    then show ?thesis using o that by (auto simp: assms(3) known_def)
  qed
  ultimately show ?thesis using o by (auto simp: refs_ok_def r) (auto simp: assms(3))
qed

lemma new_message_refs_ok:
  "refs_ok X t \<Longrightarrow> refs_ok (add_mset (next_id t) X) (new_message ty p w t)"
  by (rule new_message_ok [of X t]) (simp_all add: new_message_def)

lemma fold_release_ok:
  "refs_ok (image_mset msg_id (mset ms) + X) t \<Longrightarrow> refs_ok X (fold (\<lambda>m. obj_release (msg_id m)) ms t)"
proof (induction ms arbitrary: t)
  case (Cons m ms)
  have "refs_ok (image_mset msg_id (mset ms) + X) (obj_release (msg_id m) t)"
    using Cons.prems by (intro obj_release_ok) simp
  then show ?case using Cons.IH by simp
qed simp
section \<open>Operations of the queue\<close>

lemma released_grows: "step s e s' \<Longrightarrow> \<exists>new. released (queue s') = new @ released (queue s)"
proof (induction rule: step.induct)
  case (step_post s m)
  then show ?case
    by (cases rule: post_enter_cases [of "Some m" "queue s"]) (auto simp: after_post_def Let_def mq_fields)
next
  case (step_post_returns s ps m n ps' sg)
  then show ?case
    by (cases rule: post_resume_cases [of sg m "queue s"]) (auto simp: after_post_def Let_def mq_fields)
next
  case (step_next_ex s e)
  show ?case using next_ex_effect(1) [where e = e and q = "queue s"] by (simp add: after_next_def Let_def)
next
  case (step_next_ex_returns s cs n cs' sg)
  show ?case using next_ex_effect(2) [where s = sg and q = "queue s"] by (simp add: after_next_def Let_def)
qed (auto simp: after_next_def Let_def next_enter_effect next_resume_effect clear_def mq_fields)

lemma released_split:
  assumes "step s e s'"
  shows "released (queue s') = take (length (released (queue s')) - length (released (queue s))) (released (queue s')) @ released (queue s)"
  using released_grows [OF assms] by auto

lemma kept_pending: "kept_inv s \<longleftrightarrow> mset (offered s) = mset (pending s) + mset (released (queue s)) + mset (delivered s)"
  by (auto simp: kept_inv_def accounted_def pending_def ac_simps)

text \<open>
  A step of the queue in which the messages \<open>ms\<close> come in and \<open>out\<close> are delivered: what the queue released is released
  once, and what it still holds is referred to as often as it occurs.
\<close>

lemma adopt_ok:
  assumes "refs_ok (image_mset msg_id (mset ms) + X) t" "kept_inv (qs t)" "step (qs t) e s"
    and "mset (offered s) = mset (offered (qs t)) + mset ms" "delivered s = delivered (qs t) @ out"
    and "\<forall>m \<in> set ms. known (heap t) m"
  shows "refs_ok (image_mset msg_id (mset out) + X) (adopt s t) \<and> kept_inv s"
proof -
  define new where "new = take (length (released (queue s)) - length (released (queue (qs t)))) (released (queue s))"
  have k: "kept_inv s" by (rule step_kept [OF assms(3,2)])
  have rel: "released (queue s) = new @ released (queue (qs t))" unfolding new_def by (rule released_split [OF assms(3)])
  have p: "mset (pending s) + mset new + mset out = mset (pending (qs t)) + mset ms"
    using k assms(2,4,5) by (simp add: kept_pending rel ac_simps)
  have "image_mset msg_id (mset (pending s)) + image_mset msg_id (mset new) + image_mset msg_id (mset out)
      = image_mset msg_id (mset (pending (qs t))) + image_mset msg_id (mset ms)"
    using arg_cong [OF p, of "image_mset msg_id"] by simp
  then have c: "refs (t\<lparr>qs := s\<rparr>) + (image_mset msg_id (mset new) + (image_mset msg_id (mset out) + X))
      = refs t + (image_mset msg_id (mset ms) + X)"
    by (simp add: refs_def msgs_def ac_simps)
  have sub: "set (pending s) \<subseteq> set (pending (qs t)) \<union> set ms"
    using arg_cong [OF p, of set_mset] by auto
  have "refs_ok (image_mset msg_id (mset new) + (image_mset msg_id (mset out) + X)) (t\<lparr>qs := s\<rparr>)"
    using assms(1,6) sub unfolding refs_ok_def c by (auto simp: msgs_def)
  then have "refs_ok (image_mset msg_id (mset out) + X) (adopt s t)"
    unfolding adopt_def Let_def new_def [symmetric] by (rule fold_release_ok)
  with k show ?thesis by blast
qed

lemma obj_release_fields [simp]:
  "qs (obj_release i t) = qs t" "run_st (obj_release i t) = run_st t" "held (obj_release i t) = held t"
  "handled (obj_release i t) = handled t" "received_init_msg (obj_release i t) = received_init_msg t"
  "outcomes (obj_release i t) = outcomes t" "next_id (obj_release i t) = next_id t"
  "precise_periodic_timing_enabled (obj_release i t) = precise_periodic_timing_enabled t"
  by (simp_all add: obj_release_def split: option.splits)

lemma fold_release_fields [simp]:
  "qs (fold (\<lambda>m. obj_release (msg_id m)) ms t) = qs t" "run_st (fold (\<lambda>m. obj_release (msg_id m)) ms t) = run_st t"
  "held (fold (\<lambda>m. obj_release (msg_id m)) ms t) = held t" "handled (fold (\<lambda>m. obj_release (msg_id m)) ms t) = handled t"
  "received_init_msg (fold (\<lambda>m. obj_release (msg_id m)) ms t) = received_init_msg t"
  "outcomes (fold (\<lambda>m. obj_release (msg_id m)) ms t) = outcomes t"
  "next_id (fold (\<lambda>m. obj_release (msg_id m)) ms t) = next_id t"
  by (induction ms arbitrary: t) simp_all

lemma adopt_fields [simp]:
  "qs (adopt s t) = s" "run_st (adopt s t) = run_st t" "held (adopt s t) = held t"
  "handled (adopt s t) = handled t" "received_init_msg (adopt s t) = received_init_msg t" "outcomes (adopt s t) = outcomes t"
  "next_id (adopt s t) = next_id t"
  by (simp_all add: adopt_def Let_def)

lemma add_outcome_fields [simp]:
  "refs_ok X (add_outcome i r t) = refs_ok X t" "qs (add_outcome i r t) = qs t" "run_st (add_outcome i r t) = run_st t"
  by (simp_all add: add_outcome_def refs_ok_def refs_def msgs_def)

lemma calls_refs_ok:
  assumes "refs_ok (X + mset (call_ids c)) t" shows "refs_ok X (t\<lparr>calls := c # calls t\<rparr>)"
proof -
  have c: "refs (t\<lparr>calls := c # calls t\<rparr>) + X = refs t + (X + mset (call_ids c))"
    by (simp add: refs_def msgs_def ac_simps)
  show ?thesis using assms unfolding refs_ok_def c by simp
qed

lemma finish_wait_ok: "refs_ok (add_mset i X) t \<Longrightarrow> refs_ok X (finish_wait i ok t)"
  using obj_release_ok [of i X t] by (auto simp: finish_wait_def split: option.splits elim!: refs_ok_obj [of "add_mset i X" t i])

lemma wait_processed_ok: "refs_ok (add_mset i X) t \<Longrightarrow> refs_ok X (wait_processed i tmo t)"
  using finish_wait_ok [of i X t True] calls_refs_ok [of X "Waiting i tmo False" t]
  by (auto simp: wait_processed_def split: option.splits elim!: refs_ok_obj [of "add_mset i X" t i])

text \<open>The references that an operation with the continuation \<open>k\<close> holds besides the one that it posts.\<close>

definition kept_ref :: "nat \<Rightarrow> nat option \<Rightarrow> nat multiset" where
  "kept_ref i k = (if k = None then {#} else {#i#})"

lemma after_posting_ok: "refs_ok (kept_ref i k + X) t \<Longrightarrow> refs_ok X (after_posting i k r t)"
  using wait_processed_ok [of i X t] obj_release_ok [of i X t] calls_refs_ok [of X "Posting i k" t]
  by (cases k) (auto simp: after_posting_def kept_ref_def split: post_result.splits)

lemma post_msg_ok:
  assumes "refs_ok (add_mset i (kept_ref i k + X)) t" "kept_inv (qs t)"
  shows "refs_ok X (post_msg i k t) \<and> kept_inv (qs (post_msg i k t))"
proof -
  from refs_ok_obj [OF assms(1), of i] obtain ob where ob: "heap t i = Some ob" "msg_id (obj_msg ob) = i" by auto
  define m where "m = obj_msg ob"
  define r where "r = post_enter (Some m) (queue (qs t))"
  define s where "s = after_post m r ((qs t)\<lparr>offered := m # offered (qs t)\<rparr>)"
  have st: "step (qs t) (Post m) s" unfolding s_def r_def by (rule step_post)
  have k: "known (heap t) m" using ob by (simp add: known_def m_def)
  have o: "offered s = m # offered (qs t)" "delivered s = delivered (qs t)"
    by (simp_all add: s_def after_post_def Let_def)
  have a: "refs_ok (kept_ref i k + X) (adopt s t) \<and> kept_inv s"
    using adopt_ok [of "[m]" "kept_ref i k + X" t "Post m" s "[]"] assms st o k ob by (simp add: m_def)
  have p: "post_msg i k t = after_posting i k (fst r) (adopt s t)"
    by (simp add: post_msg_def ob(1) Let_def m_def r_def s_def)
  have "qs (post_msg i k t) = s"
    unfolding p by (auto simp: after_posting_def wait_processed_def finish_wait_def split: post_result.splits option.splits)
  then show ?thesis using after_posting_ok [of i k X "adopt s t" "fst r"] a p by simp
qed

lemma obj_duplicate_fields [simp]:
  "qs (obj_duplicate i t) = qs t" "run_st (obj_duplicate i t) = run_st t" "held (obj_duplicate i t) = held t"
  "handled (obj_duplicate i t) = handled t" "received_init_msg (obj_duplicate i t) = received_init_msg t"
  "outcomes (obj_duplicate i t) = outcomes t" "next_id (obj_duplicate i t) = next_id t" "calls (obj_duplicate i t) = calls t"
  by (simp_all add: obj_duplicate_def split: option.splits)

lemma wait_msg_handled_ok:
  assumes "refs_ok (add_mset i X) t" "kept_inv (qs t)"
  shows "refs_ok X (wait_msg_handled i tmo t) \<and> kept_inv (qs (wait_msg_handled i tmo t))"
proof -
  from refs_ok_obj [OF assms(1), of i] obtain ob where ob: "heap t i = Some ob" by auto
  have "refs_ok (add_mset i (add_mset i X)) (obj_duplicate i t)" using assms(1) by (intro obj_duplicate_ok) auto
  then show ?thesis
    using post_msg_ok [of i "Some tmo" X "obj_duplicate i t"] obj_release_ok [OF assms(1)] assms(2) ob
    by (simp add: wait_msg_handled_def kept_ref_def)
qed
section \<open>What the clients can do to the thread\<close>

text \<open>A call of a client is at most one critical section of the queue, behind a change of its flags.\<close>

definition set_flags :: "bool \<Rightarrow> bool \<Rightarrow> sys \<Rightarrow> sys" where
  "set_flags b c s = s\<lparr>queue := (queue s)\<lparr>enable_timeout_msg := b, enable_periodic_msg := c\<rparr>\<rparr>"

definition client_step :: "sys \<Rightarrow> sys \<Rightarrow> bool" where
  "client_step s s' \<longleftrightarrow> (\<exists>b c. let s0 = set_flags b c s
     in s' = s0 \<or> (\<exists>e. step s0 e s' \<and> delivered s' = delivered s0 \<and> length (consumers s') = length (consumers s0)
          \<and> state (queue s') = state (queue s0)))"

definition frame :: "task \<Rightarrow> task \<Rightarrow> bool" where
  "frame t t' \<longleftrightarrow> run_st t' = run_st t \<and> handled t' = handled t \<and> received_init_msg t' = received_init_msg t
     \<and> client_step (qs t) (qs t')"

lemma set_flags_simps [simp]:
  "kept_inv (set_flags b c s) = kept_inv s" "fifo_inv (set_flags b c s) = fifo_inv s" "sys_inv (set_flags b c s) = sys_inv s"
  "delivered (set_flags b c s) = delivered s" "consumers (set_flags b c s) = consumers s" "pending (set_flags b c s) = pending s"
  "offered (set_flags b c s) = offered s" "released (queue (set_flags b c s)) = released (queue s)"
  "state (queue (set_flags b c s)) = state (queue s)" "msg_q (queue (set_flags b c s)) = msg_q (queue s)"
  by (simp_all add: set_flags_def kept_inv_def accounted_def fifo_inv_def sys_inv_def mq_inv_def pending_def)

lemma set_flags_same: "set_flags (enable_timeout_msg (queue s)) (enable_periodic_msg (queue s)) s = s"
  by (simp add: set_flags_def)

lemma client_step_refl [simp]: "client_step s s"
  unfolding client_step_def by (metis set_flags_same)

lemma client_step_step:
  "step s e s' \<Longrightarrow> delivered s' = delivered s \<Longrightarrow> length (consumers s') = length (consumers s)
     \<Longrightarrow> state (queue s') = state (queue s) \<Longrightarrow> client_step s s'"
  unfolding client_step_def by (metis set_flags_same)

lemma client_step_flags: "client_step (set_flags b c s) s' \<Longrightarrow> client_step s s'"
proof -
  have "set_flags b' c' (set_flags b c s) = set_flags b' c' s" for b' c' by (simp add: set_flags_def)
  then show "client_step (set_flags b c s) s' \<Longrightarrow> client_step s s'" by (simp add: client_step_def)
qed

lemma client_step_fields:
  assumes "client_step s s'"
  shows "delivered s' = delivered s" "length (consumers s') = length (consumers s)" "state (queue s') = state (queue s)"
  using assms unfolding client_step_def Let_def by auto

lemma client_step_inv:
  assumes "client_step s s'"
  shows "kept_inv s \<Longrightarrow> kept_inv s'" "sys_inv s \<Longrightarrow> sys_inv s'" "sys_inv s \<Longrightarrow> fifo_inv s \<Longrightarrow> fifo_inv s'"
  using assms step_kept step_sys_inv step_fifo unfolding client_step_def Let_def
  by (metis set_flags_simps(1), metis set_flags_simps(3), metis set_flags_simps(2,3) sys_inv_def)

lemma frame_refl [simp]: "frame t t"
  by (simp add: frame_def)

lemma finish_fields [simp]:
  "qs (finish_wait i ok t) = qs t" "run_st (finish_wait i ok t) = run_st t" "handled (finish_wait i ok t) = handled t"
  "received_init_msg (finish_wait i ok t) = received_init_msg t"
  by (simp_all add: finish_wait_def add_outcome_def split: option.splits)

lemma after_posting_fields [simp]:
  "qs (after_posting i k r t) = qs t" "run_st (after_posting i k r t) = run_st t"
  "handled (after_posting i k r t) = handled t" "received_init_msg (after_posting i k r t) = received_init_msg t"
  by (simp_all add: after_posting_def wait_processed_def add_outcome_def split: option.splits post_result.splits)

lemma post_enter_state: "state (snd (post_enter mo q)) = state q"
  by (cases rule: post_enter_cases [of mo q]) (simp_all add: mq_fields)

lemma post_resume_state: "state (snd (post_resume s m q)) = state q"
  by (cases rule: post_resume_cases [of s m q]) (simp_all add: mq_fields)

lemma after_post_fields [simp]:
  "delivered (after_post m r s) = delivered s" "length (consumers (after_post m r s)) = length (consumers s)"
  "state (queue (after_post m r s)) = state (snd r)" "offered (after_post m r s) = offered s"
  by (simp_all add: after_post_def Let_def wake_up_def)

lemma post_msg_frame: "frame t (post_msg i k t)"
proof (cases "heap t i")
  case (Some ob)
  define m where "m = obj_msg ob"
  define r where "r = post_enter (Some m) (queue (qs t))"
  define s where "s = after_post m r ((qs t)\<lparr>offered := m # offered (qs t)\<rparr>)"
  have "step (qs t) (Post m) s" unfolding s_def r_def by (rule step_post)
  then have "client_step (qs t) s" by (rule client_step_step) (simp_all add: s_def r_def post_enter_state)
  then show ?thesis by (simp add: frame_def post_msg_def Some Let_def m_def r_def s_def)
qed (simp add: post_msg_def frame_def)

lemma wait_msg_handled_frame: "frame t (wait_msg_handled i tmo t)"
  using post_msg_frame [of "obj_duplicate i t" i "Some tmo"]
  by (auto simp: wait_msg_handled_def frame_def add_outcome_def split: option.splits)

lemma new_message_fields [simp]:
  "qs (new_message ty p w t) = qs t" "run_st (new_message ty p w t) = run_st t" "handled (new_message ty p w t) = handled t"
  "received_init_msg (new_message ty p w t) = received_init_msg t" "held (new_message ty p w t) = held t"
  "calls (new_message ty p w t) = calls t" "outcomes (new_message ty p w t) = outcomes t" "fault (new_message ty p w t) = fault t"
  by (simp_all add: new_message_def)

text \<open>A message is made and posted, or made and waited for.\<close>

lemma new_post_ok:
  assumes "refs_ok {#} t" "kept_inv (qs t)" "t' = new_message ty p w t"
  shows "refs_ok {#} (post_msg (next_id t) None t') \<and> kept_inv (qs (post_msg (next_id t) None t')) \<and> frame t (post_msg (next_id t) None t')"
    and "refs_ok {#} (wait_msg_handled (next_id t) tmo t') \<and> kept_inv (qs (wait_msg_handled (next_id t) tmo t'))
      \<and> frame t (wait_msg_handled (next_id t) tmo t')"
  using post_msg_ok [of "next_id t" None "{#}" t'] wait_msg_handled_ok [of "next_id t" "{#}" t' tmo]
    new_message_refs_ok [OF assms(1), of ty p w] post_msg_frame [of t' "next_id t" None]
    wait_msg_handled_frame [of t' "next_id t" tmo] assms(2,3)
  by (simp_all add: kept_ref_def frame_def)

lemma held_refs_ok:
  assumes "refs_ok X t" "i \<in> set (held t)" shows "refs_ok (add_mset i X) (t\<lparr>held := remove1 i (held t)\<rparr>)"
proof -
  have c: "refs (t\<lparr>held := remove1 i (held t)\<rparr>) + add_mset i X = refs t + X"
    using assms(2) by (simp add: refs_def msgs_def)
  show ?thesis using assms(1) unfolding refs_ok_def c by simp
qed

lemma hold_refs_ok: "refs_ok (add_mset i X) t \<Longrightarrow> refs_ok X (t\<lparr>held := i # held t\<rparr>)"
  by (simp add: refs_ok_def refs_def msgs_def)

lemma call_refs_ok:
  assumes "refs_ok X t" "c \<in> set (calls t)"
  shows "refs_ok (mset (call_ids c) + X) (t\<lparr>calls := remove1 c (calls t)\<rparr>)"
proof -
  have c: "refs (t\<lparr>calls := remove1 c (calls t)\<rparr>) + (mset (call_ids c) + X) = refs t + X"
    using call_refs_remove [OF assms(2)] by (simp add: refs_def msgs_def)
  show ?thesis using assms(1) unfolding refs_ok_def c by simp
qed
section \<open>Events of the clients\<close>

fun client_event :: "task_event \<Rightarrow> bool" where
  "client_event (RNext e) = False"
| "client_event (RNextReturns sg e) = False"
| "client_event (RHandler err) = False"
| "client_event RProcessed = False"
| "client_event RRelease = False"
| "client_event _ = True"

definition mem_inv :: "task \<Rightarrow> bool" where
  "mem_inv t \<longleftrightarrow> refs_ok {#} t \<and> kept_inv (qs t)
     \<and> length (consumers (qs t)) = (case run_st t of Blocked ph \<Rightarrow> 1 | _ \<Rightarrow> 0)"

lemma start_undetached_ok:
  "refs_ok X (start_undetached t) = refs_ok X t" "qs (start_undetached t) = qs t" "heap (start_undetached t) = heap t"
  "held (start_undetached t) = held t" "next_id (start_undetached t) = next_id t"
  by (auto simp: start_undetached_def refs_ok_def refs_def msgs_def)

lemma set_size_ok:
  assumes "refs_ok {#i#} t" "i \<notin># refs t"
  shows "refs_ok {#i#} (set_size_in_bytes i s t)"
proof -
  from refs_ok_obj [OF assms(1), of i] obtain ob where ob: "heap t i = Some ob" by auto
  note o = assms(1) [unfolded refs_ok_def]
  let ?t = "set_size_in_bytes i s t"
  have t': "?t = t\<lparr>heap := (heap t)(i \<mapsto> ob\<lparr>obj_msg := (obj_msg ob)\<lparr>size_in_bytes := s\<rparr>\<rparr>)\<rparr>"
    by (simp add: set_size_in_bytes_def ob)
  have "obj_ok j (count (refs t + {#i#}) j) (heap ?t j)" for j
  proof -
    have "obj_ok j (count (refs t + {#i#}) j) (heap t j)" using o by blast
    then show ?thesis using ob by (auto simp: t' obj_ok_def)
  qed
  moreover have "known (heap ?t) m" if "m \<in> set (msgs t)" for m
  proof -
    have "msg_id m \<noteq> i" using that assms(2) by (auto simp: refs_def)
    then show ?thesis using o that by (auto simp: t' known_def)
  qed
  moreover have "i < next_id t" using o ob by (metis not_le option.distinct(1))
  ultimately show ?thesis using o by (auto simp: refs_ok_def t')
qed

lemma fresh_unreferenced:
  assumes "refs_ok X t" shows "next_id t \<notin># refs t + X"
proof
  assume "next_id t \<in># refs t + X"
  from refs_ok_obj [OF assms this] obtain ob where "heap t (next_id t) = Some ob" by blast
  moreover have "heap t (next_id t) = None" using assms by (simp add: refs_ok_def)
  ultimately show False by simp
qed

lemma new_ok:
  assumes "refs_ok {#} t"
  shows "refs_ok {#} ((set_size_in_bytes (next_id t) s (new_message ty p w t))
    \<lparr>held := next_id t # held (set_size_in_bytes (next_id t) s (new_message ty p w t))\<rparr>)"
proof (rule hold_refs_ok, rule set_size_ok)
  show "refs_ok {#next_id t#} (new_message ty p w t)" by (rule new_message_refs_ok [OF assms])
  show "next_id t \<notin># refs (new_message ty p w t)"
    using fresh_unreferenced [OF assms] by (simp add: refs_def msgs_def new_message_def)
qed

lemma set_size_fields [simp]:
  "qs (set_size_in_bytes i s t) = qs t" "run_st (set_size_in_bytes i s t) = run_st t"
  "handled (set_size_in_bytes i s t) = handled t" "received_init_msg (set_size_in_bytes i s t) = received_init_msg t"
  "held (set_size_in_bytes i s t) = held t"
  by (simp_all add: set_size_in_bytes_def split: option.splits)

lemma split_producer_Some: "split_producer i ps = Some (xs, m, ys) \<Longrightarrow> \<exists>n. ps = xs @ (m, n) # ys \<and> msg_id m = i"
  by (induction i ps arbitrary: xs rule: split_producer.induct) (auto split: if_splits option.splits)

lemma post_returns_ok:
  assumes "refs_ok {#} t" "kept_inv (qs t)" "post_returns i k sg t = Some t'"
  shows "refs_ok {#} t' \<and> kept_inv (qs t') \<and> frame t t'"
proof -
  obtain ps m ps' where sp: "split_producer i (producers (qs t)) = Some (ps, m, ps')" and c: "Posting i k \<in> set (calls t)"
    using assms(3) by (auto simp: post_returns_def split: option.splits if_splits)
  define r where "r = post_resume sg m (queue (qs t))"
  define s where "s = after_post m r ((qs t)\<lparr>producers := ps @ ps'\<rparr>)"
  define t1 where "t1 = t\<lparr>calls := remove1 (Posting i k) (calls t)\<rparr>"
  obtain n where n: "producers (qs t) = ps @ (m, n) # ps'" using split_producer_Some [OF sp] by blast
  have st: "step (qs t1) (PostReturns m sg) s" unfolding s_def r_def t1_def using step_post_returns [OF n] by simp
  have t': "t' = after_posting i k (fst r) (adopt s t1)"
    using assms(3) sp c by (simp add: post_returns_def Let_def r_def s_def t1_def)
  have "mset (call_ids (Posting i k)) = kept_ref i k" by (cases k) (simp_all add: kept_ref_def)
  then have "refs_ok (kept_ref i k + {#}) t1" using call_refs_ok [OF assms(1) c] by (simp add: t1_def)
  moreover have "kept_inv (qs t1)" using assms(2) by (simp add: t1_def)
  ultimately have a: "refs_ok (kept_ref i k + {#}) (adopt s t1) \<and> kept_inv s"
    using adopt_ok [of "[]" "kept_ref i k + {#}" t1 _ s "[]", OF _ _ st] by (simp add: s_def t1_def)
  have "client_step (qs t1) s"
    using client_step_step [OF st] by (simp add: s_def r_def t1_def post_resume_state)
  then show ?thesis using after_posting_ok [of i k "{#}" "adopt s t1" "fst r"] a by (simp add: t' frame_def t1_def)
qed

lemma wait_returns_ok:
  assumes "refs_ok {#} t" "wait_returns i tmo n w t = Some t'"
  shows "refs_ok {#} t' \<and> frame t t'"
  using assms call_refs_ok [OF assms(1), of "Waiting i tmo n"]
  by (auto simp: wait_returns_def frame_def finish_wait_ok split: if_splits)

lemma clear_ok:
  assumes "refs_ok {#} t" "kept_inv (qs t)" "step (qs t) e s" "offered s = offered (qs t)" "delivered s = delivered (qs t)"
    "length (consumers s) = length (consumers (qs t))" "state (queue s) = state (queue (qs t))"
  shows "refs_ok {#} (adopt s t) \<and> kept_inv s \<and> frame t (adopt s t)"
  using adopt_ok [of "[]" "{#}" t e s "[]"] assms client_step_step [OF assms(3,5,6,7)] by (simp add: frame_def)

lemma wake_up_fields [simp]:
  "length (consumers (wake_up s)) = length (consumers s)"
  by (simp add: wake_up_def)

text \<open>What an event of a client does, seen from the thread: perhaps it starts it, and then at most one step of the queue.\<close>

lemma client_event_ok:
  assumes "tstep e t = Some t'" "client_event e" "refs_ok {#} t" "kept_inv (qs t)"
  shows "refs_ok {#} t' \<and> kept_inv (qs t') \<and> (frame t t' \<or> frame (start_undetached t) t')"
proof -
  note st = start_undetached_ok
  have flags: "refs_ok {#} (t\<lparr>qs := set_flags b c (qs t)\<rparr>)" "kept_inv (qs (t\<lparr>qs := set_flags b c (qs t)\<rparr>))" for b c
    using assms(3,4) by (simp_all add: refs_ok_def refs_def msgs_def)
  have pt: "refs_ok {#} (post_type ty u) \<and> kept_inv (qs (post_type ty u)) \<and> frame u (post_type ty u)"
    if "refs_ok {#} u" "kept_inv (qs u)" for ty u
    using new_post_ok(1) [OF that refl] by (simp add: post_type_def)
  show ?thesis
  proof (cases e)
    case (CNew ty p w s)
    then show ?thesis using assms new_ok [OF assms(3)] by (auto simp: Let_def frame_def)
  next
    case (CDuplicate i)
    then have i: "i \<in> set (held t)" "t' = (obj_duplicate i t)\<lparr>held := i # held t\<rparr>" using assms(1) by (auto split: if_splits)
    then have "refs_ok {#i#} (obj_duplicate i t)" using assms(3) by (intro obj_duplicate_ok) (auto simp: refs_def)
    then show ?thesis using hold_refs_ok [of i "{#}" "obj_duplicate i t"] i assms(4) by (simp add: frame_def)
  next
    case (CRelease i)
    then show ?thesis using assms held_refs_ok [OF assms(3), of i]
      by (auto simp: frame_def intro!: obj_release_ok split: if_splits)
  next
    case (CPost i)
    then have i: "i \<in> set (held t)" "t' = post_msg i None (t\<lparr>held := remove1 i (held t)\<rparr>)"
      using assms(1) by (auto split: if_splits)
    show ?thesis
      using post_msg_ok [of i None "{#}" "t\<lparr>held := remove1 i (held t)\<rparr>"] held_refs_ok [OF assms(3) i(1)] assms(4) i(2)
        post_msg_frame [of "t\<lparr>held := remove1 i (held t)\<rparr>" i None] by (simp add: kept_ref_def frame_def)
  next
    case (CWait i tmo)
    then have i: "i \<in> set (held t)" "t' = wait_msg_handled i tmo (t\<lparr>held := remove1 i (held t)\<rparr>)"
      using assms(1) by (auto split: if_splits)
    show ?thesis
      using wait_msg_handled_ok [of i "{#}" "t\<lparr>held := remove1 i (held t)\<rparr>" tmo] held_refs_ok [OF assms(3) i(1)] assms(4) i(2)
        wait_msg_handled_frame [of "t\<lparr>held := remove1 i (held t)\<rparr>" i tmo] by (simp add: frame_def)
  next
    case (CPostReturns i k sg)
    then show ?thesis using post_returns_ok [OF assms(3,4)] assms(1) by auto
  next
    case (CWaitReturns i tmo n w)
    then have w: "wait_returns i tmo n w t = Some t'" using assms(1) by simp
    then have "qs t' = qs t" by (auto simp: wait_returns_def split: if_splits)
    then show ?thesis using wait_returns_ok [OF assms(3) w] assms(4) by simp
  next
    case CStart
    then show ?thesis using assms st by auto
  next
    case (CGo tmo)
    then show ?thesis using assms new_post_ok(2) [of "start_undetached t", OF _ _ refl] by (auto simp: go_def Let_def st)
  next
    case (CGoMsg i tmo)
    define u where "u = start_undetached t"
    have u: "refs_ok {#} u" "kept_inv (qs u)" "held u = held t" using assms(3,4) by (simp_all add: u_def st)
    have i: "i \<in> set (held u)" "t' = go_msg i tmo t" using CGoMsg assms(1) u by (auto split: if_splits)
    from refs_ok_obj [OF u(1), of i] i obtain ob where "heap u i = Some ob" by (auto simp: refs_def)
    then show ?thesis
      using wait_msg_handled_ok [of i "{#}" "u\<lparr>held := remove1 i (held u)\<rparr>" tmo] held_refs_ok [OF u(1) i(1)] u
        wait_msg_handled_frame [of "u\<lparr>held := remove1 i (held u)\<rparr>" i tmo]
      by (auto simp: i(2) go_msg_def Let_def frame_def add_outcome_def refs_ok_def refs_def msgs_def simp flip: u_def)
  next
    case CGoAsync
    then show ?thesis using assms new_post_ok(1) [of "start_undetached t", OF _ _ refl] by (auto simp: go_asynchronously_def Let_def st)
  next
    case (CGoAsyncMsg i)
    define u where "u = start_undetached t"
    have u: "refs_ok {#} u" "kept_inv (qs u)" "held u = held t" using assms(3,4) by (simp_all add: u_def st)
    have i: "i \<in> set (held u)" "t' = go_asynchronously_msg i t" using CGoAsyncMsg assms(1) u by (auto split: if_splits)
    from refs_ok_obj [OF u(1), of i] i obtain ob where "heap u i = Some ob" by (auto simp: refs_def)
    then show ?thesis
      using post_msg_ok [of i None "{#}" "u\<lparr>held := remove1 i (held u)\<rparr>"] held_refs_ok [OF u(1) i(1)] u
        post_msg_frame [of "u\<lparr>held := remove1 i (held u)\<rparr>" i None]
      by (auto simp: i(2) go_asynchronously_msg_def Let_def frame_def kept_ref_def add_outcome_def refs_ok_def refs_def msgs_def simp flip: u_def)
  next
    case CExit
    then show ?thesis using assms new_post_ok(2) [OF assms(3,4) refl] by (auto simp: exit_task_def)
  next
    case (CEnableTimeout b)
    have "t' = t\<lparr>qs := set_flags b (enable_periodic_msg (queue (qs t))) (qs t)\<rparr>"
      using CEnableTimeout assms(1) by (auto simp: set_enable_timeout_msg_def set_flags_def)
    then show ?thesis using flags client_step_flags [OF client_step_refl] by (simp add: frame_def)
  next
    case (CEnablePeriodic b)
    define u where "u = t\<lparr>qs := set_flags (enable_timeout_msg (queue (qs t))) b (qs t)\<rparr>"
    have "t\<lparr>qs := (qs t)\<lparr>queue := (queue (qs t))\<lparr>enable_periodic_msg := b\<rparr>\<rparr>\<rparr> = u" by (simp add: u_def set_flags_def)
    then have t': "t' = u \<or> t' = post_type TASK_WAKEUP u"
      using CEnablePeriodic assms(1) by (auto simp: set_enable_periodic_msg_def Let_def)
    have u: "refs_ok {#} u" "kept_inv (qs u)" using flags by (simp_all add: u_def)
    have "frame t v" if "frame u v" for v
      using that client_step_flags by (auto simp: frame_def u_def)
    then show ?thesis using t' u pt [OF u] by auto
  next
    case (CEnablePrecise b)
    define u where "u = t\<lparr>precise_periodic_timing_enabled := b\<rparr>"
    have t': "t' = u \<or> t' = post_type TASK_WAKEUP u"
      using CEnablePrecise assms(1) by (auto simp: enable_precise_periodic_timing_def Let_def u_def)
    have u: "refs_ok {#} u" "kept_inv (qs u)" "qs u = qs t" "run_st u = run_st t" "handled u = handled t"
      "received_init_msg u = received_init_msg t" using assms(3,4) by (simp_all add: u_def refs_ok_def refs_def msgs_def)
    then have "frame t v" if "frame u v" for v using that by (simp add: frame_def)
    then show ?thesis using t' u pt [OF u(1,2)] by auto
  next
    case CClear
    have "refs_ok {#} (task_clear t) \<and> kept_inv (qs (task_clear t)) \<and> frame t (task_clear t)"
      using clear_ok [OF assms(3,4) step_clear] by (simp add: task_clear_def clear_def mq_fields)
    then show ?thesis using CClear assms(1) by simp
  next
    case (CClearType ty)
    have "refs_ok {#} (task_clear_type ty t) \<and> kept_inv (qs (task_clear_type ty t)) \<and> frame t (task_clear_type ty t)"
      using clear_ok [OF assms(3,4) step_clear_pending] by (simp add: task_clear_type_def mq_fields)
    then show ?thesis using CClearType assms(1) by simp
  qed (use assms(2) in simp_all)
qed
section \<open>Events of the thread\<close>

lemma run_st_refs_ok:
  assumes "run_msgs st = run_msgs (run_st t)"
  shows "refs_ok X (t\<lparr>run_st := st\<rparr>) = refs_ok X t"
  using assms by (simp add: refs_ok_def refs_def msgs_def)

lemma other_refs_ok [simp]:
  "refs_ok X (t\<lparr>received_init_msg := b\<rparr>) = refs_ok X t" "refs_ok X (t\<lparr>run_tmo := x\<rparr>) = refs_ok X t"
  "refs_ok X (t\<lparr>handled := l\<rparr>) = refs_ok X t"
  by (simp_all add: refs_ok_def refs_def msgs_def)

lemma begin_handling_ok:
  assumes "refs_ok {#msg_id m#} t" "known (heap t) m" "run_msgs (run_st t) = []"
  shows "refs_ok {#} (begin_handling m t) \<and> run_st (begin_handling m t) = Handling m"
proof -
  have t': "begin_handling m t = t\<lparr>run_st := Handling m\<rparr>" using assms(2) by (auto simp: begin_handling_def known_def)
  have "refs (t\<lparr>run_st := Handling m\<rparr>) = refs t + {#msg_id m#}" "msgs (t\<lparr>run_st := Handling m\<rparr>) = msgs t @ [m]"
    using assms(3) by (simp_all add: refs_def msgs_def)
  then show ?thesis using assms(1,2) by (auto simp: t' refs_ok_def)
qed

lemma init_loop_ok:
  assumes "refs_ok (image_mset msg_id (mset (messages_of r))) t" "\<forall>m \<in> set (messages_of r). known (heap t) m" "run_msgs (run_st t) = []"
  shows "refs_ok {#} (init_loop r t)"
proof (cases r)
  case (NextMsg m)
  have r: "refs_ok {#msg_id m#} t" "known (heap t) m" using assms(1,2) NextMsg by (simp_all add: messages_of_def)
  have "refs_ok {#} (obj_release (msg_id m) t)" using r(1) by (rule obj_release_ok)
  then have a: "refs_ok {#} ((obj_release (msg_id m) t)\<lparr>run_st := Calling InitLoop\<rparr>)"
    by (subst run_st_refs_ok) (simp_all add: assms(3))
  have "refs_ok {#} (begin_handling m (t\<lparr>received_init_msg := True, run_tmo := actual_timeout t\<rparr>))"
    using r assms(3) begin_handling_ok [of m "t\<lparr>received_init_msg := True, run_tmo := actual_timeout t\<rparr>"] by simp
  with a show ?thesis by (simp add: init_loop_def NextMsg)
next
  case (NextGenerated ty)
  have "refs_ok {#} t" using assms(1) NextGenerated by (simp add: messages_of_def)
  from obj_release_ok [OF new_message_refs_ok [OF this, of ty DEFAULT_MSG_PRIORITY False]]
  have "refs_ok {#} ((obj_release (next_id t) (new_message ty DEFAULT_MSG_PRIORITY False t))\<lparr>run_st := Calling InitLoop\<rparr>)"
    by (subst run_st_refs_ok) (simp_all add: assms(3))
  then show ?thesis by (simp add: init_loop_def NextGenerated)
next
  case NextNone
  with assms show ?thesis by (simp add: init_loop_def run_st_refs_ok messages_of_def)
next
  case NextBlocked
  with assms show ?thesis by (simp add: init_loop_def run_st_refs_ok messages_of_def)
qed

lemma main_loop_ok:
  assumes "refs_ok (image_mset msg_id (mset (messages_of r))) t" "\<forall>m \<in> set (messages_of r). known (heap t) m" "run_msgs (run_st t) = []"
  shows "refs_ok {#} (main_loop r t)"
proof (cases r)
  case (NextMsg m)
  have r: "refs_ok {#msg_id m#} t" "known (heap t) m" using assms(1,2) NextMsg by (simp_all add: messages_of_def)
  have "refs_ok {#} (obj_release (msg_id m) t)" using r(1) by (rule obj_release_ok)
  then have a: "refs_ok {#} ((obj_release (msg_id m) t)\<lparr>run_st := Calling MainLoop\<rparr>)"
    by (subst run_st_refs_ok) (simp_all add: assms(3))
  have "(obj_release (msg_id m) t)\<lparr>run_st := Calling MainLoop, run_tmo := x\<rparr>
      = ((obj_release (msg_id m) t)\<lparr>run_st := Calling MainLoop\<rparr>)\<lparr>run_tmo := x\<rparr>" for x by simp
  with a have "refs_ok {#} ((obj_release (msg_id m) t)\<lparr>run_st := Calling MainLoop, run_tmo := x\<rparr>)" for x
    by (simp only: other_refs_ok)
  with a show ?thesis using begin_handling_ok [OF r assms(3)] by (simp add: main_loop_def NextMsg)
next
  case (NextGenerated ty)
  have "refs_ok {#} t" using assms(1) NextGenerated by (simp add: messages_of_def)
  from new_message_refs_ok [OF this, of ty DEFAULT_MSG_PRIORITY False]
  have "refs_ok {#} (begin_handling (fresh_message ty t) (new_message ty DEFAULT_MSG_PRIORITY False t))"
    using begin_handling_ok [of "fresh_message ty t" "new_message ty DEFAULT_MSG_PRIORITY False t"] assms(3)
    by (simp add: fresh_message_def known_def new_message_def)
  then show ?thesis by (simp add: main_loop_def NextGenerated)
next
  case NextNone
  with assms show ?thesis by (simp add: main_loop_def run_st_refs_ok messages_of_def)
next
  case NextBlocked
  with assms show ?thesis by (simp add: main_loop_def run_st_refs_ok messages_of_def)
qed

lemma run_loop_fields:
  "qs (run_loop ph r t) = qs t" "handled (run_loop ph r t) = handled t"
  by (cases ph; auto simp: init_loop_def main_loop_def begin_handling_def split: next_result.splits)+

text \<open>Where the loop is behind a call of \<open>next_message\<close>.\<close>

definition after_run_loop :: "phase \<Rightarrow> next_result \<Rightarrow> task \<Rightarrow> run_state" where
  "after_run_loop ph r t =
     (case r of
        NextBlocked \<Rightarrow> Blocked ph
      | NextNone \<Rightarrow> Calling ph
      | NextGenerated ty \<Rightarrow> (case ph of InitLoop \<Rightarrow> Calling InitLoop | MainLoop \<Rightarrow> Handling (fresh_message ty t))
      | NextMsg m \<Rightarrow>
          (case ph of
             InitLoop \<Rightarrow> if msg_type m = TASK_INIT then Handling m else Calling InitLoop
           | MainLoop \<Rightarrow> if msg_type m = TASK_INIT \<and> received_init_msg t \<or> msg_type m = TASK_WAKEUP then Calling MainLoop
                         else Handling m))"

lemma run_loop_run_st:
  assumes "\<forall>m \<in> set (messages_of r). known (heap t) m" "run_msgs (run_st t) = []"
  shows "run_st (run_loop ph r t) = after_run_loop ph r t"
    and "received_init_msg (run_loop ph r t)
      = (received_init_msg t \<or> (ph = InitLoop \<and> (\<exists>m. r = NextMsg m \<and> msg_type m = TASK_INIT)))"
  using assms
  by (cases ph; cases r; auto simp: init_loop_def main_loop_def begin_handling_def after_run_loop_def messages_of_def known_def
      fresh_message_def new_message_def)+

lemma run_loop_ok:
  assumes "refs_ok (image_mset msg_id (mset (messages_of r))) t" "\<forall>m \<in> set (messages_of r). known (heap t) m" "run_msgs (run_st t) = []"
  shows "refs_ok {#} (run_loop ph r t)"
  using init_loop_ok [OF assms] main_loop_ok [OF assms] by (cases ph) simp_all

text \<open>The step of the queue below a call of \<open>next_message\<close>.\<close>

definition next_step :: "task \<Rightarrow> next_result \<Rightarrow> sys \<Rightarrow> bool" where
  "next_step t r s \<longleftrightarrow> (\<exists>e. step (qs t) e s) \<and> delivered s = delivered (qs t) @ messages_of r
     \<and> length (consumers s) = (if r = NextBlocked then 1 else 0)
     \<and> refs_ok (image_mset msg_id (mset (messages_of r))) (t\<lparr>qs := s\<rparr>) \<and> kept_inv s
     \<and> (\<forall>m \<in> set (messages_of r). known (heap t) m) \<and> state (queue s) = state (queue (qs t))"

lemma next_step_intro:
  assumes "mem_inv t" "step (qs t) e s" "s = after_next r ((qs t)\<lparr>consumers := []\<rparr>)"
    and "released (snd r) = released (queue (qs t))" "msg_q (queue (qs t)) = messages_of (fst r) @ msg_q (snd r)"
    and "state (snd r) = state (queue (qs t))"
  shows "next_step t (fst r) s"
proof -
  have m: "refs_ok {#} t" "kept_inv (qs t)" using assms(1) by (simp_all add: mem_inv_def)
  have d: "delivered s = delivered (qs t) @ messages_of (fst r)" "offered s = offered (qs t)"
    "released (queue s) = released (queue (qs t))" "state (queue s) = state (queue (qs t))"
    using assms(3,4,6) by (auto simp: after_next_def Let_def messages_of_def)
  have a: "adopt s t = t\<lparr>qs := s\<rparr>" by (simp add: adopt_def d(3))
  have "refs_ok (image_mset msg_id (mset (messages_of (fst r)))) (t\<lparr>qs := s\<rparr>) \<and> kept_inv s"
    using adopt_ok [of "[]" "{#}" t e s "messages_of (fst r)"] m assms(2) d by (simp add: a)
  moreover have "set (messages_of (fst r)) \<subseteq> set (msgs t)" using assms(5) by (auto simp: msgs_def pending_def)
  then have "\<forall>m \<in> set (messages_of (fst r)). known (heap t) m" using m(1) by (auto simp: refs_ok_def)
  moreover have "length (consumers s) = (if fst r = NextBlocked then 1 else 0)"
    using assms(3) by (simp add: after_next_def Let_def wake_up_def)
  ultimately show ?thesis using d assms(2) by (auto simp: next_step_def)
qed

lemma pop_state: "state (pop_front m q) = state q"
  by (simp add: mq_fields)

lemma next_state:
  "state (snd (next_enter e q)) = state q" "state (snd (next_resume s e q)) = state q"
  "state (snd (next_ex_enter e q)) = state q" "state (snd (next_ex_resume s q)) = state q"
  by (simp_all add: next_ops next_ex_ops pop_state)

lemma next_call_step:
  assumes "mem_inv t" "run_st t = Calling ph" "r = next_call e t"
  shows "next_step t (fst r) (after_next r (qs t))"
proof -
  have c: "(qs t)\<lparr>consumers := []\<rparr> = qs t" using assms(1,2) by (simp add: mem_inv_def)
  show ?thesis
  proof (cases "precise_periodic_timing_enabled t")
    case True
    then have r: "r = next_ex_enter e (queue (qs t))" using assms(3) by (simp add: next_call_def)
    show ?thesis by (rule next_step_intro [OF assms(1) step_next_ex [of "qs t" e, folded r]])
        (simp_all add: c, simp_all add: r next_ex_effect next_state)
  next
    case False
    then have r: "r = next_enter e (queue (qs t))" using assms(3) by (simp add: next_call_def)
    show ?thesis by (rule next_step_intro [OF assms(1) step_next [of "qs t" e, folded r]])
        (simp_all add: c, simp_all add: r next_enter_effect next_state)
  qed
qed

lemma next_wakes_step:
  assumes "mem_inv t" "run_st t = Blocked ph" "r = next_wakes sg e t"
  shows "next_step t (fst r) (after_next r ((qs t)\<lparr>consumers := []\<rparr>))"
proof -
  obtain n where c: "consumers (qs t) = [] @ n # []" using assms(1,2) by (auto simp: mem_inv_def length_Suc_conv)
  show ?thesis
  proof (cases "precise_periodic_timing_enabled t")
    case True
    then have r: "r = next_ex_resume sg (queue (qs t))" using assms(3) by (simp add: next_wakes_def)
    have "step (qs t) (NextExReturns sg) (after_next r ((qs t)\<lparr>consumers := []\<rparr>))"
      using step_next_ex_returns [OF c, of sg] by (simp add: r)
    then show ?thesis by (rule next_step_intro [OF assms(1)]) (simp_all add: r next_ex_effect next_state)
  next
    case False
    then have r: "r = next_resume sg e (queue (qs t))" using assms(3) by (simp add: next_wakes_def)
    have "step (qs t) (NextReturns sg e) (after_next r ((qs t)\<lparr>consumers := []\<rparr>))"
      using step_next_returns [OF c, of sg e] by (simp add: r)
    then show ?thesis by (rule next_step_intro [OF assms(1)]) (simp_all add: r next_resume_effect next_state)
  qed
qed

lemma run_event_ok:
  assumes "next_step t r s" "run_msgs (run_st t) = []"
  shows "mem_inv (run_loop ph r (t\<lparr>qs := s\<rparr>))"
proof -
  note n = assms(1) [unfolded next_step_def]
  have k: "\<forall>m \<in> set (messages_of r). known (heap (t\<lparr>qs := s\<rparr>)) m" using n by simp
  have e: "run_msgs (run_st (t\<lparr>qs := s\<rparr>)) = []" using assms(2) by simp
  have "refs_ok {#} (run_loop ph r (t\<lparr>qs := s\<rparr>))" using n k e by (intro run_loop_ok) auto
  moreover have "(case after_run_loop ph r (t\<lparr>qs := s\<rparr>) of Blocked ph' \<Rightarrow> 1 | _ \<Rightarrow> 0) = (if r = NextBlocked then 1 else (0 :: nat))"
    by (auto simp: after_run_loop_def split: next_result.splits phase.splits)
  ultimately show ?thesis using n by (simp add: mem_inv_def run_loop_fields run_loop_run_st [OF k e])
qed

lemma heap_op_fields [simp]:
  "qs (obj_set_error i e t) = qs t" "run_st (obj_set_error i e t) = run_st t" "handled (obj_set_error i e t) = handled t"
  "qs (obj_processed i t) = qs t" "run_st (obj_processed i t) = run_st t" "handled (obj_processed i t) = handled t"
  "received_init_msg (obj_set_error i e t) = received_init_msg t" "received_init_msg (obj_processed i t) = received_init_msg t"
  by (simp_all add: obj_set_error_def obj_processed_def split: option.splits)

lemma handler_returns_ok:
  assumes "mem_inv t" "run_st t = Handling m" shows "mem_inv (handler_returns m err t)"
proof -
  have r: "refs_ok {#} t" "msg_id m \<in># refs t" using assms by (simp_all add: mem_inv_def refs_def msgs_def)
  define u where "u = (case err of None \<Rightarrow> t | Some e \<Rightarrow> obj_set_error (msg_id m) e t)"
  have u: "refs_ok {#} u" "qs u = qs t" "run_st u = run_st t"
    using r obj_set_error_ok [OF r(1), of "msg_id m"] by (simp_all add: u_def split: option.splits)
  then have "refs_ok {#} ((u\<lparr>handled := handled t @ [(m, err)]\<rparr>)\<lparr>run_st := Marking m\<rparr>)"
    by (subst run_st_refs_ok) (simp_all add: assms(2))
  then show ?thesis using assms u by (simp add: mem_inv_def handler_returns_def flip: u_def)
qed

lemma mark_processed_ok:
  assumes "mem_inv t" "run_st t = Marking m" shows "mem_inv (mark_processed m t)"
proof -
  have r: "refs_ok {#} t" "msg_id m \<in># refs t" using assms by (simp_all add: mem_inv_def refs_def msgs_def)
  then have "refs_ok {#} ((obj_processed (msg_id m) t)\<lparr>run_st := Releasing m\<rparr>)"
    using obj_processed_ok [OF r(1), of "msg_id m"] by (subst run_st_refs_ok) (simp_all add: assms(2))
  then show ?thesis using assms by (simp add: mem_inv_def mark_processed_def)
qed

lemma close_refs_ok:
  "refs_ok X (t\<lparr>qs := wake_up ((qs t)\<lparr>queue := close (queue (qs t))\<rparr>)\<rparr>) = refs_ok X t"
proof -
  have "pending (wake_up ((qs t)\<lparr>queue := close (queue (qs t))\<rparr>)) = pending (qs t)" by (simp add: pending_def mq_fields)
  then show ?thesis by (simp add: refs_ok_def refs_def msgs_def)
qed

lemma release_handled_ok:
  assumes "mem_inv t" "run_st t = Releasing m" shows "mem_inv (release_handled m t)"
proof -
  have r: "refs_ok {#} t" using assms by (simp add: mem_inv_def)
  have c: "refs (t\<lparr>run_st := Finished\<rparr>) + {#msg_id m#} = refs t" using assms(2) by (simp add: refs_def msgs_def)
  have ms: "msgs (t\<lparr>run_st := Finished\<rparr>) = pending (qs t)" by (simp add: msgs_def)
  have "refs_ok {#msg_id m#} (t\<lparr>run_st := Finished\<rparr>)"
    using r assms(2) unfolding refs_ok_def c ms by (simp add: msgs_def)
  then have "refs_ok {#} (obj_release (msg_id m) (t\<lparr>run_st := Finished\<rparr>))" by (rule obj_release_ok)
  moreover have comm: "obj_release i (t\<lparr>run_st := st\<rparr>) = (obj_release i t)\<lparr>run_st := st\<rparr>" for i st
    by (simp add: obj_release_def split: option.splits)
  ultimately have f: "refs_ok {#} ((obj_release (msg_id m) t)\<lparr>run_st := Finished\<rparr>)" by simp
  define u where "u = (obj_release (msg_id m) t)\<lparr>run_st := Finished\<rparr>"
  have e: "release_handled m t = (if msg_type m = TASK_EXIT then u\<lparr>qs := wake_up ((qs u)\<lparr>queue := close (queue (qs u))\<rparr>)\<rparr>
      else (u\<lparr>run_st := Calling MainLoop\<rparr>)\<lparr>run_tmo := actual_timeout (obj_release (msg_id m) t)\<rparr>)"
    by (simp add: release_handled_def Let_def u_def)
  have "refs_ok {#} (u\<lparr>run_st := Calling MainLoop\<rparr>)" using f by (subst run_st_refs_ok) (simp_all add: u_def)
  moreover have "kept_inv (wake_up ((qs t)\<lparr>queue := close (queue (qs t))\<rparr>))"
    using step_kept [OF step_close] assms(1) by (simp add: mem_inv_def)
  ultimately show ?thesis using f close_refs_ok [of "{#}" u] assms by (simp add: e mem_inv_def u_def)
qed

text \<open>Every event keeps the reference counts right.\<close>

lemma tstep_mem_inv:
  assumes "tstep e t = Some t'" "mem_inv t" shows "mem_inv t'"
proof (cases "client_event e")
  case True
  have c: "length (consumers (qs t')) = length (consumers (qs u))" if "frame u t'" for u
    using that client_step_fields by (auto simp: frame_def)
  have "refs_ok {#} t' \<and> kept_inv (qs t') \<and> (frame t t' \<or> frame (start_undetached t) t')"
    using client_event_ok [OF assms(1) True] assms(2) by (simp add: mem_inv_def)
  moreover have "length (consumers (qs t')) = (case run_st t' of Blocked ph \<Rightarrow> 1 | _ \<Rightarrow> 0)" if "frame t t'"
    using c [OF that] that assms(2) by (simp add: mem_inv_def frame_def)
  moreover have "length (consumers (qs t')) = (case run_st t' of Blocked ph \<Rightarrow> 1 | _ \<Rightarrow> 0)" if "frame (start_undetached t) t'"
    using c [OF that] that assms(2) by (auto simp: mem_inv_def frame_def start_undetached_def split: if_splits)
  ultimately show ?thesis by (auto simp: mem_inv_def)
next
  case False
  show ?thesis
  proof (cases e)
    case (RNext ex)
    then obtain ph where ph: "run_st t = Calling ph" using assms(1) by (auto simp: run_next_def split: run_state.splits)
    then show ?thesis using RNext assms run_event_ok [OF next_call_step [OF assms(2) ph refl]] by (simp add: run_next_def Let_def) blast
  next
    case (RNextReturns sg ex)
    then obtain ph where ph: "run_st t = Blocked ph" using assms(1) by (auto simp: run_next_returns_def split: run_state.splits)
    then show ?thesis using RNextReturns assms run_event_ok [OF next_wakes_step [OF assms(2) ph refl]]
      by (auto simp: run_next_returns_def Let_def split: if_splits)
  next
    case (RHandler err)
    then show ?thesis using assms handler_returns_ok by (auto split: run_state.splits)
  next
    case RProcessed
    then show ?thesis using assms mark_processed_ok by (auto split: run_state.splits)
  next
    case RRelease
    then show ?thesis using assms release_handled_ok by (auto split: run_state.splits)
  qed (use False in simp_all)
qed

lemma reachable_mem_inv: "reachable t0 t \<Longrightarrow> mem_inv t0 \<Longrightarrow> mem_inv t"
  by (induction rule: reachable.induct) (auto simp: task_step_iff tstep_mem_inv)

lemma Task_ctor_mem_inv: "mem_inv (Task_ctor sz cfg)"
  by (simp add: mem_inv_def refs_ok_def Task_ctor_def refs_def msgs_def pending_def start_def MessageQ_ctor_def obj_ok_def
      kept_inv_def accounted_def)

end
