(* ===== verification/TaskPromises.thy ===== *)
theory TaskPromises
  imports TaskLoop
begin

text \<open>
  What a task promises: the order in which it handles messages, what the waiting calls report, calls that wait for ever,
  and the end of the task. The model is in \<open>TaskLoop\<close>.
\<close>

section \<open>The order of the messages\<close>

definition log_ok :: "message list \<Rightarrow> bool" where
  "log_ok l \<longleftrightarrow> (case l of [] \<Rightarrow> True | m # ms \<Rightarrow> msg_type m = TASK_INIT \<and> (\<forall>x \<in> set ms. msg_type x \<noteq> TASK_INIT \<and> msg_type x \<noteq> TASK_WAKEUP))"

definition no_exit :: "message list \<Rightarrow> bool" where
  "no_exit l \<longleftrightarrow> (\<forall>m \<in> set l. msg_type m \<noteq> TASK_EXIT)"

text \<open>Messages of the queue: those the queue makes itself have one of the two other types.\<close>

definition posted :: "message \<Rightarrow> bool" where
  "posted m \<longleftrightarrow> msg_type m \<noteq> TASK_TIMEOUT \<and> msg_type m \<noteq> TASK_PERIODIC"

definition taken :: "task \<Rightarrow> message list" where
  "taken t = map fst (handled t) @ (case run_st t of Handling m \<Rightarrow> [m] | _ \<Rightarrow> [])"

definition protocol :: "task \<Rightarrow> bool" where
  "protocol t \<longleftrightarrow> log_ok (taken t) \<and> (taken t \<noteq> [] \<longleftrightarrow> run_st t \<notin> {NotStarted, Calling InitLoop, Blocked InitLoop})
     \<and> (run_st t \<in> {Calling InitLoop, Blocked InitLoop} \<longrightarrow> \<not> received_init_msg t)
     \<and> (run_st t \<notin> {NotStarted, Calling InitLoop, Blocked InitLoop} \<longrightarrow> received_init_msg t)
     \<and> (case run_st t of
          Handling m \<Rightarrow> no_exit (map fst (handled t))
        | Marking m \<Rightarrow> no_exit (butlast (taken t)) \<and> last (taken t) = m
        | Releasing m \<Rightarrow> no_exit (butlast (taken t)) \<and> last (taken t) = m
        | Finished \<Rightarrow> no_exit (butlast (taken t)) \<and> msg_type (last (taken t)) = TASK_EXIT \<and> state (queue (qs t)) = CLOSED
        | _ \<Rightarrow> no_exit (taken t))
     \<and> subseq (filter posted (taken t)) (filter posted (delivered (qs t)))"

lemma frame_protocol:
  assumes "frame t t'" shows "protocol t \<Longrightarrow> protocol t'"
proof -
  have e: "run_st t' = run_st t" "handled t' = handled t" "received_init_msg t' = received_init_msg t"
    "delivered (qs t') = delivered (qs t)" "state (queue (qs t')) = state (queue (qs t))"
    using assms client_step_fields [of "qs t" "qs t'"] by (simp_all add: frame_def)
  have "taken t' = taken t" by (simp add: taken_def e)
  then show "protocol t \<Longrightarrow> protocol t'" by (simp only: protocol_def e) blast
qed

lemma start_protocol: "protocol t \<Longrightarrow> protocol (start_undetached t)"
  by (auto simp: protocol_def start_undetached_def taken_def)

lemma generated_types:
  "fst (next_enter e q) = NextGenerated ty \<Longrightarrow> ty = TASK_TIMEOUT \<or> ty = TASK_PERIODIC"
  "fst (next_resume s e q) = NextGenerated ty \<Longrightarrow> ty = TASK_TIMEOUT \<or> ty = TASK_PERIODIC"
  "fst (next_ex_enter e q) = NextGenerated ty \<Longrightarrow> ty = TASK_TIMEOUT \<or> ty = TASK_PERIODIC"
  "fst (next_ex_resume s q) = NextGenerated ty \<Longrightarrow> ty = TASK_TIMEOUT \<or> ty = TASK_PERIODIC"
  by (auto simp: next_ops next_ex_ops split: if_splits)

lemma generated_calls:
  "fst (next_call e t) = NextGenerated ty \<Longrightarrow> ty = TASK_TIMEOUT \<or> ty = TASK_PERIODIC"
  "fst (next_wakes sg e t) = NextGenerated ty \<Longrightarrow> ty = TASK_TIMEOUT \<or> ty = TASK_PERIODIC"
  using generated_types by (auto simp: next_call_def next_wakes_def split: if_splits)

lemma log_ok_snoc:
  "log_ok (l @ [m]) \<longleftrightarrow> (if l = [] then msg_type m = TASK_INIT else log_ok l \<and> msg_type m \<noteq> TASK_INIT \<and> msg_type m \<noteq> TASK_WAKEUP)"
  by (cases l) (auto simp: log_ok_def)

lemma subseq_filter_snoc:
  assumes "subseq (filter P l) (filter P d)"
  shows "subseq (filter P (l @ x)) (filter P (d @ x))" "subseq (filter P l) (filter P (d @ x))"
  using assms by (auto intro: list_emb_append_mono)

lemmas task_types = TASK_INIT_def TASK_TIMEOUT_def TASK_PERIODIC_def TASK_WAKEUP_def TASK_EXIT_def

lemma run_event_protocol:
  assumes "next_step t r s" "protocol t" "run_st t = Calling ph \<or> run_st t = Blocked ph"
    and "\<And>ty. r = NextGenerated ty \<Longrightarrow> ty = TASK_TIMEOUT \<or> ty = TASK_PERIODIC"
  shows "protocol (run_loop ph r (t\<lparr>qs := s\<rparr>))"
proof -
  define u where "u = t\<lparr>qs := s\<rparr>"
  note n = assms(1) [unfolded next_step_def]
  have u: "\<forall>m \<in> set (messages_of r). known (heap u) m" "run_msgs (run_st u) = []"
    using n assms(3) by (auto simp: u_def)
  note rl = run_loop_run_st [OF u] run_loop_fields
  have l: "taken t = map fst (handled t)" using assms(3) by (auto simp: taken_def)
  have d: "subseq (filter posted (map fst (handled t))) (filter posted (delivered (qs t)))"
    using assms(2) by (simp add: protocol_def l)
  note sub = subseq_filter_snoc [OF d]
  have new: "taken (run_loop ph r u) = map fst (handled t) @ (case after_run_loop ph r u of Handling m \<Rightarrow> [m] | _ \<Rightarrow> [])"
    by (simp add: taken_def rl(1,4)) (simp add: u_def)
  have del: "delivered s = delivered (qs t) @ messages_of r" using n by simp
  show ?thesis
  proof (cases ph)
    case InitLoop
    then have i: "handled t = []" "\<not> received_init_msg t" using assms(2,3) l by (auto simp: protocol_def)
    then show ?thesis
      using sub(1) [of "messages_of r"] sub(2) [of "messages_of r"]
      unfolding protocol_def new rl u_def [symmetric]
      by (cases r) (auto simp: InitLoop after_run_loop_def log_ok_def no_exit_def messages_of_def u_def del)
  next
    case MainLoop
    then have i: "handled t \<noteq> []" "received_init_msg t" "log_ok (map fst (handled t))" "no_exit (map fst (handled t))"
      using assms(2,3) l by (auto simp: protocol_def)
    have g: "msg_type (fresh_message ty v) = ty" for ty v by (simp add: fresh_message_def)
    show ?thesis
      using i sub(1) [of "messages_of r"] sub(2) [of "messages_of r"] assms(4)
      unfolding protocol_def new rl u_def [symmetric]
      by (cases r) (auto simp: MainLoop after_run_loop_def log_ok_snoc messages_of_def g posted_def task_types u_def del)
  qed
qed

lemma tstep_protocol:
  assumes "tstep e t = Some t'" "mem_inv t" "protocol t" shows "protocol t'"
proof (cases "client_event e")
  case True
  then show ?thesis
    using client_event_ok [OF assms(1) True] assms(2,3) frame_protocol start_protocol by (auto simp: mem_inv_def)
next
  case False
  show ?thesis
  proof (cases e)
    case (RNext ex)
    then obtain ph where ph: "run_st t = Calling ph" using assms(1) by (auto simp: run_next_def split: run_state.splits)
    have "t' = run_loop ph (fst (next_call ex t)) (t\<lparr>qs := after_next (next_call ex t) (qs t)\<rparr>)"
      using RNext assms(1) ph by (simp add: run_next_def Let_def)
    then show ?thesis
      using run_event_protocol [OF next_call_step [OF assms(2) ph refl] assms(3)] ph generated_calls(1) by simp
  next
    case (RNextReturns sg ex)
    then obtain ph where ph: "run_st t = Blocked ph" using assms(1) by (auto simp: run_next_returns_def split: run_state.splits)
    have "t' = run_loop ph (fst (next_wakes sg ex t)) (t\<lparr>qs := after_next (next_wakes sg ex t) ((qs t)\<lparr>consumers := []\<rparr>)\<rparr>)"
      using RNextReturns assms(1) ph by (auto simp: run_next_returns_def Let_def split: if_splits)
    then show ?thesis
      using run_event_protocol [OF next_wakes_step [OF assms(2) ph refl] assms(3)] ph generated_calls(2) by simp
  next
    case (RHandler err)
    then obtain m where m: "run_st t = Handling m" "t' = handler_returns m err t" using assms(1) by (auto split: run_state.splits)
    then show ?thesis using assms(3)
      by (auto simp: handler_returns_def protocol_def taken_def log_ok_snoc butlast_append split: option.splits)
  next
    case RProcessed
    then obtain m where m: "run_st t = Marking m" "t' = mark_processed m t" using assms(1) by (auto split: run_state.splits)
    then show ?thesis using assms(3) by (auto simp: mark_processed_def protocol_def taken_def)
  next
    case RRelease
    then obtain m where m: "run_st t = Releasing m" "t' = release_handled m t" using assms(1) by (auto split: run_state.splits)
    have p: "log_ok (taken t)" "taken t \<noteq> []" "no_exit (butlast (taken t))" "last (taken t) = m" "received_init_msg t"
      "taken t = map fst (handled t)"
      using assms(3) m(1) by (auto simp: protocol_def taken_def)
    have "no_exit (taken t)" if "msg_type m \<noteq> TASK_EXIT"
      using p(2-4) that by (metis (no_types, lifting) append_butlast_last_id no_exit_def in_set_conv_nth rotate1.simps(2) set_ConsD set_rotate1)
    then show ?thesis
      using p m assms(3) by (auto simp: release_handled_def Let_def protocol_def taken_def mq_fields)
  qed (use False in simp_all)
qed

lemma reachable_protocol: "reachable t0 t \<Longrightarrow> mem_inv t0 \<Longrightarrow> protocol t0 \<Longrightarrow> protocol t"
proof (induction rule: reachable.induct)
  case (reachable_step t t')
  then show ?case using reachable_mem_inv tstep_protocol by (auto simp: task_step_iff)
qed

lemma Task_ctor_protocol: "protocol (Task_ctor sz cfg)"
  by (simp add: protocol_def taken_def Task_ctor_def log_ok_def no_exit_def)

text \<open>What the queue keeps as well, when its high water mark is above zero.\<close>

definition order_inv :: "sys \<Rightarrow> bool" where
  "order_inv s \<longleftrightarrow> sys_inv s \<and> fifo_inv s"

lemma step_order_inv: "step s e s' \<Longrightarrow> order_inv s \<Longrightarrow> order_inv s'"
  using step_sys_inv step_fifo by (auto simp: order_inv_def sys_inv_def)

lemma client_step_order: "client_step s s' \<Longrightarrow> order_inv s \<Longrightarrow> order_inv s'"
  using client_step_inv by (auto simp: order_inv_def)

lemma tstep_order_inv:
  assumes "tstep e t = Some t'" "mem_inv t" "order_inv (qs t)" shows "order_inv (qs t')"
proof (cases "client_event e")
  case True
  then show ?thesis
    using client_event_ok [OF assms(1) True] assms(2,3) client_step_order
    by (auto simp: mem_inv_def frame_def start_undetached_ok)
next
  case False
  show ?thesis
  proof (cases e)
    case (RNext ex)
    then obtain ph where ph: "run_st t = Calling ph" using assms(1) by (auto simp: run_next_def split: run_state.splits)
    then have "qs t' = after_next (next_call ex t) (qs t)" using RNext assms(1) by (auto simp: run_next_def Let_def run_loop_fields)
    then show ?thesis using next_call_step [OF assms(2) ph refl, of ex] step_order_inv assms(3) by (auto simp: next_step_def)
  next
    case (RNextReturns sg ex)
    then obtain ph where ph: "run_st t = Blocked ph" using assms(1) by (auto simp: run_next_returns_def split: run_state.splits)
    then have "qs t' = after_next (next_wakes sg ex t) ((qs t)\<lparr>consumers := []\<rparr>)"
      using RNextReturns assms(1) by (auto simp: run_next_returns_def Let_def run_loop_fields split: if_splits)
    then show ?thesis using next_wakes_step [OF assms(2) ph refl, of sg ex] step_order_inv assms(3) by (auto simp: next_step_def)
  next
    case (RHandler err)
    then show ?thesis using assms by (auto simp: handler_returns_def split: run_state.splits option.splits)
  next
    case RProcessed
    then show ?thesis using assms by (auto simp: mark_processed_def split: run_state.splits)
  next
    case RRelease
    then show ?thesis using assms step_order_inv [OF step_close]
      by (auto simp: release_handled_def Let_def split: run_state.splits if_splits)
  qed (use False in simp_all)
qed

lemma reachable_order_inv: "reachable t0 t \<Longrightarrow> mem_inv t0 \<Longrightarrow> order_inv (qs t0) \<Longrightarrow> order_inv (qs t)"
proof (induction rule: reachable.induct)
  case (reachable_step t t')
  then show ?case using reachable_mem_inv tstep_order_inv by (auto simp: task_step_iff)
qed

lemma Task_ctor_order_inv: "0 < cfg_hi_wm cfg \<Longrightarrow> order_inv (qs (Task_ctor sz cfg))"
  by (simp add: order_inv_def Task_ctor_def start_def MessageQ_ctor_def sys_inv_def mq_inv_def fifo_inv_def)
section \<open>What the calls report\<close>

text \<open>
  How an operation that handles no message changes the objects: it makes new ones and removes some. It marks a waiting
  call as notified only when it removes the message, and it reports only what the object says.
\<close>

definition unprocessed :: "msg_obj \<Rightarrow> bool" where
  "unprocessed ob \<longleftrightarrow> obj_error ob = None \<and> \<not> is_processed ob"

definition same_state :: "msg_obj \<Rightarrow> msg_obj \<Rightarrow> bool" where
  "same_state ob ob' \<longleftrightarrow> obj_error ob' = obj_error ob \<and> is_processed ob' = is_processed ob \<and> obj_msg ob' = obj_msg ob"

definition result_of :: "msg_obj \<Rightarrow> outcome" where
  "result_of ob = (case obj_error ob of None \<Rightarrow> Handled_ok | Some e \<Rightarrow> Threw e)"

definition reports :: "outcome \<Rightarrow> bool" where
  "reports r \<longleftrightarrow> r = Handled_ok \<or> (\<exists>e. r = Threw (Handler_error e))"

definition bounded :: "task \<Rightarrow> bool" where
  "bounded t \<longleftrightarrow> (\<forall>i \<ge> next_id t. heap t i = None)"

definition evolves :: "task \<Rightarrow> task \<Rightarrow> bool" where
  "evolves t t' \<longleftrightarrow> bounded t \<longrightarrow> bounded t' \<and> next_id t \<le> next_id t' \<and> handled t' = handled t
     \<and> (\<forall>i ob'. heap t' i = Some ob' \<longrightarrow>
          (\<exists>ob. heap t i = Some ob \<and> same_state ob ob') \<or> (next_id t \<le> i \<and> unprocessed ob'))
     \<and> (\<forall>i tmo. Waiting i tmo True \<in> set (calls t') \<longrightarrow>
          Waiting i tmo True \<in> set (calls t) \<or> (i < next_id t' \<and> heap t' i = None))
     \<and> (\<forall>i r. (i, r) \<in> set (outcomes t') \<longrightarrow> reports r \<longrightarrow>
          (i, r) \<in> set (outcomes t) \<or> (\<exists>ob. heap t i = Some ob \<and> is_processed ob \<and> r = result_of ob))"

lemma same_state_refl [simp]: "same_state ob ob"
  by (simp add: same_state_def)

lemma evolves_refl: "evolves t t"
  by (simp add: evolves_def)

lemma evolves_trans:
  assumes "evolves t t1" "evolves t1 t2" shows "evolves t t2"
proof -
  have "bounded t2 \<and> next_id t \<le> next_id t2 \<and> handled t2 = handled t" if b: "bounded t"
    using assms b unfolding evolves_def by (metis order_trans)
  moreover have "(\<exists>ob. heap t i = Some ob \<and> same_state ob ob2) \<or> (next_id t \<le> i \<and> unprocessed ob2)"
    if b: "bounded t" and h: "heap t2 i = Some ob2" for i ob2
  proof -
    have b1: "bounded t1" "next_id t \<le> next_id t1" using assms(1) b by (simp_all add: evolves_def)
    from assms(2) b1 h consider ob1 where "heap t1 i = Some ob1" "same_state ob1 ob2" | "next_id t1 \<le> i" "unprocessed ob2"
      unfolding evolves_def by blast
    then show ?thesis
    proof cases
      case 1
      then show ?thesis using assms(1) b unfolding evolves_def same_state_def unprocessed_def by metis
    qed (use b1 in auto)
  qed
  moreover have "Waiting i tmo True \<in> set (calls t) \<or> (i < next_id t2 \<and> heap t2 i = None)"
    if b: "bounded t" and h: "Waiting i tmo True \<in> set (calls t2)" for i tmo
  proof -
    have b1: "bounded t1" "bounded t2" "next_id t1 \<le> next_id t2" using assms b by (simp_all add: evolves_def)
    have "heap t2 i = None" if "i < next_id t1" "heap t1 i = None"
    proof (rule ccontr)
      assume "heap t2 i \<noteq> None"
      then obtain ob where "heap t2 i = Some ob" by auto
      then show False using assms(2) b1 that unfolding evolves_def by (metis not_le option.distinct(1))
    qed
    then show ?thesis using assms b b1 h unfolding evolves_def by (meson less_le_trans)
  qed
  moreover have "(i, r) \<in> set (outcomes t) \<or> (\<exists>ob. heap t i = Some ob \<and> is_processed ob \<and> r = result_of ob)"
    if b: "bounded t" and h: "(i, r) \<in> set (outcomes t2)" "reports r" for i r
  proof -
    have b1: "bounded t1" using assms(1) b by (simp add: evolves_def)
    from assms(2) b1 h consider "(i, r) \<in> set (outcomes t1)" | ob where "heap t1 i = Some ob" "is_processed ob" "r = result_of ob"
      unfolding evolves_def by blast
    then show ?thesis
    proof cases
      case 1
      then show ?thesis using assms(1) b h unfolding evolves_def by blast
    next
      case 2
      then obtain ob0 where "heap t i = Some ob0" "same_state ob0 ob"
        using assms(1) b unfolding evolves_def unprocessed_def by metis
      then show ?thesis using 2 by (auto simp: same_state_def result_of_def)
    qed
  qed
  ultimately show ?thesis unfolding evolves_def by blast
qed

text \<open>Fields that do not matter here.\<close>

lemma evolves_calls:
  assumes "heap u = heap t" "next_id u = next_id t" "handled u = handled t" "outcomes u = outcomes t"
    "\<forall>i tmo. Waiting i tmo True \<in> set (calls u) \<longrightarrow> Waiting i tmo True \<in> set (calls t)"
  shows "evolves t u"
  using assms unfolding evolves_def bounded_def by auto

lemma evolves_cong:
  assumes "evolves t t'" "heap u = heap t'" "next_id u = next_id t'" "handled u = handled t'" "outcomes u = outcomes t'"
    "set (calls u) \<subseteq> set (calls t')"
  shows "evolves t u"
  by (rule evolves_trans [OF assms(1) evolves_calls]) (use assms in auto)

lemma evolves_update:
  assumes "heap t i = Some ob" "same_state ob ob'"
    and "t' = t\<lparr>heap := (heap t)(i \<mapsto> ob')\<rparr>"
  shows "evolves t t'"
proof -
  have "bounded t \<Longrightarrow> i < next_id t" using assms(1) by (metis bounded_def not_le option.distinct(1))
  then show ?thesis using assms by (auto simp: evolves_def bounded_def)
qed

lemma evolves_duplicate: "evolves t (obj_duplicate i t)"
  by (auto simp: obj_duplicate_def evolves_refl same_state_def split: option.splits
      intro!: evolves_update [OF _ _ refl] intro: evolves_calls)

lemma Waiting_notify: "Waiting i tmo True \<in> set (notify j cs) \<longleftrightarrow>
    Waiting i tmo True \<in> set cs \<or> (i = j \<and> Waiting i tmo False \<in> set cs)"
  by (induction cs) (auto simp: notify_def split: call.splits)

lemma evolves_release: "evolves t (obj_release i t)"
proof (cases "heap t i")
  case None
  then show ?thesis by (simp add: obj_release_def evolves_calls)
next
  case (Some ob)
  have lt: "bounded t \<Longrightarrow> i < next_id t" using Some by (metis bounded_def not_le option.distinct(1))
  show ?thesis
  proof (cases "reference_count ob - 1 = 0")
    case True
    then show ?thesis using Some lt by (auto simp: obj_release_def evolves_def bounded_def Waiting_notify)
  next
    case False
    show ?thesis by (rule evolves_update [where i = i and ob = ob and ob' = "ob\<lparr>reference_count := reference_count ob - 1\<rparr>"])
        (use Some False in \<open>simp_all add: obj_release_def same_state_def\<close>)
  qed
qed

lemma evolves_fold_release: "evolves t (fold (\<lambda>m. obj_release (msg_id m)) ms t)"
proof (induction ms arbitrary: t)
  case (Cons m ms)
  show ?case using evolves_trans [OF evolves_release Cons.IH] by simp
qed (simp add: evolves_refl)

lemma evolves_adopt: "evolves t (adopt s t)"
proof -
  have "evolves t (t\<lparr>qs := s\<rparr>)" by (rule evolves_calls) simp_all
  then show ?thesis unfolding adopt_def Let_def using evolves_trans evolves_fold_release by blast
qed

lemma evolves_new:
  assumes "m = p" "t' = t\<lparr>heap := (heap t)(next_id t \<mapsto> \<lparr>obj_msg = m, reference_count = 1, is_processed = False, is_waitable = w,
      obj_error = None\<rparr>), next_id := Suc (next_id t)\<rparr>"
  shows "evolves t t'"
  unfolding assms(2) evolves_def bounded_def by (auto simp: unprocessed_def)

lemma evolves_new_message: "evolves t (new_message ty p w t)"
  unfolding new_message_def by (rule evolves_new [OF refl refl])

lemma evolves_outcome: "\<not> reports r \<Longrightarrow> evolves t (add_outcome i r t)"
  by (auto simp: evolves_def bounded_def add_outcome_def)

lemma evolves_finish:
  assumes "ok \<Longrightarrow> \<exists>ob. heap t i = Some ob \<and> is_processed ob"
  shows "evolves t (finish_wait i ok t)"
proof (cases "heap t i")
  case None
  then show ?thesis by (simp add: finish_wait_def evolves_calls)
next
  case (Some ob)
  note rel = evolves_release [of t i]
  show ?thesis
  proof (cases ok)
    case True
    then have f: "finish_wait i ok t = add_outcome i (result_of ob) (obj_release i t)"
      using Some by (simp add: finish_wait_def result_of_def)
    have "is_processed ob" using assms True Some by simp
    then show ?thesis using rel Some unfolding f evolves_def by (auto simp: add_outcome_def bounded_def)
  next
    case False
    then have "finish_wait i ok t = add_outcome i (Threw TIMEOUT_EXPIRED) (obj_release i t)"
      using Some by (simp add: finish_wait_def)
    then show ?thesis using evolves_trans [OF rel evolves_outcome] by (simp add: reports_def)
  qed
qed

lemma evolves_wait: "evolves t (wait_processed i tmo t)"
  by (auto simp: wait_processed_def evolves_calls split: option.splits intro!: evolves_finish)

lemma evolves_after_posting: "evolves t (after_posting i k r t)"
  using evolves_wait evolves_trans [OF evolves_release evolves_outcome]
  by (auto simp: after_posting_def reports_def split: post_result.splits option.splits intro: evolves_outcome evolves_calls)

lemma evolves_post: "evolves t (post_msg i k t)"
proof (cases "heap t i")
  case None
  then show ?thesis by (simp add: post_msg_def evolves_calls)
next
  case (Some ob)
  then show ?thesis using evolves_trans [OF evolves_adopt evolves_after_posting] by (simp add: post_msg_def Let_def)
qed

lemma evolves_wait_msg: "evolves t (wait_msg_handled i tmo t)"
proof (cases "heap t i")
  case None
  then show ?thesis by (simp add: wait_msg_handled_def evolves_calls)
next
  case (Some ob)
  then show ?thesis
    by (auto simp: wait_msg_handled_def reports_def intro: evolves_trans [OF evolves_duplicate evolves_post]
        evolves_trans [OF evolves_release evolves_outcome])
qed

lemma evolves_start: "evolves t (start_undetached t)"
  by (rule evolves_calls) (simp_all add: start_undetached_def)
text \<open>Runs in which no thread wakes up without having been notified.\<close>

fun quiet :: "task_event \<Rightarrow> bool" where
  "quiet (CWaitReturns i tmo n w) \<longleftrightarrow> w \<noteq> Spurious"
| "quiet _ \<longleftrightarrow> True"

definition waits_ok :: "task \<Rightarrow> bool" where
  "waits_ok t \<longleftrightarrow> (\<forall>i tmo. Waiting i tmo True \<in> set (calls t) \<longrightarrow> (\<exists>ob. heap t i = Some ob \<and> is_processed ob))"

lemma wait_returns_evolves:
  assumes "wait_returns i tmo n w t = Some t'" "w \<noteq> Spurious" "waits_ok t"
  shows "evolves t t'"
proof -
  define u where "u = t\<lparr>calls := remove1 (Waiting i tmo n) (calls t)\<rparr>"
  have w: "Waiting i tmo n \<in> set (calls t)" "w = Signalled \<Longrightarrow> n" "t' = finish_wait i (w \<noteq> Timed_out) u"
    using assms(1) by (auto simp: wait_returns_def u_def split: if_splits)
  have "evolves t u" by (rule evolves_calls) (use set_remove1_subset in \<open>force simp: u_def\<close>)+
  moreover have "\<exists>ob. heap u i = Some ob \<and> is_processed ob" if "w \<noteq> Timed_out"
  proof -
    have "w = Signalled" using that assms(2) by (cases w) simp_all
    then show ?thesis using w assms(3) by (auto simp: waits_ok_def u_def)
  qed
  ultimately show ?thesis unfolding w(3) by (blast intro: evolves_trans evolves_finish)
qed

lemma post_returns_evolves: "post_returns i k sg t = Some t' \<Longrightarrow> evolves t t'"
proof -
  assume a: "post_returns i k sg t = Some t'"
  obtain r s where t': "t' = after_posting i k r (adopt s (t\<lparr>calls := remove1 (Posting i k) (calls t)\<rparr>))"
    using a by (auto simp: post_returns_def Let_def split: option.splits if_splits)
  have "evolves t (t\<lparr>calls := remove1 (Posting i k) (calls t)\<rparr>)"
    by (rule evolves_calls) (auto dest: notin_set_remove1)
  then show ?thesis unfolding t' by (blast intro: evolves_trans evolves_adopt evolves_after_posting)
qed

lemma new_sized_evolves:
  "evolves t ((set_size_in_bytes (next_id t) s (new_message ty p w t))\<lparr>held := l\<rparr>)"
  unfolding evolves_def bounded_def by (auto simp: set_size_in_bytes_def new_message_def unprocessed_def)

lemma evolves_held: "evolves (t\<lparr>held := l\<rparr>) t' \<Longrightarrow> evolves t t'"
  by (rule evolves_trans [of t "t\<lparr>held := l\<rparr>"]) (auto intro: evolves_calls)

lemma evolves_new_post: "evolves t (post_msg (next_id t) None (new_message ty p w t))"
  by (rule evolves_trans [OF evolves_new_message evolves_post])

lemma evolves_new_wait: "evolves t (wait_msg_handled (next_id t) tmo (new_message ty p w t))"
  by (rule evolves_trans [OF evolves_new_message evolves_wait_msg])

lemma client_evolves:
  assumes "tstep e t = Some t'" "client_event e" "quiet e" "waits_ok t"
  shows "evolves t t'"
proof -
  note start = evolves_trans [OF evolves_start]
  have same: "start_undetached t = u \<Longrightarrow> next_id u = next_id t" for u by (auto simp: start_undetached_def)
  have pt: "evolves u (post_type ty u)" for ty u unfolding post_type_def by (rule evolves_new_post)
  show ?thesis
  proof (cases e)
    case (CGoMsg i tmo)
    then have t': "t' = go_msg i tmo t" using assms(1) by (auto split: if_splits)
    have "evolves u (case heap u i of None \<Rightarrow> u\<lparr>fault := True\<rparr> | Some ob \<Rightarrow>
        if msg_type (obj_msg ob) \<noteq> TASK_INIT \<or> \<not> is_waitable ob then add_outcome i (Threw PROGRAMMING_ERROR) u
        else wait_msg_handled i tmo (u\<lparr>held := remove1 i (held u)\<rparr>))" for u
      by (auto split: option.splits intro: evolves_calls evolves_outcome evolves_held evolves_wait_msg simp: reports_def)
    then show ?thesis unfolding t' go_msg_def Let_def by (rule start)
  next
    case (CGoAsyncMsg i)
    then have t': "t' = go_asynchronously_msg i t" using assms(1) by (auto split: if_splits)
    have "evolves u (case heap u i of None \<Rightarrow> u\<lparr>fault := True\<rparr> | Some ob \<Rightarrow>
        if msg_type (obj_msg ob) \<noteq> TASK_INIT then add_outcome i (Threw PROGRAMMING_ERROR) u
        else post_msg i None (u\<lparr>held := remove1 i (held u)\<rparr>))" for u
      by (auto split: option.splits intro: evolves_calls evolves_outcome evolves_held evolves_post simp: reports_def)
    then show ?thesis unfolding t' go_asynchronously_msg_def Let_def by (rule start)
  next
    case (CEnablePeriodic b)
    have "evolves t (t\<lparr>qs := s\<rparr>)" for s by (rule evolves_calls) simp_all
    then show ?thesis using CEnablePeriodic assms(1) evolves_trans [OF _ pt]
      by (auto simp: set_enable_periodic_msg_def Let_def)
  next
    case (CEnablePrecise b)
    have "evolves t (t\<lparr>precise_periodic_timing_enabled := b\<rparr>)" by (rule evolves_calls) simp_all
    then show ?thesis using CEnablePrecise assms(1) evolves_trans [OF _ pt]
      by (auto simp: enable_precise_periodic_timing_def Let_def)
  next
    case (CWaitReturns i tmo n w)
    then show ?thesis using assms wait_returns_evolves by auto
  next
    case (CDuplicate i)
    have "evolves t ((obj_duplicate i t)\<lparr>held := i # held t\<rparr>)"
      by (rule evolves_cong [OF evolves_duplicate]) simp_all
    then show ?thesis using CDuplicate assms(1) by (auto split: if_splits)
  qed (use assms in \<open>auto simp: Let_def go_def go_asynchronously_def exit_task_def set_enable_timeout_msg_def task_clear_def
      task_clear_type_def new_sized_evolves evolves_refl split: if_splits
      intro: evolves_held evolves_release evolves_post evolves_wait_msg post_returns_evolves evolves_start evolves_adopt
        evolves_new_wait evolves_new_post start evolves_calls\<close>)
qed

definition reports_inv :: "task \<Rightarrow> bool" where
  "reports_inv t \<longleftrightarrow> waits_ok t
     \<and> (\<forall>i ob. heap t i = Some ob \<longrightarrow>
          (\<forall>e. obj_error ob = Some e \<longrightarrow> (obj_msg ob, Some e) \<in> set (handled t))
          \<and> (is_processed ob \<and> obj_error ob = None \<longrightarrow> (obj_msg ob, None) \<in> set (handled t)))
     \<and> (\<forall>m. run_st t = Marking m \<longrightarrow>
          (m, None) \<in> set (handled t) \<or> (\<exists>ob. heap t (msg_id m) = Some ob \<and> obj_error ob \<noteq> None))
     \<and> (\<forall>i r. (i, r) \<in> set (outcomes t) \<longrightarrow> reports r \<longrightarrow>
          (\<exists>m err. msg_id m = i \<and> (m, err) \<in> set (handled t) \<and> r = (case err of None \<Rightarrow> Handled_ok | Some e \<Rightarrow> Threw e)))"

lemma Waiting_call_refs: "Waiting i tmo n \<in> set cs \<Longrightarrow> i \<in># call_refs cs"
  by (induction cs) auto

lemma mem_inv_bounded: "mem_inv t \<Longrightarrow> bounded t"
  by (simp add: mem_inv_def refs_ok_def bounded_def)

lemma mem_inv_waiting:
  assumes "mem_inv t" "Waiting i tmo n \<in> set (calls t)"
  obtains ob where "heap t i = Some ob" "i < next_id t"
proof -
  have "i \<in># refs t" using Waiting_call_refs [OF assms(2)] by (simp add: refs_def)
  then obtain ob where "heap t i = Some ob" using assms(1) by (auto simp: mem_inv_def elim: refs_ok_obj)
  moreover then have "i < next_id t" using mem_inv_bounded [OF assms(1)] by (metis bounded_def not_le option.distinct(1))
  ultimately show ?thesis using that by blast
qed

lemma evolves_reports:
  assumes "evolves t t'" "mem_inv t" "mem_inv t'" "reports_inv t"
    and "\<And>m. run_st t' = Marking m \<Longrightarrow> run_st t = Marking m"
  shows "reports_inv t'"
proof -
  note ev = assms(1) [unfolded evolves_def, rule_format, OF mem_inv_bounded [OF assms(2)]]
  note r = assms(4) [unfolded reports_inv_def waits_ok_def]
  have h: "handled t' = handled t" using ev by simp
  have old: "\<exists>ob. heap t i = Some ob \<and> same_state ob ob'" if "heap t' i = Some ob'" "heap t i \<noteq> None" for i ob'
  proof -
    have "i < next_id t" using that(2) mem_inv_bounded [OF assms(2)] by (metis bounded_def not_le)
    then show ?thesis using ev that(1) by (meson not_le)
  qed
  have "\<exists>ob. heap t' i = Some ob \<and> is_processed ob" if w: "Waiting i tmo True \<in> set (calls t')" for i tmo
  proof -
    from mem_inv_waiting [OF assms(3) w] obtain ob' where ob': "heap t' i = Some ob'" by blast
    then have "Waiting i tmo True \<in> set (calls t)" using ev w by (metis option.distinct(1))
    then obtain ob where "heap t i = Some ob" "is_processed ob" using r by blast
    with old [OF ob'] ob' show ?thesis by (auto simp: same_state_def)
  qed
  moreover have "(\<forall>e. obj_error ob' = Some e \<longrightarrow> (obj_msg ob', Some e) \<in> set (handled t'))
      \<and> (is_processed ob' \<and> obj_error ob' = None \<longrightarrow> (obj_msg ob', None) \<in> set (handled t'))"
    if ob': "heap t' i = Some ob'" for i ob'
  proof -
    from ev ob' consider ob where "heap t i = Some ob" "same_state ob ob'" | "unprocessed ob'" by blast
    then show ?thesis
    proof cases
      case 1
      have "(\<forall>e. obj_error ob = Some e \<longrightarrow> (obj_msg ob, Some e) \<in> set (handled t))
          \<and> (is_processed ob \<and> obj_error ob = None \<longrightarrow> (obj_msg ob, None) \<in> set (handled t))" using r 1(1) by blast
      then show ?thesis using 1(2) by (simp add: h same_state_def)
    qed (simp add: unprocessed_def)
  qed
  moreover have "(m, None) \<in> set (handled t') \<or> (\<exists>ob. heap t' (msg_id m) = Some ob \<and> obj_error ob \<noteq> None)"
    if m: "run_st t' = Marking m" for m
  proof (cases "(m, None) \<in> set (handled t)")
    case False
    then obtain ob where ob: "heap t (msg_id m) = Some ob" "obj_error ob \<noteq> None" using r assms(5) [OF m] by blast
    have "msg_id m \<in># refs t'" using m by (simp add: refs_def msgs_def)
    then obtain ob' where ob': "heap t' (msg_id m) = Some ob'" using assms(3) by (auto simp: mem_inv_def elim: refs_ok_obj)
    then show ?thesis using old [OF ob'] ob by (auto simp: same_state_def)
  qed (simp add: h)
  moreover have "\<exists>m err. msg_id m = i \<and> (m, err) \<in> set (handled t') \<and> r = (case err of None \<Rightarrow> Handled_ok | Some e \<Rightarrow> Threw e)"
    if o: "(i, r) \<in> set (outcomes t')" "reports r" for i r
  proof -
    from ev o consider "(i, r) \<in> set (outcomes t)" | ob where "heap t i = Some ob" "is_processed ob" "r = result_of ob" by blast
    then show ?thesis
    proof cases
      case 1
      then show ?thesis using r o(2) h by metis
    next
      case 2
      have "(obj_msg ob, obj_error ob) \<in> set (handled t)" using r 2(1,2) by (cases "obj_error ob") auto
      moreover have "msg_id (obj_msg ob) = i" using assms(2) 2(1) by (auto simp: mem_inv_def refs_ok_def obj_ok_def dest: spec [of _ i])
      ultimately show ?thesis using 2(3) h by (intro exI [of _ "obj_msg ob"] exI [of _ "obj_error ob"]) (simp add: result_of_def)
    qed
  qed
  ultimately show ?thesis unfolding reports_inv_def waits_ok_def by blast
qed
lemma evolves_begin: "evolves t (begin_handling m t)"
  by (rule evolves_calls) (simp_all add: begin_handling_def)

lemma evolves_run_loop: "evolves t (run_loop ph r t)"
proof -
  have b: "evolves t (begin_handling m (t\<lparr>received_init_msg := b, run_tmo := x\<rparr>))" for m b x
    by (rule evolves_trans [OF evolves_calls evolves_begin]) simp_all
  have n: "evolves t (obj_release (next_id t) (new_message ty p w t))" for ty p w
    by (rule evolves_trans [OF evolves_new_message evolves_release])
  have f: "evolves t (begin_handling m (new_message ty p w t))" for m ty p w
    by (rule evolves_trans [OF evolves_new_message evolves_begin])
  show ?thesis
    by (cases ph; cases r)
      (auto simp: init_loop_def main_loop_def intro: b f evolves_begin evolves_calls evolves_cong [OF n] evolves_cong [OF evolves_release])
qed

lemma handler_returns_reports:
  assumes "mem_inv t" "reports_inv t" "run_st t = Handling m"
  shows "reports_inv (handler_returns m err t)"
proof -
  have "known (heap t) m" using assms(1,3) by (auto simp: mem_inv_def refs_ok_def msgs_def)
  then obtain ob where ob: "heap t (msg_id m) = Some ob" "obj_msg ob = m" by (auto simp: known_def)
  define ob' where "ob' = (case err of None \<Rightarrow> ob | Some e \<Rightarrow> ob\<lparr>obj_error := Some e\<rparr>)"
  let ?t = "handler_returns m err t"
  have h: "heap ?t = (heap t)(msg_id m \<mapsto> ob')" "calls ?t = calls t" "outcomes ?t = outcomes t"
    "handled ?t = handled t @ [(m, err)]" "run_st ?t = Marking m"
    using ob by (auto simp: handler_returns_def ob'_def obj_set_error_def split: option.splits)
  have o: "obj_msg ob' = m" "is_processed ob' = is_processed ob" "err = None \<Longrightarrow> ob' = ob" "err = Some e \<Longrightarrow> obj_error ob' = Some e" for e
    using ob by (simp_all add: ob'_def split: option.splits)
  note r = assms(2) [unfolded reports_inv_def waits_ok_def]
  have "\<exists>ob. heap ?t i = Some ob \<and> is_processed ob" if "Waiting i tmo True \<in> set (calls ?t)" for i tmo
    using r that ob o(2) unfolding h by (cases "i = msg_id m") auto
  moreover have "(\<forall>e. obj_error ob1 = Some e \<longrightarrow> (obj_msg ob1, Some e) \<in> set (handled ?t))
      \<and> (is_processed ob1 \<and> obj_error ob1 = None \<longrightarrow> (obj_msg ob1, None) \<in> set (handled ?t))"
    if ob1: "heap ?t i = Some ob1" for i ob1
  proof (cases "i = msg_id m")
    case True
    then have "ob1 = ob'" using ob1 h(1) by simp
    then show ?thesis using o r ob unfolding h by (cases err) auto
  next
    case False
    then have "heap t i = Some ob1" using ob1 h(1) by simp
    then show ?thesis using r unfolding h(4) by auto
  qed
  moreover have "(m, None) \<in> set (handled ?t) \<or> (\<exists>ob. heap ?t (msg_id m) = Some ob \<and> obj_error ob \<noteq> None)"
    using o(4) unfolding h by (cases err) auto
  moreover have "\<exists>m' err'. msg_id m' = i \<and> (m', err') \<in> set (handled ?t) \<and> x = (case err' of None \<Rightarrow> Handled_ok | Some e \<Rightarrow> Threw e)"
    if "(i, x) \<in> set (outcomes ?t)" "reports x" for i x
    using r that unfolding h by (metis Un_iff set_append)
  ultimately show ?thesis unfolding reports_inv_def waits_ok_def h(5) by blast
qed

lemma mark_processed_reports:
  assumes "mem_inv t" "reports_inv t" "run_st t = Marking m"
  shows "reports_inv (mark_processed m t)"
proof -
  have "known (heap t) m" using assms(1,3) by (auto simp: mem_inv_def refs_ok_def msgs_def)
  then obtain ob where ob: "heap t (msg_id m) = Some ob" "obj_msg ob = m" by (auto simp: known_def)
  let ?t = "mark_processed m t"
  have h: "heap ?t = (heap t)(msg_id m \<mapsto> ob\<lparr>is_processed := True\<rparr>)" "outcomes ?t = outcomes t"
    "handled ?t = handled t" "run_st ?t = Releasing m" "set (calls ?t) \<subseteq> set (calls t) \<union> set (notify (msg_id m) (calls t))"
    using ob by (auto simp: mark_processed_def obj_processed_def)
  note r = assms(2) [unfolded reports_inv_def waits_ok_def]
  have "\<exists>ob. heap ?t i = Some ob \<and> is_processed ob" if w: "Waiting i tmo True \<in> set (calls ?t)" for i tmo
  proof (cases "i = msg_id m")
    case False
    then have "Waiting i tmo True \<in> set (calls t)" using w h(5) by (auto simp: Waiting_notify)
    then have "\<exists>ob. heap t i = Some ob \<and> is_processed ob" using r by blast
    then show ?thesis using False by (simp add: h(1))
  qed (simp add: h(1))
  moreover have "(\<forall>e. obj_error ob1 = Some e \<longrightarrow> (obj_msg ob1, Some e) \<in> set (handled ?t))
      \<and> (is_processed ob1 \<and> obj_error ob1 = None \<longrightarrow> (obj_msg ob1, None) \<in> set (handled ?t))"
    if ob1: "heap ?t i = Some ob1" for i ob1
  proof (cases "i = msg_id m")
    case True
    then have e: "ob1 = ob\<lparr>is_processed := True\<rparr>" using ob1 h(1) by simp
    have "(m, None) \<in> set (handled t) \<or> obj_error ob \<noteq> None" using r assms(3) ob by auto
    moreover have "\<forall>e. obj_error ob = Some e \<longrightarrow> (m, Some e) \<in> set (handled t)" using r ob by auto
    ultimately show ?thesis unfolding e h(3) using ob by auto
  next
    case False
    then have "heap t i = Some ob1" using ob1 h(1) by simp
    then show ?thesis using r unfolding h(3) by auto
  qed
  moreover have "\<exists>m' err'. msg_id m' = i \<and> (m', err') \<in> set (handled ?t) \<and> x = (case err' of None \<Rightarrow> Handled_ok | Some e \<Rightarrow> Threw e)"
    if "(i, x) \<in> set (outcomes ?t)" "reports x" for i x
    using r that unfolding h by blast
  ultimately show ?thesis unfolding reports_inv_def waits_ok_def by (auto simp: h(4))
qed

lemma tstep_reports:
  assumes "tstep e t = Some t'" "quiet e" "mem_inv t" "reports_inv t" shows "reports_inv t'"
proof (cases "client_event e")
  case True
  have "evolves t t'" by (rule client_evolves [OF assms(1) True assms(2)]) (use assms(4) in \<open>simp add: reports_inv_def\<close>)
  moreover have "run_st t = Marking m" if "run_st t' = Marking m" for m
    using client_event_ok [OF assms(1) True] assms(3) that
    by (auto simp: mem_inv_def frame_def start_undetached_def split: if_splits)
  ultimately show ?thesis using evolves_reports tstep_mem_inv [OF assms(1,3)] assms(3,4) by blast
next
  case False
  have ev: "evolves t (run_loop ph r (t\<lparr>qs := s\<rparr>))" for ph r s
    by (rule evolves_trans [OF evolves_calls evolves_run_loop]) simp_all
  have nm: "run_st (run_loop ph r (t\<lparr>qs := s\<rparr>)) \<noteq> Marking m" if "next_step t r s" "run_msgs (run_st t) = []" for ph r s m
    using that run_loop_run_st(1) [of r "t\<lparr>qs := s\<rparr>" ph]
    by (auto simp: next_step_def after_run_loop_def split: next_result.splits phase.splits if_splits)
  show ?thesis
  proof (cases e)
    case (RNext ex)
    then obtain ph where ph: "run_st t = Calling ph" using assms(1) by (auto simp: run_next_def split: run_state.splits)
    have t': "t' = run_loop ph (fst (next_call ex t)) (t\<lparr>qs := after_next (next_call ex t) (qs t)\<rparr>)"
      using RNext assms(1) ph by (simp add: run_next_def Let_def)
    have "\<And>m. run_st t' \<noteq> Marking m" using nm [OF next_call_step [OF assms(3) ph refl]] ph by (simp add: t')
    then show ?thesis using evolves_reports [OF _ assms(3) tstep_mem_inv [OF assms(1,3)] assms(4)] ev t' by blast
  next
    case (RNextReturns sg ex)
    then obtain ph where ph: "run_st t = Blocked ph" using assms(1) by (auto simp: run_next_returns_def split: run_state.splits)
    have t': "t' = run_loop ph (fst (next_wakes sg ex t)) (t\<lparr>qs := after_next (next_wakes sg ex t) ((qs t)\<lparr>consumers := []\<rparr>)\<rparr>)"
      using RNextReturns assms(1) ph by (auto simp: run_next_returns_def Let_def split: if_splits)
    have "\<And>m. run_st t' \<noteq> Marking m" using nm [OF next_wakes_step [OF assms(3) ph refl]] ph by (simp add: t')
    then show ?thesis using evolves_reports [OF _ assms(3) tstep_mem_inv [OF assms(1,3)] assms(4)] ev t' by blast
  next
    case (RHandler err)
    then show ?thesis using assms handler_returns_reports by (auto split: run_state.splits)
  next
    case RProcessed
    then show ?thesis using assms mark_processed_reports by (auto split: run_state.splits)
  next
    case RRelease
    then obtain m where m: "run_st t = Releasing m" "t' = release_handled m t" using assms(1) by (auto split: run_state.splits)
    have "evolves t t'" unfolding m(2) release_handled_def Let_def
      by (auto intro: evolves_cong [OF evolves_release])
    moreover have "\<And>m'. run_st t' \<noteq> Marking m'" by (simp add: m(2) release_handled_def Let_def)
    ultimately show ?thesis using evolves_reports [OF _ assms(3) tstep_mem_inv [OF assms(1,3)] assms(4)] by blast
  qed (use False in simp_all)
qed

lemma trun_reachable: "trun es t = Some t' \<Longrightarrow> reachable t0 t \<Longrightarrow> reachable t0 t'"
proof (induction es arbitrary: t)
  case (Cons e es)
  then obtain t1 where "tstep e t = Some t1" "trun es t1 = Some t'" by (auto split: option.splits)
  then show ?case using Cons reachable_step [OF Cons.prems(2) task_stepI] by blast
qed simp

lemma trun_reports:
  "trun es t = Some t' \<Longrightarrow> list_all quiet es \<Longrightarrow> mem_inv t \<Longrightarrow> reports_inv t \<Longrightarrow> mem_inv t' \<and> reports_inv t'"
proof (induction es arbitrary: t)
  case (Cons e es)
  then obtain t1 where "tstep e t = Some t1" "trun es t1 = Some t'" by (auto split: option.splits)
  then show ?case using Cons tstep_mem_inv tstep_reports by auto
qed simp

lemma Task_ctor_reports: "reports_inv (Task_ctor sz cfg)"
  by (simp add: reports_inv_def waits_ok_def Task_ctor_def)

lemma trun_append: "trun (es @ fs) t = (case trun es t of None \<Rightarrow> None | Some t \<Rightarrow> trun fs t)"
  by (induction es arbitrary: t) (auto split: option.splits)

section \<open>A message that nobody handles\<close>

text \<open>Operations that do not touch the object \<open>i\<close> and the call that waits for it for ever.\<close>

definition keeps :: "nat \<Rightarrow> task \<Rightarrow> task \<Rightarrow> bool" where
  "keeps i t t' \<longleftrightarrow> heap t' i = heap t i \<and> next_id t \<le> next_id t'
     \<and> (Waiting i 0 False \<in> set (calls t) \<longrightarrow> Waiting i 0 False \<in> set (calls t'))"

lemma keeps_trans: "keeps i t t1 \<Longrightarrow> keeps i t1 t2 \<Longrightarrow> keeps i t t2"
  by (auto simp: keeps_def)

lemma keeps_same:
  "heap t' i = heap t i \<Longrightarrow> next_id t' = next_id t \<Longrightarrow> set (calls t) \<subseteq> set (calls t') \<Longrightarrow> keeps i t t'"
  by (auto simp: keeps_def)

lemma Waiting_notify_other: "j \<noteq> i \<Longrightarrow> Waiting i tmo n \<in> set (notify j cs) \<longleftrightarrow> Waiting i tmo n \<in> set cs"
  by (induction cs) (auto simp: notify_def split: call.splits)

lemma keeps_release: "j \<noteq> i \<Longrightarrow> keeps i t (obj_release j t)"
  by (auto simp: keeps_def obj_release_def Waiting_notify_other split: option.splits)

lemma keeps_processed: "j \<noteq> i \<Longrightarrow> keeps i t (obj_processed j t)"
  by (auto simp: keeps_def obj_processed_def Waiting_notify_other split: option.splits)

lemma keeps_duplicate: "j \<noteq> i \<Longrightarrow> keeps i t (obj_duplicate j t)"
  by (auto simp: keeps_def obj_duplicate_def split: option.splits)

lemma keeps_set_error: "j \<noteq> i \<Longrightarrow> keeps i t (obj_set_error j e t)"
  by (auto simp: keeps_def obj_set_error_def split: option.splits)

lemma keeps_new: "i < next_id t \<Longrightarrow> keeps i t (new_message ty p w t)"
  by (auto simp: keeps_def new_message_def)

lemma keeps_outcome: "keeps i t (add_outcome j r t)"
  by (simp add: keeps_def add_outcome_def)

lemma keeps_fold: "\<forall>m \<in> set ms. msg_id m \<noteq> i \<Longrightarrow> keeps i t (fold (\<lambda>m. obj_release (msg_id m)) ms t)"
proof (induction ms arbitrary: t)
  case (Cons m ms)
  have "keeps i t (fold (\<lambda>m. obj_release (msg_id m)) ms (obj_release (msg_id m) t))"
    using Cons by (intro keeps_trans [OF keeps_release Cons.IH]) auto
  then show ?case by simp
qed (simp add: keeps_def)

lemma keeps_finish: "j \<noteq> i \<Longrightarrow> keeps i t (finish_wait j ok t)"
  by (auto simp: finish_wait_def keeps_def add_outcome_def split: option.splits) (use keeps_release [of j i t] in \<open>simp_all add: keeps_def\<close>)

lemma keeps_after_posting: "j \<noteq> i \<Longrightarrow> keeps i t (after_posting j k r t)"
  using keeps_finish [of j i t True] keeps_release [of j i t]
  by (auto simp: after_posting_def wait_processed_def keeps_def add_outcome_def split: post_result.splits option.splits)

text \<open>\<open>i\<close> is not among the messages of the queue.\<close>

definition absent :: "nat \<Rightarrow> sys \<Rightarrow> bool" where
  "absent i s \<longleftrightarrow> (\<forall>m \<in> set (pending s). msg_id m \<noteq> i)"

lemma keeps_adopt:
  assumes "kept_inv (qs t)" "step (qs t) e s" "mset (offered s) = mset (offered (qs t)) + mset ms" "delivered s = delivered (qs t) @ out"
    and "absent i (qs t)" "\<forall>m \<in> set ms. msg_id m \<noteq> i"
  shows "keeps i t (adopt s t)" "absent i s"
proof -
  define new where "new = take (length (released (queue s)) - length (released (queue (qs t)))) (released (queue s))"
  have rel: "released (queue s) = new @ released (queue (qs t))" unfolding new_def by (rule released_split [OF assms(2)])
  have p: "mset (pending s) + mset new + mset out = mset (pending (qs t)) + mset ms"
    using step_kept [OF assms(2,1)] assms(1,3,4) by (simp add: kept_pending rel ac_simps)
  have "set (pending s) \<union> set new \<subseteq> set (pending (qs t)) \<union> set ms"
    using arg_cong [OF p, of set_mset] by auto
  then have n: "\<forall>m \<in> set new. msg_id m \<noteq> i" "absent i s" using assms(5,6) by (auto simp: absent_def)
  have "keeps i (t\<lparr>qs := s\<rparr>) (adopt s t)" unfolding adopt_def Let_def new_def [symmetric] by (rule keeps_fold [OF n(1)])
  then show "keeps i t (adopt s t)" by (simp add: keeps_def)
  show "absent i s" by (rule n(2))
qed

lemma keeps_post:
  assumes "kept_inv (qs t)" "absent i (qs t)" "j \<noteq> i" "\<And>ob. heap t j = Some ob \<Longrightarrow> msg_id (obj_msg ob) = j"
  shows "keeps i t (post_msg j k t)"
proof (cases "heap t j")
  case None
  then show ?thesis by (simp add: post_msg_def keeps_same)
next
  case (Some ob)
  define m where "m = obj_msg ob"
  define r where "r = post_enter (Some m) (queue (qs t))"
  define s where "s = after_post m r ((qs t)\<lparr>offered := m # offered (qs t)\<rparr>)"
  have st: "step (qs t) (Post m) s" unfolding s_def r_def by (rule step_post)
  have "keeps i t (adopt s t)"
    by (rule keeps_adopt(1) [OF assms(1) st, where ms = "[m]" and out = "[]"]) (use assms Some in \<open>auto simp: s_def m_def\<close>)
  then have "keeps i t (after_posting j k (fst r) (adopt s t))" using keeps_after_posting [OF assms(3)] by (rule keeps_trans)
  then show ?thesis by (simp add: post_msg_def Some Let_def m_def r_def s_def)
qed

lemma keeps_wait_msg:
  assumes "kept_inv (qs t)" "absent i (qs t)" "j \<noteq> i" "\<And>ob. heap t j = Some ob \<Longrightarrow> msg_id (obj_msg ob) = j"
  shows "keeps i t (wait_msg_handled j tmo t)"
proof (cases "heap t j")
  case None
  then show ?thesis by (simp add: wait_msg_handled_def keeps_same)
next
  case (Some ob)
  have "keeps i (obj_duplicate j t) (post_msg j (Some tmo) (obj_duplicate j t))"
    by (rule keeps_post) (use assms Some in \<open>auto simp: obj_duplicate_def\<close>)
  then show ?thesis
    using keeps_trans [OF keeps_duplicate] keeps_trans [OF keeps_release keeps_outcome] assms(3) Some
    by (simp add: wait_msg_handled_def)
qed

lemma heap_id: "refs_ok X t \<Longrightarrow> heap t j = Some ob \<Longrightarrow> msg_id (obj_msg ob) = j"
  unfolding refs_ok_def obj_ok_def by (auto dest: spec [of _ j])

text \<open>The only reference to \<open>i\<close> is that of a call that waits without a time-out, and nothing has happened to it.\<close>

definition abandoned :: "nat \<Rightarrow> task \<Rightarrow> bool" where
  "abandoned i t \<longleftrightarrow> Waiting i 0 False \<in> set (calls t) \<and> (\<exists>ob. heap t i = Some ob \<and> reference_count ob = 1)"

lemma count_call_refs: "count (call_refs (remove1 c cs)) i = count (call_refs cs) i - (if c \<in> set cs then count (mset (call_ids c)) i else 0)"
  by (cases "c \<in> set cs") (simp_all add: call_refs_remove remove1_idem)

lemma abandoned_facts:
  assumes "mem_inv t" "abandoned i t"
  shows "absent i (qs t)" "i \<notin> set (held t)" "\<forall>m \<in> set (run_msgs (run_st t)). msg_id m \<noteq> i" "i < next_id t"
    and "\<And>c. c \<in> set (calls t) \<Longrightarrow> c \<noteq> Waiting i 0 False \<Longrightarrow> i \<notin> set (call_ids c)"
proof -
  obtain ob where ob: "heap t i = Some ob" "reference_count ob = 1" using assms(2) by (auto simp: abandoned_def)
  have r: "refs_ok {#} t" using assms(1) by (simp add: mem_inv_def)
  then have "obj_ok i (count (refs t + {#}) i) (heap t i)" unfolding refs_ok_def by blast
  then have c: "count (refs t) i = 1" using ob by (simp add: obj_ok_def)
  have w: "Waiting i 0 False \<in> set (calls t)" using assms(2) by (simp add: abandoned_def)
  have cr: "call_refs (calls t) = {#i#} + call_refs (remove1 (Waiting i 0 False) (calls t))"
    using call_refs_remove [OF w] by simp
  have "count (image_mset msg_id (mset (msgs t))) i + count (mset (held t)) i
      + count (call_refs (remove1 (Waiting i 0 False) (calls t))) i = 0"
    using c unfolding refs_def cr by simp
  then have z: "i \<notin># image_mset msg_id (mset (msgs t))" "i \<notin> set (held t)"
    "i \<notin># call_refs (remove1 (Waiting i 0 False) (calls t))"
    unfolding set_mset_mset [symmetric] not_in_iff by (simp_all only: add_is_0)
  show "absent i (qs t)" "\<forall>m \<in> set (run_msgs (run_st t)). msg_id m \<noteq> i" using z(1) by (auto simp: absent_def msgs_def)
  show "i \<notin> set (held t)" by (rule z(2))
  show "i < next_id t" using mem_inv_bounded [OF assms(1)] ob(1) by (metis bounded_def not_le option.distinct(1))
  show "i \<notin> set (call_ids c)" if "c \<in> set (calls t)" "c \<noteq> Waiting i 0 False" for c
  proof -
    have "c \<in> set (remove1 (Waiting i 0 False) (calls t))" using that by simp
    then have "mset (call_ids c) \<subseteq># call_refs (remove1 (Waiting i 0 False) (calls t))"
      using call_refs_remove by (metis mset_subset_eq_add_left)
    then show ?thesis using z(3) by (meson in_multiset_in_set mset_subset_eqD)
  qed
qed

lemma run_loop_keeps:
  assumes "\<forall>m \<in> set (messages_of r). msg_id m \<noteq> i" "i < next_id t"
  shows "keeps i t (run_loop ph r t)"
proof -
  have b: "keeps i u (begin_handling m u)" for m u by (simp add: keeps_def begin_handling_def)
  have n: "keeps i t (obj_release (next_id t) (new_message ty p w t))" for ty p w
    using assms(2) by (intro keeps_trans [OF keeps_new keeps_release]) auto
  have f: "keeps i t (begin_handling m (new_message ty p w t))" for m ty p w
    using assms(2) by (intro keeps_trans [OF keeps_new b])
  have g: "keeps i t (begin_handling m (t\<lparr>received_init_msg := c, run_tmo := x\<rparr>))" for m c x
    by (rule keeps_trans [OF _ b]) (simp add: keeps_def)
  have c: "keeps i t (u\<lparr>run_st := x\<rparr>)" "keeps i t (u\<lparr>run_st := x, run_tmo := y\<rparr>)" if "keeps i t u" for u x y
    using that by (simp_all add: keeps_def)
  have id: "keeps i t t" by (simp add: keeps_def)
  show ?thesis
    by (cases ph; cases r)
      (use assms(1) in \<open>auto simp: init_loop_def main_loop_def messages_of_def intro: b f g c n id keeps_release\<close>)
qed

lemma tstep_abandoned:
  assumes e: "tstep e t = Some t'" and q: "quiet e" and inv: "mem_inv t" and ab: "abandoned i t"
  shows "keeps i t t'"
proof -
  note fa = abandoned_facts [OF inv ab]
  have r: "refs_ok {#} t" "kept_inv (qs t)" using inv by (simp_all add: mem_inv_def)
  have id: "keeps i u u" for u by (simp add: keeps_def)
  have hd: "keeps i t u" if "keeps i (t\<lparr>held := l\<rparr>) u" for u l using that by (simp add: keeps_def)
  have new: "keeps i u (post_msg (next_id u) None (new_message ty p w u))"
      "keeps i u (wait_msg_handled (next_id u) tmo (new_message ty p w u))"
    if "kept_inv (qs u)" "absent i (qs u)" "i < next_id u" for u ty p w tmo
  proof -
    have k: "keeps i u (new_message ty p w u)" using that by (rule_tac keeps_new)
    show "keeps i u (post_msg (next_id u) None (new_message ty p w u))"
      by (rule keeps_trans [OF k keeps_post]) (use that in \<open>auto simp: new_message_def\<close>)
    show "keeps i u (wait_msg_handled (next_id u) tmo (new_message ty p w u))"
      by (rule keeps_trans [OF k keeps_wait_msg]) (use that in \<open>auto simp: new_message_def\<close>)
  qed
  have pw: "keeps i u (post_msg j None (u\<lparr>held := l\<rparr>))" "keeps i u (wait_msg_handled j tmo (u\<lparr>held := l\<rparr>))"
    if "kept_inv (qs u)" "absent i (qs u)" "j \<noteq> i" "refs_ok {#} u" for u j l tmo
  proof -
    have k: "keeps i u (u\<lparr>held := l\<rparr>)" by (simp add: keeps_def)
    show "keeps i u (post_msg j None (u\<lparr>held := l\<rparr>))"
      by (rule keeps_trans [OF k keeps_post]) (use that heap_id [OF that(4)] in auto)
    show "keeps i u (wait_msg_handled j tmo (u\<lparr>held := l\<rparr>))"
      by (rule keeps_trans [OF k keeps_wait_msg]) (use that heap_id [OF that(4)] in auto)
  qed
  note start = start_undetached_ok
  have ks: "keeps i t (start_undetached t)" by (simp add: keeps_def start_undetached_def)
  have ne: "j \<noteq> i" if "j \<in> set (held t)" for j using that fa(2) by auto
  have pt: "keeps i t (post_type ty u)" if "keeps i t u" "kept_inv (qs u)" "absent i (qs u)" "next_id u = next_id t" for u ty
    unfolding post_type_def using that fa(4) by (intro keeps_trans [OF that(1) new(1)]) simp_all
  have flags: "absent i (set_flags b c (qs t))" "kept_inv (set_flags b c (qs t))" for b c
    using fa(1) r(2) by (simp_all add: absent_def)
  show ?thesis
  proof (cases e)
    case (CNew ty p w s)
    then show ?thesis using e fa(4) by (auto simp: keeps_def new_message_def set_size_in_bytes_def Let_def)
  next
    case (CDuplicate j)
    then show ?thesis using e ne keeps_duplicate [of j i t] by (auto simp: keeps_def split: if_splits)
  next
    case (CRelease j)
    then show ?thesis using e ne by (auto intro: hd keeps_release split: if_splits)
  next
    case (CPost j)
    then show ?thesis using e ne pw(1) [OF r(2) fa(1) _ r(1)] by (auto split: if_splits)
  next
    case (CWait j tmo)
    then show ?thesis using e ne pw(2) [OF r(2) fa(1) _ r(1)] by (auto split: if_splits)
  next
    case (CPostReturns j k sg)
    obtain ps m ps' where sp: "split_producer j (producers (qs t)) = Some (ps, m, ps')" and c: "Posting j k \<in> set (calls t)"
      using e CPostReturns by (auto simp: post_returns_def split: option.splits if_splits)
    define x where "x = post_resume sg m (queue (qs t))"
    define s where "s = after_post m x ((qs t)\<lparr>producers := ps @ ps'\<rparr>)"
    define u where "u = t\<lparr>calls := remove1 (Posting j k) (calls t)\<rparr>"
    obtain n where n: "producers (qs t) = ps @ (m, n) # ps'" "msg_id m = j" using split_producer_Some [OF sp] by blast
    have st: "step (qs u) (PostReturns m sg) s" unfolding s_def x_def u_def using step_post_returns [OF n(1)] by simp
    have t': "t' = after_posting j k (fst x) (adopt s u)"
      using e sp c CPostReturns by (simp add: post_returns_def Let_def x_def s_def u_def)
    have "m \<in> set (pending (qs t))" using n(1) by (simp add: pending_def)
    then have j: "j \<noteq> i" using fa(1) n(2) by (auto simp: absent_def)
    have "keeps i u (adopt s u)"
      by (rule keeps_adopt(1) [OF _ st, where ms = "[]" and out = "[]"]) (use fa r in \<open>auto simp: s_def u_def\<close>)
    then have "keeps i u t'" unfolding t' using keeps_after_posting [OF j] by (rule keeps_trans)
    then show ?thesis by (auto simp: keeps_def u_def)
  next
    case (CWaitReturns j tmo n w)
    define u where "u = t\<lparr>calls := remove1 (Waiting j tmo n) (calls t)\<rparr>"
    have x: "Waiting j tmo n \<in> set (calls t)" "w = Signalled \<Longrightarrow> n" "w = Timed_out \<Longrightarrow> tmo \<noteq> 0" "t' = finish_wait j (w \<noteq> Timed_out) u"
      using e CWaitReturns by (auto simp: wait_returns_def u_def split: if_splits)
    have "Waiting j tmo n \<noteq> Waiting i 0 False" using x(2,3) q CWaitReturns by (cases w) auto
    then have j: "j \<noteq> i" "keeps i t u" using fa(5) [OF x(1)] by (auto simp: keeps_def u_def)
    show ?thesis unfolding x(4) by (rule keeps_trans [OF j(2) keeps_finish [OF j(1)]])
  next
    case (CGo tmo)
    then show ?thesis using e keeps_trans [OF ks new(2)] fa r by (auto simp: go_def Let_def start)
  next
    case (CGoMsg j tmo)
    then have j: "j \<noteq> i" "t' = go_msg j tmo t" using e ne by (auto split: if_splits)
    have u: "kept_inv (qs (start_undetached t))" "absent i (qs (start_undetached t))" "refs_ok {#} (start_undetached t)"
      using fa r by (simp_all add: start)
    have "keeps i (start_undetached t) t'" unfolding j(2) go_msg_def Let_def
      using pw(2) [OF u(1,2) j(1) u(3)] by (auto simp: keeps_same keeps_outcome split: option.splits)
    then show ?thesis by (rule keeps_trans [OF ks])
  next
    case CGoAsync
    then show ?thesis using e keeps_trans [OF ks new(1)] fa r by (auto simp: go_asynchronously_def Let_def start)
  next
    case (CGoAsyncMsg j)
    then have j: "j \<noteq> i" "t' = go_asynchronously_msg j t" using e ne by (auto split: if_splits)
    have u: "kept_inv (qs (start_undetached t))" "absent i (qs (start_undetached t))" "refs_ok {#} (start_undetached t)"
      using fa r by (simp_all add: start)
    have "keeps i (start_undetached t) t'" unfolding j(2) go_asynchronously_msg_def Let_def
      using pw(1) [OF u(1,2) j(1) u(3)] by (auto simp: keeps_same keeps_outcome split: option.splits)
    then show ?thesis by (rule keeps_trans [OF ks])
  next
    case CExit
    then show ?thesis using e new(2) fa r id by (auto simp: exit_task_def)
  next
    case (CEnablePeriodic b)
    define u where "u = t\<lparr>qs := set_flags (enable_timeout_msg (queue (qs t))) b (qs t)\<rparr>"
    have "t\<lparr>qs := (qs t)\<lparr>queue := (queue (qs t))\<lparr>enable_periodic_msg := b\<rparr>\<rparr>\<rparr> = u" by (simp add: u_def set_flags_def)
    then have t': "t' = u \<or> t' = post_type TASK_WAKEUP u"
      using CEnablePeriodic e by (auto simp: set_enable_periodic_msg_def Let_def)
    have "keeps i t u" by (simp add: keeps_def u_def)
    then show ?thesis using t' pt [of u] flags by (auto simp: u_def)
  next
    case (CEnablePrecise b)
    define u where "u = t\<lparr>precise_periodic_timing_enabled := b\<rparr>"
    have t': "t' = u \<or> t' = post_type TASK_WAKEUP u"
      using CEnablePrecise e by (auto simp: enable_precise_periodic_timing_def Let_def u_def)
    have "keeps i t u" by (simp add: keeps_def u_def)
    then show ?thesis using t' pt [of u] fa r by (auto simp: u_def)
  next
    case CClear
    have "keeps i t (task_clear t)" unfolding task_clear_def
      by (rule keeps_adopt(1) [OF r(2) step_clear, where ms = "[]" and out = "[]"]) (use fa in simp_all)
    then show ?thesis using CClear e by simp
  next
    case (CClearType ty)
    have "keeps i t (task_clear_type ty t)" unfolding task_clear_type_def
      by (rule keeps_adopt(1) [OF r(2) step_clear_pending, where ms = "[]" and out = "[]"]) (use fa in simp_all)
    then show ?thesis using CClearType e by simp
  next
    case (RNext ex)
    then obtain ph where ph: "run_st t = Calling ph" using e by (auto simp: run_next_def split: run_state.splits)
    have t': "t' = run_loop ph (fst (next_call ex t)) (t\<lparr>qs := after_next (next_call ex t) (qs t)\<rparr>)"
      using RNext e ph by (simp add: run_next_def Let_def)
    have "msg_q (queue (qs t)) = messages_of (fst (next_call ex t)) @ msg_q (snd (next_call ex t))"
      using next_enter_effect next_ex_effect(1) by (simp add: next_call_def)
    then have "\<forall>m \<in> set (messages_of (fst (next_call ex t))). msg_id m \<noteq> i" using fa(1) by (auto simp: absent_def pending_def)
    then show ?thesis unfolding t' using fa(4) by (intro keeps_trans [OF _ run_loop_keeps]) (auto simp: keeps_def)
  next
    case (RNextReturns sg ex)
    then obtain ph where ph: "run_st t = Blocked ph" using e by (auto simp: run_next_returns_def split: run_state.splits)
    have t': "t' = run_loop ph (fst (next_wakes sg ex t)) (t\<lparr>qs := after_next (next_wakes sg ex t) ((qs t)\<lparr>consumers := []\<rparr>)\<rparr>)"
      using RNextReturns e ph by (auto simp: run_next_returns_def Let_def split: if_splits)
    have "msg_q (queue (qs t)) = messages_of (fst (next_wakes sg ex t)) @ msg_q (snd (next_wakes sg ex t))"
      using next_resume_effect next_ex_effect(2) by (simp add: next_wakes_def)
    then have "\<forall>m \<in> set (messages_of (fst (next_wakes sg ex t))). msg_id m \<noteq> i" using fa(1) by (auto simp: absent_def pending_def)
    then show ?thesis unfolding t' using fa(4) by (intro keeps_trans [OF _ run_loop_keeps]) (auto simp: keeps_def)
  next
    case (RHandler err)
    then obtain m where m: "run_st t = Handling m" "t' = handler_returns m err t" using e by (auto split: run_state.splits)
    then show ?thesis using fa(3) keeps_set_error [of "msg_id m" i t]
      by (auto simp: handler_returns_def keeps_def split: option.splits)
  next
    case RProcessed
    then obtain m where m: "run_st t = Marking m" "t' = mark_processed m t" using e by (auto split: run_state.splits)
    then show ?thesis using fa(3) keeps_processed [of "msg_id m" i t] by (auto simp: mark_processed_def keeps_def)
  next
    case RRelease
    then obtain m where m: "run_st t = Releasing m" "t' = release_handled m t" using e by (auto split: run_state.splits)
    then show ?thesis using fa(3) keeps_release [of "msg_id m" i t] by (auto simp: release_handled_def Let_def keeps_def)
  qed (use e ks id in \<open>auto simp: set_enable_timeout_msg_def keeps_def\<close>)
qed

text \<open>Then nothing ever happens to it.\<close>

lemma trun_abandoned:
  "trun es t = Some t' \<Longrightarrow> list_all quiet es \<Longrightarrow> mem_inv t \<Longrightarrow> abandoned i t \<Longrightarrow> abandoned i t' \<and> heap t' i = heap t i"
proof (induction es arbitrary: t)
  case (Cons e es)
  then obtain t1 where t1: "tstep e t = Some t1" "trun es t1 = Some t'" "quiet e" "list_all quiet es" by (auto split: option.splits)
  have "keeps i t t1" by (rule tstep_abandoned [OF t1(1,3) Cons.prems(3,4)])
  then have "abandoned i t1" "heap t1 i = heap t i" using Cons.prems(4) by (auto simp: keeps_def abandoned_def)
  then show ?case using Cons.IH [OF t1(2,4) tstep_mem_inv [OF t1(1) Cons.prems(3)]] by simp
qed simp

section \<open>The end of a task\<close>

definition exit_at :: "nat \<Rightarrow> message list \<Rightarrow> bool" where
  "exit_at n ms \<longleftrightarrow> (\<exists>pre x post. ms = pre @ x # post \<and> length pre = n \<and> msg_type x = TASK_EXIT \<and> priority x = HIGHEST_MSG_PRIORITY
     \<and> no_exit pre)"

text \<open>
  Clients that do not clear the queue and do not post above the highest priority of the library; \<open>size_t\<close> leaves room above it.
\<close>

definition low :: "nat \<Rightarrow> task \<Rightarrow> bool" where
  "low i t \<longleftrightarrow> (\<forall>ob. heap t i = Some ob \<longrightarrow> priority (obj_msg ob) \<le> HIGHEST_MSG_PRIORITY)"

fun polite :: "task_event \<Rightarrow> task \<Rightarrow> bool" where
  "polite (CPost i) t = low i t"
| "polite (CWait i tmo) t = low i t"
| "polite (CGoMsg i tmo) t = low i t"
| "polite (CGoAsyncMsg i) t = low i t"
| "polite (CPostReturns i k sg) t = low i t"
| "polite CClear t = False"
| "polite (CClearType ty) t = False"
| "polite _ t = True"

fun polite_run :: "task_event list \<Rightarrow> task \<Rightarrow> bool" where
  "polite_run [] t = True"
| "polite_run (e # es) t = (polite e t \<and> (case tstep e t of None \<Rightarrow> True | Some t' \<Rightarrow> polite_run es t'))"

definition grows :: "message_q \<Rightarrow> message_q \<Rightarrow> bool" where
  "grows q q' \<longleftrightarrow> last_returned_msg_periodic q' = last_returned_msg_periodic q
     \<and> (msg_q q' = msg_q q \<or> (\<exists>m. priority m \<le> HIGHEST_MSG_PRIORITY \<and> msg_q q' = insert_by_priority m (msg_q q)))"

lemma insert_behind:
  assumes "by_priority (pre @ x # post)" "priority m \<le> priority x"
  shows "\<exists>post'. insert_by_priority m (pre @ x # post) = pre @ x # post'"
proof -
  have p: "\<forall>y \<in> set (pre @ [x]). \<not> insert_msg_criterion m y"
    using assms by (auto simp: by_priority_def sorted_wrt_append insert_msg_criterion_def)
  then have "takeWhile (\<lambda>y. \<not> insert_msg_criterion m y) ((pre @ [x]) @ post) = pre @ x # takeWhile (\<lambda>y. \<not> insert_msg_criterion m y) post"
    by (subst takeWhile_append2) auto
  moreover have "dropWhile (\<lambda>y. \<not> insert_msg_criterion m y) ((pre @ [x]) @ post) = dropWhile (\<lambda>y. \<not> insert_msg_criterion m y) post"
    using p by (subst dropWhile_append2) auto
  ultimately show ?thesis unfolding insert_by_priority_def by simp
qed

lemma grows_exit_at:
  assumes "grows q q'" "by_priority (msg_q q)" "exit_at n (msg_q q)" shows "exit_at n (msg_q q')"
proof -
  obtain pre x post where x: "msg_q q = pre @ x # post" "length pre = n" "msg_type x = TASK_EXIT" "priority x = HIGHEST_MSG_PRIORITY" "no_exit pre"
    using assms(3) by (auto simp: exit_at_def)
  have "\<exists>post'. msg_q q' = pre @ x # post'"
    using assms(1,2) insert_behind [of pre x post] x by (auto simp: grows_def)
  then show ?thesis using x unfolding exit_at_def by blast
qed

lemma last_periodic_fields [simp]:
  "last_returned_msg_periodic (insert_i m q) = last_returned_msg_periodic q"
  "last_returned_msg_periodic (snd (post_insert m q)) = last_returned_msg_periodic q"
  "last_returned_msg_periodic (release m q) = last_returned_msg_periodic q"
  "last_returned_msg_periodic (trash m q) = last_returned_msg_periodic q"
  "last_returned_msg_periodic (count_without_waiting q) = last_returned_msg_periodic q"
  "last_returned_msg_periodic (mark_saturated q) = last_returned_msg_periodic q"
  "last_returned_msg_periodic (unsaturate q) = last_returned_msg_periodic q"
  "last_returned_msg_periodic (pop_front m q) = last_returned_msg_periodic q"
  "last_returned_msg_periodic (close q) = last_returned_msg_periodic q"
  by (simp_all add: insert_i_def inc_pending_charge_i_def post_insert_def Let_def release_def trash_def count_without_waiting_def
      mark_saturated_def unsaturate_def pop_front_def dec_pending_charge_i_def close_def)

lemma grows_refl [simp]: "grows q q"
  by (simp add: grows_def)

lemma grows_flags [simp]:
  "grows q (q'\<lparr>producer_broadcast := a, consumer_broadcast := b\<rparr>) = grows q q'"
  "grows (q\<lparr>enable_periodic_msg := c\<rparr>) q' = grows q q'" "grows q (q'\<lparr>enable_periodic_msg := c\<rparr>) = grows q q'"
  "grows q (q'\<lparr>enable_timeout_msg := c\<rparr>) = grows q q'"
  by (simp_all add: grows_def)

lemma grows_post:
  assumes "priority m \<le> HIGHEST_MSG_PRIORITY"
  shows "grows q (snd (post_enter (Some m) q))" "grows q (snd (post_resume sg m q))"
  by (cases rule: post_enter_cases [of "Some m" q]; use assms in \<open>auto simp: grows_def mq_fields\<close>)
    (cases rule: post_resume_cases [of sg m q]; use assms in \<open>auto simp: grows_def mq_fields\<close>)

lemma grows_post_msg:
  assumes "low i t" shows "grows (queue (qs t)) (queue (qs (post_msg i k t)))"
proof (cases "heap t i")
  case (Some ob)
  then show ?thesis using assms grows_post(1) by (simp add: post_msg_def Let_def low_def after_post_def)
qed (simp add: post_msg_def)

lemma low_duplicate: "low i (obj_duplicate j t) = low i t"
  by (auto simp: low_def obj_duplicate_def split: option.splits)

lemma low_fields [simp]: "low i (t\<lparr>held := l\<rparr>) = low i t" "low i (start_undetached t) = low i t"
  by (simp_all add: low_def start_undetached_def)

lemma low_new: "p \<le> HIGHEST_MSG_PRIORITY \<Longrightarrow> low (next_id t) (new_message ty p w t)"
  by (simp add: low_def new_message_def)

lemma grows_wait_msg:
  assumes "low i t" shows "grows (queue (qs t)) (queue (qs (wait_msg_handled i tmo t)))"
  using grows_post_msg [of i "obj_duplicate i t" "Some tmo"] assms
  by (auto simp: wait_msg_handled_def low_duplicate add_outcome_def split: option.splits)

lemma grows_new:
  assumes "p \<le> HIGHEST_MSG_PRIORITY"
  shows "grows (queue (qs t)) (queue (qs (post_msg (next_id t) None (new_message ty p w t))))"
    and "grows (queue (qs t)) (queue (qs (wait_msg_handled (next_id t) tmo (new_message ty p w t))))"
  using grows_post_msg [OF low_new [OF assms]] grows_wait_msg [OF low_new [OF assms]] by simp_all

lemma grows_post_returns:
  assumes "post_returns i k sg t = Some t'" "mem_inv t" "low i t"
  shows "grows (queue (qs t)) (queue (qs t'))"
proof -
  obtain ps m ps' where sp: "split_producer i (producers (qs t)) = Some (ps, m, ps')"
    using assms(1) by (auto simp: post_returns_def split: option.splits)
  obtain n where n: "producers (qs t) = ps @ (m, n) # ps'" "msg_id m = i" using split_producer_Some [OF sp] by blast
  have "m \<in> set (msgs t)" using n(1) by (simp add: msgs_def pending_def)
  then have "known (heap t) m" using assms(2) by (auto simp: mem_inv_def refs_ok_def)
  then have "priority m \<le> HIGHEST_MSG_PRIORITY" using assms(3) n(2) by (auto simp: low_def known_def)
  then show ?thesis using assms(1) sp grows_post(2) by (auto simp: post_returns_def Let_def after_post_def split: if_splits)
qed

lemma grows_client:
  assumes "tstep e t = Some t'" "client_event e" "polite e t" "mem_inv t"
  shows "grows (queue (qs t)) (queue (qs t'))"
proof -
  have pr: "DEFAULT_MSG_PRIORITY \<le> HIGHEST_MSG_PRIORITY" by (simp add: DEFAULT_MSG_PRIORITY_def)
  note st = start_undetached_ok
  have pt: "grows (queue (qs u)) (queue (qs (post_type ty u)))" for ty u
    unfolding post_type_def by (rule grows_new(1) [OF pr])
  show ?thesis
  proof (cases e)
    case (CPostReturns i k sg)
    then show ?thesis using grows_post_returns assms by simp
  next
    case (CGoMsg i tmo)
    then show ?thesis using assms grows_wait_msg [of i "(start_undetached t)\<lparr>held := l\<rparr>" tmo for l]
      by (auto simp: go_msg_def Let_def st add_outcome_def split: if_splits option.splits)
  next
    case (CGoAsyncMsg i)
    then show ?thesis using assms grows_post_msg [of i "(start_undetached t)\<lparr>held := l\<rparr>" None for l]
      by (auto simp: go_asynchronously_msg_def Let_def st add_outcome_def split: if_splits option.splits)
  next
    case (CGo tmo)
    then show ?thesis using assms grows_new(2) [of HIGHEST_MSG_PRIORITY "start_undetached t"] by (auto simp: go_def Let_def st)
  next
    case CGoAsync
    then show ?thesis using assms grows_new(1) [of HIGHEST_MSG_PRIORITY "start_undetached t"]
      by (auto simp: go_asynchronously_def Let_def st)
  next
    case CExit
    then show ?thesis using assms grows_new(2) [of HIGHEST_MSG_PRIORITY t] by (auto simp: exit_task_def)
  next
    case (CEnablePeriodic b)
    then show ?thesis using assms pt [of "t\<lparr>qs := (qs t)\<lparr>queue := (queue (qs t))\<lparr>enable_periodic_msg := b\<rparr>\<rparr>\<rparr>"]
      by (auto simp: set_enable_periodic_msg_def Let_def)
  next
    case (CEnablePrecise b)
    then show ?thesis using assms pt [of "t\<lparr>precise_periodic_timing_enabled := b\<rparr>"]
      by (auto simp: enable_precise_periodic_timing_def Let_def)
  next
    case (CPost i)
    then show ?thesis using assms grows_post_msg [of i "t\<lparr>held := l\<rparr>" None for l] by (auto split: if_splits)
  next
    case (CWait i tmo)
    then show ?thesis using assms grows_wait_msg [of i "t\<lparr>held := l\<rparr>" tmo for l] by (auto split: if_splits)
  next
    case (CWaitReturns i tmo n w)
    then show ?thesis using assms by (auto simp: wait_returns_def split: if_splits)
  qed (use assms in \<open>auto simp: Let_def st set_enable_timeout_msg_def split: if_splits\<close>)
qed

text \<open>
  How many events the thread needs at most until it has ended, when the message \<open>TASK_EXIT\<close> is in the queue: each
  message before it costs a call of \<open>next_message\<close> and the three events of its handling, and between two messages comes
  at most one periodic message.
\<close>

definition ahead :: "message_q \<Rightarrow> nat" where
  "ahead q = length (takeWhile (\<lambda>m. msg_type m \<noteq> TASK_EXIT) (msg_q q))"

definition queue_work :: "message_q \<Rightarrow> nat" where
  "queue_work q = 4 * (2 * (ahead q + 1) + (if last_returned_msg_periodic q then 0 else 1))"

definition work :: "task \<Rightarrow> nat" where
  "work t =
     (case run_st t of
        Calling ph \<Rightarrow> queue_work (queue (qs t))
      | Blocked ph \<Rightarrow> 8 * (ahead (queue (qs t)) + 1) + 8
      | Handling m \<Rightarrow> (if msg_type m = TASK_EXIT then 0 else queue_work (queue (qs t))) + 3
      | Marking m \<Rightarrow> (if msg_type m = TASK_EXIT then 0 else queue_work (queue (qs t))) + 2
      | Releasing m \<Rightarrow> (if msg_type m = TASK_EXIT then 0 else queue_work (queue (qs t))) + 1
      | _ \<Rightarrow> 0)"

definition has_exit :: "message_q \<Rightarrow> bool" where
  "has_exit q \<longleftrightarrow> (\<exists>n. exit_at n (msg_q q))"

definition exiting :: "task \<Rightarrow> bool" where
  "exiting t \<longleftrightarrow>
     (case run_st t of
        Calling MainLoop \<Rightarrow> has_exit (queue (qs t))
      | Blocked MainLoop \<Rightarrow> has_exit (queue (qs t))
      | Handling m \<Rightarrow> msg_type m = TASK_EXIT \<or> has_exit (queue (qs t))
      | Marking m \<Rightarrow> msg_type m = TASK_EXIT \<or> has_exit (queue (qs t))
      | Releasing m \<Rightarrow> msg_type m = TASK_EXIT \<or> has_exit (queue (qs t))
      | Finished \<Rightarrow> True
      | _ \<Rightarrow> False)"

lemma exit_at_ahead: "exit_at n (msg_q q) \<Longrightarrow> ahead q = n"
  by (auto simp: exit_at_def ahead_def no_exit_def)

lemma grows_work:
  assumes "grows q q'" "by_priority (msg_q q)" "has_exit q"
  shows "has_exit q'" "ahead q' = ahead q" "queue_work q' = queue_work q"
proof -
  obtain n where n: "exit_at n (msg_q q)" using assms(3) by (auto simp: has_exit_def)
  then have n': "exit_at n (msg_q q')" using grows_exit_at [OF assms(1,2)] by blast
  then show "has_exit q'" by (auto simp: has_exit_def)
  show a: "ahead q' = ahead q" using exit_at_ahead n n' by metis
  show "queue_work q' = queue_work q" using assms(1) by (simp add: queue_work_def a grows_def)
qed

lemma has_exit_Cons:
  assumes "has_exit q" "msg_q q = m # msg_q q'"
  shows "if msg_type m = TASK_EXIT then ahead q = 0 else has_exit q' \<and> ahead q = ahead q' + 1"
proof -
  obtain n pre x post where x: "msg_q q = pre @ x # post" "length pre = n" "msg_type x = TASK_EXIT" "priority x = HIGHEST_MSG_PRIORITY" "no_exit pre"
    using assms(1) by (auto simp: has_exit_def exit_at_def)
  have a: "has_exit q'" if ne: "msg_type m \<noteq> TASK_EXIT"
  proof -
    obtain pre' where p: "pre = m # pre'" "msg_q q' = pre' @ x # post" using x assms(2) ne by (cases pre) auto
    have "no_exit pre'" using x(5) p(1) by (simp add: no_exit_def)
    then show ?thesis using p(2) x(3,4) by (auto simp: has_exit_def exit_at_def)
  qed
  show ?thesis using assms(2) a by (simp add: ahead_def)
qed

lemma has_exit_nonempty: "has_exit q \<Longrightarrow> msg_q q \<noteq> []"
  by (auto simp: has_exit_def exit_at_def)

lemma next_call_exit:
  assumes "has_exit (queue (qs t))" "r = next_call e t"
  shows "(\<exists>m. fst r = NextMsg m \<and> msg_q (queue (qs t)) = m # msg_q (snd r) \<and> \<not> last_returned_msg_periodic (snd r))
    \<or> (\<exists>ty. fst r = NextGenerated ty \<and> msg_q (snd r) = msg_q (queue (qs t)) \<and> \<not> last_returned_msg_periodic (queue (qs t))
        \<and> last_returned_msg_periodic (snd r))"
  using has_exit_nonempty [OF assms(1)] assms(2)
  by (cases "msg_q (queue (qs t))") (auto simp: next_call_def next_ops next_ex_ops mq_fields)

lemma next_wakes_exit:
  assumes "has_exit (queue (qs t))" "r = next_wakes sg e t"
  shows "(\<exists>m. fst r = NextMsg m \<and> msg_q (queue (qs t)) = m # msg_q (snd r) \<and> \<not> last_returned_msg_periodic (snd r))
    \<or> ((\<exists>ty. fst r = NextGenerated ty) \<or> fst r = NextNone) \<and> msg_q (snd r) = msg_q (queue (qs t))"
  using has_exit_nonempty [OF assms(1)] assms(2)
  by (cases "msg_q (queue (qs t))") (auto simp: next_wakes_def next_ops next_ex_ops mq_fields)

lemma msg_q_cong:
  "msg_q q' = msg_q q \<Longrightarrow> has_exit q' = has_exit q" "msg_q q' = msg_q q \<Longrightarrow> ahead q' = ahead q"
  by (simp_all add: has_exit_def ahead_def)

lemma run_event_work:
  assumes "next_step t (fst r) (after_next r s)" "run_msgs (run_st t) = []" "has_exit (queue (qs t))"
    and "\<And>ty. fst r = NextGenerated ty \<Longrightarrow> ty = TASK_TIMEOUT \<or> ty = TASK_PERIODIC"
    and "t' = run_loop MainLoop (fst r) (t\<lparr>qs := after_next r s\<rparr>)"
    and "(\<exists>m. fst r = NextMsg m \<and> msg_q (queue (qs t)) = m # msg_q (snd r) \<and> \<not> last_returned_msg_periodic (snd r))
      \<or> ((\<exists>ty. fst r = NextGenerated ty) \<or> fst r = NextNone) \<and> msg_q (snd r) = msg_q (queue (qs t))
         \<and> queue_work (snd r) + (if fst r = NextNone then 0 else 3) < w"
    and "8 * (ahead (queue (qs t)) + 1) \<le> w"
  shows "exiting t' \<and> work t' < w"
proof -
  define u where "u = t\<lparr>qs := after_next r s\<rparr>"
  have n: "\<forall>m \<in> set (messages_of (fst r)). known (heap u) m" "run_msgs (run_st u) = []"
    using assms(1,2) by (simp_all add: next_step_def u_def)
  have rs: "run_st t' = after_run_loop MainLoop (fst r) u" unfolding assms(5) u_def [symmetric] by (rule run_loop_run_st(1) [OF n])
  have q: "msg_q (queue (qs t')) = msg_q (snd r)" "last_returned_msg_periodic (queue (qs t')) = last_returned_msg_periodic (snd r)"
    unfolding assms(5) run_loop_fields by (simp_all add: after_next_def Let_def)
  have qw: "queue_work (queue (qs t')) = queue_work (snd r)" "has_exit (queue (qs t')) = has_exit (snd r)"
    using q(2) by (simp_all add: queue_work_def msg_q_cong [OF q(1)])
  from assms(6) consider m where "fst r = NextMsg m" "msg_q (queue (qs t)) = m # msg_q (snd r)" "\<not> last_returned_msg_periodic (snd r)"
    | ty where "fst r = NextGenerated ty" "msg_q (snd r) = msg_q (queue (qs t))" "queue_work (snd r) + 3 < w"
    | "fst r = NextNone" "msg_q (snd r) = msg_q (queue (qs t))" "queue_work (snd r) < w"
    by auto
  then show ?thesis
  proof cases
    case 1
    note h = has_exit_Cons [OF assms(3) 1(2)]
    have c: "queue_work (snd r) = 8 * ahead (snd r) + 12" using 1(3) by (simp add: queue_work_def)
    show ?thesis
    proof (cases "msg_type m = TASK_EXIT")
      case True
      then have "run_st t' = Handling m" using rs by (simp add: 1 after_run_loop_def task_types)
      then show ?thesis using True assms(7) by (simp add: exiting_def work_def)
    next
      case False
      then have k: "has_exit (snd r)" "ahead (queue (qs t)) = ahead (snd r) + 1" using h by simp_all
      have "run_st t' = Calling MainLoop \<or> run_st t' = Handling m" using rs by (auto simp: 1 after_run_loop_def)
      then show ?thesis using k False assms(7) c by (auto simp: exiting_def work_def qw)
    qed
  next
    case 2
    have "run_st t' = Handling (fresh_message ty u)" using rs by (simp add: 2 after_run_loop_def)
    moreover have "msg_type (fresh_message ty u) \<noteq> TASK_EXIT" using assms(4) [OF 2(1)] by (auto simp: fresh_message_def task_types)
    ultimately show ?thesis using assms(3) 2 by (simp add: exiting_def work_def qw msg_q_cong [OF 2(2)])
  next
    case 3
    have "run_st t' = Calling MainLoop" using rs by (simp add: 3 after_run_loop_def)
    then show ?thesis using assms(3) 3 by (simp add: exiting_def work_def qw msg_q_cong [OF 3(2)])
  qed
qed

lemma run_work:
  assumes "tstep e t = Some t'" "\<not> client_event e" "mem_inv t" "exiting t"
  shows "exiting t' \<and> work t' < work t"
proof (cases e)
  case (RNext ex)
  then have ph: "run_st t = Calling MainLoop" and x: "has_exit (queue (qs t))"
    using assms(1,4) by (auto simp: run_next_def exiting_def split: run_state.splits phase.splits)
  define r where "r = next_call ex t"
  have t': "t' = run_loop MainLoop (fst r) (t\<lparr>qs := after_next r (qs t)\<rparr>)" using RNext assms(1) ph by (simp add: run_next_def Let_def r_def)
  show ?thesis
  proof (rule run_event_work [OF next_call_step [OF assms(3) ph r_def] _ x _ t'])
    show "(\<exists>m. fst r = NextMsg m \<and> msg_q (queue (qs t)) = m # msg_q (snd r) \<and> \<not> last_returned_msg_periodic (snd r))
      \<or> ((\<exists>ty. fst r = NextGenerated ty) \<or> fst r = NextNone) \<and> msg_q (snd r) = msg_q (queue (qs t))
         \<and> queue_work (snd r) + (if fst r = NextNone then 0 else 3) < work t"
      using next_call_exit [OF x r_def] by (auto simp: work_def ph queue_work_def dest: msg_q_cong(2))
  qed (use ph generated_calls(1) in \<open>auto simp: r_def work_def queue_work_def\<close>)
next
  case (RNextReturns sg ex)
  then have ph: "run_st t = Blocked MainLoop" and x: "has_exit (queue (qs t))"
    using assms(1,4) by (auto simp: run_next_returns_def exiting_def split: run_state.splits phase.splits)
  define r where "r = next_wakes sg ex t"
  have t': "t' = run_loop MainLoop (fst r) (t\<lparr>qs := after_next r ((qs t)\<lparr>consumers := []\<rparr>)\<rparr>)"
    using RNextReturns assms(1) ph by (auto simp: run_next_returns_def Let_def r_def split: if_splits)
  show ?thesis
  proof (rule run_event_work [OF next_wakes_step [OF assms(3) ph r_def] _ x _ t'])
    show "(\<exists>m. fst r = NextMsg m \<and> msg_q (queue (qs t)) = m # msg_q (snd r) \<and> \<not> last_returned_msg_periodic (snd r))
      \<or> ((\<exists>ty. fst r = NextGenerated ty) \<or> fst r = NextNone) \<and> msg_q (snd r) = msg_q (queue (qs t))
         \<and> queue_work (snd r) + (if fst r = NextNone then 0 else 3) < work t"
      using next_wakes_exit [OF x r_def] by (auto simp: work_def ph queue_work_def dest: msg_q_cong(2))
  qed (use ph generated_calls(2) in \<open>auto simp: r_def work_def\<close>)
next
  case (RHandler err)
  then obtain m where m: "run_st t = Handling m" "t' = handler_returns m err t" using assms(1) by (auto split: run_state.splits)
  then have "qs t' = qs t" "run_st t' = Marking m" by (simp_all add: handler_returns_def split: option.splits)
  then show ?thesis using assms(4) m by (simp add: exiting_def work_def)
next
  case RProcessed
  then obtain m where m: "run_st t = Marking m" "t' = mark_processed m t" using assms(1) by (auto split: run_state.splits)
  then show ?thesis using assms(4) by (simp add: exiting_def work_def mark_processed_def)
next
  case RRelease
  then obtain m where m: "run_st t = Releasing m" "t' = release_handled m t" using assms(1) by (auto split: run_state.splits)
  then show ?thesis using assms(4) by (auto simp: exiting_def work_def release_handled_def Let_def)
qed (use assms(2) in simp_all)

lemma client_work:
  assumes "tstep e t = Some t'" "client_event e" "polite e t" "mem_inv t" "order_inv (qs t)" "exiting t"
  shows "exiting t' \<and> work t' = work t"
proof -
  have b: "by_priority (msg_q (queue (qs t)))" using assms(5) by (simp add: order_inv_def sys_inv_def mq_inv_def)
  note g = grows_work [OF grows_client [OF assms(1-4)] b]
  have "frame t t' \<or> frame (start_undetached t) t'" using client_event_ok [OF assms(1,2)] assms(4) by (simp add: mem_inv_def)
  moreover have "start_undetached t = t" using assms(6) by (auto simp: start_undetached_def exiting_def)
  ultimately have r: "run_st t' = run_st t" by (simp add: frame_def)
  show ?thesis
    using assms(6) g r by (auto simp: exiting_def work_def split: run_state.splits phase.splits)
qed

lemma trun_work:
  assumes "trun es t = Some t'" "polite_run es t" "mem_inv t" "order_inv (qs t)" "exiting t"
  shows "exiting t' \<and> mem_inv t' \<and> order_inv (qs t') \<and> length (filter (\<lambda>e. \<not> client_event e) es) + work t' \<le> work t"
  using assms
proof (induction es arbitrary: t)
  case (Cons e es)
  then obtain t1 where t1: "tstep e t = Some t1" "trun es t1 = Some t'" "polite e t" "polite_run es t1" by (auto split: option.splits)
  note i1 = tstep_mem_inv [OF t1(1) Cons.prems(3)] tstep_order_inv [OF t1(1) Cons.prems(3,4)]
  show ?case
  proof (cases "client_event e")
    case True
    note w = client_work [OF t1(1) True t1(3) Cons.prems(3-5)]
    then show ?thesis using Cons.IH [OF t1(2,4) i1] True by simp
  next
    case False
    note w = run_work [OF t1(1) False Cons.prems(3,5)]
    then show ?thesis using Cons.IH [OF t1(2,4) i1] False by simp
  qed
qed simp

text \<open>The thread of a task that is about to end can always go on: it has been notified if it waits.\<close>

lemma exiting_enabled:
  assumes "exiting t" "mem_inv t" "order_inv (qs t)" "run_st t \<noteq> Finished"
  shows "\<exists>e t'. \<not> client_event e \<and> tstep e t = Some t'"
    and "run_st t = Blocked ph \<Longrightarrow> consumers (qs t) = [True]"
proof -
  show "\<exists>e t'. \<not> client_event e \<and> tstep e t = Some t'"
  proof (cases "run_st t")
    case (Calling ph)
    then have "\<not> client_event (RNext False) \<and> tstep (RNext False) t \<noteq> None" by (simp add: run_next_def Let_def)
    then show ?thesis by blast
  next
    case (Blocked ph)
    then have "\<not> client_event (RNextReturns True False) \<and> tstep (RNextReturns True False) t \<noteq> None"
      by (simp add: run_next_returns_def Let_def)
    then show ?thesis by blast
  next
    case (Handling m)
    then have "\<not> client_event (RHandler None) \<and> tstep (RHandler None) t \<noteq> None" by simp
    then show ?thesis by blast
  next
    case (Marking m)
    then have "\<not> client_event RProcessed \<and> tstep RProcessed t \<noteq> None" by simp
    then show ?thesis by blast
  next
    case (Releasing m)
    then have "\<not> client_event RRelease \<and> tstep RRelease t \<noteq> None" by simp
    then show ?thesis by blast
  qed (use assms(1,4) in \<open>simp_all add: exiting_def\<close>)
  assume b: "run_st t = Blocked ph"
  then have "msg_q (queue (qs t)) \<noteq> []" using assms(1) has_exit_nonempty by (auto simp: exiting_def split: phase.splits)
  then have "False \<notin> set (consumers (qs t))" using assms(3) by (simp add: order_inv_def sys_inv_def)
  then show "consumers (qs t) = [True]" using assms(2) b by (auto simp: mem_inv_def length_Suc_conv)
qed

section \<open>What a task promises\<close>

definition demo_config :: config where
  "demo_config = \<lparr>cfg_enable_timeout_msg = True, cfg_timeout_msg_period_ms = 100, cfg_enable_periodic_msg = False,
     cfg_periodic_msg_period_ms = 0, cfg_enable_precise_periodic_timing = False, cfg_lo_wm = 128, cfg_hi_wm = 512,
     cfg_throw_on_post_tmo = False\<rparr>"

definition demo_go :: "task_event list" where
  "demo_go = [CGo 2000, RNext False, RHandler None, RProcessed, CWaitReturns 0 2000 True Signalled, RRelease]"

definition demo_exit :: "task_event list" where
  "demo_exit = [CNew 10 3 False 8, CPost 1, CNew 11 3 True 8, CWait 2 500, CExit]"

definition demo_late_go :: "task_event list" where
  "demo_late_go = [CGo 2000, RNext False, RHandler None, RProcessed, RRelease]"

definition demo_run :: "task_event list \<Rightarrow> task" where
  "demo_run es = the (trun es (Task_ctor 100 demo_config))"

lemma demo_reachable:
  assumes "trun es (Task_ctor 100 demo_config) \<noteq> None"
  shows "reachable (Task_ctor 100 demo_config) (demo_run es)" "trun es (Task_ctor 100 demo_config) = Some (demo_run es)"
proof -
  show e: "trun es (Task_ctor 100 demo_config) = Some (demo_run es)" using assms by (auto simp: demo_run_def)
  show "reachable (Task_ctor 100 demo_config) (demo_run es)" by (rule trun_reachable [OF e reachable_init])
qed

text \<open>
  C8: reference counts. In every run of a task and its clients, whatever the order of the critical sections, no pointer to
  a message that has been deleted is used; the count of a message is the number of references that exist to it, in the
  queue, in waiting calls, in the thread and in the clients; and a message without references is deleted.
\<close>

theorem task_memory_safe:
  assumes "reachable (Task_ctor sz cfg) t"
  shows "\<not> fault t \<and> (heap t i = None \<longleftrightarrow> i \<notin># refs t)
    \<and> (\<forall>ob. heap t i = Some ob \<longrightarrow> reference_count ob = int (count (refs t) i) \<and> msg_id (obj_msg ob) = i)"
proof -
  have "refs_ok {#} t" using reachable_mem_inv [OF assms Task_ctor_mem_inv] by (simp add: mem_inv_def)
  then have "\<not> fault t" "obj_ok i (count (refs t + {#}) i) (heap t i)" unfolding refs_ok_def by blast+
  then show ?thesis by (auto simp: obj_ok_def not_in_iff split: option.splits)
qed

theorem task_memory_safe_witness:
  "let t = demo_run (demo_go @ demo_exit) in \<not> fault t \<and> heap t 0 = None
     \<and> (\<forall>ob. heap t 2 = Some ob \<longrightarrow> reference_count ob = 2)"
proof -
  have e: "trun (demo_go @ demo_exit) (Task_ctor 100 demo_config) \<noteq> None" by code_simp
  have c: "count (refs (demo_run (demo_go @ demo_exit))) 2 = 2" "count (refs (demo_run (demo_go @ demo_exit))) 0 = 0"
    by code_simp+
  from task_memory_safe [OF demo_reachable(1) [OF e], where i = 2] task_memory_safe [OF demo_reachable(1) [OF e], where i = 0]
  show ?thesis using c by (simp add: Let_def not_in_iff)
qed

lemma log_ok_prefix: "log_ok (l @ [m]) \<Longrightarrow> log_ok l"
  by (cases l) (simp_all add: log_ok_def)

text \<open>
  C9: the protocol of a task. The first message handled is \<open>TASK_INIT\<close>, and no other \<open>TASK_INIT\<close> and no \<open>TASK_WAKEUP\<close>
  reaches the handler; \<open>TASK_EXIT\<close> can only be the last message handled; and the thread ends only behind it, with the
  queue closed.
\<close>

theorem task_protocol:
  assumes "reachable (Task_ctor sz cfg) t"
  shows "log_ok (map fst (handled t)) \<and> no_exit (butlast (map fst (handled t)))
    \<and> (run_st t = Finished \<longrightarrow> handled t \<noteq> [] \<and> msg_type (fst (last (handled t))) = TASK_EXIT \<and> state (queue (qs t)) = CLOSED)"
proof -
  have p: "protocol t" by (rule reachable_protocol [OF assms Task_ctor_mem_inv Task_ctor_protocol])
  have b: "no_exit l \<Longrightarrow> no_exit (butlast l)" for l by (auto simp: no_exit_def dest: in_set_butlastD)
  show ?thesis
    using p b [of "map fst (handled t)"] log_ok_prefix [of "map fst (handled t)"]
    by (cases "run_st t") (auto simp: protocol_def taken_def last_map)
qed

theorem task_protocol_witness:
  "let t = demo_run (demo_go @ [CExit, RNext False, RHandler None, RProcessed, RRelease])
   in map (msg_type \<circ> fst) (handled t) = [TASK_INIT, TASK_EXIT] \<and> log_ok (map fst (handled t)) \<and> state (queue (qs t)) = CLOSED"
proof -
  let ?es = "demo_go @ [CExit, RNext False, RHandler None, RProcessed, RRelease]"
  have e: "trun ?es (Task_ctor 100 demo_config) \<noteq> None" by code_simp
  have c: "map (msg_type \<circ> fst) (handled (demo_run ?es)) = [TASK_INIT, TASK_EXIT]" "run_st (demo_run ?es) = Finished"
    by code_simp+
  from task_protocol [OF demo_reachable(1) [OF e]] c show ?thesis by (simp only: Let_def simp_thms)
qed

text \<open>
  C10: the order of the messages. With a high water mark above zero, the messages that the handler gets from the queue come,
  within one priority, in the order in which they were inserted, each at most once.
\<close>

theorem task_order:
  assumes "reachable (Task_ctor sz cfg) t" "0 < cfg_hi_wm cfg"
  shows "subseq (lane (filter posted (map fst (handled t))) p) (lane (filter posted (admitted (queue (qs t)))) p)"
proof -
  have p: "protocol t" by (rule reachable_protocol [OF assms(1) Task_ctor_mem_inv Task_ctor_protocol])
  have o: "order_inv (qs t)" by (rule reachable_order_inv [OF assms(1) Task_ctor_mem_inv Task_ctor_order_inv [OF assms(2)]])
  have "subseq (filter posted (map fst (handled t))) (filter posted (taken t))"
    by (intro prefix_imp_subseq) (simp add: taken_def)
  then have a: "subseq (filter posted (map fst (handled t))) (filter posted (delivered (qs t)))"
    using p subseq_order.order_trans unfolding protocol_def by blast
  have "subseq (lane (delivered (qs t)) p) (lane (delivered (qs t)) p @ lane (msg_q (queue (qs t))) p)"
    by (intro prefix_imp_subseq) simp
  then have "subseq (lane (delivered (qs t)) p) (lane (admitted (queue (qs t))) p)"
    using o subseq_order.order_trans unfolding order_inv_def fifo_inv_def by blast
  then have b: "subseq (filter posted (lane (delivered (qs t)) p)) (filter posted (lane (admitted (queue (qs t))) p))"
    by (rule subseq_filter)
  have c: "lane (filter posted l) p = filter posted (lane l p)" for l by (simp add: lane_def conj_commute)
  show ?thesis
    using subseq_order.order_trans [OF subseq_filter [OF a, of "\<lambda>m. priority m = p"], of "filter posted (lane (admitted (queue (qs t))) p)"] b
    unfolding lane_def [symmetric] c by simp
qed

theorem task_order_witness:
  "let t = demo_run (demo_go @ demo_exit @ [RNext False, RHandler None, RProcessed, RRelease])
   in subseq (lane (filter posted (map fst (handled t))) 3) (lane (filter posted (admitted (queue (qs t)))) 3)
     \<and> length (filter posted (map fst (handled t))) = 2"
proof -
  let ?es = "demo_go @ demo_exit @ [RNext False, RHandler None, RProcessed, RRelease]"
  have e: "trun ?es (Task_ctor 100 demo_config) \<noteq> None" by code_simp
  have c: "length (filter posted (map fst (handled (demo_run ?es)))) = 2" by code_simp
  have "0 < cfg_hi_wm demo_config" by (simp add: demo_config_def)
  from task_order [OF demo_reachable(1) [OF e] this] c show ?thesis by (simp only: Let_def simp_thms)
qed

text \<open>
  C11: what the calls report. Unless a thread wakes up without having been notified, a call of \<open>wait_msg_handled\<close> that
  returns normally returns because the handler has handled that message without an exception, and an exception of the
  handler that it throws is one that the handler has thrown for that message.
\<close>

theorem task_reports:
  assumes "trun es (Task_ctor sz cfg) = Some t" "list_all quiet es"
  shows "((i, Handled_ok) \<in> set (outcomes t) \<longrightarrow> (\<exists>m. msg_id m = i \<and> (m, None) \<in> set (handled t)))
    \<and> ((i, Threw (Handler_error x)) \<in> set (outcomes t) \<longrightarrow> (\<exists>m. msg_id m = i \<and> (m, Some (Handler_error x)) \<in> set (handled t)))"
proof -
  have "reports_inv t" using trun_reports [OF assms Task_ctor_mem_inv Task_ctor_reports] by blast
  then have r: "(i, r) \<in> set (outcomes t) \<Longrightarrow> reports r \<Longrightarrow>
      \<exists>m err. msg_id m = i \<and> (m, err) \<in> set (handled t) \<and> r = (case err of None \<Rightarrow> Handled_ok | Some e \<Rightarrow> Threw e)" for r
    unfolding reports_inv_def by blast
  show ?thesis
    using r [of Handled_ok] r [of "Threw (Handler_error x)"]
    by (fastforce simp: reports_def split: option.splits)
qed

theorem task_reports_witness:
  "let t = demo_run demo_go in (0, Handled_ok) \<in> set (outcomes t) \<and> (\<exists>m. msg_id m = 0 \<and> (m, None) \<in> set (handled t))"
proof -
  have e: "trun demo_go (Task_ctor 100 demo_config) \<noteq> None" by code_simp
  have q: "list_all quiet demo_go" by code_simp
  have "(0, Handled_ok) \<in> set (outcomes (demo_run demo_go))" by code_simp
  then show ?thesis using task_reports [OF demo_reachable(2) [OF e] q, of 0] by (auto simp: Let_def)
qed

section \<open>An exit before the initialisation\<close>

text \<open>\<open>exit\<close> puts its message in front of those of lower priority and waits for it.\<close>

lemma insert_front: "\<forall>x \<in> set ms. priority x < priority m \<Longrightarrow> insert_by_priority m ms = m # ms"
  by (cases ms) (auto simp: insert_by_priority_def insert_msg_criterion_def)

lemma exit_posted:
  assumes "run_st t \<noteq> NotStarted" "run_st t \<noteq> Finished" "state (queue (qs t)) = OPEN"
    and "\<forall>m \<in> set (msg_q (queue (qs t))). priority m < HIGHEST_MSG_PRIORITY"
  obtains m ob where "msg_q (queue (qs (exit_task t))) = m # msg_q (queue (qs t))" "msg_id m = next_id t" "msg_type m = TASK_EXIT"
    "heap (exit_task t) (next_id t) = Some ob" "reference_count ob = 2" "obj_msg ob = m" "\<not> is_processed ob"
    "Waiting (next_id t) 0 False \<in> set (calls (exit_task t))" "run_st (exit_task t) = run_st t"
proof -
  define m where "m = \<lparr>msg_id = next_id t, msg_type = TASK_EXIT, priority = HIGHEST_MSG_PRIORITY, size_in_bytes = sizeof_message t\<rparr>"
  have "insert_by_priority m (msg_q (queue (qs t))) = m # msg_q (queue (qs t))"
    by (rule insert_front) (use assms(4) in \<open>simp add: m_def\<close>)
  moreover have "is_task_ctrl_message m" "msg_type m = TASK_EXIT" "msg_id m = next_id t" "msg_type m \<noteq> TASK_TIMEOUT" "msg_type m \<noteq> TASK_PERIODIC"
    by (simp_all add: m_def is_task_ctrl_message_def TASK_EXIT_def TASK_TIMEOUT_def TASK_PERIODIC_def)
  ultimately show ?thesis
    using assms(1-3) unfolding m_def
    by (intro that [of m "\<lparr>obj_msg = m, reference_count = 2, is_processed = False, is_waitable = True, obj_error = None\<rparr>"])
      (auto simp: m_def exit_task_def wait_msg_handled_def new_message_def obj_duplicate_def post_msg_def post_enter_def after_post_def adopt_def
        after_posting_def wait_processed_def insert_i_def inc_pending_charge_i_def count_without_waiting_def Let_def)
qed

lemma exit_dropped:
  assumes "run_st t = Calling InitLoop \<and> e = RNext False \<or> run_st t = Blocked InitLoop \<and> e = RNextReturns True x"
    and "msg_q (queue (qs t)) = m # ms" "msg_type m = TASK_EXIT" "heap t (msg_id m) = Some ob" "reference_count ob = 2"
    and "Waiting (msg_id m) 0 False \<in> set (calls t)" "tstep e t = Some t'"
  shows "abandoned (msg_id m) t' \<and> heap t' (msg_id m) = Some (ob\<lparr>reference_count := 1\<rparr>)"
proof -
  have c: "is_task_ctrl_message m" "msg_type m \<noteq> TASK_INIT" using assms(3) by (simp_all add: is_task_ctrl_message_def TASK_EXIT_def TASK_INIT_def)
  have n: "fst (next_call False t) = NextMsg m" "fst (next_wakes True x t) = NextMsg m"
    using assms(2) c by (simp_all add: next_call_def next_wakes_def next_enter_def next_front_def next_ex_enter_def next_resume_def
        next_ex_resume_def next_ex_front_def Let_def)
  from assms(1) show ?thesis
    using assms(2-7) n c
    by (elim disjE) (auto simp: run_next_def run_next_returns_def Let_def init_loop_def obj_release_def abandoned_def split: if_splits)
qed

text \<open>
  What brings a thread to wait for \<open>TASK_INIT\<close>: nothing, if it does already, or, if the task has not been started, a \<open>go\<close> with a message
  that it refuses.
\<close>

definition awaits_init :: "task_event list \<Rightarrow> task \<Rightarrow> bool" where
  "awaits_init gs t \<longleftrightarrow>
     gs = [] \<and> (run_st t = Calling InitLoop \<or> run_st t = Blocked InitLoop)
     \<or> (\<exists>i tmo ob. gs = [CGoMsg i tmo] \<and> run_st t = NotStarted \<and> heap t i = Some ob
          \<and> (msg_type (obj_msg ob) \<noteq> TASK_INIT \<or> \<not> is_waitable ob))"

lemma awaits_init_runs:
  assumes "awaits_init gs t" "trun (gs @ es) t = Some t'"
  obtains u where "trun gs t = Some u" "trun es u = Some t'" "run_st u = Calling InitLoop \<or> run_st u = Blocked InitLoop"
    "qs u = qs t" "next_id u = next_id t"
proof (cases "gs = []")
  case True
  then show ?thesis using assms that [of t] by (simp add: awaits_init_def)
next
  case False
  then obtain i tmo ob where g: "gs = [CGoMsg i tmo]" "run_st t = NotStarted" "heap t i = Some ob"
    "msg_type (obj_msg ob) \<noteq> TASK_INIT \<or> \<not> is_waitable ob" using assms(1) by (auto simp: awaits_init_def)
  then have "tstep (CGoMsg i tmo) t = Some (go_msg i tmo t)" "trun es (go_msg i tmo t) = Some t'"
    using assms(2) by (auto split: if_splits)
  moreover have "run_st (go_msg i tmo t) = Calling InitLoop" "qs (go_msg i tmo t) = qs t" "next_id (go_msg i tmo t) = next_id t"
    using g by (auto simp: go_msg_def start_undetached_def add_outcome_def)
  ultimately show ?thesis using that [of "go_msg i tmo t"] g(1) by simp
qed

text \<open>
  C12: \<open>exit\<close> can wait for ever. A thread that waits for \<open>TASK_INIT\<close>, as it does after a \<open>go\<close> with a message that is refused, drops the
  \<open>TASK_EXIT\<close> that \<open>exit\<close> posts, if it is the first to be taken from the queue (no message as urgent is pending). From then on, whatever the
  thread and the clients do, a proper \<open>go\<close> included, the message is not processed and \<open>exit\<close>, which waits without a time-out, does not
  return, unless its condition variable wakes up without a reason (\<open>quiet\<close> excludes that).
\<close>

theorem exit_hangs:
  assumes "reachable (Task_ctor sz cfg) t" and "awaits_init gs t" and "state (queue (qs t)) = OPEN"
    and "\<forall>m \<in> set (msg_q (queue (qs t))). priority m < HIGHEST_MSG_PRIORITY"
    and "e = RNext False \<or> e = RNextReturns True x"
    and "trun (gs @ CExit # e # es) t = Some t'" and "list_all quiet es"
  shows "Waiting (next_id t) 0 False \<in> set (calls t')
    \<and> (\<exists>ob. heap t' (next_id t) = Some ob \<and> msg_type (obj_msg ob) = TASK_EXIT \<and> \<not> is_processed ob)"
proof -
  obtain u where u: "trun gs t = Some u" "trun (CExit # e # es) u = Some t'" "run_st u = Calling InitLoop \<or> run_st u = Blocked InitLoop"
    "qs u = qs t" "next_id u = next_id t" using awaits_init_runs [OF assms(2,6)] by blast
  obtain m ob where x: "msg_q (queue (qs (exit_task u))) = m # msg_q (queue (qs u))" "msg_id m = next_id u" "msg_type m = TASK_EXIT"
    "heap (exit_task u) (next_id u) = Some ob" "reference_count ob = 2" "obj_msg ob = m" "\<not> is_processed ob"
    "Waiting (next_id u) 0 False \<in> set (calls (exit_task u))" "run_st (exit_task u) = run_st u"
    by (rule exit_posted [of u]) (use u assms(3,4) in auto)
  obtain v where v: "tstep e (exit_task u) = Some v" "trun es v = Some t'" using u(2) by (auto split: option.splits)
  have s: "run_st (exit_task u) = Calling InitLoop \<and> e = RNext False \<or> run_st (exit_task u) = Blocked InitLoop \<and> e = RNextReturns True x"
    using assms(5) v(1) u(3) x(9) by (auto simp: run_next_def run_next_returns_def)
  have a: "abandoned (msg_id m) v \<and> heap v (msg_id m) = Some (ob\<lparr>reference_count := 1\<rparr>)"
    by (rule exit_dropped [OF s x(1,3) _ x(5) _ v(1)]) (use x(2,4,8) in auto)
  have "reachable (Task_ctor sz cfg) v"
    using trun_reachable [of "gs @ [CExit, e]" t v, OF _ assms(1)] u(1) v(1) trun_append [of gs "[CExit, e]" t] by simp
  then have "mem_inv v" by (rule reachable_mem_inv [OF _ Task_ctor_mem_inv])
  then have "abandoned (msg_id m) t' \<and> heap t' (msg_id m) = heap v (msg_id m)" using trun_abandoned [OF v(2) assms(7)] a by blast
  then show ?thesis using a x(2,3,6,7) u(5) by (auto simp: abandoned_def)
qed

text \<open>A proper \<open>go\<close> follows, and the task handles its message.\<close>

theorem exit_hangs_witness:
  "let t' = demo_run ([CNew TASK_INIT 0 False 8] @ [CGoMsg 0 2000] @ CExit # RNext False # demo_late_go)
   in Waiting 1 0 False \<in> set (calls t') \<and> (0, Threw PROGRAMMING_ERROR) \<in> set (outcomes t') \<and> length (handled t') = 1"
proof -
  have e: "trun [CNew TASK_INIT 0 False 8] (Task_ctor 100 demo_config) \<noteq> None" by code_simp
  let ?t = "demo_run [CNew TASK_INIT 0 False 8]" and ?es = "[CGoMsg 0 2000] @ CExit # RNext False # demo_late_go"
  let ?u = "demo_run ([CNew TASK_INIT 0 False 8] @ ?es)"
  have c: "run_st ?t = NotStarted" "next_id ?t = 1" "state (queue (qs ?t)) = OPEN" "msg_q (queue (qs ?t)) = []"
    "map_option is_waitable (heap ?t 0) = Some False" by code_simp+
  have f: "trun ([CNew TASK_INIT 0 False 8] @ ?es) (Task_ctor 100 demo_config) \<noteq> None" by code_simp
  have r: "trun ?es ?t = Some ?u"
    using demo_reachable(2) [OF e] demo_reachable(2) [OF f] trun_append [of "[CNew TASK_INIT 0 False 8]" ?es] by simp
  have a: "awaits_init [CGoMsg 0 2000] ?t" using c by (auto simp: awaits_init_def)
  have q: "list_all quiet demo_late_go" by code_simp
  have "Waiting (next_id ?t) 0 False \<in> set (calls ?u)"
    using exit_hangs [OF demo_reachable(1) [OF e] a c(3) _ _ r q, where x = True] c(4) by simp
  moreover have "(0, Threw PROGRAMMING_ERROR) \<in> set (outcomes ?u)" "length (handled ?u) = 1" by code_simp+
  ultimately show ?thesis using c(2) by (simp add: Let_def)
qed

text \<open>
  C13: \<open>exit\<close> ends the task. Once \<open>TASK_EXIT\<close> is in the queue of a task that has been initialised, the thread ends within
  \<open>work t\<close> of its own events, eight for each message before it and at most twelve more: periodic and time-out messages do not
  delay it further, however often the timers expire, nor do clients that post. Until then the thread is never stuck.
\<close>

theorem exit_terminates:
  assumes "reachable (Task_ctor sz cfg) t" "0 < cfg_hi_wm cfg" "exiting t" "trun es t = Some t'" "polite_run es t"
  shows "length (filter (\<lambda>e. \<not> client_event e) es) \<le> work t
    \<and> (run_st t' \<noteq> Finished \<longrightarrow> (\<exists>e t''. \<not> client_event e \<and> tstep e t' = Some t'') \<and> (\<forall>ph. run_st t' = Blocked ph \<longrightarrow> consumers (qs t') = [True]))"
proof -
  have m: "mem_inv t" by (rule reachable_mem_inv [OF assms(1) Task_ctor_mem_inv])
  have o: "order_inv (qs t)" by (rule reachable_order_inv [OF assms(1) Task_ctor_mem_inv Task_ctor_order_inv [OF assms(2)]])
  note w = trun_work [OF assms(4,5) m o assms(3)]
  then show ?thesis using exiting_enabled [of t'] by auto
qed

theorem exit_terminates_witness:
  "let t = demo_run (demo_go @ demo_exit)
   in exiting t \<and> work t = 12
     \<and> (\<forall>es t'. trun es t = Some t' \<longrightarrow> polite_run es t \<longrightarrow> length (filter (\<lambda>e. \<not> client_event e) es) \<le> 12)"
proof -
  have e: "trun (demo_go @ demo_exit) (Task_ctor 100 demo_config) \<noteq> None" by code_simp
  have "map msg_type (msg_q (queue (qs (demo_run (demo_go @ demo_exit))))) = [TASK_EXIT, 10, 11]"
    "map priority (msg_q (queue (qs (demo_run (demo_go @ demo_exit))))) = [HIGHEST_MSG_PRIORITY, 3, 3]"
    "run_st (demo_run (demo_go @ demo_exit)) = Calling MainLoop" by code_simp+
  then have x: "exiting (demo_run (demo_go @ demo_exit))"
    by (fastforce simp: exiting_def has_exit_def exit_at_def no_exit_def)
  have w: "work (demo_run (demo_go @ demo_exit)) = 12" by code_simp
  have h: "0 < cfg_hi_wm demo_config" by (simp add: demo_config_def)
  from exit_terminates [OF demo_reachable(1) [OF e] h x] w x show ?thesis by (auto simp: Let_def)
qed

text \<open>
  The condition variable of a message is waited for once, not in a loop: a thread that wakes up without a reason reports
  that the message has been handled.
\<close>

lemma spurious_report:
  "let t = demo_run [CGo 2000, CWaitReturns 0 2000 False Spurious] in (0, Handled_ok) \<in> set (outcomes t) \<and> handled t = []"
  by code_simp

text \<open>A period below one millisecond is rounded to the infinite time-out, unless the precise timing is enabled.\<close>

lemma short_period_waits_for_ever:
  "run_st t = Blocked ph \<Longrightarrow> \<not> precise_periodic_timing_enabled t \<Longrightarrow> 0 \<le> run_tmo t \<Longrightarrow> run_tmo t < 1 \<Longrightarrow>
     run_next_returns False e t = None"
proof -
  assume a: "run_st t = Blocked ph" "\<not> precise_periodic_timing_enabled t" "0 \<le> run_tmo t" "run_tmo t < 1"
  have "trunc (run_tmo t) = 0" using a(3,4) by (simp add: trunc_def floor_eq_iff)
  then show ?thesis using a(1,2) by (simp add: run_next_returns_def may_time_out_def)
qed

end
