(* ===== verification/Pulser.thy ===== *)
theory Pulser
  imports TaskLoop Transitions
begin

text \<open>
  The pulser of \<open>src/threading/Pulser.cpp\<close>: a task that calls a function of the client periodically. Its state holds the
  task of \<open>TaskLoop\<close>, so that its messages go through the queue and the loop of the task as they are modelled there. The
  callback is code of the client: the model counts its calls; an exception of it is swallowed. A post of the handler that would
  wait for room in the queue, which only the handler's own thread can make, is not followed.
\<close>

section \<open>The state\<close>

definition FIRST_USER_MSG :: u64 where "FIRST_USER_MSG = 5"
definition START_MSG :: u64 where "START_MSG = FIRST_USER_MSG"
definition STOP_MSG :: u64 where "STOP_MSG = FIRST_USER_MSG + 1"
definition SUSPEND_MSG :: u64 where "SUSPEND_MSG = FIRST_USER_MSG + 2"
definition RESUME_MSG :: u64 where "RESUME_MSG = FIRST_USER_MSG + 3"
definition NUM_PULSES_CHANGED :: u64 where "NUM_PULSES_CHANGED = FIRST_USER_MSG + 4"

definition kDEFAULT_MSG_TMO_MSECS :: nat where "kDEFAULT_MSG_TMO_MSECS = 2000"

record pulse_config =
  period_in_msecs :: rat
  num_pulses :: u64
  callback :: bool

text \<open>
  \<open>data\<close> is what the messages carry; \<open>fired\<close> counts the calls of the callback since the last start was handled, and
  \<open>total\<close> all of them: they are no fields of the code.
\<close>

record pulser =
  outer_cfg :: pulse_config
  impl_cfg :: pulse_config
  pulses :: u64
  core :: task
  data :: "nat \<Rightarrow> u64"
  fired :: nat
  total_fired :: nat

definition PulserConfig_ctor :: pulse_config where
  "PulserConfig_ctor = \<lparr>period_in_msecs = 1000, num_pulses = 0, callback = False\<rparr>"

definition TaskConfig_ctor :: config where
  "TaskConfig_ctor =
     \<lparr>cfg_enable_timeout_msg = False, cfg_timeout_msg_period_ms = 0, cfg_enable_periodic_msg = False,
      cfg_periodic_msg_period_ms = 0, cfg_enable_precise_periodic_timing = False, cfg_lo_wm = 8, cfg_hi_wm = 64,
      cfg_throw_on_post_tmo = False\<rparr>"

text \<open>The constructor; \<open>sz\<close> is the size of a message.\<close>

definition Pulser_ctor :: "u64 \<Rightarrow> pulse_config \<Rightarrow> exn + pulser" where
  "Pulser_ctor sz cfg =
     (if period_in_msecs cfg \<le> 0 then Inl BAD_ARG
      else if drop_bit 1 (- 1) < num_pulses cfg then Inl BAD_ARG
      else Inr \<lparr>outer_cfg = cfg, impl_cfg = cfg, pulses = 0,
                core = go kDEFAULT_MSG_TMO_MSECS (Task_ctor sz TaskConfig_ctor), data = (\<lambda>_. 0), fired = 0, total_fired = 0\<rparr>)"

section \<open>The handler\<close>

definition enabled :: "pulser \<Rightarrow> bool" where
  "enabled p \<longleftrightarrow> enable_periodic_msg (queue (qs (core p)))"

definition enable_pulses :: "bool \<Rightarrow> pulser \<Rightarrow> pulser" where
  "enable_pulses b p = p\<lparr>core := set_enable_periodic_msg b (core p)\<rparr>"

definition handle_start :: "pulser \<Rightarrow> exn option \<times> pulser" where
  "handle_start p =
     (let p = p\<lparr>pulses := 0, fired := 0\<rparr>
      in case set_periodic_msg_period (period_in_msecs (impl_cfg p)) (core p) of
           Inl e \<Rightarrow> (Some e, p)
         | Inr t \<Rightarrow> (None, p\<lparr>core := enable_precise_periodic_timing True (set_enable_periodic_msg True t)\<rparr>))"

definition handle_resume :: "pulser \<Rightarrow> pulser" where
  "handle_resume p = (if pulses p < num_pulses (impl_cfg p) then enable_pulses True p else p)"

definition call_callback :: "pulser \<Rightarrow> pulser" where
  "call_callback p = p\<lparr>fired := Suc (fired p), total_fired := Suc (total_fired p)\<rparr>"

definition handle_periodic :: "pulser \<Rightarrow> pulser" where
  "handle_periodic p =
     (if \<not> callback (impl_cfg p) then enable_pulses False p
      else
        let p = call_callback p
        in if num_pulses (impl_cfg p) \<noteq> 0 then
             let p = p\<lparr>pulses := pulses p + 1\<rparr>
             in if pulses p = num_pulses (impl_cfg p) then enable_pulses False p else p
           else p)"

definition handle_num_pulses :: "u64 \<Rightarrow> pulser \<Rightarrow> pulser" where
  "handle_num_pulses n p = p\<lparr>impl_cfg := (impl_cfg p)\<lparr>num_pulses := n\<rparr>\<rparr>"

definition handle_message :: "message \<Rightarrow> pulser \<Rightarrow> exn option \<times> pulser" where
  "handle_message m p =
     (if msg_type m = START_MSG then handle_start p
      else if msg_type m = RESUME_MSG then (None, handle_resume p)
      else if msg_type m = STOP_MSG \<or> msg_type m = SUSPEND_MSG then (None, enable_pulses False p)
      else if msg_type m = NUM_PULSES_CHANGED then (None, handle_num_pulses (data p (msg_id m)) p)
      else if msg_type m = TASK_PERIODIC then (None, handle_periodic p)
      else (None, p))"

section \<open>The calls of the clients\<close>

definition send :: "u64 \<Rightarrow> bool \<Rightarrow> pulser \<Rightarrow> pulser" where
  "send ty sync p = p\<lparr>core := (if sync then wait_type ty kDEFAULT_MSG_TMO_MSECS (core p) else post_type ty (core p))\<rparr>"

definition Pulser_start :: "bool \<Rightarrow> pulser \<Rightarrow> pulser" where "Pulser_start sync p = send START_MSG sync p"
definition Pulser_stop :: "bool \<Rightarrow> pulser \<Rightarrow> pulser" where "Pulser_stop sync p = send STOP_MSG sync p"
definition Pulser_suspend :: "bool \<Rightarrow> pulser \<Rightarrow> pulser" where "Pulser_suspend sync p = send SUSPEND_MSG sync p"
definition Pulser_resume :: "bool \<Rightarrow> pulser \<Rightarrow> pulser" where "Pulser_resume sync p = send RESUME_MSG sync p"

definition is_running :: "pulser \<Rightarrow> bool" where
  "is_running p = enabled p"

definition is_done :: "pulser \<Rightarrow> bool" where
  "is_done p \<longleftrightarrow> pulses p = num_pulses (impl_cfg p)"

text \<open>The message carries the number; the copy of the client is changed first.\<close>

definition set_num_pulses :: "u64 \<Rightarrow> pulser \<Rightarrow> pulser" where
  "set_num_pulses n p =
     (let p = p\<lparr>outer_cfg := (outer_cfg p)\<lparr>num_pulses := n\<rparr>, data := (data p)(next_id (core p) := n)\<rparr>
      in p\<lparr>core := wait_type NUM_PULSES_CHANGED 1000 (core p)\<rparr>)"

definition get_num_pulses :: "pulser \<Rightarrow> u64" where
  "get_num_pulses p = (if is_running p then num_pulses (impl_cfg p) else num_pulses (outer_cfg p))"

definition set_period :: "rat \<Rightarrow> pulser \<Rightarrow> exn option \<times> pulser" where
  "set_period ms p =
     (let p = p\<lparr>outer_cfg := (outer_cfg p)\<lparr>period_in_msecs := ms\<rparr>\<rparr>
      in case set_periodic_msg_period ms (core p) of
           Inl e \<Rightarrow> (Some e, p)
         | Inr t \<Rightarrow> (None, p\<lparr>core := t\<rparr>))"

definition get_period :: "pulser \<Rightarrow> rat" where
  "get_period p = (if is_running p then periodic_msg_period_ms (core p) else period_in_msecs (outer_cfg p))"

text \<open>The destructor: \<open>exit\<close>, which swallows what it throws.\<close>

definition Pulser_dtor :: "pulser \<Rightarrow> pulser" where
  "Pulser_dtor p = p\<lparr>core := exit_task (core p)\<rparr>"

section \<open>Events\<close>

text \<open>What the thread of the task and the waiting calls do on their own, without the handler.\<close>

fun own_event :: "task_event \<Rightarrow> bool" where
  "own_event (CPostReturns i k sg) = True"
| "own_event (CWaitReturns i tmo n w) = True"
| "own_event (RNext e) = True"
| "own_event (RNextReturns sg e) = True"
| "own_event RProcessed = True"
| "own_event RRelease = True"
| "own_event _ = False"

datatype pulse_event =
    Start bool | Stop bool | Suspend bool | Resume bool | Set_num u64 | Set_period rat | Destroy
  | Own task_event | Handle

definition handle_step :: "pulser \<Rightarrow> pulser option" where
  "handle_step p =
     (case run_st (core p) of
        Handling m \<Rightarrow>
          let (err, p') = handle_message m p
          in if calls (core p') = calls (core p)
             then Some (p'\<lparr>core := handler_returns m err (core p')\<rparr>) else None
      | _ \<Rightarrow> None)"

fun pulser_step :: "pulse_event \<Rightarrow> pulser \<Rightarrow> pulser option" where
  "pulser_step (Start sync) p = Some (Pulser_start sync p)"
| "pulser_step (Stop sync) p = Some (Pulser_stop sync p)"
| "pulser_step (Suspend sync) p = Some (Pulser_suspend sync p)"
| "pulser_step (Resume sync) p = Some (Pulser_resume sync p)"
| "pulser_step (Set_num n) p = Some (set_num_pulses n p)"
| "pulser_step (Set_period ms) p = Some (snd (set_period ms p))"
| "pulser_step Destroy p = Some (Pulser_dtor p)"
| "pulser_step (Own e) p = (if own_event e then map_option (\<lambda>t. p\<lparr>core := t\<rparr>) (tstep e (core p)) else None)"
| "pulser_step Handle p = handle_step p"

section \<open>What the queue of the task holds\<close>

text \<open>A change of the task that keeps the flag of the periodic messages and brings only messages of the types \<open>T\<close> into the queue.\<close>

definition quiet :: "u64 set \<Rightarrow> sys \<Rightarrow> sys \<Rightarrow> bool" where
  "quiet T s s' \<longleftrightarrow> enable_periodic_msg (queue s') = enable_periodic_msg (queue s)
     \<and> (\<forall>m \<in> set (pending s'). m \<in> set (pending s) \<or> msg_type m \<in> T)"

definition calm :: "u64 set \<Rightarrow> task \<Rightarrow> task \<Rightarrow> bool" where
  "calm T t t' \<longleftrightarrow> quiet T (qs t) (qs t') \<and> run_st t' = run_st t"

lemma quiet_refl [simp]: "quiet T s s" by (simp add: quiet_def)

lemma calm_trans: "calm T t t' \<Longrightarrow> calm T t' t'' \<Longrightarrow> calm T t t''"
  by (auto simp: calm_def quiet_def)

lemma calm_mono: "calm T t t' \<Longrightarrow> T \<subseteq> T' \<Longrightarrow> calm T' t t'"
  by (auto simp: calm_def quiet_def)

lemma calm_same: "qs t' = qs t \<Longrightarrow> run_st t' = run_st t \<Longrightarrow> calm T t t'"
  by (simp add: calm_def)

lemma pending_after_post:
  "set (pending (after_post m r s)) \<subseteq> set (msg_q (snd r)) \<union> set (map fst (producers s)) \<union> (if fst r = PostBlocked then {m} else {})"
  by (auto simp: after_post_def pending_def wake_up_def Let_def image_iff) force+

lemma pending_after_next: "set (pending (after_next r s)) \<subseteq> set (msg_q (snd r)) \<union> set (map fst (producers s))"
  by (auto simp: after_next_def pending_def wake_up_def Let_def image_iff) force+

lemma flag_after:
  "enable_periodic_msg (queue (after_post m r s)) = enable_periodic_msg (snd r)"
  "enable_periodic_msg (queue (after_next r' s)) = enable_periodic_msg (snd r')"
  by (simp_all add: after_post_def after_next_def wake_up_def Let_def)

lemma post_enter_msgs: "set (msg_q (snd (post_enter (Some m) q))) \<subseteq> insert m (set (msg_q q))"
  by (cases rule: post_enter_cases [of "Some m" q]) (auto simp: mq_fields)

lemma post_resume_msgs: "set (msg_q (snd (post_resume sg m q))) \<subseteq> insert m (set (msg_q q))"
  by (cases rule: post_resume_cases [of sg m q]) (auto simp: mq_fields)

lemma setup_flag: "same_setup q q' \<Longrightarrow> enable_periodic_msg q' = enable_periodic_msg q"
  by (simp add: same_setup_def)

lemmas setup_flags = setup_ops [THEN setup_flag]

lemma quiet_post: "quiet {msg_type m} s (after_post m (post_enter (Some m) (queue s)) (s\<lparr>offered := l\<rparr>))"
  using pending_after_post [of m "post_enter (Some m) (queue s)" "s\<lparr>offered := l\<rparr>"] post_enter_msgs [of m "queue s"]
  by (auto simp: quiet_def flag_after setup_flags pending_def split: if_splits)

lemma quiet_post_returns:
  assumes "producers s = ps @ (m, n) # ps'"
  shows "quiet {} s (after_post m (post_resume sg m (queue s)) (s\<lparr>producers := ps @ ps'\<rparr>))"
  using pending_after_post [of m "post_resume sg m (queue s)" "s\<lparr>producers := ps @ ps'\<rparr>"]
    post_resume_msgs [of sg m "queue s"] assms
  by (auto simp: quiet_def flag_after setup_flags pending_def split: if_splits)

lemma obj_release_calm [simp]: "calm T t (obj_release i t)" "calm T t (obj_duplicate i t)"
  by (auto simp: calm_def obj_release_def obj_duplicate_def split: option.split)

lemma calm_new: "calm T t (new_message ty p w t)"
  by (simp add: calm_def new_message_def)

lemma after_posting_calm: "calm T t (after_posting i k r t)"
  by (rule calm_same) simp_all

lemma post_msg_calm:
  assumes "heap t i = Some ob" and "msg_type (obj_msg ob) \<in> T"
  shows "calm T t (post_msg i k t)"
proof -
  let ?r = "post_enter (Some (obj_msg ob)) (queue (qs t))"
  let ?s = "after_post (obj_msg ob) ?r ((qs t)\<lparr>offered := obj_msg ob # offered (qs t)\<rparr>)"
  have "post_msg i k t = after_posting i k (fst ?r) (adopt ?s t)" using assms by (simp add: post_msg_def Let_def)
  moreover have "quiet {msg_type (obj_msg ob)} (qs t) ?s" by (rule quiet_post)
  then have "quiet T (qs t) ?s" using assms(2) by (auto simp: quiet_def)
  ultimately show ?thesis by (simp add: calm_def adopt_fields)
qed

lemma post_type_calm: "ty \<in> T \<Longrightarrow> calm T t (post_type ty t)"
  unfolding post_type_def
  by (rule calm_trans [OF calm_new post_msg_calm]) (auto simp: new_message_def)

lemma wait_type_calm: "ty \<in> T \<Longrightarrow> calm T t (wait_type ty tmo t)"
proof -
  assume ty: "ty \<in> T"
  let ?t = "obj_duplicate (next_id t) (new_message ty DEFAULT_MSG_PRIORITY True t)"
  have "wait_type ty tmo t = post_msg (next_id t) (Some tmo) ?t"
    by (simp add: wait_type_def wait_msg_handled_def new_message_def)
  moreover have "calm T t ?t" by (rule calm_trans [OF calm_new [of T t ty DEFAULT_MSG_PRIORITY True]]) simp
  moreover have "calm T ?t (post_msg (next_id t) (Some tmo) ?t)"
    by (rule post_msg_calm) (use ty in \<open>auto simp: obj_duplicate_def new_message_def\<close>)
  ultimately show ?thesis using calm_trans by metis
qed

text \<open>The messages of the pulser, and the state of the thread with respect to the two types that it does not post.\<close>

definition pulser_types :: "u64 set" where
  "pulser_types = {START_MSG, STOP_MSG, SUSPEND_MSG, RESUME_MSG, TASK_INIT, TASK_WAKEUP, TASK_EXIT}"

definition special :: "u64 \<Rightarrow> bool" where
  "special ty \<longleftrightarrow> ty = TASK_PERIODIC \<or> ty = NUM_PULSES_CHANGED"

definition flag :: "task \<Rightarrow> bool" where
  "flag t = enable_periodic_msg (queue (qs t))"

text \<open>A periodic message is handled only while they are enabled, and none of the other type is.\<close>

definition tidy :: "task \<Rightarrow> bool" where
  "tidy t \<longleftrightarrow> (\<forall>m \<in> set (pending (qs t)). \<not> special (msg_type m))
     \<and> (case run_st t of Handling m \<Rightarrow> special (msg_type m) \<longrightarrow> msg_type m = TASK_PERIODIC \<and> flag t | _ \<Rightarrow> True)"

lemmas pulser_msgs = START_MSG_def STOP_MSG_def SUSPEND_MSG_def RESUME_MSG_def NUM_PULSES_CHANGED_def FIRST_USER_MSG_def
  TASK_INIT_def TASK_TIMEOUT_def TASK_PERIODIC_def TASK_WAKEUP_def TASK_EXIT_def

lemma special_types: "ty \<in> pulser_types \<Longrightarrow> \<not> special ty" "special TASK_PERIODIC" "\<not> special TASK_TIMEOUT"
  by (auto simp: pulser_types_def special_def pulser_msgs)

lemma calm_tidy: "calm pulser_types t t' \<Longrightarrow> tidy t \<Longrightarrow> tidy t' \<and> flag t' = flag t"
  using special_types(1) by (auto simp: calm_def quiet_def tidy_def flag_def split: run_state.splits)

lemma calm_empty: "calm {} t t' \<Longrightarrow> calm T t t'"
  by (rule calm_mono) auto

lemma handling_run_loop:
  assumes "run_st t = Calling ph' \<or> run_st t = Blocked ph'" and "run_st (run_loop ph r t) = Handling m"
  shows "r = NextMsg m \<or> r = NextGenerated (msg_type m)"
  using assms
  by (cases ph; cases r)
    (auto simp: init_loop_def main_loop_def begin_handling_def fresh_message_def new_message_def split: if_splits)

text \<open>What a call of \<open>next_message\<close> gives.\<close>

lemma next_gives:
  "fst (next_call e t) = NextGenerated ty \<Longrightarrow> special ty \<Longrightarrow> ty = TASK_PERIODIC \<and> flag t"
  "fst (next_wakes sg e t) = NextGenerated ty \<Longrightarrow> special ty \<Longrightarrow> ty = TASK_PERIODIC \<and> flag t"
  "fst (next_call e t) = NextMsg m \<Longrightarrow> m \<in> set (msg_q (queue (qs t)))"
  "fst (next_wakes sg e t) = NextMsg m \<Longrightarrow> m \<in> set (msg_q (queue (qs t)))"
  by (auto simp: next_call_def next_wakes_def next_ops next_ex_ops flag_def special_types split: if_splits)

lemma next_keeps:
  "enable_periodic_msg (snd (next_call e t)) = flag t" "enable_periodic_msg (snd (next_wakes sg e t)) = flag t"
  "set (msg_q (snd (next_call e t))) \<subseteq> set (msg_q (queue (qs t)))"
  "set (msg_q (snd (next_wakes sg e t))) \<subseteq> set (msg_q (queue (qs t)))"
proof -
  have s: "set (msg_q q') \<subseteq> set (msg_q q)" if "msg_q q = x @ msg_q q'" for q q' x using that by simp
  have "set (msg_q (snd (next_enter e q))) \<subseteq> set (msg_q q)" "set (msg_q (snd (next_ex_enter e q))) \<subseteq> set (msg_q q)" for q
    using next_enter_effect [of e q] next_ex_effect(1) [of e q] s by blast+
  then show "set (msg_q (snd (next_call e t))) \<subseteq> set (msg_q (queue (qs t)))" by (simp add: next_call_def)
  have "set (msg_q (snd (next_resume sg e q))) \<subseteq> set (msg_q q)" "set (msg_q (snd (next_ex_resume sg q))) \<subseteq> set (msg_q q)" for q
    using next_resume_effect [of sg e q] next_ex_effect(2) [of sg q] s by blast+
  then show "set (msg_q (snd (next_wakes sg e t))) \<subseteq> set (msg_q (queue (qs t)))" by (simp add: next_wakes_def)
qed (auto simp: next_call_def next_wakes_def flag_def setup_flags)

lemma run_loop_tidy:
  assumes "tidy t" and "run_st t = Calling ph' \<or> run_st t = Blocked ph'"
    and g: "\<And>ty. fst r = NextGenerated ty \<Longrightarrow> special ty \<Longrightarrow> ty = TASK_PERIODIC \<and> flag t"
    and m: "\<And>m. fst r = NextMsg m \<Longrightarrow> m \<in> set (msg_q (queue (qs t)))"
    and k: "enable_periodic_msg (snd r) = flag t" "set (msg_q (snd r)) \<subseteq> set (msg_q (queue (qs t)))"
    and s: "producers s = producers (qs t)"
  shows "tidy (run_loop ph (fst r) (t\<lparr>qs := after_next r s\<rparr>)) \<and> flag (run_loop ph (fst r) (t\<lparr>qs := after_next r s\<rparr>)) = flag t"
proof -
  let ?u = "t\<lparr>qs := after_next r s\<rparr>"
  have f: "flag (run_loop ph (fst r) ?u) = flag t" by (simp add: flag_def run_loop_fields flag_after k(1))
  have "set (pending (after_next r s)) \<subseteq> set (msg_q (snd r)) \<union> set (map fst (producers s))" by (rule pending_after_next)
  also have "\<dots> \<subseteq> set (pending (qs t))" unfolding pending_def set_append s using k(2) by blast
  finally have p: "\<not> special (msg_type x)" if "x \<in> set (pending (after_next r s))" for x
    using that assms(1) unfolding tidy_def by blast
  have "special (msg_type x) \<longrightarrow> msg_type x = TASK_PERIODIC \<and> flag t" if x: "run_st (run_loop ph (fst r) ?u) = Handling x" for x
  proof -
    have "fst r = NextMsg x \<or> fst r = NextGenerated (msg_type x)"
      using handling_run_loop [OF _ x, of ph'] assms(2) by simp
    then show ?thesis using g m assms(1) by (auto simp: tidy_def pending_def)
  qed
  then show ?thesis using f p by (auto simp: tidy_def run_loop_fields split: run_state.splits)
qed

lemma split_producer_pending: "split_producer i ps = Some (xs, m, ys) \<Longrightarrow> \<exists>n. ps = xs @ (m, n) # ys"
proof (induction ps arbitrary: xs)
  case (Cons a ps)
  then show ?case by (cases a) (auto split: if_splits option.splits)
qed simp

lemma own_event_tidy:
  assumes "own_event e" and "tstep e t = Some t'" and "tidy t"
  shows "tidy t' \<and> flag t' = flag t"
proof (cases e)
  case (CPostReturns i k sg)
  then obtain ps m ps' where s: "split_producer i (producers (qs t)) = Some (ps, m, ps')"
      "t' = (let r = post_resume sg m (queue (qs t)); s = after_post m r ((qs t)\<lparr>producers := ps @ ps'\<rparr>)
             in after_posting i k (fst r) (adopt s (t\<lparr>calls := remove1 (Posting i k) (calls t)\<rparr>)))"
    using assms(2) CPostReturns by (auto simp: post_returns_def Let_def split: option.splits if_splits)
  then obtain n where "producers (qs t) = ps @ (m, n) # ps'" using split_producer_pending by blast
  from quiet_post_returns [OF this, of sg] have "calm {} t t'" by (simp add: s(2) calm_def Let_def)
  then show ?thesis using calm_tidy [OF calm_empty] assms(3) by blast
next
  case (CWaitReturns i tmo n w)
  then have "calm {} t t'" using assms(2) CWaitReturns
    by (auto simp: wait_returns_def finish_wait_def add_outcome_def intro!: calm_same split: if_splits option.splits)
  then show ?thesis using calm_tidy [OF calm_empty] assms(3) by blast
next
  case (RNext x)
  then obtain ph where ph: "run_st t = Calling ph"
      "t' = run_loop ph (fst (next_call x t)) (t\<lparr>qs := after_next (next_call x t) (qs t)\<rparr>)"
    using assms(2) RNext by (auto simp: run_next_def Let_def split: run_state.splits)
  then show ?thesis using run_loop_tidy [OF assms(3), of ph "next_call x t" "qs t" ph] next_gives next_keeps by simp
next
  case (RNextReturns sg x)
  then obtain ph where ph: "run_st t = Blocked ph"
      "t' = run_loop ph (fst (next_wakes sg x t)) (t\<lparr>qs := after_next (next_wakes sg x t) ((qs t)\<lparr>consumers := []\<rparr>)\<rparr>)"
    using assms(2) RNextReturns by (auto simp: run_next_returns_def Let_def split: run_state.splits if_splits)
  then show ?thesis using run_loop_tidy [OF assms(3), of ph "next_wakes sg x t" "(qs t)\<lparr>consumers := []\<rparr>" ph] next_gives next_keeps by simp
next
  case RProcessed
  then show ?thesis using assms(2,3) RProcessed by (auto simp: mark_processed_def tidy_def flag_def split: run_state.splits)
next
  case RRelease
  then obtain m where m: "run_st t = Releasing m" "t' = release_handled m t" using assms(2) RRelease by (auto split: run_state.splits)
  define u where "u = obj_release (msg_id m) t"
  have u: "enable_periodic_msg (queue (qs u)) = flag t" "set (pending (qs u)) \<subseteq> set (pending (qs t))"
    using obj_release_calm(1) [of "{}" t "msg_id m"] by (auto simp: u_def calm_def quiet_def flag_def)
  have w: "pending (wake_up ((qs u)\<lparr>queue := close (queue (qs u))\<rparr>)) = pending (qs u)"
    by (simp add: pending_def mq_fields)
  have c: "enable_periodic_msg (close q) = enable_periodic_msg q" for q by (rule setup_flags)
  show ?thesis
    using assms(3) u unfolding m(2) release_handled_def Let_def u_def [symmetric]
    by (auto simp: tidy_def flag_def w c)
qed (use assms(1) in simp_all)

section \<open>The number of pulses\<close>

definition pulse_inv :: "u64 \<Rightarrow> pulser \<Rightarrow> bool" where
  "pulse_inv N p \<longleftrightarrow> tidy (core p) \<and> num_pulses (impl_cfg p) = N \<and> N \<noteq> 0 \<and> callback (impl_cfg p)
     \<and> fired p = unat (pulses p) \<and> pulses p \<le> N \<and> (flag (core p) \<longrightarrow> pulses p < N)"

definition plain_queue :: "task \<Rightarrow> bool" where
  "plain_queue t \<longleftrightarrow> (\<forall>m \<in> set (pending (qs t)). \<not> special (msg_type m))"

lemma tidy_plain: "tidy t \<Longrightarrow> plain_queue t"
  by (simp add: tidy_def plain_queue_def)

lemma calm_plain: "calm pulser_types t t' \<Longrightarrow> plain_queue t \<Longrightarrow> plain_queue t' \<and> flag t' = flag t"
  using special_types(1) by (auto simp: calm_def quiet_def plain_queue_def flag_def)

lemma plain_returns: "plain_queue t \<Longrightarrow> tidy (handler_returns m err t) \<and> flag (handler_returns m err t) = flag t"
  by (auto simp: handler_returns_def tidy_def plain_queue_def flag_def split: option.split)

lemma wakeup_type: "TASK_WAKEUP \<in> pulser_types" "TASK_EXIT \<in> pulser_types" "TASK_INIT \<in> pulser_types"
  "START_MSG \<in> pulser_types" "STOP_MSG \<in> pulser_types" "SUSPEND_MSG \<in> pulser_types" "RESUME_MSG \<in> pulser_types"
  by (simp_all add: pulser_types_def)

lemma set_enable_plain:
  assumes "plain_queue t"
  shows "plain_queue (set_enable_periodic_msg b t) \<and> flag (set_enable_periodic_msg b t) = b"
proof -
  define u where "u = t\<lparr>qs := (qs t)\<lparr>queue := (queue (qs t))\<lparr>enable_periodic_msg := b\<rparr>\<rparr>\<rparr>"
  have u: "plain_queue u" "flag u = b" using assms by (simp_all add: u_def plain_queue_def pending_def flag_def)
  have "set_enable_periodic_msg b t = u \<or> set_enable_periodic_msg b t = post_type TASK_WAKEUP u"
    by (simp add: set_enable_periodic_msg_def Let_def flip: u_def)
  then show ?thesis using u calm_plain [OF post_type_calm [OF wakeup_type(1)] u(1)] by auto
qed

lemma precise_plain:
  assumes "plain_queue t"
  shows "plain_queue (enable_precise_periodic_timing b t) \<and> flag (enable_precise_periodic_timing b t) = flag t"
proof -
  define u where "u = t\<lparr>precise_periodic_timing_enabled := b\<rparr>"
  have u: "plain_queue u" "flag u = flag t" using assms by (simp_all add: u_def plain_queue_def pending_def flag_def)
  have "enable_precise_periodic_timing b t = u \<or> enable_precise_periodic_timing b t = post_type TASK_WAKEUP u"
    by (simp add: enable_precise_periodic_timing_def Let_def flip: u_def)
  then show ?thesis using u calm_plain [OF post_type_calm [OF wakeup_type(1)] u(1)] by auto
qed

text \<open>What the handler leaves, up to the state of the thread.\<close>

definition handled_ok :: "u64 \<Rightarrow> pulser \<Rightarrow> bool" where
  "handled_ok N p \<longleftrightarrow> plain_queue (core p) \<and> num_pulses (impl_cfg p) = N \<and> N \<noteq> 0 \<and> callback (impl_cfg p)
     \<and> fired p = unat (pulses p) \<and> pulses p \<le> N \<and> (flag (core p) \<longrightarrow> pulses p < N)"

lemma pulse_inv_handled: "pulse_inv N p \<Longrightarrow> handled_ok N p"
  by (simp add: pulse_inv_def handled_ok_def tidy_plain)

lemma enable_pulses_ok:
  "handled_ok N p \<Longrightarrow> (b \<Longrightarrow> pulses p < N) \<Longrightarrow> handled_ok N (enable_pulses b p)"
  using set_enable_plain [of "core p" b] by (auto simp: handled_ok_def enable_pulses_def)

lemma handle_start_ok:
  assumes "handled_ok N p" shows "handled_ok N (snd (handle_start p))"
proof (cases "set_periodic_msg_period (period_in_msecs (impl_cfg p)) (core p)")
  case (Inl e)
  then show ?thesis using assms by (auto simp: handle_start_def handled_ok_def word_gt_0)
next
  case (Inr t)
  then have "plain_queue t" using assms
    by (auto simp: set_periodic_msg_period_def handled_ok_def plain_queue_def split: if_splits)
  then have "plain_queue (enable_precise_periodic_timing True (set_enable_periodic_msg True t))"
    using set_enable_plain precise_plain by blast
  then show ?thesis using assms Inr by (auto simp: handle_start_def handled_ok_def word_gt_0)
qed

lemma handle_periodic_ok:
  assumes "handled_ok N p" and "flag (core p)"
  shows "handled_ok N (handle_periodic p)"
proof -
  have p: "pulses p < N" "callback (impl_cfg p)" "num_pulses (impl_cfg p) = N" "N \<noteq> 0" "fired p = unat (pulses p)" "plain_queue (core p)"
    using assms by (auto simp: handled_ok_def)
  have "unat (pulses p) < unat N" "unat N < 2 ^ 64"
    using p(1) unsigned_less [of N, where ?'a = nat] by (simp_all add: word_less_nat_alt)
  then have n: "unat (pulses p + 1) = Suc (unat (pulses p))" "pulses p + 1 \<le> N"
    by (simp_all add: unat_word_ariths word_le_nat_alt)
  let ?p = "(call_callback p)\<lparr>pulses := pulses p + 1\<rparr>"
  show ?thesis
  proof (cases "pulses p + 1 = N")
    case True
    have "handle_periodic p = enable_pulses False ?p"
      using p True by (simp add: handle_periodic_def call_callback_def Let_def)
    moreover have "plain_queue (set_enable_periodic_msg False (core p)) \<and> \<not> flag (set_enable_periodic_msg False (core p))"
      using set_enable_plain [OF p(6)] by simp
    ultimately show ?thesis using p n by (simp add: handled_ok_def enable_pulses_def call_callback_def)
  next
    case False
    then have "handle_periodic p = ?p"
      using p by (simp add: handle_periodic_def call_callback_def Let_def)
    moreover have "pulses p + 1 < N" using n(2) False by simp
    ultimately show ?thesis using p n by (simp add: handled_ok_def call_callback_def)
  qed
qed

lemma handle_message_ok:
  assumes "handled_ok N p" and "msg_type m \<noteq> NUM_PULSES_CHANGED" and "msg_type m = TASK_PERIODIC \<Longrightarrow> flag (core p)"
  shows "handled_ok N (snd (handle_message m p))"
proof -
  have "num_pulses (impl_cfg p) = N" using assms(1) by (simp add: handled_ok_def)
  then have "handled_ok N (handle_resume p)"
    using enable_pulses_ok [OF assms(1), of True] assms(1) by (simp add: handle_resume_def)
  then show ?thesis
    using assms handle_start_ok [OF assms(1)] enable_pulses_ok [OF assms(1), of False] handle_periodic_ok [OF assms(1)]
    by (simp add: handle_message_def)
qed

lemma handle_step_inv:
  assumes "handle_step p = Some p'" and "pulse_inv N p"
  shows "pulse_inv N p'"
proof -
  obtain m where m: "run_st (core p) = Handling m" using assms(1) by (auto simp: handle_step_def split: run_state.splits)
  obtain err q where q: "handle_message m p = (err, q)" by (cases "handle_message m p")
  have p': "p' = q\<lparr>core := handler_returns m err (core q)\<rparr>"
    using assms(1) m q by (simp add: handle_step_def split: if_splits)
  have "special (msg_type m) \<longrightarrow> msg_type m = TASK_PERIODIC \<and> flag (core p)"
    using assms(2) m by (simp add: pulse_inv_def tidy_def)
  moreover have "NUM_PULSES_CHANGED \<noteq> TASK_PERIODIC" by (simp add: pulser_msgs)
  ultimately have "msg_type m \<noteq> NUM_PULSES_CHANGED" "msg_type m = TASK_PERIODIC \<Longrightarrow> flag (core p)"
    by (auto simp: special_def)
  then have "handled_ok N q" using handle_message_ok [OF pulse_inv_handled [OF assms(2)], of m] q by simp
  then show ?thesis using plain_returns [of "core q" m err] by (simp add: p' pulse_inv_def handled_ok_def)
qed

lemma core_inv:
  "pulse_inv N p \<Longrightarrow> calm pulser_types (core p) t \<Longrightarrow> pulse_inv N (p\<lparr>core := t\<rparr>)"
  using calm_tidy by (auto simp: pulse_inv_def)

lemma send_inv: "pulse_inv N p \<Longrightarrow> ty \<in> pulser_types \<Longrightarrow> pulse_inv N (send ty sync p)"
  using core_inv post_type_calm wait_type_calm by (simp add: send_def)

lemma exit_task_calm: "calm pulser_types t (exit_task t)"
proof -
  let ?t = "obj_duplicate (next_id t) (new_message TASK_EXIT HIGHEST_MSG_PRIORITY True t)"
  have "wait_msg_handled (next_id t) 0 (new_message TASK_EXIT HIGHEST_MSG_PRIORITY True t) = post_msg (next_id t) (Some 0) ?t"
    by (simp add: wait_msg_handled_def new_message_def)
  moreover have "calm pulser_types t ?t" by (rule calm_trans [OF calm_new [of _ t TASK_EXIT HIGHEST_MSG_PRIORITY True]]) simp
  moreover have "calm pulser_types ?t (post_msg (next_id t) (Some 0) ?t)"
    by (rule post_msg_calm) (auto simp: obj_duplicate_def new_message_def wakeup_type)
  ultimately show ?thesis using calm_trans by (auto simp: exit_task_def intro: calm_same)
qed

fun sets_number :: "pulse_event \<Rightarrow> bool" where
  "sets_number (Set_num n) = True"
| "sets_number _ = False"

lemma set_period_fields [simp]:
  "qs (core (snd (set_period ms p))) = qs (core p)" "run_st (core (snd (set_period ms p))) = run_st (core p)"
  "impl_cfg (snd (set_period ms p)) = impl_cfg p" "pulses (snd (set_period ms p)) = pulses p"
  "fired (snd (set_period ms p)) = fired p" "flag (core (snd (set_period ms p))) = flag (core p)"
  by (simp_all add: flag_def set_period_def set_periodic_msg_period_def Let_def)

lemma tidy_cong: "qs t' = qs t \<Longrightarrow> run_st t' = run_st t \<Longrightarrow> tidy t' = tidy t"
  by (simp only: tidy_def flag_def)

lemma pulser_step_inv:
  assumes "pulse_inv N p" and "\<not> sets_number e" and "pulser_step e p = Some p'"
  shows "pulse_inv N p'"
proof (cases e)
  case (Set_period ms)
  then have p': "p' = snd (set_period ms p)" using assms(3) by simp
  show ?thesis using assms(1) tidy_cong [of "core p'" "core p"] unfolding p' pulse_inv_def by simp
next
  case (Own f)
  then show ?thesis using assms own_event_tidy [of f "core p"] by (auto simp: pulse_inv_def split: if_splits)
qed (use assms send_inv core_inv exit_task_calm handle_step_inv wakeup_type in
    \<open>auto simp: Pulser_start_def Pulser_stop_def Pulser_suspend_def Pulser_resume_def Pulser_dtor_def\<close>)

interpretation pulses: guarded_invariant pulser_step "\<lambda>e p. \<not> sets_number e" "pulse_inv N" for N
  by unfold_locales (rule pulser_step_inv)

lemma along_no_number: "\<not> list_ex sets_number es \<Longrightarrow> along pulser_step (\<lambda>e p. \<not> sets_number e) es p"
  by (induction es arbitrary: p) (auto split: option.splits)

lemma go_calm: "tidy t \<Longrightarrow> tidy (go tmo t) \<and> flag (go tmo t) = flag t"
proof -
  assume t: "tidy t"
  let ?s = "start_undetached t"
  let ?n = "new_message TASK_INIT HIGHEST_MSG_PRIORITY True ?s"
  let ?u = "obj_duplicate (next_id ?s) ?n"
  have s: "tidy ?s" "flag ?s = flag t" using t by (auto simp: start_undetached_def tidy_def flag_def)
  have g: "go tmo t = post_msg (next_id ?s) (Some tmo) ?u"
    by (simp add: go_def Let_def wait_msg_handled_def new_message_def)
  have "calm pulser_types ?s ?u" by (rule calm_trans [OF calm_new [of _ ?s TASK_INIT HIGHEST_MSG_PRIORITY True]]) simp
  moreover have "calm pulser_types ?u (post_msg (next_id ?s) (Some tmo) ?u)"
    by (rule post_msg_calm) (auto simp: obj_duplicate_def new_message_def wakeup_type)
  ultimately have "calm pulser_types ?s (go tmo t)" using calm_trans g by metis
  then show ?thesis using calm_tidy [of ?s "go tmo t"] s by simp
qed

lemma Pulser_ctor_inv:
  assumes "Pulser_ctor sz cfg = Inr p" and "callback cfg" and "num_pulses cfg \<noteq> 0"
  shows "pulse_inv (num_pulses cfg) p"
proof -
  have "tidy (Task_ctor sz TaskConfig_ctor) \<and> \<not> flag (Task_ctor sz TaskConfig_ctor)"
    by (simp add: Task_ctor_def TaskConfig_ctor_def tidy_def flag_def pending_def start_def MessageQ_ctor_def)
  moreover have "core p = go kDEFAULT_MSG_TMO_MSECS (Task_ctor sz TaskConfig_ctor)" "impl_cfg p = cfg" "pulses p = 0" "fired p = 0"
    using assms(1) by (auto simp: Pulser_ctor_def split: if_splits)
  ultimately show ?thesis using assms(2,3) go_calm [of "Task_ctor sz TaskConfig_ctor" kDEFAULT_MSG_TMO_MSECS]
    by (simp add: pulse_inv_def)
qed

lemma handle_start_fields:
  assumes "0 \<le> period_in_msecs (impl_cfg p)"
  shows "pulses (snd (handle_start p)) = 0 \<and> fired (snd (handle_start p)) = 0 \<and> impl_cfg (snd (handle_start p)) = impl_cfg p
     \<and> fst (handle_start p) = None"
  using assms by (simp add: handle_start_def set_periodic_msg_period_def Let_def)

lemma post_type_flag: "flag (post_type ty t) = flag t"
  using post_type_calm [of ty UNIV t] by (simp add: calm_def quiet_def flag_def)

lemma set_enable_flag: "flag (set_enable_periodic_msg b t) = b"
  by (simp add: set_enable_periodic_msg_def Let_def post_type_flag) (simp add: flag_def)

lemma precise_flag: "flag (enable_precise_periodic_timing b t) = flag t"
  by (simp add: enable_precise_periodic_timing_def Let_def post_type_flag) (simp add: flag_def)

lemma enabled_flag: "enabled p = flag (core p)"
  by (simp add: enabled_def flag_def)

lemma periodic_fields:
  "impl_cfg (handle_periodic p) = impl_cfg p"
  "callback (impl_cfg p) \<Longrightarrow> fired (handle_periodic p) = Suc (fired p)"
  "callback (impl_cfg p) \<Longrightarrow> num_pulses (impl_cfg p) \<noteq> 0 \<Longrightarrow> pulses (handle_periodic p) = pulses p + 1"
  "callback (impl_cfg p) \<Longrightarrow> num_pulses (impl_cfg p) \<noteq> 0 \<Longrightarrow>
     enabled (handle_periodic p) = (if pulses p + 1 = num_pulses (impl_cfg p) then False else enabled p)"
  by (simp_all add: handle_periodic_def call_callback_def enable_pulses_def enabled_flag set_enable_flag Let_def)

lemma periodic_iterate:
  assumes "callback (impl_cfg p)" and "num_pulses (impl_cfg p) \<noteq> 0"
    and "\<And>j. 0 < j \<Longrightarrow> j \<le> k \<Longrightarrow> pulses p + of_nat j \<noteq> num_pulses (impl_cfg p)"
  shows "fired ((handle_periodic ^^ k) p) = fired p + k \<and> pulses ((handle_periodic ^^ k) p) = pulses p + of_nat k
     \<and> impl_cfg ((handle_periodic ^^ k) p) = impl_cfg p \<and> enabled ((handle_periodic ^^ k) p) = enabled p"
  using assms(3)
proof (induction k)
  case (Suc k)
  have "pulses p + of_nat (Suc k) \<noteq> num_pulses (impl_cfg p)" by (rule Suc.prems) simp_all
  then have "pulses p + of_nat k + 1 \<noteq> num_pulses (impl_cfg p)" by (simp add: ac_simps)
  moreover have "fired ((handle_periodic ^^ k) p) = fired p + k \<and> pulses ((handle_periodic ^^ k) p) = pulses p + of_nat k
     \<and> impl_cfg ((handle_periodic ^^ k) p) = impl_cfg p \<and> enabled ((handle_periodic ^^ k) p) = enabled p"
    using Suc by auto
  ultimately show ?case using assms(1,2) by (simp add: periodic_fields ac_simps)
qed simp

lemma handle_start_enabled: "0 \<le> period_in_msecs (impl_cfg p) \<Longrightarrow> enabled (snd (handle_start p))"
  by (simp add: handle_start_def set_periodic_msg_period_def Let_def enabled_flag precise_flag set_enable_flag)

text \<open>The period is not touched by posts.\<close>

lemma period_fold: "periodic_msg_period_ms (fold (\<lambda>m. obj_release (msg_id m)) ms t) = periodic_msg_period_ms t"
  by (induction ms arbitrary: t) (simp_all add: obj_release_def split: option.split)

lemma period_post_type: "periodic_msg_period_ms (post_type ty t) = periodic_msg_period_ms t"
  by (simp add: post_type_def post_msg_def new_message_def Let_def after_posting_def add_outcome_def adopt_def period_fold
      split: post_result.split)

lemma start_period:
  assumes "0 \<le> period_in_msecs (impl_cfg p)"
  shows "periodic_msg_period_ms (core (snd (handle_start p))) = period_in_msecs (impl_cfg p)"
  using assms
  by (simp add: handle_start_def set_periodic_msg_period_def Let_def enable_precise_periodic_timing_def set_enable_periodic_msg_def
      period_post_type)

section \<open>Properties\<close>

text \<open>C20: A pulser does not call its callback more often than it was told. With the task and its queue as they are, in every
interleaving of calls of the clients, of the waits and of the thread, from the constructor with a number of pulses and a callback, and
without \<open>set_num_pulses\<close>: since the last start that was handled there have been at most that many calls, \<open>is_done\<close> says exactly
whether there have been all, and the pulser does not run then.\<close>

theorem pulser_count:
  assumes "Pulser_ctor sz cfg = Inr p" and "callback cfg" and "num_pulses cfg \<noteq> 0"
    and "\<not> list_ex sets_number es" and "Transitions.runs pulser_step es p = Some q"
  shows "fired q \<le> unat (num_pulses cfg) \<and> (is_done q \<longleftrightarrow> fired q = unat (num_pulses cfg)) \<and> \<not> (is_done q \<and> is_running q)"
proof -
  have "pulse_inv (num_pulses cfg) q"
    using pulses.holds_after [OF Pulser_ctor_inv [OF assms(1-3)] along_no_number [OF assms(4)] assms(5)] .
  then show ?thesis
    by (auto simp: pulse_inv_def is_done_def is_running_def enabled_def flag_def word_le_nat_alt word_less_nat_alt word_unat_eq_iff)
qed

text \<open>The handler reaches the number. After a start, each periodic message calls the callback, and the one that makes the number
complete disables them.\<close>

theorem pulser_completes:
  assumes "callback (impl_cfg p)" and "num_pulses (impl_cfg p) \<noteq> 0" and "0 \<le> period_in_msecs (impl_cfg p)"
    and "k \<le> unat (num_pulses (impl_cfg p))"
  shows "fired ((handle_periodic ^^ k) (snd (handle_start p))) = k
     \<and> is_running ((handle_periodic ^^ k) (snd (handle_start p))) = (k < unat (num_pulses (impl_cfg p)))"
proof -
  let ?p = "snd (handle_start p)" and ?N = "num_pulses (impl_cfg p)"
  note s = handle_start_fields [OF assms(3)]
  have en: "enabled ?p" by (rule handle_start_enabled [OF assms(3)])
  have less: "fired ((handle_periodic ^^ j) ?p) = j \<and> pulses ((handle_periodic ^^ j) ?p) = of_nat j
     \<and> impl_cfg ((handle_periodic ^^ j) ?p) = impl_cfg p \<and> enabled ((handle_periodic ^^ j) ?p)" if j: "j < unat ?N" for j
  proof -
    have "of_nat i \<noteq> ?N" if "i \<le> j" for i
    proof
      assume "of_nat i = ?N"
      then have "unat ?N = i mod 2 ^ 64" using unat_of_nat [where ?'a = 64, of i] by simp
      then show False using that j by (metis le_less_trans mod_less_eq_dividend not_less)
    qed
    then show ?thesis using periodic_iterate [of ?p j] assms(1,2) s en by simp
  qed
  show ?thesis
  proof (cases "k < unat ?N")
    case True
    then show ?thesis using less by (simp add: is_running_def)
  next
    case False
    then obtain j where j: "k = Suc j" "unat ?N = Suc j" using assms(2,4) by (cases "unat ?N") (auto simp: unat_eq_zero)
    have "of_nat (unat ?N) = ?N" by simp
    then have "of_nat j + 1 = ?N" unfolding j(2) by (simp add: ac_simps)
    then show ?thesis unfolding j using less [of j] j(2) assms(1,2) by (simp add: periodic_fields is_running_def)
  qed
qed

lemma sample_pulser_ctor: "\<exists>p. Pulser_ctor 64 \<lparr>period_in_msecs = 10, num_pulses = 2, callback = True\<rparr> = Inr p
   \<and> impl_cfg p = \<lparr>period_in_msecs = 10, num_pulses = 2, callback = True\<rparr>"
proof -
  have "\<not> (drop_bit 1 (- 1) < (2 :: u64))" by code_simp
  then show ?thesis by (simp add: Pulser_ctor_def)
qed

lemma sample_pulser: "\<exists>p :: pulser. impl_cfg p = \<lparr>period_in_msecs = 10, num_pulses = 2, callback = True\<rparr>"
  using sample_pulser_ctor by (elim exE conjE) (rule exI, assumption)

lemma pulser_count_witness:
  "\<exists>p q. Transitions.runs pulser_step [Start False, Stop False] p = Some q \<and> fired q \<le> 2 \<and> (is_done q \<longleftrightarrow> fired q = 2)"
proof -
  obtain p where p: "Pulser_ctor 64 \<lparr>period_in_msecs = 10, num_pulses = 2, callback = True\<rparr> = Inr p" using sample_pulser_ctor by (elim exE conjE)
  let ?q = "Pulser_stop False (Pulser_start False p)"
  have r: "Transitions.runs pulser_step [Start False, Stop False] p = Some ?q" by simp
  show ?thesis using pulser_count [OF p _ _ _ r] r by auto
qed

lemma pulser_completes_witness:
  "\<exists>p. fired ((handle_periodic ^^ 2) (snd (handle_start p))) = 2 \<and> \<not> is_running ((handle_periodic ^^ 2) (snd (handle_start p)))"
proof -
  obtain p :: pulser where p: "impl_cfg p = \<lparr>period_in_msecs = 10, num_pulses = 2, callback = True\<rparr>" using sample_pulser by (elim exE)
  show ?thesis using pulser_completes [where p = p and k = 2] by (intro exI [of _ p]) (simp add: p)
qed

text \<open>Where the pulser does not do what it says. Without a limit of the number, \<open>resume\<close> does nothing, and \<open>is_done\<close> is true from
the beginning and stays so. A number that is set while the pulser runs, and is not above what has been done, is never reached before the
counter wraps around: the callback goes on being called. The period that is set while it runs is lost at the next start.\<close>

theorem pulser_faults:
  assumes "num_pulses (impl_cfg p) = 0" and "callback (impl_cfg q)" and "n \<noteq> 0" and "n \<le> pulses q" and "unat (pulses q) + k < 2 ^ 64"
    and "0 \<le> period_in_msecs (impl_cfg q)"
  shows "handle_resume p = p \<and> is_done (handle_periodic p) = is_done p \<and> (is_done p \<longleftrightarrow> pulses p = 0)
    \<and> fired ((handle_periodic ^^ k) (handle_num_pulses n q)) = fired q + k
    \<and> is_running ((handle_periodic ^^ k) (handle_num_pulses n q)) = is_running q
    \<and> periodic_msg_period_ms (core (snd (handle_start (snd (set_period ms q))))) = period_in_msecs (impl_cfg q)"
proof (intro conjI)
  show "handle_resume p = p" using assms(1) by (simp add: handle_resume_def)
  show "is_done (handle_periodic p) = is_done p"
    using assms(1) by (simp add: is_done_def handle_periodic_def enable_pulses_def call_callback_def Let_def)
  show "is_done p \<longleftrightarrow> pulses p = 0" using assms(1) by (simp add: is_done_def)
  let ?q = "handle_num_pulses n q"
  have q: "callback (impl_cfg ?q)" "num_pulses (impl_cfg ?q) = n" "pulses ?q = pulses q" "fired ?q = fired q" "enabled ?q = enabled q"
    using assms(2) by (simp_all add: handle_num_pulses_def enabled_def)
  have far: "pulses q + of_nat j \<noteq> n" if "0 < j" "j \<le> k" for j
  proof
    assume e: "pulses q + of_nat j = n"
    have "unat (of_nat j :: u64) = j" using that assms(5) by (simp add: unat_of_nat)
    then have "unat n = unat (pulses q) + j" using that assms(5) by (simp add: unat_word_ariths flip: e)
    then show False using assms(4) that(1) by (simp add: word_le_nat_alt)
  qed
  then show "fired ((handle_periodic ^^ k) ?q) = fired q + k"
    and "is_running ((handle_periodic ^^ k) ?q) = is_running q"
    using periodic_iterate [of ?q k] assms(3) q by (simp_all add: is_running_def)
  show "periodic_msg_period_ms (core (snd (handle_start (snd (set_period ms q))))) = period_in_msecs (impl_cfg q)"
    using start_period [of "snd (set_period ms q)"] assms(6) by simp
qed

lemma pulser_faults_witness:
  "\<exists>p q. fired ((handle_periodic ^^ 5) (handle_num_pulses 1 q)) = fired q + 5 \<and> handle_resume p = p"
proof -
  obtain r :: pulser where r: "impl_cfg r = \<lparr>period_in_msecs = 10, num_pulses = 2, callback = True\<rparr>" using sample_pulser by (elim exE)
  let ?p = "r\<lparr>impl_cfg := (impl_cfg r)\<lparr>num_pulses := 0\<rparr>\<rparr>" and ?q = "r\<lparr>pulses := 1\<rparr>"
  have "fired ((handle_periodic ^^ 5) (handle_num_pulses 1 ?q)) = fired ?q + 5 \<and> handle_resume ?p = ?p"
    using pulser_faults [of ?p ?q 1 5] by (simp add: r)
  then show ?thesis by blast
qed

end
