(* ===== verification/CfgFile.thy ===== *)
theory CfgFile
  imports StringMatch StringToken Transitions "HOL-Library.List_Lexorder" "HOL-Library.Char_ord"
begin

text \<open>
  The configuration files of \<open>src/file/FileName.cpp\<close> (class \<open>CfgFile\<close>): sections with plain values,
  parameters and objects. The text of the file is a string, reading it from the disk is not
  part of the model. Undefined behaviour is \<open>None\<close>, an exception is \<open>Inl\<close>.
\<close>

section \<open>The state\<close>

type_synonym parameters = "string \<rightharpoonup> string"
type_synonym objects = "string \<rightharpoonup> parameters list"

record cfg_section =
  m_vecSingleValues :: "string list"
  m_dictParameters :: parameters
  m_objects :: objects

record cfg_file =
  m_dictSection :: "string \<rightharpoonup> cfg_section"
  m_strSection :: string

datatype cfg_error = NO_DATA string | CFG_STD std_error

abbreviation CFG_FILE_DEFAULT_SECTION :: string where "CFG_FILE_DEFAULT_SECTION \<equiv> ''default''"
abbreviation QUOTE :: char where "QUOTE \<equiv> CHR 0x27"
abbreviation LF :: char where "LF \<equiv> CHR 0x0A"

definition CfgFile_ctor :: cfg_file where
  "CfgFile_ctor = \<lparr>m_dictSection = Map.empty, m_strSection = []\<rparr>"

definition empty_section :: cfg_section where
  "empty_section = \<lparr>m_vecSingleValues = [], m_dictParameters = Map.empty, m_objects = Map.empty\<rparr>"

text \<open>\<open>m_dictSection[s]\<close> adds a section that is missing, also in the constant operations: the map is mutable.\<close>

definition section_ref :: "string \<Rightarrow> cfg_file \<Rightarrow> cfg_section \<times> cfg_file" where
  "section_ref s c =
     (case m_dictSection c s of
        Some x \<Rightarrow> (x, c)
      | None \<Rightarrow> (empty_section, c\<lparr>m_dictSection := (m_dictSection c)(s \<mapsto> empty_section)\<rparr>))"

definition put_section :: "(cfg_section \<Rightarrow> cfg_section) \<Rightarrow> cfg_file \<Rightarrow> cfg_file" where
  "put_section f c =
     (let (x, c) = section_ref (m_strSection c) c
      in c\<lparr>m_dictSection := (m_dictSection c)(m_strSection c \<mapsto> f x)\<rparr>)"

section \<open>Loading\<close>

text \<open>
  The variables of \<open>load_from_string\<close>. The pointer \<open>current_obj_parameters_p\<close> is to the last
  element of a vector of objects of the current section: it is the type of the object, \<open>None\<close> for a null pointer.
\<close>

record cfg_loader =
  the_cfg :: cfg_file
  is_object :: bool
  is_multiline :: bool
  param_name :: string
  param_value :: string
  cur_line :: string
  current_obj :: "string option"

definition store_section_param :: "string \<Rightarrow> string \<Rightarrow> cfg_file \<Rightarrow> cfg_file" where
  "store_section_param k v = put_section (\<lambda>x. x\<lparr>m_dictParameters := (m_dictParameters x)(k \<mapsto> v)\<rparr>)"

definition store_object_param :: "string option \<Rightarrow> string \<Rightarrow> string \<Rightarrow> cfg_file \<Rightarrow> cfg_file option" where
  "store_object_param p k v c =
     (case p of None \<Rightarrow> None | Some t \<Rightarrow>
        case m_dictSection c (m_strSection c) of None \<Rightarrow> None | Some x \<Rightarrow>
          case m_objects x t of None \<Rightarrow> None | Some os \<Rightarrow>
            if os = [] then None
            else Some (put_section (\<lambda>x. x\<lparr>m_objects := (m_objects x)(t \<mapsto> butlast os @ [(last os)(k \<mapsto> v)])\<rparr>) c))"

definition store_param :: "string \<Rightarrow> cfg_loader \<Rightarrow> cfg_loader option" where
  "store_param v l =
     (if \<not> is_object l then Some (l\<lparr>the_cfg := store_section_param (param_name l) v (the_cfg l)\<rparr>)
      else map_option (\<lambda>c. l\<lparr>the_cfg := c\<rparr>) (store_object_param (current_obj l) (param_name l) v (the_cfg l)))"

text \<open>A line of a value of several lines.\<close>

definition load_multiline :: "cfg_loader \<Rightarrow> cfg_loader option" where
  "load_multiline l =
     (case match (cur_line l) [ASTERISK, BACKSLASH] of None \<Rightarrow> None
      | Some cont \<Rightarrow>
          let line = (if cont then take (length (cur_line l) - 1) (cur_line l) else cur_line l);
              l = l\<lparr>is_multiline := cont, cur_line := line, param_value := param_value l @ LF # line\<rparr>
          in if cont then Some l
             else let l = l\<lparr>param_value := trim (param_value l)\<rparr> in store_param (param_value l) l)"

definition load_section :: "cfg_loader \<Rightarrow> cfg_error + cfg_loader" where
  "load_section l =
     (case extract_enclosed (cur_line l) (CHR ''['') (CHR '']'') NUL of
        Inl e \<Rightarrow> Inl (CFG_STD e)
      | Inr (res, line, name) \<Rightarrow>
          let s = trim name; c = the_cfg l
          in Inr (l\<lparr>cur_line := line, is_object := False,
                    the_cfg := c\<lparr>m_strSection := s, m_dictSection := (m_dictSection c)(s \<mapsto> empty_section)\<rparr>\<rparr>))"

definition load_param :: "cfg_loader \<Rightarrow> cfg_loader option" where
  "load_param l =
     (let (res, line, name) = extract_token_plain (cur_line l) (CHR ''='');
          v = trim line;
          l = l\<lparr>cur_line := line, param_name := trim name, param_value := v\<rparr>
      in case match v [ASTERISK, BACKSLASH] of None \<Rightarrow> None
         | Some True \<Rightarrow> Some (l\<lparr>param_value := take (length v - 1) v, is_multiline := True\<rparr>)
         | Some False \<Rightarrow> store_param v l)"

definition load_object :: "cfg_loader \<Rightarrow> cfg_loader" where
  "load_object l =
     (let (res, line, type) = extract_token_plain (cur_line l) (CHR '':'');
          t = trim type
      in l\<lparr>cur_line := trim line, is_object := True, current_obj := Some t,
           the_cfg := put_section (\<lambda>x. x\<lparr>m_objects := (m_objects x)(t \<mapsto>
             (case m_objects x t of None \<Rightarrow> [] | Some os \<Rightarrow> os) @ [Map.empty])\<rparr>) (the_cfg l)\<rparr>)"

definition load_value :: "cfg_loader \<Rightarrow> cfg_loader" where
  "load_value l =
     (let v = (if starts_with_char (cur_line l) QUOTE then drop 1 (cur_line l) else cur_line l)
      in l\<lparr>is_object := False,
           the_cfg := put_section (\<lambda>x. x\<lparr>m_vecSingleValues := m_vecSingleValues x @ [v]\<rparr>) (the_cfg l)\<rparr>)"

definition load_line :: "string \<Rightarrow> cfg_loader \<Rightarrow> (cfg_error + cfg_loader) option" where
  "load_line line l =
     (let l = l\<lparr>cur_line := trim line\<rparr>; quoted = starts_with_char (cur_line l) QUOTE
      in if is_multiline l then map_option Inr (load_multiline l)
      else if cur_line l = [] then Some (Inr l)
      else case match (cur_line l) ''#*'' of None \<Rightarrow> None | Some True \<Rightarrow> Some (Inr l) | Some False \<Rightarrow>
           case match (cur_line l) '';*'' of None \<Rightarrow> None | Some True \<Rightarrow> Some (Inr l) | Some False \<Rightarrow>
           case match (cur_line l) ''-*'' of None \<Rightarrow> None | Some True \<Rightarrow> Some (Inr (l\<lparr>is_object := False\<rparr>)) | Some False \<Rightarrow>
           case match (cur_line l) ''[*]'' of None \<Rightarrow> None | Some True \<Rightarrow> Some (load_section l) | Some False \<Rightarrow>
           case match (cur_line l) ''*=*'' of None \<Rightarrow> None | Some eq \<Rightarrow>
             if eq \<and> \<not> quoted then map_option Inr (load_param l)
             else case match (cur_line l) ''*:'' of None \<Rightarrow> None | Some obj \<Rightarrow>
               if obj \<and> \<not> quoted then Some (Inr (load_object l))
               else Some (Inr (load_value l)))"

function load_loop :: "string \<Rightarrow> cfg_loader \<Rightarrow> (cfg_error + cfg_loader) option" where
  "load_loop content l =
     (if content = [] then Some (Inr l)
      else let (res, rest, line) = extract_token_plain content LF
           in case load_line line l of None \<Rightarrow> None | Some (Inl e) \<Rightarrow> Some (Inl e) | Some (Inr l) \<Rightarrow> load_loop rest l)"
  by pat_completeness auto
termination
  by (relation "measure (\<lambda>(content, l). length content)")
    (auto simp: extract_token_plain_def dest: sym [THEN extract_token_shorter])

declare load_loop.simps [simp del]

definition loader_ctor :: "cfg_file \<Rightarrow> cfg_loader" where
  "loader_ctor c =
     \<lparr>the_cfg = c\<lparr>m_strSection := CFG_FILE_DEFAULT_SECTION,
                  m_dictSection := (m_dictSection c)(CFG_FILE_DEFAULT_SECTION \<mapsto> empty_section)\<rparr>,
      is_object = False, is_multiline = False, param_name = [], param_value = [], cur_line = [], current_obj = None\<rparr>"

definition load_end :: "cfg_loader \<Rightarrow> cfg_file option" where
  "load_end l =
     map_option (\<lambda>l. (the_cfg l)\<lparr>m_strSection := CFG_FILE_DEFAULT_SECTION\<rparr>)
       (if is_multiline l then store_param (cur_line l) l else Some l)"

definition load_from_string :: "string \<Rightarrow> cfg_file \<Rightarrow> (cfg_error + cfg_file) option" where
  "load_from_string content c =
     (case load_loop content (loader_ctor c) of None \<Rightarrow> None
      | Some (Inl e) \<Rightarrow> Some (Inl e)
      | Some (Inr l) \<Rightarrow> map_option Inr (load_end l))"

text \<open>\<open>load (file_full_name)\<close>, with what the file holds.\<close>

definition load_file :: "string \<Rightarrow> cfg_file \<Rightarrow> (cfg_error + cfg_file) option" where
  "load_file content c = load_from_string content (c\<lparr>m_dictSection := Map.empty, m_strSection := []\<rparr>)"

section \<open>Reading\<close>

definition get_sections :: "cfg_file \<Rightarrow> string list" where
  "get_sections c = sorted_list_of_set (dom (m_dictSection c))"

definition get_values :: "string \<Rightarrow> cfg_file \<Rightarrow> string list \<times> cfg_file" where
  "get_values strSection c =
     (let (x, c) = section_ref (if strSection = [] then m_strSection c else strSection) c in (m_vecSingleValues x, c))"

definition has_object :: "string \<Rightarrow> cfg_file \<Rightarrow> bool \<times> cfg_file" where
  "has_object t c = (let (x, c) = section_ref (m_strSection c) c in (m_objects x t \<noteq> None, c))"

definition get_objects :: "string \<Rightarrow> cfg_file \<Rightarrow> (cfg_error + parameters list) \<times> cfg_file" where
  "get_objects t c =
     (let (x, c) = section_ref (m_strSection c) c
      in (case m_objects x t of Some os \<Rightarrow> Inr os | None \<Rightarrow> Inl (NO_DATA (''No such objects: '' @ t)), c))"

definition get_all_objects :: "cfg_file \<Rightarrow> objects \<times> cfg_file" where
  "get_all_objects c = (let (x, c) = section_ref (m_strSection c) c in (m_objects x, c))"

definition get_unique_object :: "string \<Rightarrow> cfg_file \<Rightarrow> (cfg_error + parameters) option \<times> cfg_file" where
  "get_unique_object t c =
     (let (x, c) = section_ref (m_strSection c) c
      in (case m_objects x t of
            Some os \<Rightarrow> if os = [] then None else Some (Inr (hd os))
          | None \<Rightarrow> Some (Inl (NO_DATA (''No such object: '' @ t))), c))"

definition get_parameters :: "cfg_file \<Rightarrow> parameters \<times> cfg_file" where
  "get_parameters c = (let (x, c) = section_ref (m_strSection c) c in (m_dictParameters x, c))"

definition get_param_value :: "string \<Rightarrow> bool \<Rightarrow> cfg_file \<Rightarrow> (cfg_error + string) \<times> cfg_file" where
  "get_param_value k throw_exception c =
     (let (x, c) = section_ref (m_strSection c) c
      in (case m_dictParameters x k of
            Some v \<Rightarrow> Inr v
          | None \<Rightarrow> if throw_exception then Inl (NO_DATA (''Parameter '' @ k @ '' not found'')) else Inr [], c))"

definition has_parameter :: "string \<Rightarrow> cfg_file \<Rightarrow> bool \<times> cfg_file" where
  "has_parameter k c = (let (x, c) = section_ref (m_strSection c) c in (m_dictParameters x k \<noteq> None, c))"

definition set_section :: "string \<Rightarrow> bool \<Rightarrow> cfg_file \<Rightarrow> (cfg_error + bool) \<times> cfg_file" where
  "set_section s bThrowException c =
     (if m_dictSection c s \<noteq> None then (Inr True, c\<lparr>m_strSection := s\<rparr>)
      else if bThrowException then (Inl (NO_DATA (''Section '' @ [QUOTE] @ s @ [QUOTE] @ '' not found'')), c)
      else (Inr False, c))"

section \<open>The masks\<close>

lemma drop_pred_last: "s \<noteq> [] \<Longrightarrow> s ! (length s - Suc 0) = last s"
  by (simp add: last_conv_nth)

lemma find_sub_str_one:
  "s \<noteq> [] \<Longrightarrow> c \<noteq> QUESTION \<Longrightarrow> find_sub_str_with_joker s (int (length s) - 1) [c] None
     = Some (if last s = c then Some (length s) else None, None)"
  by (cases s rule: rev_cases) (auto simp: find_sub_str_with_joker_def nat_diff_distrib' find_sub_loop.simps nth_append)

lemma match_last:
  assumes "NUL \<notin> set s" "s \<noteq> []" "c \<noteq> QUESTION" "c \<noteq> ASTERISK" "c \<noteq> NUL"
  shows "match s [ASTERISK, c] = Some (last s = c)"
  using assms find_sub_str_one [of s c]
  by (auto simp: match_def match_tokens_def cstr_id match_loop.simps(2) Let_def is_joker_def star_token_def)

lemma match_last_empty: "c \<noteq> QUESTION \<Longrightarrow> c \<noteq> ASTERISK \<Longrightarrow> c \<noteq> NUL \<Longrightarrow> match [] [ASTERISK, c] = None"
  by (auto simp: match_def match_tokens_def cstr_id match_loop.simps(2) Let_def is_joker_def star_token_def
      find_sub_str_with_joker_def)

lemma match_first:
  assumes "NUL \<notin> set s" "c \<noteq> QUESTION" "c \<noteq> ASTERISK" "c \<noteq> NUL" "c \<noteq> BACKSLASH"
  shows "match s [c, ASTERISK] = Some (s \<noteq> [] \<and> hd s = c)"
  using assms
  by (cases s) (auto simp: match_def match_tokens_def cstr_id match_loop.simps(2) Let_def star_token_def)

lemma match_enclosed:
  assumes "NUL \<notin> set s"
  shows "match s ''[*]'' = Some (s \<noteq> [] \<and> hd s = CHR ''['' \<and> last s = CHR '']'')"
  using assms find_sub_str_one [of s "CHR '']''"]
  by (cases s) (auto simp: match_def match_tokens_def cstr_id match_loop.simps(2) Let_def is_joker_def star_token_def)

lemma find_sub_loop_one:
  "c \<noteq> QUESTION \<Longrightarrow> i \<le> length s \<Longrightarrow> \<exists>p. find_sub_loop s i [c] None = (p, None) \<and> (p \<noteq> None \<longleftrightarrow> c \<in> set (drop i s))"
proof (induction "length s - i" arbitrary: i)
  case 0
  then show ?case by (subst find_sub_loop.simps) simp
next
  case (Suc n)
  then have i: "i < length s" by simp
  show ?case
  proof (cases "s ! i = c")
    case True
    then show ?thesis using Suc.prems i by (subst find_sub_loop.simps) (simp add: Cons_nth_drop_Suc [symmetric])
  next
    case False
    then have "c \<in> set (drop i s) \<longleftrightarrow> c \<in> set (drop (Suc i) s)" using i by (simp add: Cons_nth_drop_Suc [symmetric])
    then show ?thesis using Suc False i by (subst find_sub_loop.simps) simp
  qed
qed

lemma match_has:
  assumes "NUL \<notin> set s"
  shows "match s ''*=*'' = Some (CHR ''='' \<in> set s)"
proof -
  obtain p where p: "find_sub_loop s 0 ''='' None = (p, None)" "p \<noteq> None \<longleftrightarrow> CHR ''='' \<in> set s"
    using find_sub_loop_one [of "CHR ''=''" 0 s] by auto
  have l: "match_loop s q ''*'' None = Some (True, None)" for q
    by (simp add: match_loop.simps(2) Let_def star_token_def)
  show ?thesis using assms p l
    by (cases p) (auto simp: match_def match_tokens_def cstr_id match_loop.simps(2) Let_def is_joker_def star_token_def
        find_sub_str_with_joker_def)
qed

section \<open>Texts and what they mean\<close>

text \<open>
  A parameter has a value of one line or several, an object has parameters. A block of the file is
  its parameters, its plain values, and its objects; a section is a block with a name.
\<close>

type_synonym cfg_param = "string \<times> string list"
type_synonym cfg_object = "string \<times> cfg_param list"

record cfg_block =
  block_params :: "cfg_param list"
  block_values :: "string list"
  block_objects :: "cfg_object list"

fun cont_text :: "string list \<Rightarrow> string" where
  "cont_text [] = []"
| "cont_text [v] = v @ [LF]"
| "cont_text (v # vs) = v @ BACKSLASH # LF # cont_text vs"

definition param_text :: "cfg_param \<Rightarrow> string" where
  "param_text p = fst p @ CHR ''='' # cont_text (snd p)"

definition object_text :: "cfg_object \<Rightarrow> string" where
  "object_text p = fst p @ CHR '':'' # LF # concat (map param_text (snd p)) @ [CHR ''-'', LF]"

definition block_text :: "cfg_block \<Rightarrow> string" where
  "block_text b =
     concat (map param_text (block_params b)) @ concat (map (\<lambda>v. QUOTE # v @ [LF]) (block_values b))
     @ concat (map object_text (block_objects b))"

definition section_text :: "string \<times> cfg_block \<Rightarrow> string" where
  "section_text p = CHR ''['' # fst p @ CHR '']'' # LF # block_text (snd p)"

definition params_meaning :: "cfg_param list \<Rightarrow> parameters" where
  "params_meaning ps = map_of (rev (map (\<lambda>(k, vs). (k, join vs LF)) ps))"

definition objects_meaning :: "cfg_object list \<Rightarrow> objects" where
  "objects_meaning os t =
     (let xs = map (\<lambda>(_, ps). params_meaning ps) (filter (\<lambda>(t', _). t' = t) os) in if xs = [] then None else Some xs)"

definition block_meaning :: "cfg_block \<Rightarrow> cfg_section" where
  "block_meaning b =
     \<lparr>m_vecSingleValues = block_values b, m_dictParameters = params_meaning (block_params b),
      m_objects = objects_meaning (block_objects b)\<rparr>"

definition one_line :: "string \<Rightarrow> bool" where
  "one_line s \<longleftrightarrow> LF \<notin> set s \<and> NUL \<notin> set s \<and> (s \<noteq> [] \<longrightarrow> \<not> isspace (hd s) \<and> \<not> isspace (last s))"

definition wf_head :: "string \<Rightarrow> bool" where
  "wf_head s \<longleftrightarrow> one_line s \<and> s \<noteq> [] \<and> hd s \<notin> {CHR ''#'', CHR '';'', CHR ''-'', CHR ''['', QUOTE} \<and> CHR ''='' \<notin> set s"

definition wf_value :: "string \<Rightarrow> bool" where
  "wf_value v \<longleftrightarrow> one_line v \<and> v \<noteq> [] \<and> last v \<noteq> BACKSLASH"

definition wf_param :: "cfg_param \<Rightarrow> bool" where
  "wf_param p \<longleftrightarrow> wf_head (fst p) \<and> snd p \<noteq> [] \<and> list_all wf_value (snd p)"

definition wf_block :: "cfg_block \<Rightarrow> bool" where
  "wf_block b \<longleftrightarrow> list_all wf_param (block_params b)
     \<and> list_all (\<lambda>v. LF \<notin> set v \<and> NUL \<notin> set v \<and> (v \<noteq> [] \<longrightarrow> \<not> isspace (last v))) (block_values b)
     \<and> list_all (\<lambda>(t, ps). wf_head t \<and> CHR '':'' \<notin> set t \<and> list_all wf_param ps) (block_objects b)"

definition wf_section :: "string \<times> cfg_block \<Rightarrow> bool" where
  "wf_section p \<longleftrightarrow> one_line (fst p) \<and> CHR '']'' \<notin> set (fst p) \<and> wf_block (snd p)"

section \<open>One line\<close>

lemma trim_id: "(s \<noteq> [] \<Longrightarrow> \<not> isspace (hd s) \<and> \<not> isspace (last s)) \<Longrightarrow> trim s = s"
proof -
  assume a: "s \<noteq> [] \<Longrightarrow> \<not> isspace (hd s) \<and> \<not> isspace (last s)"
  have "dropWhile isspace s = s" using a by (cases s) auto
  moreover have "dropWhile isspace (rev s) = rev s" using a by (cases s rule: rev_cases) auto
  ultimately show ?thesis by (simp add: trim_eq rstrip_def)
qed

lemma trim_one_line: "one_line s \<Longrightarrow> trim s = s"
  by (rule trim_id) (simp add: one_line_def)

lemma isspace_marks [simp]:
  "\<not> isspace BACKSLASH" "\<not> isspace QUOTE" "\<not> isspace (CHR ''['')" "\<not> isspace (CHR '']'')" "\<not> isspace (CHR ''='')"
  "\<not> isspace (CHR '':'')" "\<not> isspace (CHR ''-'')"
  by (simp_all add: isspace_def)

lemma load_loop_Nil [simp]: "load_loop [] l = Some (Inr l)"
  by (simp add: load_loop.simps)

lemma takeWhile_append2': "c \<notin> set t \<Longrightarrow> takeWhile (\<lambda>x. x \<noteq> c) (t @ c # r) = t"
  by (induction t) auto

lemma dropWhile_append2': "c \<notin> set t \<Longrightarrow> dropWhile (\<lambda>x. x \<noteq> c) (t @ c # r) = c # r"
  by (induction t) auto

lemma load_loop_line:
  "LF \<notin> set t \<Longrightarrow> load_loop (t @ LF # rest) l =
     (case load_line t l of None \<Rightarrow> None | Some (Inl e) \<Rightarrow> Some (Inl e) | Some (Inr l) \<Rightarrow> load_loop rest l)"
  by (subst load_loop.simps) (simp add: extract_token_plain_def extract_token_noescape takeWhile_append2' dropWhile_append2')

lemmas line_masks = match_first match_last match_enclosed match_has

lemma load_line_section:
  assumes "one_line s" "CHR '']'' \<notin> set s" "\<not> is_multiline l"
  shows "\<exists>cl.
    load_line (CHR ''['' # s @ '']'') l =
      Some (Inr (l\<lparr>cur_line := cl, is_object := False,
        the_cfg := (the_cfg l)\<lparr>m_strSection := s, m_dictSection := (m_dictSection (the_cfg l))(s \<mapsto> empty_section)\<rparr>\<rparr>))"
proof -
  have t: "trim (CHR ''['' # s @ '']'') = CHR ''['' # s @ '']''" by (rule trim_id) simp
  have "extract_enclosed (CHR ''['' # s @ '']'') (CHR ''['') (CHR '']'') NUL = Inr (SEP_FOUND, [], s)"
    using assms by (subst extract_enclosed_gen [where pre = "[]" and tok = s and rest = "[]"]) (auto simp: one_line_def)
  then show ?thesis using assms
    by (auto simp: load_line_def Let_def t line_masks one_line_def load_section_def trim_one_line)
qed

lemma load_line_value:
  assumes "LF \<notin> set v" "NUL \<notin> set v" "v \<noteq> [] \<Longrightarrow> \<not> isspace (last v)" "\<not> is_multiline l"
  shows "load_line (QUOTE # v) l = Some (Inr (l\<lparr>cur_line := QUOTE # v, is_object := False,
    the_cfg := put_section (\<lambda>x. x\<lparr>m_vecSingleValues := m_vecSingleValues x @ [v]\<rparr>) (the_cfg l)\<rparr>))"
proof -
  have t: "trim (QUOTE # v) = QUOTE # v" using assms by (intro trim_id) simp
  show ?thesis using assms
    by (simp add: load_line_def Let_def t line_masks load_value_def starts_with_char_def)
qed

lemma load_line_end:
  assumes "\<not> is_multiline l"
  shows "load_line ''-'' l = Some (Inr (l\<lparr>cur_line := ''-'', is_object := False\<rparr>))"
proof -
  have t: "trim ''-'' = ''-''" by (intro trim_id) simp
  show ?thesis using assms by (simp add: load_line_def Let_def t line_masks)
qed

lemma wf_headD:
  assumes "wf_head s"
  shows "s \<noteq> []" "NUL \<notin> set s" "LF \<notin> set s" "CHR ''='' \<notin> set s" "trim s = s" "\<not> isspace (hd s)"
    "hd s \<noteq> CHR ''#''" "hd s \<noteq> CHR '';''" "hd s \<noteq> CHR ''-''" "hd s \<noteq> CHR ''[''" "hd s \<noteq> QUOTE"
  using assms by (auto simp: wf_head_def one_line_def trim_one_line)

lemma load_line_object:
  assumes "wf_head t" "CHR '':'' \<notin> set t" "\<not> is_multiline l"
  shows "\<exists>cl. load_line (t @ '':'') l = Some (Inr (l\<lparr>cur_line := cl, is_object := True, current_obj := Some t,
    the_cfg := put_section (\<lambda>x. x\<lparr>m_objects := (m_objects x)(t \<mapsto>
             (case m_objects x t of None \<Rightarrow> [] | Some os \<Rightarrow> os) @ [Map.empty])\<rparr>) (the_cfg l)\<rparr>))"
proof -
  note d = wf_headD [OF assms(1)]
  have t: "trim (t @ '':'') = t @ '':''" using d by (intro trim_id) simp
  have e: "extract_token_plain (t @ '':'') (CHR '':'') = (SEP_FOUND, [], t)"
    using assms(2) by (simp add: extract_token_plain_def extract_token_noescape takeWhile_append2' dropWhile_append2')
  show ?thesis using assms(3) d
    by (intro exI [of _ "trim []"]) (simp add: load_line_def Let_def t line_masks load_object_def starts_with_char_def e hd_conv_nth [symmetric])
qed

lemma load_line_param:
  assumes "wf_head k" "LF \<notin> set w" "NUL \<notin> set w" "w \<noteq> []" "\<not> isspace (hd w)" "\<not> isspace (last w)" "\<not> is_multiline l"
  shows "load_line (k @ CHR ''='' # w) l = map_option Inr
    (if last w = BACKSLASH
     then Some (l\<lparr>cur_line := w, param_name := k, param_value := butlast w, is_multiline := True\<rparr>)
     else store_param w (l\<lparr>cur_line := w, param_name := k, param_value := w\<rparr>))"
proof -
  note d = wf_headD [OF assms(1)]
  have t: "trim (k @ CHR ''='' # w) = k @ CHR ''='' # w" "trim w = w"
    using d assms by (auto intro: trim_id)
  have e: "extract_token_plain (k @ CHR ''='' # w) (CHR ''='') = (SEP_FOUND, w, k)"
    using d by (simp add: extract_token_plain_def extract_token_noescape takeWhile_append2' dropWhile_append2')
  show ?thesis using assms d
    by (simp add: load_line_def Let_def t line_masks load_param_def starts_with_char_def e hd_conv_nth [symmetric]
        butlast_conv_take)
qed

lemma load_line_more:
  assumes "one_line w" "w \<noteq> []" "is_multiline l"
  shows "load_line w l = map_option Inr
    (if last w = BACKSLASH then Some (l\<lparr>cur_line := butlast w, param_value := param_value l @ LF # butlast w\<rparr>)
     else store_param (trim (param_value l @ LF # w))
            (l\<lparr>cur_line := w, is_multiline := False, param_value := trim (param_value l @ LF # w)\<rparr>))"
  using assms by (cases l) (auto simp: load_line_def Let_def trim_one_line one_line_def match_last load_multiline_def butlast_conv_take)

section \<open>Parameters, objects and blocks\<close>

lemma load_cont:
  "vs \<noteq> [] \<Longrightarrow> list_all wf_value vs \<Longrightarrow> is_multiline l \<Longrightarrow> \<exists>cl pv.
     load_loop (cont_text vs @ rest) l =
       (case store_param (trim (param_value l @ concat (map (\<lambda>v. LF # v) vs)))
               (l\<lparr>cur_line := cl, is_multiline := False, param_value := pv\<rparr>) of
          None \<Rightarrow> None | Some l \<Rightarrow> load_loop rest l)"
proof (induction vs arbitrary: l rule: cont_text.induct)
  case (2 v)
  then have v: "one_line v" "v \<noteq> []" "last v \<noteq> BACKSLASH" "LF \<notin> set v" by (auto simp: wf_value_def one_line_def)
  have "load_loop (cont_text [v] @ rest) l =
      (case load_line v l of None \<Rightarrow> None | Some (Inl e) \<Rightarrow> Some (Inl e) | Some (Inr l) \<Rightarrow> load_loop rest l)"
    using v by (simp add: load_loop_line)
  also have "load_line v l = map_option Inr (store_param (trim (param_value l @ LF # v))
      (l\<lparr>cur_line := v, is_multiline := False, param_value := trim (param_value l @ LF # v)\<rparr>))"
    using v 2 by (simp add: load_line_more)
  finally show ?case
    by - (rule exI [of _ v], rule exI [of _ "trim (param_value l @ LF # v)"], auto split: option.split)
next
  case (3 v w vs)
  let ?l = "l\<lparr>cur_line := v, param_value := param_value l @ LF # v\<rparr>"
  have v: "one_line (v @ [BACKSLASH])" "LF \<notin> set (v @ [BACKSLASH])"
    using 3 by (auto simp: wf_value_def one_line_def)
  have "load_line (v @ [BACKSLASH]) l = Some (Inr ?l)"
    using v 3 by (subst load_line_more) simp_all
  then have "load_loop (cont_text (v # w # vs) @ rest) l = load_loop (cont_text (w # vs) @ rest) ?l"
    using load_loop_line [OF v(2), of "cont_text (w # vs) @ rest" l] by simp
  then show ?case using 3(1) [of ?l] 3(3,4) by simp
qed simp

lemma join_eq: "vs \<noteq> [] \<Longrightarrow> join vs c = hd vs @ concat (map (\<lambda>v. c # v) (tl vs))"
  by (cases vs) (simp_all add: join_Cons)

lemma trim_join:
  assumes "vs \<noteq> []" "list_all wf_value vs"
  shows "trim (hd vs @ concat (map (\<lambda>v. LF # v) (tl vs))) = join vs LF"
proof -
  obtain v ws where vs: "vs = v # ws" using assms by (cases vs) auto
  have "ws \<noteq> [] \<Longrightarrow> last (concat (map (\<lambda>v. LF # v) ws)) = last (last ws) \<and> concat (map (\<lambda>v. LF # v) ws) \<noteq> []"
    using assms(2) unfolding vs by (induction ws rule: rev_induct) (auto simp: wf_value_def)
  moreover have "ws \<noteq> [] \<Longrightarrow> wf_value (last ws)" using assms(2) by (simp add: vs list_all_iff)
  ultimately have "\<not> isspace (last (v @ concat (map (\<lambda>v. LF # v) ws)))" "\<not> isspace (hd v)" "v \<noteq> []"
    using assms(2) vs by (cases "ws = []"; force simp: wf_value_def one_line_def)+
  then have "trim (v @ concat (map (\<lambda>v. LF # v) ws)) = v @ concat (map (\<lambda>v. LF # v) ws)"
    by (intro trim_id) simp
  then show ?thesis by (simp add: vs join_Cons)
qed

lemma load_param_text:
  assumes "wf_param p" "\<not> is_multiline l"
  shows "\<exists>cl pv. load_loop (param_text p @ rest) l =
    (case store_param (join (snd p) LF) (l\<lparr>cur_line := cl, param_name := fst p, param_value := pv\<rparr>) of
       None \<Rightarrow> None | Some l \<Rightarrow> load_loop rest l)"
proof -
  obtain v ws where p: "snd p = v # ws" using assms by (cases "snd p") (auto simp: wf_param_def)
  have k: "wf_head (fst p)" and v: "wf_value v" and ws: "list_all wf_value ws"
    using assms p by (auto simp: wf_param_def)
  note d = wf_headD [OF k]
  have m: "l\<lparr>is_multiline := False\<rparr> = l" using assms(2) by (cases l) simp
  show ?thesis
  proof (cases "ws = []")
    case True
    have "load_line (fst p @ CHR ''='' # v) l =
        map_option Inr (store_param v (l\<lparr>cur_line := v, param_name := fst p, param_value := v\<rparr>))"
      using load_line_param [OF k, of v l] v assms(2) by (simp add: wf_value_def one_line_def)
    then show ?thesis
      using load_loop_line [of "fst p @ CHR ''='' # v" rest l] True d v
      by - (rule exI [of _ v], rule exI [of _ v], auto simp: param_text_def p wf_value_def one_line_def join_Cons split: option.split)
  next
    case False
    let ?w = "v @ [BACKSLASH]"
    let ?l = "l\<lparr>cur_line := ?w, param_name := fst p, param_value := v, is_multiline := True\<rparr>"
    have "load_line (fst p @ CHR ''='' # ?w) l = Some (Inr ?l)"
      using load_line_param [OF k, of ?w l] v assms(2) by (auto simp: wf_value_def one_line_def)
    moreover have "param_text p = (fst p @ CHR ''='' # ?w) @ LF # cont_text ws"
      using False by (cases ws) (simp_all add: param_text_def p)
    moreover have "LF \<notin> set (fst p @ CHR ''='' # ?w)" using d v by (auto simp: wf_value_def one_line_def)
    ultimately have e: "load_loop (param_text p @ rest) l = load_loop (cont_text ws @ rest) ?l"
      using load_loop_line [of "fst p @ CHR ''='' # ?w" "cont_text ws @ rest" l] by simp
    have j: "trim (param_value ?l @ concat (map (\<lambda>v. LF # v) ws)) = join (snd p) LF"
      using trim_join [of "snd p"] v ws by (simp add: p)
    obtain cl pv where "load_loop (cont_text ws @ rest) ?l =
       (case store_param (join (snd p) LF) (?l\<lparr>cur_line := cl, is_multiline := False, param_value := pv\<rparr>) of
          None \<Rightarrow> None | Some l \<Rightarrow> load_loop rest l)"
      using load_cont [OF False ws, of ?l rest] unfolding j by auto
    moreover have "?l\<lparr>cur_line := cl, is_multiline := False, param_value := pv\<rparr> =
        l\<lparr>cur_line := cl, param_name := fst p, param_value := pv\<rparr>" using assms(2) by (cases l) simp
    ultimately show ?thesis unfolding e by metis
  qed
qed

text \<open>A file whose current section is \<open>x\<close>.\<close>

definition at_section :: "cfg_file \<Rightarrow> cfg_section \<Rightarrow> cfg_file" where
  "at_section c x = c\<lparr>m_dictSection := (m_dictSection c)(m_strSection c \<mapsto> x)\<rparr>"

lemma at_section_simps [simp]:
  "m_strSection (at_section c x) = m_strSection c"
  "m_dictSection (at_section c x) (m_strSection c) = Some x"
  "put_section f (at_section c x) = at_section c (f x)"
  by (simp_all add: at_section_def put_section_def section_ref_def)

lemma params_meaning_Nil [simp]: "params_meaning [] = Map.empty"
  by (simp add: params_meaning_def)

lemma params_meaning_Cons: "m ++ params_meaning (p # ps) = m(fst p \<mapsto> join (snd p) LF) ++ params_meaning ps"
  by (simp add: params_meaning_def case_prod_beta map_add_assoc [symmetric])

lemma load_params:
  "list_all wf_param ps \<Longrightarrow> the_cfg l = at_section c x \<Longrightarrow> \<not> is_multiline l \<Longrightarrow> \<not> is_object l \<Longrightarrow>
   \<exists>l'. load_loop (concat (map param_text ps) @ rest) l = load_loop rest l'
     \<and> the_cfg l' = at_section c (x\<lparr>m_dictParameters := m_dictParameters x ++ params_meaning ps\<rparr>)
     \<and> \<not> is_multiline l' \<and> \<not> is_object l'"
proof (induction ps arbitrary: l x)
  case Nil
  then show ?case by (intro exI [of _ l]) simp
next
  case (Cons p ps)
  obtain cl pv where e: "load_loop (param_text p @ concat (map param_text ps) @ rest) l =
      (case store_param (join (snd p) LF) (l\<lparr>cur_line := cl, param_name := fst p, param_value := pv\<rparr>) of
         None \<Rightarrow> None | Some l \<Rightarrow> load_loop (concat (map param_text ps) @ rest) l)"
    using load_param_text [of p l "concat (map param_text ps) @ rest"] Cons.prems by auto
  let ?x = "x\<lparr>m_dictParameters := (m_dictParameters x)(fst p \<mapsto> join (snd p) LF)\<rparr>"
  let ?l = "l\<lparr>cur_line := cl, param_name := fst p, param_value := pv, the_cfg := at_section c ?x\<rparr>"
  have "store_param (join (snd p) LF) (l\<lparr>cur_line := cl, param_name := fst p, param_value := pv\<rparr>) = Some ?l"
    using Cons.prems by (simp add: store_param_def store_section_param_def)
  then show ?case using e Cons.IH [of ?l ?x] Cons.prems by (simp add: params_meaning_Cons fun_upd_def)
qed

lemma load_object_params:
  "list_all wf_param ps \<Longrightarrow> the_cfg l = at_section c x \<Longrightarrow> \<not> is_multiline l \<Longrightarrow> is_object l \<Longrightarrow> current_obj l = Some t \<Longrightarrow>
   m_objects x t = Some (os @ [m]) \<Longrightarrow>
   \<exists>l'. load_loop (concat (map param_text ps) @ rest) l = load_loop rest l'
     \<and> the_cfg l' = at_section c (x\<lparr>m_objects := (m_objects x)(t \<mapsto> os @ [m ++ params_meaning ps])\<rparr>)
     \<and> \<not> is_multiline l'"
proof (induction ps arbitrary: l x m)
  case Nil
  then have "x\<lparr>m_objects := (m_objects x)(t \<mapsto> os @ [m])\<rparr> = x" by (cases x) auto
  then have "at_section c x = at_section c (x\<lparr>m_objects := (m_objects x)(t \<mapsto> os @ [m])\<rparr>)" by (simp only:)
  then show ?case using Nil by (intro exI [of _ l]) (simp only: list.map concat.simps append_Nil params_meaning_Nil map_add_empty, blast)
next
  case (Cons p ps)
  obtain cl pv where e: "load_loop (param_text p @ concat (map param_text ps) @ rest) l =
      (case store_param (join (snd p) LF) (l\<lparr>cur_line := cl, param_name := fst p, param_value := pv\<rparr>) of
         None \<Rightarrow> None | Some l \<Rightarrow> load_loop (concat (map param_text ps) @ rest) l)"
    using load_param_text [of p l "concat (map param_text ps) @ rest"] Cons.prems by auto
  let ?x = "x\<lparr>m_objects := (m_objects x)(t \<mapsto> os @ [m(fst p \<mapsto> join (snd p) LF)])\<rparr>"
  let ?l = "l\<lparr>cur_line := cl, param_name := fst p, param_value := pv, the_cfg := at_section c ?x\<rparr>"
  have s: "store_param (join (snd p) LF) (l\<lparr>cur_line := cl, param_name := fst p, param_value := pv\<rparr>) = Some ?l"
    using Cons.prems by (simp add: store_param_def store_object_param_def)
  have u: "?x\<lparr>m_objects := (m_objects ?x)(t \<mapsto> os @ [m(fst p \<mapsto> join (snd p) LF) ++ params_meaning ps])\<rparr> =
      x\<lparr>m_objects := (m_objects x)(t \<mapsto> os @ [m ++ params_meaning (p # ps)])\<rparr>"
    by (simp add: params_meaning_Cons)
  have "\<exists>l'. load_loop (concat (map param_text ps) @ rest) ?l = load_loop rest l'
     \<and> the_cfg l' = at_section c (?x\<lparr>m_objects := (m_objects ?x)(t \<mapsto> os @ [m(fst p \<mapsto> join (snd p) LF) ++ params_meaning ps])\<rparr>)
     \<and> \<not> is_multiline l'"
    by (rule Cons.IH) (use Cons.prems in \<open>simp_all add: fun_upd_def\<close>)
  then show ?case unfolding u list.map concat.simps append_assoc e s option.case .
qed

lemma load_object_text:
  assumes "wf_head t" "CHR '':'' \<notin> set t" "list_all wf_param ps" "the_cfg l = at_section c x" "\<not> is_multiline l"
  shows "\<exists>l'. load_loop (object_text (t, ps) @ rest) l = load_loop rest l'
     \<and> the_cfg l' = at_section c (x\<lparr>m_objects := (m_objects x)(t \<mapsto>
          (case m_objects x t of None \<Rightarrow> [] | Some os \<Rightarrow> os) @ [params_meaning ps])\<rparr>)
     \<and> \<not> is_multiline l' \<and> \<not> is_object l'"
proof -
  let ?os = "case m_objects x t of None \<Rightarrow> [] | Some os \<Rightarrow> os"
  let ?x = "x\<lparr>m_objects := (m_objects x)(t \<mapsto> ?os @ [Map.empty])\<rparr>"
  obtain cl where "load_line (t @ '':'') l =
      Some (Inr (l\<lparr>cur_line := cl, is_object := True, current_obj := Some t, the_cfg := at_section c ?x\<rparr>))"
    (is "_ = Some (Inr ?l)") using load_line_object [OF assms(1,2,5)] assms(4) by auto
  moreover have "LF \<notin> set (t @ '':'')" using wf_headD [OF assms(1)] by simp
  ultimately have e: "load_loop (object_text (t, ps) @ rest) l =
      load_loop (concat (map param_text ps) @ CHR ''-'' # LF # rest) ?l"
    using load_loop_line [of "t @ '':''" "concat (map param_text ps) @ CHR ''-'' # LF # rest" l]
    by (simp add: object_text_def)
  obtain l' where l': "load_loop (concat (map param_text ps) @ CHR ''-'' # LF # rest) ?l = load_loop (CHR ''-'' # LF # rest) l'"
    "the_cfg l' = at_section c (x\<lparr>m_objects := (m_objects x)(t \<mapsto> ?os @ [params_meaning ps])\<rparr>)" "\<not> is_multiline l'"
    using load_object_params [of ps ?l c ?x t ?os Map.empty "CHR ''-'' # LF # rest"] assms by auto
  have "load_loop (CHR ''-'' # LF # rest) l' = load_loop rest (l'\<lparr>cur_line := ''-'', is_object := False\<rparr>)"
    using load_loop_line [of "''-''" rest l'] load_line_end l'(3) by simp
  then show ?thesis unfolding e l'(1) using l'(2,3)
    by (intro exI [of _ "l'\<lparr>cur_line := ''-'', is_object := False\<rparr>"]) simp
qed

lemma load_values:
  "list_all (\<lambda>v. LF \<notin> set v \<and> NUL \<notin> set v \<and> (v \<noteq> [] \<longrightarrow> \<not> isspace (last v))) vs \<Longrightarrow> the_cfg l = at_section c x \<Longrightarrow>
   \<not> is_multiline l \<Longrightarrow> \<not> is_object l \<Longrightarrow>
   \<exists>l'. load_loop (concat (map (\<lambda>v. QUOTE # v @ [LF]) vs) @ rest) l = load_loop rest l'
     \<and> the_cfg l' = at_section c (x\<lparr>m_vecSingleValues := m_vecSingleValues x @ vs\<rparr>)
     \<and> \<not> is_multiline l' \<and> \<not> is_object l'"
proof (induction vs arbitrary: l x)
  case Nil
  then show ?case by (intro exI [of _ l]) simp
next
  case (Cons v vs)
  let ?l = "l\<lparr>cur_line := QUOTE # v, is_object := False,
    the_cfg := at_section c (x\<lparr>m_vecSingleValues := m_vecSingleValues x @ [v]\<rparr>)\<rparr>"
  have "load_line (QUOTE # v) l = Some (Inr ?l)"
    using load_line_value [of v l] Cons.prems by simp
  then have "load_loop (concat (map (\<lambda>v. QUOTE # v @ [LF]) (v # vs)) @ rest) l =
      load_loop (concat (map (\<lambda>v. QUOTE # v @ [LF]) vs) @ rest) ?l"
    using load_loop_line [of "QUOTE # v" "concat (map (\<lambda>v. QUOTE # v @ [LF]) vs) @ rest" l] Cons.prems by simp
  then show ?case using Cons.IH [of ?l "x\<lparr>m_vecSingleValues := m_vecSingleValues x @ [v]\<rparr>"] Cons.prems by simp
qed

lemma load_objects:
  "list_all (\<lambda>(t, ps). wf_head t \<and> CHR '':'' \<notin> set t \<and> list_all wf_param ps) os \<Longrightarrow> the_cfg l = at_section c x \<Longrightarrow>
   \<not> is_multiline l \<Longrightarrow> \<not> is_object l \<Longrightarrow>
   \<exists>l'. load_loop (concat (map object_text os) @ rest) l = load_loop rest l'
     \<and> the_cfg l' = at_section c (x\<lparr>m_objects := (\<lambda>t. case objects_meaning os t of None \<Rightarrow> m_objects x t
          | Some ys \<Rightarrow> Some ((case m_objects x t of None \<Rightarrow> [] | Some xs \<Rightarrow> xs) @ ys))\<rparr>)
     \<and> \<not> is_multiline l' \<and> \<not> is_object l'"
proof (induction os arbitrary: l x)
  case Nil
  then show ?case by (intro exI [of _ l]) (simp add: objects_meaning_def)
next
  case (Cons o1 os)
  obtain t ps where o1: "o1 = (t, ps)" by (cases o1)
  let ?x = "x\<lparr>m_objects := (m_objects x)(t \<mapsto> (case m_objects x t of None \<Rightarrow> [] | Some os \<Rightarrow> os) @ [params_meaning ps])\<rparr>"
  obtain l1 where l1: "load_loop (object_text o1 @ concat (map object_text os) @ rest) l = load_loop (concat (map object_text os) @ rest) l1"
    "the_cfg l1 = at_section c ?x" "\<not> is_multiline l1" "\<not> is_object l1"
    using load_object_text [of t ps l c x "concat (map object_text os) @ rest"] Cons.prems by (auto simp: o1)
  have u: "?x\<lparr>m_objects := (\<lambda>t. case objects_meaning os t of None \<Rightarrow> m_objects ?x t
          | Some ys \<Rightarrow> Some ((case m_objects ?x t of None \<Rightarrow> [] | Some xs \<Rightarrow> xs) @ ys))\<rparr> =
      x\<lparr>m_objects := (\<lambda>t. case objects_meaning (o1 # os) t of None \<Rightarrow> m_objects x t
          | Some ys \<Rightarrow> Some ((case m_objects x t of None \<Rightarrow> [] | Some xs \<Rightarrow> xs) @ ys))\<rparr>"
    by (auto simp: objects_meaning_def o1 Let_def fun_eq_iff split: option.split)
  have "\<exists>l'. load_loop (concat (map object_text os) @ rest) l1 = load_loop rest l'
     \<and> the_cfg l' = at_section c (?x\<lparr>m_objects := (\<lambda>t. case objects_meaning os t of None \<Rightarrow> m_objects ?x t
          | Some ys \<Rightarrow> Some ((case m_objects ?x t of None \<Rightarrow> [] | Some xs \<Rightarrow> xs) @ ys))\<rparr>)
     \<and> \<not> is_multiline l' \<and> \<not> is_object l'"
    by (rule Cons.IH [OF _ l1(2,3,4)]) (use Cons.prems in simp)
  then show ?case unfolding u list.map concat.simps append_assoc l1(1) .
qed

lemma load_block:
  assumes "wf_block b" "the_cfg l = at_section c empty_section" "\<not> is_multiline l" "\<not> is_object l"
  shows "\<exists>l'. load_loop (block_text b @ rest) l = load_loop rest l'
     \<and> the_cfg l' = at_section c (block_meaning b) \<and> \<not> is_multiline l' \<and> \<not> is_object l'"
proof -
  note w = assms(1) [unfolded wf_block_def]
  let ?v = "concat (map (\<lambda>v. QUOTE # v @ [LF]) (block_values b))" and ?o = "concat (map object_text (block_objects b))"
  obtain l1 where l1: "load_loop (block_text b @ rest) l = load_loop (?v @ ?o @ rest) l1"
    "the_cfg l1 = at_section c (empty_section\<lparr>m_dictParameters := params_meaning (block_params b)\<rparr>)"
    "\<not> is_multiline l1" "\<not> is_object l1"
    using load_params [OF _ assms(2-4), of "block_params b" "?v @ ?o @ rest"] w
    by (auto simp: block_text_def empty_section_def)
  obtain l2 where l2: "load_loop (?v @ ?o @ rest) l1 = load_loop (?o @ rest) l2"
    "the_cfg l2 = at_section c (empty_section\<lparr>m_dictParameters := params_meaning (block_params b),
       m_vecSingleValues := block_values b\<rparr>)"
    "\<not> is_multiline l2" "\<not> is_object l2"
    using load_values [OF _ l1(2-4), of "block_values b" "?o @ rest"] w by (auto simp: empty_section_def)
  let ?x = "empty_section\<lparr>m_dictParameters := params_meaning (block_params b), m_vecSingleValues := block_values b\<rparr>"
  have u: "?x\<lparr>m_objects := (\<lambda>t. case objects_meaning (block_objects b) t of None \<Rightarrow> m_objects ?x t
          | Some ys \<Rightarrow> Some ((case m_objects ?x t of None \<Rightarrow> [] | Some xs \<Rightarrow> xs) @ ys))\<rparr> = block_meaning b"
    by (auto simp: block_meaning_def empty_section_def fun_eq_iff split: option.split)
  show ?thesis
    using load_objects [OF _ l2(2-4), of "block_objects b" rest] w unfolding u l1(1) l2(1) by blast
qed

lemma load_section_texts:
  "list_all wf_section bs \<Longrightarrow> \<not> is_multiline l \<Longrightarrow> \<exists>l'. load_loop (concat (map section_text bs)) l = Some (Inr l')
     \<and> m_dictSection (the_cfg l') = m_dictSection (the_cfg l) ++ map_of (rev (map (\<lambda>p. (fst p, block_meaning (snd p))) bs))
     \<and> \<not> is_multiline l'"
proof (induction bs arbitrary: l)
  case Nil
  then show ?case by simp
next
  case (Cons p bs)
  obtain s b where p: "p = (s, b)" by (cases p)
  let ?c = "(the_cfg l)\<lparr>m_strSection := s\<rparr>"
  obtain cl where s: "load_line (CHR ''['' # s @ '']'') l =
      Some (Inr (l\<lparr>cur_line := cl, is_object := False, the_cfg := at_section ?c empty_section\<rparr>))"
    (is "_ = Some (Inr ?l)")
    using load_line_section [of s l] Cons.prems by (auto simp: p wf_section_def at_section_def)
  have lf: "LF \<notin> set (CHR ''['' # s @ '']'')" using Cons.prems by (simp add: p wf_section_def one_line_def)
  have "load_loop (concat (map section_text (p # bs))) l = load_loop (block_text b @ concat (map section_text bs)) ?l"
    using load_loop_line [OF lf, of "block_text b @ concat (map section_text bs)" l] s by (simp add: p section_text_def)
  moreover obtain l1 where "load_loop (block_text b @ concat (map section_text bs)) ?l = load_loop (concat (map section_text bs)) l1"
    "the_cfg l1 = at_section ?c (block_meaning b)" "\<not> is_multiline l1"
    using load_block [of b ?l ?c "concat (map section_text bs)"] Cons.prems by (auto simp: p wf_section_def)
  moreover obtain l2 where "load_loop (concat (map section_text bs)) l1 = Some (Inr l2)"
    "m_dictSection (the_cfg l2) = m_dictSection (the_cfg l1) ++ map_of (rev (map (\<lambda>p. (fst p, block_meaning (snd p))) bs))"
    "\<not> is_multiline l2"
    using Cons.IH [of l1] Cons.prems calculation(4) by auto
  ultimately show ?case by (simp add: p at_section_def)
qed

lemma load_texts:
  assumes "wf_block b" "list_all wf_section bs"
  shows "load_from_string (block_text b @ concat (map section_text bs)) c = Some (Inr (c\<lparr>
    m_dictSection := (m_dictSection c)(CFG_FILE_DEFAULT_SECTION \<mapsto> block_meaning b)
      ++ map_of (rev (map (\<lambda>p. (fst p, block_meaning (snd p))) bs)),
    m_strSection := CFG_FILE_DEFAULT_SECTION\<rparr>))"
proof -
  let ?c = "c\<lparr>m_strSection := CFG_FILE_DEFAULT_SECTION\<rparr>" and ?l = "loader_ctor c"
  have "the_cfg ?l = at_section ?c empty_section" "\<not> is_multiline ?l" "\<not> is_object ?l"
    by (simp_all add: loader_ctor_def at_section_def)
  then obtain l1 where l1: "load_loop (block_text b @ concat (map section_text bs)) ?l = load_loop (concat (map section_text bs)) l1"
    "the_cfg l1 = at_section ?c (block_meaning b)" "\<not> is_multiline l1"
    using load_block [OF assms(1), of ?l ?c "concat (map section_text bs)"] by auto
  obtain l2 where l2: "load_loop (concat (map section_text bs)) l1 = Some (Inr l2)" "\<not> is_multiline l2"
    "m_dictSection (the_cfg l2) = m_dictSection (the_cfg l1) ++ map_of (rev (map (\<lambda>p. (fst p, block_meaning (snd p))) bs))"
    using load_section_texts [OF assms(2) l1(3)] by auto
  then show ?thesis by (simp add: load_from_string_def l1 load_end_def at_section_def)
qed

section \<open>The state of the loader\<close>

text \<open>
  The pointer of the loader is to the last element of a vector of the current section; no vector of
  objects of the file is empty.
\<close>

definition cfg_ok :: "cfg_file \<Rightarrow> bool" where
  "cfg_ok c \<longleftrightarrow> (\<forall>s x t. m_dictSection c s = Some x \<longrightarrow> m_objects x t \<noteq> Some [])"

definition loader_ok :: "cfg_loader \<Rightarrow> bool" where
  "loader_ok l \<longleftrightarrow> cfg_ok (the_cfg l) \<and>
     (is_object l \<longrightarrow> (\<exists>t x. current_obj l = Some t \<and> m_dictSection (the_cfg l) (m_strSection (the_cfg l)) = Some x \<and> m_objects x t \<noteq> None))"

lemma section_ref_ok: "cfg_ok c \<Longrightarrow> section_ref s c = (x, c') \<Longrightarrow> cfg_ok c' \<and> m_objects x t \<noteq> Some [] \<and> m_dictSection c' s = Some x \<and> m_strSection c' = m_strSection c"
  by (auto simp: section_ref_def cfg_ok_def empty_section_def split: option.splits if_splits)

lemma put_section_ok: "cfg_ok c \<Longrightarrow> (\<And>x t. \<forall>u. m_objects x u \<noteq> Some [] \<Longrightarrow> m_objects (f x) t \<noteq> Some []) \<Longrightarrow> cfg_ok (put_section f c)"
  by (auto simp: put_section_def section_ref_def cfg_ok_def empty_section_def split: option.splits if_splits)

lemma store_param_ok:
  assumes "loader_ok l"
  shows "\<exists>l'. store_param v l = Some l' \<and> loader_ok l' \<and> is_multiline l' = is_multiline l"
proof (cases "is_object l")
  case True
  then obtain t x os where o: "current_obj l = Some t" "m_dictSection (the_cfg l) (m_strSection (the_cfg l)) = Some x"
    "m_objects x t = Some os" "os \<noteq> []"
    using assms by (fastforce simp: loader_ok_def cfg_ok_def)
  then show ?thesis using assms True
    by (auto simp: store_param_def store_object_param_def loader_ok_def put_section_def section_ref_def cfg_ok_def split: if_splits)
next
  case False
  then show ?thesis using assms
    by (auto simp: store_param_def store_section_param_def loader_ok_def intro!: put_section_ok)
qed

lemma loader_ok_upd [simp]:
  "loader_ok (l\<lparr>cur_line := a\<rparr>) = loader_ok l" "loader_ok (l\<lparr>is_multiline := b\<rparr>) = loader_ok l"
  "loader_ok (l\<lparr>param_name := a\<rparr>) = loader_ok l" "loader_ok (l\<lparr>param_value := a\<rparr>) = loader_ok l"
  by (simp_all add: loader_ok_def)

lemma load_multiline_ok:
  "loader_ok l \<Longrightarrow> NUL \<notin> set (cur_line l) \<Longrightarrow> cur_line l \<noteq> [] \<Longrightarrow> \<exists>l'. load_multiline l = Some l' \<and> loader_ok l'"
  using store_param_ok [of "l\<lparr>is_multiline := False, cur_line := cur_line l,
    param_value := trim (param_value l @ LF # cur_line l)\<rparr>" "trim (param_value l @ LF # cur_line l)"]
  by (auto simp: load_multiline_def match_last Let_def)

lemma load_section_ok: "loader_ok l \<Longrightarrow> \<exists>l'. load_section l = Inr l' \<and> loader_ok l'"
  by (auto simp: load_section_def extract_enclosed_def Let_def loader_ok_def cfg_ok_def empty_section_def split: if_splits)

lemma load_object_ok: "loader_ok l \<Longrightarrow> loader_ok (load_object l)"
  by (cases "extract_token_plain (cur_line l) (CHR '':'')")
    (auto simp: load_object_def loader_ok_def Let_def put_section_def section_ref_def cfg_ok_def empty_section_def
      split: option.splits if_splits)

lemma load_value_ok: "loader_ok l \<Longrightarrow> loader_ok (load_value l)"
  by (auto simp: load_value_def loader_ok_def Let_def intro: put_section_ok)

text \<open>The lines that make \<open>match\<close> read before the text: an empty value, an empty line of a value of several lines.\<close>

definition bad_line :: "string \<Rightarrow> bool \<Rightarrow> bool" where
  "bad_line line multi =
     (let t = trim line
      in if multi then t = []
         else t \<noteq> [] \<and> hd t \<notin> {CHR ''#'', CHR '';'', CHR ''-'', QUOTE} \<and> \<not> (hd t = CHR ''['' \<and> last t = CHR '']'')
           \<and> dropWhile (\<lambda>x. x \<noteq> CHR ''='') t = ''='')"

lemma set_rstrip: "set (rstrip s) \<subseteq> set s"
  unfolding rstrip_def by (metis set_dropWhileD set_rev subsetI)

lemma set_trim: "set (trim s) \<subseteq> set s"
  unfolding trim_eq using set_rstrip by (meson set_dropWhileD subset_code(1))

lemma last_rstrip: "rstrip s \<noteq> [] \<Longrightarrow> \<not> isspace (last (rstrip s))"
  unfolding rstrip_def last_rev by (metis hd_dropWhile rev.simps(1))

lemma rstrip_Nil: "rstrip s = [] \<longleftrightarrow> (\<forall>x \<in> set s. isspace x)"
  by (simp add: rstrip_def dropWhile_eq_Nil_conv)

lemma trim_Nil_iff: "trim s = [] \<longleftrightarrow> (\<forall>x \<in> set s. isspace x)"
proof
  assume a: "trim s = []"
  have "dropWhile isspace s = []"
  proof (rule ccontr)
    assume n: "dropWhile isspace s \<noteq> []"
    have "\<forall>x \<in> set (dropWhile isspace s). isspace x" using a by (simp add: trim_eq rstrip_Nil)
    then show False using hd_in_set [OF n] hd_dropWhile [OF n] by blast
  qed
  then show "\<forall>x \<in> set s. isspace x" by (simp add: dropWhile_eq_Nil_conv)
next
  assume "\<forall>x \<in> set s. isspace x"
  then have "dropWhile isspace s = []" by (simp add: dropWhile_eq_Nil_conv)
  then show "trim s = []" by (simp only: trim_eq rstrip_def rev.simps dropWhile.simps)
qed

lemma trim_rest_Nil:
  assumes "t = trim line" "CHR ''='' \<in> set t"
  shows "trim (tl (dropWhile (\<lambda>x. x \<noteq> CHR ''='') t)) = [] \<longleftrightarrow> dropWhile (\<lambda>x. x \<noteq> CHR ''='') t = ''=''"
proof -
  obtain r where r: "dropWhile (\<lambda>x. x \<noteq> CHR ''='') t = CHR ''='' # r"
    using assms(2) by (cases "dropWhile (\<lambda>x. x \<noteq> CHR ''='') t") (auto simp: dropWhile_eq_Nil_conv dropWhile_eq_Cons_conv)
  have "t = takeWhile (\<lambda>x. x \<noteq> CHR ''='') t @ CHR ''='' # r" using r by (metis takeWhile_dropWhile_id)
  then have "r \<noteq> [] \<Longrightarrow> last r = last t" by (metis last_ConsR last_appendR list.distinct(1))
  moreover have "t \<noteq> []" using assms(2) by auto
  then have "\<not> isspace (last t)" unfolding assms(1) trim_eq using last_rstrip by blast
  ultimately show ?thesis unfolding r using last_in_set [of r] by (cases "r = []") (auto simp: trim_Nil_iff)
qed

lemma load_param_defined:
  assumes "loader_ok l" "NUL \<notin> set (cur_line l)" "CHR ''='' \<in> set (cur_line l)" "cur_line l = trim line"
  shows "(load_param l = None \<longleftrightarrow> dropWhile (\<lambda>x. x \<noteq> CHR ''='') (cur_line l) = ''='') \<and>
    (\<forall>l'. load_param l = Some l' \<longrightarrow> loader_ok l')"
proof -
  let ?r = "tl (dropWhile (\<lambda>x. x \<noteq> CHR ''='') (cur_line l))"
    and ?k = "takeWhile (\<lambda>x. x \<noteq> CHR ''='') (cur_line l)"
  let ?l = "l\<lparr>cur_line := ?r, param_name := trim ?k, param_value := trim ?r\<rparr>"
  have e: "extract_token_plain (cur_line l) (CHR ''='') = (SEP_FOUND, ?r, ?k)"
    using assms(3) by (auto simp: extract_token_plain_def extract_token_noescape)
  have n: "NUL \<notin> set (trim ?r)"
    using assms(2) set_trim [of ?r] by (metis list.set_sel(2) set_dropWhileD subsetD tl_Nil)
  obtain l' where s: "store_param (trim ?r) ?l = Some l'" "loader_ok l'"
    using store_param_ok [of ?l "trim ?r"] assms(1) by auto
  show ?thesis
  proof (cases "trim ?r = []")
    case True
    then show ?thesis using trim_rest_Nil [OF assms(4,3)]
      by (simp add: load_param_def e Let_def match_last_empty)
  next
    case False
    then show ?thesis using trim_rest_Nil [OF assms(4,3)] s assms(1)
      by (simp add: load_param_def e Let_def match_last [OF n False] bool.case_eq_if)
  qed
qed

lemma load_line_kinds:
  assumes "\<not> is_multiline l" "NUL \<notin> set (trim line)"
  shows "load_line line l =
    (let t = trim line; l = l\<lparr>cur_line := t\<rparr>
     in if t = [] \<or> hd t = CHR ''#'' \<or> hd t = CHR '';'' then Some (Inr l)
        else if hd t = CHR ''-'' then Some (Inr (l\<lparr>is_object := False\<rparr>))
        else if hd t = CHR ''['' \<and> last t = CHR '']'' then Some (load_section l)
        else if CHR ''='' \<in> set t \<and> hd t \<noteq> QUOTE then map_option Inr (load_param l)
        else if last t = CHR '':'' \<and> hd t \<noteq> QUOTE then Some (Inr (load_object l))
        else Some (Inr (load_value l)))"
proof (cases "trim line")
  case Nil
  then show ?thesis using assms by (simp add: load_line_def Let_def)
next
  case (Cons a t)
  have q: "QUOTE = a \<longleftrightarrow> a = QUOTE" by (rule eq_commute)
  show ?thesis using assms unfolding Cons
    by (auto simp: load_line_def Let_def Cons line_masks starts_with_char_def bool.case_eq_if q
        cong del: option.case_cong_weak bool.case_cong_weak)
qed

lemma load_line_defined:
  assumes "loader_ok l" "NUL \<notin> set line"
  shows "(load_line line l = None \<longleftrightarrow> bad_line line (is_multiline l)) \<and>
    (\<forall>r. load_line line l = Some r \<longrightarrow> (\<exists>l'. r = Inr l' \<and> loader_ok l'))"
proof (cases "is_multiline l")
  case True
  let ?l = "l\<lparr>cur_line := trim line\<rparr>"
  have n: "NUL \<notin> set (trim line)" using assms(2) set_trim by auto
  show ?thesis
  proof (cases "trim line = []")
    case True
    then show ?thesis using \<open>is_multiline l\<close>
      by (simp add: load_line_def bad_line_def Let_def load_multiline_def match_last_empty)
  next
    case False
    then show ?thesis using \<open>is_multiline l\<close> load_multiline_ok [of ?l] assms n
      by (auto simp: load_line_def bad_line_def Let_def)
  qed
next
  case False
  let ?l = "l\<lparr>cur_line := trim line\<rparr>"
  have n: "NUL \<notin> set (trim line)" using assms(2) set_trim by auto
  have ok: "loader_ok ?l" "loader_ok (?l\<lparr>is_object := False\<rparr>)" "loader_ok (load_object ?l)" "loader_ok (load_value ?l)"
    using assms(1) load_object_ok [of ?l] load_value_ok [of ?l] by (auto simp: loader_ok_def)
  obtain l' where s: "load_section ?l = Inr l'" "loader_ok l'" using load_section_ok [OF ok(1)] by auto
  have p: "CHR ''='' \<in> set (trim line) \<Longrightarrow>
      (load_param ?l = None \<longleftrightarrow> dropWhile (\<lambda>x. x \<noteq> CHR ''='') (trim line) = ''='') \<and>
      (\<forall>l'. load_param ?l = Some l' \<longrightarrow> loader_ok l')"
    using load_param_defined [of ?l line] ok n by simp
  have q: "dropWhile (\<lambda>x. x \<noteq> CHR ''='') (trim line) = ''='' \<Longrightarrow> CHR ''='' \<in> set (trim line)"
    by (metis list.set_intros(1) set_dropWhileD)
  show ?thesis
    using False p q n ok s
    by (auto simp: load_line_kinds bad_line_def Let_def split: if_splits)
qed

text \<open>The next line belongs to the value when the line ends with a backslash.\<close>

lemma last_trim: "trim r \<noteq> [] \<Longrightarrow> \<not> isspace (last r) \<Longrightarrow> last (trim r) = last r"
proof -
  assume a: "trim r \<noteq> []" "\<not> isspace (last r)"
  then have d: "dropWhile isspace r \<noteq> []" by (metis dropWhile_eq_Nil_conv trim_Nil_iff)
  have l: "last (dropWhile isspace r) = last r" using d by (metis last_appendR takeWhile_dropWhile_id)
  have "rstrip (dropWhile isspace r) = dropWhile isspace r"
    using d l a(2) by (cases "dropWhile isspace r" rule: rev_cases) simp_all
  then show ?thesis using l by (simp add: trim_eq)
qed

lemma store_param_multi: "store_param v l = Some l' \<Longrightarrow> is_multiline l' = is_multiline l"
  by (auto simp: store_param_def split: if_splits)

lemma load_multiline_next:
  assumes "is_multiline l" "NUL \<notin> set (trim line)" "load_line line l = Some (Inr l')" "is_multiline l'"
  shows "trim line \<noteq> [] \<and> last (trim line) = BACKSLASH"
proof (cases "trim line = []")
  case True
  then show ?thesis using assms by (simp add: load_line_def Let_def load_multiline_def match_last_empty)
next
  case False
  then show ?thesis using assms
    by (auto simp: load_line_def Let_def load_multiline_def match_last bool.case_eq_if split: if_splits dest!: store_param_multi)
qed

lemma load_param_next:
  assumes "load_param (l\<lparr>cur_line := trim line\<rparr>) = Some l'" "is_multiline l'" "\<not> is_multiline l" "NUL \<notin> set (trim line)"
    "CHR ''='' \<in> set (trim line)"
  shows "last (trim line) = BACKSLASH"
proof -
  let ?t = "trim line"
  let ?r = "tl (dropWhile (\<lambda>x. x \<noteq> CHR ''='') ?t)" and ?k = "takeWhile (\<lambda>x. x \<noteq> CHR ''='') ?t"
  have e: "extract_token_plain ?t (CHR ''='') = (SEP_FOUND, ?r, ?k)"
    using assms(5) by (auto simp: extract_token_plain_def extract_token_noescape)
  have n: "NUL \<notin> set (trim ?r)"
    using assms(4) set_trim [of ?r] by (metis list.set_sel(2) set_dropWhileD subsetD tl_Nil)
  have ne: "trim ?r \<noteq> []" using assms(1) by (auto simp: load_param_def e Let_def match_last_empty)
  have b: "last (trim ?r) = BACKSLASH"
    using assms(1-3) by (auto simp: load_param_def e Let_def match_last [OF n ne] bool.case_eq_if split: if_splits
        dest!: store_param_multi)
  have "?r \<noteq> []" using ne by (auto simp: trim_Nil_iff)
  then have "last ?r = last ?t"
    by (metis last_appendR last_tl takeWhile_dropWhile_id tl_Nil)
  moreover have "?t \<noteq> []" using assms(5) by auto
  then have "\<not> isspace (last ?t)" unfolding trim_eq using last_rstrip by blast
  ultimately show ?thesis using last_trim [OF ne] b by simp
qed

lemma load_line_next:
  assumes "NUL \<notin> set line" "load_line line l = Some (Inr l')" "is_multiline l'"
  shows "trim line \<noteq> [] \<and> last (trim line) = BACKSLASH"
proof (cases "is_multiline l")
  case True
  then show ?thesis using load_multiline_next [OF True _ assms(2,3)] assms(1) set_trim by blast
next
  case False
  have n: "NUL \<notin> set (trim line)" using assms(1) set_trim by auto
  have s: "load_section k = Inr k' \<Longrightarrow> is_multiline k' = is_multiline k" for k k'
    by (auto simp: load_section_def Let_def split: sum.splits)
  have o: "is_multiline (load_object k) = is_multiline k" "is_multiline (load_value k) = is_multiline k" for k
    by (simp_all add: load_object_def load_value_def Let_def case_prod_beta)
  show ?thesis using assms(2,3) False load_param_next [OF _ assms(3) False n]
    by (auto simp: load_line_kinds [OF False n] Let_def o dest!: s split: if_splits)
qed

fun lines_ok :: "bool \<Rightarrow> string list \<Rightarrow> bool" where
  "lines_ok after [] \<longleftrightarrow> True"
| "lines_ok after (line # ls) \<longleftrightarrow>
     NUL \<notin> set line \<and> LF \<notin> set line \<and> \<not> bad_line line False \<and> (after \<longrightarrow> trim line \<noteq> [])
     \<and> lines_ok (trim line \<noteq> [] \<and> last (trim line) = BACKSLASH) ls"

lemma load_lines_ok:
  "lines_ok after ls \<Longrightarrow> loader_ok l \<Longrightarrow> (is_multiline l \<Longrightarrow> after) \<Longrightarrow>
   \<exists>l'. load_loop (concat (map (\<lambda>l. l @ [LF]) ls)) l = Some (Inr l') \<and> loader_ok l'"
proof (induction ls arbitrary: after l)
  case Nil
  then show ?case by simp
next
  case (Cons line ls)
  have "\<not> bad_line line (is_multiline l)" using Cons.prems by (cases "is_multiline l") (auto simp: bad_line_def Let_def)
  then obtain l1 where l1: "load_line line l = Some (Inr l1)" "loader_ok l1"
    using load_line_defined [OF Cons.prems(2), of line] Cons.prems(1) by auto
  have "load_loop (concat (map (\<lambda>l. l @ [LF]) (line # ls))) l = load_loop (concat (map (\<lambda>l. l @ [LF]) ls)) l1"
    using load_loop_line [of line "concat (map (\<lambda>l. l @ [LF]) ls)" l] Cons.prems(1) l1(1) by simp
  then show ?case using Cons.IH [OF _ l1(2)] Cons.prems(1) load_line_next [of line l l1] l1(1) by fastforce
qed

section \<open>All operations\<close>

lemma load_loop_ok:
  "loader_ok l \<Longrightarrow> NUL \<notin> set content \<Longrightarrow> load_loop content l = Some r \<Longrightarrow> \<exists>l'. r = Inr l' \<and> loader_ok l'"
proof (induction content l rule: load_loop.induct)
  case (1 content l)
  show ?case
  proof (cases "content = []")
    case True
    then show ?thesis using 1 by auto
  next
    case False
    obtain res rest line where e: "extract_token_plain content LF = (res, rest, line)" by (cases "extract_token_plain content LF")
    have n: "NUL \<notin> set line" "NUL \<notin> set rest"
      using 1(3) e by (auto simp: extract_token_plain_def extract_token_noescape split: if_splits
          dest: set_takeWhileD set_dropWhileD) (metis list.set_sel(2) set_dropWhileD tl_Nil)?
    have r: "load_loop content l =
        (case load_line line l of None \<Rightarrow> None | Some (Inl e) \<Rightarrow> Some (Inl e) | Some (Inr l) \<Rightarrow> load_loop rest l)"
      using False e by (subst load_loop.simps) simp
    then obtain r1 where "load_line line l = Some r1" using 1(4) by (cases "load_line line l") auto
    moreover obtain l1 where "r1 = Inr l1" "loader_ok l1" using load_line_defined [OF 1(2) n(1)] calculation by auto
    ultimately show ?thesis using 1(1) [OF False e [symmetric]] 1(4) n(2) r by simp
  qed
qed

lemma load_from_string_ok:
  assumes "cfg_ok c" "NUL \<notin> set content" "load_from_string content c = Some r"
  shows "\<exists>c'. r = Inr c' \<and> cfg_ok c'"
proof -
  have "loader_ok (loader_ctor c)" using assms(1) by (auto simp: loader_ok_def loader_ctor_def cfg_ok_def empty_section_def)
  then obtain l where l: "load_loop content (loader_ctor c) = Some (Inr l)" "loader_ok l"
    using load_loop_ok [OF _ assms(2)] assms(3) by (fastforce simp: load_from_string_def split: option.splits sum.splits)
  obtain l' where "store_param (cur_line l) l = Some l'" "loader_ok l'" using store_param_ok [OF l(2)] by auto
  then show ?thesis using l assms(3)
    by (cases "is_multiline l") (auto simp: load_from_string_def load_end_def loader_ok_def cfg_ok_def)
qed

datatype cfg_op =
    LoadString string | LoadFile string | SetSection string bool | GetValues string | HasObject string
  | GetObjects string | GetAllObjects | GetUniqueObject string | GetParameters | GetParamValue string bool | HasParameter string

text \<open>The state after an operation; \<open>None\<close> where the operation is undefined.\<close>

fun cfg_step :: "cfg_op \<Rightarrow> cfg_file \<Rightarrow> cfg_file option" where
  "cfg_step (LoadString content) c = (case load_from_string content c of Some (Inr c') \<Rightarrow> Some c' | _ \<Rightarrow> None)"
| "cfg_step (LoadFile content) c = (case load_file content c of Some (Inr c') \<Rightarrow> Some c' | _ \<Rightarrow> None)"
| "cfg_step (SetSection s throws) c = Some (snd (set_section s throws c))"
| "cfg_step (GetValues s) c = Some (snd (get_values s c))"
| "cfg_step (HasObject t) c = Some (snd (has_object t c))"
| "cfg_step (GetObjects t) c = Some (snd (get_objects t c))"
| "cfg_step GetAllObjects c = Some (snd (get_all_objects c))"
| "cfg_step (GetUniqueObject t) c = map_option (\<lambda>_. snd (get_unique_object t c)) (fst (get_unique_object t c))"
| "cfg_step GetParameters c = Some (snd (get_parameters c))"
| "cfg_step (GetParamValue k throws) c = Some (snd (get_param_value k throws c))"
| "cfg_step (HasParameter k) c = Some (snd (has_parameter k c))"

fun text_op :: "cfg_op \<Rightarrow> bool" where
  "text_op (LoadString content) \<longleftrightarrow> NUL \<notin> set content"
| "text_op (LoadFile content) \<longleftrightarrow> NUL \<notin> set content"
| "text_op _ \<longleftrightarrow> True"

lemma snd_section_ref_ok: "cfg_ok c \<Longrightarrow> cfg_ok (snd (section_ref s c))"
  using section_ref_ok by (metis prod.collapse)

lemmas getter_defs = get_values_def has_object_def get_objects_def get_all_objects_def get_unique_object_def
  get_parameters_def get_param_value_def has_parameter_def

lemma cfg_step_ok: "cfg_ok c \<Longrightarrow> text_op e \<Longrightarrow> cfg_step e c = Some c' \<Longrightarrow> cfg_ok c'"
proof (cases e)
  case (LoadString content)
  assume "cfg_ok c" "text_op e" "cfg_step e c = Some c'"
  then show ?thesis using load_from_string_ok [of c content] LoadString by (fastforce split: option.splits sum.splits)
next
  case (LoadFile content)
  assume "cfg_ok c" "text_op e" "cfg_step e c = Some c'"
  moreover have "cfg_ok (c\<lparr>m_dictSection := Map.empty, m_strSection := []\<rparr>)" by (simp add: cfg_ok_def)
  ultimately show ?thesis using load_from_string_ok [of "c\<lparr>m_dictSection := Map.empty, m_strSection := []\<rparr>" content] LoadFile
    by (fastforce simp: load_file_def split: option.splits sum.splits)
next
  case (SetSection s b)
  assume "cfg_ok c" "cfg_step e c = Some c'"
  then show ?thesis using SetSection by (auto simp: set_section_def cfg_ok_def split: if_splits)
qed (auto simp: getter_defs case_prod_beta Let_def intro: snd_section_ref_ok)

interpretation cfg: guarded_invariant cfg_step "\<lambda>e _. text_op e" cfg_ok
  by unfold_locales (rule cfg_step_ok)

lemma along_text: "list_all text_op es \<Longrightarrow> along cfg_step (\<lambda>e _. text_op e) es c"
  by (induction es arbitrary: c) (auto split: option.splits)

lemma unique_object_defined: "cfg_ok c \<Longrightarrow> fst (get_unique_object t c) \<noteq> None"
  by (auto simp: get_unique_object_def section_ref_def cfg_ok_def empty_section_def split: option.split prod.split)

section \<open>Properties\<close>

text \<open>C22: a configuration that is written as text (parameters with values of one line or several, plain
  values and objects, first without a section, then in sections) is what loading the text gives. A section that
  is declared again replaces the one before.\<close>

theorem cfg_roundtrip:
  assumes "wf_block b" and "list_all wf_section bs"
  shows "load_from_string (block_text b @ concat (map section_text bs)) c = Some (Inr (c\<lparr>
    m_dictSection := (m_dictSection c)(CFG_FILE_DEFAULT_SECTION \<mapsto> block_meaning b)
      ++ map_of (rev (map (\<lambda>p. (fst p, block_meaning (snd p))) bs)),
    m_strSection := CFG_FILE_DEFAULT_SECTION\<rparr>))"
  by (rule load_texts [OF assms])

definition example_block :: cfg_block where
  "example_block = \<lparr>block_params = [(''host'', [''tango'']), (''path'', [''/usr/lib'', ''/opt lib''])],
     block_values = [''a=b:''], block_objects = [(''motor'', [(''axis'', [''1''])]), (''motor'', [])]\<rparr>"

lemma example_block_ok: "wf_block example_block" "list_all wf_section [(''io'', example_block), ([], example_block)]"
  by code_simp+

theorem cfg_roundtrip_witness:
  "load_from_string (block_text example_block @ concat (map section_text [(''io'', example_block), ([], example_block)]))
     CfgFile_ctor = Some (Inr (CfgFile_ctor\<lparr>
    m_dictSection := (m_dictSection CfgFile_ctor)(CFG_FILE_DEFAULT_SECTION \<mapsto> block_meaning example_block)
      ++ map_of (rev (map (\<lambda>p. (fst p, block_meaning (snd p))) [(''io'', example_block), ([], example_block)])),
    m_strSection := CFG_FILE_DEFAULT_SECTION\<rparr>))"
  by (rule cfg_roundtrip [OF example_block_ok])

text \<open>After loading a text with sections of different names, each of them can be made the current one; its
  parameters, its values and its objects are those of the text, the unique object of a type is the first one, and a parameter or
  an object that the section does not have is an exception.\<close>

theorem cfg_read:
  assumes "wf_block b" and "list_all wf_section bs" and "distinct (map fst bs)" and "(s, d) \<in> set bs"
  shows "\<exists>c1 c2. load_from_string (block_text b @ concat (map section_text bs)) c = Some (Inr c1)
    \<and> set_section s True c1 = (Inr True, c2)
    \<and> get_parameters c2 = (params_meaning (block_params d), c2)
    \<and> get_values [] c2 = (block_values d, c2)
    \<and> has_object t c2 = (t \<in> set (map fst (block_objects d)), c2)
    \<and> get_unique_object t c2 =
        (Some (case find (\<lambda>p. fst p = t) (block_objects d) of
                 None \<Rightarrow> Inl (NO_DATA (''No such object: '' @ t)) | Some p \<Rightarrow> Inr (params_meaning (snd p))), c2)
    \<and> get_param_value k True c2 =
        (case params_meaning (block_params d) k of None \<Rightarrow> Inl (NO_DATA (''Parameter '' @ k @ '' not found'')) | Some v \<Rightarrow> Inr v, c2)"
proof -
  define D where "D = (m_dictSection c)(CFG_FILE_DEFAULT_SECTION \<mapsto> block_meaning b)
      ++ map_of (rev (map (\<lambda>p. (fst p, block_meaning (snd p))) bs))"
  let ?c1 = "c\<lparr>m_dictSection := D, m_strSection := CFG_FILE_DEFAULT_SECTION\<rparr>"
  let ?c2 = "c\<lparr>m_dictSection := D, m_strSection := s\<rparr>"
  have "map_of (rev (map (\<lambda>p. (fst p, block_meaning (snd p))) bs)) s = Some (block_meaning d)"
    using assms(3,4) by (intro map_of_is_SomeI) (force simp: rev_map [symmetric] comp_def)+
  then have D: "D s = Some (block_meaning d)" by (simp add: D_def)
  have n: "m_objects (block_meaning d) t = None \<longleftrightarrow> t \<notin> set (map fst (block_objects d))" for t
    by (force simp: block_meaning_def objects_meaning_def Let_def filter_empty_conv)
  have u: "(case m_objects (block_meaning d) t of Some os \<Rightarrow> if os = [] then None else Some (Inr (hd os))
          | None \<Rightarrow> Some (Inl (NO_DATA (''No such object: '' @ t)))) =
      Some (case find (\<lambda>p. fst p = t) (block_objects d) of
                 None \<Rightarrow> Inl (NO_DATA (''No such object: '' @ t)) | Some p \<Rightarrow> Inr (params_meaning (snd p)))"
  proof -
    have "find (\<lambda>p. fst p = t) os = (case filter (\<lambda>(t', _). t' = t) os of [] \<Rightarrow> None | p # _ \<Rightarrow> Some p)" for os :: "cfg_object list"
      by (induction os) auto
    then show ?thesis by (auto simp: block_meaning_def objects_meaning_def Let_def hd_map split: list.split)
  qed
  have "load_from_string (block_text b @ concat (map section_text bs)) c = Some (Inr ?c1)"
    unfolding D_def by (rule load_texts [OF assms(1,2)])
  moreover have "set_section s True ?c1 = (Inr True, ?c2)" by (simp add: set_section_def D)
  moreover have "get_parameters ?c2 = (params_meaning (block_params d), ?c2)" "get_values [] ?c2 = (block_values d, ?c2)"
    by (simp_all add: get_parameters_def get_values_def section_ref_def D block_meaning_def)
  moreover have "has_object t ?c2 = (t \<in> set (map fst (block_objects d)), ?c2)"
    by (simp add: has_object_def section_ref_def D n del: not_None_eq)
  moreover have "get_unique_object t ?c2 =
        (Some (case find (\<lambda>p. fst p = t) (block_objects d) of
                 None \<Rightarrow> Inl (NO_DATA (''No such object: '' @ t)) | Some p \<Rightarrow> Inr (params_meaning (snd p))), ?c2)"
    using u by (simp add: get_unique_object_def section_ref_def D)
  moreover have "get_param_value k True ?c2 =
        (case params_meaning (block_params d) k of None \<Rightarrow> Inl (NO_DATA (''Parameter '' @ k @ '' not found'')) | Some v \<Rightarrow> Inr v, ?c2)"
    by (auto simp: get_param_value_def section_ref_def D block_meaning_def split: option.split)
  ultimately show ?thesis by blast
qed

theorem cfg_read_witness:
  "\<exists>c1 c2. load_from_string (block_text example_block @ concat (map section_text [(''io'', example_block), ([], example_block)]))
        CfgFile_ctor = Some (Inr c1)
    \<and> set_section ''io'' True c1 = (Inr True, c2)
    \<and> get_parameters c2 = (params_meaning (block_params example_block), c2)
    \<and> get_values [] c2 = (block_values example_block, c2)
    \<and> has_object ''motor'' c2 = (''motor'' \<in> set (map fst (block_objects example_block)), c2)
    \<and> get_unique_object ''motor'' c2 =
        (Some (case find (\<lambda>p. fst p = ''motor'') (block_objects example_block) of
                 None \<Rightarrow> Inl (NO_DATA (''No such object: '' @ ''motor'')) | Some p \<Rightarrow> Inr (params_meaning (snd p))), c2)
    \<and> get_param_value ''port'' True c2 =
        (case params_meaning (block_params example_block) ''port'' of
           None \<Rightarrow> Inl (NO_DATA (''Parameter '' @ ''port'' @ '' not found'')) | Some v \<Rightarrow> Inr v, c2)"
  by (rule cfg_read [OF example_block_ok]) code_simp+

text \<open>A text without zeros, without a parameter that has an empty value, and without an empty line behind one
  that ends with a backslash, is loaded: nothing is undefined, nothing is thrown, and no collection of objects is
  empty, so that the unique object of a type is always defined.\<close>

theorem cfg_load_defined:
  assumes "lines_ok False ls" and "cfg_ok c"
  shows "\<exists>c'. load_from_string (concat (map (\<lambda>l. l @ [LF]) ls)) c = Some (Inr c') \<and> cfg_ok c'
    \<and> (\<forall>s t. fst (get_unique_object t (c'\<lparr>m_strSection := s\<rparr>)) \<noteq> None)"
proof -
  have "loader_ok (loader_ctor c)" "\<not> is_multiline (loader_ctor c)"
    using assms(2) by (auto simp: loader_ok_def loader_ctor_def cfg_ok_def empty_section_def)
  then obtain l where l: "load_loop (concat (map (\<lambda>l. l @ [LF]) ls)) (loader_ctor c) = Some (Inr l)" "loader_ok l"
    using load_lines_ok [OF assms(1)] by blast
  obtain l' where "store_param (cur_line l) l = Some l'" "loader_ok l'" using store_param_ok [OF l(2)] by auto
  then obtain c' where c': "load_end l = Some c'" "cfg_ok c'"
    using l(2) by (cases "is_multiline l") (auto simp: load_end_def loader_ok_def cfg_ok_def)
  have "fst (get_unique_object t (c'\<lparr>m_strSection := s\<rparr>)) \<noteq> None" for s t
    using c'(2) by (intro unique_object_defined) (simp add: cfg_ok_def)
  then show ?thesis using l(1) c' by (auto simp: load_from_string_def)
qed

theorem cfg_load_defined_witness:
  "\<exists>c'. load_from_string (concat (map (\<lambda>l. l @ [LF]) ['' motor :'', ''axis = 1 '' @ [BACKSLASH], ''2'', ''- end'', ''[x]'', ''a='' @ [BACKSLASH]]))
      CfgFile_ctor = Some (Inr c') \<and> cfg_ok c'
    \<and> (\<forall>s t. fst (get_unique_object t (c'\<lparr>m_strSection := s\<rparr>)) \<noteq> None)"
  by (rule cfg_load_defined) (code_simp, simp add: cfg_ok_def CfgFile_ctor_def)

definition loaded :: "string \<Rightarrow> string \<Rightarrow> string \<Rightarrow> string option" where
  "loaded content s k =
     (case load_from_string content CfgFile_ctor of Some (Inr c) \<Rightarrow>
        (case get_param_value k True (snd (set_section s True c)) of (Inr v, _) \<Rightarrow> Some v | _ \<Rightarrow> None)
      | _ \<Rightarrow> None)"

text \<open>What the texts outside of these bounds do. A parameter with an empty value and an empty line in a value of several lines make
  the comparison with a mask read before the text. Of a value that is cut off at the end of the text only the last line is kept. A section that is
  declared again is emptied, \<open>default\<close> also. Reading a section that does not exist adds it.\<close>

theorem cfg_limits:
  "load_from_string (''a='' @ [LF]) c = None \<and> load_from_string (''a=b'' @ [BACKSLASH, LF, LF] @ ''c'') c = None
   \<and> loaded (''a=b'' @ [BACKSLASH, LF] @ ''c'' @ [BACKSLASH, LF]) ''default'' ''a'' = Some ''c''
   \<and> loaded (''[s]'' @ [LF] @ ''a=1'' @ [LF] @ ''[s]'' @ [LF] @ ''b=2'') ''s'' ''a'' = None
   \<and> loaded (''a=1'' @ [LF] @ ''[default]'' @ [LF] @ ''b=2'') ''default'' ''a'' = None
   \<and> (m_dictSection c s = None \<longleftrightarrow> fst (set_section s False c) = Inr False)
   \<and> (s \<noteq> [] \<longrightarrow> fst (get_values s c) = (case m_dictSection c s of None \<Rightarrow> [] | Some x \<Rightarrow> m_vecSingleValues x)
        \<and> fst (set_section s False (snd (get_values s c))) = Inr True)"
proof (intro conjI)
  show "load_from_string (''a='' @ [LF]) c = None" by code_simp
  show "load_from_string (''a=b'' @ [BACKSLASH, LF, LF] @ ''c'') c = None" by code_simp
  show "loaded (''a=b'' @ [BACKSLASH, LF] @ ''c'' @ [BACKSLASH, LF]) ''default'' ''a'' = Some ''c''" by code_simp
  show "loaded (''[s]'' @ [LF] @ ''a=1'' @ [LF] @ ''[s]'' @ [LF] @ ''b=2'') ''s'' ''a'' = None" by code_simp
  show "loaded (''a=1'' @ [LF] @ ''[default]'' @ [LF] @ ''b=2'') ''default'' ''a'' = None" by code_simp
qed (auto simp: set_section_def get_values_def section_ref_def empty_section_def Let_def split: option.split)

theorem cfg_limits_witness:
  "load_from_string (''a='' @ [LF]) CfgFile_ctor = None \<and> fst (set_section ''x'' False (snd (get_values ''x'' CfgFile_ctor))) = Inr True"
  using cfg_limits [of CfgFile_ctor "''x''"] by simp

text \<open>C23: whatever the operations and the texts (without zeros) are, every collection of objects has an object, at all times:
  the unique object of a type is defined, and loading a further text does not throw.\<close>

theorem cfg_type:
  assumes "list_all text_op es" and "runs cfg_step es CfgFile_ctor = Some c"
  shows "cfg_ok c \<and> fst (get_unique_object t c) \<noteq> None \<and> (NUL \<notin> set content \<longrightarrow> load_from_string content c \<noteq> Some (Inl e))"
proof -
  have "cfg_ok c"
    by (rule cfg.holds_after [OF _ along_text [OF assms(1)] assms(2)]) (simp add: cfg_ok_def CfgFile_ctor_def)
  then show ?thesis using unique_object_defined load_from_string_ok by blast
qed

theorem cfg_type_witness:
  "fst (get_unique_object ''motor'' (the (runs cfg_step [LoadString (''motor:'' @ [LF] @ ''x=1''), GetValues ''s''] CfgFile_ctor))) \<noteq> None"
proof -
  have "runs cfg_step [LoadString (''motor:'' @ [LF] @ ''x=1''), GetValues ''s''] CfgFile_ctor \<noteq> None" by code_simp
  then obtain c where "runs cfg_step [LoadString (''motor:'' @ [LF] @ ''x=1''), GetValues ''s''] CfgFile_ctor = Some c" by blast
  then show ?thesis using cfg_type [of "[LoadString (''motor:'' @ [LF] @ ''x=1''), GetValues ''s'']" c] by simp
qed

end
