(* ===== verification/Format.thy ===== *)
theory Format
  imports StringToken StringMatch
begin

text \<open>
  The formatter of \<open>src/utils/String.cpp\<close> (class \<open>Format\<close>): the parser of the format fields, and \<open>arg\<close> for texts, characters, truth
  values and integers. The output stream is its flags, its fill character and its width; floating point arguments are not part of the model.
  \<open>npos\<close> is \<open>-1\<close>; the comparisons of the code are of numbers far below \<open>2^64\<close>, where it makes no difference.
\<close>

section \<open>The output stream\<close>

record out_stream =
  showbase :: bool
  showpos :: bool
  adj_left :: bool
  adj_right :: bool
  adj_internal :: bool
  fixed :: bool
  scientific :: bool
  uppercase :: bool
  boolalpha :: bool
  base_hex :: bool
  base_oct :: bool
  fill_char :: char
  out_width :: int
  out_precision :: int

abbreviation SPACE :: char where "SPACE \<equiv> CHR '' ''"

definition oss_ctor :: out_stream where
  "oss_ctor = \<lparr>showbase = False, showpos = False, adj_left = False, adj_right = False, adj_internal = False,
     fixed = False, scientific = False, uppercase = False, boolalpha = False, base_hex = False, base_oct = False,
     fill_char = SPACE, out_width = 0, out_precision = 6\<rparr>"

text \<open>The padding of a text of two parts: \<open>internal\<close> pads between them. The three flags of the adjustment are one field of the stream.\<close>

definition pad_out :: "out_stream \<Rightarrow> string \<Rightarrow> string \<Rightarrow> string" where
  "pad_out os pre s =
     (let p = replicate (nat (out_width os - int (length (pre @ s)))) (fill_char os)
      in if adj_left os \<and> \<not> adj_right os \<and> \<not> adj_internal os then pre @ s @ p
         else if adj_internal os \<and> \<not> adj_right os \<and> \<not> adj_left os then pre @ p @ s
         else p @ pre @ s)"

text \<open>A text has no prefix, and \<open>internal\<close> puts the padding before it.\<close>

definition out_text :: "out_stream \<Rightarrow> string \<Rightarrow> string" where
  "out_text os s = pad_out os [] s"

definition digit_char :: "bool \<Rightarrow> nat \<Rightarrow> char" where
  "digit_char upper d = (if d < 10 then char_of (48 + d) else char_of ((if upper then 55 else 87) + d))"

function radix_text :: "bool \<Rightarrow> nat \<Rightarrow> nat \<Rightarrow> string" where
  "radix_text upper b n =
     (if n < b \<or> b < 2 then [digit_char upper n] else radix_text upper b (n div b) @ [digit_char upper (n mod b)])"
  by pat_completeness auto
termination by (relation "measure (\<lambda>(upper, b, n). n)") auto

declare radix_text.simps [simp del]

text \<open>An integer of \<open>w\<close> bits: hexadecimal and octal output is that of the unsigned type.\<close>

definition out_int :: "out_stream \<Rightarrow> nat \<Rightarrow> int \<Rightarrow> string" where
  "out_int os w v =
     (if base_hex os then
        let u = nat (v mod 2 ^ w)
        in pad_out os (if showbase os \<and> u \<noteq> 0 then (if uppercase os then ''0X'' else ''0x'') else []) (radix_text (uppercase os) 16 u)
      else if base_oct os then
        let u = nat (v mod 2 ^ w)
        in pad_out os [] ((if showbase os \<and> u \<noteq> 0 then ''0'' else []) @ radix_text False 8 u)
      else pad_out os (if v < 0 then ''-'' else if showpos os then ''+'' else []) (radix_text False 10 (nat \<bar>v\<bar>)))"

definition out_bool :: "out_stream \<Rightarrow> bool \<Rightarrow> string" where
  "out_bool os v =
     (if boolalpha os then out_text os (if v then ''true'' else ''false'') else out_int os 64 (if v then 1 else 0))"

text \<open>\<open>std::bitset<w>\<close>\<close>

definition bitset_text :: "nat \<Rightarrow> int \<Rightarrow> string" where
  "bitset_text w v = map (\<lambda>i. if bit v i then CHR ''1'' else CHR ''0'') (rev [0..<w])"

section \<open>The format\<close>

record format =
  fmt_str :: string
  m_fmt_idx :: nat

datatype format_error = BAD_FORMAT_STRING | SOFTWARE_ERROR | FMT_STD std_error

definition Format_ctor :: "string \<Rightarrow> format" where
  "Format_ctor psz = \<lparr>fmt_str = psz, m_fmt_idx = 0\<rparr>"

definition isdigit :: "char \<Rightarrow> bool" where
  "isdigit c \<longleftrightarrow> c \<in> set ''0123456789''"

definition isalpha :: "char \<Rightarrow> bool" where
  "isalpha c \<longleftrightarrow> (let n = of_char c :: nat in 65 \<le> n \<and> n \<le> 90 \<or> 97 \<le> n \<and> n \<le> 122)"

definition dec_value :: "string \<Rightarrow> nat" where
  "dec_value s = foldl (\<lambda>n c. 10 * n + (of_char c - 48)) 0 s"

text \<open>\<open>StringUtil::to_num<std::size_t>\<close>: blanks, a sign, the digits; a minus is the negation of the unsigned number.\<close>

definition to_num_size :: "string \<Rightarrow> format_error + nat" where
  "to_num_size s =
     (let t = dropWhile isspace (cstr s);
          neg = (t \<noteq> [] \<and> hd t = CHR ''-'');
          t = (if t \<noteq> [] \<and> hd t \<in> {CHR ''-'', CHR ''+''} then tl t else t);
          ds = takeWhile isdigit t;
          n = dec_value ds
      in if ds = [] \<or> (2 ^ 64 :: int) \<le> int n then Inl SOFTWARE_ERROR
         else Inr (if neg \<and> n \<noteq> 0 then nat (2 ^ 64 - int n) else n))"

definition find_first_of_from :: "string \<Rightarrow> string \<Rightarrow> int \<Rightarrow> int" where
  "find_first_of_from s cs pos =
     (case List.find (\<lambda>i. s ! i \<in> set cs) [nat pos..<length s] of None \<Rightarrow> - 1 | Some i \<Rightarrow> int i)"

definition std_substr :: "string \<Rightarrow> int \<Rightarrow> int \<Rightarrow> format_error + string" where
  "std_substr s pos n = map_sum FMT_STD id (substr s (nat pos) n)"

definition opt_num :: "bool \<Rightarrow> string \<Rightarrow> int \<Rightarrow> int \<Rightarrow> format_error + nat" where
  "opt_num wanted fmt pos n =
     (if wanted then case std_substr fmt pos n of Inl e \<Rightarrow> Inl e | Inr s \<Rightarrow> to_num_size s else Inr 0)"

text \<open>The width is converted from \<open>size_t\<close> to \<open>int\<close>.\<close>

definition int_of_size :: "nat \<Rightarrow> int" where
  "int_of_size n = sint (of_nat n :: 32 word)"

text \<open>The flags of the stream for a format field, and the type of the field.\<close>

definition field_flags :: "string \<Rightarrow> char \<Rightarrow> format_error + out_stream \<times> char" where
  "field_flags fmt type =
     (let align_pos = find_first_of_from fmt ''<>'' 0
      in if align_pos > 1 then Inl BAD_FORMAT_STRING
      else
        let align_left = (align_pos \<noteq> - 1 \<and> fmt ! nat align_pos = CHR ''<'');
            align_right = (align_pos \<noteq> - 1 \<and> fmt ! nat align_pos = CHR ''>'');
            fill = (if align_pos > 0 then fmt ! 0 else NUL);
            search_start = (if align_pos \<noteq> - 1 then align_pos else 0);
            sign_pos = find_first_of_from fmt ''+-'' search_start;
            show_sign = (sign_pos \<noteq> - 1 \<and> fmt ! nat sign_pos = CHR ''+'');
            search_start = (if sign_pos \<noteq> - 1 then sign_pos else search_start);
            sharp_pos = find_from fmt (CHR ''#'') (nat search_start);
            show_base = (sharp_pos \<noteq> - 1);
            search_start = (if sharp_pos \<noteq> - 1 then sharp_pos else search_start);
            decimal_point_pos = find_from fmt (CHR ''.'') (nat search_start);
            precision_pos = (if decimal_point_pos \<noteq> - 1 then decimal_point_pos + 1 else - 1);
            width_pos = find_first_of_from fmt ''123456789'' search_start;
            width_pos = (if width_pos = precision_pos then - 1 else width_pos);
            zero_pad_pos = find_from fmt (CHR ''0'') (nat search_start);
            zero_padding = (zero_pad_pos = width_pos - 1);
            has_type = (fmt \<noteq> [] \<and> (isalpha (last fmt) \<or> last fmt = CHR ''%''));
            type_pos = (if has_type then int (length fmt) - 1 else - 1);
            type = (if has_type then last fmt else type)
        in case opt_num (width_pos \<noteq> - 1) fmt width_pos
                  ((if decimal_point_pos \<noteq> - 1 then decimal_point_pos else type_pos) - width_pos) of
             Inl e \<Rightarrow> Inl e
           | Inr width \<Rightarrow>
             (case opt_num (precision_pos \<noteq> - 1) fmt precision_pos (type_pos - precision_pos) of
                Inl e \<Rightarrow> Inl e
              | Inr precision \<Rightarrow>
                  let internal = (zero_padding \<and> type \<in> set ''xXodfFgGeE'');
                      fill = (if internal then CHR ''0'' else fill)
                  in Inr (\<lparr>showbase = show_base \<or> type = CHR ''p'', showpos = show_sign,
                           adj_left = align_left, adj_right = align_right, adj_internal = internal,
                           fixed = type \<in> set ''fF%'', scientific = type \<in> set ''eE'', uppercase = type \<in> set ''EXG'',
                           boolalpha = (type = CHR ''b''), base_hex = type \<in> set ''xXp'', base_oct = (type = CHR ''o''),
                           fill_char = (if fill \<noteq> NUL then fill else SPACE),
                           out_width = (if width > 0 then int_of_size width else 0),
                           out_precision = (if precision > 0 then int_of_size precision else 6)\<rparr>, type)))"

record prepared =
  p_oss :: out_stream
  p_type :: char
  p_before :: string
  p_after :: string

definition prepare_format :: "char \<Rightarrow> format \<Rightarrow> format_error + prepared" where
  "prepare_format type f =
     (let s = fmt_str f; start_pos = find_from s (CHR ''{'') (m_fmt_idx f)
      in if start_pos = - 1 then Inl BAD_FORMAT_STRING
         else if start_pos > 0 \<and> s ! nat (start_pos - 1) \<noteq> BACKSLASH \<or> start_pos = 0 then
           let end_pos = find_from s (CHR ''}'') (nat start_pos)
           in if end_pos = - 1 then Inl BAD_FORMAT_STRING
              else let fmt = take (nat (end_pos - start_pos - 1)) (drop (nat (start_pos + 1)) s)
                   in map_sum id (\<lambda>(os, t). \<lparr>p_oss = os, p_type = t, p_before = take (nat start_pos) s,
                        p_after = drop (nat (end_pos + 1)) s\<rparr>) (field_flags fmt type)
         else Inr \<lparr>p_oss = oss_ctor, p_type = type, p_before = [], p_after = []\<rparr>)"

text \<open>The end of every \<open>arg\<close>: the text of the argument behind what was before the field.\<close>

definition put_arg :: "prepared \<Rightarrow> string \<Rightarrow> format" where
  "put_arg p v = \<lparr>fmt_str = p_before p @ v @ p_after p, m_fmt_idx = length (p_before p @ v)\<rparr>"

definition arg_str :: "string \<Rightarrow> format \<Rightarrow> format_error + format" where
  "arg_str v f = map_sum id (\<lambda>p. put_arg p (out_text (p_oss p) v)) (prepare_format (CHR ''s'') f)"

definition arg_bool :: "bool \<Rightarrow> format \<Rightarrow> format_error + format" where
  "arg_bool v f = map_sum id (\<lambda>p. put_arg p (out_bool (p_oss p) v)) (prepare_format (CHR ''b'') f)"

text \<open>\<open>std::bitset<8> bs (v)\<close> takes the character as an integer: a negative one has its upper bits set, and the lower eight are kept.\<close>

definition arg_char :: "char \<Rightarrow> format \<Rightarrow> format_error + format" where
  "arg_char v f =
     map_sum id (\<lambda>p. put_arg p
       (if p_type p = CHR ''B'' then out_text (p_oss p) (bitset_text 8 (schar v))
        else if p_type p \<in> set ''doXx'' then out_int (p_oss p) 32 (schar v)
        else out_text (p_oss p) [v])) (prepare_format NUL f)"

text \<open>The template for an \<open>int\<close>; the product of the percentage overflows to \<open>None\<close>.\<close>

definition arg_int :: "32 word \<Rightarrow> format \<Rightarrow> (format_error + format) option" where
  "arg_int v f =
     (case prepare_format NUL f of Inl e \<Rightarrow> Some (Inl e)
      | Inr p \<Rightarrow>
          if p_type p = CHR ''B'' then Some (Inr (put_arg p (out_text (p_oss p) (bitset_text 32 (sint v)))))
          else if p_type p = CHR ''%'' then
            if - (2 ^ 31) \<le> 100 * sint v \<and> 100 * sint v < 2 ^ 31
            then Some (Inr (put_arg p (out_int (p_oss p) 32 (100 * sint v) @ ''%''))) else None
          else Some (Inr (put_arg p (out_int (p_oss p) 32 (sint v)))))"

section \<open>Numbers\<close>

definition digit_value :: "char \<Rightarrow> nat" where
  "digit_value c = (let n = of_char c in if n < 58 then n - 48 else if n < 97 then n - 55 else n - 87)"

definition radix_value :: "nat \<Rightarrow> string \<Rightarrow> nat" where
  "radix_value b s = foldl (\<lambda>n c. b * n + digit_value c) 0 s"

lemma digit_value_char: "d < 36 \<Longrightarrow> digit_value (digit_char upper d) = d"
  by (simp add: digit_value_def digit_char_def of_char_of Let_def)

lemma radix_value_text: "2 \<le> b \<Longrightarrow> b \<le> 36 \<Longrightarrow> radix_value b (radix_text upper b n) = n"
proof (induction n rule: less_induct)
  case (less n)
  show ?case
  proof (cases "n < b")
    case True
    then show ?thesis using less.prems by (subst radix_text.simps) (simp add: radix_value_def digit_value_char)
  next
    case False
    then have "radix_value b (radix_text upper b (n div b)) = n div b" using less by simp
    moreover have "n mod b < 36" using less.prems mod_less_divisor [of b n] by linarith
    ultimately show ?thesis using False less.prems
      by (subst radix_text.simps) (simp add: radix_value_def digit_value_char)
  qed
qed

lemma digit_char_dec: "d < 10 \<Longrightarrow> isdigit (digit_char upper d) \<and> (digit_char upper d = CHR ''0'' \<longleftrightarrow> d = 0) \<and> digit_value (digit_char upper d) = of_char (digit_char upper d) - 48"
proof -
  assume "d < 10"
  then have "d \<in> {0,1,2,3,4,5,6,7,8,9}" by auto
  then show ?thesis by (elim insertE emptyE; hypsubst) (code_simp; cases upper; code_simp)+
qed

lemma radix_text_dec:
  "(\<forall>c \<in> set (radix_text False 10 n). isdigit c) \<and> radix_text False 10 n \<noteq> [] \<and>
   (0 < n \<longrightarrow> isdigit (hd (radix_text False 10 n)) \<and> hd (radix_text False 10 n) \<noteq> CHR ''0'')"
proof (induction n rule: less_induct)
  case (less n)
  show ?case
  proof (cases "n < 10")
    case True
    then have "radix_text False 10 n = [digit_char False n]" by (subst radix_text.simps) simp
    then show ?thesis using True digit_char_dec [of n False] by simp
  next
    case False
    then have "radix_text False 10 n = radix_text False 10 (n div 10) @ [digit_char False (n mod 10)]"
      by (subst radix_text.simps) simp
    then show ?thesis using False less [of "n div 10"] digit_char_dec [of "n mod 10" False] by auto
  qed
qed

lemma dec_value_text: "dec_value (radix_text False 10 n) = n"
proof -
  have "foldl (\<lambda>n c. 10 * n + (of_char c - 48)) a s = foldl (\<lambda>n c. 10 * n + digit_value c) a s"
    if "\<forall>c \<in> set s. isdigit c" for a s
    using that
  proof (induction s arbitrary: a)
    case (Cons c s)
    have "of_char c < (58 :: nat)" using Cons.prems(1) unfolding isdigit_def by (simp, elim conjE disjE) simp_all
    then have d: "digit_value c = of_char c - 48" by (simp add: digit_value_def Let_def)
    show ?case using Cons.IH [of "10 * a + (of_char c - 48)"] Cons.prems by (simp add: d)
  qed simp
  then show ?thesis using radix_text_dec [of n] radix_value_text [of 10 False n]
    by (simp add: dec_value_def radix_value_def)
qed

lemma isdigit_facts: "isdigit c \<Longrightarrow> \<not> isspace c \<and> c \<noteq> NUL \<and> c \<noteq> CHR ''-'' \<and> c \<noteq> CHR ''+'' \<and> c \<noteq> CHR ''#'' \<and> c \<noteq> CHR ''.''
    \<and> c \<noteq> CHR ''<'' \<and> c \<noteq> CHR ''>'' \<and> c \<noteq> CHR ''}'' \<and> c \<noteq> CHR ''{'' \<and> c \<noteq> CHR ''%'' \<and> \<not> isalpha c"
  by (auto simp: isdigit_def isspace_def isalpha_def)

lemma to_num_size_text: "n < 2 ^ 64 \<Longrightarrow> to_num_size (radix_text False 10 n) = Inr n"
proof -
  assume n: "n < 2 ^ 64"
  let ?s = "radix_text False 10 n"
  have d: "\<forall>c \<in> set ?s. isdigit c" "?s \<noteq> []" using radix_text_dec by auto
  then have "NUL \<notin> set ?s" using isdigit_facts by blast
  then have c: "cstr ?s = ?s" by (rule cstr_id)
  have h: "isdigit (hd ?s)" using d by simp
  then have w: "dropWhile isspace ?s = ?s" using d isdigit_facts by (cases ?s) auto
  have t: "takeWhile isdigit ?s = ?s" using d by simp
  show ?thesis using n d isdigit_facts [OF h] by (simp add: to_num_size_def c Let_def dec_value_text w t)
qed

section \<open>Fields\<close>

lemma field_flags_empty: "field_flags [] type = Inr (oss_ctor\<lparr>showbase := type = CHR ''p'',
    fixed := type \<in> set ''fF%'', scientific := type \<in> set ''eE'', uppercase := type \<in> set ''EXG'',
    boolalpha := (type = CHR ''b''), base_hex := type \<in> set ''xXp'', base_oct := (type = CHR ''o'')\<rparr>, type)"
  by (simp add: field_flags_def Let_def find_first_of_from_def find_from_def opt_num_def oss_ctor_def)

lemma prepare_field:
  assumes f: "fmt_str f = done @ t @ CHR ''{'' # fld @ CHR ''}'' # rest" "m_fmt_idx f = length done"
    and t: "CHR ''{'' \<notin> set t" and fld: "CHR ''}'' \<notin> set fld" and e: "done @ t = [] \<or> last (done @ t) \<noteq> BACKSLASH"
  shows "prepare_format type f =
    map_sum id (\<lambda>(os, ty). \<lparr>p_oss = os, p_type = ty, p_before = done @ t, p_after = rest\<rparr>) (field_flags fld type)"
proof -
  let ?s = "done @ t @ CHR ''{'' # fld @ CHR ''}'' # rest" and ?n = "length (done @ t)"
  have b: "find_from ?s (CHR ''{'') (length done) = int ?n"
    using find_from_skip [OF t, of "done" "fld @ CHR ''}'' # rest"] by simp
  have "CHR ''}'' \<notin> set (CHR ''{'' # fld)" using fld by simp
  from find_from_skip [OF this, of "done @ t" rest] have c: "find_from ?s (CHR ''}'') ?n = int (?n + Suc (length fld))"
    by simp
  have l: "?n = 0 \<or> 0 < int ?n \<and> ?s ! nat (int ?n - 1) \<noteq> BACKSLASH"
  proof (cases "done @ t = []")
    case False
    then have "?s ! (?n - 1) = (done @ t) ! (?n - 1)"
      using nth_append [of "done @ t" "CHR ''{'' # fld @ CHR ''}'' # rest" "?n - 1"] by (simp add: length_greater_0_conv [symmetric] del: length_greater_0_conv)
    then have "?s ! (?n - 1) = last (done @ t)" using last_conv_nth [OF False] by simp
    moreover have "nat (int ?n - 1) = ?n - 1" by simp
    moreover have "0 < int ?n" using False by (cases "done"; cases t) auto
    ultimately show ?thesis using e False by metis
  qed simp
  have n: "nat (int (?n + Suc (length fld)) - int ?n - 1) = length fld" "nat (int ?n + 1) = Suc ?n"
    "nat (int (?n + Suc (length fld)) + 1) = ?n + length fld + 2" "nat (int ?n) = ?n" by simp_all
  have "?n = 0 \<Longrightarrow> int ?n = 0" by simp
  with l have "(int ?n > 0 \<and> ?s ! nat (int ?n - 1) \<noteq> BACKSLASH \<or> int ?n = 0) = True" by blast
  moreover have "take (length fld) (drop (Suc ?n) ?s) = fld" "take ?n ?s = done @ t" "drop (?n + length fld + 2) ?s = rest"
    by simp_all
  ultimately show ?thesis
    unfolding prepare_format_def f Let_def b c n by (simp only: if_True) simp
qed

section \<open>Fields of texts\<close>

lemma nth_in_drop: "k \<le> i \<Longrightarrow> i < length s \<Longrightarrow> s ! i \<in> set (drop k s)"
  by (auto simp: in_set_conv_nth intro!: exI [of _ "i - k"])

lemma find_first_of_from_none: "(\<And>c. c \<in> set (drop (nat k) s) \<Longrightarrow> c \<notin> set cs) \<Longrightarrow> find_first_of_from s cs k = - 1"
proof -
  assume a: "\<And>c. c \<in> set (drop (nat k) s) \<Longrightarrow> c \<notin> set cs"
  have "List.find (\<lambda>i. s ! i \<in> set cs) [nat k..<length s] = None"
    using a nth_in_drop [of "nat k" _ s] by (auto simp: find_None_iff)
  then show ?thesis by (simp add: find_first_of_from_def)
qed

lemma find_first_of_from_some:
  "k \<le> int i \<Longrightarrow> i < length s \<Longrightarrow> s ! i \<in> set cs \<Longrightarrow> (\<And>j. nat k \<le> j \<Longrightarrow> j < i \<Longrightarrow> s ! j \<notin> set cs) \<Longrightarrow>
   find_first_of_from s cs k = int i"
proof -
  assume a: "k \<le> int i" "i < length s" "s ! i \<in> set cs" "\<And>j. nat k \<le> j \<Longrightarrow> j < i \<Longrightarrow> s ! j \<notin> set cs"
  have "[nat k..<length s] = [nat k..<i] @ i # [Suc i..<length s]"
    using a(1,2) by (metis le_add_diff_inverse le_nat_iff nat_le_iff upt_add_eq_append upt_rec less_imp_le_nat)
  moreover have "List.find (\<lambda>i. s ! i \<in> set cs) [nat k..<i] = None" using a(4) by (auto simp: find_None_iff)
  moreover have "List.find P (xs @ ys) = (case List.find P xs of None \<Rightarrow> List.find P ys | r \<Rightarrow> r)" for P and xs ys :: "nat list"
    by (induction xs) auto
  ultimately show ?thesis using a(3) by (simp add: find_first_of_from_def)
qed

lemma find_from_none: "(\<And>x. x \<in> set (drop k s) \<Longrightarrow> x \<noteq> c) \<Longrightarrow> find_from s c k = - 1"
proof -
  assume a: "\<And>x. x \<in> set (drop k s) \<Longrightarrow> x \<noteq> c"
  show ?thesis
  proof (cases rule: find_from_cases [of s c k])
    case (found i)
    then have "s ! i \<in> set (drop k s)" by (intro nth_in_drop)
    then show ?thesis using a found by blast
  qed
qed

lemma radix_text_length: "2 \<le> b \<Longrightarrow> length (radix_text upper b n) \<le> Suc n"
proof (induction n rule: less_induct)
  case (less n)
  show ?case
  proof (cases "n < b")
    case True
    then show ?thesis by (subst radix_text.simps) simp
  next
    case False
    then have "length (radix_text upper b n) = Suc (length (radix_text upper b (n div b)))"
      using less.prems by (subst radix_text.simps) simp
    moreover have "n div b < n" using False less.prems by simp
    ultimately show ?thesis using less.IH [of "n div b"] less.prems by simp
  qed
qed

text \<open>A fill character, an alignment and a width.\<close>

lemma field_flags_align:
  assumes "al \<in> {CHR ''<'', CHR ''>''}" "c \<notin> {CHR ''<'', CHR ''>''}" "0 < n" "n < 2 ^ 31"
  shows "field_flags (c # al # radix_text False 10 n) (CHR ''s'') = Inr (oss_ctor\<lparr>adj_left := al = CHR ''<'',
    adj_right := al = CHR ''>'', fill_char := (if c = NUL then SPACE else c), out_width := int n\<rparr>, CHR ''s'')"
proof -
  let ?d = "radix_text False 10 n"
  let ?f = "c # al # ?d"
  have d: "\<forall>x \<in> set ?d. isdigit x" "?d \<noteq> []" "hd ?d \<noteq> CHR ''0''" using radix_text_dec [of n] assms(3) by auto
  have dig: "x \<in> set (drop (nat 1) ?f) \<Longrightarrow> x = al \<or> isdigit x" for x using d by auto
  have al: "al \<noteq> CHR ''#''" "al \<noteq> CHR ''.''" "al \<noteq> CHR ''+''" "al \<noteq> CHR ''-''" "al \<noteq> CHR ''0''" "\<not> isdigit al"
    using assms(1) by (auto simp: isdigit_def)
  have 1: "find_first_of_from ?f ''<>'' 0 = int 1"
    using assms(1,2) by (intro find_first_of_from_some) auto
  have 2: "find_first_of_from ?f ''+-'' 1 = - 1"
    using dig al isdigit_facts by (intro find_first_of_from_none) fastforce
  have 3: "find_from ?f (CHR ''#'') 1 = - 1" "find_from ?f (CHR ''.'') 1 = - 1"
    using dig al isdigit_facts by (intro find_from_none; fastforce)+
  have 4: "find_first_of_from ?f ''123456789'' 1 = int 2"
  proof (rule find_first_of_from_some)
    have h: "isdigit (hd ?d)" using d by simp
    then show "?f ! 2 \<in> set ''123456789''" using d(2,3) by (simp add: hd_conv_nth isdigit_def)
    show "2 < length ?f" using d(2) by simp
    fix j assume "nat 1 \<le> j" "j < 2"
    then have "j = 1" by simp
    then show "?f ! j \<notin> set ''123456789''" using al by (auto simp: isdigit_def)
  qed simp
  have 5: "find_from ?f (CHR ''0'') 1 \<noteq> 1"
    by (cases rule: find_from_cases [of ?f "CHR ''0''" 1]) (use al in auto)
  have l: "isdigit (last ?d)" using d by simp
  have 6: "(isalpha (last ?f) \<or> last ?f = CHR ''%'') = False" using isdigit_facts [OF l] d(2) by simp
  have w: "opt_num True ?f 2 (- 1 - 2) = Inr n"
    using to_num_size_text [of n] radix_text_length [of 10 False n] assms(4)
    by (simp add: opt_num_def std_substr_def substr_def)
  have m: "int_of_size n = int n"
  proof -
    have "sint (word_of_nat n :: 32 word) = signed_take_bit 31 (int n)"
      using sint_sbintrunc' [where 'a = 32, of "int n"] by simp
    also have "\<dots> = int n" using assms(4) by (intro signed_take_bit_int_eq_self) auto
    finally show ?thesis by (simp add: int_of_size_def)
  qed
  have n: "nat 1 = 1" "int 1 = 1" "int 2 = 2" by simp_all
  have z: "(find_from ?f (CHR ''0'') 1 = 2 - 1) = False" using 5 by simp
  have q: "(int 1 > 1) = False" "(int 1 \<noteq> - 1) = True" "(int 1 > 0) = True" "((1::int) \<noteq> - 1) = True" "((1::int) > 0) = True"
    "((2::int) \<noteq> - 1) = True" "((2::int) = - 1) = False" "((1::int) > 1) = False" "((- 1::int) \<noteq> - 1) = False" "(?f \<noteq> []) = True"
    by simp_all
  have p0: "opt_num False fmt pos k = Inr 0" for fmt pos k by (simp add: opt_num_def)
  show ?thesis
    unfolding field_flags_def Let_def 1 n q if_True if_False 2 3 4 z 6 simp_thms w p0 sum.case
    using assms(1,3) by (auto simp: oss_ctor_def m)
qed

section \<open>Templates\<close>

text \<open>The texts \<open>arg (a1).arg (a2)...\<close> on a template whose fields have the given specifications; the field of a piece is behind its text.\<close>

fun args_str :: "string list \<Rightarrow> format \<Rightarrow> format_error + format" where
  "args_str [] f = Inr f"
| "args_str (a # as) f = (case arg_str a f of Inl e \<Rightarrow> Inl e | Inr f \<Rightarrow> args_str as f)"

definition template_text :: "(string \<times> string) list \<Rightarrow> string \<Rightarrow> string" where
  "template_text ps rest = concat (map (\<lambda>(t, a). t @ ''{}'') ps) @ rest"

definition filled_text :: "(string \<times> string) list \<Rightarrow> string" where
  "filled_text ps = concat (map (\<lambda>(t, a). t @ a) ps)"

text \<open>No piece has a brace, and what is in front of a field does not end with a backslash.\<close>

fun pieces_ok :: "string \<Rightarrow> (string \<times> string) list \<Rightarrow> bool" where
  "pieces_ok done [] \<longleftrightarrow> True"
| "pieces_ok done ((t, a) # ps) \<longleftrightarrow>
     CHR ''{'' \<notin> set t \<and> (done @ t = [] \<or> last (done @ t) \<noteq> BACKSLASH) \<and> pieces_ok (done @ t @ a) ps"

lemma out_text_plain: "out_width os \<le> 0 \<Longrightarrow> out_text os v = v"
  by (simp add: out_text_def pad_out_def)

lemma arg_str_plain:
  assumes "fmt_str f = done @ t @ ''{}'' @ rest" "m_fmt_idx f = length done"
    "CHR ''{'' \<notin> set t" "done @ t = [] \<or> last (done @ t) \<noteq> BACKSLASH"
  shows "arg_str v f = Inr \<lparr>fmt_str = done @ t @ v @ rest, m_fmt_idx = length (done @ t @ v)\<rparr>"
proof -
  have "prepare_format (CHR ''s'') f = map_sum id (\<lambda>(os, ty). \<lparr>p_oss = os, p_type = ty, p_before = done @ t, p_after = rest\<rparr>)
      (field_flags [] (CHR ''s''))"
    by (rule prepare_field) (use assms in simp_all)
  then show ?thesis by (simp add: arg_str_def field_flags_empty put_arg_def out_text_plain oss_ctor_def)
qed

lemma args_str_filled:
  "pieces_ok done ps \<Longrightarrow> fmt_str f = done @ template_text ps rest \<Longrightarrow> m_fmt_idx f = length done \<Longrightarrow>
   args_str (map snd ps) f = Inr \<lparr>fmt_str = done @ filled_text ps @ rest, m_fmt_idx = length (done @ filled_text ps)\<rparr>"
proof (induction ps arbitrary: "done" f)
  case Nil
  then show ?case by (cases f) (simp add: template_text_def filled_text_def)
next
  case (Cons p ps)
  obtain t a where p: "p = (t, a)" by (cases p)
  have "arg_str a f = Inr \<lparr>fmt_str = done @ t @ a @ template_text ps rest, m_fmt_idx = length (done @ t @ a)\<rparr>"
    by (rule arg_str_plain) (use Cons.prems in \<open>simp_all add: p template_text_def\<close>)
  then show ?case using Cons.IH [of "done @ t @ a"] Cons.prems by (simp add: p filled_text_def)
qed

section \<open>Properties\<close>

text \<open>A template with fields \<open>{}\<close> is filled with the texts in their order, and what the texts hold, braces too, is
  not read as a field. The text in front of a field (the arguments before it included) must not end with a backslash.\<close>

theorem format_substitution:
  assumes "pieces_ok [] ps"
  shows "args_str (map snd ps) (Format_ctor (template_text ps rest)) =
    Inr \<lparr>fmt_str = filled_text ps @ rest, m_fmt_idx = length (filled_text ps)\<rparr>"
  using args_str_filled [OF assms, of "Format_ctor (template_text ps rest)"] by (simp add: Format_ctor_def)

theorem format_substitution_witness:
  "args_str (map snd [(''Error in '', ''{} x''), ('': '', []), ([], ''{'')]) (Format_ctor (template_text [(''Error in '', ''{} x''), ('': '', []), ([], ''{'')] '' {}''))
     = Inr \<lparr>fmt_str = filled_text [(''Error in '', ''{} x''), ('': '', []), ([], ''{'')] @ '' {}'', m_fmt_idx = length (filled_text [(''Error in '', ''{} x''), ('': '', []), ([], ''{'')])\<rparr>"
  by (rule format_substitution) code_simp

text \<open>A field with a fill character, an alignment and a width pads the text to the width, on the side the documentation
  says; a longer text is not cut.\<close>

theorem format_align:
  assumes "al \<in> {CHR ''<'', CHR ''>''}" and "c \<notin> {CHR ''<'', CHR ''>'', CHR ''}'', NUL}" and "0 < n" and "n < 2 ^ 31"
    and "CHR ''{'' \<notin> set t" and "t = [] \<or> last t \<noteq> BACKSLASH"
  shows "map_sum id fmt_str (arg_str v (Format_ctor (t @ CHR ''{'' # c # al # radix_text False 10 n @ CHR ''}'' # rest))) =
    Inr (t @ (if al = CHR ''<'' then v @ replicate (n - length v) c else replicate (n - length v) c @ v) @ rest)"
proof -
  let ?f = "Format_ctor (t @ CHR ''{'' # (c # al # radix_text False 10 n) @ CHR ''}'' # rest)"
  have d: "CHR ''}'' \<notin> set (radix_text False 10 n)" using radix_text_dec [of n] isdigit_facts by blast
  have "prepare_format (CHR ''s'') ?f = map_sum id (\<lambda>(os, ty). \<lparr>p_oss = os, p_type = ty, p_before = [] @ t, p_after = rest\<rparr>)
      (field_flags (c # al # radix_text False 10 n) (CHR ''s''))"
    by (rule prepare_field) (use assms d in \<open>auto simp: Format_ctor_def\<close>)
  moreover have "nat (int n - int (length v)) = n - length v" by simp
  ultimately show ?thesis using assms field_flags_align [of al c n]
    by (auto simp: arg_str_def put_arg_def out_text_def pad_out_def oss_ctor_def)
qed

theorem format_align_witness:
  "map_sum id fmt_str (arg_str ''ab'' (Format_ctor (''x: '' @ CHR ''{'' # CHR ''*'' # CHR ''<'' # radix_text False 10 12 @ CHR ''}'' # ''|''))) =
    Inr (''x: '' @ (if CHR ''<'' = CHR ''<'' then ''ab'' @ replicate (12 - length ''ab'') (CHR ''*'') else replicate (12 - length ''ab'') (CHR ''*'') @ ''ab'') @ ''|'')"
  by (rule format_align) simp_all

text \<open>An integer that is formatted in decimal, hexadecimal or binary can be read back from the text at the place of the field.\<close>

theorem format_integers:
  assumes "CHR ''{'' \<notin> set t" and "t = [] \<or> last t \<noteq> BACKSLASH"
  shows "\<exists>d x b. arg_int v (Format_ctor (t @ ''{}'' @ rest)) =
      Some (Inr (put_arg \<lparr>p_oss = oss_ctor, p_type = NUL, p_before = t, p_after = rest\<rparr> ((if sint v < 0 then ''-'' else []) @ d)))
    \<and> int (radix_value 10 d) = \<bar>sint v\<bar>
    \<and> map_option (map_sum id fmt_str) (arg_int v (Format_ctor (t @ ''{x}'' @ rest))) = Some (Inr (t @ x @ rest))
    \<and> radix_value 16 x = unat v
    \<and> map_option (map_sum id fmt_str) (arg_int v (Format_ctor (t @ ''{B}'' @ rest))) = Some (Inr (t @ b @ rest))
    \<and> length b = 32 \<and> (\<forall>i. i < 32 \<longrightarrow> (b ! (31 - i) = CHR ''1'' \<longleftrightarrow> bit v i))"
proof -
  have p: "prepare_format NUL (Format_ctor (t @ CHR ''{'' # fld @ CHR ''}'' # rest)) =
      map_sum id (\<lambda>(os, ty). \<lparr>p_oss = os, p_type = ty, p_before = [] @ t, p_after = rest\<rparr>) (field_flags fld NUL)"
    if "CHR ''}'' \<notin> set fld" for fld
    by (rule prepare_field) (use assms that in \<open>simp_all add: Format_ctor_def\<close>)
  have f: "field_flags [] NUL = Inr (oss_ctor, NUL)" "field_flags ''B'' NUL = Inr (oss_ctor, CHR ''B'')"
    "field_flags ''x'' NUL = Inr (oss_ctor\<lparr>base_hex := True\<rparr>, CHR ''x'')" by code_simp+
  let ?d = "radix_text False 10 (nat \<bar>sint v\<bar>)" and ?x = "radix_text False 16 (nat (sint v mod 2 ^ 32))" and ?b = "bitset_text 32 (sint v)"
  have o: "\<not> base_hex oss_ctor" "\<not> base_oct oss_ctor" "\<not> showpos oss_ctor" "pad_out oss_ctor a s = a @ s"
    "pad_out (oss_ctor\<lparr>base_hex := True\<rparr>) a s = a @ s" "\<not> showbase oss_ctor" "\<not> uppercase oss_ctor" for a s
    by (simp_all add: oss_ctor_def pad_out_def)
  have "arg_int v (Format_ctor (t @ ''{}'' @ rest)) =
      Some (Inr (put_arg \<lparr>p_oss = oss_ctor, p_type = NUL, p_before = t, p_after = rest\<rparr> ((if sint v < 0 then ''-'' else []) @ ?d)))"
    using p [of "[]"] by (simp add: arg_int_def f out_int_def o)
  moreover have "map_option (map_sum id fmt_str) (arg_int v (Format_ctor (t @ ''{x}'' @ rest))) = Some (Inr (t @ ?x @ rest))"
    using p [of "''x''"] by (simp add: arg_int_def f out_int_def o put_arg_def Let_def)
  moreover have "map_option (map_sum id fmt_str) (arg_int v (Format_ctor (t @ ''{B}'' @ rest))) = Some (Inr (t @ ?b @ rest))"
    using p [of "''B''"] by (simp add: arg_int_def f put_arg_def out_text_def o)
  moreover have "nat (sint v mod 2 ^ 32) = unat v"
  proof -
    have "sint v mod 2 ^ 32 = take_bit 32 (sint v)" by (simp add: take_bit_eq_mod)
    also have "\<dots> = uint v" by (simp add: bintr_uint take_bit_signed_take_bit sint_uint)
    finally show ?thesis by simp
  qed
  moreover have "\<forall>i. i < 32 \<longrightarrow> (?b ! (31 - i) = CHR ''1'' \<longleftrightarrow> bit v i)" "length ?b = 32"
    by (auto simp: bitset_text_def rev_nth bit_sint_iff)
  ultimately show ?thesis by (intro exI [of _ ?d] exI [of _ ?x] exI [of _ ?b]) (simp add: radix_value_text)
qed

theorem format_integers_witness:
  "\<exists>d x b. arg_int (- 42) (Format_ctor (''n='' @ ''{}'' @ '';'')) =
      Some (Inr (put_arg \<lparr>p_oss = oss_ctor, p_type = NUL, p_before = ''n='', p_after = '';''\<rparr> ((if sint (- 42 :: 32 word) < 0 then ''-'' else []) @ d)))
    \<and> int (radix_value 10 d) = \<bar>sint (- 42 :: 32 word)\<bar>
    \<and> map_option (map_sum id fmt_str) (arg_int (- 42) (Format_ctor (''n='' @ ''{x}'' @ '';''))) = Some (Inr (''n='' @ x @ '';''))
    \<and> radix_value 16 x = unat (- 42 :: 32 word)
    \<and> map_option (map_sum id fmt_str) (arg_int (- 42) (Format_ctor (''n='' @ ''{B}'' @ '';''))) = Some (Inr (''n='' @ b @ '';''))
    \<and> length b = 32 \<and> (\<forall>i. i < 32 \<longrightarrow> (b ! (31 - i) = CHR ''1'' \<longleftrightarrow> bit (- 42 :: 32 word) i))"
  by (rule format_integers) simp_all

text \<open>A width at the begin of a field pads with zeros although the field has no zero, because the search for it fails
  with \<open>npos\<close>, which is the position of the width minus one. A text that ends with a backslash in front of a field, also
  when it comes from an argument, makes the formatter lose everything but the argument. Bad fields are exceptions.\<close>

theorem format_limits:
  "map_option (map_sum id fmt_str) (arg_int 42 (Format_ctor ''{5d}'')) = Some (Inr ''00042'')
   \<and> map_option (map_sum id fmt_str) (arg_int 42 (Format_ctor ''{>5d}'')) = Some (Inr ''   42'')
   \<and> map_sum id fmt_str (args_str [''c:'' @ [BACKSLASH], ''f''] (Format_ctor ''file {}{} not found'')) = Inr ''f''
   \<and> map_sum id fmt_str (arg_str ''f'' (Format_ctor (''file '' @ [BACKSLASH] @ ''{} not found''))) = Inr ''f''
   \<and> arg_str ''v'' (Format_ctor ''no field'') = Inl BAD_FORMAT_STRING
   \<and> arg_str ''v'' (Format_ctor ''{'') = Inl BAD_FORMAT_STRING
   \<and> arg_str ''v'' (Format_ctor ''{10<}'') = Inl BAD_FORMAT_STRING
   \<and> arg_str ''v'' (Format_ctor ''{.s}'') = Inl SOFTWARE_ERROR
   \<and> args_str [''a'', ''b''] (Format_ctor ''{}'') = Inl BAD_FORMAT_STRING"
  by (intro conjI) code_simp+

end
