(* ===== verification/FileName.thy ===== *)
theory FileName
  imports Format
begin

text \<open>
  File names and what they do with the file system: \<open>src/file/FileName.cpp\<close> and \<open>src/file/PosixFileImpl.cpp\<close> (class \<open>FileName\<close>).
  The operating system is a parameter: a record of its calls on a state of any type. A call that fails gives the
  number of its error. The object is its member \<open>m_strFile\<close>, a text without zeros.
\<close>

section \<open>The operating system\<close>

text \<open>\<open>os_stat\<close> gives the mode and the size of a file.\<close>

record 's os =
  os_getcwd :: "'s \<Rightarrow> string"
  os_stat :: "string \<Rightarrow> 's \<Rightarrow> int + 32 word \<times> nat"
  os_lstat :: "string \<Rightarrow> 's \<Rightarrow> int + 32 word \<times> nat"
  os_access :: "string \<Rightarrow> int \<Rightarrow> 's \<Rightarrow> bool"
  os_mkdir :: "string \<Rightarrow> 32 word \<Rightarrow> 's \<Rightarrow> int option \<times> 's"
  os_chmod :: "string \<Rightarrow> 32 word \<Rightarrow> 's \<Rightarrow> int option \<times> 's"
  os_chown :: "string \<Rightarrow> int \<Rightarrow> int \<Rightarrow> 's \<Rightarrow> int option \<times> 's"
  os_lchown :: "string \<Rightarrow> int \<Rightarrow> int \<Rightarrow> 's \<Rightarrow> int option \<times> 's"
  os_unlink :: "string \<Rightarrow> 's \<Rightarrow> int option \<times> 's"
  os_rename :: "string \<Rightarrow> string \<Rightarrow> 's \<Rightarrow> int option \<times> 's"
  os_symlink :: "string \<Rightarrow> string \<Rightarrow> 's \<Rightarrow> int option \<times> 's"

definition S_IFDIR :: "32 word" where "S_IFDIR = 0x4000"
definition S_IFREG :: "32 word" where "S_IFREG = 0x8000"
definition S_IFMT :: "32 word" where "S_IFMT = 0xF000"
definition S_IFLNK :: "32 word" where "S_IFLNK = 0xA000"
definition ENOENT :: int where "ENOENT = 2"

datatype file_error =
    IOError int | PermissionError int | BadPathCondition int | BadPath int | FileNotFound int | FileError int
  | BadPathText string | BadArg int | FileFormat format_error

definition throw_from_errno :: "int \<Rightarrow> file_error" where
  "throw_from_errno errno =
     (if errno \<in> {5, 35, 14, 4, 22, 37} then IOError errno
      else if errno \<in> {1, 13, 30} then PermissionError errno
      else if errno = 39 then BadPathCondition errno
      else if errno \<in> {36, 40, 21, 20, 9} then BadPath errno
      else if errno = ENOENT then FileNotFound errno
      else FileError errno)"

section \<open>Names\<close>

abbreviation SEP_PATH :: char where "SEP_PATH \<equiv> CHR ''/''"
abbreviation SEP_PATHDOS :: char where "SEP_PATHDOS \<equiv> BACKSLASH"
abbreviation SEP_EXT :: char where "SEP_EXT \<equiv> CHR ''.''"

definition null_path :: string where "null_path = ''/dev/null''"
definition null_file_name :: string where "null_file_name = ''null''"
definition null_dir_name :: string where "null_dir_name = ''null''"

definition file_is_null :: "string \<Rightarrow> bool" where "file_is_null m \<longleftrightarrow> m = null_path"
definition file_is_empty :: "string \<Rightarrow> bool" where "file_is_empty m \<longleftrightarrow> m = []"
definition file_is_valid :: "string \<Rightarrow> bool" where "file_is_valid m \<longleftrightarrow> \<not> file_is_empty m \<and> \<not> file_is_null m"

definition is_path_name :: "string \<Rightarrow> bool" where
  "is_path_name m \<longleftrightarrow> ends_with_char m SEP_PATH \<or> file_is_null m"

definition is_sep_path :: "char \<Rightarrow> bool" where
  "is_sep_path c \<longleftrightarrow> c = SEP_PATHDOS \<or> c = SEP_PATH"

definition convert_separators :: "string \<Rightarrow> string" where
  "convert_separators s = map (\<lambda>c. if c = SEP_PATHDOS then SEP_PATH else c) (cstr s)"

definition find_last_of :: "string \<Rightarrow> char \<Rightarrow> int" where
  "find_last_of s c = rfind_from s c (length s)"

definition file_path :: "string \<Rightarrow> string" where
  "file_path m =
     (if file_is_null m then null_path
      else let i = find_last_of m SEP_PATH in if i \<noteq> - 1 then take (nat (i + 1)) m else [])"

text \<open>\<open>s.substr (0, s.size () - 1)\<close>: the size of an empty path wraps around.\<close>

definition splitted_path :: "string \<Rightarrow> string list" where
  "splitted_path m =
     (if file_is_null m then []
      else let s = file_path m in split_collection (if s = [] then s else butlast s) SEP_PATH [] True)"

definition file_name :: "string \<Rightarrow> std_error + string" where
  "file_name m =
     (if file_is_null m then Inr null_file_name
      else if \<not> file_is_valid m then Inr []
      else
        let iLastSepPos = find_last_of m SEP_PATH;
            iLastSepPos = (if iLastSepPos = - 1 then 0 else iLastSepPos);
            iExtPos = find_last_of m SEP_EXT;
            iExtPos = (if iExtPos = - 1 then int (length m) else iExtPos)
        in if length m > 0 then substr m (nat (iLastSepPos + 1)) (iExtPos - iLastSepPos - 1) else Inr [])"

definition file_ext :: "string \<Rightarrow> string" where
  "file_ext m =
     (if \<not> file_is_valid m then []
      else let iExtPos = find_last_of m SEP_EXT; iLastSepPos = find_last_of m SEP_PATH
           in if iExtPos \<noteq> - 1 \<and> iLastSepPos \<noteq> - 1 \<and> iExtPos > iLastSepPos then drop (nat (iExtPos + 1)) m else [])"

definition file_name_ext :: "string \<Rightarrow> std_error + string" where
  "file_name_ext m =
     (if file_is_null m then Inr null_file_name
      else if \<not> file_is_valid m then Inr []
      else map_sum id (\<lambda>n. if length (file_ext m) > 0 then n @ SEP_EXT # file_ext m else n) (file_name m))"

text \<open>\<open>rfind (c, - 1)\<close> searches the whole text.\<close>

definition dir_name :: "string \<Rightarrow> std_error + string" where
  "dir_name m =
     (if file_is_null m then Inr null_dir_name
      else if \<not> file_is_valid m then Inr []
      else
        let iLastSepPos = find_last_of m SEP_PATH
        in if iLastSepPos = - 1 then Inr []
           else
             let iPreviousSepPos = (if iLastSepPos = 0 then find_last_of m SEP_PATH else rfind_from m SEP_PATH (nat (iLastSepPos - 1)))
             in if iPreviousSepPos = - 1 then substr m 0 iLastSepPos
                else substr m (nat (iPreviousSepPos + 1)) (iLastSepPos - iPreviousSepPos - 1))"

section \<open>Setting the name\<close>

definition path_exist :: "'s os \<Rightarrow> 's \<Rightarrow> string \<Rightarrow> file_error + bool" where
  "path_exist os s m =
     (if file_is_null m then Inr True
      else let pszPath = cstr m; uiLen = length pszPath
      in if CHR ''*'' \<in> set pszPath \<or> CHR ''?'' \<in> set pszPath then Inr False
         else if uiLen = 0 then Inr False
         else let strPath = (if uiLen \<ge> 2 \<and> is_sep_path (pszPath ! (uiLen - 1)) \<and> pszPath ! (uiLen - 2) \<noteq> CHR '':''
                             then butlast pszPath else pszPath)
              in case os_stat os strPath s of
                   Inl errno \<Rightarrow> if errno \<noteq> ENOENT then Inl (throw_from_errno errno) else Inr False
                 | Inr (st_mode, _) \<Rightarrow> Inr (st_mode AND S_IFDIR \<noteq> 0))"

definition file_exist :: "'s os \<Rightarrow> 's \<Rightarrow> string \<Rightarrow> bool" where
  "file_exist os s m \<longleftrightarrow>
     file_is_null m \<or>
     os_access os m 0 s \<and> (case os_stat os m s of Inl _ \<Rightarrow> False | Inr (st_mode, _) \<Rightarrow> st_mode AND S_IFREG \<noteq> 0)"

definition file_access :: "'s os \<Rightarrow> 's \<Rightarrow> int \<Rightarrow> string \<Rightarrow> file_error + bool" where
  "file_access os s mode m =
     (if mode < 0 \<or> mode > 7 then Inl (BadArg mode)
      else if file_is_null m then Inr True else Inr (os_access os m mode s))"

definition set_full_name :: "'s os \<Rightarrow> 's \<Rightarrow> string \<Rightarrow> file_error + string" where
  "set_full_name os s pszFileName =
     (if cstr pszFileName = [] then Inr []
      else
        let strFileName = convert_separators (cstr pszFileName)
        in if strFileName = null_path \<or> strFileName = null_file_name \<or> match strFileName ''/dev/null/*'' = Some True
           then Inr null_path
           else if is_sep_path (strFileName ! 0) then Inr strFileName
           else map_sum FileFormat fmt_str (args_str [os_getcwd os s, strFileName] (Format_ctor ''{}/{}'')))"

text \<open>\<open>set\<close>: the exceptions for missing permissions are ignored; another exception leaves the name without the separator.\<close>

definition set_name :: "'s os \<Rightarrow> 's \<Rightarrow> string \<Rightarrow> file_error + string" where
  "set_name os s strFullName =
     (case set_full_name os s strFullName of Inl e \<Rightarrow> Inl e
      | Inr m \<Rightarrow>
          (case path_exist os s m of
             Inl (PermissionError _) \<Rightarrow> Inr m
           | Inl e \<Rightarrow> Inl e
           | Inr b \<Rightarrow> Inr (if b \<and> \<not> is_path_name m then m @ [SEP_PATH] else m)))"

definition set_path_name :: "'s os \<Rightarrow> 's \<Rightarrow> string \<Rightarrow> string \<Rightarrow> file_error + string" where
  "set_path_name os s strPath strName =
     (let strPath = convert_separators strPath; strName = convert_separators strName
      in set_name os s (if ends_with_char strPath SEP_PATH then strPath @ strName else strPath @ SEP_PATH # strName))"

definition set_path_name_ext :: "'s os \<Rightarrow> 's \<Rightarrow> string \<Rightarrow> string \<Rightarrow> string \<Rightarrow> file_error + string" where
  "set_path_name_ext os s path name ext =
     (if ext \<noteq> [] then set_path_name os s path (name @ ''.'' @ ext) else set_path_name os s path name)"

definition set_path :: "'s os \<Rightarrow> 's \<Rightarrow> string \<Rightarrow> string \<Rightarrow> file_error + string" where
  "set_path os s strPath m = (if \<not> file_is_null m then set_path_name os s strPath [] else Inr m)"

text \<open>The exceptions of \<open>substr\<close> in \<open>name_ext\<close> do not occur.\<close>

definition join_name :: "'s os \<Rightarrow> 's \<Rightarrow> string \<Rightarrow> string \<Rightarrow> file_error + string" where
  "join_name os s fragment m =
     (if \<not> file_is_null m then
        case file_name_ext m of Inl e \<Rightarrow> Inl (FileFormat (FMT_STD e))
        | Inr n \<Rightarrow> set_path_name os s (file_path m @ fragment) n
      else Inr m)"

section \<open>Names relative to a path\<close>

text \<open>\<open>strchr (p + 1, SEP_PATH)\<close>: a pointer into a text is the rest of the text, a null pointer is the empty rest.\<close>

definition next_sep :: "string \<Rightarrow> string" where
  "next_sep p = dropWhile (\<lambda>c. c \<noteq> SEP_PATH) (tl p)"

lemma next_sep_shorter: "p \<noteq> [] \<Longrightarrow> length (next_sep p) < length p"
  unfolding next_sep_def by (metis length_dropWhile_le length_tl le_less_trans diff_less length_greater_0_conv zero_less_one)

function rel_up :: "string \<Rightarrow> string \<Rightarrow> string" where
  "rel_up pRef1 str = (if pRef1 = [] then str else rel_up (next_sep pRef1) (''../'' @ str))"
  by pat_completeness auto
termination by (relation "measure (\<lambda>(p, s). length p)") (auto simp: next_sep_shorter)

declare rel_up.simps [simp del]

function rel_loop :: "string \<Rightarrow> string \<Rightarrow> string \<Rightarrow> bool \<Rightarrow> string" where
  "rel_loop p pRef str bClimbStarted =
     (if p = [] then str
      else
        let p1 = next_sep p; pRef1 = next_sep pRef
        in if p1 = [] then rel_up pRef1 str @ tl p
           else if pRef1 = [] then str @ tl p
           else
             let n = length p - length p1
             in if n \<noteq> length pRef - length pRef1 \<or> bClimbStarted \<or> take n p \<noteq> take n pRef
                then rel_loop p1 pRef1 (''../'' @ str @ take n (tl p)) True
                else rel_loop p1 pRef1 str bClimbStarted)"
  by pat_completeness auto
termination by (relation "measure (\<lambda>(p, pRef, str, b). length p)") (auto simp: next_sep_shorter)

declare rel_loop.simps [simp del]

definition first_sep :: "string \<Rightarrow> string" where
  "first_sep s = dropWhile (\<lambda>c. c \<noteq> SEP_PATH) s"

definition rel_name :: "'s os \<Rightarrow> 's \<Rightarrow> string \<Rightarrow> string \<Rightarrow> file_error + string" where
  "rel_name os s pszPath m =
     (if file_is_null m then Inr []
      else case set_name os s pszPath of Inl e \<Rightarrow> Inl e
      | Inr fnRef \<Rightarrow>
          let p = first_sep m; pRef = first_sep fnRef
          in if p = [] \<or> pRef = [] then Inr m else Inr (rel_loop p pRef [] False))"

section \<open>Operations on the file system\<close>

text \<open>A call that may fail, as an operation that may throw.\<close>

definition os_try :: "int option \<times> 's \<Rightarrow> file_error option \<times> 's" where
  "os_try r = (map_option throw_from_errno (fst r), snd r)"

definition then_do :: "file_error option \<times> 's \<Rightarrow> ('s \<Rightarrow> file_error option \<times> 's) \<Rightarrow> file_error option \<times> 's" where
  "then_do r k = (case fst r of Some e \<Rightarrow> (Some e, snd r) | None \<Rightarrow> k (snd r))"

text \<open>One component of \<open>mkdir\<close>: \<open>str\<close> is the path up to a separator.\<close>

definition mkdir_one :: "'s os \<Rightarrow> 32 word \<Rightarrow> int \<Rightarrow> int \<Rightarrow> string \<Rightarrow> 's \<Rightarrow> file_error option \<times> 's" where
  "mkdir_one os mode uid gid str s =
     (case os_stat os str s of
        Inl errno \<Rightarrow>
          if errno \<noteq> ENOENT then (Some (throw_from_errno errno), s)
          else then_do (os_try (os_mkdir os str 0x1FF s))
            (\<lambda>s. then_do (if mode \<noteq> 0 then os_try (os_chmod os str mode s) else (None, s))
              (\<lambda>s. if uid \<noteq> - 1 \<or> gid \<noteq> - 1 then os_try (os_chown os str uid gid s) else (None, s)))
      | Inr (st_mode, _) \<Rightarrow> if st_mode AND S_IFDIR = 0 then (Some (BadPathText str), s) else (None, s))"

text \<open>The loop over the separators from position \<open>i\<close> on.\<close>

function mkdir_loop :: "'s os \<Rightarrow> 32 word \<Rightarrow> int \<Rightarrow> int \<Rightarrow> string \<Rightarrow> int \<Rightarrow> 's \<Rightarrow> file_error option \<times> 's" where
  "mkdir_loop os mode uid gid str i s =
     (if i < 0 then (None, s)
      else then_do (mkdir_one os mode uid gid (take (nat i) str) s)
             (mkdir_loop os mode uid gid str (find_from str SEP_PATH (nat (i + 1)))))"
  by pat_completeness auto
termination
proof (relation "measure (\<lambda>(os, mode, uid, gid, str, i, s). if i < 0 then 0 else Suc (length str - nat i))")
  fix str :: string and i :: int and os :: "'s os" and mode :: "32 word" and uid gid :: int and s x :: 's
  assume "\<not> i < 0"
  then show "((os, mode, uid, gid, str, find_from str SEP_PATH (nat (i + 1)), x), os, mode, uid, gid, str, i, s)
      \<in> measure (\<lambda>(os, mode, uid, gid, str, i, s). if i < 0 then 0 else Suc (length str - nat i))"
    by (cases rule: find_from_cases [of str SEP_PATH "nat (i + 1)"]) auto
qed simp

declare mkdir_loop.simps [simp del]

definition file_mkdir :: "'s os \<Rightarrow> 32 word \<Rightarrow> int \<Rightarrow> int \<Rightarrow> string \<Rightarrow> 's \<Rightarrow> file_error option \<times> 's" where
  "file_mkdir os mode uid gid m s =
     (if file_is_null m then (None, s)
      else let str = file_path m
      in if str = [] then (None, s)
         else let p = find_from str SEP_PATH 0
              in if p = - 1 then (Some (BadPathText str), s)
                 else mkdir_loop os mode uid gid str (find_from str SEP_PATH (nat (p + 1))) s)"

definition link_exist :: "'s os \<Rightarrow> 's \<Rightarrow> string \<Rightarrow> bool" where
  "link_exist os s m \<longleftrightarrow> \<not> file_is_null m \<and>
     (case os_lstat os (if is_path_name m then butlast m else m) s of
        Inl _ \<Rightarrow> False | Inr (st_mode, _) \<Rightarrow> st_mode AND S_IFMT = S_IFLNK)"

definition make_sym_link :: "'s os \<Rightarrow> string \<Rightarrow> int \<Rightarrow> int \<Rightarrow> string \<Rightarrow> 's \<Rightarrow> file_error option \<times> 's" where
  "make_sym_link os strTarget uid gid m s =
     (if file_is_null m then (None, s)
      else then_do (os_try (os_symlink os strTarget m s))
        (\<lambda>s. if uid \<noteq> - 1 \<or> gid \<noteq> - 1 then os_try (os_lchown os m uid gid s) else (None, s)))"

text \<open>\<open>size\<close> has 32 bits, \<open>size64\<close> 64.\<close>

definition file_size64 :: "'s os \<Rightarrow> 's \<Rightarrow> string \<Rightarrow> file_error + 64 word" where
  "file_size64 os s m =
     (if file_is_null m then Inr 0
      else case os_stat os m s of Inl errno \<Rightarrow> Inl (throw_from_errno errno) | Inr (_, n) \<Rightarrow> Inr (of_nat n))"

definition file_size :: "'s os \<Rightarrow> 's \<Rightarrow> string \<Rightarrow> file_error + 32 word" where
  "file_size os s m =
     (if file_is_null m then Inr 0
      else case os_stat os m s of Inl errno \<Rightarrow> Inl (throw_from_errno errno) | Inr (_, n) \<Rightarrow> Inr (of_nat n))"

definition file_remove :: "'s os \<Rightarrow> string \<Rightarrow> 's \<Rightarrow> file_error option \<times> 's" where
  "file_remove os m s = (if file_is_valid m then os_try (os_unlink os m s) else (None, s))"

text \<open>\<open>rename\<close> changes the name of the object also.\<close>

definition file_rename :: "'s os \<Rightarrow> string \<Rightarrow> string \<Rightarrow> 's \<Rightarrow> (file_error + string) \<times> 's" where
  "file_rename os strNewName m s =
     (if file_is_valid m then
        case os_rename os m strNewName s of
          (Some errno, s) \<Rightarrow> (Inl (throw_from_errno errno), s)
        | (None, s) \<Rightarrow> (set_name os s strNewName, s)
      else (Inr m, s))"

section \<open>Parts of a name\<close>

lemma find_last_of_at: "c \<notin> set f \<Longrightarrow> find_last_of (d @ c # f) c = int (length d)"
  unfolding find_last_of_def
proof (rule rfind_eqI)
  fix j
  assume a: "c \<notin> set f" "length d < j" "j < length (d @ c # f)"
  then obtain k where "j = Suc (length d + k)" by (metis Suc_leI add_Suc le_Suc_ex)
  then show "(d @ c # f) ! j \<noteq> c" using a by (auto simp: nth_append)
qed simp_all

lemma find_last_of_none: "c \<notin> set s \<Longrightarrow> find_last_of s c = - 1"
  unfolding find_last_of_def by (cases rule: rfind_from_cases [of s c "length s"]) auto

lemma last_occurrence: "c \<in> set s \<Longrightarrow> \<exists>d f. s = d @ c # f \<and> c \<notin> set f"
  by (metis split_list_last)

text \<open>What is documented: the name and the extension are in front of and behind the last point of the last component.\<close>

definition split_ext :: "string \<Rightarrow> string \<times> string" where
  "split_ext f = (if SEP_EXT \<in> set f then let e = rev (takeWhile (\<lambda>c. c \<noteq> SEP_EXT) (rev f)) in (take (length f - length e - 1) f, e) else (f, []))"

lemma split_ext_point: "SEP_EXT \<notin> set e \<Longrightarrow> split_ext (n @ SEP_EXT # e) = (n, e)"
proof -
  assume e: "SEP_EXT \<notin> set e"
  then have "takeWhile (\<lambda>c. c \<noteq> SEP_EXT) (rev e @ SEP_EXT # rev n) = rev e"
    by (subst takeWhile_append2) auto
  then show ?thesis by (simp add: split_ext_def Let_def)
qed

lemma file_parts_gen:
  assumes m: "m = d @ SEP_PATH # f" and f: "SEP_PATH \<notin> set f" and n: "\<not> file_is_null m" and l: "length m < 2 ^ 63"
  shows "file_path m = d @ [SEP_PATH] \<and> file_name m = Inr (fst (split_ext f)) \<and> file_ext m = snd (split_ext f)"
proof -
  have v: "file_is_valid m" using n by (simp add: file_is_valid_def file_is_empty_def m)
  have s: "find_last_of m SEP_PATH = int (length d)" unfolding m by (rule find_last_of_at [OF f])
  have t: "nat (int (length d) + 1) = Suc (length d)" by simp
  have z: "m \<noteq> []" by (simp add: m)
  have p: "file_path m = d @ [SEP_PATH]" using n by (simp add: file_path_def s t) (simp add: m)
  show ?thesis
  proof (cases "SEP_EXT \<in> set f")
    case True
    then obtain b e where be: "f = b @ SEP_EXT # e" "SEP_EXT \<notin> set e" using last_occurrence by metis
    have x: "find_last_of m SEP_EXT = int (Suc (length d) + length b)"
      using find_last_of_at [OF be(2), of "d @ SEP_PATH # b"] by (simp add: m be)
    have k: "int (Suc (length d) + length b) - int (length d) - 1 = int (length b)" by simp
    have "int (length b) mod 2 ^ 64 = int (length b)" using l by (simp add: m be)
    moreover have "int (length b) < int (length m)" by (simp add: m be)
    ultimately have "substr m (Suc (length d)) (int (length b)) = Inr b"
      by (simp add: substr_def Let_def) (simp add: m be)
    then have "file_name m = Inr b"
      using n v by (simp add: file_name_def s x t k z)
    moreover have "nat (int (Suc (length d) + length b) + 1) = Suc (Suc (length d) + length b)" by simp
    then have "file_ext m = e" using v by (simp add: file_ext_def s x) (simp add: m be)
    ultimately show ?thesis using p be split_ext_point by simp
  next
    case False
    have g: "\<exists>k. find_last_of m SEP_EXT = k \<and> k < int (length d) \<and> - 1 \<le> k"
    proof (cases "SEP_EXT \<in> set d")
      case True
      then obtain b e where be: "d = b @ SEP_EXT # e" "SEP_EXT \<notin> set e" using last_occurrence by metis
      have "find_last_of m SEP_EXT = int (length b)"
        using find_last_of_at [of SEP_EXT "e @ SEP_PATH # f" b] be False by (simp add: m)
      then show ?thesis by (simp add: be)
    next
      case n: False
      then have "find_last_of m SEP_EXT = - 1" using False by (intro find_last_of_none) (simp add: m)
      then show ?thesis by simp
    qed
    then obtain k where k: "find_last_of m SEP_EXT = k" "k < int (length d)" "- 1 \<le> k" by blast
    have "file_name m = Inr f"
    proof (cases "k = - 1")
      case True
      have "substr m (Suc (length d)) (int (length m) - int (length d) - 1) = Inr f"
        using l by (simp add: substr_def m)
      then show ?thesis using n v k True by (simp add: file_name_def s t z)
    next
      case False
      have b: "int (length d) + 1 - k \<le> int (length m)" "0 < int (length d) + 1 - k"
        using k False by (auto simp: m)
      have "(k - int (length d) - 1) mod 2 ^ 64 = (k - int (length d) - 1 + 2 ^ 64) mod 2 ^ 64" by (rule mod_add_self2 [symmetric])
      also have "\<dots> = 2 ^ 64 - (int (length d) + 1 - k)"
        using b l by (subst mod_pos_pos_trivial) auto
      finally have "(k - int (length d) - 1) mod 2 ^ 64 = 2 ^ 64 - (int (length d) + 1 - k)" .
      moreover have "int (length m) \<le> 2 ^ 64 - (int (length d) + 1 - k)" using b l by simp
      ultimately have "substr m (Suc (length d)) (k - int (length d) - 1) = Inr f"
        by (simp add: substr_def Let_def) (simp add: m)
      then show ?thesis using n v k False by (simp add: file_name_def s t z)
    qed
    moreover have "file_ext m = []" using k v by (simp add: file_ext_def s)
    ultimately show ?thesis using p False by (simp add: split_ext_def)
  qed
qed

section \<open>Relative names\<close>

text \<open>An absolute name: its directories and its last component.\<close>

definition abs_name :: "string list \<Rightarrow> string \<Rightarrow> string" where
  "abs_name ds f = concat (map (\<lambda>d. SEP_PATH # d) ds) @ SEP_PATH # f"

definition no_sep :: "string list \<Rightarrow> string \<Rightarrow> bool" where
  "no_sep ds f \<longleftrightarrow> list_all (\<lambda>d. SEP_PATH \<notin> set d) ds \<and> SEP_PATH \<notin> set f"

definition ups :: "nat \<Rightarrow> string" where
  "ups n = concat (replicate n ''../'')"

definition dirs_text :: "string list \<Rightarrow> string" where
  "dirs_text ds = concat (map (\<lambda>d. d @ [SEP_PATH]) ds)"

lemma abs_name_simps [simp]:
  "abs_name [] f = SEP_PATH # f" "abs_name (d # ds) f = SEP_PATH # d @ abs_name ds f"
  by (simp_all add: abs_name_def)

lemma abs_name_not_Nil [simp]: "abs_name ds f \<noteq> []" "tl (SEP_PATH # s) = s"
  by (simp_all add: abs_name_def)

lemma dropWhile_all: "SEP_PATH \<notin> set f \<Longrightarrow> dropWhile (\<lambda>c. c \<noteq> SEP_PATH) f = []"
  by (auto simp: dropWhile_eq_Nil_conv)

lemma dropWhile_abs: "SEP_PATH \<notin> set d \<Longrightarrow> dropWhile (\<lambda>c. c \<noteq> SEP_PATH) (d @ abs_name ds f) = abs_name ds f"
  by (cases ds) (induction d; auto)+

lemma next_sep_abs:
  "no_sep [] f \<Longrightarrow> next_sep (abs_name [] f) = []"
  "no_sep (d # ds) f \<Longrightarrow> next_sep (abs_name (d # ds) f) = abs_name ds f"
  by (simp_all add: next_sep_def no_sep_def dropWhile_all dropWhile_abs)

lemma tl_abs: "tl (abs_name ds f) = dirs_text ds @ f"
proof (induction ds)
  case (Cons d ds)
  have "SEP_PATH # tl (abs_name ds f) = abs_name ds f" by (cases ds) simp_all
  then show ?case using Cons by (simp add: dirs_text_def)
qed (simp add: dirs_text_def)

lemma ups_Suc: "ups (Suc n) = ''../'' @ ups n" "ups n @ CHR ''.'' # CHR ''.'' # CHR ''/'' # s = ''../'' @ ups n @ s"
proof -
  show 1: "ups (Suc n) = ''../'' @ ups n" by (simp add: ups_def)
  show "ups n @ CHR ''.'' # CHR ''.'' # CHR ''/'' # s = ''../'' @ ups n @ s"
    by (induction n) (simp_all add: ups_def)
qed

lemma rel_up_Nil [simp]: "rel_up [] str = str"
  by (subst rel_up.simps) simp

lemma rel_up_abs: "no_sep rs g \<Longrightarrow> rel_up (abs_name rs g) str = ups (Suc (length rs)) @ str"
proof (induction rs arbitrary: str)
  case Nil
  then show ?case by (subst rel_up.simps) (simp add: next_sep_abs ups_def del: abs_name_simps)
next
  case (Cons r rs)
  have "no_sep rs g" using Cons.prems by (simp add: no_sep_def)
  have "rel_up (abs_name (r # rs) g) str = rel_up (abs_name rs g) (''../'' @ str)"
    by (subst rel_up.simps) (simp add: next_sep_abs(2) [OF Cons.prems] del: abs_name_simps)
  also have "\<dots> = ups (Suc (length rs)) @ ''../'' @ str" by (rule Cons.IH) fact
  finally show ?case by (simp only: ups_Suc list.size) (simp add: ups_Suc)
qed

text \<open>The steps up from the reference and down to the file.\<close>

fun rel_spec :: "string list \<Rightarrow> string list \<Rightarrow> string" where
  "rel_spec [] rs = ups (length rs)"
| "rel_spec (d # ds) [] = dirs_text (d # ds)"
| "rel_spec (d # ds) (r # rs) = (if d = r then rel_spec ds rs else ups (Suc (length rs)) @ dirs_text (d # ds))"

lemma rel_loop_end:
  assumes "no_sep [] f" "no_sep rs g"
  shows "rel_loop (abs_name [] f) (abs_name rs g) str b = ups (length rs) @ str @ f"
proof -
  have "next_sep (abs_name [] f) = []" by (rule next_sep_abs) fact
  moreover have "rel_up (next_sep (abs_name rs g)) str = ups (length rs) @ str"
  proof (cases rs)
    case Nil
    then show ?thesis using assms next_sep_abs(1) [of g] by (simp add: ups_def no_sep_def)
  next
    case (Cons r rs')
    then have "no_sep rs' g" using assms by (simp add: no_sep_def)
    then show ?thesis using rel_up_abs next_sep_abs(2) [of r rs' g] assms Cons by simp
  qed
  ultimately show ?thesis by (subst rel_loop.simps) (simp add: Let_def)
qed

lemma rel_loop_no_ref:
  assumes "no_sep ds f" "no_sep [] g"
  shows "rel_loop (abs_name ds f) (abs_name [] g) str b = str @ dirs_text ds @ f"
proof (cases ds)
  case Nil
  then show ?thesis using rel_loop_end [of f "[]" g str b] assms by (simp add: ups_def dirs_text_def)
next
  case (Cons d ds')
  have "next_sep (abs_name [] g) = []" by (rule next_sep_abs) fact
  moreover have "next_sep (abs_name ds f) = abs_name ds' f" using next_sep_abs(2) assms Cons by blast
  ultimately show ?thesis using tl_abs [of ds f]
    by (subst rel_loop.simps) (simp add: Let_def del: abs_name_simps)
qed

lemma rel_loop_step:
  assumes "no_sep (d # ds) f" "no_sep (r # rs) g"
  shows "rel_loop (abs_name (d # ds) f) (abs_name (r # rs) g) str b =
    (if d \<noteq> r \<or> b then rel_loop (abs_name ds f) (abs_name rs g) (''../'' @ str @ d @ [SEP_PATH]) True
     else rel_loop (abs_name ds f) (abs_name rs g) str b)"
proof -
  note n = next_sep_abs(2) [OF assms(1)] next_sep_abs(2) [OF assms(2)]
  have l: "length (abs_name (d # ds) f) - length (abs_name ds f) = Suc (length d)"
    "length (abs_name (r # rs) g) - length (abs_name rs g) = Suc (length r)" by simp_all
  have h: "abs_name ds f = SEP_PATH # tl (abs_name ds f)" by (cases ds) simp_all
  have t: "take (Suc (length d)) (tl (abs_name (d # ds) f)) = d @ [SEP_PATH]"
    by (subst abs_name_simps, subst h) simp
  have e: "length d = length r \<Longrightarrow> take (Suc (length d)) (abs_name (d # ds) f) = take (Suc (length d)) (abs_name (r # rs) g) \<longleftrightarrow> d = r"
    by simp
  have c: "(Suc (length d) \<noteq> Suc (length r) \<or> b \<or> take (Suc (length d)) (abs_name (d # ds) f) \<noteq> take (Suc (length d)) (abs_name (r # rs) g))
      \<longleftrightarrow> d \<noteq> r \<or> b" using e by (cases "length d = length r") auto
  show ?thesis
    by (subst rel_loop.simps) (simp only: Let_def n l t c abs_name_not_Nil if_False)
qed

lemma rel_loop_climb:
  "no_sep ds f \<Longrightarrow> no_sep rs g \<Longrightarrow> rel_loop (abs_name ds f) (abs_name rs g) str True = ups (length rs) @ str @ dirs_text ds @ f"
proof (induction ds arbitrary: rs str)
  case Nil
  then show ?case by (simp only: rel_loop_end) (simp add: dirs_text_def)
next
  case (Cons d ds)
  show ?case
  proof (cases rs)
    case Nil
    then show ?thesis using Cons.prems by (simp only: rel_loop_no_ref) (simp add: ups_def)
  next
    case r: (Cons r rs')
    have n: "no_sep ds f" "no_sep rs' g" using Cons.prems by (simp_all add: no_sep_def r)
    have "rel_loop (abs_name (d # ds) f) (abs_name rs g) str True =
        rel_loop (abs_name ds f) (abs_name rs' g) (''../'' @ str @ d @ [SEP_PATH]) True"
      using rel_loop_step [of d ds f r rs' g str True] Cons.prems r by simp
    also have "\<dots> = ups (length rs') @ (''../'' @ str @ d @ [SEP_PATH]) @ dirs_text ds @ f"
      by (rule Cons.IH) (use n in simp_all)
    finally show ?thesis by (simp add: r ups_Suc dirs_text_def)
  qed
qed

lemma rel_loop_spec:
  "no_sep ds f \<Longrightarrow> no_sep rs g \<Longrightarrow> rel_loop (abs_name ds f) (abs_name rs g) [] False = rel_spec ds rs @ f"
proof (induction ds rs rule: rel_spec.induct)
  case (1 rs)
  then show ?case by (simp only: rel_loop_end) simp
next
  case (2 d ds)
  then show ?case by (simp only: rel_loop_no_ref) simp
next
  case (3 d ds r rs)
  have n: "no_sep ds f" "no_sep rs g" using 3 by (simp_all add: no_sep_def)
  show ?case
  proof (cases "d = r")
    case True
    then show ?thesis using 3 n by (simp only: rel_loop_step) simp
  next
    case False
    then show ?thesis using 3 n
      by (simp only: rel_loop_step rel_loop_climb) (simp add: dirs_text_def ups_Suc)
  qed
qed

section \<open>Setting a name\<close>

lemma full_name_format: "args_str [w, n] (Format_ctor ''{}/{}'') = Inr \<lparr>fmt_str = w @ SEP_PATH # n, m_fmt_idx = length (w @ SEP_PATH # n)\<rparr>"
  using args_str_filled [of "[]" "[([], w), (''/'', n)]" "Format_ctor ''{}/{}''" "[]"]
  by (simp add: template_text_def filled_text_def Format_ctor_def)

lemma set_full_name_absolute:
  assumes "set_full_name os s n = Inr m" "os_getcwd os s = SEP_PATH # w" "BACKSLASH \<notin> set w"
  shows "(m = [] \<or> hd m = SEP_PATH) \<and> BACKSLASH \<notin> set m"
proof -
  have c: "BACKSLASH \<notin> set (convert_separators x)" for x by (auto simp: convert_separators_def)
  have h: "is_sep_path (convert_separators x ! 0) \<Longrightarrow> convert_separators x \<noteq> [] \<Longrightarrow> hd (convert_separators x) = SEP_PATH" for x
    by (auto simp: is_sep_path_def hd_conv_nth convert_separators_def)
  have e: "convert_separators (cstr n) = [] \<longleftrightarrow> cstr n = []" by (auto simp: convert_separators_def cstr_def)
  show ?thesis using assms c h e
    by (auto simp: set_full_name_def Let_def null_path_def full_name_format simp del: args_str.simps split: if_splits)
qed

lemma cstr_cstr [simp]: "cstr (cstr n) = cstr n"
  by (simp add: cstr_def)

lemma convert_id: "NUL \<notin> set m \<Longrightarrow> BACKSLASH \<notin> set m \<Longrightarrow> convert_separators m = m"
  by (auto simp: convert_separators_def cstr_id intro!: map_idI)

section \<open>Creating directories\<close>

definition is_dir :: "'s os \<Rightarrow> 's \<Rightarrow> string \<Rightarrow> bool" where
  "is_dir os s p \<longleftrightarrow> (case os_stat os p s of Inl _ \<Rightarrow> False | Inr (st_mode, _) \<Rightarrow> st_mode AND S_IFDIR \<noteq> 0)"

text \<open>What \<open>mkdir\<close> relies on: the call creates a directory, and no call removes one.\<close>

definition dirs_stay :: "'s os \<Rightarrow> bool" where
  "dirs_stay os \<longleftrightarrow>
     (\<forall>p mode s s'. os_mkdir os p mode s = (None, s') \<longrightarrow> is_dir os s' p \<and> (\<forall>q. is_dir os s q \<longrightarrow> is_dir os s' q))
     \<and> (\<forall>p mode s s' r. os_chmod os p mode s = (r, s') \<longrightarrow> (\<forall>q. is_dir os s q \<longrightarrow> is_dir os s' q))
     \<and> (\<forall>p uid gid s s' r. os_chown os p uid gid s = (r, s') \<longrightarrow> (\<forall>q. is_dir os s q \<longrightarrow> is_dir os s' q))"

lemma mkdir_one_creates:
  assumes "dirs_stay os" "mkdir_one os mode uid gid p s = (None, s')"
  shows "is_dir os s' p \<and> (\<forall>q. is_dir os s q \<longrightarrow> is_dir os s' q)"
proof (cases "os_stat os p s")
  case (Inr a)
  then show ?thesis using assms(2) by (auto simp: mkdir_one_def is_dir_def split: prod.splits if_splits)
next
  case (Inl errno)
  obtain r1 s1 where 1: "os_mkdir os p 0x1FF s = (r1, s1)" by fastforce
  obtain r2 s2 where 2: "os_chmod os p mode s1 = (r2, s2)" by fastforce
  obtain r3 s3 where 3: "os_chown os p uid gid s1 = (r3, s3)" by fastforce
  obtain r4 s4 where 4: "os_chown os p uid gid s2 = (r4, s4)" by fastforce
  have r: "r1 = None" using assms(2) Inl 1
    by (cases r1) (auto simp: mkdir_one_def then_do_def os_try_def split: if_splits)
  have d: "is_dir os s1 p" "\<And>q. is_dir os s q \<Longrightarrow> is_dir os s1 q" "\<And>q. is_dir os s1 q \<Longrightarrow> is_dir os s2 q"
    "\<And>q. is_dir os s1 q \<Longrightarrow> is_dir os s3 q" "\<And>q. is_dir os s2 q \<Longrightarrow> is_dir os s4 q"
    using assms(1) 1 2 3 4 r unfolding dirs_stay_def by blast+
  have "s' = s1 \<or> s' = s2 \<or> s' = s3 \<or> s' = s4"
    using assms(2) Inl 1 2 3 4 r
    by (auto simp: mkdir_one_def then_do_def os_try_def split: if_splits option.splits)
  then show ?thesis using d by auto
qed

text \<open>The path of the first directories.\<close>

definition dir_path :: "string list \<Rightarrow> string" where
  "dir_path ds = concat (map (\<lambda>d. SEP_PATH # d) ds)"

lemma dir_path_append: "dir_path (ds @ es) = dir_path ds @ dir_path es"
  by (simp add: dir_path_def)

lemma mkdir_loop_creates:
  "dirs_stay os \<Longrightarrow> list_all (\<lambda>d. SEP_PATH \<notin> set d) post \<Longrightarrow>
   mkdir_loop os mode uid gid (dir_path (pre @ post) @ [SEP_PATH]) (int (length (dir_path pre))) s = (None, s') \<Longrightarrow>
   (\<forall>q. is_dir os s q \<longrightarrow> is_dir os s' q) \<and> (\<forall>k \<le> length post. is_dir os s' (dir_path (pre @ take k post)))"
proof (induction post arbitrary: pre s)
  case Nil
  let ?str = "dir_path pre @ [SEP_PATH]"
  have "find_from ?str SEP_PATH (Suc (length (dir_path pre))) = - 1" by (intro find_from_none) simp
  moreover have "nat (int (length (dir_path pre)) + 1) = Suc (length (dir_path pre))" by simp
  moreover obtain r s1 where m: "mkdir_one os mode uid gid (dir_path pre) s = (r, s1)" by fastforce
  ultimately have "r = None" "s' = s1"
    using Nil(3) by (cases r; subst (asm) mkdir_loop.simps; simp add: then_do_def mkdir_loop.simps [of _ _ _ _ _ "- 1"])+
  then show ?case using mkdir_one_creates [OF Nil(1)] m by simp
next
  case (Cons d post)
  let ?str = "dir_path (pre @ d # post) @ [SEP_PATH]" and ?i = "length (dir_path pre)"
  obtain r s1 where m: "mkdir_one os mode uid gid (dir_path pre) s = (r, s1)" by fastforce
  have h: "dir_path post @ [SEP_PATH] = SEP_PATH # tl (dir_path post @ [SEP_PATH])"
    by (cases post) (simp_all add: dir_path_def)
  have "?str = (dir_path pre @ [SEP_PATH]) @ d @ SEP_PATH # tl (dir_path post @ [SEP_PATH])"
    by (simp add: dir_path_append flip: h) (simp add: dir_path_def)
  moreover have "SEP_PATH \<notin> set d" using Cons.prems(2) by simp
  ultimately have "find_from ?str SEP_PATH (Suc ?i) = int (length (dir_path pre @ [SEP_PATH]) + length d)"
    using find_from_skip [of SEP_PATH d "dir_path pre @ [SEP_PATH]" "tl (dir_path post @ [SEP_PATH])"] by simp
  moreover have "length (dir_path pre @ [SEP_PATH]) + length d = length (dir_path (pre @ [d]))"
    by (simp add: dir_path_def)
  moreover have "nat (int ?i + 1) = Suc ?i" by simp
  ultimately have f: "find_from ?str SEP_PATH (nat (int ?i + 1)) = int (length (dir_path (pre @ [d])))" by simp
  have u: "mkdir_loop os mode uid gid ?str (int ?i) s = then_do (r, s1) (mkdir_loop os mode uid gid ?str (int (length (dir_path (pre @ [d])))))"
    unfolding m [symmetric] f [symmetric] by (subst mkdir_loop.simps) (simp add: dir_path_append)
  have r: "r = None" using Cons.prems(3) unfolding u by (cases r) (simp_all add: then_do_def)
  have "mkdir_loop os mode uid gid (dir_path ((pre @ [d]) @ post) @ [SEP_PATH]) (int (length (dir_path (pre @ [d])))) s1 = (None, s')"
    using Cons.prems(3) r unfolding u by (simp add: then_do_def)
  then have ih: "\<forall>q. is_dir os s1 q \<longrightarrow> is_dir os s' q" "\<forall>k \<le> length post. is_dir os s' (dir_path ((pre @ [d]) @ take k post))"
    using Cons.IH [OF Cons.prems(1), of "pre @ [d]" s1] Cons.prems(2) by simp_all
  have one: "is_dir os s1 (dir_path pre)" "\<forall>q. is_dir os s q \<longrightarrow> is_dir os s1 q"
    using mkdir_one_creates [OF Cons.prems(1)] m r by auto
  have "is_dir os s' (dir_path (pre @ take k (d # post)))" if "k \<le> length (d # post)" for k
    using that ih one by (cases k) auto
  then show ?case using ih one by blast
qed

section \<open>Properties\<close>

text \<open>The path, the name and the extension of an absolute name are the parts of the text around the last separator and the last
  point behind it (points in directories are not taken for one). Path, name and extension make the name again,
  unless it ends with a point.\<close>

theorem file_parts:
  assumes "SEP_PATH \<notin> set f" and "d @ SEP_PATH # f \<noteq> null_path" and "length (d @ SEP_PATH # f) < 2 ^ 63"
  shows "file_path (d @ SEP_PATH # f) = d @ [SEP_PATH]
    \<and> file_name (d @ SEP_PATH # f) = Inr (fst (split_ext f))
    \<and> file_ext (d @ SEP_PATH # f) = snd (split_ext f)
    \<and> file_name_ext (d @ SEP_PATH # f) = Inr (if f \<noteq> [] \<and> last f = SEP_EXT then butlast f else f)"
proof -
  let ?m = "d @ SEP_PATH # f"
  have p: "file_path ?m = d @ [SEP_PATH]" "file_name ?m = Inr (fst (split_ext f))" "file_ext ?m = snd (split_ext f)"
    using file_parts_gen [OF refl assms(1) _ assms(3)] assms(2) by (auto simp: file_is_null_def)
  have "(if snd (split_ext f) \<noteq> [] then fst (split_ext f) @ SEP_EXT # snd (split_ext f) else fst (split_ext f)) =
      (if f \<noteq> [] \<and> last f = SEP_EXT then butlast f else f)"
  proof (cases "SEP_EXT \<in> set f")
    case True
    then obtain b e where be: "f = b @ SEP_EXT # e" "SEP_EXT \<notin> set e" using last_occurrence by metis
    then have "e \<noteq> [] \<Longrightarrow> last e \<noteq> SEP_EXT" by (metis last_in_set)
    then show ?thesis using be split_ext_point [OF be(2), of b] by (cases "e = []") auto
  next
    case False
    then have "f \<noteq> [] \<Longrightarrow> last f \<noteq> SEP_EXT" by (metis last_in_set)
    then show ?thesis using False by (auto simp: split_ext_def)
  qed
  moreover have "file_name_ext ?m = Inr (if snd (split_ext f) \<noteq> [] then fst (split_ext f) @ SEP_EXT # snd (split_ext f) else fst (split_ext f))"
    using assms(2) by (simp add: file_name_ext_def p file_is_null_def file_is_valid_def file_is_empty_def)
  ultimately have "file_name_ext ?m = Inr (if f \<noteq> [] \<and> last f = SEP_EXT then butlast f else f)" by (simp only:)
  then show ?thesis using p by simp
qed

theorem file_parts_witness:
  "file_path (''/home/a.b'' @ SEP_PATH # ''data.tar.gz'') = ''/home/a.b'' @ [SEP_PATH]
    \<and> file_name (''/home/a.b'' @ SEP_PATH # ''data.tar.gz'') = Inr (fst (split_ext ''data.tar.gz''))
    \<and> file_ext (''/home/a.b'' @ SEP_PATH # ''data.tar.gz'') = snd (split_ext ''data.tar.gz'')
    \<and> file_name_ext (''/home/a.b'' @ SEP_PATH # ''data.tar.gz'') = Inr (if ''data.tar.gz'' \<noteq> [] \<and> last ''data.tar.gz'' = SEP_EXT then butlast ''data.tar.gz'' else ''data.tar.gz'')"
  by (rule file_parts) (simp_all add: null_path_def)

text \<open>Whatever name is set, the object holds nothing or an absolute name without the separators of DOS, and a
  directory that exists ends with a separator. Setting a name from the path and the name with extension of an object is
  setting its name.\<close>

theorem set_name_absolute:
  assumes "os_getcwd os s = SEP_PATH # w" and "BACKSLASH \<notin> set w" and "set_name os s n = Inr m"
  shows "(m = [] \<or> hd m = SEP_PATH) \<and> BACKSLASH \<notin> set m \<and> (path_exist os s m = Inr True \<longrightarrow> is_path_name m)
    \<and> (\<forall>d f. m = d @ SEP_PATH # f \<and> SEP_PATH \<notin> set f \<and> \<not> file_is_null m \<and> NUL \<notin> set m \<and> length m < 2 ^ 63 \<and> (f = [] \<or> last f \<noteq> SEP_EXT) \<longrightarrow>
        (\<exists>e. file_name_ext m = Inr e \<and> set_path_name os s (file_path m) e = set_name os s m))"
proof -
  obtain m0 where m0: "set_full_name os s n = Inr m0" using assms(3) by (auto simp: set_name_def split: sum.splits)
  have a: "m0 = [] \<or> hd m0 = SEP_PATH" "BACKSLASH \<notin> set m0" using set_full_name_absolute [OF m0 assms(1,2)] by auto
  have p: "path_exist os s [] \<noteq> Inr True" by (simp add: path_exist_def file_is_null_def null_path_def cstr_def)
  have "m = m0 \<and> (path_exist os s m = Inr True \<longrightarrow> is_path_name m) \<or> m = m0 @ [SEP_PATH] \<and> m0 \<noteq> []"
    using assms(3) m0 p by (auto simp: set_name_def split: sum.splits file_error.splits if_splits)
  moreover have "is_path_name (m0 @ [SEP_PATH])" by (simp add: is_path_name_def ends_with_char_def)
  ultimately have i: "(m = [] \<or> hd m = SEP_PATH) \<and> BACKSLASH \<notin> set m \<and> (path_exist os s m = Inr True \<longrightarrow> is_path_name m)"
    using a by (cases m0) auto
  have "\<exists>e. file_name_ext m = Inr e \<and> set_path_name os s (file_path m) e = set_name os s m"
    if "m = d @ SEP_PATH # f" "SEP_PATH \<notin> set f" "\<not> file_is_null m" "NUL \<notin> set m" "length m < 2 ^ 63" "f = [] \<or> last f \<noteq> SEP_EXT" for d f
  proof -
    have q: "file_path m = d @ [SEP_PATH]" "file_name m = Inr (fst (split_ext f))" "file_ext m = snd (split_ext f)"
      using file_parts_gen [OF that(1,2,3,5)] by auto
    have "(if snd (split_ext f) \<noteq> [] then fst (split_ext f) @ SEP_EXT # snd (split_ext f) else fst (split_ext f)) = f"
    proof (cases "SEP_EXT \<in> set f")
      case True
      then obtain b e where be: "f = b @ SEP_EXT # e" "SEP_EXT \<notin> set e" using last_occurrence by metis
      then show ?thesis using split_ext_point [OF be(2), of b] that(6) by (cases "e = []") auto
    qed (simp add: split_ext_def)
    moreover have v: "file_is_valid m" using that(1,3) by (auto simp: file_is_valid_def file_is_empty_def)
    ultimately have x: "file_name_ext m = Inr f"
      using that(3) v by (auto simp: file_name_ext_def q split: if_splits)
    have "convert_separators (d @ [SEP_PATH]) = d @ [SEP_PATH]" "convert_separators f = f"
      using i that(1,4) by (auto intro!: convert_id)
    then have "set_path_name os s (file_path m) f = set_name os s m"
      unfolding set_path_name_def q by (simp add: ends_with_char_def that(1))
    then show ?thesis using x by blast
  qed
  then show ?thesis using i by blast
qed

text \<open>A system with a list of directories, for the examples.\<close>

definition dirs_os :: "string list os" where
  "dirs_os = \<lparr>os_getcwd = (\<lambda>s. ''/work''), os_stat = (\<lambda>p s. if p \<in> set s then Inr (S_IFDIR, 0) else Inl ENOENT),
     os_lstat = (\<lambda>p s. Inl ENOENT), os_access = (\<lambda>p m s. False), os_mkdir = (\<lambda>p m s. (None, p # s)), os_chmod = (\<lambda>p m s. (None, s)),
     os_chown = (\<lambda>p u g s. (None, s)), os_lchown = (\<lambda>p u g s. (None, s)), os_unlink = (\<lambda>p s. (Some ENOENT, s)),
     os_rename = (\<lambda>p q s. (Some ENOENT, s)), os_symlink = (\<lambda>p q s. (Some ENOENT, s))\<rparr>"

theorem set_name_absolute_witness:
  "\<exists>m. set_name dirs_os [''/work/logs''] ''logs'' = Inr m \<and> BACKSLASH \<notin> set m \<and> is_path_name m"
proof -
  have m: "set_name dirs_os [''/work/logs''] ''logs'' = Inr ''/work/logs/''" by code_simp
  have "path_exist dirs_os [''/work/logs''] ''/work/logs/'' = Inr True" by code_simp
  moreover have "os_getcwd dirs_os [''/work/logs''] = SEP_PATH # ''work''" by (simp add: dirs_os_def)
  ultimately show ?thesis using set_name_absolute [of dirs_os "[''/work/logs'']" "''work''" "''logs''" "''/work/logs/''"] m by auto
qed

text \<open>
  The directory that components lead to in a system without symbolic links: \<open>..\<close> is one up, the root is its own parent, \<open>.\<close> and an empty
  component stay.
\<close>

definition stays :: "string \<Rightarrow> bool" where
  "stays c \<longleftrightarrow> c = ''.'' \<or> c = []"

fun walk :: "string list \<Rightarrow> string list \<Rightarrow> string list" where
  "walk cur [] = cur"
| "walk cur (c # cs) = walk (if c = ''..'' then butlast cur else if stays c then cur else cur @ [c]) cs"

definition plain :: "string list \<Rightarrow> bool" where
  "plain = list_all (\<lambda>c. c \<noteq> ''..'' \<and> \<not> stays c)"

text \<open>The components of the reference behind those that the file shares.\<close>

fun unshared :: "string list \<Rightarrow> string list \<Rightarrow> string list" where
  "unshared (d # ds) (r # rs) = (if d = r then unshared ds rs else r # rs)"
| "unshared ds rs = rs"

lemma walk_append: "walk cur (xs @ ys) = walk (walk cur xs) ys"
  by (induction xs arbitrary: cur) auto

lemma walk_plain: "plain rs \<Longrightarrow> walk cur rs = cur @ rs"
  by (induction rs arbitrary: cur) (auto simp: plain_def)

lemma walk_up: "walk (cur @ rs) (replicate (length rs) ''..'') = cur"
proof (induction rs rule: rev_induct)
  case (snoc r rs)
  then show ?case by (simp flip: append_assoc)
qed simp

lemma walk_back: "plain rs \<Longrightarrow> walk (walk cur rs) (replicate (length rs) ''..'' @ cs) = walk cur cs"
  by (simp only: walk_plain walk_append walk_up)

lemma ups_dirs: "ups n @ dirs_text cs = dirs_text (replicate n ''..'' @ cs)"
  by (induction n) (simp_all add: ups_def dirs_text_def)

lemma rel_spec_walk:
  "plain (unshared ds rs) \<Longrightarrow> \<exists>cs. rel_spec ds rs = dirs_text cs \<and> walk (walk cur rs) cs = walk cur ds"
proof (induction ds rs arbitrary: cur rule: rel_spec.induct)
  case (1 rs)
  then have "walk (walk cur rs) (replicate (length rs) ''..'') = cur" using walk_back [of rs cur "[]"] by simp
  moreover have "rel_spec [] rs = dirs_text (replicate (length rs) ''..'')" using ups_dirs [of "length rs" "[]"] by (simp add: dirs_text_def)
  ultimately show ?case by auto
next
  case (2 d ds)
  then show ?case by (intro exI [of _ "d # ds"]) (simp del: walk.simps(2))
next
  case (3 d ds r rs)
  show ?case
  proof (cases "d = r")
    case True
    then show ?thesis using 3(1) [OF True, of "walk cur [d]"] 3(2) by simp
  next
    case False
    then have "walk (walk cur (r # rs)) (replicate (length (r # rs)) ''..'' @ d # ds) = walk cur (d # ds)"
      using walk_back [of "r # rs" cur "d # ds"] 3(2) by (simp only: unshared.simps if_False)
    then show ?thesis using False ups_dirs [of "length (r # rs)" "d # ds"]
      by (intro exI [of _ "replicate (length (r # rs)) ''..'' @ d # ds"]) (simp del: walk.simps)
  qed
qed



text \<open>
  A reference with \<open>..\<close> behind the shared part: the relative name of \<open>/a/c/f\<close> leads to \<open>/c/f\<close> from \<open>/a/b/..\<close>, which is \<open>/a\<close>.
\<close>

theorem rel_name_dots:
  "rel_name dirs_os [] ''/a/b/../'' ''/a/c/f'' = Inr ''../../c/f'' \<and> walk (walk [] [''a'', ''b'', ''..'']) [''..'', ''..'', ''c''] = [''c'']"
  by code_simp

text \<open>When \<open>mkdir\<close> does not throw, every directory on the path of the name exists, provided that the call of the
  system creates what it says and nothing removes directories.\<close>

theorem mkdir_creates:
  assumes "dirs_stay os" and "no_sep ds f" and "abs_name ds f \<noteq> null_path"
    and "file_mkdir os mode uid gid (abs_name ds f) s = (None, s')"
  shows "(\<forall>q. is_dir os s q \<longrightarrow> is_dir os s' q) \<and> (\<forall>k. 0 < k \<and> k \<le> length ds \<longrightarrow> is_dir os s' (dir_path (take k ds)))"
proof -
  let ?str = "dir_path ds @ [SEP_PATH]"
  have a: "abs_name ds f = dir_path ds @ SEP_PATH # f" by (simp add: abs_name_def dir_path_def)
  have "find_last_of (abs_name ds f) SEP_PATH = int (length (dir_path ds))"
    unfolding a using assms(2) by (intro find_last_of_at) (simp add: no_sep_def)
  moreover have "nat (int (length (dir_path ds)) + 1) = Suc (length (dir_path ds))" by simp
  ultimately have p: "file_path (abs_name ds f) = ?str"
    using assms(3) by (simp add: file_path_def file_is_null_def a)
  show ?thesis
  proof (cases ds)
    case Nil
    have "find_from [SEP_PATH] SEP_PATH 0 = 0" "find_from [SEP_PATH] SEP_PATH (nat (0 + 1)) = - 1" by code_simp+
    then have "s' = s" using assms(3,4) p Nil
      by (simp add: file_mkdir_def file_is_null_def Let_def dir_path_def mkdir_loop.simps [of _ _ _ _ _ "- 1"])
    then show ?thesis using Nil by simp
  next
    case (Cons d es)
    have c: "?str = SEP_PATH # d @ dir_path es @ [SEP_PATH]" by (simp add: Cons dir_path_def)
    have h: "dir_path es @ [SEP_PATH] = SEP_PATH # tl (dir_path es @ [SEP_PATH])" by (cases es) (simp_all add: dir_path_def)
    have d: "SEP_PATH \<notin> set d" "list_all (\<lambda>d. SEP_PATH \<notin> set d) es" using assms(2) by (simp_all add: no_sep_def Cons)
    have 0: "find_from ?str SEP_PATH 0 = 0" unfolding c by (simp add: find_from_0)
    have "find_from ?str SEP_PATH 1 = int (length [SEP_PATH] + length d)"
      using find_from_skip [OF d(1), of "[SEP_PATH]" "tl (dir_path es @ [SEP_PATH])"] unfolding c h [symmetric] by simp
    then have 1: "find_from ?str SEP_PATH (nat (0 + 1)) = int (length (dir_path [d]))" by (simp add: dir_path_def)
    have "mkdir_loop os mode uid gid (dir_path ([d] @ es) @ [SEP_PATH]) (int (length (dir_path [d]))) s = (None, s')"
      using assms(3,4) unfolding file_mkdir_def p Let_def 0 1 by (simp add: Cons file_is_null_def)
    from mkdir_loop_creates [OF assms(1) d(2) this]
    have "(\<forall>q. is_dir os s q \<longrightarrow> is_dir os s' q)" "\<forall>k \<le> length es. is_dir os s' (dir_path ([d] @ take k es))" by auto
    moreover have "is_dir os s' (dir_path (take k ds))" if "0 < k" "k \<le> length ds" for k
      using that calculation(2) Cons by (cases k) auto
    ultimately show ?thesis by blast
  qed
qed

theorem mkdir_creates_witness:
  "is_dir dirs_os [''/a/b/c'', ''/a/b'', ''/a''] ''/a'' \<and> is_dir dirs_os [''/a/b/c'', ''/a/b'', ''/a''] ''/a/b/c''"
proof -
  let ?ds = "[''a'', ''b'', ''c'']" and ?s = "[''/a/b/c'', ''/a/b'', ''/a'']"
  have "dirs_stay dirs_os" by (auto simp: dirs_stay_def dirs_os_def is_dir_def S_IFDIR_def)
  moreover have "no_sep ?ds ''f''" "abs_name ?ds ''f'' \<noteq> null_path" by (simp_all add: no_sep_def null_path_def)
  moreover have "file_mkdir dirs_os 0 (- 1) (- 1) (abs_name ?ds ''f'') [''/a''] = (None, ?s)" by code_simp
  ultimately have "\<forall>k. 0 < k \<and> k \<le> length ?ds \<longrightarrow> is_dir dirs_os ?s (dir_path (take k ?ds))"
    by (rule mkdir_creates [THEN conjunct2])
  from this [rule_format, of 1] this [rule_format, of 3] show ?thesis by (simp add: dir_path_def)
qed

text \<open>Names that are not what the documentation says: the directory of a file in the root is given as the file itself, a point at the end
  is lost, and the bit tests take block devices and sockets for directories, and sockets for regular files.\<close>

theorem file_name_limits:
  "dir_name ''/readme'' = Inr ''readme'' \<and> dir_name ''/home/readme'' = Inr ''home''
   \<and> file_name_ext ''/home/name.'' = Inr ''name''
   \<and> path_exist (dirs_os\<lparr>os_stat := \<lambda>p s. Inr (0x6000, 0)\<rparr>) [] ''/dev/sda'' = Inr True
   \<and> path_exist (dirs_os\<lparr>os_stat := \<lambda>p s. Inr (0xC000, 0)\<rparr>) [] ''/run/socket'' = Inr True
   \<and> file_exist (dirs_os\<lparr>os_stat := \<lambda>p s. Inr (0xC000, 0), os_access := \<lambda>p m s. True\<rparr>) [] ''/run/socket''
   \<and> set_path_name dirs_os [] ''C:'' (''a'' @ [BACKSLASH] @ ''b'') = Inr ''/work/C:/a/b''
   \<and> splitted_path ''/home/me/f'' = [[], ''home'', ''me'']"
  by (intro conjI) code_simp+

end
