(* ===== verification/DirectoryWatcher.thy ===== *)
theory DirectoryWatcher
  imports TimeStamp StringEdit Transitions
begin

text \<open>
  The watcher of a directory of \<open>src/file/FileName.cpp\<close> (class \<open>DirectoryWatcher\<close>). What a call sees of the system is a view: the time, the
  modification time of the directory, and the files that \<open>FileEnum\<close> finds, with theirs. Files that vanish
  during a call, and errors of the system, are not part of the model.
\<close>

section \<open>The state\<close>

datatype watch_mode = ENUM_FIRST | NO_FIRST_ENUM

record dw_entry =
  ptrFile :: string
  tmLastModTime :: time
  bRemoved :: bool

record dir_watcher =
  m_mapEntry :: "64 word \<rightharpoonup> dw_entry"
  m_tmDirModTime :: time
  m_tmLocalModTime :: time
  m_bDirectoryHasChanged :: bool
  m_eMode :: watch_mode

record dir_view =
  dv_now :: time
  dv_mtime :: int
  dv_files :: "(string \<times> int) list"

definition mod_time :: "int \<Rightarrow> time" where
  "mod_time st_mtime = set_long_unix st_mtime Time_ctor"

definition Entry_ctor :: "string \<times> int \<Rightarrow> dw_entry" where
  "Entry_ctor f = \<lparr>ptrFile = fst f, tmLastModTime = mod_time (snd f), bRemoved = False\<rparr>"

text \<open>The two times are default constructed, also when the files are enumerated.\<close>

definition DirectoryWatcher_ctor :: "watch_mode \<Rightarrow> dir_view \<Rightarrow> dir_watcher" where
  "DirectoryWatcher_ctor eMode v =
     \<lparr>m_mapEntry = (if eMode = ENUM_FIRST then foldl (\<lambda>m f. m(hash64 (fst f) \<mapsto> Entry_ctor f)) Map.empty (dv_files v) else Map.empty),
      m_tmDirModTime = Time_ctor, m_tmLocalModTime = Time_ctor, m_bDirectoryHasChanged = False, m_eMode = eMode\<rparr>"

section \<open>Changes of the directory\<close>

definition priv_has_changed :: "int \<Rightarrow> bool \<Rightarrow> dir_view \<Rightarrow> dir_watcher \<Rightarrow> bool \<times> dir_watcher" where
  "priv_has_changed sys bReset v w =
     (let tmCur = dv_now v; tmModTime = mod_time (dv_mtime v)
      in if m_llTime (m_tmDirModTime w) = 0 \<and> m_eMode w = NO_FIRST_ENUM then
           (True, w\<lparr>m_tmLocalModTime := tmCur, m_tmDirModTime := tmModTime\<rparr>)
         else if m_llTime tmModTime \<noteq> m_llTime (m_tmDirModTime w) \<and> \<not> m_bDirectoryHasChanged w then
           (False, w\<lparr>m_bDirectoryHasChanged := True, m_tmLocalModTime := tmCur, m_tmDirModTime := tmModTime\<rparr>)
         else if m_bDirectoryHasChanged w \<and> rnd (double_unix sys tmCur - double_unix sys (m_tmLocalModTime w)) > 1 then
           (True, if bReset then
                    if m_llTime tmModTime = m_llTime (m_tmDirModTime w) then w\<lparr>m_bDirectoryHasChanged := False\<rparr>
                    else w\<lparr>m_tmLocalModTime := tmCur, m_tmDirModTime := tmModTime\<rparr>
                  else w)
         else (False, w))"

definition has_changed :: "int \<Rightarrow> dir_view \<Rightarrow> dir_watcher \<Rightarrow> bool \<times> dir_watcher" where
  "has_changed sys v w = priv_has_changed sys False v w"

section \<open>Changes of the files\<close>

text \<open>The three vectors, each of which may be a null pointer.\<close>

record dw_vectors =
  vec_new :: "string list option"
  vec_changed :: "string list option"
  vec_removed :: "string list option"

definition push_file :: "string \<Rightarrow> string list option \<Rightarrow> string list option" where
  "push_file f v = map_option (\<lambda>fs. fs @ [f]) v"

definition see_file :: "string \<times> int \<Rightarrow> dir_watcher \<times> dw_vectors \<Rightarrow> dir_watcher \<times> dw_vectors" where
  "see_file f s =
     (let (w, vs) = s; hashFile = hash64 (fst f)
      in case m_mapEntry w hashFile of
           Some e \<Rightarrow>
             let e = e\<lparr>bRemoved := False\<rparr>; tm = mod_time (snd f)
             in if vec_changed vs \<noteq> None \<and> m_llTime (tmLastModTime e) \<noteq> m_llTime tm
                then (w\<lparr>m_mapEntry := (m_mapEntry w)(hashFile \<mapsto> e\<lparr>tmLastModTime := tm\<rparr>)\<rparr>,
                      vs\<lparr>vec_changed := push_file (ptrFile e) (vec_changed vs)\<rparr>)
                else (w\<lparr>m_mapEntry := (m_mapEntry w)(hashFile \<mapsto> e)\<rparr>, vs)
         | None \<Rightarrow>
             if vec_new vs \<noteq> None
             then (w\<lparr>m_mapEntry := (m_mapEntry w)(hashFile \<mapsto> Entry_ctor f)\<rparr>,
                   vs\<lparr>vec_new := push_file (ptrFile (Entry_ctor f)) (vec_new vs)\<rparr>)
             else (w, vs))"

definition mark_removed :: "dir_watcher \<Rightarrow> dir_watcher" where
  "mark_removed w = w\<lparr>m_mapEntry := \<lambda>h. map_option (\<lambda>e. e\<lparr>bRemoved := True\<rparr>) (m_mapEntry w h)\<rparr>"

text \<open>The map is ordered by the hash.\<close>

definition erase_one :: "64 word \<Rightarrow> dir_watcher \<times> dw_vectors \<Rightarrow> dir_watcher \<times> dw_vectors" where
  "erase_one h s =
     (let (w, vs) = s
      in case m_mapEntry w h of
           Some e \<Rightarrow> if bRemoved e then (w\<lparr>m_mapEntry := (m_mapEntry w)(h := None)\<rparr>, vs\<lparr>vec_removed := push_file (ptrFile e) (vec_removed vs)\<rparr>)
                     else s
         | None \<Rightarrow> s)"

definition erase_removed :: "dir_watcher \<times> dw_vectors \<Rightarrow> dir_watcher \<times> dw_vectors" where
  "erase_removed s = fold erase_one (sorted_list_of_set (dom (m_mapEntry (fst s)))) s"

definition get_changes :: "int \<Rightarrow> dir_view \<Rightarrow> dw_vectors \<Rightarrow> dir_watcher \<Rightarrow> dw_vectors \<times> dir_watcher" where
  "get_changes sys v vs w =
     (let (go, w) = (if vec_changed vs \<noteq> None then (True, w) else priv_has_changed sys True v w)
      in if \<not> go then (vs, w)
         else
           let w = (if vec_removed vs \<noteq> None then mark_removed w else w);
               (w, vs) = fold see_file (dv_files v) (w, vs);
               (w, vs) = (if vec_removed vs \<noteq> None then erase_removed (w, vs) else (w, vs))
           in (vs, w))"

section \<open>What a call reports\<close>

text \<open>The entries of a view.\<close>

definition names :: "dir_view \<Rightarrow> string list" where
  "names v = map fst (dv_files v)"

definition entries :: "(string \<times> int) list \<Rightarrow> 64 word \<rightharpoonup> dw_entry" where
  "entries fs = map_of (map (\<lambda>f. (hash64 (fst f), Entry_ctor f)) fs)"

lemma entries_simps [simp]:
  "entries [] = Map.empty" "entries (f # fs) = (entries fs)(hash64 (fst f) \<mapsto> Entry_ctor f)"
  by (simp_all add: entries_def)

lemma entries_dom: "dom (entries fs) = (\<lambda>f. hash64 (fst f)) ` set fs"
  by (simp add: entries_def dom_map_of_conv_image_fst image_image)

lemma hash_fresh: "inj_on hash64 N \<Longrightarrow> n \<in> N \<Longrightarrow> fst ` set fs \<subseteq> N \<Longrightarrow> n \<notin> fst ` set fs \<Longrightarrow> hash64 n \<notin> dom (entries fs)"
  by (auto simp: entries_dom inj_on_def image_iff)

lemma entries_lookup:
  "inj_on hash64 N \<Longrightarrow> n \<in> N \<Longrightarrow> fst ` set fs \<subseteq> N \<Longrightarrow> entries fs (hash64 n) = map_option (\<lambda>t. Entry_ctor (n, t)) (map_of fs n)"
proof (induction fs)
  case (Cons f fs)
  have "hash64 (fst f) = hash64 n \<longleftrightarrow> fst f = n" using Cons.prems by (auto simp: inj_on_def)
  then show ?case using Cons by (cases f) auto
qed simp

lemma mod_time_inj: "m_llTime (mod_time a) = m_llTime (mod_time b) \<longleftrightarrow> a = b"
  by (simp add: mod_time_def set_long_unix_def MICROSEC_PER_SEC_def)

lemma foldl_entries:
  "distinct (map fst fs) \<Longrightarrow> inj_on hash64 N \<Longrightarrow> fst ` set fs \<subseteq> N \<Longrightarrow>
   foldl (\<lambda>m f. m(hash64 (fst f) \<mapsto> Entry_ctor f)) m fs = m ++ entries fs"
proof (induction fs arbitrary: m)
  case (Cons f fs)
  then have "hash64 (fst f) \<notin> dom (entries fs)" using hash_fresh [of N "fst f" fs] by auto
  then have "m(hash64 (fst f) \<mapsto> Entry_ctor f) ++ entries fs = m ++ entries (f # fs)" by (simp add: map_add_upd_left)
  moreover have "foldl (\<lambda>m f. m(hash64 (fst f) \<mapsto> Entry_ctor f)) (m(hash64 (fst f) \<mapsto> Entry_ctor f)) fs =
      m(hash64 (fst f) \<mapsto> Entry_ctor f) ++ entries fs"
    by (rule Cons.IH) (use Cons.prems in auto)
  ultimately show ?case by (simp only: foldl_Cons)
qed simp

text \<open>The changes of known files, in the order of the enumeration.\<close>

definition changed_in :: "(string \<rightharpoonup> int) \<Rightarrow> (string \<times> int) list \<Rightarrow> string list" where
  "changed_in old fs = map fst (filter (\<lambda>(n, t). \<exists>t0. old n = Some t0 \<and> t0 \<noteq> t) fs)"

definition new_in :: "(string \<rightharpoonup> int) \<Rightarrow> (string \<times> int) list \<Rightarrow> string list" where
  "new_in old fs = map fst (filter (\<lambda>(n, t). old n = None) fs)"

lemma see_files:
  "distinct (map fst fs) \<Longrightarrow> inj_on hash64 N \<Longrightarrow> fst ` set fs \<subseteq> N \<Longrightarrow>
   (\<And>f. f \<in> set fs \<Longrightarrow> m_mapEntry w (hash64 (fst f)) = map_option (\<lambda>t. (Entry_ctor (fst f, t))\<lparr>bRemoved := True\<rparr>) (old (fst f))) \<Longrightarrow>
   fold see_file fs (w, \<lparr>vec_new = Some nw, vec_changed = Some ch, vec_removed = rm\<rparr>) =
     (w\<lparr>m_mapEntry := m_mapEntry w ++ entries fs\<rparr>,
      \<lparr>vec_new = Some (nw @ new_in old fs), vec_changed = Some (ch @ changed_in old fs), vec_removed = rm\<rparr>)"
proof (induction fs arbitrary: w nw ch)
  case Nil
  then show ?case by (simp add: new_in_def changed_in_def)
next
  case (Cons f fs)
  obtain n t where f: "f = (n, t)" by (cases f)
  have fresh: "hash64 n \<notin> dom (entries fs)" using hash_fresh [of N n fs] Cons.prems f by auto
  let ?w = "w\<lparr>m_mapEntry := (m_mapEntry w)(hash64 n \<mapsto> Entry_ctor f)\<rparr>"
  have other: "hash64 (fst g) \<noteq> hash64 n" if "g \<in> set fs" for g
  proof
    assume "hash64 (fst g) = hash64 n"
    moreover have "fst g \<in> N" "n \<in> N" using Cons.prems(3) that by (auto simp: f)
    ultimately have "fst g = n" using Cons.prems(2) by (auto simp: inj_on_def)
    then show False using Cons.prems(1) that f by force
  qed
  have step: "see_file f (w, \<lparr>vec_new = Some nw, vec_changed = Some ch, vec_removed = rm\<rparr>) =
      (?w, \<lparr>vec_new = Some (nw @ new_in old [f]), vec_changed = Some (ch @ changed_in old [f]), vec_removed = rm\<rparr>)"
  proof (cases "old n")
    case None
    then show ?thesis using Cons.prems(4) [of f]
      by (simp add: f see_file_def new_in_def changed_in_def push_file_def Entry_ctor_def)
  next
    case (Some t0)
    then show ?thesis using Cons.prems(4) [of f]
      by (simp add: f see_file_def Let_def new_in_def changed_in_def push_file_def Entry_ctor_def mod_time_inj)
  qed
  have "fold see_file fs (?w, \<lparr>vec_new = Some (nw @ new_in old [f]), vec_changed = Some (ch @ changed_in old [f]), vec_removed = rm\<rparr>) =
     (?w\<lparr>m_mapEntry := m_mapEntry ?w ++ entries fs\<rparr>,
      \<lparr>vec_new = Some ((nw @ new_in old [f]) @ new_in old fs), vec_changed = Some ((ch @ changed_in old [f]) @ changed_in old fs), vec_removed = rm\<rparr>)"
    using Cons.prems other by (intro Cons.IH) auto
  moreover have "m_mapEntry ?w ++ entries fs = m_mapEntry w ++ entries (f # fs)"
    using fresh by (simp add: f map_add_upd_left)
  moreover have "new_in old [f] @ new_in old fs = new_in old (f # fs)" "changed_in old [f] @ changed_in old fs = changed_in old (f # fs)"
    by (auto simp: new_in_def changed_in_def)
  moreover have "w\<lparr>m_mapEntry := a, m_mapEntry := b\<rparr> = w\<lparr>m_mapEntry := b\<rparr>" for a b by simp
  ultimately show ?case by (simp only: fold_simps step append_assoc)
qed

lemma erase_fold:
  "distinct ks \<Longrightarrow> fold erase_one ks (w, \<lparr>vec_new = nw, vec_changed = ch, vec_removed = Some rm\<rparr>) =
    (w\<lparr>m_mapEntry := \<lambda>h. if h \<in> set ks then (case m_mapEntry w h of Some e \<Rightarrow> if bRemoved e then None else Some e | None \<Rightarrow> None) else m_mapEntry w h\<rparr>,
     \<lparr>vec_new = nw, vec_changed = ch, vec_removed = Some (rm @
       concat (map (\<lambda>h. case m_mapEntry w h of Some e \<Rightarrow> if bRemoved e then [ptrFile e] else [] | None \<Rightarrow> []) ks))\<rparr>)"
proof (induction ks arbitrary: w rm)
  case Nil
  then show ?case by simp
next
  case (Cons k ks)
  let ?s = "erase_one k (w, \<lparr>vec_new = nw, vec_changed = ch, vec_removed = Some rm\<rparr>)"
  let ?g = "\<lambda>w h. case m_mapEntry w h of Some e \<Rightarrow> if bRemoved e then [ptrFile e] else [] | None \<Rightarrow> []"
  define w1 where "w1 = w\<lparr>m_mapEntry := (m_mapEntry w)(k := (case m_mapEntry w k of Some e \<Rightarrow> if bRemoved e then None else Some e | None \<Rightarrow> None))\<rparr>"
  have idw: "w\<lparr>m_mapEntry := (m_mapEntry w)(k := m_mapEntry w k)\<rparr> = w" by simp
  have s: "?s = (w1, \<lparr>vec_new = nw, vec_changed = ch, vec_removed = Some (rm @ ?g w k)\<rparr>)"
  proof (cases "m_mapEntry w k")
    case None
    then show ?thesis using idw by (simp add: erase_one_def w1_def)
  next
    case (Some e)
    then show ?thesis using idw by (cases "bRemoved e") (auto simp: erase_one_def w1_def push_file_def)
  qed
  have "map (?g w1) ks = map (?g w) ks" using Cons.prems by (auto simp: w1_def)
  then have c: "concat (map (?g w1) ks) = concat (map (?g w) ks)" by (simp only:)
  have m: "w1\<lparr>m_mapEntry := \<lambda>h. if h \<in> set ks then (case m_mapEntry w1 h of Some e \<Rightarrow> if bRemoved e then None else Some e | None \<Rightarrow> None) else m_mapEntry w1 h\<rparr> =
      w\<lparr>m_mapEntry := \<lambda>h. if h \<in> set (k # ks) then (case m_mapEntry w h of Some e \<Rightarrow> if bRemoved e then None else Some e | None \<Rightarrow> None) else m_mapEntry w h\<rparr>"
    using Cons.prems by (auto simp: w1_def fun_eq_iff split: option.splits)
  have "fold erase_one (k # ks) (w, \<lparr>vec_new = nw, vec_changed = ch, vec_removed = Some rm\<rparr>) =
      fold erase_one ks (w1, \<lparr>vec_new = nw, vec_changed = ch, vec_removed = Some (rm @ ?g w k)\<rparr>)" by (simp add: s)
  also have "\<dots> = (w\<lparr>m_mapEntry := \<lambda>h. if h \<in> set (k # ks) then (case m_mapEntry w h of Some e \<Rightarrow> if bRemoved e then None else Some e | None \<Rightarrow> None) else m_mapEntry w h\<rparr>,
      \<lparr>vec_new = nw, vec_changed = ch, vec_removed = Some ((rm @ ?g w k) @ concat (map (?g w) ks))\<rparr>)"
    using Cons.IH [of w1 "rm @ ?g w k"] Cons.prems unfolding m c by simp
  finally show ?case by simp
qed

text \<open>A view of files with different names, whose hashes are different.\<close>

definition good_views :: "dir_view list \<Rightarrow> bool" where
  "good_views vs \<longleftrightarrow> list_all (\<lambda>v. distinct (names v)) vs \<and> inj_on hash64 (\<Union>v \<in> set vs. set (names v))"

definition all_vectors :: dw_vectors where
  "all_vectors = \<lparr>vec_new = Some [], vec_changed = Some [], vec_removed = Some []\<rparr>"

lemma get_changes_gen:
  assumes "good_views [v0, v]" and w: "m_mapEntry w = entries (dv_files v0)"
  shows "\<exists>rm. get_changes sys v all_vectors w =
      (\<lparr>vec_new = Some (new_in (map_of (dv_files v0)) (dv_files v)),
        vec_changed = Some (changed_in (map_of (dv_files v0)) (dv_files v)), vec_removed = Some rm\<rparr>,
       w\<lparr>m_mapEntry := entries (dv_files v)\<rparr>)
    \<and> set rm = set (names v0) - set (names v) \<and> distinct rm"
proof -
  let ?N = "set (names v0) \<union> set (names v)" and ?o = "dv_files v0" and ?f = "dv_files v"
  have d: "distinct (map fst ?o)" "distinct (map fst ?f)" and inj: "inj_on hash64 ?N"
    and sub: "fst ` set ?o \<subseteq> ?N" "fst ` set ?f \<subseteq> ?N"
    using assms(1) by (simp_all add: good_views_def names_def)
  let ?w1 = "mark_removed w" and ?old = "map_of ?o"
  have w1: "m_mapEntry ?w1 (hash64 n) = map_option (\<lambda>t. (Entry_ctor (n, t))\<lparr>bRemoved := True\<rparr>) (?old n)" if "n \<in> ?N" for n
    using entries_lookup [OF inj that sub(1)] by (simp add: mark_removed_def w option.map_comp comp_def)
  have w1': "m_mapEntry ?w1 h \<noteq> None \<longleftrightarrow> h \<in> hash64 ` set (names v0)" for h
    using entries_dom [of ?o] by (auto simp: mark_removed_def w names_def dom_def image_image)
  define w2 where "w2 = ?w1\<lparr>m_mapEntry := m_mapEntry ?w1 ++ entries ?f\<rparr>"
  have see: "fold see_file ?f (?w1, all_vectors) =
     (w2, \<lparr>vec_new = Some (new_in ?old ?f), vec_changed = Some (changed_in ?old ?f), vec_removed = Some []\<rparr>)"
    unfolding w2_def all_vectors_def
    by (subst see_files [OF d(2) inj sub(2), where old = ?old]) (use w1 sub(2) in auto)
  have m2: "m_mapEntry w2 (hash64 n) = (case map_of ?f n of Some t \<Rightarrow> Some (Entry_ctor (n, t))
      | None \<Rightarrow> map_option (\<lambda>t. (Entry_ctor (n, t))\<lparr>bRemoved := True\<rparr>) (?old n))" if "n \<in> ?N" for n
    using entries_lookup [OF inj that sub(2)] w1 [OF that] by (auto simp: w2_def map_add_def split: option.splits)
  have dom2: "dom (m_mapEntry w2) = hash64 ` ?N"
    using w1' entries_dom [of ?f] by (auto simp: w2_def names_def image_image image_Un dom_def)
  let ?ks = "sorted_list_of_set (dom (m_mapEntry w2))"
  have ks: "set ?ks = hash64 ` ?N" "distinct ?ks" by (simp_all add: dom2)
  define g where "g = (\<lambda>h. case m_mapEntry w2 h of Some e \<Rightarrow> if bRemoved e then [ptrFile e] else [] | None \<Rightarrow> [])"
  let ?rm = "concat (map g ?ks)"
  have g: "g (hash64 n) = (if n \<in> set (names v) then [] else [n])" if nN: "n \<in> ?N" for n
  proof (cases "n \<in> set (names v)")
    case True
    then obtain t where "map_of ?f n = Some t" by (cases "map_of ?f n") (simp_all add: map_of_eq_None_iff names_def)
    then show ?thesis using m2 [OF nN] True by (simp add: g_def Entry_ctor_def)
  next
    case False
    then have "map_of ?f n = None" by (simp add: map_of_eq_None_iff names_def)
    moreover obtain t where "?old n = Some t"
      using nN False by (cases "?old n") (simp_all add: map_of_eq_None_iff names_def)
    ultimately show ?thesis using m2 [OF nN] False by (simp add: g_def Entry_ctor_def)
  qed
  have "set ?rm = (\<Union>n \<in> ?N. set (g (hash64 n)))" by (simp only: set_concat set_map ks(1) image_image)
  also have "\<dots> = (\<Union>n \<in> ?N. set (if n \<in> set (names v) then [] else [n]))"
    using g by (intro SUP_cong refl arg_cong [where f = set])
  also have "\<dots> = set (names v0) - set (names v)" by (auto split: if_splits)
  finally have rm: "set ?rm = set (names v0) - set (names v)" .
  have len: "distinct (concat (map g hs))" if "distinct hs" "set hs \<subseteq> hash64 ` ?N" for hs
    using that
  proof (induction hs)
    case (Cons h hs)
    obtain n where n: "h = hash64 n" "n \<in> ?N" using Cons.prems(2) by auto
    have "n \<notin> set (concat (map g hs))"
    proof
      assume "n \<in> set (concat (map g hs))"
      then obtain h' where h': "h' \<in> set hs" "n \<in> set (g h')" by auto
      have "h' \<in> hash64 ` ?N" by (rule subsetD [OF Cons.prems(2)]) (use h'(1) in simp)
      then obtain n' where n': "h' = hash64 n'" "n' \<in> ?N" by blast
      then have "n = n'" using h'(2) g by (auto split: if_splits)
      then show False using Cons.prems(1) h'(1) n n' by simp
    qed
    moreover have "g h = [] \<or> g h = [n]" using g [OF n(2)] by (simp add: n(1))
    ultimately show ?case using Cons by auto
  qed simp
  have e: "(\<lambda>h. if h \<in> set ?ks then (case m_mapEntry w2 h of Some e \<Rightarrow> if bRemoved e then None else Some e | None \<Rightarrow> None) else m_mapEntry w2 h) = entries ?f"
  proof
    fix h
    show "(if h \<in> set ?ks then (case m_mapEntry w2 h of Some e \<Rightarrow> if bRemoved e then None else Some e | None \<Rightarrow> None) else m_mapEntry w2 h) = entries ?f h"
    proof (cases "h \<in> hash64 ` ?N")
      case True
      then obtain n where n: "h = hash64 n" "n \<in> ?N" by blast
      then show ?thesis using m2 [OF n(2)] entries_lookup [OF inj n(2) sub(2)] ks(1) True
        by (auto simp: Entry_ctor_def split: option.splits)
    next
      case False
      then have "m_mapEntry w2 h = None" using dom2 by auto
      moreover have "dom (entries ?f) \<subseteq> hash64 ` ?N" by (auto simp: entries_dom names_def)
      then have "entries ?f h = None" using False by blast
      ultimately show ?thesis using False ks(1) by simp
    qed
  qed
  have er: "erase_removed (w2, \<lparr>vec_new = Some (new_in ?old ?f), vec_changed = Some (changed_in ?old ?f), vec_removed = Some []\<rparr>) =
      (w2\<lparr>m_mapEntry := entries ?f\<rparr>, \<lparr>vec_new = Some (new_in ?old ?f), vec_changed = Some (changed_in ?old ?f), vec_removed = Some ?rm\<rparr>)"
    unfolding erase_removed_def fst_conv erase_fold [OF ks(2)] e g_def by simp
  have "w2\<lparr>m_mapEntry := entries ?f\<rparr> = w\<lparr>m_mapEntry := entries ?f\<rparr>" by (simp add: w2_def mark_removed_def)
  moreover have "vec_changed all_vectors \<noteq> None" "vec_removed all_vectors \<noteq> None" by (simp_all add: all_vectors_def)
  ultimately have "get_changes sys v all_vectors w =
      (\<lparr>vec_new = Some (new_in ?old ?f), vec_changed = Some (changed_in ?old ?f), vec_removed = Some ?rm\<rparr>, w\<lparr>m_mapEntry := entries ?f\<rparr>)"
    using see er by (simp add: get_changes_def)
  then show ?thesis using rm len [OF ks(2)] ks(1) by blast
qed

section \<open>Properties\<close>

text \<open>A call with all vectors, on a watcher that has seen the view \<open>v0\<close>, reports exactly the files that are new, that are changed and that are gone
  in the view \<open>v\<close>, each once, and has then seen \<open>v\<close>. The hashes of the names must be different.\<close>

theorem changes_complete:
  assumes "good_views [v0, v]" and "m_mapEntry w = entries (dv_files v0)"
  shows "\<exists>rm. get_changes sys v all_vectors w =
      (\<lparr>vec_new = Some (new_in (map_of (dv_files v0)) (dv_files v)),
        vec_changed = Some (changed_in (map_of (dv_files v0)) (dv_files v)), vec_removed = Some rm\<rparr>,
       w\<lparr>m_mapEntry := entries (dv_files v)\<rparr>)
    \<and> set rm = set (names v0) - set (names v) \<and> distinct rm"
  by (rule get_changes_gen [OF assms])

definition example_views :: "dir_view list" where
  "example_views = [\<lparr>dv_now = Time_ctor, dv_mtime = 1, dv_files = [(''/d/a'', 1), (''/d/b'', 1)]\<rparr>,
     \<lparr>dv_now = Time_ctor, dv_mtime = 2, dv_files = [(''/d/b'', 5), (''/d/c'', 2)]\<rparr>]"

lemma example_hashes:
  "hash64 ''/d/a'' \<noteq> hash64 ''/d/b'' \<and> hash64 ''/d/a'' \<noteq> hash64 ''/d/c'' \<and> hash64 ''/d/b'' \<noteq> hash64 ''/d/c''"
  by code_simp

lemma example_views_good: "good_views example_views" "good_views [example_views ! 0, example_views ! 1]"
  using example_hashes by (auto simp: good_views_def example_views_def names_def inj_on_def)

theorem changes_complete_witness:
  "vec_new (fst (get_changes 0 (example_views ! 1) all_vectors (DirectoryWatcher_ctor ENUM_FIRST (example_views ! 0)))) = Some [''/d/c'']
   \<and> vec_changed (fst (get_changes 0 (example_views ! 1) all_vectors (DirectoryWatcher_ctor ENUM_FIRST (example_views ! 0)))) = Some [''/d/b'']"
proof -
  have "m_mapEntry (DirectoryWatcher_ctor ENUM_FIRST (example_views ! 0)) = entries (dv_files (example_views ! 0))"
    using example_hashes by (auto simp: DirectoryWatcher_ctor_def example_views_def fun_upd_twist)
  from changes_complete [OF example_views_good(2) this, where sys = 0] show ?thesis
    by (auto simp: example_views_def new_in_def changed_in_def)
qed

text \<open>A client that applies what it is told.\<close>

fun follow :: "int \<Rightarrow> dir_view list \<Rightarrow> string set \<times> dir_watcher \<Rightarrow> string set \<times> dir_watcher" where
  "follow sys [] s = s"
| "follow sys (v # vs) (S, w) =
     (let (r, w) = get_changes sys v all_vectors w
      in follow sys vs (S - set (the (vec_removed r)) \<union> set (the (vec_new r)), w))"

lemma good_views_two: "good_views (v0 # v # vs) \<Longrightarrow> good_views [v0, v] \<and> good_views (v # vs)"
  by (auto simp: good_views_def inj_on_def)

lemma follow_gen:
  "good_views (v0 # vs) \<Longrightarrow> m_mapEntry w = entries (dv_files v0) \<Longrightarrow>
   fst (follow sys vs (set (names v0), w)) = set (names (last (v0 # vs)))
   \<and> m_mapEntry (snd (follow sys vs (set (names v0), w))) = entries (dv_files (last (v0 # vs)))"
proof (induction vs arbitrary: v0 w)
  case Nil
  then show ?case by simp
next
  case (Cons v vs)
  note g = good_views_two [OF Cons.prems(1)]
  obtain rm where r: "get_changes sys v all_vectors w =
      (\<lparr>vec_new = Some (new_in (map_of (dv_files v0)) (dv_files v)),
        vec_changed = Some (changed_in (map_of (dv_files v0)) (dv_files v)), vec_removed = Some rm\<rparr>,
       w\<lparr>m_mapEntry := entries (dv_files v)\<rparr>)" "set rm = set (names v0) - set (names v)"
    using get_changes_gen [OF _ Cons.prems(2), of v] g by blast
  have "set (new_in (map_of (dv_files v0)) (dv_files v)) = set (names v) - set (names v0)"
    by (force simp: new_in_def names_def map_of_eq_None_iff)
  then have "set (names v0) - set rm \<union> set (new_in (map_of (dv_files v0)) (dv_files v)) = set (names v)"
    using r(2) by auto
  then have f: "follow sys (v # vs) (set (names v0), w) = follow sys vs (set (names v), w\<lparr>m_mapEntry := entries (dv_files v)\<rparr>)"
    by (simp only: follow.simps r(1) Let_def prod.case dw_vectors.simps option.sel)
  have l: "last (v0 # v # vs) = last (v # vs)" by simp
  have "m_mapEntry (w\<lparr>m_mapEntry := entries (dv_files v)\<rparr>) = entries (dv_files v)" by simp
  from Cons.IH [OF g [THEN conjunct2] this] show ?case unfolding f l .
qed

text \<open>C25: a client that starts with the files of the directory, and takes away and adds what the calls report, always has
  the files of the last view.\<close>

theorem watcher_follows:
  assumes "good_views (v0 # vs)"
  shows "fst (follow sys vs (set (names v0), DirectoryWatcher_ctor ENUM_FIRST v0)) = set (names (last (v0 # vs)))"
proof -
  have "distinct (map fst (dv_files v0))" "inj_on hash64 (set (names v0))"
    using assms by (simp_all add: good_views_def names_def inj_on_Un)
  then have "m_mapEntry (DirectoryWatcher_ctor ENUM_FIRST v0) = entries (dv_files v0)"
    using foldl_entries [of "dv_files v0" "set (names v0)" Map.empty] by (simp add: DirectoryWatcher_ctor_def names_def)
  then show ?thesis using follow_gen [OF assms] by blast
qed

theorem watcher_follows_witness:
  "fst (follow 0 [example_views ! 1] (set (names (example_views ! 0)), DirectoryWatcher_ctor ENUM_FIRST (example_views ! 0)))
     = set (names (last [example_views ! 0, example_views ! 1]))"
  by (rule watcher_follows) (rule example_views_good(2))

text \<open>What \<open>has_changed\<close> reports of a directory that does not change, when the files were enumerated first: nothing at
  first, and a change from the moment on that is a second after the first call, although there was none. It is reported again and
  again. The reason is that the time of the directory is not taken when the files are.\<close>

theorem has_changed_false_alarm:
  assumes "m_llTime (mod_time (dv_mtime v)) \<noteq> 0" and "dv_mtime v1 = dv_mtime v" and "dv_mtime v2 = dv_mtime v"
    and "rnd (double_unix sys (dv_now v2) - double_unix sys (dv_now v1)) > 1"
  shows "\<exists>w1 w2. has_changed sys v1 (DirectoryWatcher_ctor ENUM_FIRST v) = (False, w1)
    \<and> has_changed sys v2 w1 = (True, w2) \<and> has_changed sys v2 w2 = (True, w2)"
  using assms by (simp add: has_changed_def priv_has_changed_def DirectoryWatcher_ctor_def Time_ctor_def)

lemma two_seconds: "rnd (double_unix 0 (mod_time 1000000002) - double_unix 0 (mod_time 1000000000)) > 1"
proof -
  have t: "long_unix 0 (mod_time 1000000002) = 1000000002" "ms (mod_time 1000000002) = 0"
    "long_unix 0 (mod_time 1000000000) = 1000000000" "ms (mod_time 1000000000) = 0" by code_simp+
  have "double_unix 0 (mod_time 1000000002) = of_int 1000000002" "double_unix 0 (mod_time 1000000000) = of_int 1000000000"
    using rnd_int [of 0] rnd_int [of 1000000002] rnd_int [of 1000000000] by (simp_all add: double_unix_def t)
  then show ?thesis using rnd_int [of 2] by simp
qed

theorem has_changed_false_alarm_witness:
  "\<exists>w1 w2. has_changed 0 \<lparr>dv_now = mod_time 1000000000, dv_mtime = 5, dv_files = []\<rparr> (DirectoryWatcher_ctor ENUM_FIRST \<lparr>dv_now = Time_ctor, dv_mtime = 5, dv_files = []\<rparr>) = (False, w1)
    \<and> has_changed 0 \<lparr>dv_now = mod_time 1000000002, dv_mtime = 5, dv_files = []\<rparr> w1 = (True, w2)
    \<and> has_changed 0 \<lparr>dv_now = mod_time 1000000002, dv_mtime = 5, dv_files = []\<rparr> w2 = (True, w2)"
  by (rule has_changed_false_alarm) (use two_seconds in \<open>simp_all add: mod_time_def set_long_unix_def MICROSEC_PER_SEC_def SEC_PER_DAY_def JULIAN_REF_UNIX_def\<close>)

text \<open>Of two files with the same hash only the first is seen.\<close>

lemma hash_collision_hides:
  assumes "hash64 a = hash64 b" and "a \<noteq> b" and "tb = ta"
  shows "\<exists>w'. get_changes sys \<lparr>dv_now = n, dv_mtime = m, dv_files = [(a, ta), (b, tb)]\<rparr> all_vectors
      (DirectoryWatcher_ctor NO_FIRST_ENUM v) = (\<lparr>vec_new = Some [a], vec_changed = Some [], vec_removed = Some []\<rparr>, w')"
  using assms by (simp add: get_changes_def all_vectors_def see_file_def mark_removed_def DirectoryWatcher_ctor_def Let_def
      push_file_def Entry_ctor_def erase_removed_def erase_one_def)

end
