(* ===== verification/DataBuffer.thy ===== *)
theory DataBuffer
  imports "HOL-Library.Word" Transitions
begin

text \<open>
  The buffers of \<open>include/yat/memory/DataBuffer.h\<close>, \<open>.i\<close> and \<open>.tpp\<close>: \<open>Buffer\<close>, \<open>ImageBuffer\<close> and \<open>CircularBuffer\<close>
  (with the null mutex: one thread). A memory block is a list of cells; a cell that was never written is
  \<open>None\<close>. \<open>z\<close> is the element whose bytes are all zero, which \<open>memset\<close> writes, and \<open>d\<close> the element \<open>T ()\<close>. What writes or reads outside of a
  block is undefined: \<open>None\<close>. Allocation does not fail.
\<close>

section \<open>Blocks\<close>

type_synonym 'a block = "'a option list"

definition new_block :: "nat \<Rightarrow> 'a block" where
  "new_block n = replicate n None"

text \<open>\<open>memcpy (b + i, xs, ...)\<close>\<close>

definition put_at :: "'a block \<Rightarrow> nat \<Rightarrow> 'a option list \<Rightarrow> 'a block option" where
  "put_at b i xs = (if i + length xs \<le> length b then Some (take i b @ xs @ drop (i + length xs) b) else None)"

definition get_at :: "'a block \<Rightarrow> nat \<Rightarrow> nat \<Rightarrow> 'a option list option" where
  "get_at b i n = (if i + n \<le> length b then Some (take n (drop i b)) else None)"

section \<open>Buffer\<close>

text \<open>\<open>base_\<close>, \<open>capacity_\<close> and \<open>length_\<close> of the class.\<close>

record 'a buffer =
  buf_base :: "'a block"
  buf_capacity :: nat
  buf_length :: nat

definition set_capacity :: "nat \<Rightarrow> bool \<Rightarrow> 'a buffer \<Rightarrow> 'a buffer" where
  "set_capacity new_capacity keep_content b =
     (if buf_capacity b = new_capacity then (if \<not> keep_content then b\<lparr>buf_length := 0\<rparr> else b)
      else if new_capacity = 0 then b\<lparr>buf_base := [], buf_capacity := 0, buf_length := 0\<rparr>
      else
        let new_base = new_block new_capacity
        in if keep_content \<and> buf_length b \<noteq> 0 then
             let copy_length = (if buf_length b > new_capacity then new_capacity else buf_length b)
             in b\<lparr>buf_base := take copy_length (buf_base b) @ drop copy_length new_base, buf_capacity := new_capacity, buf_length := copy_length\<rparr>
           else b\<lparr>buf_base := new_base, buf_capacity := new_capacity, buf_length := 0\<rparr>)"

definition buffer_clear :: "'a \<Rightarrow> 'a buffer \<Rightarrow> 'a buffer" where
  "buffer_clear z b = b\<lparr>buf_base := replicate (buf_capacity b) (Some z)\<rparr>"

definition empty_buffer :: "'a buffer" where
  "empty_buffer = \<lparr>buf_base = [], buf_capacity = 0, buf_length = 0\<rparr>"

definition Buffer_ctor :: "'a \<Rightarrow> nat \<Rightarrow> bool \<Rightarrow> 'a buffer" where
  "Buffer_ctor z capacity clr =
     (let b = set_capacity capacity False empty_buffer in if clr then buffer_clear z b else b)"

definition Buffer_of_data :: "'a list \<Rightarrow> 'a buffer" where
  "Buffer_of_data xs =
     (let b = set_capacity (length xs) False empty_buffer in b\<lparr>buf_base := map Some xs, buf_length := length xs\<rparr>)"

definition force_length :: "nat \<Rightarrow> 'a buffer \<Rightarrow> 'a buffer" where
  "force_length n b = b\<lparr>buf_length := if n > buf_capacity b then buf_capacity b else n\<rparr>"

text \<open>The result of \<open>append\<close> is \<open>None\<close> for the exception \<open>overflow error\<close>.\<close>

definition buffer_append :: "'a \<Rightarrow> 'a buffer \<Rightarrow> 'a buffer option" where
  "buffer_append v b =
     (if buf_length b < buf_capacity b then Some (b\<lparr>buf_base := (buf_base b)[buf_length b := Some v], buf_length := buf_length b + 1\<rparr>) else None)"

definition buffer_memcpy :: "'a list \<Rightarrow> nat \<Rightarrow> 'a buffer \<Rightarrow> 'a buffer option" where
  "buffer_memcpy src offset b =
     map_option (\<lambda>m. force_length (buf_length b + length src) (b\<lparr>buf_base := m\<rparr>)) (put_at (buf_base b) offset (map Some src))"

definition buffer_get :: "nat \<Rightarrow> 'a buffer \<Rightarrow> 'a option option" where
  "buffer_get i b = (if i < length (buf_base b) then Some (buf_base b ! i) else None)"

text \<open>The assignment of another buffer.\<close>

definition assign_buffer :: "'a buffer \<Rightarrow> 'a buffer \<Rightarrow> 'a buffer option" where
  "assign_buffer src b =
     (let b = (if buf_capacity b < buf_length src then set_capacity (buf_length src) False b else b)
      in case get_at (buf_base src) 0 (buf_length src) of None \<Rightarrow> None
         | Some xs \<Rightarrow> map_option (\<lambda>m. b\<lparr>buf_base := m, buf_length := buf_length src\<rparr>) (put_at (buf_base b) 0 xs))"

definition Buffer_copy :: "'a buffer \<Rightarrow> 'a buffer option" where
  "Buffer_copy src = assign_buffer src (set_capacity (buf_capacity src) False empty_buffer)"

text \<open>A block at another address: its first \<open>capacity\<close> elements are copied.\<close>

definition assign_data :: "'a list \<Rightarrow> 'a buffer \<Rightarrow> 'a buffer option" where
  "assign_data src b =
     (if length src < buf_capacity b then None
      else map_option (\<lambda>m. b\<lparr>buf_base := m, buf_length := buf_capacity b\<rparr>) (put_at (buf_base b) 0 (map Some (take (buf_capacity b) src))))"

definition buffer_fill :: "'a \<Rightarrow> 'a buffer \<Rightarrow> 'a buffer" where
  "buffer_fill v b = b\<lparr>buf_base := replicate (buf_capacity b) (Some v), buf_length := buf_capacity b\<rparr>"

definition detach_data :: "'a buffer \<Rightarrow> ('a block \<times> nat) \<times> 'a buffer" where
  "detach_data b =
     (let b = set_capacity (buf_length b) True b
      in ((buf_base b, buf_length b), b\<lparr>buf_base := [], buf_length := 0, buf_capacity := 0\<rparr>))"

section \<open>ImageBuffer\<close>

record 'a image = "'a buffer" +
  img_width :: nat
  img_height :: nat

definition to_image :: "'a buffer \<Rightarrow> nat \<Rightarrow> nat \<Rightarrow> 'a image" where
  "to_image b w h = \<lparr>buf_base = buf_base b, buf_capacity = buf_capacity b, buf_length = buf_length b, img_width = w, img_height = h\<rparr>"

definition buffer_of :: "'a image \<Rightarrow> 'a buffer" where
  "buffer_of im = \<lparr>buf_base = buf_base im, buf_capacity = buf_capacity im, buf_length = buf_length im\<rparr>"

definition ImageBuffer_ctor :: "'a \<Rightarrow> nat \<Rightarrow> nat \<Rightarrow> 'a image" where
  "ImageBuffer_ctor z width height = to_image (force_length (width * height) (Buffer_ctor z (width * height) True)) width height"

definition ImageBuffer_of_data :: "nat \<Rightarrow> nat \<Rightarrow> 'a list \<Rightarrow> 'a image option" where
  "ImageBuffer_of_data width height xs =
     (if length xs < width * height then None
      else Some (to_image (Buffer_of_data (take (width * height) xs)) width height))"

definition set_dimensions :: "nat \<Rightarrow> nat \<Rightarrow> 'a image \<Rightarrow> 'a image" where
  "set_dimensions width height im =
     to_image (force_length (width * height) (set_capacity (width * height) False (buffer_of im))) width height"

definition assign_image :: "'a image \<Rightarrow> 'a image \<Rightarrow> 'a image option" where
  "assign_image src im =
     map_option (\<lambda>b. to_image b (img_width src) (img_height src)) (assign_buffer (buffer_of src) (buffer_of im))"

definition ImageBuffer_copy :: "'a image \<Rightarrow> 'a image option" where
  "ImageBuffer_copy src = map_option (\<lambda>b. to_image b (img_width src) (img_height src)) (Buffer_copy (buffer_of src))"

definition assign_image_data :: "'a list \<Rightarrow> 'a image \<Rightarrow> 'a image option" where
  "assign_image_data src im = map_option (\<lambda>b. to_image b (img_width im) (img_height im)) (assign_data src (buffer_of im))"

definition image_fill :: "'a \<Rightarrow> 'a image \<Rightarrow> 'a image" where
  "image_fill v im = to_image (buffer_fill v (buffer_of im)) (img_width im) (img_height im)"

text \<open>\<open>resize\<close>: a row of the new image, the rows, and the rows below the old ones.\<close>

definition resize_row :: "'a \<Rightarrow> nat \<Rightarrow> 'a image \<Rightarrow> nat \<Rightarrow> 'a block \<Rightarrow> 'a block option" where
  "resize_row d new_width im h new_base =
     (case get_at (buf_base im) (h * img_width im) (min (img_width im) new_width) of None \<Rightarrow> None
      | Some xs \<Rightarrow>
          (case put_at new_base (h * new_width) xs of None \<Rightarrow> None
           | Some new_base \<Rightarrow>
               if new_width > img_width im
               then put_at new_base (h * new_width + img_width im) (replicate (new_width - img_width im) (Some d))
               else Some new_base))"

fun resize_rows :: "'a \<Rightarrow> nat \<Rightarrow> 'a image \<Rightarrow> nat list \<Rightarrow> 'a block \<Rightarrow> 'a block option" where
  "resize_rows d new_width im [] new_base = Some new_base"
| "resize_rows d new_width im (h # hs) new_base =
     Option.bind (resize_row d new_width im h new_base) (resize_rows d new_width im hs)"

definition resize :: "'a \<Rightarrow> nat \<Rightarrow> nat \<Rightarrow> 'a image \<Rightarrow> 'a image option" where
  "resize d new_width new_height im =
     (case resize_rows d new_width im [0..<min (img_height im) new_height] (new_block (new_width * new_height)) of None \<Rightarrow> None
      | Some new_base \<Rightarrow>
          (case (if new_height > img_height im
                 then put_at new_base (img_height im * new_width) (replicate ((new_height - img_height im) * new_width) (Some d))
                 else Some new_base) of None \<Rightarrow> None
           | Some new_base \<Rightarrow>
               Some (im\<lparr>buf_base := new_base, buf_capacity := new_width * new_height, buf_length := new_width * new_height,
                        img_width := new_width, img_height := new_height\<rparr>)))"

section \<open>CircularBuffer\<close>

text \<open>The write pointer is its distance from the base of the data. \<open>num_cycles\<close> is an \<open>unsigned long\<close>.\<close>

record 'a circular =
  circ_wp :: nat
  frozen :: bool
  circ_data :: "'a buffer"
  circ_ordered :: "'a buffer"
  num_cycles :: "64 word"

datatype circular_error = PROGRAMMING_ERROR | INTERNAL_ERROR

definition CircularBuffer_null :: "'a circular" where
  "CircularBuffer_null = \<lparr>circ_wp = 0, frozen = False, circ_data = empty_buffer, circ_ordered = empty_buffer, num_cycles = 0\<rparr>"

definition circular_capacity :: "'a \<Rightarrow> nat \<Rightarrow> 'a circular \<Rightarrow> 'a circular" where
  "circular_capacity z n c =
     c\<lparr>circ_data := buffer_clear z (force_length n (set_capacity n False (circ_data c))),
       circ_wp := 0,
       circ_ordered := buffer_clear z (force_length n (set_capacity n False (circ_ordered c))),
       num_cycles := 0\<rparr>"

definition CircularBuffer_ctor :: "'a \<Rightarrow> nat \<Rightarrow> 'a circular" where
  "CircularBuffer_ctor z n = circular_capacity z n CircularBuffer_null"

definition freeze :: "'a circular \<Rightarrow> 'a circular" where "freeze c = c\<lparr>frozen := True\<rparr>"
definition unfreeze :: "'a circular \<Rightarrow> 'a circular" where "unfreeze c = c\<lparr>frozen := False\<rparr>"

definition circular_clear :: "'a \<Rightarrow> 'a circular \<Rightarrow> 'a circular" where
  "circular_clear z c =
     c\<lparr>circ_wp := 0, circ_data := buffer_clear z (circ_data c), num_cycles := 0, circ_ordered := buffer_clear z (circ_ordered c)\<rparr>"

definition circular_fill :: "'a \<Rightarrow> 'a circular \<Rightarrow> 'a circular" where
  "circular_fill v c = c\<lparr>circ_data := buffer_fill v (circ_data c)\<rparr>"

definition push :: "'a \<Rightarrow> 'a circular \<Rightarrow> circular_error + 'a circular" where
  "push v c =
     (if buf_capacity (circ_data c) = 0 then Inl PROGRAMMING_ERROR
      else if frozen c then Inr c
      else
        let c = c\<lparr>circ_data := (circ_data c)\<lparr>buf_base := (buf_base (circ_data c))[circ_wp c := Some v]\<rparr>, circ_wp := circ_wp c + 1\<rparr>
        in if circ_wp c \<ge> buf_capacity (circ_data c) then Inr (c\<lparr>num_cycles := num_cycles c + 1, circ_wp := 0\<rparr>) else Inr c)"

text \<open>The copies stay inside of the blocks as long as the length of the data is its capacity, which all operations keep.\<close>

definition ordered_data :: "'a \<Rightarrow> 'a circular \<Rightarrow> (circular_error + 'a circular) option" where
  "ordered_data z c =
     (if buf_capacity (circ_ordered c) \<noteq> buf_capacity (circ_data c) then Some (Inl INTERNAL_ERROR)
      else
        let o1 = buffer_clear z (circ_ordered c);
            newer = circ_wp c; older = buf_length (circ_data c) - newer;
            r = (if num_cycles c \<noteq> 0 then
                   (case get_at (buf_base (circ_data c)) newer older of None \<Rightarrow> None | Some xs \<Rightarrow>
                      case put_at (buf_base o1) 0 xs of None \<Rightarrow> None | Some m \<Rightarrow>
                      case get_at (buf_base (circ_data c)) 0 newer of None \<Rightarrow> None | Some ys \<Rightarrow> put_at m older ys)
                 else (case get_at (buf_base (circ_data c)) 0 (buf_length (circ_data c)) of None \<Rightarrow> None | Some xs \<Rightarrow> put_at (buf_base o1) 0 xs))
        in map_option (\<lambda>m. Inr (c\<lparr>circ_ordered := o1\<lparr>buf_base := m\<rparr>\<rparr>)) r)"

section \<open>The circular buffer is a window\<close>

text \<open>The calls of a client. What it expects to find is the list of the elements accepted since the last \<open>clear\<close>.\<close>

datatype 'a circ_op = Push 'a | Freeze | Unfreeze | Clear | Ordered

fun circ_step :: "'a \<Rightarrow> 'a circ_op \<Rightarrow> 'a circular \<Rightarrow> (circular_error + 'a circular) option" where
  "circ_step z (Push v) c = Some (push v c)"
| "circ_step z Freeze c = Some (Inr (freeze c))"
| "circ_step z Unfreeze c = Some (Inr (unfreeze c))"
| "circ_step z Clear c = Some (Inr (circular_clear z c))"
| "circ_step z Ordered c = ordered_data z c"

fun circ_run :: "'a \<Rightarrow> 'a circ_op list \<Rightarrow> 'a circular \<Rightarrow> (circular_error + 'a circular) option" where
  "circ_run z [] c = Some (Inr c)"
| "circ_run z (p # ps) c =
     (case circ_step z p c of None \<Rightarrow> None | Some (Inl e) \<Rightarrow> Some (Inl e) | Some (Inr c) \<Rightarrow> circ_run z ps c)"

fun accept :: "'a circ_op \<Rightarrow> bool \<times> 'a list \<Rightarrow> bool \<times> 'a list" where
  "accept (Push v) (fz, acc) = (fz, if fz then acc else acc @ [v])"
| "accept Freeze (fz, acc) = (True, acc)"
| "accept Unfreeze (fz, acc) = (False, acc)"
| "accept Clear (fz, acc) = (fz, [])"
| "accept Ordered (fz, acc) = (fz, acc)"

definition accepted :: "'a circ_op list \<Rightarrow> 'a list" where
  "accepted ps = snd (fold accept ps (False, []))"

text \<open>The last \<open>n\<close> elements, after \<open>n\<close> zeros, and the layout that holds them.\<close>

definition window :: "'a \<Rightarrow> nat \<Rightarrow> 'a list \<Rightarrow> 'a list" where
  "window z n acc = drop (length acc) (replicate n z @ acc)"

definition ordered_view :: "'a \<Rightarrow> nat \<Rightarrow> 'a list \<Rightarrow> 'a list" where
  "ordered_view z n acc = (if length acc < n then acc @ replicate (n - length acc) z else drop (length acc - n) acc)"

definition sized :: "nat \<Rightarrow> 'a buffer \<Rightarrow> bool" where
  "sized n b \<longleftrightarrow> length (buf_base b) = n \<and> buf_capacity b = n \<and> buf_length b = n"

definition circ_rel :: "'a \<Rightarrow> nat \<Rightarrow> bool \<times> 'a list \<Rightarrow> 'a circular \<Rightarrow> bool" where
  "circ_rel z n A c \<longleftrightarrow>
     0 < n \<and> sized n (circ_data c) \<and> sized n (circ_ordered c) \<and> frozen c = fst A \<and>
     circ_wp c = length (snd A) mod n \<and> num_cycles c = of_nat (length (snd A) div n) \<and>
     drop (circ_wp c) (buf_base (circ_data c)) @ take (circ_wp c) (buf_base (circ_data c)) = map Some (window z n (snd A))"

lemma length_window [simp]: "length (window z n acc) = n"
  by (simp add: window_def)

lemma window_snoc: "0 < n \<Longrightarrow> window z n (acc @ [v]) = drop 1 (window z n acc) @ [v]"
  by (cases "length acc < n") (auto simp: window_def Suc_diff_le)

lemma window_full: "n \<le> length acc \<Longrightarrow> window z n acc = drop (length acc - n) acc"
  by (simp add: window_def)

lemma circ_rel_push:
  assumes R: "circ_rel z n (fz, acc) c" and f: "\<not> fz"
  shows "\<exists>c'. push v c = Inr c' \<and> circ_rel z n (fz, acc @ [v]) c'"
proof -
  let ?b = "buf_base (circ_data c)" and ?r = "length acc mod n"
  have n: "0 < n" "length ?b = n" "?r < n" using R by (auto simp: circ_rel_def sized_def)
  have W: "drop ?r ?b @ take ?r ?b = map Some (window z n acc)" using R by (auto simp: circ_rel_def)
  have W': "drop (Suc ?r) ?b @ take ?r ?b @ [Some v] = map Some (window z n (acc @ [v]))"
    using arg_cong [OF W, of "drop 1"] n by (simp add: window_snoc drop_map [symmetric])
  show ?thesis
  proof (cases "Suc ?r = n")
    case True
    then have "Suc (length acc) mod n = 0" "Suc (length acc) div n = Suc (length acc div n)"
      using n by (auto simp: mod_Suc div_Suc)
    then show ?thesis using R f True W' n
      by (simp add: push_def circ_rel_def sized_def Let_def upd_conv_take_nth_drop)
  next
    case False
    then have "Suc (length acc) mod n = Suc ?r" "Suc (length acc) div n = length acc div n"
      using n by (auto simp: mod_Suc div_Suc)
    then show ?thesis using R f False W' n
      by (simp add: push_def circ_rel_def sized_def Let_def take_Suc_conv_app_nth)
  qed
qed

lemma circ_rel_clear:
  assumes R: "circ_rel z n A c"
  shows "circ_rel z n (fst A, []) (circular_clear z c)"
  using R by (auto simp: circ_rel_def sized_def circular_clear_def buffer_clear_def window_def)

lemma ordered_data_view:
  assumes R: "circ_rel z n (fz, acc) c" and q: "length acc div n < 2 ^ 64"
  shows "\<exists>c'. ordered_data z c = Some (Inr c') \<and> circ_rel z n (fz, acc) c' \<and>
              buf_base (circ_ordered c') = map Some (ordered_view z n acc)"
proof -
  let ?b = "buf_base (circ_data c)" and ?r = "length acc mod n"
  have n: "0 < n" "length ?b = n" "?r < n" using R by (auto simp: circ_rel_def sized_def)
  have W: "drop ?r ?b @ take ?r ?b = map Some (window z n acc)" using R by (auto simp: circ_rel_def)
  have nc: "num_cycles c \<noteq> 0 \<longleftrightarrow> n \<le> length acc"
  proof -
    have "(of_nat (length acc div n) :: 64 word) = 0 \<longleftrightarrow> length acc div n = 0"
      using q nat_dvd_not_less [of "length acc div n" "2 ^ 64"] by (cases "length acc div n = 0") (auto simp: word_of_nat_eq_0_iff)
    then show ?thesis using R n by (auto simp: circ_rel_def div_eq_0_iff)
  qed
  show ?thesis
  proof (cases "n \<le> length acc")
    case True
    then show ?thesis using R nc n W
      by (simp add: ordered_data_def circ_rel_def sized_def get_at_def put_at_def buffer_clear_def ordered_view_def window_full Let_def)
  next
    case False
    then have r: "?r = length acc" by simp
    have "?b = map Some (acc @ replicate (n - length acc) z)"
    proof -
      have "drop (length acc) ?b = replicate (n - length acc) (Some z) \<and> take (length acc) ?b = map Some acc"
        using W False n unfolding r by (simp add: window_def append_eq_append_conv)
      then show ?thesis using append_take_drop_id [of "length acc" ?b] by simp
    qed
    then show ?thesis using R nc n False
      by (simp add: ordered_data_def circ_rel_def sized_def get_at_def put_at_def buffer_clear_def ordered_view_def window_def Let_def)
  qed
qed

lemma circ_rel_start: "0 < n \<Longrightarrow> circ_rel z n (False, []) (CircularBuffer_ctor z n)"
  by (simp add: circ_rel_def CircularBuffer_ctor_def circular_capacity_def CircularBuffer_null_def set_capacity_def
      empty_buffer_def force_length_def buffer_clear_def sized_def window_def)

lemma circ_step_rel:
  assumes R: "circ_rel z n A c" and q: "length (snd A) div n < 2 ^ 64"
  shows "\<exists>c'. circ_step z p c = Some (Inr c') \<and> circ_rel z n (accept p A) c'"
proof -
  obtain fz acc where A: "A = (fz, acc)" by (cases A)
  show ?thesis
  proof (cases p)
    case (Push v)
    show ?thesis
    proof (cases fz)
      case True
      then have "push v c = Inr c" using R A by (auto simp: push_def circ_rel_def sized_def)
      then show ?thesis using R A True Push by simp
    next
      case False
      then show ?thesis using circ_rel_push [of z n fz acc c v] R A Push by auto
    qed
  next
    case Clear
    then show ?thesis using circ_rel_clear [OF R] A by simp
  next
    case Ordered
    then show ?thesis using ordered_data_view [of z n fz acc c] R q A by auto
  qed (use R A in \<open>auto simp: circ_rel_def freeze_def unfreeze_def\<close>)
qed

lemma length_accept: "length (snd (accept p A)) \<le> Suc (length (snd A))"
  by (cases A; cases p) auto

lemma circ_run_rel:
  "circ_rel z n A c \<Longrightarrow> length (snd A) + length ps < 2 ^ 64 \<Longrightarrow>
     \<exists>c'. circ_run z ps c = Some (Inr c') \<and> circ_rel z n (fold accept ps A) c'"
proof (induction ps arbitrary: A c)
  case Nil
  then show ?case by simp
next
  case (Cons p ps)
  have "length (snd A) div n < 2 ^ 64"
    using Cons.prems(2) div_le_dividend [of "length (snd A)" n] by (simp del: div_le_dividend)
  then obtain c' where c: "circ_step z p c = Some (Inr c')" "circ_rel z n (accept p A) c'"
    using circ_step_rel [OF Cons.prems(1)] by blast
  have "length (snd (accept p A)) + length ps < 2 ^ 64" using Cons.prems(2) length_accept [of p A] by simp
  then show ?case using Cons.IH [OF c(2)] c(1) by simp
qed

lemma length_accepted: "length (snd (fold accept ps A)) \<le> length (snd A) + length ps"
proof (induction ps arbitrary: A)
  case (Cons p ps)
  show ?case using Cons [of "accept p A"] length_accept [of p A] by (simp only: fold_Cons o_apply list.size)
qed simp

text \<open>
  C26: After any sequence of calls on a circular buffer of a positive capacity (pushes, freezes, unfreezes, clears, reads) no
  call has failed, and \<open>ordered_data\<close> gives, oldest first, the last elements accepted since the last \<open>clear\<close>: all of them
  followed by zeros while they are fewer than the capacity.
\<close>

theorem circular_is_window:
  assumes "0 < n" and "length ps < 2 ^ 64"
  shows "\<exists>c c'. circ_run z ps (CircularBuffer_ctor z n) = Some (Inr c) \<and> ordered_data z c = Some (Inr c') \<and>
                buf_base (circ_ordered c') = map Some (ordered_view z n (accepted ps))"
proof -
  obtain c where c: "circ_run z ps (CircularBuffer_ctor z n) = Some (Inr c)" "circ_rel z n (fold accept ps (False, [])) c"
    using circ_run_rel [OF circ_rel_start [OF assms(1), of z], of ps] assms(2) by auto
  have "length (snd (fold accept ps (False, []))) div n < 2 ^ 64"
    using length_accepted [of ps "(False, [])"] assms(2) div_le_dividend [of "length (snd (fold accept ps (False, [])))" n]
    by (simp del: div_le_dividend)
  then show ?thesis
    using ordered_data_view [of z n "fst (fold accept ps (False, []))" "accepted ps" c] c by (auto simp: accepted_def)
qed

theorem circular_is_window_witness:
  "\<exists>c c'. circ_run 0 [Push (1 :: nat), Push 2, Freeze, Push 3, Unfreeze, Ordered, Push 4, Push 5] (CircularBuffer_ctor 0 3) = Some (Inr c) \<and>
          ordered_data 0 c = Some (Inr c') \<and> buf_base (circ_ordered c') = map Some [2, 4, 5]"
  using circular_is_window [of 3 "[Push (1 :: nat), Push 2, Freeze, Push 3, Unfreeze, Ordered, Push 4, Push 5]" 0]
  by (simp add: accepted_def ordered_view_def)

section \<open>Images\<close>

text \<open>An image of a block that has room for it, and its elements by column and row.\<close>

definition image_ok :: "'a image \<Rightarrow> bool" where
  "image_ok im \<longleftrightarrow> length (buf_base im) = buf_capacity im \<and> buf_length im = img_width im * img_height im \<and> buf_length im \<le> buf_capacity im"

definition pixel :: "'a image \<Rightarrow> nat \<Rightarrow> nat \<Rightarrow> 'a option" where
  "pixel im x y = buf_base im ! (y * img_width im + x)"

lemma put_at_Some: "i + length xs \<le> length b \<Longrightarrow> put_at b i xs = Some (take i b @ xs @ drop (i + length xs) b)"
  by (simp add: put_at_def)

lemma put_at_nth:
  "put_at b i xs = Some b' \<Longrightarrow> length b' = length b \<and> (\<forall>k < length b. b' ! k = (if i \<le> k \<and> k < i + length xs then xs ! (k - i) else b ! k))"
  by (auto simp: put_at_def nth_append min_def split: if_splits)

lemma row_fits: "h < H \<Longrightarrow> h * w + w \<le> H * (w :: nat)"
proof -
  assume "h < H"
  then have "Suc h * w \<le> H * w" by (intro mult_right_mono) auto
  then show ?thesis by simp
qed

text \<open>The rows of the new image, as values.\<close>

definition new_row :: "'a \<Rightarrow> nat \<Rightarrow> 'a image \<Rightarrow> nat \<Rightarrow> 'a option list" where
  "new_row d nw im h = take (min (img_width im) nw) (drop (h * img_width im) (buf_base im)) @ replicate (nw - img_width im) (Some d)"

lemma length_new_row:
  assumes "image_ok im" "h < img_height im"
  shows "length (new_row d nw im h) = nw"
  using row_fits [OF assms(2), of "img_width im"] assms(1) by (auto simp: new_row_def image_ok_def mult.commute)

lemma resize_row_eq:
  assumes "image_ok im" "h < img_height im" "h * nw + nw \<le> length b"
  shows "resize_row d nw im h b = Some (take (h * nw) b @ new_row d nw im h @ drop (h * nw + nw) b)"
proof -
  let ?w = "img_width im"
  have g: "h * ?w + min ?w nw \<le> length (buf_base im)"
    using row_fits [OF assms(2), of ?w] assms(1) by (auto simp: image_ok_def mult.commute)
  define xs where "xs = take (min ?w nw) (drop (h * ?w) (buf_base im))"
  have l: "length xs = min ?w nw" using g by (simp add: xs_def)
  have "get_at (buf_base im) (h * ?w) (min ?w nw) = Some xs" using g by (simp add: get_at_def xs_def)
  moreover have "new_row d nw im h = xs @ replicate (nw - ?w) (Some d)" by (simp add: new_row_def xs_def)
  ultimately show ?thesis using l assms(3)
    by (cases "?w < nw") (simp_all add: resize_row_def put_at_def add.commute add.left_commute)
qed

lemma resize_rows_eq:
  assumes ok: "image_ok im" and m: "m \<le> img_height im" and len: "m * nw \<le> length b"
  shows "resize_rows d nw im [0..<m] b = Some (concat (map (new_row d nw im) [0..<m]) @ drop (m * nw) b)"
proof -
  have len_c: "k \<le> m \<Longrightarrow> length (concat (map (new_row d nw im) [0..<k])) = k * nw" for k
    by (induction k) (use length_new_row [OF ok] m in auto)
  have "k \<le> m \<Longrightarrow> resize_rows d nw im [k..<m] (concat (map (new_row d nw im) [0..<k]) @ drop (k * nw) b)
          = Some (concat (map (new_row d nw im) [0..<m]) @ drop (m * nw) b)" for k
  proof (induction "m - k" arbitrary: k)
    case 0
    then show ?case by simp
  next
    case (Suc j)
    then have k: "k < m" "j = m - Suc k" by auto
    let ?c = "concat (map (new_row d nw im) [0..<k])"
    have lc: "length ?c = k * nw" using len_c [of k] k by simp
    have "k * nw + nw \<le> length b" using row_fits [OF k(1), of nw] len by simp
    then have "resize_row d nw im k (?c @ drop (k * nw) b) = Some ((?c @ new_row d nw im k) @ drop (Suc k * nw) b)"
      using resize_row_eq [OF ok, of k nw "?c @ drop (k * nw) b" d] k m lc by (simp add: add.commute)
    then show ?case using Suc.hyps(1) [of "Suc k"] k by (simp add: upt_conv_Cons)
  qed
  from this [of 0] show ?thesis by simp
qed

lemma concat_rows_nth:
  "\<lbrakk>\<forall>h < m. length (f h) = nw; y < m; x < nw\<rbrakk> \<Longrightarrow> (concat (map f [0..<m]) @ zs) ! (y * nw + x) = f y ! x"
proof (induction m arbitrary: zs)
  case (Suc m)
  have l: "length (concat (map f [0..<m])) = m * nw" using Suc.prems(1) by (induction m) auto
  show ?case
  proof (cases "y < m")
    case True
    then show ?thesis using Suc.IH [of "f m @ zs"] Suc.prems by simp
  next
    case False
    then have "y = m" using Suc.prems by simp
    then show ?thesis using Suc.prems l by (simp add: nth_append)
  qed
qed simp

lemma resize_base:
  assumes ok: "image_ok im"
  shows "\<exists>zs. resize d nw nh im = Some (im\<lparr>buf_base := concat (map (new_row d nw im) [0..<min (img_height im) nh]) @ zs,
                 buf_capacity := nw * nh, buf_length := nw * nh, img_width := nw, img_height := nh\<rparr>) \<and>
             zs = replicate ((nh - img_height im) * nw) (Some d)"
proof -
  let ?m = "min (img_height im) nh" and ?c = "concat (map (new_row d nw im) [0..<min (img_height im) nh])"
  have m: "?m \<le> img_height im" "?m * nw \<le> nw * nh" by (simp_all add: mult.commute)
  have R: "resize_rows d nw im [0..<?m] (new_block (nw * nh)) = Some (?c @ drop (?m * nw) (new_block (nw * nh)))"
    by (rule resize_rows_eq [OF ok m(1)]) (simp add: new_block_def m(2))
  have l: "k \<le> img_height im \<Longrightarrow> length (concat (map (new_row d nw im) [0..<k])) = k * nw" for k
    by (induction k) (use length_new_row [OF ok] in auto)
  show ?thesis
  proof (cases "img_height im < nh")
    case True
    then have "?m = img_height im" and e: "nw * nh - img_height im * nw = (nh - img_height im) * nw"
      by (simp_all add: diff_mult_distrib diff_mult_distrib2 mult.commute)
    moreover have "img_height im * nw + (nh - img_height im) * nw = nw * nh"
      using True by (metis add_diff_inverse_nat distrib_right mult.commute not_less_iff_gr_or_eq)
    ultimately show ?thesis using R True l [of "img_height im"]
      by (simp add: resize_def put_at_def new_block_def del: upt_Suc)
  next
    case False
    then have "?m = nh" by simp
    then show ?thesis using R False by (simp add: resize_def new_block_def mult.commute)
  qed
qed

text \<open>
  \<open>resize\<close> of an image gives an image of the new dimensions that is well formed; an element that lies in both the old
  and the new frame keeps its value, and every other one is \<open>T ()\<close>.
\<close>

theorem resize_keeps_common:
  assumes "image_ok im"
  shows "\<exists>im'. resize d nw nh im = Some im' \<and> image_ok im' \<and> img_width im' = nw \<and> img_height im' = nh \<and>
               (\<forall>x y. x < nw \<and> y < nh \<longrightarrow>
                  pixel im' x y = (if x < img_width im \<and> y < img_height im then pixel im x y else Some d))"
proof -
  let ?m = "min (img_height im) nh"
  define zs where "zs = replicate ((nh - img_height im) * nw) (Some d)"
  define B where "B = concat (map (new_row d nw im) [0..<?m]) @ zs"
  define im' where "im' = im\<lparr>buf_base := B, buf_capacity := nw * nh, buf_length := nw * nh, img_width := nw, img_height := nh\<rparr>"
  have R: "resize d nw nh im = Some im'" using resize_base [OF assms] by (simp add: im'_def B_def zs_def)
  have rows: "\<forall>h < ?m. length (new_row d nw im h) = nw" using length_new_row [OF assms] by simp
  have l: "k \<le> ?m \<Longrightarrow> length (concat (map (new_row d nw im) [0..<k])) = k * nw" for k
    by (induction k) (use rows in auto)
  have lB: "length B = nw * nh"
  proof -
    have "?m + (nh - img_height im) = nh" by simp
    then show ?thesis by (simp only: B_def zs_def length_append l [OF order_refl] length_replicate) (metis distrib_right mult.commute)
  qed
  have "pixel im' x y = (if x < img_width im \<and> y < img_height im then pixel im x y else Some d)" if x: "x < nw" and y: "y < nh" for x y
  proof (cases "y < img_height im")
    case True
    then have "B ! (y * nw + x) = new_row d nw im y ! x" using concat_rows_nth [OF rows] x y by (simp add: B_def)
    moreover have "y * img_width im + img_width im \<le> length (buf_base im)"
      using row_fits [OF True, of "img_width im"] assms by (auto simp: image_ok_def mult.commute)
    ultimately show ?thesis using x True by (auto simp: pixel_def im'_def new_row_def nth_append)
  next
    case False
    then have "?m = img_height im" using y by simp
    then have "length (concat (map (new_row d nw im) [0..<?m])) \<le> y * nw" using l [OF order_refl] False by simp
    moreover have "y * nw + x < nw * nh" using row_fits [OF y, of nw] x by (simp add: mult.commute)
    ultimately have "B ! (y * nw + x) = zs ! (y * nw + x - length (concat (map (new_row d nw im) [0..<?m])))"
      and "y * nw + x - length (concat (map (new_row d nw im) [0..<?m])) < length zs"
      using lB unfolding B_def length_append by (auto simp only: nth_append split: if_splits)
    then have "B ! (y * nw + x) = Some d" by (metis length_replicate nth_replicate zs_def)
    then show ?thesis using False by (simp add: pixel_def im'_def)
  qed
  moreover have "image_ok im'" using lB by (simp add: image_ok_def im'_def)
  ultimately show ?thesis using R by (intro exI [of _ im']) (auto simp: im'_def)
qed

theorem resize_keeps_common_witness:
  "\<exists>im'. resize (9 :: nat) 3 1 \<lparr>buf_base = map Some [1, 2, 3, 4], buf_capacity = 4, buf_length = 4, img_width = 2, img_height = 2\<rparr> = Some im' \<and>
          pixel im' 1 0 = Some 2 \<and> pixel im' 2 0 = Some 9"
proof -
  let ?im = "\<lparr>buf_base = map Some [1 :: nat, 2, 3, 4], buf_capacity = 4, buf_length = 4, img_width = 2, img_height = 2\<rparr>"
  have "image_ok ?im" by (simp add: image_ok_def)
  from resize_keeps_common [OF this, of 9 3 1] obtain im' where
    R: "resize 9 3 1 ?im = Some im'"
       "\<forall>x y. x < 3 \<and> y < 1 \<longrightarrow> pixel im' x y = (if x < img_width ?im \<and> y < img_height ?im then pixel ?im x y else Some 9)"
    by blast
  have "pixel im' 1 0 = Some 2" "pixel im' 2 0 = Some 9"
    using R(2) [rule_format, of 1 0] R(2) [rule_format, of 2 0] by (simp_all add: pixel_def)
  then show ?thesis using R(1) by blast
qed

section \<open>What a buffer holds\<close>

definition buffer_ok :: "'a buffer \<Rightarrow> bool" where
  "buffer_ok b \<longleftrightarrow> length (buf_base b) = buf_capacity b \<and> buf_length b \<le> buf_capacity b"

definition contents :: "'a buffer \<Rightarrow> 'a block" where
  "contents b = take (buf_length b) (buf_base b)"

datatype 'a buf_op = Append 'a | Memcpy "'a list" nat | Force_length nat | Set_capacity nat bool | Buf_clear | Buf_fill 'a
  | Assign_data "'a list" | Assign "'a buffer" | Detach

fun buf_step :: "'a \<Rightarrow> 'a buf_op \<Rightarrow> 'a buffer \<Rightarrow> 'a buffer option" where
  "buf_step z (Append v) b = (case buffer_append v b of None \<Rightarrow> Some b | Some b' \<Rightarrow> Some b')"
| "buf_step z (Memcpy xs i) b = buffer_memcpy xs i b"
| "buf_step z (Force_length n) b = Some (force_length n b)"
| "buf_step z (Set_capacity n keep) b = Some (set_capacity n keep b)"
| "buf_step z Buf_clear b = Some (buffer_clear z b)"
| "buf_step z (Buf_fill v) b = Some (buffer_fill v b)"
| "buf_step z (Assign_data xs) b = assign_data xs b"
| "buf_step z (Assign src) b = assign_buffer src b"
| "buf_step z Detach b = Some (snd (detach_data b))"

lemma set_capacity_ok: "buffer_ok b \<Longrightarrow> buffer_ok (set_capacity n keep b)"
  by (auto simp: buffer_ok_def set_capacity_def new_block_def Let_def)

lemma put_at_length: "put_at b i xs = Some b' \<Longrightarrow> length b' = length b"
  by (auto simp: put_at_def split: if_splits)

lemma set_capacity_capacity [simp]: "buf_capacity (set_capacity n keep b) = n"
  by (auto simp: set_capacity_def Let_def)

lemma force_length_ok: "length (buf_base b) = buf_capacity b \<Longrightarrow> buffer_ok (force_length n b)"
  by (simp add: buffer_ok_def force_length_def)

lemma assign_buffer_ok:
  assumes "buffer_ok b" "assign_buffer src b = Some b'"
  shows "buffer_ok b'"
proof -
  let ?b = "if buf_capacity b < buf_length src then set_capacity (buf_length src) False b else b"
  have "buffer_ok ?b" "buf_length src \<le> buf_capacity ?b" using assms(1) set_capacity_ok by auto
  then show ?thesis using assms(2)
    by (auto simp: assign_buffer_def Let_def buffer_ok_def dest: put_at_length split: option.splits simp del: if_split)
qed

lemma buf_step_ok:
  assumes "buffer_ok b" "buf_step z p b = Some b'"
  shows "buffer_ok b'"
proof (cases p)
  case (Memcpy xs i)
  then obtain m where "put_at (buf_base b) i (map Some xs) = Some m" "b' = force_length (buf_length b + length xs) (b\<lparr>buf_base := m\<rparr>)"
    using assms(2) by (auto simp: buffer_memcpy_def)
  then show ?thesis using assms(1) put_at_length [of "buf_base b" i "map Some xs" m]
    force_length_ok [of "b\<lparr>buf_base := m\<rparr>" "buf_length b + length xs"] by (simp add: buffer_ok_def)
next
  case (Set_capacity n keep)
  then show ?thesis using assms set_capacity_ok by auto
next
  case (Assign src)
  then show ?thesis using assms assign_buffer_ok by auto
next
  case (Force_length n)
  then show ?thesis using assms force_length_ok by (auto simp: buffer_ok_def)
qed (use assms in \<open>auto simp: buffer_ok_def buffer_append_def buffer_clear_def buffer_fill_def
      assign_data_def detach_data_def Let_def dest: put_at_length split: if_splits\<close>)

interpretation buf: invariant_of "buf_step z" buffer_ok
  by unfold_locales (rule buf_step_ok)

text \<open>
  C32: Whatever a client does with a buffer inside of the memory it owns, the length never exceeds the capacity and the
  capacity is the size of the allocated block, so that the elements below the length can be read.
\<close>

theorem buffer_in_bounds:
  assumes "runs (buf_step z) ps (Buffer_ctor z n clr) = Some b"
  shows "buf_length b \<le> buf_capacity b \<and> length (buf_base b) = buf_capacity b \<and> (i < buf_length b \<longrightarrow> buffer_get i b = Some (contents b ! i))"
proof -
  have "buffer_ok (Buffer_ctor z n clr)"
    by (auto simp: Buffer_ctor_def buffer_ok_def empty_buffer_def set_capacity_def new_block_def buffer_clear_def Let_def)
  from buf.always_after [OF this assms] show ?thesis by (auto simp: buffer_ok_def buffer_get_def contents_def)
qed

theorem buffer_in_bounds_witness:
  "buf_length \<lparr>buf_base = [Some (1 :: nat), Some 0], buf_capacity = 2, buf_length = 1\<rparr> \<le> 2"
proof -
  have "runs (buf_step 0) [Append 1] (Buffer_ctor 0 2 True) = Some \<lparr>buf_base = [Some (1 :: nat), Some 0], buf_capacity = 2, buf_length = 1\<rparr>"
    by (simp add: Buffer_ctor_def empty_buffer_def set_capacity_def new_block_def buffer_clear_def buffer_append_def Let_def numeral_2_eq_2)
  from buffer_in_bounds [OF this] show ?thesis by simp
qed

lemma contents_set_capacity: "buffer_ok b \<Longrightarrow> contents (set_capacity n True b) = take n (contents b)"
  by (auto simp: buffer_ok_def set_capacity_def contents_def new_block_def Let_def min_def)

lemma contents_assign:
  assumes "buffer_ok b" and "buffer_ok src"
  shows "map_option contents (assign_buffer src b) = Some (contents src)"
proof -
  let ?b = "if buf_capacity b < buf_length src then set_capacity (buf_length src) False b else b"
  have "buffer_ok ?b" "buf_length src \<le> buf_capacity ?b" using assms(1) set_capacity_ok by auto
  then have "length (take (buf_length src) (buf_base src)) \<le> length (buf_base ?b)" by (simp add: buffer_ok_def)
  then have "put_at (buf_base ?b) 0 (take (buf_length src) (buf_base src)) =
      Some (take (buf_length src) (buf_base src) @ drop (buf_length src) (buf_base ?b))"
    using assms(2) by (simp add: put_at_def buffer_ok_def)
  then show ?thesis using assms(2)
    by (simp add: assign_buffer_def get_at_def buffer_ok_def contents_def Let_def del: if_split)
qed

lemma detach_contents: "buffer_ok b \<Longrightarrow> detach_data b = ((contents b, buf_length b), empty_buffer)"
  by (auto simp: detach_data_def set_capacity_def buffer_ok_def contents_def empty_buffer_def new_block_def Let_def)

text \<open>
  What the operations do with the contents of a well formed buffer: \<open>append\<close> adds the element at the end and fails on a full
  buffer; a change of the capacity keeps the prefix that fits; a copy has the contents of its source; \<open>memcpy\<close> at the end
  of the contents appends the block if it fits; \<open>detach_data\<close> gives exactly the contents and leaves an empty buffer.
\<close>

theorem buffer_contents:
  assumes "buffer_ok b" and "buffer_ok src"
  shows "map_option contents (buffer_append v b) = (if buf_length b < buf_capacity b then Some (contents b @ [Some v]) else None) \<and>
         contents (set_capacity n True b) = take n (contents b) \<and>
         map_option contents (assign_buffer src b) = Some (contents src) \<and>
         map_option contents (buffer_memcpy xs (buf_length b) b) =
           (if buf_length b + length xs \<le> buf_capacity b then Some (contents b @ map Some xs) else None) \<and>
         detach_data b = ((contents b, buf_length b), empty_buffer)"
proof (intro conjI)
  note ok = assms [unfolded buffer_ok_def]
  show "map_option contents (buffer_append v b) = (if buf_length b < buf_capacity b then Some (contents b @ [Some v]) else None)"
    using ok by (simp add: buffer_append_def contents_def take_Suc_conv_app_nth)
  show "contents (set_capacity n True b) = take n (contents b)" by (rule contents_set_capacity [OF assms(1)])
  show "map_option contents (assign_buffer src b) = Some (contents src)" by (rule contents_assign [OF assms])
  show "map_option contents (buffer_memcpy xs (buf_length b) b) =
          (if buf_length b + length xs \<le> buf_capacity b then Some (contents b @ map Some xs) else None)"
    using ok by (simp add: buffer_memcpy_def put_at_def force_length_def contents_def)
  show "detach_data b = ((contents b, buf_length b), empty_buffer)" by (rule detach_contents [OF assms(1)])
qed

theorem buffer_contents_witness:
  "map_option contents (buffer_append (5 :: nat) (Buffer_of_data [1, 2])) = None \<and>
   map_option contents (assign_buffer (Buffer_of_data [7, 8, 9]) (Buffer_of_data [1, 2 :: nat])) = Some [Some 7, Some 8, Some 9]"
proof -
  let ?b = "Buffer_of_data [1, 2 :: nat]" and ?s = "Buffer_of_data [7, 8, 9 :: nat]"
  have "buffer_ok ?b" "buffer_ok ?s"
    by (simp_all add: Buffer_of_data_def buffer_ok_def set_capacity_def empty_buffer_def)
  from buffer_contents [OF this, of 5 0 "[]"] show ?thesis
    by (simp add: Buffer_of_data_def set_capacity_def empty_buffer_def contents_def)
qed

section \<open>Where the buffers go wrong\<close>

text \<open>
  Behaviour of the buffers a client has to know: \<open>memcpy\<close> adds the number of elements to the length although
  they overwrite elements that are already counted, so that elements become readable that were never written; it does not
  check its bounds; \<open>push\<close> on a circular buffer of no capacity is an error; and \<open>fill\<close> leaves the write pointer
  alone, so that what is pushed afterwards is not the last element of \<open>ordered_data\<close>.
\<close>

theorem buffer_limits:
  "map_option contents (buffer_memcpy [7, 8] 0 (force_length 2 (Buffer_ctor (0 :: nat) 4 False))) = Some [Some 7, Some 8, None, None] \<and>
   buffer_memcpy [7, 8, 9 :: nat] 0 (Buffer_ctor 0 2 True) = None \<and>
   push 1 (CircularBuffer_null :: nat circular) = Inl PROGRAMMING_ERROR \<and>
   map_option (map_sum id (\<lambda>c. buf_base (circ_ordered c)))
     (case push 1 (circular_fill 7 (CircularBuffer_ctor 0 3)) of Inl e \<Rightarrow> None | Inr c \<Rightarrow> ordered_data 0 c) = Some (Inr [Some (1 :: nat), Some 7, Some 7])"
  by (simp add: buffer_memcpy_def put_at_def get_at_def force_length_def Buffer_ctor_def set_capacity_def empty_buffer_def new_block_def
      buffer_clear_def contents_def push_def CircularBuffer_null_def CircularBuffer_ctor_def circular_capacity_def circular_fill_def
      buffer_fill_def ordered_data_def numeral_eq_Suc Let_def)

end
