(* ===== verification/Dictionary.thy ===== *)
theory Dictionary
  imports StringMatch StringToken "HOL-Library.List_Lexorder" "HOL-Library.Char_ord"
begin

text \<open>
  \<open>Optional\<close> (\<open>include/yat/utils/Optional.h\<close>), \<open>Dictionary\<close> and \<open>StringDictionary\<close>
  (\<open>include/yat/utils/Dictionary.h\<close>). The \<open>std::map\<close> of a dictionary is the list of its pairs, in the order of the
  keys, which is the order of the strings as unsigned characters. \<open>string_map\<close> is its contract. An exception is
  \<open>Inl\<close> with its reason. \<open>d\<close> is the value \<open>T ()\<close>.
\<close>

section \<open>Optional\<close>

record 'a optional =
  opt_value :: 'a
  opt_set :: bool

datatype dict_error = NO_VALUE | DICT_NO_DATA string

definition Optional_ctor :: "'a \<Rightarrow> 'a optional" where
  "Optional_ctor d = \<lparr>opt_value = d, opt_set = False\<rparr>"

definition Optional_of :: "'a \<Rightarrow> 'a optional" where
  "Optional_of v = \<lparr>opt_value = v, opt_set = True\<rparr>"

definition Optional_conv :: "('a \<Rightarrow> 'b) \<Rightarrow> 'a optional \<Rightarrow> 'b optional" where
  "Optional_conv f opt = \<lparr>opt_value = f (opt_value opt), opt_set = opt_set opt\<rparr>"

definition opt_get :: "'a optional \<Rightarrow> dict_error + 'a" where
  "opt_get x = (if \<not> opt_set x then Inl NO_VALUE else Inr (opt_value x))"

definition value_or :: "'a optional \<Rightarrow> 'a \<Rightarrow> 'a" where
  "value_or x v = (if opt_set x then opt_value x else v)"

definition set_default :: "'a \<Rightarrow> 'a optional \<Rightarrow> 'a optional" where
  "set_default v x = (if \<not> opt_set x then Optional_of v else x)"

section \<open>Dictionary\<close>

type_synonym 'v dictionary = "(string \<times> 'v) list"

fun dict_find :: "'v dictionary \<Rightarrow> string \<Rightarrow> 'v option" where
  "dict_find [] k = None"
| "dict_find ((j, v) # m) k = (if j = k then Some v else dict_find m k)"

text \<open>The assignment \<open>m_map[k] = v\<close>.\<close>

fun dict_put :: "string \<Rightarrow> 'v \<Rightarrow> 'v dictionary \<Rightarrow> 'v dictionary" where
  "dict_put k v [] = [(k, v)]"
| "dict_put k v ((j, u) # m) =
     (if k < j then (k, v) # (j, u) # m else if j = k then (k, v) # m else (j, u) # dict_put k v m)"

fun dict_del :: "string \<Rightarrow> 'v dictionary \<Rightarrow> 'v dictionary" where
  "dict_del k [] = []"
| "dict_del k ((j, u) # m) = (if j = k then m else (j, u) # dict_del k m)"

text \<open>\<open>operator[]\<close> gives the value of the key, which it adds when it is missing.\<close>

definition dict_ref :: "'v \<Rightarrow> string \<Rightarrow> 'v dictionary \<Rightarrow> 'v \<times> 'v dictionary" where
  "dict_ref d key m = (case dict_find m key of Some v \<Rightarrow> (v, m) | None \<Rightarrow> (d, dict_put key d m))"

definition dict_insert :: "string \<times> 'v \<Rightarrow> 'v dictionary \<Rightarrow> bool \<times> 'v dictionary" where
  "dict_insert p m = (case dict_find m (fst p) of Some v \<Rightarrow> (False, m) | None \<Rightarrow> (True, dict_put (fst p) (snd p) m))"

definition dict_count :: "string \<Rightarrow> 'v dictionary \<Rightarrow> nat" where
  "dict_count key m = (case dict_find m key of Some v \<Rightarrow> 1 | None \<Rightarrow> 0)"

definition dict_erase :: "string \<Rightarrow> 'v dictionary \<Rightarrow> nat \<times> 'v dictionary" where
  "dict_erase key m = (dict_count key m, dict_del key m)"

text \<open>The erasure at an iterator, and of a range, by their positions.\<close>

definition dict_erase_at :: "nat \<Rightarrow> 'v dictionary \<Rightarrow> 'v dictionary" where
  "dict_erase_at i m = take i m @ drop (Suc i) m"

definition dict_erase_range :: "nat \<Rightarrow> nat \<Rightarrow> 'v dictionary \<Rightarrow> 'v dictionary" where
  "dict_erase_range i j m = take i m @ drop j m"

definition dict_at :: "'v dictionary \<Rightarrow> string \<Rightarrow> dict_error + 'v" where
  "dict_at m key = (case dict_find m key of Some v \<Rightarrow> Inr v | None \<Rightarrow> Inl (DICT_NO_DATA (''No such key: '' @ key)))"

definition dict_get :: "'v \<Rightarrow> 'v dictionary \<Rightarrow> string \<Rightarrow> 'v optional" where
  "dict_get d m key = (case dict_find m key of Some v \<Rightarrow> Optional_of v | None \<Rightarrow> Optional_ctor d)"

section \<open>StringDictionary\<close>

definition parse_pair :: "string \<Rightarrow> char \<Rightarrow> bool \<Rightarrow> string \<times> string" where
  "parse_pair s sep key_lowercase =
     (let (k, v) = split_last_const s sep [] [] False;
          v = trim v;
          k = trim k;
          k = (if key_lowercase then to_lower k else k)
      in (k, v))"

fun from_vector :: "string list \<Rightarrow> char \<Rightarrow> bool \<Rightarrow> string dictionary \<Rightarrow> string dictionary" where
  "from_vector [] sep key_lowercase m = m"
| "from_vector (s # vec) sep key_lowercase m =
     (let (k, v) = parse_pair s sep key_lowercase in from_vector vec sep key_lowercase (dict_put k v m))"

definition dict_from_string :: "string \<Rightarrow> char \<Rightarrow> char \<Rightarrow> bool \<Rightarrow> string dictionary \<Rightarrow> string dictionary" where
  "dict_from_string s sep_pair sep_key key_lowercase m =
     from_vector (split_collection s sep_pair [] True) sep_key key_lowercase m"

definition StringDictionary_of_vector :: "string list \<Rightarrow> char \<Rightarrow> string dictionary" where
  "StringDictionary_of_vector vec sep = from_vector vec sep False []"

definition StringDictionary_of_string :: "string \<Rightarrow> char \<Rightarrow> char \<Rightarrow> string dictionary" where
  "StringDictionary_of_string s sep_pair sep_key = dict_from_string s sep_pair sep_key False []"

definition to_vector :: "string dictionary \<Rightarrow> char \<Rightarrow> string list" where
  "to_vector m sep_key = map (\<lambda>(k, v). k @ sep_key # v) m"

fun to_string_loop :: "string dictionary \<Rightarrow> bool \<Rightarrow> char \<Rightarrow> char \<Rightarrow> string \<Rightarrow> string" where
  "to_string_loop [] at_begin sep_pair sep_key oss = oss"
| "to_string_loop ((k, v) # m) at_begin sep_pair sep_key oss =
     (let oss = (if \<not> at_begin then oss @ [sep_pair] else oss)
      in to_string_loop m False sep_pair sep_key (oss @ k @ sep_key # v))"

definition dict_to_string :: "string dictionary \<Rightarrow> char \<Rightarrow> char \<Rightarrow> string" where
  "dict_to_string m sep_pair sep_key = to_string_loop m True sep_pair sep_key []"

definition get_bool :: "string dictionary \<Rightarrow> string \<Rightarrow> bool optional" where
  "get_bool m key =
     (case dict_find m key of
        Some s \<Rightarrow>
          (if is_equal_no_case s ''true'' \<or> is_equal s ''1'' then Optional_of True
           else if is_equal_no_case s ''false'' \<or> is_equal s ''0'' then Optional_of False
           else Optional_ctor False)
      | None \<Rightarrow> Optional_ctor False)"

section \<open>The contract of the map\<close>

lemma pairs_by_keys: "distinct (map fst xs) \<Longrightarrow> map (\<lambda>k. (k, the (map_of xs k))) (map fst xs) = xs"
  by (simp add: comp_def) (intro map_idI, auto simp: map_of_is_SomeI)

lemma sorted_pairs_eq:
  fixes xs ys :: "('k::linorder \<times> 'v) list"
  assumes "sorted_wrt (<) (map fst xs)" "sorted_wrt (<) (map fst ys)" "map_of xs = map_of ys"
  shows "xs = ys"
proof -
  have d: "distinct (map fst xs)" "distinct (map fst ys)" using assms(1,2) by (simp_all add: strict_sorted_iff)
  then have "set xs = set ys" using assms(3) map_of_inject_set by blast
  then have "map fst xs = map fst ys" using assms(1,2) by (intro strict_sorted_equal) simp_all
  then show ?thesis using pairs_by_keys [OF d(1)] pairs_by_keys [OF d(2)] assms(3) by simp
qed

locale string_map =
  fixes find :: "'m \<Rightarrow> string \<Rightarrow> 'v option"
    and put :: "string \<Rightarrow> 'v \<Rightarrow> 'm \<Rightarrow> 'm"
    and del :: "string \<Rightarrow> 'm \<Rightarrow> 'm"
    and none :: 'm
    and pairs :: "'m \<Rightarrow> (string \<times> 'v) list"
    and ok :: "'m \<Rightarrow> bool"
  assumes ok_none: "ok none"
    and ok_put: "ok m \<Longrightarrow> ok (put k v m)"
    and ok_del: "ok m \<Longrightarrow> ok (del k m)"
    and find_none: "find none k = None"
    and find_put: "ok m \<Longrightarrow> find (put k v m) = (find m)(k \<mapsto> v)"
    and find_del: "ok m \<Longrightarrow> find (del k m) = (find m)(k := None)"
    and pairs_find: "ok m \<Longrightarrow> map_of (pairs m) = find m"
    and pairs_sorted: "ok m \<Longrightarrow> sorted_wrt (<) (map fst (pairs m))"
    and pairs_eq: "ok m \<Longrightarrow> ok n \<Longrightarrow> pairs m = pairs n \<Longrightarrow> m = n"
begin

lemma distinct_pairs: "ok m \<Longrightarrow> distinct (map fst (pairs m))"
  using pairs_sorted [of m] by (simp add: strict_sorted_iff)

lemma eq_by_find:
  assumes "ok m" "ok n" "find m = find n"
  shows "m = n"
  using assms by (intro pairs_eq sorted_pairs_eq) (simp_all add: pairs_sorted pairs_find)

lemma find_fold: "ok m \<Longrightarrow> ok (fold (\<lambda>(k, v). put k v) ps m) \<and> find (fold (\<lambda>(k, v). put k v) ps m) = find m ++ map_of (rev ps)"
  by (induction ps arbitrary: m) (auto simp: ok_put find_put split: prod.splits)

lemma rebuild: "ok m \<Longrightarrow> fold (\<lambda>(k, v). put k v) (pairs m) none = m"
proof -
  assume m: "ok m"
  have "map_of (rev (pairs m)) = map_of (pairs m)"
    using distinct_pairs [OF m] map_of_inject_set [of "rev (pairs m)" "pairs m"] by (simp add: rev_map [symmetric])
  then show ?thesis using find_fold [OF ok_none, of "pairs m"] pairs_find [OF m] find_none
    by (intro eq_by_find) (auto simp: m fun_eq_iff map_add_def split: option.splits)
qed

end

section \<open>The dictionary is such a map\<close>

definition dict_ok :: "'v dictionary \<Rightarrow> bool" where
  "dict_ok m \<longleftrightarrow> sorted_wrt (<) (map fst m)"

lemma dict_find_at: "dict_find m k = map_of m k"
  by (induction m k rule: dict_find.induct) auto

lemma dict_find_eq: "dict_find m = map_of m"
  by (rule ext) (rule dict_find_at)

lemma keys_dict_put: "fst ` set (dict_put k v m) = insert k (fst ` set m)"
  by (induction k v m rule: dict_put.induct) auto

lemma keys_dict_del: "set (dict_del k m) \<subseteq> set m"
  by (induction k m rule: dict_del.induct) auto

lemma dict_ok_put: "dict_ok m \<Longrightarrow> dict_ok (dict_put k v m)"
proof (induction m)
  case (Cons p m)
  obtain j u where p: "p = (j, u)" by (cases p)
  have "\<forall>x \<in> fst ` set (dict_put k v m). j < x" if "j < k"
    using Cons.prems that p unfolding keys_dict_put dict_ok_def by auto
  then show ?case using Cons by (auto simp: p dict_ok_def)
qed (simp add: dict_ok_def)

lemma dict_ok_del: "dict_ok m \<Longrightarrow> dict_ok (dict_del k m)"
  using keys_dict_del by (induction k m rule: dict_del.induct) (force simp: dict_ok_def)+

lemma find_dict_put: "dict_ok m \<Longrightarrow> dict_find (dict_put k v m) = (dict_find m)(k \<mapsto> v)"
proof (induction m)
  case (Cons p m)
  obtain j u where p: "p = (j, u)" by (cases p)
  have "dict_ok m" using Cons.prems by (simp add: dict_ok_def)
  then show ?case using Cons.IH by (auto simp: p dict_find_eq fun_eq_iff)
qed (simp add: fun_eq_iff)

lemma find_dict_del: "dict_ok m \<Longrightarrow> dict_find (dict_del k m) = (dict_find m)(k := None)"
proof (induction m)
  case (Cons p m)
  obtain j u where p: "p = (j, u)" by (cases p)
  have m: "dict_ok m" "j \<notin> fst ` set m" using Cons.prems by (auto simp: p dict_ok_def)
  have "dict_find m j = None" using m(2) by (simp add: dict_find_eq map_of_eq_None_iff)
  then show ?case using Cons.IH [OF m(1)] by (auto simp: p fun_eq_iff)
qed (simp add: fun_eq_iff)

interpretation dict: string_map dict_find dict_put dict_del "[]" "\<lambda>m. m" dict_ok
  by unfold_locales
    (auto simp: dict_ok_put dict_ok_del find_dict_put find_dict_del dict_find_eq [symmetric], auto simp: dict_ok_def)

section \<open>Serialisation\<close>

lemma from_vector_fold: "from_vector vec sep lc m = fold (\<lambda>(k, v). dict_put k v) (map (\<lambda>s. parse_pair s sep lc) vec) m"
  by (induction vec sep lc m rule: from_vector.induct) (auto split: prod.splits)

lemma dict_ok_range:
  assumes "dict_ok m" "i \<le> j"
  shows "dict_ok (dict_erase_range i j m)"
proof -
  let ?ks = "map fst m"
  have "sorted_wrt (<) (take i ?ks @ drop i ?ks)" using assms(1) by (simp add: dict_ok_def)
  then have "sorted_wrt (<) (take i ?ks @ drop j ?ks)"
    using set_drop_subset_set_drop [OF assms(2), of ?ks] sorted_wrt_drop [of "(<)" ?ks j] assms(1)
    by (auto simp only: sorted_wrt_append dict_ok_def)
  then show ?thesis by (simp add: dict_ok_def dict_erase_range_def take_map drop_map)
qed

lemma from_vector_ok: "dict_ok m \<Longrightarrow> dict_ok (from_vector vec sep lc m)"
  unfolding from_vector_fold using dict.find_fold by blast

text \<open>What a text must have to be read back: no blanks around it, no escape character.\<close>

definition plain_text :: "string \<Rightarrow> bool" where
  "plain_text s \<longleftrightarrow> trim s = s \<and> BACKSLASH \<notin> set s"

lemma parse_pair_join:
  assumes "plain_text k" "plain_text v" "sep \<notin> set v" "sep \<noteq> BACKSLASH"
  shows "parse_pair (k @ sep # v) sep False = (k, v)"
  using extract_right_gen [of sep v BACKSLASH k] assms
  by (simp add: parse_pair_def split_last_const_def extract_token_right_flag_def plain_text_def Let_def)

definition dict_plain :: "char \<Rightarrow> string dictionary \<Rightarrow> bool" where
  "dict_plain sep m \<longleftrightarrow> (\<forall>(k, v) \<in> set m. plain_text k \<and> plain_text v \<and> sep \<notin> set v)"

lemma from_to_vector:
  assumes "dict_ok m" "dict_plain sep m" "sep \<noteq> BACKSLASH"
  shows "from_vector (to_vector m sep) sep False [] = m"
proof -
  have "map (\<lambda>s. parse_pair s sep False) (to_vector m sep) = m"
    using assms(2,3) by (auto simp: to_vector_def dict_plain_def comp_def parse_pair_join intro!: map_idI)
  then show ?thesis using dict.rebuild [OF assms(1)] by (simp add: from_vector_fold)
qed

lemma to_string_loop_join: "to_string_loop m False a b s = s @ concat (map (\<lambda>x. a # x) (to_vector m b))"
  by (induction m arbitrary: s) (auto simp: to_vector_def)

lemma dict_to_string_join: "dict_to_string m a b = join (to_vector m b) a"
proof (cases m)
  case Nil
  then show ?thesis by (simp add: dict_to_string_def to_vector_def join_def)
next
  case (Cons p ps)
  then show ?thesis by (cases p) (simp add: dict_to_string_def to_string_loop_join to_vector_def join_Cons)
qed

text \<open>
  A dictionary whose keys and values are trimmed and have no backslash, and whose values do not have the
  key separator, is read back from its serialisation: from a vector, and from a string if the pair separator
  occurs in none of them.
\<close>

theorem dict_roundtrip:
  assumes "dict_ok m" and "dict_plain sep_key m" and "sep_key \<noteq> BACKSLASH" and "sep_pair \<noteq> BACKSLASH" and "sep_pair \<noteq> sep_key"
    and "\<forall>(k, v) \<in> set m. sep_pair \<notin> set k \<and> sep_pair \<notin> set v"
  shows "StringDictionary_of_vector (to_vector m sep_key) sep_key = m \<and>
         StringDictionary_of_string (dict_to_string m sep_pair sep_key) sep_pair sep_key = m"
proof -
  let ?xs = "to_vector m sep_key"
  have e: "map (escape sep_pair BACKSLASH) ?xs = ?xs"
    using assms(5,6) by (intro map_idI escape_id) (auto simp: to_vector_def)
  have "\<forall>x \<in> set ?xs. BACKSLASH \<notin> set x"
    using assms(2,3) by (auto simp: to_vector_def dict_plain_def plain_text_def)
  moreover have "?xs \<noteq> [[]]" by (auto simp: to_vector_def)
  ultimately have "split_collection (dict_to_string m sep_pair sep_key) sep_pair [] True = ?xs"
    using split_join_gen [OF assms(4), of ?xs "[]"] unfolding dict_to_string_join e by simp
  then show ?thesis using from_to_vector [OF assms(1-3)]
    by (simp add: StringDictionary_of_vector_def StringDictionary_of_string_def dict_from_string_def)
qed

theorem dict_roundtrip_witness:
  "StringDictionary_of_string (dict_to_string [(''a:b'', ''1''), (''c'', [])] (CHR '';'') (CHR '':'')) (CHR '';'') (CHR '':'') = [(''a:b'', ''1''), (''c'', [])]"
  using dict_roundtrip [of "[(''a:b'', ''1''), (''c'', [])]" "CHR '':''" "CHR '';''"]
  by (simp add: dict_ok_def dict_plain_def plain_text_def trim_eq rstrip_def isspace_def less_char_def)

text \<open>
  The operations of a dictionary are those of a map: a sorted list of pairs stays sorted under every operation,
  \<open>operator[]\<close> adds a missing key with the value \<open>T ()\<close>, \<open>insert\<close> keeps a value that is there,
  \<open>erase\<close> removes one key and says whether it was there, and loading a vector assigns its items in
  order, so that the last of two items with the same key counts.
\<close>

theorem dict_operations:
  assumes "dict_ok m" and "i \<le> j"
  shows "dict_ok (snd (dict_ref d k m)) \<and> dict_ok (snd (dict_insert (k, v) m)) \<and> dict_ok (snd (dict_erase k m)) \<and> dict_ok (from_vector vec sep lc m) \<and>
         dict_ok (dict_erase_range i j m) \<and>
         fst (dict_ref d k m) = value_or (dict_get e m k) d \<and>
         dict_find (snd (dict_ref d k m)) = (dict_find m)(k \<mapsto> fst (dict_ref d k m)) \<and>
         dict_find (snd (dict_insert (k, v) m)) = (\<lambda>x. if x = k \<and> dict_find m k = None then Some v else dict_find m x) \<and>
         dict_find (snd (dict_erase k m)) = (dict_find m)(k := None) \<and> fst (dict_erase k m) = dict_count k m \<and>
         dict_find (from_vector vec sep lc m) = dict_find m ++ map_of (rev (map (\<lambda>s. parse_pair s sep lc) vec))"
  using assms dict_ok_put [OF assms(1)] dict_ok_del [OF assms(1)] find_dict_put [OF assms(1)] find_dict_del [OF assms(1)] from_vector_ok [OF assms(1)]
    dict.find_fold [OF assms(1)] dict_ok_range [OF assms]
  by (auto simp: dict_ref_def dict_insert_def dict_erase_def dict_get_def value_or_def Optional_of_def Optional_ctor_def from_vector_fold
      fun_eq_iff split: option.splits)

theorem dict_operations_witness:
  "dict_find (snd (dict_insert (''b'', ''2'') [(''a'', ''1''), (''c'', ''3'')])) ''b'' = Some ''2''"
proof -
  have "dict_ok [(''a'', ''1''), (''c'', ''3'')]" by (simp add: dict_ok_def less_char_def)
  from dict_operations [OF this order_refl, where k = "''b''" and v = "''2''"] show ?thesis by simp
qed

text \<open>
  Where a dictionary is not what it was written from: an item without the separator is stored under
  the empty key without its text, a value that holds the separator moves into the key, and a backslash before a separator is dropped. The
  value of a missing key is an error for \<open>at\<close>, of an unset \<open>Optional\<close> one for \<open>value\<close>, and a text that is neither true nor
  false has no truth value.
\<close>

theorem dict_limits:
  "StringDictionary_of_vector [''key''] (CHR '':'') = [([], [])] \<and>
   StringDictionary_of_vector (to_vector [(''url'', ''a:b'')] (CHR '':'')) (CHR '':'') = [(''url:a'', ''b'')] \<and>
   dict_at [(''a'', ''x'')] ''b'' = Inl (DICT_NO_DATA ''No such key: b'') \<and>
   opt_get (dict_get [] [(''a'', ''x'')] ''b'') = Inl NO_VALUE \<and>
   opt_set (get_bool [(''a'', ''TRUE''), (''b'', ''yes'')] ''a'') \<and> opt_value (get_bool [(''a'', ''TRUE''), (''b'', ''yes'')] ''a'') \<and>
   \<not> opt_set (get_bool [(''a'', ''TRUE''), (''b'', ''yes'')] ''b'')"
  by code_simp

end
