(* ===== verification/FileCopy.thy ===== *)
theory FileCopy
  imports FileName Md5
begin

text \<open>
  Contents of files: copies with an MD5 sum, moves, the sum of a file, times, modes and owners, from
  \<open>src/file/PosixFileImpl.cpp\<close>. The operating system is a parameter: the record \<open>os\<close> of \<open>FileName\<close>, and the calls on
  descriptors. A time is its number of Unix seconds. \<open>None\<close> is a call that does not return, or undefined behaviour of the MD5 code.
\<close>

section \<open>The operating system\<close>

text \<open>
  \<open>fd_progress\<close> is the target of the notifications with the clock that says when it is called: it gives whether the copy goes on.
  \<open>fd_times\<close> gives the times of access and of modification.
\<close>

record 's fd_os =
  fd_base :: "'s os"
  fd_open :: "string \<Rightarrow> 's \<Rightarrow> (int + nat) \<times> 's"
  fd_creat :: "string \<Rightarrow> 32 word \<Rightarrow> 's \<Rightarrow> (int + nat) \<times> 's"
  fd_read :: "nat \<Rightarrow> nat \<Rightarrow> 's \<Rightarrow> (int + byte list) \<times> 's"
  fd_write :: "nat \<Rightarrow> byte list \<Rightarrow> 's \<Rightarrow> (int + nat) \<times> 's"
  fd_close :: "nat \<Rightarrow> 's \<Rightarrow> 's"
  fd_errno :: "'s \<Rightarrow> int"
  fd_times :: "string \<Rightarrow> 's \<Rightarrow> int + int \<times> int"
  fd_utime :: "string \<Rightarrow> int \<Rightarrow> int \<Rightarrow> 's \<Rightarrow> int option \<times> 's"
  fd_progress :: "nat \<Rightarrow> 's \<Rightarrow> bool \<times> 's"
  fd_fsid :: "string \<Rightarrow> 's \<Rightarrow> int + nat"

section \<open>The loop of a copy\<close>

text \<open>The result is the number of bytes that are missing, 0 unless the copy is cancelled, with the state of the sum.\<close>

partial_function (option) copy_loop ::
  "'s fd_os \<Rightarrow> nat \<Rightarrow> nat \<Rightarrow> nat \<Rightarrow> bool \<Rightarrow> bool \<Rightarrow> nat \<Rightarrow> byte list \<Rightarrow> md5_t \<Rightarrow> 's \<Rightarrow> ((file_error + nat \<times> md5_t) \<times> 's) option" where
  "copy_loop os blk fsrc fdst md5sum_p progress llSize aBuf st s =
     (if llSize = 0 then Some (Inr (0, st), s)
      else
        let lToRead = (if llSize < blk then llSize else blk);
            (r, s) = fd_read os fsrc lToRead s
        in if isl r then Some (Inl (throw_from_errno (projl r)), s)
           else
             let bs = projr r; lReaded = length bs; aBuf = bs @ drop lReaded aBuf
             in Option.bind (if md5sum_p then process bs (word_of_nat lReaded) st else Some st) (\<lambda>st.
                let (w, s) = fd_write os fdst (take lToRead aBuf) s
                in if isl w then Some (Inl (throw_from_errno (projl w)), s)
                   else if projr w \<noteq> lToRead then Some (Inl (throw_from_errno (fd_errno os s)), s)
                   else
                     let llSize = llSize - projr w;
                         (go, s) = (if progress then fd_progress os llSize s else (True, s))
                     in if \<not> go then Some (Inr (llSize, st), s)
                        else copy_loop os blk fsrc fdst md5sum_p progress llSize aBuf st s))"

text \<open>\<open>md5sum\<close>\<close>

partial_function (option) sum_loop :: "'s fd_os \<Rightarrow> nat \<Rightarrow> nat \<Rightarrow> nat \<Rightarrow> md5_t \<Rightarrow> 's \<Rightarrow> ((file_error + md5_t) \<times> 's) option" where
  "sum_loop os blk fsrc llSize st s =
     (if llSize = 0 then Some (Inr st, s)
      else
        let lToRead = (if llSize < blk then llSize else blk);
            (r, s) = fd_read os fsrc lToRead s
        in if isl r then Some (Inl (throw_from_errno (projl r)), s)
           else Option.bind (process (projr r) (word_of_nat (length (projr r))) st) (\<lambda>st.
                  sum_loop os blk fsrc (llSize - length (projr r)) st s))"

section \<open>Times, modes and owners\<close>

definition file_mod_time :: "'s fd_os \<Rightarrow> string \<Rightarrow> 's \<Rightarrow> file_error + int" where
  "file_mod_time os m s =
     (if file_is_null m then Inr 0
      else case fd_times os m s of Inl errno \<Rightarrow> Inl (throw_from_errno errno) | Inr (st_atime, st_mtime) \<Rightarrow> Inr st_mtime)"

definition set_mod_time :: "'s fd_os \<Rightarrow> int \<Rightarrow> string \<Rightarrow> 's \<Rightarrow> file_error option \<times> 's" where
  "set_mod_time os tm m s =
     (if file_is_null m then (None, s)
      else let actime = (case fd_times os m s of Inr (st_atime, st_mtime) \<Rightarrow> st_atime | Inl _ \<Rightarrow> tm)
           in os_try (fd_utime os m actime tm s))"

definition file_chmod :: "'s os \<Rightarrow> 32 word \<Rightarrow> string \<Rightarrow> 's \<Rightarrow> file_error option \<times> 's" where
  "file_chmod os mode m s =
     (if file_is_null m then (None, s)
      else if mode > 0xFFF then (Some (BadArg (uint mode)), s)
      else os_try (os_chmod os m mode s))"

definition file_chown :: "'s os \<Rightarrow> int \<Rightarrow> int \<Rightarrow> string \<Rightarrow> 's \<Rightarrow> file_error option \<times> 's" where
  "file_chown os uid gid m s = (if file_is_null m then (None, s) else os_try (os_chown os m uid gid s))"

section \<open>Copies\<close>

text \<open>\<open>Format (".temp{x}").arg (h)\<close> of an \<open>uint64\<close>.\<close>

definition temp_name :: "string \<Rightarrow> string" where
  "temp_name dst = ''.temp'' @ out_int (oss_ctor\<lparr>base_hex := True\<rparr>) 64 (uint (hash64 dst))"

text \<open>The end of a copy that succeeded or was cancelled; \<open>None\<close> is the sum if none is asked for.\<close>

definition sum_text :: "md5_t \<Rightarrow> string option" where
  "sum_text st = map_option (\<lambda>st. cstr (get_string (replicate MD5_STRING_SIZE NUL) st)) (finish st)"

text \<open>The part of \<open>priv_copy\<close> in the \<open>try\<close> block, then the handler. \<open>name_of\<close> is \<open>f_copy_to\<close> and \<open>dst\<close> the destination.\<close>

definition copy_body ::
  "'s fd_os \<Rightarrow> nat \<Rightarrow> bool \<Rightarrow> bool \<Rightarrow> md5_t \<Rightarrow> nat \<Rightarrow> nat \<Rightarrow> int \<Rightarrow> string \<Rightarrow> string \<Rightarrow> string \<Rightarrow> 's \<Rightarrow> ((file_error + bool \<times> string) \<times> 's) option" where
  "copy_body os blk md5sum_p progress raw fsrc fdst tmLastMod name_of dst m s =
     (case file_size64 (fd_base os) s m of
        Inl e \<Rightarrow> Some (Inl e, s)
      | Inr llTotalSize \<Rightarrow>
        Option.bind (copy_loop os blk fsrc fdst md5sum_p progress (unat llTotalSize) (replicate blk 0) (initialise raw) s) (\<lambda>(r, s).
          case r of
            Inl e \<Rightarrow> Some (Inl e, s)
          | Inr (llSize, st) \<Rightarrow>
            Option.bind (if md5sum_p then sum_text st else Some []) (\<lambda>md5sum.
              let s = fd_close os fdst (fd_close os fsrc s)
              in if llSize > 0 then Some (Inr (False, md5sum), snd (os_unlink (fd_base os) name_of s))
                 else
                   let (e, s) = set_mod_time os tmLastMod name_of s
                   in case e of Some e \<Rightarrow> Some (Inl e, s)
                      | None \<Rightarrow> let (r, s) = file_rename (fd_base os) dst name_of s
                                in Some (case r of Inl e \<Rightarrow> (Inl e, s) | Inr _ \<Rightarrow> (Inr (True, md5sum), s)))))"

definition copy_handler :: "'s fd_os \<Rightarrow> nat \<Rightarrow> nat \<Rightarrow> string \<Rightarrow> 's \<Rightarrow> 's" where
  "copy_handler os fsrc fdst name_of s = snd (os_unlink (fd_base os) name_of (fd_close os fdst (fd_close os fsrc s)))"

text \<open>The destination: a directory gets the name of the source.\<close>

definition copy_dest :: "'s os \<Rightarrow> 's \<Rightarrow> string \<Rightarrow> string \<Rightarrow> file_error + string" where
  "copy_dest os s strDst m =
     (case set_name os s strDst of Inl e \<Rightarrow> Inl e
      | Inr d \<Rightarrow>
          if \<not> file_is_null d \<and> is_path_name d then
            (case file_name_ext m of Inl _ \<Rightarrow> Inl (BadPathText m) | Inr nm \<Rightarrow> set_path_name os s (file_path d) nm)
          else Inr d)"

text \<open>\<open>owner\<close> is what \<open>stat\<close> gives, for a process of the root user. The last assignment of the owner ignores errors.\<close>

definition priv_copy ::
  "'s fd_os \<Rightarrow> nat \<Rightarrow> bool \<Rightarrow> string \<Rightarrow> bool \<Rightarrow> bool \<Rightarrow> (int \<times> int) option \<Rightarrow> md5_t \<Rightarrow> string \<Rightarrow> 's \<Rightarrow> ((file_error + string option) \<times> 's) option" where
  "priv_copy os blk progress strDst md5sum_p keep_metadata owner raw m s =
     (if \<not> file_exist (fd_base os) s m then Some (Inl (FileNotFound 0), s)
      else case copy_dest (fd_base os) s strDst m of
        Inl e \<Rightarrow> Some (Inl e, s)
      | Inr dst \<Rightarrow>
        if file_is_null dst then Some (Inr None, s)
        else if m = dst then Some (Inl (FileError 0), s)
        else case os_stat (fd_base os) m s of
          Inl errno \<Rightarrow> Some (Inl (throw_from_errno errno), s)
        | Inr (st_mode, _) \<Rightarrow>
          case fd_open os m s of
            (Inl errno, s) \<Rightarrow> Some (Inl (throw_from_errno errno), s)
          | (Inr fsrc, s) \<Rightarrow>
            case file_mod_time os m s of
              Inl e \<Rightarrow> Some (Inl e, s)
            | Inr tmLastMod \<Rightarrow>
              case set_path_name (fd_base os) s (file_path dst) (temp_name dst) of
                Inl e \<Rightarrow> Some (Inl e, s)
              | Inr name_of \<Rightarrow>
                case fd_creat os name_of st_mode s of
                  (Inl errno, s) \<Rightarrow> let s = fd_close os fsrc s in Some (Inl (throw_from_errno (fd_errno os s)), s)
                | (Inr fdst, s) \<Rightarrow>
                  Option.bind (copy_body os blk md5sum_p progress raw fsrc fdst tmLastMod name_of dst m s) (\<lambda>(r, s).
                    Some (case r of
                      Inl e \<Rightarrow> (Inl e, copy_handler os fsrc fdst name_of s)
                    | Inr (done, md5sum) \<Rightarrow>
                        (Inr (if md5sum_p then Some md5sum else None),
                         case owner of Some (uid, gid) \<Rightarrow> if done \<and> keep_metadata then snd (file_chown (fd_base os) uid gid dst s) else s | None \<Rightarrow> s))))"

definition file_md5sum :: "'s fd_os \<Rightarrow> nat \<Rightarrow> md5_t \<Rightarrow> string \<Rightarrow> 's \<Rightarrow> ((file_error + string) \<times> 's) option" where
  "file_md5sum os blk raw m s =
     (if file_is_null m then Some (Inr [], s)
      else case file_size64 (fd_base os) s m of
        Inl e \<Rightarrow> Some (Inl e, s)
      | Inr llTotalSize \<Rightarrow>
        case fd_open os m s of
          (Inl errno, s) \<Rightarrow> Some (Inl (throw_from_errno errno), s)
        | (Inr fsrc, s) \<Rightarrow>
          Option.bind (sum_loop os blk fsrc (unat llTotalSize) (initialise raw) s) (\<lambda>(r, s).
            case r of Inl e \<Rightarrow> Some (Inl e, s) | Inr st \<Rightarrow> map_option (\<lambda>str. (Inr str, s)) (sum_text st)))"

text \<open>\<open>move\<close>: the destination is removed, then the file is renamed if both are in the same file system, and copied otherwise.\<close>

definition copy_and_remove ::
  "'s fd_os \<Rightarrow> nat \<Rightarrow> bool \<Rightarrow> (int \<times> int) option \<Rightarrow> md5_t \<Rightarrow> string \<Rightarrow> string \<Rightarrow> 's \<Rightarrow> ((file_error + string) \<times> 's) option" where
  "copy_and_remove os blk progress owner raw dst m s =
     Option.bind (priv_copy os blk progress dst False True owner raw m s) (\<lambda>(r, s).
       Some (case r of Inl e \<Rightarrow> (Inl e, s)
             | Inr _ \<Rightarrow>
                 let (e, s) = file_remove (fd_base os) m s
                 in case e of Some e \<Rightarrow> (Inl e, s) | None \<Rightarrow> (set_name (fd_base os) s dst, s)))"

definition file_move ::
  "'s fd_os \<Rightarrow> nat \<Rightarrow> bool \<Rightarrow> (int \<times> int) option \<Rightarrow> md5_t \<Rightarrow> string \<Rightarrow> string \<Rightarrow> 's \<Rightarrow> ((file_error + string) \<times> 's) option" where
  "file_move os blk progress owner raw strDest m s =
     (if \<not> file_exist (fd_base os) s m then Some (Inl (FileNotFound 0), s)
      else case copy_dest (fd_base os) s strDest m of
        Inl e \<Rightarrow> Some (Inl e, s)
      | Inr dst \<Rightarrow>
        let (e, s) = (if \<not> file_is_null dst \<and> file_exist (fd_base os) s dst then file_remove (fd_base os) dst s else (None, s))
        in case e of Some e \<Rightarrow> Some (Inl e, s)
           | None \<Rightarrow>
             case (if file_is_null m then Inr 0 else fd_fsid os (file_path m) s) of
               Inl errno \<Rightarrow> Some (Inl (throw_from_errno errno), s)
             | Inr idSrc \<Rightarrow>
               case (if file_is_null dst then Inr 0 else fd_fsid os (file_path dst) s) of
                 Inl errno \<Rightarrow> Some (Inl (throw_from_errno errno), s)
               | Inr idDst \<Rightarrow>
                 if \<not> file_is_null m \<and> \<not> file_is_null dst \<and> idSrc = idDst then
                   (case file_rename (fd_base os) dst m s of
                      (Inr m', s) \<Rightarrow> Some (Inr m', s)
                    | (Inl _, s) \<Rightarrow> copy_and_remove os blk progress owner raw dst m s)
                 else copy_and_remove os blk progress owner raw dst m s)"

section \<open>What a correct file system makes of a copy\<close>

text \<open>
  The calls of the system on its files \<open>fs\<close>, by their names, and its open descriptors \<open>fds\<close>, each with its file and its position. A call may fail, and
  then changes nothing; a read gives all that is asked for and there; a write may be short. Files have one name, and nobody else writes to them.
\<close>

definition file_system ::
  "'s fd_os \<Rightarrow> ('s \<Rightarrow> string \<Rightarrow> byte list option) \<Rightarrow> ('s \<Rightarrow> nat \<Rightarrow> (string \<times> nat) option) \<Rightarrow> bool" where
  "file_system os fs fds \<longleftrightarrow>
     (\<forall>f s. case fd_open os f s of
        (Inl e, s') \<Rightarrow> fs s' = fs s \<and> fds s' = fds s
      | (Inr d, s') \<Rightarrow> fs s' = fs s \<and> fds s d = None \<and> fds s' = (fds s)(d \<mapsto> (f, 0))) \<and>
     (\<forall>f mode s. case fd_creat os f mode s of
        (Inl e, s') \<Rightarrow> fs s' = fs s \<and> fds s' = fds s
      | (Inr d, s') \<Rightarrow> fs s' = (fs s)(f \<mapsto> []) \<and> fds s d = None \<and> fds s' = (fds s)(d \<mapsto> (f, 0))) \<and>
     (\<forall>d f k bs n s. fds s d = Some (f, k) \<longrightarrow> fs s f = Some bs \<longrightarrow>
        (case fd_read os d n s of
           (Inl e, s') \<Rightarrow> fs s' = fs s \<and> fds s' = fds s
         | (Inr xs, s') \<Rightarrow> xs = take n (drop k bs) \<and> fs s' = fs s \<and> fds s' = (fds s)(d \<mapsto> (f, k + length xs)))) \<and>
     (\<forall>d f bs ys s. fds s d = Some (f, length bs) \<longrightarrow> fs s f = Some bs \<longrightarrow>
        (case fd_write os d ys s of
           (Inl e, s') \<Rightarrow> fs s' = fs s \<and> fds s' = fds s
         | (Inr w, s') \<Rightarrow> fs s' = (fs s)(f \<mapsto> bs @ take w ys) \<and> fds s' = (fds s)(d \<mapsto> (f, length bs + w)))) \<and>
     (\<forall>d s. fs (fd_close os d s) = fs s \<and> fds (fd_close os d s) = (fds s)(d := None)) \<and>
     (\<forall>f a t s. fs (snd (fd_utime os f a t s)) = fs s \<and> fds (snd (fd_utime os f a t s)) = fds s) \<and>
     (\<forall>n s. fs (snd (fd_progress os n s)) = fs s \<and> fds (snd (fd_progress os n s)) = fds s) \<and>
     (\<forall>f s. case os_stat (fd_base os) f s of Inl e \<Rightarrow> True | Inr (mode, n) \<Rightarrow> (case fs s f of None \<Rightarrow> True | Some bs \<Rightarrow> n = length bs)) \<and>
     (\<forall>f s. case os_unlink (fd_base os) f s of
        (e, s') \<Rightarrow> fs s' = (if e = None then (fs s)(f := None) else fs s) \<and> dom (fds s') = dom (fds s)) \<and>
     (\<forall>f g s. case os_rename (fd_base os) f g s of
        (e, s') \<Rightarrow> fs s' = (if e = None then (fs s)(f := None, g := fs s f) else fs s) \<and> dom (fds s') = dom (fds s)) \<and>
     (\<forall>f u g s. case os_chown (fd_base os) f u g s of (e, s') \<Rightarrow> fs s' = fs s \<and> dom (fds s') = dom (fds s))"

lemma fs_open: "file_system os fs fds \<Longrightarrow> case fd_open os f s of
    (Inl e, s') \<Rightarrow> fs s' = fs s \<and> fds s' = fds s | (Inr d, s') \<Rightarrow> fs s' = fs s \<and> fds s d = None \<and> fds s' = (fds s)(d \<mapsto> (f, 0))"
  unfolding file_system_def by (elim conjE allE)

lemma fs_creat: "file_system os fs fds \<Longrightarrow> case fd_creat os f mode s of
    (Inl e, s') \<Rightarrow> fs s' = fs s \<and> fds s' = fds s
  | (Inr d, s') \<Rightarrow> fs s' = (fs s)(f \<mapsto> []) \<and> fds s d = None \<and> fds s' = (fds s)(d \<mapsto> (f, 0))"
  unfolding file_system_def by (elim conjE allE)

lemma fs_read: "file_system os fs fds \<Longrightarrow> fds s d = Some (f, k) \<Longrightarrow> fs s f = Some bs \<Longrightarrow> case fd_read os d n s of
    (Inl e, s') \<Rightarrow> fs s' = fs s \<and> fds s' = fds s
  | (Inr xs, s') \<Rightarrow> xs = take n (drop k bs) \<and> fs s' = fs s \<and> fds s' = (fds s)(d \<mapsto> (f, k + length xs))"
proof -
  assume "file_system os fs fds" and a: "fds s d = Some (f, k)" "fs s f = Some bs"
  then have "fds s d = Some (f, k) \<longrightarrow> fs s f = Some bs \<longrightarrow> (case fd_read os d n s of
    (Inl e, s') \<Rightarrow> fs s' = fs s \<and> fds s' = fds s
  | (Inr xs, s') \<Rightarrow> xs = take n (drop k bs) \<and> fs s' = fs s \<and> fds s' = (fds s)(d \<mapsto> (f, k + length xs)))"
    unfolding file_system_def by (elim conjE allE)
  then show ?thesis using a by (elim impE)
qed

lemma fs_write: "file_system os fs fds \<Longrightarrow> fds s d = Some (f, length bs) \<Longrightarrow> fs s f = Some bs \<Longrightarrow> case fd_write os d ys s of
    (Inl e, s') \<Rightarrow> fs s' = fs s \<and> fds s' = fds s
  | (Inr w, s') \<Rightarrow> fs s' = (fs s)(f \<mapsto> bs @ take w ys) \<and> fds s' = (fds s)(d \<mapsto> (f, length bs + w))"
proof -
  assume "file_system os fs fds" and a: "fds s d = Some (f, length bs)" "fs s f = Some bs"
  then have "fds s d = Some (f, length bs) \<longrightarrow> fs s f = Some bs \<longrightarrow> (case fd_write os d ys s of
    (Inl e, s') \<Rightarrow> fs s' = fs s \<and> fds s' = fds s
  | (Inr w, s') \<Rightarrow> fs s' = (fs s)(f \<mapsto> bs @ take w ys) \<and> fds s' = (fds s)(d \<mapsto> (f, length bs + w)))"
    unfolding file_system_def by (elim conjE allE)
  then show ?thesis using a by (elim impE)
qed

lemma fs_close: "file_system os fs fds \<Longrightarrow> fs (fd_close os d s) = fs s \<and> fds (fd_close os d s) = (fds s)(d := None)"
  unfolding file_system_def by (elim conjE allE) simp

lemma fs_utime: "file_system os fs fds \<Longrightarrow> fs (snd (fd_utime os f a t s)) = fs s \<and> fds (snd (fd_utime os f a t s)) = fds s"
  unfolding file_system_def by (elim conjE allE) simp

lemma fs_progress: "file_system os fs fds \<Longrightarrow> fs (snd (fd_progress os n s)) = fs s \<and> fds (snd (fd_progress os n s)) = fds s"
  unfolding file_system_def by (elim conjE allE) simp

lemma fs_stat: "file_system os fs fds \<Longrightarrow> os_stat (fd_base os) f s = Inr (mode, n) \<Longrightarrow> fs s f = Some bs \<Longrightarrow> n = length bs"
proof -
  assume "file_system os fs fds" and a: "os_stat (fd_base os) f s = Inr (mode, n)" "fs s f = Some bs"
  then have "case os_stat (fd_base os) f s of Inl e \<Rightarrow> True | Inr (mode, n) \<Rightarrow> (case fs s f of None \<Rightarrow> True | Some bs \<Rightarrow> n = length bs)"
    unfolding file_system_def by (elim conjE allE)
  then show ?thesis using a by simp
qed

lemma fs_unlink: "file_system os fs fds \<Longrightarrow> os_unlink (fd_base os) f s = (e, s') \<Longrightarrow>
    fs s' = (if e = None then (fs s)(f := None) else fs s) \<and> dom (fds s') = dom (fds s)"
proof -
  assume "file_system os fs fds" and a: "os_unlink (fd_base os) f s = (e, s')"
  then have "case os_unlink (fd_base os) f s of
        (e, s') \<Rightarrow> fs s' = (if e = None then (fs s)(f := None) else fs s) \<and> dom (fds s') = dom (fds s)"
    unfolding file_system_def by (elim conjE allE)
  then show ?thesis using a by simp
qed

lemma fs_rename: "file_system os fs fds \<Longrightarrow> os_rename (fd_base os) f g s = (e, s') \<Longrightarrow>
    fs s' = (if e = None then (fs s)(f := None, g := fs s f) else fs s) \<and> dom (fds s') = dom (fds s)"
proof -
  assume "file_system os fs fds" and a: "os_rename (fd_base os) f g s = (e, s')"
  then have "case os_rename (fd_base os) f g s of
        (e, s') \<Rightarrow> fs s' = (if e = None then (fs s)(f := None, g := fs s f) else fs s) \<and> dom (fds s') = dom (fds s)"
    unfolding file_system_def by (elim conjE allE)
  then show ?thesis using a by simp
qed

lemma fs_chown: "file_system os fs fds \<Longrightarrow> fs (snd (os_chown (fd_base os) f u g s)) = fs s \<and> dom (fds (snd (os_chown (fd_base os) f u g s))) = dom (fds s)"
proof -
  assume "file_system os fs fds"
  then have "case os_chown (fd_base os) f u g s of (e, s') \<Rightarrow> fs s' = fs s \<and> dom (fds s') = dom (fds s)"
    unfolding file_system_def by (elim conjE allE)
  then show ?thesis by (simp add: case_prod_beta)
qed

lemma sum_text_digest:
  assumes "md5_inv p r st" and "length r < 64"
  shows "sum_text st = Some (hex_of (rfc_md5 (p @ r)))"
proof -
  obtain st' where st': "finish st = Some st'" "finished st'" "str st' = hex_of (rfc_md5 (p @ r)) @ [CHR 0x00]"
    using finish_digest [OF assms] by auto
  have "NUL \<notin> set (hex_of bs)" for bs
  proof (induction bs)
    case (Cons b bs)
    have "unat b < 2 ^ LENGTH(8)" by (rule unsigned_less)
    then have b: "unat b < 256" by simp
    have "HEX_STRING ! i \<noteq> NUL" if "i < 16" for i using that by (auto simp: HEX_STRING_def less_Suc_eq numeral_eq_Suc)
    moreover have "unat b div 16 < 16" "unat b mod 16 < 16" using b by auto
    ultimately show ?case using Cons by (metis UnE empty_iff hex_of.simps(2) insert_iff list.set(1,2) set_ConsD)
  qed simp
  then have "\<forall>x \<in> set (hex_of bs). x \<noteq> NUL" for bs by metis
  then have c: "cstr (hex_of bs @ [NUL]) = hex_of bs" for bs using takeWhile_append2 [of "hex_of bs" "\<lambda>x. x \<noteq> NUL" "[NUL]"] by (simp add: cstr_def)
  have "length (rfc_md5 (p @ r)) = 16" by (cases "rfc_blocks (rfc_pad (p @ r)) rfc_init") (simp add: rfc_md5_def)
  then have "length (hex_of (rfc_md5 (p @ r))) = 32" by simp
  then show ?thesis using st' c by (simp add: sum_text_def get_string_def MD5_STRING_SIZE_def MD5_SIZE_def)
qed

text \<open>The sum of the first \<open>k\<close> bytes; between two blocks no byte is pending.\<close>

definition sum_at :: "byte list \<Rightarrow> nat \<Rightarrow> md5_t \<Rightarrow> bool" where
  "sum_at bs k st \<longleftrightarrow> (\<exists>p r. md5_inv p r st \<and> length r < 64 \<and> p @ r = take k bs) \<and> (k < length bs \<longrightarrow> 64 dvd k)"

lemma sum_at_text: "sum_at bs k st \<Longrightarrow> sum_text st = Some (hex_of (rfc_md5 (take k bs)))"
  using sum_text_digest by (auto simp: sum_at_def)

lemma sum_at_step:
  assumes "sum_at bs k st" "k < length bs" "64 dvd blk" "blk + 128 < 2 ^ 32" "n = (if length bs - k < blk then length bs - k else blk)"
  shows "\<exists>st'. process (take n (drop k bs)) (word_of_nat n) st = Some st' \<and> sum_at bs (k + n) st'"
proof -
  obtain p r where p: "md5_inv p r st" "length r < 64" "p @ r = take k bs" "64 dvd k" using assms(1,2) by (auto simp: sum_at_def)
  have "length p + length r = k" using arg_cong [OF p(3), of length] assms(2) by simp
  moreover have "64 dvd length p" using p(1) by (simp add: md5_inv_def)
  ultimately have r: "r = []" using p(2,4) by (metis dvd_add_right_iff dvd_imp_le length_0_conv length_greater_0_conv not_le)
  have l: "length (take n (drop k bs)) = n" using assms(5) by auto
  have "call_ok (length r) (length (take n (drop k bs)))" using r assms(4,5) unfolding l by (simp add: call_ok_def)
  from process_in_order [OF p(1,2) this] obtain st' p' r' where s: "process (take n (drop k bs)) (word_of_nat n) st = Some st'"
    "md5_inv p' r' st'" "p @ r @ take n (drop k bs) = p' @ r'" "length r' = (length r + n) mod 64" unfolding l by blast
  have "p' @ r' = take (k + n) bs" using s(3) p(3) r by (simp add: take_add)
  moreover have "k + n < length bs \<longrightarrow> 64 dvd k + n" using assms(3,5) p(4) by auto
  moreover have "length r' < 64" using s(4) by simp
  ultimately have "sum_at bs (k + n) st'" unfolding sum_at_def using s(2) by blast
  then show ?thesis using s(1) by blast
qed

text \<open>A copy that has come to byte \<open>k\<close>; \<open>F\<close> and \<open>D\<close> are the files and the descriptors before it.\<close>

definition copying ::
  "('s \<Rightarrow> string \<Rightarrow> byte list option) \<Rightarrow> ('s \<Rightarrow> nat \<Rightarrow> (string \<times> nat) option) \<Rightarrow> (string \<Rightarrow> byte list option) \<Rightarrow>
     (nat \<Rightarrow> (string \<times> nat) option) \<Rightarrow> string \<Rightarrow> string \<Rightarrow> nat \<Rightarrow> nat \<Rightarrow> byte list \<Rightarrow> nat \<Rightarrow> 's \<Rightarrow> bool" where
  "copying fs fds F D m tmp fsrc fdst bs k s \<longleftrightarrow> fs s = F(tmp \<mapsto> take k bs) \<and> fds s = D(fsrc \<mapsto> (m, k), fdst \<mapsto> (tmp, k))"

lemma copy_loop_round:
  assumes "0 < llSize" "n = (if llSize < blk then llSize else blk)" "fd_read os fsrc n s = (Inr bs, s1)"
    and "(if md5 then process bs (word_of_nat (length bs)) st else Some st) = Some st1"
    and "fd_write os fdst (take n (bs @ drop (length bs) aBuf)) s1 = (Inr n, s2)"
    and "(if progress then fd_progress os (llSize - n) s2 else (True, s2)) = (go, s3)"
  shows "copy_loop os blk fsrc fdst md5 progress llSize aBuf st s =
         (if go then copy_loop os blk fsrc fdst md5 progress (llSize - n) (bs @ drop (length bs) aBuf) st1 s3
          else Some (Inr (llSize - n, st1), s3))"
  using assms(1) assms(3-6) unfolding assms(2) [symmetric]
  by (subst copy_loop.simps) (simp add: Let_def assms(2) [symmetric] del: take_append)

lemma copy_loop_read_fails:
  assumes "0 < llSize" "n = (if llSize < blk then llSize else blk)" "fd_read os fsrc n s = (Inl e, s1)"
  shows "copy_loop os blk fsrc fdst md5 progress llSize aBuf st s = Some (Inl (throw_from_errno e), s1)"
  using assms(1,3) unfolding assms(2) by (subst copy_loop.simps) (simp add: Let_def)

lemma copy_loop_write_fails:
  assumes "0 < llSize" "n = (if llSize < blk then llSize else blk)" "fd_read os fsrc n s = (Inr bs, s1)"
    and "(if md5 then process bs (word_of_nat (length bs)) st else Some st) = Some st1"
    and "fd_write os fdst (take n (bs @ drop (length bs) aBuf)) s1 = (w, s2)" "w \<noteq> Inr n"
  shows "\<exists>e. copy_loop os blk fsrc fdst md5 progress llSize aBuf st s = Some (Inl e, s2)"
  using assms(1) assms(3-6) unfolding assms(2) [symmetric]
  by (cases w) (subst copy_loop.simps, simp add: Let_def assms(2) [symmetric] del: take_append)+

lemma copy_loop_fs:
  assumes L: "file_system os fs fds" and F: "F m = Some bs" "m \<noteq> tmp" "fsrc \<noteq> fdst" and b: "0 < blk"
    and md: "md5 \<Longrightarrow> 64 dvd blk \<and> blk + 128 < 2 ^ 32"
  shows "n = length bs - k \<Longrightarrow> k \<le> length bs \<Longrightarrow> copying fs fds F D m tmp fsrc fdst bs k s \<Longrightarrow> (md5 \<Longrightarrow> sum_at bs k st) \<Longrightarrow>
    \<exists>r s'. copy_loop os blk fsrc fdst md5 progress n aBuf st s = Some (r, s') \<and>
      (\<forall>f. f \<noteq> tmp \<longrightarrow> fs s' f = F f) \<and> dom (fds s') = dom (fds s) \<and>
      (case r of Inl e \<Rightarrow> True
       | Inr (n', st') \<Rightarrow> n' \<le> length bs \<and> (0 < n' \<longrightarrow> progress) \<and> copying fs fds F D m tmp fsrc fdst bs (length bs - n') s' \<and>
           (md5 \<longrightarrow> sum_at bs (length bs - n') st'))"
proof (induction n arbitrary: k s st aBuf rule: less_induct)
  case (less n)
  note c = less.prems(3) [unfolded copying_def]
  show ?case
  proof (cases "n = 0")
    case True
    then have "k = length bs" using less.prems(1,2) by simp
    then show ?thesis using less.prems(3,4) c True by (subst copy_loop.simps) (auto simp: copying_def)
  next
    case False
    then have n: "0 < n" "k < length bs" using less.prems(1) by auto
    define l where "l = (if n < blk then n else blk)"
    have l: "l \<le> length bs - k" "0 < l" "l \<le> n" using n b less.prems(1) by (auto simp: l_def)
    define xs where "xs = take l (drop k bs)"
    have x: "length xs = l" using l by (simp add: xs_def)
    have fsm: "fs s m = Some bs" "fds s fsrc = Some (m, k)" using c F by auto
    obtain r1 s1 where r1: "fd_read os fsrc l s = (r1, s1)" by fastforce
    note rd = fs_read [OF L fsm(2,1), of l, unfolded r1]
    show ?thesis
    proof (cases r1)
      case (Inl e)
      then show ?thesis using copy_loop_read_fails [OF n(1) l_def, of os fsrc s e s1] r1 rd c by auto
    next
      case (Inr ys)
      then have ys: "r1 = Inr xs" "fs s1 = fs s" "fds s1 = (fds s)(fsrc \<mapsto> (m, k + l))" using rd x by (auto simp: xs_def)
      obtain st1 where st1: "(if md5 then process xs (word_of_nat (length xs)) st else Some st) = Some st1" "md5 \<Longrightarrow> sum_at bs (k + l) st1"
        using sum_at_step [OF less.prems(4) n(2), of blk l] md less.prems(1) x by (cases md5) (auto simp: l_def xs_def)
      have tmp: "fs s1 tmp = Some (take k bs)" "fds s1 fdst = Some (tmp, length (take k bs))" using c ys F(3) less.prems(2) by auto
      have w: "take l (xs @ drop (length xs) aBuf) = xs" using x by (metis append_eq_conv_conj)
      obtain r2 s2 where r2: "fd_write os fdst xs s1 = (r2, s2)" by fastforce
      note wr = fs_write [OF L tmp(2,1), of xs, unfolded r2]
      have rx: "fd_read os fsrc l s = (Inr xs, s1)" using r1 ys(1) by simp
      have r2': "fd_write os fdst (take l (xs @ drop (length xs) aBuf)) s1 = (r2, s2)" using r2 unfolding w .
      show ?thesis
      proof (cases "r2 = Inr l")
        case False
        then obtain e where e: "copy_loop os blk fsrc fdst md5 progress n aBuf st s = Some (Inl e, s2)"
          using copy_loop_write_fails [OF n(1) l_def rx st1(1) r2' False] by blast
        have "\<forall>f. f \<noteq> tmp \<longrightarrow> fs s2 f = F f" "dom (fds s2) = dom (fds s)" using wr c ys tmp by (auto split: sum.splits)
        then show ?thesis using e by simp
      next
        case True
        have s2: "fs s2 = F(tmp \<mapsto> take (k + l) bs)" "fds s2 = D(fsrc \<mapsto> (m, k + l), fdst \<mapsto> (tmp, k + l))"
          using wr True c ys x F(3) less.prems(2) by (auto simp: xs_def take_add fun_upd_twist)
        obtain go s3 where g: "(if progress then fd_progress os (n - l) s2 else (True, s2)) = (go, s3)" by fastforce
        have s3: "fs s3 = fs s2" "fds s3 = fds s2" "go \<or> progress"
          using g fs_progress [OF L, of "n - l" s2] by (auto split: if_splits)
        have c3: "copying fs fds F D m tmp fsrc fdst bs (k + l) s3" using s2 s3 by (simp add: copying_def)
        have d: "dom (fds s3) = dom (fds s)" using s2 s3 c by auto
        note eq = copy_loop_round [OF n(1) l_def rx st1(1) r2' [unfolded True] g]
        show ?thesis
        proof (cases go)
          case True
          have k: "n - l = length bs - (k + l)" "k + l \<le> length bs" "n - l < n" using l less.prems(1) n by auto
          show ?thesis using less.IH [OF k(3,1,2) c3 st1(2)] True eq d by simp
        next
          case False
          have "length bs - (n - l) = k + l" "n - l \<le> length bs" using l less.prems(1) n by auto
          then show ?thesis using False eq s2 s3 c3 st1(2) d by auto
        qed
      qed
    qed
  qed
qed

lemma set_mod_time_fs:
  assumes "file_system os fs fds" "set_mod_time os tm f s = (e, s')"
  shows "fs s' = fs s \<and> fds s' = fds s"
proof (cases "file_is_null f")
  case True
  then show ?thesis using assms(2) by (simp add: set_mod_time_def)
next
  case False
  define a where "a = (case fd_times os f s of Inr (st_atime, st_mtime) \<Rightarrow> st_atime | Inl _ \<Rightarrow> tm)"
  have "s' = snd (fd_utime os f a tm s)" using assms(2) False by (auto simp: set_mod_time_def os_try_def a_def Let_def)
  then show ?thesis using fs_utime [OF assms(1)] by blast
qed

lemma copy_handler_fs:
  assumes "file_system os fs fds" "f \<noteq> tmp"
  shows "fs (copy_handler os fsrc fdst tmp s) f = fs s f"
proof -
  obtain e s' where u: "os_unlink (fd_base os) tmp (fd_close os fdst (fd_close os fsrc s)) = (e, s')" by fastforce
  then show ?thesis using fs_unlink [OF assms(1) u] fs_close [OF assms(1)] assms(2) by (auto simp: copy_handler_def)
qed

text \<open>Only the temporary file and the destination differ, and the destination is old or complete.\<close>

definition copied ::
  "('s \<Rightarrow> string \<Rightarrow> byte list option) \<Rightarrow> (string \<Rightarrow> byte list option) \<Rightarrow> byte list \<Rightarrow> string \<Rightarrow> string \<Rightarrow> 's \<Rightarrow> bool" where
  "copied fs F bs tmp dst s \<longleftrightarrow> (\<forall>f. f \<noteq> tmp \<longrightarrow> f \<noteq> dst \<longrightarrow> fs s f = F f) \<and> (fs s dst = F dst \<or> fs s dst = Some bs)"

lemma copy_body_fs:
  assumes L: "file_system os fs fds" and F: "F m = Some bs" "m \<noteq> tmp" "fsrc \<noteq> fdst" and b: "0 < blk"
    and md: "md5 \<Longrightarrow> 64 dvd blk \<and> blk + 128 < 2 ^ 32" and raw: "length (stored raw) = 128" "length (str raw) = 33"
    and m: "length bs < 2 ^ 64" "\<not> file_is_null m" and t: "file_is_valid tmp" "tmp \<noteq> dst" and D: "D fsrc = None" "D fdst = None"
    and c: "copying fs fds F D m tmp fsrc fdst bs 0 s"
  shows "\<exists>r s'. copy_body os blk md5 progress raw fsrc fdst tm tmp dst m s = Some (r, s') \<and> copied fs F bs tmp dst s' \<and>
    (case r of Inl e \<Rightarrow> True
     | Inr (fin, sm) \<Rightarrow> dom (fds s') = dom D \<and> (md5 \<and> fin \<longrightarrow> sm = hex_of (rfc_md5 bs)) \<and>
         (if fin then fs s' dst = Some bs \<and> fs s' tmp = None else progress \<and> fs s' dst = F dst))"
proof -
  have keep: "copied fs F bs tmp dst u" if "\<forall>f. f \<noteq> tmp \<longrightarrow> fs u f = F f" for u using that t(2) by (auto simp: copied_def)
  have fsm: "fs s m = Some bs" using c F by (simp add: copying_def)
  have keep0: "copied fs F bs tmp dst s" by (rule keep) (use c in \<open>simp add: copying_def\<close>)
  show ?thesis
  proof (cases "file_size64 (fd_base os) s m")
    case (Inl e)
    then show ?thesis using keep0 by (simp add: copy_body_def)
  next
    case (Inr sz)
    obtain x where x: "os_stat (fd_base os) m s = Inr x" "sz = of_nat (snd x)"
      using Inr m(2) by (cases "os_stat (fd_base os) m s") (auto simp: file_size64_def)
    then have "snd x = length bs" using fs_stat [where mode = "fst x" and n = "snd x", OF L _ fsm] by simp
    then have sz: "unat sz = length bs" using m(1) x(2) by (simp add: unsigned_of_nat take_bit_nat_eq_self)
    have s0: "sum_at bs 0 (initialise raw)" using initialise_inv [OF raw] by (auto simp: sum_at_def)
    have "length bs = length bs - 0" "0 \<le> length bs" by simp_all
    from copy_loop_fs [where progress = progress and aBuf = "replicate blk 0", OF L F b md this c s0]
    obtain r s1 where l: "copy_loop os blk fsrc fdst md5 progress (length bs) (replicate blk 0) (initialise raw) s = Some (r, s1)"
      "\<forall>f. f \<noteq> tmp \<longrightarrow> fs s1 f = F f"
      "case r of Inl e \<Rightarrow> True
       | Inr (n', st') \<Rightarrow> n' \<le> length bs \<and> (0 < n' \<longrightarrow> progress) \<and> copying fs fds F D m tmp fsrc fdst bs (length bs - n') s1 \<and>
           (md5 \<longrightarrow> sum_at bs (length bs - n') st')" by blast
    show ?thesis
    proof (cases r)
      case (Inl e)
      then show ?thesis using Inr l keep by (simp add: copy_body_def sz)
    next
      case r: (Inr x)
      obtain n' st' where x: "x = (n', st')" by fastforce
      have p: "n' \<le> length bs" "0 < n' \<longrightarrow> progress" "copying fs fds F D m tmp fsrc fdst bs (length bs - n') s1" "md5 \<longrightarrow> sum_at bs (length bs - n') st'"
        using l(3) unfolding r x by simp_all
      define u where "u = fd_close os fdst (fd_close os fsrc s1)"
      have u: "fs u = F(tmp \<mapsto> take (length bs - n') bs)" "fds u = D" using p(3) fs_close [OF L] D by (auto simp: u_def copying_def fun_eq_iff)
      obtain sm where sm: "(if md5 then sum_text st' else Some []) = Some sm" "md5 \<longrightarrow> sm = hex_of (rfc_md5 (take (length bs - n') bs))"
        using p(4) sum_at_text by (cases md5) auto
      have eq: "copy_body os blk md5 progress raw fsrc fdst tm tmp dst m s =
          (if n' > 0 then Some (Inr (False, sm), snd (os_unlink (fd_base os) tmp u))
           else let (e, s) = set_mod_time os tm tmp u
                in case e of Some e \<Rightarrow> Some (Inl e, s)
                   | None \<Rightarrow> let (r, s) = file_rename (fd_base os) dst tmp s in Some (case r of Inl e \<Rightarrow> (Inl e, s) | Inr _ \<Rightarrow> (Inr (True, sm), s)))"
        using Inr l(1) sm(1) unfolding r x by (simp add: copy_body_def sz u_def)
      show ?thesis
      proof (cases "n' > 0")
        case True
        obtain e v where v: "os_unlink (fd_base os) tmp u = (e, v)" by fastforce
        then have "\<forall>f. f \<noteq> tmp \<longrightarrow> fs v f = F f" "dom (fds v) = dom D" using fs_unlink [OF L v] u by auto
        then show ?thesis using True eq v keep p(2) t(2) by simp
      next
        case False
        obtain e v where v: "set_mod_time os tm tmp u = (e, v)" by fastforce
        have fv: "fs v = F(tmp \<mapsto> bs)" "fds v = D" using set_mod_time_fs [OF L v] u False by simp_all
        show ?thesis
        proof (cases e)
          case (Some a)
          then show ?thesis using False eq v fv keep by simp
        next
          case None
          obtain e2 w where w: "os_rename (fd_base os) tmp dst v = (e2, w)" by fastforce
          have fw: "fs w = (if e2 = None then F(tmp := None, dst \<mapsto> bs) else F(tmp \<mapsto> bs))" "dom (fds w) = dom D"
            using fs_rename [OF L w] fv by auto
          then have "copied fs F bs tmp dst w" using t(2) by (auto simp: copied_def)
          then show ?thesis using False eq v None w fw sm(2) t by (cases e2) (auto simp: file_rename_def split: sum.splits)
        qed
      qed
    qed
  qed
qed

text \<open>What a call of \<open>priv_copy\<close> leaves of the state \<open>s\<close>.\<close>

definition copy_outcome ::
  "('s \<Rightarrow> string \<Rightarrow> byte list option) \<Rightarrow> ('s \<Rightarrow> nat \<Rightarrow> (string \<times> nat) option) \<Rightarrow> byte list \<Rightarrow> string \<Rightarrow> string \<Rightarrow> bool \<Rightarrow> bool \<Rightarrow> 's \<Rightarrow>
     file_error + string option \<Rightarrow> 's \<Rightarrow> bool" where
  "copy_outcome fs fds bs tmp dst md5sum_p progress s r s' \<longleftrightarrow>
     (\<forall>f. f \<noteq> tmp \<longrightarrow> f \<noteq> dst \<longrightarrow> fs s' f = fs s f) \<and>
     (case r of
        Inl e \<Rightarrow> fs s' dst = fs s dst \<or> fs s' dst = Some bs
      | Inr sm \<Rightarrow> dom (fds s') = dom (fds s) \<and>
          (fs s' dst = Some bs \<and> fs s' tmp = None \<and> sm = (if md5sum_p then Some (hex_of (rfc_md5 bs)) else None)
           \<or> progress \<and> fs s' dst = fs s dst))"

lemma copy_outcome_fails: "fs s' = fs s \<Longrightarrow> copy_outcome fs fds bs tmp dst md5sum_p progress s (Inl e) s'"
  by (simp add: copy_outcome_def)

text \<open>From the temporary file on.\<close>

definition copy_rest ::
  "'s fd_os \<Rightarrow> nat \<Rightarrow> bool \<Rightarrow> bool \<Rightarrow> bool \<Rightarrow> (int \<times> int) option \<Rightarrow> md5_t \<Rightarrow> nat \<Rightarrow> nat \<Rightarrow> int \<Rightarrow> string \<Rightarrow> string \<Rightarrow> string \<Rightarrow> 's \<Rightarrow>
     ((file_error + string option) \<times> 's) option" where
  "copy_rest os blk progress md5sum_p keep_metadata owner raw fsrc fdst tm tmp dst m s =
     Option.bind (copy_body os blk md5sum_p progress raw fsrc fdst tm tmp dst m s) (\<lambda>(r, s).
       Some (case r of
         Inl e \<Rightarrow> (Inl e, copy_handler os fsrc fdst tmp s)
       | Inr (fin, md5sum) \<Rightarrow>
           (Inr (if md5sum_p then Some md5sum else None),
            case owner of Some (uid, gid) \<Rightarrow> if fin \<and> keep_metadata then snd (file_chown (fd_base os) uid gid dst s) else s | None \<Rightarrow> s)))"

lemma copy_rest_fs:
  assumes L: "file_system os fs fds" and F: "fs s m = Some bs" "m \<noteq> tmp" and b: "0 < blk"
    and md: "md5sum_p \<Longrightarrow> 64 dvd blk \<and> blk + 128 < 2 ^ 32" and raw: "length (stored raw) = 128" "length (str raw) = 33"
    and m: "length bs < 2 ^ 64" "\<not> file_is_null m" and t: "file_is_valid tmp" "tmp \<noteq> dst"
    and c: "fs s2 = (fs s)(tmp \<mapsto> [])" "fds s1 fdst = None" "fds s2 = (fds s1)(fdst \<mapsto> (tmp, 0))" "fds s1 = (fds s)(fsrc \<mapsto> (m, 0))" "fds s fsrc = None"
  shows "\<exists>r s'. copy_rest os blk progress md5sum_p keep_metadata owner raw fsrc fdst tm tmp dst m s2 = Some (r, s') \<and>
    copy_outcome fs fds bs tmp dst md5sum_p progress s r s'"
proof -
  have d: "fsrc \<noteq> fdst" "fds s fdst = None" using c(2,4) by (auto split: if_splits)
  have "copying fs fds (fs s) (fds s) m tmp fsrc fdst bs 0 s2" using c by (simp add: copying_def)
  from copy_body_fs [where progress = progress and tm = tm and dst = dst, OF L F d(1) b md raw m t c(5) d(2) this]
  obtain r s3 where y: "copy_body os blk md5sum_p progress raw fsrc fdst tm tmp dst m s2 = Some (r, s3)" "copied fs (fs s) bs tmp dst s3"
    "case r of Inl e \<Rightarrow> True
     | Inr (fin, sm) \<Rightarrow> dom (fds s3) = dom (fds s) \<and> (md5sum_p \<and> fin \<longrightarrow> sm = hex_of (rfc_md5 bs)) \<and>
         (if fin then fs s3 dst = Some bs \<and> fs s3 tmp = None else progress \<and> fs s3 dst = fs s dst)" by blast
  show ?thesis
  proof (cases r)
    case (Inl e)
    have "copy_outcome fs fds bs tmp dst md5sum_p progress s (Inl e) (copy_handler os fsrc fdst tmp s3)"
      using y(2) copy_handler_fs [OF L] t(2) by (auto simp: copy_outcome_def copied_def)
    then show ?thesis using y(1) Inl by (simp add: copy_rest_def)
  next
    case z: (Inr q)
    obtain fin sm where q: "q = (fin, sm)" by fastforce
    define v where "v = (case owner of Some (uid, gid) \<Rightarrow> if fin \<and> keep_metadata then snd (file_chown (fd_base os) uid gid dst s3) else s3 | None \<Rightarrow> s3)"
    have v: "fs v = fs s3" "dom (fds v) = dom (fds s3)"
      using fs_chown [OF L] by (auto simp: v_def file_chown_def os_try_def split: option.splits)
    have "copy_outcome fs fds bs tmp dst md5sum_p progress s (Inr (if md5sum_p then Some sm else None)) v"
      using y(2,3) v unfolding z q by (auto simp: copy_outcome_def copied_def split: if_splits)
    then show ?thesis using y(1) by (simp add: copy_rest_def z q v_def)
  qed
qed

text \<open>
  C30: A copy is exact and all or nothing. In a file system in which reads are complete (writes may be short, and every call may fail), \<open>priv_copy\<close> returns,
  for a block of any size, with and without notifications. Whatever its outcome, no file but the temporary one and the destination changes, and the destination
  is what it was or holds the whole contents of the source. When it succeeds and is not cancelled by the notified client, the destination holds the
  contents, the temporary file is gone and no descriptor stays open; if a sum is asked for, it is the MD5 sum of the contents in hexadecimal, provided that the
  block size is a multiple of 64 below \<open>2 ^ 32 - 128\<close>, as the default of \<open>2 ^ 20\<close> is.
\<close>

theorem copy_exact:
  assumes "file_system os fs fds" and "0 < blk" and "md5sum_p \<Longrightarrow> 64 dvd blk \<and> blk + 128 < 2 ^ 32"
    and "length (stored raw) = 128" "length (str raw) = 33"
    and "fs s m = Some bs" "length bs < 2 ^ 64" "\<not> file_is_null m"
    and "copy_dest (fd_base os) s strDst m = Inr dst" "\<not> file_is_null dst"
    and "\<And>s' t. set_path_name (fd_base os) s' (file_path dst) (temp_name dst) = Inr t \<Longrightarrow> t = tmp"
    and "file_is_valid tmp" "tmp \<noteq> dst" "tmp \<noteq> m"
  shows "\<exists>r s'. priv_copy os blk progress strDst md5sum_p keep_metadata owner raw m s = Some (r, s') \<and>
    (\<forall>f. f \<noteq> tmp \<longrightarrow> f \<noteq> dst \<longrightarrow> fs s' f = fs s f) \<and>
    (case r of
       Inl e \<Rightarrow> fs s' dst = fs s dst \<or> fs s' dst = Some bs
     | Inr sm \<Rightarrow> dom (fds s') = dom (fds s) \<and>
         (fs s' dst = Some bs \<and> fs s' tmp = None \<and> sm = (if md5sum_p then Some (hex_of (rfc_md5 bs)) else None)
          \<or> progress \<and> fs s' dst = fs s dst))"
proof -
  note L = assms(1)
  let ?O = "copy_outcome fs fds bs tmp dst md5sum_p progress s"
  have "\<exists>r s'. priv_copy os blk progress strDst md5sum_p keep_metadata owner raw m s = Some (r, s') \<and> ?O r s'"
  proof (cases "file_exist (fd_base os) s m \<and> m \<noteq> dst \<and> \<not> isl (os_stat (fd_base os) m s)")
    case False
    then show ?thesis using assms(9,10) by (auto simp: priv_copy_def copy_outcome_fails split: sum.splits)
  next
    case True
    then obtain mode n where st: "os_stat (fd_base os) m s = Inr (mode, n)" by (cases "os_stat (fd_base os) m s") auto
    obtain r1 s1 where o: "fd_open os m s = (r1, s1)" by fastforce
    note op = fs_open [where f = m and s = s, OF L, unfolded o]
    have pre: "priv_copy os blk progress strDst md5sum_p keep_metadata owner raw m s =
      (case r1 of Inl errno \<Rightarrow> Some (Inl (throw_from_errno errno), s1)
       | Inr fsrc \<Rightarrow>
         case file_mod_time os m s1 of Inl e \<Rightarrow> Some (Inl e, s1)
         | Inr tm \<Rightarrow>
           case set_path_name (fd_base os) s1 (file_path dst) (temp_name dst) of Inl e \<Rightarrow> Some (Inl e, s1)
           | Inr t \<Rightarrow>
             case fd_creat os t mode s1 of
               (Inl errno, s) \<Rightarrow> let s = fd_close os fsrc s in Some (Inl (throw_from_errno (fd_errno os s)), s)
             | (Inr fdst, s) \<Rightarrow>
               Option.bind (copy_body os blk md5sum_p progress raw fsrc fdst tm t dst m s) (\<lambda>(r, s).
                 Some (case r of
                   Inl e \<Rightarrow> (Inl e, copy_handler os fsrc fdst t s)
                 | Inr (fin, md5sum) \<Rightarrow>
                     (Inr (if md5sum_p then Some md5sum else None),
                      case owner of Some (uid, gid) \<Rightarrow> if fin \<and> keep_metadata then snd (file_chown (fd_base os) uid gid dst s) else s | None \<Rightarrow> s))))"
      using True st o assms(9,10) by (simp add: priv_copy_def)
    show ?thesis
    proof (cases "\<exists>fsrc tm t. r1 = Inr fsrc \<and> file_mod_time os m s1 = Inr tm \<and> set_path_name (fd_base os) s1 (file_path dst) (temp_name dst) = Inr t")
      case False
      then show ?thesis using op by (auto simp: pre copy_outcome_fails split: sum.splits)
    next
      case True
      then obtain fsrc tm where x: "r1 = Inr fsrc" "file_mod_time os m s1 = Inr tm" "set_path_name (fd_base os) s1 (file_path dst) (temp_name dst) = Inr tmp"
        using assms(11) by blast
      obtain r2 s2 where cr: "fd_creat os tmp mode s1 = (r2, s2)" by fastforce
      note op = op [unfolded x(1), simplified] and cp = fs_creat [where f = tmp and mode = mode and s = s1, OF L, unfolded cr]
      show ?thesis
      proof (cases r2)
        case (Inl e)
        then show ?thesis using x cr cp op fs_close [OF L] by (simp add: pre Let_def copy_outcome_fails)
      next
        case (Inr fdst)
        show ?thesis
          using copy_rest_fs [where md5sum_p = md5sum_p and progress = progress and ?s1.0 = s1 and ?s2.0 = s2 and fsrc = fsrc and fdst = fdst and tm = tm and keep_metadata = keep_metadata and owner = owner,
            OF L assms(6) assms(14) [symmetric] assms(2,3,4,5,7,8,12,13)] cp op Inr x cr
          by (simp add: pre copy_rest_def)
      qed
    qed
  qed
  then show ?thesis by (simp add: copy_outcome_def)
qed

section \<open>A system for examples\<close>

text \<open>What is left of the source, what was written, and the closed descriptors.\<close>

record mem_state =
  mem_src :: "byte list"
  mem_dst :: "byte list"
  mem_closed :: "nat list"

definition mem_base :: "int option \<Rightarrow> mem_state os" where
  "mem_base rename_error =
     \<lparr>os_getcwd = (\<lambda>s. ''/''), os_stat = (\<lambda>p s. Inr (S_IFREG, length (mem_src s))), os_lstat = (\<lambda>p s. Inl ENOENT),
      os_access = (\<lambda>p m s. True), os_mkdir = (\<lambda>p m s. (None, s)), os_chmod = (\<lambda>p m s. (None, s)), os_chown = (\<lambda>p u g s. (None, s)),
      os_lchown = (\<lambda>p u g s. (None, s)), os_unlink = (\<lambda>p s. (None, s)), os_rename = (\<lambda>p q s. (rename_error, s)),
      os_symlink = (\<lambda>p q s. (Some ENOENT, s))\<rparr>"

definition mem_os :: "int option \<Rightarrow> mem_state fd_os" where
  "mem_os rename_error =
     \<lparr>fd_base = mem_base rename_error, fd_open = (\<lambda>p s. (Inr 3, s)), fd_creat = (\<lambda>p m s. (Inr 4, s)),
      fd_read = (\<lambda>d n s. (Inr (take n (mem_src s)), s\<lparr>mem_src := drop n (mem_src s)\<rparr>)),
      fd_write = (\<lambda>d bs s. (Inr (length bs), s\<lparr>mem_dst := mem_dst s @ bs\<rparr>)),
      fd_close = (\<lambda>d s. s\<lparr>mem_closed := mem_closed s @ [d]\<rparr>), fd_errno = (\<lambda>s. 0), fd_times = (\<lambda>p s. Inr (0, 0)),
      fd_utime = (\<lambda>p a m s. (None, s)), fd_progress = (\<lambda>n s. (True, s)), fd_fsid = (\<lambda>p s. Inr 1)\<rparr>"

section \<open>A file system in memory\<close>

record ram =
  r_files :: "(string \<times> byte list) list"
  r_fds :: "(string \<times> nat) option list"

definition ram_fs :: "ram \<Rightarrow> string \<Rightarrow> byte list option" where
  "ram_fs s = map_of (r_files s)"

definition ram_fds :: "ram \<Rightarrow> nat \<Rightarrow> (string \<times> nat) option" where
  "ram_fds s d = (if d < length (r_fds s) then r_fds s ! d else None)"

definition ram_base :: "ram os" where
  "ram_base =
     \<lparr>os_getcwd = (\<lambda>s. ''/''), os_stat = (\<lambda>f s. case ram_fs s f of None \<Rightarrow> Inl ENOENT | Some bs \<Rightarrow> Inr (S_IFREG, length bs)),
      os_lstat = (\<lambda>f s. Inl ENOENT), os_access = (\<lambda>f m s. ram_fs s f \<noteq> None), os_mkdir = (\<lambda>f m s. (Some 13, s)),
      os_chmod = (\<lambda>f m s. (None, s)), os_chown = (\<lambda>f u g s. (None, s)), os_lchown = (\<lambda>f u g s. (None, s)),
      os_unlink = (\<lambda>f s. (None, s\<lparr>r_files := filter (\<lambda>(g, _). g \<noteq> f) (r_files s)\<rparr>)),
      os_rename = (\<lambda>f g s. case ram_fs s f of
         None \<Rightarrow> (Some ENOENT, s)
       | Some bs \<Rightarrow> (None, s\<lparr>r_files := (g, bs) # filter (\<lambda>(h, _). h \<noteq> f) (r_files s)\<rparr>)),
      os_symlink = (\<lambda>f g s. (Some 13, s))\<rparr>"

definition ram_os :: "ram fd_os" where
  "ram_os =
     \<lparr>fd_base = ram_base,
      fd_open = (\<lambda>f s. case ram_fs s f of None \<Rightarrow> (Inl ENOENT, s) | Some bs \<Rightarrow> (Inr (length (r_fds s)), s\<lparr>r_fds := r_fds s @ [Some (f, 0)]\<rparr>)),
      fd_creat = (\<lambda>f m s. (Inr (length (r_fds s)), s\<lparr>r_files := (f, []) # r_files s, r_fds := r_fds s @ [Some (f, 0)]\<rparr>)),
      fd_read = (\<lambda>d n s. case ram_fds s d of None \<Rightarrow> (Inl 9, s) | Some (f, k) \<Rightarrow> (case ram_fs s f of None \<Rightarrow> (Inl 9, s) | Some bs \<Rightarrow>
         (Inr (take n (drop k bs)), s\<lparr>r_fds := (r_fds s)[d := Some (f, k + length (take n (drop k bs)))]\<rparr>))),
      fd_write = (\<lambda>d ys s. case ram_fds s d of None \<Rightarrow> (Inl 9, s) | Some (f, k) \<Rightarrow> (case ram_fs s f of None \<Rightarrow> (Inl 9, s) | Some bs \<Rightarrow>
         (Inr (length ys), s\<lparr>r_files := (f, take k bs @ ys @ drop (k + length ys) bs) # r_files s, r_fds := (r_fds s)[d := Some (f, k + length ys)]\<rparr>))),
      fd_close = (\<lambda>d s. s\<lparr>r_fds := (r_fds s)[d := None]\<rparr>), fd_errno = (\<lambda>s. 0), fd_times = (\<lambda>f s. Inr (0, 0)),
      fd_utime = (\<lambda>f a t s. (None, s)), fd_progress = (\<lambda>n s. (True, s)), fd_fsid = (\<lambda>f s. Inr 1)\<rparr>"

lemma ram_fs_simps [simp]:
  "ram_fs (s\<lparr>r_fds := x\<rparr>) = ram_fs s" "ram_fs (s\<lparr>r_files := (f, bs) # l, r_fds := x\<rparr>) = (map_of l)(f \<mapsto> bs)"
  "ram_fs (s\<lparr>r_files := l\<rparr>) = map_of l"
  "ram_fds (s\<lparr>r_files := l\<rparr>) = ram_fds s" "ram_fds (s\<lparr>r_files := l, r_fds := x\<rparr>) = ram_fds (s\<lparr>r_fds := x\<rparr>)"
  by (auto simp: ram_fs_def ram_fds_def fun_eq_iff)

lemma ram_fds_simps [simp]:
  "ram_fds (s\<lparr>r_fds := r_fds s @ [x]\<rparr>) = (ram_fds s)(length (r_fds s) := x)" "ram_fds s (length (r_fds s)) = None"
  by (auto simp: ram_fds_def fun_eq_iff nth_append)

lemma ram_fds_update: "ram_fds s d \<noteq> None \<or> x = None \<Longrightarrow> ram_fds (s\<lparr>r_fds := (r_fds s)[d := x]\<rparr>) = (ram_fds s)(d := x)"
  by (auto simp: ram_fds_def fun_eq_iff nth_list_update split: if_splits)

lemma map_of_without: "map_of (filter (\<lambda>(g, _). g \<noteq> f) l) = (map_of l)(f := None)"
  by (induction l) (auto simp: fun_eq_iff)

lemma ram_file_system: "file_system ram_os ram_fs ram_fds"
  unfolding file_system_def
  by (intro conjI) (auto simp: ram_os_def ram_base_def ram_fds_update map_of_without ram_fs_def [symmetric] fun_eq_iff split: option.splits prod.splits)

lemma ram_set_name:
  assumes "set_full_name ram_base s f = Inr f" "cstr f = f" "\<not> file_is_null f" "CHR ''*'' \<notin> set f" "CHR ''?'' \<notin> set f" "\<not> is_path_name f"
  shows "set_name ram_base s f = Inr f"
  using assms
  by (auto simp: set_name_def path_exist_def ram_base_def Let_def S_IFREG_def S_IFDIR_def split: option.splits sum.splits)

text \<open>The name of the temporary file for \<open>/b\<close>.\<close>

definition ram_temp :: string where
  "ram_temp = ''/.temp7d66407b49cd414''"

lemma hash64_b: "hash64 ''/b'' = 564748787539301396"
  by (simp add: hash64_def schar_def)

lemma temp_name_b: "temp_name ''/b'' = ''.temp7d66407b49cd414''"
  by (simp add: temp_name_def hash64_b out_int_def oss_ctor_def pad_out_def radix_text.simps digit_char_def) code_simp

lemma ram_temp_name: "set_path_name ram_base s (file_path ''/b'') (temp_name ''/b'') = Inr ram_temp"
proof -
  have t: "ram_temp = ''/'' @ temp_name ''/b''" by (simp add: ram_temp_def temp_name_b)
  have c: "convert_separators (file_path ''/b'') = ''/''" "convert_separators ''.temp7d66407b49cd414'' = ''.temp7d66407b49cd414''" "ends_with_char ''/'' SEP_PATH" by code_simp+
  have "set_name ram_base s ram_temp = Inr ram_temp"
  proof (rule ram_set_name)
    have "cstr ram_temp \<noteq> []" "convert_separators (cstr ram_temp) = ram_temp" "ram_temp \<noteq> null_path" "ram_temp \<noteq> null_file_name"
      "match ram_temp ''/dev/null/*'' \<noteq> Some True" "is_sep_path (ram_temp ! 0)" by code_simp+
    then show "set_full_name ram_base s ram_temp = Inr ram_temp" by (simp add: set_full_name_def)
  qed code_simp+
  then show ?thesis using t c by (simp add: set_path_name_def temp_name_b)
qed

text \<open>The copy of a file with two bytes, without a sum, succeeds.\<close>

lemma ram_copy_returns:
  "\<exists>s'. priv_copy ram_os 64 False ''/b'' False False None some_md5 ''/a'' \<lparr>r_files = [(''/a'', [1, 2])], r_fds = []\<rparr> = Some (Inr None, s')"
proof -
  let ?s = "\<lparr>r_files = [(''/a'', [1, 2])], r_fds = []\<rparr>"
  have n: "set_name ram_base s ''/b'' = Inr ''/b''" for s
  proof (rule ram_set_name)
    have "cstr ''/b'' \<noteq> []" "convert_separators (cstr ''/b'') = ''/b''" "''/b'' \<noteq> null_path" "''/b'' \<noteq> null_file_name"
      "match ''/b'' ''/dev/null/*'' \<noteq> Some True" "is_sep_path (''/b'' ! 0)" by code_simp+
    then show "set_full_name ram_base s ''/b'' = Inr ''/b''" by (simp add: set_full_name_def)
  qed code_simp+
  have v: "\<not> file_is_null ''/a''" "\<not> file_is_null ''/b''" "\<not> is_path_name ''/b''" "file_is_valid ram_temp" "\<not> file_is_null ram_temp"
    "ram_temp \<noteq> ''/a''" by code_simp+
  have os: "fd_base ram_os = ram_base" "os_stat ram_base f s = (case ram_fs s f of None \<Rightarrow> Inl ENOENT | Some bs \<Rightarrow> Inr (S_IFREG, length bs))"
    "os_access ram_base f k s = (ram_fs s f \<noteq> None)" for f k s by (simp_all add: ram_os_def ram_base_def)
  have e: "file_exist ram_base ?s ''/a''" by (simp add: file_exist_def os ram_fs_def S_IFREG_def)
  define s2 where "s2 = \<lparr>r_files = [(ram_temp, []), (''/a'', [1, 2])], r_fds = [Some (''/a'', 0), Some (ram_temp, 0)]\<rparr>"
  define s3 where "s3 = \<lparr>r_files = [(ram_temp, [1, 2]), (ram_temp, []), (''/a'', [1, 2])], r_fds = [Some (''/a'', 2), Some (ram_temp, 2)]\<rparr>"
  have rd: "fd_read ram_os 0 2 s2 = (Inr [1, 2], s2\<lparr>r_fds := [Some (''/a'', 2), Some (ram_temp, 0)]\<rparr>)"
    using v(6) by (simp add: ram_os_def s2_def ram_fds_def ram_fs_def)
  have wr: "fd_write ram_os 1 (take 2 ([1, 2] @ drop (length [1 :: byte, 2]) (replicate 64 0))) (s2\<lparr>r_fds := [Some (''/a'', 2), Some (ram_temp, 0)]\<rparr>) = (Inr 2, s3)"
    by (simp add: ram_os_def s2_def s3_def ram_fds_def ram_fs_def)
  have "copy_loop ram_os 64 0 1 False False 2 (replicate 64 0) st s2 = copy_loop ram_os 64 0 1 False False 0 ([1, 2] @ drop (length [1 :: byte, 2]) (replicate 64 0)) st s3" for st
    using copy_loop_round [of 2 2 64 ram_os 0 s2 "[1, 2]" _ False st st 1 "replicate 64 0" s3 False True s3, OF _ _ rd _ wr] by simp
  then have l: "copy_loop ram_os 64 0 1 False False 2 (replicate 64 0) st s2 = Some (Inr (0, st), s3)" for st
    by (simp add: copy_loop.simps [where llSize = 0])
  have o: "fd_open ram_os ''/a'' ?s = (Inr 0, ?s\<lparr>r_fds := [Some (''/a'', 0)]\<rparr>)" "fd_creat ram_os ram_temp mode (?s\<lparr>r_fds := [Some (''/a'', 0)]\<rparr>) = (Inr 1, s2)"
    "fd_times ram_os f s = Inr (0, 0)" "fd_utime ram_os f x y s = (None, s)" for mode f x y s
    by (simp_all add: ram_os_def s2_def ram_fs_def)
  have st: "ram_fs ?s ''/a'' = Some [1, 2]" "ram_fs s2 ''/a'' = Some [1, 2]" using v(6) by (simp_all add: ram_fs_def s2_def)
  have r: "\<exists>s'. os_rename ram_base ram_temp ''/b'' (fd_close ram_os 1 (fd_close ram_os 0 s3)) = (None, s')"
    by (simp add: ram_os_def ram_base_def s3_def ram_fs_def)
  have d: "copy_dest ram_base ?s ''/b'' ''/a'' = Inr ''/b''" using n v by (simp add: copy_dest_def)
  have z: "file_size64 ram_base s2 ''/a'' = Inr 2" using st v by (simp add: file_size64_def os)
  obtain s4 where r4: "file_rename ram_base ''/b'' ram_temp (fd_close ram_os 1 (fd_close ram_os 0 s3)) = (Inr ''/b'', s4)"
    using r n v by (auto simp: file_rename_def)
  have "copy_body ram_os 64 False False some_md5 0 1 0 ram_temp ''/b'' ''/a'' s2 = Some (Inr (True, []), s4)"
    using z l r4 v o by (simp add: copy_body_def os set_mod_time_def os_try_def)
  then show ?thesis
    using e d v o st os ram_temp_name by (simp add: priv_copy_def file_mod_time_def)
qed

theorem copy_exact_witness:
  "case priv_copy ram_os 64 False ''/b'' False False None some_md5 ''/a'' \<lparr>r_files = [(''/a'', [1, 2])], r_fds = []\<rparr> of
     Some (Inr x, s') \<Rightarrow> ram_fs s' ''/a'' = Some [1, 2] \<and> ram_fs s' ''/b'' = Some [1, 2] \<and> ram_fs s' ram_temp = None
   | _ \<Rightarrow> False"
proof -
  let ?s = "\<lparr>r_files = [(''/a'', [1, 2])], r_fds = []\<rparr>"
  have b: "fd_base ram_os = ram_base" by (simp add: ram_os_def)
  have m: "ram_fs ?s ''/a'' = Some [1, 2]" by (simp add: ram_fs_def)
  have d: "copy_dest (fd_base ram_os) ?s ''/b'' ''/a'' = Inr ''/b''" by code_simp
  have v: "file_is_valid ram_temp" "ram_temp \<noteq> ''/b''" "ram_temp \<noteq> ''/a''" "\<not> file_is_null ''/a''" "\<not> file_is_null ''/b''" by code_simp+
  obtain s' where r: "priv_copy ram_os 64 False ''/b'' False False None some_md5 ''/a'' ?s = Some (Inr None, s')" using ram_copy_returns by blast
  have "\<exists>r s'. priv_copy ram_os 64 False ''/b'' False False None some_md5 ''/a'' ?s = Some (r, s') \<and>
    (\<forall>f. f \<noteq> ram_temp \<longrightarrow> f \<noteq> ''/b'' \<longrightarrow> ram_fs s' f = ram_fs ?s f) \<and>
    (case r of
       Inl e \<Rightarrow> ram_fs s' ''/b'' = ram_fs ?s ''/b'' \<or> ram_fs s' ''/b'' = Some [1, 2]
     | Inr sm \<Rightarrow> dom (ram_fds s') = dom (ram_fds ?s) \<and>
         (ram_fs s' ''/b'' = Some [1, 2] \<and> ram_fs s' ram_temp = None \<and> sm = (if False then Some (hex_of (rfc_md5 [1, 2])) else None)
          \<or> False \<and> ram_fs s' ''/b'' = ram_fs ?s ''/b''))"
    by (rule copy_exact [OF ram_file_system _ _ some_md5_sizes m _ v(4) d v(5) _ v(1,2,3)]) (auto simp: b ram_temp_name)
  then have "ram_fs s' ''/a'' = ram_fs ?s ''/a''" "ram_fs s' ''/b'' = Some [1, 2]" "ram_fs s' ram_temp = None"
    using r v(3) by auto
  then show ?thesis using r m by simp
qed

section \<open>Where copies go wrong\<close>

text \<open>
  A copy writes as many bytes as it has asked for, not as many as it has got: if a read gives less, the copy succeeds and its file has
  zeros in place of the rest.
\<close>

theorem copy_short_read:
  assumes "0 < n" and "n \<le> blk" and "fd_read os fsrc n s = (Inr bs, s1)" and "length bs < n"
    and "fd_write os fdst (bs @ replicate (n - length bs) 0) s1 = (Inr n, s2)"
  shows "copy_loop os blk fsrc fdst False False n (replicate blk 0) st s = Some (Inr (0, st), s2)"
proof -
  have l: "(if n < blk then n else blk) = n" using assms(2) by simp
  have "take n (bs @ drop (length bs) (replicate blk (0 :: byte))) = bs @ replicate (n - length bs) 0"
    using assms(2,4) by (simp add: min_def)
  then show ?thesis using assms
    by (subst copy_loop.simps) (simp add: l Let_def copy_loop.simps del: take_append)
qed

theorem copy_short_read_witness:
  "\<exists>s'. copy_loop ((mem_os None)\<lparr>fd_read := (\<lambda>d n s. (Inr [1, 2], s))\<rparr>) 8 3 4 False False 4 (replicate 8 0) some_md5
          \<lparr>mem_src = [1, 2, 3, 4], mem_dst = [], mem_closed = []\<rparr> = Some (Inr (0, some_md5), s') \<and> mem_dst s' = [1, 2, 0, 0]"
  using copy_short_read [of 4 8 "(mem_os None)\<lparr>fd_read := (\<lambda>d n s. (Inr [1, 2], s))\<rparr>" 3 "\<lparr>mem_src = [1, 2, 3, 4], mem_dst = [], mem_closed = []\<rparr>" "[1, 2]" _ 4]
  by (simp add: mem_os_def numeral_2_eq_2)

text \<open>
  \<open>md5sum\<close> does not return for a file that is cut while it is read: at its end a read gives nothing, the loop goes on as long as bytes
  of the former size are missing.
\<close>

theorem md5sum_hangs:
  assumes "\<forall>n s. at_end s \<longrightarrow> (\<exists>s'. fd_read os fsrc n s = (Inr [], s') \<and> at_end s')" and "at_end s" and "0 < llSize"
  shows "sum_loop os blk fsrc llSize st s = None"
proof -
  have k: "sum_loop o1 b f n st s = Some y \<Longrightarrow> o1 = os \<and> f = fsrc \<longrightarrow> \<not> (at_end s \<and> 0 < n)" for o1 b f n st s y
  proof (rule sum_loop.raw_induct [where P = "\<lambda>o1 b f n st s y. o1 = os \<and> f = fsrc \<longrightarrow> \<not> (at_end s \<and> 0 < n)"])
    fix rec and o1 :: "'a fd_os" and b f n :: nat and st :: md5_t and s :: 'a and y
    assume IH: "\<And>o1 b f n st s y. rec o1 b f n st s = Some y \<Longrightarrow> o1 = os \<and> f = fsrc \<longrightarrow> \<not> (at_end s \<and> 0 < n)"
      and R: "(if n = 0 then Some (Inr st, s)
        else let lToRead = if n < b then n else b; (r, s) = fd_read o1 f lToRead s
             in if isl r then Some (Inl (throw_from_errno (projl r)), s)
                else Option.bind (process (projr r) (word_of_nat (length (projr r))) st) (\<lambda>st. rec o1 b f (n - length (projr r)) st s)) = Some y"
    show "o1 = os \<and> f = fsrc \<longrightarrow> \<not> (at_end s \<and> 0 < n)"
    proof (intro impI notI)
      assume o1: "o1 = os \<and> f = fsrc" and n: "at_end s \<and> 0 < n"
      then obtain s' where "fd_read os fsrc (if n < b then n else b) s = (Inr [], s')" "at_end s'" using assms(1) by blast
      then have "\<exists>st'. rec os b fsrc n st' s' = Some y" using R o1 n by (auto simp: Let_def Option.bind_eq_Some_conv)
      then show False using IH n \<open>at_end s'\<close> by blast
    qed
  qed
  show ?thesis using k [of os blk fsrc llSize st s] assms(2,3) by (cases "sum_loop os blk fsrc llSize st s") blast+
qed

theorem md5sum_hangs_witness:
  "sum_loop (mem_os None) 8 3 4 some_md5 \<lparr>mem_src = [], mem_dst = [], mem_closed = []\<rparr> = None"
  by (rule md5sum_hangs [where at_end = "\<lambda>s. mem_src s = []"]) (simp_all add: mem_os_def)

text \<open>
  If the temporary file of a complete copy cannot be renamed, both descriptors are closed, and then closed again by the handler, when
  they may belong to another thread; the error of the rename is reported.
\<close>

theorem copy_closes_twice:
  assumes "file_size64 (fd_base os) s m = Inr n" and "copy_loop os blk fsrc fdst False progress (unat n) (replicate blk 0) (initialise raw) s = Some (Inr (0, st), s1)"
    and "set_mod_time os tm name (fd_close os fdst (fd_close os fsrc s1)) = (None, s2)" and "file_is_valid name"
    and "os_rename (fd_base os) name dst s2 = (Some errno, s3)"
  shows "copy_body os blk False progress raw fsrc fdst tm name dst m s = Some (Inl (throw_from_errno errno), s3) \<and>
         copy_handler os fsrc fdst name s3 = snd (os_unlink (fd_base os) name (fd_close os fdst (fd_close os fsrc s3)))"
  using assms by (simp add: copy_body_def copy_handler_def file_rename_def Let_def)

theorem copy_closes_twice_witness:
  "\<exists>s. copy_body (mem_os (Some 13)) 8 False False some_md5 3 4 0 ''/d/.temp1'' ''/d/b'' ''/a'' \<lparr>mem_src = [], mem_dst = [], mem_closed = []\<rparr> =
         Some (Inl (PermissionError 13), s) \<and> mem_closed s = [3, 4] \<and> mem_closed (copy_handler (mem_os (Some 13)) 3 4 ''/d/.temp1'' s) = [3, 4, 3, 4]"
proof -
  let ?s = "\<lparr>mem_src = [], mem_dst = [], mem_closed = []\<rparr>" and ?os = "mem_os (Some 13)"
  have b: "fd_base ?os = mem_base (Some 13)" "fd_close ?os d s = s\<lparr>mem_closed := mem_closed s @ [d]\<rparr>" "fd_utime ?os p x y s = (None, s)"
    "fd_times ?os p s = Inr (0, 0)" for d s p x y
    by (simp_all add: mem_os_def)
  have 1: "file_size64 (fd_base ?os) ?s ''/a'' = Inr 0" by (simp add: b file_size64_def file_is_null_def null_path_def mem_base_def)
  have 2: "copy_loop ?os 8 3 4 False False (unat (0 :: 64 word)) (replicate 8 0) (initialise some_md5) ?s = Some (Inr (0, initialise some_md5), ?s)"
    by (simp add: copy_loop.simps)
  have 3: "set_mod_time ?os 0 ''/d/.temp1'' (fd_close ?os 4 (fd_close ?os 3 ?s)) = (None, ?s\<lparr>mem_closed := [3, 4]\<rparr>)"
    by (simp add: b set_mod_time_def file_is_null_def null_path_def os_try_def)
  have 4: "file_is_valid ''/d/.temp1''" by (simp add: file_is_valid_def file_is_empty_def file_is_null_def null_path_def)
  have 5: "os_rename (fd_base ?os) ''/d/.temp1'' ''/d/b'' (?s\<lparr>mem_closed := [3, 4]\<rparr>) = (Some 13, ?s\<lparr>mem_closed := [3, 4]\<rparr>)"
    by (simp add: b mem_base_def)
  have "copy_body ?os 8 False False some_md5 3 4 0 ''/d/.temp1'' ''/d/b'' ''/a'' ?s = Some (Inl (throw_from_errno 13), ?s\<lparr>mem_closed := [3, 4]\<rparr>)"
    by (rule conjunct1 [OF copy_closes_twice [OF 1 2 3 4 5]])
  then show ?thesis by (simp add: throw_from_errno_def copy_handler_def b mem_base_def)
qed

text \<open>
  C31: A file that is moved to its own name, or into its own directory, is lost: \<open>move\<close> removes the destination first, which is the file, and then finds
  nothing to rename or to copy.
\<close>

theorem move_loses_file:
  assumes "file_exist (fd_base os) s m" and "file_is_valid m" and "copy_dest (fd_base os) s strDest m = Inr m"
    and "os_unlink (fd_base os) m s = (None, s1)" and "\<not> file_exist (fd_base os) s1 m" and "fd_fsid os (file_path m) s1 = Inr i"
    and "os_rename (fd_base os) m m s1 = (Some errno, s1)"
  shows "file_move os blk progress owner raw strDest m s = Some (Inl (FileNotFound 0), s1)"
proof -
  have n: "\<not> file_is_null m" using assms(2) by (simp add: file_is_valid_def)
  have r: "file_remove (fd_base os) m s = (None, s1)" using assms(2,4) by (simp add: file_remove_def os_try_def)
  have "file_rename (fd_base os) m m s1 = (Inl (throw_from_errno errno), s1)" using assms(2,7) by (simp add: file_rename_def)
  moreover have "copy_and_remove os blk progress owner raw m m s1 = Some (Inl (FileNotFound 0), s1)"
    using assms(5) by (simp add: copy_and_remove_def priv_copy_def)
  ultimately show ?thesis using assms(1,3,6) n r by (simp add: file_move_def)
qed

text \<open>A system with one file, whose state is whether it exists.\<close>

definition one_file_base :: "string \<Rightarrow> bool os" where
  "one_file_base f =
     \<lparr>os_getcwd = (\<lambda>s. ''/''), os_stat = (\<lambda>p s. if p = f \<and> s then Inr (S_IFREG, 0) else if p = ''/d'' then Inr (S_IFDIR, 0) else Inl ENOENT),
      os_lstat = (\<lambda>p s. Inl ENOENT), os_access = (\<lambda>p m s. p = f \<and> s), os_mkdir = (\<lambda>p m s. (None, s)), os_chmod = (\<lambda>p m s. (None, s)),
      os_chown = (\<lambda>p u g s. (None, s)), os_lchown = (\<lambda>p u g s. (None, s)),
      os_unlink = (\<lambda>p s. if p = f \<and> s then (None, False) else (Some ENOENT, s)),
      os_rename = (\<lambda>p q s. if p = f \<and> s then (None, s) else (Some ENOENT, s)), os_symlink = (\<lambda>p q s. (Some ENOENT, s))\<rparr>"

definition one_file_os :: "string \<Rightarrow> bool fd_os" where
  "one_file_os f =
     \<lparr>fd_base = one_file_base f, fd_open = (\<lambda>p s. (Inl ENOENT, s)), fd_creat = (\<lambda>p m s. (Inl ENOENT, s)),
      fd_read = (\<lambda>d n s. (Inr [], s)), fd_write = (\<lambda>d bs s. (Inr (length bs), s)), fd_close = (\<lambda>d s. s), fd_errno = (\<lambda>s. 0),
      fd_times = (\<lambda>p s. Inr (0, 0)), fd_utime = (\<lambda>p a m s. (None, s)), fd_progress = (\<lambda>n s. (True, s)), fd_fsid = (\<lambda>p s. Inr 1)\<rparr>"

theorem move_loses_file_witness:
  "file_move (one_file_os ''/d/f'') 64 False None some_md5 ''/d/'' ''/d/f'' True = Some (Inl (FileNotFound 0), False)"
proof (rule move_loses_file)
  show "file_exist (fd_base (one_file_os ''/d/f'')) True ''/d/f''" by code_simp
  show "file_is_valid ''/d/f''" by code_simp
  show "copy_dest (fd_base (one_file_os ''/d/f'')) True ''/d/'' ''/d/f'' = Inr ''/d/f''" by code_simp
  show "os_unlink (fd_base (one_file_os ''/d/f'')) ''/d/f'' True = (None, False)" by code_simp
  show "\<not> file_exist (fd_base (one_file_os ''/d/f'')) False ''/d/f''" by code_simp
  show "fd_fsid (one_file_os ''/d/f'') (file_path ''/d/f'') False = Inr 1" by (simp add: one_file_os_def)
  show "os_rename (fd_base (one_file_os ''/d/f'')) ''/d/f'' ''/d/f'' False = (Some 2, False)" by code_simp
qed

end
