(* ===== verification/LockFile.thy ===== *)
theory LockFile
  imports FileName
begin

text \<open>
  File locks and file information: \<open>LockFile\<close> and \<open>AutoLockFile\<close> of \<open>src/file/FileName.cpp\<close> and \<open>src/file/PosixFileImpl.cpp\<close>, and \<open>FileName::info\<close>.
  The calls of the system on descriptors are a parameter. The asynchronous lock, which is a pulser that calls \<open>lock\<close> once,
  is not part of the model.
\<close>

section \<open>Locks\<close>

datatype lock_cmd = SETLK | SETLKW
datatype lock_kind = RDLCK | WRLCK | UNLCK

record 's lock_os =
  lk_open :: "string \<Rightarrow> bool \<Rightarrow> 's \<Rightarrow> (int + nat) \<times> 's"
  lk_fcntl :: "int \<Rightarrow> lock_cmd \<Rightarrow> lock_kind \<Rightarrow> 's \<Rightarrow> int option \<times> 's"
  lk_close :: "int \<Rightarrow> 's \<Rightarrow> 's"

record lock_file =
  m_file_name :: string
  m_write :: bool
  m_fd :: int
  m_lock_cmd :: lock_cmd

text \<open>The constructor leaves \<open>m_lock_cmd\<close> as it is: \<open>raw\<close>.\<close>

definition LockFile_ctor :: "string \<Rightarrow> bool \<Rightarrow> lock_cmd \<Rightarrow> lock_file" where
  "LockFile_ctor fn t raw = \<lparr>m_file_name = fn, m_write = t, m_fd = 0, m_lock_cmd = raw\<rparr>"

definition priv_lock :: "'s lock_os \<Rightarrow> lock_cmd \<Rightarrow> lock_file \<Rightarrow> 's \<Rightarrow> (file_error + bool) \<times> lock_file \<times> 's" where
  "priv_lock os cmd l s =
     (if \<not> file_is_null (m_file_name l) then
        case lk_open os (m_file_name l) (m_write l) s of
          (Inl errno, s) \<Rightarrow> (Inl (throw_from_errno errno), l\<lparr>m_fd := - 1\<rparr>, s)
        | (Inr fd, s) \<Rightarrow>
            let l = l\<lparr>m_fd := int fd\<rparr>;
                (rc, s) = lk_fcntl os (m_fd l) cmd (if m_write l then WRLCK else RDLCK) s
            in (case rc of
                  Some errno \<Rightarrow> if errno = 13 \<or> errno = 11 then (Inr False, l, s) else (Inl (throw_from_errno errno), l, s)
                | None \<Rightarrow> (Inr True, l\<lparr>m_lock_cmd := cmd\<rparr>, s))
      else (Inr True, l, s))"

definition try_lock :: "'s lock_os \<Rightarrow> lock_file \<Rightarrow> 's \<Rightarrow> (file_error + bool) \<times> lock_file \<times> 's" where
  "try_lock os l s = priv_lock os SETLK l s"

definition file_lock :: "'s lock_os \<Rightarrow> lock_file \<Rightarrow> 's \<Rightarrow> file_error option \<times> lock_file \<times> 's" where
  "file_lock os l s = (let (r, l, s) = priv_lock os SETLKW l s in (case r of Inl e \<Rightarrow> Some e | Inr _ \<Rightarrow> None, l, s))"

definition file_unlock :: "'s lock_os \<Rightarrow> lock_file \<Rightarrow> 's \<Rightarrow> file_error option \<times> 's" where
  "file_unlock os l s =
     (let (rc, s) = lk_fcntl os (m_fd l) (m_lock_cmd l) UNLCK s
      in (map_option throw_from_errno rc, lk_close os (m_fd l) s))"

text \<open>A block with an \<open>AutoLockFile\<close>, if its constructor does not throw; what the block does is \<open>body\<close>.\<close>

definition auto_lock :: "'s lock_os \<Rightarrow> lock_file \<Rightarrow> ('s \<Rightarrow> 's) \<Rightarrow> 's \<Rightarrow> file_error option \<times> 's" where
  "auto_lock os l body s =
     (let (e, l, s) = file_lock os l s
      in case e of Some e \<Rightarrow> (Some e, s) | None \<Rightarrow> file_unlock os l (body s))"

section \<open>File information\<close>

text \<open>A time is its number of Unix seconds; the change to local time is left out.\<close>

record file_stat =
  st_mode :: "32 word"
  st_size :: nat
  st_uid :: int
  st_gid :: int
  st_mtime :: int

record 's info_os =
  io_stat :: "string \<Rightarrow> 's \<Rightarrow> int + file_stat"
  io_lstat :: "string \<Rightarrow> 's \<Rightarrow> int + file_stat"
  io_readlink :: "string \<Rightarrow> 's \<Rightarrow> string option"

record file_info =
  is_exist :: bool
  info_size :: nat
  info_mod_time :: int
  info_uid :: int
  info_gid :: int
  info_mode :: "32 word"
  info_is_file :: bool
  info_is_dir :: bool
  info_is_link :: bool
  link_to :: string

definition clear_info :: "file_info \<Rightarrow> file_info" where
  "clear_info i =
     i\<lparr>is_exist := False, info_is_file := False, info_is_dir := False, info_is_link := False, info_uid := 0, info_gid := 0,
       info_mode := 0, info_size := 0, link_to := []\<rparr>"

definition info_mod_time_of :: "'s info_os \<Rightarrow> 's \<Rightarrow> bool \<Rightarrow> string \<Rightarrow> file_error + int" where
  "info_mod_time_of os s stat_link m =
     (if file_is_null m then Inr 0
      else case (if stat_link then io_lstat os m s else io_stat os m s) of
        Inl errno \<Rightarrow> Inl (throw_from_errno errno) | Inr st \<Rightarrow> Inr (st_mtime st))"

definition read_link_to :: "'s info_os \<Rightarrow> 's \<Rightarrow> string \<Rightarrow> file_info \<Rightarrow> file_info" where
  "read_link_to os s m i =
     (if info_is_link i then (case io_readlink os m s of None \<Rightarrow> i | Some t \<Rightarrow> i\<lparr>link_to := link_to i @ take 1024 t\<rparr>) else i)"

definition file_get_info :: "'s info_os \<Rightarrow> 's \<Rightarrow> bool \<Rightarrow> string \<Rightarrow> file_info \<Rightarrow> (file_error option) \<times> file_info" where
  "file_get_info os s follow_link m i =
     (if file_is_null m then (None, clear_info i)
      else case (if follow_link then io_stat os m s else io_lstat os m s) of
        Inl _ \<Rightarrow> (None, read_link_to os s m (i\<lparr>is_exist := False\<rparr>))
      | Inr st \<Rightarrow>
          let i = i\<lparr>is_exist := True, info_size := st_size st, info_mode := st_mode st,
                    info_is_file := (st_mode st AND S_IFREG = S_IFREG), info_is_dir := (st_mode st AND S_IFDIR = S_IFDIR),
                    info_is_link := (st_mode st AND S_IFLNK = S_IFLNK), info_uid := st_uid st, info_gid := st_gid st\<rparr>
          in case info_mod_time_of os s (\<not> follow_link) m of
               Inl e \<Rightarrow> (Some e, i)
             | Inr tm \<Rightarrow> (None, read_link_to os s m (i\<lparr>info_mod_time := tm\<rparr>)))"

section \<open>Descriptors\<close>

text \<open>The open descriptors of the process: \<open>open\<close> adds one that was not there, \<open>close\<close> takes it away, \<open>fcntl\<close> changes none.\<close>

definition descriptors :: "'s lock_os \<Rightarrow> ('s \<Rightarrow> int set) \<Rightarrow> bool" where
  "descriptors os fds \<longleftrightarrow>
     (\<forall>f w s. case lk_open os f w s of
        (Inr fd, s') \<Rightarrow> int fd \<notin> fds s \<and> fds s' = insert (int fd) (fds s) | (Inl e, s') \<Rightarrow> fds s' = fds s) \<and>
     (\<forall>d c k s. fds (snd (lk_fcntl os d c k s)) = fds s) \<and>
     (\<forall>d s. fds (lk_close os d s) = fds s - {d})"

lemma descriptors_open_case:
  assumes "descriptors os fds"
  shows "case lk_open os f w s of (Inr fd, s') \<Rightarrow> int fd \<notin> fds s \<and> fds s' = insert (int fd) (fds s) | (Inl e, s') \<Rightarrow> fds s' = fds s"
  using assms unfolding descriptors_def by (elim conjE allE)

lemma descriptors_open: "descriptors os fds \<Longrightarrow> lk_open os f w s = (Inr fd, s') \<Longrightarrow> int fd \<notin> fds s \<and> fds s' = insert (int fd) (fds s)"
  using descriptors_open_case [where os = os and fds = fds and f = f and w = w and s = s] by simp

lemma descriptors_open_fails: "descriptors os fds \<Longrightarrow> lk_open os f w s = (Inl e, s') \<Longrightarrow> fds s' = fds s"
  using descriptors_open_case [where os = os and fds = fds and f = f and w = w and s = s] by simp

lemma descriptors_fcntl_snd: "descriptors os fds \<Longrightarrow> fds (snd (lk_fcntl os d c k s)) = fds s"
  unfolding descriptors_def by (elim conjE allE)

lemma descriptors_fcntl: "descriptors os fds \<Longrightarrow> lk_fcntl os d c k s = (r, s') \<Longrightarrow> fds s' = fds s"
  using descriptors_fcntl_snd [where os = os and fds = fds and d = d and c = c and k = k and s = s] by simp

lemma descriptors_close: "descriptors os fds \<Longrightarrow> fds (lk_close os d s) = fds s - {d}"
  unfolding descriptors_def by (elim conjE allE)

lemma priv_lock_cases:
  assumes "\<not> file_is_null (m_file_name l)" "priv_lock os cmd l s = (Inr b, l', s')"
  obtains fd s1 rc s2 where "lk_open os (m_file_name l) (m_write l) s = (Inr fd, s1)"
    "lk_fcntl os (int fd) cmd (if m_write l then WRLCK else RDLCK) s1 = (rc, s2)"
    "s' = s2" "l' = (if b then l\<lparr>m_fd := int fd, m_lock_cmd := cmd\<rparr> else l\<lparr>m_fd := int fd\<rparr>)" "b = (rc = None)"
proof (cases "lk_open os (m_file_name l) (m_write l) s")
  case (Pair r s1)
  show ?thesis
  proof (cases r)
    case (Inl e)
    then show ?thesis using assms Pair by (simp add: priv_lock_def)
  next
    case (Inr fd)
    obtain rc s2 where f: "lk_fcntl os (int fd) cmd (if m_write l then WRLCK else RDLCK) s1 = (rc, s2)" by fastforce
    show ?thesis
    proof (rule that)
      show "lk_open os (m_file_name l) (m_write l) s = (Inr fd, s1)" using Pair Inr by simp
      show "lk_fcntl os (int fd) cmd (if m_write l then WRLCK else RDLCK) s1 = (rc, s2)" by (rule f)
    qed (use assms Pair Inr f in \<open>auto simp: priv_lock_def Let_def split: option.splits if_splits\<close>)
  qed
qed

lemma priv_lock_descriptors:
  assumes "descriptors os fds" "\<not> file_is_null (m_file_name l)" "priv_lock os cmd l s = (Inr b, l', s')"
  shows "m_fd l' \<notin> fds s \<and> fds s' = insert (m_fd l') (fds s) \<and> m_file_name l' = m_file_name l"
proof -
  from assms(2,3) obtain fd s1 rc s2 where o: "lk_open os (m_file_name l) (m_write l) s = (Inr fd, s1)"
    and f: "lk_fcntl os (int fd) cmd (if m_write l then WRLCK else RDLCK) s1 = (rc, s2)"
    and e: "s' = s2" "l' = (if b then l\<lparr>m_fd := int fd, m_lock_cmd := cmd\<rparr> else l\<lparr>m_fd := int fd\<rparr>)" by (rule priv_lock_cases) blast
  show ?thesis using descriptors_open [OF assms(1) o] descriptors_fcntl [OF assms(1) f] e by simp
qed

fun try_locks :: "'s lock_os \<Rightarrow> nat \<Rightarrow> lock_file \<Rightarrow> 's \<Rightarrow> (file_error + bool) list \<times> lock_file \<times> 's" where
  "try_locks os 0 l s = ([], l, s)"
| "try_locks os (Suc n) l s = (let (r, l, s) = try_lock os l s; (rs, l, s) = try_locks os n l s in (r # rs, l, s))"

lemma try_locks_descriptors:
  assumes "descriptors os fds" "\<not> file_is_null (m_file_name l)" "finite (fds s)" "try_locks os n l s = (rs, l', s')" "list_all (\<lambda>r. \<not> isl r) rs"
  shows "finite (fds s') \<and> card (fds s') = card (fds s) + n \<and> (0 < n \<longrightarrow> m_fd l' \<in> fds s')"
  using assms
proof (induction n arbitrary: l s rs)
  case 0
  then show ?case by simp
next
  case (Suc n)
  obtain r l1 s1 where r: "try_lock os l s = (r, l1, s1)" by (metis prod_cases3)
  obtain rs1 where rs: "try_locks os n l1 s1 = (rs1, l', s')" "rs = r # rs1" using Suc.prems(4) r by (auto split: prod.splits)
  obtain b where b: "r = Inr b" using Suc.prems(5) rs by (cases r) auto
  have d: "m_fd l1 \<notin> fds s \<and> fds s1 = insert (m_fd l1) (fds s) \<and> m_file_name l1 = m_file_name l"
    using priv_lock_descriptors [OF Suc.prems(1,2), of SETLK] r b by (simp add: try_lock_def)
  have "finite (fds s') \<and> card (fds s') = card (fds s1) + n \<and> (0 < n \<longrightarrow> m_fd l' \<in> fds s')"
    by (rule Suc.IH [OF Suc.prems(1) _ _ rs(1)]) (use Suc.prems d rs in auto)
  moreover have "n = 0 \<Longrightarrow> l' = l1 \<and> s' = s1" using rs(1) by simp
  ultimately show ?case using d Suc.prems(3) by (cases "n = 0") auto
qed

text \<open>
  Attempts to take a lock leave their descriptors open: after \<open>n + 1\<close> attempts without an exception, whether they get the lock or find it taken,
  and one \<open>unlock\<close>, \<open>n\<close> more descriptors are open.
\<close>

theorem lock_leak:
  assumes "descriptors os fds" and "\<not> file_is_null (m_file_name l)" and "finite (fds s)"
    and "try_locks os (Suc n) l s = (rs, l', s')" and "list_all (\<lambda>r. \<not> isl r) rs"
  shows "card (fds (snd (file_unlock os l' s'))) = card (fds s) + n"
proof -
  have "finite (fds s') \<and> card (fds s') = card (fds s) + Suc n \<and> m_fd l' \<in> fds s'" using try_locks_descriptors [OF assms] by simp
  moreover have "fds (snd (file_unlock os l' s')) = fds s' - {m_fd l'}"
    using descriptors_close [OF assms(1)] descriptors_fcntl [OF assms(1)] by (simp add: file_unlock_def Let_def case_prod_beta prod_eq_iff)
  ultimately show ?thesis by (simp add: card_Diff_singleton)
qed

text \<open>A system in which another process holds all locks; the state is the list of the open descriptors, newest first.\<close>

definition taken_os :: "nat list lock_os" where
  "taken_os =
     \<lparr>lk_open = (\<lambda>f w s. let fd = Suc (foldr max s 0) in (Inr fd, fd # s)),
      lk_fcntl = (\<lambda>d c k s. (if k = UNLCK then None else Some 11, s)),
      lk_close = (\<lambda>d s. filter (\<lambda>x. int x \<noteq> d) s)\<rparr>"

lemma max_bound: "(x::nat) \<in> set s \<Longrightarrow> x \<le> foldr max s 0"
  by (induction s) auto

lemma taken_descriptors: "descriptors taken_os (\<lambda>s. int ` set s)"
  using max_bound by (fastforce simp: descriptors_def taken_os_def Let_def)

theorem lock_leak_witness:
  "card (int ` set (snd (file_unlock taken_os (LockFile_ctor ''/f'' True SETLK\<lparr>m_fd := 5\<rparr>) [5, 4, 3, 2]))) = card (int ` set [2::nat]) + 2"
proof (rule lock_leak [OF taken_descriptors])
  show "try_locks taken_os (Suc 2) (LockFile_ctor ''/f'' True SETLK) [2] = ([Inr False, Inr False, Inr False], LockFile_ctor ''/f'' True SETLK\<lparr>m_fd := 5\<rparr>, [5, 4, 3, 2])"
    by code_simp
  show "\<not> file_is_null (m_file_name (LockFile_ctor ''/f'' True SETLK))" by code_simp
qed simp_all

text \<open>
  A block with an \<open>AutoLockFile\<close> gives its descriptor back: when the lock is taken without an exception and the block leaves the descriptors as they
  are, the same descriptors are open after it, also when \<open>unlock\<close> throws.
\<close>

theorem auto_lock_balanced:
  assumes "descriptors os fds" and "\<not> file_is_null (m_file_name l)" and "\<And>s. fds (body s) = fds s" and "fst (file_lock os l s) = None"
  shows "fds (snd (auto_lock os l body s)) = fds s"
proof -
  obtain r l1 s1 where p: "priv_lock os SETLKW l s = (r, l1, s1)" by (metis prod_cases3)
  obtain b where b: "r = Inr b" using assms(4) p by (cases r) (auto simp: file_lock_def)
  have d: "m_fd l1 \<notin> fds s" "fds s1 = insert (m_fd l1) (fds s)" using priv_lock_descriptors [OF assms(1,2)] p b by blast+
  obtain rc s2 where f: "lk_fcntl os (m_fd l1) (m_lock_cmd l1) UNLCK (body s1) = (rc, s2)" by fastforce
  have "fds (lk_close os (m_fd l1) s2) = fds s" using descriptors_close [OF assms(1)] descriptors_fcntl [OF assms(1) f] d assms(3) by simp
  then show ?thesis using p b f by (simp add: auto_lock_def file_lock_def file_unlock_def)
qed

definition free_os :: "nat list lock_os" where
  "free_os = taken_os\<lparr>lk_fcntl := (\<lambda>d c k s. (None, s))\<rparr>"

lemma free_descriptors: "descriptors free_os (\<lambda>s. int ` set s)"
  using max_bound by (fastforce simp: descriptors_def free_os_def taken_os_def Let_def)

theorem auto_lock_balanced_witness:
  "int ` set (snd (auto_lock free_os (LockFile_ctor ''/f'' False SETLK) id [0, 1])) = int ` set [0::nat, 1]"
proof (rule auto_lock_balanced [OF free_descriptors])
  show "\<not> file_is_null (m_file_name (LockFile_ctor ''/f'' False SETLK))" by code_simp
  show "fst (file_lock free_os (LockFile_ctor ''/f'' False SETLK) [0, 1]) = None" by code_simp
qed simp

text \<open>
  An \<open>AutoLockFile\<close> on a null name takes no lock, but its destructor unlocks and closes descriptor 0, the standard input of the process, and hands
  \<open>fcntl\<close> a command that was never set.
\<close>

theorem auto_lock_null:
  assumes "descriptors os fds" and "file_is_null fn"
  shows "fds (snd (auto_lock os (LockFile_ctor fn w raw) body s)) = fds (body s) - {0}"
proof -
  obtain rc s2 where f: "lk_fcntl os 0 raw UNLCK (body s) = (rc, s2)" by fastforce
  have "fds (lk_close os 0 s2) = fds (body s) - {0}" using descriptors_close [OF assms(1)] descriptors_fcntl [OF assms(1) f] by simp
  then show ?thesis using assms(2) f by (simp add: auto_lock_def file_lock_def file_unlock_def priv_lock_def LockFile_ctor_def)
qed

theorem auto_lock_null_witness:
  "int ` set (snd (auto_lock free_os (LockFile_ctor null_path False SETLK) id [0, 1])) = int ` set (id [0::nat, 1]) - {0}"
proof (rule auto_lock_null [OF free_descriptors])
  show "file_is_null null_path" by code_simp
qed

text \<open>
  What \<open>info\<close> says of an existing file, by its kind: it tests the bits of a kind one by one where kinds are numbers, so that a link is also a file, a socket
  is a file and a directory, and a block device is a directory.
\<close>

theorem info_kinds:
  assumes "\<not> file_is_null m" and "(if follow_link then io_stat os m s else io_lstat os m s) = Inr st"
    and "st_mode st AND S_IFMT = k" and "List.member [0x1000, 0x2000, 0x4000, 0x6000, 0x8000, 0xA000, 0xC000] k"
  shows "(let i = snd (file_get_info os s follow_link m i0) in [is_exist i, info_is_file i, info_is_dir i, info_is_link i]) =
    [True, List.member [0x8000, 0xA000, 0xC000] k, List.member [0x4000, 0x6000, 0xC000] k, k = 0xA000]"
proof -
  have r: "st_mode st AND c = k AND c" if "S_IFMT AND c = c" for c using assms(3) that by (metis and.assoc)
  have "st_mode st AND S_IFREG = k AND S_IFREG" "st_mode st AND S_IFDIR = k AND S_IFDIR" "st_mode st AND S_IFLNK = k AND S_IFLNK"
    by (auto intro!: r simp: S_IFMT_def S_IFREG_def S_IFDIR_def S_IFLNK_def)
  then show ?thesis using assms(1,2,4)
    by (auto simp: file_get_info_def read_link_to_def S_IFREG_def S_IFDIR_def S_IFLNK_def Let_def split: sum.splits option.splits)
qed

text \<open>A system in which every name is a socket, a link or a file, by its first letter.\<close>

definition kind_os :: "unit info_os" where
  "kind_os =
     (let st = (\<lambda>p s. Inr \<lparr>st_mode = (if p = ''/s'' then 0xC1ED else if p = ''/l'' then 0xA1FF else 0x81A4), st_size = 0, st_uid = 0, st_gid = 0, st_mtime = 0\<rparr>)
      in \<lparr>io_stat = st, io_lstat = st, io_readlink = (\<lambda>p s. if p = ''/l'' then Some ''/f'' else None)\<rparr>)"

definition no_info :: file_info where
  "no_info =
     \<lparr>is_exist = False, info_size = 0, info_mod_time = 0, info_uid = 0, info_gid = 0, info_mode = 0, info_is_file = False,
      info_is_dir = False, info_is_link = False, link_to = []\<rparr>"

theorem info_kinds_witness:
  "(let i = snd (file_get_info kind_os () True ''/s'' no_info) in [is_exist i, info_is_file i, info_is_dir i, info_is_link i]) =
    [True, List.member [0x8000, 0xA000, 0xC000] (0xC000 :: 32 word), List.member [0x4000, 0x6000, 0xC000] (0xC000 :: 32 word), (0xC000 :: 32 word) = 0xA000]"
proof (rule info_kinds)
  show "\<not> file_is_null ''/s''" by code_simp
  show "(if True then io_stat kind_os ''/s'' () else io_lstat kind_os ''/s'' ()) =
    Inr \<lparr>st_mode = 0xC1ED, st_size = 0, st_uid = 0, st_gid = 0, st_mtime = 0\<rparr>" by (simp add: kind_os_def Let_def)
  show "st_mode \<lparr>st_mode = 0xC1ED, st_size = 0, st_uid = 0, st_gid = 0, st_mtime = 0\<rparr> AND S_IFMT = 0xC000" by (simp add: S_IFMT_def)
  show "List.member [0x1000, 0x2000, 0x4000, 0x6000, 0x8000, 0xA000, 0xC000] (0xC000 :: 32 word)" by code_simp
qed

text \<open>
  \<open>info\<close> appends the target of a link to what the structure holds, so that a structure that is used twice for a link has the target twice.
\<close>

theorem info_appends:
  assumes "\<not> file_is_null m" and "io_lstat os m s = Inr st" and "st_mode st AND S_IFMT = S_IFLNK" and "io_readlink os m s = Some t"
  shows "link_to (snd (file_get_info os s False m (snd (file_get_info os s False m i)))) = link_to i @ take 1024 t @ take 1024 t"
proof -
  have "st_mode st AND S_IFLNK = (st_mode st AND S_IFMT) AND S_IFLNK" by (simp add: and.assoc S_IFMT_def S_IFLNK_def)
  then have "st_mode st AND S_IFLNK = S_IFLNK" using assms(3) by simp
  then show ?thesis using assms(1,2,4) by (simp add: file_get_info_def info_mod_time_of_def read_link_to_def Let_def)
qed

theorem info_appends_witness:
  "link_to (snd (file_get_info kind_os () False ''/l'' (snd (file_get_info kind_os () False ''/l'' no_info)))) = link_to no_info @ take 1024 ''/f'' @ take 1024 ''/f''"
proof (rule info_appends)
  show "\<not> file_is_null ''/l''" by code_simp
  show "io_lstat kind_os ''/l'' () = Inr \<lparr>st_mode = 0xA1FF, st_size = 0, st_uid = 0, st_gid = 0, st_mtime = 0\<rparr>" by (simp add: kind_os_def Let_def)
  show "st_mode \<lparr>st_mode = 0xA1FF, st_size = 0, st_uid = 0, st_gid = 0, st_mtime = 0\<rparr> AND S_IFMT = S_IFLNK" by (simp add: S_IFMT_def S_IFLNK_def)
  show "io_readlink kind_os ''/l'' () = Some ''/f''" by (simp add: kind_os_def Let_def)
qed

end
