(* ===== verification/Allocator.thy ===== *)
theory Allocator
  imports Binary64 Transitions
begin

text \<open>
  The pool of \<open>include/yat/memory/Allocator.h\<close> and \<open>.tpp\<close>: \<open>NewAllocator\<close> and \<open>CachedAllocator\<close>. A pointer
  is a number; \<open>live\<close> holds the blocks that \<open>new\<close> has given and \<open>delete\<close> has not taken back, and \<open>next_ptr\<close> is the
  address of the next one. The deletion of a block that is not there is undefined: \<open>None\<close>. Each operation holds the lock of the pool,
  so that it is one step. \<open>given\<close> records the pointers that the clients have.
\<close>

record pool =
  nb_objs_per_bunch :: nat
  m_cache :: "nat list"
  live :: "nat list"
  next_ptr :: nat
  given :: "nat list"

section \<open>NewAllocator\<close>

definition new_malloc :: "pool \<Rightarrow> nat \<times> pool" where
  "new_malloc s = (next_ptr s, s\<lparr>live := next_ptr s # live s, next_ptr := Suc (next_ptr s)\<rparr>)"

definition new_free :: "nat \<Rightarrow> pool \<Rightarrow> pool option" where
  "new_free p s = (if p \<in> set (live s) then Some (s\<lparr>live := remove1 p (live s)\<rparr>) else None)"

section \<open>CachedAllocator\<close>

fun fill_cache :: "nat \<Rightarrow> pool \<Rightarrow> pool" where
  "fill_cache 0 s = s"
| "fill_cache (Suc n) s = (let (p, s) = new_malloc s in fill_cache n (s\<lparr>m_cache := m_cache s @ [p]\<rparr>))"

definition CachedAllocator_ctor :: "nat \<Rightarrow> nat \<Rightarrow> pool" where
  "CachedAllocator_ctor nb_bunches nb_objs =
     fill_cache (nb_bunches * nb_objs) \<lparr>nb_objs_per_bunch = nb_objs, m_cache = [], live = [], next_ptr = 0, given = []\<rparr>"

definition cached_malloc :: "pool \<Rightarrow> nat \<times> pool" where
  "cached_malloc s =
     (let s = (if m_cache s = [] \<and> nb_objs_per_bunch s \<noteq> 0 then fill_cache (nb_objs_per_bunch s) s else s)
      in case m_cache s of p # ps \<Rightarrow> (p, s\<lparr>m_cache := ps\<rparr>) | [] \<Rightarrow> new_malloc s)"

definition cached_free :: "nat \<Rightarrow> pool \<Rightarrow> pool" where
  "cached_free p s = s\<lparr>m_cache := m_cache s @ [p]\<rparr>"

definition cached_release :: "nat \<Rightarrow> pool \<Rightarrow> pool option" where
  "cached_release p s = new_free p s"

fun free_front :: "nat \<Rightarrow> pool \<Rightarrow> pool option" where
  "free_front 0 s = Some s"
| "free_front (Suc n) s =
     (case m_cache s of [] \<Rightarrow> None | p # ps \<Rightarrow> Option.bind (new_free p (s\<lparr>m_cache := ps\<rparr>)) (free_front n))"

text \<open>How many objects \<open>clear (p)\<close> frees: a product of \<open>double\<close>s, cut to an integer.\<close>

definition clear_count :: "rat \<Rightarrow> nat \<Rightarrow> nat" where
  "clear_count p n = (if p \<ge> 100 then n else nat (floor (rnd (rnd (p / 100) * of_nat n))))"

definition cached_clear :: "rat \<Rightarrow> pool \<Rightarrow> pool option" where
  "cached_clear p s = (if p < 0 \<or> m_cache s = [] then Some s else free_front (clear_count p (length (m_cache s))) s)"

definition CachedAllocator_dtor :: "pool \<Rightarrow> pool option" where
  "CachedAllocator_dtor s = cached_clear 100 s"

definition bunch_length :: "nat \<Rightarrow> pool \<Rightarrow> pool" where
  "bunch_length n s = s\<lparr>nb_objs_per_bunch := n\<rparr>"

section \<open>Clients\<close>

datatype pool_op = Malloc | Free nat | Release nat | Clear rat | Bunch nat

fun pool_step :: "pool_op \<Rightarrow> pool \<Rightarrow> pool option" where
  "pool_step Malloc s = (let (p, s) = cached_malloc s in Some (s\<lparr>given := p # given s\<rparr>))"
| "pool_step (Free p) s = Some ((cached_free p s)\<lparr>given := remove1 p (given s)\<rparr>)"
| "pool_step (Release p) s = map_option (\<lambda>s. s\<lparr>given := remove1 p (given s)\<rparr>) (cached_release p s)"
| "pool_step (Clear r) s = cached_clear r s"
| "pool_step (Bunch n) s = Some (bunch_length n s)"

text \<open>
  The contract: what is given back was taken and not given back yet. A cache has fewer than \<open>2^53\<close> objects, so that their number is a
  \<open>double\<close>.
\<close>

fun pool_call_ok :: "pool_op \<Rightarrow> pool \<Rightarrow> bool" where
  "pool_call_ok (Free p) s = (p \<in> set (given s))"
| "pool_call_ok (Release p) s = (p \<in> set (given s))"
| "pool_call_ok Malloc s = True"
| "pool_call_ok (Clear r) s = (length (m_cache s) < 2 ^ 53)"
| "pool_call_ok (Bunch n) s = True"

definition pool_inv :: "pool \<Rightarrow> bool" where
  "pool_inv s \<longleftrightarrow> distinct (m_cache s @ given s) \<and> distinct (live s) \<and> set (live s) = set (m_cache s) \<union> set (given s) \<and>
     (\<forall>p \<in> set (live s). p < next_ptr s)"

lemma new_malloc_inv:
  "pool_inv s \<Longrightarrow> new_malloc s = (p, t) \<Longrightarrow> pool_inv (t\<lparr>m_cache := m_cache s @ [p]\<rparr>) \<and> pool_inv (t\<lparr>given := p # given s\<rparr>) \<and> given t = given s"
  by (auto simp: new_malloc_def pool_inv_def ball_Un less_Suc_eq)

lemma fill_cache_inv: "pool_inv s \<Longrightarrow> pool_inv (fill_cache n s) \<and> given (fill_cache n s) = given s"
proof (induction n arbitrary: s)
  case (Suc n)
  obtain p t where t: "new_malloc s = (p, t)" by fastforce
  then have "m_cache t = m_cache s" by (auto simp: new_malloc_def)
  then have "pool_inv (t\<lparr>m_cache := m_cache t @ [p]\<rparr>)" "given t = given s" using new_malloc_inv [OF Suc.prems t] by auto
  then show ?case using Suc.IH [of "t\<lparr>m_cache := m_cache t @ [p]\<rparr>"] t by simp
qed simp

lemma free_front_inv:
  "pool_inv s \<Longrightarrow> n \<le> length (m_cache s) \<Longrightarrow> \<exists>t. free_front n s = Some t \<and> pool_inv t \<and> given t = given s \<and> m_cache t = drop n (m_cache s)"
proof (induction n arbitrary: s)
  case (Suc n)
  obtain p ps where c: "m_cache s = p # ps" using Suc.prems(2) by (cases "m_cache s") auto
  let ?t = "s\<lparr>m_cache := ps, live := remove1 p (live s)\<rparr>"
  have "pool_inv ?t" using Suc.prems(1) c by (auto simp: pool_inv_def)
  moreover have "new_free p (s\<lparr>m_cache := ps\<rparr>) = Some ?t" using Suc.prems(1) c by (auto simp: new_free_def pool_inv_def)
  ultimately show ?case using Suc.IH [of ?t] Suc.prems(2) c by auto
qed simp

lemma clear_count_le:
  assumes "0 \<le> p" "n < 2 ^ 53"
  shows "clear_count p n \<le> n"
proof (cases "p \<ge> 100 \<or> p = 0 \<or> n = 0")
  case True
  then show ?thesis by (auto simp: clear_count_def rnd_def)
next
  case False
  then have p: "0 < p / 100" "p / 100 \<le> of_int 1" "p / 100 < 2 ^ 53" using assms(1) by auto
  have q: "rnd (p / 100) \<le> 1" using rnd_between(2) [OF p(1,3,2)] by simp
  have q0: "0 \<le> rnd (p / 100)" using rnd_nonneg p(1) by simp
  show ?thesis
  proof (cases "rnd (p / 100) = 0")
    case True
    then show ?thesis using False by (simp add: clear_count_def rnd_def)
  next
    case nz: False
    let ?x = "rnd (p / 100) * of_nat n"
    have "0 < ?x" using nz q0 False by simp
    moreover have le: "?x \<le> of_int (int n)" using mult_right_mono [OF q, of "of_nat n"] by simp
    moreover have "?x < 2 ^ 53"
    proof -
      have "(of_nat n :: rat) < of_nat (2 ^ 53)" using assms(2) by (simp only: of_nat_less_iff)
      then show ?thesis using le by simp
    qed
    ultimately have "rnd ?x \<le> of_int (int n)" using rnd_between(2) by blast
    then have "\<lfloor>rnd ?x\<rfloor> \<le> int n" by (simp add: floor_le_iff)
    then show ?thesis using False by (simp add: clear_count_def)
  qed
qed

lemma cached_malloc_inv:
  assumes "pool_inv s" "cached_malloc s = (p, t)"
  shows "pool_inv (t\<lparr>given := p # given t\<rparr>) \<and> given t = given s \<and> p \<notin> set (given s) \<and> p \<in> set (live t)"
proof -
  let ?u = "if m_cache s = [] \<and> nb_objs_per_bunch s \<noteq> 0 then fill_cache (nb_objs_per_bunch s) s else s"
  have u: "pool_inv ?u" "given ?u = given s" using fill_cache_inv [OF assms(1)] assms(1) by auto
  show ?thesis
  proof (cases "m_cache ?u")
    case Nil
    then show ?thesis using assms(2) u new_malloc_inv [OF u(1), of p t]
      by (auto simp: cached_malloc_def Let_def new_malloc_def pool_inv_def simp del: if_split)
  next
    case (Cons q qs)
    then have "p = q" "t = ?u\<lparr>m_cache := qs\<rparr>" using assms(2) by (simp_all add: cached_malloc_def Let_def del: if_split)
    then show ?thesis using u Cons by (auto simp: pool_inv_def simp del: if_split)
  qed
qed

lemma pool_step_inv:
  assumes "pool_inv s" "pool_call_ok e s"
  shows "\<exists>t. pool_step e s = Some t \<and> pool_inv t"
proof (cases e)
  case Malloc
  obtain p t where t: "cached_malloc s = (p, t)" by fastforce
  then show ?thesis using cached_malloc_inv [OF assms(1) t] Malloc by auto
next
  case (Free p)
  then show ?thesis using assms by (auto simp: cached_free_def pool_inv_def)
next
  case (Release p)
  then show ?thesis using assms by (auto simp: cached_release_def new_free_def pool_inv_def)
next
  case (Clear r)
  show ?thesis
  proof (cases "r < 0 \<or> m_cache s = []")
    case True
    then show ?thesis using assms(1) Clear by (auto simp: cached_clear_def)
  next
    case False
    then have "clear_count r (length (m_cache s)) \<le> length (m_cache s)" using clear_count_le assms(2) Clear by simp
    then show ?thesis using free_front_inv [OF assms(1)] Clear False by (auto simp: cached_clear_def)
  qed
next
  case (Bunch n)
  then show ?thesis using assms(1) by (auto simp: bunch_length_def pool_inv_def)
qed

interpretation pool: guarded_invariant pool_step pool_call_ok pool_inv
proof unfold_locales
  fix s e t
  assume "pool_inv s" "pool_call_ok e s" "pool_step e s = Some t"
  then show "pool_inv t" using pool_step_inv [of s e] by simp
qed

lemma pool_inv_ctor: "pool_inv (CachedAllocator_ctor a b)"
  using fill_cache_inv by (simp add: CachedAllocator_ctor_def pool_inv_def)

lemma pool_runs: "pool_inv s \<Longrightarrow> along pool_step pool_call_ok es s \<Longrightarrow> \<exists>t. runs pool_step es s = Some t \<and> pool_inv t"
proof (induction es arbitrary: s)
  case (Cons e es)
  then obtain t where "pool_step e s = Some t" "pool_inv t" using pool_step_inv [of s e] by auto
  then show ?case using Cons by auto
qed simp

section \<open>Properties\<close>

text \<open>
  C27: As long as the clients give back only what they have taken, no operation of the pool is undefined, no pointer is
  given to two of them, every block that is given is allocated, and the destructor frees all blocks
  but those that are still with the clients.
\<close>

theorem pool_safe:
  assumes "along pool_step pool_call_ok es (CachedAllocator_ctor nb_bunches nb_objs)"
  shows "\<exists>t. runs pool_step es (CachedAllocator_ctor nb_bunches nb_objs) = Some t \<and> distinct (given t) \<and> set (given t) \<subseteq> set (live t) \<and>
             fst (cached_malloc t) \<notin> set (given t) \<and> fst (cached_malloc t) \<in> set (live (snd (cached_malloc t))) \<and>
             (\<exists>u. CachedAllocator_dtor t = Some u \<and> m_cache u = [] \<and> distinct (live u) \<and> set (live u) = set (given t))"
proof -
  obtain t where t: "runs pool_step es (CachedAllocator_ctor nb_bunches nb_objs) = Some t" "pool_inv t"
    using pool_runs [OF pool_inv_ctor assms] by blast
  have m: "fst (cached_malloc t) \<notin> set (given t)" "fst (cached_malloc t) \<in> set (live (snd (cached_malloc t)))"
    using cached_malloc_inv [OF t(2), of "fst (cached_malloc t)" "snd (cached_malloc t)"] by auto
  have "\<exists>u. CachedAllocator_dtor t = Some u \<and> m_cache u = [] \<and> pool_inv u \<and> given u = given t"
    using free_front_inv [OF t(2), of "length (m_cache t)"] t(2) by (auto simp: CachedAllocator_dtor_def cached_clear_def clear_count_def)
  then have "\<exists>u. CachedAllocator_dtor t = Some u \<and> m_cache u = [] \<and> distinct (live u) \<and> set (live u) = set (given t)"
    by (auto simp: pool_inv_def)
  then show ?thesis using t m by (auto simp: pool_inv_def)
qed

theorem pool_safe_witness:
  "\<exists>t. runs pool_step [Malloc, Malloc, Free 0, Malloc, Malloc, Release 1] (CachedAllocator_ctor 1 2) = Some t \<and> distinct (given t)"
proof -
  have "along pool_step pool_call_ok [Malloc, Malloc, Free 0, Malloc, Malloc, Release 1] (CachedAllocator_ctor 1 2)"
    by (simp add: CachedAllocator_ctor_def new_malloc_def cached_malloc_def cached_free_def cached_release_def new_free_def numeral_2_eq_2 Let_def)
  from pool_safe [OF this] show ?thesis by blast
qed

lemma clear_29: "clear_count 29 100 = 28"
proof -
  have "rnd (29 / 100) = 5224175567749775 * (1 / 2 ^ 54)"
    using rnd_eval [of "- 2" "29 / 100" "1 / 2 ^ 54" 5224175567749775] by (simp add: power_int_minus)
  moreover have "rnd (5224175567749775 * (1 / 2 ^ 54) * 100) = 8162774324609023 * (1 / 2 ^ 48)"
    using rnd_eval [of 4 "5224175567749775 * (1 / 2 ^ 54) * 100" "1 / 2 ^ 48" 8162774324609023] by (simp add: power_int_minus)
  ultimately have r: "rnd (rnd (29 / 100) * of_nat 100) = 8162774324609023 * (1 / 2 ^ 48)"
    by (simp only: of_nat_numeral)
  have "\<lfloor>8162774324609023 * (1 / 2 ^ 48) :: rat\<rfloor> = 28" by (simp add: floor_eq_iff)
  then show ?thesis using r by (simp only: clear_count_def) simp
qed

text \<open>
  What the pool does not promise: a pointer given back twice is handed out to two clients, and
  released twice it is deleted twice; without a preallocation the pool is not a plain allocator, it still allocates
  bunches; and \<open>clear (29)\<close> frees 28 of 100 objects, because the quotient is rounded.
\<close>

theorem pool_limits:
  "(\<exists>t. runs pool_step [Malloc, Free 0, Free 0, Malloc, Malloc] (CachedAllocator_ctor 1 1) = Some t \<and> given t = [0, 0]) \<and>
   runs pool_step [Malloc, Release 0, Release 0] (CachedAllocator_ctor 1 1) = None \<and>
   m_cache (snd (cached_malloc (CachedAllocator_ctor 0 3))) = [1, 2] \<and>
   clear_count 29 100 = 28"
  by (simp add: clear_29)
    (simp add: CachedAllocator_ctor_def new_malloc_def cached_malloc_def cached_free_def cached_release_def new_free_def numeral_eq_Suc Let_def)

end
