(* ===== verification/Logging.thy ===== *)
theory Logging
  imports TimeText Format
begin

text \<open>
  The log of \<open>src/utils/Logging.cpp\<close> and \<open>include/yat/utils/Logging.h\<close>: levels, the filter, the stack of targets, the lines of the
  default target and formatted messages. The streams and their locks are in \<open>LogStream\<close>. A call of a target is a value: the target with what
  it gets. The pointers to targets are those of the clients, the default handler and null.
\<close>

section \<open>Levels and targets\<close>

datatype log_level = LOG_VERBOSE | LOG_RESULT | LOG_INFO | LOG_NOTICE | LOG_WARNING | LOG_ERROR | LOG_CRITICAL | LOG_ALERT
  | LOG_EMERGENCY | LOG_NOLEVEL

fun level_int :: "log_level \<Rightarrow> int" where
  "level_int LOG_VERBOSE = 0"
| "level_int LOG_RESULT = 1"
| "level_int LOG_INFO = 2"
| "level_int LOG_NOTICE = 3"
| "level_int LOG_WARNING = 4"
| "level_int LOG_ERROR = 5"
| "level_int LOG_CRITICAL = 6"
| "level_int LOG_ALERT = 7"
| "level_int LOG_EMERGENCY = 8"
| "level_int LOG_NOLEVEL = 9"

text \<open>Levels are ordered by their numbers.\<close>

lemma level_int_inj: "level_int a = level_int b \<Longrightarrow> a = b"
  by (cases a; cases b) simp_all

instantiation log_level :: linorder
begin

definition less_eq_log_level :: "log_level \<Rightarrow> log_level \<Rightarrow> bool" where
  "less_eq_log_level a b = (level_int a \<le> level_int b)"

definition less_log_level :: "log_level \<Rightarrow> log_level \<Rightarrow> bool" where
  "less_log_level a b = (level_int a < level_int b)"

instance
  by standard (auto simp: less_eq_log_level_def less_log_level_def intro: level_int_inj)

end

datatype log_target = NULL_TARGET | DEFAULT_HANDLER | TARGET nat

record log_call =
  lc_target :: log_target
  lc_level :: log_level
  lc_type :: string
  lc_msg :: string

section \<open>The manager\<close>

text \<open>\<open>m_log_target_p\<close> is that of the nine streams, which are always set together.\<close>

record log_manager =
  m_iMinLevel :: int
  m_setTypes :: "string set"
  m_stkCatchLogTarget :: "log_target list"
  m_log_target_p :: log_target

definition LogManager_ctor :: log_manager where
  "LogManager_ctor = \<lparr>m_iMinLevel = level_int LOG_INFO, m_setTypes = {}, m_stkCatchLogTarget = [], m_log_target_p = DEFAULT_HANDLER\<rparr>"

definition current_log_target :: "log_manager \<Rightarrow> log_target" where
  "current_log_target o1 = (case m_stkCatchLogTarget o1 of [] \<Rightarrow> DEFAULT_HANDLER | t # ts \<Rightarrow> t)"

definition push_log_target :: "log_target \<Rightarrow> log_manager \<Rightarrow> log_manager" where
  "push_log_target t o1 = o1\<lparr>m_stkCatchLogTarget := t # m_stkCatchLogTarget o1, m_log_target_p := t\<rparr>"

definition pop_log_target :: "log_manager \<Rightarrow> log_manager" where
  "pop_log_target o1 =
     (let o1 = (case m_stkCatchLogTarget o1 of [] \<Rightarrow> o1 | t # ts \<Rightarrow> o1\<lparr>m_stkCatchLogTarget := ts\<rparr>)
      in o1\<lparr>m_log_target_p := current_log_target o1\<rparr>)"

function filter_types :: "string \<Rightarrow> string set \<Rightarrow> string set" where
  "filter_types strFilter types =
     (if strFilter = [] then types
      else let (res, strFilter, strType) = extract_token_plain strFilter (CHR ''|'')
           in filter_types strFilter (if strType \<noteq> [] then insert strType types else types))"
  by pat_completeness auto
termination
proof (relation "measure (\<lambda>(s, t). length s)")
  fix s types x res y s' tok
  assume "s \<noteq> []" and x: "x = extract_token_plain s (CHR ''|'')" "(res, y) = x" "(s', tok) = y"
  then have "length s' < length s" using extract_token_shorter [of s "CHR ''|''" NUL res s' tok] by (simp add: extract_token_plain_def)
  then show "((s', if tok \<noteq> [] then insert tok types else types), s, types) \<in> measure (\<lambda>(s, t). length s)" by simp
qed simp

declare filter_types.simps [simp del]

definition log_init :: "int \<Rightarrow> string \<Rightarrow> log_manager \<Rightarrow> log_manager" where
  "log_init iMinLevel strFilter o1 = o1\<lparr>m_iMinLevel := iMinLevel, m_setTypes := filter_types strFilter (m_setTypes o1)\<rparr>"

definition manager_log :: "log_level \<Rightarrow> string \<Rightarrow> string \<Rightarrow> log_manager \<Rightarrow> log_call option" where
  "manager_log eLevel pszType strMsg o1 =
     (if level_int eLevel < m_iMinLevel o1 \<and> eLevel \<noteq> LOG_RESULT then None
      else if m_setTypes o1 \<noteq> {} \<and> cstr pszType \<notin> m_setTypes o1 \<and> LOG_VERBOSE = eLevel then None
      else if current_log_target o1 \<noteq> NULL_TARGET
           then Some \<lparr>lc_target = current_log_target o1, lc_level = eLevel, lc_type = pszType, lc_msg = strMsg\<rparr>
      else None)"

text \<open>The minimum level lets an interval of the levels pass.\<close>

lemma manager_log_mono:
  assumes "manager_log a ty msg o1 \<noteq> None" "a \<le> b" "a \<noteq> LOG_RESULT" "a \<noteq> LOG_VERBOSE"
  shows "manager_log b ty msg o1 \<noteq> None"
proof -
  have "b \<noteq> LOG_VERBOSE" using assms(2,4) by (cases a) (auto simp: less_eq_log_level_def)
  then show ?thesis using assms by (auto simp: manager_log_def less_eq_log_level_def split: if_splits)
qed

text \<open>Which streams \<open>verbose_stream\<close> and its like give: the one of the level, or the null stream.\<close>

definition stream_enabled :: "log_level \<Rightarrow> log_manager \<Rightarrow> bool" where
  "stream_enabled eLevel o1 = (eLevel = LOG_EMERGENCY \<or> \<not> m_iMinLevel o1 > level_int eLevel)"

text \<open>The functions on a message.\<close>

fun level_type :: "log_level \<Rightarrow> string" where
  "level_type LOG_VERBOSE = ''vbs''"
| "level_type LOG_RESULT = ''res''"
| "level_type LOG_INFO = ''inf''"
| "level_type LOG_NOTICE = ''not''"
| "level_type LOG_WARNING = ''wrn''"
| "level_type LOG_ERROR = ''err''"
| "level_type LOG_CRITICAL = ''crt''"
| "level_type LOG_ALERT = ''alt''"
| "level_type LOG_EMERGENCY = ''emg''"
| "level_type LOG_NOLEVEL = []"

definition log_message :: "log_level \<Rightarrow> string \<Rightarrow> log_manager \<Rightarrow> log_call option" where
  "log_message eLevel msg o1 = manager_log eLevel (level_type eLevel) msg o1"

section \<open>Targets\<close>

fun level_name :: "log_level \<Rightarrow> string" where
  "level_name LOG_EMERGENCY = ''EMERGENCY''"
| "level_name LOG_ALERT = ''ALERT''"
| "level_name LOG_CRITICAL = ''CRITICAL''"
| "level_name LOG_ERROR = ''ERROR''"
| "level_name LOG_WARNING = ''WARNING''"
| "level_name LOG_NOTICE = ''NOTICE''"
| "level_name LOG_INFO = ''INFO''"
| "level_name LOG_VERBOSE = ''VERBOSE''"
| "level_name LOG_RESULT = ''RESULT''"
| "level_name LOG_NOLEVEL = []"

text \<open>The time in front of a line, and what the default handler prints; \<open>df\<close> is the local time.\<close>

definition log_date :: "date_fields \<Rightarrow> string" where
  "log_date df =
     int_str (df_year df) @ ''-'' @ pad0 2 (df_month df) @ ''-'' @ pad0 2 (df_day df) @ '','' @ pad0 2 (df_hour df) @ '':'' @
     pad0 2 (df_min df) @ '':'' @ pad 6 CHR ''0'' (fixed_str 3 (df_sec df))"

definition default_log :: "date_fields \<Rightarrow> log_level \<Rightarrow> string \<Rightarrow> string \<Rightarrow> string" where
  "default_log df eLevel pszType strMsg =
     (let strLevel = level_name eLevel
      in if length (cstr pszType) > 0 then
           (if strLevel \<noteq> [] then log_date df @ '' '' @ strLevel @ '' ['' @ cstr pszType @ '']:'' @ strMsg @ [CHR 0x0A]
            else log_date df @ '' ['' @ cstr pszType @ '']:'' @ strMsg @ [CHR 0x0A])
         else
           (if strLevel \<noteq> [] then log_date df @ '' ['' @ strLevel @ ''] '' @ strMsg @ [CHR 0x0A]
            else log_date df @ '' '' @ strMsg @ [CHR 0x0A]))"

text \<open>\<open>LogForward\<close>: what the function of the client gets, if there is one.\<close>

definition forward_log :: "bool \<Rightarrow> log_level \<Rightarrow> string \<Rightarrow> string \<Rightarrow> (int \<times> string \<times> string) option" where
  "forward_log has_fn eLevel pszType strMsg = (if has_fn then Some (level_int eLevel, pszType, cstr strMsg) else None)"

section \<open>Formatted messages\<close>

text \<open>\<open>LogFormat\<close>: a format with a level. An exception of \<open>arg\<close> is dropped; \<open>prepare_format\<close> may have moved the index before it.\<close>

record log_format = format +
  level_of :: log_level

definition LogFormat_ctor :: "string \<Rightarrow> log_level \<Rightarrow> log_format" where
  "LogFormat_ctor s l = \<lparr>fmt_str = s, m_fmt_idx = 0, level_of = l\<rparr>"

definition to_log_format :: "format \<Rightarrow> log_level \<Rightarrow> log_format" where
  "to_log_format f l = \<lparr>fmt_str = fmt_str f, m_fmt_idx = m_fmt_idx f, level_of = l\<rparr>"

definition format_of :: "log_format \<Rightarrow> format" where
  "format_of f = \<lparr>fmt_str = fmt_str f, m_fmt_idx = m_fmt_idx f\<rparr>"

definition index_after_throw :: "format \<Rightarrow> format" where
  "index_after_throw f =
     (let s = fmt_str f; start_pos = find_from s (CHR ''{'') (m_fmt_idx f)
      in if start_pos = - 1 then f
         else if start_pos > 0 \<and> s ! nat (start_pos - 1) \<noteq> BACKSLASH \<or> start_pos = 0 then
           let end_pos = find_from s (CHR ''}'') (nat start_pos)
           in if end_pos = - 1 then f else f\<lparr>m_fmt_idx := nat end_pos\<rparr>
         else f)"

definition log_arg :: "string \<Rightarrow> log_format \<Rightarrow> log_format" where
  "log_arg v f =
     (case arg_str v (format_of f) of Inr g \<Rightarrow> to_log_format g (level_of f)
      | Inl e \<Rightarrow> to_log_format (index_after_throw (format_of f)) (level_of f))"

definition LogFormat_dtor :: "log_format \<Rightarrow> log_manager \<Rightarrow> log_call option" where
  "LogFormat_dtor f o1 = manager_log (level_of f) [] (fmt_str f) o1"

section \<open>Scopes of catchers\<close>

text \<open>A program that logs, sets the filter, and catches what its blocks log.\<close>

datatype log_prog = Say log_level string string | Init int string | Catch log_target "log_prog list"

fun run_prog :: "log_prog \<Rightarrow> log_manager \<Rightarrow> log_call list \<times> log_manager"
and run_progs :: "log_prog list \<Rightarrow> log_manager \<Rightarrow> log_call list \<times> log_manager" where
  "run_prog (Say l ty msg) o1 = ((case manager_log l ty msg o1 of None \<Rightarrow> [] | Some c \<Rightarrow> [c]), o1)"
| "run_prog (Init iMin flt) o1 = ([], log_init iMin flt o1)"
| "run_prog (Catch t ps) o1 = (let (cs, o2) = run_progs ps (push_log_target t o1) in (cs, pop_log_target o2))"
| "run_progs [] o1 = ([], o1)"
| "run_progs (p # ps) o1 = (let (cs, o2) = run_prog p o1; (ds, o3) = run_progs ps o2 in (cs @ ds, o3))"

text \<open>What is meant: each message goes to the target of the innermost block, under the filter that is set at that time.\<close>

type_synonym log_filter = "int \<times> string set"

definition passes :: "log_filter \<Rightarrow> log_level \<Rightarrow> string \<Rightarrow> bool" where
  "passes F l ty \<longleftrightarrow> (fst F \<le> level_int l \<or> l = LOG_RESULT) \<and> (l = LOG_VERBOSE \<longrightarrow> snd F = {} \<or> cstr ty \<in> snd F)"

definition pieces :: "string \<Rightarrow> string set" where
  "pieces s = set (cut (CHR ''|'') [] s) - {[]}"

fun meant :: "log_target \<Rightarrow> log_prog \<Rightarrow> log_filter \<Rightarrow> log_call list \<times> log_filter"
and meant_all :: "log_target \<Rightarrow> log_prog list \<Rightarrow> log_filter \<Rightarrow> log_call list \<times> log_filter" where
  "meant t (Say l ty msg) F =
     (if t \<noteq> NULL_TARGET \<and> passes F l ty then [\<lparr>lc_target = t, lc_level = l, lc_type = ty, lc_msg = msg\<rparr>] else [], F)"
| "meant t (Init iMin flt) F = ([], (iMin, snd F \<union> pieces flt))"
| "meant t (Catch u ps) F = meant_all u ps F"
| "meant_all t [] F = ([], F)"
| "meant_all t (p # ps) F = (let (cs, F) = meant t p F; (ds, F) = meant_all t ps F in (cs @ ds, F))"

definition filter_of :: "log_manager \<Rightarrow> log_filter" where
  "filter_of o1 = (m_iMinLevel o1, m_setTypes o1)"

definition with_filter :: "log_filter \<Rightarrow> log_manager \<Rightarrow> log_manager" where
  "with_filter F o1 = o1\<lparr>m_iMinLevel := fst F, m_setTypes := snd F\<rparr>"

lemma manager_log_passes:
  "manager_log l ty msg o1 =
     (if current_log_target o1 \<noteq> NULL_TARGET \<and> passes (filter_of o1) l ty
      then Some \<lparr>lc_target = current_log_target o1, lc_level = l, lc_type = ty, lc_msg = msg\<rparr> else None)"
  by (auto simp: manager_log_def passes_def filter_of_def not_le)

lemma cut_takeWhile:
  "cut c acc s = (if c \<in> set s then (acc @ takeWhile (\<lambda>x. x \<noteq> c) s) # cut c [] (tl (dropWhile (\<lambda>x. x \<noteq> c) s)) else [acc @ s])"
  by (induction c acc s rule: cut.induct) auto

lemma filter_types_pieces: "filter_types s T = T \<union> pieces s"
proof (induction "length s" arbitrary: s T rule: less_induct)
  case less
  let ?c = "CHR ''|''"
  show ?case
  proof (cases "s = []")
    case True
    then show ?thesis by (simp add: filter_types.simps pieces_def)
  next
    case False
    let ?t = "takeWhile (\<lambda>x. x \<noteq> ?c) s" and ?r = "tl (dropWhile (\<lambda>x. x \<noteq> ?c) s)"
    show ?thesis
    proof (cases "?c \<in> set s")
      case True
      have e: "\<exists>res. extract_token_plain s ?c = (res, ?r, ?t)"
        using True False by (simp add: extract_token_plain_def extract_token_noescape)
      then have "length ?r < length s" using extract_token_shorter False by (fastforce simp: extract_token_plain_def)
      then have "filter_types s T = (if ?t \<noteq> [] then insert ?t T else T) \<union> pieces ?r"
        using less [of ?r] e False by (subst filter_types.simps) auto
      then show ?thesis using True by (auto simp: pieces_def cut_takeWhile [of ?c "[]" s])
    next
      case nc: False
      then have "\<exists>res. extract_token_plain s ?c = (res, [], s)"
        using False by (simp add: extract_token_plain_def extract_token_noescape)
      then show ?thesis using False nc
        by (subst filter_types.simps) (auto simp: pieces_def cut_takeWhile [of ?c "[]" s] filter_types.simps)
    qed
  qed
qed

lemma with_filter_simps [simp]:
  "current_log_target (with_filter F o1) = current_log_target o1"
  "m_log_target_p (with_filter F o1) = m_log_target_p o1"
  "filter_of (with_filter F o1) = F"
  "with_filter G (with_filter F o1) = with_filter G o1"
  "with_filter (filter_of o1) o1 = o1"
  by (simp_all add: with_filter_def current_log_target_def filter_of_def)

lemma push_simps [simp]:
  "current_log_target (push_log_target t o1) = t"
  "m_log_target_p (push_log_target t o1) = t"
  "filter_of (push_log_target t o1) = filter_of o1"
  by (simp_all add: push_log_target_def current_log_target_def filter_of_def)

lemma pop_push: "m_log_target_p o1 = current_log_target o1 \<Longrightarrow> pop_log_target (with_filter F (push_log_target t o1)) = with_filter F o1"
  by (simp add: pop_log_target_def push_log_target_def with_filter_def current_log_target_def split: list.splits)

lemma log_init_filter: "log_init iMin flt o1 = with_filter (iMin, snd (filter_of o1) \<union> pieces flt) o1"
  by (simp add: log_init_def with_filter_def filter_of_def filter_types_pieces)

lemma run_meant:
  "m_log_target_p o1 = current_log_target o1 \<Longrightarrow>
     run_prog p o1 = (fst (meant (current_log_target o1) p (filter_of o1)), with_filter (snd (meant (current_log_target o1) p (filter_of o1))) o1)"
  "m_log_target_p o1 = current_log_target o1 \<Longrightarrow>
     run_progs ps o1 = (fst (meant_all (current_log_target o1) ps (filter_of o1)), with_filter (snd (meant_all (current_log_target o1) ps (filter_of o1))) o1)"
proof (induction p o1 and ps o1 rule: run_prog_run_progs.induct)
  case (1 l ty msg o1)
  then show ?case by (simp add: manager_log_passes)
next
  case (2 iMin flt o1)
  then show ?case by (simp add: log_init_filter)
next
  case (3 t ps o1)
  then show ?case by (simp add: pop_push)
next
  case (4 o1)
  then show ?case by simp
next
  case (5 p ps o1)
  let ?t = "current_log_target o1" and ?F = "filter_of o1"
  have a: "run_prog p o1 = (fst (meant ?t p ?F), with_filter (snd (meant ?t p ?F)) o1)" by (rule 5(1) [OF 5(3)])
  then show ?case using 5(2) [OF a [symmetric] refl] 5(3) by (simp add: split_beta)
qed

lemma to_log_format_simps [simp]:
  "format_of (to_log_format f l) = f" "level_of (to_log_format f l) = l" "fmt_str (to_log_format f l) = fmt_str f"
  by (simp_all add: to_log_format_def format_of_def)

lemma args_fold: "args_str as f = Inr g \<Longrightarrow> fold log_arg as (to_log_format f l) = to_log_format g l"
proof (induction "as" arbitrary: f)
  case (Cons a as)
  then obtain h where h: "arg_str a f = Inr h" "args_str as h = Inr g" by (auto split: sum.splits)
  have "log_arg a (to_log_format f l) = to_log_format h l"
    using h(1) by (simp add: log_arg_def)
  then show ?case using Cons.IH [OF h(2)] by simp
qed simp

section \<open>Properties\<close>

text \<open>
  Whatever a program logs, in nested blocks with catchers and with changes of the filter, each message goes exactly once, in order, to the
  target of the innermost block around it if the filter that is set then lets it pass, and to no other target;
  the blocks leave the stack of the targets as it was.
\<close>

theorem log_scopes:
  "run_progs ps LogManager_ctor =
     (fst (meant_all DEFAULT_HANDLER ps (level_int LOG_INFO, {})),
      with_filter (snd (meant_all DEFAULT_HANDLER ps (level_int LOG_INFO, {}))) LogManager_ctor)"
proof -
  have "current_log_target LogManager_ctor = DEFAULT_HANDLER" "filter_of LogManager_ctor = (level_int LOG_INFO, {})"
    by (simp_all add: LogManager_ctor_def current_log_target_def filter_of_def)
  then show ?thesis using run_meant(2) [of LogManager_ctor ps] by (simp add: LogManager_ctor_def)
qed

text \<open>
  A formatted message is logged once, when its object is destroyed, with the texts of its arguments in the place of its fields.
\<close>

theorem log_format_message:
  assumes "pieces_ok [] ps"
  shows "LogFormat_dtor (fold log_arg (map snd ps) (LogFormat_ctor (template_text ps rest) l)) o1 =
         manager_log l [] (filled_text ps @ rest) o1"
proof -
  have "LogFormat_ctor (template_text ps rest) l = to_log_format (Format_ctor (template_text ps rest)) l"
    by (simp add: LogFormat_ctor_def to_log_format_def Format_ctor_def)
  moreover have "args_str (map snd ps) (Format_ctor (template_text ps rest)) = Inr \<lparr>fmt_str = filled_text ps @ rest, m_fmt_idx = length (filled_text ps)\<rparr>"
    using args_str_filled [OF assms, of "Format_ctor (template_text ps rest)" rest] by (simp add: Format_ctor_def)
  ultimately show ?thesis by (simp add: args_fold LogFormat_dtor_def)
qed

theorem log_format_message_witness:
  "LogFormat_dtor (fold log_arg [''disk'', ''full''] (LogFormat_ctor ''{} is {}!'' LOG_ERROR)) LogManager_ctor =
     Some \<lparr>lc_target = DEFAULT_HANDLER, lc_level = LOG_ERROR, lc_type = [], lc_msg = ''disk is full!''\<rparr>"
proof -
  have "pieces_ok [] [([], ''disk''), ('' is '', ''full'')]" by simp
  from log_format_message [OF this, of "''!''" LOG_ERROR LogManager_ctor] show ?thesis
    by (simp add: template_text_def filled_text_def manager_log_def LogManager_ctor_def current_log_target_def)
qed

text \<open>
  Traps of the log: with the filter it starts with, a result is logged by the functions but its stream is the null stream; an
  emergency has its stream under every filter, but its functions do not get past a minimum above it; a second call of \<open>init\<close>
  adds types to the filter and cannot remove any; and a formatted message with too many arguments is logged without them.
\<close>

theorem log_limits:
  "log_message LOG_RESULT ''x'' LogManager_ctor =
     Some \<lparr>lc_target = DEFAULT_HANDLER, lc_level = LOG_RESULT, lc_type = ''res'', lc_msg = ''x''\<rparr> \<and>
   \<not> stream_enabled LOG_RESULT LogManager_ctor \<and>
   stream_enabled LOG_EMERGENCY (log_init 9 [] LogManager_ctor) \<and> log_message LOG_EMERGENCY ''x'' (log_init 9 [] LogManager_ctor) = None \<and>
   manager_log LOG_VERBOSE ''a'' ''x'' (log_init 0 ''b'' (log_init 0 ''a|'' LogManager_ctor)) \<noteq> None \<and>
   LogFormat_dtor (log_arg ''b'' (log_arg ''a'' (LogFormat_ctor ''x {}'' LOG_INFO))) LogManager_ctor =
     Some \<lparr>lc_target = DEFAULT_HANDLER, lc_level = LOG_INFO, lc_type = [], lc_msg = ''x a''\<rparr>"
proof -
  have a: "LogFormat_dtor (log_arg ''b'' (log_arg ''a'' (LogFormat_ctor ''x {}'' LOG_INFO))) LogManager_ctor =
     Some \<lparr>lc_target = DEFAULT_HANDLER, lc_level = LOG_INFO, lc_type = [], lc_msg = ''x a''\<rparr>"
  proof -
    have "log_arg ''b'' (log_arg ''a'' (LogFormat_ctor ''x {}'' LOG_INFO)) = \<lparr>fmt_str = ''x a'', m_fmt_idx = 3, level_of = LOG_INFO\<rparr>"
      by code_simp
    then show ?thesis by (simp add: LogFormat_dtor_def manager_log_def LogManager_ctor_def current_log_target_def)
  qed
  have p: "pieces ''a|'' = {''a''}" "pieces ''b'' = {''b''}" "pieces [] = {}" by (auto simp: pieces_def)
  show ?thesis
    using a by (simp add: cstr_def log_init_filter p with_filter_def filter_of_def log_message_def manager_log_def LogManager_ctor_def current_log_target_def stream_enabled_def)
qed

end
