(* ===== verification/LogStream.thy ===== *)
theory LogStream
  imports Transitions
begin

text \<open>
  The log streams of \<open>src/utils/Logging.cpp\<close> (class \<open>LogStream\<close>) under several threads. A stream is got by \<open>verbose_stream ()\<close> and its like, which
  calls \<open>lock\<close>: it has three critical sections, so it is three steps; \<open>sync\<close>, which \<open>std::endl\<close> calls, is two. The mutex of the
  message is recursive. Threads are numbers, and their number in \<open>m_locked_thread\<close> is \<open>None\<close> for 0. The last two fields record what
  each thread has written since it got the stream, and which texts were flushed by whom.
\<close>

datatype log_pc = Outside | WaitsMessage | TookMessage | Inside | Released

record log_stream =
  m_the_message :: string
  m_locked :: bool
  m_locked_thread :: "nat option"
  msg_owner :: "nat option"
  msg_depth :: nat
  target_got :: "string list"
  log_pcs :: "log_pc list"
  wrote :: "nat \<Rightarrow> string"
  flushed :: "(nat \<times> string) list"

definition LogStream_ctor :: "nat \<Rightarrow> log_stream" where
  "LogStream_ctor n =
     \<lparr>m_the_message = [], m_locked = False, m_locked_thread = None, msg_owner = None, msg_depth = 0, target_got = [],
      log_pcs = replicate n Outside, wrote = (\<lambda>t. []), flushed = []\<rparr>"

definition goto :: "nat \<Rightarrow> log_pc \<Rightarrow> log_stream \<Rightarrow> log_stream" where
  "goto t p s = s\<lparr>log_pcs := (log_pcs s)[t := p]\<rparr>"

definition at_pc :: "nat \<Rightarrow> log_pc \<Rightarrow> log_stream \<Rightarrow> bool" where
  "at_pc t p s \<longleftrightarrow> t < length (log_pcs s) \<and> log_pcs s ! t = p"

section \<open>lock\<close>

text \<open>The test under \<open>m_mtx_locker_uptr\<close>.\<close>

definition lock_test :: "nat \<Rightarrow> log_stream \<Rightarrow> log_stream" where
  "lock_test t s =
     (if \<not> m_locked s \<or> m_locked s \<and> m_locked_thread s \<noteq> Some t then goto t WaitsMessage s else goto t Inside s)"

text \<open>\<open>m_mtx_msg_uptr->lock ()\<close>; not possible while another thread owns the mutex.\<close>

definition lock_message :: "nat \<Rightarrow> log_stream \<Rightarrow> log_stream option" where
  "lock_message t s =
     (if msg_owner s = None \<or> msg_owner s = Some t
      then Some (goto t TookMessage (s\<lparr>msg_owner := Some t, msg_depth := Suc (msg_depth s)\<rparr>)) else None)"

definition lock_record :: "nat \<Rightarrow> log_stream \<Rightarrow> log_stream" where
  "lock_record t s = goto t Inside (s\<lparr>m_locked := True, m_locked_thread := Some t\<rparr>)"

section \<open>Writing and sync\<close>

definition xsputn :: "nat \<Rightarrow> string \<Rightarrow> log_stream \<Rightarrow> log_stream" where
  "xsputn t p s = s\<lparr>m_the_message := m_the_message s @ p, wrote := (wrote s)(t := wrote s t @ p)\<rparr>"

text \<open>An unlock by a thread that does not own the mutex does nothing.\<close>

definition unlock_message :: "nat \<Rightarrow> log_stream \<Rightarrow> log_stream" where
  "unlock_message t s =
     (if msg_owner s = Some t
      then s\<lparr>msg_depth := msg_depth s - 1, msg_owner := (if msg_depth s = 1 then None else Some t)\<rparr> else s)"

definition sync_message :: "nat \<Rightarrow> log_stream \<Rightarrow> log_stream" where
  "sync_message t s =
     (let msg = (if length (m_the_message s) > 0 then take (length (m_the_message s) - 1) (m_the_message s) else m_the_message s)
      in goto t Released (unlock_message t
           (s\<lparr>target_got := target_got s @ [msg], m_the_message := [], flushed := flushed s @ [(t, wrote s t)], wrote := (wrote s)(t := [])\<rparr>)))"

definition sync_unlocked :: "nat \<Rightarrow> log_stream \<Rightarrow> log_stream" where
  "sync_unlocked t s = goto t Outside (s\<lparr>m_locked := False, m_locked_thread := None\<rparr>)"

section \<open>The threads\<close>

datatype log_event = GetStream nat | TakeMessage nat | RecordLock nat | Write nat string | Endl nat | EndSync nat

fun log_step :: "log_event \<Rightarrow> log_stream \<Rightarrow> log_stream option" where
  "log_step (GetStream t) s = (if at_pc t Outside s \<or> at_pc t Inside s then Some (lock_test t s) else None)"
| "log_step (TakeMessage t) s = (if at_pc t WaitsMessage s then lock_message t s else None)"
| "log_step (RecordLock t) s = (if at_pc t TookMessage s then Some (lock_record t s) else None)"
| "log_step (Write t p) s = (if at_pc t Inside s then Some (xsputn t p s) else None)"
| "log_step (Endl t) s = (if at_pc t Inside s then Some (sync_message t s) else None)"
| "log_step (EndSync t) s = (if at_pc t Released s then Some (sync_unlocked t s) else None)"

text \<open>A client that gets the stream once for each message.\<close>

fun one_get :: "log_event \<Rightarrow> log_stream \<Rightarrow> bool" where
  "one_get (GetStream t) s = at_pc t Outside s"
| "one_get (TakeMessage t) s = True"
| "one_get (RecordLock t) s = True"
| "one_get (Write t p) s = True"
| "one_get (Endl t) s = True"
| "one_get (EndSync t) s = True"

definition holds_message :: "nat \<Rightarrow> log_stream \<Rightarrow> bool" where
  "holds_message t s \<longleftrightarrow> at_pc t TookMessage s \<or> at_pc t Inside s"

definition stream_inv :: "log_stream \<Rightarrow> bool" where
  "stream_inv s \<longleftrightarrow>
     (\<forall>t. holds_message t s \<longleftrightarrow> msg_owner s = Some t) \<and> msg_depth s = (if msg_owner s = None then 0 else 1) \<and>
     (\<forall>t. m_locked_thread s = Some t \<longrightarrow> at_pc t Inside s \<or> at_pc t Released s) \<and>
     (\<forall>t. \<not> at_pc t Inside s \<longrightarrow> wrote s t = []) \<and>
     (\<forall>t. msg_owner s = Some t \<longrightarrow> m_the_message s = wrote s t) \<and> (msg_owner s = None \<longrightarrow> m_the_message s = []) \<and>
     target_got s = map (\<lambda>(t, w). butlast w) (flushed s)"

lemma at_pc_goto: "at_pc u q (goto t p s) \<longleftrightarrow> (if u = t then t < length (log_pcs s) \<and> p = q else at_pc u q s)"
  by (auto simp: at_pc_def goto_def nth_list_update)

lemma goto_fields [simp]:
  "m_the_message (goto t p s) = m_the_message s" "m_locked (goto t p s) = m_locked s" "m_locked_thread (goto t p s) = m_locked_thread s"
  "msg_owner (goto t p s) = msg_owner s" "msg_depth (goto t p s) = msg_depth s" "target_got (goto t p s) = target_got s"
  "wrote (goto t p s) = wrote s" "flushed (goto t p s) = flushed s" "length (log_pcs (goto t p s)) = length (log_pcs s)"
  by (simp_all add: goto_def)

lemma at_pc_update [simp]:
  "at_pc u q (s\<lparr>m_the_message := a\<rparr>) = at_pc u q s" "at_pc u q (s\<lparr>m_locked := b\<rparr>) = at_pc u q s" "at_pc u q (s\<lparr>m_locked_thread := c\<rparr>) = at_pc u q s"
  "at_pc u q (s\<lparr>msg_owner := d\<rparr>) = at_pc u q s" "at_pc u q (s\<lparr>msg_depth := e\<rparr>) = at_pc u q s" "at_pc u q (s\<lparr>target_got := f\<rparr>) = at_pc u q s"
  "at_pc u q (s\<lparr>wrote := g\<rparr>) = at_pc u q s" "at_pc u q (s\<lparr>flushed := h\<rparr>) = at_pc u q s"
  by (simp_all add: at_pc_def)

lemma at_pc_unique: "at_pc t p s \<Longrightarrow> at_pc t q s \<Longrightarrow> p = q"
  by (simp add: at_pc_def)

lemma at_pc_length: "at_pc t p s \<Longrightarrow> t < length (log_pcs s)"
  by (simp add: at_pc_def)

text \<open>A thread is at one point; \<open>at_pc\<close> decides it.\<close>

lemma stream_step_inv:
  assumes I: "stream_inv s" and ok: "one_get e s" and st: "log_step e s = Some u"
  shows "stream_inv u"
proof (cases e)
  case (GetStream t)
  then have t: "at_pc t Outside s" "t < length (log_pcs s)" using ok by (simp_all add: at_pc_length)
  then have "\<not> at_pc t Inside s" "\<not> at_pc t Released s" "\<not> at_pc t TookMessage s" using at_pc_unique by blast+
  then have "u = goto t WaitsMessage s" using I st t GetStream by (auto simp: stream_inv_def lock_test_def split: if_splits)
  then show ?thesis using I t \<open>\<not> at_pc t Inside s\<close> \<open>\<not> at_pc t Released s\<close> \<open>\<not> at_pc t TookMessage s\<close>
    by (auto simp: stream_inv_def holds_message_def at_pc_goto cong del: option.case_cong_weak)
next
  case (TakeMessage t)
  then have t: "at_pc t WaitsMessage s" "t < length (log_pcs s)" using st by (auto simp: at_pc_length split: if_splits)
  then have n: "\<not> at_pc t Inside s" "\<not> at_pc t Released s" "\<not> at_pc t TookMessage s" using at_pc_unique by blast+
  then have "msg_owner s \<noteq> Some t" using I by (auto simp: stream_inv_def holds_message_def)
  then have f: "msg_owner s = None" "u = goto t TookMessage (s\<lparr>msg_owner := Some t, msg_depth := Suc (msg_depth s)\<rparr>)"
    using st t TakeMessage by (auto simp: lock_message_def split: if_splits)
  have "wrote s t = []" using I n by (simp add: stream_inv_def)
  then show ?thesis using I t n f by (auto simp: stream_inv_def holds_message_def at_pc_goto)
next
  case (RecordLock t)
  then have t: "at_pc t TookMessage s" "t < length (log_pcs s)" "u = lock_record t s" using st by (auto simp: at_pc_length split: if_splits)
  then have n: "\<not> at_pc t Inside s" using at_pc_unique by blast
  have o: "msg_owner s = Some t" using I t(1) by (auto simp: stream_inv_def holds_message_def)
  show ?thesis using I t n o by (auto simp: stream_inv_def holds_message_def at_pc_goto lock_record_def)
next
  case (Write t p)
  then have t: "at_pc t Inside s" "u = xsputn t p s" using st by (auto split: if_splits)
  then have o: "msg_owner s = Some t" using I by (auto simp: stream_inv_def holds_message_def)
  show ?thesis using I t o by (auto simp: stream_inv_def holds_message_def xsputn_def)
next
  case (Endl t)
  then have t: "at_pc t Inside s" "t < length (log_pcs s)" "u = sync_message t s" using st by (auto simp: at_pc_length split: if_splits)
  then have n: "\<not> at_pc t Released s" "\<not> at_pc t TookMessage s" using at_pc_unique by blast+
  have o: "msg_owner s = Some t" "msg_depth s = 1" "m_the_message s = wrote s t" using I t(1) by (auto simp: stream_inv_def holds_message_def)
  then show ?thesis using I t n
    by (auto simp: stream_inv_def holds_message_def at_pc_goto sync_message_def unlock_message_def butlast_conv_take Let_def)
next
  case (EndSync t)
  then have t: "at_pc t Released s" "t < length (log_pcs s)" "u = sync_unlocked t s" using st by (auto simp: at_pc_length split: if_splits)
  then have n: "\<not> at_pc t Inside s" "\<not> at_pc t TookMessage s" using at_pc_unique by blast+
  then have "msg_owner s \<noteq> Some t" using I by (auto simp: stream_inv_def holds_message_def)
  then show ?thesis using I t n by (auto simp: stream_inv_def holds_message_def at_pc_goto sync_unlocked_def split: option.splits)
qed

interpretation stream: guarded_invariant log_step one_get stream_inv
  by unfold_locales (rule stream_step_inv)

lemma stream_inv_start: "stream_inv (LogStream_ctor n)"
  by (auto simp: stream_inv_def LogStream_ctor_def holds_message_def at_pc_def)

lemma stream_inv_after: "along log_step one_get es (LogStream_ctor n) \<Longrightarrow> runs log_step es (LogStream_ctor n) = Some s \<Longrightarrow> stream_inv s"
  using stream.holds_after stream_inv_start by blast

text \<open>
  C28: As long as a thread gets a stream once for each message, the target receives every flushed message whole and without
  its last character, as its thread has written it, whatever the other threads write at the same time.
\<close>

theorem stream_whole_messages:
  assumes "along log_step one_get es (LogStream_ctor n)" and "runs log_step es (LogStream_ctor n) = Some s"
  shows "target_got s = map (\<lambda>(t, w). butlast w) (flushed s)"
  using stream_inv_after [OF assms] by (simp add: stream_inv_def)

text \<open>
  In such a program no thread waits for ever for lack of others that can go on: whenever a thread is on its way to its message or in it,
  some thread can take a step, and the thread that keeps the others waiting is one that can.
\<close>

theorem stream_no_deadlock:
  assumes "along log_step one_get es (LogStream_ctor n)" and "runs log_step es (LogStream_ctor n) = Some s" and "at_pc t p s" and "p \<noteq> Outside"
  shows "\<exists>e u. (e = TakeMessage t \<or> e = RecordLock t \<or> e = Endl t \<or> e = EndSync t \<or> (\<exists>v. msg_owner s = Some v \<and> p = WaitsMessage \<and> (e = RecordLock v \<or> e = Endl v))) \<and>
               log_step e s = Some u"
proof -
  have I: "stream_inv s" by (rule stream_inv_after [OF assms(1,2)])
  show ?thesis
  proof (cases p)
    case WaitsMessage
    show ?thesis
    proof (cases "msg_owner s")
      case None
      then have "log_step (TakeMessage t) s \<noteq> None" using assms(3) WaitsMessage by (simp add: lock_message_def)
      then show ?thesis by blast
    next
      case (Some v)
      then have "at_pc v TookMessage s \<or> at_pc v Inside s" using I by (simp add: stream_inv_def holds_message_def)
      then have "log_step (RecordLock v) s \<noteq> None \<or> log_step (Endl v) s \<noteq> None" by auto
      then show ?thesis using Some WaitsMessage by blast
    qed
  next
    case TookMessage
    then have "log_step (RecordLock t) s \<noteq> None" using assms(3) by simp
    then show ?thesis by blast
  next
    case Inside
    then have "log_step (Endl t) s \<noteq> None" using assms(3) by simp
    then show ?thesis by blast
  next
    case Released
    then have "log_step (EndSync t) s \<noteq> None" using assms(3) by simp
    then show ?thesis by blast
  qed (use assms(4) in simp)
qed

theorem stream_whole_messages_witness:
  "\<exists>s. runs log_step [GetStream 0, TakeMessage 0, RecordLock 0, Write 0 ''a'', GetStream 1, Write 0 [CHR 0x0A], Endl 0, TakeMessage 1, EndSync 0]
       (LogStream_ctor 2) = Some s \<and> target_got s = [''a''] \<and> msg_owner s = Some 1"
proof -
  let ?es = "[GetStream 0, TakeMessage 0, RecordLock 0, Write 0 ''a'', GetStream 1, Write 0 [CHR 0x0A], Endl 0, TakeMessage 1, EndSync 0]"
  have a: "along log_step one_get ?es (LogStream_ctor 2)" by code_simp
  have "\<exists>s. runs log_step ?es (LogStream_ctor 2) = Some s \<and> flushed s = [(0, ''a'' @ [CHR 0x0A])] \<and> msg_owner s = Some 1"
    by (simp add: LogStream_ctor_def at_pc_def lock_test_def goto_def lock_message_def lock_record_def xsputn_def sync_message_def unlock_message_def
        sync_unlocked_def numeral_2_eq_2 Let_def)
  then obtain s where s: "runs log_step ?es (LogStream_ctor 2) = Some s" "flushed s = [(0, ''a'' @ [CHR 0x0A])]" "msg_owner s = Some 1" by blast
  from stream_whole_messages [OF a s(1)] s show ?thesis by simp
qed

theorem stream_no_deadlock_witness:
  "\<exists>e u. log_step e (lock_test 0 (LogStream_ctor 1)) = Some u"
proof -
  have "along log_step one_get [GetStream 0] (LogStream_ctor 1)" "runs log_step [GetStream 0] (LogStream_ctor 1) = Some (lock_test 0 (LogStream_ctor 1))"
    "at_pc 0 WaitsMessage (lock_test 0 (LogStream_ctor 1))"
    by (simp_all add: LogStream_ctor_def at_pc_def lock_test_def goto_def)
  from stream_no_deadlock [OF this] show ?thesis by blast
qed

section \<open>A message in two expressions\<close>

text \<open>What holds of two threads once the second one has lost a count of the mutex.\<close>

definition stuck :: "log_stream \<Rightarrow> bool" where
  "stuck s \<longleftrightarrow> length (log_pcs s) = 2 \<and> at_pc 0 WaitsMessage s \<and> msg_owner s = Some 1 \<and>
     (if at_pc 1 TookMessage s \<or> at_pc 1 Inside s then 2 else 1) \<le> msg_depth s \<and> (at_pc 1 Outside s \<longrightarrow> m_locked_thread s \<noteq> Some 1)"

lemma stuck_step:
  assumes S: "stuck s" and st: "log_step e s = Some u"
  shows "stuck u"
proof -
  have t: "t = 1 \<and> \<not> at_pc 0 q s" if "at_pc t q s" "q \<noteq> WaitsMessage" for t q
    using that S by (auto simp: stuck_def at_pc_def less_2_cases_iff)
  have w: "lock_message t s = None" if "at_pc t WaitsMessage s" "t \<noteq> 1" for t using S that by (simp add: stuck_def lock_message_def)
  show ?thesis
  proof (cases e)
    case (GetStream t)
    then have "t = 1" "at_pc 1 Outside s \<or> at_pc 1 Inside s" "u = lock_test 1 s" using st t by (auto split: if_splits)
    then show ?thesis using S by (auto simp: stuck_def lock_test_def at_pc_goto dest: at_pc_unique split: if_splits)
  next
    case (TakeMessage t)
    then have "at_pc t WaitsMessage s" "lock_message t s = Some u" using st by (simp_all split: if_splits)
    then have "t = 1" using w [of t] by fastforce
    then show ?thesis using S st TakeMessage by (auto simp: stuck_def lock_message_def at_pc_goto split: if_splits)
  next
    case (RecordLock t)
    then have "t = 1" "at_pc 1 TookMessage s" using st t by (auto split: if_splits)
    then show ?thesis using S st RecordLock by (auto simp: stuck_def lock_record_def at_pc_goto split: if_splits)
  next
    case (Write t p)
    then have "t = 1" "at_pc 1 Inside s" using st t by (auto split: if_splits)
    then show ?thesis using S st Write by (auto simp: stuck_def xsputn_def split: if_splits)
  next
    case (Endl t)
    then have "t = 1" "at_pc 1 Inside s" using st t by (auto split: if_splits)
    then show ?thesis using S st Endl by (auto simp: stuck_def sync_message_def unlock_message_def at_pc_goto Let_def split: if_splits)
  next
    case (EndSync t)
    then have "t = 1" "at_pc 1 Released s" using st t by (auto split: if_splits)
    then show ?thesis using S st EndSync by (auto simp: stuck_def sync_unlocked_def at_pc_goto split: if_splits)
  qed
qed

lemma stuck_runs: "stuck s \<Longrightarrow> runs log_step es s = Some u \<Longrightarrow> stuck u"
  by (induction es arbitrary: s) (auto simp: runs_Cons_Some dest: stuck_step simp del: runs.simps(2))

text \<open>
  C29: A thread that gets the stream twice for one message, which \<open>lock\<close> means to allow, can block the others for ever: when it gets the
  mutex while the thread before it is still in \<open>sync\<close>, that thread clears its mark, its second \<open>lock\<close> takes the mutex once more, and
  \<open>sync\<close> unlocks it once. From then on, whatever happens, the other thread stays in \<open>lock\<close>, although nobody is in
  a message.
\<close>

theorem stream_stuck:
  "\<exists>es s. runs log_step es (LogStream_ctor 2) = Some s \<and> at_pc 1 Outside s \<and>
          (\<forall>fs. case runs log_step fs s of None \<Rightarrow> True | Some u \<Rightarrow> at_pc 0 WaitsMessage u \<and> log_step (TakeMessage 0) u = None)"
proof -
  let ?es = "[GetStream 0, TakeMessage 0, RecordLock 0, Endl 0, GetStream 1, TakeMessage 1, RecordLock 1, EndSync 0,
    GetStream 1, TakeMessage 1, RecordLock 1, Endl 1, EndSync 1, GetStream 0]"
  have "\<exists>s. runs log_step ?es (LogStream_ctor 2) = Some s \<and> stuck s \<and> at_pc 1 Outside s"
    by (simp add: LogStream_ctor_def at_pc_def lock_test_def goto_def lock_message_def lock_record_def sync_message_def unlock_message_def
        sync_unlocked_def stuck_def numeral_2_eq_2 Let_def)
  then obtain s where s: "runs log_step ?es (LogStream_ctor 2) = Some s" "stuck s" "at_pc 1 Outside s" by blast
  have "at_pc 0 WaitsMessage u \<and> log_step (TakeMessage 0) u = None" if "runs log_step fs s = Some u" for fs u
    using stuck_runs [OF s(2) that] by (simp add: stuck_def lock_message_def)
  then have "\<forall>fs. case runs log_step fs s of None \<Rightarrow> True | Some u \<Rightarrow> at_pc 0 WaitsMessage u \<and> log_step (TakeMessage 0) u = None"
    by (auto simp del: log_step.simps split: option.splits)
  then show ?thesis using s by blast
qed

end
