(* ===== verification/Spec2Isabelle.thy ===== *)
theory Spec2Isabelle
  imports SharedPtr Semaphore Barrier SyncAccess BitsStream Md5 StringToken StringTemplate CommandLine URI MessageQueue MemBuf TimeStamp TimeText Duration TaskPromises Pulser CfgFile FileName DirectoryWatcher DataBuffer Dictionary FileCopy LockFile Allocator Logging LogStream
begin

text \<open>
  A verification library for YAT, the C++ utility library in \<open>src/\<close>: headers in \<open>src/include/yat\<close>, code in \<open>src/src\<close>. Paths below are
  relative to these two.

  \<^bold>\<open>The program.\<close> YAT gives its clients active objects and what they need. A task (\<open>threading/Task\<close>) is a thread with a message queue
  (\<open>threading/MessageQ\<close>) of reference counted messages (\<open>threading/Message\<close>); a pulser (\<open>threading/Pulser\<close>) is a task with a periodic
  time-out; semaphores, a readers-writer mutex, a barrier, scoped locks and shared pointers serve the threads. Below them are data classes with no
  threads: byte swapping and bit streams, MD5 and CRC-32, buffers and pools, times and durations, strings with their tokenizers, templates, URIs,
  configuration files, the formatter, file names and files, dictionaries, and a log that all of them can write to.

  \<^bold>\<open>Conventions.\<close> A class is a record with the names of its members, a method a function that returns the changed object, an exception a value:
  \<open>Inl\<close> of a sum or \<open>Some\<close> of an error option. \<open>None\<close> of an option that is not a plain optional result is undefined behaviour of C++
  (a read outside a block, signed overflow, a dead object) or a call that does not return; each theory says which. Integers of the program are words
  or integers with their wrap-around written out, \<open>std::string\<close> is \<open>string\<close>, a C string ends at its first NUL. Loops that may not end are
  \<open>partial_function (option)\<close>; no definition has fuel, all other loops have termination proofs. A multi-threaded component is a transition
  system whose steps are the sections of the code between two points at which another thread can run: a critical section, or a single access to
  memory that several threads share. Theorems on these hold for every interleaving and every number of threads. The build is the 64-bit Linux one.

  \<^bold>\<open>Shared theories.\<close>
  \<^item> \<open>Prelude\<close>: words as lists of bytes, byte memories, the collections \<open>byte_simps\<close> and \<open>mem_simps\<close>.
  \<^item> \<open>Transitions\<close>: runs of partial steps, with the interfaces \<open>guarded_invariant\<close> (an invariant of careful clients), \<open>invariant_of\<close> and
    \<open>balance\<close> (a conserved quantity). \<open>Semaphore\<close>, \<open>Barrier\<close>, \<open>SyncAccess\<close>, \<open>SharedPtr\<close>, \<open>Pulser\<close>, \<open>CfgFile\<close>, \<open>DataBuffer\<close>,
    \<open>Allocator\<close> and \<open>LogStream\<close> interpret them.
  \<^item> \<open>Binary64\<close>: rounding of rational results to \<open>double\<close>, for the time code and the pool sizes.
  \<^item> \<open>StdString\<close>: what the code uses of \<open>std::string\<close> and of C strings.

  \<^bold>\<open>Bytes.\<close>
  \<^item> \<open>Endianness\<close> (\<open>bitsstream/Endianness.cpp\<close>): \<open>swap_2\<close> to \<open>swap_16\<close> and the array versions, portable (\<open>_p\<close>), x86-64 assembly (\<open>_x\<close>) and
    64-bit (\<open>_l\<close>). The locales \<open>region_swapper\<close>, \<open>element_swapper\<close> and \<open>array_swapper\<close> carry the array proofs. Which variants swap, and which
    one does not keep the order of its elements.
  \<^item> \<open>BitsStream\<close> (\<open>bitsstream/BitsStream.h\<close>): \<open>read_bits\<close> refines reading from a list of bits, with accounting, byte order and the undefined case.
  \<^item> \<open>Md5\<close> (\<open>md5/md5.cpp\<close>): the one-shot and the progressive calculator against RFC 1321, and the lengths for which progressive use goes wrong.
  \<^item> \<open>Crc32\<close>, \<open>MemBuf\<close> (\<open>memory/MemBuf.cpp\<close>): the table and the checksum against division of polynomials; the auto-sized buffer over a heap of blocks with
    ownership: writes, reads, round trips, and the interface \<open>byte_fifo\<close>.
  \<^item> \<open>DataBuffer\<close> (\<open>memory/DataBuffer.h, .i, .tpp\<close>): \<open>Buffer\<close>, \<open>ImageBuffer\<close> and \<open>CircularBuffer\<close>; bounds, and the circular buffer as a window
    on what was pushed.
  \<^item> \<open>Allocator\<close> (\<open>memory/Allocator.h, .tpp\<close>): the pool gives no block twice and frees none twice, if its client does not.

  \<^bold>\<open>Strings.\<close>
  \<^item> \<open>StringEdit\<close>, \<open>StringToken\<close>, \<open>StringMatch\<close> (class \<open>StringUtil\<close> of \<open>utils/String.cpp\<close>): trimming, replacement, hashes; tokens, split and join;
    comparison and wildcards.
  \<^item> \<open>Format\<close> (class \<open>Format\<close> there): the parser of fields and \<open>arg\<close>, with the state of the output stream.
  \<^item> \<open>StringTokenizer\<close>, \<open>StringTemplate\<close>, \<open>CommandLine\<close>, \<open>URI\<close> (\<open>utils/*.cpp\<close> of these names): tokens against a specification of splitting and when
    the loops end; substitution of symbols, with the interface \<open>symbol_environment\<close>; reading of arguments and all its errors; percent encoding,
    parsing and composing, with the matches of the regular expressions as parameters.
  \<^item> \<open>Dictionary\<close> (\<open>utils/Dictionary.h\<close>, \<open>Optional.h\<close>): the map against the interface \<open>string_map\<close>, and its text form.
  \<^item> \<open>Logging\<close>, \<open>LogStream\<close> (\<open>utils/Logging.cpp\<close>): filter, targets and catchers, formatted messages; the streams under several threads.

  \<^bold>\<open>Time\<close> (\<open>time/Time.cpp\<close>, \<open>time/Time.h\<close>).
  \<^item> \<open>Calendar\<close>: Julian day numbers and their inverse through \<open>double\<close>. \<open>TimeStamp\<close>: fields, setters, zones, Unix time. \<open>TimeText\<close>: printing and parsing
    by a format. \<open>Duration\<close>: durations, with signed overflow as undefined, and the incremental mean.

  \<^bold>\<open>Threads.\<close>
  \<^item> \<open>MessageQueue\<close>: post, next message, close, clear and the water marks as critical sections of any number of producers and consumers. No message is lost or
    duplicated, order by priority then age (interface \<open>stable_pq\<close>), no deadlock, and a drain below the low water mark wakes the producers.
  \<^item> \<open>TaskLoop\<close>, \<open>TaskPromises\<close>: above the queue, the thread loop, the life of a message from post to release, waiting callers. Reference counts are safe, the
    handler sees \<open>INIT\<close> first and \<open>EXIT\<close> last, waiting calls report what happened, and when the end of a task returns or hangs.
  \<^item> \<open>Pulser\<close> (above \<open>TaskLoop\<close>): the number of pulses. \<open>Semaphore\<close> (the POSIX one) and the readers-writer mutex: exclusion, no deadlock, and what a stolen
    unit or a spurious wake-up does. \<open>Barrier\<close>: who passes, and that a spurious wake-up lets a thread pass early. \<open>SyncAccess\<close>: its contract. \<open>SharedPtr\<close>: the counters of shared and weak pointers, one access to memory per step.

  \<^bold>\<open>Files\<close> (\<open>file/FileName.cpp\<close>, \<open>file/PosixFileImpl.cpp\<close>); the calls of the system are parameters, records of functions on a state of their own.
  \<^item> \<open>FileName\<close>: names and their parts, relative names, existence, directories, links. \<open>FileCopy\<close>: copies, sums and moves, where the predicate \<open>file_system\<close>
    says what the calls do (reads are complete, writes may be short, all may fail; a witness has a file system in memory). A copy is exact for every block size; its sum asks for
    a multiple of 64, which the default of \<open>2 ^ 20\<close> is, so that the progressive MD5 code stays clear of its fault. \<open>LockFile\<close>: locks and their descriptors, and \<open>info\<close>.
  \<^item> \<open>CfgFile\<close>: configuration files as text: a file that is written from sections is read back to them, all operations keep the type of the object, and what loading does not bear.
  \<^item> \<open>DirectoryWatcher\<close>: a client that applies the reported changes has the files of the last view.

  \<^bold>\<open>Bounds.\<close> Dates are proved for the years -4712 to 4500 (printed ones from 0), where the \<open>double\<close> steps of the calendar are exact enough and years have four digits; MD5
  for messages and calls that the 32-bit lengths of the code can count. All other statements have the bounds in their hypotheses.

  \<^bold>\<open>Not modelled.\<close> Wrappers of system calls whose content is the call (threads, mutexes, sockets, plug-ins, processes, the Windows files), the vendored regular
  expression and JSON code, type erasure (\<open>Any\<close>, callbacks, signals), operations on whole directories and on file systems, floating point arguments of the formatter, the texts
  of exceptions, and failing allocation except where a theory says so.
\<close>

end
